(* ===== verification/Kernel_Prelude.thy ===== *)
theory Kernel_Prelude
  imports Main "HOL-Library.Word" "HOL-Library.Monad_Syntax"
begin

section \<open>Shared vocabulary of the development\<close>

text \<open>
  The C types the kernel uses, its error codes, the \<^verbatim>\<open>ASSERT\<close> macro, bounded array
  access, and the generic lemmas the component theories rest on.

  A kernel function that may fail to return is modelled as a value of type \<open>'a option\<close>:
  \<open>None\<close> means that the call never comes back to its caller. That is what
  \<^verbatim>\<open>ASSERT\<close> of \<^verbatim>\<open>kernel/include/printk.h\<close> does when its condition is false
  (after printing, it spins in \<^verbatim>\<open>cli; hlt; jmp\<close> for ever; the log level set by
  \<^verbatim>\<open>zelda_config.h\<close> keeps assertions active), it is what a walk along a cyclic pointer
  chain does, and it is how an access outside an array is represented. Error codes are
  ordinary results and never \<open>None\<close>.
\<close>

unbundle bit_operations_syntax

type_synonym u8 = "8 word"
type_synonym u16 = "16 word"
type_synonym u32 = "32 word"
type_synonym u64 = "64 word"
type_synonym addr = "32 word"

abbreviation (input) NULL :: addr where
  "NULL \<equiv> 0"

subsection \<open>Error codes (\<^verbatim>\<open>kernel/include/zelda_posix.h\<close>)\<close>

abbreviation (input) OK :: int where "OK \<equiv> 0"
abbreviation (input) ERR_GENERIC :: int where "ERR_GENERIC \<equiv> 1"
abbreviation (input) ERR_OUT_OF_MEMORY :: int where "ERR_OUT_OF_MEMORY \<equiv> 2"
abbreviation (input) ERR_OUT_OF_RESOURCE :: int where "ERR_OUT_OF_RESOURCE \<equiv> 3"
abbreviation (input) ERR_INVALID_ARG :: int where "ERR_INVALID_ARG \<equiv> 4"
abbreviation (input) ERR_DEVICE_FAULT :: int where "ERR_DEVICE_FAULT \<equiv> 5"
abbreviation (input) ERR_PARTIAL :: int where "ERR_PARTIAL \<equiv> 6"
abbreviation (input) ERR_NOT_PRESENT :: int where "ERR_NOT_PRESENT \<equiv> 7"
abbreviation (input) ERR_NOT_FOUND :: int where "ERR_NOT_FOUND \<equiv> 8"
abbreviation (input) ERR_NOT_SUPPORTED :: int where "ERR_NOT_SUPPORTED \<equiv> 9"
abbreviation (input) ERR_BUSY :: int where "ERR_BUSY \<equiv> 10"
abbreviation (input) ERR_EXIST :: int where "ERR_EXIST \<equiv> 11"
abbreviation (input) ERR_IN_USE :: int where "ERR_IN_USE \<equiv> 12"
abbreviation (input) ERR_INTERRUPTED :: int where "ERR_INTERRUPTED \<equiv> 13"

subsection \<open>Assertions\<close>

definition kassert :: "bool \<Rightarrow> unit option" where
  "kassert c = (if c then Some () else None)"

lemma kassert_bind [simp]: "Option.bind (kassert c) f = (if c then f () else None)"
  by (simp add: kassert_def)

lemma kassert_True [simp]: "kassert True = Some ()"
  by (simp add: kassert_def)

lemma kassert_False [simp]: "kassert False = None"
  by (simp add: kassert_def)

subsection \<open>Arrays with C bounds\<close>

definition arr_get :: "'a list \<Rightarrow> int \<Rightarrow> 'a option" where
  "arr_get xs i = (if 0 \<le> i \<and> i < int (length xs) then Some (xs ! nat i) else None)"

definition arr_set :: "'a list \<Rightarrow> int \<Rightarrow> 'a \<Rightarrow> 'a list option" where
  "arr_set xs i v = (if 0 \<le> i \<and> i < int (length xs) then Some (xs[nat i := v]) else None)"

lemma arr_get_in [simp]: "0 \<le> i \<Longrightarrow> i < int (length xs) \<Longrightarrow> arr_get xs i = Some (xs ! nat i)"
  by (simp add: arr_get_def)

lemma arr_set_in [simp]: "0 \<le> i \<Longrightarrow> i < int (length xs) \<Longrightarrow> arr_set xs i v = Some (xs[nat i := v])"
  by (simp add: arr_set_def)

subsection \<open>C integers\<close>

text \<open>Wrapping 32-bit signed arithmetic, and the remainder operator of C, which truncates
  towards zero.\<close>

definition s32 :: "int \<Rightarrow> int" where
  "s32 x = signed_take_bit 31 x"

lemma s32_id [simp]: "- 2147483648 \<le> x \<Longrightarrow> x < 2147483648 \<Longrightarrow> s32 x = x"
  by (simp add: s32_def signed_take_bit_int_eq_self_iff)

definition c_mod :: "int \<Rightarrow> int \<Rightarrow> int" where
  "c_mod a b = sgn a * (\<bar>a\<bar> mod \<bar>b\<bar>)"

lemma c_mod_nonneg [simp]: "0 \<le> a \<Longrightarrow> 0 < b \<Longrightarrow> c_mod a b = a mod b"
  by (cases "a = 0") (simp_all add: c_mod_def)

definition c_rem :: "int \<Rightarrow> int \<Rightarrow> int option" where
  "c_rem a b = (if b = 0 then None else Some (c_mod a b))"

lemma c_rem_nonneg [simp]: "0 \<le> a \<Longrightarrow> 0 < b \<Longrightarrow> c_rem a b = Some (a mod b)"
  by (simp add: c_rem_def)

lemma mod_wrap: "0 \<le> x \<Longrightarrow> x < 2 * m \<Longrightarrow> x mod m = (if x < m then x else x - m)" for x m :: int
proof -
  assume x: "0 \<le> x" "x < 2 * m"
  have "x mod m = x - m" if "\<not> x < m"
  proof -
    have "x mod m = (x - m) mod m" by simp
    with x that show ?thesis by (simp del: minus_mod_self2)
  qed
  with x show ?thesis by simp
qed

subsection \<open>Pages (\<^verbatim>\<open>lib/include/types.h\<close>)\<close>

abbreviation (input) PAGE_SIZE :: u32 where "PAGE_SIZE \<equiv> 4096"
abbreviation (input) PAGE_MASK :: u32 where "PAGE_MASK \<equiv> 4095"

definition page_round_addr :: "u32 \<Rightarrow> u32" where
  "page_round_addr a =
     (if a AND PAGE_MASK \<noteq> 0 then PAGE_SIZE + (a AND NOT PAGE_MASK) else a)"

lemma page_mask_take_bit: "a AND PAGE_MASK = take_bit 12 (a :: u32)"
  by (simp add: take_bit_eq_mask mask_eq_exp_minus_1)

lemma page_align_push_drop: "a AND NOT PAGE_MASK = push_bit 12 (drop_bit 12 (a :: u32))"
proof -
  have "NOT PAGE_MASK = (NOT (mask 12) :: u32)"
    by (simp add: mask_eq_exp_minus_1)
  then have "a AND NOT PAGE_MASK = a AND NOT (mask 12)" by simp
  also have "\<dots> = push_bit 12 (drop_bit 12 a)"
    by (rule bit_eqI) (auto simp: bit_simps)
  finally show ?thesis .
qed

lemma page_split: "(a AND NOT PAGE_MASK) + (a AND PAGE_MASK) = (a :: u32)"
  by (simp only: page_mask_take_bit page_align_push_drop bits_ident)

lemma page_mask_unat: "unat (a AND PAGE_MASK) = unat (a :: u32) mod 4096"
  by (simp only: page_mask_take_bit unsigned_take_bit_eq) (simp add: take_bit_eq_mod)

lemma page_align_unat: "unat (a AND NOT PAGE_MASK) = unat (a :: u32) - unat a mod 4096"
proof -
  have "a AND NOT PAGE_MASK = a - (a AND PAGE_MASK)"
    by (metis page_split add_diff_cancel_right')
  moreover have "a AND PAGE_MASK \<le> a" by (rule word_and_le2)
  ultimately show ?thesis by (simp add: unat_sub page_mask_unat)
qed

definition page_aligned :: "u32 \<Rightarrow> bool" where
  "page_aligned a \<longleftrightarrow> a AND PAGE_MASK = 0"

lemma page_aligned_take_bit: "page_aligned a \<longleftrightarrow> take_bit 12 a = 0"
  by (simp only: page_aligned_def page_mask_take_bit)

lemma page_aligned_dvd: "page_aligned a \<longleftrightarrow> 4096 dvd unat a"
  using page_mask_unat [of a] by (simp add: page_aligned_def dvd_eq_mod_eq_0 flip: unat_eq_0)

lemma page_aligned_add: "page_aligned a \<Longrightarrow> page_aligned b \<Longrightarrow> page_aligned (a + b)"
  by (simp add: page_aligned_dvd unat_word_ariths dvd_mod)

lemma page_aligned_PAGE_SIZE [simp]: "page_aligned PAGE_SIZE"
  by (simp add: page_aligned_def)

lemma page_align_aligned [simp]: "page_aligned (a AND NOT PAGE_MASK)"
  by (simp add: page_aligned_def and.assoc)

lemma page_aligned_0 [simp]: "page_aligned 0"
  by (simp add: page_aligned_def)

lemma page_align_id: "page_aligned a \<Longrightarrow> a AND NOT PAGE_MASK = a"
  using page_split [of a] by (simp add: page_aligned_def)

lemma page_round_aligned: "page_aligned (page_round_addr a)"
  using page_aligned_add [OF page_aligned_PAGE_SIZE page_align_aligned, of a]
  by (simp add: page_round_addr_def page_aligned_def)

lemma page_round_unat:
  assumes "unat a \<le> 2 ^ 32 - 4096"
  shows "unat (page_round_addr a) = (if unat a mod 4096 = 0 then unat a else unat a - unat a mod 4096 + 4096)"
proof (cases "unat a mod 4096 = 0")
  case True
  then have "a AND PAGE_MASK = 0" using page_mask_unat [of a] by (simp flip: unat_eq_0)
  with True show ?thesis by (simp add: page_round_addr_def)
next
  case False
  then have "a AND PAGE_MASK \<noteq> 0" using page_mask_unat [of a] by (auto simp flip: unat_eq_0)
  moreover have "unat (a AND NOT PAGE_MASK) + 4096 < 2 ^ 32"
    unfolding page_align_unat using False assms by simp
  then have "unat (PAGE_SIZE + (a AND NOT PAGE_MASK)) = 4096 + unat (a AND NOT PAGE_MASK)"
    by (simp add: unat_plus_simple [THEN iffD1] word_le_nat_alt unat_word_ariths)
  ultimately show ?thesis unfolding page_align_unat using False by (simp add: page_round_addr_def)
qed

lemma page_round_ge: "unat a \<le> 2 ^ 32 - 4096 \<Longrightarrow> a \<le> page_round_addr a \<and> unat (page_round_addr a) < unat a + 4096"
  using mod_less_divisor [of 4096 "unat a"] by (auto simp: word_le_nat_alt page_round_unat)

lemma unat_u32_less: "unat (a :: u32) < 4294967296"
proof -
  have "unat a < 2 ^ LENGTH(32)" by (rule unsigned_less)
  then show ?thesis by simp
qed

lemma unat_plus_nowrap: "unat a + unat b < 4294967296 \<Longrightarrow> unat (a + b :: u32) = unat a + unat b"
  by (simp add: unat_word_ariths)

lemma unat_minus_nowrap: "unat b \<le> unat a \<Longrightarrow> unat (a - b :: u32) = unat a - unat b"
  by (simp add: unat_sub word_le_nat_alt)

lemma find_append: "find P (xs @ ys) = (case find P xs of None \<Rightarrow> find P ys | Some x \<Rightarrow> Some x)"
  by (induction xs) auto

lemma sint_small: "unat (a :: u32) < 2147483648 \<Longrightarrow> sint a = int (unat a)"
proof -
  assume "unat a < 2147483648"
  then have "uint a < 2147483648" using uint_nat [of a] by linarith
  then have "signed_take_bit 31 (uint a) = uint a"
    by (intro signed_take_bit_int_eq_self) (simp_all add: order_trans [OF _ uint_ge_0])
  then show ?thesis by (simp add: sint_uint)
qed

lemma unat_of_nat_id: "n < 4294967296 \<Longrightarrow> unat (of_nat n :: u32) = n"
  by (simp add: unsigned_of_nat take_bit_nat_eq_self)

lemma unat_plus_page: "unat a < 2 ^ 32 - 4096 \<Longrightarrow> unat (a + PAGE_SIZE) = unat a + 4096"
  by (simp add: unat_word_ariths)

definition page_of :: "u32 \<Rightarrow> u32" where
  "page_of a = a AND NOT PAGE_MASK"

lemma page_of_aligned [simp]: "page_aligned (page_of a)"
  unfolding page_of_def by (rule page_align_aligned)

lemma page_of_id: "page_aligned a \<Longrightarrow> page_of a = a"
  unfolding page_of_def by (rule page_align_id)

lemma page_of_push_drop: "page_of a = push_bit 12 (drop_bit 12 a)"
  unfolding page_of_def by (rule page_align_push_drop)

lemma unat_page_of: "unat (page_of a) = unat a - unat a mod 4096"
  unfolding page_of_def by (rule page_align_unat)

lemma page_of_add:
  assumes "page_aligned p" "unat d < 4096"
  shows "unat (p + d) = unat p + unat d" "page_of (p + d) = p"
proof -
  obtain k where k: "unat p = 4096 * k" using assms(1) by (auto simp: page_aligned_dvd elim: dvdE)
  have "k < 1048576" using unat_u32_less [of p] k by simp
  then show u: "unat (p + d) = unat p + unat d"
    using k assms(2) by (simp add: unat_word_ariths)
  have "unat (page_of (p + d)) = unat p" using u k assms(2) by (simp add: unat_page_of)
  then show "page_of (p + d) = p" by (simp add: word_unat_eq_iff)
qed

lemma unat_slot: "i < 1024 \<Longrightarrow> unat (4 * i :: u32) = 4 * unat i \<and> unat (4 * i) < 4096"
  by (simp add: word_less_nat_alt unat_word_ariths)

lemma page_of_slot: "page_aligned p \<Longrightarrow> i < 1024 \<Longrightarrow> page_of (p + 4 * i) = p"
  using page_of_add(2) [of p "4 * i"] unat_slot [of i] by simp

lemma slot_inject:
  assumes "page_aligned p" "page_aligned q" "i < 1024" "j < 1024"
  shows "p + 4 * i = q + 4 * j \<longleftrightarrow> p = q \<and> i = j"
proof
  assume eq: "p + 4 * i = q + 4 * j"
  then have "p = q" using page_of_slot assms by metis
  moreover from this eq have "4 * i = 4 * j" by simp
  then have "unat (4 * i) = unat (4 * j)" by (rule arg_cong)
  then have "unat i = unat j" using unat_slot assms(3,4) by simp
  ultimately show "p = q \<and> i = j" by (simp add: word_unat_eq_iff)
qed simp

lemma in_page_iff:
  assumes "page_aligned p"
  shows "unat (a - p) < 4096 \<longleftrightarrow> page_of a = p"
proof
  assume "unat (a - p) < 4096"
  from page_of_add(2) [OF assms this] show "page_of a = p" by simp
next
  assume "page_of a = p"
  then have "a - p = a AND PAGE_MASK" using page_split [of a] unfolding page_of_def by (metis add_diff_cancel_left')
  then show "unat (a - p) < 4096" using page_mask_unat [of a] by simp
qed

end
