(* ===== verification/Linked_List.thy ===== *)
theory Linked_List
  imports Kernel_Prelude
begin

section \<open>Intrusive doubly linked lists (\<^verbatim>\<open>lib/list.c\<close>, \<^verbatim>\<open>lib/include/list.h\<close>)\<close>

text \<open>
  The kernel links its objects through \<^verbatim>\<open>struct list_elem\<close> fields embedded in them. The
  model keeps the two pointers of every \<^verbatim>\<open>list_elem\<close> in a store indexed by the address of
  the field. Address 0 is an ordinary cell of the store: the kernel identity-maps its first
  page writable, so a store through a null pointer does not trap.

  The predicate \<open>dlist h head xs\<close> is the abstraction: the list headed at \<open>head\<close> holds exactly the
  elements \<open>xs\<close> in order. A head points to its first element with \<open>next\<close> and to its last with
  \<open>prev\<close>; the chain itself is terminated by null pointers at both ends. The locale
  \<open>intrusive_list\<close> states what the clients of \<^verbatim>\<open>list.c\<close> rely on; it is interpreted on the
  functions below.
\<close>

subsection \<open>The code\<close>

record list_elem =
  le_prev :: addr
  le_next :: addr

type_synonym lheap = "addr \<Rightarrow> list_elem"

definition set_prev :: "lheap \<Rightarrow> addr \<Rightarrow> addr \<Rightarrow> lheap" where
  "set_prev h a v = h(a := (h a)\<lparr>le_prev := v\<rparr>)"

definition set_next :: "lheap \<Rightarrow> addr \<Rightarrow> addr \<Rightarrow> lheap" where
  "set_next h a v = h(a := (h a)\<lparr>le_next := v\<rparr>)"

definition list_init :: "lheap \<Rightarrow> addr \<Rightarrow> lheap" where
  "list_init h head = set_next (set_prev h head NULL) head NULL"

definition list_last_elem :: "lheap \<Rightarrow> addr \<Rightarrow> addr" where
  "list_last_elem h head = le_prev (h head)"

definition list_first_elem :: "lheap \<Rightarrow> addr \<Rightarrow> addr" where
  "list_first_elem h head = le_next (h head)"

definition list_empty :: "lheap \<Rightarrow> addr \<Rightarrow> bool" where
  "list_empty h head = (le_next (h head) = NULL)"

definition list_node_detached :: "lheap \<Rightarrow> addr \<Rightarrow> addr \<Rightarrow> bool" where
  "list_node_detached h head node =
     (le_prev (h node) = NULL \<and> le_next (h node) = NULL \<and> list_first_elem h head \<noteq> node)"

definition list_append :: "lheap \<Rightarrow> addr \<Rightarrow> addr \<Rightarrow> lheap option" where
  "list_append h head e = do {
     kassert (le_prev (h e) = NULL);
     kassert (le_next (h e) = NULL);
     let h = (if le_next (h head) = NULL then set_next h head e else h);
     let h = (if le_prev (h head) \<noteq> NULL
              then (let h = set_prev h e (le_prev (h head)) in set_next h (le_prev (h head)) e)
              else h);
     Some (set_prev h head e)
   }"

definition list_prepend :: "lheap \<Rightarrow> addr \<Rightarrow> addr \<Rightarrow> lheap option" where
  "list_prepend h head e = do {
     kassert (le_prev (h e) = NULL);
     kassert (le_next (h e) = NULL);
     let h = (if le_next (h head) \<noteq> NULL
              then (let h = set_next h e (le_next (h head)) in set_prev h (le_next (h head)) e)
              else h);
     let h = set_next h head e;
     Some (if le_prev (h head) = NULL then set_prev h head e else h)
   }"

definition list_pop :: "lheap \<Rightarrow> addr \<Rightarrow> (addr \<times> lheap) option" where
  "list_pop h head =
     (if list_empty h head then Some (NULL, h)
      else do {
        kassert (le_prev (h head) \<noteq> NULL);
        let e = le_prev (h head);
        let h = set_prev h head (le_prev (h e));
        let h = (if le_prev (h e) \<noteq> NULL then set_next h (le_prev (h e)) NULL
                 else set_next h head NULL);
        let h = set_prev h e NULL;
        kassert (le_next (h e) = NULL);
        Some (e, h)
      })"

definition list_fetch :: "lheap \<Rightarrow> addr \<Rightarrow> (addr \<times> lheap) option" where
  "list_fetch h head =
     (if list_empty h head then Some (NULL, h)
      else do {
        kassert (le_prev (h head) \<noteq> NULL);
        let e = le_next (h head);
        let h = set_next h head (le_next (h e));
        let h = (if le_next (h e) \<noteq> NULL then set_prev h (le_next (h e)) NULL
                 else set_prev h head NULL);
        let h = set_next h e NULL;
        kassert (le_prev (h e) = NULL);
        Some (e, h)
      })"

text \<open>The \<^verbatim>\<open>LIST_FOREACH\<close> traversal, first as a search for one element and then as the
  sequence of all elements visited. Neither need return on a chain that is not
  terminated.\<close>

partial_function (option) foreach_find :: "lheap \<Rightarrow> addr \<Rightarrow> addr \<Rightarrow> bool option" where
  "foreach_find h cur e =
     (if cur = NULL then Some False
      else if cur = e then Some True
      else foreach_find h (le_next (h cur)) e)"

partial_function (option) foreach_from :: "lheap \<Rightarrow> addr \<Rightarrow> addr list option" where
  "foreach_from h cur =
     (if cur = NULL then Some []
      else Option.bind (foreach_from h (le_next (h cur))) (\<lambda>xs. Some (cur # xs)))"

definition list_elems :: "lheap \<Rightarrow> addr \<Rightarrow> addr list option" where
  "list_elems h head = foreach_from h (le_next (h head))"

definition list_delete :: "lheap \<Rightarrow> addr \<Rightarrow> addr \<Rightarrow> lheap option" where
  "list_delete h head e = do {
     found \<leftarrow> foreach_find h (le_next (h head)) e;
     kassert found;
     h \<leftarrow> (if le_prev (h head) = e then do {
             kassert (le_next (h e) = NULL);
             Some (set_prev h head (le_prev (h e))) }
           else Some h);
     h \<leftarrow> (if le_next (h head) = e then do {
             kassert (le_prev (h e) = NULL);
             Some (set_next h head (le_next (h e))) }
           else Some h);
     let h = (if le_next (h e) \<noteq> NULL then set_prev h (le_next (h e)) (le_prev (h e)) else h);
     let h = (if le_prev (h e) \<noteq> NULL then set_next h (le_prev (h e)) (le_next (h e)) else h);
     Some (set_next (set_prev h e NULL) e NULL)
   }"

definition element_in_list :: "lheap \<Rightarrow> addr \<Rightarrow> addr \<Rightarrow> bool option" where
  "element_in_list h head e =
     (if le_next (h e) = NULL \<and> le_prev (h e) = NULL \<and> le_next (h head) \<noteq> e \<and> le_prev (h head) \<noteq> e
      then Some False
      else foreach_find h (le_next (h head)) e)"

subsection \<open>Abstraction\<close>

primrec dseg :: "lheap \<Rightarrow> addr \<Rightarrow> addr \<Rightarrow> addr list \<Rightarrow> addr \<Rightarrow> bool" where
  "dseg h p x [] y \<longleftrightarrow> x = y"
| "dseg h p x (a # as) y \<longleftrightarrow>
     x = a \<and> a \<noteq> NULL \<and> le_prev (h a) = p \<and> dseg h a (le_next (h a)) as y"

definition dlist :: "lheap \<Rightarrow> addr \<Rightarrow> addr list \<Rightarrow> bool" where
  "dlist h head xs \<longleftrightarrow>
     head \<noteq> NULL \<and> head \<notin> set xs \<and> distinct xs \<and>
     dseg h NULL (le_next (h head)) xs NULL \<and>
     le_prev (h head) = last (NULL # xs)"

definition detached :: "lheap \<Rightarrow> addr \<Rightarrow> bool" where
  "detached h e \<longleftrightarrow> e \<noteq> NULL \<and> le_prev (h e) = NULL \<and> le_next (h e) = NULL"

lemmas lheap_upd = set_prev_def set_next_def

lemma dseg_upd [simp]: "u \<notin> set xs \<Longrightarrow> dseg (h(u := v)) p x xs y = dseg h p x xs y"
  by (induction xs arbitrary: p x) auto

lemma dseg_cong:
  assumes "\<And>a. a \<in> set xs \<Longrightarrow> h a = h' a"
  shows "dseg h p x xs y = dseg h' p x xs y"
  using assms by (induction xs arbitrary: p x) auto

lemma dseg_append [simp]:
  "dseg h p x (as @ bs) y \<longleftrightarrow> (\<exists>m. dseg h p x as m \<and> dseg h (last (p # as)) m bs y)"
  by (induction as arbitrary: p x) auto

lemma dseg_NULL_start: "dseg h p NULL xs y \<Longrightarrow> xs = []"
  by (cases xs) auto

lemma dlist_empty_iff: "dlist h head xs \<Longrightarrow> list_empty h head \<longleftrightarrow> xs = []"
  by (cases xs) (auto simp: dlist_def list_empty_def)

lemma dseg_NULL_notin: "dseg h p x xs y \<Longrightarrow> NULL \<notin> set xs"
  by (induction xs arbitrary: p x) auto

lemma dlist_NULL_notin: "dlist h head xs \<Longrightarrow> NULL \<notin> set xs"
  by (auto simp: dlist_def dest: dseg_NULL_notin)

lemma dseg_last_NULL: "dseg h p x xs y \<Longrightarrow> xs \<noteq> [] \<Longrightarrow> last xs \<noteq> NULL"
  by (metis dseg_NULL_notin last_in_set)

lemma dlist_cong:
  assumes "\<And>a. a \<in> insert head (set xs) \<Longrightarrow> h a = h' a"
  shows "dlist h head xs = dlist h' head xs"
  unfolding dlist_def using assms dseg_cong [of xs h h'] by auto

lemma list_init_dlist: "head \<noteq> NULL \<Longrightarrow> dlist (list_init h head) head []"
  by (simp add: list_init_def dlist_def lheap_upd)

lemma list_append_correct:
  assumes "dlist h head xs" "detached h e" "e \<notin> set xs" "e \<noteq> head"
  shows "\<exists>h'. list_append h head e = Some h' \<and> dlist h' head (xs @ [e]) \<and>
     (\<forall>a. a \<notin> insert head (insert e (set xs)) \<longrightarrow> h' a = h a)"
proof (cases xs rule: rev_cases)
  case Nil
  with assms show ?thesis
    by (auto simp: list_append_def dlist_def detached_def lheap_upd)
next
  case (snoc ys l)
  with assms show ?thesis
    by (cases "ys = []") (auto simp: list_append_def dlist_def detached_def lheap_upd dest: dseg_NULL_start)
qed

lemma list_prepend_correct:
  assumes "dlist h head xs" "detached h e" "e \<notin> set xs" "e \<noteq> head"
  shows "\<exists>h'. list_prepend h head e = Some h' \<and> dlist h' head (e # xs) \<and>
     (\<forall>a. a \<notin> insert head (insert e (set xs)) \<longrightarrow> h' a = h a)"
proof (cases xs)
  case Nil
  with assms show ?thesis
    by (auto simp: list_prepend_def dlist_def detached_def lheap_upd)
next
  case (Cons x ys)
  with assms show ?thesis
    by (cases "ys = []") (auto simp: list_prepend_def dlist_def detached_def lheap_upd dseg_last_NULL)
qed

lemma list_pop_correct:
  assumes "dlist h head (ys @ [l])"
  shows "\<exists>h'. list_pop h head = Some (l, h') \<and> dlist h' head ys \<and> detached h' l \<and>
     (\<forall>a. a \<notin> insert head (insert l (set ys)) \<longrightarrow> h' a = h a)"
proof (cases ys rule: rev_cases)
  case Nil
  with assms show ?thesis
    by (auto simp: list_pop_def list_empty_def dlist_def detached_def lheap_upd)
next
  case (snoc zs k)
  with assms show ?thesis
    by (auto simp: list_pop_def list_empty_def dlist_def detached_def lheap_upd dest: dseg_NULL_start)
qed

lemma list_fetch_correct:
  assumes "dlist h head (x # ys)"
  shows "\<exists>h'. list_fetch h head = Some (x, h') \<and> dlist h' head ys \<and> detached h' x \<and>
     (\<forall>a. a \<notin> insert head (insert x (set ys)) \<longrightarrow> h' a = h a)"
proof (cases ys)
  case Nil
  with assms show ?thesis
    by (auto simp: list_fetch_def list_empty_def dlist_def detached_def lheap_upd)
next
  case (Cons y zs)
  with assms show ?thesis
    by (cases "zs = []")
      (auto simp: list_fetch_def list_empty_def dlist_def detached_def lheap_upd dest: dseg_last_NULL)
qed

lemma list_pop_empty: "dlist h head [] \<Longrightarrow> list_pop h head = Some (NULL, h)"
  by (simp add: list_pop_def dlist_empty_iff)

lemma list_fetch_empty: "dlist h head [] \<Longrightarrow> list_fetch h head = Some (NULL, h)"
  by (simp add: list_fetch_def dlist_empty_iff)

lemma foreach_find_dseg: "dseg h p x xs NULL \<Longrightarrow> foreach_find h x e = Some (e \<in> set xs)"
proof (induction xs arbitrary: p x)
  case Nil
  then show ?case by (simp add: foreach_find.simps)
next
  case (Cons a xs)
  then show ?case by (auto simp: foreach_find.simps [of h a])
qed

lemma foreach_from_dseg: "dseg h p x xs NULL \<Longrightarrow> foreach_from h x = Some xs"
proof (induction xs arbitrary: p x)
  case Nil
  then show ?case by (simp add: foreach_from.simps)
next
  case (Cons a xs)
  then show ?case by (auto simp: foreach_from.simps [of h a])
qed

lemma list_elems_dlist: "dlist h head xs \<Longrightarrow> list_elems h head = Some xs"
  by (auto simp: list_elems_def dlist_def foreach_from_dseg)

lemma element_in_list_dlist:
  assumes "dlist h head xs"
  shows "element_in_list h head e = Some (e \<in> set xs)"
proof -
  have find: "foreach_find h (le_next (h head)) e = Some (e \<in> set xs)"
    using assms by (auto simp: dlist_def intro: foreach_find_dseg)
  have "e \<notin> set xs" if e: "le_next (h e) = NULL" "le_prev (h e) = NULL" "le_next (h head) \<noteq> e"
  proof
    assume "e \<in> set xs"
    then obtain as bs where xs: "xs = as @ e # bs" by (meson split_list)
    with assms e have "as = []"
      by (cases as rule: rev_cases) (auto simp: dlist_def dest: dlist_NULL_notin)
    with xs assms e show False by (auto simp: dlist_def)
  qed
  with find show ?thesis by (auto simp: element_in_list_def)
qed

lemma list_delete_correct:
  assumes "dlist h head (as @ e # bs)"
  shows "\<exists>h'. list_delete h head e = Some h' \<and> dlist h' head (as @ bs) \<and> detached h' e \<and>
     (\<forall>a. a \<notin> insert head (insert e (set as \<union> set bs)) \<longrightarrow> h' a = h a)"
proof -
  have find: "foreach_find h (le_next (h head)) e = Some True"
    using assms foreach_find_dseg [of h NULL "le_next (h head)" "as @ e # bs" e]
    by (auto simp: dlist_def)
  have last: "bs \<noteq> [] \<Longrightarrow> last bs \<noteq> e"
    using assms last_in_set [of bs] by (auto simp: dlist_def)
  have first: "as \<noteq> [] \<Longrightarrow> le_next (h head) \<noteq> e"
    using assms by (cases as) (auto simp: dlist_def)
  show ?thesis
  proof (cases as rule: rev_cases)
    case Nil
    with assms find last show ?thesis
      by (cases bs) (auto simp: list_delete_def dlist_def detached_def lheap_upd)
  next
    case (snoc as' a)
    with assms find last first show ?thesis
      by (cases bs) (auto simp: list_delete_def dlist_def detached_def lheap_upd dest: dseg_NULL_start)
  qed
qed

lemma list_delete_absent:
  "dlist h head xs \<Longrightarrow> e \<notin> set xs \<Longrightarrow> list_delete h head e = None"
  using foreach_find_dseg [of h NULL "le_next (h head)" xs e]
  by (simp add: list_delete_def dlist_def)

subsection \<open>The interface the clients of the list rely on\<close>

text \<open>The scheduler, the wait queues, the hash buckets, the packet pool and the file
  systems keep several lists in one memory. A family maps the address of each head to the
  sequence of its elements; distinct lists share no cell.\<close>

definition list_cells :: "(addr \<rightharpoonup> addr list) \<Rightarrow> addr set" where
  "list_cells M = (\<Union>head\<in>dom M. insert head (set (the (M head))))"

definition list_family :: "('h \<Rightarrow> addr \<Rightarrow> addr list \<Rightarrow> bool) \<Rightarrow> 'h \<Rightarrow> (addr \<rightharpoonup> addr list) \<Rightarrow> bool" where
  "list_family rep h M \<longleftrightarrow>
     (\<forall>head xs. M head = Some xs \<longrightarrow> rep h head xs) \<and>
     (\<forall>a b xs ys. M a = Some xs \<longrightarrow> M b = Some ys \<longrightarrow> a \<noteq> b \<longrightarrow>
        insert a (set xs) \<inter> insert b (set ys) = {})"

lemma list_cellsI: "M head = Some xs \<Longrightarrow> a = head \<or> a \<in> set xs \<Longrightarrow> a \<in> list_cells M"
  by (auto simp: list_cells_def intro!: bexI [of _ head])

lemma list_cellsE:
  assumes "a \<in> list_cells M"
  obtains head xs where "M head = Some xs" "a = head \<or> a \<in> set xs"
  using assms by (auto simp: list_cells_def)

lemma list_cells_shrink: "M a = Some xs \<Longrightarrow> set ys \<subseteq> set xs \<Longrightarrow> list_cells (M(a \<mapsto> ys)) \<subseteq> list_cells M"
  by (fastforce elim: list_cellsE intro: list_cellsI split: if_splits)

lemma list_family_rep: "list_family rep h M \<Longrightarrow> M head = Some xs \<Longrightarrow> rep h head xs"
  by (simp add: list_family_def)

lemma list_family_disjoint:
  "list_family rep h M \<Longrightarrow> M a = Some xs \<Longrightarrow> M b = Some ys \<Longrightarrow> a \<noteq> b \<Longrightarrow> x \<in> set xs \<Longrightarrow> x \<notin> set ys \<and> x \<noteq> b"
  by (fastforce simp: list_family_def)

locale intrusive_list =
  fixes rep :: "'h \<Rightarrow> addr \<Rightarrow> addr list \<Rightarrow> bool"
    and loose :: "'h \<Rightarrow> addr \<Rightarrow> bool"
    and cell :: "'h \<Rightarrow> addr \<Rightarrow> 'c"
    and append_op :: "'h \<Rightarrow> addr \<Rightarrow> addr \<Rightarrow> 'h option"
    and prepend_op :: "'h \<Rightarrow> addr \<Rightarrow> addr \<Rightarrow> 'h option"
    and pop_op :: "'h \<Rightarrow> addr \<Rightarrow> (addr \<times> 'h) option"
    and fetch_op :: "'h \<Rightarrow> addr \<Rightarrow> (addr \<times> 'h) option"
    and delete_op :: "'h \<Rightarrow> addr \<Rightarrow> addr \<Rightarrow> 'h option"
  assumes rep_distinct: "rep h head xs \<Longrightarrow> distinct (head # xs)"
    and rep_cong: "(\<And>a. a \<in> insert head (set xs) \<Longrightarrow> cell h' a = cell h a) \<Longrightarrow> rep h head xs \<Longrightarrow> rep h' head xs"
    and loose_cong: "cell h' a = cell h a \<Longrightarrow> loose h a \<Longrightarrow> loose h' a"
    and append_law: "\<lbrakk> rep h head xs; loose h e; e \<notin> set xs; e \<noteq> head \<rbrakk> \<Longrightarrow>
      \<exists>h'. append_op h head e = Some h' \<and> rep h' head (xs @ [e]) \<and>
        (\<forall>a. a \<notin> insert head (insert e (set xs)) \<longrightarrow> cell h' a = cell h a)"
    and prepend_law: "\<lbrakk> rep h head xs; loose h e; e \<notin> set xs; e \<noteq> head \<rbrakk> \<Longrightarrow>
      \<exists>h'. prepend_op h head e = Some h' \<and> rep h' head (e # xs) \<and>
        (\<forall>a. a \<notin> insert head (insert e (set xs)) \<longrightarrow> cell h' a = cell h a)"
    and pop_law: "rep h head (ys @ [l]) \<Longrightarrow>
      \<exists>h'. pop_op h head = Some (l, h') \<and> rep h' head ys \<and> loose h' l \<and>
        (\<forall>a. a \<notin> insert head (insert l (set ys)) \<longrightarrow> cell h' a = cell h a)"
    and fetch_law: "rep h head (x # ys) \<Longrightarrow>
      \<exists>h'. fetch_op h head = Some (x, h') \<and> rep h' head ys \<and> loose h' x \<and>
        (\<forall>a. a \<notin> insert head (insert x (set ys)) \<longrightarrow> cell h' a = cell h a)"
    and delete_law: "rep h head (as @ e # bs) \<Longrightarrow>
      \<exists>h'. delete_op h head e = Some h' \<and> rep h' head (as @ bs) \<and> loose h' e \<and>
        (\<forall>a. a \<notin> insert head (insert e (set as \<union> set bs)) \<longrightarrow> cell h' a = cell h a)"
begin

lemma family_update:
  assumes fam: "list_family rep h M" and head: "M head = Some xs" and rep': "rep h' head ys"
    and fresh: "\<And>x. x \<in> set ys \<Longrightarrow> x \<notin> set xs \<Longrightarrow> x \<notin> list_cells M"
    and frame: "\<And>a. a \<noteq> head \<Longrightarrow> a \<notin> set xs \<Longrightarrow> a \<notin> set ys \<Longrightarrow> cell h' a = cell h a"
  shows "list_family rep h' (M(head \<mapsto> ys))"
proof -
  have other: "insert a (set zs) \<inter> insert head (set ys) = {}"
    if a: "M a = Some zs" "a \<noteq> head" for a zs
  proof -
    have "insert a (set zs) \<inter> insert head (set xs) = {}"
      using fam a head by (simp add: list_family_def)
    moreover have "x \<notin> set ys" if "x \<in> insert a (set zs)" "x \<notin> set xs" for x
      using fresh [of x] list_cellsI [of M a zs x] a that by auto
    ultimately show ?thesis by blast
  qed
  have "rep h' a zs" if a: "M a = Some zs" "a \<noteq> head" for a zs
  proof (rule rep_cong)
    show "rep h a zs" using fam a by (simp add: list_family_def)
    show "cell h' x = cell h x" if "x \<in> insert a (set zs)" for x
      using frame [of x] other [OF a] fam a head that by (force simp: list_family_def)
  qed
  with rep' other fam show ?thesis
    unfolding list_family_def by (simp add: Int_commute)
qed

lemma family_append:
  assumes "list_family rep h M" "M head = Some xs" "loose h e" "e \<notin> list_cells M"
  shows "\<exists>h'. append_op h head e = Some h' \<and> list_family rep h' (M(head \<mapsto> xs @ [e])) \<and>
     (\<forall>a. a \<notin> insert e (list_cells M) \<longrightarrow> cell h' a = cell h a)"
proof -
  have e: "e \<notin> set xs" "e \<noteq> head" using assms(2,4) list_cellsI [of M head xs e] by auto
  obtain h' where h': "append_op h head e = Some h'" "rep h' head (xs @ [e])"
      "\<forall>a. a \<notin> insert head (insert e (set xs)) \<longrightarrow> cell h' a = cell h a"
    using append_law [OF list_family_rep [OF assms(1,2)] assms(3) e] by blast
  have "list_family rep h' (M(head \<mapsto> xs @ [e]))"
    by (rule family_update [OF assms(1,2) h'(2)]) (use assms(4) h'(3) in auto)
  with h' show ?thesis using list_cellsI [of M head xs] assms(2) by auto
qed

lemma family_prepend:
  assumes "list_family rep h M" "M head = Some xs" "loose h e" "e \<notin> list_cells M"
  shows "\<exists>h'. prepend_op h head e = Some h' \<and> list_family rep h' (M(head \<mapsto> e # xs)) \<and>
     (\<forall>a. a \<notin> insert e (list_cells M) \<longrightarrow> cell h' a = cell h a)"
proof -
  have e: "e \<notin> set xs" "e \<noteq> head" using assms(2,4) list_cellsI [of M head xs e] by auto
  obtain h' where h': "prepend_op h head e = Some h'" "rep h' head (e # xs)"
      "\<forall>a. a \<notin> insert head (insert e (set xs)) \<longrightarrow> cell h' a = cell h a"
    using prepend_law [OF list_family_rep [OF assms(1,2)] assms(3) e] by blast
  have "list_family rep h' (M(head \<mapsto> e # xs))"
    by (rule family_update [OF assms(1,2) h'(2)]) (use assms(4) h'(3) in auto)
  with h' show ?thesis using list_cellsI [of M head xs] assms(2) by auto
qed

lemma family_fetch:
  assumes "list_family rep h M" "M head = Some (x # ys)"
  shows "\<exists>h'. fetch_op h head = Some (x, h') \<and> list_family rep h' (M(head \<mapsto> ys)) \<and> loose h' x \<and>
     (\<forall>a. a \<notin> list_cells M \<longrightarrow> cell h' a = cell h a)"
proof -
  obtain h' where h': "fetch_op h head = Some (x, h')" "rep h' head ys" "loose h' x"
      "\<forall>a. a \<notin> insert head (insert x (set ys)) \<longrightarrow> cell h' a = cell h a"
    using fetch_law [OF list_family_rep [OF assms]] by blast
  have "list_family rep h' (M(head \<mapsto> ys))"
    by (rule family_update [OF assms h'(2)]) (use h'(4) in auto)
  with h' show ?thesis using list_cellsI [of M head "x # ys"] assms(2) by auto
qed

lemma family_delete:
  assumes "list_family rep h M" "M head = Some xs" "e \<in> set xs"
  shows "\<exists>h'. delete_op h head e = Some h' \<and> list_family rep h' (M(head \<mapsto> remove1 e xs)) \<and> loose h' e \<and>
     (\<forall>a. a \<notin> list_cells M \<longrightarrow> cell h' a = cell h a)"
proof -
  from \<open>e \<in> set xs\<close> obtain as bs where xs: "xs = as @ e # bs" "e \<notin> set as" by (meson split_list_first)
  with rep_distinct [OF list_family_rep [OF assms(1,2)]] have rm: "remove1 e xs = as @ bs"
    by (simp add: remove1_append)
  obtain h' where h': "delete_op h head e = Some h'" "rep h' head (as @ bs)" "loose h' e"
      "\<forall>a. a \<notin> insert head (insert e (set as \<union> set bs)) \<longrightarrow> cell h' a = cell h a"
    using delete_law [of h head as e bs] list_family_rep [OF assms(1,2)] xs by blast
  have "list_family rep h' (M(head \<mapsto> remove1 e xs))"
    unfolding rm by (rule family_update [OF assms(1,2) h'(2)]) (use h'(4) xs in auto)
  with h' show ?thesis using list_cellsI [of M head xs] assms(2) xs by auto
qed

text \<open>Moving an element between two lists of the family, the step the scheduler and the
  wait queues make: delete it from one list and append it to another.\<close>

lemma family_move:
  assumes fam: "list_family rep h M" and A: "M a = Some xs" "e \<in> set xs" and B: "M b = Some ys" "a \<noteq> b"
  shows "\<exists>h1 h2. delete_op h a e = Some h1 \<and> append_op h1 b e = Some h2 \<and>
     list_family rep h2 (M(a \<mapsto> remove1 e xs, b \<mapsto> ys @ [e])) \<and>
     (\<forall>c. c \<notin> list_cells M \<longrightarrow> cell h2 c = cell h c)"
proof -
  let ?M = "M(a \<mapsto> remove1 e xs)"
  obtain h1 where h1: "delete_op h a e = Some h1" "list_family rep h1 ?M" "loose h1 e"
      "\<forall>c. c \<notin> list_cells M \<longrightarrow> cell h1 c = cell h c"
    using family_delete [OF fam A] by blast
  have dist: "distinct (a # xs)" by (rule rep_distinct [OF list_family_rep [OF fam A(1)]])
  have "e \<notin> insert c (set (the (?M c)))" if "c \<in> dom ?M" for c
    using list_family_disjoint [OF fam A(1), of c] A dist that by (cases "c = a") auto
  then have e: "e \<notin> list_cells ?M" unfolding list_cells_def by blast
  have sub: "insert e (list_cells ?M) \<subseteq> list_cells M"
    using list_cells_shrink [of M a xs "remove1 e xs"] set_remove1_subset [of e xs] list_cellsI [of M a xs e] A by blast
  obtain h2 where "append_op h1 b e = Some h2" "list_family rep h2 (?M(b \<mapsto> ys @ [e]))"
      "\<forall>c. c \<notin> insert e (list_cells ?M) \<longrightarrow> cell h2 c = cell h1 c"
    using family_append [OF h1(2) _ h1(3) e, of b ys] B by auto
  with h1 sub show ?thesis by (metis (no_types, lifting) subsetD)
qed

end

interpretation kl: intrusive_list dlist detached "\<lambda>h a. h a"
  list_append list_prepend list_pop list_fetch list_delete
proof
  show "distinct (head # xs)" if "dlist h head xs" for h head xs
    using that by (simp add: dlist_def)
  show "dlist h' head xs" if "\<And>a. a \<in> insert head (set xs) \<Longrightarrow> h' a = h a" "dlist h head xs"
    for h h' :: lheap and head xs
    using that dlist_cong [of head xs h h'] by auto
qed (use list_append_correct list_prepend_correct list_pop_correct list_fetch_correct
      list_delete_correct in \<open>auto simp: detached_def\<close>)

subsection \<open>Operation sequences refine a sequence with two ends\<close>

datatype list_op = L_append addr | L_prepend addr | L_pop | L_fetch | L_delete addr

fun list_step :: "lheap \<Rightarrow> addr \<Rightarrow> list_op \<Rightarrow> (addr \<times> lheap) option" where
  "list_step h head (L_append e) = map_option (Pair e) (list_append h head e)"
| "list_step h head (L_prepend e) = map_option (Pair e) (list_prepend h head e)"
| "list_step h head L_pop = list_pop h head"
| "list_step h head L_fetch = list_fetch h head"
| "list_step h head (L_delete e) = map_option (Pair e) (list_delete h head e)"

fun list_run :: "lheap \<Rightarrow> addr \<Rightarrow> list_op list \<Rightarrow> (addr list \<times> lheap) option" where
  "list_run h head [] = Some ([], h)"
| "list_run h head (p # ps) = do {
     (r, h) \<leftarrow> list_step h head p;
     (rs, h) \<leftarrow> list_run h head ps;
     Some (r # rs, h) }"

fun spec_step :: "addr list \<Rightarrow> list_op \<Rightarrow> (addr \<times> addr list) option" where
  "spec_step xs (L_append e) = (if e \<in> set xs then None else Some (e, xs @ [e]))"
| "spec_step xs (L_prepend e) = (if e \<in> set xs then None else Some (e, e # xs))"
| "spec_step xs L_pop = Some (if xs = [] then (NULL, []) else (last xs, butlast xs))"
| "spec_step xs L_fetch = Some (if xs = [] then (NULL, []) else (hd xs, tl xs))"
| "spec_step xs (L_delete e) = (if e \<in> set xs then Some (e, remove1 e xs) else None)"

fun spec_run :: "addr list \<Rightarrow> list_op list \<Rightarrow> (addr list \<times> addr list) option" where
  "spec_run xs [] = Some ([], xs)"
| "spec_run xs (p # ps) = do {
     (r, xs) \<leftarrow> spec_step xs p;
     (rs, xs) \<leftarrow> spec_run xs ps;
     Some (r # rs, xs) }"

fun op_elem :: "list_op \<Rightarrow> addr set" where
  "op_elem (L_append e) = {e}"
| "op_elem (L_prepend e) = {e}"
| "op_elem (L_delete e) = {e}"
| "op_elem _ = {}"

definition pool_inv :: "addr set \<Rightarrow> lheap \<Rightarrow> addr \<Rightarrow> addr list \<Rightarrow> bool" where
  "pool_inv U h head xs \<longleftrightarrow>
     dlist h head xs \<and> set xs \<subseteq> U \<and> head \<notin> U \<and> (\<forall>e\<in>U - set xs. detached h e)"

lemma pool_inv_step:
  assumes "pool_inv U h head xs" "dlist h' head ys" "set ys \<subseteq> U"
    and "\<And>e. e \<in> set xs \<Longrightarrow> e \<notin> set ys \<Longrightarrow> detached h' e"
    and "\<And>a. a \<notin> insert head (set xs \<union> set ys) \<Longrightarrow> h' a = h a"
  shows "pool_inv U h' head ys"
proof -
  have "detached h' e" if e: "e \<in> U" "e \<notin> set ys" for e
  proof (cases "e \<in> set xs")
    case False
    with assms(1) e have "e \<noteq> head" "detached h e" by (auto simp: pool_inv_def)
    with False e show ?thesis using assms(5) [of e] by (simp add: detached_def)
  qed (use assms(4) e in blast)
  with assms(1-3) show ?thesis by (simp add: pool_inv_def)
qed

lemma list_step_refines:
  assumes inv: "pool_inv U h head xs" and "op_elem p \<subseteq> U" "spec_step xs p = Some (r, ys)"
  shows "\<exists>h'. list_step h head p = Some (r, h') \<and> pool_inv U h' head ys"
proof -
  have rep: "dlist h head xs" and U: "set xs \<subseteq> U" "head \<notin> U"
    and det: "\<And>e. e \<in> U \<Longrightarrow> e \<notin> set xs \<Longrightarrow> detached h e"
    using inv by (auto simp: pool_inv_def)
  show ?thesis
  proof (cases p)
    case (L_append e)
    with assms have e: "e \<in> U" "e \<notin> set xs" "r = e" "ys = xs @ [e]" by (auto split: if_splits)
    with U det list_append_correct [OF rep, of e] obtain h' where "list_append h head e = Some h'"
        "dlist h' head ys" "\<forall>a. a \<notin> insert head (insert e (set xs)) \<longrightarrow> h' a = h a" by auto
    then show ?thesis using L_append e U pool_inv_step [OF inv, of h' ys] by auto
  next
    case (L_prepend e)
    with assms have e: "e \<in> U" "e \<notin> set xs" "r = e" "ys = e # xs" by (auto split: if_splits)
    with U det list_prepend_correct [OF rep, of e] obtain h' where "list_prepend h head e = Some h'"
        "dlist h' head ys" "\<forall>a. a \<notin> insert head (insert e (set xs)) \<longrightarrow> h' a = h a" by auto
    then show ?thesis using L_prepend e U pool_inv_step [OF inv, of h' ys] by auto
  next
    case L_pop
    show ?thesis
    proof (cases xs rule: rev_cases)
      case Nil
      with L_pop assms rep show ?thesis by (simp add: list_pop_empty)
    next
      case (snoc zs l)
      with L_pop assms have e: "r = l" "ys = zs" by auto
      from list_pop_correct [of h head zs l] rep snoc obtain h' where "list_pop h head = Some (l, h')"
          "dlist h' head zs" "detached h' l" "\<forall>a. a \<notin> insert head (insert l (set zs)) \<longrightarrow> h' a = h a" by auto
      then show ?thesis using L_pop e U snoc pool_inv_step [OF inv, of h' ys] by auto
    qed
  next
    case L_fetch
    show ?thesis
    proof (cases xs)
      case Nil
      with L_fetch assms rep show ?thesis by (simp add: list_fetch_empty)
    next
      case (Cons l zs)
      with L_fetch assms have e: "r = l" "ys = zs" by auto
      from list_fetch_correct [of h head l zs] rep Cons obtain h' where "list_fetch h head = Some (l, h')"
          "dlist h' head zs" "detached h' l" "\<forall>a. a \<notin> insert head (insert l (set zs)) \<longrightarrow> h' a = h a" by auto
      then show ?thesis using L_fetch e U Cons pool_inv_step [OF inv, of h' ys] by auto
    qed
  next
    case (L_delete e)
    with assms have e: "e \<in> set xs" "r = e" "ys = remove1 e xs" by (auto split: if_splits)
    from e(1) obtain as bs where xs: "xs = as @ e # bs" "e \<notin> set as" by (meson split_list_first)
    then have rm: "remove1 e xs = as @ bs" by (simp add: remove1_append)
    from list_delete_correct [of h head as e bs] rep xs obtain h' where "list_delete h head e = Some h'"
        "dlist h' head (as @ bs)" "detached h' e"
        "\<forall>a. a \<notin> insert head (insert e (set as \<union> set bs)) \<longrightarrow> h' a = h a" by auto
    then show ?thesis using L_delete e U xs rm pool_inv_step [OF inv, of h' ys] by auto
  qed
qed

text \<open>C1. Any sequence of list_append, list_prepend, list_pop, list_fetch and list_delete calls
  that a plain sequence with two ends allows (no element inserted twice, only elements of
  the list deleted) is carried out by the linked list: every call returns, no assertion
  fires, the results are the ones the plain sequence gives, and traversing the list
  afterwards visits exactly the elements of the plain sequence, in order.\<close>

theorem list_run_refines:
  assumes "pool_inv U h head xs" "\<forall>p\<in>set ps. op_elem p \<subseteq> U" "spec_run xs ps = Some (rs, ys)"
  shows "\<exists>h'. list_run h head ps = Some (rs, h') \<and> list_elems h' head = Some ys \<and> pool_inv U h' head ys"
  using assms
proof (induction ps arbitrary: h xs rs)
  case Nil
  then show ?case by (auto simp: pool_inv_def list_elems_dlist)
next
  case (Cons p ps)
  then obtain r zs rs' where sp: "spec_step xs p = Some (r, zs)" "spec_run zs ps = Some (rs', ys)" "rs = r # rs'"
    by (auto split: bind_splits)
  obtain h1 where h1: "list_step h head p = Some (r, h1)" "pool_inv U h1 head zs"
    using list_step_refines [OF Cons.prems(1) _ sp(1)] Cons.prems(2) by auto
  then show ?case using Cons.IH [OF h1(2) _ sp(2)] Cons.prems(2) sp(3) by auto
qed

theorem list_run_refines_witness:
  "\<exists>h'. list_run (list_init (\<lambda>_. \<lparr>le_prev = 0, le_next = 0\<rparr>) 100) 100
       [L_append 8, L_prepend 16, L_append 24, L_delete 8, L_pop, L_fetch, L_fetch] =
     Some ([8, 16, 24, 8, 24, 16, 0], h') \<and> list_elems h' 100 = Some [] \<and> pool_inv {8, 16, 24} h' 100 []"
  using list_run_refines [of "{8, 16, 24}" "list_init (\<lambda>_. \<lparr>le_prev = 0, le_next = 0\<rparr>) 100" 100 "[]"
      "[L_append 8, L_prepend 16, L_append 24, L_delete 8, L_pop, L_fetch, L_fetch]"
      "[8, 16, 24, 8, 24, 16, 0]" "[]"]
  by (simp add: pool_inv_def dlist_def detached_def list_init_def lheap_upd)

end
