(* ===== verification/Ring_Buffer.thy ===== *)
theory Ring_Buffer
  imports Kernel_Prelude
begin

section \<open>Byte ring (\<^verbatim>\<open>lib/include/ring.h\<close>)\<close>

text \<open>
  The byte stream queue over a static array that the terminals and the keyboard use. One
  slot is always left free, so that a full ring can be told from an empty one. Indices are
  C \<^verbatim>\<open>int32_t\<close>; a division by a zero \<^verbatim>\<open>ring_size\<close> and an access outside the buffer
  give \<open>None\<close>.
\<close>

record ring =
  ring_size :: int
  front :: int
  rear :: int
  buffer :: "u8 list"

definition ring_reset :: "ring \<Rightarrow> ring" where
  "ring_reset r = r\<lparr>front := 0, rear := 0\<rparr>"

definition ring_empty :: "ring \<Rightarrow> bool" where
  "ring_empty r \<longleftrightarrow> front r = rear r"

definition ring_full :: "ring \<Rightarrow> bool option" where
  "ring_full r = do {
     next \<leftarrow> c_rem (s32 (rear r + 1)) (ring_size r);
     Some (next = front r) }"

definition ring_length :: "ring \<Rightarrow> int option" where
  "ring_length r = c_rem (s32 (rear r + ring_size r - front r)) (ring_size r)"

function write_ring_loop :: "ring \<Rightarrow> u8 list \<Rightarrow> int \<Rightarrow> int \<Rightarrow> (int \<times> ring) option" where
  "write_ring_loop r ptr left result =
     (if left > 0 then do {
        full \<leftarrow> ring_full r;
        if full then Some (result, r)
        else do {
          v \<leftarrow> arr_get ptr result;
          b \<leftarrow> arr_set (buffer r) (rear r) v;
          next \<leftarrow> c_rem (s32 (rear r + 1)) (ring_size r);
          write_ring_loop (r\<lparr>buffer := b, rear := next\<rparr>) ptr (left - 1) (result + 1)
        } }
      else Some (result, r))"
  by pat_completeness auto
termination by (relation "measure (\<lambda>(r, ptr, left, result). nat left)") auto

definition write_ring :: "ring \<Rightarrow> u8 list \<Rightarrow> int \<Rightarrow> (int \<times> ring) option" where
  "write_ring r ptr sz = write_ring_loop r ptr sz 0"

function read_ring_loop :: "ring \<Rightarrow> u8 list \<Rightarrow> int \<Rightarrow> int \<Rightarrow> (int \<times> u8 list \<times> ring) option" where
  "read_ring_loop r ptr left result =
     (if left > 0 then
        (if ring_empty r then Some (result, ptr, r)
         else do {
           v \<leftarrow> arr_get (buffer r) (front r);
           ptr \<leftarrow> arr_set ptr result v;
           next \<leftarrow> c_rem (s32 (front r + 1)) (ring_size r);
           read_ring_loop (r\<lparr>front := next\<rparr>) ptr (left - 1) (result + 1)
         })
      else Some (result, ptr, r))"
  by pat_completeness auto
termination by (relation "measure (\<lambda>(r, ptr, left, result). nat left)") auto

definition read_ring :: "ring \<Rightarrow> u8 list \<Rightarrow> int \<Rightarrow> (int \<times> u8 list \<times> ring) option" where
  "read_ring r ptr sz = read_ring_loop r ptr sz 0"

definition ring_enqueue :: "ring \<Rightarrow> u8 \<Rightarrow> (int \<times> ring) option" where
  "ring_enqueue r v = write_ring r [v] 1"

definition ring_dequeue :: "ring \<Rightarrow> u8 \<Rightarrow> (int \<times> u8 \<times> ring) option" where
  "ring_dequeue r v = do { (n, ptr, r) \<leftarrow> read_ring r [v] 1; Some (n, hd ptr, r) }"

declare write_ring_loop.simps [simp del] read_ring_loop.simps [simp del]

subsection \<open>Invariant and abstraction\<close>

definition wf_ring :: "ring \<Rightarrow> bool" where
  "wf_ring r \<longleftrightarrow> 0 < ring_size r \<and> ring_size r \<le> 2 ^ 30 \<and> ring_size r \<le> int (length (buffer r)) \<and>
     0 \<le> front r \<and> front r < ring_size r \<and> 0 \<le> rear r \<and> rear r < ring_size r"

definition ring_count :: "ring \<Rightarrow> nat" where
  "ring_count r = nat (if front r \<le> rear r then rear r - front r else rear r + ring_size r - front r)"

definition ring_bytes :: "ring \<Rightarrow> u8 list" where
  "ring_bytes r = map (\<lambda>i. buffer r ! nat ((front r + int i) mod ring_size r)) [0..<ring_count r]"

definition ring_room :: "ring \<Rightarrow> nat" where
  "ring_room r = nat (ring_size r) - 1 - ring_count r"

lemma length_ring_bytes [simp]: "length (ring_bytes r) = ring_count r"
  by (simp add: ring_bytes_def)

lemma ring_bytes_nth: "i < ring_count r \<Longrightarrow> ring_bytes r ! i = buffer r ! nat ((front r + int i) mod ring_size r)"
  by (simp add: ring_bytes_def)

lemma ring_full_room:
  "wf_ring r \<Longrightarrow> ring_full r = Some (ring_room r = 0)"
  by (auto simp: wf_ring_def ring_full_def ring_room_def ring_count_def mod_wrap split: if_splits)

lemma ring_empty_count: "wf_ring r \<Longrightarrow> ring_empty r \<longleftrightarrow> ring_count r = 0"
  by (auto simp: wf_ring_def ring_empty_def ring_count_def)

lemma ring_length_count: "wf_ring r \<Longrightarrow> ring_length r = Some (int (ring_count r))"
  by (auto simp: wf_ring_def ring_length_def ring_count_def mod_wrap)

lemma wrap_index:
  fixes f r s i c :: int
  assumes "0 \<le> f" "f < s" "0 \<le> r" "r < s" "c = (if f \<le> r then r - f else r + s - f)" "0 \<le> i" "i \<le> c"
  shows "(f + i) mod s = r \<longleftrightarrow> i = c"
proof -
  have "(f + i) mod s = (if f + i < s then f + i else f + i - s)"
    using assms by (intro mod_wrap) (simp_all split: if_splits)
  with assms show ?thesis by (auto split: if_splits)
qed

lemma ring_count_int:
  "wf_ring r \<Longrightarrow> int (ring_count r) = (if front r \<le> rear r then rear r - front r else rear r + ring_size r - front r)"
  by (simp add: wf_ring_def ring_count_def)

lemma ring_count_le: "wf_ring r \<Longrightarrow> ring_count r < nat (ring_size r)"
  by (auto simp: wf_ring_def ring_count_def)

lemma ring_put_one:
  fixes v :: u8
  assumes "wf_ring r" "ring_room r > 0"
  defines "r' \<equiv> r\<lparr>buffer := (buffer r)[nat (rear r) := v], rear := (rear r + 1) mod ring_size r\<rparr>"
  shows "wf_ring r'" "ring_bytes r' = ring_bytes r @ [v]" "ring_room r' = ring_room r - 1"
proof -
  have cnt: "ring_count r' = Suc (ring_count r)"
    using assms by (auto simp: wf_ring_def ring_count_def ring_room_def mod_wrap split: if_splits)
  show "wf_ring r'" using assms by (auto simp: wf_ring_def)
  show "ring_room r' = ring_room r - 1" using cnt by (simp add: ring_room_def r'_def)
  show "ring_bytes r' = ring_bytes r @ [v]"
  proof (rule nth_equalityI)
    fix i assume "i < length (ring_bytes r')"
    then have i: "i < Suc (ring_count r)" by (simp add: cnt)
    have "(front r + int i) mod ring_size r = rear r \<longleftrightarrow> int i = int (ring_count r)"
      using i assms(1) ring_count_int [OF assms(1)] by (intro wrap_index) (simp_all add: wf_ring_def)
    then have idx: "nat ((front r + int i) mod ring_size r) = nat (rear r) \<longleftrightarrow> i = ring_count r"
      using assms(1) by (simp add: wf_ring_def eq_nat_nat_iff)
    have "ring_bytes r' ! i = (buffer r)[nat (rear r) := v] ! nat ((front r + int i) mod ring_size r)"
      using i cnt by (simp add: ring_bytes_nth r'_def)
    moreover have "nat (rear r) < length (buffer r)" using assms(1) by (auto simp: wf_ring_def)
    ultimately show "ring_bytes r' ! i = (ring_bytes r @ [v]) ! i"
      using i idx by (cases "i = ring_count r") (simp_all add: nth_append ring_bytes_nth)
  qed (simp add: cnt)
qed

lemma ring_get_one:
  assumes "wf_ring r" "ring_count r > 0"
  defines "r' \<equiv> r\<lparr>front := (front r + 1) mod ring_size r\<rparr>"
  shows "wf_ring r'" "ring_bytes r = buffer r ! nat (front r) # ring_bytes r'"
    "ring_room r' = ring_room r + 1"
proof -
  have cnt: "ring_count r = Suc (ring_count r')"
    using assms by (auto simp: wf_ring_def ring_count_def mod_wrap split: if_splits)
  show "wf_ring r'" using assms by (auto simp: wf_ring_def)
  show "ring_room r' = ring_room r + 1"
    using ring_count_le [OF assms(1)] cnt by (simp add: ring_room_def r'_def)
  show "ring_bytes r = buffer r ! nat (front r) # ring_bytes r'"
  proof (rule nth_equalityI)
    fix i assume "i < length (ring_bytes r)"
    then show "ring_bytes r ! i = (buffer r ! nat (front r) # ring_bytes r') ! i"
      using assms(1) cnt
      by (cases i) (auto simp: ring_bytes_nth r'_def wf_ring_def mod_simps algebra_simps)
  qed (simp add: cnt)
qed

lemma write_ring_loop_correct:
  assumes "wf_ring r" "0 \<le> res" "left > 0 \<Longrightarrow> res + left \<le> int (length ptr)"
  shows "\<exists>r'. write_ring_loop r ptr left res = Some (res + int (min (nat left) (ring_room r)), r') \<and>
     wf_ring r' \<and> ring_bytes r' = ring_bytes r @ take (min (nat left) (ring_room r)) (drop (nat res) ptr) \<and>
     ring_room r' = ring_room r - min (nat left) (ring_room r)"
  using assms
proof (induction r ptr left res rule: write_ring_loop.induct)
  case (1 r ptr left res)
  show ?case
  proof (cases "left > 0 \<and> ring_room r > 0")
    case False
    with 1 show ?thesis by (auto simp: write_ring_loop.simps ring_full_room)
  next
    case True
    define v where "v = ptr ! nat res"
    define r1 where "r1 = r\<lparr>buffer := (buffer r)[nat (rear r) := v], rear := (rear r + 1) mod ring_size r\<rparr>"
    have one: "wf_ring r1" "ring_bytes r1 = ring_bytes r @ [v]" "ring_room r1 = ring_room r - 1"
      unfolding r1_def using ring_put_one [OF 1(2), of v] True by simp_all
    have idx: "0 \<le> res" "res < int (length ptr)" using 1 True by auto
    have wf: "0 \<le> rear r" "rear r < int (length (buffer r))" "rear r < 2147483647" "0 < ring_size r"
      using 1(2) by (auto simp: wf_ring_def)
    have step: "write_ring_loop r ptr left res = write_ring_loop r1 ptr (left - 1) (res + 1)"
      unfolding r1_def v_def
      using True idx wf by (subst write_ring_loop.simps) (simp add: ring_full_room [OF 1(2)])
    have d: "drop (nat res) ptr = v # drop (nat (res + 1)) ptr"
      using idx by (simp add: v_def Cons_nth_drop_Suc nat_add_distrib)
    have n: "min (nat left) (ring_room r) = Suc (min (nat (left - 1)) (ring_room r1))"
      using True one(3) by (auto simp: min_def)
    have "\<exists>r'. write_ring_loop r1 ptr (left - 1) (res + 1) =
          Some (res + 1 + int (min (nat (left - 1)) (ring_room r1)), r') \<and> wf_ring r' \<and>
        ring_bytes r' = ring_bytes r1 @ take (min (nat (left - 1)) (ring_room r1)) (drop (nat (res + 1)) ptr) \<and>
        ring_room r' = ring_room r1 - min (nat (left - 1)) (ring_room r1)"
      unfolding r1_def
      by (rule 1(1) [of False v "(buffer r)[nat (rear r) := v]"])
        (use True idx wf one(1) 1(3,4) in \<open>simp_all add: ring_full_room [OF 1(2)] v_def r1_def\<close>)
    then obtain r' where "write_ring_loop r1 ptr (left - 1) (res + 1) =
          Some (res + 1 + int (min (nat (left - 1)) (ring_room r1)), r')" "wf_ring r'"
        "ring_bytes r' = ring_bytes r1 @ take (min (nat (left - 1)) (ring_room r1)) (drop (nat (res + 1)) ptr)"
        "ring_room r' = ring_room r1 - min (nat (left - 1)) (ring_room r1)" by blast
    then show ?thesis unfolding step n d by (intro exI [of _ r']) (simp add: one)
  qed
qed

lemma write_ring_correct:
  assumes "wf_ring r" "sz \<le> int (length ptr)"
  shows "\<exists>r'. write_ring r ptr sz = Some (int (min (nat sz) (ring_room r)), r') \<and> wf_ring r' \<and>
     ring_bytes r' = ring_bytes r @ take (min (nat sz) (ring_room r)) ptr \<and>
     ring_room r' = ring_room r - min (nat sz) (ring_room r)"
  using write_ring_loop_correct [of r 0 sz ptr] assms by (simp add: write_ring_def)

lemma read_ring_loop_correct:
  assumes "wf_ring r" "0 \<le> res" "left > 0 \<Longrightarrow> res + left \<le> int (length ptr)"
  shows "\<exists>r'. read_ring_loop r ptr left res =
       Some (res + int (min (nat left) (ring_count r)),
         take (nat res) ptr @ take (nat left) (ring_bytes r) @ drop (nat res + min (nat left) (ring_count r)) ptr, r') \<and>
     wf_ring r' \<and> ring_bytes r' = drop (nat left) (ring_bytes r) \<and>
     ring_room r' = ring_room r + min (nat left) (ring_count r)"
  using assms
proof (induction r ptr left res rule: read_ring_loop.induct)
  case (1 r ptr left res)
  show ?case
  proof (cases "left > 0 \<and> ring_count r > 0")
    case False
    with 1 show ?thesis by (auto simp: read_ring_loop.simps ring_empty_count ring_bytes_def)
  next
    case True
    let ?v = "buffer r ! nat (front r)"
    let ?r = "r\<lparr>front := (front r + 1) mod ring_size r\<rparr>"
    let ?ptr = "ptr[nat res := ?v]"
    note one = ring_get_one [OF 1(2) conjunct2 [OF True]]
    have idx: "0 \<le> res" "res < int (length ptr)" using 1 True by auto
    have wf: "0 \<le> front r" "front r < int (length (buffer r))" "front r < 2147483647" "0 < ring_size r"
      using 1(2) by (auto simp: wf_ring_def)
    have step: "read_ring_loop r ptr left res = read_ring_loop ?r ?ptr (left - 1) (res + 1)"
      using True idx wf by (subst read_ring_loop.simps) (simp add: ring_empty_count [OF 1(2)])
    have cnt: "ring_count r = Suc (ring_count ?r)"
      using arg_cong [OF one(2), of length] by simp
    have n: "nat left = Suc (nat (left - 1))" using True by linarith
    have t: "take (nat (res + 1)) ?ptr = take (nat res) ptr @ [?v]"
      using idx by (simp add: nat_add_distrib take_Suc_conv_app_nth)
    have d: "drop (nat (res + 1) + k) ?ptr = drop (nat res + Suc k) ptr" for k
      using idx by (simp add: nat_add_distrib)
    have "\<exists>r'. read_ring_loop ?r ?ptr (left - 1) (res + 1) =
          Some (res + 1 + int (min (nat (left - 1)) (ring_count ?r)),
            take (nat (res + 1)) ?ptr @ take (nat (left - 1)) (ring_bytes ?r) @
            drop (nat (res + 1) + min (nat (left - 1)) (ring_count ?r)) ?ptr, r') \<and>
        wf_ring r' \<and> ring_bytes r' = drop (nat (left - 1)) (ring_bytes ?r) \<and>
        ring_room r' = ring_room ?r + min (nat (left - 1)) (ring_count ?r)"
      using True idx wf one(1) 1(3,4)
      by (intro 1(1) [of ?v ?ptr "(front r + 1) mod ring_size r"]) (simp_all add: ring_empty_count [OF 1(2)])
    with one(2,3) cnt show ?thesis unfolding step t d n by auto
  qed
qed

lemma read_ring_correct:
  assumes "wf_ring r" "sz \<le> int (length ptr)"
  shows "\<exists>r'. read_ring r ptr sz =
       Some (int (min (nat sz) (ring_count r)), take (nat sz) (ring_bytes r) @ drop (min (nat sz) (ring_count r)) ptr, r') \<and>
     wf_ring r' \<and> ring_bytes r' = drop (nat sz) (ring_bytes r) \<and>
     ring_room r' = ring_room r + min (nat sz) (ring_count r)"
  using read_ring_loop_correct [of r 0 sz ptr] assms by (simp add: read_ring_def)

subsection \<open>The interface of a byte queue\<close>

text \<open>What the terminals and the keyboard rely on: a write takes as many leading bytes as
  there is room for, a read delivers the oldest bytes first.\<close>

locale byte_fifo =
  fixes wf :: "'q \<Rightarrow> bool" and bytes :: "'q \<Rightarrow> u8 list" and room :: "'q \<Rightarrow> nat"
    and put :: "'q \<Rightarrow> u8 list \<Rightarrow> int \<Rightarrow> (int \<times> 'q) option"
    and get :: "'q \<Rightarrow> u8 list \<Rightarrow> int \<Rightarrow> (int \<times> u8 list \<times> 'q) option"
  assumes put_law: "wf q \<Longrightarrow> sz \<le> int (length ptr) \<Longrightarrow>
      \<exists>q'. put q ptr sz = Some (int (min (nat sz) (room q)), q') \<and> wf q' \<and>
        bytes q' = bytes q @ take (min (nat sz) (room q)) ptr \<and> room q' = room q - min (nat sz) (room q)"
    and get_law: "wf q \<Longrightarrow> sz \<le> int (length ptr) \<Longrightarrow>
      \<exists>q'. get q ptr sz = Some (int (min (nat sz) (length (bytes q))),
          take (nat sz) (bytes q) @ drop (min (nat sz) (length (bytes q))) ptr, q') \<and> wf q' \<and>
        bytes q' = drop (nat sz) (bytes q) \<and> room q' = room q + min (nat sz) (length (bytes q))"
begin

lemma put_one:
  assumes "wf q" "room q > 0"
  shows "\<exists>q'. put q [v] 1 = Some (1, q') \<and> wf q' \<and> bytes q' = bytes q @ [v] \<and> room q' = room q - 1"
  using put_law [OF assms(1), of 1 "[v]"] assms(2) by (simp add: min_def)

lemma put_one_full:
  assumes "wf q" "room q = 0"
  shows "\<exists>q'. put q [v] 1 = Some (0, q') \<and> wf q' \<and> bytes q' = bytes q \<and> room q' = 0"
  using put_law [OF assms(1), of 1 "[v]"] assms(2) by simp

lemma get_one:
  assumes "wf q" "bytes q = v # vs"
  shows "\<exists>q'. get q [w] 1 = Some (1, [v], q') \<and> wf q' \<and> bytes q' = vs \<and> room q' = room q + 1"
  using get_law [OF assms(1), of 1 "[w]"] assms(2) by simp

lemma get_one_empty:
  assumes "wf q" "bytes q = []"
  shows "\<exists>q'. get q [w] 1 = Some (0, [w], q') \<and> wf q' \<and> bytes q' = []"
  using get_law [OF assms(1), of 1 "[w]"] assms(2) by auto

lemma put_get_roundtrip:
  assumes "wf q" "length bs \<le> room q" "n = length (bytes q) + length bs" "length dst = n"
  shows "\<exists>q1 q2. put q bs (int (length bs)) = Some (int (length bs), q1) \<and>
     get q1 dst (int n) = Some (int n, bytes q @ bs, q2) \<and> wf q2 \<and> bytes q2 = [] \<and>
     room q2 = room q + length (bytes q)"
proof -
  obtain q1 where q1: "put q bs (int (length bs)) = Some (int (length bs), q1)" "wf q1"
      "bytes q1 = bytes q @ bs" "room q1 = room q - length bs"
    using put_law [OF assms(1), of "int (length bs)" bs] assms(2) by (auto simp: min_def)
  with get_law [OF q1(2), of "int n" dst] assms show ?thesis by auto
qed

end

interpretation rq: byte_fifo wf_ring ring_bytes ring_room write_ring read_ring
  by unfold_locales (simp_all add: write_ring_correct read_ring_correct)

text \<open>C2. Writing bytes to a well-formed ring and reading everything back: whenever the bytes
  fit, write_ring accepts all of them, and a following read_ring of the whole content
  delivers first the bytes that were queued before and then the written bytes in order, and
  leaves the ring empty with its full capacity available.\<close>

theorem ring_write_read_roundtrip:
  assumes "wf_ring r" "length bs \<le> ring_room r" "length dst = ring_count r + length bs"
  shows "\<exists>r1 r2. write_ring r bs (int (length bs)) = Some (int (length bs), r1) \<and>
     ring_length r1 = Some (int (length dst)) \<and>
     read_ring r1 dst (int (length dst)) = Some (int (length dst), ring_bytes r @ bs, r2) \<and>
     ring_empty r2 \<and> int (ring_room r2) = ring_size r - 1"
proof -
  obtain r1 r2 where w: "write_ring r bs (int (length bs)) = Some (int (length bs), r1)"
    and rd: "read_ring r1 dst (int (length dst)) = Some (int (length dst), ring_bytes r @ bs, r2)"
    and r2: "wf_ring r2" "ring_bytes r2 = []" "ring_room r2 = ring_room r + ring_count r"
    using rq.put_get_roundtrip [of r bs "length dst" dst] assms by auto
  have r1: "wf_ring r1" "ring_count r1 = length dst"
    using write_ring_correct [OF assms(1), of "int (length bs)" bs] w assms
    by (auto simp: min_def simp flip: length_ring_bytes split: if_splits)
  have "ring_count r \<le> nat (ring_size r) - 1" "0 < ring_size r"
    using assms(1) by (auto simp: wf_ring_def ring_count_def)
  with w rd r1 r2 show ?thesis
    by (auto simp: ring_length_count ring_empty_count ring_room_def simp flip: length_ring_bytes)
qed

theorem ring_write_read_roundtrip_witness:
  "\<exists>r1 r2. write_ring \<lparr>ring_size = 4, front = 2, rear = 3, buffer = [9, 8, 7, 6]\<rparr> [1, 2] (int (length [1, 2 :: u8])) =
       Some (int (length [1, 2 :: u8]), r1) \<and>
     ring_length r1 = Some (int (length [0, 0, 0 :: u8])) \<and>
     read_ring r1 [0, 0, 0] (int (length [0, 0, 0 :: u8])) = Some (int (length [0, 0, 0 :: u8]),
       ring_bytes \<lparr>ring_size = 4, front = 2, rear = 3, buffer = [9, 8, 7, 6]\<rparr> @ [1, 2], r2) \<and>
     ring_empty r2 \<and> int (ring_room r2) = ring_size \<lparr>ring_size = 4, front = 2, rear = 3, buffer = [9, 8, 7, 6 :: u8]\<rparr> - 1"
  by (rule ring_write_read_roundtrip [of "\<lparr>ring_size = 4, front = 2, rear = 3, buffer = [9, 8, 7, 6]\<rparr>" "[1, 2]" "[0, 0, 0]"])
    (simp_all add: wf_ring_def ring_room_def ring_count_def)

end
