(* ===== verification/C_String.thy ===== *)
theory C_String
  imports Kernel_Prelude "HOL-Library.Sublist"
begin

section \<open>Memory blocks and C strings (\<^verbatim>\<open>lib/string.c\<close>)\<close>

text \<open>
  A buffer is the list of its bytes; a pointer that is advanced is the remaining suffix. A
  read or write outside the buffer is \<open>None\<close>. The string in a buffer is the part
  before its first zero byte.
\<close>

function memset_loop :: "u8 list \<Rightarrow> u8 \<Rightarrow> int \<Rightarrow> int \<Rightarrow> u8 list option" where
  "memset_loop ptr target sz idx =
     (if idx < sz then do {
        ptr \<leftarrow> arr_set ptr idx target;
        memset_loop ptr target sz (idx + 1) }
      else Some ptr)"
  by pat_completeness auto
termination by (relation "measure (\<lambda>(ptr, target, sz, idx). nat (sz - idx))") auto

definition memset :: "u8 list \<Rightarrow> u8 \<Rightarrow> int \<Rightarrow> u8 list option" where
  "memset dst target sz = memset_loop dst target sz 0"

function memcpy_loop :: "u8 list \<Rightarrow> u8 list \<Rightarrow> int \<Rightarrow> int \<Rightarrow> u8 list option" where
  "memcpy_loop dst src len idx =
     (if idx < len then do {
        c \<leftarrow> arr_get src idx;
        dst \<leftarrow> arr_set dst idx c;
        memcpy_loop dst src len (idx + 1) }
      else Some dst)"
  by pat_completeness auto
termination by (relation "measure (\<lambda>(dst, src, len, idx). nat (len - idx))") auto

definition memcpy :: "u8 list \<Rightarrow> u8 list \<Rightarrow> int \<Rightarrow> u8 list option" where
  "memcpy dst src len = memcpy_loop dst src len 0"

fun strcmp :: "u8 list \<Rightarrow> u8 list \<Rightarrow> int option" where
  "strcmp (a # s) (b # t) =
     (if a \<noteq> 0 \<and> b \<noteq> 0 \<and> a = b then strcmp s t else Some (uint a - uint b))"
| "strcmp _ _ = None"

fun strcpy :: "u8 list \<Rightarrow> u8 list \<Rightarrow> u8 list option" where
  "strcpy (d # ds) (c # cs) =
     (if c \<noteq> 0 then map_option (Cons c) (strcpy ds cs) else Some (c # ds))"
| "strcpy _ _ = None"

fun strcpy_safe :: "u8 list \<Rightarrow> u8 list \<Rightarrow> int \<Rightarrow> u8 list option" where
  "strcpy_safe dst src max_size =
     (if max_size \<le> 0 then Some dst
      else case (dst, src) of
        (d # ds, c # cs) \<Rightarrow>
          (if c \<noteq> 0 then map_option (Cons c) (strcpy_safe ds cs (max_size - 1)) else Some (c # ds))
      | _ \<Rightarrow> None)"

fun strlen_loop :: "u8 list \<Rightarrow> u32 \<Rightarrow> u32 option" where
  "strlen_loop [] iptr = None"
| "strlen_loop (c # cs) iptr = (if c \<noteq> 0 then strlen_loop cs (iptr + 1) else Some iptr)"

definition strlen :: "u8 list \<Rightarrow> u32 option" where
  "strlen str = strlen_loop str 0"

fun strchr_loop :: "u8 list \<Rightarrow> u8 \<Rightarrow> int \<Rightarrow> int option" where
  "strchr_loop [] target i = None"
| "strchr_loop (c # cs) target i =
     (if c = 0 then Some (- 1) else if c = target then Some i else strchr_loop cs target (i + 1))"

definition strchr :: "u8 list \<Rightarrow> u8 \<Rightarrow> int option" where
  "strchr str target = strchr_loop str target 0"

fun start_with :: "u8 list \<Rightarrow> u8 list \<Rightarrow> int option" where
  "start_with target [] = None"
| "start_with target (s # sub) =
     (if s = 0 then Some 0
      else case target of
        [] \<Rightarrow> None
      | t # target \<Rightarrow> if t \<noteq> s then Some (uint s) else start_with target sub)"

declare memset_loop.simps [simp del] memcpy_loop.simps [simp del] strcpy_safe.simps [simp del]

subsection \<open>Closed forms\<close>

definition terminated :: "u8 list \<Rightarrow> bool" where
  "terminated b \<longleftrightarrow> 0 \<in> set b"

definition cstr :: "u8 list \<Rightarrow> u8 list" where
  "cstr b = takeWhile (\<lambda>c. c \<noteq> 0) b"

text \<open>A string literal of the source.\<close>

definition c_lit :: "string \<Rightarrow> u8 list" where
  "c_lit s = map of_char s @ [0]"

lemma terminated_c_lit [simp]: "terminated (c_lit s)"
  by (simp add: c_lit_def terminated_def)

lemma cstr_Nil [simp]: "cstr [] = []" by (simp add: cstr_def)

lemma cstr_Cons [simp]: "cstr (c # b) = (if c = 0 then [] else c # cstr b)" by (simp add: cstr_def)

lemma terminated_Nil [simp]: "\<not> terminated []" by (simp add: terminated_def)

lemma terminated_Cons [simp]: "terminated (c # b) \<longleftrightarrow> c = 0 \<or> terminated b"
  by (auto simp: terminated_def)

lemma cstr_nonzero: "c \<in> set (cstr b) \<Longrightarrow> c \<noteq> 0"
  by (auto simp: cstr_def dest: set_takeWhileD)

lemma cstr_lt_length: "terminated b \<Longrightarrow> length (cstr b) < length b"
  by (induction b) auto

lemma cstr_of_string: "0 \<notin> set xs \<Longrightarrow> cstr (xs @ 0 # ys) = xs \<and> terminated (xs @ 0 # ys)"
  by (induction xs) auto

lemma memcpy_loop_eq:
  assumes "0 \<le> idx" "idx \<le> len" "len \<le> int (length dst)" "len \<le> int (length src)"
  shows "memcpy_loop dst src len idx =
    Some (take (nat idx) dst @ take (nat (len - idx)) (drop (nat idx) src) @ drop (nat len) dst)"
  using assms
proof (induction dst src len idx rule: memcpy_loop.induct)
  case (1 dst src len idx)
  show ?case
  proof (cases "idx < len")
    case False
    with 1 show ?thesis by (simp add: memcpy_loop.simps)
  next
    case True
    let ?dst = "dst[nat idx := src ! nat idx]"
    have step: "memcpy_loop dst src len idx = memcpy_loop ?dst src len (idx + 1)"
      using True 1(2-5) by (subst memcpy_loop.simps) simp
    have ih: "memcpy_loop ?dst src len (idx + 1) = Some (take (nat (idx + 1)) ?dst @
        take (nat (len - (idx + 1))) (drop (nat (idx + 1)) src) @ drop (nat len) ?dst)"
      by (rule 1(1)) (use True 1(2-5) in simp_all)
    have n: "nat (idx + 1) = Suc (nat idx)" "nat (len - idx) = Suc (nat (len - (idx + 1)))"
      using True 1(2) by auto
    have t: "take (Suc (nat idx)) ?dst = take (nat idx) dst @ [src ! nat idx]"
      using True 1(2-5) by (simp add: take_Suc_conv_app_nth)
    have d: "drop (nat idx) src = src ! nat idx # drop (Suc (nat idx)) src"
      using True 1(2-5) by (simp add: Cons_nth_drop_Suc)
    have "drop (nat len) ?dst = drop (nat len) dst" using True 1(2) by simp
    then show ?thesis unfolding step ih n t d by simp
  qed
qed

lemma memcpy_eq:
  assumes "0 \<le> len" "len \<le> int (length dst)" "len \<le> int (length src)"
  shows "memcpy dst src len = Some (take (nat len) src @ drop (nat len) dst)"
  using memcpy_loop_eq [of 0 len dst src] assms by (simp add: memcpy_def)

lemma memset_loop_memcpy:
  "0 \<le> idx \<Longrightarrow> memset_loop dst v sz idx = memcpy_loop dst (replicate (nat sz) v) sz idx"
proof (induction dst v sz idx rule: memset_loop.induct)
  case (1 dst v sz idx)
  then show ?case
    by (subst memset_loop.simps, subst memcpy_loop.simps) (auto simp: Option.bind_eq_None_conv split: bind_splits)
qed

lemma memset_eq:
  "0 \<le> sz \<Longrightarrow> sz \<le> int (length dst) \<Longrightarrow> memset dst v sz = Some (replicate (nat sz) v @ drop (nat sz) dst)"
  using memcpy_loop_eq [of 0 sz dst "replicate (nat sz) v"] by (simp add: memset_def memset_loop_memcpy)

lemma strlen_loop_eq: "terminated b \<Longrightarrow> strlen_loop b n = Some (n + of_nat (length (cstr b)))"
  by (induction b arbitrary: n) (auto simp: algebra_simps)

lemma strlen_eq: "terminated b \<Longrightarrow> strlen b = Some (of_nat (length (cstr b)))"
  by (simp add: strlen_def strlen_loop_eq)

lemma strcpy_eq:
  "terminated src \<Longrightarrow> length (cstr src) < length dst \<Longrightarrow>
    strcpy dst src = Some (cstr src @ 0 # drop (Suc (length (cstr src))) dst)"
  by (induction dst src rule: strcpy.induct) auto

lemma strcpy_overflow: "length dst \<le> length (cstr src) \<Longrightarrow> strcpy dst src = None"
  by (induction dst src rule: strcpy.induct) (auto split: if_splits)

lemma strcpy_safe_eq:
  assumes "terminated src" "0 \<le> n" "n \<le> int (length dst)"
  shows "strcpy_safe dst src n =
    Some (if int (length (cstr src)) < n then cstr src @ 0 # drop (Suc (length (cstr src))) dst
          else take (nat n) (cstr src) @ drop (nat n) dst)"
  using assms
proof (induction dst src n rule: strcpy_safe.induct)
  case (1 dst src n)
  show ?case
  proof (cases "n \<le> 0")
    case True
    with 1(3) show ?thesis by (simp add: strcpy_safe.simps)
  next
    case False
    with 1(2,4) obtain d ds c cs where l: "dst = d # ds" "src = c # cs" by (cases dst; cases src) auto
    have n: "nat n = Suc (nat (n - 1))" using False by simp
    show ?thesis
    proof (cases "c = 0")
      case True
      with False l show ?thesis by (simp add: strcpy_safe.simps)
    next
      case c: False
      have ih: "strcpy_safe ds cs (n - 1) = Some (if int (length (cstr cs)) < n - 1
          then cstr cs @ 0 # drop (Suc (length (cstr cs))) ds
          else take (nat (n - 1)) (cstr cs) @ drop (nat (n - 1)) ds)"
        by (rule 1(1) [OF False refl]) (use c l False 1(2-4) in auto)
      show ?thesis using False c l ih n by (subst strcpy_safe.simps) simp
    qed
  qed
qed

lemma strcpy_safe_returns:
  assumes "terminated src \<or> n \<le> int (length src)" "n \<le> int (length dst)"
  shows "\<exists>dst'. strcpy_safe dst src n = Some dst' \<and> length dst' = length dst"
  using assms
proof (induction dst arbitrary: src n)
  case Nil
  then show ?case by (simp add: strcpy_safe.simps)
next
  case (Cons d ds)
  show ?case
  proof (cases "n \<le> 0")
    case False
    with Cons.prems(1) obtain c cs where src: "src = c # cs" by (cases src) (auto simp: terminated_def)
    have "\<exists>d'. strcpy_safe ds cs (n - 1) = Some d' \<and> length d' = length ds" if "c \<noteq> 0"
      using Cons.IH [of cs "n - 1"] Cons.prems src that by (auto simp: terminated_def)
    with False src show ?thesis by (subst strcpy_safe.simps) auto
  qed (simp add: strcpy_safe.simps)
qed

lemma strcmp_returns: "terminated a \<Longrightarrow> terminated b \<Longrightarrow> \<exists>d. strcmp a b = Some d"
  by (induction a b rule: strcmp.induct) auto

lemma strcmp_eq_0: "terminated a \<Longrightarrow> terminated b \<Longrightarrow> strcmp a b = Some 0 \<longleftrightarrow> cstr a = cstr b"
  by (induction a b rule: strcmp.induct) (auto simp: uint_0_iff dest: word_uint_eqI)

lemma strcmp_less_0:
  "terminated a \<Longrightarrow> terminated b \<Longrightarrow> strcmp a b = Some d \<Longrightarrow> d < 0 \<longleftrightarrow> ord_class.lexordp (cstr a) (cstr b)"
proof (induction a b rule: strcmp.induct)
  case (1 a s b t)
  have pos: "0 < uint c" if "c \<noteq> 0" for c :: u8
    using that uint_0_iff [of c] uint_ge_0 [of c] by linarith
  from 1 show ?case
    by (auto simp: word_less_def not_less pos le_less dest: pos word_uint_eqI split: if_splits)
qed simp_all

lemma strchr_loop_eq:
  assumes "terminated b" "v \<noteq> 0"
  shows "strchr_loop b v i =
    Some (if v \<in> set (cstr b) then i + int (length (takeWhile (\<lambda>c. c \<noteq> v) (cstr b))) else - 1)"
  using assms by (induction b arbitrary: i) auto

lemma start_with_eq_0:
  "terminated sub \<Longrightarrow> terminated target \<Longrightarrow> start_with target sub = Some 0 \<longleftrightarrow> prefix (cstr sub) (cstr target)"
proof (induction target sub rule: start_with.induct)
  case (2 target s sub)
  then show ?case by (cases target) (auto simp: uint_0_iff)
qed simp

lemma start_with_returns: "terminated sub \<Longrightarrow> terminated target \<Longrightarrow> start_with target sub \<noteq> None"
proof (induction target sub rule: start_with.induct)
  case (2 target s sub)
  then show ?case by (cases target) auto
qed simp

text \<open>C3. strcmp on two terminated strings always returns; the result is zero exactly for equal
  strings and negative exactly when the first string comes first in the lexicographic order
  of unsigned bytes, whatever follows the terminators in the two buffers.\<close>

theorem strcmp_order:
  assumes "terminated a" "terminated b"
  shows "\<exists>d. strcmp a b = Some d \<and> (d = 0 \<longleftrightarrow> cstr a = cstr b) \<and>
    (d < 0 \<longleftrightarrow> ord_class.lexordp (cstr a) (cstr b))"
  using strcmp_returns [OF assms] strcmp_eq_0 [OF assms] strcmp_less_0 [OF assms] by auto

theorem strcmp_order_witness:
  "\<exists>d. strcmp [97, 98, 0, 5] [97, 200, 0] = Some d \<and> (d = 0 \<longleftrightarrow> cstr [97, 98, 0, 5] = cstr [97, 200, 0]) \<and>
    (d < 0 \<longleftrightarrow> ord_class.lexordp (cstr [97, 98, 0, 5]) (cstr [97, 200, 0]))"
  by (rule strcmp_order) simp_all

text \<open>strcpy_safe copies a terminated source and its terminator when they fit in max_size
  bytes; otherwise it fills exactly max_size bytes with the leading bytes of the source and
  writes no terminator, so that the destination then ends where its old content ends.\<close>

lemma strcpy_safe_result:
  assumes "terminated src" "0 \<le> n" "n \<le> int (length dst)"
  shows "\<exists>dst'. strcpy_safe dst src n = Some dst' \<and> length dst' = length dst \<and>
    (if int (length (cstr src)) < n then cstr dst' = cstr src
     else cstr dst' = take (nat n) (cstr src) @ cstr (drop (nat n) dst))"
proof (cases "int (length (cstr src)) < n")
  case True
  moreover have "0 \<notin> set (cstr src)" using cstr_nonzero by blast
  ultimately show ?thesis using strcpy_safe_eq [OF assms] assms(3) cstr_of_string by auto
next
  case False
  have "cstr (xs @ ys) = xs @ cstr ys" if "0 \<notin> set xs" for xs ys
    using that by (induction xs) auto
  moreover have "0 \<notin> set (take (nat n) (cstr src))" using cstr_nonzero in_set_takeD by fast
  ultimately show ?thesis using strcpy_safe_eq [OF assms] assms False by (auto simp: min_def)
qed

lemma strcpy_safe_result_witness:
  "\<exists>dst'. strcpy_safe [1, 2, 3, 0] [97, 98, 99, 0] 2 = Some dst' \<and> length dst' = length [1, 2, 3, 0 :: u8] \<and>
    (if int (length (cstr [97, 98, 99, 0])) < 2 then cstr dst' = cstr [97, 98, 99, 0]
     else cstr dst' = take (nat 2) (cstr [97, 98, 99, 0]) @ cstr (drop (nat 2) [1, 2, 3, 0]))"
  by (rule strcpy_safe_result) simp_all

end
