(* ===== verification/Hash_Table.thy ===== *)
theory Hash_Table
  imports Linked_List
begin

section \<open>Hash table of intrusive nodes (\<^verbatim>\<open>lib/hash_table.c\<close>)\<close>

text \<open>
  Nodes are list cells embedded in the client's structures, chained in buckets. The client
  passes its hash function and its test whether a node carries a given key (the C code calls
  the key a blob); both are arguments here. The bucket heads are an array of list cells of
  eight bytes each.
\<close>

record hash_stub =
  stub_mask :: int
  heads :: addr

definition hash_bucket :: "hash_stub \<Rightarrow> ('b \<Rightarrow> u32) \<Rightarrow> 'b \<Rightarrow> addr" where
  "hash_bucket stub hash blob = heads stub + 8 * (hash blob AND word_of_int (stub_mask stub))"

partial_function (option) foreach_identity :: "lheap \<Rightarrow> (addr \<Rightarrow> 'b \<Rightarrow> bool) \<Rightarrow> 'b \<Rightarrow> addr \<Rightarrow> addr option" where
  "foreach_identity h identity blob cur =
     (if cur = NULL then Some NULL
      else if identity cur blob then Some cur
      else foreach_identity h identity blob (le_next (h cur)))"

definition search_hash_node ::
    "hash_stub \<Rightarrow> ('b \<Rightarrow> u32) \<Rightarrow> (addr \<Rightarrow> 'b \<Rightarrow> bool) \<Rightarrow> lheap \<Rightarrow> 'b \<Rightarrow> addr option" where
  "search_hash_node stub hash identity h blob =
     foreach_identity h identity blob (le_next (h (hash_bucket stub hash blob)))"

definition add_hash_node ::
    "hash_stub \<Rightarrow> ('b \<Rightarrow> u32) \<Rightarrow> (addr \<Rightarrow> 'b \<Rightarrow> bool) \<Rightarrow> lheap \<Rightarrow> 'b \<Rightarrow> addr \<Rightarrow> (int \<times> lheap) option" where
  "add_hash_node stub hash identity h blob node = do {
     kassert (identity node blob);
     target_node \<leftarrow> search_hash_node stub hash identity h blob;
     if target_node \<noteq> NULL then Some (- ERR_EXIST, h)
     else do {
       h \<leftarrow> list_append h (hash_bucket stub hash blob) node;
       target_node \<leftarrow> search_hash_node stub hash identity h blob;
       kassert (target_node \<noteq> NULL);
       Some (OK, h) } }"

definition delete_hash_node ::
    "hash_stub \<Rightarrow> ('b \<Rightarrow> u32) \<Rightarrow> (addr \<Rightarrow> 'b \<Rightarrow> bool) \<Rightarrow> lheap \<Rightarrow> 'b \<Rightarrow> (int \<times> lheap) option" where
  "delete_hash_node stub hash identity h blob = do {
     target_node \<leftarrow> search_hash_node stub hash identity h blob;
     if target_node = NULL then Some (- ERR_NOT_PRESENT, h)
     else do {
       let head = hash_bucket stub hash blob;
       h \<leftarrow> list_delete h head target_node;
       kassert (list_node_detached h head target_node);
       target_node \<leftarrow> search_hash_node stub hash identity h blob;
       kassert (target_node = NULL);
       Some (OK, h) } }"

subsection \<open>Invariant and abstraction\<close>

text \<open>The clients' test compares the key stored beside the node: \<open>key\<close> is that stored
  key. The family may hold further lists of the kernel besides the buckets.\<close>

definition hash_ok ::
    "hash_stub \<Rightarrow> ('b \<Rightarrow> u32) \<Rightarrow> (addr \<Rightarrow> 'b) \<Rightarrow> lheap \<Rightarrow> (addr \<rightharpoonup> addr list) \<Rightarrow> bool" where
  "hash_ok stub hash key h B \<longleftrightarrow> list_family dlist h B \<and>
     (\<forall>b. \<exists>xs. B (hash_bucket stub hash b) = Some xs \<and> inj_on key (set xs) \<and>
        (\<forall>n\<in>set xs. hash_bucket stub hash (key n) = hash_bucket stub hash b))"

definition hash_abs ::
    "hash_stub \<Rightarrow> ('b \<Rightarrow> u32) \<Rightarrow> (addr \<Rightarrow> 'b) \<Rightarrow> (addr \<rightharpoonup> addr list) \<Rightarrow> 'b \<rightharpoonup> addr" where
  "hash_abs stub hash key B b = find (\<lambda>n. key n = b) (the (B (hash_bucket stub hash b)))"

lemma hash_okE:
  assumes "hash_ok stub hash key h B"
  obtains xs where "B (hash_bucket stub hash b) = Some xs" "inj_on key (set xs)"
    "\<And>n. n \<in> set xs \<Longrightarrow> hash_bucket stub hash (key n) = hash_bucket stub hash b"
    "dlist h (hash_bucket stub hash b) xs"
proof -
  obtain xs where "B (hash_bucket stub hash b) = Some xs" "inj_on key (set xs)"
      "\<forall>n\<in>set xs. hash_bucket stub hash (key n) = hash_bucket stub hash b"
    using assms unfolding hash_ok_def by metis
  with assms that show thesis by (auto simp: hash_ok_def dest: list_family_rep)
qed

lemma foreach_identity_dseg:
  "dseg h p x xs NULL \<Longrightarrow>
    foreach_identity h identity b x = Some (case find (\<lambda>n. identity n b) xs of None \<Rightarrow> NULL | Some n \<Rightarrow> n)"
proof (induction xs arbitrary: p x)
  case Nil
  then show ?case by (simp add: foreach_identity.simps)
next
  case (Cons a xs)
  then show ?case by (auto simp: foreach_identity.simps [of h identity b a])
qed

lemma find_Some_in: "find P xs = Some x \<Longrightarrow> x \<in> set xs \<and> P x"
  by (induction xs) (auto split: if_splits)

lemma find_remove1:
  assumes "inj_on key (set xs)" "distinct xs" "n \<in> set xs"
  shows "find (\<lambda>m. key m = b) (remove1 n xs) = (if b = key n then None else find (\<lambda>m. key m = b) xs)"
  using assms by (induction xs) (auto simp: find_None_iff inj_on_def)

locale hash_client =
  fixes stub :: hash_stub and hash :: "'b \<Rightarrow> u32" and identity :: "addr \<Rightarrow> 'b \<Rightarrow> bool" and key :: "addr \<Rightarrow> 'b"
  assumes identity_key: "identity n b \<longleftrightarrow> key n = b"
begin

lemma search_spec:
  assumes "hash_ok stub hash key h B"
  shows "search_hash_node stub hash identity h b =
    Some (case hash_abs stub hash key B b of None \<Rightarrow> NULL | Some n \<Rightarrow> n)"
proof -
  obtain xs where "B (hash_bucket stub hash b) = Some xs" "dlist h (hash_bucket stub hash b) xs"
    using hash_okE [OF assms] by metis
  then show ?thesis
    using foreach_identity_dseg [of h NULL "le_next (h (hash_bucket stub hash b))" xs identity b]
    by (simp add: search_hash_node_def hash_abs_def identity_key dlist_def)
qed

lemma abs_not_null:
  assumes "hash_ok stub hash key h B" "hash_abs stub hash key B b = Some n"
  shows "n \<noteq> NULL" "n \<in> set (the (B (hash_bucket stub hash b)))" "key n = b"
proof -
  obtain xs where xs: "B (hash_bucket stub hash b) = Some xs" "dlist h (hash_bucket stub hash b) xs"
    using hash_okE [OF assms(1)] by metis
  with assms(2) have "n \<in> set xs" "key n = b" by (auto simp: hash_abs_def dest!: find_Some_in)
  with xs dlist_NULL_notin [OF xs(2)] show "n \<noteq> NULL" "n \<in> set (the (B (hash_bucket stub hash b)))" "key n = b"
    by auto
qed

lemma add_spec:
  assumes ok: "hash_ok stub hash key h B" and n: "key n = b" "detached h n" "n \<notin> list_cells B"
    and new: "hash_abs stub hash key B b = None"
  defines "head \<equiv> hash_bucket stub hash b"
  shows "\<exists>h'. add_hash_node stub hash identity h b n = Some (OK, h') \<and>
     hash_ok stub hash key h' (B(head \<mapsto> the (B head) @ [n])) \<and>
     hash_abs stub hash key (B(head \<mapsto> the (B head) @ [n])) = (hash_abs stub hash key B)(b \<mapsto> n) \<and>
     (\<forall>a. a \<notin> insert n (list_cells B) \<longrightarrow> h' a = h a)"
proof -
  obtain xs where xs: "B head = Some xs" "inj_on key (set xs)"
      "\<And>m. m \<in> set xs \<Longrightarrow> hash_bucket stub hash (key m) = head"
    unfolding head_def using hash_okE [OF ok] by metis
  obtain h' where h': "list_append h head n = Some h'" "list_family dlist h' (B(head \<mapsto> xs @ [n]))"
      "\<forall>a. a \<notin> insert n (list_cells B) \<longrightarrow> h' a = h a"
    using kl.family_append [of h B head xs n] ok n xs by (auto simp: hash_ok_def)
  have "key n \<notin> key ` set xs" using new n xs(1) by (auto simp: hash_abs_def head_def find_None_iff)
  then have inj: "inj_on key (set (xs @ [n]))" using xs(2) by simp blast
  have ok': "hash_ok stub hash key h' (B(head \<mapsto> xs @ [n]))"
    unfolding hash_ok_def
  proof (intro conjI allI)
    fix b'
    obtain ys where "B (hash_bucket stub hash b') = Some ys" "inj_on key (set ys)"
        "\<And>m. m \<in> set ys \<Longrightarrow> hash_bucket stub hash (key m) = hash_bucket stub hash b'"
      using hash_okE [OF ok] by metis
    then show "\<exists>ys. (B(head \<mapsto> xs @ [n])) (hash_bucket stub hash b') = Some ys \<and> inj_on key (set ys) \<and>
        (\<forall>m\<in>set ys. hash_bucket stub hash (key m) = hash_bucket stub hash b')"
      using inj xs(3) n(1) by (cases "hash_bucket stub hash b' = head") (auto simp: head_def)
  qed (rule h'(2))
  have abs: "hash_abs stub hash key (B(head \<mapsto> xs @ [n])) = (hash_abs stub hash key B)(b \<mapsto> n)"
    using new n(1) xs(1) by (auto simp: fun_eq_iff hash_abs_def head_def find_append split: option.splits)
  have "n \<noteq> NULL" using n(2) by (simp add: detached_def)
  then have "add_hash_node stub hash identity h b n = Some (OK, h')"
    using search_spec [OF ok, of b] search_spec [OF ok', of b] h'(1) n(1) new abs
    by (simp add: add_hash_node_def identity_key head_def)
  with ok' abs h'(3) xs(1) show ?thesis by auto
qed

lemma add_present:
  assumes "hash_ok stub hash key h B" "hash_abs stub hash key B b = Some m" "key n = b"
  shows "add_hash_node stub hash identity h b n = Some (- ERR_EXIST, h)"
  using search_spec [OF assms(1), of b] abs_not_null [OF assms(1,2)] assms
  by (simp add: add_hash_node_def identity_key)

lemma delete_absent:
  assumes "hash_ok stub hash key h B" "hash_abs stub hash key B b = None"
  shows "delete_hash_node stub hash identity h b = Some (- ERR_NOT_PRESENT, h)"
  using search_spec [OF assms(1), of b] assms by (simp add: delete_hash_node_def)

lemma delete_spec:
  assumes ok: "hash_ok stub hash key h B" and old: "hash_abs stub hash key B b = Some n"
  defines "head \<equiv> hash_bucket stub hash b"
  shows "\<exists>h'. delete_hash_node stub hash identity h b = Some (OK, h') \<and>
     hash_ok stub hash key h' (B(head \<mapsto> remove1 n (the (B head)))) \<and> detached h' n \<and>
     hash_abs stub hash key (B(head \<mapsto> remove1 n (the (B head)))) = (hash_abs stub hash key B)(b := None) \<and>
     (\<forall>a. a \<notin> list_cells B \<longrightarrow> h' a = h a)"
proof -
  obtain xs where xs: "B head = Some xs" "inj_on key (set xs)"
      "\<And>m. m \<in> set xs \<Longrightarrow> hash_bucket stub hash (key m) = head" "dlist h head xs"
    unfolding head_def using hash_okE [OF ok] by metis
  note n = abs_not_null [OF ok old]
  have nx: "n \<in> set xs" using n(2) xs(1) by (simp add: head_def)
  have dist: "distinct xs" "head \<noteq> NULL" using xs(4) by (auto simp: dlist_def)
  let ?B = "B(head \<mapsto> remove1 n xs)"
  obtain h' where h': "list_delete h head n = Some h'" "list_family dlist h' ?B" "detached h' n"
      "\<forall>a. a \<notin> list_cells B \<longrightarrow> h' a = h a"
    using kl.family_delete [of h B head xs n] ok nx xs(1) by (auto simp: hash_ok_def)
  have sub: "set (remove1 n xs) \<subseteq> set xs" by (rule set_remove1_subset)
  have ok': "hash_ok stub hash key h' ?B"
    unfolding hash_ok_def
  proof (intro conjI allI)
    fix b'
    obtain ys where "B (hash_bucket stub hash b') = Some ys" "inj_on key (set ys)"
        "\<And>m. m \<in> set ys \<Longrightarrow> hash_bucket stub hash (key m) = hash_bucket stub hash b'"
      using hash_okE [OF ok] by metis
    then show "\<exists>ys. ?B (hash_bucket stub hash b') = Some ys \<and> inj_on key (set ys) \<and>
        (\<forall>m\<in>set ys. hash_bucket stub hash (key m) = hash_bucket stub hash b')"
      using inj_on_subset [OF xs(2) sub] xs(3) sub
      by (cases "hash_bucket stub hash b' = head") auto
  qed (rule h'(2))
  have abs: "hash_abs stub hash key ?B = (hash_abs stub hash key B)(b := None)"
    using find_remove1 [OF xs(2) dist(1) nx] n(3) xs(1) by (auto simp: fun_eq_iff hash_abs_def head_def)
  have "dlist h' head (remove1 n xs)" using list_family_rep [OF h'(2)] by simp
  moreover have "n \<notin> set (remove1 n xs)" using dist(1) by simp
  ultimately have "list_node_detached h' head n"
    using h'(3) by (cases "remove1 n xs")
      (auto simp: list_node_detached_def detached_def dlist_def list_first_elem_def)
  then have "delete_hash_node stub hash identity h b = Some (OK, h')"
    using search_spec [OF ok, of b] search_spec [OF ok', of b] h'(1) n(1) old abs
    by (simp add: delete_hash_node_def head_def)
  with ok' abs h'(3,4) xs(1) show ?thesis by auto
qed

end

subsection \<open>Runs of operations refine a map\<close>

text \<open>A run is a sequence of calls. The abstract table is a map \<open>M\<close> from keys to nodes, beside
  the set \<open>F\<close> of the initialised nodes that are in no list. An add is within the contract when
  its node carries the key and, if it will be linked, is one of the free nodes.\<close>

datatype 'b hash_op = H_search 'b | H_add 'b addr | H_delete 'b

datatype hash_reply = H_node addr | H_code int

fun hash_step ::
    "hash_stub \<Rightarrow> ('b \<Rightarrow> u32) \<Rightarrow> (addr \<Rightarrow> 'b \<Rightarrow> bool) \<Rightarrow> lheap \<Rightarrow> 'b hash_op \<Rightarrow> (hash_reply \<times> lheap) option" where
  "hash_step stub hash identity h (H_search b) = map_option (\<lambda>n. (H_node n, h)) (search_hash_node stub hash identity h b)"
| "hash_step stub hash identity h (H_add b n) = map_option (\<lambda>(r, h). (H_code r, h)) (add_hash_node stub hash identity h b n)"
| "hash_step stub hash identity h (H_delete b) = map_option (\<lambda>(r, h). (H_code r, h)) (delete_hash_node stub hash identity h b)"

fun hash_run ::
    "hash_stub \<Rightarrow> ('b \<Rightarrow> u32) \<Rightarrow> (addr \<Rightarrow> 'b \<Rightarrow> bool) \<Rightarrow> lheap \<Rightarrow> 'b hash_op list \<Rightarrow> (hash_reply list \<times> lheap) option" where
  "hash_run stub hash identity h [] = Some ([], h)"
| "hash_run stub hash identity h (p # ps) = do {
     (r, h) \<leftarrow> hash_step stub hash identity h p;
     (rs, h) \<leftarrow> hash_run stub hash identity h ps;
     Some (r # rs, h) }"

fun map_step ::
    "(addr \<Rightarrow> 'b) \<Rightarrow> ('b \<rightharpoonup> addr) \<Rightarrow> addr set \<Rightarrow> 'b hash_op \<Rightarrow> (hash_reply \<times> ('b \<rightharpoonup> addr) \<times> addr set) option" where
  "map_step key M F (H_search b) = Some (H_node (case M b of None \<Rightarrow> NULL | Some n \<Rightarrow> n), M, F)"
| "map_step key M F (H_add b n) =
     (if key n \<noteq> b then None
      else if M b \<noteq> None then Some (H_code (- ERR_EXIST), M, F)
      else if n \<in> F then Some (H_code OK, M(b \<mapsto> n), F - {n}) else None)"
| "map_step key M F (H_delete b) =
     (case M b of None \<Rightarrow> Some (H_code (- ERR_NOT_PRESENT), M, F)
      | Some n \<Rightarrow> Some (H_code OK, M(b := None), insert n F))"

fun map_run ::
    "(addr \<Rightarrow> 'b) \<Rightarrow> ('b \<rightharpoonup> addr) \<Rightarrow> addr set \<Rightarrow> 'b hash_op list \<Rightarrow> (hash_reply list \<times> ('b \<rightharpoonup> addr) \<times> addr set) option" where
  "map_run key M F [] = Some ([], M, F)"
| "map_run key M F (p # ps) = do {
     (r, M, F) \<leftarrow> map_step key M F p;
     (rs, M, F) \<leftarrow> map_run key M F ps;
     Some (r # rs, M, F) }"

text \<open>The relation: the buckets are well-formed lists with the keys of \<open>M\<close>, the nodes of \<open>F\<close> are
  detached and in no list, and the lists of the family that are not buckets are those of \<open>K\<close>.\<close>

definition hash_rel ::
    "hash_stub \<Rightarrow> ('b \<Rightarrow> u32) \<Rightarrow> (addr \<Rightarrow> 'b) \<Rightarrow> (addr \<rightharpoonup> addr list) \<Rightarrow> lheap \<Rightarrow> ('b \<rightharpoonup> addr) \<Rightarrow> addr set \<Rightarrow> bool" where
  "hash_rel stub hash key K h M F \<longleftrightarrow>
     (\<exists>B. hash_ok stub hash key h B \<and> hash_abs stub hash key B = M \<and>
        (\<forall>n\<in>F. detached h n \<and> n \<notin> list_cells B) \<and>
        (\<forall>a. a \<notin> range (hash_bucket stub hash) \<longrightarrow> B a = K a))"

lemma hash_relI:
  "hash_ok stub hash key h B \<Longrightarrow> hash_abs stub hash key B = M \<Longrightarrow>
    (\<And>n. n \<in> F \<Longrightarrow> detached h n \<and> n \<notin> list_cells B) \<Longrightarrow>
    (\<And>a. a \<notin> range (hash_bucket stub hash) \<Longrightarrow> B a = K a) \<Longrightarrow> hash_rel stub hash key K h M F"
  unfolding hash_rel_def by blast

context hash_client
begin

lemma add_refines:
  assumes rel: "hash_rel stub hash key K h M F" and "key n = b" "M b = None" "n \<in> F"
  shows "\<exists>h'. add_hash_node stub hash identity h b n = Some (OK, h') \<and>
     hash_rel stub hash key K h' (M(b \<mapsto> n)) (F - {n})"
proof -
  obtain B where B: "hash_ok stub hash key h B" "hash_abs stub hash key B = M"
      "\<And>n. n \<in> F \<Longrightarrow> detached h n \<and> n \<notin> list_cells B" "\<And>a. a \<notin> range (hash_bucket stub hash) \<Longrightarrow> B a = K a"
    using rel unfolding hash_rel_def by blast
  define head where "head = hash_bucket stub hash b"
  let ?B = "B(head \<mapsto> the (B head) @ [n])"
  have new: "detached h n" "n \<notin> list_cells B" "hash_abs stub hash key B b = None"
    using B(2,3) assms(3,4) by auto
  obtain h' where h': "add_hash_node stub hash identity h b n = Some (OK, h')" "hash_ok stub hash key h' ?B"
      "hash_abs stub hash key ?B = M(b \<mapsto> n)" "\<And>a. a \<notin> insert n (list_cells B) \<Longrightarrow> h' a = h a"
    using add_spec [OF B(1) assms(2) new] unfolding head_def B(2) by blast
  obtain xs where xs: "B head = Some xs" unfolding head_def by (rule hash_okE [OF B(1)])
  have cells: "list_cells ?B \<subseteq> insert n (list_cells B)"
    using xs by (fastforce elim: list_cellsE intro: list_cellsI split: if_splits)
  have "hash_rel stub hash key K h' (M(b \<mapsto> n)) (F - {n})"
  proof (rule hash_relI [OF h'(2,3)])
    fix m assume "m \<in> F - {n}"
    with B(3) [of m] cells h'(4) [of m] show "detached h' m \<and> m \<notin> list_cells ?B"
      by (auto simp: detached_def)
  qed (use B(4) in \<open>auto simp: head_def\<close>)
  with h'(1) show ?thesis by blast
qed

lemma delete_refines:
  assumes rel: "hash_rel stub hash key K h M F" and "M b = Some n"
  shows "\<exists>h'. delete_hash_node stub hash identity h b = Some (OK, h') \<and>
     hash_rel stub hash key K h' (M(b := None)) (insert n F)"
proof -
  obtain B where B: "hash_ok stub hash key h B" "hash_abs stub hash key B = M"
      "\<And>n. n \<in> F \<Longrightarrow> detached h n \<and> n \<notin> list_cells B" "\<And>a. a \<notin> range (hash_bucket stub hash) \<Longrightarrow> B a = K a"
    using rel unfolding hash_rel_def by blast
  define head where "head = hash_bucket stub hash b"
  have old: "hash_abs stub hash key B b = Some n" using B(2) assms(2) by simp
  obtain xs where xs: "B head = Some xs" "dlist h head xs" unfolding head_def by (rule hash_okE [OF B(1)])
  let ?B = "B(head \<mapsto> remove1 n xs)"
  obtain h' where h': "delete_hash_node stub hash identity h b = Some (OK, h')" "hash_ok stub hash key h' ?B"
      "detached h' n" "hash_abs stub hash key ?B = M(b := None)" "\<And>a. a \<notin> list_cells B \<Longrightarrow> h' a = h a"
    using delete_spec [OF B(1) old] B(2) xs(1) unfolding head_def by auto
  have n: "n \<in> set xs" using abs_not_null(2) [OF B(1) old] xs(1) by (simp add: head_def)
  have cells: "list_cells ?B \<subseteq> list_cells B" using xs(1) by (rule list_cells_shrink) (rule set_remove1_subset)
  have fam: "list_family dlist h B" using B(1) by (simp add: hash_ok_def)
  have gone: "n \<notin> list_cells ?B"
  proof
    assume "n \<in> list_cells ?B"
    then obtain a ys where a: "?B a = Some ys" "n = a \<or> n \<in> set ys" by (rule list_cellsE)
    show False
    proof (cases "a = head")
      case True
      with a n xs(2) show False by (auto simp: dlist_def)
    next
      case False
      with a list_family_disjoint [OF fam xs(1), of a ys n] n show False by auto
    qed
  qed
  have "hash_rel stub hash key K h' (M(b := None)) (insert n F)"
  proof (rule hash_relI [OF h'(2,4)])
    fix m assume "m \<in> insert n F"
    with B(3) [of m] cells gone h'(3) h'(5) [of m] show "detached h' m \<and> m \<notin> list_cells ?B"
      by (auto simp: detached_def)
  qed (use B(4) in \<open>auto simp: head_def\<close>)
  with h'(1) show ?thesis by blast
qed

lemma search_refines:
  assumes "hash_rel stub hash key K h M F"
  shows "search_hash_node stub hash identity h b = Some (case M b of None \<Rightarrow> NULL | Some n \<Rightarrow> n)"
  using assms search_spec unfolding hash_rel_def by blast

lemma refused_refines:
  assumes "hash_rel stub hash key K h M F"
  shows "M b \<noteq> None \<Longrightarrow> key n = b \<Longrightarrow> add_hash_node stub hash identity h b n = Some (- ERR_EXIST, h)"
    and "M b = None \<Longrightarrow> delete_hash_node stub hash identity h b = Some (- ERR_NOT_PRESENT, h)"
  using assms add_present delete_absent unfolding hash_rel_def by blast+

lemma step_refines:
  assumes rel: "hash_rel stub hash key K h M F" and spec: "map_step key M F p = Some (r, M', F')"
  shows "\<exists>h'. hash_step stub hash identity h p = Some (r, h') \<and> hash_rel stub hash key K h' M' F'"
proof (cases p)
  case (H_search b)
  then show ?thesis using search_refines [OF rel] rel spec by auto
next
  case (H_add b n)
  then show ?thesis
    using spec rel refused_refines(1) [OF rel, of b n] add_refines [OF rel, of n b] by (auto split: if_splits)
next
  case (H_delete b)
  then show ?thesis
    using spec rel refused_refines(2) [OF rel, of b] delete_refines [OF rel, of b] by (fastforce split: option.splits)
qed

lemma run_refines:
  "hash_rel stub hash key K h M F \<Longrightarrow> map_run key M F ps = Some (rs, M', F') \<Longrightarrow>
    \<exists>h'. hash_run stub hash identity h ps = Some (rs, h') \<and> hash_rel stub hash key K h' M' F'"
proof (induction ps arbitrary: h M F rs)
  case (Cons p ps)
  from Cons.prems(2) obtain r M1 F1 rs1 where s: "map_step key M F p = Some (r, M1, F1)"
      "map_run key M1 F1 ps = Some (rs1, M', F')" "rs = r # rs1"
    by (auto split: Option.bind_splits)
  obtain h1 where h1: "hash_step stub hash identity h p = Some (r, h1)" "hash_rel stub hash key K h1 M1 F1"
    using step_refines [OF Cons.prems(1) s(1)] by blast
  from Cons.IH [OF h1(2) s(2)] h1(1) s(3) show ?case by auto
qed auto

end

text \<open>C4. The hash table refines a map from keys to nodes. Take a table whose buckets are
  well-formed lists with unique keys, and any sequence of searches, adds and deletes of any keys,
  present or absent, in which every add names a node that carries the key and that, if the key is
  absent, is in no list. Then no call hangs and no assertion fires, and the replies are those of
  the map: a search returns the node of the key or NULL, an add of a new key returns OK and binds
  it, an add of a present key returns -ERR_EXIST and a delete of an absent one -ERR_NOT_PRESENT and
  both change nothing, and a delete of a present key returns OK and removes that key alone. At the
  end the table is well formed and holds exactly the map, the nodes that were deleted are detached
  and in no list, and the lists that are not buckets are as before.\<close>

theorem hash_run_refines:
  fixes stub :: hash_stub and hash :: "'b \<Rightarrow> u32" and h :: lheap
  assumes "\<And>m c. identity m c \<longleftrightarrow> key m = c"
    and "hash_rel stub hash key K h M F"
    and "map_run key M F ps = Some (rs, M', F')"
  shows "\<exists>h'. hash_run stub hash identity h ps = Some (rs, h') \<and> hash_rel stub hash key K h' M' F'"
proof -
  have "hash_client identity key" by unfold_locales (rule assms(1))
  from hash_client.run_refines [OF this assms(2,3)] show ?thesis .
qed

theorem hash_run_refines_witness:
  defines "stub \<equiv> \<lparr>stub_mask = 1, heads = 100\<rparr>" and "h \<equiv> (\<lambda>_. \<lparr>le_prev = 0, le_next = 0\<rparr>)"
    and "hash \<equiv> (\<lambda>c :: u32. c)"
  shows "\<exists>h'. hash_run stub hash (\<lambda>m c. m - 4 = c) h
      [H_add 3 7, H_add 5 9, H_add 3 7, H_delete 3, H_delete 3, H_search 5, H_search 3, H_add 3 7, H_search 3] =
      Some ([H_code OK, H_code OK, H_code (- ERR_EXIST), H_code OK, H_code (- ERR_NOT_PRESENT), H_node 9, H_node NULL, H_code OK, H_node 7], h') \<and>
    hash_rel stub hash (\<lambda>m. m - 4) Map.empty h' [5 \<mapsto> 9, 3 \<mapsto> 7] {}"
proof -
  let ?B = "[100 \<mapsto> [], 108 \<mapsto> []] :: addr \<rightharpoonup> addr list"
  have bucket: "hash_bucket stub hash b = (if even b then 100 else 108)" for b
    by (simp add: hash_bucket_def stub_def hash_def and_one_eq mod2_eq_if)
  have "list_family dlist h ?B"
    by (auto simp: list_family_def dlist_def h_def split: if_splits)
  then have ok: "hash_ok stub hash (\<lambda>m. m - 4) h ?B" by (simp add: hash_ok_def bucket)
  have in_range: "100 \<in> range (hash_bucket stub hash)" "108 \<in> range (hash_bucket stub hash)"
    by (auto simp: bucket image_iff intro: exI [of _ 0] exI [of _ 1])
  have "hash_rel stub hash (\<lambda>m. m - 4) Map.empty h Map.empty {7, 9}"
    by (rule hash_relI [OF ok]) (use in_range in \<open>auto simp: hash_abs_def bucket detached_def h_def list_cells_def\<close>)
  then show ?thesis
    by (rule hash_run_refines [rotated]) (simp_all add: fun_eq_iff insert_Diff_if)
qed

end
