(* ===== verification/Generic_Tree.thy ===== *)
theory Generic_Tree
  imports Kernel_Prelude
begin

section \<open>Trees with left-child, right-sibling links (\<^verbatim>\<open>lib/generic_tree.c\<close>)\<close>

text \<open>
  A node of the file hierarchy is a \<^verbatim>\<open>struct binary_tree_node\<close>: \<^verbatim>\<open>left\<close> is its first
  child, \<^verbatim>\<open>right\<close> its next sibling, and \<^verbatim>\<open>parent\<close> is the node whose \<^verbatim>\<open>left\<close> or
  \<^verbatim>\<open>right\<close> it is. The same structure carries the binary heap of the timers. Memory is a
  function from addresses to nodes. The \<^verbatim>\<open>list\<close> field of the structure is a list cell and
  lives in the memory of list cells.
\<close>

record binary_tree_node =
  parent :: addr
  left :: addr
  right :: addr

type_synonym theap = "addr \<Rightarrow> binary_tree_node"

definition set_parent :: "theap \<Rightarrow> addr \<Rightarrow> addr \<Rightarrow> theap" where
  "set_parent h a v = h(a := (h a)\<lparr>parent := v\<rparr>)"

definition set_left :: "theap \<Rightarrow> addr \<Rightarrow> addr \<Rightarrow> theap" where
  "set_left h a v = h(a := (h a)\<lparr>left := v\<rparr>)"

definition set_right :: "theap \<Rightarrow> addr \<Rightarrow> addr \<Rightarrow> theap" where
  "set_right h a v = h(a := (h a)\<lparr>right := v\<rparr>)"

lemmas theap_upd = set_parent_def set_left_def set_right_def

subsection \<open>Traversal macros\<close>

text \<open>Climbing to the first sibling.\<close>

partial_function (option) first_sibling :: "theap \<Rightarrow> addr \<Rightarrow> addr option" where
  "first_sibling h sib =
     (if parent (h sib) \<noteq> NULL \<and> right (h (parent (h sib))) = sib
      then first_sibling h (parent (h sib))
      else Some sib)"

definition parent_of_node :: "theap \<Rightarrow> addr \<Rightarrow> addr option" where
  "parent_of_node h node =
     (if node = NULL then Some NULL
      else do { sib \<leftarrow> first_sibling h node; Some (parent (h sib)) })"

partial_function (option) right_chain :: "theap \<Rightarrow> addr \<Rightarrow> addr list option" where
  "right_chain h sib =
     (if sib = NULL then Some []
      else Option.bind (right_chain h (right (h sib))) (\<lambda>xs. Some (sib # xs)))"

definition foreach_sibling_node :: "theap \<Rightarrow> addr \<Rightarrow> addr list option" where
  "foreach_sibling_node h current =
     (if current = NULL then Some []
      else do { sib \<leftarrow> first_sibling h current; right_chain h sib })"

definition foreach_child_node :: "theap \<Rightarrow> addr \<Rightarrow> addr list option" where
  "foreach_child_node h current = foreach_sibling_node h (left (h current))"

subsection \<open>Operations\<close>

definition generic_delete_node :: "theap \<Rightarrow> addr \<Rightarrow> (int \<times> theap) option" where
  "generic_delete_node h node = do {
     kassert (parent (h node) \<noteq> NULL);
     h \<leftarrow> (if left (h (parent (h node))) = node then
             (let h = (if right (h node) \<noteq> NULL
                       then set_parent h (right (h node)) (parent (h node)) else h)
              in Some (set_left h (parent (h node)) (right (h node))))
           else do {
             kassert (right (h (parent (h node))) = node);
             let h = (if right (h node) \<noteq> NULL
                      then set_parent h (right (h node)) (right (h node)) else h);
             Some (set_right h (parent (h node)) (right (h node))) });
     let h = set_right h node NULL;
     Some (OK, set_parent h node NULL)
   }"

partial_function (option) last_sibling :: "theap \<Rightarrow> addr \<Rightarrow> addr option" where
  "last_sibling h ptr = (if right (h ptr) \<noteq> NULL then last_sibling h (right (h ptr)) else Some ptr)"

definition add_sibling :: "theap \<Rightarrow> addr \<Rightarrow> addr \<Rightarrow> (int \<times> theap) option" where
  "add_sibling h current node =
     (if current = NULL then Some (- ERR_INVALID_ARG, h)
      else do {
        ptr \<leftarrow> last_sibling h current;
        let h = set_parent h node ptr;
        Some (OK, set_right h ptr node) })"

definition add_child :: "theap \<Rightarrow> addr \<Rightarrow> addr \<Rightarrow> (int \<times> theap) option" where
  "add_child h current node =
     (if current = NULL then Some (- ERR_INVALID_ARG, h)
      else if left (h current) = NULL then
        (let h = set_left h current node in Some (OK, set_parent h node current))
      else add_sibling h (left (h current)) node)"

subsection \<open>Abstraction: the sequence of children\<close>

primrec sib_chain :: "theap \<Rightarrow> addr \<Rightarrow> addr \<Rightarrow> addr list \<Rightarrow> bool" where
  "sib_chain h p x [] \<longleftrightarrow> x = NULL"
| "sib_chain h p x (a # as) \<longleftrightarrow>
     x = a \<and> a \<noteq> NULL \<and> parent (h a) = p \<and> sib_chain h a (right (h a)) as"

definition children :: "theap \<Rightarrow> addr \<Rightarrow> addr list \<Rightarrow> bool" where
  "children h c xs \<longleftrightarrow> c \<noteq> NULL \<and> distinct (c # xs) \<and> right (h c) \<notin> set xs \<and> sib_chain h c (left (h c)) xs"

lemma sib_chain_upd [simp]: "u \<notin> set xs \<Longrightarrow> sib_chain (h(u := v)) p x xs = sib_chain h p x xs"
  by (induction xs arbitrary: p x) auto

lemma sib_chain_NULL: "sib_chain h p NULL xs \<longleftrightarrow> xs = []"
  by (cases xs) auto

lemma right_chain_eq: "sib_chain h p x xs \<Longrightarrow> right_chain h x = Some xs"
proof (induction xs arbitrary: p x)
  case Nil
  then show ?case by (simp add: right_chain.simps)
next
  case (Cons a xs)
  then show ?case by (auto simp: right_chain.simps [of h a])
qed

lemma last_sibling_eq: "sib_chain h p x (a # as) \<Longrightarrow> last_sibling h x = Some (last (a # as))"
proof (induction as arbitrary: p x a)
  case Nil
  then show ?case by (simp add: last_sibling.simps)
next
  case (Cons b as)
  from Cons.prems have "right (h a) = b" "b \<noteq> NULL" "x = a" and tail: "sib_chain h a (right (h a)) (b # as)" by auto
  then have "last_sibling h a = last_sibling h (right (h a))" by (simp add: last_sibling.simps [of h a])
  with Cons.IH [OF tail] \<open>x = a\<close> show ?case by simp
qed

lemma first_sibling_eq:
  assumes "children h c (as @ x # bs)"
  shows "first_sibling h x = Some (hd (as @ [x]))"
  using assms
proof (induction as arbitrary: x bs rule: rev_induct)
  case Nil
  then have "parent (h x) = c" "right (h c) \<noteq> x" by (auto simp: children_def)
  then show ?case by (simp add: first_sibling.simps [of h x])
next
  case (snoc a as)
  have link: "sib_chain h p y (zs @ a # x # bs) \<Longrightarrow> parent (h x) = a \<and> right (h a) = x \<and> a \<noteq> NULL" for p y zs
    by (induction zs arbitrary: p y) auto
  from snoc.prems link have "parent (h x) = a" "right (h a) = x" "a \<noteq> NULL" by (auto simp: children_def)
  then have "first_sibling h x = first_sibling h a" by (simp add: first_sibling.simps [of h x])
  with snoc.IH [of a "x # bs"] snoc.prems show ?case by (cases as) simp_all
qed

lemma foreach_child_node_eq: "children h c xs \<Longrightarrow> foreach_child_node h c = Some xs"
proof (cases xs)
  case Nil
  then show "children h c xs \<Longrightarrow> ?thesis" by (simp add: children_def foreach_child_node_def foreach_sibling_node_def)
next
  case (Cons x ys)
  assume ch: "children h c xs"
  with Cons have "left (h c) = x" "x \<noteq> NULL" "sib_chain h c x xs" by (auto simp: children_def)
  with first_sibling_eq [of h c "[]" x ys] Cons ch right_chain_eq show ?thesis
    by (simp add: foreach_child_node_def foreach_sibling_node_def)
qed

lemma foreach_sibling_node_eq:
  assumes "children h c xs" "x \<in> set xs"
  shows "foreach_sibling_node h x = Some xs" and "parent_of_node h x = Some c"
proof -
  from assms(2) obtain as bs where xs: "xs = as @ x # bs" by (meson split_list)
  have fs: "first_sibling h x = Some (hd xs)"
    using first_sibling_eq [of h c as x bs] assms(1) xs by (cases as) simp_all
  have "x \<noteq> NULL \<and> sib_chain h c (hd xs) xs \<and> parent (h (hd xs)) = c"
  proof -
    have "sib_chain h p y zs \<Longrightarrow> NULL \<notin> set zs" for p y zs by (induction zs arbitrary: p y) auto
    with assms show ?thesis by (cases xs) (auto simp: children_def)
  qed
  with fs right_chain_eq show "foreach_sibling_node h x = Some xs" "parent_of_node h x = Some c"
    by (auto simp: foreach_sibling_node_def parent_of_node_def)
qed

lemma sib_chain_snoc:
  "sib_chain h p x (as @ [b]) \<longleftrightarrow> (if as = [] then x = b \<and> parent (h b) = p
     else parent (h b) = last as \<and> right (h (last as)) = b \<and>
       sib_chain (h(last as := (h (last as))\<lparr>right := NULL\<rparr>)) p x as) \<and> b \<noteq> NULL \<and> right (h b) = NULL"
  if "distinct as"
  using that
proof (induction as arbitrary: p x)
  case (Cons a as)
  then show ?case by (cases "as = []") (auto simp: sib_chain_NULL)
qed auto

lemma add_child_correct:
  assumes ch: "children h c xs" and n: "n \<notin> set xs" "n \<noteq> c" "n \<noteq> NULL" "right (h n) = NULL" "right (h c) \<noteq> n"
  shows "\<exists>h'. add_child h c n = Some (OK, h') \<and> children h' c (xs @ [n]) \<and>
     (\<forall>a. a \<notin> insert c (insert n (set xs)) \<longrightarrow> h' a = h a)"
proof (cases xs rule: rev_cases)
  case Nil
  with assms show ?thesis
    by (auto simp: add_child_def children_def theap_upd)
next
  case (snoc ys l)
  then obtain z zs where zs: "xs = z # zs" by (metis append_is_Nil_conv list.exhaust not_Cons_self2)
  have "sib_chain h c (left (h c)) (z # zs)" using ch zs by (simp add: children_def)
  moreover have "last (z # zs) = l" using snoc zs by (metis last_snoc)
  ultimately have last: "last_sibling h (left (h c)) = Some l" using last_sibling_eq by metis
  have nn: "left (h c) \<noteq> NULL" using ch zs by (auto simp: children_def)
  define h' where "h' = set_right (set_parent h n l) l n"
  have run: "add_child h c n = Some (OK, h')" using ch last nn by (simp add: add_child_def add_sibling_def h'_def children_def)
  have dist: "distinct xs" "c \<notin> set xs" "l \<noteq> n" "l \<noteq> c" "l \<in> set xs" using ch n snoc by (auto simp: children_def)
  have l: "right (h l) = NULL" using ch snoc sib_chain_snoc [of ys h c "left (h c)" l] by (simp add: children_def)
  have "sib_chain (h'(l := (h' l)\<lparr>right := NULL\<rparr>)) c (left (h c)) xs"
  proof -
    have "h'(l := (h' l)\<lparr>right := NULL\<rparr>) = h(n := (h n)\<lparr>parent := l\<rparr>)"
      using dist l by (auto simp: h'_def theap_upd fun_eq_iff)
    then show ?thesis using ch n by (simp add: children_def)
  qed
  then have "sib_chain h' c (left (h c)) (xs @ [n])"
    using sib_chain_snoc [of xs h' c "left (h c)" n] dist n snoc by (simp add: h'_def theap_upd)
  then have "children h' c (xs @ [n])" using ch n dist by (auto simp: children_def h'_def theap_upd)
  with run dist show ?thesis by (auto simp: h'_def theap_upd)
qed

lemma generic_delete_first_correct:
  assumes "children h c (n # xs)"
  shows "\<exists>h'. generic_delete_node h n = Some (OK, h') \<and> children h' c xs \<and>
     parent (h' n) = NULL \<and> right (h' n) = NULL \<and> (\<forall>a. a \<notin> insert c (insert n (set xs)) \<longrightarrow> h' a = h a)"
  using assms by (cases xs) (auto simp: generic_delete_node_def children_def theap_upd)

subsection \<open>Deleting an inner sibling\<close>

text \<open>The sibling links alone, without the parent links.\<close>

primrec rseg :: "theap \<Rightarrow> addr \<Rightarrow> addr list \<Rightarrow> addr \<Rightarrow> bool" where
  "rseg h x [] y \<longleftrightarrow> x = y"
| "rseg h x (a # as) y \<longleftrightarrow> x = a \<and> a \<noteq> NULL \<and> rseg h (right (h a)) as y"

lemma rseg_upd: "(\<And>u. u \<in> set xs \<Longrightarrow> right (h' u) = right (h u)) \<Longrightarrow> rseg h x xs y \<Longrightarrow> rseg h' x xs y"
  by (induction xs arbitrary: x) auto

lemma rseg_append: "rseg h x (as @ bs) y \<longleftrightarrow> (\<exists>m. rseg h x as m \<and> rseg h m bs y)"
  by (induction as arbitrary: x) auto

lemma sib_chain_rseg: "sib_chain h p x xs \<Longrightarrow> rseg h x xs NULL"
  by (induction xs arbitrary: p x) auto

lemma right_chain_rseg: "rseg h x xs NULL \<Longrightarrow> right_chain h x = Some xs"
proof (induction xs arbitrary: x)
  case Nil
  then show ?case by (simp add: right_chain.simps)
next
  case (Cons a xs)
  then show ?case by (auto simp: right_chain.simps [of h a])
qed

lemma sib_chain_inner:
  "sib_chain h p x (as @ a # b # bs) \<Longrightarrow> a \<noteq> NULL \<and> b \<noteq> NULL \<and> parent (h b) = a \<and> right (h a) = b \<and> rseg h (right (h b)) bs NULL"
  by (induction as arbitrary: p x) (auto dest: sib_chain_rseg)

text \<open>C5. generic_delete_node on a child that is neither the first nor the last of its siblings
  makes the parent pointer of the next sibling point to that sibling itself. Enumerating the
  children of the common parent still gives the remaining children in order, but the next
  sibling is now reported as its own parent, and deleting it in turn fails an assertion, so
  that the kernel stops.\<close>

theorem delete_inner_sibling_then_next_panics:
  assumes ch: "children h c (as @ a # b # d # ds)" and l: "left (h a) \<noteq> b" "left (h d) \<noteq> d"
  shows "\<exists>h'. generic_delete_node h b = Some (OK, h') \<and>
     foreach_child_node h' c = Some (as @ a # d # ds) \<and>
     parent_of_node h' d = Some d \<and> generic_delete_node h' d = None"
proof -
  have chain: "sib_chain h c (left (h c)) (as @ a # b # d # ds)" and dist: "distinct (c # as @ a # b # d # ds)"
    and c: "c \<noteq> NULL" "right (h c) \<notin> set (as @ a # b # d # ds)" using ch by (auto simp: children_def)
  have ab: "a \<noteq> NULL" "b \<noteq> NULL" "parent (h b) = a" "right (h a) = b"
    using sib_chain_inner [OF chain] by auto
  have bd: "d \<noteq> NULL" "right (h b) = d" "rseg h (right (h d)) ds NULL"
    using sib_chain_inner [of h c "left (h c)" "as @ [a]" b d ds] chain by auto
  define h' where "h' = h(d := (h d)\<lparr>parent := d\<rparr>, a := (h a)\<lparr>right := d\<rparr>, b := (h b)\<lparr>right := NULL, parent := NULL\<rparr>)"
  have run: "generic_delete_node h b = Some (OK, h')"
    using ab bd l dist by (auto simp: generic_delete_node_def h'_def theap_upd)
  have "d \<noteq> right (h d)" using bd dist by (cases ds) auto
  then have self: "parent (h' d) = d" "right (h' d) \<noteq> d" "left (h' d) \<noteq> d" using dist l by (auto simp: h'_def)
  have "rseg h (left (h c)) as a"
    using sib_chain_rseg [OF chain] by (auto simp: rseg_append)
  then have "rseg h' (left (h c)) as a" by (rule rseg_upd [rotated]) (use dist in \<open>auto simp: h'_def\<close>)
  moreover have "rseg h' (right (h d)) ds NULL" by (rule rseg_upd [OF _ bd(3)]) (use dist in \<open>auto simp: h'_def\<close>)
  ultimately have rs: "rseg h' (left (h c)) (as @ a # d # ds) NULL"
    using ab bd dist by (auto simp: rseg_append h'_def)
  have "left (h c) = hd (as @ [a])" using chain by (cases as) auto
  moreover have "parent (h (hd (as @ [a]))) = c" "hd (as @ [a]) \<noteq> NULL" using chain by (cases as; auto)+
  moreover have "hd (as @ [a]) \<noteq> b" "hd (as @ [a]) \<noteq> d" "hd (as @ [a]) \<noteq> right (h c)" "hd (as @ [a]) \<noteq> c"
    using dist c(2) by (cases as; auto)+
  ultimately have first: "left (h c) \<noteq> NULL" "parent (h' (left (h c))) = c" "right (h' c) \<noteq> left (h c)" "left (h' c) = left (h c)"
    using dist by (auto simp: h'_def)
  have "first_sibling h' (left (h c)) = Some (left (h c))"
    by (subst first_sibling.simps) (simp add: first)
  then have "foreach_child_node h' c = Some (as @ a # d # ds)"
    using right_chain_rseg [OF rs] first by (simp add: foreach_child_node_def foreach_sibling_node_def)
  moreover have "parent_of_node h' d = Some d"
    using self bd by (simp add: parent_of_node_def first_sibling.simps [of h' d])
  moreover have "generic_delete_node h' d = None"
    using self bd by (simp add: generic_delete_node_def)
  ultimately show ?thesis using run by blast
qed

theorem delete_inner_sibling_then_next_panics_witness:
  defines "h \<equiv> (\<lambda>x :: addr. \<lparr>parent = 0, left = 0, right = 0\<rparr>)
      (4 := \<lparr>parent = 0, left = 8, right = 0\<rparr>, 8 := \<lparr>parent = 4, left = 0, right = 12\<rparr>,
       12 := \<lparr>parent = 8, left = 0, right = 16\<rparr>, 16 := \<lparr>parent = 12, left = 0, right = 0\<rparr>)"
  shows "\<exists>h'. generic_delete_node h 12 = Some (OK, h') \<and> foreach_child_node h' 4 = Some ([] @ 8 # 16 # []) \<and>
     parent_of_node h' 16 = Some 16 \<and> generic_delete_node h' 16 = None"
  by (rule delete_inner_sibling_then_next_panics) (simp_all add: h_def children_def)

end
