(* ===== verification/Paging.thy ===== *)
theory Paging
  imports Kernel_Prelude
begin

section \<open>Physical pages and page tables (\<^verbatim>\<open>memory/paging.c\<close>, \<^verbatim>\<open>memory/physical_memory.c\<close>)\<close>

text \<open>
  Two bitmaps record which pages are taken: one for all physical pages and one for the page
  inventory between \<^verbatim>\<open>PAGE_SPACE_BOTTOM\<close> and \<^verbatim>\<open>PAGE_SPACE_TOP\<close>, from which page
  directories and page tables are taken. That inventory is mapped one to one, so the words of
  directories and tables are read and written at their physical addresses: \<open>pmem\<close> is the
  memory of 32-bit words. The symbols of the linker script are the fields of \<open>layout\<close>.
\<close>

abbreviation (input) PAGE_SPACE_BOTTOM :: u32 where "PAGE_SPACE_BOTTOM \<equiv> 0x4000000"
abbreviation (input) PAGE_SPACE_TOP :: u32 where "PAGE_SPACE_TOP \<equiv> 0x8000000"
abbreviation (input) USERSPACE_BOTTOM :: u32 where "USERSPACE_BOTTOM \<equiv> 0x40000000"
abbreviation (input) FREE_PAGE_BITMAP_SIZE :: u32 where "FREE_PAGE_BITMAP_SIZE \<equiv> 0x20000"

abbreviation (input) PAGE_PERMISSION_READ_ONLY :: u32 where "PAGE_PERMISSION_READ_ONLY \<equiv> 0"
abbreviation (input) PAGE_PERMISSION_READ_WRITE :: u32 where "PAGE_PERMISSION_READ_WRITE \<equiv> 1"
abbreviation (input) PAGE_PERMISSION_USER :: u32 where "PAGE_PERMISSION_USER \<equiv> 1"
abbreviation (input) PAGE_PERMISSION_SUPERVISOR :: u32 where "PAGE_PERMISSION_SUPERVISOR \<equiv> 0"
abbreviation (input) PAGE_WRITETHROUGH :: u32 where "PAGE_WRITETHROUGH \<equiv> 1"
abbreviation (input) PAGE_WRITEBACK :: u32 where "PAGE_WRITEBACK \<equiv> 0"
abbreviation (input) PAGE_CACHE_DISABLED :: u32 where "PAGE_CACHE_DISABLED \<equiv> 1"
abbreviation (input) PAGE_CACHE_ENABLED :: u32 where "PAGE_CACHE_ENABLED \<equiv> 0"

record layout =
  kernel_text_start :: u32
  kernel_text_end :: u32
  kernel_data_start :: u32
  kernel_data_end :: u32
  kernel_bss_start :: u32
  kernel_bss_end :: u32

type_synonym pmem = "addr \<Rightarrow> u32"

record paging =
  free_page_bitmap :: "u32 \<Rightarrow> u8"
  free_base_page_bitmap :: "u32 \<Rightarrow> u8"
  kernel_page_directory :: addr
  fast_base_page_addr :: u32
  fast_page_addr :: u32
  physical_memory_length :: u32
  cr3 :: addr
  pmem :: pmem

subsection \<open>Physical memory\<close>

record multiboot_mmap =
  mm_size :: u32
  baseaddr_low :: u32
  baseaddr_high :: u32
  length_low :: u32
  length_high :: u32
  mm_type :: u32

abbreviation (input) LOW_MEMORY_DELIMITER :: u32 where "LOW_MEMORY_DELIMITER \<equiv> 0x100000"

definition get_system_memory_boundary :: "paging \<Rightarrow> u32" where
  "get_system_memory_boundary s = physical_memory_length s"

definition get_system_memory_start :: "layout \<Rightarrow> u32" where
  "get_system_memory_start l = page_round_addr (kernel_bss_end l)"

primrec probe_mmaps :: "multiboot_mmap list \<Rightarrow> u32 \<Rightarrow> u32" where
  "probe_mmaps [] len = len"
| "probe_mmaps (m # ms) len =
     probe_mmaps ms (if LOW_MEMORY_DELIMITER = baseaddr_low m then baseaddr_low m + length_low m else len)"

text \<open>Besides the state the results are the three sizes that the function leaves in \<^verbatim>\<open>text_size_aligned\<close>,
  \<^verbatim>\<open>data_size_aligned\<close> and \<^verbatim>\<open>bss_size_aligned\<close>, which nothing but its log reads.\<close>

definition probe_physical_memory ::
    "layout \<Rightarrow> multiboot_mmap list \<Rightarrow> paging \<Rightarrow> (u32 \<times> u32 \<times> u32 \<times> paging) option" where
  "probe_physical_memory l mmaps s = do {
     let s = s\<lparr>physical_memory_length := probe_mmaps mmaps (physical_memory_length s)\<rparr>;
     let text_size_aligned = page_round_addr (kernel_text_end l - kernel_text_start l);
     let data_size_aligned = page_round_addr (kernel_data_end l - kernel_data_start l);
     let bss_size_aligned = page_round_addr (kernel_bss_end l - kernel_bss_start l);
     kassert (kernel_bss_end l \<le> PAGE_SPACE_BOTTOM);
     Some (text_size_aligned, data_size_aligned, bss_size_aligned, s) }"

subsection \<open>Page table entries\<close>

definition create_pte32 :: "u32 \<Rightarrow> u32 \<Rightarrow> u32 \<Rightarrow> u32 \<Rightarrow> u32 \<Rightarrow> u32" where
  "create_pte32 write_permission supervisor_permission page_writethrough page_cachedisable pg_frame =
     1 OR push_bit 1 (write_permission AND 1) OR push_bit 2 (supervisor_permission AND 1)
       OR push_bit 3 (page_writethrough AND 1) OR push_bit 4 (page_cachedisable AND 1)
       OR push_bit 12 (drop_bit 12 pg_frame)"

definition create_pde32 :: "u32 \<Rightarrow> u32 \<Rightarrow> u32 \<Rightarrow> u32 \<Rightarrow> u32 \<Rightarrow> u32" where
  "create_pde32 write_permission supervisor_permission page_writethrough page_cachedisable pt_frame =
     1 OR push_bit 1 (write_permission AND 1) OR push_bit 2 (supervisor_permission AND 1)
       OR push_bit 3 (page_writethrough AND 1) OR push_bit 4 (page_cachedisable AND 1)
       OR push_bit 12 (drop_bit 12 pt_frame)"

definition entry_present :: "u32 \<Rightarrow> bool" where
  "entry_present e = bit e 0"

definition entry_frame :: "u32 \<Rightarrow> u32" where
  "entry_frame e = push_bit 12 (drop_bit 12 e)"

definition pd_index :: "u32 \<Rightarrow> u32" where
  "pd_index v = drop_bit 22 v AND 0x3ff"

definition pt_index :: "u32 \<Rightarrow> u32" where
  "pt_index v = drop_bit 12 v AND 0x3ff"

subsection \<open>The bitmap of physical pages\<close>

definition IS_PAGE_FREE :: "paging \<Rightarrow> u32 \<Rightarrow> bool" where
  "IS_PAGE_FREE s pg = (\<not> bit (drop_bit (unat (drop_bit 12 pg AND 7)) (free_page_bitmap s (drop_bit 3 (drop_bit 12 pg)))) 0)"

definition MAKR_PAGE_AS_FREE :: "paging \<Rightarrow> u32 \<Rightarrow> paging" where
  "MAKR_PAGE_AS_FREE s pg =
     (let fn = drop_bit 12 pg; byte = drop_bit 3 fn; mask = NOT (push_bit (unat (fn AND 7)) 1)
      in s\<lparr>free_page_bitmap := (free_page_bitmap s)(byte := free_page_bitmap s byte AND mask)\<rparr>)"

definition MARK_PAGE_AS_OCCUPIED :: "paging \<Rightarrow> u32 \<Rightarrow> paging" where
  "MARK_PAGE_AS_OCCUPIED s pg =
     (let fn = drop_bit 12 pg; byte = drop_bit 3 fn; mask = push_bit (unat (fn AND 7)) 1
      in s\<lparr>free_page_bitmap := (free_page_bitmap s)(byte := free_page_bitmap s byte OR mask)\<rparr>)"

lemma and7_unat: "unat (x AND 7) < 8" for x :: u32
proof -
  have "x AND 7 = take_bit 3 x" by (simp add: take_bit_eq_mask mask_eq_exp_minus_1)
  then show ?thesis using take_bit_nat_less_exp [of 3 "unat x"] by (simp add: unsigned_take_bit_eq)
qed

lemma frame_split:
  fixes p q :: u32
  assumes "drop_bit 15 p = drop_bit 15 q"
  shows "unat (drop_bit 12 p AND 7) = unat (drop_bit 12 q AND 7) \<longleftrightarrow> drop_bit 12 p = drop_bit 12 q"
proof -
  have m: "x AND 7 = take_bit 3 x" for x :: u32 by (simp add: take_bit_eq_mask mask_eq_exp_minus_1)
  have d: "drop_bit 3 (drop_bit 12 p) = drop_bit 3 (drop_bit 12 q)" using assms by simp
  have "drop_bit 12 p AND 7 = drop_bit 12 q AND 7 \<longleftrightarrow> drop_bit 12 p = drop_bit 12 q"
    unfolding m using d by (metis bits_ident)
  then show ?thesis by (simp add: word_unat_eq_iff)
qed

lemma frame_byte: "drop_bit 12 p = drop_bit 12 q \<Longrightarrow> drop_bit 15 p = drop_bit 15 q" for p q :: u32
proof -
  have "drop_bit 15 x = drop_bit 3 (drop_bit 12 x)" for x :: u32 by simp
  then show "drop_bit 12 p = drop_bit 12 q \<Longrightarrow> ?thesis" by metis
qed

lemma is_free_bit: "IS_PAGE_FREE s pg \<longleftrightarrow> \<not> bit (free_page_bitmap s (drop_bit 15 pg)) (unat (drop_bit 12 pg AND 7))"
  by (simp add: IS_PAGE_FREE_def bit_drop_bit_eq)

lemma is_free_occupied:
  "IS_PAGE_FREE (MARK_PAGE_AS_OCCUPIED s pg) q \<longleftrightarrow> IS_PAGE_FREE s q \<and> drop_bit 12 q \<noteq> drop_bit 12 pg"
proof (cases "drop_bit 15 q = drop_bit 15 pg")
  case True
  then show ?thesis
    using frame_split [OF True] and7_unat [of "drop_bit 12 q"]
    by (auto simp: is_free_bit MARK_PAGE_AS_OCCUPIED_def Let_def bit_simps)
next
  case False
  then have "drop_bit 12 q \<noteq> drop_bit 12 pg" using frame_byte by blast
  with False show ?thesis by (auto simp: is_free_bit MARK_PAGE_AS_OCCUPIED_def Let_def)
qed

lemma is_free_freed:
  "IS_PAGE_FREE (MAKR_PAGE_AS_FREE s pg) q \<longleftrightarrow> IS_PAGE_FREE s q \<or> drop_bit 12 q = drop_bit 12 pg"
proof (cases "drop_bit 15 q = drop_bit 15 pg")
  case True
  then show ?thesis
    using frame_split [OF True] and7_unat [of "drop_bit 12 q"]
    by (auto simp: is_free_bit MAKR_PAGE_AS_FREE_def Let_def bit_simps)
next
  case False
  then have "drop_bit 12 q \<noteq> drop_bit 12 pg" using frame_byte by blast
  with False show ?thesis by (auto simp: is_free_bit MAKR_PAGE_AS_FREE_def Let_def)
qed

lemma frame_of_aligned: "page_aligned p \<Longrightarrow> page_aligned q \<Longrightarrow> drop_bit 12 p = drop_bit 12 q \<longleftrightarrow> p = q"
proof -
  assume "page_aligned p" "page_aligned q"
  then have "take_bit 12 p = 0" "take_bit 12 q = 0" by (simp_all only: page_aligned_take_bit)
  then show ?thesis by (metis bits_ident)
qed

subsection \<open>Pages of the page inventory\<close>

definition base_page_taken :: "paging \<Rightarrow> u32 \<Rightarrow> bool" where
  "base_page_taken s pg =
     (let offset = drop_bit 12 (pg - PAGE_SPACE_BOTTOM)
      in free_base_page_bitmap s (drop_bit 3 offset) AND push_bit (unat (offset AND 7)) 1 \<noteq> 0)"

definition base_page_take :: "paging \<Rightarrow> u32 \<Rightarrow> paging" where
  "base_page_take s pg =
     (let offset = drop_bit 12 (pg - PAGE_SPACE_BOTTOM); byte_idx = drop_bit 3 offset
      in s\<lparr>free_base_page_bitmap := (free_base_page_bitmap s)
           (byte_idx := free_base_page_bitmap s byte_idx OR push_bit (unat (offset AND 7)) 1)\<rparr>)"

function get_base_page_fast_loop :: "paging \<Rightarrow> u32 \<times> paging" where
  "get_base_page_fast_loop s =
     (if fast_base_page_addr s < PAGE_SPACE_TOP then
        (if base_page_taken s (fast_base_page_addr s)
         then get_base_page_fast_loop (s\<lparr>fast_base_page_addr := fast_base_page_addr s + PAGE_SIZE\<rparr>)
         else (fast_base_page_addr s, base_page_take s (fast_base_page_addr s)))
      else (0, s))"
  by pat_completeness auto
termination
proof (relation "measure (\<lambda>s. unat PAGE_SPACE_TOP - unat (fast_base_page_addr s))")
  fix s :: paging
  assume "fast_base_page_addr s < PAGE_SPACE_TOP"
  then have "unat (fast_base_page_addr s) < unat PAGE_SPACE_TOP" by (simp add: word_less_nat_alt)
  then show "(s\<lparr>fast_base_page_addr := fast_base_page_addr s + PAGE_SIZE\<rparr>, s)
      \<in> measure (\<lambda>s. unat PAGE_SPACE_TOP - unat (fast_base_page_addr s))"
    using unat_plus_page [of "fast_base_page_addr s"] by simp
qed simp

definition get_base_page_fast :: "paging \<Rightarrow> u32 \<times> paging" where
  "get_base_page_fast s =
     (let s = (if fast_base_page_addr s < PAGE_SPACE_BOTTOM \<or> fast_base_page_addr s \<ge> PAGE_SPACE_TOP
               then s\<lparr>fast_base_page_addr := PAGE_SPACE_BOTTOM\<rparr> else s)
      in get_base_page_fast_loop s)"

function get_base_page_slow_loop :: "paging \<Rightarrow> u32 \<Rightarrow> u32 \<times> paging" where
  "get_base_page_slow_loop s pg =
     (if pg < PAGE_SPACE_TOP then
        (if base_page_taken s pg then get_base_page_slow_loop s (pg + PAGE_SIZE)
         else (pg, base_page_take s pg))
      else (0, s))"
  by pat_completeness auto
termination
proof (relation "measure (\<lambda>(s, pg). unat PAGE_SPACE_TOP - unat pg)")
  fix s :: paging and pg :: u32
  assume "pg < PAGE_SPACE_TOP"
  then have "unat pg < unat PAGE_SPACE_TOP" by (simp add: word_less_nat_alt)
  then show "((s, pg + PAGE_SIZE), s, pg) \<in> measure (\<lambda>(s, pg). unat PAGE_SPACE_TOP - unat pg)"
    using unat_plus_page [of pg] by simp
qed simp

definition get_base_page_slow :: "paging \<Rightarrow> u32 \<times> paging" where
  "get_base_page_slow s = get_base_page_slow_loop s PAGE_SPACE_BOTTOM"

definition get_base_page :: "paging \<Rightarrow> u32 \<times> paging" where
  "get_base_page s =
     (let (target_page, s) = get_base_page_fast s
      in if target_page = 0 then get_base_page_slow s else (target_page, s))"

definition free_base_page :: "paging \<Rightarrow> u32 \<Rightarrow> paging" where
  "free_base_page s pg =
     (if pg < PAGE_SPACE_BOTTOM \<or> pg \<ge> PAGE_SPACE_TOP then s
      else (let offset = drop_bit 12 (pg - PAGE_SPACE_BOTTOM); byte_idx = drop_bit 3 offset
            in s\<lparr>free_base_page_bitmap := (free_base_page_bitmap s)
                 (byte_idx := free_base_page_bitmap s byte_idx AND NOT (push_bit (unat (offset AND 7)) 1))\<rparr>))"

declare get_base_page_fast_loop.simps [simp del] get_base_page_slow_loop.simps [simp del]

definition in_page_space :: "u32 \<Rightarrow> bool" where
  "in_page_space p \<longleftrightarrow> PAGE_SPACE_BOTTOM \<le> p \<and> p < PAGE_SPACE_TOP \<and> page_aligned p"

lemma base_taken_bit:
  "base_page_taken s pg \<longleftrightarrow>
    bit (free_base_page_bitmap s (drop_bit 15 (pg - PAGE_SPACE_BOTTOM))) (unat (drop_bit 12 (pg - PAGE_SPACE_BOTTOM) AND 7))"
  by (simp add: base_page_taken_def Let_def and_exp_eq_0_iff_not_bit)

lemma base_frame_eq:
  assumes "page_aligned p" "page_aligned q"
  shows "drop_bit 12 (p - PAGE_SPACE_BOTTOM) = drop_bit 12 (q - PAGE_SPACE_BOTTOM) \<longleftrightarrow> p = q"
proof -
  have "page_aligned (- PAGE_SPACE_BOTTOM)" by (simp add: page_aligned_def)
  with assms have "page_aligned (p - PAGE_SPACE_BOTTOM)" "page_aligned (q - PAGE_SPACE_BOTTOM)"
    using page_aligned_add [of _ "- PAGE_SPACE_BOTTOM"] by auto
  then show ?thesis by (simp add: frame_of_aligned)
qed

lemma base_taken_take:
  assumes "page_aligned p" "page_aligned q"
  shows "base_page_taken (base_page_take s p) q \<longleftrightarrow> base_page_taken s q \<or> q = p"
proof (cases "drop_bit 15 (q - PAGE_SPACE_BOTTOM) = drop_bit 15 (p - PAGE_SPACE_BOTTOM)")
  case True
  then show ?thesis
    using frame_split [OF True] and7_unat [of "drop_bit 12 (q - PAGE_SPACE_BOTTOM)"] base_frame_eq [OF assms(2,1)]
    by (auto simp: base_taken_bit base_page_take_def Let_def bit_simps)
next
  case False
  then show ?thesis by (auto simp: base_taken_bit base_page_take_def Let_def)
qed

lemma base_taken_free:
  assumes "in_page_space p" "page_aligned q"
  shows "base_page_taken (free_base_page s p) q \<longleftrightarrow> base_page_taken s q \<and> q \<noteq> p"
proof (cases "drop_bit 15 (q - PAGE_SPACE_BOTTOM) = drop_bit 15 (p - PAGE_SPACE_BOTTOM)")
  case True
  then show ?thesis
    using frame_split [OF True] and7_unat [of "drop_bit 12 (q - PAGE_SPACE_BOTTOM)"] base_frame_eq [of q p] assms
    by (auto simp: base_taken_bit free_base_page_def in_page_space_def Let_def bit_simps)
next
  case False
  then show ?thesis using assms by (auto simp: base_taken_bit free_base_page_def in_page_space_def Let_def)
qed

lemma base_page_take_fields [simp]:
  "fast_base_page_addr (base_page_take s p) = fast_base_page_addr s"
  "free_page_bitmap (base_page_take s p) = free_page_bitmap s"
  "kernel_page_directory (base_page_take s p) = kernel_page_directory s"
  "fast_page_addr (base_page_take s p) = fast_page_addr s"
  "physical_memory_length (base_page_take s p) = physical_memory_length s"
  "pmem (base_page_take s p) = pmem s"
  "cr3 (base_page_take s p) = cr3 s"
  by (simp_all add: base_page_take_def Let_def)

lemma base_page_taken_fast [simp]:
  "base_page_taken (s\<lparr>fast_base_page_addr := a\<rparr>) = base_page_taken s"
  by (simp add: fun_eq_iff base_page_taken_def)

lemma base_page_taken_pmem [simp]:
  "base_page_taken (s\<lparr>pmem := m\<rparr>) = base_page_taken s"
  by (simp add: fun_eq_iff base_page_taken_def)

lemma page_next:
  assumes "page_aligned a" "page_aligned q" "a \<le> q" "a \<noteq> q"
  shows "unat (a + PAGE_SIZE) = unat a + 4096" "a + PAGE_SIZE \<le> q"
proof -
  obtain i j where ij: "unat a = 4096 * i" "unat q = 4096 * j"
    using assms by (auto simp: page_aligned_dvd elim!: dvdE)
  have "unat a < unat q" using assms(3,4) by (simp add: word_less_nat_alt order_less_le word_unat_eq_iff word_le_nat_alt)
  then have lt: "unat a + 4096 \<le> unat q" using ij by simp
  then show n: "unat (a + PAGE_SIZE) = unat a + 4096"
    using unat_u32_less [of q] by (simp add: unat_word_ariths)
  show "a + PAGE_SIZE \<le> q" using lt n by (simp add: word_le_nat_alt)
qed

lemma get_base_page_slow_loop_spec:
  assumes "page_aligned pg" "PAGE_SPACE_BOTTOM \<le> pg"
  shows "(\<exists>t. get_base_page_slow_loop s pg = (t, base_page_take s t) \<and> in_page_space t \<and> \<not> base_page_taken s t) \<or>
     get_base_page_slow_loop s pg = (0, s) \<and> (\<forall>q. in_page_space q \<longrightarrow> pg \<le> q \<longrightarrow> base_page_taken s q)"
  using assms
proof (induction s pg rule: get_base_page_slow_loop.induct)
  case (1 s pg)
  show ?case
  proof (cases "pg < PAGE_SPACE_TOP \<and> base_page_taken s pg")
    case False
    with 1 show ?thesis by (auto simp: get_base_page_slow_loop.simps [of s pg] in_page_space_def)
  next
    case True
    then have step: "get_base_page_slow_loop s pg = get_base_page_slow_loop s (pg + PAGE_SIZE)"
      by (simp add: get_base_page_slow_loop.simps [of s pg])
    have al: "page_aligned (pg + PAGE_SIZE)" using 1(2) by (simp add: page_aligned_add)
    have "unat pg < unat PAGE_SPACE_TOP" using True by (simp add: word_less_nat_alt)
    then have "unat (pg + PAGE_SIZE) = unat pg + 4096" using unat_plus_page [of pg] by simp
    then have ge: "PAGE_SPACE_BOTTOM \<le> pg + PAGE_SIZE" using 1(3) by (simp add: word_le_nat_alt)
    have "base_page_taken s q" if "in_page_space q" "pg \<le> q"
      "\<forall>q. in_page_space q \<longrightarrow> pg + PAGE_SIZE \<le> q \<longrightarrow> base_page_taken s q" for q
      using page_next(2) [of pg q] that True 1(2) by (cases "q = pg") (auto simp: in_page_space_def)
    with 1(1) [OF conjunct1 [OF True] conjunct2 [OF True] al ge] show ?thesis unfolding step by blast
  qed
qed

lemma get_base_page_fast_loop_spec:
  assumes "page_aligned (fast_base_page_addr s)" "PAGE_SPACE_BOTTOM \<le> fast_base_page_addr s"
  shows "\<exists>t a. page_aligned a \<and>
     (get_base_page_fast_loop s = (t, base_page_take (s\<lparr>fast_base_page_addr := a\<rparr>) t) \<and> in_page_space t \<and> \<not> base_page_taken s t \<or>
      get_base_page_fast_loop s = (0, s\<lparr>fast_base_page_addr := a\<rparr>))"
  using assms
proof (induction s rule: get_base_page_fast_loop.induct)
  case (1 s)
  let ?f = "fast_base_page_addr s"
  show ?case
  proof (cases "?f < PAGE_SPACE_TOP \<and> base_page_taken s ?f")
    case False
    have "s\<lparr>fast_base_page_addr := ?f\<rparr> = s" by simp
    with False 1(2,3) show ?thesis
      by (auto simp: get_base_page_fast_loop.simps [of s] in_page_space_def intro: exI [of _ ?f] intro!: exI [of _ "fast_base_page_addr s"])
  next
    case True
    let ?s = "s\<lparr>fast_base_page_addr := ?f + PAGE_SIZE\<rparr>"
    have step: "get_base_page_fast_loop s = get_base_page_fast_loop ?s"
      using True by (simp add: get_base_page_fast_loop.simps [of s])
    have "unat ?f < unat PAGE_SPACE_TOP" using True by (simp add: word_less_nat_alt)
    then have "unat (?f + PAGE_SIZE) = unat ?f + 4096" using unat_plus_page [of ?f] by simp
    then have "PAGE_SPACE_BOTTOM \<le> ?f + PAGE_SIZE" using 1(3) by (simp add: word_le_nat_alt)
    then show ?thesis unfolding step using 1(1) True 1(2) by (simp add: page_aligned_add)
  qed
qed

lemma get_base_page_spec:
  assumes "page_aligned (fast_base_page_addr s)"
  obtains (found) t a where "page_aligned a" "in_page_space t" "\<not> base_page_taken s t"
      "get_base_page s = (t, base_page_take (s\<lparr>fast_base_page_addr := a\<rparr>) t)"
    | (exhausted) a where "page_aligned a" "\<And>q. in_page_space q \<Longrightarrow> base_page_taken s q"
      "get_base_page s = (0, s\<lparr>fast_base_page_addr := a\<rparr>)"
proof -
  define s0 where "s0 = (if fast_base_page_addr s < PAGE_SPACE_BOTTOM \<or> fast_base_page_addr s \<ge> PAGE_SPACE_TOP
               then s\<lparr>fast_base_page_addr := PAGE_SPACE_BOTTOM\<rparr> else s)"
  have s0: "page_aligned (fast_base_page_addr s0)" "PAGE_SPACE_BOTTOM \<le> fast_base_page_addr s0"
      "\<And>a. s0\<lparr>fast_base_page_addr := a\<rparr> = s\<lparr>fast_base_page_addr := a\<rparr>" "base_page_taken s0 = base_page_taken s"
    using assms by (auto simp: s0_def page_aligned_def)
  have fast: "get_base_page_fast s = get_base_page_fast_loop s0" by (simp add: get_base_page_fast_def s0_def)
  have nz: "t \<noteq> 0" if "in_page_space t" for t using that by (auto simp: in_page_space_def word_le_nat_alt)
  from get_base_page_fast_loop_spec [OF s0(1,2)] consider
      t a where "page_aligned a" "get_base_page_fast s = (t, base_page_take (s\<lparr>fast_base_page_addr := a\<rparr>) t)"
        "in_page_space t" "\<not> base_page_taken s t"
    | a where "page_aligned a" "get_base_page_fast s = (0, s\<lparr>fast_base_page_addr := a\<rparr>)"
    unfolding fast s0 by blast
  then show thesis
  proof cases
    case 1
    then show thesis using nz by (intro found) (auto simp: get_base_page_def)
  next
    case (2 a)
    let ?s = "s\<lparr>fast_base_page_addr := a\<rparr>"
    have slow: "get_base_page s = get_base_page_slow_loop ?s PAGE_SPACE_BOTTOM"
      using 2 by (simp add: get_base_page_def get_base_page_slow_def)
    have "page_aligned PAGE_SPACE_BOTTOM" by (simp add: page_aligned_def)
    from get_base_page_slow_loop_spec [OF this order_refl, of ?s] show thesis
      using 2(1) found [of a] exhausted [of a] unfolding slow by (auto simp: in_page_space_def)
  qed
qed

text \<open>C6. get_base_page hands out a page of the page inventory that was not taken, marks exactly
  this page as taken, and returns zero only when every page of the inventory is taken, in
  which case no page changes its state.\<close>

theorem get_base_page_correct:
  assumes "page_aligned (fast_base_page_addr s)"
  shows "case get_base_page s of (p, s') \<Rightarrow> page_aligned (fast_base_page_addr s') \<and> pmem s' = pmem s \<and>
     (if p = 0 then \<forall>q. in_page_space q \<longrightarrow> base_page_taken s q \<and> base_page_taken s' q
      else in_page_space p \<and> \<not> base_page_taken s p \<and>
        (\<forall>q. page_aligned q \<longrightarrow> base_page_taken s' q = (base_page_taken s q \<or> q = p)))"
proof (rule get_base_page_spec [OF assms])
  fix t a assume t: "page_aligned a" "in_page_space t" "\<not> base_page_taken s t"
    "get_base_page s = (t, base_page_take (s\<lparr>fast_base_page_addr := a\<rparr>) t)"
  then have "t \<noteq> 0" "page_aligned t" by (auto simp: in_page_space_def word_le_nat_alt)
  with t show ?thesis by (simp add: base_taken_take)
qed auto

theorem get_base_page_correct_witness:
  defines "s \<equiv> \<lparr>free_page_bitmap = (\<lambda>_. 0), free_base_page_bitmap = (\<lambda>_. 0), kernel_page_directory = 0,
      fast_base_page_addr = 0, fast_page_addr = 0, physical_memory_length = 0, cr3 = 0, pmem = (\<lambda>_. 0)\<rparr>"
  shows "case get_base_page s of (p, s') \<Rightarrow> page_aligned (fast_base_page_addr s') \<and> pmem s' = pmem s \<and>
     (if p = 0 then \<forall>q. in_page_space q \<longrightarrow> base_page_taken s q \<and> base_page_taken s' q
      else in_page_space p \<and> \<not> base_page_taken s p \<and>
        (\<forall>q. page_aligned q \<longrightarrow> base_page_taken s' q = (base_page_taken s q \<or> q = p)))"
  by (rule get_base_page_correct) (simp add: s_def)

subsection \<open>Mapping a page in the kernel page directory\<close>

definition clear_page :: "pmem \<Rightarrow> addr \<Rightarrow> pmem" where
  "clear_page m p = (\<lambda>a. if unat (a - p) < 4096 then 0 else m a)"

text \<open>Allocating and installing a page table for a directory entry, the part
  \<^verbatim>\<open>kernel_map_page\<close> and \<^verbatim>\<open>userspace_map_page\<close> share; zero when the inventory is
  exhausted.\<close>

definition new_page_table :: "paging \<Rightarrow> addr \<Rightarrow> u32 \<Rightarrow> u32 \<times> paging" where
  "new_page_table s pde supervisor_permission =
     (let (page_table, s) = get_base_page s
      in if page_table = 0 then (0, s)
         else let s = s\<lparr>pmem := clear_page (pmem s) page_table\<rparr>
           in (page_table, s\<lparr>pmem := (pmem s)(pde := create_pde32 PAGE_PERMISSION_READ_WRITE
                supervisor_permission PAGE_WRITEBACK PAGE_CACHE_ENABLED page_table)\<rparr>))"

definition kernel_map_page :: "paging \<Rightarrow> u32 \<Rightarrow> u32 \<Rightarrow> u32 \<Rightarrow> u32 \<Rightarrow> u32 \<Rightarrow> paging option" where
  "kernel_map_page s virt_addr phy_addr write_permission page_writethrough page_cachedisable = do {
     let pde = kernel_page_directory s + 4 * pd_index virt_addr;
     s \<leftarrow> (if \<not> entry_present (pmem s pde) then do {
             let (page_table, s) = new_page_table s pde PAGE_PERMISSION_SUPERVISOR;
             kassert (page_table \<noteq> 0);
             Some s }
           else Some s);
     kassert (entry_present (pmem s pde));
     let pte = entry_frame (pmem s pde) + 4 * pt_index virt_addr;
     let s = s\<lparr>pmem := (pmem s)(pte := create_pte32 write_permission PAGE_PERMISSION_SUPERVISOR
               page_writethrough page_cachedisable phy_addr)\<rparr>;
     kassert (entry_present (pmem s pte));
     kassert (entry_frame (pmem s pte) = phy_addr AND NOT PAGE_MASK);
     Some s
   }"

definition virt2phy :: "pmem \<Rightarrow> addr \<Rightarrow> u32 \<Rightarrow> u32" where
  "virt2phy m page_directory virt_addr =
     (let pde = m (page_directory + 4 * pd_index virt_addr)
      in if \<not> entry_present pde then 0
         else let pte = m (entry_frame pde + 4 * pt_index virt_addr)
           in if \<not> entry_present pte then 0
              else entry_frame pte OR (virt_addr AND PAGE_MASK))"

definition page_present :: "pmem \<Rightarrow> addr \<Rightarrow> u32 \<Rightarrow> u32" where
  "page_present m page_directory virt_addr =
     (let pde = m (page_directory + 4 * pd_index virt_addr)
      in if \<not> entry_present pde then of_int (- ERR_NOT_PRESENT)
         else let pte = m (entry_frame pde + 4 * pt_index virt_addr)
           in if \<not> entry_present pte then of_int (- ERR_NOT_PRESENT) else of_int OK)"

definition enable_kernel_paging :: "paging \<Rightarrow> paging" where
  "enable_kernel_paging s = s\<lparr>cr3 := kernel_page_directory s, pmem := fold (\<lambda>idx m. m(kernel_page_directory s + 4 * of_nat idx := 0))
     [unat (drop_bit 22 USERSPACE_BOTTOM)..<1024] (pmem s)\<rparr>"

subsection \<open>The address translation a directory describes\<close>

text \<open>\<open>pt_lookup\<close> walks the two levels and returns the table entry of a mapped page. The
  invariant speaks about the directory entries with an index in \<open>I\<close>: the kernel part or
  the user part of a directory. \<open>tk\<close> tells which pages of the inventory are taken.\<close>

definition pt_lookup :: "pmem \<Rightarrow> addr \<Rightarrow> u32 \<Rightarrow> u32 option" where
  "pt_lookup m d v =
     (let pde = m (d + 4 * pd_index v)
      in if entry_present pde then
           (let pte = m (entry_frame pde + 4 * pt_index v) in if entry_present pte then Some pte else None)
         else None)"

definition pt_frame :: "pmem \<Rightarrow> addr \<Rightarrow> u32 \<Rightarrow> u32" where
  "pt_frame m d i = entry_frame (m (d + 4 * i))"

definition pt_used :: "pmem \<Rightarrow> addr \<Rightarrow> u32 set \<Rightarrow> u32 set" where
  "pt_used m d I = {i \<in> I. entry_present (m (d + 4 * i))}"

definition pt_pages :: "pmem \<Rightarrow> addr \<Rightarrow> u32 set \<Rightarrow> addr set" where
  "pt_pages m d I = insert d (pt_frame m d ` pt_used m d I)"

definition tables_ok :: "(addr \<Rightarrow> bool) \<Rightarrow> pmem \<Rightarrow> addr \<Rightarrow> u32 set \<Rightarrow> bool" where
  "tables_ok tk m d I \<longleftrightarrow> (\<forall>i\<in>I. i < 1024) \<and> (\<forall>p\<in>pt_pages m d I. in_page_space p \<and> tk p) \<and>
     d \<notin> pt_frame m d ` pt_used m d I \<and> inj_on (pt_frame m d) (pt_used m d I)"

lemma entry_frame_page_of: "entry_frame e = page_of e"
  by (simp add: entry_frame_def page_of_push_drop)

lemma pd_index_less: "pd_index v < 1024"
proof -
  have "pd_index v = take_bit 10 (drop_bit 22 v)"
    by (simp add: pd_index_def take_bit_eq_mask mask_eq_exp_minus_1)
  then have "unat (pd_index v) < 2 ^ 10" by (simp only: unsigned_take_bit_eq take_bit_nat_less_exp)
  then show ?thesis by (simp add: word_less_nat_alt)
qed

lemma pt_index_less: "pt_index v < 1024"
proof -
  have "pt_index v = take_bit 10 (drop_bit 12 v)"
    by (simp add: pt_index_def take_bit_eq_mask mask_eq_exp_minus_1)
  then have "unat (pt_index v) < 2 ^ 10" by (simp only: unsigned_take_bit_eq take_bit_nat_less_exp)
  then show ?thesis by (simp add: word_less_nat_alt)
qed

lemma index_page: "pd_index u = pd_index v \<and> pt_index u = pt_index v \<longleftrightarrow> page_of u = page_of v"
proof
  assume idx: "pd_index u = pd_index v \<and> pt_index u = pt_index v"
  have d: "drop_bit 12 w = push_bit 10 (pd_index w) OR pt_index w" for w :: u32
  proof (rule bit_eqI)
    fix n assume "possible_bit TYPE(u32) n"
    have m: "(0x3ff :: u32) = mask 10" by (simp add: mask_eq_exp_minus_1)
    show "bit (drop_bit 12 w) n = bit (push_bit 10 (pd_index w) OR pt_index w) n"
      unfolding pd_index_def pt_index_def m by (auto simp: bit_simps dest: bit_imp_le_length)
  qed
  then show "page_of u = page_of v" using idx by (simp add: page_of_push_drop)
next
  assume "page_of u = page_of v"
  moreover have "drop_bit 12 (page_of w) = drop_bit 12 w" for w
    unfolding page_of_push_drop by (rule bit_eqI) (auto simp: bit_simps dest: bit_imp_le_length)
  ultimately have "drop_bit 12 u = drop_bit 12 v" by metis
  moreover have "drop_bit 22 w = drop_bit 10 (drop_bit 12 w)" for w :: u32 by simp
  ultimately show "pd_index u = pd_index v \<and> pt_index u = pt_index v" by (simp only: pd_index_def pt_index_def)
qed

lemma create_pte32_present [simp]: "entry_present (create_pte32 w su wt cd f)"
  by (simp add: entry_present_def create_pte32_def bit_simps)

lemma create_pde32_present [simp]: "entry_present (create_pde32 w su wt cd f)"
  by (simp add: entry_present_def create_pde32_def bit_simps)

lemma create_pte32_frame [simp]: "entry_frame (create_pte32 w su wt cd f) = page_of f"
proof (rule bit_eqI)
  fix n assume "possible_bit TYPE(u32) n"
  show "bit (entry_frame (create_pte32 w su wt cd f)) n = bit (page_of f) n"
    by (auto simp: entry_frame_def create_pte32_def page_of_push_drop bit_simps bit_1_iff)
qed

lemma create_pde32_frame [simp]: "entry_frame (create_pde32 w su wt cd f) = page_of f"
  using create_pte32_frame [of w su wt cd f] by (simp add: create_pde32_def create_pte32_def)

lemma clear_page_other: "page_aligned p \<Longrightarrow> page_of a \<noteq> p \<Longrightarrow> clear_page m p a = m a"
  by (simp add: clear_page_def in_page_iff)

lemma clear_page_in: "page_aligned p \<Longrightarrow> page_of a = p \<Longrightarrow> clear_page m p a = 0"
  by (simp add: clear_page_def in_page_iff)

lemma tables_okD:
  assumes "tables_ok tk m d I"
  shows "in_page_space d" "tk d" "page_aligned d" "\<And>i. i \<in> I \<Longrightarrow> i < 1024"
    "\<And>i. i \<in> pt_used m d I \<Longrightarrow> in_page_space (pt_frame m d i) \<and> tk (pt_frame m d i) \<and> pt_frame m d i \<noteq> d"
    "\<And>i. page_aligned (pt_frame m d i)"
proof -
  show "page_aligned (pt_frame m d i)" for i by (simp add: pt_frame_def entry_frame_page_of)
  show "in_page_space d" "tk d" and "page_aligned d"
    using assms by (auto simp: tables_ok_def pt_pages_def in_page_space_def)
  show "i < 1024" if "i \<in> I" for i using assms that by (auto simp: tables_ok_def)
  show "in_page_space (pt_frame m d i) \<and> tk (pt_frame m d i) \<and> pt_frame m d i \<noteq> d" if "i \<in> pt_used m d I" for i
    using assms that by (auto simp: tables_ok_def pt_pages_def image_iff)
qed

lemma pt_lookup_alt:
  "pt_lookup m d v =
     (if entry_present (m (d + 4 * pd_index v)) \<and> entry_present (m (pt_frame m d (pd_index v) + 4 * pt_index v))
      then Some (m (pt_frame m d (pd_index v) + 4 * pt_index v)) else None)"
  by (simp add: pt_lookup_def pt_frame_def Let_def)

lemma tables_ok_cong:
  assumes "\<And>i. i \<in> I \<Longrightarrow> m' (d + 4 * i) = m (d + 4 * i)"
  shows "tables_ok tk m' d I = tables_ok tk m d I" "pt_used m' d I = pt_used m d I"
    "pt_pages m' d I = pt_pages m d I"
proof -
  show used: "pt_used m' d I = pt_used m d I" using assms by (auto simp: pt_used_def)
  have fr: "pt_frame m' d i = pt_frame m d i" if "i \<in> pt_used m d I" for i
    using assms that by (simp add: pt_frame_def pt_used_def)
  show pages: "pt_pages m' d I = pt_pages m d I" using fr by (simp add: pt_pages_def used cong: image_cong)
  have "inj_on (pt_frame m' d) (pt_used m d I) = inj_on (pt_frame m d) (pt_used m d I)"
    by (rule inj_on_cong) (rule fr)
  moreover have "pt_frame m' d ` pt_used m d I = pt_frame m d ` pt_used m d I"
    using fr by (simp cong: image_cong)
  ultimately show "tables_ok tk m' d I = tables_ok tk m d I" by (simp add: tables_ok_def used pages)
qed

lemma tables_ok_agree:
  assumes "tables_ok tk m d I" "\<And>a. page_of a \<in> pt_pages m d I \<Longrightarrow> m' a = m a"
  shows "tables_ok tk m' d I" "pt_pages m' d I = pt_pages m d I"
    "\<And>u. pd_index u \<in> I \<Longrightarrow> pt_lookup m' d u = pt_lookup m d u"
proof -
  note ok = tables_okD [OF assms(1)]
  have dir: "m' (d + 4 * i) = m (d + 4 * i)" if "i \<in> I" for i
    using assms(2) page_of_slot [OF ok(3) ok(4) [OF that]] by (simp add: pt_pages_def)
  show "tables_ok tk m' d I" "pt_pages m' d I = pt_pages m d I"
    using tables_ok_cong [where m' = m' and m = m and d = d and I = I] dir assms(1) by blast+
  show "pt_lookup m' d u = pt_lookup m d u" if u: "pd_index u \<in> I" for u
  proof (cases "entry_present (m (d + 4 * pd_index u))")
    case True
    then have used: "pd_index u \<in> pt_used m d I" using u by (simp add: pt_used_def)
    then have "m' (pt_frame m d (pd_index u) + 4 * pt_index u) = m (pt_frame m d (pd_index u) + 4 * pt_index u)"
      using assms(2) page_of_slot [OF ok(6) pt_index_less] by (simp add: pt_pages_def)
    then show ?thesis using dir [OF u] by (simp add: pt_lookup_alt pt_frame_def)
  qed (use dir [OF u] in \<open>simp add: pt_lookup_alt\<close>)
qed

lemma pt_write:
  fixes e :: u32
  assumes ok: "tables_ok tk m d I" and v: "pd_index v \<in> pt_used m d I"
  defines "m' \<equiv> m(pt_frame m d (pd_index v) + 4 * pt_index v := e)"
  shows "tables_ok tk m' d I" "pt_pages m' d I = pt_pages m d I" "pt_used m' d I = pt_used m d I"
    "\<And>a. page_of a \<notin> pt_pages m d I \<Longrightarrow> m' a = m a"
    "\<And>u. pd_index u \<in> I \<Longrightarrow> pt_lookup m' d u =
       (if page_of u = page_of v then (if entry_present e then Some e else None) else pt_lookup m d u)"
proof -
  note okD = tables_okD [OF ok]
  let ?slot = "pt_frame m d (pd_index v) + 4 * pt_index v"
  have pg: "page_of ?slot = pt_frame m d (pd_index v)" by (rule page_of_slot [OF okD(6) pt_index_less])
  have dir: "m' (d + 4 * i) = m (d + 4 * i)" if "i < 1024" for i
  proof -
    have "d + 4 * i \<noteq> ?slot" using page_of_slot [OF okD(3) that] pg okD(5) [OF v] by metis
    then show ?thesis by (simp add: m'_def)
  qed
  then show "tables_ok tk m' d I" "pt_pages m' d I = pt_pages m d I" "pt_used m' d I = pt_used m d I"
    using tables_ok_cong [where m' = m' and m = m and d = d and I = I] dir okD(4) ok by blast+
  show "m' a = m a" if "page_of a \<notin> pt_pages m d I" for a
    using that pg v by (auto simp: m'_def pt_pages_def)
  fix u assume u: "pd_index u \<in> I"
  have fr: "pt_frame m' d (pd_index u) = pt_frame m d (pd_index u)"
    using dir [OF pd_index_less] by (simp add: pt_frame_def)
  have slot: "pt_frame m d (pd_index u) + 4 * pt_index u = ?slot \<longleftrightarrow>
      pt_frame m d (pd_index u) = pt_frame m d (pd_index v) \<and> pt_index u = pt_index v"
    by (rule slot_inject [OF okD(6) okD(6) pt_index_less pt_index_less])
  have same: "pt_frame m d (pd_index u) = pt_frame m d (pd_index v) \<longleftrightarrow> pd_index u = pd_index v"
    if "pd_index u \<in> pt_used m d I"
    using ok v that by (auto simp: tables_ok_def inj_on_def)
  show "pt_lookup m' d u =
       (if page_of u = page_of v then (if entry_present e then Some e else None) else pt_lookup m d u)"
  proof (cases "pd_index u \<in> pt_used m d I")
    case True
    then show ?thesis using slot same [OF True] index_page [of u v] dir [OF pd_index_less] fr
      by (auto simp: pt_lookup_alt pt_used_def m'_def)
  next
    case False
    then have "page_of u \<noteq> page_of v" using index_page [of u v] v by auto
    with False u show ?thesis using dir [OF pd_index_less] by (simp add: pt_lookup_alt pt_used_def)
  qed
qed

lemma pt_install:
  fixes su :: u32
  assumes ok: "tables_ok tk m d I" and v: "pd_index v \<in> I" "pd_index v \<notin> pt_used m d I"
    and p: "in_page_space p" "\<not> tk p" "tk' p" and tk: "\<And>q. in_page_space q \<Longrightarrow> tk q \<Longrightarrow> tk' q"
  defines "m' \<equiv> (clear_page m p)(d + 4 * pd_index v := create_pde32 1 su 0 0 p)"
  shows "tables_ok tk' m' d I" "pt_pages m' d I = insert p (pt_pages m d I)"
    "pt_used m' d I = insert (pd_index v) (pt_used m d I)"
    "\<And>a. page_of a \<notin> insert p (pt_pages m d I) \<Longrightarrow> m' a = m a"
    "\<And>u. pd_index u \<in> I \<Longrightarrow> pt_lookup m' d u = pt_lookup m d u"
proof -
  note okD = tables_okD [OF ok]
  have pal: "page_aligned p" and pd: "p \<noteq> d" using p okD by (auto simp: in_page_space_def)
  have vd: "page_of (d + 4 * i) = d" if "i < 1024" for i by (rule page_of_slot [OF okD(3) that])
  have dir: "m' (d + 4 * i) = (if i = pd_index v then create_pde32 1 su 0 0 p else m (d + 4 * i))" if "i < 1024" for i
    using clear_page_other [OF pal, of "d + 4 * i" m] vd [OF that] pd slot_inject [OF okD(3) okD(3) that pd_index_less [of v]]
    by (auto simp: m'_def)
  show used: "pt_used m' d I = insert (pd_index v) (pt_used m d I)"
    using dir okD(4) v(1) by (auto simp: pt_used_def)
  have fr_v: "pt_frame m' d (pd_index v) = p"
    using dir [OF pd_index_less] by (simp add: pt_frame_def page_of_id [OF pal])
  have fr: "pt_frame m' d i = pt_frame m d i" if "i < 1024" "i \<noteq> pd_index v" for i
    using dir [OF that(1)] that(2) by (simp add: pt_frame_def)
  have img: "pt_frame m' d ` pt_used m d I = pt_frame m d ` pt_used m d I"
    by (rule image_cong [OF refl], rule fr) (use okD(4) v(2) in \<open>auto simp: pt_used_def\<close>)
  show pages: "pt_pages m' d I = insert p (pt_pages m d I)"
    by (auto simp: pt_pages_def used img fr_v)
  have notin: "p \<notin> pt_pages m d I" using ok p by (auto simp: tables_ok_def)
  have "inj_on (pt_frame m' d) (pt_used m d I) = inj_on (pt_frame m d) (pt_used m d I)"
    by (rule inj_on_cong, rule fr) (use okD(4) v(2) in \<open>auto simp: pt_used_def\<close>)
  then show "tables_ok tk' m' d I"
    using ok notin p tk img fr_v v(2) unfolding tables_ok_def pages used by (auto simp: pt_pages_def)
  show "m' a = m a" if "page_of a \<notin> insert p (pt_pages m d I)" for a
    using that vd [OF pd_index_less] clear_page_other [OF pal] by (auto simp: m'_def pt_pages_def)
  fix u assume u: "pd_index u \<in> I"
  show "pt_lookup m' d u = pt_lookup m d u"
  proof (cases "pd_index u = pd_index v")
    case True
    have "p + 4 * pt_index u \<noteq> d + 4 * pd_index v"
      using slot_inject [OF pal okD(3) pt_index_less pd_index_less] pd by simp
    then have "m' (p + 4 * pt_index u) = 0"
      using page_of_slot [OF pal pt_index_less] clear_page_in [OF pal] by (simp add: m'_def)
    then show ?thesis using True v u fr_v by (simp add: pt_lookup_alt pt_used_def entry_present_def)
  next
    case False
    have "m' (pt_frame m d (pd_index u) + 4 * pt_index u) = m (pt_frame m d (pd_index u) + 4 * pt_index u)"
      if used: "pd_index u \<in> pt_used m d I"
    proof -
      let ?f = "pt_frame m d (pd_index u)"
      have "page_of (?f + 4 * pt_index u) = ?f" by (rule page_of_slot [OF okD(6) pt_index_less])
      moreover have "?f \<noteq> p" "?f \<noteq> d" using okD(5) [OF used] p by auto
      ultimately show ?thesis using clear_page_other [OF pal] vd [OF pd_index_less] by (auto simp: m'_def)
    qed
    then show ?thesis using False u dir [OF pd_index_less] fr [OF pd_index_less]
      by (auto simp: pt_lookup_alt pt_used_def)
  qed
qed

definition kernel_part :: "u32 set" where
  "kernel_part = {i. i < 256}"

definition user_part :: "u32 set" where
  "user_part = {i. 256 \<le> i \<and> i < 1024}"

lemma pd_index_kernel: "v < USERSPACE_BOTTOM \<longleftrightarrow> pd_index v \<in> kernel_part"
proof -
  have "pd_index v = drop_bit 22 v"
  proof (rule bit_eqI)
    fix n assume "possible_bit TYPE(u32) n"
    have m: "(0x3ff :: u32) = mask 10" by (simp add: mask_eq_exp_minus_1)
    show "bit (pd_index v) n = bit (drop_bit 22 v) n"
      unfolding pd_index_def m by (auto simp: bit_simps dest: bit_imp_le_length)
  qed
  then have "unat (pd_index v) = unat v div 2 ^ 22"
    by (simp add: drop_bit_eq_div unat_div)
  then show ?thesis by (auto simp: kernel_part_def word_less_nat_alt)
qed

definition kernel_tables_ok :: "paging \<Rightarrow> bool" where
  "kernel_tables_ok s \<longleftrightarrow> page_aligned (fast_base_page_addr s) \<and>
     tables_ok (base_page_taken s) (pmem s) (kernel_page_directory s) kernel_part"

lemma new_page_table_spec:
  assumes ok: "tables_ok (base_page_taken s) (pmem s) d I" and fast: "page_aligned (fast_base_page_addr s)"
    and v: "pd_index v \<in> I" "pd_index v \<notin> pt_used (pmem s) d I"
  obtains (found) p s' where "p \<noteq> 0" "new_page_table s (d + 4 * pd_index v) su = (p, s')"
      "tables_ok (base_page_taken s') (pmem s') d I" "page_aligned (fast_base_page_addr s')"
      "in_page_space p" "\<not> base_page_taken s p" "pt_pages (pmem s') d I = insert p (pt_pages (pmem s) d I)"
      "pt_used (pmem s') d I = insert (pd_index v) (pt_used (pmem s) d I)"
      "\<And>a. page_of a \<notin> insert p (pt_pages (pmem s) d I) \<Longrightarrow> pmem s' a = pmem s a"
      "\<And>u. pd_index u \<in> I \<Longrightarrow> pt_lookup (pmem s') d u = pt_lookup (pmem s) d u"
      "\<And>q. page_aligned q \<Longrightarrow> base_page_taken s' q = (base_page_taken s q \<or> q = p)"
      "kernel_page_directory s' = kernel_page_directory s" "free_page_bitmap s' = free_page_bitmap s"
      "fast_page_addr s' = fast_page_addr s" "physical_memory_length s' = physical_memory_length s"
    | (exhausted) a where "page_aligned a" "\<And>q. in_page_space q \<Longrightarrow> base_page_taken s q"
      "new_page_table s (d + 4 * pd_index v) su = (0, s\<lparr>fast_base_page_addr := a\<rparr>)"
proof (rule get_base_page_spec [OF fast])
  fix t a assume t: "page_aligned a" "in_page_space t" "\<not> base_page_taken s t"
    and get: "get_base_page s = (t, base_page_take (s\<lparr>fast_base_page_addr := a\<rparr>) t)"
  have t0: "t \<noteq> 0" "page_aligned t" using t(2) by (auto simp: in_page_space_def word_le_nat_alt)
  let ?m = "(clear_page (pmem s) t)(d + 4 * pd_index v := create_pde32 1 su 0 0 t)"
  let ?s = "(base_page_take (s\<lparr>fast_base_page_addr := a\<rparr>) t)\<lparr>pmem := ?m\<rparr>"
  have run: "new_page_table s (d + 4 * pd_index v) su = (t, ?s)" using t0 by (simp add: new_page_table_def get)
  have tk: "base_page_taken ?s q = (base_page_taken s q \<or> q = t)" if "page_aligned q" for q
    using base_taken_take [OF t0(2) that, of "s\<lparr>fast_base_page_addr := a\<rparr>"] by simp
  have tk': "base_page_taken ?s t" "\<And>q. in_page_space q \<Longrightarrow> base_page_taken s q \<Longrightarrow> base_page_taken ?s q"
    using tk t0(2) by (auto simp: in_page_space_def)
  note inst = pt_install [where tk' = "base_page_taken ?s" and su = su, OF ok v t(2,3) tk']
  show thesis
    by (rule found [OF t0(1) run]) (use inst t tk in \<open>simp_all del: insert_iff\<close>)
next
  fix a assume "page_aligned a" "\<And>q. in_page_space q \<Longrightarrow> base_page_taken s q"
    "get_base_page s = (0, s\<lparr>fast_base_page_addr := a\<rparr>)"
  then show thesis by (intro exhausted) (auto simp: new_page_table_def)
qed

lemma kernel_map_page_spec:
  assumes ok: "kernel_tables_ok s" and v: "v < USERSPACE_BOTTOM"
  defines "d \<equiv> kernel_page_directory s"
  shows "case kernel_map_page s v phy wp wt cd of
     None \<Rightarrow> \<not> entry_present (pmem s (d + 4 * pd_index v)) \<and> (\<forall>q. in_page_space q \<longrightarrow> base_page_taken s q)
   | Some s' \<Rightarrow> kernel_tables_ok s' \<and> kernel_page_directory s' = d \<and>
       (\<forall>u. u < USERSPACE_BOTTOM \<longrightarrow> pt_lookup (pmem s') d u =
          (if page_of u = page_of v then Some (create_pte32 wp 0 wt cd phy) else pt_lookup (pmem s) d u)) \<and>
       (\<forall>q. in_page_space q \<longrightarrow> base_page_taken s q \<longrightarrow> base_page_taken s' q) \<and>
       (\<forall>a. in_page_space (page_of a) \<longrightarrow> base_page_taken s (page_of a) \<longrightarrow>
          page_of a \<notin> pt_pages (pmem s) d kernel_part \<longrightarrow> pmem s' a = pmem s a) \<and>
       pt_pages (pmem s) d kernel_part \<subseteq> pt_pages (pmem s') d kernel_part \<and>
       (\<forall>q. in_page_space q \<longrightarrow> base_page_taken s' q \<longrightarrow>
          base_page_taken s q \<or> q \<in> pt_pages (pmem s') d kernel_part) \<and>
       free_page_bitmap s' = free_page_bitmap s \<and> fast_page_addr s' = fast_page_addr s \<and>
       physical_memory_length s' = physical_memory_length s"
proof -
  let ?i = "pd_index v" and ?I = kernel_part
  have vi: "?i \<in> ?I" using v by (simp add: pd_index_kernel)
  have tok: "tables_ok (base_page_taken s) (pmem s) d ?I" and fast: "page_aligned (fast_base_page_addr s)"
    using ok by (simp_all add: kernel_tables_ok_def d_def)
  have finish: "case Some (s1\<lparr>pmem := (pmem s1)(pt_frame (pmem s1) d ?i + 4 * pt_index v := create_pte32 wp 0 wt cd phy)\<rparr>) of
     None \<Rightarrow> False
   | Some s' \<Rightarrow> kernel_tables_ok s' \<and> kernel_page_directory s' = d \<and>
       (\<forall>u. u < USERSPACE_BOTTOM \<longrightarrow> pt_lookup (pmem s') d u =
          (if page_of u = page_of v then Some (create_pte32 wp 0 wt cd phy) else pt_lookup (pmem s1) d u)) \<and>
       base_page_taken s' = base_page_taken s1 \<and>
       (\<forall>a. page_of a \<notin> pt_pages (pmem s1) d ?I \<longrightarrow> pmem s' a = pmem s1 a) \<and>
       pt_pages (pmem s') d ?I = pt_pages (pmem s1) d ?I \<and>
       free_page_bitmap s' = free_page_bitmap s1 \<and> fast_page_addr s' = fast_page_addr s1 \<and>
       physical_memory_length s' = physical_memory_length s1"
    if ok1: "tables_ok (base_page_taken s1) (pmem s1) d ?I" and used: "?i \<in> pt_used (pmem s1) d ?I"
      and rest: "page_aligned (fast_base_page_addr s1)" "kernel_page_directory s1 = d" for s1
  proof -
    define m where "m = (pmem s1)(pt_frame (pmem s1) d ?i + 4 * pt_index v := create_pte32 wp 0 wt cd phy)"
    have "tables_ok (base_page_taken s1) m d ?I" unfolding m_def by (rule pt_write(1) [OF ok1 used])
    moreover have "pt_pages m d ?I = pt_pages (pmem s1) d ?I" unfolding m_def by (rule pt_write(2) [OF ok1 used])
    moreover have "m a = pmem s1 a" if "page_of a \<notin> pt_pages (pmem s1) d ?I" for a
      unfolding m_def by (rule pt_write(4) [OF ok1 used that])
    moreover have "pt_lookup m d u =
        (if page_of u = page_of v then Some (create_pte32 wp 0 wt cd phy) else pt_lookup (pmem s1) d u)"
      if "pd_index u \<in> ?I" for u
      using pt_write(5) [OF ok1 used that] by (simp add: m_def)
    ultimately show ?thesis using rest unfolding m_def [symmetric] by (simp add: kernel_tables_ok_def pd_index_kernel)
  qed
  show ?thesis
  proof (cases "entry_present (pmem s (d + 4 * ?i))")
    case True
    then have used: "?i \<in> pt_used (pmem s) d ?I" using vi by (simp add: pt_used_def)
    have run: "kernel_map_page s v phy wp wt cd =
        Some (s\<lparr>pmem := (pmem s)(pt_frame (pmem s) d ?i + 4 * pt_index v := create_pte32 wp 0 wt cd phy)\<rparr>)"
      using True by (simp add: kernel_map_page_def d_def pt_frame_def page_of_def)
    show ?thesis unfolding run using finish [OF tok used fast] by (auto simp: d_def)
  next
    case False
    then have unused: "?i \<notin> pt_used (pmem s) d ?I" by (simp add: pt_used_def)
    show ?thesis
    proof (rule new_page_table_spec [OF tok fast vi unused, where su = 0], goal_cases)
      case found: (1 p s1)
      have used: "?i \<in> pt_used (pmem s1) d ?I" using found(8) by simp
      have dir: "kernel_page_directory s1 = d" using found(12) by (simp add: d_def)
      have run: "kernel_map_page s v phy wp wt cd =
          Some (s1\<lparr>pmem := (pmem s1)(pt_frame (pmem s1) d ?i + 4 * pt_index v := create_pte32 wp 0 wt cd phy)\<rparr>)"
        using False found(1,2) used by (simp add: kernel_map_page_def d_def pt_frame_def page_of_def pt_used_def)
      have keep: "pmem s1 a = pmem s a" "page_of a \<notin> pt_pages (pmem s1) d ?I"
        if "base_page_taken s (page_of a)" "page_of a \<notin> pt_pages (pmem s) d ?I" for a
        using found(6,7) found(9) [of a] that by auto
      have taken: "base_page_taken s1 q" if "in_page_space q" "base_page_taken s q" for q
        using found(11) that by (simp add: in_page_space_def)
      have conv: "base_page_taken s q \<or> q \<in> pt_pages (pmem s1) d ?I" if "in_page_space q" "base_page_taken s1 q" for q
        using found(7,11) that by (auto simp: in_page_space_def)
      show ?thesis unfolding run using finish [OF found(3) used found(4) dir] keep taken conv found(7,10,13-15)
        by (auto simp: pd_index_kernel)
    next
      case (2 a)
      with False show ?thesis by (simp add: kernel_map_page_def d_def)
    qed
  qed
qed

lemma virt2phy_lookup:
  "virt2phy m d v = (case pt_lookup m d v of None \<Rightarrow> 0 | Some e \<Rightarrow> entry_frame e OR (v AND PAGE_MASK))"
  by (simp add: virt2phy_def pt_lookup_def Let_def)

lemma page_present_lookup: "page_present m d v = (if pt_lookup m d v = None then of_int (- ERR_NOT_PRESENT) else of_int OK)"
  by (simp add: page_present_def pt_lookup_def Let_def)

text \<open>C7. Mapping a kernel page. With a well-formed kernel page directory, kernel_map_page for a
  kernel address either returns, or hangs in its assertion because no page table exists and the
  page inventory is exhausted. When it returns, the directory is still well formed, every address
  of the page translates to the given frame with the same offset, every other kernel address is
  translated (or is not present) as before, no taken page of the inventory is released, and no
  taken page of the inventory outside this directory changes its content.\<close>

theorem kernel_map_page_correct:
  assumes "kernel_tables_ok s" "v < USERSPACE_BOTTOM"
  defines "d \<equiv> kernel_page_directory s"
  shows "case kernel_map_page s v phy wp wt cd of
     None \<Rightarrow> \<not> entry_present (pmem s (d + 4 * pd_index v)) \<and> (\<forall>q. in_page_space q \<longrightarrow> base_page_taken s q)
   | Some s' \<Rightarrow> kernel_tables_ok s' \<and> kernel_page_directory s' = d \<and>
       (\<forall>u. u < USERSPACE_BOTTOM \<longrightarrow>
          (if page_of u = page_of v
           then page_present (pmem s') d u = of_int OK \<and> virt2phy (pmem s') d u = page_of phy OR (u AND PAGE_MASK)
           else page_present (pmem s') d u = page_present (pmem s) d u \<and>
             virt2phy (pmem s') d u = virt2phy (pmem s) d u)) \<and>
       (\<forall>q. in_page_space q \<longrightarrow> base_page_taken s q \<longrightarrow> base_page_taken s' q) \<and>
       (\<forall>a. in_page_space (page_of a) \<longrightarrow> base_page_taken s (page_of a) \<longrightarrow>
          page_of a \<notin> pt_pages (pmem s) d kernel_part \<longrightarrow> pmem s' a = pmem s a)"
proof (cases "kernel_map_page s v phy wp wt cd")
  case None
  show ?thesis using kernel_map_page_spec [OF assms(1,2), where phy = phy and wp = wp and wt = wt and cd = cd] unfolding None d_def by simp
next
  case (Some s')
  note spec = kernel_map_page_spec [OF assms(1,2), where phy = phy and wp = wp and wt = wt and cd = cd, unfolded Some option.case]
  have lk: "pt_lookup (pmem s') d u =
      (if page_of u = page_of v then Some (create_pte32 wp 0 wt cd phy) else pt_lookup (pmem s) d u)"
    if "u < USERSPACE_BOTTOM" for u using spec that by (simp add: d_def)
  have "if page_of u = page_of v
        then page_present (pmem s') d u = of_int OK \<and> virt2phy (pmem s') d u = page_of phy OR (u AND PAGE_MASK)
        else page_present (pmem s') d u = page_present (pmem s) d u \<and>
          virt2phy (pmem s') d u = virt2phy (pmem s) d u" if "u < USERSPACE_BOTTOM" for u
    using lk [OF that] by (simp add: virt2phy_lookup page_present_lookup)
  with spec show ?thesis unfolding Some d_def by simp
qed

theorem kernel_map_page_correct_witness:
  defines "s \<equiv> \<lparr>free_page_bitmap = (\<lambda>_. 0), free_base_page_bitmap = (\<lambda>_. 1), kernel_page_directory = 0x4000000,
      fast_base_page_addr = 0, fast_page_addr = 0, physical_memory_length = 0, cr3 = 0, pmem = (\<lambda>_. 0)\<rparr>"
  shows "case kernel_map_page s 0x100000 0x5123 1 0 0 of
     None \<Rightarrow> \<not> entry_present (pmem s (kernel_page_directory s + 4 * pd_index 0x100000)) \<and>
       (\<forall>q. in_page_space q \<longrightarrow> base_page_taken s q)
   | Some s' \<Rightarrow> kernel_tables_ok s' \<and> kernel_page_directory s' = kernel_page_directory s \<and>
       (\<forall>u. u < USERSPACE_BOTTOM \<longrightarrow>
          (if page_of u = page_of 0x100000
           then page_present (pmem s') (kernel_page_directory s) u = of_int OK \<and>
             virt2phy (pmem s') (kernel_page_directory s) u = page_of 0x5123 OR (u AND PAGE_MASK)
           else page_present (pmem s') (kernel_page_directory s) u = page_present (pmem s) (kernel_page_directory s) u \<and>
             virt2phy (pmem s') (kernel_page_directory s) u = virt2phy (pmem s) (kernel_page_directory s) u)) \<and>
       (\<forall>q. in_page_space q \<longrightarrow> base_page_taken s q \<longrightarrow> base_page_taken s' q) \<and>
       (\<forall>a. in_page_space (page_of a) \<longrightarrow> base_page_taken s (page_of a) \<longrightarrow>
          page_of a \<notin> pt_pages (pmem s) (kernel_page_directory s) kernel_part \<longrightarrow> pmem s' a = pmem s a)"
proof (rule kernel_map_page_correct)
  show "kernel_tables_ok s"
    by (auto simp: s_def kernel_tables_ok_def tables_ok_def kernel_part_def pt_pages_def pt_used_def entry_present_def
        in_page_space_def page_aligned_def base_taken_bit word_less_nat_alt)
qed simp

subsection \<open>General pages\<close>

partial_function (option) get_page_fast_loop :: "u32 \<Rightarrow> paging \<Rightarrow> (u32 \<times> paging) option" where
  "get_page_fast_loop boundary s =
     (if fast_page_addr s < boundary then
        (if IS_PAGE_FREE s (fast_page_addr s) then
           (let target_page = fast_page_addr s; s = MARK_PAGE_AS_OCCUPIED s target_page
            in if \<not> IS_PAGE_FREE s target_page
               then Some (target_page, s\<lparr>fast_page_addr := target_page + PAGE_SIZE\<rparr>) else None)
         else get_page_fast_loop boundary (s\<lparr>fast_page_addr := fast_page_addr s + PAGE_SIZE\<rparr>))
      else Some (0, s))"

definition get_page_fast :: "layout \<Rightarrow> paging \<Rightarrow> (u32 \<times> paging) option" where
  "get_page_fast l s =
     (let addr = get_system_memory_start l; boundary = get_system_memory_boundary s;
          s = (if fast_page_addr s < addr \<or> fast_page_addr s \<ge> boundary then s\<lparr>fast_page_addr := addr\<rparr> else s)
      in get_page_fast_loop boundary s)"

function count_free_pages :: "paging \<Rightarrow> u32 \<Rightarrow> int \<Rightarrow> int \<Rightarrow> int" where
  "count_free_pages s addr nr_pages idx =
     (if idx < nr_pages \<and> IS_PAGE_FREE s (addr + of_int idx * PAGE_SIZE)
      then count_free_pages s addr nr_pages (idx + 1) else idx)"
  by pat_completeness auto
termination by (relation "measure (\<lambda>(s, addr, nr_pages, idx). nat (nr_pages - idx))") auto

partial_function (option) get_pages_scan :: "paging \<Rightarrow> u32 \<Rightarrow> int \<Rightarrow> u32 \<Rightarrow> u32 option option" where
  "get_pages_scan s boundary nr_pages addr =
     (if addr < boundary then
        (if addr + PAGE_SIZE * of_int nr_pages \<ge> boundary then Some None
         else let idx = count_free_pages s addr nr_pages 0
           in if idx = nr_pages then Some (Some addr)
              else get_pages_scan s boundary nr_pages (addr + PAGE_SIZE * of_int (idx + 1)))
      else Some None)"

function occupy_pages :: "paging \<Rightarrow> u32 \<Rightarrow> int \<Rightarrow> int \<Rightarrow> paging option" where
  "occupy_pages s addr nr_pages idx =
     (if idx < nr_pages then
        (let pg = addr + of_int idx * PAGE_SIZE
         in if IS_PAGE_FREE s pg then
              (let s = MARK_PAGE_AS_OCCUPIED s pg
               in if \<not> IS_PAGE_FREE s pg then occupy_pages s addr nr_pages (idx + 1) else None)
            else None)
      else Some s)"
  by pat_completeness auto
termination by (relation "measure (\<lambda>(s, addr, nr_pages, idx). nat (nr_pages - idx))") auto

definition get_pages :: "layout \<Rightarrow> paging \<Rightarrow> int \<Rightarrow> (u32 \<times> paging) option" where
  "get_pages l s nr_pages = do {
     let addr = get_system_memory_start l;
     let boundary = get_system_memory_boundary s;
     kassert (addr AND PAGE_MASK = 0);
     match \<leftarrow> get_pages_scan s boundary nr_pages addr;
     case match of
       None \<Rightarrow> Some (0, s)
     | Some addr \<Rightarrow> do { s \<leftarrow> occupy_pages s addr nr_pages 0; Some (addr, s) } }"

definition get_page :: "layout \<Rightarrow> paging \<Rightarrow> (u32 \<times> paging) option" where
  "get_page l s = do {
     (pg, s) \<leftarrow> get_page_fast l s;
     if pg = 0 then get_pages l s 1 else Some (pg, s) }"

function free_pages :: "paging \<Rightarrow> u32 \<Rightarrow> int \<Rightarrow> int \<Rightarrow> paging" where
  "free_pages s pg_addr nr_pages idx =
     (if idx < nr_pages
      then free_pages (MAKR_PAGE_AS_FREE s (pg_addr + PAGE_SIZE * of_int idx)) pg_addr nr_pages (idx + 1)
      else s)"
  by pat_completeness auto
termination by (relation "measure (\<lambda>(s, pg_addr, nr_pages, idx). nat (nr_pages - idx))") auto

definition free_page :: "paging \<Rightarrow> u32 \<Rightarrow> paging" where
  "free_page s pg_addr = free_pages s pg_addr 1 0"

declare count_free_pages.simps [simp del] occupy_pages.simps [simp del] free_pages.simps [simp del]

lemma mark_fast_commute [simp]:
  "MARK_PAGE_AS_OCCUPIED (s\<lparr>fast_page_addr := a\<rparr>) p = (MARK_PAGE_AS_OCCUPIED s p)\<lparr>fast_page_addr := a\<rparr>"
  by (simp add: MARK_PAGE_AS_OCCUPIED_def Let_def)

lemma is_free_fast [simp]: "IS_PAGE_FREE (s\<lparr>fast_page_addr := a\<rparr>) = IS_PAGE_FREE s"
  by (simp add: fun_eq_iff IS_PAGE_FREE_def)

lemma mark_fields [simp]:
  "fast_base_page_addr (MARK_PAGE_AS_OCCUPIED s p) = fast_base_page_addr s"
  "free_base_page_bitmap (MARK_PAGE_AS_OCCUPIED s p) = free_base_page_bitmap s"
  "kernel_page_directory (MARK_PAGE_AS_OCCUPIED s p) = kernel_page_directory s"
  "fast_page_addr (MARK_PAGE_AS_OCCUPIED s p) = fast_page_addr s"
  "physical_memory_length (MARK_PAGE_AS_OCCUPIED s p) = physical_memory_length s"
  "pmem (MARK_PAGE_AS_OCCUPIED s p) = pmem s" "cr3 (MARK_PAGE_AS_OCCUPIED s p) = cr3 s"
  by (simp_all add: MARK_PAGE_AS_OCCUPIED_def Let_def)

lemma freed_fields [simp]:
  "fast_base_page_addr (MAKR_PAGE_AS_FREE s p) = fast_base_page_addr s"
  "free_base_page_bitmap (MAKR_PAGE_AS_FREE s p) = free_base_page_bitmap s"
  "kernel_page_directory (MAKR_PAGE_AS_FREE s p) = kernel_page_directory s"
  "fast_page_addr (MAKR_PAGE_AS_FREE s p) = fast_page_addr s"
  "physical_memory_length (MAKR_PAGE_AS_FREE s p) = physical_memory_length s"
  "pmem (MAKR_PAGE_AS_FREE s p) = pmem s" "cr3 (MAKR_PAGE_AS_FREE s p) = cr3 s"
  by (simp_all add: MAKR_PAGE_AS_FREE_def Let_def)

lemma get_page_fast_loop_spec:
  assumes b: "b \<le> 0xFFFFF000" and al: "page_aligned (fast_page_addr s)"
  shows "\<exists>t a. page_aligned a \<and>
    (page_aligned t \<and> fast_page_addr s \<le> t \<and> t < b \<and> IS_PAGE_FREE s t \<and>
       get_page_fast_loop b s = Some (t, (MARK_PAGE_AS_OCCUPIED s t)\<lparr>fast_page_addr := a\<rparr>) \<or>
     get_page_fast_loop b s = Some (0, s\<lparr>fast_page_addr := a\<rparr>) \<and>
       (\<forall>q. page_aligned q \<longrightarrow> fast_page_addr s \<le> q \<longrightarrow> q < b \<longrightarrow> \<not> IS_PAGE_FREE s q))"
  using al
proof (induction "unat b - unat (fast_page_addr s)" arbitrary: s rule: less_induct)
  case less
  let ?f = "fast_page_addr s"
  show ?case
  proof (cases "?f < b \<and> \<not> IS_PAGE_FREE s ?f")
    case False
    have al: "page_aligned ?f" "page_aligned (?f + PAGE_SIZE)" using less(2) by (auto simp: page_aligned_add)
    show ?thesis
    proof (cases "?f < b")
      case True
      with False al show ?thesis
        by - (rule exI [of _ ?f], rule exI [of _ "?f + PAGE_SIZE"],
          simp add: get_page_fast_loop.simps [of b s] is_free_occupied Let_def)
    next
      case gt: False
      then have "get_page_fast_loop b s = Some (0, s\<lparr>fast_page_addr := ?f\<rparr>)"
        by (simp add: get_page_fast_loop.simps [of b s])
      moreover have "\<not> q < b" if "?f \<le> q" for q using gt that by auto
      ultimately show ?thesis using al by blast
    qed
  next
    case True
    let ?s = "s\<lparr>fast_page_addr := ?f + PAGE_SIZE\<rparr>"
    have step: "get_page_fast_loop b s = get_page_fast_loop b ?s" using True by (simp add: get_page_fast_loop.simps [of b s])
    have lt: "unat ?f < unat b" "unat b \<le> 0xFFFFF000" using True b by (simp_all add: word_less_nat_alt word_le_nat_alt)
    then have n: "unat (?f + PAGE_SIZE) = unat ?f + 4096" using unat_plus_page [of ?f] by simp
    have le: "?f \<le> q" if "?f + PAGE_SIZE \<le> q" for q using that n by (simp add: word_le_nat_alt)
    have "\<not> IS_PAGE_FREE s q" if "page_aligned q" "?f \<le> q" "q < b"
      "\<forall>q. page_aligned q \<longrightarrow> ?f + PAGE_SIZE \<le> q \<longrightarrow> q < b \<longrightarrow> \<not> IS_PAGE_FREE s q" for q
      using page_next(2) [OF less(2), of q] that True by (cases "?f = q") auto
    moreover have "\<exists>t a. page_aligned a \<and>
      (page_aligned t \<and> ?f + PAGE_SIZE \<le> t \<and> t < b \<and> IS_PAGE_FREE s t \<and>
         get_page_fast_loop b ?s = Some (t, (MARK_PAGE_AS_OCCUPIED s t)\<lparr>fast_page_addr := a\<rparr>) \<or>
       get_page_fast_loop b ?s = Some (0, s\<lparr>fast_page_addr := a\<rparr>) \<and>
         (\<forall>q. page_aligned q \<longrightarrow> ?f + PAGE_SIZE \<le> q \<longrightarrow> q < b \<longrightarrow> \<not> IS_PAGE_FREE s q))"
      using less(1) [of ?s] less(2) n lt by (simp add: page_aligned_add)
    ultimately show ?thesis unfolding step using le by blast
  qed
qed

lemma run_addr:
  assumes "0 \<le> i" "unat a + 4096 * nat i < 2 ^ 32"
  shows "unat (a + of_int i * PAGE_SIZE) = unat a + 4096 * nat i"
    "page_aligned a \<Longrightarrow> page_aligned (a + of_int i * PAGE_SIZE)"
proof -
  have "of_int i * PAGE_SIZE = (of_nat (4096 * nat i) :: u32)" using assms(1) by (simp add: mult.commute)
  moreover have "unat (of_nat (4096 * nat i) :: u32) = 4096 * nat i"
    by (rule unat_of_nat_id) (use assms(2) in simp)
  ultimately have "unat (of_int i * PAGE_SIZE) = 4096 * nat i" by (simp only:)
  then show u: "unat (a + of_int i * PAGE_SIZE) = unat a + 4096 * nat i"
    using assms(2) by (simp add: unat_word_ariths)
  show "page_aligned a \<Longrightarrow> page_aligned (a + of_int i * PAGE_SIZE)" by (simp add: page_aligned_dvd u)
qed

lemma count_free_pages_spec:
  assumes "idx \<le> nr"
  shows "idx \<le> count_free_pages s a nr idx \<and> count_free_pages s a nr idx \<le> nr \<and>
    (\<forall>i. idx \<le> i \<longrightarrow> i < count_free_pages s a nr idx \<longrightarrow> IS_PAGE_FREE s (a + of_int i * PAGE_SIZE)) \<and>
    (count_free_pages s a nr idx < nr \<longrightarrow>
       \<not> IS_PAGE_FREE s (a + of_int (count_free_pages s a nr idx) * PAGE_SIZE))"
  using assms
proof (induction s a nr idx rule: count_free_pages.induct)
  case (1 s a nr idx)
  show ?case
  proof (cases "idx < nr \<and> IS_PAGE_FREE s (a + of_int idx * PAGE_SIZE)")
    case False
    then have "count_free_pages s a nr idx = idx" by (subst count_free_pages.simps) (simp only: if_False)
    with False 1(2) show ?thesis by auto
  next
    case True
    then have step: "count_free_pages s a nr idx = count_free_pages s a nr (idx + 1)"
      by (subst count_free_pages.simps) simp
    have split: "idx \<le> i \<longleftrightarrow> i = idx \<or> idx + 1 \<le> i" for i by auto
    from 1(1) [OF True] True show ?thesis unfolding step split by auto
  qed
qed

lemma get_pages_scan_spec:
  assumes nr: "0 < nr" and b: "unat b + 4096 * nat nr < 2 ^ 32" and al: "page_aligned a"
  shows "(\<exists>t. get_pages_scan s b nr a = Some (Some t) \<and> page_aligned t \<and> a \<le> t \<and> unat t + 4096 * nat nr < unat b \<and>
       (\<forall>i. 0 \<le> i \<longrightarrow> i < nr \<longrightarrow> IS_PAGE_FREE s (t + of_int i * PAGE_SIZE))) \<or>
    get_pages_scan s b nr a = Some None \<and>
       (\<forall>t. page_aligned t \<longrightarrow> a \<le> t \<longrightarrow> unat t + 4096 * nat nr < unat b \<longrightarrow>
          (\<exists>i. 0 \<le> i \<and> i < nr \<and> \<not> IS_PAGE_FREE s (t + of_int i * PAGE_SIZE)))"
  using al
proof (induction "unat b - unat a" arbitrary: a rule: less_induct)
  case less
  define n where "n = count_free_pages s a nr 0"
  have n: "0 \<le> n" "n \<le> nr" "\<And>i. 0 \<le> i \<Longrightarrow> i < n \<Longrightarrow> IS_PAGE_FREE s (a + of_int i * PAGE_SIZE)"
    "n < nr \<Longrightarrow> \<not> IS_PAGE_FREE s (a + of_int n * PAGE_SIZE)"
    using count_free_pages_spec [of 0 nr s a] nr by (auto simp: n_def)
  have top: "unat (a + PAGE_SIZE * of_int nr) = unat a + 4096 * nat nr" if "unat a \<le> unat b"
    using run_addr(1) [of nr a] that nr b by (simp add: mult.commute)
  consider "\<not> a < b \<or> a < b \<and> a + PAGE_SIZE * of_int nr \<ge> b" | "a < b" "\<not> a + PAGE_SIZE * of_int nr \<ge> b" "n = nr"
    | "a < b" "\<not> a + PAGE_SIZE * of_int nr \<ge> b" "n < nr" using n(2) by linarith
  then show ?case
  proof cases
    case 1
    then have "get_pages_scan s b nr a = Some None" by (auto simp: get_pages_scan.simps [of s b nr a])
    moreover have "\<not> unat t + 4096 * nat nr < unat b" if "a \<le> t" for t
      using 1 that top by (auto simp: word_less_nat_alt word_le_nat_alt)
    ultimately show ?thesis by blast
  next
    case 2
    then have "get_pages_scan s b nr a = Some (Some a)" by (simp add: get_pages_scan.simps [of s b nr a] n_def [symmetric])
    with 2 n(3) top less(2) show ?thesis by (auto simp: word_less_nat_alt word_le_nat_alt)
  next
    case 3
    let ?a = "a + PAGE_SIZE * of_int (n + 1)"
    have lt: "unat a + 4096 * nat nr < unat b" using 3 top by (simp add: word_less_nat_alt word_le_nat_alt)
    have nn: "nat (n + 1) \<le> nat nr" "4096 * nat (n + 1) = 4096 * nat n + 4096" using 3(3) n(1) by auto
    have ua: "unat ?a = unat a + 4096 * nat (n + 1)" and aa: "page_aligned ?a"
      using run_addr [of "n + 1" a] n(1) nn lt b less(2) by (simp_all add: mult.commute)
    have step: "get_pages_scan s b nr a = get_pages_scan s b nr ?a"
      using 3 by (simp add: get_pages_scan.simps [of s b nr a] n_def [symmetric])
    have skip: "\<exists>i. 0 \<le> i \<and> i < nr \<and> \<not> IS_PAGE_FREE s (t + of_int i * PAGE_SIZE)"
      if t: "page_aligned t" "a \<le> t" "\<not> ?a \<le> t" for t
    proof -
      obtain i j where ij: "unat a = 4096 * i" "unat t = 4096 * j"
        using less(2) t(1) by (auto simp: page_aligned_dvd elim!: dvdE)
      have "i \<le> j" "j < i + nat (n + 1)"
        using t(2,3) ij ua by (simp_all add: word_le_nat_alt)
      then have k: "0 \<le> n - int (j - i)" "n - int (j - i) < nr" "nat (n - int (j - i)) + j = i + nat n"
        using 3(3) n(1) by auto
      have "unat (t + of_int (n - int (j - i)) * PAGE_SIZE) = unat (a + of_int n * PAGE_SIZE)"
        using run_addr(1) [of "n - int (j - i)" t] run_addr(1) [of n a] k ij n(1) lt b nn by simp
      then have "t + of_int (n - int (j - i)) * PAGE_SIZE = a + of_int n * PAGE_SIZE" by (simp only: word_unat_eq_iff)
      with n(4) 3(3) k show ?thesis by metis
    qed
    have ge: "a \<le> t" if "?a \<le> t" for t using that ua by (simp add: word_le_nat_alt)
    have "unat b - unat ?a < unat b - unat a" using ua lt nn by simp
    from less(1) [OF this aa] show ?thesis unfolding step using skip ge by blast
  qed
qed

lemma run_distinct:
  assumes "0 \<le> i" "0 \<le> j" "i < nr" "j < nr" "unat a + 4096 * nat nr < 2 ^ 32"
  shows "a + of_int i * PAGE_SIZE = a + of_int j * PAGE_SIZE \<longleftrightarrow> i = j"
proof -
  have ui: "unat (a + of_int i * PAGE_SIZE) = unat a + 4096 * nat i"
    by (rule run_addr(1)) (use assms in auto)
  have uj: "unat (a + of_int j * PAGE_SIZE) = unat a + 4096 * nat j"
    by (rule run_addr(1)) (use assms in auto)
  have "a + of_int i * PAGE_SIZE = a + of_int j * PAGE_SIZE \<longleftrightarrow>
      unat (a + of_int i * PAGE_SIZE) = unat (a + of_int j * PAGE_SIZE)"
    by (simp only: word_unat_eq_iff)
  also have "\<dots> \<longleftrightarrow> i = j" unfolding ui uj using assms by auto
  finally show ?thesis .
qed

lemma occupy_pages_spec:
  assumes "0 \<le> idx" "idx \<le> nr" "unat a + 4096 * nat nr < 2 ^ 32" "page_aligned a"
    and "\<And>i. idx \<le> i \<Longrightarrow> i < nr \<Longrightarrow> IS_PAGE_FREE s (a + of_int i * PAGE_SIZE)"
  shows "\<exists>s'. occupy_pages s a nr idx = Some s' \<and> s' = s\<lparr>free_page_bitmap := free_page_bitmap s'\<rparr> \<and>
    (\<forall>q. page_aligned q \<longrightarrow> IS_PAGE_FREE s' q =
       (IS_PAGE_FREE s q \<and> \<not> (\<exists>i. idx \<le> i \<and> i < nr \<and> q = a + of_int i * PAGE_SIZE)))"
  using assms
proof (induction s a nr idx rule: occupy_pages.induct)
  case (1 s a nr idx)
  show ?case
  proof (cases "idx < nr")
    case False
    then have "occupy_pages s a nr idx = Some s" by (simp add: occupy_pages.simps [of s a nr idx])
    with False show ?thesis by auto
  next
    case True
    let ?p = "a + of_int idx * PAGE_SIZE"
    let ?s = "MARK_PAGE_AS_OCCUPIED s ?p"
    have free: "IS_PAGE_FREE s ?p" using 1(6) True by simp
    have step: "occupy_pages s a nr idx = occupy_pages ?s a nr (idx + 1)"
      using True free by (simp add: occupy_pages.simps [of s a nr idx] Let_def is_free_occupied)
    have al: "page_aligned (a + of_int i * PAGE_SIZE)" if "0 \<le> i" "i < nr" for i
      by (rule run_addr(2)) (use that 1(4,5) in auto)
    have pal: "page_aligned ?p" by (rule al [OF 1(2) True])
    have mark: "IS_PAGE_FREE ?s q = (IS_PAGE_FREE s q \<and> q \<noteq> ?p)" if "page_aligned q" for q
      using frame_of_aligned [OF that pal] by (simp add: is_free_occupied)
    have rest: "IS_PAGE_FREE ?s (a + of_int i * PAGE_SIZE)" if "idx + 1 \<le> i" "i < nr" for i
      using mark [OF al] run_distinct [of i idx nr a] 1(2,4,6) that True by auto
    have occ: "\<not> IS_PAGE_FREE ?s ?p" by (simp add: is_free_occupied)
    have "\<exists>s'. occupy_pages ?s a nr (idx + 1) = Some s' \<and> s' = ?s\<lparr>free_page_bitmap := free_page_bitmap s'\<rparr> \<and>
        (\<forall>q. page_aligned q \<longrightarrow> IS_PAGE_FREE s' q =
           (IS_PAGE_FREE ?s q \<and> \<not> (\<exists>i. idx + 1 \<le> i \<and> i < nr \<and> q = a + of_int i * PAGE_SIZE)))"
      by (rule 1(1) [OF True refl free refl occ _ _ 1(4,5) rest]) (use 1(2) True in auto)
    then obtain s' where s': "occupy_pages ?s a nr (idx + 1) = Some s'" "s' = ?s\<lparr>free_page_bitmap := free_page_bitmap s'\<rparr>"
        "\<forall>q. page_aligned q \<longrightarrow> IS_PAGE_FREE s' q =
           (IS_PAGE_FREE ?s q \<and> \<not> (\<exists>i. idx + 1 \<le> i \<and> i < nr \<and> q = a + of_int i * PAGE_SIZE))" by blast
    have "s' = s\<lparr>free_page_bitmap := free_page_bitmap s'\<rparr>"
      by (rule trans [OF s'(2)]) (simp add: MARK_PAGE_AS_OCCUPIED_def Let_def)
    moreover have "(\<exists>i. idx \<le> i \<and> i < nr \<and> q = a + of_int i * PAGE_SIZE) \<longleftrightarrow>
        q = ?p \<or> (\<exists>i. idx + 1 \<le> i \<and> i < nr \<and> q = a + of_int i * PAGE_SIZE)" for q
      using True by (metis add1_zle_eq order_le_less)
    ultimately show ?thesis unfolding step using s'(1,3) mark by auto
  qed
qed

definition pages_inv :: "layout \<Rightarrow> paging \<Rightarrow> bool" where
  "pages_inv l s \<longleftrightarrow> page_aligned (fast_page_addr s) \<and> 0 < kernel_bss_end l \<and> kernel_bss_end l \<le> PAGE_SPACE_BOTTOM \<and>
     physical_memory_length s \<le> 0xFFFFE000"

lemma system_memory_start:
  assumes "0 < kernel_bss_end l" "kernel_bss_end l \<le> PAGE_SPACE_BOTTOM"
  shows "page_aligned (get_system_memory_start l)" "0 < get_system_memory_start l"
proof -
  have "unat (kernel_bss_end l) \<le> 0x4000000" "0 < unat (kernel_bss_end l)"
    using assms by (simp_all add: word_le_nat_alt word_less_nat_alt)
  with page_round_ge [of "kernel_bss_end l"] show "0 < get_system_memory_start l"
    by (simp add: get_system_memory_start_def word_le_nat_alt word_less_nat_alt)
qed (simp add: get_system_memory_start_def page_round_aligned)

lemma get_pages_spec:
  assumes inv: "pages_inv l s" and nr: "0 < nr" "unat (physical_memory_length s) + 4096 * nat nr < 2 ^ 32"
  obtains (found) t s' where "get_pages l s nr = Some (t, s')" "t \<noteq> 0" "page_aligned t" "get_system_memory_start l \<le> t"
      "unat t + 4096 * nat nr < unat (physical_memory_length s)" "s' = s\<lparr>free_page_bitmap := free_page_bitmap s'\<rparr>"
      "\<And>i. 0 \<le> i \<Longrightarrow> i < nr \<Longrightarrow> IS_PAGE_FREE s (t + of_int i * PAGE_SIZE)"
      "\<And>q. page_aligned q \<Longrightarrow> IS_PAGE_FREE s' q =
         (IS_PAGE_FREE s q \<and> \<not> (\<exists>i. 0 \<le> i \<and> i < nr \<and> q = t + of_int i * PAGE_SIZE))"
    | (none) "get_pages l s nr = Some (0, s)"
      "\<And>t. page_aligned t \<Longrightarrow> get_system_memory_start l \<le> t \<Longrightarrow> unat t + 4096 * nat nr < unat (physical_memory_length s) \<Longrightarrow>
         \<exists>i. 0 \<le> i \<and> i < nr \<and> \<not> IS_PAGE_FREE s (t + of_int i * PAGE_SIZE)"
proof -
  let ?a = "get_system_memory_start l" and ?b = "physical_memory_length s"
  have start: "page_aligned ?a" "0 < ?a" using inv system_memory_start by (auto simp: pages_inv_def)
  have run: "get_pages l s nr = do { match \<leftarrow> get_pages_scan s ?b nr ?a;
      case match of None \<Rightarrow> Some (0, s) | Some addr \<Rightarrow> do { s \<leftarrow> occupy_pages s addr nr 0; Some (addr, s) } }"
    using start by (simp add: get_pages_def page_aligned_def get_system_memory_boundary_def)
  from get_pages_scan_spec [OF nr start(1)] consider
      t where "get_pages_scan s ?b nr ?a = Some (Some t)" "page_aligned t" "?a \<le> t" "unat t + 4096 * nat nr < unat ?b"
        "\<And>i. 0 \<le> i \<Longrightarrow> i < nr \<Longrightarrow> IS_PAGE_FREE s (t + of_int i * PAGE_SIZE)"
    | "get_pages_scan s ?b nr ?a = Some None"
        "\<And>t. page_aligned t \<Longrightarrow> ?a \<le> t \<Longrightarrow> unat t + 4096 * nat nr < unat ?b \<Longrightarrow>
           \<exists>i. 0 \<le> i \<and> i < nr \<and> \<not> IS_PAGE_FREE s (t + of_int i * PAGE_SIZE)" by blast
  then show thesis
  proof cases
    case (1 t)
    have "unat t + 4096 * nat nr < 2 ^ 32" using 1(4) unat_u32_less [of ?b] by simp
    then obtain s' where s': "occupy_pages s t nr 0 = Some s'" "s' = s\<lparr>free_page_bitmap := free_page_bitmap s'\<rparr>"
        "\<forall>q. page_aligned q \<longrightarrow> IS_PAGE_FREE s' q =
           (IS_PAGE_FREE s q \<and> \<not> (\<exists>i. 0 \<le> i \<and> i < nr \<and> q = t + of_int i * PAGE_SIZE))"
      using occupy_pages_spec [of 0 nr t s] 1(2,5) nr(1) by auto
    have "t \<noteq> 0" using start(2) 1(3) by auto
    with 1 s' show thesis by (intro found [of t s']) (simp_all add: run)
  next
    case 2
    then show thesis by (intro none) (simp_all add: run)
  qed
qed

lemma get_page_spec:
  assumes inv: "pages_inv l s"
  obtains (found) t s' where "get_page l s = Some (t, s')" "t \<noteq> 0" "page_aligned t" "get_system_memory_start l \<le> t"
      "t < physical_memory_length s" "IS_PAGE_FREE s t" "pages_inv l s'"
      "s' = s\<lparr>free_page_bitmap := free_page_bitmap s', fast_page_addr := fast_page_addr s'\<rparr>"
      "\<And>q. page_aligned q \<Longrightarrow> IS_PAGE_FREE s' q = (IS_PAGE_FREE s q \<and> q \<noteq> t)"
    | (none) a where "get_page l s = Some (0, s\<lparr>fast_page_addr := a\<rparr>)" "page_aligned a"
      "\<And>q. page_aligned q \<Longrightarrow> get_system_memory_start l \<le> q \<Longrightarrow> unat q + 4096 < unat (physical_memory_length s) \<Longrightarrow>
         \<not> IS_PAGE_FREE s q"
proof -
  let ?a = "get_system_memory_start l" and ?b = "physical_memory_length s"
  have start: "page_aligned ?a" "0 < ?a" using inv system_memory_start by (auto simp: pages_inv_def)
  have b: "?b \<le> 0xFFFFF000" "unat ?b + 4096 < 2 ^ 32"
    using inv by (simp_all add: pages_inv_def word_le_nat_alt)
  define s0 where "s0 = (if fast_page_addr s < ?a \<or> fast_page_addr s \<ge> ?b then s\<lparr>fast_page_addr := ?a\<rparr> else s)"
  have s0: "page_aligned (fast_page_addr s0)" "?a \<le> fast_page_addr s0" "IS_PAGE_FREE s0 = IS_PAGE_FREE s"
      "\<And>a. s0\<lparr>fast_page_addr := a\<rparr> = s\<lparr>fast_page_addr := a\<rparr>"
    using inv start(1) by (auto simp: s0_def pages_inv_def)
  have mark0: "(MARK_PAGE_AS_OCCUPIED s0 t)\<lparr>fast_page_addr := a\<rparr> = (MARK_PAGE_AS_OCCUPIED s t)\<lparr>fast_page_addr := a\<rparr>" for t a
    by (simp add: s0_def)
  have fast: "get_page_fast l s = get_page_fast_loop ?b s0"
    by (simp add: get_page_fast_def get_system_memory_boundary_def s0_def Let_def)
  from get_page_fast_loop_spec [OF b(1) s0(1)] consider
      t a where "page_aligned a" "page_aligned t" "fast_page_addr s0 \<le> t" "t < ?b" "IS_PAGE_FREE s t"
        "get_page_fast l s = Some (t, (MARK_PAGE_AS_OCCUPIED s t)\<lparr>fast_page_addr := a\<rparr>)"
    | a where "page_aligned a" "get_page_fast l s = Some (0, s\<lparr>fast_page_addr := a\<rparr>)"
    unfolding fast s0 mark0 by blast
  then show thesis
  proof cases
    case (1 t a)
    let ?s = "(MARK_PAGE_AS_OCCUPIED s t)\<lparr>fast_page_addr := a\<rparr>"
    have ge: "?a \<le> t" using 1(3) s0(2) by simp
    then have t0: "t \<noteq> 0" using start(2) by auto
    have run: "get_page l s = Some (t, ?s)" using 1(6) t0 by (simp add: get_page_def)
    have free: "IS_PAGE_FREE ?s q = (IS_PAGE_FREE s q \<and> q \<noteq> t)" if "page_aligned q" for q
      using frame_of_aligned [OF that 1(2)] by (simp add: is_free_occupied)
    have "?s = s\<lparr>free_page_bitmap := free_page_bitmap ?s, fast_page_addr := fast_page_addr ?s\<rparr>"
      by (simp add: MARK_PAGE_AS_OCCUPIED_def Let_def)
    with run t0 1 ge free inv show thesis by (intro found [of t ?s]) (simp_all add: pages_inv_def)
  next
    case (2 a)
    let ?s = "s\<lparr>fast_page_addr := a\<rparr>"
    have inv': "pages_inv l ?s" using inv 2(1) by (simp add: pages_inv_def)
    have run: "get_page l s = get_pages l ?s 1" using 2(2) by (simp add: get_page_def)
    have nr: "unat (physical_memory_length ?s) + 4096 * nat 1 < 2 ^ 32" using b(2) by simp
    have one: "(\<exists>i. 0 \<le> i \<and> i < 1 \<and> P i) \<longleftrightarrow> P 0" for P :: "int \<Rightarrow> bool"
      by (metis int_one_le_iff_zero_less not_le order_le_less order_refl zero_less_one)
    show thesis
    proof (rule get_pages_spec [OF inv' zero_less_one nr], goal_cases)
      case (1 t s')
      have f: "fast_page_addr s' = a" "physical_memory_length s' = ?b"
        using arg_cong [OF 1(6), of fast_page_addr] arg_cong [OF 1(6), of physical_memory_length] by simp_all
      have eq: "s' = s\<lparr>free_page_bitmap := free_page_bitmap s', fast_page_addr := fast_page_addr s'\<rparr>"
        by (rule trans [OF 1(6)]) (simp add: f)
      have "pages_inv l s'" using inv' f by (simp add: pages_inv_def)
      moreover have "IS_PAGE_FREE s t" using 1(7) [of 0] by simp
      moreover have "IS_PAGE_FREE s' q = (IS_PAGE_FREE s q \<and> q \<noteq> t)" if "page_aligned q" for q
        using 1(8) [OF that] one [of "\<lambda>i. q = t + of_int i * PAGE_SIZE"] by simp
      ultimately show thesis
        by (intro found [OF _ 1(2,3,4) _ _ _ eq]) (use 1(1,5) run in \<open>simp_all add: word_less_nat_alt\<close>)
    next
      case 2
      with \<open>page_aligned a\<close> show thesis by (intro none [of a]) (simp_all add: run one)
    qed
  qed
qed

subsection \<open>The interface of a source of pages\<close>

text \<open>Both allocators promise the same: a page that is handed out was not in use, and is the
  only page whose state changes.\<close>

primrec take_pages :: "('s \<Rightarrow> (u32 \<times> 's) option) \<Rightarrow> nat \<Rightarrow> 's \<Rightarrow> (u32 list \<times> 's) option" where
  "take_pages get 0 s = Some ([], s)"
| "take_pages get (Suc n) s = do {
     (p, s) \<leftarrow> get s;
     (ps, s) \<leftarrow> take_pages get n s;
     Some (p # ps, s) }"

locale page_source =
  fixes inv :: "'s \<Rightarrow> bool" and used :: "'s \<Rightarrow> u32 \<Rightarrow> bool" and get :: "'s \<Rightarrow> (u32 \<times> 's) option"
    and put :: "'s \<Rightarrow> u32 \<Rightarrow> 's" and valid :: "u32 \<Rightarrow> bool"
  assumes get_law: "inv s \<Longrightarrow> \<exists>p s'. get s = Some (p, s') \<and> inv s' \<and>
      (p = 0 \<and> (\<forall>q. page_aligned q \<longrightarrow> used s' q = used s q) \<or>
       p \<noteq> 0 \<and> valid p \<and> page_aligned p \<and> \<not> used s p \<and> (\<forall>q. page_aligned q \<longrightarrow> used s' q = (used s q \<or> q = p)))"
    and put_law: "inv s \<Longrightarrow> valid p \<Longrightarrow> page_aligned p \<Longrightarrow>
      inv (put s p) \<and> (\<forall>q. page_aligned q \<longrightarrow> used (put s p) q = (used s q \<and> q \<noteq> p))"
begin

lemma take_pages_distinct:
  assumes "inv s"
  shows "\<exists>ps s'. take_pages get n s = Some (ps, s') \<and> length ps = n \<and> inv s' \<and>
     (\<forall>p\<in>set ps. p \<noteq> 0 \<longrightarrow> valid p \<and> page_aligned p \<and> \<not> used s p) \<and>
     distinct (filter (\<lambda>p. p \<noteq> 0) ps) \<and>
     (\<forall>q. page_aligned q \<longrightarrow> used s' q = (used s q \<or> q \<noteq> 0 \<and> q \<in> set ps))"
  using assms
proof (induction n arbitrary: s)
  case (Suc n)
  obtain p s1 where p: "get s = Some (p, s1)" "inv s1"
      "p = 0 \<and> (\<forall>q. page_aligned q \<longrightarrow> used s1 q = used s q) \<or>
       p \<noteq> 0 \<and> valid p \<and> page_aligned p \<and> \<not> used s p \<and> (\<forall>q. page_aligned q \<longrightarrow> used s1 q = (used s q \<or> q = p))"
    using get_law [OF Suc.prems] by blast
  obtain ps s' where ps: "take_pages get n s1 = Some (ps, s')" "length ps = n" "inv s'"
      "\<forall>p\<in>set ps. p \<noteq> 0 \<longrightarrow> valid p \<and> page_aligned p \<and> \<not> used s1 p" "distinct (filter (\<lambda>p. p \<noteq> 0) ps)"
      "\<forall>q. page_aligned q \<longrightarrow> used s' q = (used s1 q \<or> q \<noteq> 0 \<and> q \<in> set ps)"
    using Suc.IH [OF p(2)] by blast
  from p(3) show ?case
  proof
    assume "p = 0 \<and> (\<forall>q. page_aligned q \<longrightarrow> used s1 q = used s q)"
    with p(1) ps show ?thesis by auto
  next
    assume *: "p \<noteq> 0 \<and> valid p \<and> page_aligned p \<and> \<not> used s p \<and> (\<forall>q. page_aligned q \<longrightarrow> used s1 q = (used s q \<or> q = p))"
    with ps(4) have "p \<notin> set ps" by blast
    with * p(1) ps show ?thesis by auto
  qed
qed simp

lemma put_get_reuse:
  assumes "inv s" "valid p" "page_aligned p"
  shows "inv (put s p)" "\<not> used (put s p) p"
  using put_law [OF assms] assms(3) by auto

end

interpretation base_pages: page_source "\<lambda>s. page_aligned (fast_base_page_addr s)" base_page_taken
  "\<lambda>s. Some (get_base_page s)" free_base_page in_page_space
proof
  show "\<exists>p s'. Some (get_base_page s) = Some (p, s') \<and> page_aligned (fast_base_page_addr s') \<and>
      (p = 0 \<and> (\<forall>q. page_aligned q \<longrightarrow> base_page_taken s' q = base_page_taken s q) \<or>
       p \<noteq> 0 \<and> in_page_space p \<and> page_aligned p \<and> \<not> base_page_taken s p \<and>
         (\<forall>q. page_aligned q \<longrightarrow> base_page_taken s' q = (base_page_taken s q \<or> q = p)))"
    if "page_aligned (fast_base_page_addr s)" for s
  proof (rule get_base_page_spec [OF that])
    fix t a assume t: "page_aligned a" "in_page_space t" "\<not> base_page_taken s t"
      "get_base_page s = (t, base_page_take (s\<lparr>fast_base_page_addr := a\<rparr>) t)"
    then have "t \<noteq> 0" "page_aligned t" by (auto simp: in_page_space_def word_le_nat_alt)
    with t show ?thesis by (simp add: base_taken_take)
  qed simp
  show "page_aligned (fast_base_page_addr (free_base_page s p)) \<and>
      (\<forall>q. page_aligned q \<longrightarrow> base_page_taken (free_base_page s p) q = (base_page_taken s q \<and> q \<noteq> p))"
    if "page_aligned (fast_base_page_addr s)" "in_page_space p" for s p
    using that base_taken_free [OF that(2)] by (simp add: free_base_page_def Let_def)
qed

lemma free_page_eq: "free_page s p = MAKR_PAGE_AS_FREE s p"
  by (simp add: free_page_def free_pages.simps [of s p 1 0] free_pages.simps [of _ p 1 1])

interpretation general_pages: page_source "pages_inv l" "\<lambda>s p. \<not> IS_PAGE_FREE s p" "get_page l" free_page "\<lambda>p. True"
  for l
proof
  show "\<exists>p s'. get_page l s = Some (p, s') \<and> pages_inv l s' \<and>
      (p = 0 \<and> (\<forall>q. page_aligned q \<longrightarrow> (\<not> IS_PAGE_FREE s' q) = (\<not> IS_PAGE_FREE s q)) \<or>
       p \<noteq> 0 \<and> True \<and> page_aligned p \<and> \<not> \<not> IS_PAGE_FREE s p \<and>
         (\<forall>q. page_aligned q \<longrightarrow> (\<not> IS_PAGE_FREE s' q) = (\<not> IS_PAGE_FREE s q \<or> q = p)))"
    if "pages_inv l s" for s
  proof (rule get_page_spec [OF that], goal_cases)
    case (1 t s')
    then show ?case by auto
  next
    case (2 a)
    with that show ?case by (simp add: pages_inv_def)
  qed
  show "pages_inv l (free_page s p) \<and>
      (\<forall>q. page_aligned q \<longrightarrow> (\<not> IS_PAGE_FREE (free_page s p) q) = (\<not> IS_PAGE_FREE s q \<and> q \<noteq> p))"
    if "pages_inv l s" "page_aligned p" for s p
    using that frame_of_aligned [OF _ that(2)]
    by (auto simp: free_page_eq is_free_freed pages_inv_def)
qed

text \<open>C8. Physical pages are never handed out twice. Starting from any state in which the boundary
  of the memory is sane, every call of get_page returns, and any number of successive calls
  yields pages that are pairwise distinct, were free at the start, and are now occupied; a
  result of zero hands out nothing.\<close>

theorem get_page_sequence_distinct:
  assumes "pages_inv l s"
  shows "\<exists>ps s'. take_pages (get_page l) n s = Some (ps, s') \<and> length ps = n \<and>
     (\<forall>p\<in>set ps. p \<noteq> 0 \<longrightarrow> page_aligned p \<and> IS_PAGE_FREE s p \<and> \<not> IS_PAGE_FREE s' p) \<and>
     distinct (filter (\<lambda>p. p \<noteq> 0) ps) \<and>
     (\<forall>q. page_aligned q \<longrightarrow> q \<noteq> 0 \<longrightarrow> q \<notin> set ps \<longrightarrow> IS_PAGE_FREE s' q = IS_PAGE_FREE s q)"
  using general_pages.take_pages_distinct [OF assms, of n] by auto

theorem get_page_sequence_distinct_witness:
  defines "l \<equiv> \<lparr>kernel_text_start = 0x100000, kernel_text_end = 0x1ff010, kernel_data_start = 0x200000, kernel_data_end = 0x280010,
      kernel_bss_start = 0x281000, kernel_bss_end = 0x300123\<rparr>"
    and "s \<equiv> \<lparr>free_page_bitmap = (\<lambda>_. 0), free_base_page_bitmap = (\<lambda>_. 1), kernel_page_directory = 0x4000000,
      fast_base_page_addr = 0, fast_page_addr = 0, physical_memory_length = 0x20000000, cr3 = 0, pmem = (\<lambda>_. 0)\<rparr>"
  shows "\<exists>ps s'. take_pages (get_page l) 3 s = Some (ps, s') \<and> length ps = 3 \<and>
     (\<forall>p\<in>set ps. p \<noteq> 0 \<longrightarrow> page_aligned p \<and> IS_PAGE_FREE s p \<and> \<not> IS_PAGE_FREE s' p) \<and>
     distinct (filter (\<lambda>p. p \<noteq> 0) ps) \<and>
     (\<forall>q. page_aligned q \<longrightarrow> q \<noteq> 0 \<longrightarrow> q \<notin> set ps \<longrightarrow> IS_PAGE_FREE s' q = IS_PAGE_FREE s q)"
  by (rule get_page_sequence_distinct) (simp add: l_def s_def pages_inv_def)

text \<open>C9. get_pages(n) for a positive n returns zero only when there is no run of n free pages that
  ends below the boundary of the memory, and then changes nothing. Otherwise it returns the
  first page of such a run, all of whose pages were free, and occupies exactly these pages. The
  comparison is strict: a run that ends exactly at the boundary, the first address behind the
  memory, is not found.\<close>

theorem get_pages_correct:
  assumes "pages_inv l s" "0 < nr" "unat (physical_memory_length s) + 4096 * nat nr < 2 ^ 32"
  shows "case get_pages l s nr of None \<Rightarrow> False
    | Some (t, s') \<Rightarrow>
       if t = 0 then s' = s \<and>
         (\<forall>t. page_aligned t \<longrightarrow> get_system_memory_start l \<le> t \<longrightarrow> unat t + 4096 * nat nr < unat (physical_memory_length s) \<longrightarrow>
           (\<exists>i. 0 \<le> i \<and> i < nr \<and> \<not> IS_PAGE_FREE s (t + of_int i * PAGE_SIZE)))
       else page_aligned t \<and> get_system_memory_start l \<le> t \<and> unat t + 4096 * nat nr < unat (physical_memory_length s) \<and>
         (\<forall>i. 0 \<le> i \<longrightarrow> i < nr \<longrightarrow> IS_PAGE_FREE s (t + of_int i * PAGE_SIZE)) \<and>
         (\<forall>q. page_aligned q \<longrightarrow> IS_PAGE_FREE s' q =
            (IS_PAGE_FREE s q \<and> \<not> (\<exists>i. 0 \<le> i \<and> i < nr \<and> q = t + of_int i * PAGE_SIZE)))"
proof (rule get_pages_spec [OF assms], goal_cases)
  case (1 t s')
  then show ?case by simp
next
  case 2
  then show ?case by simp
qed

theorem get_pages_correct_witness:
  defines "l \<equiv> \<lparr>kernel_text_start = 0x100000, kernel_text_end = 0x1ff010, kernel_data_start = 0x200000, kernel_data_end = 0x280010,
      kernel_bss_start = 0x281000, kernel_bss_end = 0x300123\<rparr>"
    and "s \<equiv> \<lparr>free_page_bitmap = (\<lambda>_. 0), free_base_page_bitmap = (\<lambda>_. 1), kernel_page_directory = 0x4000000,
      fast_base_page_addr = 0, fast_page_addr = 0, physical_memory_length = 0x20000000, cr3 = 0, pmem = (\<lambda>_. 0)\<rparr>"
  shows "case get_pages l s 4 of None \<Rightarrow> False
    | Some (t, s') \<Rightarrow>
       if t = 0 then s' = s \<and>
         (\<forall>t. page_aligned t \<longrightarrow> get_system_memory_start l \<le> t \<longrightarrow> unat t + 4096 * nat 4 < unat (physical_memory_length s) \<longrightarrow>
           (\<exists>i. 0 \<le> i \<and> i < 4 \<and> \<not> IS_PAGE_FREE s (t + of_int i * PAGE_SIZE)))
       else page_aligned t \<and> get_system_memory_start l \<le> t \<and> unat t + 4096 * nat 4 < unat (physical_memory_length s) \<and>
         (\<forall>i. 0 \<le> i \<longrightarrow> i < 4 \<longrightarrow> IS_PAGE_FREE s (t + of_int i * PAGE_SIZE)) \<and>
         (\<forall>q. page_aligned q \<longrightarrow> IS_PAGE_FREE s' q =
            (IS_PAGE_FREE s q \<and> \<not> (\<exists>i. 0 \<le> i \<and> i < 4 \<and> q = t + of_int i * PAGE_SIZE)))"
  by (rule get_pages_correct) (simp_all add: l_def s_def pages_inv_def)

end
