(* ===== verification/Paging_Init.thy ===== *)
theory Paging_Init
  imports Paging
begin

section \<open>Setting up paging (\<^verbatim>\<open>paging_init\<close>)\<close>

text \<open>
  The boot code of \<^verbatim>\<open>memory/paging.c\<close>: it reserves the pages of the kernel image and of
  the page inventory, builds the kernel page directory and maps both areas one to one. The
  loops run over addresses; they are shown to end for the memory layouts the kernel accepts.
\<close>

partial_function (option) mark_pages :: "u32 \<Rightarrow> paging \<Rightarrow> u32 \<Rightarrow> paging option" where
  "mark_pages bound s frame_addr =
     (if frame_addr < bound then
        (let s = MARK_PAGE_AS_OCCUPIED s frame_addr
         in if \<not> IS_PAGE_FREE s frame_addr then mark_pages bound s (frame_addr + PAGE_SIZE) else None)
      else Some s)"

partial_function (option) map_pages :: "u32 \<Rightarrow> (u32 \<Rightarrow> u32) \<Rightarrow> u32 \<Rightarrow> paging \<Rightarrow> paging option" where
  "map_pages bound permission addr s =
     (if addr < bound then
        (case kernel_map_page s addr addr (permission addr) PAGE_WRITEBACK PAGE_CACHE_ENABLED of
           None \<Rightarrow> None
         | Some s \<Rightarrow> map_pages bound permission (addr + PAGE_SIZE) s)
      else Some s)"

definition paging_init :: "layout \<Rightarrow> paging \<Rightarrow> paging option" where
  "paging_init l s = do {
     let sys_mem_start = get_system_memory_start l;
     let sys_mem_boundary = get_system_memory_boundary s;
     let s = s\<lparr>free_page_bitmap := (\<lambda>_. 0), free_base_page_bitmap := (\<lambda>_. 0)\<rparr>;
     let s = s\<lparr>free_page_bitmap := (\<lambda>idx.
           if drop_bit 3 (drop_bit 12 sys_mem_boundary) \<le> idx \<and> idx < FREE_PAGE_BITMAP_SIZE then 0xff
           else free_page_bitmap s idx)\<rparr>;
     s \<leftarrow> mark_pages (kernel_bss_end l) s 0;
     let (directory, s) = get_base_page s;
     let s = s\<lparr>kernel_page_directory := directory\<rparr>;
     let s = s\<lparr>pmem := clear_page (pmem s) directory\<rparr>;
     s \<leftarrow> mark_pages PAGE_SPACE_TOP s PAGE_SPACE_BOTTOM;
     s \<leftarrow> map_pages PAGE_SPACE_TOP (\<lambda>_. PAGE_PERMISSION_READ_WRITE) PAGE_SPACE_BOTTOM s;
     s \<leftarrow> map_pages sys_mem_start
           (\<lambda>phy_addr. if kernel_text_start l \<le> phy_addr \<and> phy_addr < kernel_data_start l
                       then PAGE_PERMISSION_READ_ONLY else PAGE_PERMISSION_READ_WRITE) 0 s;
     Some (s\<lparr>cr3 := kernel_page_directory s\<rparr>)
   }"

subsection \<open>The loops\<close>

lemma mark_pages_spec:
  assumes bound: "bound \<le> 0xFFFFF000" and al: "page_aligned a"
  shows "\<exists>s'. mark_pages bound s a = Some s' \<and> s' = s\<lparr>free_page_bitmap := free_page_bitmap s'\<rparr> \<and>
    (\<forall>q. page_aligned q \<longrightarrow> IS_PAGE_FREE s' q = (IS_PAGE_FREE s q \<and> \<not> (a \<le> q \<and> q < bound)))"
  using al
proof (induction "unat bound - unat a" arbitrary: a s rule: less_induct)
  case less
  show ?case
  proof (cases "a < bound")
    case False
    then have "\<not> (a \<le> q \<and> q < bound)" for q by auto
    then show ?thesis using False by (intro exI [of _ s]) (simp add: mark_pages.simps [of bound s a])
  next
    case True
    let ?s = "MARK_PAGE_AS_OCCUPIED s a"
    have lt: "unat a < unat bound" "unat bound \<le> 0xFFFFF000" using True bound by (simp_all add: word_less_nat_alt word_le_nat_alt)
    then have n: "unat (a + PAGE_SIZE) = unat a + 4096" using unat_plus_page [of a] by simp
    have step: "mark_pages bound s a = mark_pages bound ?s (a + PAGE_SIZE)"
      using True by (simp add: mark_pages.simps [of bound s a] Let_def is_free_occupied)
    obtain s' where s': "mark_pages bound ?s (a + PAGE_SIZE) = Some s'" "s' = ?s\<lparr>free_page_bitmap := free_page_bitmap s'\<rparr>"
        "\<forall>q. page_aligned q \<longrightarrow> IS_PAGE_FREE s' q = (IS_PAGE_FREE ?s q \<and> \<not> (a + PAGE_SIZE \<le> q \<and> q < bound))"
      using less(1) [of "a + PAGE_SIZE" ?s] lt n less(2) page_aligned_add by fastforce
    have "s' = s\<lparr>free_page_bitmap := free_page_bitmap s'\<rparr>"
      by (rule trans [OF s'(2)]) (simp add: MARK_PAGE_AS_OCCUPIED_def Let_def)
    moreover have "IS_PAGE_FREE s' q = (IS_PAGE_FREE s q \<and> \<not> (a \<le> q \<and> q < bound))" if q: "page_aligned q" for q
    proof -
      have "a \<le> q \<longleftrightarrow> q = a \<or> a + PAGE_SIZE \<le> q"
        using page_next(2) [OF less(2) q] n by (auto simp: word_le_nat_alt)
      moreover have "IS_PAGE_FREE ?s q = (IS_PAGE_FREE s q \<and> q \<noteq> a)"
        using frame_of_aligned [OF q less(2)] by (simp add: is_free_occupied)
      ultimately show ?thesis using s'(3) q True by auto
    qed
    ultimately show ?thesis unfolding step using s'(1) by blast
  qed
qed

text \<open>The directory owns every taken page of the inventory, so that at most 257 of its 16384
  pages are taken and a page table can always be allocated.\<close>

definition tables_own_inventory :: "paging \<Rightarrow> bool" where
  "tables_own_inventory s \<longleftrightarrow>
     (\<forall>q. in_page_space q \<longrightarrow> base_page_taken s q \<longrightarrow> q \<in> pt_pages (pmem s) (kernel_page_directory s) kernel_part)"

lemma kernel_part_card: "finite kernel_part" "card kernel_part \<le> 256"
proof -
  have "kernel_part \<subseteq> of_nat ` {..<256}"
  proof
    fix i assume "i \<in> kernel_part"
    then have "unat i < 256" by (simp add: kernel_part_def word_less_nat_alt)
    then show "i \<in> of_nat ` {..<256}" by (intro image_eqI [of _ _ "unat i"]) auto
  qed
  moreover have "finite (of_nat ` {..<256} :: u32 set)" "card (of_nat ` {..<256} :: u32 set) \<le> 256"
    using card_image_le [of "{..<256::nat}" "of_nat :: nat \<Rightarrow> u32"] by auto
  ultimately show "finite kernel_part" "card kernel_part \<le> 256"
    by (auto intro: finite_subset order.trans [OF card_mono])
qed

lemma pt_pages_card: "finite (pt_pages m d kernel_part)" "card (pt_pages m d kernel_part) \<le> 257"
proof -
  have sub: "pt_used m d kernel_part \<subseteq> kernel_part" by (auto simp: pt_used_def)
  then have fin: "finite (pt_used m d kernel_part)" using kernel_part_card(1) finite_subset by blast
  then show "finite (pt_pages m d kernel_part)" by (simp add: pt_pages_def)
  have "card (pt_used m d kernel_part) \<le> 256"
    using card_mono [OF kernel_part_card(1) sub] kernel_part_card(2) by simp
  then have "card (pt_frame m d ` pt_used m d kernel_part) \<le> 256"
    using card_image_le [OF fin, of "pt_frame m d"] by simp
  then show "card (pt_pages m d kernel_part) \<le> 257"
    unfolding pt_pages_def using card_insert_le_m1 [of 257] by (simp add: card_insert_if fin)
qed

lemma inventory_card: "\<exists>Q. finite Q \<and> card Q = 300 \<and> (\<forall>q\<in>Q. in_page_space q)"
proof (intro exI conjI)
  let ?f = "\<lambda>i. PAGE_SPACE_BOTTOM + of_int (int i) * PAGE_SIZE"
  have u: "unat (?f i) = 0x4000000 + 4096 * i" "page_aligned (?f i)" if "i < 300" for i
    using run_addr [of "int i" PAGE_SPACE_BOTTOM] that by (simp_all add: page_aligned_def)
  have "inj_on ?f {..<300}"
  proof (rule inj_onI)
    fix i j assume "i \<in> {..<300}" "j \<in> {..<300}" "?f i = ?f j"
    then show "i = j" using u(1) [of i] u(1) [of j] by simp
  qed
  then show "card (?f ` {..<300}) = 300" by (simp only: card_image card_lessThan)
  show "\<forall>q\<in>?f ` {..<300}. in_page_space q"
    using u by (auto simp: in_page_space_def word_le_nat_alt word_less_nat_alt)
qed simp

lemma own_not_exhausted:
  assumes "tables_own_inventory s" shows "\<exists>q. in_page_space q \<and> \<not> base_page_taken s q"
proof (rule ccontr)
  assume "\<not> ?thesis"
  then have all: "q \<in> pt_pages (pmem s) (kernel_page_directory s) kernel_part" if "in_page_space q" for q
    using assms that by (auto simp: tables_own_inventory_def)
  obtain Q where Q: "finite Q" "card Q = 300" "\<forall>q\<in>Q. in_page_space q" using inventory_card by blast
  then have "card Q \<le> card (pt_pages (pmem s) (kernel_page_directory s) kernel_part)"
    using all by (intro card_mono pt_pages_card(1)) auto
  with Q(2) pt_pages_card(2) [of "pmem s" "kernel_page_directory s"] show False by simp
qed

lemma map_pages_spec:
  assumes bound: "bound \<le> USERSPACE_BOTTOM" and "page_aligned a" "kernel_tables_ok s" "tables_own_inventory s"
  shows "\<exists>s'. map_pages bound perm a s = Some s' \<and> kernel_tables_ok s' \<and> tables_own_inventory s' \<and>
    kernel_page_directory s' = kernel_page_directory s \<and> free_page_bitmap s' = free_page_bitmap s \<and>
    fast_page_addr s' = fast_page_addr s \<and> physical_memory_length s' = physical_memory_length s \<and>
    (\<forall>u. u < USERSPACE_BOTTOM \<longrightarrow> pt_lookup (pmem s') (kernel_page_directory s) u =
       (if a \<le> page_of u \<and> page_of u < bound then Some (create_pte32 (perm (page_of u)) 0 0 0 (page_of u))
        else pt_lookup (pmem s) (kernel_page_directory s) u))"
  using assms(2-4)
proof (induction "unat bound - unat a" arbitrary: a s rule: less_induct)
  case less
  let ?d = "kernel_page_directory s"
  show ?case
  proof (cases "a < bound")
    case False
    then have "\<not> (a \<le> q \<and> q < bound)" for q by auto
    then show ?thesis using False less(3,4) by (intro exI [of _ s]) (auto simp: map_pages.simps [of bound perm a s])
  next
    case True
    have ab: "a < USERSPACE_BOTTOM" using True bound by auto
    note spec = kernel_map_page_spec [OF less(3) ab, where phy = a and wp = "perm a" and wt = 0 and cd = 0]
    obtain s1 where s1: "kernel_map_page s a a (perm a) 0 0 = Some s1"
      using spec own_not_exhausted [OF less(4)] by (cases "kernel_map_page s a a (perm a) 0 0") auto
    note spec1 = spec [unfolded s1 option.case]
    have dir: "kernel_page_directory s1 = ?d" using spec1 by simp
    have own: "tables_own_inventory s1"
      unfolding tables_own_inventory_def dir
    proof (intro allI impI)
      fix q assume q: "in_page_space q" "base_page_taken s1 q"
      then have "base_page_taken s q \<or> q \<in> pt_pages (pmem s1) ?d kernel_part" using spec1 by blast
      moreover have "q \<in> pt_pages (pmem s) ?d kernel_part" if "base_page_taken s q"
        using less(4) q(1) that by (simp add: tables_own_inventory_def)
      ultimately show "q \<in> pt_pages (pmem s1) ?d kernel_part" using spec1 by blast
    qed
    have lt: "unat a < unat bound" "unat bound \<le> 0x40000000" using True bound by (simp_all add: word_less_nat_alt word_le_nat_alt)
    then have n: "unat (a + PAGE_SIZE) = unat a + 4096" using unat_plus_page [of a] by simp
    have step: "map_pages bound perm a s = map_pages bound perm (a + PAGE_SIZE) s1"
      using True s1 by (simp add: map_pages.simps [of bound perm a s])
    have "unat bound - unat (a + PAGE_SIZE) < unat bound - unat a" using lt n by simp
    from less(1) [OF this page_aligned_add [OF less(2) page_aligned_PAGE_SIZE] _ own] spec1
    obtain s' where s': "map_pages bound perm (a + PAGE_SIZE) s1 = Some s'" "kernel_tables_ok s'" "tables_own_inventory s'"
        "kernel_page_directory s' = ?d" "free_page_bitmap s' = free_page_bitmap s"
        "fast_page_addr s' = fast_page_addr s" "physical_memory_length s' = physical_memory_length s"
        "\<And>u. u < USERSPACE_BOTTOM \<Longrightarrow> pt_lookup (pmem s') ?d u =
          (if a + PAGE_SIZE \<le> page_of u \<and> page_of u < bound then Some (create_pte32 (perm (page_of u)) 0 0 0 (page_of u))
           else pt_lookup (pmem s1) ?d u)" by (auto simp: dir)
    have "pt_lookup (pmem s') ?d u =
       (if a \<le> page_of u \<and> page_of u < bound then Some (create_pte32 (perm (page_of u)) 0 0 0 (page_of u))
        else pt_lookup (pmem s) ?d u)" if u: "u < USERSPACE_BOTTOM" for u
    proof -
      have "a \<le> page_of u \<longleftrightarrow> page_of u = a \<or> a + PAGE_SIZE \<le> page_of u"
        using page_next(2) [OF less(2) page_of_aligned, of u] n by (auto simp: word_le_nat_alt)
      moreover have "pt_lookup (pmem s1) ?d u =
          (if page_of u = a then Some (create_pte32 (perm a) 0 0 0 a) else pt_lookup (pmem s) ?d u)"
        using spec1 u page_of_id [OF less(2)] by simp
      ultimately show ?thesis using s'(8) [OF u] True by auto
    qed
    with s' show ?thesis unfolding step by blast
  qed
qed

lemma page_of_less: "page_aligned b \<Longrightarrow> page_of u < b \<longleftrightarrow> u < b"
proof -
  assume "page_aligned b"
  then obtain k where k: "unat b = 4096 * k" by (auto simp: page_aligned_dvd elim: dvdE)
  have "unat (page_of u) = unat u - unat u mod 4096" by (rule unat_page_of)
  also have "\<dots> = 4096 * (unat u div 4096)" by (simp add: minus_mod_eq_mult_div)
  finally have "page_of u < b \<longleftrightarrow> unat u div 4096 < k" using k by (simp add: word_less_nat_alt)
  also have "\<dots> \<longleftrightarrow> unat u < 4096 * k" by (simp add: div_less_iff_less_mult mult.commute)
  finally show ?thesis using k by (simp add: word_less_nat_alt)
qed

lemma page_of_le: "page_aligned b \<Longrightarrow> b \<le> page_of u \<longleftrightarrow> b \<le> u"
  using page_of_less [of b u] by (simp flip: not_less)

lemma page_or_offset: "page_of u OR (u AND PAGE_MASK) = u"
proof (rule bit_eqI)
  fix n assume "possible_bit TYPE(u32) n"
  have m: "PAGE_MASK = mask 12" by (simp add: mask_eq_exp_minus_1)
  show "bit (page_of u OR (u AND PAGE_MASK)) n = bit u n"
    unfolding page_of_push_drop m by (auto simp: bit_simps dest: bit_imp_le_length)
qed

lemma create_pte32_write: "bit (create_pte32 w su wt cd f) 1 = bit w 0"
proof -
  have b: "bit (push_bit n x) m \<longleftrightarrow> n \<le> m \<and> m < 32 \<and> bit x (m - n)" for n m and x :: u32
    by (auto simp: bit_simps)
  show ?thesis unfolding create_pte32_def bit_or_iff b by (simp add: bit_and_iff bit_1_iff)
qed

text \<open>The state after the directory has been created and the inventory reserved, with nothing
  mapped yet.\<close>

lemma paging_init_directory:
  assumes bss: "0 < kernel_bss_end l" "kernel_bss_end l \<le> PAGE_SPACE_BOTTOM"
    and fast: "page_aligned (fast_base_page_addr s)"
  obtains s4 where "paging_init l s = do {
       s \<leftarrow> map_pages PAGE_SPACE_TOP (\<lambda>_. PAGE_PERMISSION_READ_WRITE) PAGE_SPACE_BOTTOM s4;
       s \<leftarrow> map_pages (get_system_memory_start l)
             (\<lambda>phy_addr. if kernel_text_start l \<le> phy_addr \<and> phy_addr < kernel_data_start l
                         then PAGE_PERMISSION_READ_ONLY else PAGE_PERMISSION_READ_WRITE) 0 s;
       Some (s\<lparr>cr3 := kernel_page_directory s\<rparr>) }"
    "kernel_tables_ok s4" "tables_own_inventory s4"
    "pt_used (pmem s4) (kernel_page_directory s4) kernel_part = {}"
    "\<And>q. page_aligned q \<Longrightarrow> q < kernel_bss_end l \<or> in_page_space q \<Longrightarrow> \<not> IS_PAGE_FREE s4 q"
proof -
  let ?z = "s\<lparr>free_page_bitmap := (\<lambda>_. 0), free_base_page_bitmap := (\<lambda>_. 0)\<rparr>"
  define s1 where "s1 = ?z\<lparr>free_page_bitmap := (\<lambda>idx.
      if drop_bit 3 (drop_bit 12 (get_system_memory_boundary s)) \<le> idx \<and> idx < FREE_PAGE_BITMAP_SIZE then 0xff
      else free_page_bitmap ?z idx)\<rparr>"
  have ub: "unat (kernel_bss_end l) \<le> 0x4000000" using bss(2) by (simp add: word_le_nat_alt)
  obtain s2 where s2: "mark_pages (kernel_bss_end l) s1 0 = Some s2" "s2 = s1\<lparr>free_page_bitmap := free_page_bitmap s2\<rparr>"
      "\<And>q. page_aligned q \<Longrightarrow> IS_PAGE_FREE s2 q = (IS_PAGE_FREE s1 q \<and> \<not> q < kernel_bss_end l)"
    using mark_pages_spec [of "kernel_bss_end l" 0 s1] ub by (auto simp: word_le_nat_alt)
  have base0: "\<not> base_page_taken s2 q" for q
    using arg_cong [OF s2(2), of free_base_page_bitmap] by (simp add: base_taken_bit s1_def)
  have fast2: "page_aligned (fast_base_page_addr s2)"
    using arg_cong [OF s2(2), of fast_base_page_addr] fast by (simp add: s1_def)
  obtain d a where d: "page_aligned a" "in_page_space d" "get_base_page s2 = (d, base_page_take (s2\<lparr>fast_base_page_addr := a\<rparr>) d)"
  proof (rule get_base_page_spec [OF fast2], goal_cases)
    case 2
    then show thesis using base0 inventory_card by (metis card.empty ex_in_conv zero_neq_numeral)
  qed blast
  define s3 where "s3 = (base_page_take (s2\<lparr>fast_base_page_addr := a\<rparr>) d)
      \<lparr>kernel_page_directory := d, pmem := clear_page (pmem s2) d\<rparr>"
  have dal: "page_aligned d" using d(2) by (simp add: in_page_space_def)
  have s3_taken: "base_page_taken s3 q \<longleftrightarrow> q = d" if "page_aligned q" for q
    using base_taken_take [OF dal that, of "s2\<lparr>fast_base_page_addr := a\<rparr>"] base0
    by (simp add: s3_def base_page_taken_def)
  obtain s4 where s4: "mark_pages PAGE_SPACE_TOP s3 PAGE_SPACE_BOTTOM = Some s4" "s4 = s3\<lparr>free_page_bitmap := free_page_bitmap s4\<rparr>"
      "\<And>q. page_aligned q \<Longrightarrow> IS_PAGE_FREE s4 q = (IS_PAGE_FREE s3 q \<and> \<not> (PAGE_SPACE_BOTTOM \<le> q \<and> q < PAGE_SPACE_TOP))"
    using mark_pages_spec [of PAGE_SPACE_TOP PAGE_SPACE_BOTTOM s3] by (auto simp: page_aligned_def)
  have s4f: "pmem s4 = clear_page (pmem s2) d" "kernel_page_directory s4 = d" "page_aligned (fast_base_page_addr s4)"
      "base_page_taken s4 = base_page_taken s3"
    using arg_cong [OF s4(2), of pmem] arg_cong [OF s4(2), of kernel_page_directory]
      arg_cong [OF s4(2), of fast_base_page_addr] arg_cong [OF s4(2), of free_base_page_bitmap] d(1)
    by (simp_all add: s3_def base_page_taken_def fun_eq_iff)
  have empty: "pt_used (pmem s4) d kernel_part = {}"
    using clear_page_in [OF dal page_of_slot [OF dal]]
    by (auto simp: pt_used_def s4f kernel_part_def entry_present_def word_less_nat_alt)
  have part: "\<forall>i\<in>kernel_part. i < 1024" by (simp add: kernel_part_def word_less_nat_alt)
  have ok4: "kernel_tables_ok s4" "tables_own_inventory s4"
    using d(2) s3_taken dal s4f(3) part by (simp_all add: kernel_tables_ok_def tables_own_inventory_def tables_ok_def
        s4f(2,4) pt_pages_def empty in_page_space_def)
  have free3: "IS_PAGE_FREE s3 = IS_PAGE_FREE s2" by (simp add: fun_eq_iff IS_PAGE_FREE_def s3_def)
  have run: "paging_init l s = do {
       s \<leftarrow> map_pages PAGE_SPACE_TOP (\<lambda>_. PAGE_PERMISSION_READ_WRITE) PAGE_SPACE_BOTTOM s4;
       s \<leftarrow> map_pages (get_system_memory_start l)
             (\<lambda>phy_addr. if kernel_text_start l \<le> phy_addr \<and> phy_addr < kernel_data_start l
                         then PAGE_PERMISSION_READ_ONLY else PAGE_PERMISSION_READ_WRITE) 0 s;
       Some (s\<lparr>cr3 := kernel_page_directory s\<rparr>) }"
  proof -
    show ?thesis unfolding paging_init_def Let_def s1_def [symmetric] s2(1) by (simp add: d(3) s3_def [symmetric] s4(1))
  qed
  show thesis
    by (rule that [OF run ok4]) (use empty s4f(2) s4(3) s2(3) free3 in \<open>auto simp: in_page_space_def\<close>)
qed

text \<open>C10. paging_init. For a kernel image that ends below the page inventory, the initialisation
  returns and leaves a well-formed kernel page directory loaded in CR3. Exactly the pages up to
  the start of the free memory and the pages of the page inventory are present, each mapped to
  itself; below the start of the free memory the text of the kernel is read only and everything
  else is writable. All pages of the kernel image and of the page inventory are occupied, so
  that get_page cannot hand them out.\<close>

theorem paging_init_correct:
  assumes bss: "0 < kernel_bss_end l" "kernel_bss_end l \<le> PAGE_SPACE_BOTTOM"
    and fast: "page_aligned (fast_base_page_addr s)"
  shows "\<exists>s'. paging_init l s = Some s' \<and> kernel_tables_ok s' \<and> cr3 s' = kernel_page_directory s' \<and>
    (\<forall>u. u < USERSPACE_BOTTOM \<longrightarrow>
       (if u < get_system_memory_start l \<or> PAGE_SPACE_BOTTOM \<le> u \<and> u < PAGE_SPACE_TOP
        then page_present (pmem s') (cr3 s') u = of_int OK \<and> virt2phy (pmem s') (cr3 s') u = u
        else page_present (pmem s') (cr3 s') u = of_int (- ERR_NOT_PRESENT))) \<and>
    (\<forall>u. u < get_system_memory_start l \<longrightarrow> (\<exists>e. pt_lookup (pmem s') (cr3 s') u = Some e \<and>
       bit e 1 = (\<not> (kernel_text_start l \<le> page_of u \<and> page_of u < kernel_data_start l)))) \<and>
    (\<forall>q. page_aligned q \<longrightarrow> q < kernel_bss_end l \<or> in_page_space q \<longrightarrow> \<not> IS_PAGE_FREE s' q)"
proof (rule paging_init_directory [OF bss fast])
  fix s4
  let ?start = "get_system_memory_start l"
  let ?perm = "\<lambda>phy_addr. if kernel_text_start l \<le> phy_addr \<and> phy_addr < kernel_data_start l
      then PAGE_PERMISSION_READ_ONLY else PAGE_PERMISSION_READ_WRITE"
  assume run: "paging_init l s = do {
       s \<leftarrow> map_pages PAGE_SPACE_TOP (\<lambda>_. PAGE_PERMISSION_READ_WRITE) PAGE_SPACE_BOTTOM s4;
       s \<leftarrow> map_pages ?start ?perm 0 s;
       Some (s\<lparr>cr3 := kernel_page_directory s\<rparr>) }"
    and ok4: "kernel_tables_ok s4" "tables_own_inventory s4"
    and empty: "pt_used (pmem s4) (kernel_page_directory s4) kernel_part = {}"
    and occ: "\<And>q. page_aligned q \<Longrightarrow> q < kernel_bss_end l \<or> in_page_space q \<Longrightarrow> \<not> IS_PAGE_FREE s4 q"
  let ?d = "kernel_page_directory s4"
  have al: "page_aligned PAGE_SPACE_BOTTOM" "page_aligned PAGE_SPACE_TOP" by (simp_all add: page_aligned_def)
  have start: "page_aligned ?start" "?start \<le> USERSPACE_BOTTOM"
    using system_memory_start(1) [OF bss] page_round_ge [of "kernel_bss_end l"] bss(2)
    by (auto simp: get_system_memory_start_def word_le_nat_alt)
  obtain s5 where s5: "map_pages PAGE_SPACE_TOP (\<lambda>_. PAGE_PERMISSION_READ_WRITE) PAGE_SPACE_BOTTOM s4 = Some s5"
      "kernel_tables_ok s5" "tables_own_inventory s5" "kernel_page_directory s5 = ?d" "free_page_bitmap s5 = free_page_bitmap s4"
      "\<And>u. u < USERSPACE_BOTTOM \<Longrightarrow> pt_lookup (pmem s5) ?d u =
         (if PAGE_SPACE_BOTTOM \<le> page_of u \<and> page_of u < PAGE_SPACE_TOP then Some (create_pte32 1 0 0 0 (page_of u))
          else pt_lookup (pmem s4) ?d u)"
    using map_pages_spec [OF _ al(1) ok4, of PAGE_SPACE_TOP "\<lambda>_. 1"] by auto
  obtain s6 where s6: "map_pages ?start ?perm 0 s5 = Some s6"
      "kernel_tables_ok s6" "kernel_page_directory s6 = ?d" "free_page_bitmap s6 = free_page_bitmap s4"
      "\<And>u. u < USERSPACE_BOTTOM \<Longrightarrow> pt_lookup (pmem s6) ?d u =
         (if page_of u < ?start then Some (create_pte32 (?perm (page_of u)) 0 0 0 (page_of u))
          else pt_lookup (pmem s5) ?d u)"
    using map_pages_spec [OF start(2) page_aligned_0 s5(2,3), of ?perm] s5(4,5) by auto
  have none: "pt_lookup (pmem s4) ?d u = None" if "u < USERSPACE_BOTTOM" for u
    using empty that by (auto simp: pt_lookup_alt pt_used_def pd_index_kernel)
  let ?s = "s6\<lparr>cr3 := ?d\<rparr>"
  have lk: "pt_lookup (pmem ?s) ?d u =
      (if u < ?start then Some (create_pte32 (?perm (page_of u)) 0 0 0 (page_of u))
       else if PAGE_SPACE_BOTTOM \<le> u \<and> u < PAGE_SPACE_TOP then Some (create_pte32 1 0 0 0 (page_of u)) else None)"
    if "u < USERSPACE_BOTTOM" for u
    using s6(5) [OF that] s5(6) [OF that] none [OF that] page_of_less [OF start(1)] page_of_less [OF al(2)] page_of_le [OF al(1)]
    by simp
  have "kernel_tables_ok ?s" using s6(2) by (simp add: kernel_tables_ok_def base_page_taken_def [abs_def])
  moreover have "paging_init l s = Some ?s" using s5(1) s6(1,3) by (simp add: run)
  moreover have "\<not> IS_PAGE_FREE ?s q" if "page_aligned q" "q < kernel_bss_end l \<or> in_page_space q" for q
    using occ [OF that] s6(4) by (simp add: IS_PAGE_FREE_def)
  moreover have "if u < ?start \<or> PAGE_SPACE_BOTTOM \<le> u \<and> u < PAGE_SPACE_TOP
        then page_present (pmem ?s) (cr3 ?s) u = of_int OK \<and> virt2phy (pmem ?s) (cr3 ?s) u = u
        else page_present (pmem ?s) (cr3 ?s) u = of_int (- ERR_NOT_PRESENT)" if "u < USERSPACE_BOTTOM" for u
    using lk [OF that] page_or_offset [of u]
    by (simp add: page_present_lookup virt2phy_lookup page_of_id)
  moreover have "\<exists>e. pt_lookup (pmem ?s) (cr3 ?s) u = Some e \<and>
      bit e 1 = (\<not> (kernel_text_start l \<le> page_of u \<and> page_of u < kernel_data_start l))" if "u < ?start" for u
    using lk [of u] that start(2) by (simp add: create_pte32_write [simplified])
  moreover have "cr3 ?s = kernel_page_directory ?s" using s6(3) by simp
  ultimately show ?thesis by blast
qed

theorem paging_init_correct_witness:
  defines "l \<equiv> \<lparr>kernel_text_start = 0x100000, kernel_text_end = 0x1ff010, kernel_data_start = 0x200000, kernel_data_end = 0x280010,
      kernel_bss_start = 0x281000, kernel_bss_end = 0x300123\<rparr>"
    and "s \<equiv> \<lparr>free_page_bitmap = (\<lambda>_. 7), free_base_page_bitmap = (\<lambda>_. 1), kernel_page_directory = 0,
      fast_base_page_addr = 0, fast_page_addr = 0, physical_memory_length = 0x20000000, cr3 = 0, pmem = (\<lambda>_. 9)\<rparr>"
  shows "\<exists>s'. paging_init l s = Some s' \<and> kernel_tables_ok s' \<and> cr3 s' = kernel_page_directory s' \<and>
    (\<forall>u. u < USERSPACE_BOTTOM \<longrightarrow>
       (if u < get_system_memory_start l \<or> PAGE_SPACE_BOTTOM \<le> u \<and> u < PAGE_SPACE_TOP
        then page_present (pmem s') (cr3 s') u = of_int OK \<and> virt2phy (pmem s') (cr3 s') u = u
        else page_present (pmem s') (cr3 s') u = of_int (- ERR_NOT_PRESENT))) \<and>
    (\<forall>u. u < get_system_memory_start l \<longrightarrow> (\<exists>e. pt_lookup (pmem s') (cr3 s') u = Some e \<and>
       bit e 1 = (\<not> (kernel_text_start l \<le> page_of u \<and> page_of u < kernel_data_start l)))) \<and>
    (\<forall>q. page_aligned q \<longrightarrow> q < kernel_bss_end l \<or> in_page_space q \<longrightarrow> \<not> IS_PAGE_FREE s' q)"
  by (rule paging_init_correct) (simp_all add: l_def s_def)

end
