(* ===== verification/Kernel_Vma.thy ===== *)
theory Kernel_Vma
  imports Paging C_String
begin

section \<open>Virtual memory areas of the kernel (\<^verbatim>\<open>memory/kernel_vma.c\<close>)\<close>

text \<open>
  A fixed array of areas describes the kernel half of the address space; the page fault handler
  maps pages of an area on demand. One-bit fields are words that hold 0 or 1; an assignment of
  a wider value keeps its lowest bit. The array is a list, of length
  \<^verbatim>\<open>KERNEL_VMA_ARRAY_LENGTH\<close> after initialisation.
\<close>

abbreviation (input) KERNEL_VMA_ARRAY_LENGTH :: nat where "KERNEL_VMA_ARRAY_LENGTH \<equiv> 1024"
abbreviation (input) KERNEL_VMA_NAME_SIZE :: int where "KERNEL_VMA_NAME_SIZE \<equiv> 64"
abbreviation (input) KERNEL_HEAP_BOTTOM :: u32 where "KERNEL_HEAP_BOTTOM \<equiv> 0x8000000"
abbreviation (input) KERNEL_HEAP_TOP :: u32 where "KERNEL_HEAP_TOP \<equiv> 0x1F000000"

record kernel_vma =
  kv_name :: "u8 list"
  kv_present :: bool
  kv_exact :: bool
  kv_write_permission :: u32
  kv_page_writethrough :: u32
  kv_page_cachedisable :: u32
  kv_premap :: bool
  kv_virt_addr :: u32
  kv_phy_addr :: u32
  kv_length :: u32

definition zero_vma :: kernel_vma where
  "zero_vma = \<lparr>kv_name = replicate 64 0, kv_present = False, kv_exact = False, kv_write_permission = 0,
     kv_page_writethrough = 0, kv_page_cachedisable = 0, kv_premap = False, kv_virt_addr = 0, kv_phy_addr = 0,
     kv_length = 0\<rparr>"

subsection \<open>Searching\<close>

text \<open>The inner loop of the search for free addresses: the present area with the smallest start
  address not below \<open>start\<close>, other than the one at \<open>idx\<close>.\<close>

fun nearest_vma :: "nat \<Rightarrow> u64 \<Rightarrow> nat \<Rightarrow> kernel_vma list \<Rightarrow> kernel_vma option \<Rightarrow> kernel_vma option" where
  "nearest_vma idx start idx_tmp [] near = near"
| "nearest_vma idx start idx_tmp (v # vs) near =
     nearest_vma idx start (Suc idx_tmp) vs
       (if idx_tmp = idx then near
        else if \<not> kv_present v then near
        else if ucast (kv_virt_addr v) \<ge> start then
          (case near of
             None \<Rightarrow> Some v
           | Some n \<Rightarrow> if kv_virt_addr v \<le> kv_virt_addr n then Some v else near)
        else near)"

fun search_free_loop :: "kernel_vma list \<Rightarrow> u32 \<Rightarrow> nat \<Rightarrow> kernel_vma list \<Rightarrow> u32 option" where
  "search_free_loop all len idx [] = Some 0"
| "search_free_loop all len idx (v # vs) =
     (if \<not> kv_present v then search_free_loop all len (Suc idx) vs
      else do {
        let vaddr_free_start = (ucast (kv_virt_addr v + kv_length v) :: u64);
        let vaddr_free_end = (case nearest_vma idx vaddr_free_start 0 all None of
              Some n \<Rightarrow> (ucast (kv_virt_addr n) :: u64) | None \<Rightarrow> ucast USERSPACE_BOTTOM);
        kassert (vaddr_free_end \<noteq> 0);
        if vaddr_free_end - vaddr_free_start > ucast len then Some (ucast vaddr_free_start)
        else search_free_loop all len (Suc idx) vs })"

definition search_free_kernel_virtual_address :: "kernel_vma list \<Rightarrow> u32 \<Rightarrow> u32 option" where
  "search_free_kernel_virtual_address vmas len =
     (let len = (if len AND PAGE_MASK \<noteq> 0 then (len AND NOT PAGE_MASK) + PAGE_SIZE else len)
      in search_free_loop vmas len 0 vmas)"

definition search_kernel_vma :: "kernel_vma list \<Rightarrow> u32 \<Rightarrow> kernel_vma option" where
  "search_kernel_vma vmas virt_addr =
     find (\<lambda>v. kv_present v \<and> virt_addr \<ge> kv_virt_addr v \<and> virt_addr < kv_virt_addr v + kv_length v) vmas"

subsection \<open>Registering\<close>

text \<open>The scan either finds an overlap or yields the index of the first unused slot (\<open>- 1\<close>
  when there is none).\<close>

fun register_scan :: "kernel_vma \<Rightarrow> int \<Rightarrow> int \<Rightarrow> kernel_vma list \<Rightarrow> int option" where
  "register_scan vma target_index idx [] = Some target_index"
| "register_scan vma target_index idx (v # vs) =
     (if \<not> kv_present v then register_scan vma (if target_index = - 1 then idx else target_index) (idx + 1) vs
      else if kv_virt_addr vma \<ge> kv_virt_addr v \<and> kv_virt_addr vma < kv_virt_addr v + kv_length v then None
      else register_scan vma target_index (idx + 1) vs)"

partial_function (option) premap_loop :: "layout \<Rightarrow> kernel_vma \<Rightarrow> u32 \<Rightarrow> paging \<Rightarrow> paging option" where
  "premap_loop l v linear_address s =
     (if linear_address < kv_virt_addr v + kv_length v then
        (case (if kv_exact v then Some (linear_address - kv_virt_addr v + kv_phy_addr v, s) else get_page l s) of
           None \<Rightarrow> None
         | Some (phy_address, s) \<Rightarrow>
             (if phy_address = 0 then None
              else case kernel_map_page s linear_address phy_address (kv_write_permission v)
                     (kv_page_writethrough v) (kv_page_cachedisable v) of
                None \<Rightarrow> None
              | Some s \<Rightarrow> premap_loop l v (linear_address + PAGE_SIZE) s))
      else Some s)"

definition register_kernel_vma ::
    "layout \<Rightarrow> kernel_vma \<Rightarrow> kernel_vma list \<Rightarrow> paging \<Rightarrow> (int \<times> kernel_vma list \<times> paging) option" where
  "register_kernel_vma l vma vmas s =
     (case register_scan vma (- 1) 0 vmas of
        None \<Rightarrow> Some (- ERR_INVALID_ARG, vmas, s)
      | Some target_index \<Rightarrow>
          if target_index = - 1 then Some (- ERR_OUT_OF_RESOURCE, vmas, s)
          else do {
            slot \<leftarrow> arr_get vmas target_index;
            name \<leftarrow> strcpy_safe (kv_name slot) (kv_name vma) KERNEL_VMA_NAME_SIZE;
            let slot = slot\<lparr>kv_name := name, kv_present := True, kv_exact := kv_exact vma,
                  kv_write_permission := kv_write_permission vma, kv_page_writethrough := kv_page_writethrough vma,
                  kv_page_cachedisable := kv_page_cachedisable vma, kv_virt_addr := kv_virt_addr vma,
                  kv_phy_addr := kv_phy_addr vma, kv_length := kv_length vma\<rparr>;
            vmas \<leftarrow> arr_set vmas target_index slot;
            s \<leftarrow> (if kv_premap slot then premap_loop l slot (kv_virt_addr slot) s else Some s);
            Some (OK, vmas, s) })"

definition kernel_map_vma ::
    "layout \<Rightarrow> u8 list \<Rightarrow> u32 \<Rightarrow> u32 \<Rightarrow> u32 \<Rightarrow> u32 \<Rightarrow> u32 \<Rightarrow> u32 \<Rightarrow> u32 \<Rightarrow> kernel_vma list \<Rightarrow> paging
      \<Rightarrow> (u32 \<times> kernel_vma list \<times> paging) option" where
  "kernel_map_vma l vma_name exact premap phy_addr len write_permission page_writethrough page_cachedisable vmas s = do {
     virt_addr \<leftarrow> search_free_kernel_virtual_address vmas len;
     if virt_addr = 0 then Some (virt_addr, vmas, s)
     else do {
       name \<leftarrow> strcpy_safe (replicate 64 0) vma_name KERNEL_VMA_NAME_SIZE;
       let vma = zero_vma\<lparr>kv_name := name, kv_exact := True, kv_write_permission := write_permission AND 1,
             kv_page_writethrough := page_writethrough AND 1, kv_page_cachedisable := page_cachedisable AND 1,
             kv_premap := bit premap 0, kv_virt_addr := virt_addr, kv_phy_addr := phy_addr, kv_length := len\<rparr>;
       (ret, vmas, s) \<leftarrow> register_kernel_vma l vma vmas s;
       kassert (ret = OK);
       Some (virt_addr, vmas, s) } }"

text \<open>The four areas of the initial layout. The local variable the C code fills is uninitialised;
  its name buffer is the argument \<open>junk\<close>.\<close>

definition initial_vma :: "u8 list \<Rightarrow> u8 list \<Rightarrow> bool \<Rightarrow> u32 \<Rightarrow> u32 \<Rightarrow> u32 \<Rightarrow> kernel_vma option" where
  "initial_vma junk name exact virt phy len = do {
     name \<leftarrow> strcpy_safe junk name KERNEL_VMA_NAME_SIZE;
     Some \<lparr>kv_name = name, kv_present = False, kv_exact = exact,
       kv_write_permission = PAGE_PERMISSION_READ_WRITE, kv_page_writethrough = PAGE_WRITEBACK,
       kv_page_cachedisable = PAGE_CACHE_ENABLED, kv_premap = False, kv_virt_addr = virt, kv_phy_addr = phy,
       kv_length = len\<rparr> }"

definition register_ok :: "layout \<Rightarrow> kernel_vma \<Rightarrow> kernel_vma list \<times> paging \<Rightarrow> (kernel_vma list \<times> paging) option" where
  "register_ok l vma = (\<lambda>(vmas, s). do {
     (ret, vmas, s) \<leftarrow> register_kernel_vma l vma vmas s;
     kassert (ret = OK);
     Some (vmas, s) })"

definition kernel_vma_init :: "layout \<Rightarrow> u8 list \<Rightarrow> paging \<Rightarrow> (kernel_vma list \<times> paging) option" where
  "kernel_vma_init l junk s = do {
     let sys_mem_start = get_system_memory_start l;
     let vmas = replicate KERNEL_VMA_ARRAY_LENGTH zero_vma;
     v \<leftarrow> initial_vma junk (c_lit ''Low1MB'') True 0 0 0x100000;
     st \<leftarrow> register_ok l v (vmas, s);
     v \<leftarrow> initial_vma (kv_name v) (c_lit ''KernelImage'') True 0x100000 0x100000 (sys_mem_start - 0x100000);
     st \<leftarrow> register_ok l v st;
     v \<leftarrow> initial_vma (kv_name v) (c_lit ''PageInventory'') True PAGE_SPACE_BOTTOM PAGE_SPACE_BOTTOM
           (PAGE_SPACE_TOP - PAGE_SPACE_BOTTOM);
     st \<leftarrow> register_ok l v st;
     v \<leftarrow> initial_vma (kv_name v) (c_lit ''KernelHeap'') False KERNEL_HEAP_BOTTOM 0 (KERNEL_HEAP_TOP - KERNEL_HEAP_BOTTOM);
     register_ok l v st }"

subsection \<open>Well-formed tables\<close>

text \<open>Present areas are not empty, lie below the user space and do not overlap; no slot has the
  premap bit set, which no operation ever sets.\<close>

abbreviation vma_start :: "kernel_vma \<Rightarrow> nat" where "vma_start v \<equiv> unat (kv_virt_addr v)"
abbreviation vma_end :: "kernel_vma \<Rightarrow> nat" where "vma_end v \<equiv> unat (kv_virt_addr v) + unat (kv_length v)"

definition vma_ok :: "kernel_vma \<Rightarrow> bool" where
  "vma_ok v \<longleftrightarrow> \<not> kv_premap v \<and> length (kv_name v) = 64 \<and>
     (kv_present v \<longrightarrow> 0 < unat (kv_length v) \<and> vma_end v \<le> 0x40000000)"

definition vma_apart :: "kernel_vma \<Rightarrow> kernel_vma \<Rightarrow> bool" where
  "vma_apart v w \<longleftrightarrow> (kv_present v \<longrightarrow> kv_present w \<longrightarrow> vma_end v \<le> vma_start w \<or> vma_end w \<le> vma_start v)"

definition vmas_ok :: "kernel_vma list \<Rightarrow> bool" where
  "vmas_ok vs \<longleftrightarrow> (\<forall>v\<in>set vs. vma_ok v) \<and>
     (\<forall>i j. i < length vs \<longrightarrow> j < length vs \<longrightarrow> i \<noteq> j \<longrightarrow> vma_apart (vs ! i) (vs ! j))"

lemma vma_end_word: "vma_ok v \<Longrightarrow> kv_present v \<Longrightarrow> unat (kv_virt_addr v + kv_length v) = vma_end v"
  by (simp add: vma_ok_def unat_word_ariths)

lemma register_scan_Some:
  assumes "register_scan vma t i vs = Some r" "\<forall>v\<in>set vs. vma_ok v"
  shows "\<forall>v\<in>set vs. kv_present v \<longrightarrow> \<not> (vma_start v \<le> vma_start vma \<and> vma_start vma < vma_end v)"
  using assms
proof (induction vs arbitrary: t i)
  case (Cons v vs)
  from Cons.prems(1) obtain t' i' where "register_scan vma t' i' vs = Some r"
    by (auto split: if_splits)
  with Cons have rest: "\<forall>v\<in>set vs. kv_present v \<longrightarrow> \<not> (vma_start v \<le> vma_start vma \<and> vma_start vma < vma_end v)"
    by simp
  have "\<not> (vma_start v \<le> vma_start vma \<and> vma_start vma < vma_end v)" if "kv_present v"
  proof -
    have "\<not> (kv_virt_addr vma \<ge> kv_virt_addr v \<and> kv_virt_addr vma < kv_virt_addr v + kv_length v)"
      using Cons.prems(1) that by (simp split: if_splits)
    moreover have "unat (kv_virt_addr v + kv_length v) = vma_end v"
      using vma_end_word that Cons.prems(2) by simp
    ultimately show ?thesis unfolding word_le_nat_alt word_less_nat_alt by simp
  qed
  with rest show ?case by simp
qed simp

lemma register_scan_index:
  assumes "register_scan vma t i vs = Some r" "0 \<le> i"
  shows "if t = - 1
    then r = - 1 \<and> (\<forall>v\<in>set vs. kv_present v) \<or> (\<exists>k<length vs. r = i + int k \<and> \<not> kv_present (vs ! k))
    else r = t"
  using assms
proof (induction vs arbitrary: t i)
  case (Cons v vs)
  show ?case
  proof (cases "kv_present v")
    case True
    with Cons.prems have "register_scan vma t (i + 1) vs = Some r" by (simp split: if_splits)
    from Cons.IH [OF this] Cons.prems(2) True show ?thesis
      by (cases "t = - 1") (simp_all add: Ex_less_Suc2 algebra_simps)
  next
    case False
    with Cons.prems have "register_scan vma (if t = - 1 then i else t) (i + 1) vs = Some r" by simp
    from Cons.IH [OF this] Cons.prems(2) False show ?thesis
      by (cases "t = - 1") auto
  qed
qed simp

text \<open>The scan fails only on an area that contains the new start address.\<close>

lemma register_scan_None:
  assumes "register_scan vma t i vs = None"
  obtains v where "v \<in> set vs" "kv_present v" "kv_virt_addr v \<le> kv_virt_addr vma"
    "kv_virt_addr vma < kv_virt_addr v + kv_length v"
proof -
  have "\<exists>v\<in>set vs. kv_present v \<and> kv_virt_addr v \<le> kv_virt_addr vma \<and>
      kv_virt_addr vma < kv_virt_addr v + kv_length v"
    using assms by (induction vs arbitrary: t i) (auto split: if_splits)
  then show ?thesis using that by blast
qed

text \<open>The inner search: it returns a lower bound of the starts it looks at.\<close>

definition nearest_ok :: "u64 \<Rightarrow> (nat \<times> kernel_vma) set \<Rightarrow> kernel_vma option \<Rightarrow> bool" where
  "nearest_ok start seen near \<longleftrightarrow>
     (case near of
        None \<Rightarrow> \<forall>(i, v)\<in>seen. kv_present v \<longrightarrow> ucast (kv_virt_addr v) < start
      | Some n \<Rightarrow> (\<exists>i. (i, n) \<in> seen \<and> kv_present n \<and> start \<le> ucast (kv_virt_addr n)) \<and>
          (\<forall>(i, v)\<in>seen. kv_present v \<longrightarrow> ucast (kv_virt_addr v) \<ge> start \<longrightarrow> kv_virt_addr n \<le> kv_virt_addr v))"

definition others :: "nat \<Rightarrow> kernel_vma list \<Rightarrow> (nat \<times> kernel_vma) set" where
  "others idx vs = set (filter (\<lambda>p. fst p \<noteq> idx) (enumerate 0 vs))"

lemma others_snoc: "others idx (vs @ [v]) = others idx vs \<union> (if length vs = idx then {} else {(length vs, v)})"
  by (simp add: others_def enumerate_append_eq)

lemma others_iff: "(i, v) \<in> others idx vs \<longleftrightarrow> i < length vs \<and> i \<noteq> idx \<and> v = vs ! i"
  by (auto simp: others_def in_set_enumerate_eq)

lemma others_mem: "v \<in> set vs \<Longrightarrow> v = vs ! idx \<or> (\<exists>i. (i, v) \<in> others idx vs)"
  unfolding others_iff by (metis in_set_conv_nth)

lemma nearest_vma_ok:
  assumes "nearest_ok start (others idx pre) near" "k = length pre"
  shows "nearest_ok start (others idx (pre @ vs)) (nearest_vma idx start k vs near)"
  using assms
proof (induction vs arbitrary: pre near k)
  case (Cons v vs)
  let ?near = "if k = idx then near else if \<not> kv_present v then near
        else if ucast (kv_virt_addr v) \<ge> start then
          (case near of None \<Rightarrow> Some v | Some n \<Rightarrow> if kv_virt_addr v \<le> kv_virt_addr n then Some v else near)
        else near"
  have "nearest_ok start (others idx (pre @ [v])) ?near"
    using Cons.prems by (cases near) (auto simp: others_snoc nearest_ok_def not_le)
  from Cons.IH [OF this, of "Suc k"] Cons.prems(2) show ?case by simp
qed simp

lemma nearest_vma_spec: "nearest_ok start (others idx vs) (nearest_vma idx start 0 vs None)"
proof -
  have "nearest_ok start (others idx []) None" by (simp add: nearest_ok_def others_def)
  from nearest_vma_ok [OF this refl, of vs] show ?thesis by simp
qed

text \<open>\<open>gap_after vs a len\<close>: the addresses from \<open>a\<close> to \<open>a + len\<close> are outside every present area
  and below the user space. \<open>gap_end\<close> is the end of the gap that the outer loop computes.\<close>

definition gap_after :: "kernel_vma list \<Rightarrow> nat \<Rightarrow> nat \<Rightarrow> bool" where
  "gap_after vs a len \<longleftrightarrow> a + len < 0x40000000 \<and>
     (\<forall>v\<in>set vs. kv_present v \<longrightarrow> vma_end v \<le> a \<or> a + len < vma_start v)"

abbreviation gap_end :: "kernel_vma list \<Rightarrow> nat \<Rightarrow> kernel_vma \<Rightarrow> u64" where
  "gap_end vs idx v \<equiv> (case nearest_vma idx (ucast (kv_virt_addr v + kv_length v)) 0 vs None of
     Some n \<Rightarrow> ucast (kv_virt_addr n) | None \<Rightarrow> ucast USERSPACE_BOTTOM)"

lemma unat_ucast_u64 [simp]: "unat (ucast (x :: u32) :: u64) = unat x"
  by transfer (simp add: min_def)

lemma ucast_u32_u64_id [simp]: "ucast (ucast (x :: u32) :: u64) = x"
  by transfer (simp add: min_def)

lemma vmas_okD:
  assumes "vmas_ok vs" "k < length vs"
  shows "vma_ok (vs ! k)"
  using assms by (simp add: vmas_ok_def)

lemma vmas_ok_apart:
  assumes "vmas_ok vs" "k < length vs" "kv_present (vs ! k)" "w \<in> set vs" "kv_present w"
  shows "vma_end w \<le> vma_end (vs ! k) \<or> vma_end (vs ! k) \<le> vma_start w"
proof -
  obtain i where i: "i < length vs" "w = vs ! i" using assms(4) by (auto simp: in_set_conv_nth)
  show ?thesis
  proof (cases "i = k")
    case False
    with assms i have "vma_end w \<le> vma_start (vs ! k) \<or> vma_end (vs ! k) \<le> vma_start w"
      unfolding vmas_ok_def vma_apart_def by metis
    then show ?thesis by linarith
  qed (simp add: i)
qed

lemma gap_end_spec:
  assumes ok: "vmas_ok vs" and k: "k < length vs" "kv_present (vs ! k)"
  defines "v \<equiv> vs ! k"
  shows "vma_end v \<le> unat (gap_end vs k v) \<and> 0 < unat (gap_end vs k v) \<and>
    (vma_end v + len < unat (gap_end vs k v) \<longleftrightarrow> gap_after vs (vma_end v) len)"
proof -
  have vok: "vma_ok v" and vend: "unat (kv_virt_addr v + kv_length v) = vma_end v"
    using vmas_okD [OF ok k(1)] vma_end_word k(2) by (simp_all add: v_def)
  then have bound: "0 < vma_end v" "vma_end v \<le> 0x40000000" "vma_start v < vma_end v"
    using k(2) by (auto simp: vma_ok_def v_def)
  note apart = vmas_ok_apart [OF ok k, folded v_def]
  note near = nearest_vma_spec [of "ucast (kv_virt_addr v + kv_length v)" k vs]
  show ?thesis
  proof (cases "nearest_vma k (ucast (kv_virt_addr v + kv_length v)) 0 vs None")
    case None
    have "vma_end w \<le> vma_end v" if w: "w \<in> set vs" "kv_present w" for w
    proof -
      have "vma_start w < vma_end v"
        using others_mem [OF w(1), of k, folded v_def] near None w(2) bound(3)
        by (auto simp: nearest_ok_def word_less_nat_alt vend)
      with apart [OF w] show ?thesis by linarith
    qed
    with None bound show ?thesis by (auto simp: gap_after_def)
  next
    case (Some n)
    from near Some obtain i where i: "i < length vs" "n = vs ! i" "kv_present n" "vma_end v \<le> vma_start n"
      by (auto simp: nearest_ok_def others_iff word_le_nat_alt vend)
    have n: "vma_start n < vma_end n" "vma_end n \<le> 0x40000000" "n \<in> set vs"
      using vmas_okD [OF ok i(1)] i by (auto simp: vma_ok_def)
    have least: "vma_start n \<le> vma_start w" if "w \<in> set vs" "kv_present w" "vma_end v \<le> vma_start w" for w
      using others_mem [OF that(1), of k, folded v_def] near Some that(2,3) bound(3)
      by (auto simp: nearest_ok_def word_le_nat_alt vend)
    have "vma_end v + len < vma_start n \<longleftrightarrow> gap_after vs (vma_end v) len"
    proof
      assume lt: "vma_end v + len < vma_start n"
      have "vma_end w \<le> vma_end v \<or> vma_end v + len < vma_start w" if "w \<in> set vs" "kv_present w" for w
        using apart [OF that] least [OF that] lt by linarith
      with lt n show "gap_after vs (vma_end v) len" by (auto simp: gap_after_def)
    next
      assume "gap_after vs (vma_end v) len"
      with n(3) i(3) have "vma_end n \<le> vma_end v \<or> vma_end v + len < vma_start n" unfolding gap_after_def by blast
      with n i show "vma_end v + len < vma_start n" by linarith
    qed
    with Some i bound show ?thesis by simp
  qed
qed

text \<open>The search never fails, and it finds the first gap that follows an area.\<close>

lemma search_free_loop_spec:
  assumes ok: "vmas_ok all" and "all = pre @ vs" "idx = length pre"
  shows "search_free_loop all len idx vs =
    Some (case find (\<lambda>v. kv_present v \<and> gap_after all (vma_end v) (unat len)) vs of
      None \<Rightarrow> 0 | Some v \<Rightarrow> kv_virt_addr v + kv_length v)"
  using assms(2,3)
proof (induction vs arbitrary: pre idx)
  case (Cons v vs)
  have IH: "search_free_loop all len (Suc idx) vs =
      Some (case find (\<lambda>v. kv_present v \<and> gap_after all (vma_end v) (unat len)) vs of
        None \<Rightarrow> 0 | Some v \<Rightarrow> kv_virt_addr v + kv_length v)"
    using Cons.IH [of "pre @ [v]" "Suc idx"] Cons.prems by simp
  show ?case
  proof (cases "kv_present v")
    case True
    have v: "all ! idx = v" "idx < length all" using Cons.prems by simp_all
    define e where "e = gap_end all idx v"
    have e: "vma_end v \<le> unat e" "0 < unat e" "vma_end v + unat len < unat e \<longleftrightarrow> gap_after all (vma_end v) (unat len)"
      using gap_end_spec [OF ok v(2), of "unat len"] True v(1) by (simp_all add: e_def)
    have "unat (kv_virt_addr v + kv_length v) = vma_end v"
      using vma_end_word vmas_okD [OF ok v(2)] v(1) True by simp
    then have "e - ucast (kv_virt_addr v + kv_length v) > ucast len \<longleftrightarrow> vma_end v + unat len < unat e"
      using e(1) by (auto simp: word_less_nat_alt unat_sub word_le_nat_alt)
    with True IH e show ?thesis
      by (auto simp: e_def [symmetric] Let_def kassert_def unat_gt_0 simp del: search_free_loop.simps(1))
  qed (use IH in simp)
qed simp

subsection \<open>Registering keeps the table well formed\<close>

lemma vmas_ok_update:
  assumes ok: "vmas_ok vs" and k: "k < length vs" and new: "vma_ok new"
    and apart: "\<And>v. v \<in> set vs \<Longrightarrow> kv_present v \<Longrightarrow> vma_apart v new"
  shows "vmas_ok (vs[k := new])"
proof -
  have "vma_apart new v" if "v \<in> set vs" for v
    using apart [OF that] by (auto simp: vma_apart_def)
  moreover have "vma_apart v new" if "v \<in> set vs" for v
    using apart [OF that] by (auto simp: vma_apart_def)
  ultimately have "vma_apart (vs[k := new] ! i) (vs[k := new] ! j)"
    if "i < length vs" "j < length vs" "i \<noteq> j" for i j
    using ok that k by (cases "i = k"; cases "j = k") (auto simp: vmas_ok_def)
  then show ?thesis
    using ok new set_update_subset_insert [of vs k new] by (auto simp: vmas_ok_def)
qed

text \<open>What a slot holds after an area has been registered in it. The premap bit of the request
  is not among the fields.\<close>

definition slot_for :: "kernel_vma \<Rightarrow> kernel_vma \<Rightarrow> bool" where
  "slot_for vma v \<longleftrightarrow> kv_present v \<and> kv_exact v = kv_exact vma \<and>
     kv_write_permission v = kv_write_permission vma \<and> kv_page_writethrough v = kv_page_writethrough vma \<and>
     kv_page_cachedisable v = kv_page_cachedisable vma \<and> kv_virt_addr v = kv_virt_addr vma \<and>
     kv_phy_addr v = kv_phy_addr vma \<and> kv_length v = kv_length vma \<and> \<not> kv_premap v"

lemma register_kernel_vma_spec:
  assumes ok: "vmas_ok vs" and name: "length (kv_name vma) = 64 \<or> terminated (kv_name vma)"
    and free: "\<exists>v\<in>set vs. \<not> kv_present v"
    and range: "0 < unat (kv_length vma)" "vma_end vma \<le> 0x40000000"
    and apart: "\<And>v. v \<in> set vs \<Longrightarrow> kv_present v \<Longrightarrow> vma_end v \<le> vma_start vma \<or> vma_end vma \<le> vma_start v"
  obtains k new where "k < length vs" "\<not> kv_present (vs ! k)" "slot_for vma new"
    "register_kernel_vma l vma vs s = Some (OK, vs[k := new], s)" "vmas_ok (vs[k := new])"
proof -
  have "register_scan vma (- 1) 0 vs \<noteq> None"
  proof
    assume "register_scan vma (- 1) 0 vs = None"
    then obtain v where v: "v \<in> set vs" "kv_present v" "kv_virt_addr v \<le> kv_virt_addr vma"
        "kv_virt_addr vma < kv_virt_addr v + kv_length v" by (rule register_scan_None)
    have "unat (kv_virt_addr v + kv_length v) = vma_end v"
      using vma_end_word v ok by (simp add: vmas_ok_def)
    with v(3,4) apart [OF v(1,2)] range(1) show False by (simp add: word_le_nat_alt word_less_nat_alt)
  qed
  then obtain t where scan: "register_scan vma (- 1) 0 vs = Some t" by blast
  from register_scan_index [OF scan] free obtain k where k: "k < length vs" "t = int k" "\<not> kv_present (vs ! k)" by auto
  have slot: "vma_ok (vs ! k)" using vmas_okD [OF ok k(1)] .
  then obtain nm where nm: "strcpy_safe (kv_name (vs ! k)) (kv_name vma) KERNEL_VMA_NAME_SIZE = Some nm" "length nm = 64"
    using strcpy_safe_returns [of "kv_name vma" KERNEL_VMA_NAME_SIZE "kv_name (vs ! k)"] name
    by (auto simp: vma_ok_def)
  define new where "new = (vs ! k)\<lparr>kv_name := nm, kv_present := True, kv_exact := kv_exact vma,
                  kv_write_permission := kv_write_permission vma, kv_page_writethrough := kv_page_writethrough vma,
                  kv_page_cachedisable := kv_page_cachedisable vma, kv_virt_addr := kv_virt_addr vma,
                  kv_phy_addr := kv_phy_addr vma, kv_length := kv_length vma\<rparr>"
  have new: "slot_for vma new" "vma_ok new"
    using slot nm(2) range by (simp_all add: new_def slot_for_def vma_ok_def)
  have "vmas_ok (vs[k := new])"
    using vmas_ok_update [OF ok k(1) new(2)] apart new(1) by (auto simp: slot_for_def vma_apart_def)
  moreover have "register_kernel_vma l vma vs s = Some (OK, vs[k := new], s)"
    using scan k nm new(1) slot by (simp add: register_kernel_vma_def vma_ok_def Let_def new_def)
  ultimately show ?thesis using that k new(1) by blast
qed

subsection \<open>Claims\<close>

lemma search_free_spec:
  assumes "vmas_ok vs"
  shows "search_free_kernel_virtual_address vs len =
    Some (case find (\<lambda>v. kv_present v \<and> gap_after vs (vma_end v) (unat (page_round_addr len))) vs of
      None \<Rightarrow> 0 | Some v \<Rightarrow> kv_virt_addr v + kv_length v)"
proof -
  have "search_free_kernel_virtual_address vs len = search_free_loop vs (page_round_addr len) 0 vs"
    by (simp add: search_free_kernel_virtual_address_def page_round_addr_def add.commute)
  with search_free_loop_spec [OF assms, of "[]" vs 0] show ?thesis by simp
qed

text \<open>C11. kernel_map_vma on a well-formed table with an unused slot always returns. When it
  returns 0 the table is unchanged and no area is followed by a gap of the requested length
  rounded up to pages. Otherwise the returned range lies below the user space and outside every
  registered area, one unused slot now describes it, and the table is still well formed. In
  neither case is a page mapped, not even with premap set: register_kernel_vma tests the premap
  bit of the slot, which nothing sets.\<close>

theorem kernel_map_vma_correct:
  assumes ok: "vmas_ok vs" and free: "\<exists>v\<in>set vs. \<not> kv_present v" and name: "terminated vma_name"
    and len: "0 < len" "unat len \<le> 2 ^ 32 - 4096"
  shows "\<exists>r vs'. kernel_map_vma l vma_name exact premap phy len wp wt cd vs s = Some (r, vs', s) \<and> vmas_ok vs' \<and>
    (if r = 0 then vs' = vs \<and> (\<forall>v\<in>set vs. kv_present v \<longrightarrow> \<not> gap_after vs (vma_end v) (unat (page_round_addr len)))
     else gap_after vs (unat r) (unat len) \<and>
       (\<exists>k new. k < length vs \<and> \<not> kv_present (vs ! k) \<and> vs' = vs[k := new] \<and> kv_present new \<and>
          kv_virt_addr new = r \<and> kv_length new = len \<and> kv_phy_addr new = phy \<and> kv_write_permission new = wp AND 1))"
proof (cases "find (\<lambda>v. kv_present v \<and> gap_after vs (vma_end v) (unat (page_round_addr len))) vs")
  case None
  then have "kernel_map_vma l vma_name exact premap phy len wp wt cd vs s = Some (0, vs, s)"
    using search_free_spec [OF ok, of len] by (simp add: kernel_map_vma_def)
  with ok None show ?thesis by (auto simp: find_None_iff)
next
  case (Some v)
  then have v: "v \<in> set vs" "kv_present v" "gap_after vs (vma_end v) (unat (page_round_addr len))"
    by (auto simp: find_Some_iff)
  define r where "r = kv_virt_addr v + kv_length v"
  have r: "unat r = vma_end v" "0 < unat r"
    using vma_end_word v ok by (auto simp: r_def vmas_ok_def vma_ok_def)
  have gap: "gap_after vs (unat r) (unat len)"
    using v(3) page_round_ge [OF len(2)] r by (auto simp: gap_after_def word_le_nat_alt)
  obtain nm where nm: "strcpy_safe (replicate 64 0) vma_name KERNEL_VMA_NAME_SIZE = Some nm" "length nm = 64"
    using strcpy_safe_returns [of vma_name KERNEL_VMA_NAME_SIZE "replicate 64 0"] name by auto
  define vma where "vma = zero_vma\<lparr>kv_name := nm, kv_exact := True, kv_write_permission := wp AND 1,
             kv_page_writethrough := wt AND 1, kv_page_cachedisable := cd AND 1,
             kv_premap := bit premap 0, kv_virt_addr := r, kv_phy_addr := phy, kv_length := len\<rparr>"
  obtain k new where k: "k < length vs" "\<not> kv_present (vs ! k)" "slot_for vma new"
    "register_kernel_vma l vma vs s = Some (OK, vs[k := new], s)" "vmas_ok (vs[k := new])"
  proof (rule register_kernel_vma_spec [OF ok _ free, of vma l s])
    show "vma_end w \<le> vma_start vma \<or> vma_end vma \<le> vma_start w" if "w \<in> set vs" "kv_present w" for w
      using gap that by (auto simp: vma_def gap_after_def)
  qed (use gap nm len in \<open>auto simp: vma_def gap_after_def word_less_nat_alt\<close>)
  have "kernel_map_vma l vma_name exact premap phy len wp wt cd vs s = Some (r, vs[k := new], s)"
    using search_free_spec [OF ok, of len] Some r(2) nm(1) k(4)
    by (auto simp: kernel_map_vma_def r_def [symmetric] vma_def [symmetric] Let_def)
  with r k gap show ?thesis by (auto simp: slot_for_def vma_def intro!: exI [of _ k] exI [of _ new])
qed

subsection \<open>Initialisation\<close>

definition vma_areas :: "kernel_vma list \<Rightarrow> (nat \<times> nat) set" where
  "vma_areas vs = (\<lambda>v. (vma_start v, vma_end v)) ` {v \<in> set vs. kv_present v}"

definition free_slots :: "kernel_vma list \<Rightarrow> nat" where
  "free_slots vs = length (filter (\<lambda>v. \<not> kv_present v) vs)"

lemma slots_update:
  assumes "k < length vs" "\<not> kv_present (vs ! k)" "kv_present new"
  shows "vma_areas (vs[k := new]) = insert (vma_start new, vma_end new) (vma_areas vs)"
    "Suc (free_slots (vs[k := new])) = free_slots vs"
proof -
  obtain xs v ys where vs: "vs = xs @ v # ys" "length xs = k" "vs ! k = v"
    using id_take_nth_drop [OF assms(1)] assms(1) by (metis length_take min.absorb4)
  then have upd: "vs[k := new] = xs @ new # ys" by (auto simp: list_update_append)
  have "vma_areas (xs @ new # ys) = insert (vma_start new, vma_end new) (vma_areas (xs @ v # ys))"
    using assms(2,3) vs(3) by (auto simp: vma_areas_def)
  then show "vma_areas (vs[k := new]) = insert (vma_start new, vma_end new) (vma_areas vs)"
    unfolding upd using vs(1) by simp
  show "Suc (free_slots (vs[k := new])) = free_slots vs"
    unfolding upd using assms(2,3) vs(1,3) by (simp add: free_slots_def)
qed

lemma zero_table:
  "vmas_ok (replicate n zero_vma)" "vma_areas (replicate n zero_vma) = {}" "free_slots (replicate n zero_vma) = n"
  by (simp_all add: vmas_ok_def vma_ok_def vma_apart_def vma_areas_def free_slots_def zero_vma_def)

lemma initial_vma_step:
  assumes "length junk = 64" "terminated name" and ok: "vmas_ok vs" and free: "0 < free_slots vs"
    and range: "0 < unat len" "unat virt + unat len \<le> 0x40000000"
    and apart: "\<And>a b. (a, b) \<in> vma_areas vs \<Longrightarrow> b \<le> unat virt \<or> unat virt + unat len \<le> a"
  obtains v vs' where "initial_vma junk name exact virt phy len = Some v" "length (kv_name v) = 64"
    "register_ok l v (vs, s) = Some (vs', s)" "vmas_ok vs'"
    "vma_areas vs' = insert (unat virt, unat virt + unat len) (vma_areas vs)" "Suc (free_slots vs') = free_slots vs"
    "length vs' = length vs"
proof -
  obtain nm where nm: "length nm = 64" "strcpy_safe junk name KERNEL_VMA_NAME_SIZE = Some nm"
    using strcpy_safe_returns [of name KERNEL_VMA_NAME_SIZE junk] assms by auto
  define v where "v = \<lparr>kv_name = nm, kv_present = False, kv_exact = exact,
       kv_write_permission = PAGE_PERMISSION_READ_WRITE, kv_page_writethrough = PAGE_WRITEBACK,
       kv_page_cachedisable = PAGE_CACHE_ENABLED, kv_premap = False, kv_virt_addr = virt, kv_phy_addr = phy,
       kv_length = len\<rparr>"
  have free': "\<exists>v\<in>set vs. \<not> kv_present v"
    using free by (auto simp: free_slots_def filter_empty_conv)
  have apart': "vma_end w \<le> vma_start v \<or> vma_end v \<le> vma_start w" if "w \<in> set vs" "kv_present w" for w
    using apart [of "vma_start w" "vma_end w"] that by (auto simp: vma_areas_def v_def)
  obtain k new where k: "k < length vs" "\<not> kv_present (vs ! k)" "slot_for v new"
    "register_kernel_vma l v vs s = Some (OK, vs[k := new], s)" "vmas_ok (vs[k := new])"
    by (rule register_kernel_vma_spec [OF ok _ free' _ _ apart', of l s]) (use nm range in \<open>auto simp: v_def\<close>)
  show ?thesis
  proof (rule that [of v "vs[k := new]"])
    show "initial_vma junk name exact virt phy len = Some v" using nm by (simp add: initial_vma_def v_def)
    show "register_ok l v (vs, s) = Some (vs[k := new], s)" using k by (simp add: register_ok_def)
    show "vma_areas (vs[k := new]) = insert (unat virt, unat virt + unat len) (vma_areas vs)"
      "Suc (free_slots (vs[k := new])) = free_slots vs"
      using slots_update [OF k(1,2), of new] k(3) by (simp_all add: slot_for_def v_def)
  qed (use k nm in \<open>auto simp: v_def\<close>)
qed

text \<open>C12. kernel_vma_init succeeds for every kernel image that ends between 1 MB and the page
  inventory: none of its four registrations fails, no page is mapped, and the resulting table is
  well formed and describes exactly the low megabyte, the kernel image, the page inventory and
  the kernel heap.\<close>

theorem kernel_vma_init_correct:
  assumes bss: "0x100000 < unat (kernel_bss_end l)" "unat (kernel_bss_end l) \<le> 0x4000000" and junk: "length junk = 64"
  shows "\<exists>vs. kernel_vma_init l junk s = Some (vs, s) \<and> vmas_ok vs \<and> length vs = 1024 \<and>
    vma_areas vs = {(0, 0x100000), (0x100000, unat (get_system_memory_start l)),
      (0x4000000, 0x8000000), (0x8000000, 0x1F000000)}"
proof -
  define m where "m = get_system_memory_start l"
  have le: "kernel_bss_end l \<le> m" and "unat m < 0x4000000 + 4096"
    using page_round_ge [of "kernel_bss_end l"] bss by (simp_all add: m_def get_system_memory_start_def)
  moreover obtain j where "unat m = 4096 * j"
    using page_round_aligned by (auto simp: m_def get_system_memory_start_def page_aligned_dvd)
  ultimately have "0x100000 < unat m" "unat m \<le> 0x4000000"
    using bss by (auto simp: word_le_nat_alt)
  then have m: "unat (m - 0x100000) = unat m - 0x100000" "0x100000 < unat m" "unat m \<le> 0x4000000"
    by (simp_all add: unat_sub word_le_nat_alt)
  define vs where "vs = replicate KERNEL_VMA_ARRAY_LENGTH zero_vma"
  note 0 = zero_table [of KERNEL_VMA_ARRAY_LENGTH, folded vs_def]
  obtain v1 vs1 where 1: "initial_vma junk (c_lit ''Low1MB'') True 0 0 0x100000 = Some v1" "length (kv_name v1) = 64"
      "register_ok l v1 (vs, s) = Some (vs1, s)" "vmas_ok vs1" "vma_areas vs1 = {(0, 0x100000)}"
      "Suc (free_slots vs1) = 1024" "length vs1 = 1024"
    by (rule initial_vma_step [OF junk terminated_c_lit 0(1), where virt = 0 and phy = 0 and len = "0x100000"])
      (use 0 in \<open>auto simp: vs_def\<close>)
  obtain v2 vs2 where 2: "initial_vma (kv_name v1) (c_lit ''KernelImage'') True 0x100000 0x100000 (m - 0x100000) = Some v2"
      "length (kv_name v2) = 64" "register_ok l v2 (vs1, s) = Some (vs2, s)" "vmas_ok vs2"
      "vma_areas vs2 = {(0, 0x100000), (0x100000, unat m)}" "Suc (Suc (free_slots vs2)) = 1024" "length vs2 = 1024"
    by (rule initial_vma_step [OF 1(2) terminated_c_lit 1(4), where virt = "0x100000" and phy = "0x100000" and len = "m - 0x100000"])
      (use 1(5-7) m in auto)
  obtain v3 vs3 where 3: "initial_vma (kv_name v2) (c_lit ''PageInventory'') True PAGE_SPACE_BOTTOM PAGE_SPACE_BOTTOM
        (PAGE_SPACE_TOP - PAGE_SPACE_BOTTOM) = Some v3"
      "length (kv_name v3) = 64" "register_ok l v3 (vs2, s) = Some (vs3, s)" "vmas_ok vs3"
      "vma_areas vs3 = {(0, 0x100000), (0x100000, unat m), (0x4000000, 0x8000000)}"
      "Suc (Suc (Suc (free_slots vs3))) = 1024" "length vs3 = 1024"
    by (rule initial_vma_step [OF 2(2) terminated_c_lit 2(4), where virt = PAGE_SPACE_BOTTOM and phy = PAGE_SPACE_BOTTOM
        and len = "PAGE_SPACE_TOP - PAGE_SPACE_BOTTOM"]) (use 2(5-7) m in auto)
  obtain v4 vs4 where 4: "initial_vma (kv_name v3) (c_lit ''KernelHeap'') False KERNEL_HEAP_BOTTOM 0
        (KERNEL_HEAP_TOP - KERNEL_HEAP_BOTTOM) = Some v4"
      "register_ok l v4 (vs3, s) = Some (vs4, s)" "vmas_ok vs4"
      "vma_areas vs4 = {(0, 0x100000), (0x100000, unat m), (0x4000000, 0x8000000), (0x8000000, 0x1F000000)}"
      "length vs4 = 1024"
    by (rule initial_vma_step [OF 3(2) terminated_c_lit 3(4), where virt = KERNEL_HEAP_BOTTOM and phy = 0
        and len = "KERNEL_HEAP_TOP - KERNEL_HEAP_BOTTOM"]) (use 3(5-7) m in auto)
  have "kernel_vma_init l junk s = Some (vs4, s)"
    unfolding kernel_vma_init_def Let_def m_def [symmetric] vs_def [symmetric]
    using 1(1,3) 2(1,3) 3(1,3) 4(1,2) by simp
  with 4 show ?thesis by (simp add: m_def)
qed

theorem kernel_vma_init_correct_witness:
  "\<forall>s0. \<exists>vs. kernel_vma_init \<lparr>kernel_text_start = 0x100000, kernel_text_end = 0x12f010, kernel_data_start = 0x130000, kernel_data_end = 0x180010,
      kernel_bss_start = 0x181000, kernel_bss_end = 0x200010\<rparr>
      (replicate 64 7) s0 = Some (vs, s0) \<and> vmas_ok vs \<and> length vs = 1024 \<and>
    vma_areas vs = {(0, 0x100000), (0x100000, unat (get_system_memory_start
      \<lparr>kernel_text_start = 0x100000, kernel_text_end = 0x12f010, kernel_data_start = 0x130000, kernel_data_end = 0x180010,
      kernel_bss_start = 0x181000, kernel_bss_end = 0x200010\<rparr>)),
      (0x4000000, 0x8000000), (0x8000000, 0x1F000000)}"
  by (intro allI kernel_vma_init_correct) simp_all

theorem kernel_map_vma_correct_witness:
  defines "vs \<equiv> [zero_vma\<lparr>kv_present := True, kv_length := 0x1000\<rparr>, zero_vma]"
  shows "vmas_ok vs \<and> (\<forall>l s. \<exists>r vs'. kernel_map_vma l [65, 0] 1 1 0 0x2000 1 0 0 vs s = Some (r, vs', s) \<and> vmas_ok vs' \<and>
    (if r = 0 then vs' = vs \<and> (\<forall>v\<in>set vs. kv_present v \<longrightarrow> \<not> gap_after vs (vma_end v) (unat (page_round_addr 0x2000)))
     else gap_after vs (unat r) (unat (0x2000 :: u32)) \<and>
       (\<exists>k new. k < length vs \<and> \<not> kv_present (vs ! k) \<and> vs' = vs[k := new] \<and> kv_present new \<and>
          kv_virt_addr new = r \<and> kv_length new = 0x2000 \<and> kv_phy_addr new = 0 \<and> kv_write_permission new = 1 AND 1)))"
proof -
  have "vmas_ok vs"
    by (auto simp: vs_def vmas_ok_def vma_ok_def vma_apart_def zero_vma_def less_Suc_eq)
  moreover have "\<exists>v\<in>set vs. \<not> kv_present v" by (simp add: vs_def zero_vma_def)
  ultimately show ?thesis
    using kernel_map_vma_correct [of vs "[65, 0]" "0x2000"] by (simp add: terminated_def)
qed

text \<open>The overlap test of register_kernel_vma only asks whether the new area starts inside
  a registered one. An area that starts below a registered one and covers it is accepted, and
  the table then describes overlapping areas.\<close>

lemma register_kernel_vma_accepts_overlap:
  "\<exists>vs vma vs'. vmas_ok vs \<and> (\<exists>v\<in>set vs. kv_present v \<and> vma_start vma < vma_start v \<and> vma_end v < vma_end vma) \<and>
     (\<forall>l s. register_kernel_vma l vma vs s = Some (OK, vs', s)) \<and> \<not> vmas_ok vs'"
proof -
  define v where "v = zero_vma\<lparr>kv_present := True, kv_virt_addr := 0x2000, kv_length := 0x1000\<rparr>"
  define vma where "vma = zero_vma\<lparr>kv_virt_addr := 0x1000, kv_length := 0x3000\<rparr>"
  define new where "new = vma\<lparr>kv_present := True\<rparr>"
  have "strcpy_safe (replicate 64 0) (replicate 64 0) 64 = Some (replicate 64 0)"
    by (subst strcpy_safe.simps) (simp add: numeral_eq_Suc)
  then have "\<forall>l s. register_kernel_vma l vma [v, zero_vma] s = Some (OK, [v, new], s)"
    by (simp add: register_kernel_vma_def v_def vma_def new_def zero_vma_def Let_def)
  moreover have "vmas_ok [v, zero_vma]"
    by (auto simp: vmas_ok_def vma_ok_def vma_apart_def v_def zero_vma_def less_Suc_eq)
  moreover have "\<not> vma_apart ([v, new] ! 0) ([v, new] ! 1)"
    by (simp add: vma_apart_def v_def new_def vma_def zero_vma_def)
  then have "\<not> vmas_ok [v, new]" by (force simp: vmas_ok_def)
  moreover have "kv_present v \<and> vma_start vma < vma_start v \<and> vma_end v < vma_end vma"
    by (simp add: v_def vma_def zero_vma_def)
  ultimately show ?thesis by (intro exI [of _ "[v, zero_vma]"] exI [of _ vma] exI [of _ "[v, new]"]) auto
qed

end
