(* ===== verification/Vfs_Path.thy ===== *)
theory Vfs_Path
  imports C_String
begin

section \<open>Path names and mount points (\<^verbatim>\<open>filesystem/vfs.c\<close>)\<close>

text \<open>
  Path names are byte buffers. \<^verbatim>\<open>canonicalize_path_name\<close> collapses repeated slashes and
  resolves \<^verbatim>\<open>.\<close> and \<^verbatim>\<open>..\<close>; its 16-bit counters stay between \<open>- 1\<close> and 256 and are
  integers here. Every access outside a buffer is the value \<open>None\<close>. The table of mount entries is a list;
  a pointer to an entry is its index, \<open>- 1\<close> the null pointer.
\<close>

abbreviation (input) MAX_PATH :: int where "MAX_PATH \<equiv> 256"
abbreviation (input) MOUNT_ENTRY_SIZE :: nat where "MOUNT_ENTRY_SIZE \<equiv> 256"
abbreviation (input) SLASH :: u8 where "SLASH \<equiv> 47"
abbreviation (input) DOT :: u8 where "DOT \<equiv> 46"
abbreviation (input) BLANK :: u8 where "BLANK \<equiv> 32"

lemma byte_constants [simp]: "SLASH \<noteq> 0" "SLASH \<noteq> BLANK" "SLASH \<noteq> DOT" "DOT \<noteq> 0" "DOT \<noteq> BLANK" "BLANK \<noteq> 0"
  by simp_all

subsection \<open>Canonical names\<close>

text \<open>The body of the first loop after a separator has been found at \<open>idx\<close>.\<close>

definition canonicalize_word ::
    "u8 list \<Rightarrow> int \<Rightarrow> u8 \<Rightarrow> int \<Rightarrow> int \<Rightarrow> int list \<Rightarrow> (int \<times> int \<times> int list) option" where
  "canonicalize_word src idx c word_start index_ptr index_stack = do {
     let word_len = idx - word_start;
     if word_len = 1 then
       (if c = 0 \<and> index_ptr = 0
        then do { st \<leftarrow> arr_set index_stack index_ptr word_start; Some (word_start, index_ptr + 1, st) }
        else Some (idx, index_ptr, index_stack))
     else do {
       p1 \<leftarrow> arr_get src (idx - 1);
       p2 \<leftarrow> arr_get src (idx - 2);
       if word_len = 2 \<and> p1 = DOT then Some (idx, index_ptr, index_stack)
       else if word_len = 3 \<and> p1 = DOT \<and> p2 = DOT
       then Some (idx, (if index_ptr \<noteq> 0 then index_ptr - 1 else 0), index_stack)
       else do { st \<leftarrow> arr_set index_stack index_ptr word_start; Some (idx, index_ptr + 1, st) } } }"

text \<open>The first loop. \<open>Inl\<close> is a return with an error code, \<open>Inr\<close> leaves the loop.\<close>

function canonicalize_scan :: "u8 list \<Rightarrow> int \<Rightarrow> int \<Rightarrow> int \<Rightarrow> int list \<Rightarrow> (int + int \<times> int list) option" where
  "canonicalize_scan src idx word_start index_ptr index_stack =
     (if idx < MAX_PATH then
        (case arr_get src idx of
           None \<Rightarrow> None
         | Some c \<Rightarrow>
             if c = BLANK then Some (Inl (- ERR_INVALID_ARG))
             else if c \<noteq> SLASH \<and> c \<noteq> 0 then canonicalize_scan src (idx + 1) word_start index_ptr index_stack
             else if word_start = - 1 \<and> c \<noteq> 0 then canonicalize_scan src (idx + 1) idx index_ptr index_stack
             else if word_start = - 1 \<and> c = 0 then Some (Inr (index_ptr, index_stack))
             else
               (case canonicalize_word src idx c word_start index_ptr index_stack of
                  None \<Rightarrow> None
                | Some (word_start, index_ptr, index_stack) \<Rightarrow>
                    if c = 0 then Some (Inr (index_ptr, index_stack))
                    else canonicalize_scan src (idx + 1) word_start index_ptr index_stack))
      else Some (Inr (index_ptr, index_stack)))"
  by pat_completeness auto
termination by (relation "measure (\<lambda>(_, idx, _). nat (MAX_PATH - idx))") auto

text \<open>The second loop: where a word ends, the copying of a word, and the loop over the words.\<close>

function canonicalize_word_end :: "u8 list \<Rightarrow> int \<Rightarrow> int option" where
  "canonicalize_word_end src idx1 =
     (if idx1 < MAX_PATH then
        (case arr_get src idx1 of
           None \<Rightarrow> None
         | Some c \<Rightarrow> if c = SLASH then Some idx1 else if c = 0 then Some (idx1 + 1)
             else canonicalize_word_end src (idx1 + 1))
      else Some 0)"
  by pat_completeness auto
termination by (relation "measure (\<lambda>(_, idx). nat (MAX_PATH - idx))") auto

function canonicalize_copy :: "u8 list \<Rightarrow> u8 list \<Rightarrow> int \<Rightarrow> int \<Rightarrow> int \<Rightarrow> (u8 list \<times> int) option" where
  "canonicalize_copy dst src idx1 word_end iptr =
     (if idx1 < word_end then
        (case arr_get src idx1 of
           None \<Rightarrow> None
         | Some c \<Rightarrow>
             (case arr_set dst iptr c of
                None \<Rightarrow> None
              | Some dst \<Rightarrow> canonicalize_copy dst src (idx1 + 1) word_end (iptr + 1)))
      else Some (dst, iptr))"
  by pat_completeness auto
termination by (relation "measure (\<lambda>(_, _, idx1, word_end, _). nat (word_end - idx1))") auto

declare canonicalize_scan.simps [simp del] canonicalize_word_end.simps [simp del] canonicalize_copy.simps [simp del]

primrec canonicalize_reform :: "u8 list \<Rightarrow> int list \<Rightarrow> u8 list \<Rightarrow> int \<Rightarrow> (u8 list \<times> int) option" where
  "canonicalize_reform src [] dst iptr = Some (dst, iptr)"
| "canonicalize_reform src (word_start # ws) dst iptr = do {
     word_end \<leftarrow> canonicalize_word_end src (word_start + 1);
     (dst, iptr) \<leftarrow> canonicalize_copy dst src word_start word_end iptr;
     canonicalize_reform src ws dst iptr }"

definition canonicalize_path_name :: "u8 list \<Rightarrow> u8 list \<Rightarrow> (int \<times> u8 list) option" where
  "canonicalize_path_name dst src = do {
     r \<leftarrow> canonicalize_scan src 0 (- 1) 0 (replicate 256 0);
     case r of
       Inl ret \<Rightarrow> Some (ret, dst)
     | Inr (index_ptr, index_stack) \<Rightarrow> do {
         (dst, iptr) \<leftarrow> canonicalize_reform src (take (nat index_ptr) index_stack) dst 0;
         dst \<leftarrow> arr_set dst iptr 0;
         Some (OK, dst) } }"

subsection \<open>Splitting\<close>

text \<open>\<^verbatim>\<open>split_path\<close> cuts the path at its slashes in place and stores pointers to the pieces, here
  offsets into the path, in an array of \<^verbatim>\<open>MAX_PATH\<close> pointers.\<close>

function split_word_end :: "u8 list \<Rightarrow> int \<Rightarrow> int option" where
  "split_word_end path ptr_end =
     (case arr_get path ptr_end of
        None \<Rightarrow> None
      | Some c \<Rightarrow> if c \<noteq> 0 \<and> c \<noteq> SLASH then split_word_end path (ptr_end + 1) else Some ptr_end)"
  by pat_completeness auto
termination
  by (relation "measure (\<lambda>(path, i). nat (int (length path) - i))") (auto simp: arr_get_def split: if_splits)

declare split_word_end.simps [simp del]

partial_function (option) split_path_loop :: "u8 list \<Rightarrow> int \<Rightarrow> int list \<Rightarrow> (u8 list \<times> int list) option" where
  "split_path_loop path ptr arr =
     (case arr_get path ptr of
        None \<Rightarrow> None
      | Some c \<Rightarrow>
          if c = 0 then Some (path, arr)
          else
            (case split_word_end path ptr of
               None \<Rightarrow> None
             | Some ptr_end \<Rightarrow>
                 if ptr_end - ptr = 0 then
                   (if path ! nat ptr_end = SLASH then split_path_loop path (ptr + 1) arr else None)
                 else if int (length arr) \<ge> MAX_PATH then None
                 else if path ! nat ptr_end = 0 then Some (path, arr @ [ptr])
                 else split_path_loop (path[nat ptr_end := 0]) (ptr_end + 1) (arr @ [ptr])))"

definition split_path :: "u8 list \<Rightarrow> (u8 list \<times> int list) option" where
  "split_path path = split_path_loop path 0 []"

text \<open>The strings that the array of pointers denotes.\<close>

definition split_pieces :: "u8 list \<times> int list \<Rightarrow> u8 list list" where
  "split_pieces = (\<lambda>(path, arr). map (\<lambda>ptr. drop (nat ptr) path) arr)"

subsection \<open>Mount entries\<close>

record mount_entry =
  mount_point :: "u8 list"
  me_fs :: addr
  me_valid :: bool

definition zero_mount_entry :: mount_entry where
  "zero_mount_entry = \<lparr>mount_point = replicate 256 0, me_fs = NULL, me_valid = False\<rparr>"

definition vfs_pre_init :: "mount_entry list" where
  "vfs_pre_init = replicate MOUNT_ENTRY_SIZE zero_mount_entry"

text \<open>The length of a mount point; without a terminator the degree keeps its old value.\<close>

definition mount_degree :: "u8 list \<Rightarrow> int \<Rightarrow> int" where
  "mount_degree mp degree_tmp = (if terminated mp then int (length (cstr mp)) else degree_tmp)"

fun search_mount_loop :: "u8 list \<Rightarrow> int \<Rightarrow> mount_entry list \<Rightarrow> int \<Rightarrow> int \<Rightarrow> int \<Rightarrow> int option" where
  "search_mount_loop c_name idx [] best_fit_index best_fit_degree degree_tmp = Some best_fit_index"
| "search_mount_loop c_name idx (e # es) best_fit_index best_fit_degree degree_tmp =
     (if \<not> me_valid e then search_mount_loop c_name (idx + 1) es best_fit_index best_fit_degree degree_tmp
      else do {
        r \<leftarrow> start_with c_name (mount_point e);
        if r = 0 then
          (let degree_tmp = mount_degree (mount_point e) degree_tmp
           in if best_fit_index = - 1 \<or> best_fit_degree < degree_tmp
              then search_mount_loop c_name (idx + 1) es idx degree_tmp degree_tmp
              else search_mount_loop c_name (idx + 1) es best_fit_index best_fit_degree degree_tmp)
        else search_mount_loop c_name (idx + 1) es best_fit_index best_fit_degree degree_tmp })"

definition search_mount_entry :: "mount_entry list \<Rightarrow> u8 list \<Rightarrow> int option" where
  "search_mount_entry mount_entries path = do {
     (ret, c_name) \<leftarrow> canonicalize_path_name (replicate 256 0) path;
     kassert (ret = OK);
     search_mount_loop c_name 0 mount_entries (- 1) 0 0 }"

text \<open>The scan of \<^verbatim>\<open>register_file_system\<close>: \<open>Inl\<close> is a conflict, \<open>Inr\<close> the first unused slot.\<close>

fun register_mount_scan :: "u8 list \<Rightarrow> int \<Rightarrow> int \<Rightarrow> mount_entry list \<Rightarrow> (unit + int) option" where
  "register_mount_scan c_name target_index idx [] = Some (Inr target_index)"
| "register_mount_scan c_name target_index idx (e # es) =
     (if \<not> me_valid e
      then register_mount_scan c_name (if target_index = - 1 then idx else target_index) (idx + 1) es
      else do {
        r \<leftarrow> start_with (mount_point e) c_name;
        if r = 0 then do {
          iptr \<leftarrow> strlen c_name;
          c \<leftarrow> arr_get (mount_point e) (uint iptr);
          if c = 0 \<or> c = SLASH then Some (Inl ())
          else register_mount_scan c_name target_index (idx + 1) es }
        else register_mount_scan c_name target_index (idx + 1) es })"

definition register_file_system :: "mount_entry list \<Rightarrow> u8 list \<Rightarrow> addr \<Rightarrow> (int \<times> mount_entry list) option" where
  "register_file_system mount_entries mp fs = do {
     (ret, c_name) \<leftarrow> canonicalize_path_name (replicate 256 0) mp;
     kassert (ret = OK);
     r \<leftarrow> register_mount_scan c_name (- 1) 0 mount_entries;
     case r of
       Inl _ \<Rightarrow> Some (- ERR_INVALID_ARG, mount_entries)
     | Inr target_index \<Rightarrow>
         if target_index < 0 then Some (- ERR_OUT_OF_RESOURCE, mount_entries)
         else do {
           kassert (target_index < int MOUNT_ENTRY_SIZE);
           point \<leftarrow> strcpy_safe (replicate 256 0) c_name MAX_PATH;
           es \<leftarrow> arr_set mount_entries target_index \<lparr>mount_point = point, me_fs = fs, me_valid = True\<rparr>;
           Some (OK, es) } }"

function common_prefix :: "u8 list \<Rightarrow> u8 list \<Rightarrow> int \<Rightarrow> int option" where
  "common_prefix c_name mp iptr =
     (if iptr < MAX_PATH then
        (case (arr_get c_name iptr, arr_get mp iptr) of
           (Some c, Some m) \<Rightarrow> if c \<noteq> m then Some iptr else common_prefix c_name mp (iptr + 1)
         | _ \<Rightarrow> None)
      else Some iptr)"
  by pat_completeness auto
termination by (relation "measure (\<lambda>(_, _, i). nat (MAX_PATH - i))") auto

function copy_subpath :: "u8 list \<Rightarrow> u8 list \<Rightarrow> int \<Rightarrow> int \<Rightarrow> u8 list option" where
  "copy_subpath sub_path c_name iptr iptr_dst =
     (if iptr < MAX_PATH then
        (case arr_get c_name iptr of
           None \<Rightarrow> None
         | Some c \<Rightarrow>
             if c = 0 then Some sub_path
             else (case arr_set sub_path iptr_dst c of
                     None \<Rightarrow> None
                   | Some sub_path \<Rightarrow> copy_subpath sub_path c_name (iptr + 1) (iptr_dst + 1)))
      else Some sub_path)"
  by pat_completeness auto
termination by (relation "measure (\<lambda>(_, _, i, _). nat (MAX_PATH - i))") auto

declare common_prefix.simps [simp del] copy_subpath.simps [simp del]

text \<open>The return value of \<^verbatim>\<open>canonicalize_path_name\<close> is ignored here.\<close>

definition resolve_subpath :: "u8 list \<Rightarrow> u8 list \<Rightarrow> mount_entry \<Rightarrow> u8 list option" where
  "resolve_subpath sub_path full_path entry = do {
     (ret, c_name) \<leftarrow> canonicalize_path_name (replicate 256 0) full_path;
     iptr \<leftarrow> common_prefix c_name (mount_point entry) 0;
     sub_path \<leftarrow> copy_subpath sub_path c_name iptr 0;
     c \<leftarrow> arr_get sub_path 0;
     if c = 0 then do { sub_path \<leftarrow> arr_set sub_path 0 SLASH; arr_set sub_path 1 0 }
     else Some sub_path }"

subsection \<open>What a canonical name is\<close>

text \<open>The components of a path are the pieces between slashes, from the first slash on. Empty
  components and \<^verbatim>\<open>.\<close> are dropped and \<^verbatim>\<open>..\<close> drops its predecessor. The name of the root is a
  slash only if the path ends with a slash, otherwise it is the empty string.\<close>

fun split_slash :: "u8 list \<Rightarrow> u8 list list" where
  "split_slash [] = [[]]"
| "split_slash (c # cs) =
     (if c = SLASH then [] # split_slash cs
      else (case split_slash cs of [] \<Rightarrow> [[c]] | w # ws \<Rightarrow> (c # w) # ws))"

definition push_word :: "u8 list list \<Rightarrow> u8 list \<Rightarrow> u8 list list" where
  "push_word st w = (if w = [] \<or> w = [DOT] then st else if w = [DOT, DOT] then butlast st else st @ [w])"

fun resolve_words :: "u8 list list \<Rightarrow> u8 list list \<Rightarrow> u8 list list" where
  "resolve_words st [] = st"
| "resolve_words st [w] = (if w = [] \<and> st = [] then [[]] else push_word st w)"
| "resolve_words st (w # ws) = resolve_words (push_word st w) ws"

definition canonical_words :: "u8 list \<Rightarrow> u8 list list" where
  "canonical_words p =
     (if SLASH \<in> set p then resolve_words [] (split_slash (tl (dropWhile (\<lambda>c. c \<noteq> SLASH) p))) else [])"

definition render :: "u8 list list \<Rightarrow> u8 list" where
  "render ws = concat (map (\<lambda>w. SLASH # w) ws)"

definition canonical_name :: "u8 list \<Rightarrow> u8 list" where
  "canonical_name p = render (canonical_words p)"

lemma render_simps [simp]:
  "render [] = []" "render (w # ws) = SLASH # w @ render ws" "render (xs @ ys) = render xs @ render ys"
  by (simp_all add: render_def)

lemma split_slash_nonempty [simp]: "split_slash p \<noteq> []"
  by (induction p) (auto split: list.splits)

lemma split_slash_word: "SLASH \<notin> set w \<Longrightarrow> split_slash w = [w]"
  by (induction w) auto

lemma split_slash_append: "SLASH \<notin> set w \<Longrightarrow> split_slash (w @ SLASH # p) = w # split_slash p"
  by (induction w) auto

lemma split_slash_elem: "w \<in> set (split_slash p) \<Longrightarrow> SLASH \<notin> set w \<and> set w \<subseteq> set p"
proof (induction p arbitrary: w)
  case (Cons c p)
  obtain v vs where v: "split_slash p = v # vs" by (cases "split_slash p") auto
  with Cons.prems consider "c = SLASH" "w = [] \<or> w \<in> set (split_slash p)" | "c \<noteq> SLASH" "w = c # v" | "w \<in> set vs"
    by (auto split: if_splits)
  then show ?case
  proof cases
    case 2
    with Cons.IH [of v] v show ?thesis by auto
  next
    case 3
    with Cons.IH [of w] v show ?thesis by auto
  qed (use Cons.IH in auto)
qed simp

lemma split_slash_length: "(\<Sum>w\<leftarrow>split_slash p. Suc (length w)) = Suc (length p)"
  by (induction p) (auto split: list.splits)

lemma push_word_length: "length (render (push_word st w)) \<le> length (render st) + Suc (length w)"
proof -
  have "length (render (butlast st)) \<le> length (render st)"
    by (cases st rule: rev_cases) simp_all
  then show ?thesis by (auto simp: push_word_def)
qed

lemma resolve_words_length: "length (render (resolve_words st ws)) \<le> length (render st) + (\<Sum>w\<leftarrow>ws. Suc (length w))"
proof (induction st ws rule: resolve_words.induct)
  case (2 st w)
  show ?case using push_word_length [of st w] by simp
next
  case (3 st w v ws)
  show ?case using 3 push_word_length [of st w] by simp
qed simp

lemma slash_split:
  assumes "SLASH \<in> set p"
  obtains q r where "p = q @ SLASH # r" "SLASH \<notin> set q" "tl (dropWhile (\<lambda>c. c \<noteq> SLASH) p) = r"
proof -
  obtain q r where p: "p = q @ SLASH # r" "SLASH \<notin> set q" using split_list_first [OF assms] by blast
  then have "tl (dropWhile (\<lambda>c. c \<noteq> SLASH) p) = r" by (simp add: dropWhile_append)
  with p that show ?thesis by blast
qed

lemma canonical_name_length: "length (canonical_name p) \<le> length p"
proof (cases "SLASH \<in> set p")
  case True
  then obtain q r where "p = q @ SLASH # r" "tl (dropWhile (\<lambda>c. c \<noteq> SLASH) p) = r" by (rule slash_split)
  with resolve_words_length [of "[]" "split_slash r"] show ?thesis
    by (simp add: canonical_name_def canonical_words_def split_slash_length)
qed (simp add: canonical_name_def canonical_words_def)

text \<open>A clean component is one that canonicalisation keeps.\<close>

definition clean_word :: "u8 list \<Rightarrow> bool" where
  "clean_word w \<longleftrightarrow> w \<noteq> [] \<and> w \<noteq> [DOT] \<and> w \<noteq> [DOT, DOT] \<and> SLASH \<notin> set w"

lemma resolve_words_clean:
  assumes "\<forall>w\<in>set st. clean_word w" "\<forall>w\<in>set ws. SLASH \<notin> set w"
  shows "resolve_words st ws = [[]] \<or> (\<forall>w\<in>set (resolve_words st ws). clean_word w)"
proof -
  have push: "\<forall>v\<in>set (push_word st w). clean_word v" if "\<forall>w\<in>set st. clean_word w" "SLASH \<notin> set w" for st w
    using that by (auto simp: push_word_def clean_word_def dest: in_set_butlastD)
  from assms show ?thesis
  proof (induction st ws rule: resolve_words.induct)
    case (3 st w v ws)
    then show ?case using push [of st w] by simp
  qed (use push in auto)
qed

lemma canonical_words_clean: "canonical_words p = [[]] \<or> (\<forall>w\<in>set (canonical_words p). clean_word w)"
  using resolve_words_clean [of "[]"] split_slash_elem by (auto simp: canonical_words_def)

lemma split_render: "\<forall>w\<in>set (w # ws). SLASH \<notin> set w \<Longrightarrow> split_slash (w @ render ws) = w # ws"
proof (induction ws arbitrary: w)
  case Nil
  then show ?case by (simp add: split_slash_word)
next
  case (Cons v ws)
  then show ?case by (simp add: split_slash_append)
qed

lemma resolve_words_clean_id: "\<forall>w\<in>set ws. clean_word w \<Longrightarrow> resolve_words st ws = st @ ws"
  by (induction st ws rule: resolve_words.induct) (auto simp: push_word_def clean_word_def)

lemma canonical_words_render:
  assumes "ws = [[]] \<or> (\<forall>w\<in>set ws. clean_word w)"
  shows "canonical_words (render ws) = ws"
proof (cases ws)
  case (Cons v vs)
  with assms have "split_slash (v @ render vs) = v # vs"
    by (intro split_render) (auto simp: clean_word_def)
  with Cons assms resolve_words_clean_id [of ws "[]"] show ?thesis
    by (auto simp: canonical_words_def)
qed (simp add: canonical_words_def)

lemma canonical_name_idem: "canonical_name (canonical_name p) = canonical_name p"
  using canonical_words_render [OF canonical_words_clean] by (simp add: canonical_name_def)

subsection \<open>The scan computes the components\<close>

lemma cstr_nth: "i < length (cstr b) \<Longrightarrow> b ! i = cstr b ! i"
  by (simp add: cstr_def takeWhile_nth)

lemma cstr_nth_nonzero: "i < length (cstr b) \<Longrightarrow> b ! i \<noteq> 0"
  using cstr_nonzero [OF nth_mem] by (simp add: cstr_nth)

lemma nth_cstr_length: "terminated b \<Longrightarrow> b ! length (cstr b) = 0"
  using nth_length_takeWhile [of "\<lambda>c. c \<noteq> 0" b] cstr_lt_length [of b] by (simp add: cstr_def)

text \<open>Positions of slashes stand for the component that follows them.\<close>

definition word_at :: "u8 list \<Rightarrow> nat \<Rightarrow> u8 list" where
  "word_at src p = takeWhile (\<lambda>c. c \<noteq> SLASH \<and> c \<noteq> 0) (drop (Suc p) src)"

definition push_position :: "nat list \<Rightarrow> nat \<Rightarrow> u8 list \<Rightarrow> nat list" where
  "push_position st p w = (if w = [] \<or> w = [DOT] then st else if w = [DOT, DOT] then butlast st else st @ [p])"

definition stack_ok :: "int list \<Rightarrow> nat list \<Rightarrow> bool" where
  "stack_ok stk st \<longleftrightarrow> length stk = 256 \<and> length st \<le> 256 \<and> take (length st) stk = map int st"

lemma stack_push:
  assumes "stack_ok stk st" "length st < 256"
  shows "arr_set stk (int (length st)) (int p) = Some (stk[length st := int p])"
    "stack_ok (stk[length st := int p]) (st @ [p])"
  using assms by (auto simp: stack_ok_def take_Suc_conv_app_nth)

lemma stack_pop:
  assumes "stack_ok stk st"
  shows "stack_ok stk (butlast st)"
proof (cases st rule: rev_cases)
  case (snoc ys y)
  then have "take (length ys) stk = take (length ys) (take (length st) stk)" by (simp add: min_def)
  also have "\<dots> = take (length ys) (map int st)" using assms by (simp only: stack_ok_def)
  finally show ?thesis using snoc assms by (simp add: stack_ok_def)
qed (use assms in simp)

lemma word_take:
  assumes "p < i" "i < length src" "w = take (i - Suc p) (drop (Suc p) src)"
  shows "w = [] \<longleftrightarrow> i = Suc p" "w = [a] \<longleftrightarrow> i = p + 2 \<and> src ! (i - 1) = a"
    "w = [a, b] \<longleftrightarrow> i = p + 3 \<and> src ! (i - 2) = a \<and> src ! (i - 1) = b"
proof -
  obtain k where i: "i = Suc (p + k)" using assms(1) less_iff_Suc_add by blast
  have w: "length w = k" and nth: "\<And>j. j < k \<Longrightarrow> w ! j = src ! (Suc p + j)"
    using assms i by simp_all
  show "w = [] \<longleftrightarrow> i = Suc p" using w i by auto
  show "w = [a] \<longleftrightarrow> i = p + 2 \<and> src ! (i - 1) = a"
    using w nth [of 0] i by (cases w; cases "tl w") auto
  have "w = [a, b] \<longleftrightarrow> k = 2 \<and> w ! 0 = a \<and> w ! 1 = b"
    using w by (cases w; cases "tl w"; cases "tl (tl w)") auto
  then show "w = [a, b] \<longleftrightarrow> i = p + 3 \<and> src ! (i - 2) = a \<and> src ! (i - 1) = b"
    using nth [of 0] nth [of 1] i by auto
qed

lemma canonicalize_word_spec:
  assumes p: "p < i" "i < length src" and w: "w = take (i - Suc p) (drop (Suc p) src)"
    and st: "stack_ok stk st" "length st < 256" and root: "\<not> (w = [] \<and> c = 0 \<and> st = [])"
  obtains stk' where "canonicalize_word src (int i) c (int p) (int (length st)) stk =
      Some (int i, int (length (push_position st p w)), stk')" "stack_ok stk' (push_position st p w)"
proof -
  note wt = word_take [OF p w]
  show ?thesis
  proof (cases "i = Suc p")
    case True
    then have "w = []" using wt by simp
    with True root st that [of stk] show ?thesis by (auto simp: canonicalize_word_def push_position_def)
  next
    case False
    have get: "arr_get src (int i - 1) = Some (src ! (i - 1))" "arr_get src (int i - 2) = Some (src ! (i - 2))"
      using False p by (simp_all add: nat_diff_distrib' flip: of_nat_diff)
    have len: "int i - int p = 1 \<longleftrightarrow> i = Suc p" "int i - int p = 2 \<longleftrightarrow> i = p + 2" "int i - int p = 3 \<longleftrightarrow> i = p + 3"
      using p by auto
    have run: "canonicalize_word src (int i) c (int p) (int (length st)) stk =
      (if w = [DOT] then Some (int i, int (length st), stk)
       else if w = [DOT, DOT] then Some (int i, (if int (length st) \<noteq> 0 then int (length st) - 1 else 0), stk)
       else do { stk \<leftarrow> arr_set stk (int (length st)) (int p); Some (int i, int (length st) + 1, stk) })"
      unfolding canonicalize_word_def Let_def get len wt(2,3) using False
      by (cases "i = p + 2"; cases "i = p + 3"; cases "src ! (i - 1) = DOT"; cases "src ! (i - 2) = DOT") simp_all
    have "w \<noteq> []" using wt(1) False by simp
    have pop: "(if int (length st) \<noteq> 0 then int (length st) - 1 else 0) = int (length (butlast st))"
      by (cases st rule: rev_cases) auto
    show ?thesis
    proof (cases "w = [DOT] \<or> w = [DOT, DOT]")
      case True
      with run pop that [of stk] stack_pop [OF st(1)] st(1) show ?thesis
        by (auto simp: push_position_def)
    next
      case False
      with run that [of "stk[length st := int p]"] stack_push [OF st, of p] \<open>w \<noteq> []\<close> show ?thesis
        by (auto simp: push_position_def)
    qed
  qed
qed

lemma word_at_take:
  assumes "terminated src" "p < i" "i \<le> length (cstr src)" "\<And>j. p < j \<Longrightarrow> j < i \<Longrightarrow> src ! j \<noteq> SLASH"
    "src ! i = SLASH \<or> src ! i = 0"
  shows "word_at src p = take (i - Suc p) (drop (Suc p) src)" "length (word_at src p) = i - Suc p"
proof -
  have len: "i < length src" using assms(1,3) cstr_lt_length [of src] by simp
  have "src ! j \<noteq> 0" if "j < i" for j using that assms(3) by (intro cstr_nth_nonzero) simp
  then show eq: "word_at src p = take (i - Suc p) (drop (Suc p) src)"
    unfolding word_at_def using assms(2,4,5) by (intro takeWhile_eq_take_P_nth) auto
  show "length (word_at src p) = i - Suc p" using eq len assms(2) by simp
qed

lemma take_cstr: "i \<le> length (cstr b) \<Longrightarrow> take i (cstr b) = take i b"
  by (metis cstr_def min.absorb1 take_take takeWhile_eq_take)

lemma drop_cstr: "i \<le> length (cstr b) \<Longrightarrow> take (i - k) (drop k (cstr b)) = take (i - k) (drop k b)"
  using take_cstr by (simp flip: drop_take)

definition closed_at :: "u8 list \<Rightarrow> nat \<Rightarrow> bool" where
  "closed_at src q \<longleftrightarrow> src ! q = SLASH \<and> Suc q + length (word_at src q) < length (cstr src) \<and>
     src ! (Suc q + length (word_at src q)) = SLASH"

definition last_at :: "u8 list \<Rightarrow> nat \<Rightarrow> bool" where
  "last_at src q \<longleftrightarrow> src ! q = SLASH \<and> Suc q + length (word_at src q) = length (cstr src)"

lemma resolve_words_Cons: "ws \<noteq> [] \<Longrightarrow> resolve_words st (w # ws) = resolve_words (push_word st w) ws"
  by (cases ws) auto

lemma map_push_position: "map f (push_position st p (f p)) = push_word (map f st) (f p)"
  by (simp add: push_position_def push_word_def map_butlast)

lemma set_push_position: "set (push_position st p w) \<subseteq> insert p (set st)"
  by (auto simp: push_position_def dest: in_set_butlastD)

lemma length_push_position: "length (push_position st p w) \<le> Suc (length st)"
  by (auto simp: push_position_def)

text \<open>The rest of a string after a slash, cut at the next separator.\<close>

lemma split_rest:
  assumes "terminated src" "p < i" "i \<le> length (cstr src)" "\<And>j. p < j \<Longrightarrow> j < i \<Longrightarrow> src ! j \<noteq> SLASH"
  shows "src ! i = SLASH \<Longrightarrow> i < length (cstr src) \<Longrightarrow>
      split_slash (drop (Suc p) (cstr src)) = word_at src p # split_slash (drop (Suc i) (cstr src))"
    "i = length (cstr src) \<Longrightarrow> split_slash (drop (Suc p) (cstr src)) = [word_at src p]"
proof -
  let ?w = "take (i - Suc p) (drop (Suc p) (cstr src))"
  have rest: "drop (Suc p) (cstr src) = ?w @ drop i (cstr src)"
    using assms(2) by (metis Suc_leI append_take_drop_id drop_drop le_add_diff_inverse2)
  have slash: "SLASH \<notin> set ?w"
  proof
    assume "SLASH \<in> set ?w"
    then obtain k where "k < i - Suc p" "cstr src ! (Suc p + k) = SLASH"
      using assms(3) by (auto simp: in_set_conv_nth)
    moreover from this have "Suc p + k < i" by simp
    ultimately show False using assms(3) assms(4) [of "Suc p + k"] cstr_nth [of "Suc p + k" src] by simp
  qed
  {
    assume i: "src ! i = SLASH" "i < length (cstr src)"
    then have "drop i (cstr src) = SLASH # drop (Suc i) (cstr src)"
      using cstr_nth [OF i(2)] by (simp flip: Cons_nth_drop_Suc)
    with split_slash_append [OF slash] rest word_at_take(1) [of src p i] assms i drop_cstr [of i src "Suc p"]
    show "split_slash (drop (Suc p) (cstr src)) = word_at src p # split_slash (drop (Suc i) (cstr src))" by simp
  }
  {
    assume i: "i = length (cstr src)"
    with split_slash_word [OF slash] rest word_at_take(1) [of src p i] assms nth_cstr_length [of src] drop_cstr [of i src "Suc p"]
    show "split_slash (drop (Suc p) (cstr src)) = [word_at src p]" by simp
  }
qed

lemma canonicalize_scan_end:
  assumes ter: "terminated src" and len: "length (cstr src) < 256"
    and prems: "p < i" "i = length (cstr src)" "src ! p = SLASH" "\<And>j. p < j \<Longrightarrow> j < i \<Longrightarrow> src ! j \<noteq> SLASH"
      "stack_ok stk st" "length st \<le> p" "\<forall>q\<in>set st. closed_at src q"
  shows "\<exists>st' e stk'. canonicalize_scan src (int i) (int p) (int (length st)) stk =
      Some (Inr (int (length (st' @ e)), stk')) \<and> stack_ok stk' (st' @ e) \<and> (\<forall>q\<in>set st'. closed_at src q) \<and>
      (e = [] \<or> (\<exists>q. e = [q] \<and> last_at src q)) \<and>
      map (word_at src) (st' @ e) = resolve_words (map (word_at src) st) (split_slash (drop (Suc p) (cstr src)))"
proof -
  define w where "w = word_at src p"
  have i: "i < length src" "i < 256" "length st < 256" using prems(1,2,6) ter len cstr_lt_length [of src] by simp_all
  have c: "src ! i = 0" using prems(2) nth_cstr_length [OF ter] by simp
  have wt: "w = take (i - Suc p) (drop (Suc p) src)" "length w = i - Suc p"
    using word_at_take [OF ter prems(1) eq_refl [OF prems(2)] prems(4)] c by (simp_all add: w_def)
  have last: "last_at src p" using prems(1-3) wt(2) by (simp add: last_at_def w_def)
  have words: "split_slash (drop (Suc p) (cstr src)) = [w]"
    using split_rest(2) [OF ter prems(1) eq_refl [OF prems(2)] prems(4) prems(2)] by (simp add: w_def)
  show ?thesis
  proof (cases "w = [] \<and> st = []")
    case True
    then have "int i - int p = 1" using wt(2) prems(1) by simp
    then have "canonicalize_scan src (int i) (int p) (int (length st)) stk = Some (Inr (1, stk[0 := int p]))"
      using c i True stack_push(1) [OF prems(5) i(3), of p]
      by (subst canonicalize_scan.simps) (simp add: canonicalize_word_def)
    moreover have "stack_ok (stk[0 := int p]) [p]" using stack_push(2) [OF prems(5) i(3), of p] True by simp
    ultimately show ?thesis using last words True
      by (intro exI [of _ "[]"] exI [of _ "[p]"] exI [of _ "stk[0 := int p]"]) (auto simp: w_def)
  next
    case False
    obtain stk1 where run: "canonicalize_word src (int i) (src ! i) (int p) (int (length st)) stk =
        Some (int i, int (length (push_position st p w)), stk1)" and ok: "stack_ok stk1 (push_position st p w)"
      using canonicalize_word_spec [OF prems(1) i(1) wt(1) prems(5) i(3)] False by metis
    have scan: "canonicalize_scan src (int i) (int p) (int (length st)) stk =
        Some (Inr (int (length (push_position st p w)), stk1))"
      using c i run by (subst canonicalize_scan.simps) simp
    have "resolve_words (map (word_at src) st) [w] = map (word_at src) (push_position st p w)"
      using False map_push_position [of "word_at src" st p] by (auto simp: w_def)
    moreover obtain st' e where "push_position st p w = st' @ e" "\<forall>q\<in>set st'. closed_at src q" "e = [] \<or> e = [p]"
      using prems(7) by (cases "push_position st p w = st @ [p]") (auto simp: push_position_def split: if_splits dest: in_set_butlastD)
    ultimately show ?thesis using scan ok words last by (intro exI [of _ st'] exI [of _ e] exI [of _ stk1]) auto
  qed
qed

lemma canonicalize_scan_words:
  assumes ter: "terminated src" and len: "length (cstr src) < 256" and blank: "BLANK \<notin> set (cstr src)"
    and "p < i" "i \<le> length (cstr src)" "src ! p = SLASH" "\<And>j. p < j \<Longrightarrow> j < i \<Longrightarrow> src ! j \<noteq> SLASH"
    "stack_ok stk st" "length st \<le> p" "\<forall>q\<in>set st. closed_at src q"
  shows "\<exists>st' e stk'. canonicalize_scan src (int i) (int p) (int (length st)) stk =
      Some (Inr (int (length (st' @ e)), stk')) \<and> stack_ok stk' (st' @ e) \<and> (\<forall>q\<in>set st'. closed_at src q) \<and>
      (e = [] \<or> (\<exists>q. e = [q] \<and> last_at src q)) \<and>
      map (word_at src) (st' @ e) = resolve_words (map (word_at src) st) (split_slash (drop (Suc p) (cstr src)))"
  using assms(4-)
proof (induction "length (cstr src) - i" arbitrary: i p st stk rule: less_induct)
  case less
  note prems = less.prems
  define w where "w = word_at src p"
  have i: "i < length src" "i < 256" "length st < 256" using prems(1,2,6) ter len cstr_lt_length [of src] by simp_all
  show ?case
  proof (cases "i < length (cstr src)")
    case True
    then have c: "src ! i \<noteq> 0" "src ! i \<noteq> BLANK"
      using blank cstr_nth_nonzero cstr_nth [OF True] nth_mem by metis+
    show ?thesis
    proof (cases "src ! i = SLASH")
      case False
      have "canonicalize_scan src (int i) (int p) (int (length st)) stk =
          canonicalize_scan src (int (Suc i)) (int p) (int (length st)) stk"
        using c False i by (subst canonicalize_scan.simps) (simp add: add.commute)
      moreover have "\<And>j. p < j \<Longrightarrow> j < Suc i \<Longrightarrow> src ! j \<noteq> SLASH"
        using prems(4) False by (auto simp: less_Suc_eq)
      ultimately show ?thesis using less.hyps [of "Suc i" p stk st] True prems by simp
    next
      case slash: True
      have wt: "w = take (i - Suc p) (drop (Suc p) src)" "length w = i - Suc p"
        using word_at_take [OF ter prems(1,2,4)] slash by (simp_all add: w_def)
      obtain stk1 where run: "canonicalize_word src (int i) (src ! i) (int p) (int (length st)) stk =
          Some (int i, int (length (push_position st p w)), stk1)" and ok: "stack_ok stk1 (push_position st p w)"
        using canonicalize_word_spec [OF prems(1) i(1) wt(1) prems(5) i(3)] c by metis
      have "canonicalize_scan src (int i) (int p) (int (length st)) stk =
          canonicalize_scan src (int (Suc i)) (int i) (int (length (push_position st p w))) stk1"
        using c slash i run by (subst canonicalize_scan.simps) (simp add: add.commute)
      moreover have "closed_at src p"
        using prems(1,3) wt(2) True slash by (simp add: closed_at_def w_def)
      then have "\<forall>q\<in>set (push_position st p w). closed_at src q"
        using prems(7) set_push_position by blast
      moreover have "length (push_position st p w) \<le> i"
        using length_push_position [of st p w] prems(1,6) by simp
      moreover have "split_slash (drop (Suc p) (cstr src)) = w # split_slash (drop (Suc i) (cstr src))"
        using split_rest(1) [OF ter prems(1,2,4) slash True] by (simp add: w_def)
      moreover have "\<And>j. i < j \<Longrightarrow> j < Suc i \<Longrightarrow> src ! j \<noteq> SLASH" by simp
      ultimately show ?thesis
        using less.hyps [of "Suc i" i stk1 "push_position st p w"] True slash ok map_push_position [of "word_at src" st p]
        by (simp add: resolve_words_Cons w_def)
    qed
  next
    case False
    then have n: "i = length (cstr src)" using prems(2) by simp
    show ?thesis by (rule canonicalize_scan_end [OF ter len prems(1) n prems(3-7)])
  qed
qed

text \<open>Before the first slash nothing is recorded.\<close>

lemma canonicalize_scan_skip:
  assumes "k \<le> length (cstr src)" "length (cstr src) < 256" "i \<le> k"
    "\<And>j. i \<le> j \<Longrightarrow> j < k \<Longrightarrow> src ! j \<noteq> SLASH \<and> src ! j \<noteq> BLANK" "terminated src"
  shows "canonicalize_scan src (int i) ws ip stk = canonicalize_scan src (int k) ws ip stk"
  using assms(3,4)
proof (induction "k - i" arbitrary: i)
  case (Suc d)
  then have i: "i < k" by simp
  have "canonicalize_scan src (int i) ws ip stk = canonicalize_scan src (int (Suc i)) ws ip stk"
    using Suc.prems i assms cstr_nth_nonzero [of i src] cstr_lt_length [of src]
    by (subst canonicalize_scan.simps) (simp add: add.commute)
  with Suc.hyps(1) [of "Suc i"] Suc.hyps(2) Suc.prems i show ?case by simp
qed simp

lemma canonicalize_scan_spec:
  assumes ter: "terminated src" and len: "length (cstr src) < 256" and blank: "BLANK \<notin> set (cstr src)"
  obtains st e stk where "canonicalize_scan src 0 (- 1) 0 (replicate 256 0) = Some (Inr (int (length (st @ e)), stk))"
    "stack_ok stk (st @ e)" "\<forall>q\<in>set st. closed_at src q" "e = [] \<or> (\<exists>q. e = [q] \<and> last_at src q)"
    "map (word_at src) (st @ e) = canonical_words (cstr src)"
proof -
  have nb: "src ! j \<noteq> BLANK" if "j < length (cstr src)" for j
    using blank nth_mem [OF that] cstr_nth [OF that] by auto
  let ?stk = "replicate 256 0 :: int list"
  have ok: "stack_ok ?stk []" by (simp add: stack_ok_def)
  show ?thesis
  proof (cases "SLASH \<in> set (cstr src)")
    case False
    have "src ! j \<noteq> SLASH" if "j < length (cstr src)" for j
      using False nth_mem [OF that] cstr_nth [OF that] by auto
    then have "canonicalize_scan src (int 0) (- 1) 0 ?stk = canonicalize_scan src (int (length (cstr src))) (- 1) 0 ?stk"
      using len nb ter by (intro canonicalize_scan_skip) auto
    also have "\<dots> = Some (Inr (0, ?stk))"
      using len nth_cstr_length [OF ter] cstr_lt_length [OF ter] by (subst canonicalize_scan.simps) simp
    finally show ?thesis using that [of "[]" "[]" ?stk] False ok by (simp add: canonical_words_def)
  next
    case True
    then obtain q r where p: "cstr src = q @ SLASH # r" "SLASH \<notin> set q"
        "tl (dropWhile (\<lambda>c. c \<noteq> SLASH) (cstr src)) = r" by (rule slash_split)
    define k where "k = length q"
    have k: "k < length (cstr src)" "src ! k = SLASH" "drop (Suc k) (cstr src) = r"
      using p cstr_nth [of k src] by (simp_all add: k_def)
    have "src ! j \<noteq> SLASH" if "j < k" for j
    proof -
      have "src ! j = q ! j" using p(1) that cstr_nth [of j src] k(1) by (simp add: k_def nth_append)
      moreover have "q ! j \<in> set q" using that by (simp add: k_def)
      ultimately show ?thesis using p(2) by auto
    qed
    then have "canonicalize_scan src (int 0) (- 1) 0 ?stk = canonicalize_scan src (int k) (- 1) 0 ?stk"
      using len nb ter k by (intro canonicalize_scan_skip) auto
    also have "\<dots> = canonicalize_scan src (int k + 1) (int k) 0 ?stk"
      using k len cstr_lt_length [OF ter] by (subst canonicalize_scan.simps) simp
    also have "\<dots> = canonicalize_scan src (int (Suc k)) (int k) (int (length ([] :: nat list))) ?stk"
      by (simp add: add.commute)
    finally have start: "canonicalize_scan src 0 (- 1) 0 ?stk = \<dots>" by simp
    have "\<exists>st' e stk'. canonicalize_scan src (int (Suc k)) (int k) (int (length ([] :: nat list))) ?stk =
      Some (Inr (int (length (st' @ e)), stk')) \<and> stack_ok stk' (st' @ e) \<and> (\<forall>q\<in>set st'. closed_at src q) \<and>
      (e = [] \<or> (\<exists>q. e = [q] \<and> last_at src q)) \<and>
      map (word_at src) (st' @ e) = resolve_words (map (word_at src) []) (split_slash (drop (Suc k) (cstr src)))"
      by (rule canonicalize_scan_words [OF ter len blank]) (use k ok in auto)
    moreover have "canonical_words (cstr src) = resolve_words [] (split_slash (drop (Suc k) (cstr src)))"
      unfolding canonical_words_def p(3) k(3) using True by simp
    ultimately show ?thesis using start that by auto
  qed
qed

lemma canonicalize_scan_blank:
  assumes "b < 256" "b < length src" "src ! b = BLANK" "\<And>j. j < b \<Longrightarrow> src ! j \<noteq> 0" "i \<le> b" "ws < int i"
    "ws = - 1 \<or> 0 \<le> ws" "0 \<le> ip" "ip \<le> max 0 ws" "length stk = 256"
  shows "canonicalize_scan src (int i) ws ip stk = Some (Inl (- ERR_INVALID_ARG))"
  using assms(5-)
proof (induction "b - i" arbitrary: i ws ip stk rule: less_induct)
  case less
  have i: "arr_get src (int i) = Some (src ! i)" "int i < MAX_PATH" using less.prems assms(1,2) by simp_all
  show ?case
  proof (cases "src ! i = BLANK \<or> (src ! i \<noteq> SLASH \<or> ws = - 1)")
    case True
    then consider "src ! i = BLANK" | "i < b" "src ! i \<noteq> BLANK" "src ! i \<noteq> SLASH \<or> ws = - 1" "src ! i \<noteq> 0"
      using assms(3,4) less.prems(1) by (metis le_neq_implies_less)
    then show ?thesis
    proof cases
      case 2
      then show ?thesis
        using i less.hyps [of "Suc i" "if src ! i = SLASH then int i else ws" ip stk] less.prems
        by (subst canonicalize_scan.simps) (auto simp: add.commute split: if_splits)
    qed (use i in \<open>subst canonicalize_scan.simps, simp\<close>)
  next
    case False
    then have ib: "i < b" "src ! i \<noteq> 0" using assms(3) less.prems(1) by (cases "i = b"; simp)+
    have ws: "0 \<le> ws" "ip < 256" "ip \<le> ws" using False less.prems assms(1) by auto
    have "\<exists>ip' stk'. canonicalize_word src (int i) (src ! i) ws ip stk = Some (int i, ip', stk') \<and>
        0 \<le> ip' \<and> ip' \<le> ip + 1 \<and> length stk' = 256"
    proof (cases "int i - ws = 1")
      case True
      with ib less.prems show ?thesis by (simp add: canonicalize_word_def)
    next
      case F: False
      then have "arr_get src (int i - 1) = Some (src ! nat (int i - 1))" "arr_get src (int i - 2) = Some (src ! nat (int i - 2))"
        using ws less.prems assms(2) by simp_all
      with F ws less.prems show ?thesis by (auto simp: canonicalize_word_def Let_def)
    qed
    then obtain ip' stk' where "canonicalize_word src (int i) (src ! i) ws ip stk = Some (int i, ip', stk')"
        "0 \<le> ip'" "ip' \<le> ip + 1" "length stk' = 256" by blast
    with False ib ws less.prems i less.hyps [of "Suc i" "int i" ip' stk'] show ?thesis
      by (subst canonicalize_scan.simps) (auto simp: add.commute)
  qed
qed

subsection \<open>Writing the canonical name\<close>

lemma canonicalize_copy_eq:
  assumes "a \<le> b" "b \<le> length src" "k + (b - a) \<le> length dst"
  shows "canonicalize_copy dst src (int a) (int b) (int k) =
    Some (take k dst @ take (b - a) (drop a src) @ drop (k + (b - a)) dst, int (k + (b - a)))"
  using assms
proof (induction "b - a" arbitrary: a k dst)
  case 0
  then show ?case by (subst canonicalize_copy.simps) simp
next
  case (Suc d)
  let ?dst = "dst[k := src ! a]"
  have a: "a < b" and d: "b - a = Suc d" "b - Suc a = d" using Suc.hyps(2) by auto
  have "canonicalize_copy dst src (int a) (int b) (int k) = canonicalize_copy ?dst src (int (Suc a)) (int b) (int (Suc k))"
    using a Suc.prems by (subst canonicalize_copy.simps) (simp add: add.commute)
  also have "\<dots> = Some (take (Suc k) ?dst @ take d (drop (Suc a) src) @ drop (Suc k + d) ?dst, int (Suc k + d))"
    using Suc.hyps(1) [of "Suc a" "Suc k" ?dst] a d Suc.prems by simp
  finally have run: "canonicalize_copy dst src (int a) (int b) (int k) = \<dots>" .
  have "take (Suc k) ?dst = take k dst @ [src ! a]" using d Suc.prems by (simp add: take_Suc_conv_app_nth)
  moreover have "take (Suc d) (drop a src) = src ! a # take d (drop (Suc a) src)"
    using a Suc.prems by (simp add: Cons_nth_drop_Suc [symmetric])
  ultimately show ?case unfolding run d(1) by simp
qed

lemma canonicalize_word_end_skip:
  assumes "k \<le> length (cstr src)" "length (cstr src) < 256" "i \<le> k"
    "\<And>j. i \<le> j \<Longrightarrow> j < k \<Longrightarrow> src ! j \<noteq> SLASH" "terminated src"
  shows "canonicalize_word_end src (int i) = canonicalize_word_end src (int k)"
  using assms(3,4)
proof (induction "k - i" arbitrary: i)
  case (Suc d)
  then have i: "i < k" by simp
  have "canonicalize_word_end src (int i) = canonicalize_word_end src (int (Suc i))"
    using Suc.prems i assms cstr_nth_nonzero [of i src] cstr_lt_length [of src]
    by (subst canonicalize_word_end.simps) (simp add: add.commute)
  with Suc.hyps(1) [of "Suc i"] Suc.hyps(2) Suc.prems i show ?case by simp
qed simp

lemma word_at_no_slash:
  assumes "q < j" "j < Suc q + length (word_at src q)"
  shows "src ! j \<noteq> SLASH"
proof -
  have lt: "j - Suc q < length (word_at src q)" using assms by simp
  then have "j - Suc q < length (drop (Suc q) src)"
    using length_takeWhile_le [of "\<lambda>c. c \<noteq> SLASH \<and> c \<noteq> 0" "drop (Suc q) src"] by (simp add: word_at_def)
  with lt assms(1) have "word_at src q ! (j - Suc q) = src ! j"
    by (simp add: word_at_def takeWhile_nth)
  moreover have "word_at src q ! (j - Suc q) \<in> set (word_at src q)" using assms by (intro nth_mem) simp
  ultimately show ?thesis by (auto simp: word_at_def dest: set_takeWhileD)
qed

lemma canonicalize_word_end_eq:
  assumes ter: "terminated src" and len: "length (cstr src) < 256"
  shows "closed_at src q \<Longrightarrow> canonicalize_word_end src (int q + 1) = Some (int (Suc q + length (word_at src q)))"
    "last_at src q \<Longrightarrow> canonicalize_word_end src (int q + 1) = Some (int (Suc (Suc q + length (word_at src q))))"
proof -
  define k where "k = Suc q + length (word_at src q)"
  have skip: "canonicalize_word_end src (int q + 1) = canonicalize_word_end src (int k)" if "k \<le> length (cstr src)"
    using canonicalize_word_end_skip [OF that len _ _ ter, of "Suc q"] word_at_no_slash [of q _ src]
    by (simp add: add.commute k_def)
  have n: "length (cstr src) < length src" using cstr_lt_length [OF ter] .
  show "canonicalize_word_end src (int q + 1) = Some (int (Suc q + length (word_at src q)))" if "closed_at src q"
    using skip that len n unfolding closed_at_def k_def [symmetric]
    by (simp add: canonicalize_word_end.simps [of src "int k"])
  show "canonicalize_word_end src (int q + 1) = Some (int (Suc (Suc q + length (word_at src q))))" if "last_at src q"
    using skip that len n nth_cstr_length [OF ter] unfolding last_at_def k_def [symmetric]
    by (simp add: canonicalize_word_end.simps [of src "int (length (cstr src))"])
qed

lemma word_slice:
  assumes "Suc q + length (word_at src q) \<le> length src" "src ! q = SLASH" "q < length src"
  shows "take (Suc (length (word_at src q))) (drop q src) = SLASH # word_at src q"
proof -
  have "drop q src = SLASH # drop (Suc q) src" using assms(2,3) by (simp flip: Cons_nth_drop_Suc)
  moreover have "take (length (word_at src q)) (drop (Suc q) src) = word_at src q"
    by (simp add: word_at_def flip: takeWhile_eq_take)
  ultimately show ?thesis by simp
qed

lemma canonicalize_reform_closed:
  assumes ter: "terminated src" and len: "length (cstr src) < 256"
    and "\<forall>q\<in>set st. closed_at src q" "k + length (render (map (word_at src) st)) \<le> length dst"
  shows "canonicalize_reform src (map int st @ ws) dst (int k) =
    canonicalize_reform src ws (take k dst @ render (map (word_at src) st) @
      drop (k + length (render (map (word_at src) st))) dst) (int (k + length (render (map (word_at src) st))))"
  using assms(3,4)
proof (induction st arbitrary: k dst)
  case (Cons q st)
  let ?w = "word_at src q" and ?k = "k + Suc (length (word_at src q))"
  let ?dst = "take k dst @ (SLASH # ?w) @ drop ?k dst"
  have q: "closed_at src q" "Suc q + length ?w \<le> length src" "q < length src"
    using Cons.prems(1) cstr_lt_length [OF ter] by (simp_all add: closed_at_def)
  have "canonicalize_copy dst src (int q) (int (Suc q + length ?w)) (int k) = Some (?dst, int ?k)"
    using canonicalize_copy_eq [of q "Suc q + length ?w" src k dst] word_slice [of q src] q Cons.prems(2)
    by (simp add: closed_at_def Suc_diff_le)
  then have "canonicalize_reform src (map int (q # st) @ ws) dst (int k) =
      canonicalize_reform src (map int st @ ws) ?dst (int ?k)"
    using canonicalize_word_end_eq(1) [OF ter len q(1)] by simp
  moreover have "length ?dst = length dst" using Cons.prems(2) by simp
  ultimately show ?case using Cons.IH [of ?k ?dst] Cons.prems by (simp add: ac_simps)
qed simp

lemma arr_set_drop:
  "arr_set (xs @ drop n dst) (int (length xs)) v = (if n < length dst then Some (xs @ v # drop (Suc n) dst) else None)"
  by (auto simp: arr_set_def Cons_nth_drop_Suc [symmetric])

text \<open>The effect of canonicalisation on the destination. A path whose last component is kept is
  copied with its terminator, so that two zero bytes follow the name.\<close>

lemma canonicalize_path_name_spec:
  assumes ter: "terminated src" and len: "length (cstr src) < 256" and blank: "BLANK \<notin> set (cstr src)"
    and dst: "length (canonical_name (cstr src)) < length dst"
  obtains m where "m = 1 \<or> m = 2"
    "canonicalize_path_name dst src = (if length (canonical_name (cstr src)) + m \<le> length dst
       then Some (OK, canonical_name (cstr src) @ replicate m 0 @ drop (length (canonical_name (cstr src)) + m) dst)
       else None)"
    "m = 1 \<Longrightarrow> \<exists>st. (\<forall>q\<in>set st. closed_at src q) \<and> map (word_at src) st = canonical_words (cstr src)"
proof -
  obtain st e stk where scan: "canonicalize_scan src 0 (- 1) 0 (replicate 256 0) = Some (Inr (int (length (st @ e)), stk))"
    and ok: "stack_ok stk (st @ e)" and st: "\<forall>q\<in>set st. closed_at src q"
    and e: "e = [] \<or> (\<exists>q. e = [q] \<and> last_at src q)"
    and words: "map (word_at src) (st @ e) = canonical_words (cstr src)"
    using canonicalize_scan_spec [OF ter len blank] by metis
  define r where "r = render (map (word_at src) st)"
  have stk: "take (nat (int (length (st @ e)))) stk = map int st @ map int e" 
    unfolding nat_int using ok by (simp add: stack_ok_def)
  have name: "canonical_name (cstr src) = r @ render (map (word_at src) e)"
    by (simp add: canonical_name_def r_def flip: words)
  have reform: "canonicalize_reform src (map int st @ map int e) dst 0 =
      canonicalize_reform src (map int e) (r @ drop (length r) dst) (int (length r))"
    using canonicalize_reform_closed [OF ter len st, of 0 dst "map int e"] dst name by (simp add: r_def)
  from e show ?thesis
  proof
    assume e: "e = []"
    show ?thesis
    proof (rule that [of 1])
      show "canonicalize_path_name dst src = (if length (canonical_name (cstr src)) + 1 \<le> length dst
       then Some (OK, canonical_name (cstr src) @ replicate 1 0 @ drop (length (canonical_name (cstr src)) + 1) dst)
       else None)"
        using scan stk reform name dst e
        by (simp add: canonicalize_path_name_def list_update_append Cons_nth_drop_Suc [symmetric])
    qed (use st words e in auto)
  next
    assume "\<exists>q. e = [q] \<and> last_at src q"
    then obtain q where e: "e = [q]" and q: "last_at src q" by blast
    let ?w = "word_at src q" and ?dst = "r @ drop (length r) dst"
    have src: "Suc q + length ?w < length src" "src ! (Suc q + length ?w) = 0" "src ! q = SLASH"
      using q cstr_lt_length [OF ter] nth_cstr_length [OF ter] by (simp_all add: last_at_def)
    have "take (Suc (Suc (length ?w))) (drop q src) = SLASH # ?w @ [0]"
      using word_slice [of q src] src by (simp add: take_Suc_conv_app_nth add.commute)
    then have "canonicalize_copy ?dst src (int q) (int (Suc (Suc q + length ?w))) (int (length r)) =
        Some (r @ (SLASH # ?w @ [0]) @ drop (length r + Suc (Suc (length ?w))) dst, int (length r + Suc (Suc (length ?w))))"
      using canonicalize_copy_eq [of q "Suc (Suc q + length ?w)" src "length r" ?dst] src dst name e
      by (simp add: Suc_diff_le add.commute)
    with canonicalize_word_end_eq(2) [OF ter len q]
    have fin: "canonicalize_reform src (map int e) ?dst (int (length r)) =
        Some (canonical_name (cstr src) @ [0] @ drop (length (canonical_name (cstr src)) + 1) dst,
          int (length (canonical_name (cstr src)) + 1))"
      using name e by (simp add: add.commute add.left_commute)
    show ?thesis
    proof (rule that [of 2])
      show "canonicalize_path_name dst src = (if length (canonical_name (cstr src)) + 2 \<le> length dst
       then Some (OK, canonical_name (cstr src) @ replicate 2 0 @ drop (length (canonical_name (cstr src)) + 2) dst)
       else None)"
        using scan stk reform fin dst arr_set_drop [of "canonical_name (cstr src) @ [0]" "length (canonical_name (cstr src)) + 1" dst 0]
        by (simp add: canonicalize_path_name_def numeral_2_eq_2)
    qed simp_all
  qed
qed

lemma resolve_words_from: "w \<in> set (resolve_words st ws) \<Longrightarrow> w \<in> set st \<or> w \<in> set ws \<or> w = []"
proof (induction st ws rule: resolve_words.induct)
  case (2 st v)
  then show ?case by (auto simp: push_word_def split: if_splits dest: in_set_butlastD)
next
  case (3 st v u ws)
  then show ?case by (auto simp: push_word_def split: if_splits dest: in_set_butlastD)
qed simp

lemma canonical_name_set: "set (canonical_name p) \<subseteq> insert SLASH (set p)"
proof -
  have "set w \<subseteq> set p" if "w \<in> set (canonical_words p)" for w
  proof (cases "SLASH \<in> set p")
    case True
    then obtain q r where "p = q @ SLASH # r" "tl (dropWhile (\<lambda>c. c \<noteq> SLASH) p) = r" by (rule slash_split)
    with that True show ?thesis
      using resolve_words_from [of w "[]" "split_slash r"] split_slash_elem [of w r] by (auto simp: canonical_words_def)
  qed (use that in \<open>simp add: canonical_words_def\<close>)
  then show ?thesis by (auto simp: canonical_name_def render_def)
qed

lemma canonical_name_nonzero: "0 \<notin> set (canonical_name (cstr b))"
  using canonical_name_set [of "cstr b"] cstr_nonzero by fastforce

lemma canonicalize_OK:
  assumes "terminated src" "length (cstr src) \<le> 254" "BLANK \<notin> set (cstr src)" "length dst = 256"
  obtains dst' where "canonicalize_path_name dst src = Some (OK, canonical_name (cstr src) @ 0 # dst')"
    "length (canonical_name (cstr src) @ 0 # dst') = 256" "set dst' \<subseteq> insert 0 (set dst)"
proof -
  have n: "length (canonical_name (cstr src)) \<le> 254" using canonical_name_length [of "cstr src"] assms(2) by simp
  obtain m where m: "m = 1 \<or> m = 2" and run: "canonicalize_path_name dst src = (if length (canonical_name (cstr src)) + m \<le> length dst
       then Some (OK, canonical_name (cstr src) @ replicate m 0 @ drop (length (canonical_name (cstr src)) + m) dst)
       else None)"
    using canonicalize_path_name_spec [OF assms(1) _ assms(3), of dst] assms(2,4) n by auto
  let ?d = "replicate (m - 1) 0 @ drop (length (canonical_name (cstr src)) + m) dst"
  have "replicate m 0 @ drop (length (canonical_name (cstr src)) + m) dst = 0 # ?d"
    using m by (auto simp: numeral_2_eq_2)
  with run m n assms(4) have "canonicalize_path_name dst src = Some (OK, canonical_name (cstr src) @ 0 # ?d)" by auto
  then show ?thesis
    by (rule that) (use m n assms(4) in_set_dropD in \<open>auto dest: in_set_dropD\<close>)
qed

lemma canonicalize_blank:
  assumes ter: "terminated src" and len: "length (cstr src) < 256" and blank: "BLANK \<in> set (cstr src)"
  shows "canonicalize_path_name dst src = Some (- ERR_INVALID_ARG, dst)"
proof -
  obtain b where b: "b < length (cstr src)" "cstr src ! b = BLANK" using blank by (auto simp: in_set_conv_nth)
  have "canonicalize_scan src (int 0) (- 1) 0 (replicate 256 0) = Some (Inl (- ERR_INVALID_ARG))"
    by (rule canonicalize_scan_blank [of b])
      (use b len cstr_lt_length [OF ter] cstr_nth [OF b(1)] cstr_nth_nonzero [of _ src] in simp_all)
  then show ?thesis by (simp add: canonicalize_path_name_def)
qed

text \<open>C13. canonicalize_path_name on a terminated path of at most 254 bytes and a destination of
  MAX_PATH bytes: a path with a blank is rejected and the destination is untouched. Otherwise
  the destination holds the canonical name: the components after the first slash with empty
  components and dots dropped and every double dot resolved. The result has only clean
  components (or is the root), is not longer than the path, and is its own canonical name.\<close>

theorem canonicalize_path_name_correct:
  assumes ter: "terminated src" and len: "length (cstr src) \<le> 254" and dst: "length dst = 256"
  shows "\<exists>ret dst'. canonicalize_path_name dst src = Some (ret, dst') \<and>
    (if BLANK \<in> set (cstr src) then ret = - ERR_INVALID_ARG \<and> dst' = dst
     else ret = OK \<and> length dst' = 256 \<and> cstr dst' = render (canonical_words (cstr src)) \<and>
       length (cstr dst') \<le> length (cstr src) \<and> canonical_words (cstr dst') = canonical_words (cstr src) \<and>
       (canonical_words (cstr src) = [[]] \<or> (\<forall>w\<in>set (canonical_words (cstr src)). clean_word w)))"
proof (cases "BLANK \<in> set (cstr src)")
  case True
  then show ?thesis using canonicalize_blank [OF ter _ True, of dst] len by simp
next
  case False
  obtain dst' where run: "canonicalize_path_name dst src = Some (OK, canonical_name (cstr src) @ 0 # dst')"
    and len': "length (canonical_name (cstr src) @ 0 # dst') = 256"
    using canonicalize_OK [OF ter len False dst] by metis
  have "cstr (canonical_name (cstr src) @ 0 # dst') = canonical_name (cstr src)"
    using cstr_of_string [OF canonical_name_nonzero] by blast
  with run len' False canonical_name_length [of "cstr src"] canonical_words_render [OF canonical_words_clean]
    canonical_words_clean [of "cstr src"] show ?thesis by (simp add: canonical_name_def)
qed

theorem canonicalize_path_name_correct_witness:
  "\<exists>ret dst'. canonicalize_path_name (replicate 256 0) (c_lit ''/a//../b/.'') = Some (ret, dst') \<and>
    (if BLANK \<in> set (cstr (c_lit ''/a//../b/.'')) then ret = - ERR_INVALID_ARG \<and> dst' = replicate 256 0
     else ret = OK \<and> length dst' = 256 \<and> cstr dst' = render (canonical_words (cstr (c_lit ''/a//../b/.''))) \<and>
       length (cstr dst') \<le> length (cstr (c_lit ''/a//../b/.'')) \<and>
       canonical_words (cstr dst') = canonical_words (cstr (c_lit ''/a//../b/.'')) \<and>
       (canonical_words (cstr (c_lit ''/a//../b/.'')) = [[]] \<or> (\<forall>w\<in>set (canonical_words (cstr (c_lit ''/a//../b/.''))). clean_word w)))"
  by (rule canonicalize_path_name_correct) (simp_all add: c_lit_def)

text \<open>C14. A path of 255 bytes is the longest that fits in a buffer of MAX_PATH bytes. When it is a
  single component after a slash, canonicalize_path_name copies it with its terminator and then
  writes a second terminator, one byte behind the destination.\<close>

theorem canonicalize_path_name_overflow:
  assumes "clean_word w" "length w = 254" "0 \<notin> set w" "BLANK \<notin> set w" "length dst = 256"
  shows "canonicalize_path_name dst (SLASH # w @ [0]) = None"
proof -
  let ?src = "SLASH # w @ [0]"
  have c: "cstr ?src = SLASH # w" and ter: "terminated ?src"
    using cstr_of_string [of "SLASH # w" "[]"] assms(3) by auto
  have words: "canonical_words (SLASH # w) = [w]"
    using canonical_words_render [of "[w]"] assms(1) by simp
  have name: "canonical_name (cstr ?src) = SLASH # w" using words c by (simp add: canonical_name_def)
  obtain m where m: "m = 1 \<or> m = 2" "canonicalize_path_name dst ?src = (if length (canonical_name (cstr ?src)) + m \<le> length dst
       then Some (OK, canonical_name (cstr ?src) @ replicate m 0 @ drop (length (canonical_name (cstr ?src)) + m) dst)
       else None)"
    "m = 1 \<Longrightarrow> \<exists>st. (\<forall>q\<in>set st. closed_at ?src q) \<and> map (word_at ?src) st = canonical_words (cstr ?src)"
    using canonicalize_path_name_spec [OF ter, of dst] assms(2,4,5) c name by auto
  have "m \<noteq> 1"
  proof
    assume "m = 1"
    with m(3) words c obtain q where q: "closed_at ?src q" "word_at ?src q = w" by auto
    then have "Suc q + 254 < 255" using c assms(2) by (simp add: closed_at_def)
    then show False by simp
  qed
  with m assms(2,5) name show ?thesis by simp
qed

theorem canonicalize_path_name_overflow_witness:
  "canonicalize_path_name (replicate 256 0) (SLASH # replicate 254 97 @ [0]) = None"
  by (rule canonicalize_path_name_overflow) (auto simp: clean_word_def dest: arg_cong [where f = length])

subsection \<open>Splitting\<close>

lemma split_word_end_eq:
  assumes "terminated (drop i path)"
  shows "split_word_end path (int i) = Some (int (i + length (takeWhile (\<lambda>c. c \<noteq> 0 \<and> c \<noteq> SLASH) (drop i path))))"
  using assms
proof (induction "length path - i" arbitrary: i)
  case 0
  then show ?case by simp
next
  case (Suc d)
  then have i: "i < length path" by simp
  then have d: "drop i path = path ! i # drop (Suc i) path" by (simp add: Cons_nth_drop_Suc)
  show ?case
  proof (cases "path ! i \<noteq> 0 \<and> path ! i \<noteq> SLASH")
    case True
    have "split_word_end path (int i) = split_word_end path (int (Suc i))"
      using True i by (subst split_word_end.simps) (simp add: add.commute [of _ 1])
    moreover have "terminated (drop (Suc i) path)" using Suc.prems True d by simp
    ultimately show ?thesis using Suc.hyps(1) [of "Suc i"] Suc.hyps(2) True by (simp add: d)
  next
    case False
    with i show ?thesis by (subst split_word_end.simps) (auto simp: d)
  qed
qed

lemma take_eq_mono: "take j xs = take j ys \<Longrightarrow> i \<le> j \<Longrightarrow> take i xs = take i ys"
  by (metis min.absorb1 take_take)

lemma cstr_append: "0 \<notin> set xs \<Longrightarrow> cstr (xs @ ys) = xs @ cstr ys"
  by (induction xs) auto

text \<open>From an offset on, the pieces are the components that are not empty.\<close>

lemma split_path_loop_eq:
  assumes "terminated (drop i path)" "length arr + length (cstr (drop i path)) \<le> 256"
  shows "\<exists>path' arr'. split_path_loop path (int i) arr = Some (path', arr @ arr') \<and> length path' = length path \<and>
    take i path' = take i path \<and>
    map (\<lambda>ptr. cstr (drop (nat ptr) path')) arr' = filter (\<lambda>w. w \<noteq> []) (split_slash (cstr (drop i path))) \<and>
    (\<forall>ptr\<in>set arr'. terminated (drop (nat ptr) path'))"
  using assms
proof (induction "length path - i" arbitrary: i path arr rule: less_induct)
  case less
  then have i: "i < length path" by (metis drop_all not_less terminated_Nil)
  then have d: "drop i path = path ! i # drop (Suc i) path" by (simp add: Cons_nth_drop_Suc)
  define w where "w = takeWhile (\<lambda>c. c \<noteq> 0 \<and> c \<noteq> SLASH) (drop i path)"
  define e where "e = i + length w"
  have we: "split_word_end path (int i) = Some (int e)"
    using split_word_end_eq [OF less.prems(1)] by (simp add: w_def e_def)
  consider "path ! i = 0" | "path ! i = SLASH" | "path ! i \<noteq> 0" "path ! i \<noteq> SLASH" by blast
  then show ?case
  proof cases
    case 1
    then show ?thesis using i by (intro exI [of _ path] exI [of _ "[]"]) (subst split_path_loop.simps, simp add: d)
  next
    case 2
    then have "e = i" by (simp add: e_def w_def d)
    then have "split_path_loop path (int i) arr = split_path_loop path (int (Suc i)) arr"
      using 2 i we by (subst split_path_loop.simps) (simp add: add.commute [of _ 1])
    moreover have "terminated (drop (Suc i) path)" "length arr + length (cstr (drop (Suc i) path)) \<le> 256"
      using less.prems 2 by (simp_all add: d)
    moreover have lt: "length path - Suc i < length path - i" using i by simp
    ultimately obtain path' arr' where IH: "split_path_loop path (int i) arr = Some (path', arr @ arr')"
        "length path' = length path" "take (Suc i) path' = take (Suc i) path"
        "map (\<lambda>ptr. cstr (drop (nat ptr) path')) arr' = filter (\<lambda>w. w \<noteq> []) (split_slash (cstr (drop (Suc i) path)))"
        "\<forall>ptr\<in>set arr'. terminated (drop (nat ptr) path')"
      using less.hyps [OF lt, of arr] by auto
    have "split_slash (cstr (drop i path)) = [] # split_slash (cstr (drop (Suc i) path))" using 2 by (simp add: d)
    with IH take_eq_mono [OF IH(3), of i] show ?thesis by (intro exI [of _ path'] exI [of _ arr']) simp
  next
    case 3
    have w: "w \<noteq> []" "0 \<notin> set w" "SLASH \<notin> set w"
      using 3 by (auto simp: w_def d dest: set_takeWhileD)
    have "drop e path = dropWhile (\<lambda>c. c \<noteq> 0 \<and> c \<noteq> SLASH) (drop i path)"
      by (simp add: dropWhile_eq_drop e_def w_def add.commute)
    then have rest: "drop i path = w @ drop e path" by (simp add: w_def)
    with less.prems(1) w have ter: "terminated (drop e path)" by (simp add: terminated_def)
    then have e: "e < length path" by (metis drop_all not_less terminated_Nil)
    then have de: "drop e path = path ! e # drop (Suc e) path" by (simp add: Cons_nth_drop_Suc)
    have c: "cstr (drop i path) = w @ cstr (drop e path)" using rest cstr_append [OF w(2)] by simp
    have stop: "path ! e = 0 \<or> path ! e = SLASH"
      using nth_length_takeWhile [of "\<lambda>c. c \<noteq> 0 \<and> c \<noteq> SLASH" "drop i path"] e
      by (simp add: w_def [symmetric] e_def) 
    have arr: "int (length arr) < 256" "int e - int i \<noteq> 0" using less.prems(2) c w(1) e_def by (cases w; simp)+
    show ?thesis
    proof (cases "path ! e = 0")
      case True
      then have "cstr (drop i path) = w" using c de by simp
      with split_slash_word [OF w(3)] w less.prems(1) True 3 i we arr show ?thesis
        by (intro exI [of _ path] exI [of _ "[int i]"]) (subst split_path_loop.simps, simp)
    next
      case False
      define path1 where "path1 = path[e := 0]"
      have run: "split_path_loop path (int i) arr = split_path_loop path1 (int (Suc e)) (arr @ [int i])"
        using False stop 3 i we arr by (subst split_path_loop.simps) (simp add: path1_def add.commute [of _ 1])
      have c': "cstr (drop i path) = w @ SLASH # cstr (drop (Suc e) path)" using c de False stop by auto
      have d1: "drop (Suc e) path1 = drop (Suc e) path" by (simp add: path1_def)
      have "\<exists>path' arr'. split_path_loop path1 (int (Suc e)) (arr @ [int i]) = Some (path', (arr @ [int i]) @ arr') \<and>
          length path' = length path1 \<and> take (Suc e) path' = take (Suc e) path1 \<and>
          map (\<lambda>ptr. cstr (drop (nat ptr) path')) arr' = filter (\<lambda>w. w \<noteq> []) (split_slash (cstr (drop (Suc e) path1))) \<and>
          (\<forall>ptr\<in>set arr'. terminated (drop (nat ptr) path'))"
      proof (rule less.hyps)
        show "length path1 - Suc e < length path - i" using i e by (simp add: path1_def e_def)
        show "terminated (drop (Suc e) path1)" using ter de False d1 by simp
        show "length (arr @ [int i]) + length (cstr (drop (Suc e) path1)) \<le> 256" using less.prems(2) c' d1 by simp
      qed
      then obtain path' arr' where IH: "split_path_loop path1 (int (Suc e)) (arr @ [int i]) = Some (path', arr @ int i # arr')"
          "length path' = length path" "take (Suc e) path' = take (Suc e) path1"
          "map (\<lambda>ptr. cstr (drop (nat ptr) path')) arr' = filter (\<lambda>w. w \<noteq> []) (split_slash (cstr (drop (Suc e) path)))"
          "\<forall>ptr\<in>set arr'. terminated (drop (nat ptr) path')"
        by (auto simp: d1 path1_def)
      have "take (Suc e) path1 = take e path @ [0]" using e by (simp add: path1_def take_Suc_conv_app_nth)
      moreover have "drop i (take e path) = w" using rest by (simp add: drop_take e_def)
      ultimately have "drop i (take (Suc e) path') = w @ [0]" using e IH(3) by (simp add: e_def)
      moreover have "drop i path' = drop i (take (Suc e) path') @ drop (Suc e) path'"
        using e IH(2) drop_append [of i "take (Suc e) path'" "drop (Suc e) path'"] by (simp add: e_def)
      ultimately have "drop i path' = w @ 0 # drop (Suc e) path'" by simp
      then have "cstr (drop i path') = w" "terminated (drop i path')" using cstr_of_string [OF w(2)] by simp_all
      moreover have "take i path' = take i path"
        using take_eq_mono [OF IH(3), of i] by (simp add: e_def path1_def)
      ultimately show ?thesis
        using run IH c' w split_slash_append [OF w(3)] by (intro exI [of _ path'] exI [of _ "int i # arr'"]) simp
    qed
  qed
qed

lemma split_path_eq:
  assumes "terminated path" "length (cstr path) \<le> 256"
  obtains path' arr where "split_path path = Some (path', arr)" "length path' = length path"
    "map cstr (split_pieces (path', arr)) = filter (\<lambda>w. w \<noteq> []) (split_slash (cstr path))"
    "\<forall>p\<in>set (split_pieces (path', arr)). terminated p"
  using split_path_loop_eq [of 0 path "[]"] assms by (auto simp: split_path_def split_pieces_def comp_def)

text \<open>C15. Splitting a canonical name gives back its components: canonicalising any path of at most
  254 bytes without blanks into a zeroed buffer and splitting that buffer yields terminated
  pieces whose strings are the clean components of the path, and none for the root.\<close>

theorem split_canonical_path:
  assumes "terminated src" "length (cstr src) \<le> 254" "BLANK \<notin> set (cstr src)"
  shows "\<exists>c_name path' arr. canonicalize_path_name (replicate 256 0) src = Some (OK, c_name) \<and>
    split_path c_name = Some (path', arr) \<and>
    map cstr (split_pieces (path', arr)) = filter (\<lambda>w. w \<noteq> []) (canonical_words (cstr src)) \<and>
    (\<forall>p\<in>set (split_pieces (path', arr)). terminated p \<and> clean_word (cstr p))"
proof -
  let ?ws = "canonical_words (cstr src)"
  obtain rest where run: "canonicalize_path_name (replicate 256 0) src = Some (OK, canonical_name (cstr src) @ 0 # rest)"
    using canonicalize_OK [OF assms, of "replicate 256 0"] by auto
  let ?c = "canonical_name (cstr src) @ 0 # rest"
  have c: "cstr ?c = canonical_name (cstr src)" "terminated ?c" using cstr_of_string [OF canonical_name_nonzero] by auto
  have "length (cstr ?c) \<le> 256" using canonical_name_length [of "cstr src"] assms(2) c by simp
  then obtain path' arr where split: "split_path ?c = Some (path', arr)"
      "map cstr (split_pieces (path', arr)) = filter (\<lambda>w. w \<noteq> []) (split_slash (cstr ?c))"
      "\<forall>p\<in>set (split_pieces (path', arr)). terminated p"
    using split_path_eq [OF c(2)] by metis
  have "filter (\<lambda>w. w \<noteq> []) (split_slash (render ?ws)) = filter (\<lambda>w. w \<noteq> []) ?ws"
  proof (cases ?ws)
    case (Cons v vs)
    then have "split_slash (v @ render vs) = v # vs"
      using canonical_words_clean [of "cstr src"] by (intro split_render) (auto simp: clean_word_def)
    with Cons show ?thesis by simp
  qed simp
  then have pieces: "map cstr (split_pieces (path', arr)) = filter (\<lambda>w. w \<noteq> []) ?ws"
    using split(2) c(1) by (simp add: canonical_name_def)
  moreover have "\<forall>w\<in>set (filter (\<lambda>w. w \<noteq> []) ?ws). clean_word w"
    using canonical_words_clean [of "cstr src"] by auto
  then have "\<forall>p\<in>set (split_pieces (path', arr)). clean_word (cstr p)" unfolding pieces [symmetric] by simp
  ultimately show ?thesis using run split(1,3) by blast
qed

theorem split_canonical_path_witness:
  "\<exists>c_name path' arr. canonicalize_path_name (replicate 256 0) (c_lit ''/home//zelda/./x'') = Some (OK, c_name) \<and>
    split_path c_name = Some (path', arr) \<and>
    map cstr (split_pieces (path', arr)) = filter (\<lambda>w. w \<noteq> []) (canonical_words (cstr (c_lit ''/home//zelda/./x''))) \<and>
    (\<forall>p\<in>set (split_pieces (path', arr)). terminated p \<and> clean_word (cstr p))"
  by (rule split_canonical_path) (simp_all add: c_lit_def)

subsection \<open>Mount entries\<close>

text \<open>The mount table holds canonical mount points in zero padded buffers, all different.\<close>

definition mount_name :: "mount_entry \<Rightarrow> u8 list" where
  "mount_name e = cstr (mount_point e)"

definition mounts_ok :: "mount_entry list \<Rightarrow> bool" where
  "mounts_ok es \<longleftrightarrow> (\<forall>e\<in>set es. length (mount_point e) = 256 \<and> terminated (mount_point e)) \<and>
     (\<forall>i j. i < length es \<longrightarrow> j < length es \<longrightarrow> i \<noteq> j \<longrightarrow> me_valid (es ! i) \<longrightarrow> me_valid (es ! j) \<longrightarrow>
        mount_name (es ! i) \<noteq> mount_name (es ! j))"

text \<open>The candidates for a path, and the best of them.\<close>

definition mount_match :: "u8 list \<Rightarrow> mount_entry \<Rightarrow> bool" where
  "mount_match name e \<longleftrightarrow> me_valid e \<and> prefix (mount_name e) name"

definition best_mount :: "u8 list \<Rightarrow> mount_entry list \<Rightarrow> int \<Rightarrow> bool" where
  "best_mount name es b \<longleftrightarrow> (b = - 1 \<and> (\<forall>e\<in>set es. \<not> mount_match name e)) \<or>
     (0 \<le> b \<and> b < int (length es) \<and> mount_match name (es ! nat b) \<and>
      (\<forall>e\<in>set es. mount_match name e \<longrightarrow> length (mount_name e) \<le> length (mount_name (es ! nat b))))"

lemma search_mount_loop_spec:
  assumes "terminated c_name" "\<forall>e\<in>set (pre @ es). terminated (mount_point e)" "idx = int (length pre)"
    "best_mount (cstr c_name) pre b" "b \<noteq> - 1 \<longrightarrow> d = int (length (mount_name (pre ! nat b)))"
  shows "\<exists>r. search_mount_loop c_name idx es b d t = Some r \<and> best_mount (cstr c_name) (pre @ es) r"
  using assms
proof (induction es arbitrary: pre idx b d t)
  case (Cons e es)
  have ter: "terminated (mount_point e)" using Cons.prems(2) by simp
  obtain r where r: "start_with c_name (mount_point e) = Some r" "r = 0 \<longleftrightarrow> prefix (mount_name e) (cstr c_name)"
    using start_with_returns [OF ter Cons.prems(1)] start_with_eq_0 [OF ter Cons.prems(1)] by (auto simp: mount_name_def)
  have deg: "mount_degree (mount_point e) t = int (length (mount_name e))"
    using ter by (simp add: mount_degree_def mount_name_def)
  define b' where "b' = (if mount_match (cstr c_name) e \<and> (b = - 1 \<or> d < int (length (mount_name e))) then idx else b)"
  define d' where "d' = (if b' = b then d else int (length (mount_name e)))"
  have nth: "0 \<le> b \<Longrightarrow> b < int (length pre) \<Longrightarrow> (pre @ [e]) ! nat b = pre ! nat b" by (simp add: nth_append)
  have neq: "b \<noteq> idx" using Cons.prems(3,4) by (auto simp: best_mount_def)
  have best: "best_mount (cstr c_name) (pre @ [e]) b'"
  proof (cases "b = - 1")
    case True
    with Cons.prems(4) have "\<forall>x\<in>set pre. \<not> mount_match (cstr c_name) x" by (simp add: best_mount_def)
    with True Cons.prems(3) show ?thesis by (auto simp: b'_def best_mount_def nth_append)
  next
    case False
    with Cons.prems(4) have b: "0 \<le> b" "b < int (length pre)" "mount_match (cstr c_name) (pre ! nat b)"
        "\<forall>x\<in>set pre. mount_match (cstr c_name) x \<longrightarrow> length (mount_name x) \<le> length (mount_name (pre ! nat b))"
      by (auto simp: best_mount_def)
    show ?thesis
    proof (cases "b' = b")
      case True
      with False b nth Cons.prems(5) neq show ?thesis by (auto simp: b'_def best_mount_def split: if_splits)
    next
      case new: False
      then have "b' = idx" "mount_match (cstr c_name) e" "d < int (length (mount_name e))"
        using False by (auto simp: b'_def split: if_splits)
      with b False Cons.prems(3,5) show ?thesis by (fastforce simp: best_mount_def)
    qed
  qed
  have deg': "b' \<noteq> - 1 \<longrightarrow> d' = int (length (mount_name ((pre @ [e]) ! nat b')))"
    using Cons.prems(3-5) nth neq by (auto simp: b'_def d'_def best_mount_def)
  have "\<exists>t'. search_mount_loop c_name idx (e # es) b d t = search_mount_loop c_name (idx + 1) es b' d' t'"
    using r deg neq by (auto simp: b'_def d'_def mount_match_def Let_def)
  then obtain t' where run: "search_mount_loop c_name idx (e # es) b d t = search_mount_loop c_name (idx + 1) es b' d' t'" by blast
  have "\<exists>r. search_mount_loop c_name (idx + 1) es b' d' t' = Some r \<and> best_mount (cstr c_name) ((pre @ [e]) @ es) r"
    by (rule Cons.IH) (use Cons.prems best deg' in auto)
  with run show ?case by simp
qed simp

lemma search_mount_entry_spec:
  assumes "mounts_ok es" "terminated path" "length (cstr path) \<le> 254" "BLANK \<notin> set (cstr path)"
  obtains b where "search_mount_entry es path = Some b" "best_mount (canonical_name (cstr path)) es b"
proof -
  obtain rest where run: "canonicalize_path_name (replicate 256 0) path = Some (OK, canonical_name (cstr path) @ 0 # rest)"
    using canonicalize_OK [OF assms(2-4), of "replicate 256 0"] by auto
  have c: "cstr (canonical_name (cstr path) @ 0 # rest) = canonical_name (cstr path)"
      "terminated (canonical_name (cstr path) @ 0 # rest)" using cstr_of_string [OF canonical_name_nonzero] by auto
  have "best_mount (canonical_name (cstr path)) [] (- 1)" by (simp add: best_mount_def)
  then show ?thesis
    using search_mount_loop_spec [of "canonical_name (cstr path) @ 0 # rest" "[]" es 0 "- 1" 0 0] run c assms(1) that
    by (auto simp: search_mount_entry_def mounts_ok_def)
qed

text \<open>A registered mount point conflicts with a new one that is an ancestor of it or equal to it.\<close>

definition mount_conflict :: "u8 list \<Rightarrow> mount_entry \<Rightarrow> bool" where
  "mount_conflict name e \<longleftrightarrow> me_valid e \<and> (\<exists>rest. mount_name e = name @ rest \<and> (rest = [] \<or> hd rest = SLASH))"

lemma register_scan_conflict:
  assumes "terminated c_name" "length (cstr c_name) \<le> 254" "length (mount_point e) = 256" "terminated (mount_point e)" "me_valid e"
  shows "register_mount_scan c_name t i (e # es) =
    (if mount_conflict (cstr c_name) e then Some (Inl ()) else register_mount_scan c_name t (i + 1) es)"
proof -
  obtain r where r: "start_with (mount_point e) c_name = Some r" "r = 0 \<longleftrightarrow> prefix (cstr c_name) (mount_name e)"
    using start_with_returns [OF assms(1,4)] start_with_eq_0 [OF assms(1,4)] by (auto simp: mount_name_def)
  let ?n = "length (cstr c_name)"
  have len: "strlen c_name = Some (of_nat ?n)" "unat (of_nat ?n :: u32) = ?n"
    using strlen_eq [OF assms(1)] assms(2) by (simp_all add: unat_of_nat)
  then have get: "arr_get (mount_point e) (uint (of_nat ?n :: u32)) = Some (mount_point e ! ?n)"
    using assms(2,3) by (simp add: uint_nat)
  show ?thesis
  proof (cases "r = 0")
    case True
    then obtain rest where rest: "mount_name e = cstr c_name @ rest" using r(2) by (auto simp: prefix_def)
    have "mount_point e ! ?n = (if rest = [] then 0 else hd rest)"
    proof (cases rest)
      case Nil
      with rest nth_cstr_length [OF assms(4)] show ?thesis by (simp add: mount_name_def)
    next
      case (Cons x xs)
      with rest have "?n < length (cstr (mount_point e))" "cstr (mount_point e) ! ?n = x" by (simp_all add: mount_name_def)
      with cstr_nth [of ?n "mount_point e"] Cons show ?thesis by simp
    qed
    moreover have "rest \<noteq> [] \<Longrightarrow> hd rest \<noteq> 0"
      using rest cstr_nonzero [of "hd rest" "mount_point e"] by (cases rest) (auto simp: mount_name_def)
    ultimately show ?thesis using True r(1) len get assms(5) rest by (auto simp: mount_conflict_def)
  next
    case False
    with r assms(5) show ?thesis by (auto simp: mount_conflict_def prefix_def)
  qed
qed

lemma register_mount_scan_spec:
  assumes "terminated c_name" "length (cstr c_name) \<le> 254"
    "\<forall>e\<in>set es. length (mount_point e) = 256 \<and> terminated (mount_point e)" "0 \<le> i"
  shows "if \<exists>e\<in>set es. mount_conflict (cstr c_name) e then register_mount_scan c_name t i es = Some (Inl ())
    else \<exists>r. register_mount_scan c_name t i es = Some (Inr r) \<and>
      (if t = - 1 then r = - 1 \<and> (\<forall>e\<in>set es. me_valid e) \<or> (\<exists>k<length es. r = i + int k \<and> \<not> me_valid (es ! k)) else r = t)"
  using assms(3,4)
proof (induction es arbitrary: t i)
  case (Cons e es)
  show ?case
  proof (cases "me_valid e")
    case True
    note run = register_scan_conflict [OF assms(1,2), of e t i es]
    show ?thesis
    proof (cases "mount_conflict (cstr c_name) e")
      case False
      then have "register_mount_scan c_name t i (e # es) = register_mount_scan c_name t (i + 1) es"
        using run True Cons.prems by simp
      then show ?thesis
        using Cons.IH [of "i + 1" t] Cons.prems False True
        by (cases "t = - 1") (auto simp: Ex_less_Suc2 algebra_simps split: if_splits simp del: register_mount_scan.simps(2))
    qed (use run True Cons.prems in simp)
  next
    case False
    then have run: "register_mount_scan c_name t i (e # es) = register_mount_scan c_name (if t = - 1 then i else t) (i + 1) es"
      by simp
    have nc: "\<not> mount_conflict (cstr c_name) e" using False by (simp add: mount_conflict_def)
    show ?thesis
      unfolding run using Cons.IH [of "i + 1" "if t = - 1 then i else t"] Cons.prems nc False
      by (cases "t = - 1") (auto simp: Ex_less_Suc2 split: if_splits)
  qed
qed simp

lemma register_file_system_spec:
  assumes ok: "mounts_ok es" "length es = 256" and mp: "terminated mp" "length (cstr mp) \<le> 254" "BLANK \<notin> set (cstr mp)"
  defines "name \<equiv> canonical_name (cstr mp)"
  obtains (conflict) "\<exists>e\<in>set es. mount_conflict name e" "register_file_system es mp fs = Some (- ERR_INVALID_ARG, es)"
  | (full) "\<forall>e\<in>set es. me_valid e" "register_file_system es mp fs = Some (- ERR_OUT_OF_RESOURCE, es)"
  | (mounted) k e where "\<forall>e\<in>set es. \<not> mount_conflict name e" "k < 256" "\<not> me_valid (es ! k)"
      "register_file_system es mp fs = Some (OK, es[k := e])"
      "mount_name e = name" "me_fs e = fs" "me_valid e" "length (mount_point e) = 256" "terminated (mount_point e)"
proof -
  obtain rest where run: "canonicalize_path_name (replicate 256 0) mp = Some (OK, name @ 0 # rest)"
      "length (name @ 0 # rest) = 256"
    using canonicalize_OK [OF mp, of "replicate 256 0"] by (auto simp: name_def)
  have c: "cstr (name @ 0 # rest) = name" "terminated (name @ 0 # rest)"
    using cstr_of_string [OF canonical_name_nonzero] by (auto simp: name_def)
  have n: "length name \<le> 254" using canonical_name_length [of "cstr mp"] mp(2) by (simp add: name_def)
  have es: "\<forall>e\<in>set es. length (mount_point e) = 256 \<and> terminated (mount_point e)" using ok(1) by (simp add: mounts_ok_def)
  note scan = register_mount_scan_spec [OF c(2) _ es, of 0 "- 1", unfolded c(1), OF n, simplified]
  show ?thesis
  proof (cases "\<exists>e\<in>set es. mount_conflict name e")
    case True
    with scan run have "register_file_system es mp fs = Some (- ERR_INVALID_ARG, es)" by (simp add: register_file_system_def)
    with True conflict show ?thesis by blast
  next
    case False
    with scan obtain r where r: "register_mount_scan (name @ 0 # rest) (- 1) 0 es = Some (Inr r)"
        "r = - 1 \<and> (\<forall>e\<in>set es. me_valid e) \<or> (\<exists>k<length es. r = int k \<and> \<not> me_valid (es ! k))" by auto
    from r(2) show ?thesis
    proof
      assume full': "r = - 1 \<and> (\<forall>e\<in>set es. me_valid e)"
      with r(1) run have "register_file_system es mp fs = Some (- ERR_OUT_OF_RESOURCE, es)" by (simp add: register_file_system_def)
      with full' full show ?thesis by blast
    next
      assume "\<exists>k<length es. r = int k \<and> \<not> me_valid (es ! k)"
      then obtain k where k: "k < 256" "r = int k" "\<not> me_valid (es ! k)" using ok(2) by auto
      define e where "e = \<lparr>mount_point = name @ 0 # drop (Suc (length name)) (replicate 256 0), me_fs = fs, me_valid = True\<rparr>"
      have "strcpy_safe (replicate 256 0) (name @ 0 # rest) MAX_PATH = Some (mount_point e)"
        using strcpy_safe_eq [OF c(2), of MAX_PATH "replicate 256 0"] c(1) n by (simp add: e_def)
      with r(1) run k ok(2) have "register_file_system es mp fs = Some (OK, es[k := e])"
        by (simp add: register_file_system_def e_def)
      moreover have "mount_name e = name" "terminated (mount_point e)"
        using cstr_of_string [OF canonical_name_nonzero] by (auto simp: e_def mount_name_def name_def)
      moreover have "length (mount_point e) = 256" using n by (simp add: e_def)
      ultimately show ?thesis using mounted [of k e] False k by (simp add: e_def)
    qed
  qed
qed

lemma mounts_ok_update:
  assumes "mounts_ok es" "k < length es" "length (mount_point e) = 256" "terminated (mount_point e)"
    "\<And>x. x \<in> set es \<Longrightarrow> me_valid x \<Longrightarrow> mount_name x \<noteq> mount_name e"
  shows "mounts_ok (es[k := e])"
proof -
  have "mount_name (es[k := e] ! i) \<noteq> mount_name (es[k := e] ! j)"
    if "i < length es" "j < length es" "i \<noteq> j" "me_valid (es[k := e] ! i)" "me_valid (es[k := e] ! j)" for i j
    using assms(1,2) assms(5) [of "es ! i"] assms(5) [of "es ! j"] that
    by (cases "i = k"; cases "j = k") (auto simp: mounts_ok_def)
  then show ?thesis
    using assms(1,3,4) set_update_subset_insert [of es k e] by (auto simp: mounts_ok_def)
qed

text \<open>C16. search_mount_entry stops the kernel on a path with a blank. On any other terminated path
  of at most 254 bytes it returns, and it returns an entry whose mount point is the longest one
  that is a bytewise prefix of the canonical name, or no entry if there is none.\<close>

theorem search_mount_entry_correct:
  assumes "mounts_ok es" "terminated path" "length (cstr path) \<le> 254"
  shows "if BLANK \<in> set (cstr path) then search_mount_entry es path = None
    else \<exists>b. search_mount_entry es path = Some b \<and> best_mount (canonical_name (cstr path)) es b"
  using canonicalize_blank [OF assms(2), of "replicate 256 0"] search_mount_entry_spec [OF assms] assms(3)
  by (auto simp: search_mount_entry_def)

theorem search_mount_entry_correct_witness:
  "if BLANK \<in> set (cstr (c_lit ''/a b'')) then search_mount_entry [zero_mount_entry] (c_lit ''/a b'') = None
    else \<exists>b. search_mount_entry [zero_mount_entry] (c_lit ''/a b'') = Some b \<and>
      best_mount (canonical_name (cstr (c_lit ''/a b''))) [zero_mount_entry] b"
  by (rule search_mount_entry_correct)
    (simp_all add: c_lit_def mounts_ok_def zero_mount_entry_def terminated_def)

text \<open>C17. A file system that register_file_system has accepted is the one that is found for every
  path with the canonical name of its mount point, and the mount table stays well formed.\<close>

theorem mount_then_search:
  assumes ok: "mounts_ok es" "length es = 256" and mp: "terminated mp" "length (cstr mp) \<le> 254" "BLANK \<notin> set (cstr mp)"
    and reg: "register_file_system es mp fs = Some (OK, es')"
    and q: "terminated q" "length (cstr q) \<le> 254" "BLANK \<notin> set (cstr q)" "canonical_name (cstr q) = canonical_name (cstr mp)"
  shows "mounts_ok es' \<and> (\<exists>b. search_mount_entry es' q = Some b \<and> 0 \<le> b \<and> b < 256 \<and> me_fs (es' ! nat b) = fs)"
proof -
  let ?name = "canonical_name (cstr mp)"
  obtain k e where k: "\<forall>x\<in>set es. \<not> mount_conflict ?name x" "k < 256" "es' = es[k := e]"
      "mount_name e = ?name" "me_fs e = fs" "me_valid e" "length (mount_point e) = 256" "terminated (mount_point e)"
    using register_file_system_spec [OF ok mp, of fs] reg by (smt (verit) Pair_inject option.inject)
  have ok': "mounts_ok es'"
    unfolding k(3) by (rule mounts_ok_update) (use ok k in \<open>auto simp: mount_conflict_def\<close>)
  obtain b where b: "search_mount_entry es' q = Some b" "best_mount ?name es' b"
    using search_mount_entry_spec [OF ok' q(1-3)] q(4) by metis
  have e: "es' ! k = e" "e \<in> set es'" "mount_match ?name e"
    using k ok(2) by (simp_all add: mount_match_def set_update_memI)
  with b(2) have b': "0 \<le> b" "b < 256" "mount_match ?name (es' ! nat b)" "length ?name \<le> length (mount_name (es' ! nat b))"
    using k(3,4) ok(2) by (auto simp: best_mount_def)
  then have "mount_name (es' ! nat b) = ?name"
    by (auto simp: mount_match_def prefix_def)
  moreover have "me_valid (es' ! nat b)" using b'(3) by (simp add: mount_match_def)
  ultimately have "nat b = k"
    using ok' e(1) k(2,3,4,6) b'(1,2) ok(2) unfolding mounts_ok_def
    by (metis length_list_update nat_less_iff of_nat_numeral)
  with e(1) k(5) b b' ok' show ?thesis by auto
qed

theorem mount_then_search_witness:
  "\<exists>es'. register_file_system vfs_pre_init (c_lit ''/tmp/'') 64 = Some (OK, es') \<and> mounts_ok es' \<and>
    (\<exists>b. search_mount_entry es' (c_lit ''//tmp'') = Some b \<and> 0 \<le> b \<and> b < 256 \<and> me_fs (es' ! nat b) = 64)"
proof -
  have ok: "mounts_ok vfs_pre_init" "length vfs_pre_init = 256" "\<forall>e\<in>set vfs_pre_init. \<not> me_valid e" "vfs_pre_init \<noteq> []"
    by (auto simp: vfs_pre_init_def mounts_ok_def zero_mount_entry_def terminated_def)
  have mp: "terminated (c_lit ''/tmp/'')" "length (cstr (c_lit ''/tmp/'')) \<le> 254" "BLANK \<notin> set (cstr (c_lit ''/tmp/''))"
    "terminated (c_lit ''//tmp'')" "length (cstr (c_lit ''//tmp'')) \<le> 254" "BLANK \<notin> set (cstr (c_lit ''//tmp''))"
    "canonical_name (cstr (c_lit ''//tmp'')) = canonical_name (cstr (c_lit ''/tmp/''))"
    by (simp_all add: c_lit_def canonical_name_def canonical_words_def push_word_def)
  obtain es' where "register_file_system vfs_pre_init (c_lit ''/tmp/'') 64 = Some (OK, es')"
    using register_file_system_spec [OF ok(1,2) mp(1-3), of 64] ok(3,4)
    by (metis list.set_intros(1) mount_conflict_def neq_Nil_conv)
  with mount_then_search [OF ok(1,2) mp(1-3) this mp(4-7)] show ?thesis by blast
qed

text \<open>The match of mount points is bytewise and ignores where components end: with file systems
  mounted on the root and on /dev, the file /device is looked up in the one mounted on /dev.\<close>

lemma search_mount_entry_ignores_components:
  "\<exists>es. mounts_ok es \<and> map mount_name es = [cstr (c_lit ''/''), cstr (c_lit ''/dev'')] \<and>
    map me_valid es = [True, True] \<and> search_mount_entry es (c_lit ''/device'') = Some 1"
proof -
  define e0 where "e0 = \<lparr>mount_point = c_lit ''/'' @ replicate 254 0, me_fs = 8, me_valid = True\<rparr>"
  define e1 where "e1 = \<lparr>mount_point = c_lit ''/dev'' @ replicate 251 0, me_fs = 16, me_valid = True\<rparr>"
  have names: "mount_name e0 = cstr (c_lit ''/'')" "mount_name e1 = cstr (c_lit ''/dev'')"
    by (simp_all add: e0_def e1_def mount_name_def c_lit_def)
  have ok: "mounts_ok [e0, e1]"
    unfolding mounts_ok_def by (auto simp: names less_Suc_eq) (simp_all add: e0_def e1_def c_lit_def)
  have canon: "canonical_name (cstr (c_lit ''/device'')) = cstr (c_lit ''/device'')"
    by (simp add: c_lit_def canonical_name_def canonical_words_def push_word_def)
  have m: "mount_match (cstr (c_lit ''/device'')) e0" "mount_match (cstr (c_lit ''/device'')) e1"
    by (simp_all add: mount_match_def names) (simp_all add: e0_def e1_def c_lit_def)
  obtain b where b: "search_mount_entry [e0, e1] (c_lit ''/device'') = Some b"
      "best_mount (cstr (c_lit ''/device'')) [e0, e1] b"
    using search_mount_entry_spec [OF ok, of "c_lit ''/device''"] canon by (auto simp: c_lit_def)
  have "length (mount_name e0) < length (mount_name e1)" by (simp add: names c_lit_def)
  with b(2) m have "b = 1" by (auto simp: best_mount_def nth_Cons' split: if_splits)
  with b(1) ok names show ?thesis by (intro exI [of _ "[e0, e1]"]) (simp add: e0_def e1_def)
qed

end
