(* ===== verification/Malloc.thy ===== *)
theory Malloc
  imports Kernel_Vma
begin

section \<open>The kernel heap (\<^verbatim>\<open>memory/malloc.c\<close>)\<close>

text \<open>
  The heap between \<^verbatim>\<open>KERNEL_HEAP_BOTTOM\<close> and \<^verbatim>\<open>KERNEL_HEAP_TOP\<close> is a sequence of blocks, each
  with a \<^verbatim>\<open>malloc_header\<close> of 16 bytes at its start; an allocated block also has a
  \<^verbatim>\<open>padding_header\<close> of 4 bytes just below the pointer that is handed out. Free blocks are
  linked into thirteen bins by size. Headers and padding headers live in two memories indexed
  by address. The bins are thirteen headers at the address \<open>bins\<close>, which the linker chooses.

  \<^verbatim>\<open>__malloc\<close> ends with \<^verbatim>\<open>__free(hdr1)\<close> even if no block was split off and \<open>hdr1\<close> is the null
  pointer. Address 0 is mapped, so the call works on the header that the bytes from address 0
  happen to hold.
\<close>

record malloc_header =
  mh_prev :: u32
  mh_next :: u32
  mh_size :: u32
  mh_padding :: u16
  mh_free :: bool
  mh_magic :: "15 word"

record padding_header =
  ph_padding :: u16
  ph_free :: bool
  ph_magic :: "15 word"

record malloc_state =
  headers :: "addr \<Rightarrow> malloc_header"
  pad_headers :: "addr \<Rightarrow> padding_header"

abbreviation (input) MALLOC_MAGIC :: "15 word" where "MALLOC_MAGIC \<equiv> 0x5555"
abbreviation (input) RECYCLE_BIN_SIZE :: int where "RECYCLE_BIN_SIZE \<equiv> 13"
abbreviation (input) MISC_BIN :: int where "MISC_BIN \<equiv> 12"

definition upd_header :: "addr \<Rightarrow> (malloc_header \<Rightarrow> malloc_header) \<Rightarrow> malloc_state \<Rightarrow> malloc_state" where
  "upd_header a f s = s\<lparr>headers := (headers s)(a := f (headers s a))\<rparr>"

definition upd_padding :: "addr \<Rightarrow> padding_header \<Rightarrow> malloc_state \<Rightarrow> malloc_state" where
  "upd_padding a v s = s\<lparr>pad_headers := (pad_headers s)(a := v)\<rparr>"

definition zero_header :: malloc_header where
  "zero_header = \<lparr>mh_prev = 0, mh_next = 0, mh_size = 0, mh_padding = 0, mh_free = False, mh_magic = 0\<rparr>"

subsection \<open>Operations\<close>

fun bin_index :: "int list \<Rightarrow> int \<Rightarrow> int" where
  "bin_index [] len = 0"
| "bin_index (b # bs) len = (if len \<le> b then 0 else 1 + bin_index bs len)"

definition LENGTH_TO_RECYCLE_BIN_INDEX :: "int \<Rightarrow> int" where
  "LENGTH_TO_RECYCLE_BIN_INDEX len =
     bin_index [0x10, 0x20, 0x40, 0x80, 0x100, 0x200, 0x400, 0x800, 0x1000, 0x2000, 0x4000, 0x8000] len"

definition recycle_bin :: "addr \<Rightarrow> int \<Rightarrow> addr" where
  "recycle_bin bins i = bins + 16 * of_int i"

function validate_alignment :: "u32 \<Rightarrow> nat \<Rightarrow> bool" where
  "validate_alignment align idx =
     (if idx < 32 then
        (if align AND push_bit idx 1 \<noteq> 0 then align = push_bit idx 1 else validate_alignment align (Suc idx))
      else True)"
  by pat_completeness auto
termination by (relation "measure (\<lambda>(_, idx). 32 - idx)") auto

declare validate_alignment.simps [simp del]

definition NEXT_BLOCK :: "malloc_state \<Rightarrow> addr \<Rightarrow> addr" where
  "NEXT_BLOCK s hdr =
     (if mh_size (headers s hdr) + hdr < KERNEL_HEAP_TOP then mh_size (headers s hdr) + hdr else NULL)"

text \<open>Taking a header out of its bin: the same four statements occur in \<^verbatim>\<open>__malloc\<close> and
  \<^verbatim>\<open>__free\<close>.\<close>

definition detach_header :: "addr \<Rightarrow> malloc_state \<Rightarrow> malloc_state option" where
  "detach_header hdr s = do {
     let nxt = mh_next (headers s hdr);
     let prv = mh_prev (headers s hdr);
     kassert (prv \<noteq> NULL);
     let s = upd_header prv (\<lambda>h. h\<lparr>mh_next := nxt\<rparr>) s;
     Some (if nxt \<noteq> NULL then upd_header nxt (\<lambda>h. h\<lparr>mh_prev := prv\<rparr>) s else s) }"

text \<open>The walk along a bin to the first block of at least the given size, and to the last block.\<close>

partial_function (option) bin_position :: "malloc_state \<Rightarrow> u32 \<Rightarrow> addr \<Rightarrow> addr option" where
  "bin_position s sz ptr =
     (if ptr = NULL then Some NULL
      else if mh_size (headers s ptr) \<ge> sz then Some ptr
      else bin_position s sz (mh_next (headers s ptr)))"

partial_function (option) bin_last :: "malloc_state \<Rightarrow> addr \<Rightarrow> addr option" where
  "bin_last s ptr =
     (if mh_next (headers s ptr) \<noteq> NULL then bin_last s (mh_next (headers s ptr)) else Some ptr)"

definition coalesce :: "addr \<Rightarrow> malloc_state \<Rightarrow> malloc_state option" where
  "coalesce hdr s = do {
     let next_hdr = NEXT_BLOCK s hdr;
     kassert (mh_size (headers s hdr) \<ge> 16);
     if next_hdr \<noteq> NULL \<and> mh_free (headers s next_hdr) then do {
       kassert (mh_magic (headers s next_hdr) = MALLOC_MAGIC);
       s \<leftarrow> detach_header next_hdr s;
       Some (upd_header hdr (\<lambda>h. h\<lparr>mh_size := mh_size h + mh_size (headers s next_hdr)\<rparr>) s) }
     else Some s }"

definition bin_insert :: "addr \<Rightarrow> addr \<Rightarrow> malloc_state \<Rightarrow> malloc_state option" where
  "bin_insert bins hdr s = do {
     let avail_size = sint (mh_size (headers s hdr) - 16 - 4);
     let bin_idx = LENGTH_TO_RECYCLE_BIN_INDEX avail_size;
     ptr \<leftarrow> bin_position s (mh_size (headers s hdr)) (mh_next (headers s (recycle_bin bins bin_idx)));
     let s = upd_header hdr (\<lambda>h. h\<lparr>mh_free := True, mh_padding := 0\<rparr>) s;
     if ptr \<noteq> NULL then do {
       let s = upd_header hdr (\<lambda>h. h\<lparr>mh_prev := mh_prev (headers s ptr)\<rparr>) s;
       let s = upd_header hdr (\<lambda>h. h\<lparr>mh_next := ptr\<rparr>) s;
       let s = upd_header ptr (\<lambda>h. h\<lparr>mh_prev := hdr\<rparr>) s;
       Some (upd_header (mh_prev (headers s hdr)) (\<lambda>h. h\<lparr>mh_next := hdr\<rparr>) s) }
     else do {
       ptr \<leftarrow> bin_last s (recycle_bin bins bin_idx);
       let s = upd_header hdr (\<lambda>h. h\<lparr>mh_prev := ptr\<rparr>) s;
       let s = upd_header hdr (\<lambda>h. h\<lparr>mh_next := NULL\<rparr>) s;
       Some (upd_header ptr (\<lambda>h. h\<lparr>mh_next := hdr\<rparr>) s) } }"

definition free_block :: "addr \<Rightarrow> addr \<Rightarrow> malloc_state \<Rightarrow> malloc_state option" where
  "free_block bins hdr s = do { s \<leftarrow> coalesce hdr s; bin_insert bins hdr s }"

definition malloc_from :: "addr \<Rightarrow> addr \<Rightarrow> int \<Rightarrow> int \<Rightarrow> malloc_state \<Rightarrow> (addr \<times> malloc_state) option" where
  "malloc_from bins hdr len align s = do {
     let mask = (of_int align - 1 :: u32);
     let ulen = (of_int len :: u32);
     kassert (mh_free (headers s hdr));
     kassert (mh_magic (headers s hdr) = MALLOC_MAGIC);
     kassert (of_int align \<noteq> (0 :: u32));
     kassert (validate_alignment (of_int align) 0);
     if ulen + 16 + 4 > mh_size (headers s hdr) then Some (NULL, s)
     else do {
       let usr_ptr = hdr + 16 + 4;
       let padding = (if usr_ptr AND mask \<noteq> 0 then of_int align - (usr_ptr AND mask) else 0);
       let usr_ptr = usr_ptr + padding;
       kassert (usr_ptr AND mask = 0);
       if ulen + 16 + 4 + padding > mh_size (headers s hdr) then Some (NULL, s)
       else do {
         let left_over = mh_size (headers s hdr) - 16 - 4 - padding - ulen;
         s \<leftarrow> detach_header hdr s;
         let (hdr1, s) =
           (if left_over > 16 + 4 then
              (let hdr1 = hdr + mh_size (headers s hdr) - left_over;
                   s = upd_header hdr1 (\<lambda>h. \<lparr>mh_prev = 0, mh_next = 0, mh_size = left_over, mh_padding = 0,
                         mh_free = True, mh_magic = MALLOC_MAGIC\<rparr>) s
               in (hdr1, upd_header hdr (\<lambda>h. h\<lparr>mh_size := mh_size h - left_over\<rparr>) s))
            else (NULL, s));
         let s = upd_header hdr (\<lambda>h. h\<lparr>mh_prev := 0, mh_next := 0, mh_padding := ucast padding, mh_free := False\<rparr>) s;
         let s = upd_padding (hdr + 16 + padding) \<lparr>ph_padding = ucast padding, ph_free = False, ph_magic = MALLOC_MAGIC\<rparr> s;
         s \<leftarrow> free_block bins hdr1 s;
         Some (usr_ptr, s) } } }"

text \<open>The search through one bin, and through the bins from the given one on.\<close>

partial_function (option) malloc_chain ::
    "addr \<Rightarrow> int \<Rightarrow> int \<Rightarrow> addr \<Rightarrow> malloc_state \<Rightarrow> (addr \<times> malloc_state) option" where
  "malloc_chain bins len align chunk s =
     (if chunk = NULL then Some (NULL, s)
      else case malloc_from bins chunk len align s of
        None \<Rightarrow> None
      | Some (user_ptr, s) \<Rightarrow>
          if user_ptr \<noteq> NULL then Some (user_ptr, s)
          else malloc_chain bins len align (mh_next (headers s chunk)) s)"

function malloc_bins :: "addr \<Rightarrow> int \<Rightarrow> int \<Rightarrow> int \<Rightarrow> malloc_state \<Rightarrow> (addr \<times> malloc_state) option" where
  "malloc_bins bins len align idx s =
     (if idx < RECYCLE_BIN_SIZE then
        (case malloc_chain bins len align (mh_next (headers s (recycle_bin bins idx))) s of
           None \<Rightarrow> None
         | Some (user_ptr, s) \<Rightarrow>
             if user_ptr \<noteq> NULL then Some (user_ptr, s) else malloc_bins bins len align (idx + 1) s)
      else Some (NULL, s))"
  by pat_completeness auto
termination by (relation "measure (\<lambda>(_, _, _, idx, _). nat (RECYCLE_BIN_SIZE - idx))") auto

declare malloc_bins.simps [simp del]

definition malloc_align :: "addr \<Rightarrow> int \<Rightarrow> int \<Rightarrow> malloc_state \<Rightarrow> (addr \<times> malloc_state) option" where
  "malloc_align bins len align s = malloc_bins bins len align (LENGTH_TO_RECYCLE_BIN_INDEX len) s"

definition malloc :: "addr \<Rightarrow> int \<Rightarrow> malloc_state \<Rightarrow> (addr \<times> malloc_state) option" where
  "malloc bins len s = malloc_align bins len 1 s"

definition free :: "addr \<Rightarrow> addr \<Rightarrow> malloc_state \<Rightarrow> malloc_state option" where
  "free bins mem s = do {
     let padding_hdr = mem - 4;
     kassert (ph_magic (pad_headers s padding_hdr) = MALLOC_MAGIC);
     let malloc_hdr = padding_hdr - ucast (ph_padding (pad_headers s padding_hdr)) - 16;
     if mh_free (headers s malloc_hdr) then Some s else free_block bins malloc_hdr s }"

definition malloc_init :: "addr \<Rightarrow> malloc_state \<Rightarrow> malloc_state" where
  "malloc_init bins s =
     (let s = s\<lparr>headers := (\<lambda>a. if a \<in> recycle_bin bins ` {0..<RECYCLE_BIN_SIZE} then zero_header else headers s a)\<rparr>;
          s = upd_header KERNEL_HEAP_BOTTOM (\<lambda>h. zero_header\<lparr>mh_size := KERNEL_HEAP_TOP - KERNEL_HEAP_BOTTOM,
                mh_free := True, mh_magic := MALLOC_MAGIC, mh_prev := recycle_bin bins MISC_BIN\<rparr>) s
      in upd_header (recycle_bin bins MISC_BIN) (\<lambda>h. h\<lparr>mh_next := KERNEL_HEAP_BOTTOM\<rparr>) s)"

subsection \<open>Bins as doubly linked chains\<close>

primrec chain :: "(addr \<Rightarrow> malloc_header) \<Rightarrow> addr \<Rightarrow> addr list \<Rightarrow> bool" where
  "chain H p [] \<longleftrightarrow> mh_next (H p) = NULL"
| "chain H p (x # xs) \<longleftrightarrow> mh_next (H p) = x \<and> x \<noteq> NULL \<and> mh_prev (H x) = p \<and> chain H x xs"

lemma chain_frame:
  assumes "chain H p xs" "\<And>a. a \<in> set (p # xs) \<Longrightarrow> mh_next (H' a) = mh_next (H a)"
    "\<And>a. a \<in> set xs \<Longrightarrow> mh_prev (H' a) = mh_prev (H a)"
  shows "chain H' p xs"
  using assms by (induction xs arbitrary: p) auto

lemma chain_upd: "a \<notin> set (p # xs) \<Longrightarrow> chain (H(a := v)) p xs = chain H p xs"
  by (induction xs arbitrary: p) auto

lemma chain_append: "chain H p (xs @ y # ys) \<longleftrightarrow>
    chain (H(last (p # xs) := (H (last (p # xs)))\<lparr>mh_next := NULL\<rparr>)) p xs \<and>
    mh_next (H (last (p # xs))) = y \<and> y \<noteq> NULL \<and> mh_prev (H y) = last (p # xs) \<and> chain H y ys"
  if "distinct (p # xs)"
  using that
proof (induction xs arbitrary: p)
  case (Cons x xs)
  then show ?case by (cases "xs = []") (auto simp: fun_upd_def)
qed simp

lemma chain_not_NULL: "chain H p xs \<Longrightarrow> NULL \<notin> set xs"
  by (induction xs arbitrary: p) auto

lemma chain_last: "chain H p xs \<Longrightarrow> mh_next (H (last (p # xs))) = NULL"
  by (induction xs arbitrary: p) auto

lemma last_distinct:
  assumes "distinct (p # xs @ zs)"
  shows "last (p # xs) \<in> set (p # xs)" "last (p # xs) \<notin> set zs"
proof -
  show "last (p # xs) \<in> set (p # xs)" by (rule last_in_set) simp
  with assms show "last (p # xs) \<notin> set zs" by (auto simp del: last.simps)
qed

text \<open>Unlinking and linking a cell.\<close>

lemma chain_remove:
  assumes ch: "chain H p (xs @ y # ys)" and d: "distinct (p # xs @ y # ys)"
  defines "H1 \<equiv> H(mh_prev (H y) := (H (mh_prev (H y)))\<lparr>mh_next := mh_next (H y)\<rparr>)"
  shows "chain (if mh_next (H y) \<noteq> NULL then H1(mh_next (H y) := (H1 (mh_next (H y)))\<lparr>mh_prev := mh_prev (H y)\<rparr>) else H1)
      p (xs @ ys)"
    "mh_prev (H y) = last (p # xs)" "mh_next (H y) = (case ys of [] \<Rightarrow> NULL | z # _ \<Rightarrow> z)"
proof -
  define q where "q = last (p # xs)"
  have dx: "distinct (p # xs)" and q: "q \<in> set (p # xs)" "q \<notin> set ys" "q \<noteq> y"
    using d last_distinct [of p xs "y # ys"] by (auto simp: q_def simp del: last.simps)
  have parts: "chain (H(q := (H q)\<lparr>mh_next := NULL\<rparr>)) p xs" "mh_next (H q) = y" "mh_prev (H y) = q" "chain H y ys"
    using ch chain_append [OF dx, of H y ys] by (simp_all add: q_def)
  then show prev: "mh_prev (H y) = last (p # xs)" by (simp add: q_def)
  show nxt: "mh_next (H y) = (case ys of [] \<Rightarrow> NULL | z # _ \<Rightarrow> z)" using parts(4) by (cases ys) auto
  have H1: "H1 = H(q := (H q)\<lparr>mh_next := mh_next (H y)\<rparr>)" by (simp add: H1_def parts(3))
  show "chain (if mh_next (H y) \<noteq> NULL then H1(mh_next (H y) := (H1 (mh_next (H y)))\<lparr>mh_prev := mh_prev (H y)\<rparr>) else H1)
      p (xs @ ys)"
  proof (cases ys)
    case Nil
    with parts nxt H1 show ?thesis by simp
  next
    case (Cons z zs)
    with parts(4) have z: "mh_next (H y) = z" "z \<noteq> NULL" "chain H z zs" by auto
    have ne: "z \<notin> set (p # xs)" "z \<noteq> q" "z \<notin> set zs" "q \<notin> set zs" using d Cons q by auto
    let ?H = "H(q := (H q)\<lparr>mh_next := z\<rparr>, z := (H z)\<lparr>mh_prev := q\<rparr>)"
    have "chain (?H(q := (?H q)\<lparr>mh_next := NULL\<rparr>)) p xs"
      by (rule chain_frame [OF parts(1)]) (use ne in auto)
    moreover have "chain ?H z zs" by (rule chain_frame [OF z(3)]) (use ne in auto)
    ultimately have "chain ?H p (xs @ z # zs)"
      unfolding chain_append [OF dx] q_def [symmetric] using ne z by simp
    moreover have "H1(z := (H1 z)\<lparr>mh_prev := mh_prev (H y)\<rparr>) = ?H" using ne by (simp add: H1 z(1) parts(3))
    ultimately show ?thesis using z Cons by simp
  qed
qed

lemma chain_insert:
  assumes ch: "chain H p (xs @ y # ys)" and d: "distinct (p # xs @ y # ys)" and x: "x \<notin> set (p # xs @ y # ys)" "x \<noteq> NULL"
  defines "q \<equiv> mh_prev (H y)"
  shows "q = last (p # xs)" "chain (H(x := v\<lparr>mh_prev := q, mh_next := y\<rparr>, y := (H y)\<lparr>mh_prev := x\<rparr>,
     q := (H q)\<lparr>mh_next := x\<rparr>)) p (xs @ x # y # ys)"
proof -
  have dx: "distinct (p # xs)" and q': "last (p # xs) \<in> set (p # xs)" "last (p # xs) \<notin> set (y # ys)"
    using d last_distinct [of p xs "y # ys"] by (auto simp del: last.simps)
  have parts: "chain (H(q := (H q)\<lparr>mh_next := NULL\<rparr>)) p xs" "y \<noteq> NULL" "chain H y ys" "q = last (p # xs)"
    using ch chain_append [OF dx, of H y ys] by (simp_all add: q_def)
  then show "q = last (p # xs)" by simp
  have ne: "x \<noteq> q" "y \<noteq> q" "x \<noteq> y" "x \<notin> set (p # xs)" "y \<notin> set (p # xs)" "q \<notin> set ys" "x \<notin> set ys" "y \<notin> set ys"
    using x d q' parts(4) by auto
  let ?H = "H(x := v\<lparr>mh_prev := q, mh_next := y\<rparr>, y := (H y)\<lparr>mh_prev := x\<rparr>, q := (H q)\<lparr>mh_next := x\<rparr>)"
  have "chain (?H(q := (?H q)\<lparr>mh_next := NULL\<rparr>)) p xs"
  proof (rule chain_frame [OF parts(1)])
    show "mh_next ((?H(q := (?H q)\<lparr>mh_next := NULL\<rparr>)) a) = mh_next ((H(q := (H q)\<lparr>mh_next := NULL\<rparr>)) a)"
      if "a \<in> set (p # xs)" for a
      using that ne by auto
    show "mh_prev ((?H(q := (?H q)\<lparr>mh_next := NULL\<rparr>)) a) = mh_prev ((H(q := (H q)\<lparr>mh_next := NULL\<rparr>)) a)"
      if "a \<in> set xs" for a
      using that ne by auto
  qed
  moreover have "chain ?H y ys"
    by (rule chain_frame [OF parts(3)]) (use ne in auto)
  ultimately show "chain ?H p (xs @ x # y # ys)"
    unfolding chain_append [OF dx] parts(4) [symmetric] using ne parts(2) x(2) by simp
qed

lemma chain_snoc:
  assumes "chain H p xs" "distinct (p # xs)" "x \<notin> set (p # xs)" "x \<noteq> NULL"
  shows "chain (H(x := v\<lparr>mh_prev := last (p # xs), mh_next := NULL\<rparr>, last (p # xs) := (H (last (p # xs)))\<lparr>mh_next := x\<rparr>)) p (xs @ [x])"
  using assms
proof (induction xs arbitrary: p)
  case (Cons y ys)
  have ne: "p \<noteq> x" "p \<noteq> last (y # ys)" "last (y # ys) \<in> set (y # ys)" using Cons.prems by (auto split: if_splits)
  with Cons.prems Cons.IH [of y] show ?case by (auto simp del: last.simps simp: last_ConsR)
qed auto

subsection \<open>The thirteen bins together\<close>

definition bins_place :: "addr \<Rightarrow> bool" where
  "bins_place bins \<longleftrightarrow> bins \<noteq> 0 \<and> unat bins + 208 \<le> 0x8000000"

definition bin_cells :: "addr \<Rightarrow> addr set" where
  "bin_cells bins = (\<lambda>i. recycle_bin bins (int i)) ` {..<13}"

definition bins_ok :: "(addr \<Rightarrow> malloc_header) \<Rightarrow> addr \<Rightarrow> (nat \<Rightarrow> addr list) \<Rightarrow> bool" where
  "bins_ok H bins L \<longleftrightarrow>
     (\<forall>i<13. chain H (recycle_bin bins (int i)) (L i) \<and> distinct (L i) \<and> set (L i) \<inter> bin_cells bins = {}) \<and>
     (\<forall>i<13. \<forall>j<13. i \<noteq> j \<longrightarrow> set (L i) \<inter> set (L j) = {})"

definition binned :: "(nat \<Rightarrow> addr list) \<Rightarrow> addr set" where
  "binned L = (\<Union>i<13. set (L i))"

lemma recycle_bin_unat:
  assumes "bins_place bins" "i < 13"
  shows "unat (recycle_bin bins (int i)) = unat bins + 16 * i"
proof -
  have "16 * of_int (int i) = (of_nat (16 * i) :: u32)" by simp
  moreover have "unat (of_nat (16 * i) :: u32) = 16 * i" using assms(2) by (intro unat_of_nat_id) simp
  ultimately show ?thesis using assms
    by (simp add: recycle_bin_def bins_place_def unat_plus_if' unat_word_ariths(1) del: of_nat_mult)
qed

lemma recycle_bin_inj:
  assumes "bins_place bins" "i < 13" "j < 13" "recycle_bin bins (int i) = recycle_bin bins (int j)"
  shows "i = j"
proof -
  have "unat bins + 16 * i = unat bins + 16 * j"
    using recycle_bin_unat [OF assms(1,2)] recycle_bin_unat [OF assms(1,3)] by (simp only: assms(4))
  then show ?thesis by simp
qed

lemma bin_cellsD:
  assumes "bins_place bins" "a \<in> bin_cells bins"
  shows "a \<noteq> 0" "unat a < 0x8000000"
proof -
  from assms(2) obtain i where "i < 13" "a = recycle_bin bins (int i)" by (auto simp: bin_cells_def)
  then have "unat a = unat bins + 16 * i" "i < 13" using recycle_bin_unat [OF assms(1)] by auto
  moreover have "0 < unat bins" using assms(1) by (simp add: bins_place_def unat_gt_0)
  ultimately show "a \<noteq> 0" "unat a < 0x8000000" using assms(1) by (auto simp: bins_place_def)
qed

lemma bins_okD:
  assumes "bins_ok H bins L" "i < 13"
  shows "chain H (recycle_bin bins (int i)) (L i)" "distinct (recycle_bin bins (int i) # L i)"
    "set (L i) \<inter> bin_cells bins = {}" "\<And>j. j < 13 \<Longrightarrow> j \<noteq> i \<Longrightarrow> set (L i) \<inter> set (L j) = {}"
  using assms by (auto simp: bins_ok_def bin_cells_def)

text \<open>Changing the links of one bin does not touch the others.\<close>

lemma bins_ok_change:
  assumes place: "bins_place bins" and ok: "bins_ok H bins L" and i: "i < 13"
    and ch: "chain H' (recycle_bin bins (int i)) xs" "distinct xs" "set xs \<inter> bin_cells bins = {}"
    and fresh: "\<And>j. j < 13 \<Longrightarrow> j \<noteq> i \<Longrightarrow> set xs \<inter> set (L j) = {}"
    and frame: "\<And>a. H' a \<noteq> H a \<Longrightarrow> a \<in> insert (recycle_bin bins (int i)) (set (L i) \<union> set xs)"
  shows "bins_ok H' bins (L(i := xs))"
proof -
  have "chain H' (recycle_bin bins (int j)) (L j)" if j: "j < 13" "j \<noteq> i" for j
  proof -
    have same: "H' a = H a" if "a \<in> set (recycle_bin bins (int j) # L j)" for a
    proof (rule ccontr)
      assume "H' a \<noteq> H a"
      then have a: "a \<in> insert (recycle_bin bins (int i)) (set (L i) \<union> set xs)" by (rule frame)
      have cells: "recycle_bin bins (int j) \<in> bin_cells bins" "recycle_bin bins (int i) \<in> bin_cells bins"
        using j i by (auto simp: bin_cells_def)
      have "recycle_bin bins (int j) \<noteq> recycle_bin bins (int i)" using recycle_bin_inj [OF place j(1) i] j(2) by auto
      with a that cells ch(3) fresh [OF j] bins_okD(3) [OF ok i] bins_okD(3) [OF ok j(1)] bins_okD(4) [OF ok i j]
      show False by auto
    qed
    have "chain H (recycle_bin bins (int j)) (L j)" using ok j by (simp add: bins_ok_def)
    then show ?thesis by (rule chain_frame) (use same in auto)
  qed
  with ok i ch fresh show ?thesis unfolding bins_ok_def by (auto simp: Int_commute)
qed

definition same_block :: "malloc_header \<Rightarrow> malloc_header \<Rightarrow> bool" where
  "same_block h h' \<longleftrightarrow> mh_size h' = mh_size h \<and> mh_padding h' = mh_padding h \<and> mh_free h' = mh_free h \<and> mh_magic h' = mh_magic h"

lemma same_block_refl [simp]: "same_block h h"
  by (simp add: same_block_def)

lemma detach_header_spec:
  assumes place: "bins_place bins" and ok: "bins_ok (headers s) bins L" and i: "i < 13" and x: "x \<in> set (L i)"
  obtains s' where "detach_header x s = Some s'" "pad_headers s' = pad_headers s"
    "\<And>a. same_block (headers s a) (headers s' a)" "bins_ok (headers s') bins (L(i := remove1 x (L i)))"
    "\<And>a. a \<notin> binned L \<union> bin_cells bins \<Longrightarrow> headers s' a = headers s a"
proof -
  note D = bins_okD [OF ok i]
  let ?p = "recycle_bin bins (int i)" and ?H = "headers s"
  obtain us vs where L: "L i = us @ x # vs" using x by (meson split_list)
  then have rem: "remove1 x (L i) = us @ vs" using D(2) by (simp add: remove1_append)
  note R = chain_remove [of ?H ?p us x vs, folded L, OF D(1,2)]
  define H1 where "H1 = ?H(mh_prev (?H x) := (?H (mh_prev (?H x)))\<lparr>mh_next := mh_next (?H x)\<rparr>)"
  define H' where "H' = (if mh_next (?H x) \<noteq> NULL
      then H1(mh_next (?H x) := (H1 (mh_next (?H x)))\<lparr>mh_prev := mh_prev (?H x)\<rparr>) else H1)"
  have q: "mh_prev (?H x) \<in> insert ?p (set (L i))" using R(2) L last_distinct(1) [of ?p us "x # vs"] D(2) by auto
  have "?p \<in> bin_cells bins" using i by (auto simp: bin_cells_def)
  moreover have "NULL \<notin> set (L i)" using chain_not_NULL [OF D(1)] .
  ultimately have nn: "mh_prev (?H x) \<noteq> NULL" using q bin_cellsD(1) [OF place] by auto
  have z: "mh_next (?H x) \<noteq> NULL \<Longrightarrow> mh_next (?H x) \<in> set (L i)" using R(3) L by (cases vs) auto
  have run: "detach_header x s = Some (s\<lparr>headers := H'\<rparr>)"
    using nn by (simp add: detach_header_def upd_header_def H'_def H1_def Let_def)
  have frame: "a \<in> insert ?p (set (L i))" if "H' a \<noteq> ?H a" for a
    using that q z by (auto simp: H'_def H1_def split: if_splits)
  have "bins_ok H' bins (L(i := us @ vs))"
  proof (rule bins_ok_change [OF place ok i])
    show "chain H' ?p (us @ vs)" unfolding H'_def H1_def by (rule R(1))
    show "set (us @ vs) \<inter> set (L j) = {}" if "j < 13" "j \<noteq> i" for j using D(4) [OF that] L by auto
  qed (use D L frame in auto)
  moreover have "same_block (?H a) (H' a)" for a by (simp add: H'_def H1_def same_block_def)
  moreover have "H' a = ?H a" if "a \<notin> binned L \<union> bin_cells bins" for a
    using frame [of a] that i by (auto simp: binned_def bin_cells_def)
  ultimately show ?thesis using that [of "s\<lparr>headers := H'\<rparr>"] run rem by simp
qed

text \<open>Walking along a bin.\<close>

lemma bin_position_eq:
  assumes "chain (headers s) p xs"
  shows "bin_position s sz (mh_next (headers s p)) =
    Some (case find (\<lambda>x. sz \<le> mh_size (headers s x)) xs of None \<Rightarrow> NULL | Some x \<Rightarrow> x)"
  using assms
proof (induction xs arbitrary: p)
  case Nil
  then show ?case by (subst bin_position.simps) simp
next
  case (Cons x xs)
  then show ?case by (subst bin_position.simps) simp
qed

lemma bin_last_eq:
  assumes "chain (headers s) p xs"
  shows "bin_last s p = Some (last (p # xs))"
  using assms
proof (induction xs arbitrary: p)
  case Nil
  then show ?case by (subst bin_last.simps) simp
next
  case (Cons x xs)
  then have "bin_last s p = bin_last s x" by (subst bin_last.simps) simp
  with Cons show ?case by simp
qed

lemma bin_index_bound: "0 \<le> bin_index bs len \<and> bin_index bs len \<le> int (length bs)"
  by (induction bs) auto

lemma bin_index_mono: "len \<le> len' \<Longrightarrow> bin_index bs len \<le> bin_index bs len'"
  using bin_index_bound by (induction bs) (auto simp: add.commute order_trans [of 0])

definition size_bin :: "u32 \<Rightarrow> nat" where
  "size_bin sz = nat (LENGTH_TO_RECYCLE_BIN_INDEX (sint (sz - 16 - 4)))"

lemma size_bin_bound: "size_bin sz < 13" "LENGTH_TO_RECYCLE_BIN_INDEX (sint (sz - 16 - 4)) = int (size_bin sz)"
  using bin_index_bound [of "[0x10, 0x20, 0x40, 0x80, 0x100, 0x200, 0x400, 0x800, 0x1000, 0x2000, 0x4000, 0x8000]" "sint (sz - 16 - 4)"]
  by (simp_all add: size_bin_def LENGTH_TO_RECYCLE_BIN_INDEX_def)

text \<open>The two branches of the insertion, as one update of the headers.\<close>

lemma bin_insert_eq:
  assumes ok: "bins_ok (headers s) bins L" and fresh: "x \<notin> set (recycle_bin bins (int (size_bin (mh_size (headers s x)))) #
      L (size_bin (mh_size (headers s x))))"
  defines "i \<equiv> size_bin (mh_size (headers s x))"
  defines "p \<equiv> recycle_bin bins (int i)" and "v \<equiv> (headers s x)\<lparr>mh_free := True, mh_padding := 0\<rparr>"
  defines "f \<equiv> find (\<lambda>y. mh_size (headers s x) \<le> mh_size (headers s y)) (L i)"
  shows "f = None \<Longrightarrow> bin_insert bins x s = Some (s\<lparr>headers := (headers s)(x := v\<lparr>mh_prev := last (p # L i), mh_next := NULL\<rparr>,
      last (p # L i) := (headers s (last (p # L i)))\<lparr>mh_next := x\<rparr>)\<rparr>)"
    "f = Some y \<Longrightarrow> mh_prev (headers s y) \<noteq> x \<Longrightarrow> mh_prev (headers s y) \<noteq> y \<Longrightarrow>
      bin_insert bins x s = Some (s\<lparr>headers := (headers s)(x := v\<lparr>mh_prev := mh_prev (headers s y), mh_next := y\<rparr>,
        y := (headers s y)\<lparr>mh_prev := x\<rparr>, mh_prev (headers s y) := (headers s (mh_prev (headers s y)))\<lparr>mh_next := x\<rparr>)\<rparr>)"
proof -
  have i: "i < 13" by (simp add: i_def size_bin_bound)
  note D = bins_okD [OF ok i, folded p_def]
  have idx: "LENGTH_TO_RECYCLE_BIN_INDEX (sint (mh_size (headers s x) - 16 - 4)) = int i"
    by (simp only: size_bin_bound(2) i_def)
  have xp: "x \<notin> set (p # L i)" using fresh by (simp add: p_def i_def)
  have ne: "last (p # L i) \<noteq> x" using xp last_in_set [of "p # L i"] by (metis list.distinct(1))
  have pos: "bin_position s (mh_size (headers s x)) (mh_next (headers s p)) = Some (case f of None \<Rightarrow> NULL | Some x \<Rightarrow> x)"
    using bin_position_eq [OF D(1)] by (simp add: f_def)
  have upd: "upd_header x (\<lambda>h. h\<lparr>mh_free := True, mh_padding := 0\<rparr>) s = s\<lparr>headers := (headers s)(x := v)\<rparr>"
    by (simp add: upd_header_def v_def)
  have last: "bin_last (s\<lparr>headers := (headers s)(x := v)\<rparr>) p = Some (last (p # L i))"
    by (rule bin_last_eq) (use D(1) xp in \<open>simp add: chain_upd\<close>)
  note run = bin_insert_def [of bins x s, unfolded Let_def idx, folded p_def, unfolded pos bind.bind_lunit upd]
  show "bin_insert bins x s = Some (s\<lparr>headers := (headers s)(x := v\<lparr>mh_prev := last (p # L i), mh_next := NULL\<rparr>,
      last (p # L i) := (headers s (last (p # L i)))\<lparr>mh_next := x\<rparr>)\<rparr>)" if "f = None"
    unfolding run that using last ne by (simp add: upd_header_def del: last.simps)
  show "bin_insert bins x s = Some (s\<lparr>headers := (headers s)(x := v\<lparr>mh_prev := mh_prev (headers s y), mh_next := y\<rparr>,
        y := (headers s y)\<lparr>mh_prev := x\<rparr>, mh_prev (headers s y) := (headers s (mh_prev (headers s y)))\<lparr>mh_next := x\<rparr>)\<rparr>)"
    if f: "f = Some y" and neq: "mh_prev (headers s y) \<noteq> x" "mh_prev (headers s y) \<noteq> y"
  proof -
    have "y \<in> set (L i)" using f unfolding f_def by (auto simp: find_Some_iff)
    then have "y \<noteq> NULL" "y \<noteq> x" using chain_not_NULL [OF D(1)] xp by auto
    with neq show ?thesis unfolding run f by (simp add: upd_header_def)
  qed
qed

lemma bin_insert_spec:
  assumes place: "bins_place bins" and ok: "bins_ok (headers s) bins L"
    and x: "x \<notin> binned L" "x \<notin> bin_cells bins" "x \<noteq> NULL"
  defines "i \<equiv> size_bin (mh_size (headers s x))"
  obtains s' us vs where "bin_insert bins x s = Some s'" "pad_headers s' = pad_headers s" "L i = us @ vs"
    "bins_ok (headers s') bins (L(i := us @ x # vs))" "mh_free (headers s' x)"
    "mh_size (headers s' x) = mh_size (headers s x)" "mh_magic (headers s' x) = mh_magic (headers s x)"
    "\<And>a. a \<noteq> x \<Longrightarrow> same_block (headers s a) (headers s' a)"
    "\<And>a. a \<notin> insert x (binned L \<union> bin_cells bins) \<Longrightarrow> headers s' a = headers s a"
proof -
  note result = that
  let ?p = "recycle_bin bins (int i)" and ?H = "headers s"
  define v where "v = (?H x)\<lparr>mh_free := True, mh_padding := 0\<rparr>"
  have i: "i < 13" by (simp add: i_def size_bin_bound)
  note D = bins_okD [OF ok i]
  have p: "?p \<in> bin_cells bins" using i by (auto simp: bin_cells_def)
  have xp: "x \<notin> set (?p # L i)" using x i p by (auto simp: binned_def)
  have others: "set (us @ x # vs) \<inter> set (L j) = {}" if "L i = us @ vs" "j < 13" "j \<noteq> i" for us vs j
    using D(4) [OF that(2,3)] that x(1) by (auto simp: binned_def)
  note eq = bin_insert_eq [OF ok xp [unfolded i_def], folded i_def, folded v_def]
  have goal: thesis
    if run: "bin_insert bins x s = Some (s\<lparr>headers := H'\<rparr>)" and L: "L i = us @ vs" and ch: "chain H' ?p (us @ x # vs)"
      and H': "H' x = v\<lparr>mh_prev := a, mh_next := b\<rparr>" "\<And>a. a \<noteq> x \<Longrightarrow> same_block (?H a) (H' a)"
      "\<And>a. H' a \<noteq> ?H a \<Longrightarrow> a \<in> insert ?p (insert x (set (L i)))" for H' us vs a b
  proof (rule result [OF run _ L])
    show "bins_ok (headers (s\<lparr>headers := H'\<rparr>)) bins (L(i := us @ x # vs))"
    proof (simp, rule bins_ok_change [OF place ok i ch])
      show "distinct (us @ x # vs)" "set (us @ x # vs) \<inter> bin_cells bins = {}" using D L xp x by auto
      show "a \<in> insert ?p (set (L i) \<union> set (us @ x # vs))" if "H' a \<noteq> ?H a" for a using H'(3) [OF that] L by auto
    qed (use others [OF L] in blast)
    show "headers (s\<lparr>headers := H'\<rparr>) a = ?H a" if "a \<notin> insert x (binned L \<union> bin_cells bins)" for a
      using H'(3) [of a] that p i by (auto simp: binned_def)
  qed (use H' in \<open>simp_all add: v_def\<close>)
  show thesis
  proof (cases "find (\<lambda>y. mh_size (?H x) \<le> mh_size (?H y)) (L i)")
    case None
    let ?q = "last (?p # L i)"
    have q: "?q \<in> set (?p # L i)" "?q \<noteq> x" using xp last_in_set [of "?p # L i"] by (metis list.distinct(1))+
    show thesis
    proof (rule goal [OF eq(1) [OF None], of "L i" "[]"])
      show "chain (?H(x := v\<lparr>mh_prev := ?q, mh_next := NULL\<rparr>, ?q := (?H ?q)\<lparr>mh_next := x\<rparr>)) ?p (L i @ [x])"
        by (rule chain_snoc [OF D(1,2) xp x(3)])
      show "a \<in> insert ?p (insert x (set (L i)))"
        if "(?H(x := v\<lparr>mh_prev := ?q, mh_next := NULL\<rparr>, ?q := (?H ?q)\<lparr>mh_next := x\<rparr>)) a \<noteq> ?H a" for a
        using that q(1) by (cases "a = ?q"; cases "a = x") auto
    qed (use q(2) in \<open>auto simp: same_block_def simp del: last.simps\<close>)
  next
    case (Some y)
    then have "y \<in> set (L i)" by (auto simp: find_Some_iff)
    then obtain us vs where L: "L i = us @ y # vs" by (meson split_list)
    let ?q = "mh_prev (?H y)"
    note I = chain_insert(1) [of ?H ?p us y vs x, folded L, OF D(1,2) xp x(3)]
    have q: "?q \<in> set (?p # us)" "?q \<noteq> y" using I last_distinct [of ?p us "y # vs"] D(2) L by auto
    then have qx: "?q \<noteq> x" using xp L by auto
    show thesis
    proof (rule goal [OF eq(2) [OF Some qx q(2)], of us "y # vs"])
      show "chain (?H(x := v\<lparr>mh_prev := ?q, mh_next := y\<rparr>, y := (?H y)\<lparr>mh_prev := x\<rparr>, ?q := (?H ?q)\<lparr>mh_next := x\<rparr>)) ?p (us @ x # y # vs)"
        using chain_insert(2) [of ?H ?p us y vs x v, folded L, OF D(1,2) xp x(3)] .
      show "a \<in> insert ?p (insert x (set (L i)))"
        if "(?H(x := v\<lparr>mh_prev := ?q, mh_next := y\<rparr>, y := (?H y)\<lparr>mh_prev := x\<rparr>, ?q := (?H ?q)\<lparr>mh_next := x\<rparr>)) a \<noteq> ?H a" for a
        using that q(1) L by (cases "a = ?q"; cases "a = x"; cases "a = y") auto
    qed (use q qx L xp in \<open>auto simp: same_block_def\<close>)
  qed
qed

subsection \<open>Blocks tile the heap\<close>

primrec tiles :: "(addr \<Rightarrow> malloc_header) \<Rightarrow> nat \<Rightarrow> addr list \<Rightarrow> nat \<Rightarrow> bool" where
  "tiles H a [] e \<longleftrightarrow> a = e"
| "tiles H a (b # bs) e \<longleftrightarrow> unat b = a \<and> 20 \<le> unat (mh_size (H b)) \<and> mh_magic (H b) = MALLOC_MAGIC \<and>
     tiles H (a + unat (mh_size (H b))) bs e"

lemma tiles_append: "tiles H a (xs @ ys) e \<longleftrightarrow> (\<exists>m. tiles H a xs m \<and> tiles H m ys e)"
  by (induction xs arbitrary: a) auto

lemma tiles_frame:
  "tiles H a bs e \<Longrightarrow> (\<And>b. b \<in> set bs \<Longrightarrow> mh_size (H' b) = mh_size (H b) \<and> mh_magic (H' b) = mh_magic (H b)) \<Longrightarrow> tiles H' a bs e"
  by (induction bs arbitrary: a) auto

abbreviation block_end :: "(addr \<Rightarrow> malloc_header) \<Rightarrow> addr \<Rightarrow> nat" where
  "block_end H b \<equiv> unat b + unat (mh_size (H b))"

lemma tiles_le: "tiles H a bs e \<Longrightarrow> a \<le> e"
  by (induction bs arbitrary: a) force+

lemma tiles_mem: "tiles H a bs e \<Longrightarrow> b \<in> set bs \<Longrightarrow>
    a \<le> unat b \<and> block_end H b \<le> e \<and> 20 \<le> unat (mh_size (H b)) \<and> mh_magic (H b) = MALLOC_MAGIC"
proof (induction bs arbitrary: a)
  case (Cons c bs)
  then show ?case using tiles_le [of H "a + unat (mh_size (H c))" bs e] by fastforce
qed simp

lemma tiles_apart:
  "tiles H a bs e \<Longrightarrow> b \<in> set bs \<Longrightarrow> c \<in> set bs \<Longrightarrow> b \<noteq> c \<Longrightarrow> block_end H b \<le> unat c \<or> block_end H c \<le> unat b"
proof (induction bs arbitrary: a)
  case (Cons d bs)
  then show ?case using tiles_mem [of H "a + unat (mh_size (H d))" bs e] by auto
qed simp

lemma tiles_distinct: "tiles H a bs e \<Longrightarrow> distinct bs"
proof (induction bs arbitrary: a)
  case (Cons d bs)
  then show ?case using tiles_mem [of H "a + unat (mh_size (H d))" bs e d] by auto
qed simp

subsection \<open>The heap invariant\<close>

text \<open>The pointer handed out for a block, and what the padding header below it has to say.\<close>

definition user_ptr :: "malloc_header \<Rightarrow> addr \<Rightarrow> addr" where
  "user_ptr h b = b + 20 + ucast (mh_padding h)"

definition alloc_ok :: "malloc_state \<Rightarrow> addr \<Rightarrow> bool" where
  "alloc_ok s b \<longleftrightarrow> 20 + unat (mh_padding (headers s b)) \<le> unat (mh_size (headers s b)) \<and>
     ph_padding (pad_headers s (user_ptr (headers s b) b - 4)) = mh_padding (headers s b) \<and>
     ph_magic (pad_headers s (user_ptr (headers s b) b - 4)) = MALLOC_MAGIC"

text \<open>The blocks tile the heap; the free ones, except those in \<open>X\<close> that an operation is working
  on, are exactly the ones in the bins, each in the bin of its size; allocated ones have their
  padding header. The word at address 8, the size of the header at address 0, is not smaller
  than the end of the heap: with the firmware's interrupt table in place it is the vector of the
  non-maskable interrupt, a far pointer into the firmware segment above this bound.\<close>

definition heap_part :: "addr \<Rightarrow> malloc_state \<Rightarrow> addr list \<Rightarrow> (nat \<Rightarrow> addr list) \<Rightarrow> addr set \<Rightarrow> bool" where
  "heap_part bins s bs L X \<longleftrightarrow> bins_place bins \<and> 0x1F000000 \<le> unat (mh_size (headers s NULL)) \<and>
     tiles (headers s) 0x8000000 bs 0x1F000000 \<and> bins_ok (headers s) bins L \<and>
     binned L = {b \<in> set bs. mh_free (headers s b)} - X \<and>
     (\<forall>i<13. \<forall>b\<in>set (L i). size_bin (mh_size (headers s b)) = i) \<and>
     (\<forall>b\<in>set bs - X. \<not> mh_free (headers s b) \<longrightarrow> alloc_ok s b)"

definition live_regions :: "malloc_state \<Rightarrow> addr list \<Rightarrow> addr set \<Rightarrow> (nat \<times> nat) set" where
  "live_regions s bs X = (\<lambda>b. (unat (user_ptr (headers s b) b), block_end (headers s) b)) ` {b \<in> set bs - X. \<not> mh_free (headers s b)}"

lemma heap_part_block:
  assumes "heap_part bins s bs L X" "b \<in> set bs"
  shows "0x8000000 \<le> unat b" "block_end (headers s) b \<le> 0x1F000000" "20 \<le> unat (mh_size (headers s b))"
    "mh_magic (headers s b) = MALLOC_MAGIC" "b \<notin> bin_cells bins" "b \<noteq> NULL"
proof -
  have "bins_place bins" "tiles (headers s) 0x8000000 bs 0x1F000000" using assms(1) by (simp_all add: heap_part_def)
  with tiles_mem [OF this(2) assms(2)] show *: "0x8000000 \<le> unat b" "block_end (headers s) b \<le> 0x1F000000"
    "20 \<le> unat (mh_size (headers s b))" "mh_magic (headers s b) = MALLOC_MAGIC" by simp_all
  show "b \<notin> bin_cells bins" using bin_cellsD(2) [OF \<open>bins_place bins\<close>, of b] *(1) by auto
  show "b \<noteq> NULL" using *(1) by auto
qed

lemma heap_part_null: "heap_part bins s bs L X \<Longrightarrow> NULL \<notin> binned L \<union> bin_cells bins"
  using bin_cellsD(1) [of bins NULL] heap_part_block(6) [of bins s bs L X NULL] by (auto simp: heap_part_def)

lemma bins_ok_links:
  assumes "bins_ok H bins L" "\<And>a. mh_prev (H' a) = mh_prev (H a)" "\<And>a. mh_next (H' a) = mh_next (H a)"
  shows "bins_ok H' bins L"
  using assms chain_frame [of H _ _ H'] unfolding bins_ok_def by metis

lemma next_block_eq:
  assumes "heap_part bins s (us @ x # vs) L X"
  shows "NEXT_BLOCK s x = (case vs of [] \<Rightarrow> NULL | y # _ \<Rightarrow> y)"
    "vs = y # vs' \<Longrightarrow> unat y = block_end (headers s) x"
proof -
  note B = heap_part_block [OF assms, of x, simplified]
  have tail: "tiles (headers s) (block_end (headers s) x) vs 0x1F000000"
    using assms by (auto simp: heap_part_def tiles_append)
  have sum: "unat (mh_size (headers s x) + x) = block_end (headers s) x"
    using B(2) by (subst unat_plus_nowrap) simp_all
  show y: "vs = y # vs' \<Longrightarrow> unat y = block_end (headers s) x" for y vs' using tail by simp
  show "NEXT_BLOCK s x = (case vs of [] \<Rightarrow> NULL | y # _ \<Rightarrow> y)"
  proof (cases vs)
    case Nil
    with tail sum show ?thesis by (simp add: NEXT_BLOCK_def word_less_nat_alt)
  next
    case (Cons z zs)
    note Z = heap_part_block [OF assms, of z, unfolded Cons, simplified]
    have "mh_size (headers s x) + x = z" using y [OF Cons] sum by (metis word_unat_eq_iff)
    moreover have "unat z < 0x1F000000" using Z(2,3) by simp
    ultimately show ?thesis using Cons by (simp add: NEXT_BLOCK_def word_less_nat_alt)
  qed
qed

lemma binned_insert:
  assumes "L i = us @ vs" "i < 13"
  shows "binned (L(i := us @ x # vs)) = insert x (binned L)"
proof -
  have "binned L' = set (L' i) \<union> (\<Union>j\<in>{..<13} - {i}. set (L' j))" for L'
    using assms(2) by (auto simp: binned_def)
  then show ?thesis using assms(1) by (simp add: Un_assoc)
qed

lemma binned_remove:
  assumes "bins_ok H bins L" "x \<in> set (L i)" "i < 13"
  shows "binned (L(i := remove1 x (L i))) = binned L - {x}"
proof -
  have split: "binned L' = set (L' i) \<union> (\<Union>j\<in>{..<13} - {i}. set (L' j))" for L'
    using assms(3) by (auto simp: binned_def)
  have "x \<notin> (\<Union>j\<in>{..<13} - {i}. set (L j))" using bins_okD(4) [OF assms(1,3)] assms(2) by fastforce
  moreover have "set (remove1 x (L i)) = set (L i) - {x}" using bins_okD(2) [OF assms(1,3)] by simp
  ultimately show ?thesis unfolding split by auto
qed

lemma insert_block_spec:
  assumes part: "heap_part bins s bs L {x}" and x: "x \<in> set bs"
  obtains s' L' where "bin_insert bins x s = Some s'" "heap_part bins s' bs L' {}" "live_regions s' bs {} = live_regions s bs {x}"
proof -
  note B = heap_part_block [OF part]
  have P: "bins_place bins" "tiles (headers s) 0x8000000 bs 0x1F000000" "bins_ok (headers s) bins L"
    "binned L = {b \<in> set bs. mh_free (headers s b)} - {x}" using part by (simp_all add: heap_part_def)
  define i where "i = size_bin (mh_size (headers s x))"
  have i: "i < 13" by (simp add: i_def size_bin_bound)
  obtain s' us vs where ins: "bin_insert bins x s = Some s'" "pad_headers s' = pad_headers s" "L i = us @ vs"
    "bins_ok (headers s') bins (L(i := us @ x # vs))" "mh_free (headers s' x)"
    "mh_size (headers s' x) = mh_size (headers s x)" "mh_magic (headers s' x) = mh_magic (headers s x)"
    and same: "\<And>a. a \<noteq> x \<Longrightarrow> same_block (headers s a) (headers s' a)"
    and frame: "\<And>a. a \<notin> insert x (binned L \<union> bin_cells bins) \<Longrightarrow> headers s' a = headers s a"
    using bin_insert_spec [OF P(1,3), of x] P(4) B [OF x] unfolding i_def by auto
  have sz: "mh_size (headers s' a) = mh_size (headers s a)" "mh_magic (headers s' a) = mh_magic (headers s a)" for a
    using ins(6,7) same by (cases "a = x"; simp add: same_block_def)+
  have fr: "mh_free (headers s' a) \<longleftrightarrow> a = x \<or> mh_free (headers s a)" for a
    using ins(5) same by (cases "a = x"; simp add: same_block_def)
  have "headers s' NULL = headers s NULL" using heap_part_null [OF part] B(6) [OF x] by (intro frame) auto
  moreover have "tiles (headers s') 0x8000000 bs 0x1F000000" by (rule tiles_frame [OF P(2)]) (simp add: sz)
  moreover have "binned (L(i := us @ x # vs)) = insert x (binned L)"
    using binned_insert [of L i us vs x] ins(3) i .
  then have "binned (L(i := us @ x # vs)) = {b \<in> set bs. mh_free (headers s' b)}" using P(4) fr x by auto
  moreover have "\<forall>j<13. \<forall>b\<in>set ((L(i := us @ x # vs)) j). size_bin (mh_size (headers s' b)) = j"
    using part ins(3) by (auto simp: heap_part_def sz i_def)
  moreover have "alloc_ok s' b" if "b \<in> set bs" "\<not> mh_free (headers s' b)" for b
    using part that same [of b] fr [of b] by (auto simp: heap_part_def alloc_ok_def same_block_def ins(2) user_ptr_def)
  ultimately have "heap_part bins s' bs (L(i := us @ x # vs)) {}"
    using part P(1) ins(4) by (simp add: heap_part_def)
  moreover have "live_regions s' bs {} = live_regions s bs {x}"
    unfolding live_regions_def
  proof (rule image_cong)
    show "{b \<in> set bs - {}. \<not> mh_free (headers s' b)} = {b \<in> set bs - {x}. \<not> mh_free (headers s b)}" by (auto simp: fr)
    show "(unat (user_ptr (headers s' b) b), block_end (headers s') b) = (unat (user_ptr (headers s b) b), block_end (headers s) b)"
      if "b \<in> {b \<in> set bs - {x}. \<not> mh_free (headers s b)}" for b
      using that same [of b] by (simp add: same_block_def user_ptr_def)
  qed
  ultimately show ?thesis using that ins(1) by blast
qed

lemma live_regions_cong:
  assumes "\<And>b. b \<notin> X \<Longrightarrow> b \<in> set bs \<and> \<not> mh_free (headers s b) \<longleftrightarrow> b \<in> set bs' \<and> \<not> mh_free (headers s' b)"
    "\<And>b. b \<in> set bs - X \<Longrightarrow> \<not> mh_free (headers s b) \<Longrightarrow> same_block (headers s b) (headers s' b)"
  shows "live_regions s' bs' X = live_regions s bs X"
  unfolding live_regions_def
proof (rule image_cong)
  show "{b \<in> set bs' - X. \<not> mh_free (headers s' b)} = {b \<in> set bs - X. \<not> mh_free (headers s b)}" using assms(1) by auto
  show "(unat (user_ptr (headers s' b) b), block_end (headers s') b) = (unat (user_ptr (headers s b) b), block_end (headers s) b)"
    if "b \<in> {b \<in> set bs - X. \<not> mh_free (headers s b)}" for b
    using that assms(2) [of b] by (simp add: same_block_def user_ptr_def)
qed

lemma heap_part_alloc: "heap_part bins s bs L X \<Longrightarrow> b \<in> set bs \<Longrightarrow> b \<notin> X \<Longrightarrow> \<not> mh_free (headers s b) \<Longrightarrow> alloc_ok s b"
  by (simp add: heap_part_def)

lemma alloc_ok_same:
  "alloc_ok s b \<Longrightarrow> same_block (headers s b) (headers s' b) \<Longrightarrow> pad_headers s' = pad_headers s \<Longrightarrow> alloc_ok s' b"
  by (simp add: alloc_ok_def same_block_def user_ptr_def)

text \<open>Merging a block with a free successor.\<close>

lemma merge_spec:
  assumes part: "heap_part bins s (us @ x # y # vs) L {x}" and free: "mh_free (headers s y)"
  obtains s' L' where "detach_header y s = Some s'"
    "heap_part bins (upd_header x (\<lambda>h. h\<lparr>mh_size := mh_size h + mh_size (headers s' y)\<rparr>) s') (us @ x # vs) L' {x}"
    "live_regions (upd_header x (\<lambda>h. h\<lparr>mh_size := mh_size h + mh_size (headers s' y)\<rparr>) s') (us @ x # vs) {x} =
       live_regions s (us @ x # y # vs) {x}"
proof -
  let ?bs = "us @ x # y # vs"
  note B = heap_part_block [OF part]
  have P: "bins_place bins" "tiles (headers s) 0x8000000 ?bs 0x1F000000" "bins_ok (headers s) bins L"
    "binned L = {b \<in> set ?bs. mh_free (headers s b)} - {x}" using part by (simp_all add: heap_part_def)
  have dist: "distinct ?bs" using tiles_distinct [OF P(2)] .
  then have "y \<in> binned L" using P(4) free by auto
  then obtain i where i: "i < 13" "y \<in> set (L i)" by (auto simp: binned_def)
  obtain s1 where det: "detach_header y s = Some s1" "pad_headers s1 = pad_headers s"
    and same: "\<And>a. same_block (headers s a) (headers s1 a)" and ok1: "bins_ok (headers s1) bins (L(i := remove1 y (L i)))"
    and frame: "\<And>a. a \<notin> binned L \<union> bin_cells bins \<Longrightarrow> headers s1 a = headers s a"
    using detach_header_spec [OF P(1,3) i] by metis
  define L' where "L' = L(i := remove1 y (L i))"
  define s' where "s' = upd_header x (\<lambda>h. h\<lparr>mh_size := mh_size h + mh_size (headers s1 y)\<rparr>) s1"
  have H': "headers s' a = (if a = x then (headers s1 x)\<lparr>mh_size := mh_size (headers s1 x) + mh_size (headers s1 y)\<rparr> else headers s1 a)" for a
    by (simp add: s'_def upd_header_def)
  have other: "same_block (headers s a) (headers s' a)" if "a \<noteq> x" for a using same that by (simp add: H')
  have x': "mh_free (headers s' x) = mh_free (headers s x)" "mh_magic (headers s' x) = mh_magic (headers s x)"
      "mh_size (headers s' x) = mh_size (headers s x) + mh_size (headers s y)"
    using same [of x] same [of y] by (simp_all add: H' same_block_def)
  have fr: "mh_free (headers s' a) = mh_free (headers s a)" for a
    using other x' by (cases "a = x") (simp_all add: same_block_def)
  have "unat y = block_end (headers s) x" by (rule next_block_eq(2) [OF part refl])
  with B(2) [of y] have sz: "unat (mh_size (headers s' x)) = unat (mh_size (headers s x)) + unat (mh_size (headers s y))"
    unfolding x'(3) by (intro unat_plus_nowrap) simp
  have tiles: "tiles (headers s') 0x8000000 (us @ x # vs) 0x1F000000"
  proof -
    from P(2) obtain m where m: "tiles (headers s) 0x8000000 us m" "unat x = m" "20 \<le> unat (mh_size (headers s x))"
        "tiles (headers s) (m + unat (mh_size (headers s x)) + unat (mh_size (headers s y))) vs 0x1F000000"
      by (auto simp: tiles_append)
    have keep: "mh_size (headers s' b) = mh_size (headers s b) \<and> mh_magic (headers s' b) = mh_magic (headers s b)"
      if "b \<in> set us \<union> set vs" for b
      using other [of b] dist that by (auto simp: same_block_def)
    have "tiles (headers s') 0x8000000 us m" by (rule tiles_frame [OF m(1)]) (simp add: keep)
    moreover have "tiles (headers s') (m + unat (mh_size (headers s' x))) vs 0x1F000000"
      unfolding sz add.assoc [symmetric] by (rule tiles_frame [OF m(4)]) (simp add: keep)
    ultimately show ?thesis using m(2,3) x'(2) B(4) [of x] sz by (auto simp: tiles_append)
  qed
  have bn: "binned L' = binned L - {y}" unfolding L'_def by (rule binned_remove [OF P(3) i(2,1)])
  have "headers s' NULL = headers s NULL" using frame [of NULL] heap_part_null [OF part] B(6) [of x] by (simp add: H')
  moreover have "bins_ok (headers s') bins L'" unfolding L'_def by (rule bins_ok_links [OF ok1]) (simp_all add: H')
  moreover have "binned L' = {b \<in> set (us @ x # vs). mh_free (headers s' b)} - {x}"
    using bn P(4) fr dist by auto
  moreover have "size_bin (mh_size (headers s' b)) = j" if "j < 13" "b \<in> set (L' j)" for j b
  proof -
    have b: "b \<in> set (L j)" using that(2) set_remove1_subset [of y "L i"] by (auto simp: L'_def split: if_splits)
    then have "b \<noteq> x" using P(4) that(1) by (auto simp: binned_def)
    then show ?thesis using part b that(1) other [of b] by (simp add: heap_part_def same_block_def)
  qed
  moreover have "alloc_ok s' b" if "b \<in> set (us @ x # vs) - {x}" "\<not> mh_free (headers s' b)" for b
    by (rule alloc_ok_same [OF heap_part_alloc [OF part]])
      (use that fr [of b] other [of b] det(2) in \<open>auto simp: s'_def upd_header_def\<close>)
  ultimately have "heap_part bins s' (us @ x # vs) L' {x}" using part tiles by (simp add: heap_part_def)
  moreover have "live_regions s' (us @ x # vs) {x} = live_regions s ?bs {x}"
    by (rule live_regions_cong) (use free fr other in auto)
  ultimately show ?thesis using that [OF det(1)] by (simp add: s'_def)
qed

lemma coalesce_spec:
  assumes part: "heap_part bins s bs L {x}" and x: "x \<in> set bs"
  obtains s' bs' L' where "coalesce x s = Some s'" "heap_part bins s' bs' L' {x}" "x \<in> set bs'"
    "live_regions s' bs' {x} = live_regions s bs {x}"
proof -
  obtain us vs where bs: "bs = us @ x # vs" using x by (meson split_list)
  note nb = next_block_eq(1) [OF part [unfolded bs]]
  have sz: "mh_size (headers s x) \<ge> 16" using heap_part_block(3) [OF part x] by (simp add: word_le_nat_alt)
  show ?thesis
  proof (cases "\<exists>y ws. vs = y # ws \<and> mh_free (headers s y)")
    case True
    then obtain y ws where vs: "vs = y # ws" "mh_free (headers s y)" by blast
    have y: "mh_magic (headers s y) = MALLOC_MAGIC" "y \<noteq> NULL" using heap_part_block [OF part, of y] bs vs(1) by auto
    obtain s1 L' where m: "detach_header y s = Some s1"
      "heap_part bins (upd_header x (\<lambda>h. h\<lparr>mh_size := mh_size h + mh_size (headers s1 y)\<rparr>) s1) (us @ x # ws) L' {x}"
      "live_regions (upd_header x (\<lambda>h. h\<lparr>mh_size := mh_size h + mh_size (headers s1 y)\<rparr>) s1) (us @ x # ws) {x} = live_regions s bs {x}"
      using merge_spec [OF part [unfolded bs vs(1)] vs(2)] unfolding bs vs(1) by blast
    have "coalesce x s = Some (upd_header x (\<lambda>h. h\<lparr>mh_size := mh_size h + mh_size (headers s1 y)\<rparr>) s1)"
      using nb vs y m(1) sz by (simp add: coalesce_def)
    then show ?thesis using m by (intro that [of _ "us @ x # ws"]) auto
  next
    case False
    then have "coalesce x s = Some s" using nb sz by (auto simp: coalesce_def split: list.splits)
    then show ?thesis using that part x by blast
  qed
qed

lemma free_block_spec:
  assumes "heap_part bins s bs L {x}" "x \<in> set bs"
  obtains s' bs' L' where "free_block bins x s = Some s'" "heap_part bins s' bs' L' {}"
    "live_regions s' bs' {} = live_regions s bs {x}"
proof -
  obtain s1 bs1 L1 where 1: "coalesce x s = Some s1" "heap_part bins s1 bs1 L1 {x}" "x \<in> set bs1"
    "live_regions s1 bs1 {x} = live_regions s bs {x}" using coalesce_spec [OF assms] by metis
  obtain s2 L2 where 2: "bin_insert bins x s1 = Some s2" "heap_part bins s2 bs1 L2 {}"
    "live_regions s2 bs1 {} = live_regions s1 bs1 {x}" using insert_block_spec [OF 1(2,3)] by metis
  from 1 2 show ?thesis by (intro that [of s2 bs1 L2]) (simp_all add: free_block_def)
qed

text \<open>Freeing the null header only touches the header at address 0.\<close>

lemma free_null_spec:
  assumes part: "heap_part bins s bs L {}"
  obtains s' where "free_block bins NULL s = Some s'" "heap_part bins s' bs L {}" "live_regions s' bs {} = live_regions s bs {}"
    "\<exists>q. q \<noteq> NULL \<and> headers s' NULL = (headers s NULL)\<lparr>mh_prev := q, mh_next := NULL, mh_padding := 0, mh_free := True\<rparr>"
proof -
  have P: "bins_place bins" "tiles (headers s) 0x8000000 bs 0x1F000000" "bins_ok (headers s) bins L"
    "binned L = {b \<in> set bs. mh_free (headers s b)}" "0x1F000000 \<le> unat (mh_size (headers s NULL))"
    using part by (simp_all add: heap_part_def)
  have "coalesce NULL s = Some s"
    using P(5) by (simp add: coalesce_def NEXT_BLOCK_def word_less_nat_alt word_le_nat_alt)
  moreover define i where "i = size_bin (mh_size (headers s NULL))"
  have i: "i < 13" by (simp add: i_def size_bin_bound)
  let ?p = "recycle_bin bins (int i)" and ?v = "(headers s NULL)\<lparr>mh_free := True, mh_padding := 0\<rparr>"
  have fresh: "NULL \<notin> set (?p # L i)"
    using heap_part_null [OF part] i by (auto simp: binned_def bin_cells_def)
  have "\<not> mh_size (headers s NULL) \<le> mh_size (headers s y)" if "y \<in> set (L i)" for y
  proof -
    have "y \<in> set bs" using that i P(4) by (auto simp: binned_def)
    with heap_part_block(1,2) [OF part this] P(5) show ?thesis by (simp add: word_le_nat_alt)
  qed
  then have none: "find (\<lambda>y. mh_size (headers s NULL) \<le> mh_size (headers s y)) (L i) = None" by (simp add: find_None_iff)
  define q where "q = last (?p # L i)"
  have q: "mh_next (headers s q) = NULL" "q \<noteq> NULL"
    using chain_last [OF bins_okD(1) [OF P(3) i]] fresh last_in_set [of "?p # L i"] by (auto simp: q_def simp del: last.simps)
  define s' where "s' = s\<lparr>headers := (headers s)(NULL := ?v\<lparr>mh_prev := q, mh_next := NULL\<rparr>, q := (headers s q)\<lparr>mh_next := NULL\<rparr>)\<rparr>"
  have "bin_insert bins NULL s = Some s'"
    using bin_insert_eq(1) [OF P(3) fresh [unfolded i_def] none [unfolded i_def]] by (simp add: s'_def q_def i_def)
  moreover have keep: "headers s' a = headers s a" if "a \<noteq> NULL" for a
    using that q by (cases "a = q") (simp_all add: s'_def)
  have bs: "b \<noteq> NULL" if "b \<in> set bs" for b using heap_part_block(6) [OF part that] .
  have "bins_ok (headers s') bins L"
  proof -
    have "a \<noteq> NULL" if "a \<in> set (recycle_bin bins (int j) # L j)" "j < 13" for a j
      using heap_part_null [OF part] that by (auto simp: binned_def bin_cells_def)
    then have "chain (headers s') (recycle_bin bins (int j)) (L j)" if "j < 13" for j
      by (intro chain_frame [OF bins_okD(1) [OF P(3) that]]) (metis keep list.set_intros(2) that)+
    then show ?thesis using P(3) by (simp add: bins_ok_def)
  qed
  moreover have "tiles (headers s') 0x8000000 bs 0x1F000000" by (rule tiles_frame [OF P(2)]) (simp add: keep bs)
  moreover have "mh_size (headers s' NULL) = mh_size (headers s NULL)" using q by (simp add: s'_def)
  moreover have "\<forall>j<13. \<forall>b\<in>set (L j). size_bin (mh_size (headers s' b)) = j"
  proof (intro allI impI ballI)
    fix j b assume j: "j < 13" "b \<in> set (L j)"
    then have "b \<noteq> NULL" using heap_part_null [OF part] by (auto simp: binned_def)
    with part j show "size_bin (mh_size (headers s' b)) = j" by (simp add: heap_part_def keep)
  qed
  moreover have "alloc_ok s' b" if "b \<in> set bs" "\<not> mh_free (headers s' b)" for b
    by (rule alloc_ok_same [OF heap_part_alloc [OF part]])
      (use that bs [OF that(1)] keep [of b] in \<open>simp_all add: s'_def\<close>)
  moreover have "{b \<in> set bs. mh_free (headers s' b)} = {b \<in> set bs. mh_free (headers s b)}" using bs keep by auto
  ultimately have "heap_part bins s' bs L {}" using part by (simp add: heap_part_def)
  moreover have "live_regions s' bs {} = live_regions s bs {}"
    by (rule live_regions_cong) (use bs keep in auto)
  moreover have "\<exists>q. q \<noteq> NULL \<and> headers s' NULL = (headers s NULL)\<lparr>mh_prev := q, mh_next := NULL, mh_padding := 0, mh_free := True\<rparr>"
    using q(2) by (intro exI [of _ q]) (simp add: s'_def)
  ultimately show ?thesis
    using that \<open>coalesce NULL s = Some s\<close> \<open>bin_insert bins NULL s = Some s'\<close> by (simp add: free_block_def)
qed

subsection \<open>Taking a block\<close>

lemma detach_part:
  assumes part: "heap_part bins s bs L {}" and i: "i < 13" "x \<in> set (L i)"
  obtains s' where "detach_header x s = Some s'" "heap_part bins s' bs (L(i := remove1 x (L i))) {x}"
    "live_regions s' bs {x} = live_regions s bs {}" "same_block (headers s x) (headers s' x)" "x \<in> set bs"
proof -
  have P: "bins_place bins" "tiles (headers s) 0x8000000 bs 0x1F000000" "bins_ok (headers s) bins L"
    "binned L = {b \<in> set bs. mh_free (headers s b)}" using part by (simp_all add: heap_part_def)
  obtain s' where det: "detach_header x s = Some s'" "pad_headers s' = pad_headers s"
    and same: "\<And>a. same_block (headers s a) (headers s' a)" and ok: "bins_ok (headers s') bins (L(i := remove1 x (L i)))"
    and frame: "\<And>a. a \<notin> binned L \<union> bin_cells bins \<Longrightarrow> headers s' a = headers s a"
    using detach_header_spec [OF P(1,3) i] by metis
  have keep: "mh_size (headers s' a) = mh_size (headers s a)" "mh_free (headers s' a) = mh_free (headers s a)"
    "mh_magic (headers s' a) = mh_magic (headers s a)" for a using same by (simp_all add: same_block_def)
  have x: "x \<in> set bs" "mh_free (headers s x)" using i P(4) by (auto simp: binned_def)
  have "tiles (headers s') 0x8000000 bs 0x1F000000" by (rule tiles_frame [OF P(2)]) (simp add: keep)
  moreover have "headers s' NULL = headers s NULL" using frame [of NULL] heap_part_null [OF part] by simp
  moreover have "binned (L(i := remove1 x (L i))) = binned L - {x}" by (rule binned_remove [OF P(3) i(2,1)])
  moreover have "\<forall>j<13. \<forall>b\<in>set ((L(i := remove1 x (L i))) j). size_bin (mh_size (headers s' b)) = j"
    using part set_remove1_subset [of x "L i"] by (auto simp: heap_part_def keep split: if_splits)
  moreover have "alloc_ok s' b" if "b \<in> set bs" "\<not> mh_free (headers s' b)" for b
    by (rule alloc_ok_same [OF heap_part_alloc [OF part]]) (use that same [of b] keep [of b] det(2) in simp_all)
  ultimately have "heap_part bins s' bs (L(i := remove1 x (L i))) {x}"
    using part P(4) ok by (simp add: heap_part_def keep)
  moreover have "live_regions s' bs {x} = live_regions s bs {x}"
    by (rule live_regions_cong) (use same keep in auto)
  moreover have "live_regions s bs {x} = live_regions s bs {}" using x by (auto simp: live_regions_def)
  ultimately show ?thesis using that det(1) same x by simp
qed

lemma bins_ok_outside:
  assumes "bins_ok H bins L" "\<And>a. a \<in> binned L \<union> bin_cells bins \<Longrightarrow> H' a = H a"
  shows "bins_ok H' bins L"
proof -
  have "chain H' (recycle_bin bins (int j)) (L j)" if j: "j < 13" for j
  proof -
    have "H' a = H a" if "a \<in> set (recycle_bin bins (int j) # L j)" for a
      using that j assms(2) by (auto simp: binned_def bin_cells_def)
    then show ?thesis by (intro chain_frame [OF bins_okD(1) [OF assms(1) j]]) (metis list.set_intros(2))+
  qed
  with assms(1) show ?thesis by (simp add: bins_ok_def)
qed

lemma split_part:
  assumes part: "heap_part bins s bs L {x}" and x: "x \<in> set bs"
    and lo: "20 \<le> unat lo" "20 + unat lo \<le> unat (mh_size (headers s x))"
  defines "x1 \<equiv> x + mh_size (headers s x) - lo"
  defines "s' \<equiv> upd_header x (\<lambda>h. h\<lparr>mh_size := mh_size h - lo\<rparr>) (upd_header x1 (\<lambda>h. \<lparr>mh_prev = 0, mh_next = 0, mh_size = lo,
      mh_padding = 0, mh_free = True, mh_magic = MALLOC_MAGIC\<rparr>) s)"
  obtains bs' where "heap_part bins s' bs' L {x, x1}" "live_regions s' bs' {x, x1} = live_regions s bs {x}"
    "x \<in> set bs'" "x1 \<in> set bs'" "x1 \<noteq> x" "unat (mh_size (headers s' x)) = unat (mh_size (headers s x)) - unat lo"
proof -
  note B = heap_part_block [OF part]
  have P: "bins_place bins" "tiles (headers s) 0x8000000 bs 0x1F000000" "bins_ok (headers s) bins L"
    "binned L = {b \<in> set bs. mh_free (headers s b)} - {x}" using part by (simp_all add: heap_part_def)
  have x1: "unat x1 = block_end (headers s) x - unat lo"
    unfolding x1_def using B(2) [OF x] lo by (simp add: unat_minus_nowrap unat_plus_nowrap)
  have new: "x1 \<notin> set bs"
  proof
    assume "x1 \<in> set bs"
    moreover have "x1 \<noteq> x" using x1 lo by auto
    ultimately show False using tiles_apart [OF P(2) x, of x1] x1 lo B(3) [of x1] by auto
  qed
  have big: "0x8000000 \<le> unat x1" using x1 lo B(1) [OF x] by simp
  have ne: "x1 \<noteq> x" "x1 \<notin> bin_cells bins" "x1 \<noteq> NULL" "x1 \<notin> binned L"
    subgoal using new x by auto
    subgoal using big bin_cellsD(2) [OF P(1), of x1] by auto
    subgoal using big by auto
    subgoal using new P(4) by auto
    done
  have H: "headers s' a = (if a = x then (headers s x)\<lparr>mh_size := mh_size (headers s x) - lo\<rparr>
      else if a = x1 then \<lparr>mh_prev = 0, mh_next = 0, mh_size = lo, mh_padding = 0, mh_free = True, mh_magic = MALLOC_MAGIC\<rparr>
      else headers s a)" for a
    using ne(1) by (simp add: s'_def upd_header_def)
  have sz: "unat (mh_size (headers s' x)) = unat (mh_size (headers s x)) - unat lo"
    using lo by (simp add: H unat_minus_nowrap)
  obtain us vs where bs: "bs = us @ x # vs" using x by (meson split_list)
  have dist: "x \<notin> set us" "x \<notin> set vs" using tiles_distinct [OF P(2)] bs by auto
  let ?bs = "us @ x # x1 # vs"
  have "tiles (headers s') 0x8000000 ?bs 0x1F000000"
  proof -
    from P(2) obtain m where m: "tiles (headers s) 0x8000000 us m" "unat x = m"
        "tiles (headers s) (m + unat (mh_size (headers s x))) vs 0x1F000000" by (auto simp: tiles_append bs)
    have keep: "headers s' b = headers s b" if "b \<in> set us \<union> set vs" for b using that dist new bs by (auto simp: H)
    have "tiles (headers s') 0x8000000 us m" by (rule tiles_frame [OF m(1)]) (simp add: keep)
    moreover have "tiles (headers s') (m + unat (mh_size (headers s x))) vs 0x1F000000"
      by (rule tiles_frame [OF m(3)]) (simp add: keep)
    moreover have "mh_magic (headers s x) = MALLOC_MAGIC" using B(4) [OF x] .
    ultimately show ?thesis using m(2) sz x1 lo ne(1) by (auto simp: tiles_append H)
  qed
  moreover have "bins_ok (headers s') bins L"
    by (rule bins_ok_outside [OF P(3)]) (use ne P(4) B(5) [OF x] in \<open>auto simp: H\<close>)
  moreover have "headers s' NULL = headers s NULL" using ne B(6) [OF x] by (simp add: H)
  moreover have "binned L = {b \<in> set ?bs. mh_free (headers s' b)} - {x, x1}"
    unfolding P(4) using new bs by (auto simp: H)
  moreover have "\<forall>j<13. \<forall>b\<in>set (L j). size_bin (mh_size (headers s' b)) = j"
  proof (intro allI impI ballI)
    fix j b assume j: "j < 13" "b \<in> set (L j)"
    then have "b \<in> binned L" by (auto simp: binned_def)
    then have "headers s' b = headers s b" using ne P(4) by (auto simp: H)
    with part j show "size_bin (mh_size (headers s' b)) = j" by (simp add: heap_part_def)
  qed
  moreover have "alloc_ok s' b" if "b \<in> set ?bs - {x, x1}" "\<not> mh_free (headers s' b)" for b
    by (rule alloc_ok_same [OF heap_part_alloc [OF part]]) (use that bs in \<open>auto simp: H s'_def upd_header_def\<close>)
  ultimately have "heap_part bins s' ?bs L {x, x1}" using part by (simp add: heap_part_def)
  moreover have "live_regions s' ?bs {x, x1} = live_regions s bs {x, x1}"
    by (rule live_regions_cong) (use bs in \<open>auto simp: H\<close>)
  moreover have "live_regions s bs {x, x1} = live_regions s bs {x}" using new by (auto simp: live_regions_def)
  ultimately show ?thesis using that [of ?bs] ne sz by simp
qed

lemma unat_ucast_u16: "unat (p :: u32) < 65536 \<Longrightarrow> unat (ucast p :: u16) = unat p"
  by (simp add: unsigned_ucast_eq unsigned_take_bit_eq take_bit_nat_eq_self)

lemma ucast_ucast_u16: "unat (p :: u32) < 65536 \<Longrightarrow> ucast (ucast p :: u16) = p"
  by (simp add: word_unat_eq_iff unsigned_ucast_eq unsigned_take_bit_eq take_bit_nat_eq_self)

lemma unat_ucast_up_u16 [simp]: "unat (ucast (p :: u16) :: u32) = unat p"
  by transfer (simp add: min_def)

lemma pad_address:
  fixes b p :: u32
  assumes "20 + unat p \<le> sz" "unat b + sz \<le> 0x1F000000"
  shows "unat (b + 20 + p) = unat b + 20 + unat p" "unat (b + 20 + p - 4) = unat b + 16 + unat p"
proof -
  have "unat (b + 20) = unat b + 20" using assms by (subst unat_plus_nowrap) simp_all
  then show *: "unat (b + 20 + p) = unat b + 20 + unat p" using assms by (subst unat_plus_nowrap) simp_all
  show "unat (b + 20 + p - 4) = unat b + 16 + unat p"
    using unat_minus_nowrap [of 4 "b + 20 + p"] * by simp
qed

lemma occupy_part:
  assumes part: "heap_part bins s bs L X" and x: "x \<in> set bs" "x \<in> X"
    and pad: "unat pad < 65536" "20 + unat pad \<le> unat (mh_size (headers s x))"
  defines "s' \<equiv> upd_padding (x + 16 + pad) \<lparr>ph_padding = ucast pad, ph_free = False, ph_magic = MALLOC_MAGIC\<rparr>
      (upd_header x (\<lambda>h. h\<lparr>mh_prev := 0, mh_next := 0, mh_padding := ucast pad, mh_free := False\<rparr>) s)"
  shows "heap_part bins s' bs L (X - {x})"
    "live_regions s' bs (X - {x}) = insert (unat (x + 20 + pad), block_end (headers s) x) (live_regions s bs X)"
proof -
  note B = heap_part_block [OF part]
  have P: "tiles (headers s) 0x8000000 bs 0x1F000000" "bins_ok (headers s) bins L"
    "binned L = {b \<in> set bs. mh_free (headers s b)} - X" using part by (simp_all add: heap_part_def)
  have H: "headers s' a = (if a = x then (headers s x)\<lparr>mh_prev := 0, mh_next := 0, mh_padding := ucast pad, mh_free := False\<rparr>
      else headers s a)" for a
    by (simp add: s'_def upd_header_def upd_padding_def)
  have PD: "pad_headers s' a = (if a = x + 16 + pad then \<lparr>ph_padding = ucast pad, ph_free = False, ph_magic = MALLOC_MAGIC\<rparr>
      else pad_headers s a)" for a
    by (simp add: s'_def upd_header_def upd_padding_def)
  have cast: "unat (ucast pad :: u16) = unat pad" "ucast (ucast pad :: u16) = pad"
    using pad(1) by (simp_all add: unat_ucast_u16 ucast_ucast_u16)
  have up: "user_ptr (headers s' x) x = x + 20 + pad" by (simp add: user_ptr_def H cast(2))
  have px: "unat (x + 20 + pad) = unat x + 20 + unat pad" "unat (x + 20 + pad - 4) = unat x + 16 + unat pad"
    using pad_address [OF pad(2) B(2) [OF x(1)]] .
  have pa: "x + 16 + pad = x + 20 + pad - 4" by simp
  have xb: "x \<notin> binned L" using P(3) x(2) by simp
  have alloc: "alloc_ok s' b" if b: "b \<in> set bs - (X - {x})" "\<not> mh_free (headers s' b)" for b
  proof (cases "b = x")
    case True
    have "user_ptr (headers s' b) b - 4 = x + 16 + pad" using True up pa by simp
    with True pad cast(1) show ?thesis unfolding alloc_ok_def by (simp add: H PD)
  next
    case False
    then have ok: "alloc_ok s b" using b by (intro heap_part_alloc [OF part]) (auto simp: H)
    then have "20 + unat (ucast (mh_padding (headers s b)) :: u32) \<le> unat (mh_size (headers s b))" by (simp add: alloc_ok_def)
    note pb = pad_address(2) [OF this B(2)]
    have "unat (user_ptr (headers s b) b - 4) \<noteq> unat (x + 16 + pad)"
      unfolding pa px(2) using tiles_apart [OF P(1) x(1), of b] False b ok pb pad(2)
      by (auto simp: user_ptr_def alloc_ok_def)
    then have "user_ptr (headers s b) b - 4 \<noteq> x + 16 + pad" by metis
    with ok False show ?thesis unfolding alloc_ok_def by (simp add: H PD)
  qed
  have "tiles (headers s') 0x8000000 bs 0x1F000000" by (rule tiles_frame [OF P(1)]) (simp add: H)
  moreover have "bins_ok (headers s') bins L"
    by (rule bins_ok_outside [OF P(2)]) (use xb B(5) [OF x(1)] in \<open>auto simp: H\<close>)
  moreover have "headers s' NULL = headers s NULL" using B(6) [OF x(1)] by (simp add: H)
  moreover have "binned L = {b \<in> set bs. mh_free (headers s' b)} - (X - {x})"
    unfolding P(3) using x(2) by (auto simp: H)
  moreover have "mh_size (headers s' b) = mh_size (headers s b)" for b by (simp add: H)
  ultimately show "heap_part bins s' bs L (X - {x})" using part alloc by (simp add: heap_part_def)
  have split: "{b \<in> set bs - (X - {x}). \<not> mh_free (headers s' b)} = insert x {b \<in> set bs - X. \<not> mh_free (headers s b)}"
    using x by (auto simp: H)
  have "(\<lambda>b. (unat (user_ptr (headers s' b) b), block_end (headers s') b)) ` {b \<in> set bs - X. \<not> mh_free (headers s b)} =
      (\<lambda>b. (unat (user_ptr (headers s b) b), block_end (headers s) b)) ` {b \<in> set bs - X. \<not> mh_free (headers s b)}"
    by (rule image_cong) (use x(2) in \<open>auto simp: H\<close>)
  then show "live_regions s' bs (X - {x}) = insert (unat (x + 20 + pad), block_end (headers s) x) (live_regions s bs X)"
    unfolding live_regions_def split image_insert up by (simp add: H)
qed

end
