(* ===== verification/Malloc_Correct.thy ===== *)
theory Malloc_Correct
  imports Malloc
begin

section \<open>Correctness of the kernel heap\<close>

text \<open>
  Allocation and release keep the heap invariant of the theory of the allocator, hand out
  regions that overlap no live region, and find a block whenever one is large enough. The last
  part shows the role of the word at address 8.
\<close>

subsection \<open>Alignment\<close>

lemma validate_alignment_power: "k < 32 \<Longrightarrow> idx \<le> k \<Longrightarrow> validate_alignment (2 ^ k) idx"
proof (induction "k - idx" arbitrary: idx)
  case 0
  then have idx: "idx = k" by simp
  have "(2 ^ k :: u32) AND push_bit k 1 = 2 ^ k" by (simp add: push_bit_eq_mult)
  with 0 idx show ?case by (subst validate_alignment.simps) (simp add: push_bit_eq_mult)
next
  case (Suc d)
  have "(2 ^ k :: u32) AND push_bit idx 1 = 0"
    using Suc.hyps(2) Suc.prems(1)
    by (intro bit_eqI) (auto simp: bit_simps push_bit_eq_mult bit_exp_iff)
  with Suc.hyps(1) [of "Suc idx"] Suc.hyps(2) Suc.prems show ?case by (subst validate_alignment.simps) simp
qed

lemma mask_unat: "unat (u AND (2 ^ k - 1) :: u32) = unat u mod 2 ^ k"
  by (simp flip: mask_eq_exp_minus_1 take_bit_eq_mask take_bit_eq_mod add: unsigned_take_bit_eq)

definition padding_for :: "u32 \<Rightarrow> nat \<Rightarrow> u32" where
  "padding_for u k = (if u AND (2 ^ k - 1) \<noteq> 0 then 2 ^ k - (u AND (2 ^ k - 1)) else 0)"

lemma padding_for_spec:
  assumes "k \<le> 16" "unat u + 65536 < 2 ^ 32"
  shows "unat (padding_for u k) < 65536" "unat (u + padding_for u k) = unat u + unat (padding_for u k)"
    "(u + padding_for u k) AND (2 ^ k - 1) = 0" "k = 0 \<Longrightarrow> padding_for u k = 0"
    "unat (padding_for u k) = (2 ^ k - unat u mod 2 ^ k) mod 2 ^ k"
proof -
  have le: "(2 :: nat) ^ k \<le> 65536" using assms(1) power_increasing [of k 16 "2 :: nat"] by simp
  then have "unat (of_nat (2 ^ k) :: u32) = 2 ^ k" by (intro unat_of_nat_id) simp
  then have p: "unat (2 ^ k :: u32) = 2 ^ k" "(2 :: nat) ^ k \<le> 65536" using le by simp_all
  define r where "r = unat u mod 2 ^ k"
  have r: "r < 2 ^ k" "unat (u AND (2 ^ k - 1)) = r" by (simp_all add: r_def mask_unat)
  then have zero: "u AND (2 ^ k - 1) = 0 \<longleftrightarrow> r = 0" by (metis unat_eq_0)
  have pad: "unat (padding_for u k) = (if r = 0 then 0 else 2 ^ k - r)"
    using r p zero by (simp add: padding_for_def unat_minus_nowrap)
  then show lt: "unat (padding_for u k) < 65536" using r p by (auto split: if_splits)
  show sum: "unat (u + padding_for u k) = unat u + unat (padding_for u k)"
    using lt assms(2) by (intro unat_plus_nowrap) simp
  have "(unat u + unat (padding_for u k)) mod 2 ^ k = 0"
  proof (cases "r = 0")
    case False
    have "unat u = 2 ^ k * (unat u div 2 ^ k) + r" by (simp add: r_def)
    then have "unat u + (2 ^ k - r) = 2 ^ k * (unat u div 2 ^ k) + 2 ^ k" using r(1) by linarith
    with False pad show ?thesis by simp
  qed (use pad r_def in simp)
  then have "unat ((u + padding_for u k) AND (2 ^ k - 1)) = 0" unfolding mask_unat sum .
  then show "(u + padding_for u k) AND (2 ^ k - 1) = 0" by (simp add: unat_eq_0)
  show "k = 0 \<Longrightarrow> padding_for u k = 0" by (simp add: padding_for_def)
  show "unat (padding_for u k) = (2 ^ k - unat u mod 2 ^ k) mod 2 ^ k" using pad r(1) by (simp add: r_def)
qed

subsection \<open>Allocation from one block\<close>

text \<open>The guards of the function when the block is free and the alignment a power of two.\<close>

lemma malloc_from_head:
  assumes x: "mh_free (headers s x)" "mh_magic (headers s x) = MALLOC_MAGIC"
    and len: "0 \<le> len" "len < 2 ^ 31" and k: "k \<le> 16" and small: "unat (x + 20) + 65536 < 2 ^ 32"
  defines "pad \<equiv> padding_for (x + 20) k" and "sz \<equiv> mh_size (headers s x)" and "ulen \<equiv> (of_int len :: u32)"
  shows "unat ulen = nat len" "unat (ulen + 16 + 4 + pad) = nat len + 20 + unat pad"
    "malloc_from bins x len (2 ^ k) s =
    (if ulen + 16 + 4 + pad > sz then Some (NULL, s)
     else do {
         let left_over = sz - 16 - 4 - pad - ulen;
         s \<leftarrow> detach_header x s;
         let (hdr1, s) =
           (if left_over > 16 + 4 then
              (let hdr1 = x + mh_size (headers s x) - left_over;
                   s = upd_header hdr1 (\<lambda>h. \<lparr>mh_prev = 0, mh_next = 0, mh_size = left_over, mh_padding = 0,
                         mh_free = True, mh_magic = MALLOC_MAGIC\<rparr>) s
               in (hdr1, upd_header x (\<lambda>h. h\<lparr>mh_size := mh_size h - left_over\<rparr>) s))
            else (NULL, s));
         let s = upd_header x (\<lambda>h. h\<lparr>mh_prev := 0, mh_next := 0, mh_padding := ucast pad, mh_free := False\<rparr>) s;
         let s = upd_padding (x + 16 + pad) \<lparr>ph_padding = ucast pad, ph_free = False, ph_magic = MALLOC_MAGIC\<rparr> s;
         s \<leftarrow> free_block bins hdr1 s;
         Some (x + 16 + 4 + pad, s) })"
proof -
  show ulen: "unat ulen = nat len" using len unat_of_nat_id [of "nat len"] by (simp add: ulen_def)
  note pad = padding_for_spec [OF k small, folded pad_def]
  have L1: "unat (ulen + 16 + 4) = nat len + 20" using ulen len by (simp add: unat_plus_nowrap)
  then show L2: "unat (ulen + 16 + 4 + pad) = nat len + 20 + unat pad"
    using pad(1) len unat_plus_nowrap [of "ulen + 16 + 4" pad] by simp
  have align: "(of_int (2 ^ k) :: u32) = 2 ^ k" "(2 ^ k :: u32) \<noteq> 0" "validate_alignment (2 ^ k) 0"
    using k validate_alignment_power [of k 0] by (simp_all add: exp_eq_zero_iff)
  have "\<not> ulen + 16 + 4 + pad > sz \<Longrightarrow> \<not> ulen + 16 + 4 > sz" using L1 L2 by (simp add: word_less_nat_alt)
  moreover have "x + 16 + 4 = x + 20" by simp
  ultimately show "malloc_from bins x len (2 ^ k) s =
    (if ulen + 16 + 4 + pad > sz then Some (NULL, s)
     else do {
         let left_over = sz - 16 - 4 - pad - ulen;
         s \<leftarrow> detach_header x s;
         let (hdr1, s) =
           (if left_over > 16 + 4 then
              (let hdr1 = x + mh_size (headers s x) - left_over;
                   s = upd_header hdr1 (\<lambda>h. \<lparr>mh_prev = 0, mh_next = 0, mh_size = left_over, mh_padding = 0,
                         mh_free = True, mh_magic = MALLOC_MAGIC\<rparr>) s
               in (hdr1, upd_header x (\<lambda>h. h\<lparr>mh_size := mh_size h - left_over\<rparr>) s))
            else (NULL, s));
         let s = upd_header x (\<lambda>h. h\<lparr>mh_prev := 0, mh_next := 0, mh_padding := ucast pad, mh_free := False\<rparr>) s;
         let s = upd_padding (x + 16 + pad) \<lparr>ph_padding = ucast pad, ph_free = False, ph_magic = MALLOC_MAGIC\<rparr> s;
         s \<leftarrow> free_block bins hdr1 s;
         Some (x + 16 + 4 + pad, s) })"
    unfolding malloc_from_def Let_def align ulen_def [symmetric] sz_def [symmetric]
    using x align pad(3) by (simp only: padding_for_def [symmetric] pad_def [symmetric]) auto
qed

lemma malloc_from_spec:
  assumes part: "heap_part bins s bs L {}" and i: "i < 13" "x \<in> set (L i)"
    and len: "0 \<le> len" "len < 2 ^ 31" and k: "k \<le> 16"
  defines "pad \<equiv> padding_for (x + 20) k"
  shows "if unat x + 20 + unat pad + nat len \<le> block_end (headers s) x
    then \<exists>s' bs' L' e. malloc_from bins x len (2 ^ k) s = Some (x + 20 + pad, s') \<and> heap_part bins s' bs' L' {} \<and>
      live_regions s' bs' {} = insert (unat (x + 20 + pad), e) (live_regions s bs {}) \<and>
      unat (x + 20 + pad) + nat len \<le> e \<and> e \<le> block_end (headers s) x
    else malloc_from bins x len (2 ^ k) s = Some (NULL, s)"
proof -
  have x: "x \<in> set bs" "mh_free (headers s x)" using part i by (auto simp: heap_part_def binned_def)
  note B = heap_part_block [OF part x(1)]
  define sz where "sz = mh_size (headers s x)"
  define ulen where "ulen = (of_int len :: u32)"
  have x20: "unat (x + 20) = unat x + 20" using B(2) by (simp add: unat_plus_nowrap)
  have small: "unat (x + 20) + 65536 < 2 ^ 32" using B(2,3) x20 by simp
  note pad = padding_for_spec [OF k small, folded pad_def]
  note head = malloc_from_head [OF x(2) B(4) len k small, folded pad_def sz_def ulen_def]
  have ulen: "unat ulen = nat len" and L2: "unat (ulen + 16 + 4 + pad) = nat len + 20 + unat pad" by (rule head)+
  show ?thesis
  proof (cases "ulen + 16 + 4 + pad > sz")
    case True
    then have "\<not> unat x + 20 + unat pad + nat len \<le> block_end (headers s) x"
      using L2 by (simp add: word_less_nat_alt sz_def)
    with head(3) True show ?thesis by simp
  next
    case False
    then have fit: "nat len + 20 + unat pad \<le> unat sz" using L2 by (simp add: word_less_nat_alt)
    define lo where "lo = sz - 16 - 4 - pad - ulen"
    have lo: "unat lo = unat sz - 20 - unat pad - nat len"
      unfolding lo_def using fit ulen by (simp add: unat_minus_nowrap)
    obtain s1 where det: "detach_header x s = Some s1" and p1: "heap_part bins s1 bs (L(i := remove1 x (L i))) {x}"
      and l1: "live_regions s1 bs {x} = live_regions s bs {}" and same: "same_block (headers s x) (headers s1 x)"
      using detach_part [OF part i] by metis
    have sz1: "mh_size (headers s1 x) = sz" using same by (simp add: same_block_def sz_def)
    define occ where "occ = (\<lambda>s. upd_padding (x + 16 + pad) \<lparr>ph_padding = ucast pad, ph_free = False, ph_magic = MALLOC_MAGIC\<rparr>
      (upd_header x (\<lambda>h. h\<lparr>mh_prev := 0, mh_next := 0, mh_padding := ucast pad, mh_free := False\<rparr>) s))"
    have goal: ?thesis
      if run: "malloc_from bins x len (2 ^ k) s = Some (x + 16 + 4 + pad, s')" and p: "heap_part bins s' bs' L' {}"
        and live: "live_regions s' bs' {} = insert (unat (x + 20 + pad), e) (live_regions s bs {})"
        and e: "unat x + 20 + unat pad + nat len \<le> e" "e \<le> block_end (headers s) x" for s' bs' L' e
      using that fit pad(2) x20 by (auto simp: sz_def intro!: exI [of _ s'] exI [of _ bs'] exI [of _ L'] exI [of _ e])
    show ?thesis
    proof (cases "lo > 16 + 4")
      case True
      then have lo20: "20 < unat lo" by (simp add: word_less_nat_alt)
      define x1 where "x1 = x + mh_size (headers s1 x) - lo"
      define s2 where "s2 = upd_header x (\<lambda>h. h\<lparr>mh_size := mh_size h - lo\<rparr>) (upd_header x1 (\<lambda>h. \<lparr>mh_prev = 0, mh_next = 0, mh_size = lo,
          mh_padding = 0, mh_free = True, mh_magic = MALLOC_MAGIC\<rparr>) s1)"
      obtain bs2 where 2: "heap_part bins s2 bs2 (L(i := remove1 x (L i))) {x, x1}" "live_regions s2 bs2 {x, x1} = live_regions s1 bs {x}"
          "x \<in> set bs2" "x1 \<in> set bs2" "x1 \<noteq> x" "unat (mh_size (headers s2 x)) = unat (mh_size (headers s1 x)) - unat lo"
        by (rule split_part [OF p1 x(1), of lo, folded x1_def, folded s2_def]) (use lo20 lo fit sz1 in simp_all)
      have fit2: "20 + unat pad \<le> unat (mh_size (headers s2 x))" using 2(6) sz1 lo fit by simp
      have X: "{x, x1} - {x} = {x1}" using 2(5) by auto
      have 3: "heap_part bins (occ s2) bs2 (L(i := remove1 x (L i))) {x1}"
          "live_regions (occ s2) bs2 {x1} = insert (unat (x + 20 + pad), block_end (headers s2) x) (live_regions s2 bs2 {x, x1})"
        using occupy_part [OF 2(1,3) insertI1 pad(1) fit2, unfolded X] by (simp_all add: occ_def)
      obtain s4 bs4 L4 where 4: "free_block bins x1 (occ s2) = Some s4" "heap_part bins s4 bs4 L4 {}"
          "live_regions s4 bs4 {} = live_regions (occ s2) bs2 {x1}"
        by (rule free_block_spec [OF 3(1) 2(4)])
      have "malloc_from bins x len (2 ^ k) s = Some (x + 16 + 4 + pad, s4)"
        unfolding head(3) lo_def [symmetric] Let_def using False True det 4(1)
        by (simp add: occ_def s2_def x1_def)
      then show ?thesis
        by (rule goal [OF _ 4(2), of "block_end (headers s2) x"])
          (use 4(3) 3(2) 2(2,6) l1 sz1 lo fit sz_def in \<open>simp_all add: add.assoc\<close>)
    next
      case F: False
      have fit1: "20 + unat pad \<le> unat (mh_size (headers s1 x))" using sz1 fit by simp
      have 3: "heap_part bins (occ s1) bs (L(i := remove1 x (L i))) {}"
          "live_regions (occ s1) bs {} = insert (unat (x + 20 + pad), block_end (headers s1) x) (live_regions s1 bs {x})"
        using occupy_part [OF p1 x(1) insertI1 pad(1) fit1, unfolded Diff_cancel] by (simp_all add: occ_def)
      obtain s4 where 4: "free_block bins NULL (occ s1) = Some s4" "heap_part bins s4 bs (L(i := remove1 x (L i))) {}"
          "live_regions s4 bs {} = live_regions (occ s1) bs {}"
        by (rule free_null_spec [OF 3(1)]) blast
      have "malloc_from bins x len (2 ^ k) s = Some (x + 16 + 4 + pad, s4)"
        unfolding head(3) lo_def [symmetric] Let_def using False F det 4(1) by (simp add: occ_def)
      then show ?thesis
        by (rule goal [OF _ 4(2), of "block_end (headers s1) x"])
          (use 4(3) 3(2) l1 sz1 fit sz_def in simp_all)
    qed
  qed
qed

subsection \<open>The search\<close>

text \<open>A free block can hold a request when what is left behind its two headers and the padding is
  large enough.\<close>

definition fits :: "nat \<Rightarrow> nat \<Rightarrow> nat \<times> nat \<Rightarrow> bool" where
  "fits len k r \<longleftrightarrow> fst r + 20 + (2 ^ k - (fst r + 20) mod 2 ^ k) mod 2 ^ k + len \<le> snd r"

definition free_blocks :: "malloc_state \<Rightarrow> addr list \<Rightarrow> (nat \<times> nat) set" where
  "free_blocks s bs = (\<lambda>b. (unat b, block_end (headers s) b)) ` {b \<in> set bs. mh_free (headers s b)}"

text \<open>What a successful search has done: the new region is aligned, at least as long as
  requested, lies in a block that was free, and is the only change of the live regions.\<close>

definition allocated :: "addr \<Rightarrow> malloc_state \<Rightarrow> addr list \<Rightarrow> int \<Rightarrow> nat \<Rightarrow> addr \<times> malloc_state \<Rightarrow> bool" where
  "allocated bins s bs len k r \<longleftrightarrow> (case r of (p, s') \<Rightarrow> \<exists>bs' L' e.
     p \<noteq> NULL \<and> unat p mod 2 ^ k = 0 \<and> heap_part bins s' bs' L' {} \<and>
     live_regions s' bs' {} = insert (unat p, e) (live_regions s bs {}) \<and> unat p + nat len \<le> e \<and>
     (\<exists>(a, b) \<in> free_blocks s bs. fits (nat len) k (a, b) \<and> a + 20 \<le> unat p \<and> e \<le> b))"

lemma allocated_not_NULL: "allocated bins s bs len k (p, s') \<Longrightarrow> p \<noteq> NULL"
  by (auto simp: allocated_def)

lemma malloc_from_cases:
  assumes part: "heap_part bins s bs L {}" and i: "i < 13" "x \<in> set (L i)"
    and len: "0 \<le> len" "len < 2 ^ 31" and k: "k \<le> 16"
  shows "if fits (nat len) k (unat x, block_end (headers s) x)
    then \<exists>r. malloc_from bins x len (2 ^ k) s = Some r \<and> allocated bins s bs len k r
    else malloc_from bins x len (2 ^ k) s = Some (NULL, s)"
proof -
  have x: "x \<in> set bs" "mh_free (headers s x)" using part i by (auto simp: heap_part_def binned_def)
  note B = heap_part_block [OF part x(1)]
  have x20: "unat (x + 20) = unat x + 20" using B(2) by (simp add: unat_plus_nowrap)
  have small: "unat (x + 20) + 65536 < 2 ^ 32" using B(2,3) x20 by simp
  define pad where "pad = padding_for (x + 20) k"
  note pad = padding_for_spec [OF k small, folded pad_def, unfolded x20]
  have F: "fits (nat len) k (unat x, block_end (headers s) x) \<longleftrightarrow>
      unat x + 20 + unat pad + nat len \<le> block_end (headers s) x"
    using pad(5) by (simp add: fits_def)
  have mod: "unat (x + 20 + pad) mod 2 ^ k = 0" using pad(3) unfolding mask_unat [symmetric] by simp
  have ne: "x + 20 + pad \<noteq> NULL" using pad(2) by (metis add_is_0 unat_0 zero_neq_numeral)
  have free: "(unat x, block_end (headers s) x) \<in> free_blocks s bs" using x by (auto simp: free_blocks_def)
  show ?thesis
  proof (cases "fits (nat len) k (unat x, block_end (headers s) x)")
    case True
    then obtain s' bs' L' e where *: "malloc_from bins x len (2 ^ k) s = Some (x + 20 + pad, s')" "heap_part bins s' bs' L' {}"
        "live_regions s' bs' {} = insert (unat (x + 20 + pad), e) (live_regions s bs {})"
        "unat (x + 20 + pad) + nat len \<le> e" "e \<le> block_end (headers s) x"
      using malloc_from_spec [OF part i len k] F unfolding pad_def by (metis (no_types, lifting))
    then have "allocated bins s bs len k (x + 20 + pad, s')"
      unfolding allocated_def prod.case using mod ne free pad(2) True
      by (intro exI [of _ bs'] exI [of _ L'] exI [of _ e] conjI bexI [OF _ free]) simp_all
    with * True show ?thesis by auto
  next
    case False
    then show ?thesis using malloc_from_spec [OF part i len k] F unfolding pad_def by simp
  qed
qed

lemma malloc_chain_spec:
  assumes part: "heap_part bins s bs L {}" and i: "i < 13" "set xs \<subseteq> set (L i)"
    and len: "0 \<le> len" "len < 2 ^ 31" and k: "k \<le> 16" and ch: "chain (headers s) q xs"
  shows "(\<exists>r. malloc_chain bins len (2 ^ k) (mh_next (headers s q)) s = Some r \<and> allocated bins s bs len k r) \<or>
    malloc_chain bins len (2 ^ k) (mh_next (headers s q)) s = Some (NULL, s) \<and>
    (\<forall>x \<in> set xs. \<not> fits (nat len) k (unat x, block_end (headers s) x))"
  using i(2) ch
proof (induction xs arbitrary: q)
  case Nil
  then show ?case by (simp add: malloc_chain.simps)
next
  case (Cons x xs)
  then have x: "mh_next (headers s q) = x" "x \<noteq> NULL" "x \<in> set (L i)" and IH: "set xs \<subseteq> set (L i)" "chain (headers s) x xs" by auto
  show ?case
  proof (cases "fits (nat len) k (unat x, block_end (headers s) x)")
    case True
    then obtain r where "malloc_from bins x len (2 ^ k) s = Some r" "allocated bins s bs len k r"
      using malloc_from_cases [OF part i(1) x(3) len k] by auto
    with x show ?thesis by (cases r) (auto simp: malloc_chain.simps [of bins len _ x] dest: allocated_not_NULL)
  next
    case False
    then have "malloc_chain bins len (2 ^ k) x s = malloc_chain bins len (2 ^ k) (mh_next (headers s x)) s"
      using malloc_from_cases [OF part i(1) x(3) len k] x(2) by (simp add: malloc_chain.simps [of bins len _ x])
    with Cons.IH [OF IH] False x(1) show ?thesis by simp
  qed
qed

lemma malloc_bins_spec:
  assumes part: "heap_part bins s bs L {}" and len: "0 \<le> len" "len < 2 ^ 31" and k: "k \<le> 16"
  shows "i \<le> 13 \<Longrightarrow> (\<exists>r. malloc_bins bins len (2 ^ k) (int i) s = Some r \<and> allocated bins s bs len k r) \<or>
    malloc_bins bins len (2 ^ k) (int i) s = Some (NULL, s) \<and>
    (\<forall>j<13. i \<le> j \<longrightarrow> (\<forall>x \<in> set (L j). \<not> fits (nat len) k (unat x, block_end (headers s) x)))"
proof (induction "13 - i" arbitrary: i)
  case 0
  then show ?case by (simp add: malloc_bins.simps)
next
  case (Suc d)
  then have i: "i < 13" by simp
  have "chain (headers s) (recycle_bin bins (int i)) (L i)" using part bins_okD(1) i by (auto simp: heap_part_def)
  from malloc_chain_spec [OF part i subset_refl len k this] show ?case
  proof
    assume "\<exists>r. malloc_chain bins len (2 ^ k) (mh_next (headers s (recycle_bin bins (int i)))) s = Some r \<and> allocated bins s bs len k r"
    then obtain p s' where "malloc_chain bins len (2 ^ k) (mh_next (headers s (recycle_bin bins (int i)))) s = Some (p, s')"
      and r: "allocated bins s bs len k (p, s')" by auto
    then have "malloc_bins bins len (2 ^ k) (int i) s = Some (p, s')"
      using i allocated_not_NULL [OF r] by (simp add: malloc_bins.simps [of bins len _ "int i"])
    with r show ?thesis by blast
  next
    assume none: "malloc_chain bins len (2 ^ k) (mh_next (headers s (recycle_bin bins (int i)))) s = Some (NULL, s) \<and>
      (\<forall>x \<in> set (L i). \<not> fits (nat len) k (unat x, block_end (headers s) x))"
    then have step: "malloc_bins bins len (2 ^ k) (int i) s = malloc_bins bins len (2 ^ k) (int (Suc i)) s"
      using i by (simp add: malloc_bins.simps [of bins len _ "int i"] add.commute)
    have split: "i \<le> j \<longleftrightarrow> j = i \<or> Suc i \<le> j" for j by auto
    show ?thesis using Suc.hyps(1) [of "Suc i"] Suc.hyps(2) i none unfolding step split by auto
  qed
qed

text \<open>A block that fits lies in one of the bins that are searched.\<close>

lemma fits_bin:
  assumes part: "heap_part bins s bs L {}" and j: "j < 13" "x \<in> set (L j)" and len: "0 \<le> len"
    and fit: "fits (nat len) k (unat x, block_end (headers s) x)"
  shows "LENGTH_TO_RECYCLE_BIN_INDEX len \<le> int j"
proof -
  let ?sz = "mh_size (headers s x)"
  have x: "x \<in> set bs" and bin: "size_bin ?sz = j" using part j by (auto simp: heap_part_def binned_def)
  note B = heap_part_block [OF part x]
  have "unat (?sz - 20) = unat ?sz - 20" using B(3) by (simp add: unat_minus_nowrap)
  moreover have "unat ?sz < 2 ^ 31" using B(2) by simp
  ultimately have "sint (?sz - 16 - 4) = int (unat ?sz) - 20"
    using B(3) by (simp add: sint_small of_nat_diff)
  moreover have "nat len \<le> unat ?sz - 20" using fit by (simp add: fits_def)
  ultimately have "len \<le> sint (?sz - 16 - 4)" using len B(3) by linarith
  then have "LENGTH_TO_RECYCLE_BIN_INDEX len \<le> LENGTH_TO_RECYCLE_BIN_INDEX (sint (?sz - 16 - 4))"
    unfolding LENGTH_TO_RECYCLE_BIN_INDEX_def by (rule bin_index_mono)
  then show ?thesis unfolding size_bin_bound(2) bin .
qed

subsection \<open>The heap as a set of live regions\<close>

text \<open>The abstract state of the allocator: the regions handed out, and the free blocks.\<close>

definition heap_rep :: "addr \<Rightarrow> malloc_state \<Rightarrow> (nat \<times> nat) set \<Rightarrow> (nat \<times> nat) set \<Rightarrow> bool" where
  "heap_rep bins s R F \<longleftrightarrow> (\<exists>bs L. heap_part bins s bs L {} \<and> R = live_regions s bs {} \<and> F = free_blocks s bs)"

lemma user_ptr_unat:
  assumes "heap_part bins s bs L {}" "b \<in> set bs" "\<not> mh_free (headers s b)"
  shows "unat (user_ptr (headers s b) b) = unat b + 20 + unat (mh_padding (headers s b))"
    "unat (user_ptr (headers s b) b) \<le> block_end (headers s) b" "alloc_ok s b"
proof -
  show ok: "alloc_ok s b" using assms by (simp add: heap_part_def)
  note B = heap_part_block [OF assms(1,2)]
  have fit: "20 + unat (mh_padding (headers s b)) \<le> unat (mh_size (headers s b))" using ok by (simp add: alloc_ok_def)
  then have "unat (b + 20) = unat b + 20" "unat b + 20 + unat (mh_padding (headers s b)) < 4294967296"
    using B(2) by (simp_all add: unat_plus_nowrap)
  then show *: "unat (user_ptr (headers s b) b) = unat b + 20 + unat (mh_padding (headers s b))"
    by (simp add: user_ptr_def unat_plus_nowrap unat_ucast_up_u16)
  show "unat (user_ptr (headers s b) b) \<le> block_end (headers s) b" using * fit by simp
qed

text \<open>Two live regions are apart, and so are a live region and a free block.\<close>

lemma live_regions_apart:
  assumes part: "heap_part bins s bs L {}" and r: "(p, e) \<in> live_regions s bs {}" "(p', e') \<in> live_regions s bs {}" "p \<noteq> p'"
  shows "e < p' \<or> e' < p"
proof -
  obtain b where b: "b \<in> set bs" "\<not> mh_free (headers s b)" "p = unat (user_ptr (headers s b) b)" "e = block_end (headers s) b"
    using r(1) by (auto simp: live_regions_def)
  obtain c where c: "c \<in> set bs" "\<not> mh_free (headers s c)" "p' = unat (user_ptr (headers s c) c)" "e' = block_end (headers s) c"
    using r(2) by (auto simp: live_regions_def)
  have "b \<noteq> c" using b(3) c(3) r(3) by auto
  then have "e \<le> unat c \<or> e' \<le> unat b"
    using tiles_apart [of "headers s" _ bs _ b c] part b c by (auto simp: heap_part_def)
  then show ?thesis using user_ptr_unat(1) [OF part b(1,2)] user_ptr_unat(1) [OF part c(1,2)] b(3) c(3) by linarith
qed

lemma live_free_apart:
  assumes part: "heap_part bins s bs L {}" and r: "(p, e) \<in> live_regions s bs {}" "(a, z) \<in> free_blocks s bs"
  shows "e \<le> a \<or> z < p"
proof -
  obtain b where b: "b \<in> set bs" "\<not> mh_free (headers s b)" "p = unat (user_ptr (headers s b) b)" "e = block_end (headers s) b"
    using r(1) by (auto simp: live_regions_def)
  obtain c where c: "c \<in> set bs" "mh_free (headers s c)" "a = unat c" "z = block_end (headers s) c"
    using r(2) by (auto simp: free_blocks_def)
  have "e \<le> unat c \<or> z \<le> unat b"
    using tiles_apart [of "headers s" _ bs _ b c] part b c by (auto simp: heap_part_def)
  then show ?thesis using user_ptr_unat(1) [OF part b(1,2)] b(3) c(3) by linarith
qed

lemma live_region_length:
  assumes part: "heap_part bins s bs L {}" and r: "(p, e) \<in> live_regions s bs {}"
  shows "0x8000000 < p \<and> p \<le> e \<and> e \<le> 0x1F000000"
proof -
  obtain b where b: "b \<in> set bs" "\<not> mh_free (headers s b)" "p = unat (user_ptr (headers s b) b)" "e = block_end (headers s) b"
    using r by (auto simp: live_regions_def)
  then show ?thesis using user_ptr_unat(1,2) [OF part b(1,2)] heap_part_block(1,2) [OF part b(1)] by simp
qed

text \<open>Allocation over the abstract state.\<close>

lemma malloc_align_spec:
  assumes rep: "heap_rep bins s R F" and len: "0 \<le> len" "len < 2 ^ 31" and k: "k \<le> 16"
  shows "\<exists>p s'. malloc_align bins len (2 ^ k) s = Some (p, s') \<and>
    (p = NULL \<longleftrightarrow> \<not> (\<exists>f\<in>F. fits (nat len) k f)) \<and> (p = NULL \<longrightarrow> s' = s) \<and>
    (p \<noteq> NULL \<longrightarrow> unat p mod 2 ^ k = 0 \<and> (\<exists>e F'. heap_rep bins s' (insert (unat p, e) R) F' \<and>
       unat p + nat len \<le> e \<and> (\<forall>(p', e') \<in> R. e < p' \<or> e' < unat p)))"
proof -
  obtain bs L where part: "heap_part bins s bs L {}" and R: "R = live_regions s bs {}" and F: "F = free_blocks s bs"
    using rep by (auto simp: heap_rep_def)
  define i where "i = nat (LENGTH_TO_RECYCLE_BIN_INDEX len)"
  have i: "LENGTH_TO_RECYCLE_BIN_INDEX len = int i" "i \<le> 13"
    using bin_index_bound [of "[0x10, 0x20, 0x40, 0x80, 0x100, 0x200, 0x400, 0x800, 0x1000, 0x2000, 0x4000, 0x8000]" len]
    by (simp_all add: i_def LENGTH_TO_RECYCLE_BIN_INDEX_def)
  from malloc_bins_spec [OF part len k i(2)] show ?thesis
  proof
    assume "\<exists>r. malloc_bins bins len (2 ^ k) (int i) s = Some r \<and> allocated bins s bs len k r"
    then obtain p s' where run: "malloc_align bins len (2 ^ k) s = Some (p, s')" and "allocated bins s bs len k (p, s')"
      by (auto simp: malloc_align_def i)
    then obtain bs' L' e a z where *: "p \<noteq> NULL" "unat p mod 2 ^ k = 0" "heap_part bins s' bs' L' {}"
        "live_regions s' bs' {} = insert (unat p, e) (live_regions s bs {})" "unat p + nat len \<le> e"
        "(a, z) \<in> free_blocks s bs" "fits (nat len) k (a, z)" "a + 20 \<le> unat p" "e \<le> z"
      by (auto simp: allocated_def)
    have "heap_rep bins s' (insert (unat p, e) R) (free_blocks s' bs')" using *(3,4) R by (auto simp: heap_rep_def)
    moreover have "\<forall>(p', e') \<in> R. e < p' \<or> e' < unat p"
      using live_free_apart [OF part _ *(6)] *(8,9) R by fastforce
    ultimately have "\<exists>e F'. heap_rep bins s' (insert (unat p, e) R) F' \<and> unat p + nat len \<le> e \<and>
        (\<forall>(p', e') \<in> R. e < p' \<or> e' < unat p)" using *(5) by blast
    moreover have "\<exists>f\<in>F. fits (nat len) k f" using *(6,7) F by blast
    ultimately show ?thesis using run *(1,2) by simp
  next
    assume none: "malloc_bins bins len (2 ^ k) (int i) s = Some (NULL, s) \<and>
      (\<forall>j<13. i \<le> j \<longrightarrow> (\<forall>x \<in> set (L j). \<not> fits (nat len) k (unat x, block_end (headers s) x)))"
    have "\<not> fits (nat len) k f" if inF: "f \<in> F" for f
    proof -
      obtain x where x: "f = (unat x, block_end (headers s) x)" "x \<in> binned L"
        using inF part by (auto simp: F free_blocks_def heap_part_def)
      then obtain j where "j < 13" "x \<in> set (L j)" by (auto simp: binned_def)
      then show ?thesis using fits_bin [OF part _ _ len(1)] none i x(1) by fastforce
    qed
    with none show ?thesis by (auto simp: malloc_align_def i)
  qed
qed

text \<open>Release over the abstract state.\<close>

lemma free_spec:
  assumes rep: "heap_rep bins s R F" and live: "(unat p, e) \<in> R"
  shows "\<exists>s' F'. free bins p s = Some s' \<and> heap_rep bins s' (R - {(unat p, e)}) F'"
proof -
  obtain bs L where part: "heap_part bins s bs L {}" and R: "R = live_regions s bs {}"
    using rep by (auto simp: heap_rep_def)
  obtain b where b: "b \<in> set bs" "\<not> mh_free (headers s b)" "p = user_ptr (headers s b) b" "e = block_end (headers s) b"
    using live R by (auto simp: live_regions_def word_unat_eq_iff)
  have ok: "alloc_ok s b" using user_ptr_unat(3) [OF part b(1,2)] .
  have "heap_part bins s bs L {b}" using part b(2) by (auto simp: heap_part_def)
  then obtain s' bs' L' where 1: "free_block bins b s = Some s'" "heap_part bins s' bs' L' {}"
      "live_regions s' bs' {} = live_regions s bs {b}"
    using free_block_spec [OF _ b(1)] by blast
  have "free bins p s = free_block bins b s"
    using ok b(2) unfolding free_def b(3) Let_def by (simp add: alloc_ok_def) (simp add: user_ptr_def)
  moreover have "live_regions s bs {b} = R - {(unat p, e)}"
  proof -
    have "(unat (user_ptr (headers s c) c), block_end (headers s) c) \<noteq> (unat p, e)"
      if c: "c \<in> set bs" "c \<noteq> b" "\<not> mh_free (headers s c)" for c
      using tiles_apart [of "headers s" _ bs _ b c] part b c heap_part_block(3) [OF part c(1)] heap_part_block(3) [OF part b(1)]
      by (auto simp: heap_part_def)
    then show ?thesis using b by (auto simp: R live_regions_def)
  qed
  ultimately show ?thesis using 1 by (auto simp: heap_rep_def)
qed

subsection \<open>Taking a whole block\<close>

text \<open>The same memory with another value in the word at address 8, the size of the block header that
  starts at the null pointer. No walk of the allocator reads it, until \<^verbatim>\<open>__free\<close> is called with
  the null pointer.\<close>

definition low_word :: "u32 \<Rightarrow> malloc_state \<Rightarrow> malloc_state" where
  "low_word w s = upd_header NULL (\<lambda>h. h\<lparr>mh_size := w\<rparr>) s"

lemma low_word_headers [simp]:
  "a \<noteq> NULL \<Longrightarrow> headers (low_word w s) a = headers s a" "mh_next (headers (low_word w s) a) = mh_next (headers s a)"
  "mh_size (headers (low_word w s) NULL) = w" "pad_headers (low_word w s) = pad_headers s"
  by (simp_all add: low_word_def upd_header_def)

lemma detach_low_word:
  assumes "x \<noteq> NULL" "detach_header x s = Some s1"
  shows "detach_header x (low_word w s) = Some (low_word w s1)"
  using assms by (auto simp: detach_header_def kassert_def upd_header_def low_word_def Let_def fun_upd_twist split: if_splits)

lemma free_null_small: "mh_size (headers s NULL) < 16 \<Longrightarrow> free_block bins NULL s = None"
  using leD by (auto simp: free_block_def coalesce_def kassert_def)

definition settled :: "(addr \<times> malloc_state) option \<Rightarrow> bool" where
  "settled r \<longleftrightarrow> (\<forall>s. r \<noteq> Some (NULL, s))"

lemma malloc_from_refuses:
  assumes part: "heap_part bins s bs L {}" and i: "i < 13" "x \<in> set (L i)"
    and len: "0 \<le> len" "len < 2 ^ 31" and k: "k \<le> 16" and same: "headers u x = headers s x"
    and no: "\<not> fits (nat len) k (unat x, block_end (headers s) x)"
  shows "malloc_from bins x len (2 ^ k) u = Some (NULL, u)"
proof -
  have x: "x \<in> set bs" "mh_free (headers s x)" using part i by (auto simp: heap_part_def binned_def)
  note B = heap_part_block [OF part x(1)]
  have x20: "unat (x + 20) = unat x + 20" using B(2) by (simp add: unat_plus_nowrap)
  have small: "unat (x + 20) + 65536 < 2 ^ 32" using B(2,3) x20 by simp
  have u: "mh_free (headers u x)" "mh_magic (headers u x) = MALLOC_MAGIC" using x(2) B(4) same by simp_all
  note head = malloc_from_head [OF u len k small]
  have "of_int len + 16 + 4 + padding_for (x + 20) k > mh_size (headers u x)"
    using no head(2) padding_for_spec(5) [OF k small] x20 same by (simp add: fits_def word_less_nat_alt)
  then show ?thesis using head(3) by simp
qed

text \<open>The search finds the first block that fits, in the order of the bins, and the allocation is
  made from this block.\<close>

lemma malloc_chain_first:
  assumes part: "heap_part bins s bs L {}" and i: "i < 13" "set xs \<subseteq> set (L i)"
    and len: "0 \<le> len" "len < 2 ^ 31" and k: "k \<le> 16" and ch: "chain (headers s) q xs"
    and same: "\<And>a. a \<noteq> NULL \<Longrightarrow> headers u a = headers s a"
  defines "found \<equiv> find (\<lambda>x. fits (nat len) k (unat x, block_end (headers s) x)) xs"
  shows "found = None \<Longrightarrow> malloc_chain bins len (2 ^ k) (mh_next (headers s q)) u = Some (NULL, u)"
    and "found = Some x \<Longrightarrow> settled (malloc_from bins x len (2 ^ k) u) \<Longrightarrow>
      malloc_chain bins len (2 ^ k) (mh_next (headers s q)) u = malloc_from bins x len (2 ^ k) u"
  unfolding found_def using i(2) ch
proof (induction xs arbitrary: q)
  case Nil
  { case 1 then show ?case by (simp add: malloc_chain.simps) }
  { case 2 then show ?case by simp }
next
  case (Cons y ys)
  have y: "mh_next (headers s q) = y" "y \<noteq> NULL" "y \<in> set (L i)" and IH: "set ys \<subseteq> set (L i)" "chain (headers s) y ys"
    if "set (y # ys) \<subseteq> set (L i)" "chain (headers s) q (y # ys)" for q using that by auto
  have skip: "malloc_chain bins len (2 ^ k) y u = malloc_chain bins len (2 ^ k) (mh_next (headers s y)) u"
    if "\<not> fits (nat len) k (unat y, block_end (headers s) y)" "y \<noteq> NULL" "y \<in> set (L i)"
    using malloc_from_refuses [OF part i(1) that(3) len k same [OF that(2)] that(1)] that(2) same [OF that(2)]
    by (simp add: malloc_chain.simps [of bins len _ y])
  { case 1
    then have "\<not> fits (nat len) k (unat y, block_end (headers s) y)"
      "find (\<lambda>x. fits (nat len) k (unat x, block_end (headers s) x)) ys = None" by (simp_all split: if_splits)
    with 1 Cons.IH(1) [of y] y [OF 1(2,3)] IH [OF 1(2,3)] skip show ?case by simp }
  { case 2
    note y = y [OF 2(3,4)] and IH = IH [OF 2(3,4)]
    show ?case
    proof (cases "fits (nat len) k (unat y, block_end (headers s) y)")
      case True
      with 2(1) have "y = x" by simp
      with 2(2) y show ?thesis
        by (cases "malloc_from bins x len (2 ^ k) u") (auto simp: malloc_chain.simps [of bins len _ x] settled_def)
    next
      case False
      with 2(1) have "find (\<lambda>x. fits (nat len) k (unat x, block_end (headers s) x)) ys = Some x" by simp
      with False Cons.IH(2) [of y] 2(2) y IH skip show ?thesis by simp
    qed }
qed

lemma malloc_bins_first:
  assumes part: "heap_part bins s bs L {}" and len: "0 \<le> len" "len < 2 ^ 31" and k: "k \<le> 16"
    and same: "\<And>a. a \<noteq> NULL \<Longrightarrow> headers u a = headers s a"
    and found: "find (\<lambda>x. fits (nat len) k (unat x, block_end (headers s) x)) (concat (map L [i..<13])) = Some x"
    and set: "settled (malloc_from bins x len (2 ^ k) u)"
  shows "malloc_bins bins len (2 ^ k) (int i) u = malloc_from bins x len (2 ^ k) u"
  using found
proof (induction "13 - i" arbitrary: i)
  case (Suc d)
  then have i: "i < 13" by simp
  have cell: "recycle_bin bins (int i) \<in> bin_cells bins" using i by (auto simp: bin_cells_def)
  then have "recycle_bin bins (int i) \<noteq> NULL" using heap_part_null [OF part] by auto
  then have start: "mh_next (headers u (recycle_bin bins (int i))) = mh_next (headers s (recycle_bin bins (int i)))"
    using same by simp
  have ch: "chain (headers s) (recycle_bin bins (int i)) (L i)" using part bins_okD(1) i by (auto simp: heap_part_def)
  note first = malloc_chain_first [OF part i subset_refl len k ch, of u, OF same]
  have split: "concat (map L [i..<13]) = L i @ concat (map L [Suc i..<13])" using i by (simp add: upt_conv_Cons)
  show ?case
  proof (cases "find (\<lambda>x. fits (nat len) k (unat x, block_end (headers s) x)) (L i)")
    case None
    then have "malloc_bins bins len (2 ^ k) (int i) u = malloc_bins bins len (2 ^ k) (int (Suc i)) u"
      using first(1) start i by (simp add: malloc_bins.simps [of bins len _ "int i"] add.commute)
    with Suc.hyps(1) [of "Suc i"] Suc.hyps(2) Suc.prems None split show ?thesis by (simp add: find_append)
  next
    case (Some y)
    with Suc.prems split have "y = x" by (simp add: find_append)
    with Some first(2) [of x] set have "malloc_chain bins len (2 ^ k) (mh_next (headers u (recycle_bin bins (int i)))) u =
        malloc_from bins x len (2 ^ k) u" using start by simp
    then show ?thesis using set i
      by (auto simp: malloc_bins.simps [of bins len _ "int i"] settled_def split: option.splits)
  qed
qed simp

text \<open>An allocation that leaves at most twenty bytes of its block takes the whole block, splits nothing
  off, and releases the null pointer.\<close>

lemma malloc_from_whole:
  assumes part: "heap_part bins s bs L {}" and i: "i < 13" "x \<in> set (L i)"
    and len: "0 \<le> len" "len < 2 ^ 31" and k: "k \<le> 16"
  defines "pad \<equiv> padding_for (x + 20) k"
  assumes fit: "unat x + 20 + unat pad + nat len \<le> block_end (headers s) x"
    and whole: "block_end (headers s) x \<le> unat x + 20 + unat pad + nat len + 20"
  obtains s2 L2 where "heap_part bins s2 bs L2 {}" "headers s2 NULL = headers s NULL"
    "\<And>w. malloc_from bins x len (2 ^ k) (low_word w s) = do { v \<leftarrow> free_block bins NULL (low_word w s2); Some (x + 20 + pad, v) }"
proof -
  have x: "x \<in> set bs" "mh_free (headers s x)" using part i by (auto simp: heap_part_def binned_def)
  note B = heap_part_block [OF part x(1)]
  define sz where "sz = mh_size (headers s x)"
  define ulen where "ulen = (of_int len :: u32)"
  have x20: "unat (x + 20) = unat x + 20" using B(2) by (simp add: unat_plus_nowrap)
  have small: "unat (x + 20) + 65536 < 2 ^ 32" using B(2,3) x20 by simp
  note pad = padding_for_spec [OF k small, folded pad_def]
  note same = low_word_headers(1) [OF B(6), of _ s]
  have lx: "mh_free (headers (low_word w s) x)" "mh_magic (headers (low_word w s) x) = MALLOC_MAGIC" for w
    using x(2) B(4) by (simp_all add: same)
  note head = malloc_from_head [OF lx len k small, folded pad_def ulen_def, unfolded same, folded sz_def]
  have "\<not> ulen + 16 + 4 + pad > sz" using head(2) fit by (simp add: word_less_nat_alt sz_def)
  moreover have "unat (sz - 16 - 4 - pad - ulen) = unat sz - 20 - unat pad - nat len"
    using fit head(1) by (simp add: unat_minus_nowrap sz_def)
  then have "\<not> sz - 16 - 4 - pad - ulen > 16 + 4" using whole by (simp add: word_less_nat_alt sz_def)
  moreover obtain s1 where det: "detach_header x s = Some s1" and p1: "heap_part bins s1 bs (L(i := remove1 x (L i))) {x}"
      and sm: "same_block (headers s x) (headers s1 x)"
    using detach_part [OF part i] by metis
  define occ where "occ = (\<lambda>s. upd_padding (x + 16 + pad) \<lparr>ph_padding = ucast pad, ph_free = False, ph_magic = MALLOC_MAGIC\<rparr>
      (upd_header x (\<lambda>h. h\<lparr>mh_prev := 0, mh_next := 0, mh_padding := ucast pad, mh_free := False\<rparr>) s))"
  have "20 + unat pad \<le> unat (mh_size (headers s1 x))" using sm fit by (simp add: same_block_def)
  from occupy_part(1) [OF p1 x(1) insertI1 pad(1) this, unfolded Diff_cancel]
  have p2: "heap_part bins (occ s1) bs (L(i := remove1 x (L i))) {}" by (simp add: occ_def)
  have low: "occ (low_word w s1) = low_word w (occ s1)" for w
    using B(6) by (simp add: occ_def low_word_def upd_header_def upd_padding_def fun_upd_twist)
  have "headers (occ s1) NULL = headers s NULL"
    using det B(6) by (auto simp: occ_def detach_header_def kassert_def upd_header_def upd_padding_def Let_def split: if_splits)
  moreover have "malloc_from bins x len (2 ^ k) (low_word w s) = do { v \<leftarrow> free_block bins NULL (low_word w (occ s1)); Some (x + 20 + pad, v) }" for w
  proof -
    have "malloc_from bins x len (2 ^ k) (low_word w s) = do { v \<leftarrow> free_block bins NULL (occ (low_word w s1)); Some (x + 16 + 4 + pad, v) }"
      unfolding head(3) Let_def using calculation(1,2) detach_low_word [OF B(6) det] by (simp add: occ_def)
    moreover have "x + 16 + 4 + pad = x + 20 + pad" by simp
    ultimately show ?thesis by (simp only: low)
  qed
  ultimately show thesis using that p2 by blast
qed

lemma low_word_same: "mh_size (headers s NULL) = w \<Longrightarrow> low_word w s = s"
  by (simp add: low_word_def upd_header_def fun_upd_idem)

lemma first_fit_exists:
  assumes part: "heap_part bins s bs L {}" and len: "0 \<le> len" and f: "f \<in> free_blocks s bs" "fits (nat len) k f"
    and i: "LENGTH_TO_RECYCLE_BIN_INDEX len = int i"
  obtains x j where "find (\<lambda>x. fits (nat len) k (unat x, block_end (headers s) x)) (concat (map L [i..<13])) = Some x"
    "j < 13" "x \<in> set (L j)" "fits (nat len) k (unat x, block_end (headers s) x)"
proof -
  obtain y where y: "f = (unat y, block_end (headers s) y)" "y \<in> binned L"
    using f(1) part by (auto simp: free_blocks_def heap_part_def)
  then obtain j where j: "j < 13" "y \<in> set (L j)" by (auto simp: binned_def)
  with fits_bin [OF part j len, of k] f(2) y(1) i have "i \<le> j" by simp
  then have "y \<in> set (concat (map L [i..<13]))" using j by auto
  with f(2) y(1) have "find (\<lambda>x. fits (nat len) k (unat x, block_end (headers s) x)) (concat (map L [i..<13])) \<noteq> None"
    by (auto simp: find_None_iff)
  then obtain x where x: "find (\<lambda>x. fits (nat len) k (unat x, block_end (headers s) x)) (concat (map L [i..<13])) = Some x" by auto
  then have "x \<in> set (concat (map L [i..<13]))" "fits (nat len) k (unat x, block_end (headers s) x)"
    unfolding find_Some_iff using nth_mem by blast+
  with x that show thesis by auto
qed

lemma free_block_unique:
  assumes part: "heap_part bins s bs L {}" and x: "x \<in> set bs" and f: "(a, z) \<in> free_blocks s bs"
    and p: "a < p" "p \<le> z" "unat x < p" "p \<le> block_end (headers s) x"
  shows "z = block_end (headers s) x"
proof -
  obtain c where c: "c \<in> set bs" "a = unat c" "z = block_end (headers s) c" using f by (auto simp: free_blocks_def)
  show ?thesis
    using tiles_apart [of "headers s" _ bs _ c x] part c x p by (cases "c = x") (auto simp: heap_part_def)
qed

lemma malloc_whole_block_spec:
  assumes rep: "heap_rep bins s R F" and len: "0 \<le> len" "len < 2 ^ 31" and k: "k \<le> 16"
    and run: "malloc_align bins len (2 ^ k) s = Some (p, s')" "p \<noteq> NULL"
    and whole: "(a, z) \<in> F" "a < unat p" "unat p \<le> z" "z \<le> unat p + nat len + 20"
  shows "\<exists>q. q \<noteq> NULL \<and> headers s' NULL = (headers s NULL)\<lparr>mh_prev := q, mh_next := NULL, mh_padding := 0, mh_free := True\<rparr>"
    and "w < 16 \<Longrightarrow> malloc_align bins len (2 ^ k) (low_word w s) = None"
proof -
  obtain bs L where part: "heap_part bins s bs L {}" and F: "F = free_blocks s bs" using rep by (auto simp: heap_rep_def)
  define i where "i = nat (LENGTH_TO_RECYCLE_BIN_INDEX len)"
  have i: "LENGTH_TO_RECYCLE_BIN_INDEX len = int i"
    using bin_index_bound [of "[0x10, 0x20, 0x40, 0x80, 0x100, 0x200, 0x400, 0x800, 0x1000, 0x2000, 0x4000, 0x8000]" len]
    by (simp add: i_def LENGTH_TO_RECYCLE_BIN_INDEX_def)
  obtain f where f: "f \<in> free_blocks s bs" "fits (nat len) k f"
    using malloc_align_spec [OF rep len k] run F by auto
  obtain x j where x: "find (\<lambda>x. fits (nat len) k (unat x, block_end (headers s) x)) (concat (map L [i..<13])) = Some x"
      "j < 13" "x \<in> set (L j)" "fits (nat len) k (unat x, block_end (headers s) x)"
    by (rule first_fit_exists [OF part len(1) f i])
  have xb: "x \<in> set bs" using part x(2,3) by (auto simp: heap_part_def binned_def)
  note B = heap_part_block [OF part xb]
  define pad where "pad = padding_for (x + 20) k"
  have x20: "unat (x + 20) = unat x + 20" using B(2) by (simp add: unat_plus_nowrap)
  have small: "unat (x + 20) + 65536 < 2 ^ 32" using B(2,3) x20 by simp
  note pad = padding_for_spec [OF k small, folded pad_def, unfolded x20]
  have fit: "unat x + 20 + unat pad + nat len \<le> block_end (headers s) x" using x(4) pad(5) by (simp add: fits_def)
  obtain s1 where mf: "malloc_from bins x len (2 ^ k) s = Some (x + 20 + pad, s1)"
    using malloc_from_spec [OF part x(2,3) len k, folded pad_def] fit by auto
  have ne: "x + 20 + pad \<noteq> NULL" using pad(2) by (metis add_is_0 unat_0 zero_neq_numeral)
  have first: "malloc_align bins len (2 ^ k) u = malloc_from bins x len (2 ^ k) u"
    if "\<And>a. a \<noteq> NULL \<Longrightarrow> headers u a = headers s a" "settled (malloc_from bins x len (2 ^ k) u)" for u
    unfolding malloc_align_def i by (rule malloc_bins_first [OF part len k that(1) x(1) that(2)])
  have p: "p = x + 20 + pad" "s' = s1" using first [of s] mf ne run by (auto simp: settled_def)
  then have up: "unat p = unat x + 20 + unat pad" using pad(2) by simp
  have "z = block_end (headers s) x"
    by (rule free_block_unique [OF part xb whole(1) [unfolded F] whole(2,3)]) (use up fit in simp_all)
  with whole(4) up have wh: "block_end (headers s) x \<le> unat x + 20 + unat pad + nat len + 20" by simp
  obtain s2 L2 where 2: "heap_part bins s2 bs L2 {}" "headers s2 NULL = headers s NULL"
      "\<And>w. malloc_from bins x len (2 ^ k) (low_word w s) = do { v \<leftarrow> free_block bins NULL (low_word w s2); Some (x + 20 + pad, v) }"
    using malloc_from_whole [OF part x(2,3) len k, folded pad_def, OF fit wh] by blast
  from 2(3) [of "mh_size (headers s NULL)"] have "malloc_from bins x len (2 ^ k) s = do { v \<leftarrow> free_block bins NULL s2; Some (x + 20 + pad, v) }"
    using 2(2) by (simp add: low_word_same)
  moreover obtain v q where "free_block bins NULL s2 = Some v" "q \<noteq> NULL"
      "headers v NULL = (headers s2 NULL)\<lparr>mh_prev := q, mh_next := NULL, mh_padding := 0, mh_free := True\<rparr>"
    using free_null_spec [OF 2(1)] by blast
  ultimately show "\<exists>q. q \<noteq> NULL \<and> headers s' NULL = (headers s NULL)\<lparr>mh_prev := q, mh_next := NULL, mh_padding := 0, mh_free := True\<rparr>"
    using mf p(2) 2(2) by auto
  have "malloc_from bins x len (2 ^ k) (low_word w s) = None" if "w < 16"
    using 2(3) [of w] free_null_small [of "low_word w s2"] that by simp
  then show "w < 16 \<Longrightarrow> malloc_align bins len (2 ^ k) (low_word w s) = None"
    using first [of "low_word w s"] by (simp add: settled_def)
qed

subsection \<open>Initialisation\<close>

lemma malloc_init_headers:
  assumes place: "bins_place bins"
  shows "0x8000000 \<notin> bin_cells bins" "NULL \<notin> bin_cells bins" "recycle_bin bins 12 \<in> bin_cells bins"
    "headers (malloc_init bins s) a = (if a = recycle_bin bins 12 then zero_header\<lparr>mh_next := 0x8000000\<rparr>
      else if a = 0x8000000 then zero_header\<lparr>mh_size := 0x17000000, mh_free := True, mh_magic := MALLOC_MAGIC, mh_prev := recycle_bin bins 12\<rparr>
      else if a \<in> bin_cells bins then zero_header else headers s a)"
proof -
  show out: "0x8000000 \<notin> bin_cells bins" "NULL \<notin> bin_cells bins"
    using bin_cellsD(1) [OF place, of NULL] bin_cellsD(2) [OF place, of "0x8000000"] by auto
  have cells: "recycle_bin bins ` {0..<13} = bin_cells bins"
    unfolding bin_cells_def by (auto simp: image_iff) (metis atLeastLessThan_iff lessThan_iff nat_less_iff zle_int nonneg_int_cases of_nat_less_iff of_nat_numeral)
  show twelve: "recycle_bin bins 12 \<in> bin_cells bins" by (auto simp: bin_cells_def intro!: image_eqI [of _ _ 12])
  show "headers (malloc_init bins s) a = (if a = recycle_bin bins 12 then zero_header\<lparr>mh_next := 0x8000000\<rparr>
      else if a = 0x8000000 then zero_header\<lparr>mh_size := 0x17000000, mh_free := True, mh_magic := MALLOC_MAGIC, mh_prev := recycle_bin bins 12\<rparr>
      else if a \<in> bin_cells bins then zero_header else headers s a)"
    using out twelve by (auto simp: malloc_init_def Let_def upd_header_def cells)
qed

lemma malloc_init_rep:
  assumes place: "bins_place bins" and vector: "0x1F000000 \<le> unat (mh_size (headers s NULL))"
  shows "heap_rep bins (malloc_init bins s) {} {(0x8000000, 0x1F000000)}"
proof -
  let ?B = "0x8000000 :: addr" and ?L = "\<lambda>i :: nat. if i = 12 then [0x8000000 :: addr] else []"
  note out = malloc_init_headers(1,2) [OF place] and twelve = malloc_init_headers(3) [OF place]
  define H where "H = headers (malloc_init bins s)"
  note H = malloc_init_headers(4) [OF place, of s, folded H_def]
  have size: "mh_size (H ?B) = 0x17000000" "mh_free (H ?B)" "mh_magic (H ?B) = MALLOC_MAGIC"
    using out twelve by (auto simp: H)
  have cell: "recycle_bin bins (int i) = recycle_bin bins 12 \<longleftrightarrow> i = 12" if "i < 13" for i
    using recycle_bin_inj [OF place that, of 12] by auto
  have "bins_ok H bins ?L"
    unfolding bins_ok_def using out twelve cell by (auto simp: H zero_header_def bin_cells_def)
  moreover have "0x1F000000 \<le> unat (mh_size (H NULL))" using vector out twelve by (auto simp: H)
  moreover have "size_bin 0x17000000 = 12" by (simp add: size_bin_def LENGTH_TO_RECYCLE_BIN_INDEX_def sint_small)
  ultimately have "heap_part bins (malloc_init bins s) [?B] ?L {}"
    using place size by (auto simp: heap_part_def binned_def H_def)
  moreover have "live_regions (malloc_init bins s) [?B] {} = {}" "free_blocks (malloc_init bins s) [?B] = {(0x8000000, 0x1F000000)}"
    using size by (auto simp: live_regions_def free_blocks_def H_def)
  ultimately show ?thesis unfolding heap_rep_def by metis
qed

subsection \<open>The interface of an allocator\<close>

text \<open>What the rest of the kernel relies on: an allocation returns, changes nothing when it
  fails, and otherwise adds one region apart from the live ones; a release of a live region
  returns and removes it.\<close>

locale allocator =
  fixes rep :: "'s \<Rightarrow> (nat \<times> nat) set \<Rightarrow> bool"
    and alloc :: "int \<Rightarrow> 's \<Rightarrow> (addr \<times> 's) option"
    and release :: "addr \<Rightarrow> 's \<Rightarrow> 's option"
  assumes alloc_law: "rep s R \<Longrightarrow> 0 \<le> len \<Longrightarrow> len < 2 ^ 31 \<Longrightarrow> \<exists>p s'. alloc len s = Some (p, s') \<and>
      (p = NULL \<longrightarrow> s' = s) \<and>
      (p \<noteq> NULL \<longrightarrow> (\<exists>e. rep s' (insert (unat p, e) R) \<and> unat p + nat len \<le> e \<and> (\<forall>(p', e') \<in> R. e < p' \<or> e' < unat p)))"
    and release_law: "rep s R \<Longrightarrow> (unat p, e) \<in> R \<Longrightarrow> \<exists>s'. release p s = Some s' \<and> rep s' (R - {(unat p, e)})"
    and rep_apart: "rep s R \<Longrightarrow> (a, z) \<in> R \<Longrightarrow> (a', z') \<in> R \<Longrightarrow> a \<noteq> a' \<Longrightarrow> z < a' \<or> z' < a"
    and rep_region: "rep s R \<Longrightarrow> (a, z) \<in> R \<Longrightarrow> 0 < a \<and> a \<le> z"
begin

lemma alloc_cases:
  assumes "rep s R" "0 \<le> len" "len < 2 ^ 31"
  obtains "alloc len s = Some (NULL, s)"
  | p e s' where "alloc len s = Some (p, s')" "p \<noteq> NULL" "rep s' (insert (unat p, e) R)" "unat p + nat len \<le> e"
      "\<forall>(p', e') \<in> R. e < p' \<or> e' < unat p"
  using alloc_law [OF assms] by blast

lemma alloc_fresh:
  assumes "rep s R" "0 \<le> len" "len < 2 ^ 31" "alloc len s = Some (p, s')" "p \<noteq> NULL"
  shows "unat p \<notin> fst ` R"
proof -
  obtain e where e: "unat p + nat len \<le> e" "\<forall>(p', e') \<in> R. e < p' \<or> e' < unat p"
    using alloc_law [OF assms(1-3)] assms(4,5) by auto
  show ?thesis
  proof
    assume "unat p \<in> fst ` R"
    then obtain e' where r: "(unat p, e') \<in> R" by auto
    then show False using e rep_region [OF assms(1) r] by fastforce
  qed
qed

lemma alloc_release:
  assumes "rep s R" "0 \<le> len" "len < 2 ^ 31" "alloc len s = Some (p, s')" "p \<noteq> NULL"
  shows "\<exists>s''. release p s' = Some s'' \<and> rep s'' R"
proof -
  obtain e where e: "rep s' (insert (unat p, e) R)" using alloc_law [OF assms(1-3)] assms(4,5) by auto
  have "(unat p, e) \<notin> R" using alloc_fresh [OF assms] by force
  then have "insert (unat p, e) R - {(unat p, e)} = R" by simp
  with release_law [OF e, of p e] show ?thesis by simp
qed

end

interpretation heap: allocator "\<lambda>s R. \<exists>F. heap_rep bins s R F" "malloc bins" "free bins"
proof unfold_locales
  show "\<exists>p s'. malloc bins len s = Some (p, s') \<and> (p = NULL \<longrightarrow> s' = s) \<and>
      (p \<noteq> NULL \<longrightarrow> (\<exists>e. (\<exists>F. heap_rep bins s' (insert (unat p, e) R) F) \<and> unat p + nat len \<le> e \<and>
        (\<forall>(p', e') \<in> R. e < p' \<or> e' < unat p)))"
    if "\<exists>F. heap_rep bins s R F" "0 \<le> len" "len < 2 ^ 31" for s R len
    using malloc_align_spec [of bins s R _ len 0] that unfolding malloc_def power_0 by (metis zero_le)
  show "\<exists>s'. free bins p s = Some s' \<and> (\<exists>F. heap_rep bins s' (R - {(unat p, e)}) F)"
    if "\<exists>F. heap_rep bins s R F" "(unat p, e) \<in> R" for s R p e
    using free_spec that by blast
  show "e < p' \<or> e' < p" if "\<exists>F. heap_rep bins s R F" "(p, e) \<in> R" "(p', e') \<in> R" "p \<noteq> p'" for s R p e p' e'
    using that live_regions_apart unfolding heap_rep_def by blast
  show "0 < p \<and> p \<le> e" if "\<exists>F. heap_rep bins s R F" "(p, e) \<in> R" for s R p e
    using that live_region_length unfolding heap_rep_def by fastforce
qed

subsection \<open>Runs of the allocator\<close>

text \<open>The states that the initialisation of a memory \<open>m\<close> and sequences of allocations and releases
  reach, with the pointers the callers hold. A step needs the operation to return; that it does is
  part of what is shown.\<close>

inductive heap_run :: "addr \<Rightarrow> malloc_state \<Rightarrow> malloc_state \<Rightarrow> addr set \<Rightarrow> bool" for bins m where
  run_init: "heap_run bins m (malloc_init bins m) {}"
| run_malloc: "heap_run bins m s P \<Longrightarrow> 0 \<le> len \<Longrightarrow> len < 2 ^ 31 \<Longrightarrow> k \<le> 16 \<Longrightarrow>
    malloc_align bins len (2 ^ k) s = Some (p, s') \<Longrightarrow> heap_run bins m s' (if p = NULL then P else insert p P)"
| run_free: "heap_run bins m s P \<Longrightarrow> p \<in> P \<Longrightarrow> free bins p s = Some s' \<Longrightarrow> heap_run bins m s' (P - {p})"

definition holds :: "addr set \<Rightarrow> (nat \<times> nat) set \<Rightarrow> bool" where
  "holds P R \<longleftrightarrow> unat ` P = fst ` R \<and> inj_on fst R"

lemma holds_insert: "holds P R \<Longrightarrow> unat p \<notin> fst ` R \<Longrightarrow> holds (insert p P) (insert (unat p, e) R)"
  by (auto simp: holds_def)

lemma holds_remove:
  assumes "holds P R" "(unat p, e) \<in> R"
  shows "holds (P - {p}) (R - {(unat p, e)})"
proof -
  have inj: "inj_on fst R" and eq: "unat ` P = fst ` R" using assms(1) by (simp_all add: holds_def)
  have "unat ` (P - {p}) = unat ` P - {unat p}" by (auto simp: word_unat_eq_iff)
  also have "\<dots> = fst ` (R - {(unat p, e)})" unfolding eq using inj_onD [OF inj _ _ assms(2)] by force
  finally show ?thesis using inj by (auto simp: holds_def inj_on_def)
qed

lemma heap_run_rep:
  assumes "heap_run bins m s P" "bins_place bins" "0x1F000000 \<le> unat (mh_size (headers m NULL))"
  shows "\<exists>R F. heap_rep bins s R F \<and> holds P R"
  using assms(1)
proof (induction rule: heap_run.induct)
  case run_init
  then show ?case using malloc_init_rep [OF assms(2,3)] by (fastforce simp: holds_def)
next
  case (run_malloc s P len k p s')
  then obtain R F where R: "heap_rep bins s R F" "holds P R" by blast
  show ?case
  proof (cases "p = NULL")
    case True
    with malloc_align_spec [OF R(1) run_malloc.hyps(2-4)] run_malloc.hyps(5) R show ?thesis by auto
  next
    case False
    then obtain e F' where 1: "heap_rep bins s' (insert (unat p, e) R) F'" "unat p \<le> e" "\<forall>(p', e') \<in> R. e < p' \<or> e' < unat p"
      using malloc_align_spec [OF R(1) run_malloc.hyps(2-4)] run_malloc.hyps(5) by fastforce
    have "unat p \<notin> fst ` R"
    proof
      assume "unat p \<in> fst ` R"
      then obtain e' where r: "(unat p, e') \<in> R" by auto
      moreover have "unat p \<le> e'" using R(1) live_region_length r unfolding heap_rep_def by blast
      ultimately show False using 1(2,3) by fastforce
    qed
    with holds_insert [OF R(2)] 1(1) False show ?thesis by auto
  qed
next
  case (run_free s P p s')
  then obtain R F where R: "heap_rep bins s R F" "holds P R" by blast
  then have "unat p \<in> fst ` R" using run_free.hyps by (auto simp: holds_def)
  then obtain e where e: "(unat p, e) \<in> R" by auto
  with free_spec [OF R(1) e] holds_remove [OF R(2) e] run_free.hyps show ?case by auto
qed

text \<open>A memory in which the vectors of the firmware are in place.\<close>

definition firmware_memory :: malloc_state where
  "firmware_memory = \<lparr>headers = (\<lambda>_. zero_header\<lparr>mh_size := 0xF000E2C3\<rparr>),
     pad_headers = (\<lambda>_. \<lparr>ph_padding = 0, ph_free = False, ph_magic = 0\<rparr>)\<rparr>"

lemma firmware_heap: "heap_rep 0x100000 (malloc_init 0x100000 firmware_memory) {} {(0x8000000, 0x1F000000)}"
  by (rule malloc_init_rep) (simp_all add: bins_place_def firmware_memory_def)

subsection \<open>Properties\<close>

text \<open>C19. An aligned allocation from the kernel heap always returns. It fails exactly when no free
  block can hold the request with its headers and its padding, and then changes nothing. Otherwise
  the pointer is aligned as requested, the region behind it is at least as long as requested, the
  region overlaps no live region, and it is the only change of the set of live regions.\<close>

theorem malloc_align_correct:
  assumes "heap_rep bins s R F" "0 \<le> len" "len < 2 ^ 31" "k \<le> 16"
  shows "\<exists>p s'. malloc_align bins len (2 ^ k) s = Some (p, s') \<and>
    (p = NULL \<longleftrightarrow> \<not> (\<exists>f\<in>F. fits (nat len) k f)) \<and> (p = NULL \<longrightarrow> s' = s) \<and>
    (p \<noteq> NULL \<longrightarrow> unat p mod 2 ^ k = 0 \<and> (\<exists>e F'. heap_rep bins s' (insert (unat p, e) R) F' \<and>
       unat p + nat len \<le> e \<and> (\<forall>(p', e') \<in> R. e < p' \<or> e' < unat p)))"
  using assms by (rule malloc_align_spec)

theorem malloc_align_correct_witness:
  "\<exists>p s'. malloc_align 0x100000 100 (2 ^ 12) (malloc_init 0x100000 firmware_memory) = Some (p, s') \<and>
     p \<noteq> NULL \<and> unat p mod 2 ^ 12 = 0"
proof -
  have "fits (nat 100) 12 (0x8000000, 0x1F000000)" by (simp add: fits_def)
  then show ?thesis using malloc_align_correct [OF firmware_heap, of 100 12] by fastforce
qed

text \<open>C20. Releasing the pointer of a live region always returns, and removes exactly that region
  from the set of live regions.\<close>

theorem free_correct:
  assumes "heap_rep bins s R F" "(unat p, e) \<in> R"
  shows "\<exists>s' F'. free bins p s = Some s' \<and> heap_rep bins s' (R - {(unat p, e)}) F'"
  using assms by (rule free_spec)

theorem free_correct_witness:
  "\<exists>p s s'. malloc 0x100000 100 (malloc_init 0x100000 firmware_memory) = Some (p, s) \<and> free 0x100000 p s = Some s' \<and>
     (\<exists>F. heap_rep 0x100000 s' {} F)"
proof -
  have "fits (nat 100) 0 (0x8000000, 0x1F000000)" by (simp add: fits_def)
  then obtain p s e F where 1: "malloc 0x100000 100 (malloc_init 0x100000 firmware_memory) = Some (p, s)"
      "heap_rep 0x100000 s (insert (unat p, e) {}) F"
    using malloc_align_spec [OF firmware_heap, of 100 0] by (auto simp: malloc_def)
  show ?thesis using free_correct [OF 1(2), of p e] 1(1) by auto
qed

text \<open>C18. Let the bins lie where the linker puts them, and let the word at address 8 of the memory be at
  least 0x1F000000, the end of the heap, as it is when that address holds a vector of the firmware.
  In every state that the initialisation, allocations and releases of held pointers reach, the
  pointers held are those of the live regions, no two live regions overlap, every further allocation
  returns, and so does every release of a held pointer: the assertions of the allocator never fail
  and its walks along the bins end. Without the hypothesis on the word at address 8 this is false, as
  the panic of an allocation that takes a whole block shows.\<close>

theorem heap_run_safe:
  assumes place: "bins_place bins" and low: "0x1F000000 \<le> unat (mh_size (headers m NULL))" and run: "heap_run bins m s P"
  shows "(\<exists>R F. heap_rep bins s R F \<and> unat ` P = fst ` R \<and>
      (\<forall>r\<in>R. \<forall>r'\<in>R. r \<noteq> r' \<longrightarrow> snd r < fst r' \<or> snd r' < fst r)) \<and>
    (\<forall>len k. 0 \<le> len \<and> len < 2 ^ 31 \<and> k \<le> 16 \<longrightarrow> malloc_align bins len (2 ^ k) s \<noteq> None) \<and>
    (\<forall>p\<in>P. free bins p s \<noteq> None)"
proof -
  obtain R F where R: "heap_rep bins s R F" "holds P R" using heap_run_rep [OF run place low] by blast
  have "snd r < fst r' \<or> snd r' < fst r" if "r \<in> R" "r' \<in> R" "r \<noteq> r'" for r r'
  proof -
    have "fst r \<noteq> fst r'" using R(2) that by (auto simp: holds_def inj_on_def)
    then show ?thesis using heap.rep_apart [of bins s R "fst r" "snd r" "fst r'" "snd r'"] R(1) that by auto
  qed
  moreover have "malloc_align bins len (2 ^ k) s \<noteq> None" if "0 \<le> len \<and> len < 2 ^ 31 \<and> k \<le> 16" for len k
    using malloc_align_spec [OF R(1), of len k] that by auto
  moreover have "free bins p s \<noteq> None" if "p \<in> P" for p
  proof -
    have "unat p \<in> fst ` R" using R(2) that by (auto simp: holds_def)
    then obtain e where "(unat p, e) \<in> R" by auto
    from free_spec [OF R(1) this] show ?thesis by auto
  qed
  ultimately show ?thesis using R unfolding holds_def by blast
qed

declare malloc_chain.simps [code] bin_position.simps [code] bin_last.simps [code]

text \<open>A state with two live regions: the second allocation follows the first.\<close>

definition two_regions :: "(addr \<times> addr \<times> malloc_state) option" where
  "two_regions = do {
     (p, s) \<leftarrow> malloc_align 0x100000 100 (2 ^ 3) (malloc_init 0x100000 firmware_memory);
     (q, s) \<leftarrow> malloc_align 0x100000 5000 (2 ^ 12) s;
     Some (p, q, s) }"

lemma two_regions_eval: "map_option (\<lambda>(p, q, _). (p, q)) two_regions = Some (0x8000018, 0x8001000)"
  by code_simp

theorem heap_run_safe_witness:
  "\<exists>s. heap_run 0x100000 firmware_memory s {0x8000018, 0x8001000} \<and> malloc_align 0x100000 100 (2 ^ 3) s \<noteq> None \<and>
     free 0x100000 0x8000018 s \<noteq> None \<and> free 0x100000 0x8001000 s \<noteq> None"
proof -
  let ?i = "malloc_init 0x100000 firmware_memory"
  obtain s1 s where s: "malloc_align 0x100000 100 (2 ^ 3) ?i = Some (0x8000018, s1)"
      "malloc_align 0x100000 5000 (2 ^ 12) s1 = Some (0x8001000, s)"
    using two_regions_eval by (auto simp: two_regions_def bind_eq_Some_conv)
  have "heap_run 0x100000 firmware_memory s1 {0x8000018}"
    using run_malloc [OF run_init _ _ _ s(1)] by simp
  from run_malloc [OF this _ _ _ s(2)] have run: "heap_run 0x100000 firmware_memory s {0x8000018, 0x8001000}"
    by (simp add: insert_commute)
  have "malloc_align 0x100000 100 (2 ^ 3) s \<noteq> None" "\<forall>p\<in>{0x8000018, 0x8001000}. free 0x100000 p s \<noteq> None"
    using heap_run_safe [OF _ _ run, THEN conjunct2, THEN conjunct1, rule_format, of 100 3]
      heap_run_safe [OF _ _ run, THEN conjunct2, THEN conjunct2] by (simp_all add: bins_place_def firmware_memory_def)
  with run show ?thesis by blast
qed

text \<open>C21. An allocation that takes a whole block releases the null pointer. Take any state of the heap
  and any allocation that succeeds there and leaves at most twenty bytes of the free block that it
  is made from. It overwrites the sixteen bytes from address 0 as if they were the header of a block: they
  are marked free and their links changed. And if instead the word at address 8, which counts as
  the size of that block, is less than sixteen, the same allocation fails an assertion of
  \<^verbatim>\<open>__free\<close>, although the block fits.\<close>

theorem malloc_whole_block_frees_null:
  assumes "heap_rep bins s R F" "0 \<le> len" "len < 2 ^ 31" "k \<le> 16"
    and "malloc_align bins len (2 ^ k) s = Some (p, s')" "p \<noteq> NULL"
    and "(a, z) \<in> F" "a < unat p" "unat p \<le> z" "z \<le> unat p + nat len + 20"
  shows "(\<exists>q. q \<noteq> NULL \<and> headers s' NULL = (headers s NULL)\<lparr>mh_prev := q, mh_next := NULL, mh_padding := 0, mh_free := True\<rparr>) \<and>
    (\<forall>w<16. malloc_align bins len (2 ^ k) (s\<lparr>headers := (headers s)(NULL := (headers s NULL)\<lparr>mh_size := w\<rparr>)\<rparr>) = None)"
  using malloc_whole_block_spec [OF assms] unfolding low_word_def upd_header_def by blast

theorem malloc_whole_block_frees_null_witness:
  defines "s \<equiv> malloc_init 0x100000 firmware_memory"
  shows "malloc_align 0x100000 0x16FFFFEC (2 ^ 0) s \<noteq> None \<and>
    malloc_align 0x100000 0x16FFFFEC (2 ^ 0) (s\<lparr>headers := (headers s)(NULL := (headers s NULL)\<lparr>mh_size := 0\<rparr>)\<rparr>) = None"
proof -
  have "fits (nat 0x16FFFFEC) 0 (0x8000000, 0x1F000000)" by (simp add: fits_def)
  then obtain p s' e F where 1: "malloc_align 0x100000 0x16FFFFEC (2 ^ 0) s = Some (p, s')" "p \<noteq> NULL"
      "heap_rep 0x100000 s' {(unat p, e)} F"
    using malloc_align_spec [OF firmware_heap, of "0x16FFFFEC" 0] unfolding s_def by auto
  have "0x8000000 < unat p \<and> unat p \<le> 0x1F000000"
    using 1(3) live_region_length [of "0x100000" s' _ _ "unat p" e] unfolding heap_rep_def by fastforce
  then show ?thesis
    using malloc_whole_block_frees_null [OF firmware_heap [folded s_def] _ _ _ 1(1,2), of "0x8000000" "0x1F000000"] 1(1) by simp
qed

end
