(* ===== verification/Kernel_State.thy ===== *)
theory Kernel_State
  imports Kernel_Vma Hash_Table Malloc_Correct Vfs_Path Generic_Tree
begin

section \<open>Tasks and the state of the kernel (\<^verbatim>\<open>kernel/include/task.h\<close>)\<close>

text \<open>
  The structures that the task, signal, paging and scheduling code shares, and the record of
  the kernel state its functions pass on. The members of a \<^verbatim>\<open>struct task\<close> that are list
  cells live in the memory of list cells at the address of the task plus their offset; the
  other members are the fields of the record \<open>task\<close>. Global variables of the kernel are fields
  of \<open>kernel\<close>, and so are the addresses of its global list heads and of the function
  \<^verbatim>\<open>return_from_pl3_signal_context\<close>, which the linker chooses. \<open>user_words\<close> is the memory
  of the current task at its virtual addresses, and \<open>cr2\<close> the register with the address of the
  last page fault.
\<close>

abbreviation (input) DPL_0 :: u32 where "DPL_0 \<equiv> 0"
abbreviation (input) DPL_3 :: u32 where "DPL_3 \<equiv> 3"
abbreviation (input) VM_AREA_NAME_SIZE :: int where "VM_AREA_NAME_SIZE \<equiv> 64"
abbreviation (input) MAX_FILE_DESCRIPTR_PER_TASK :: nat where "MAX_FILE_DESCRIPTR_PER_TASK \<equiv> 256"
abbreviation (input) KERNEL_TASK_HASH_TABLE_SIZE :: nat where "KERNEL_TASK_HASH_TABLE_SIZE \<equiv> 1024"

datatype task_state =
    TASK_STATE_ZOMBIE
  | TASK_STATE_RUNNING
  | TASK_STATE_INTERRUPTIBLE
  | TASK_STATE_UNINTERRUPTIBLE
  | TASK_STATE_EXITING

record x86_cpustate =
  edi :: u32
  esi :: u32
  ebp :: u32
  ebx :: u32
  edx :: u32
  ecx :: u32
  eax :: u32
  gs :: u32
  fs :: u32
  es :: u32
  ds :: u32
  vector :: u32
  errorcode :: u32
  eip :: u32
  cs :: u32
  eflags :: u32
  esp :: u32
  ss :: u32

record vm_area =
  va_name :: "u8 list"
  va_kernel_vma :: bool
  va_pre_map :: bool
  va_exact :: bool
  va_write_permission :: u32
  va_page_writethrough :: u32
  va_page_cachedisable :: u32
  va_executable :: bool
  va_virt_addr :: u64
  va_phy_addr :: u64
  va_length :: u64

record signal_entry =
  valid :: bool
  signaled :: bool
  overridable :: bool
  action :: int
  user_entry :: u32

record file_entry =
  fe_file :: addr
  fe_offset :: u32
  fe_valid :: bool
  fe_writable :: bool

record vfile =
  f_name :: "u8 list"
  f_type :: u8
  f_mode :: u32
  refer_count :: u32
  f_ops :: addr
  f_priv :: addr

text \<open>A mounted file system, a block of a file in memory and a file of the drive image. The list
  cells of a block and of a drive file live in the memory of list cells.\<close>

record file_system =
  fs_ops :: addr
  filesystem_type :: u32
  fs_priv :: addr

record mem_block_hdr =
  nr_used :: u32
  blk_content :: "u8 list"

record zelda_file =
  zf_path :: "u8 list"
  zf_length :: u32
  zf_content :: "u8 list"

datatype timer_state = timer_state_idle | timer_state_scheduled

record timer_entry =
  timer_state_of :: timer_state
  time_to_expire :: u64
  timer_callback :: u32
  timer_priv :: addr

record task =
  task_id :: u32
  state :: task_state
  non_stop_state :: task_state
  interrupt_depth :: u32
  cpu :: addr
  signaled_cpu :: addr
  page_directory :: addr
  privilege_level0_stack :: addr
  signaled_privilege_level0_stack :: addr
  privilege_level0_stack_top :: u32
  signaled_privilege_level0_stack_top :: u32
  signal_scheduled :: bool
  signal_pending :: bool
  entry :: u32
  schedule_counter :: u32
  privilege_level :: u32
  exit_code :: u32
  sig_entries :: "signal_entry list"
  file_entries :: "file_entry list"
  name :: "u8 list"
  cwd :: "u8 list"
  priv :: addr

text \<open>The list cells embedded in a task and in an entry of a wait queue. The cell of a
  \<^verbatim>\<open>struct vm_area\<close> is its first member.\<close>

definition task_node :: "addr \<Rightarrow> addr" where "task_node t = t + 4"
definition task_list :: "addr \<Rightarrow> addr" where "task_list t = t + 12"
definition wq_termination :: "addr \<Rightarrow> addr" where "wq_termination t = t + 20"
definition vma_list :: "addr \<Rightarrow> addr" where "vma_list t = t + 48"
definition wait_list :: "addr \<Rightarrow> addr" where "wait_list w = w + 4"

record kernel =
  k_layout :: layout
  pg :: paging
  kvmas :: "kernel_vma list"
  lists :: lheap
  vmas :: "addr \<Rightarrow> vm_area"
  tasks :: "addr \<Rightarrow> task"
  waits :: "addr \<Rightarrow> addr"
  cpus :: "addr \<Rightarrow> x86_cpustate"
  kheap :: malloc_state
  recycle_bins :: addr
  files :: "addr \<Rightarrow> vfile"
  trees :: theap
  user_words :: "addr \<Rightarrow> u32"
  ss0 :: u32
  esp0 :: u32
  return_stub :: u32
  cr2 :: u32
  current :: addr
  kernel_idle_task :: addr
  schedulable :: bool
  task_list_head :: addr
  task_exit_list_head :: addr
  task_zombie_list_head :: addr
  task_blocking_list_head :: addr
  kernel_task_hash_stub :: hash_stub
  task_seed :: u32
  timers :: "addr \<Rightarrow> timer_entry"
  timer_heap :: addr
  jiffies :: u64
  mount_entries :: "mount_entry list"
  file_systems :: "addr \<Rightarrow> file_system"
  mem_blocks :: "addr \<Rightarrow> mem_block_hdr"
  zelda_files :: "addr \<Rightarrow> zelda_file"

definition upd_task :: "addr \<Rightarrow> (task \<Rightarrow> task) \<Rightarrow> kernel \<Rightarrow> kernel" where
  "upd_task t f k = k\<lparr>tasks := (tasks k)(t := f (tasks k t))\<rparr>"

definition upd_pg :: "(paging \<Rightarrow> paging) \<Rightarrow> kernel \<Rightarrow> kernel" where
  "upd_pg f k = k\<lparr>pg := f (pg k)\<rparr>"

lemma upd_task_fields [simp]:
  "k_layout (upd_task t f k) = k_layout k" "pg (upd_task t f k) = pg k" "kvmas (upd_task t f k) = kvmas k"
  "lists (upd_task t f k) = lists k" "vmas (upd_task t f k) = vmas k" "waits (upd_task t f k) = waits k"
  "cpus (upd_task t f k) = cpus k" "user_words (upd_task t f k) = user_words k" "esp0 (upd_task t f k) = esp0 k"
  "ss0 (upd_task t f k) = ss0 k" "return_stub (upd_task t f k) = return_stub k" "kheap (upd_task t f k) = kheap k"
  "recycle_bins (upd_task t f k) = recycle_bins k" "files (upd_task t f k) = files k" "trees (upd_task t f k) = trees k" "cr2 (upd_task t f k) = cr2 k"
  "current (upd_task t f k) = current k" "kernel_idle_task (upd_task t f k) = kernel_idle_task k"
  "schedulable (upd_task t f k) = schedulable k" "task_list_head (upd_task t f k) = task_list_head k"
  "task_exit_list_head (upd_task t f k) = task_exit_list_head k"
  "task_zombie_list_head (upd_task t f k) = task_zombie_list_head k"
  "task_blocking_list_head (upd_task t f k) = task_blocking_list_head k"
  "kernel_task_hash_stub (upd_task t f k) = kernel_task_hash_stub k" "task_seed (upd_task t f k) = task_seed k"
  "timers (upd_task t f k) = timers k" "timer_heap (upd_task t f k) = timer_heap k" "jiffies (upd_task t f k) = jiffies k"
  "mount_entries (upd_task t f k) = mount_entries k" "file_systems (upd_task t f k) = file_systems k"
  "mem_blocks (upd_task t f k) = mem_blocks k" "zelda_files (upd_task t f k) = zelda_files k"
  "tasks (upd_task t f k) = (tasks k)(t := f (tasks k t))"
  by (simp_all add: upd_task_def)

lemma upd_pg_fields [simp]:
  "k_layout (upd_pg g k) = k_layout k" "pg (upd_pg g k) = g (pg k)" "lists (upd_pg g k) = lists k"
  "vmas (upd_pg g k) = vmas k" "tasks (upd_pg g k) = tasks k" "current (upd_pg g k) = current k"
  "kvmas (upd_pg g k) = kvmas k" "cpus (upd_pg g k) = cpus k" "cr2 (upd_pg g k) = cr2 k" "esp0 (upd_pg g k) = esp0 k"
  "return_stub (upd_pg g k) = return_stub k"
  by (simp_all add: upd_pg_def)

end
