(* ===== verification/Userspace_Vma.thy ===== *)
theory Userspace_Vma
  imports Kernel_State
begin

section \<open>Virtual memory areas of a task (\<^verbatim>\<open>kernel/userspace_vma.c\<close>)\<close>

text \<open>
  The areas of a task form an intrusive list. The functions walk it with early exits; each walk
  is a loop over the cells. A signed length that is added to a 64-bit address is sign-extended.
\<close>

abbreviation (input) VMA_EXTEND_UPWARD :: int where "VMA_EXTEND_UPWARD \<equiv> 1"
abbreviation (input) VMA_EXTEND_DOWNWARD :: int where "VMA_EXTEND_DOWNWARD \<equiv> 2"

definition area_end :: "vm_area \<Rightarrow> u64" where
  "area_end v = va_virt_addr v + va_length v"

subsection \<open>The code\<close>

text \<open>The search by name remembers the last area visited and returns it.\<close>

partial_function (option) search_vma_name ::
    "lheap \<Rightarrow> (addr \<Rightarrow> vm_area) \<Rightarrow> u8 list \<Rightarrow> addr \<Rightarrow> addr \<Rightarrow> addr option" where
  "search_vma_name h V vma_name vma cur =
     (if cur = NULL then Some vma
      else case strcmp vma_name (va_name (V cur)) of
        None \<Rightarrow> None
      | Some r \<Rightarrow> if r = 0 then Some cur else search_vma_name h V vma_name cur (le_next (h cur)))"

definition search_userspace_vma :: "lheap \<Rightarrow> (addr \<Rightarrow> vm_area) \<Rightarrow> addr \<Rightarrow> u8 list \<Rightarrow> addr option" where
  "search_userspace_vma h V head vma_name = search_vma_name h V vma_name NULL (le_next (h head))"

partial_function (option) search_vma_addr :: "lheap \<Rightarrow> (addr \<Rightarrow> vm_area) \<Rightarrow> u64 \<Rightarrow> addr \<Rightarrow> addr option" where
  "search_vma_addr h V vaddr cur =
     (if cur = NULL then Some NULL
      else if vaddr \<ge> va_virt_addr (V cur) \<and> vaddr < va_virt_addr (V cur) + va_length (V cur) then Some cur
      else search_vma_addr h V vaddr (le_next (h cur)))"

definition search_userspace_vma_by_addr :: "lheap \<Rightarrow> (addr \<Rightarrow> vm_area) \<Rightarrow> addr \<Rightarrow> u32 \<Rightarrow> addr option" where
  "search_userspace_vma_by_addr h V head vaddr = search_vma_addr h V (ucast vaddr) (le_next (h head))"

definition grow_vm_area :: "(addr \<Rightarrow> vm_area) \<Rightarrow> addr \<Rightarrow> int \<Rightarrow> int \<Rightarrow> (int \<times> (addr \<Rightarrow> vm_area)) option" where
  "grow_vm_area V vma direction len = do {
     kassert (direction = VMA_EXTEND_UPWARD \<or> direction = VMA_EXTEND_DOWNWARD);
     let V = (if direction = VMA_EXTEND_DOWNWARD
              then V(vma := (V vma)\<lparr>va_virt_addr := va_virt_addr (V vma) - of_int len,
                va_phy_addr := (if va_exact (V vma) then va_phy_addr (V vma) - of_int len else va_phy_addr (V vma))\<rparr>)
              else V);
     Some (OK, V(vma := (V vma)\<lparr>va_length := va_length (V vma) + of_int len\<rparr>)) }"

text \<open>The check of the other areas: \<open>None\<close> inside is the early return with an error, otherwise
  whether the target was met.\<close>

partial_function (option) extend_check ::
    "lheap \<Rightarrow> (addr \<Rightarrow> vm_area) \<Rightarrow> addr \<Rightarrow> u64 \<Rightarrow> u64 \<Rightarrow> bool \<Rightarrow> addr \<Rightarrow> bool option option" where
  "extend_check h V target extended_start extended_end found cur =
     (if cur = NULL then Some (Some found)
      else if cur = target then extend_check h V target extended_start extended_end True (le_next (h cur))
      else if va_virt_addr (V cur) < extended_start \<and> va_virt_addr (V cur) + va_length (V cur) > extended_start then Some None
      else if va_virt_addr (V cur) < extended_end \<and> va_virt_addr (V cur) + va_length (V cur) > extended_end then Some None
      else extend_check h V target extended_start extended_end found (le_next (h cur)))"

definition extend_vm_area ::
    "lheap \<Rightarrow> (addr \<Rightarrow> vm_area) \<Rightarrow> addr \<Rightarrow> addr \<Rightarrow> int \<Rightarrow> int \<Rightarrow> (int \<times> (addr \<Rightarrow> vm_area)) option" where
  "extend_vm_area h V vmas_head target_vma direction len = do {
     kassert (direction = VMA_EXTEND_UPWARD \<or> direction = VMA_EXTEND_DOWNWARD);
     let extended_start = (if direction = VMA_EXTEND_UPWARD then va_virt_addr (V target_vma)
                           else va_virt_addr (V target_vma) - of_int len);
     let extended_end = (if direction = VMA_EXTEND_UPWARD
                         then va_virt_addr (V target_vma) + va_length (V target_vma) + of_int len
                         else va_virt_addr (V target_vma) + va_length (V target_vma));
     found \<leftarrow> extend_check h V target_vma extended_start extended_end False (le_next (h vmas_head));
     if found = Some True then grow_vm_area V target_vma direction len
     else Some (- ERR_INVALID_ARG, V) }"

subsection \<open>Closed forms over the sequence of areas\<close>

definition covers :: "vm_area \<Rightarrow> u64 \<Rightarrow> bool" where
  "covers v a \<longleftrightarrow> va_virt_addr v \<le> a \<and> a < area_end v"

definition vma_at :: "(addr \<Rightarrow> vm_area) \<Rightarrow> addr list \<Rightarrow> u32 \<Rightarrow> addr" where
  "vma_at V xs a = (case find (\<lambda>v. covers (V v) (ucast a)) xs of None \<Rightarrow> NULL | Some v \<Rightarrow> v)"

lemma search_vma_addr_eq:
  "dseg h p x xs NULL \<Longrightarrow> search_vma_addr h V a x = Some (case find (\<lambda>v. covers (V v) a) xs of None \<Rightarrow> NULL | Some v \<Rightarrow> v)"
proof (induction xs arbitrary: p x)
  case (Cons v xs)
  then show ?case using search_vma_addr.simps [of h V a v] by (auto simp: covers_def area_end_def)
qed (simp add: search_vma_addr.simps)

lemma search_by_addr_eq:
  "dlist h head xs \<Longrightarrow> search_userspace_vma_by_addr h V head a = Some (vma_at V xs a)"
  by (auto simp: search_userspace_vma_by_addr_def vma_at_def dlist_def dest: search_vma_addr_eq)

lemma vma_at_cases:
  assumes "dlist h head xs"
  obtains (found) "vma_at V xs a \<in> set xs" "vma_at V xs a \<noteq> NULL" "covers (V (vma_at V xs a)) (ucast a)"
  | (absent) "vma_at V xs a = NULL" "\<And>v. v \<in> set xs \<Longrightarrow> \<not> covers (V v) (ucast a)"
proof (cases "find (\<lambda>v. covers (V v) (ucast a)) xs")
  case None
  then have "vma_at V xs a = NULL" by (simp add: vma_at_def)
  with None show ?thesis by (intro absent) (auto simp: find_None_iff)
next
  case (Some v)
  then have "v \<in> set xs" "covers (V v) (ucast a)" by (auto simp: find_Some_iff)
  with Some dlist_NULL_notin [OF assms] show ?thesis by (intro found) (auto simp: vma_at_def)
qed

definition straddles :: "vm_area \<Rightarrow> u64 \<Rightarrow> bool" where
  "straddles v a \<longleftrightarrow> va_virt_addr v < a \<and> a < area_end v"

lemma extend_check_eq:
  assumes "dseg h p x xs NULL"
  shows "extend_check h V t s e f x =
    Some (if \<exists>v\<in>set xs. v \<noteq> t \<and> (straddles (V v) s \<or> straddles (V v) e) then None else Some (f \<or> t \<in> set xs))"
  using assms
proof (induction xs arbitrary: p x f)
  case (Cons a xs)
  then have a: "x = a" "a \<noteq> NULL" "dseg h a (le_next (h a)) xs NULL" by auto
  note step = extend_check.simps [of h V t s e f a, folded area_end_def, folded straddles_def]
  show ?case
  proof (cases "a = t")
    case True
    with step a Cons.IH [OF a(3), of True] show ?thesis by simp
  next
    case False
    with step a Cons.IH [OF a(3), of f] show ?thesis by auto
  qed
qed (simp add: extend_check.simps)

subsection \<open>Growing an area\<close>

text \<open>The areas as intervals of natural numbers, as long as none of them wraps around.\<close>

definition vma_set :: "vm_area \<Rightarrow> nat set" where
  "vma_set v = {unat (va_virt_addr v)..<unat (va_virt_addr v) + unat (va_length v)}"

definition vma_fits :: "vm_area \<Rightarrow> bool" where
  "vma_fits v \<longleftrightarrow> unat (va_virt_addr v) + unat (va_length v) < 2 ^ 64"

lemma area_end_unat: "vma_fits v \<Longrightarrow> unat (area_end v) = unat (va_virt_addr v) + unat (va_length v)"
  by (simp add: vma_fits_def area_end_def unat_word_ariths)

text \<open>The bounds the area shall have, as integers, and an area that has an address strictly inside.\<close>

definition grown_bounds :: "int \<Rightarrow> int \<Rightarrow> vm_area \<Rightarrow> int \<times> int" where
  "grown_bounds d len v =
     (if d = VMA_EXTEND_UPWARD then (uint (va_virt_addr v), uint (va_virt_addr v) + uint (va_length v) + len)
      else (uint (va_virt_addr v) - len, uint (va_virt_addr v) + uint (va_length v)))"

definition crosses :: "vm_area \<Rightarrow> int \<Rightarrow> bool" where
  "crosses v a \<longleftrightarrow> uint (va_virt_addr v) < a \<and> a < uint (va_virt_addr v) + uint (va_length v)"

lemma straddles_crosses:
  assumes "vma_fits v" "0 \<le> a" "a < 2 ^ 64"
  shows "straddles v (word_of_int a) \<longleftrightarrow> crosses v a"
proof -
  have "uint (word_of_int a :: u64) = a" using assms(2,3) by (simp add: unsigned_of_int take_bit_int_eq_self)
  moreover have "uint (area_end v) = uint (va_virt_addr v) + uint (va_length v)"
    using area_end_unat [OF assms(1)] by (metis of_nat_add of_nat_unat)
  ultimately show ?thesis by (simp add: straddles_def crosses_def word_less_def)
qed

definition grown_area :: "int \<Rightarrow> int \<Rightarrow> int \<Rightarrow> int \<Rightarrow> vm_area \<Rightarrow> vm_area" where
  "grown_area d len s e v = v\<lparr>va_virt_addr := word_of_int s,
     va_phy_addr := (if d = VMA_EXTEND_DOWNWARD \<and> va_exact v then va_phy_addr v - of_int len else va_phy_addr v),
     va_length := word_of_int (e - s)\<rparr>"

lemma grow_vm_area_eq:
  assumes "d = VMA_EXTEND_UPWARD \<or> d = VMA_EXTEND_DOWNWARD" "grown_bounds d len (V t) = (s, e)"
  shows "grow_vm_area V t d len = Some (OK, V(t := grown_area d len s e (V t)))"
proof -
  have "word_of_int (e - s) = va_length (V t) + of_int len"
      "word_of_int s = (if d = VMA_EXTEND_UPWARD then va_virt_addr (V t) else va_virt_addr (V t) - of_int len)"
    using assms(2) by (auto simp: grown_bounds_def split: if_splits)
  with assms(1) show ?thesis
    by (elim disjE) (simp_all add: grow_vm_area_def grown_area_def del: of_int_diff)
qed

lemma extend_vm_area_spec:
  assumes list: "dlist h head xs" and new: "grown_bounds d len (V t) = (s, e)" "0 \<le> s" "s \<le> e" "e < 2 ^ 64"
    and fits: "\<And>v. v \<in> set xs \<Longrightarrow> vma_fits (V v)"
  shows "extend_vm_area h V head t d len =
    (if d \<noteq> VMA_EXTEND_UPWARD \<and> d \<noteq> VMA_EXTEND_DOWNWARD then None
     else Some (if t \<notin> set xs \<or> (\<exists>v\<in>set xs. v \<noteq> t \<and> (crosses (V v) s \<or> crosses (V v) e)) then (- ERR_INVALID_ARG, V)
       else (OK, V(t := grown_area d len s e (V t)))))"
proof (cases "d = VMA_EXTEND_UPWARD \<or> d = VMA_EXTEND_DOWNWARD")
  case True
  have seg: "dseg h NULL (le_next (h head)) xs NULL" using list by (simp add: dlist_def)
  have start: "(if d = VMA_EXTEND_UPWARD then va_virt_addr (V t) else va_virt_addr (V t) - of_int len) = word_of_int s"
    and finish: "(if d = VMA_EXTEND_UPWARD then va_virt_addr (V t) + va_length (V t) + of_int len
      else va_virt_addr (V t) + va_length (V t)) = word_of_int e"
    using new(1) by (auto simp: grown_bounds_def)
  have str: "straddles (V v) (word_of_int s) \<longleftrightarrow> crosses (V v) s" "straddles (V v) (word_of_int e) \<longleftrightarrow> crosses (V v) e"
    if "v \<in> set xs" for v
    using straddles_crosses [OF fits [OF that]] new by auto
  then have "(\<exists>v\<in>set xs. v \<noteq> t \<and> (straddles (V v) (word_of_int s) \<or> straddles (V v) (word_of_int e))) \<longleftrightarrow>
      (\<exists>v\<in>set xs. v \<noteq> t \<and> (crosses (V v) s \<or> crosses (V v) e))"
    by blast
  with True show ?thesis
    unfolding extend_vm_area_def Let_def start finish extend_check_eq [OF seg]
    using grow_vm_area_eq [of d len V t s e, OF True new(1)] by auto
qed (simp add: extend_vm_area_def)

lemma vma_set_crosses:
  assumes "\<not> crosses v s" "\<not> crosses v e" "0 \<le> s" "s \<le> e"
  shows "vma_set v \<inter> {nat s..<nat e} \<noteq> {} \<longleftrightarrow> va_length v \<noteq> 0 \<and> vma_set v \<subseteq> {nat s..<nat e}"
proof -
  define a n where "a = unat (va_virt_addr v)" and "n = unat (va_length v)"
  have [simp]: "va_length v = 0 \<longleftrightarrow> n = 0" by (simp add: n_def unat_eq_0)
  have no: "\<not> (int a < s \<and> s < int a + int n)" "\<not> (int a < e \<and> e < int a + int n)"
    using assms(1,2) by (simp_all add: crosses_def a_def n_def)
  have "{a..<a + n} \<inter> {nat s..<nat e} = {max a (nat s)..<min (a + n) (nat e)}" by auto
  then have "{a..<a + n} \<inter> {nat s..<nat e} \<noteq> {} \<longleftrightarrow> max a (nat s) < min (a + n) (nat e)"
    by (simp only: atLeastLessThan_empty_iff not_not)
  also have "\<dots> \<longleftrightarrow> n \<noteq> 0 \<and> nat s \<le> a \<and> a + n \<le> nat e" using no assms(3,4) by auto
  also have "\<dots> \<longleftrightarrow> n \<noteq> 0 \<and> {a..<a + n} \<subseteq> {nat s..<nat e}" by (auto simp: ivl_subset)
  finally show ?thesis by (simp add: vma_set_def a_def n_def)
qed

lemma grown_area_set:
  assumes "0 \<le> s" "s \<le> e" "e < 2 ^ 64"
  shows "vma_set (grown_area d len s e v) = {nat s..<nat e}"
proof -
  have "unat (word_of_int s :: u64) = nat s" "unat (word_of_int (e - s) :: u64) = nat (e - s)"
    using assms by (simp_all add: unsigned_of_int take_bit_int_eq_self del: of_int_diff)
  with assms show ?thesis by (simp add: vma_set_def grown_area_def nat_diff_distrib del: of_int_diff)
qed

text \<open>C24. Extending an area of a task by a signed length, upwards or downwards. The call fails its
  assertion for any other direction. It is refused with -ERR_INVALID_ARG, and nothing changes,
  exactly when the area is not in the list or one of its two new bounds lies strictly inside
  another area. Otherwise the area gets the new bounds, the physical address of an area with an
  exact mapping moves down with a downward extension, and nothing else changes. If no other area
  overlapped the old range, then another area overlaps the new one exactly when a nonempty area
  lies whole in the added part: an area that the extension swallows passes the check. The
  hypotheses are that no area, and neither the new one, wraps around.\<close>

theorem extend_vm_area_correct:
  assumes "dlist h head xs" "grown_bounds d len (V t) = (s, e)" "0 \<le> s" "s \<le> e" "e < 2 ^ 64"
    and "\<And>v. v \<in> set xs \<Longrightarrow> vma_fits (V v)"
  shows "extend_vm_area h V head t d len =
      (if d \<noteq> VMA_EXTEND_UPWARD \<and> d \<noteq> VMA_EXTEND_DOWNWARD then None
       else Some (if t \<notin> set xs \<or> (\<exists>v\<in>set xs. v \<noteq> t \<and> (crosses (V v) s \<or> crosses (V v) e)) then (- ERR_INVALID_ARG, V)
         else (OK, V(t := (V t)\<lparr>va_virt_addr := word_of_int s,
           va_phy_addr := (if d = VMA_EXTEND_DOWNWARD \<and> va_exact (V t) then va_phy_addr (V t) - of_int len
             else va_phy_addr (V t)),
           va_length := word_of_int (e - s)\<rparr>)))) \<and>
    (\<forall>V'. extend_vm_area h V head t d len = Some (OK, V') \<longrightarrow>
      (\<forall>v\<in>set xs. v \<noteq> t \<longrightarrow> vma_set (V v) \<inter> vma_set (V t) = {}) \<longrightarrow>
      ((\<exists>v\<in>set xs. v \<noteq> t \<and> vma_set (V' v) \<inter> vma_set (V' t) \<noteq> {}) \<longleftrightarrow>
       (\<exists>v\<in>set xs. v \<noteq> t \<and> va_length (V v) \<noteq> 0 \<and> vma_set (V v) \<subseteq> vma_set (V' t) - vma_set (V t))))"
proof -
  note spec = extend_vm_area_spec [where V = V, OF assms]
  have swallow: "(\<exists>v\<in>set xs. v \<noteq> t \<and> vma_set (V' v) \<inter> vma_set (V' t) \<noteq> {}) \<longleftrightarrow>
       (\<exists>v\<in>set xs. v \<noteq> t \<and> va_length (V v) \<noteq> 0 \<and> vma_set (V v) \<subseteq> vma_set (V' t) - vma_set (V t))"
    if run: "extend_vm_area h V head t d len = Some (OK, V')"
      and disj: "\<forall>v\<in>set xs. v \<noteq> t \<longrightarrow> vma_set (V v) \<inter> vma_set (V t) = {}" for V'
  proof (intro bex_cong refl conj_cong)
    fix v assume v: "v \<in> set xs" "v \<noteq> t"
    have V': "V' = V(t := grown_area d len s e (V t))" and no: "\<not> crosses (V v) s" "\<not> crosses (V v) e"
      using run spec v by (auto split: if_splits)
    then have "vma_set (V' v) \<inter> vma_set (V' t) \<noteq> {} \<longleftrightarrow> va_length (V v) \<noteq> 0 \<and> vma_set (V v) \<subseteq> vma_set (V' t)"
      using vma_set_crosses [OF no assms(3,4)] grown_area_set [OF assms(3-5)] v(2) by simp
    with disj v show "vma_set (V' v) \<inter> vma_set (V' t) \<noteq> {} \<longleftrightarrow>
        va_length (V v) \<noteq> 0 \<and> vma_set (V v) \<subseteq> vma_set (V' t) - vma_set (V t)" by auto
  qed
  from spec swallow show ?thesis unfolding grown_area_def by blast
qed

definition swallow_cells :: lheap where
  "swallow_cells = (\<lambda>_. \<lparr>le_prev = NULL, le_next = NULL\<rparr>)(100 := \<lparr>le_prev = 300, le_next = 200\<rparr>,
     200 := \<lparr>le_prev = NULL, le_next = 300\<rparr>, 300 := \<lparr>le_prev = 200, le_next = NULL\<rparr>)"

definition swallow_areas :: "addr \<Rightarrow> vm_area" where
  "swallow_areas v = \<lparr>va_name = [0], va_kernel_vma = False, va_pre_map = False, va_exact = False, va_write_permission = 1,
     va_page_writethrough = 0, va_page_cachedisable = 0, va_executable = False,
     va_virt_addr = (if v = 200 then 0x40001000 else 0x9F800000), va_phy_addr = 0,
     va_length = (if v = 200 then 0x1000 else 0x800000)\<rparr>"

theorem extend_vm_area_correct_witness:
  "(\<exists>V'. extend_vm_area swallow_cells swallow_areas 100 200 VMA_EXTEND_UPWARD 0x70000000 = Some (OK, V') \<and>
      vma_set (V' 300) \<inter> vma_set (V' 200) \<noteq> {}) \<and>
   extend_vm_area swallow_cells swallow_areas 100 300 VMA_EXTEND_DOWNWARD 0x5F7FE800 = Some (- ERR_INVALID_ARG, swallow_areas) \<and>
   extend_vm_area swallow_cells swallow_areas 100 300 VMA_EXTEND_DOWNWARD 0x1000 =
     Some (OK, swallow_areas(300 := (swallow_areas 300)\<lparr>va_virt_addr := 0x9F7FF000, va_length := 0x801000\<rparr>))"
proof -
  have list: "dlist swallow_cells 100 [200, 300]" by (simp add: dlist_def swallow_cells_def)
  have vals: "va_virt_addr (swallow_areas 200) = 0x40001000" "va_length (swallow_areas 200) = 0x1000"
    "va_virt_addr (swallow_areas 300) = 0x9F800000" "va_length (swallow_areas 300) = 0x800000"
    "va_exact (swallow_areas v) = False" "va_phy_addr (swallow_areas v) = 0" for v
    by (simp_all add: swallow_areas_def)
  have fits: "vma_fits (swallow_areas v)" if "v \<in> set [200, 300]" for v using that vals by (auto simp: vma_fits_def)
  have up: "grown_bounds VMA_EXTEND_UPWARD 0x70000000 (swallow_areas 200) = (0x40001000, 0xB0002000)"
    and down: "grown_bounds VMA_EXTEND_DOWNWARD 0x5F7FE800 (swallow_areas 300) = (0x40001800, 0xA0000000)"
      "grown_bounds VMA_EXTEND_DOWNWARD 0x1000 (swallow_areas 300) = (0x9F7FF000, 0xA0000000)"
    by (simp_all add: grown_bounds_def vals)
  note claim = extend_vm_area_correct [where V = swallow_areas, OF list _ _ _ _ fits]
  have "\<exists>V'. extend_vm_area swallow_cells swallow_areas 100 200 VMA_EXTEND_UPWARD 0x70000000 = Some (OK, V')"
    using claim [OF up] vals by (simp add: crosses_def)
  then obtain V' where V': "extend_vm_area swallow_cells swallow_areas 100 200 VMA_EXTEND_UPWARD 0x70000000 = Some (OK, V')" ..
  have "V' 200 = (swallow_areas 200)\<lparr>va_length := 0x70001000\<rparr>"
    using claim [OF up] V' vals by (auto simp: crosses_def)
  then have sub: "vma_set (swallow_areas 300) \<subseteq> vma_set (V' 200) - vma_set (swallow_areas 200)"
    "vma_set (swallow_areas 300) \<inter> vma_set (swallow_areas 200) = {}"
    by (auto simp: vma_set_def vals)
  then have "\<exists>v\<in>set [200, 300]. v \<noteq> 200 \<and> vma_set (V' v) \<inter> vma_set (V' 200) \<noteq> {}"
    using claim [OF up] V' vals by auto
  moreover have "extend_vm_area swallow_cells swallow_areas 100 300 VMA_EXTEND_DOWNWARD 0x5F7FE800 = Some (- ERR_INVALID_ARG, swallow_areas)"
    using claim [OF down(1)] vals by (simp add: crosses_def)
  moreover have "extend_vm_area swallow_cells swallow_areas 100 300 VMA_EXTEND_DOWNWARD 0x1000 =
      Some (OK, swallow_areas(300 := (swallow_areas 300)\<lparr>va_virt_addr := 0x9F7FF000, va_length := 0x801000\<rparr>))"
    using claim [OF down(2)] vals by (simp add: crosses_def fun_eq_iff)
  ultimately show ?thesis using V' by auto
qed

end
