(* ===== verification/Task_Signal.thy ===== *)
theory Task_Signal
  imports Kernel_State
begin

section \<open>Task states and signals (\<^verbatim>\<open>kernel/task.c\<close>, \<^verbatim>\<open>kernel/task_signal.c\<close>)\<close>

text \<open>
  A signal is pending in the entry of its number until the task is about to return to user
  mode; then the lowest pending one is acted upon. Stop and continue signals act at once on the
  state of the task. A function that gives up the processor by \<^verbatim>\<open>yield_cpu\<close> ends with
  \<open>Yield\<close> and the state at that point: the scheduler takes over, and the caller goes on only
  if its task is selected again.
\<close>

abbreviation (input) SIG_INVALID :: int where "SIG_INVALID \<equiv> 0"
abbreviation (input) SIGHUP :: int where "SIGHUP \<equiv> 1"
abbreviation (input) SIGINT :: int where "SIGINT \<equiv> 2"
abbreviation (input) SIGQUIT :: int where "SIGQUIT \<equiv> 3"
abbreviation (input) SIGILL :: int where "SIGILL \<equiv> 4"
abbreviation (input) SIGFPE :: int where "SIGFPE \<equiv> 8"
abbreviation (input) SIGKILL :: int where "SIGKILL \<equiv> 9"
abbreviation (input) SIGSEGV :: int where "SIGSEGV \<equiv> 11"
abbreviation (input) SIGSYS :: int where "SIGSYS \<equiv> 12"
abbreviation (input) SIGPIPE :: int where "SIGPIPE \<equiv> 13"
abbreviation (input) SIGALARM :: int where "SIGALARM \<equiv> 14"
abbreviation (input) SIGTERM :: int where "SIGTERM \<equiv> 15"
abbreviation (input) SIGUSR1 :: int where "SIGUSR1 \<equiv> 16"
abbreviation (input) SIGUSR2 :: int where "SIGUSR2 \<equiv> 17"
abbreviation (input) SIGSTOP :: int where "SIGSTOP \<equiv> 23"
abbreviation (input) SIGTSTP :: int where "SIGTSTP \<equiv> 24"
abbreviation (input) SIGCONT :: int where "SIGCONT \<equiv> 25"
abbreviation (input) SIGTTIN :: int where "SIGTTIN \<equiv> 26"
abbreviation (input) SIGTTOU :: int where "SIGTTOU \<equiv> 27"
abbreviation (input) SIG_MAX :: int where "SIG_MAX \<equiv> 28"

abbreviation (input) SIG_ACTION_EXIT :: int where "SIG_ACTION_EXIT \<equiv> 0"
abbreviation (input) SIG_ACTION_IGNORE :: int where "SIG_ACTION_IGNORE \<equiv> 1"
abbreviation (input) SIG_ACTION_STOP :: int where "SIG_ACTION_STOP \<equiv> 2"
abbreviation (input) SIG_ACTION_CONTINUE :: int where "SIG_ACTION_CONTINUE \<equiv> 3"
abbreviation (input) SIG_ACTION_USER :: int where "SIG_ACTION_USER \<equiv> 4"

abbreviation (input) EFLAGS_ONE :: u32 where "EFLAGS_ONE \<equiv> 0x2"
abbreviation (input) EFLAGS_INTERRUPT :: u32 where "EFLAGS_INTERRUPT \<equiv> 0x200"
abbreviation (input) EFLAGS_PL3_IOPL :: u32 where "EFLAGS_PL3_IOPL \<equiv> 0x3000"
abbreviation (input) KERNEL_CODE_SELECTOR :: u32 where "KERNEL_CODE_SELECTOR \<equiv> 0x08"
abbreviation (input) KERNEL_DATA_SELECTOR :: u32 where "KERNEL_DATA_SELECTOR \<equiv> 0x10"
abbreviation (input) USER_CODE_SELECTOR :: u32 where "USER_CODE_SELECTOR \<equiv> 0x1b"
abbreviation (input) USER_DATA_SELECTOR :: u32 where "USER_DATA_SELECTOR \<equiv> 0x23"
abbreviation (input) USERSPACE_SIGNAL_STACK_TOP :: u32 where "USERSPACE_SIGNAL_STACK_TOP \<equiv> 0xA0100000"

datatype 'a control = Return 'a | Yield kernel

subsection \<open>Task states\<close>

definition task_state_transition_init :: "(task_state \<times> task_state) list" where
  "task_state_transition_init =
    [(TASK_STATE_ZOMBIE, TASK_STATE_ZOMBIE),
     (TASK_STATE_RUNNING, TASK_STATE_RUNNING),
     (TASK_STATE_EXITING, TASK_STATE_EXITING),
     (TASK_STATE_INTERRUPTIBLE, TASK_STATE_INTERRUPTIBLE),
     (TASK_STATE_UNINTERRUPTIBLE, TASK_STATE_UNINTERRUPTIBLE),
     (TASK_STATE_RUNNING, TASK_STATE_INTERRUPTIBLE),
     (TASK_STATE_RUNNING, TASK_STATE_UNINTERRUPTIBLE),
     (TASK_STATE_RUNNING, TASK_STATE_EXITING),
     (TASK_STATE_INTERRUPTIBLE, TASK_STATE_RUNNING),
     (TASK_STATE_INTERRUPTIBLE, TASK_STATE_UNINTERRUPTIBLE),
     (TASK_STATE_UNINTERRUPTIBLE, TASK_STATE_RUNNING),
     (TASK_STATE_UNINTERRUPTIBLE, TASK_STATE_INTERRUPTIBLE)]"

definition transit_state :: "addr \<Rightarrow> task_state \<Rightarrow> kernel \<Rightarrow> kernel option" where
  "transit_state task target_state k = do {
     let prev_state = state (tasks k task);
     let k = upd_task task (\<lambda>t. t\<lparr>state := target_state\<rparr>) k;
     kassert ((prev_state, target_state) \<in> set task_state_transition_init);
     Some k }"

definition raw_task_wake_up :: "addr \<Rightarrow> kernel \<Rightarrow> kernel option" where
  "raw_task_wake_up task k =
     (case state (tasks k task) of
        TASK_STATE_RUNNING \<Rightarrow> Some k
      | TASK_STATE_INTERRUPTIBLE \<Rightarrow> transit_state task TASK_STATE_RUNNING k
      | TASK_STATE_UNINTERRUPTIBLE \<Rightarrow> do {
          kassert (non_stop_state (tasks k task) = TASK_STATE_RUNNING \<or>
                   non_stop_state (tasks k task) = TASK_STATE_INTERRUPTIBLE);
          Some (upd_task task (\<lambda>t. t\<lparr>non_stop_state := TASK_STATE_RUNNING\<rparr>) k) }
      | _ \<Rightarrow> None)"

subsection \<open>Signals\<close>

definition zero_entry :: signal_entry where
  "zero_entry = \<lparr>valid = False, signaled = False, overridable = False, action = SIG_ACTION_EXIT, user_entry = 0\<rparr>"

definition sig_defaults :: "(int \<times> bool \<times> int) list" where
  "sig_defaults =
    [(SIGHUP, False, SIG_ACTION_EXIT),
     (SIGINT, True, SIG_ACTION_EXIT),
     (SIGQUIT, False, SIG_ACTION_EXIT),
     (SIGILL, False, SIG_ACTION_EXIT),
     (SIGFPE, False, SIG_ACTION_EXIT),
     (SIGKILL, False, SIG_ACTION_EXIT),
     (SIGSEGV, False, SIG_ACTION_EXIT),
     (SIGSYS, False, SIG_ACTION_EXIT),
     (SIGPIPE, True, SIG_ACTION_EXIT),
     (SIGALARM, True, SIG_ACTION_IGNORE),
     (SIGTERM, False, SIG_ACTION_EXIT),
     (SIGUSR1, True, SIG_ACTION_IGNORE),
     (SIGUSR2, True, SIG_ACTION_IGNORE),
     (SIGSTOP, False, SIG_ACTION_STOP),
     (SIGTSTP, False, SIG_ACTION_STOP),
     (SIGCONT, False, SIG_ACTION_CONTINUE),
     (SIGTTIN, False, SIG_ACTION_STOP),
     (SIGTTOU, False, SIG_ACTION_STOP)]"

definition task_signal_init :: "addr \<Rightarrow> kernel \<Rightarrow> kernel" where
  "task_signal_init task k = upd_task task (\<lambda>t. t\<lparr>sig_entries :=
     fold (\<lambda>(sig, ov, act) es. es[nat sig := (es ! nat sig)\<lparr>valid := True, overridable := ov, action := act\<rparr>])
       sig_defaults (replicate (nat SIG_MAX) zero_entry)\<rparr>) k"

definition upd_sig :: "addr \<Rightarrow> int \<Rightarrow> (signal_entry \<Rightarrow> signal_entry) \<Rightarrow> kernel \<Rightarrow> kernel" where
  "upd_sig task sig f = upd_task task (\<lambda>t. t\<lparr>sig_entries := (sig_entries t)[nat sig := f (sig_entries t ! nat sig)]\<rparr>)"

abbreviation (input) sig_entry :: "kernel \<Rightarrow> addr \<Rightarrow> int \<Rightarrow> signal_entry" where
  "sig_entry k task sig \<equiv> sig_entries (tasks k task) ! nat sig"

definition signal_task :: "addr \<Rightarrow> int \<Rightarrow> kernel \<Rightarrow> (int \<times> kernel) option" where
  "signal_task task sig k = do {
     kassert (sig > SIG_INVALID \<and> sig < SIG_MAX);
     if \<not> valid (sig_entry k task sig) then Some (- ERR_NOT_SUPPORTED, k)
     else if action (sig_entry k task sig) = SIG_ACTION_STOP then do {
       k \<leftarrow> (if state (tasks k task) = TASK_STATE_INTERRUPTIBLE \<or> state (tasks k task) = TASK_STATE_RUNNING
             then transit_state task TASK_STATE_UNINTERRUPTIBLE (upd_task task (\<lambda>t. t\<lparr>non_stop_state := state t\<rparr>) k)
             else Some k);
       Some (OK, k) }
     else if action (sig_entry k task sig) = SIG_ACTION_CONTINUE then do {
       k \<leftarrow> (if state (tasks k task) = TASK_STATE_UNINTERRUPTIBLE
             then map_option (upd_task task (\<lambda>t. t\<lparr>non_stop_state := TASK_STATE_ZOMBIE\<rparr>))
                    (transit_state task (non_stop_state (tasks k task)) k)
             else Some k);
       Some (OK, k) }
     else do {
       let k = upd_sig task sig (\<lambda>e. e\<lparr>signaled := True\<rparr>) k;
       let k = upd_task task (\<lambda>t. t\<lparr>signal_pending := True\<rparr>) k;
       k \<leftarrow> raw_task_wake_up task k;
       Some (OK, k) } }"

definition set_tss_privilege_level0_stack :: "u32 \<Rightarrow> kernel \<Rightarrow> kernel" where
  "set_tss_privilege_level0_stack e k = k\<lparr>ss0 := KERNEL_DATA_SELECTOR, esp0 := e\<rparr>"

definition return_from_pl3_signal_context :: "u32 \<Rightarrow> kernel \<Rightarrow> (int \<times> u32 \<times> kernel) option" where
  "return_from_pl3_signal_context p_esp k = do {
     kassert (current k \<noteq> NULL \<and> signal_scheduled (tasks k (current k)));
     kassert (signaled_cpu (tasks k (current k)) = p_esp);
     let k = upd_task (current k) (\<lambda>t. t\<lparr>signal_scheduled := False\<rparr>) k;
     let p_esp = cpu (tasks k (current k));
     Some (OK, p_esp, set_tss_privilege_level0_stack (privilege_level0_stack_top (tasks k (current k))) k) }"

definition prepare_signal_context :: "addr \<Rightarrow> int \<Rightarrow> kernel \<Rightarrow> kernel option" where
  "prepare_signal_context task signal k = do {
     let pl3_stack = USERSPACE_SIGNAL_STACK_TOP - 0x100;
     kassert (privilege_level (tasks k task) = DPL_3);
     kassert (signal > SIG_INVALID \<and> signal < SIG_MAX);
     kassert (valid (sig_entry k task signal));
     kassert (action (sig_entry k task signal) = SIG_ACTION_USER);
     kassert (user_entry (sig_entry k task signal) \<noteq> 0);
     kassert (pl3_stack AND 3 = 0);
     let pl3_stack = pl3_stack - 4;
     let k = k\<lparr>user_words := (user_words k)(pl3_stack := of_int signal)\<rparr>;
     let pl3_stack = pl3_stack - 4;
     let k = k\<lparr>user_words := (user_words k)(pl3_stack := return_stub k)\<rparr>;
     let c = signaled_privilege_level0_stack_top (tasks k task) - 72;
     kassert (pl3_stack AND 3 = 0);
     let k = k\<lparr>cpus := (cpus k)(c :=
        \<lparr>edi = 0, esi = 0, ebp = 0, ebx = 0, edx = 0, ecx = 0, eax = 0,
         gs = USER_DATA_SELECTOR, fs = USER_DATA_SELECTOR, es = USER_DATA_SELECTOR, ds = USER_DATA_SELECTOR,
         vector = 0, errorcode = 0, eip = user_entry (sig_entry k task signal), cs = USER_CODE_SELECTOR,
         eflags = EFLAGS_ONE OR EFLAGS_INTERRUPT OR EFLAGS_PL3_IOPL, esp = pl3_stack, ss = USER_DATA_SELECTOR\<rparr>)\<rparr>;
     Some (upd_task task (\<lambda>t. t\<lparr>signaled_cpu := c\<rparr>) k) }"

definition sig_waiting :: "task \<Rightarrow> int \<Rightarrow> bool" where
  "sig_waiting t sig \<longleftrightarrow> valid (sig_entries t ! nat sig) \<and> signaled (sig_entries t ! nat sig)"

text \<open>The part of \<^verbatim>\<open>task_process_signal\<close> between the guards and the label \<open>out\<close>.\<close>

definition deliver_signal :: "kernel \<Rightarrow> kernel control option" where
  "deliver_signal k = (let task = current k in
     case find (sig_waiting (tasks k task)) [SIG_INVALID + 1..SIG_MAX - 1] of
       None \<Rightarrow> Some (Return (upd_task task (\<lambda>t. t\<lparr>signal_pending := False\<rparr>) k))
     | Some signal \<Rightarrow> do {
         kassert (signaled (sig_entry k task signal));
         let k = upd_sig task signal (\<lambda>e. e\<lparr>signaled := False\<rparr>) k;
         let k = (if find (sig_waiting (tasks k task)) [signal + 1..SIG_MAX - 1] = None
                  then upd_task task (\<lambda>t. t\<lparr>signal_pending := False\<rparr>) k else k);
         if action (sig_entry k task signal) = SIG_ACTION_IGNORE then Some (Return k)
         else if action (sig_entry k task signal) = SIG_ACTION_EXIT then do {
           k \<leftarrow> transit_state task TASK_STATE_EXITING k;
           Some (Yield k) }
         else if action (sig_entry k task signal) = SIG_ACTION_USER then do {
           k \<leftarrow> prepare_signal_context task signal k;
           Some (Return (upd_task task (\<lambda>t. t\<lparr>signal_scheduled := True\<rparr>) k)) }
         else None })"

definition signal_out :: "u32 \<Rightarrow> kernel \<Rightarrow> u32 \<times> kernel" where
  "signal_out sp k =
     (if current k \<noteq> NULL \<and> signal_scheduled (tasks k (current k))
      then (signaled_cpu (tasks k (current k)),
            set_tss_privilege_level0_stack (signaled_privilege_level0_stack_top (tasks k (current k))) k)
      else (sp, k))"

definition task_process_signal :: "u32 \<Rightarrow> kernel \<Rightarrow> (u32 \<times> kernel) control option" where
  "task_process_signal sp k =
     (if current k = NULL \<or> privilege_level (tasks k (current k)) \<noteq> DPL_3 \<or> interrupt_depth (tasks k (current k)) \<noteq> 1
      then Some (Return (signal_out sp k))
      else do {
        kassert (state (tasks k (current k)) = TASK_STATE_RUNNING \<or> state (tasks k (current k)) = TASK_STATE_UNINTERRUPTIBLE);
        r \<leftarrow> (if \<not> signal_scheduled (tasks k (current k)) \<and> signal_pending (tasks k (current k))
              then deliver_signal k else Some (Return k));
        Some (case r of Return k \<Rightarrow> Return (signal_out sp k) | Yield k \<Rightarrow> Yield k) })"

definition call_sys_signal :: "int \<Rightarrow> u32 \<Rightarrow> kernel \<Rightarrow> (int \<times> kernel) option" where
  "call_sys_signal signal handler k = do {
     kassert (current k \<noteq> NULL);
     if signal \<le> SIG_INVALID \<or> signal \<ge> SIG_MAX then Some (- ERR_INVALID_ARG, k)
     else if \<not> valid (sig_entry k (current k) signal) \<or> \<not> overridable (sig_entry k (current k) signal)
       then Some (- ERR_NOT_SUPPORTED, k)
     else Some (OK, upd_sig (current k) signal (\<lambda>e. e\<lparr>action := SIG_ACTION_USER, user_entry := handler\<rparr>) k) }"

subsection \<open>Entry and exit of interrupts\<close>

definition task_pre_interrupt_handler :: "addr \<Rightarrow> kernel \<Rightarrow> kernel" where
  "task_pre_interrupt_handler c k =
     (if current k \<noteq> NULL then
        upd_task (current k) (\<lambda>t. let t = t\<lparr>interrupt_depth := interrupt_depth t + 1\<rparr>
          in if signal_scheduled t then t\<lparr>signaled_cpu := c\<rparr> else t\<lparr>cpu := c\<rparr>) k
      else k)"

definition task_post_interrupt_handler :: "addr \<Rightarrow> kernel \<Rightarrow> kernel option" where
  "task_post_interrupt_handler c k =
     (if current k \<noteq> NULL then do {
        let k = upd_task (current k) (\<lambda>t. t\<lparr>interrupt_depth := interrupt_depth t - 1\<rparr>) k;
        kassert (sint (interrupt_depth (tasks k (current k))) \<ge> 0);
        Some k }
      else Some k)"

end
