(* ===== verification/Descriptors.thy ===== *)
theory Descriptors
  imports Task_Signal
begin

section \<open>Segment descriptors and the task state segment (\<^verbatim>\<open>x86/gdt.c\<close>, \<^verbatim>\<open>x86/tss.c\<close>)\<close>

text \<open>
  A descriptor is the record of its bit fields, each a word of its width. The address of the
  static task state segment and of its two stacks are chosen by the linker and are parameters.
  Loading the tables into the processor is assembly and not modelled.
\<close>

abbreviation (input) TSS0_SELECTOR :: u32 where "TSS0_SELECTOR \<equiv> 0x28"
abbreviation (input) SEGMENT_TYPE_RW_DATA :: "4 word" where "SEGMENT_TYPE_RW_DATA \<equiv> 0x2"
abbreviation (input) SEGMENT_TYPE_RX_CODE :: "4 word" where "SEGMENT_TYPE_RX_CODE \<equiv> 0xa"
abbreviation (input) SEGMENT_TYPE_TSS :: "4 word" where "SEGMENT_TYPE_TSS \<equiv> 0x9"

definition SELECTOR_INDEX :: "u32 \<Rightarrow> u32" where
  "SELECTOR_INDEX sel = drop_bit 3 sel"

record gdt_entry =
  limit_0_15 :: "16 word"
  base_0_15 :: "16 word"
  base_16_23 :: "8 word"
  segment_type :: "4 word"
  segmet_class :: "1 word"
  dpl :: "2 word"
  present :: "1 word"
  limit_16_19 :: "4 word"
  avail :: "1 word"
  long_mode :: "1 word"
  operation_size :: "1 word"
  granularity :: "1 word"
  base_24_31 :: "8 word"

definition null_segment :: gdt_entry where
  "null_segment = \<lparr>limit_0_15 = 0, base_0_15 = 0, base_16_23 = 0, segment_type = 0, segmet_class = 0, dpl = 0, present = 0,
     limit_16_19 = 0, avail = 0, long_mode = 0, operation_size = 0, granularity = 0, base_24_31 = 0\<rparr>"

definition flat_segment :: "4 word \<Rightarrow> 2 word \<Rightarrow> gdt_entry" where
  "flat_segment ty pl = \<lparr>limit_0_15 = - 1, base_0_15 = 0, base_16_23 = 0, segment_type = ty, segmet_class = 1, dpl = pl,
     present = 1, limit_16_19 = - 1, avail = 0, long_mode = 0, operation_size = 1, granularity = 1, base_24_31 = 0\<rparr>"

definition GDT :: "gdt_entry list" where
  "GDT = [null_segment,
     flat_segment SEGMENT_TYPE_RX_CODE 0, flat_segment SEGMENT_TYPE_RW_DATA 0,
     flat_segment SEGMENT_TYPE_RX_CODE 3, flat_segment SEGMENT_TYPE_RW_DATA 3,
     null_segment]"

record task_state_segment =
  previous_task_selector :: "16 word"
  tss_esp0 :: u32
  tss_ss0 :: "16 word"
  tss_esp1 :: u32
  tss_ss1 :: "16 word"
  tss_esp2 :: u32
  tss_ss2 :: "16 word"
  tss_cr3 :: u32
  tss_eip :: u32
  tss_eflags :: u32
  tss_eax :: u32
  tss_ecx :: u32
  tss_edx :: u32
  tss_ebx :: u32
  tss_esp :: u32
  tss_ebp :: u32
  tss_esi :: u32
  tss_edi :: u32
  tss_es :: "16 word"
  tss_cs :: "16 word"
  tss_ss :: "16 word"
  tss_ds :: "16 word"
  tss_fs :: "16 word"
  tss_gs :: "16 word"
  ldt_selector :: "16 word"
  iomap :: "16 word"

abbreviation (input) TSS_SIZE :: u32 where "TSS_SIZE \<equiv> 104"

definition initialize_tss :: "u32 \<Rightarrow> u32 \<Rightarrow> u32 \<Rightarrow> u32 \<Rightarrow> u32 \<Rightarrow> task_state_segment" where
  "initialize_tss tss0_stack tss0_kernel_stack code_selector data_selector e =
     \<lparr>previous_task_selector = 0, tss_esp0 = tss0_kernel_stack + 1024 * 1024 * 4, tss_ss0 = ucast KERNEL_DATA_SELECTOR,
      tss_esp1 = 0, tss_ss1 = 0, tss_esp2 = 0, tss_ss2 = 0, tss_cr3 = 0, tss_eip = e, tss_eflags = 0, tss_eax = 0,
      tss_ecx = 0, tss_edx = 0, tss_ebx = 0, tss_esp = tss0_stack + 8192, tss_ebp = 0, tss_esi = 0, tss_edi = 0,
      tss_es = ucast data_selector, tss_cs = ucast code_selector, tss_ss = ucast data_selector, tss_ds = ucast data_selector,
      tss_fs = ucast data_selector, tss_gs = ucast data_selector, ldt_selector = 0, iomap = 0\<rparr>"

definition tss_init :: "u32 \<Rightarrow> u32 \<Rightarrow> u32 \<Rightarrow> task_state_segment" where
  "tss_init tss0_stack tss0_kernel_stack tss0_entry =
     initialize_tss tss0_stack tss0_kernel_stack USER_CODE_SELECTOR USER_DATA_SELECTOR tss0_entry"

definition gdt_init :: "u32 \<Rightarrow> gdt_entry list option" where
  "gdt_init tss0_base = do {
     let tss_index = SELECTOR_INDEX TSS0_SELECTOR;
     let limit = TSS_SIZE - 1;
     kassert (tss_index = 5);
     Some (GDT[unat tss_index := \<lparr>limit_0_15 = ucast (limit AND 0xffff), base_0_15 = ucast (tss0_base AND 0xffff),
        base_16_23 = ucast (drop_bit 16 tss0_base AND 0xff), segment_type = SEGMENT_TYPE_TSS, segmet_class = 0, dpl = 3,
        present = 1, limit_16_19 = ucast (drop_bit 16 limit AND 0xf), avail = 0, long_mode = 0, operation_size = 0,
        granularity = 0, base_24_31 = ucast (drop_bit 24 tss0_base AND 0xff)\<rparr>]) }"

text \<open>What the processor reads from a descriptor: its base, its limit in bytes and its privilege level.\<close>

definition seg_base :: "gdt_entry \<Rightarrow> u32" where
  "seg_base e = ucast (base_0_15 e) OR push_bit 16 (ucast (base_16_23 e)) OR push_bit 24 (ucast (base_24_31 e))"

definition seg_limit :: "gdt_entry \<Rightarrow> u32" where
  "seg_limit e = (let l = ucast (limit_0_15 e) OR push_bit 16 (ucast (limit_16_19 e))
     in if granularity e = 1 then push_bit 12 l OR 0xfff else l)"

lemma split_base:
  fixes b :: u32
  shows "ucast (ucast (b AND 0xffff) :: 16 word) OR push_bit 16 (ucast (ucast (drop_bit 16 b AND 0xff) :: 8 word)) OR
    push_bit 24 (ucast (ucast (drop_bit 24 b AND 0xff) :: 8 word)) = b" (is "?l = b")
proof (rule bit_word_eqI)
  fix n assume n: "n < LENGTH(32)"
  have m: "(0xffff :: u32) = mask 16" "(0xff :: u32) = mask 8" by (simp_all add: mask_eq_exp_minus_1)
  have "n < 16 \<or> 16 \<le> n \<and> n < 24 \<or> 24 \<le> n" by auto
  then show "bit ?l n = bit b n" unfolding m using n by (elim disjE) (auto simp: bit_simps)
qed

text \<open>The four segments are flat and cover the whole address space, two of them at each privilege
  level, in the order of the selectors; the last descriptor is the task state segment, with room for
  exactly its fields.\<close>

lemma gdt_init_spec:
  "\<exists>g. gdt_init b = Some g \<and> map seg_base g = [0, 0, 0, 0, 0, b] \<and>
    map seg_limit g = [0, 0xffffffff, 0xffffffff, 0xffffffff, 0xffffffff, TSS_SIZE - 1] \<and>
    map dpl g = [0, 0, 0, 3, 3, 3] \<and> map present g = [0, 1, 1, 1, 1, 1]"
proof -
  have 1: "drop_bit 16 (103 :: u32) = 0" "SELECTOR_INDEX TSS0_SELECTOR = 5" by (simp_all add: SELECTOR_INDEX_def)
  have 2: "push_bit 12 ((ucast (- 1 :: 16 word) :: u32) OR push_bit 16 (ucast (- 1 :: 4 word))) OR 0xfff = 0xffffffff"
    by (rule bit_word_eqI) code_simp
  show ?thesis using split_base [of b] 1 2
    by (simp add: gdt_init_def kassert_def GDT_def null_segment_def flat_segment_def seg_base_def seg_limit_def Let_def)
qed

end
