(* ===== verification/Interrupt.thy ===== *)
theory Interrupt
  imports Descriptors
begin

section \<open>Interrupt vectors and dispatch (\<^verbatim>\<open>x86/interrupt.c\<close>)\<close>

text \<open>
  The state of the component is the descriptor table, the table of handlers, given by the
  addresses of their functions, the lists of linked handlers of the shared vectors, and the
  writes to input-output ports in their order. What the function at an address does is a
  parameter: \<open>code\<close> for a handler of a vector and \<open>lcode\<close> for a linked handler. The
  addresses of the assembly entry points \<^verbatim>\<open>int0\<close> to \<^verbatim>\<open>int254\<close> are a parameter too.
\<close>

abbreviation (input) IDT_SIZE :: nat where "IDT_SIZE \<equiv> 256"
abbreviation (input) GATE_SIZE_32 :: "5 word" where "GATE_SIZE_32 \<equiv> 0x0E"
abbreviation (input) PIC_MASTER_COMMAND_PORT :: "16 word" where "PIC_MASTER_COMMAND_PORT \<equiv> 0x20"
abbreviation (input) PIC_MASTER_DATA_PORT :: "16 word" where "PIC_MASTER_DATA_PORT \<equiv> 0x21"
abbreviation (input) PIC_SLAVE_COMMAND_PORT :: "16 word" where "PIC_SLAVE_COMMAND_PORT \<equiv> 0xa0"
abbreviation (input) PIC_SLAVE_DATA_PORT :: "16 word" where "PIC_SLAVE_DATA_PORT \<equiv> 0xa1"

record interrupt_gate_entry =
  offset_low :: "16 word"
  selector :: "16 word"
  reserved0 :: "8 word"
  gate_size :: "5 word"
  gate_DPL :: "2 word"
  gate_present :: "1 word"
  offset_high :: "16 word"

record intr =
  IDT :: "interrupt_gate_entry list"
  IDT_base :: addr
  idtr :: "16 word \<times> u32"
  handlers :: "u32 list"
  component_handlers :: addr
  ih_cells :: lheap
  linked_handler :: "addr \<Rightarrow> u32 \<times> u32"
  compound_entry :: u32
  port_log :: "(16 word \<times> u8) list"

definition component_handler_head :: "intr \<Rightarrow> nat \<Rightarrow> addr" where
  "component_handler_head i v = component_handlers i + 8 * of_nat v"

definition outb :: "16 word \<Rightarrow> u8 \<Rightarrow> intr \<Rightarrow> intr" where
  "outb port byte i = i\<lparr>port_log := port_log i @ [(port, byte)]\<rparr>"

subsection \<open>Registration\<close>

definition register_interrupt_handler :: "int \<Rightarrow> u32 \<Rightarrow> intr \<Rightarrow> intr option" where
  "register_interrupt_handler vector_number handler i = do {
     kassert (vector_number < int IDT_SIZE \<and> vector_number \<ge> 0);
     kassert (handlers i ! nat vector_number = 0);
     Some (i\<lparr>handlers := (handlers i)[nat vector_number := handler]\<rparr>) }"

definition register_linked_interrupt_handler :: "int \<Rightarrow> addr \<Rightarrow> intr \<Rightarrow> intr option" where
  "register_linked_interrupt_handler vector_number lhandler i = do {
     kassert (vector_number < int IDT_SIZE \<and> vector_number \<ge> 0);
     kassert (handlers i ! nat vector_number = compound_entry i);
     h \<leftarrow> list_append (ih_cells i) (component_handler_head i (nat vector_number)) lhandler;
     Some (i\<lparr>ih_cells := h\<rparr>) }"

definition setup_compound_interrupt_handler :: "int \<Rightarrow> intr \<Rightarrow> intr option" where
  "setup_compound_interrupt_handler vector_number i = do {
     kassert (vector_number < int IDT_SIZE \<and> vector_number \<ge> 0);
     kassert (handlers i ! nat vector_number = 0 \<or> handlers i ! nat vector_number = compound_entry i);
     if handlers i ! nat vector_number = 0 then do {
       i \<leftarrow> register_interrupt_handler vector_number (compound_entry i) i;
       Some (i\<lparr>ih_cells := list_init (ih_cells i) (component_handler_head i (nat vector_number))\<rparr>) }
     else Some i }"

subsection \<open>The descriptor table\<close>

definition zero_gate :: interrupt_gate_entry where
  "zero_gate = \<lparr>offset_low = 0, selector = 0, reserved0 = 0, gate_size = 0, gate_DPL = 0, gate_present = 0, offset_high = 0\<rparr>"

definition set_interrupt_gate :: "nat \<Rightarrow> u32 \<Rightarrow> intr \<Rightarrow> intr" where
  "set_interrupt_gate vector_number e i = i\<lparr>IDT := (IDT i)[vector_number :=
     \<lparr>offset_low = ucast (e AND 0xffff), selector = ucast KERNEL_CODE_SELECTOR, reserved0 = 0, gate_size = GATE_SIZE_32,
      gate_DPL = 0, gate_present = 1, offset_high = ucast (drop_bit 16 e AND 0xffff)\<rparr>]\<rparr>"

definition set_dpl3_interrupt_gate :: "nat \<Rightarrow> u32 \<Rightarrow> intr \<Rightarrow> intr" where
  "set_dpl3_interrupt_gate vector_number e i = i\<lparr>IDT := (IDT i)[vector_number :=
     \<lparr>offset_low = ucast (e AND 0xffff), selector = ucast KERNEL_CODE_SELECTOR, reserved0 = 0, gate_size = GATE_SIZE_32,
      gate_DPL = 3, gate_present = 1, offset_high = ucast (drop_bit 16 e AND 0xffff)\<rparr>]\<rparr>"

text \<open>The calls that fill the table, one by one as the source lists them: the function that is
  called, the vector, and the number of the entry point that is passed.\<close>

definition gate_calls_0 :: "((nat \<Rightarrow> u32 \<Rightarrow> intr \<Rightarrow> intr) \<times> nat \<times> nat) list" where
  "gate_calls_0 =
    [(set_interrupt_gate, 0, 0), (set_interrupt_gate, 1, 1), (set_interrupt_gate, 2, 2), (set_interrupt_gate, 3, 3), (set_interrupt_gate, 4, 4),
     (set_interrupt_gate, 5, 5), (set_interrupt_gate, 6, 6), (set_interrupt_gate, 7, 7), (set_interrupt_gate, 8, 8), (set_interrupt_gate, 9, 9),
     (set_interrupt_gate, 10, 10), (set_interrupt_gate, 11, 11), (set_interrupt_gate, 12, 12), (set_interrupt_gate, 13, 13), (set_interrupt_gate, 14, 14),
     (set_interrupt_gate, 15, 15), (set_interrupt_gate, 16, 16), (set_interrupt_gate, 17, 17), (set_interrupt_gate, 18, 18), (set_interrupt_gate, 19, 19),
     (set_interrupt_gate, 20, 20), (set_interrupt_gate, 21, 21), (set_interrupt_gate, 22, 22), (set_interrupt_gate, 23, 23), (set_interrupt_gate, 24, 24),
     (set_interrupt_gate, 25, 25), (set_interrupt_gate, 26, 26), (set_interrupt_gate, 27, 27), (set_interrupt_gate, 28, 28), (set_interrupt_gate, 29, 29),
     (set_interrupt_gate, 30, 30), (set_interrupt_gate, 31, 31), (set_interrupt_gate, 32, 32), (set_interrupt_gate, 33, 33), (set_interrupt_gate, 34, 34),
     (set_interrupt_gate, 35, 35), (set_interrupt_gate, 36, 36), (set_interrupt_gate, 37, 37), (set_interrupt_gate, 38, 38), (set_interrupt_gate, 39, 39),
     (set_interrupt_gate, 40, 40), (set_interrupt_gate, 41, 41), (set_interrupt_gate, 42, 42), (set_interrupt_gate, 43, 43), (set_interrupt_gate, 44, 44),
     (set_interrupt_gate, 45, 45), (set_interrupt_gate, 46, 46), (set_interrupt_gate, 47, 47), (set_interrupt_gate, 48, 48), (set_interrupt_gate, 49, 49),
     (set_interrupt_gate, 50, 50), (set_interrupt_gate, 51, 51), (set_interrupt_gate, 52, 52), (set_interrupt_gate, 53, 53), (set_interrupt_gate, 54, 54),
     (set_interrupt_gate, 55, 55), (set_interrupt_gate, 56, 56), (set_interrupt_gate, 57, 57), (set_interrupt_gate, 58, 58), (set_interrupt_gate, 59, 59),
     (set_interrupt_gate, 60, 60), (set_interrupt_gate, 61, 61), (set_interrupt_gate, 62, 62), (set_interrupt_gate, 63, 63), (set_interrupt_gate, 64, 64),
     (set_interrupt_gate, 65, 65), (set_interrupt_gate, 66, 66), (set_interrupt_gate, 67, 67), (set_interrupt_gate, 68, 68), (set_interrupt_gate, 69, 69),
     (set_interrupt_gate, 70, 70), (set_interrupt_gate, 71, 71), (set_interrupt_gate, 72, 72), (set_interrupt_gate, 73, 73), (set_interrupt_gate, 74, 74),
     (set_interrupt_gate, 75, 75), (set_interrupt_gate, 76, 76), (set_interrupt_gate, 77, 77), (set_interrupt_gate, 78, 78), (set_interrupt_gate, 79, 79),
     (set_interrupt_gate, 80, 80), (set_interrupt_gate, 81, 81), (set_interrupt_gate, 82, 82), (set_interrupt_gate, 83, 83), (set_interrupt_gate, 84, 84),
     (set_interrupt_gate, 85, 85), (set_interrupt_gate, 86, 86), (set_interrupt_gate, 87, 87), (set_interrupt_gate, 88, 88), (set_interrupt_gate, 89, 89),
     (set_interrupt_gate, 90, 90), (set_interrupt_gate, 91, 91), (set_interrupt_gate, 92, 92), (set_interrupt_gate, 93, 93), (set_interrupt_gate, 94, 94),
     (set_interrupt_gate, 95, 95), (set_interrupt_gate, 96, 96), (set_interrupt_gate, 97, 97), (set_interrupt_gate, 98, 98), (set_interrupt_gate, 99, 99),
     (set_interrupt_gate, 100, 100), (set_interrupt_gate, 101, 101), (set_interrupt_gate, 102, 102), (set_interrupt_gate, 103, 103), (set_interrupt_gate, 104, 104),
     (set_interrupt_gate, 105, 105), (set_interrupt_gate, 106, 106), (set_interrupt_gate, 107, 107), (set_interrupt_gate, 108, 108), (set_interrupt_gate, 109, 109),
     (set_interrupt_gate, 110, 110), (set_interrupt_gate, 111, 111), (set_interrupt_gate, 112, 112), (set_interrupt_gate, 113, 113), (set_interrupt_gate, 114, 114),
     (set_interrupt_gate, 115, 115), (set_interrupt_gate, 116, 116), (set_interrupt_gate, 117, 117), (set_interrupt_gate, 118, 118), (set_interrupt_gate, 119, 119),
     (set_interrupt_gate, 120, 120), (set_interrupt_gate, 121, 121), (set_interrupt_gate, 122, 122), (set_interrupt_gate, 123, 123), (set_interrupt_gate, 124, 124),
     (set_interrupt_gate, 125, 125), (set_interrupt_gate, 126, 126), (set_interrupt_gate, 127, 127)]"

definition gate_calls_128 :: "((nat \<Rightarrow> u32 \<Rightarrow> intr \<Rightarrow> intr) \<times> nat \<times> nat) list" where
  "gate_calls_128 =
    [(set_interrupt_gate, 128, 128), (set_interrupt_gate, 129, 129), (set_interrupt_gate, 130, 130), (set_interrupt_gate, 131, 131), (set_interrupt_gate, 132, 132),
     (set_interrupt_gate, 133, 133), (set_interrupt_gate, 134, 134), (set_dpl3_interrupt_gate, 135, 135), (set_interrupt_gate, 136, 136), (set_interrupt_gate, 137, 137),
     (set_interrupt_gate, 138, 138), (set_interrupt_gate, 139, 139), (set_interrupt_gate, 140, 140), (set_interrupt_gate, 141, 141), (set_interrupt_gate, 142, 142),
     (set_interrupt_gate, 143, 143), (set_interrupt_gate, 144, 144), (set_interrupt_gate, 145, 145), (set_interrupt_gate, 146, 146), (set_interrupt_gate, 147, 147),
     (set_interrupt_gate, 148, 148), (set_interrupt_gate, 149, 149), (set_interrupt_gate, 150, 150), (set_interrupt_gate, 151, 151), (set_interrupt_gate, 152, 152),
     (set_interrupt_gate, 153, 153), (set_interrupt_gate, 154, 154), (set_interrupt_gate, 155, 155), (set_interrupt_gate, 156, 156), (set_interrupt_gate, 157, 157),
     (set_interrupt_gate, 158, 158), (set_interrupt_gate, 159, 159), (set_interrupt_gate, 160, 160), (set_interrupt_gate, 161, 161), (set_interrupt_gate, 162, 162),
     (set_interrupt_gate, 163, 163), (set_interrupt_gate, 164, 164), (set_interrupt_gate, 165, 165), (set_interrupt_gate, 166, 166), (set_interrupt_gate, 167, 167),
     (set_interrupt_gate, 168, 168), (set_interrupt_gate, 169, 169), (set_interrupt_gate, 170, 170), (set_interrupt_gate, 171, 171), (set_interrupt_gate, 172, 172),
     (set_interrupt_gate, 173, 173), (set_interrupt_gate, 174, 174), (set_interrupt_gate, 175, 175), (set_interrupt_gate, 176, 176), (set_interrupt_gate, 177, 177),
     (set_interrupt_gate, 178, 178), (set_interrupt_gate, 179, 179), (set_interrupt_gate, 180, 180), (set_interrupt_gate, 181, 181), (set_interrupt_gate, 182, 182),
     (set_interrupt_gate, 183, 183), (set_interrupt_gate, 184, 184), (set_interrupt_gate, 185, 185), (set_interrupt_gate, 186, 186), (set_interrupt_gate, 187, 187),
     (set_interrupt_gate, 188, 188), (set_interrupt_gate, 189, 189), (set_interrupt_gate, 190, 190), (set_interrupt_gate, 191, 191), (set_interrupt_gate, 192, 192),
     (set_interrupt_gate, 193, 193), (set_interrupt_gate, 194, 194), (set_interrupt_gate, 195, 195), (set_interrupt_gate, 196, 196), (set_interrupt_gate, 197, 197),
     (set_interrupt_gate, 198, 198), (set_interrupt_gate, 199, 199), (set_interrupt_gate, 200, 200), (set_interrupt_gate, 201, 201), (set_interrupt_gate, 202, 202),
     (set_interrupt_gate, 203, 203), (set_interrupt_gate, 204, 204), (set_interrupt_gate, 205, 205), (set_interrupt_gate, 206, 206), (set_interrupt_gate, 207, 207),
     (set_interrupt_gate, 208, 208), (set_interrupt_gate, 209, 209), (set_interrupt_gate, 210, 210), (set_interrupt_gate, 211, 211), (set_interrupt_gate, 212, 212),
     (set_interrupt_gate, 213, 213), (set_interrupt_gate, 214, 214), (set_interrupt_gate, 215, 215), (set_interrupt_gate, 216, 216), (set_interrupt_gate, 217, 217),
     (set_interrupt_gate, 218, 218), (set_interrupt_gate, 219, 219), (set_interrupt_gate, 220, 220), (set_interrupt_gate, 221, 221), (set_interrupt_gate, 222, 222),
     (set_interrupt_gate, 223, 223), (set_interrupt_gate, 224, 224), (set_interrupt_gate, 225, 225), (set_interrupt_gate, 226, 226), (set_interrupt_gate, 227, 227),
     (set_interrupt_gate, 228, 228), (set_interrupt_gate, 229, 229), (set_interrupt_gate, 230, 230), (set_interrupt_gate, 231, 231), (set_interrupt_gate, 232, 232),
     (set_interrupt_gate, 233, 233), (set_interrupt_gate, 234, 234), (set_interrupt_gate, 235, 235), (set_interrupt_gate, 236, 236), (set_interrupt_gate, 237, 237),
     (set_interrupt_gate, 238, 238), (set_interrupt_gate, 239, 239), (set_interrupt_gate, 240, 240), (set_interrupt_gate, 241, 241), (set_interrupt_gate, 242, 242),
     (set_interrupt_gate, 243, 243), (set_interrupt_gate, 244, 244), (set_interrupt_gate, 245, 245), (set_interrupt_gate, 246, 246), (set_interrupt_gate, 247, 247),
     (set_interrupt_gate, 248, 248), (set_interrupt_gate, 249, 249), (set_interrupt_gate, 250, 250), (set_interrupt_gate, 251, 251), (set_interrupt_gate, 252, 252),
     (set_interrupt_gate, 253, 253), (set_interrupt_gate, 254, 254)]"

definition set_gates :: "(nat \<Rightarrow> u32) \<Rightarrow> intr \<Rightarrow> intr" where
  "set_gates stub i = fold (\<lambda>(set_gate, v, e). set_gate v (stub e)) (gate_calls_0 @ gate_calls_128) i"

definition remap_PIC :: "intr \<Rightarrow> intr" where
  "remap_PIC i = fold (\<lambda>(port, byte). outb port byte)
    [(PIC_MASTER_DATA_PORT, 0xff), (PIC_SLAVE_DATA_PORT, 0xff),
     (PIC_MASTER_COMMAND_PORT, 0x11), (PIC_SLAVE_COMMAND_PORT, 0x11),
     (PIC_MASTER_DATA_PORT, 0x20), (PIC_SLAVE_DATA_PORT, 0x28),
     (PIC_MASTER_DATA_PORT, 0x04), (PIC_SLAVE_DATA_PORT, 0x02),
     (PIC_MASTER_DATA_PORT, 0x01), (PIC_SLAVE_DATA_PORT, 0x01),
     (PIC_MASTER_DATA_PORT, 0x00), (PIC_SLAVE_DATA_PORT, 0x00)] i"

definition compound_vectors :: "u8 list" where
  "compound_vectors = [0xa, 0xb]"

definition idt_init :: "(nat \<Rightarrow> u32) \<Rightarrow> intr \<Rightarrow> intr option" where
  "idt_init stub i = do {
     let idtp = (of_nat (8 * IDT_SIZE) - 1, IDT_base i);
     let i = i\<lparr>IDT := replicate IDT_SIZE zero_gate, handlers := replicate IDT_SIZE 0,
        ih_cells := fold (\<lambda>v h. h(component_handler_head i v := \<lparr>le_prev = NULL, le_next = NULL\<rparr>)) [0..<IDT_SIZE] (ih_cells i)\<rparr>;
     i \<leftarrow> fold (\<lambda>v r. do { i \<leftarrow> r; setup_compound_interrupt_handler (uint v + 0x20) i }) compound_vectors (Some i);
     let i = set_gates stub i;
     let i = remap_PIC i;
     Some (i\<lparr>idtr := idtp\<rparr>) }"

subsection \<open>Dispatch\<close>

partial_function (option) compound_loop ::
    "(u32 \<Rightarrow> addr \<Rightarrow> u32 \<Rightarrow> kernel \<Rightarrow> kernel option) \<Rightarrow> intr \<Rightarrow> addr \<Rightarrow> addr \<Rightarrow> kernel \<Rightarrow> kernel option" where
  "compound_loop lcode i c l k =
     (if l = NULL then Some k
      else do {
        let next = le_next (ih_cells i l);
        kassert (fst (linked_handler i l) \<noteq> 0);
        k \<leftarrow> lcode (fst (linked_handler i l)) c (snd (linked_handler i l)) k;
        compound_loop lcode i c next k })"

definition compound_interrupt_handler ::
    "(u32 \<Rightarrow> addr \<Rightarrow> u32 \<Rightarrow> kernel \<Rightarrow> kernel option) \<Rightarrow> intr \<Rightarrow> addr \<Rightarrow> kernel \<Rightarrow> (u32 \<times> kernel) option" where
  "compound_interrupt_handler lcode i c k = do {
     k \<leftarrow> compound_loop lcode i c (le_next (ih_cells i (component_handler_head i (unat (vector (cpus k c)))))) k;
     Some (c, k) }"

definition call_handler :: "(u32 \<Rightarrow> addr \<Rightarrow> kernel \<Rightarrow> (u32 \<times> kernel) control option) \<Rightarrow>
    (u32 \<Rightarrow> addr \<Rightarrow> u32 \<Rightarrow> kernel \<Rightarrow> kernel option) \<Rightarrow> intr \<Rightarrow> u32 \<Rightarrow> addr \<Rightarrow> kernel \<Rightarrow> (u32 \<times> kernel) control option" where
  "call_handler code lcode i h c k =
     (if h = compound_entry i then map_option Return (compound_interrupt_handler lcode i c k) else code h c k)"

definition interrupt_handler :: "(u32 \<Rightarrow> addr \<Rightarrow> kernel \<Rightarrow> (u32 \<times> kernel) control option) \<Rightarrow>
    (u32 \<Rightarrow> addr \<Rightarrow> u32 \<Rightarrow> kernel \<Rightarrow> kernel option) \<Rightarrow> intr \<Rightarrow> addr \<Rightarrow> kernel \<Rightarrow> (u32 \<times> kernel \<times> intr) control option" where
  "interrupt_handler code lcode i c k = do {
     let v = sint (vector (cpus k c));
     kassert (v \<ge> 0 \<and> v < int IDT_SIZE);
     let k = task_pre_interrupt_handler c k;
     let h = handlers i ! nat v;
     r \<leftarrow> (if h = 0 then Some (Return (c, k)) else call_handler code lcode i h c k);
     case r of Yield k \<Rightarrow> Some (Yield k)
     | Return (sp, k) \<Rightarrow> do {
         r \<leftarrow> task_process_signal sp k;
         case r of Yield k \<Rightarrow> Some (Yield k)
         | Return (sp, k) \<Rightarrow> do {
             k \<leftarrow> task_post_interrupt_handler sp k;
             let i = (if v \<ge> 40 then outb PIC_SLAVE_COMMAND_PORT 0x20 i else i);
             Some (Return (sp, k, outb PIC_MASTER_COMMAND_PORT 0x20 i)) } } }"

text \<open>An interrupt that arrives at user level. The processor takes the kernel stack from the task state
  segment; it and the entry point push the eighteen words of a frame there, and the frame is passed to
  \<^verbatim>\<open>interrupt_handler\<close>. The registers are then restored from the frame that it returns. The entry point
  pops the saved \<open>fs\<close> and then the saved \<open>es\<close> into \<open>fs\<close>, and leaves \<open>es\<close> as it is.\<close>

definition user_interrupt :: "(u32 \<Rightarrow> addr \<Rightarrow> kernel \<Rightarrow> (u32 \<times> kernel) control option) \<Rightarrow>
    (u32 \<Rightarrow> addr \<Rightarrow> u32 \<Rightarrow> kernel \<Rightarrow> kernel option) \<Rightarrow> intr \<Rightarrow> x86_cpustate \<Rightarrow> kernel \<Rightarrow> (x86_cpustate \<times> kernel \<times> intr) control option" where
  "user_interrupt code lcode i regs k = do {
     let c = esp0 k - 72;
     r \<leftarrow> interrupt_handler code lcode i c (k\<lparr>cpus := (cpus k)(c := regs)\<rparr>);
     Some (case r of Yield k \<Rightarrow> Yield k
       | Return (sp, k, i) \<Rightarrow> Return ((cpus k sp)\<lparr>fs := es (cpus k sp), es := es regs\<rparr>, k, i)) }"

subsection \<open>The table that \<open>idt_init\<close> builds\<close>

definition gate_offset :: "interrupt_gate_entry \<Rightarrow> u32" where
  "gate_offset g = ucast (offset_low g) OR push_bit 16 (ucast (offset_high g))"

lemma split_offset:
  fixes b :: u32
  shows "ucast (ucast (b AND 0xffff) :: 16 word) OR push_bit 16 (ucast (ucast (drop_bit 16 b AND 0xffff) :: 16 word)) = b" (is "?l = b")
proof (rule bit_word_eqI)
  fix n assume n: "n < LENGTH(32)"
  have m: "(0xffff :: u32) = mask 16" by (simp add: mask_eq_exp_minus_1)
  have "n < 16 \<or> 16 \<le> n" by auto
  then show "bit ?l n = bit b n" unfolding m using n by (elim disjE) (auto simp: bit_simps)
qed

definition stub_gate :: "(nat \<Rightarrow> u32) \<Rightarrow> nat \<Rightarrow> interrupt_gate_entry" where
  "stub_gate stub v = \<lparr>offset_low = ucast (stub v AND 0xffff), selector = 8, reserved0 = 0, gate_size = GATE_SIZE_32,
     gate_DPL = (if v = 135 then 3 else 0), gate_present = 1, offset_high = ucast (drop_bit 16 (stub v) AND 0xffff)\<rparr>"

lemma stub_gate_offset: "gate_offset (stub_gate stub v) = stub v"
  using split_offset [of "stub v"] by (simp add: gate_offset_def stub_gate_def)

lemma gate_fields: "gate_present (stub_gate stub v) = 1" "gate_DPL (stub_gate stub v) = (if v = 135 then 3 else 0)"
  "selector (stub_gate stub v) = 8" "gate_present zero_gate = 0" "gate_DPL zero_gate = 0" "selector zero_gate = 0"
  "gate_offset zero_gate = 0"
  "reserved0 (stub_gate stub v) = 0" "gate_size (stub_gate stub v) = GATE_SIZE_32" "reserved0 zero_gate = 0" "gate_size zero_gate = 0"
  by (simp_all add: stub_gate_def zero_gate_def gate_offset_def)

lemma gate_calls_0_eq: "gate_calls_0 = map (\<lambda>v. (set_interrupt_gate, v, v)) [0..<128]"
proof -
  have "[0..<128] = 0 # 1 # [2..<128]" by (simp add: upt_conv_Cons numeral_2_eq_2 del: upt_rec_numeral)
  then show ?thesis by (simp add: gate_calls_0_def)
qed

lemma gate_calls_128_eq:
  "gate_calls_128 = map (\<lambda>v. (if v = 135 then set_dpl3_interrupt_gate else set_interrupt_gate, v, v)) [128..<255]"
  by (simp add: gate_calls_128_def)

lemma gate_calls_eq: "gate_calls_0 @ gate_calls_128 =
    map (\<lambda>v. (if v = 135 then set_dpl3_interrupt_gate else set_interrupt_gate, v, v)) [0..<255]"
proof -
  have "gate_calls_0 = map (\<lambda>v. (if v = 135 then set_dpl3_interrupt_gate else set_interrupt_gate, v, v)) [0..<128]"
    unfolding gate_calls_0_eq by (rule map_cong) auto
  then show ?thesis
    unfolding gate_calls_128_eq using upt_add_eq_append [of 0 128 127] by (simp del: upt_rec_numeral)
qed

lemma set_gates_fields: "set_gates stub i = i\<lparr>IDT := fold (\<lambda>v t. t[v := stub_gate stub v]) [0..<255] (IDT i)\<rparr>"
proof -
  have "fold (\<lambda>v. (if v = 135 then set_dpl3_interrupt_gate else set_interrupt_gate) v (stub v)) [0..<n] i
      = i\<lparr>IDT := fold (\<lambda>v t. t[v := stub_gate stub v]) [0..<n] (IDT i)\<rparr>" for n
    by (induction n) (simp_all add: set_dpl3_interrupt_gate_def set_interrupt_gate_def stub_gate_def)
  then show ?thesis
    unfolding set_gates_def gate_calls_eq by (simp add: fold_map o_def del: upt_rec_numeral)
qed

lemma fold_updates:
  "n \<le> length t \<Longrightarrow> fold (\<lambda>v t. t[v := f v]) [0..<n] t = map f [0..<n] @ drop n t"
proof (induction n)
  case (Suc n)
  then have "drop n t = t ! n # drop (Suc n) t" by (simp add: Cons_nth_drop_Suc)
  then show ?case using Suc by (simp add: list_update_append)
qed simp

lemma remap_PIC_fields: "remap_PIC i = i\<lparr>port_log := port_log i @
    [(0x21, 0xff), (0xa1, 0xff), (0x20, 0x11), (0xa0, 0x11), (0x21, 0x20), (0xa1, 0x28), (0x21, 0x04), (0xa1, 0x02),
     (0x21, 0x01), (0xa1, 0x01), (0x21, 0x00), (0xa1, 0x00)]\<rparr>"
  by (simp add: remap_PIC_def outb_def)

lemma compound_vectors_setup:
  assumes "length (handlers i) = 256" "handlers i ! 0x2a = 0" "handlers i ! 0x2b = 0"
  shows "\<exists>h. fold (\<lambda>v r. do { i \<leftarrow> r; setup_compound_interrupt_handler (uint v + 0x20) i }) compound_vectors (Some i) =
    Some (i\<lparr>handlers := (handlers i)[0x2a := compound_entry i, 0x2b := compound_entry i], ih_cells := h\<rparr>) \<and>
    list_empty h (component_handler_head i 0x2a) \<and> list_empty h (component_handler_head i 0x2b)"
  using assms
  by (simp add: compound_vectors_def setup_compound_interrupt_handler_def register_interrupt_handler_def
      kassert_def component_handler_head_def list_init_def list_empty_def)
    (intro exI conjI, rule refl, simp_all add: set_next_def set_prev_def)

text \<open>C29. After \<open>idt_init\<close> every vector from 0 to 254 leads through a present 32-bit interrupt gate in
  the kernel code segment to its own entry point: none of the 255 calls that fill the table names
  a wrong vector or entry point. Software at user level can enter only through vector 135, the
  system call; vector 255 has no gate. The processor is given the address of the table and its size
  less one. No vector has a handler but the two shared ones, whose lists are empty. The writes to
  the interrupt controllers are, in this order: mask all, start the initialisation of both by a
  write to their command ports, base vectors 32 and 40, the wiring of the two, the mode, and unmask
  all.\<close>
theorem idt_init_correct:
  "\<exists>i'. idt_init stub i = Some i' \<and>
    map gate_offset (IDT i') = map stub [0..<255] @ [0] \<and>
    map gate_present (IDT i') = replicate 255 1 @ [0] \<and>
    map gate_DPL (IDT i') = (replicate 256 0)[135 := 3] \<and>
    map selector (IDT i') = replicate 255 8 @ [0] \<and>
    map gate_size (IDT i') = replicate 255 GATE_SIZE_32 @ [0] \<and>
    map reserved0 (IDT i') = replicate 256 0 \<and>
    idtr i' = (2047, IDT_base i) \<and>
    handlers i' = (replicate 256 0)[0x2a := compound_entry i, 0x2b := compound_entry i] \<and>
    list_empty (ih_cells i') (component_handler_head i' 0x2a) \<and> list_empty (ih_cells i') (component_handler_head i' 0x2b) \<and>
    port_log i' = port_log i @
      [(0x21, 0xff), (0xa1, 0xff), (0x20, 0x11), (0xa0, 0x11), (0x21, 0x20), (0xa1, 0x28), (0x21, 0x04), (0xa1, 0x02),
       (0x21, 0x01), (0xa1, 0x01), (0x21, 0), (0xa1, 0)]"
proof -
  let ?i0 = "i\<lparr>IDT := replicate IDT_SIZE zero_gate, handlers := replicate IDT_SIZE 0,
    ih_cells := fold (\<lambda>v h. h(component_handler_head i v := \<lparr>le_prev = NULL, le_next = NULL\<rparr>)) [0..<IDT_SIZE] (ih_cells i)\<rparr>"
  obtain h where h: "fold (\<lambda>v r. do { i \<leftarrow> r; setup_compound_interrupt_handler (uint v + 0x20) i }) compound_vectors (Some ?i0) =
      Some (?i0\<lparr>handlers := (replicate 256 0)[0x2a := compound_entry i, 0x2b := compound_entry i], ih_cells := h\<rparr>)"
    and e: "list_empty h (component_handler_head i 0x2a)" "list_empty h (component_handler_head i 0x2b)"
    using compound_vectors_setup [of ?i0] by (auto simp: component_handler_head_def)
  have g: "fold (\<lambda>v t. t[v := stub_gate stub v]) [0..<255] (replicate IDT_SIZE zero_gate) = map (stub_gate stub) [0..<255] @ [zero_gate]"
    by (subst fold_updates) (simp_all del: upt_rec_numeral add: drop_replicate)
  have d: "map (\<lambda>v. if v = 135 then 3 else 0) [0..<255] @ [0] = (replicate 256 0)[135 := 3 :: 2 word]"
    by (rule nth_equalityI) (auto simp: nth_append nth_list_update simp del: upt_rec_numeral)
  have r: "map (\<lambda>v. c) [0..<255] = replicate 255 c" for c :: "'z" by (simp add: map_replicate_const del: upt_rec_numeral)
  have z: "replicate 255 0 @ [0] = (replicate 256 0 :: 8 word list)" by (rule nth_equalityI) (auto simp: nth_append)
  show ?thesis
    unfolding idt_init_def Let_def h set_gates_fields remap_PIC_fields
    using e d z by (simp add: g stub_gate_offset gate_fields r o_def component_handler_head_def del: upt_rec_numeral)
qed

end
