(* ===== verification/Task_Paging.thy ===== *)
theory Task_Paging
  imports Userspace_Vma
begin

section \<open>Address spaces of tasks (\<^verbatim>\<open>kernel/task_paging.c\<close>, \<^verbatim>\<open>memory/paging_fault.c\<close>)\<close>

text \<open>
  A task has a page directory of its own, of which the entries from \<^verbatim>\<open>USERSPACE_BOTTOM\<close> on
  are used. When it is about to run, they are copied into the kernel's directory, which is the
  one the processor walks. Functions that only read the task take it as a value.
\<close>

subsection \<open>The code\<close>

partial_function (option) vma_walk :: "lheap \<Rightarrow> addr \<Rightarrow> addr \<Rightarrow> bool option" where
  "vma_walk h vma cur =
     (if cur = NULL then Some False
      else if cur = vma then Some True
      else vma_walk h vma (le_next (h cur)))"

definition vma_in_task :: "kernel \<Rightarrow> addr \<Rightarrow> addr \<Rightarrow> bool option" where
  "vma_in_task k task vma = vma_walk (lists k) vma (le_next (lists k (vma_list task)))"

definition userspace_map_page :: "paging \<Rightarrow> task \<Rightarrow> u32 \<Rightarrow> u32 \<Rightarrow> u32 \<Rightarrow> u32 \<Rightarrow> u32 \<Rightarrow> (int \<times> paging) option" where
  "userspace_map_page s task virt_addr phy_addr write_permission page_writethrough page_cachedisable = do {
     kassert (page_directory task \<noteq> NULL);
     if virt_addr < USERSPACE_BOTTOM then Some (- ERR_INVALID_ARG, s)
     else do {
       let pde = page_directory task + 4 * pd_index virt_addr;
       let (exhausted, s) = (if \<not> entry_present (pmem s pde)
         then (let (page_table, s) = new_page_table s pde PAGE_PERMISSION_USER in (page_table = 0, s))
         else (False, s));
       if exhausted then Some (- ERR_OUT_OF_MEMORY, s)
       else do {
         kassert (entry_present (pmem s pde));
         let pte = entry_frame (pmem s pde) + 4 * pt_index virt_addr;
         let s = s\<lparr>pmem := (pmem s)(pte := create_pte32 write_permission PAGE_PERMISSION_USER
                   page_writethrough page_cachedisable phy_addr)\<rparr>;
         kassert (entry_present (pmem s pte));
         kassert (entry_frame (pmem s pte) = phy_addr AND NOT PAGE_MASK);
         Some (OK, s) } } }"

text \<open>Mapping a whole area; the flag tells whether a page has been mapped already.\<close>

partial_function (option) map_area_loop ::
    "layout \<Rightarrow> task \<Rightarrow> vm_area \<Rightarrow> u64 \<Rightarrow> bool \<Rightarrow> paging \<Rightarrow> (int \<times> paging) option" where
  "map_area_loop l task vma a partially_mapped s =
     (if a < va_virt_addr vma + va_length vma then
        (case (if \<not> va_exact vma then get_page l s else Some (ucast (va_phy_addr vma + a - va_virt_addr vma), s)) of
           None \<Rightarrow> None
         | Some (p_addr, s) \<Rightarrow>
             if \<not> va_exact vma \<and> p_addr = 0
             then Some (if partially_mapped then - ERR_PARTIAL else - ERR_OUT_OF_MEMORY, s)
             else (case userspace_map_page s task (ucast a) p_addr (va_write_permission vma)
                        (va_page_writethrough vma) (va_page_cachedisable vma) of
                     None \<Rightarrow> None
                   | Some (rc, s) \<Rightarrow>
                       if rc \<noteq> OK then
                         Some (if partially_mapped then - ERR_PARTIAL else - ERR_OUT_OF_MEMORY,
                               if \<not> va_exact vma then free_page s p_addr else s)
                       else map_area_loop l task vma (a + 4096) True s))
      else Some (OK, s))"

definition userspace_map_vm_area :: "kernel \<Rightarrow> addr \<Rightarrow> addr \<Rightarrow> (int \<times> kernel) option" where
  "userspace_map_vm_area k task vma = do {
     found \<leftarrow> vma_walk (lists k) vma (le_next (lists k (vma_list task)));
     if \<not> found then Some (- ERR_INVALID_ARG, k)
     else do {
       (rc, s) \<leftarrow> map_area_loop (k_layout k) (tasks k task) (vmas k vma) (va_virt_addr (vmas k vma)) False (pg k);
       Some (rc, k\<lparr>pg := s\<rparr>) } }"

definition reclaim_page_table :: "paging \<Rightarrow> task \<Rightarrow> u32 \<Rightarrow> (int \<times> paging) option" where
  "reclaim_page_table s task virt_addr = do {
     kassert (page_directory task \<noteq> NULL);
     let pde = page_directory task + 4 * pd_index virt_addr;
     if \<not> entry_present (pmem s pde) then Some (- ERR_NOT_PRESENT, s)
     else do {
       let page_table_ptr = entry_frame (pmem s pde);
       if list_ex (\<lambda>idx. entry_present (pmem s (page_table_ptr + 4 * of_nat idx))) [0..<1024]
       then Some (- ERR_BUSY, s)
       else (let s = free_base_page s page_table_ptr
             in Some (OK, s\<lparr>pmem := (pmem s)(pde := 0)\<rparr>)) } }"

definition userspace_evict_page :: "kernel \<Rightarrow> addr \<Rightarrow> u32 \<Rightarrow> bool \<Rightarrow> (int \<times> kernel) option" where
  "userspace_evict_page k task virt_addr reclaim = do {
     let dir = page_directory (tasks k task);
     kassert (dir \<noteq> NULL);
     vma \<leftarrow> search_userspace_vma_by_addr (lists k) (vmas k) (vma_list task) virt_addr;
     let s = pg k;
     let pde = pmem s (dir + 4 * pd_index virt_addr);
     let slot = entry_frame pde + 4 * pt_index virt_addr;
     if vma = NULL then Some (- ERR_NOT_PRESENT, k)
     else if \<not> entry_present pde then Some (- ERR_NOT_PRESENT, k)
     else if \<not> entry_present (pmem s slot) then Some (- ERR_NOT_PRESENT, k)
     else do {
       let phy_page = entry_frame (pmem s slot);
       let s = (if \<not> va_exact (vmas k vma) then free_page s phy_page else s);
       let s = s\<lparr>pmem := (pmem s)(slot := 0)\<rparr>;
       s \<leftarrow> (if reclaim then map_option snd (reclaim_page_table s (tasks k task) virt_addr) else Some s);
       Some (OK, k\<lparr>pg := s\<rparr>) } }"

partial_function (option) evict_area_loop :: "addr \<Rightarrow> vm_area \<Rightarrow> u64 \<Rightarrow> kernel \<Rightarrow> kernel option" where
  "evict_area_loop task vma a k =
     (if a < va_virt_addr vma + va_length vma then
        (case userspace_evict_page k task (ucast a)
                (if a + 4096 \<ge> va_virt_addr vma + va_length vma then True
                 else drop_bit 22 (ucast a :: u32) AND 0x3ff \<noteq> drop_bit 22 (PAGE_SIZE + (ucast a :: u32)) AND 0x3ff) of
           None \<Rightarrow> None
         | Some (rc, k) \<Rightarrow> evict_area_loop task vma (a + 4096) k)
      else Some k)"

definition userspace_evict_vma :: "kernel \<Rightarrow> addr \<Rightarrow> addr \<Rightarrow> (int \<times> kernel) option" where
  "userspace_evict_vma k task vma = do {
     present \<leftarrow> vma_in_task k task vma;
     if \<not> present then Some (- ERR_NOT_FOUND, k)
     else if va_kernel_vma (vmas k vma) then Some (- ERR_INVALID_ARG, k)
     else do {
       k \<leftarrow> evict_area_loop task (vmas k vma) (va_virt_addr (vmas k vma)) k;
       Some (OK, k) } }"

definition enable_task_paging :: "paging \<Rightarrow> task \<Rightarrow> paging" where
  "enable_task_paging s task =
     s\<lparr>pmem := fold (\<lambda>idx m. m(kernel_page_directory s + 4 * of_nat idx :=
          (if page_directory task \<noteq> NULL then m (page_directory task + 4 * of_nat idx) else 0)))
        [unat (drop_bit 10 (drop_bit 12 USERSPACE_BOTTOM))..<1024] (pmem s),
       cr3 := kernel_page_directory s\<rparr>"

partial_function (option) remap_area_loop :: "task \<Rightarrow> vm_area \<Rightarrow> u64 \<Rightarrow> paging \<Rightarrow> paging option" where
  "remap_area_loop task vma a s =
     (if a < va_virt_addr vma + va_length vma then
        (let pde = pmem s (page_directory task + 4 * (ucast (drop_bit 22 a) AND 0x3ff));
             slot = entry_frame pde + 4 * (ucast (drop_bit 12 a) AND 0x3ff)
         in if \<not> entry_present pde then None
            else if \<not> entry_present (pmem s slot) then None
            else remap_area_loop task vma (a + 4096)
              (s\<lparr>pmem := (pmem s)(slot := create_pte32 (va_write_permission vma) PAGE_PERMISSION_USER
                 (va_page_writethrough vma) (va_page_cachedisable vma) (entry_frame (pmem s slot)))\<rparr>))
      else Some s)"

definition userspace_remap_vm_area :: "paging \<Rightarrow> task \<Rightarrow> vm_area \<Rightarrow> (int \<times> paging) option" where
  "userspace_remap_vm_area s task vma = do {
     s \<leftarrow> remap_area_loop task vma (va_virt_addr vma) s;
     Some (OK, s) }"

definition handle_userspace_page_fault :: "kernel \<Rightarrow> addr \<Rightarrow> u32 \<Rightarrow> (int \<times> kernel) option" where
  "handle_userspace_page_fault k task linear_addr = do {
     kassert (page_directory (tasks k task) \<noteq> NULL);
     kassert (privilege_level (tasks k task) = DPL_3);
     kassert (linear_addr \<ge> USERSPACE_BOTTOM);
     v \<leftarrow> search_userspace_vma_by_addr (lists k) (vmas k) (vma_list task) linear_addr;
     if v = NULL then Some (- ERR_NOT_FOUND, k)
     else do {
       let vma = vmas k v;
       (paddr, s) \<leftarrow> (if va_exact vma then Some (ucast (va_phy_addr vma + ucast linear_addr - va_virt_addr vma), pg k)
                     else get_page (k_layout k) (pg k));
       if \<not> va_exact vma \<and> paddr = 0 then Some (- ERR_OUT_OF_RESOURCE, k\<lparr>pg := s\<rparr>)
       else do {
         (result, s) \<leftarrow> userspace_map_page s (tasks k task) linear_addr paddr (va_write_permission vma)
            (va_page_writethrough vma) (va_page_cachedisable vma);
         if result \<noteq> OK then Some (result, k\<lparr>pg := (if \<not> va_exact vma then free_page s paddr else s)\<rparr>)
         else Some (OK, k\<lparr>pg := s\<rparr>) } } }"

end
