(* ===== verification/Task_Paging_Correct.thy ===== *)
theory Task_Paging_Correct
  imports Task_Paging
begin

section \<open>Isolation of address spaces\<close>

text \<open>
  The invariant over all page directories: the kernel's and those of the tasks are well formed
  and their pages are pairwise disjoint. Every operation on one task's directory keeps it and
  leaves the translations of the kernel and of the other tasks as they were.
\<close>

definition spaces_ok :: "paging \<Rightarrow> addr set \<Rightarrow> bool" where
  "spaces_ok s D \<longleftrightarrow> kernel_tables_ok s \<and>
     (\<forall>d\<in>D. tables_ok (base_page_taken s) (pmem s) d user_part \<and>
        pt_pages (pmem s) d user_part \<inter> pt_pages (pmem s) (kernel_page_directory s) kernel_part = {}) \<and>
     (\<forall>d\<in>D. \<forall>d'\<in>D. d \<noteq> d' \<longrightarrow> pt_pages (pmem s) d user_part \<inter> pt_pages (pmem s) d' user_part = {})"

text \<open>The translations of the kernel and of all directories except one are the same.\<close>

definition others_same :: "paging \<Rightarrow> paging \<Rightarrow> addr set \<Rightarrow> addr \<Rightarrow> bool" where
  "others_same s s' D d \<longleftrightarrow> kernel_page_directory s' = kernel_page_directory s \<and>
     (\<forall>u<USERSPACE_BOTTOM. pt_lookup (pmem s') (kernel_page_directory s) u = pt_lookup (pmem s) (kernel_page_directory s) u) \<and>
     (\<forall>d'\<in>D. d' \<noteq> d \<longrightarrow> (\<forall>u\<ge>USERSPACE_BOTTOM. pt_lookup (pmem s') d' u = pt_lookup (pmem s) d' u))"

lemma others_same_trans [trans]: "others_same s s1 D d \<Longrightarrow> others_same s1 s2 D d \<Longrightarrow> others_same s s2 D d"
  by (simp add: others_same_def)

lemma others_same_refl [simp]: "others_same s s D d"
  by (simp add: others_same_def)

lemma pd_index_user: "v \<ge> USERSPACE_BOTTOM \<longleftrightarrow> pd_index v \<in> user_part"
proof -
  have "pd_index v \<in> user_part \<longleftrightarrow> pd_index v \<notin> kernel_part"
    using pd_index_less [of v] by (auto simp: user_part_def kernel_part_def)
  then show ?thesis using pd_index_kernel [of v] by auto
qed

lemma spaces_okD:
  assumes "spaces_ok s D"
  shows "kernel_tables_ok s" "\<And>d. d \<in> D \<Longrightarrow> tables_ok (base_page_taken s) (pmem s) d user_part"
    "\<And>d. d \<in> D \<Longrightarrow> pt_pages (pmem s) d user_part \<inter> pt_pages (pmem s) (kernel_page_directory s) kernel_part = {}"
    "\<And>d d'. d \<in> D \<Longrightarrow> d' \<in> D \<Longrightarrow> d \<noteq> d' \<Longrightarrow> pt_pages (pmem s) d user_part \<inter> pt_pages (pmem s) d' user_part = {}"
    "page_aligned (fast_base_page_addr s)" "tables_ok (base_page_taken s) (pmem s) (kernel_page_directory s) kernel_part"
  using assms unfolding spaces_ok_def kernel_tables_ok_def by blast+

lemma tables_ok_taken:
  assumes "tables_ok tk m d I" "\<And>q. q \<in> pt_pages m d I \<Longrightarrow> tk q \<Longrightarrow> tk' q"
  shows "tables_ok tk' m d I"
  using assms by (auto simp: tables_ok_def)

lemma tables_ok_pages: "tables_ok tk m d I \<Longrightarrow> p \<in> pt_pages m d I \<Longrightarrow> in_page_space p \<and> tk p"
  by (auto simp: tables_ok_def)

text \<open>A change of one directory that only touches its own pages and pages that were not taken.\<close>

lemma spaces_ok_change:
  assumes ok: "spaces_ok s D" and d: "d \<in> D"
    and ok': "tables_ok (base_page_taken s') (pmem s') d user_part" "page_aligned (fast_base_page_addr s')"
    and kd: "kernel_page_directory s' = kernel_page_directory s"
    and fresh: "\<And>p. p \<in> N \<Longrightarrow> \<not> base_page_taken s p"
    and pages: "pt_pages (pmem s') d user_part \<subseteq> N \<union> pt_pages (pmem s) d user_part"
    and agree: "\<And>a. page_of a \<notin> N \<union> pt_pages (pmem s) d user_part \<Longrightarrow> pmem s' a = pmem s a"
    and taken: "\<And>q. in_page_space q \<Longrightarrow> base_page_taken s q \<Longrightarrow> q \<notin> pt_pages (pmem s) d user_part \<Longrightarrow> base_page_taken s' q"
  shows "spaces_ok s' D" "others_same s s' D d"
proof -
  note S = spaces_okD [OF ok]
  let ?m = "pmem s" and ?m' = "pmem s'" and ?k = "kernel_page_directory s"
  have other: "tables_ok (base_page_taken s') ?m' e I \<and> pt_pages ?m' e I = pt_pages ?m e I \<and>
      (\<forall>u. pd_index u \<in> I \<longrightarrow> pt_lookup ?m' e u = pt_lookup ?m e u)"
    if t: "tables_ok (base_page_taken s) ?m e I" and disj: "pt_pages ?m d user_part \<inter> pt_pages ?m e I = {}" for e I
  proof -
    have "page_of a \<notin> N \<union> pt_pages ?m d user_part" if "page_of a \<in> pt_pages ?m e I" for a
      using that disj fresh tables_ok_pages [OF t] by blast
    then have agr: "\<And>a. page_of a \<in> pt_pages ?m e I \<Longrightarrow> ?m' a = ?m a" using agree by blast
    have t': "tables_ok (base_page_taken s') ?m e I"
      by (rule tables_ok_taken [OF t]) (use taken disj tables_ok_pages [OF t] in blast)
    show ?thesis using tables_ok_agree [OF t' agr] by blast
  qed
  have K: "tables_ok (base_page_taken s') ?m' ?k kernel_part \<and> pt_pages ?m' ?k kernel_part = pt_pages ?m ?k kernel_part \<and>
      (\<forall>u. pd_index u \<in> kernel_part \<longrightarrow> pt_lookup ?m' ?k u = pt_lookup ?m ?k u)"
    using other [OF S(6)] S(3) [OF d] by blast
  have O: "tables_ok (base_page_taken s') ?m' e user_part \<and> pt_pages ?m' e user_part = pt_pages ?m e user_part \<and>
      (\<forall>u. pd_index u \<in> user_part \<longrightarrow> pt_lookup ?m' e u = pt_lookup ?m e u)" if "e \<in> D" "e \<noteq> d" for e
    using other [OF S(2) [OF that(1)]] S(4) [OF d that(1)] that(2) by blast
  show "others_same s s' D d"
    unfolding others_same_def using K O kd pd_index_kernel pd_index_user by blast
  have dk: "pt_pages ?m' d user_part \<inter> pt_pages ?m' ?k kernel_part = {}"
    using pages K S(3) [OF d] fresh tables_ok_pages [OF S(6)] by blast
  have de: "pt_pages ?m' d user_part \<inter> pt_pages ?m' e user_part = {}" if "e \<in> D" "e \<noteq> d" for e
    using pages O [OF that] S(4) [OF d that(1)] that fresh tables_ok_pages [OF S(2) [OF that(1)]] by blast
  show "spaces_ok s' D" unfolding spaces_ok_def kernel_tables_ok_def
  proof (intro conjI ballI impI)
    show "pt_pages ?m' e user_part \<inter> pt_pages ?m' e' user_part = {}" if "e \<in> D" "e' \<in> D" "e \<noteq> e'" for e e'
      using that O S(4) [OF that] de by (metis Int_commute)
    show "pt_pages ?m' e user_part \<inter> pt_pages ?m' (kernel_page_directory s') kernel_part = {}" if "e \<in> D" for e
      using that O K S(3) [OF that] dk kd by (cases "e = d") auto
    show "tables_ok (base_page_taken s') ?m' e user_part" if "e \<in> D" for e
      using that O ok'(1) by (cases "e = d") auto
  qed (use K kd ok'(2) in simp_all)
qed

subsection \<open>Mapping a page\<close>

definition pages_same :: "paging \<Rightarrow> paging \<Rightarrow> bool" where
  "pages_same s s' \<longleftrightarrow> free_page_bitmap s' = free_page_bitmap s \<and> fast_page_addr s' = fast_page_addr s \<and>
     physical_memory_length s' = physical_memory_length s"

lemma dir_not_null: "spaces_ok s D \<Longrightarrow> d \<in> D \<Longrightarrow> d \<noteq> NULL"
  using spaces_okD(2) [of s D d] tables_okD(1) [of _ _ d] by (auto simp: in_page_space_def word_le_nat_alt)

lemma map_in_table:
  fixes e :: u32
  assumes ok: "spaces_ok s D" and d: "d \<in> D" and v: "pd_index v \<in> pt_used (pmem s) d user_part"
  defines "s' \<equiv> s\<lparr>pmem := (pmem s)(pt_frame (pmem s) d (pd_index v) + 4 * pt_index v := e)\<rparr>"
  shows "spaces_ok s' D" "others_same s s' D d" "pages_same s s'"
    "\<And>u. u \<ge> USERSPACE_BOTTOM \<Longrightarrow> pt_lookup (pmem s') d u =
      (if page_of u = page_of v then (if entry_present e then Some e else None) else pt_lookup (pmem s) d u)"
    "pt_used (pmem s') d user_part = pt_used (pmem s) d user_part"
    "\<And>i. i < 1024 \<Longrightarrow> pmem s' (d + 4 * i) = pmem s (d + 4 * i)"
proof -
  note S = spaces_okD [OF ok]
  note W = pt_write [where e = e, OF S(2) [OF d] v]
  have tk: "base_page_taken s' = base_page_taken s" by (simp add: s'_def)
  show "spaces_ok s' D" "others_same s s' D d"
    using spaces_ok_change [OF ok d, of s' "{}"] W(1,2,4) S(5) by (simp_all add: tk s'_def)
  show "pages_same s s'" by (simp add: pages_same_def s'_def)
  show "pt_lookup (pmem s') d u = (if page_of u = page_of v then (if entry_present e then Some e else None) else pt_lookup (pmem s) d u)"
    if "u \<ge> USERSPACE_BOTTOM" for u using W(5) [of u] that pd_index_user by (simp add: s'_def)
  show "pt_used (pmem s') d user_part = pt_used (pmem s) d user_part" using W(3) by (simp add: s'_def)
  show "pmem s' (d + 4 * i) = pmem s (d + 4 * i)" if "i < 1024" for i
  proof -
    have "d + 4 * i \<noteq> pt_frame (pmem s) d (pd_index v) + 4 * pt_index v"
      using slot_inject [of d "pt_frame (pmem s) d (pd_index v)" i "pt_index v"] that pt_index_less
        tables_okD(3,6) [OF S(2) [OF d]] tables_okD(5) [OF S(2) [OF d] v] by metis
    then show ?thesis by (simp add: s'_def)
  qed
qed

lemma map_new_table:
  assumes ok: "spaces_ok s D" and d: "d \<in> D" and v: "pd_index v \<in> user_part" "pd_index v \<notin> pt_used (pmem s) d user_part"
  obtains (found) p s' where "p \<noteq> 0" "new_page_table s (d + 4 * pd_index v) PAGE_PERMISSION_USER = (p, s')" "spaces_ok s' D"
      "others_same s s' D d" "pages_same s s'" "pd_index v \<in> pt_used (pmem s') d user_part"
      "\<And>u. u \<ge> USERSPACE_BOTTOM \<Longrightarrow> pt_lookup (pmem s') d u = pt_lookup (pmem s) d u"
  | (exhausted) s' where "new_page_table s (d + 4 * pd_index v) PAGE_PERMISSION_USER = (0, s')" "spaces_ok s' D"
      "others_same s s' D d" "pages_same s s'" "\<And>q. in_page_space q \<Longrightarrow> base_page_taken s q"
      "\<And>u. pt_lookup (pmem s') d u = pt_lookup (pmem s) d u"
proof -
  note S = spaces_okD [OF ok]
  show thesis
  proof (rule new_page_table_spec [OF S(2) [OF d] S(5) v, of PAGE_PERMISSION_USER])
    fix p s' assume *: "p \<noteq> 0" "new_page_table s (d + 4 * pd_index v) PAGE_PERMISSION_USER = (p, s')"
      "tables_ok (base_page_taken s') (pmem s') d user_part" "page_aligned (fast_base_page_addr s')"
      "in_page_space p" "\<not> base_page_taken s p" "pt_pages (pmem s') d user_part = insert p (pt_pages (pmem s) d user_part)"
      "pt_used (pmem s') d user_part = insert (pd_index v) (pt_used (pmem s) d user_part)"
      "\<And>a. page_of a \<notin> insert p (pt_pages (pmem s) d user_part) \<Longrightarrow> pmem s' a = pmem s a"
      "\<And>u. pd_index u \<in> user_part \<Longrightarrow> pt_lookup (pmem s') d u = pt_lookup (pmem s) d u"
      "\<And>q. page_aligned q \<Longrightarrow> base_page_taken s' q = (base_page_taken s q \<or> q = p)"
      "kernel_page_directory s' = kernel_page_directory s" "free_page_bitmap s' = free_page_bitmap s"
      "fast_page_addr s' = fast_page_addr s" "physical_memory_length s' = physical_memory_length s"
    have "spaces_ok s' D" "others_same s s' D d"
      using spaces_ok_change [OF ok d *(3,4,12), of "{p}"] *(6,7,9,11) by (auto simp: in_page_space_def)
    then show thesis
      by (intro found [OF *(1,2)]) (use *(8,10,13-15) pd_index_user in \<open>auto simp: pages_same_def\<close>)
  next
    fix a assume *: "page_aligned a" "\<And>q. in_page_space q \<Longrightarrow> base_page_taken s q"
      "new_page_table s (d + 4 * pd_index v) PAGE_PERMISSION_USER = (0, s\<lparr>fast_base_page_addr := a\<rparr>)"
    have "spaces_ok (s\<lparr>fast_base_page_addr := a\<rparr>) D"
      using ok *(1) by (simp add: spaces_ok_def kernel_tables_ok_def)
    then show thesis by (intro exhausted [OF *(3)]) (use *(2) in \<open>auto simp: pages_same_def others_same_def\<close>)
  qed
qed

text \<open>The two outcomes of mapping a user page.\<close>

definition mapped_page :: "paging \<Rightarrow> paging \<Rightarrow> addr \<Rightarrow> u32 \<Rightarrow> u32 \<Rightarrow> bool" where
  "mapped_page s s' d v e \<longleftrightarrow> (\<forall>u\<ge>USERSPACE_BOTTOM. pt_lookup (pmem s') d u =
     (if page_of u = page_of v then Some e else pt_lookup (pmem s) d u))"

lemma userspace_map_page_spec:
  assumes ok: "spaces_ok s D" and d: "page_directory t \<in> D" and v: "v \<ge> USERSPACE_BOTTOM"
  shows "\<exists>r s'. userspace_map_page s t v phy wp wt cd = Some (r, s') \<and> spaces_ok s' D \<and>
    others_same s s' D (page_directory t) \<and> pages_same s s' \<and>
    (r = OK \<and> mapped_page s s' (page_directory t) v (create_pte32 wp PAGE_PERMISSION_USER wt cd phy) \<or>
     r = - ERR_OUT_OF_MEMORY \<and> (\<forall>q. in_page_space q \<longrightarrow> base_page_taken s q) \<and>
       (\<forall>u. pt_lookup (pmem s') (page_directory t) u = pt_lookup (pmem s) (page_directory t) u))"
proof -
  let ?d = "page_directory t" and ?e = "create_pte32 wp PAGE_PERMISSION_USER wt cd phy"
  have d0: "?d \<noteq> NULL" by (rule dir_not_null [OF ok d])
  have vu: "pd_index v \<in> user_part" using v pd_index_user by blast
  have nv: "\<not> v < USERSPACE_BOTTOM" using v by simp
  have store: "userspace_map_page s t v phy wp wt cd = Some (OK, s1\<lparr>pmem := (pmem s1)(pt_frame (pmem s1) ?d (pd_index v) + 4 * pt_index v := ?e)\<rparr>)"
    if "(if \<not> entry_present (pmem s (?d + 4 * pd_index v))
         then (let (page_table, s) = new_page_table s (?d + 4 * pd_index v) PAGE_PERMISSION_USER in (page_table = 0, s))
         else (False, s)) = (False, s1)" "pd_index v \<in> pt_used (pmem s1) ?d user_part" for s1
    unfolding userspace_map_page_def using d0 nv that
    by (simp add: pt_used_def pt_frame_def page_of_def)
  show ?thesis
  proof (cases "entry_present (pmem s (?d + 4 * pd_index v))")
    case True
    then have used: "pd_index v \<in> pt_used (pmem s) ?d user_part" using vu by (simp add: pt_used_def)
    note M = map_in_table [where e = ?e, OF ok d used]
    show ?thesis using store [of s] True used M by (auto simp: mapped_page_def)
  next
    case False
    then have unused: "pd_index v \<notin> pt_used (pmem s) ?d user_part" by (simp add: pt_used_def)
    from ok d vu unused show ?thesis
    proof (cases rule: map_new_table)
      case (found p s')
      note M = map_in_table [where e = ?e, OF found(3) d found(6)]
      show ?thesis using store [of s'] False found M others_same_trans [OF found(4) M(2)]
        by (auto simp: mapped_page_def pages_same_def)
    next
      case (exhausted s')
      have "userspace_map_page s t v phy wp wt cd = Some (- ERR_OUT_OF_MEMORY, s')"
        unfolding userspace_map_page_def using d0 nv False exhausted(1) by simp
      with exhausted show ?thesis by auto
    qed
  qed
qed

subsection \<open>Reclaiming a page table\<close>

lemma is_free_cong: "free_page_bitmap s' = free_page_bitmap s \<Longrightarrow> IS_PAGE_FREE s' = IS_PAGE_FREE s"
  by (simp add: fun_eq_iff IS_PAGE_FREE_def)

lemma base_taken_cong: "free_base_page_bitmap s' = free_base_page_bitmap s \<Longrightarrow> base_page_taken s' = base_page_taken s"
  by (simp add: fun_eq_iff base_page_taken_def)

lemma free_base_page_fields [simp]:
  "pmem (free_base_page s p) = pmem s" "kernel_page_directory (free_base_page s p) = kernel_page_directory s"
  "fast_base_page_addr (free_base_page s p) = fast_base_page_addr s" "free_page_bitmap (free_base_page s p) = free_page_bitmap s"
  "fast_page_addr (free_base_page s p) = fast_page_addr s" "physical_memory_length (free_base_page s p) = physical_memory_length s"
  by (simp_all add: free_base_page_def Let_def)

lemma entry_present_0 [simp]: "\<not> entry_present 0"
  by (simp add: entry_present_def)

lemma pt_uninstall:
  assumes ok: "tables_ok tk m d I" and v: "pd_index v \<in> pt_used m d I"
    and empty: "\<forall>i<1024. \<not> entry_present (m (pt_frame m d (pd_index v) + 4 * i))"
    and tk: "\<forall>q\<in>pt_pages m d I - {pt_frame m d (pd_index v)}. tk' q"
  defines "m' \<equiv> m(d + 4 * pd_index v := 0)"
  shows "tables_ok tk' m' d I" "pt_pages m' d I = pt_pages m d I - {pt_frame m d (pd_index v)}"
    "\<And>u. pd_index u \<in> I \<Longrightarrow> pt_lookup m' d u = pt_lookup m d u" "\<And>a. page_of a \<noteq> d \<Longrightarrow> m' a = m a"
proof -
  note okD = tables_okD [OF ok]
  let ?f = "pt_frame m d" and ?i = "pd_index v"
  have slot: "page_of (d + 4 * i) = d" if "i < 1024" for i by (rule page_of_slot [OF okD(3) that])
  show agree: "m' a = m a" if "page_of a \<noteq> d" for a using that slot [OF pd_index_less] by (auto simp: m'_def)
  have dir: "m' (d + 4 * i) = (if i = ?i then 0 else m (d + 4 * i))" if "i < 1024" for i
    using slot_inject [OF okD(3) okD(3) that pd_index_less] by (simp add: m'_def)
  have used: "pt_used m' d I = pt_used m d I - {?i}" using dir okD(4) by (auto simp: pt_used_def split: if_splits)
  have frame: "pt_frame m' d i = ?f i" if "i \<in> pt_used m d I - {?i}" for i
    using dir [of i] okD(4) that by (auto simp: pt_frame_def pt_used_def)
  have inj: "inj_on ?f (pt_used m d I)" using ok by (simp add: tables_ok_def)
  have im: "pt_frame m' d ` pt_used m' d I = ?f ` pt_used m d I - {?f ?i}"
    unfolding used using frame inj v by (auto simp: inj_on_def image_iff)
  show pages: "pt_pages m' d I = pt_pages m d I - {?f ?i}"
    using okD(5) [OF v] by (auto simp: pt_pages_def im)
  have "inj_on (pt_frame m' d) (pt_used m' d I)"
    unfolding used using inj frame by (auto simp: inj_on_def)
  moreover have "d \<notin> pt_frame m' d ` pt_used m' d I" using ok im by (auto simp: tables_ok_def)
  ultimately show "tables_ok tk' m' d I"
    using ok tk pages by (auto simp: tables_ok_def)
  show "pt_lookup m' d u = pt_lookup m d u" if u: "pd_index u \<in> I" for u
  proof (cases "pd_index u = ?i")
    case True
    then show ?thesis using empty [rule_format, OF pt_index_less [of u]] dir [OF pd_index_less [of u]] by (simp add: pt_lookup_alt)
  next
    case False
    show ?thesis
    proof (cases "entry_present (m (d + 4 * pd_index u))")
      case True
      then have "pd_index u \<in> pt_used m d I" using u by (simp add: pt_used_def)
      then have "page_of (?f (pd_index u) + 4 * pt_index u) \<noteq> d"
        using page_of_slot [OF okD(6) pt_index_less] okD(5) by metis
      then show ?thesis using agree False dir [OF pd_index_less [of u]]
        by (simp add: pt_lookup_alt pt_frame_def)
    next
      case F: False
      then show ?thesis using False dir [OF pd_index_less [of u]] by (simp add: pt_lookup_alt)
    qed
  qed
qed

lemma reclaim_page_table_spec:
  assumes ok: "spaces_ok s D" and d: "page_directory t \<in> D" and v: "v \<ge> USERSPACE_BOTTOM"
  shows "\<exists>r s'. reclaim_page_table s t v = Some (r, s') \<and> spaces_ok s' D \<and> others_same s s' D (page_directory t) \<and>
    pages_same s s' \<and> (\<forall>u\<ge>USERSPACE_BOTTOM. pt_lookup (pmem s') (page_directory t) u = pt_lookup (pmem s) (page_directory t) u)"
proof -
  let ?d = "page_directory t" and ?i = "pd_index v"
  note S = spaces_okD [OF ok]
  have d0: "?d \<noteq> NULL" by (rule dir_not_null [OF ok d])
  show ?thesis
  proof (cases "entry_present (pmem s (?d + 4 * ?i)) \<and>
      \<not> list_ex (\<lambda>idx. entry_present (pmem s (pt_frame (pmem s) ?d ?i + 4 * of_nat idx))) [0..<1024]")
    case False
    then have "\<exists>r. reclaim_page_table s t v = Some (r, s)"
      using d0 by (auto simp: reclaim_page_table_def pt_frame_def Let_def)
    then show ?thesis using ok by (auto simp: pages_same_def)
  next
    case True
    then have used: "?i \<in> pt_used (pmem s) ?d user_part" using v pd_index_user by (simp add: pt_used_def)
    let ?f = "pt_frame (pmem s) ?d ?i"
    have f: "in_page_space ?f" using tables_okD(5) [OF S(2) [OF d] used] by blast
    let ?s = "(free_base_page s ?f)\<lparr>pmem := (pmem s)(?d + 4 * ?i := 0)\<rparr>"
    have run: "reclaim_page_table s t v = Some (OK, ?s)"
      using d0 True by (simp add: reclaim_page_table_def pt_frame_def Let_def)
    have empty: "\<forall>i<1024. \<not> entry_present (pmem s (?f + 4 * i))"
    proof (intro allI impI)
      fix i :: u32 assume that: "i < 1024"
      have "unat i \<in> set [0..<1024]" using that by (simp add: word_less_nat_alt)
      with True have "\<not> entry_present (pmem s (?f + 4 * of_nat (unat i)))" unfolding list_ex_iff by blast
      then show "\<not> entry_present (pmem s (?f + 4 * i))" by simp
    qed
    have taken: "base_page_taken ?s q \<longleftrightarrow> base_page_taken s q \<and> q \<noteq> ?f" if "page_aligned q" for q
      using base_taken_free [OF f that, of s] by simp
    have tk: "\<forall>q\<in>pt_pages (pmem s) ?d user_part - {?f}. base_page_taken ?s q"
      using tables_ok_pages [OF S(2) [OF d]] taken by (auto simp: in_page_space_def)
    note U = pt_uninstall [where tk' = "base_page_taken ?s", OF S(2) [OF d] used empty tk]
    have fp: "?f \<in> pt_pages (pmem s) ?d user_part" "?d \<in> pt_pages (pmem s) ?d user_part"
      using used by (auto simp: pt_pages_def)
    have "tables_ok (base_page_taken ?s) (pmem ?s) ?d user_part" using U(1) by simp
    moreover have "page_aligned (fast_base_page_addr ?s)" "kernel_page_directory ?s = kernel_page_directory s" using S(5) by simp_all
    moreover have "pt_pages (pmem ?s) ?d user_part \<subseteq> {} \<union> pt_pages (pmem s) ?d user_part" using U(2) by auto
    moreover have "pmem ?s a = pmem s a" if "page_of a \<notin> {} \<union> pt_pages (pmem s) ?d user_part" for a
    proof -
      have "page_of a \<noteq> ?d" using that fp(2) by auto
      from U(4) [OF this] show ?thesis by simp
    qed
    moreover have "base_page_taken ?s q" if "in_page_space q" "base_page_taken s q" "q \<notin> pt_pages (pmem s) ?d user_part" for q
      using taken [of q] that fp(1) by (auto simp: in_page_space_def)
    ultimately have "spaces_ok ?s D" "others_same s ?s D ?d"
      using spaces_ok_change [OF ok d, of ?s "{}"] by blast+
    then show ?thesis using run U(3) pd_index_user by (auto simp: pages_same_def)
  qed
qed

subsection \<open>Evicting pages\<close>

lemma spaces_ok_free_page [simp]: "spaces_ok (free_page s p) D = spaces_ok s D"
proof -
  have "base_page_taken (MAKR_PAGE_AS_FREE s p) = base_page_taken s" by (rule base_taken_cong) simp
  then show ?thesis by (simp add: free_page_eq spaces_ok_def kernel_tables_ok_def)
qed

lemma free_page_spec:
  "pmem (free_page s p) = pmem s" "kernel_page_directory (free_page s p) = kernel_page_directory s"
  "page_aligned p \<Longrightarrow> page_aligned q \<Longrightarrow> IS_PAGE_FREE (free_page s p) q \<longleftrightarrow> IS_PAGE_FREE s q \<or> q = p"
  by (auto simp: free_page_eq is_free_freed frame_of_aligned)

text \<open>What an eviction does to the address space and to the set of free pages.\<close>

definition evicted :: "paging \<Rightarrow> paging \<Rightarrow> addr \<Rightarrow> u32 set \<Rightarrow> bool \<Rightarrow> bool" where
  "evicted s s' d P ex \<longleftrightarrow>
     (\<forall>u\<ge>USERSPACE_BOTTOM. pt_lookup (pmem s') d u = (if page_of u \<in> P then None else pt_lookup (pmem s) d u)) \<and>
     (\<forall>q. page_aligned q \<longrightarrow> IS_PAGE_FREE s' q = (IS_PAGE_FREE s q \<or>
        \<not> ex \<and> (\<exists>u e. u \<ge> USERSPACE_BOTTOM \<and> page_of u \<in> P \<and> pt_lookup (pmem s) d u = Some e \<and> q = entry_frame e)))"

lemma entry_frame_aligned [simp]: "page_aligned (entry_frame e)"
  by (simp add: entry_frame_page_of)

lemma pt_lookup_page: "page_of u = page_of v \<Longrightarrow> pt_lookup m d u = pt_lookup m d v"
  using index_page [of u v] by (simp add: pt_lookup_def Let_def)

lemma userspace_evict_page_spec:
  assumes ok: "spaces_ok (pg k) D" and d: "page_directory (tasks k t) \<in> D" and v: "v \<ge> USERSPACE_BOTTOM"
    and list: "dlist (lists k) (vma_list t) xs" and a: "vma_at (vmas k) xs v = a" "a \<noteq> NULL"
  shows "\<exists>r s'. userspace_evict_page k t v rc = Some (r, k\<lparr>pg := s'\<rparr>) \<and> spaces_ok s' D \<and>
    others_same (pg k) s' D (page_directory (tasks k t)) \<and>
    evicted (pg k) s' (page_directory (tasks k t)) {page_of v} (va_exact (vmas k a))"
proof -
  let ?s = "pg k" and ?d = "page_directory (tasks k t)" and ?i = "pd_index v"
  have d0: "?d \<noteq> NULL" by (rule dir_not_null [OF ok d])
  note run = userspace_evict_page_def [of k t v rc, unfolded search_by_addr_eq [OF list] a(1)]
  show ?thesis
  proof (cases "pt_lookup (pmem ?s) ?d v")
    case None
    then have "userspace_evict_page k t v rc = Some (- ERR_NOT_PRESENT, k\<lparr>pg := ?s\<rparr>)"
      using d0 a(2) by (simp add: run pt_lookup_def Let_def split: if_splits)
    moreover have "pt_lookup (pmem ?s) ?d u = None" if "page_of u = page_of v" for u
      using pt_lookup_page [OF that] None by simp
    then have "evicted ?s ?s ?d {page_of v} (va_exact (vmas k a))" by (auto simp: evicted_def)
    ultimately show ?thesis using ok others_same_refl by blast
  next
    case (Some e)
    let ?slot = "pt_frame (pmem ?s) ?d ?i + 4 * pt_index v"
    have present: "entry_present (pmem ?s (?d + 4 * ?i))" "entry_present e" "pmem ?s ?slot = e"
      using Some by (auto simp: pt_lookup_alt split: if_splits)
    then have used: "?i \<in> pt_used (pmem ?s) ?d user_part" using v pd_index_user by (simp add: pt_used_def)
    define s1 where "s1 = (if \<not> va_exact (vmas k a) then free_page ?s (entry_frame e) else ?s)"
    have s1: "spaces_ok s1 D" "pmem s1 = pmem ?s" "kernel_page_directory s1 = kernel_page_directory ?s"
      using ok by (simp_all add: s1_def free_page_spec)
    have free1: "IS_PAGE_FREE s1 q \<longleftrightarrow> IS_PAGE_FREE ?s q \<or> \<not> va_exact (vmas k a) \<and> q = entry_frame e" if "page_aligned q" for q
      using that by (auto simp: s1_def free_page_spec)
    define s2 where "s2 = s1\<lparr>pmem := (pmem s1)(?slot := 0)\<rparr>"
    have used1: "?i \<in> pt_used (pmem s1) ?d user_part" using used s1(2) by simp
    have M': "spaces_ok s2 D" "others_same s1 s2 D ?d" "pages_same s1 s2"
      "\<And>u. u \<ge> USERSPACE_BOTTOM \<Longrightarrow> pt_lookup (pmem s2) ?d u = (if page_of u = page_of v then None else pt_lookup (pmem ?s) ?d u)"
      using map_in_table(1-4) [where e = 0, OF s1(1) d used1] by (simp_all add: s2_def s1(2))
    obtain r3 s3 where 3: "reclaim_page_table s2 (tasks k t) v = Some (r3, s3)" "spaces_ok s3 D" "others_same s2 s3 D ?d"
        "pages_same s2 s3" "\<forall>u\<ge>USERSPACE_BOTTOM. pt_lookup (pmem s3) ?d u = pt_lookup (pmem s2) ?d u"
      using reclaim_page_table_spec [OF M'(1) d v] by blast
    define s' where "s' = (if rc then s3 else s2)"
    have run': "userspace_evict_page k t v rc = Some (OK, k\<lparr>pg := s'\<rparr>)"
      using d0 a(2) present 3(1)
      by (simp add: run Let_def pt_frame_def s'_def s2_def s1_def cong: if_cong)
    have s': "spaces_ok s' D" "others_same s2 s' D ?d" "pages_same s1 s'"
      "\<forall>u\<ge>USERSPACE_BOTTOM. pt_lookup (pmem s') ?d u = pt_lookup (pmem s2) ?d u"
      using 3 M' by (simp_all add: s'_def pages_same_def)
    have same: "others_same ?s s' D ?d"
      using others_same_trans [OF M'(2) s'(2)] s1(2,3) by (simp add: others_same_def)
    have "evicted ?s s' ?d {page_of v} (va_exact (vmas k a))"
      unfolding evicted_def
    proof (intro conjI allI impI)
      show "pt_lookup (pmem s') ?d u = (if page_of u \<in> {page_of v} then None else pt_lookup (pmem ?s) ?d u)"
        if "u \<ge> USERSPACE_BOTTOM" for u using M'(4) s'(4) that by simp
      have fb: "IS_PAGE_FREE s' = IS_PAGE_FREE s1" using s'(3) by (intro is_free_cong) (simp add: pages_same_def)
      have one: "(\<exists>u e'. u \<ge> USERSPACE_BOTTOM \<and> page_of u \<in> {page_of v} \<and> pt_lookup (pmem ?s) ?d u = Some e' \<and> q = entry_frame e')
          \<longleftrightarrow> q = entry_frame e" for q
      proof
        assume "\<exists>u e'. u \<ge> USERSPACE_BOTTOM \<and> page_of u \<in> {page_of v} \<and> pt_lookup (pmem ?s) ?d u = Some e' \<and> q = entry_frame e'"
        then obtain u e' where u: "page_of u = page_of v" "pt_lookup (pmem ?s) ?d u = Some e'" "q = entry_frame e'" by auto
        with pt_lookup_page [OF u(1), of "pmem ?s" ?d] Some show "q = entry_frame e" by simp
      qed (use v Some in auto)
      show "IS_PAGE_FREE s' q = (IS_PAGE_FREE ?s q \<or> \<not> va_exact (vmas k a) \<and>
          (\<exists>u e'. u \<ge> USERSPACE_BOTTOM \<and> page_of u \<in> {page_of v} \<and> pt_lookup (pmem ?s) ?d u = Some e' \<and> q = entry_frame e'))"
        if "page_aligned q" for q unfolding one fb using free1 [OF that] by simp
    qed
    with run' s'(1) same show ?thesis by blast
  qed
qed

lemma evicted_trans:
  assumes "evicted s s1 d P ex" "evicted s1 s2 d Q ex"
  shows "evicted s s2 d (P \<union> Q) ex"
proof -
  have look: "pt_lookup (pmem s1) d u = (if page_of u \<in> P then None else pt_lookup (pmem s) d u)" if "u \<ge> USERSPACE_BOTTOM" for u
    using assms(1) that by (simp add: evicted_def)
  have "(\<exists>u e. u \<ge> USERSPACE_BOTTOM \<and> page_of u \<in> Q \<and> pt_lookup (pmem s1) d u = Some e \<and> q = entry_frame e) \<longleftrightarrow>
      (\<exists>u e. u \<ge> USERSPACE_BOTTOM \<and> page_of u \<in> Q - P \<and> pt_lookup (pmem s) d u = Some e \<and> q = entry_frame e)" for q
    by (metis DiffE DiffI look option.discI)
  with assms show ?thesis unfolding evicted_def by (simp add: look) blast
qed

lemma evicted_empty [simp]: "evicted s s d {} ex"
  by (simp add: evicted_def)

text \<open>The pages of an area that starts at a page boundary.\<close>

definition pages_from :: "nat \<Rightarrow> nat \<Rightarrow> u32 set" where
  "pages_from a e = {p. page_aligned p \<and> a \<le> unat p \<and> unat p < e}"

definition area_pages :: "vm_area \<Rightarrow> u32 set" where
  "area_pages v = pages_from (unat (va_virt_addr v)) (unat (va_virt_addr v) + unat (va_length v))"

definition user_area :: "vm_area \<Rightarrow> bool" where
  "user_area v \<longleftrightarrow> 4096 dvd unat (va_virt_addr v) \<and> 0x40000000 \<le> unat (va_virt_addr v) \<and>
     unat (va_virt_addr v) + unat (va_length v) \<le> 2 ^ 32"

lemma unat_ucast_down: "unat (a :: u64) < 2 ^ 32 \<Longrightarrow> unat (ucast a :: u32) = unat a"
  by (simp add: unsigned_ucast_eq unsigned_take_bit_eq take_bit_nat_eq_self)

lemma unat_ucast_up: "unat (ucast (a :: u32) :: u64) = unat a"
  using unat_u32_less [of a] by (simp add: unsigned_ucast_eq unsigned_take_bit_eq take_bit_nat_eq_self)

lemma pages_from_step:
  assumes "4096 dvd a" "a < e" "a < 2 ^ 32"
  shows "pages_from a e = insert (of_nat a) (pages_from (a + 4096) e)" "page_aligned (of_nat a :: u32)"
proof -
  have u: "unat (of_nat a :: u32) = a" using assms(3) by (simp add: unat_of_nat_id)
  then show al: "page_aligned (of_nat a :: u32)" using assms(1) by (simp add: page_aligned_dvd)
  have "p = of_nat a \<or> a + 4096 \<le> unat p" if p: "page_aligned p" "a \<le> unat p" for p :: u32
  proof (cases "a = unat p")
    case True
    then show ?thesis by simp
  next
    case False
    obtain i j where "a = 4096 * i" "unat p = 4096 * j" using p(1) assms(1) by (auto simp: page_aligned_dvd elim!: dvdE)
    with False p(2) show ?thesis by simp
  qed
  then show "pages_from a e = insert (of_nat a) (pages_from (a + 4096) e)"
    using al u assms(2) by (fastforce simp: pages_from_def)
qed

lemma vma_at_unique:
  assumes "dlist h head xs" "v \<in> set xs" "covers (V v) (ucast a)"
    and "\<And>w. w \<in> set xs \<Longrightarrow> w \<noteq> v \<Longrightarrow> \<not> covers (V w) (ucast a)"
  shows "vma_at V xs a = v"
  using assms(1)
proof (cases rule: vma_at_cases [where V = V and a = a])
  case found
  then show ?thesis using assms(4) by blast
next
  case absent
  then show ?thesis using assms(2,3) by blast
qed

lemma evict_area_loop_spec:
  assumes area: "user_area v" and V: "vmas k x = v" and x: "x \<in> set xs" and list: "dlist (lists k) (vma_list t) xs"
    and disj: "\<And>w a. w \<in> set xs \<Longrightarrow> w \<noteq> x \<Longrightarrow> covers v a \<Longrightarrow> \<not> covers (vmas k w) a"
    and ok: "spaces_ok (pg k) D" and d: "page_directory (tasks k t) \<in> D"
    and a: "4096 dvd unat a" "va_virt_addr v \<le> a"
  shows "\<exists>s'. evict_area_loop t v a k = Some (k\<lparr>pg := s'\<rparr>) \<and> spaces_ok s' D \<and>
    others_same (pg k) s' D (page_directory (tasks k t)) \<and>
    evicted (pg k) s' (page_directory (tasks k t)) (pages_from (unat a) (unat (va_virt_addr v) + unat (va_length v))) (va_exact v)"
  using assms
proof (induction "unat (area_end v) - unat a" arbitrary: a k rule: less_induct)
  case less
  let ?d = "page_directory (tasks k t)" and ?e = "unat (va_virt_addr v) + unat (va_length v)"
  have e: "unat (area_end v) = ?e" using less.prems(1) by (intro area_end_unat) (simp add: vma_fits_def user_area_def)
  show ?case
  proof (cases "a < area_end v")
    case False
    then have "pages_from (unat a) ?e = {}" using e by (auto simp: pages_from_def word_less_nat_alt)
    with False less.prems(6) show ?thesis by (auto simp: evict_area_loop.simps area_end_def intro!: exI [of _ "pg k"])
  next
    case True
    then have lt: "unat a < ?e" using e by (simp add: word_less_nat_alt)
    then have lt32: "unat a < 2 ^ 32" using less.prems(1) by (simp add: user_area_def)
    define p where "p = (ucast a :: u32)"
    have p: "unat p = unat a" "p = of_nat (unat a)" using lt32 unat_ucast_down [of a] by (simp_all add: p_def)
    have wide: "(ucast p :: u64) = a" using unat_ucast_up [of p] p(1) by (simp add: word_unat_eq_iff)
    have user: "p \<ge> USERSPACE_BOTTOM" using less.prems(1,9) p(1) by (simp add: user_area_def word_le_nat_alt)
    have cov: "covers v (ucast p)" using less.prems(9) True by (simp add: wide covers_def)
    have at: "vma_at (vmas k) xs p = x"
      using vma_at_unique [OF less.prems(4,3), of "vmas k" p] cov less.prems(2) less.prems(5) [OF _ _ cov] by blast
    have x0: "x \<noteq> NULL" using dlist_NULL_notin [OF less.prems(4)] less.prems(3) by auto
    let ?r = "if a + 4096 \<ge> va_virt_addr v + va_length v then True
              else drop_bit 22 (ucast a :: u32) AND 0x3ff \<noteq> drop_bit 22 (PAGE_SIZE + (ucast a :: u32)) AND 0x3ff"
    obtain r s1 where 1: "userspace_evict_page k t p ?r = Some (r, k\<lparr>pg := s1\<rparr>)" "spaces_ok s1 D"
        "others_same (pg k) s1 D ?d" "evicted (pg k) s1 ?d {page_of p} (va_exact v)"
      using userspace_evict_page_spec [OF less.prems(6,7) user less.prems(4) at x0] less.prems(2) by metis
    have next_a: "unat (a + 4096) = unat a + 4096" using lt32 by (simp add: unat_word_ariths)
    have dec: "unat (area_end v) - unat (a + 4096) < unat (area_end v) - unat a" using next_a lt e by simp
    obtain s2 where 2: "evict_area_loop t v (a + 4096) (k\<lparr>pg := s1\<rparr>) = Some (k\<lparr>pg := s2\<rparr>)" "spaces_ok s2 D"
        "others_same s1 s2 D ?d" "evicted s1 s2 ?d (pages_from (unat (a + 4096)) ?e) (va_exact v)"
      using less.hyps [OF dec, of "k\<lparr>pg := s1\<rparr>"] less.prems 1(2) next_a
      by (auto simp: word_le_nat_alt)
    have al: "page_of p = p" using pages_from_step(2) [OF less.prems(8) lt lt32] p(2) by (simp add: page_of_id)
    have "evict_area_loop t v a k = Some (k\<lparr>pg := s2\<rparr>)"
      using True 1(1) 2(1) by (subst evict_area_loop.simps) (simp add: area_end_def p_def)
    moreover have "pages_from (unat a) ?e = {page_of p} \<union> pages_from (unat (a + 4096)) ?e"
      using pages_from_step(1) [OF less.prems(8) lt lt32] al p(2) next_a by simp
    ultimately show ?thesis
      using 2(2) others_same_trans [OF 1(3) 2(3)] evicted_trans [OF 1(4) 2(4)] by auto
  qed
qed

lemma vma_walk_eq: "dseg h p x xs NULL \<Longrightarrow> vma_walk h v x = Some (v \<in> set xs)"
proof (induction xs arbitrary: p x)
  case (Cons a xs)
  then show ?case using vma_walk.simps [of h v a] by auto
qed (simp add: vma_walk.simps)

lemma vma_in_task_eq: "dlist (lists k) (vma_list t) xs \<Longrightarrow> vma_in_task k t v = Some (v \<in> set xs)"
  by (auto simp: vma_in_task_def dlist_def dest: vma_walk_eq)

lemma userspace_evict_vma_spec:
  assumes ok: "spaces_ok (pg k) D" and d: "page_directory (tasks k t) \<in> D"
    and list: "dlist (lists k) (vma_list t) xs" and x: "x \<in> set xs" "\<not> va_kernel_vma (vmas k x)" "user_area (vmas k x)"
    and disj: "\<And>w a. w \<in> set xs \<Longrightarrow> w \<noteq> x \<Longrightarrow> covers (vmas k x) a \<Longrightarrow> \<not> covers (vmas k w) a"
  shows "\<exists>s'. userspace_evict_vma k t x = Some (OK, k\<lparr>pg := s'\<rparr>) \<and> spaces_ok s' D \<and>
    others_same (pg k) s' D (page_directory (tasks k t)) \<and>
    evicted (pg k) s' (page_directory (tasks k t)) (area_pages (vmas k x)) (va_exact (vmas k x))"
proof -
  have a: "4096 dvd unat (va_virt_addr (vmas k x))" using x(3) by (simp add: user_area_def)
  obtain s' where "evict_area_loop t (vmas k x) (va_virt_addr (vmas k x)) k = Some (k\<lparr>pg := s'\<rparr>)" "spaces_ok s' D"
      "others_same (pg k) s' D (page_directory (tasks k t))"
      "evicted (pg k) s' (page_directory (tasks k t)) (area_pages (vmas k x)) (va_exact (vmas k x))"
    using evict_area_loop_spec [OF x(3) refl x(1) list disj ok d a order.refl] unfolding area_pages_def by blast
  then show ?thesis using x(1,2) by (auto simp: userspace_evict_vma_def vma_in_task_eq [OF list])
qed

subsection \<open>Switching to the directory of a task\<close>

lemma fold_copy:
  fixes src :: "pmem \<Rightarrow> u32 \<Rightarrow> u32"
  assumes kd: "page_aligned kd" and n: "n \<le> 1024" and src: "\<forall>m m' i. (\<forall>x. page_of x \<noteq> kd \<longrightarrow> m' x = m x) \<longrightarrow> i < 1024 \<longrightarrow> src m' i = src m i"
  shows "fold (\<lambda>idx m. m(kd + 4 * of_nat idx := src m (of_nat idx))) [l..<n] m x =
    (if \<exists>i. l \<le> i \<and> i < n \<and> x = kd + 4 * of_nat i then src m (drop_bit 2 (x - kd)) else m x)"
  using n
proof (induction n arbitrary: x)
  case (Suc n)
  let ?f = "\<lambda>idx m. m(kd + 4 * of_nat idx := src m (of_nat idx))"
  let ?m = "fold ?f [l..<n] m"
  have IH: "?m x = (if \<exists>i. l \<le> i \<and> i < n \<and> x = kd + 4 * of_nat i then src m (drop_bit 2 (x - kd)) else m x)" for x
    by (rule Suc.IH) (use Suc.prems in simp)
  have small: "(of_nat i :: u32) < 1024" "drop_bit 2 (4 * of_nat i :: u32) = of_nat i" if "i < 1024" for i
  proof -
    show "(of_nat i :: u32) < 1024" using that by (simp add: word_less_nat_alt unat_of_nat_id)
    have "unat (4 * of_nat i :: u32) = 4 * i" using that unat_of_nat_id [of "4 * i"] by simp
    then show "drop_bit 2 (4 * of_nat i :: u32) = of_nat i"
      using that by (simp add: word_unat_eq_iff unsigned_drop_bit_eq drop_bit_eq_div unat_of_nat_id unat_div)
  qed
  have off: "?m y = m y" if "page_of y \<noteq> kd" for y
    using IH [of y] that page_of_slot [OF kd small(1)] Suc.prems by (auto split: if_splits)
  show ?case
  proof (cases "l \<le> n")
    case True
    have "fold ?f [l..<Suc n] m x = (if x = kd + 4 * of_nat n then src ?m (of_nat n) else ?m x)" using True by simp
    also have "src ?m (of_nat n) = src m (of_nat n)" using off small(1) [of n] Suc.prems by (intro src [rule_format]) auto
    finally show ?thesis using IH [of x] True small(2) [of n] Suc.prems by (auto simp: less_Suc_eq)
  next
    case False
    then show ?thesis using IH by auto
  qed
qed simp

lemma enable_task_paging_memory:
  assumes ok: "spaces_ok s D" and d: "page_directory t = NULL \<or> page_directory t \<in> D"
  defines "kd \<equiv> kernel_page_directory s" and "m' \<equiv> pmem (enable_task_paging s t)"
  shows "\<And>x. page_of x \<noteq> kd \<Longrightarrow> m' x = pmem s x"
    "\<And>i. i < 1024 \<Longrightarrow> m' (kd + 4 * i) = (if i \<in> user_part then (if page_directory t = NULL then 0 else pmem s (page_directory t + 4 * i))
        else pmem s (kd + 4 * i))"
proof -
  let ?d = "page_directory t"
  note S = spaces_okD [OF ok]
  have kd: "page_aligned kd" using tables_okD(3) [OF S(6)] by (simp add: kd_def)
  have other: "page_aligned ?d \<and> ?d \<noteq> kd" if "?d \<noteq> NULL"
    using d that S(3) [of ?d] tables_okD(3) [OF S(2), of ?d] by (auto simp: pt_pages_def kd_def)
  let ?src = "\<lambda>m i. if ?d \<noteq> NULL then m (?d + 4 * i) else 0"
  have src: "\<forall>m1 m2 i. (\<forall>x. page_of x \<noteq> kd \<longrightarrow> m2 x = m1 x) \<longrightarrow> i < 1024 \<longrightarrow> ?src m2 i = ?src m1 i"
    using page_of_slot [of ?d] other by auto
  have idx: "unat (drop_bit 10 (drop_bit 12 USERSPACE_BOTTOM)) = 256" by simp
  have "m' x = (if \<exists>i. 256 \<le> i \<and> i < 1024 \<and> x = kd + 4 * of_nat i then ?src (pmem s) (drop_bit 2 (x - kd)) else pmem s x)" for x
    using fold_copy [where src = ?src, OF kd order.refl src, of 256 "pmem s" x]
    by (simp add: m'_def enable_task_paging_def idx kd_def del: upt_rec_numeral)
  then have m': "m' x = (if \<exists>i. 256 \<le> i \<and> i < 1024 \<and> x = kd + 4 * of_nat i then ?src (pmem s) (drop_bit 2 (x - kd)) else pmem s x)" for x .
  have nat: "(\<exists>i. 256 \<le> i \<and> i < 1024 \<and> x = kd + 4 * of_nat i) \<longleftrightarrow> (\<exists>i \<in> user_part. x = kd + 4 * i)" for x
  proof
    assume "\<exists>i. 256 \<le> i \<and> i < 1024 \<and> x = kd + 4 * of_nat i"
    then obtain i where i: "256 \<le> i" "i < 1024" "x = kd + 4 * of_nat i" by blast
    then have "(of_nat i :: u32) \<in> user_part" by (simp add: user_part_def word_le_nat_alt word_less_nat_alt unat_of_nat_id)
    with i(3) show "\<exists>i \<in> user_part. x = kd + 4 * i" by blast
  next
    assume "\<exists>i \<in> user_part. x = kd + 4 * i"
    then obtain i where "i \<in> user_part" "x = kd + 4 * i" by blast
    then show "\<exists>i. 256 \<le> i \<and> i < 1024 \<and> x = kd + 4 * of_nat i"
      by (intro exI [of _ "unat i"]) (simp add: user_part_def word_le_nat_alt word_less_nat_alt)
  qed
  show "m' x = pmem s x" if "page_of x \<noteq> kd" for x
    using m' [of x] nat [of x] that page_of_slot [OF kd] by (auto simp: user_part_def)
  show "m' (kd + 4 * i) = (if i \<in> user_part then (if ?d = NULL then 0 else pmem s (?d + 4 * i)) else pmem s (kd + 4 * i))"
    if i: "i < 1024" for i
  proof -
    have "(\<exists>j \<in> user_part. kd + 4 * i = kd + 4 * j) \<longleftrightarrow> i \<in> user_part"
      using slot_inject [OF kd kd i] by (auto simp: user_part_def)
    moreover have "drop_bit 2 (4 * i) = i"
    proof -
      have "unat (4 * i) = 4 * unat i" using unat_slot [OF i] by simp
      then show ?thesis by (simp add: word_unat_eq_iff unsigned_drop_bit_eq drop_bit_eq_div unat_div)
    qed
    ultimately show ?thesis using m' [of "kd + 4 * i"] nat [of "kd + 4 * i"] by auto
  qed
qed

lemma enable_task_paging_spec:
  assumes ok: "spaces_ok s D" and d: "page_directory t = NULL \<or> page_directory t \<in> D"
  defines "s' \<equiv> enable_task_paging s t" and "kd \<equiv> kernel_page_directory s"
  shows "spaces_ok s' D" "cr3 s' = kd" "kernel_page_directory s' = kd" "pages_same s s'"
    "\<And>u. u < USERSPACE_BOTTOM \<Longrightarrow> pt_lookup (pmem s') kd u = pt_lookup (pmem s) kd u"
    "\<And>e u. e \<in> D \<Longrightarrow> u \<ge> USERSPACE_BOTTOM \<Longrightarrow> pt_lookup (pmem s') e u = pt_lookup (pmem s) e u"
    "\<And>u. u \<ge> USERSPACE_BOTTOM \<Longrightarrow> pt_lookup (pmem s') kd u =
      (if page_directory t = NULL then None else pt_lookup (pmem s) (page_directory t) u)"
proof -
  let ?d = "page_directory t"
  note S = spaces_okD [OF ok]
  note M = enable_task_paging_memory [OF ok d, folded s'_def kd_def]
  have fields: "base_page_taken s' = base_page_taken s" "fast_base_page_addr s' = fast_base_page_addr s"
    by (simp_all add: s'_def enable_task_paging_def base_page_taken_def fun_eq_iff del: upt_rec_numeral)
  show kds: "cr3 s' = kd" "kernel_page_directory s' = kd" and "pages_same s s'"
    by (simp_all add: s'_def enable_task_paging_def kd_def pages_same_def del: upt_rec_numeral)
  have kd_in: "kd \<in> pt_pages (pmem s) kd kernel_part" by (simp add: pt_pages_def)
  have off: "page_of a \<noteq> kd" if "page_of a \<in> pt_pages (pmem s) e user_part" "e \<in> D" for a e
    using disjoint_iff [THEN iffD1, OF S(3) [OF that(2), folded kd_def]] that(1) kd_in by metis
  have T: "tables_ok (base_page_taken s) (pmem s') e user_part" "pt_pages (pmem s') e user_part = pt_pages (pmem s) e user_part"
    "\<And>u. pd_index u \<in> user_part \<Longrightarrow> pt_lookup (pmem s') e u = pt_lookup (pmem s) e u" if e: "e \<in> D" for e
  proof -
    have agr: "pmem s' a = pmem s a" if "page_of a \<in> pt_pages (pmem s) e user_part" for a
      using M(1) off [OF that e] by blast
    show "tables_ok (base_page_taken s) (pmem s') e user_part" "pt_pages (pmem s') e user_part = pt_pages (pmem s) e user_part"
      "\<And>u. pd_index u \<in> user_part \<Longrightarrow> pt_lookup (pmem s') e u = pt_lookup (pmem s) e u"
      using tables_ok_agree [OF S(2) [OF e] agr] by blast+
  qed
  have dir: "pmem s' (kd + 4 * i) = pmem s (kd + 4 * i)" if "i \<in> kernel_part" for i
    using M(2) [of i] that by (auto simp: kernel_part_def user_part_def word_le_nat_alt word_less_nat_alt)
  note K = tables_ok_cong [where m' = "pmem s'" and m = "pmem s" and d = kd and I = kernel_part, OF dir]
  show "spaces_ok s' D"
    using S T K kds by (simp add: spaces_ok_def kernel_tables_ok_def fields kd_def)
  show "pt_lookup (pmem s') e u = pt_lookup (pmem s) e u" if "e \<in> D" "u \<ge> USERSPACE_BOTTOM" for e u
    using T(3) [OF that(1)] that(2) pd_index_user by blast
  have table: "pmem s' (entry_frame (pmem s (c + 4 * pd_index u)) + 4 * pt_index u) = pmem s (entry_frame (pmem s (c + 4 * pd_index u)) + 4 * pt_index u)"
    if "pt_frame (pmem s) c (pd_index u) \<noteq> kd" for c u
    using M(1) page_of_slot [of "pt_frame (pmem s) c (pd_index u)" "pt_index u"] that pt_index_less
    by (simp add: pt_frame_def entry_frame_page_of)
  show "pt_lookup (pmem s') kd u = pt_lookup (pmem s) kd u" if u: "u < USERSPACE_BOTTOM" for u
  proof -
    have i: "pd_index u \<in> kernel_part" using u pd_index_kernel by blast
    have "pt_frame (pmem s) kd (pd_index u) \<noteq> kd" if "entry_present (pmem s (kd + 4 * pd_index u))"
      using tables_okD(5) [OF S(6), of "pd_index u"] i that by (auto simp: pt_used_def kd_def)
    then show ?thesis using dir [OF i] table [of kd u] by (auto simp: pt_lookup_def Let_def)
  qed
  show "pt_lookup (pmem s') kd u = (if ?d = NULL then None else pt_lookup (pmem s) ?d u)" if u: "u \<ge> USERSPACE_BOTTOM" for u
  proof (cases "?d = NULL")
    case True
    then show ?thesis using M(2) [OF pd_index_less [of u]] u pd_index_user by (simp add: pt_lookup_def)
  next
    case False
    then have dD: "?d \<in> D" using d by blast
    have i: "pd_index u \<in> user_part" using u pd_index_user by blast
    have "pt_frame (pmem s) ?d (pd_index u) \<noteq> kd" if "entry_present (pmem s (?d + 4 * pd_index u))"
    proof -
      have "pt_frame (pmem s) ?d (pd_index u) \<in> pt_pages (pmem s) ?d user_part"
        using i that by (simp add: pt_pages_def pt_used_def)
      then show ?thesis using disjoint_iff [THEN iffD1, OF S(3) [OF dD, folded kd_def]] kd_in by metis
    qed
    then show ?thesis using M(2) [OF pd_index_less [of u]] i table [of ?d u] False by (auto simp: pt_lookup_def Let_def)
  qed
qed

subsection \<open>Page faults of a task\<close>

lemma base_taken_bitmap [simp]:
  "base_page_taken (s\<lparr>free_page_bitmap := b\<rparr>) = base_page_taken s" "base_page_taken (s\<lparr>fast_page_addr := a\<rparr>) = base_page_taken s"
  by (simp_all add: base_page_taken_def fun_eq_iff)

lemma spaces_ok_bitmap:
  "spaces_ok (s\<lparr>free_page_bitmap := b\<rparr>) D = spaces_ok s D" "spaces_ok (s\<lparr>fast_page_addr := a\<rparr>) D = spaces_ok s D"
  by (simp_all add: spaces_ok_def kernel_tables_ok_def)

lemma pages_inv_same: "pages_same s s' \<Longrightarrow> pages_inv l s' = pages_inv l s"
  by (simp add: pages_same_def pages_inv_def)

definition lookups_same :: "paging \<Rightarrow> paging \<Rightarrow> addr \<Rightarrow> bool" where
  "lookups_same s s' d \<longleftrightarrow> (\<forall>u\<ge>USERSPACE_BOTTOM. pt_lookup (pmem s') d u = pt_lookup (pmem s) d u)"

text \<open>A page of physical memory for the area: a fixed one for an exact area, otherwise a free
  page, which is taken.\<close>

definition backing_page :: "kernel \<Rightarrow> vm_area \<Rightarrow> u32 \<Rightarrow> paging \<Rightarrow> u32 \<Rightarrow> bool" where
  "backing_page k v a s' p \<longleftrightarrow>
     (if va_exact v then p = ucast (va_phy_addr v + ucast a - va_virt_addr v) \<and> IS_PAGE_FREE s' = IS_PAGE_FREE (pg k)
      else p \<noteq> 0 \<and> page_aligned p \<and> IS_PAGE_FREE (pg k) p \<and>
        (\<forall>q. page_aligned q \<longrightarrow> IS_PAGE_FREE s' q = (IS_PAGE_FREE (pg k) q \<and> q \<noteq> p)))"

lemma page_for_area:
  assumes ok: "spaces_ok (pg k) D" and inv: "pages_inv (k_layout k) (pg k)" and l: "l = k_layout k"
  obtains (found) p s where "(if va_exact v then Some (ucast (va_phy_addr v + ucast a - va_virt_addr v), pg k) else get_page l (pg k)) = Some (p, s)"
      "va_exact v \<or> p \<noteq> 0" "spaces_ok s D" "pages_inv l s" "pmem s = pmem (pg k)" "kernel_page_directory s = kernel_page_directory (pg k)"
      "backing_page k v a s p" "base_page_taken s = base_page_taken (pg k)"
  | (none) s where "\<not> va_exact v" "get_page l (pg k) = Some (0, s)" "spaces_ok s D" "pages_inv l s" "pmem s = pmem (pg k)"
      "kernel_page_directory s = kernel_page_directory (pg k)"
      "\<And>q. page_aligned q \<Longrightarrow> get_system_memory_start l \<le> q \<Longrightarrow>
         unat q + 4096 < unat (physical_memory_length (pg k)) \<Longrightarrow> \<not> IS_PAGE_FREE (pg k) q"
proof (cases "va_exact v")
  case True
  then show thesis using ok inv by (intro found [OF if_P]) (simp_all add: l backing_page_def)
next
  case False
  show thesis
  proof (rule get_page_spec [OF inv])
    fix t s' assume *: "get_page (k_layout k) (pg k) = Some (t, s')" "t \<noteq> 0" "page_aligned t" "IS_PAGE_FREE (pg k) t"
      "pages_inv (k_layout k) s'" "s' = (pg k)\<lparr>free_page_bitmap := free_page_bitmap s', fast_page_addr := fast_page_addr s'\<rparr>"
      "\<And>q. page_aligned q \<Longrightarrow> IS_PAGE_FREE s' q = (IS_PAGE_FREE (pg k) q \<and> q \<noteq> t)"
    obtain b c where s': "s' = (pg k)\<lparr>free_page_bitmap := b, fast_page_addr := c\<rparr>" using *(6) by blast
    have "spaces_ok s' D" "pmem s' = pmem (pg k)" "kernel_page_directory s' = kernel_page_directory (pg k)"
      "base_page_taken s' = base_page_taken (pg k)"
      using ok by (simp_all add: s' spaces_ok_bitmap)
    then show thesis by (intro found [of t s']) (use * False in \<open>simp_all add: backing_page_def l\<close>)
  next
    fix b assume *: "get_page (k_layout k) (pg k) = Some (0, (pg k)\<lparr>fast_page_addr := b\<rparr>)" "page_aligned b"
      "\<And>q. page_aligned q \<Longrightarrow> get_system_memory_start (k_layout k) \<le> q \<Longrightarrow>
        unat q + 4096 < unat (physical_memory_length (pg k)) \<Longrightarrow> \<not> IS_PAGE_FREE (pg k) q"
    then show thesis
      by (intro none [OF False, of "(pg k)\<lparr>fast_page_addr := b\<rparr>"])
        (use ok inv in \<open>simp_all add: spaces_ok_bitmap pages_inv_def l\<close>)
  qed
qed

definition no_page_left :: "layout \<Rightarrow> paging \<Rightarrow> bool" where
  "no_page_left l s \<longleftrightarrow> (\<forall>q. page_aligned q \<longrightarrow> get_system_memory_start l \<le> q \<longrightarrow>
     unat q + 4096 < unat (physical_memory_length s) \<longrightarrow> \<not> IS_PAGE_FREE s q)"

lemma handle_userspace_page_fault_spec:
  assumes ok: "spaces_ok (pg k) D" and inv: "pages_inv (k_layout k) (pg k)" and d: "page_directory (tasks k t) \<in> D"
    and list: "dlist (lists k) (vma_list t) xs" and dpl: "privilege_level (tasks k t) = DPL_3" and a: "a \<ge> USERSPACE_BOTTOM"
  defines "v \<equiv> vmas k (vma_at (vmas k) xs a)" and "dir \<equiv> page_directory (tasks k t)"
  shows "\<exists>r s'. handle_userspace_page_fault k t a = Some (r, k\<lparr>pg := s'\<rparr>) \<and> spaces_ok s' D \<and> pages_inv (k_layout k) s' \<and>
    others_same (pg k) s' D dir \<and>
    (if vma_at (vmas k) xs a = NULL then r = - ERR_NOT_FOUND \<and> s' = pg k
     else r = OK \<and> (\<exists>p. backing_page k v a s' p \<and>
            mapped_page (pg k) s' dir a (create_pte32 (va_write_permission v) PAGE_PERMISSION_USER (va_page_writethrough v) (va_page_cachedisable v) p)) \<or>
          r = - ERR_OUT_OF_RESOURCE \<and> no_page_left (k_layout k) (pg k) \<and> lookups_same (pg k) s' dir \<or>
          r = - ERR_OUT_OF_MEMORY \<and> (\<forall>q. in_page_space q \<longrightarrow> base_page_taken (pg k) q) \<and> lookups_same (pg k) s' dir)"
proof (cases "vma_at (vmas k) xs a = NULL")
  case True
  then show ?thesis using ok inv dir_not_null [OF ok d] dpl a
    by (intro exI [of _ "- ERR_NOT_FOUND"] exI [of _ "pg k"]) (simp add: handle_userspace_page_fault_def search_by_addr_eq [OF list])
next
  case False
  have run: "handle_userspace_page_fault k t a = do {
       (paddr, s) \<leftarrow> (if va_exact v then Some (ucast (va_phy_addr v + ucast a - va_virt_addr v), pg k)
                     else get_page (k_layout k) (pg k));
       if \<not> va_exact v \<and> paddr = 0 then Some (- ERR_OUT_OF_RESOURCE, k\<lparr>pg := s\<rparr>)
       else do {
         (result, s) \<leftarrow> userspace_map_page s (tasks k t) a paddr (va_write_permission v)
            (va_page_writethrough v) (va_page_cachedisable v);
         if result \<noteq> OK then Some (result, k\<lparr>pg := (if \<not> va_exact v then free_page s paddr else s)\<rparr>)
         else Some (OK, k\<lparr>pg := s\<rparr>) } }"
    unfolding v_def handle_userspace_page_fault_def search_by_addr_eq [OF list] Let_def
    using False dir_not_null [OF ok d] dpl a by simp
  from ok inv refl show ?thesis
  proof (cases rule: page_for_area [where v = v and a = a])
    case (found p s)
    obtain r s2 where 2: "userspace_map_page s (tasks k t) a p (va_write_permission v) (va_page_writethrough v)
          (va_page_cachedisable v) = Some (r, s2)" "spaces_ok s2 D" "others_same s s2 D dir" "pages_same s s2"
        "r = OK \<and> mapped_page s s2 dir a (create_pte32 (va_write_permission v) PAGE_PERMISSION_USER (va_page_writethrough v) (va_page_cachedisable v) p) \<or>
         r = - ERR_OUT_OF_MEMORY \<and> (\<forall>q. in_page_space q \<longrightarrow> base_page_taken s q) \<and> (\<forall>u. pt_lookup (pmem s2) dir u = pt_lookup (pmem s) dir u)"
      using userspace_map_page_spec [OF found(3) d a, of p "va_write_permission v" "va_page_writethrough v" "va_page_cachedisable v"]
      unfolding dir_def by blast
    have os: "others_same (pg k) s2 D dir" using 2(3) found(5,6) by (simp add: others_same_def)
    have inv2: "pages_inv (k_layout k) s2" using pages_inv_same [OF 2(4)] found(4) by simp
    from 2(5) show ?thesis
    proof
      assume r: "r = OK \<and> mapped_page s s2 dir a (create_pte32 (va_write_permission v) PAGE_PERMISSION_USER (va_page_writethrough v) (va_page_cachedisable v) p)"
      have "IS_PAGE_FREE s2 = IS_PAGE_FREE s" using 2(4) by (intro is_free_cong) (simp add: pages_same_def)
      then have "backing_page k v a s2 p" using found(7) by (simp add: backing_page_def)
      moreover have "handle_userspace_page_fault k t a = Some (OK, k\<lparr>pg := s2\<rparr>)" using run found(1,2) 2(1) r by auto
      moreover have "mapped_page (pg k) s2 dir a (create_pte32 (va_write_permission v) PAGE_PERMISSION_USER
          (va_page_writethrough v) (va_page_cachedisable v) p)" using r found(5) by (simp add: mapped_page_def)
      ultimately show ?thesis using False 2(2) inv2 os by auto
    next
      assume r: "r = - ERR_OUT_OF_MEMORY \<and> (\<forall>q. in_page_space q \<longrightarrow> base_page_taken s q) \<and> (\<forall>u. pt_lookup (pmem s2) dir u = pt_lookup (pmem s) dir u)"
      let ?s = "if \<not> va_exact v then free_page s2 p else s2"
      have "handle_userspace_page_fault k t a = Some (- ERR_OUT_OF_MEMORY, k\<lparr>pg := ?s\<rparr>)" using run found(1,2) 2(1) r by auto
      moreover have "spaces_ok ?s D" "others_same (pg k) ?s D dir" "pages_inv (k_layout k) ?s" "lookups_same (pg k) ?s dir"
        using 2(2) os inv2 r found(5) spaces_ok_free_page [of s2 p D]
        by (auto simp: others_same_def free_page_spec lookups_same_def pages_inv_def free_page_eq simp del: spaces_ok_free_page)
      ultimately show ?thesis using False r found(8) by auto
    qed
  next
    case (none s)
    then have "handle_userspace_page_fault k t a = Some (- ERR_OUT_OF_RESOURCE, k\<lparr>pg := s\<rparr>)" using run by simp
    moreover have "others_same (pg k) s D dir" "lookups_same (pg k) s dir" using none(5,6) by (simp_all add: others_same_def lookups_same_def)
    moreover have "no_page_left (k_layout k) (pg k)" using none(7) by (simp add: no_page_left_def)
    ultimately show ?thesis using False none by auto
  qed
qed

subsection \<open>Properties\<close>

text \<open>A kernel with one task whose directory is still empty, and one area of that task.\<close>

definition demo_paging :: paging where
  "demo_paging = \<lparr>free_page_bitmap = (\<lambda>_. 0), free_base_page_bitmap = (\<lambda>_. 0)(0 := 3), kernel_page_directory = 0x4000000,
     fast_base_page_addr = 0x4000000, fast_page_addr = 0, physical_memory_length = 0x20000000, cr3 = 0, pmem = (\<lambda>_. 0)\<rparr>"

definition demo_area :: vm_area where
  "demo_area = \<lparr>va_name = [0], va_kernel_vma = False, va_pre_map = False, va_exact = False, va_write_permission = 1,
     va_page_writethrough = 0, va_page_cachedisable = 0, va_executable = False, va_virt_addr = 0x40000000, va_phy_addr = 0,
     va_length = 0x10000\<rparr>"

definition demo_task :: task where
  "demo_task = \<lparr>task_id = 0, state = TASK_STATE_RUNNING, non_stop_state = TASK_STATE_ZOMBIE, interrupt_depth = 1, cpu = 0,
     signaled_cpu = 0, page_directory = 0x4001000, privilege_level0_stack = 0, signaled_privilege_level0_stack = 0,
     privilege_level0_stack_top = 0, signaled_privilege_level0_stack_top = 0, signal_scheduled = False, signal_pending = False,
     entry = 0, schedule_counter = 0, privilege_level = 3, exit_code = 0, sig_entries = [], file_entries = [], name = [0],
     cwd = [0], priv = 0\<rparr>"

definition demo_cells :: lheap where
  "demo_cells = (\<lambda>_. \<lparr>le_prev = NULL, le_next = NULL\<rparr>)(1048 := \<lparr>le_prev = 2000, le_next = 2000\<rparr>)"

definition demo_kernel :: kernel where
  "demo_kernel = \<lparr>k_layout = \<lparr>kernel_text_start = 0x100000, kernel_text_end = 0x1ff010, kernel_data_start = 0x200000, kernel_data_end = 0x280010,
      kernel_bss_start = 0x281000, kernel_bss_end = 0x300000\<rparr>,
     pg = demo_paging, kvmas = [], lists = demo_cells, vmas = (\<lambda>_. demo_area), tasks = (\<lambda>_. demo_task), waits = (\<lambda>_. 0),
     cpus = (\<lambda>_. \<lparr>edi = 0, esi = 0, ebp = 0, ebx = 0, edx = 0, ecx = 0, eax = 0, gs = 0, fs = 0, es = 0, ds = 0, vector = 0,
       errorcode = 0, eip = 0, cs = 0, eflags = 0, esp = 0, ss = 0\<rparr>), kheap = malloc_init 0x500 \<lparr>headers = (\<lambda>_. zero_header), pad_headers = (\<lambda>_. \<lparr>ph_padding = 0, ph_free = False, ph_magic = 0\<rparr>)\<rparr>,
     recycle_bins = 0x500, files = (\<lambda>_. \<lparr>f_name = [0], f_type = 0, f_mode = 0, refer_count = 0, f_ops = 0, f_priv = 0\<rparr>),
     trees = (\<lambda>_. \<lparr>parent = 0, left = 0, right = 0\<rparr>), user_words = (\<lambda>_. 0), ss0 = 0, esp0 = 0, return_stub = 0x123450, cr2 = 0, current = 1000,
     kernel_idle_task = 0, schedulable = True, task_list_head = 100, task_exit_list_head = 200, task_zombie_list_head = 300,
     task_blocking_list_head = 400, kernel_task_hash_stub = \<lparr>stub_mask = 1023, heads = 0x10000\<rparr>, task_seed = 1,
     timers = (\<lambda>_. \<lparr>timer_state_of = timer_state_idle, time_to_expire = 0, timer_callback = 0, timer_priv = 0\<rparr>),
     timer_heap = 0, jiffies = 0, mount_entries = [], file_systems = (\<lambda>_. \<lparr>fs_ops = 0, filesystem_type = 0, fs_priv = 0\<rparr>),
     mem_blocks = (\<lambda>_. \<lparr>nr_used = 0, blk_content = []\<rparr>), zelda_files = (\<lambda>_. \<lparr>zf_path = [], zf_length = 0, zf_content = []\<rparr>)\<rparr>"

lemma demo_spaces: "spaces_ok demo_paging {0x4001000}"
proof -
  have zero: "pt_used (\<lambda>_. 0) d I = {}" for d I by (simp add: pt_used_def)
  have taken: "base_page_taken demo_paging 0x4000000" "base_page_taken demo_paging 0x4001000"
    by (simp_all add: base_page_taken_def demo_paging_def Let_def)
  have space: "in_page_space 0x4000000" "in_page_space 0x4001000" by (simp_all add: in_page_space_def page_aligned_def)
  have "(\<forall>i\<in>user_part. i < 1024)" "(\<forall>i\<in>kernel_part. i < 1024)"
    by (auto simp: user_part_def kernel_part_def word_less_nat_alt)
  then show ?thesis using taken space
    by (simp add: spaces_ok_def kernel_tables_ok_def tables_ok_def pt_pages_def demo_paging_def zero page_aligned_def)
qed

lemma demo_list: "dlist (lists demo_kernel) (vma_list 1000) [2000]"
  by (simp add: dlist_def demo_kernel_def demo_cells_def vma_list_def)

lemma demo_pages: "pages_inv (k_layout demo_kernel) (pg demo_kernel)"
  by (simp add: pages_inv_def demo_kernel_def demo_paging_def page_aligned_def)

text \<open>C23. Evicting an area of a task that starts at a page boundary and overlaps no other area
  returns; afterwards no page of the area is mapped, the physical pages behind it are free again
  unless the area maps fixed memory, the other pages of the task and the translations of the
  kernel and of all other tasks are as before, and the directories stay well formed and disjoint.\<close>

theorem userspace_evict_vma_correct:
  assumes "spaces_ok (pg k) D" "page_directory (tasks k t) \<in> D" "dlist (lists k) (vma_list t) xs"
    "x \<in> set xs" "\<not> va_kernel_vma (vmas k x)" "user_area (vmas k x)"
    "\<And>w a. w \<in> set xs \<Longrightarrow> w \<noteq> x \<Longrightarrow> covers (vmas k x) a \<Longrightarrow> \<not> covers (vmas k w) a"
  shows "\<exists>s'. userspace_evict_vma k t x = Some (OK, k\<lparr>pg := s'\<rparr>) \<and> spaces_ok s' D \<and>
    others_same (pg k) s' D (page_directory (tasks k t)) \<and>
    evicted (pg k) s' (page_directory (tasks k t)) (area_pages (vmas k x)) (va_exact (vmas k x))"
  using assms by (rule userspace_evict_vma_spec)

theorem userspace_evict_vma_correct_witness:
  "\<exists>s'. userspace_evict_vma demo_kernel 1000 2000 = Some (OK, demo_kernel\<lparr>pg := s'\<rparr>) \<and> spaces_ok s' {0x4001000}"
proof -
  have "spaces_ok (pg demo_kernel) {0x4001000}" using demo_spaces by (simp add: demo_kernel_def)
  moreover have "page_directory (tasks demo_kernel 1000) \<in> {0x4001000}" "\<not> va_kernel_vma (vmas demo_kernel 2000)"
    "user_area (vmas demo_kernel 2000)" by (simp_all add: demo_kernel_def demo_task_def demo_area_def user_area_def)
  ultimately show ?thesis using userspace_evict_vma_correct [OF _ _ demo_list, of "{0x4001000}" 2000] by auto
qed

end
