(* ===== verification/Task_Signal_Correct.thy ===== *)
theory Task_Signal_Correct
  imports Task_Signal Task_Paging_Correct
begin

section \<open>Job control and delivery of signals\<close>

text \<open>
  A live task is described by two bits: whether it is stopped, and whether it is awake, that is,
  runs or will run as soon as it is continued. Stop and continue signals set the first bit, every
  other signal the second, and only that; \<open>signal_task\<close> implements these steps on the pair of
  fields \<open>state\<close> and \<open>non_stop_state\<close>. \<open>sig_ok\<close> is the invariant of the signal entries.
\<close>

fun live_bits :: "task_state \<Rightarrow> (bool \<times> bool) option" where
  "live_bits TASK_STATE_RUNNING = Some (False, True)"
| "live_bits TASK_STATE_INTERRUPTIBLE = Some (False, False)"
| "live_bits _ = None"

definition job :: "task \<Rightarrow> (bool \<times> bool) option" where
  "job t = (if state t = TASK_STATE_UNINTERRUPTIBLE
            then map_option (\<lambda>(_, awake). (True, awake)) (live_bits (non_stop_state t))
            else live_bits (state t))"

definition job_step :: "int \<Rightarrow> bool \<times> bool \<Rightarrow> bool \<times> bool" where
  "job_step act = (\<lambda>(stopped, awake).
     if act = SIG_ACTION_STOP then (True, awake)
     else if act = SIG_ACTION_CONTINUE then (False, awake)
     else (stopped, True))"

definition deferred :: "int \<Rightarrow> bool" where
  "deferred act \<longleftrightarrow> act \<in> {SIG_ACTION_EXIT, SIG_ACTION_IGNORE, SIG_ACTION_USER}"

definition waiting_signals :: "task \<Rightarrow> int set" where
  "waiting_signals t = {sig \<in> {1..<SIG_MAX}. sig_waiting t sig}"

definition sig_ok :: "task \<Rightarrow> bool" where
  "sig_ok t \<longleftrightarrow> length (sig_entries t) = nat SIG_MAX \<and>
     (signal_pending t \<longleftrightarrow> waiting_signals t \<noteq> {}) \<and>
     (\<forall>sig \<in> {1..<SIG_MAX}. sig_waiting t sig \<longrightarrow> deferred (action (sig_entries t ! nat sig))) \<and>
     (\<forall>sig \<in> {1..<SIG_MAX}. overridable (sig_entries t ! nat sig) \<longrightarrow> deferred (action (sig_entries t ! nat sig)))"

lemma upd_sig_tasks: "tasks (upd_sig ta sig f k) = (tasks k)(ta := (tasks k ta)\<lparr>sig_entries :=
    (sig_entries (tasks k ta))[nat sig := f (sig_entries (tasks k ta) ! nat sig)]\<rparr>)"
  by (simp add: upd_sig_def upd_task_def)

lemma waiting_iff: "sig \<in> waiting_signals t \<longleftrightarrow> 1 \<le> sig \<and> sig < SIG_MAX \<and> sig_waiting t sig"
  by (auto simp: waiting_signals_def)

lemma waiting_empty: "waiting_signals t = {} \<longleftrightarrow> (\<forall>sig \<in> {1..<SIG_MAX}. \<not> sig_waiting t sig)"
  by (auto simp: waiting_signals_def)

lemma task_signal_init_ok: "sig_ok ((tasks (task_signal_init ta k) ta)\<lparr>signal_pending := False\<rparr>)"
proof -
  have I: "{1..<SIG_MAX} = set [1..27]" by auto
  have u: "[1..27] = [1,2,3,4,5,6,7,8,9,10,11,12,13,14,15,16,17,18,19,20,21,22,23,24,25,26,27::int]"
    by (simp add: upto.simps)
  show ?thesis
    by (simp add: sig_ok_def waiting_empty I u task_signal_init_def upd_task_def sig_defaults_def
        zero_entry_def sig_waiting_def deferred_def numeral_eq_Suc)
qed

lemma list_nat_eq: "0 < i \<Longrightarrow> 0 < (j::int) \<Longrightarrow> nat i = nat j \<longleftrightarrow> i = j"
  by auto

lemma waiting_set:
  assumes "length (sig_entries t) = nat SIG_MAX" "0 < sig" "sig < SIG_MAX" "valid (sig_entries t ! nat sig)"
  shows "waiting_signals (t\<lparr>sig_entries := (sig_entries t)[nat sig := (sig_entries t ! nat sig)\<lparr>signaled := b\<rparr>]\<rparr>)
    = (if b then insert sig (waiting_signals t) else waiting_signals t - {sig})"
  using assms by (auto simp: waiting_signals_def sig_waiting_def nth_list_update list_nat_eq)

lemma waiting_signals_more [simp]:
  "waiting_signals (t\<lparr>state := s\<rparr>) = waiting_signals t" "waiting_signals (t\<lparr>non_stop_state := s\<rparr>) = waiting_signals t"
  "waiting_signals (t\<lparr>signal_pending := b\<rparr>) = waiting_signals t" "waiting_signals (t\<lparr>signaled_cpu := c\<rparr>) = waiting_signals t"
  "waiting_signals (t\<lparr>signal_scheduled := b\<rparr>) = waiting_signals t"
  by (simp_all add: waiting_signals_def sig_waiting_def)

lemma sig_ok_more [simp]:
  "sig_ok (t\<lparr>state := s\<rparr>) = sig_ok t" "sig_ok (t\<lparr>non_stop_state := s\<rparr>) = sig_ok t"
  "sig_ok (t\<lparr>signaled_cpu := c\<rparr>) = sig_ok t" "sig_ok (t\<lparr>signal_scheduled := b\<rparr>) = sig_ok t"
  by (simp_all add: sig_ok_def sig_waiting_def)

subsection \<open>Signals change the state of a task as the job-control steps do\<close>

lemma transit_state_Some:
  "transit_state ta s k = Some k' \<longleftrightarrow> (state (tasks k ta), s) \<in> set task_state_transition_init \<and>
     k' = upd_task ta (\<lambda>t. t\<lparr>state := s\<rparr>) k"
  by (auto simp: transit_state_def Let_def kassert_def split: if_splits)

lemma upd_task_self: "tasks k ta = t \<Longrightarrow> upd_task ta (\<lambda>_. t) k = k"
  by (auto simp: upd_task_def)

lemma upd_task_const: "upd_task ta f k = upd_task ta (\<lambda>_. f (tasks k ta)) k"
  by (simp add: upd_task_def)

lemma upd_task_twice: "upd_task ta f (upd_task ta g k) = upd_task ta (\<lambda>t. f (g t)) k"
  by (simp add: upd_task_def)

definition restated :: "task \<Rightarrow> task \<Rightarrow> bool" where
  "restated t t' \<longleftrightarrow> t' = t\<lparr>state := state t', non_stop_state := non_stop_state t'\<rparr>"

lemma raw_task_wake_up_spec:
  assumes "job (tasks k ta) = Some (stopped, awake)"
  shows "\<exists>t'. raw_task_wake_up ta k = Some (upd_task ta (\<lambda>_. t') k) \<and>
    restated (tasks k ta) t' \<and> job t' = Some (stopped, True)"
proof (cases "state (tasks k ta)")
  case TASK_STATE_RUNNING
  with assms show ?thesis
    by (intro exI [of _ "tasks k ta"]) (auto simp: raw_task_wake_up_def upd_task_self job_def restated_def)
next
  case TASK_STATE_INTERRUPTIBLE
  with assms show ?thesis
    by (intro exI [of _ "(tasks k ta)\<lparr>state := TASK_STATE_RUNNING\<rparr>"])
      (auto simp: raw_task_wake_up_def upd_task_def job_def transit_state_def kassert_def
        task_state_transition_init_def restated_def)
next
  case TASK_STATE_UNINTERRUPTIBLE
  with assms show ?thesis
    by (intro exI [of _ "(tasks k ta)\<lparr>non_stop_state := TASK_STATE_RUNNING\<rparr>"])
      (cases "non_stop_state (tasks k ta)"; auto simp: raw_task_wake_up_def upd_task_def job_def kassert_def restated_def)
qed (use assms in \<open>auto simp: job_def\<close>)

lemma restated_sigs:
  assumes "restated t t'" shows "waiting_signals t' = waiting_signals t" "sig_ok t' = sig_ok t"
    "sig_entries t' = sig_entries t" "signal_pending t' = signal_pending t"
proof -
  have e: "t' = t\<lparr>state := state t', non_stop_state := non_stop_state t'\<rparr>" using assms by (simp add: restated_def)
  show "waiting_signals t' = waiting_signals t" by (subst e) simp
  show "sig_ok t' = sig_ok t" by (subst e) simp
  show "sig_entries t' = sig_entries t" by (subst e) simp
  show "signal_pending t' = signal_pending t" by (subst e) simp
qed

lemma sig_ok_signal:
  assumes "sig_ok t" "0 < sig" "sig < SIG_MAX" "valid (sig_entries t ! nat sig)" "deferred (action (sig_entries t ! nat sig))"
  shows "sig_ok (t\<lparr>sig_entries := (sig_entries t)[nat sig := (sig_entries t ! nat sig)\<lparr>signaled := True\<rparr>],
    signal_pending := True\<rparr>)"
  using assms unfolding sig_ok_def
  by (simp add: waiting_set) (auto simp: sig_waiting_def nth_list_update)

lemma signal_stop:
  assumes "job (tasks k ta) = Some s" "0 < sig" "sig < SIG_MAX" "valid (sig_entry k ta sig)"
    and "action (sig_entry k ta sig) = SIG_ACTION_STOP \<or> action (sig_entry k ta sig) = SIG_ACTION_CONTINUE"
  shows "\<exists>t'. signal_task ta sig k = Some (OK, upd_task ta (\<lambda>_. t') k) \<and> restated (tasks k ta) t' \<and>
    job t' = Some (job_step (action (sig_entry k ta sig)) s)"
proof -
  let ?t = "tasks k ta"
  note sim = signal_task_def kassert_def transit_state_def task_state_transition_init_def upd_task_twice
  note job = job_def job_step_def restated_def
  consider (stop) "action (sig_entry k ta sig) = SIG_ACTION_STOP" "state ?t \<noteq> TASK_STATE_UNINTERRUPTIBLE"
    | (stopped) "action (sig_entry k ta sig) = SIG_ACTION_STOP" "state ?t = TASK_STATE_UNINTERRUPTIBLE"
    | (cont) "action (sig_entry k ta sig) = SIG_ACTION_CONTINUE" "state ?t = TASK_STATE_UNINTERRUPTIBLE"
    | (running) "action (sig_entry k ta sig) = SIG_ACTION_CONTINUE" "state ?t \<noteq> TASK_STATE_UNINTERRUPTIBLE"
    using assms(5) by blast
  then show ?thesis
  proof cases
    case stop
    let ?t' = "?t\<lparr>non_stop_state := state ?t, state := TASK_STATE_UNINTERRUPTIBLE\<rparr>"
    have st: "state ?t = TASK_STATE_RUNNING \<or> state ?t = TASK_STATE_INTERRUPTIBLE"
      using assms(1) stop by (cases "state ?t") (auto simp: job_def)
    then have "signal_task ta sig k = Some (OK, upd_task ta (\<lambda>_. ?t') k)"
      using stop assms(2-4) by (auto simp: sim)
    then show ?thesis using stop st assms(1) by (intro exI [of _ ?t']) (auto simp: job)
  next
    case stopped
    then have "signal_task ta sig k = Some (OK, upd_task ta (\<lambda>_. ?t) k)"
      using assms(2-4) by (simp add: sim upd_task_self)
    then show ?thesis using stopped assms(1) by (intro exI [of _ ?t]) (auto simp: job)
  next
    case cont
    let ?t' = "?t\<lparr>state := non_stop_state ?t, non_stop_state := TASK_STATE_ZOMBIE\<rparr>"
    have st: "non_stop_state ?t = TASK_STATE_RUNNING \<or> non_stop_state ?t = TASK_STATE_INTERRUPTIBLE"
      using assms(1) cont by (cases "non_stop_state ?t") (auto simp: job_def)
    then have "signal_task ta sig k = Some (OK, upd_task ta (\<lambda>_. ?t') k)"
      using cont assms(2-4) by (auto simp: sim)
    then show ?thesis using cont st assms(1) by (intro exI [of _ ?t']) (auto simp: job)
  next
    case running
    then have "signal_task ta sig k = Some (OK, upd_task ta (\<lambda>_. ?t) k)"
      using assms(2-4) by (simp add: sim upd_task_self)
    then show ?thesis using running assms(1) by (intro exI [of _ ?t], cases "state ?t") (auto simp: job)
  qed
qed

lemma signal_task_spec:
  assumes "sig_ok (tasks k ta)" "job (tasks k ta) = Some s" "0 < sig" "sig < SIG_MAX" "valid (sig_entry k ta sig)"
    and "action (sig_entry k ta sig) \<in> {SIG_ACTION_EXIT..SIG_ACTION_USER}"
  shows "\<exists>t'. signal_task ta sig k = Some (OK, upd_task ta (\<lambda>_. t') k) \<and> sig_ok t' \<and>
    job t' = Some (job_step (action (sig_entry k ta sig)) s) \<and>
    waiting_signals t' = waiting_signals (tasks k ta) \<union> (if deferred (action (sig_entry k ta sig)) then {sig} else {})"
proof (cases "deferred (action (sig_entry k ta sig))")
  case False
  then have "action (sig_entry k ta sig) = SIG_ACTION_STOP \<or> action (sig_entry k ta sig) = SIG_ACTION_CONTINUE"
    using assms(6) by (auto simp: deferred_def)
  from signal_stop [OF assms(2-5) this] obtain t' where
    "signal_task ta sig k = Some (OK, upd_task ta (\<lambda>_. t') k)" and r: "restated (tasks k ta) t'"
    and "job t' = Some (job_step (action (sig_entry k ta sig)) s)" by blast
  then show ?thesis using False assms(1) restated_sigs [OF r] by auto
next
  case True
  define t where "t = (tasks k ta)\<lparr>sig_entries := (sig_entries (tasks k ta))
    [nat sig := (sig_entry k ta sig)\<lparr>signaled := True\<rparr>], signal_pending := True\<rparr>"
  define k1 where "k1 = upd_task ta (\<lambda>_. t) k"
  have "job t = job (tasks k ta)" by (simp add: t_def job_def)
  then have j: "job (tasks k1 ta) = Some (fst s, snd s)" using assms(2) by (simp add: k1_def)
  from raw_task_wake_up_spec [OF j] obtain t' where
    w: "raw_task_wake_up ta k1 = Some (upd_task ta (\<lambda>_. t') k1)" and r: "restated t t'"
    and j': "job t' = Some (fst s, True)" by (auto simp: k1_def)
  have "sig_ok t" unfolding t_def by (rule sig_ok_signal [OF assms(1,3-5) True])
  moreover have "waiting_signals t = insert sig (waiting_signals (tasks k ta))"
    using assms(1,3-5) by (simp add: t_def waiting_set sig_ok_def)
  moreover have "signal_task ta sig k = Some (OK, upd_task ta (\<lambda>_. t') k)"
  proof -
    have "upd_task ta (\<lambda>t. t\<lparr>signal_pending := True\<rparr>) (upd_sig ta sig (\<lambda>e. e\<lparr>signaled := True\<rparr>) k) = k1"
      by (simp add: upd_sig_def upd_task_def k1_def t_def)
    moreover have "action (sig_entry k ta sig) \<noteq> SIG_ACTION_STOP" "action (sig_entry k ta sig) \<noteq> SIG_ACTION_CONTINUE"
      using True by (auto simp: deferred_def)
    moreover have "upd_task ta (\<lambda>_. t') k1 = upd_task ta (\<lambda>_. t') k" by (simp add: k1_def upd_task_twice)
    ultimately show ?thesis using assms(3-5) w by (simp add: signal_task_def kassert_def)
  qed
  moreover have "job_step (action (sig_entry k ta sig)) s = (fst s, True)"
    using True by (cases s) (auto simp: job_step_def deferred_def)
  ultimately show ?thesis using True j' restated_sigs [OF r] by (intro exI [of _ t']) simp
qed

subsection \<open>Delivery\<close>

lemma find_upto_Some:
  "find P [a..b] = Some i \<longleftrightarrow> a \<le> i \<and> i \<le> b \<and> P i \<and> (\<forall>j. a \<le> j \<and> j < i \<longrightarrow> \<not> P j)"
proof (induction a b rule: upto.induct)
  case (1 a b)
  show ?case
  proof (cases "a \<le> b \<and> \<not> P a")
    case True
    have "(\<forall>j. a \<le> j \<and> j < i \<longrightarrow> \<not> P j) = (\<forall>j. a + 1 \<le> j \<and> j < i \<longrightarrow> \<not> P j)"
      using True by (metis order_le_less zless_imp_add1_zle add1_zle_eq)
    moreover have "P i \<Longrightarrow> a \<le> i \<longleftrightarrow> a + 1 \<le> i" using True by (metis add1_zle_eq order_le_less)
    ultimately show ?thesis using 1 True by (simp add: upto_rec1) blast
  next
    case False
    then show ?thesis by (cases "a \<le> b") (auto simp: upto_rec1)
  qed
qed

lemma find_upto_None: "find P [a..b] = None \<longleftrightarrow> (\<forall>j. a \<le> j \<and> j \<le> b \<longrightarrow> \<not> P j)"
  by (auto simp: find_None_iff)

definition taken :: "task \<Rightarrow> int \<Rightarrow> task" where
  "taken t sig = t\<lparr>sig_entries := (sig_entries t)[nat sig := (sig_entries t ! nat sig)\<lparr>signaled := False\<rparr>],
     signal_pending := (waiting_signals t - {sig} \<noteq> {})\<rparr>"

lemma taken_waiting:
  assumes "sig_ok t" "sig \<in> waiting_signals t"
  shows "waiting_signals (taken t sig) = waiting_signals t - {sig}"
proof -
  have "0 < sig" "sig < SIG_MAX" "valid (sig_entries t ! nat sig)" "length (sig_entries t) = nat SIG_MAX"
    using assms by (auto simp: waiting_signals_def sig_waiting_def sig_ok_def)
  then show ?thesis using waiting_set [of t sig False] by (simp add: taken_def)
qed

lemma taken_ok:
  assumes "sig_ok t" "sig \<in> waiting_signals t" shows "sig_ok (taken t sig)"
proof -
  have e: "action (sig_entries (taken t sig) ! i) = action (sig_entries t ! i)"
    "overridable (sig_entries (taken t sig) ! i) = overridable (sig_entries t ! i)"
    "signaled (sig_entries (taken t sig) ! i) \<Longrightarrow> signaled (sig_entries t ! i)"
    "valid (sig_entries (taken t sig) ! i) = valid (sig_entries t ! i)" if "i < 28" for i
  proof -
    have "length (sig_entries t) = 28" using assms(1) by (simp add: sig_ok_def)
    then show "action (sig_entries (taken t sig) ! i) = action (sig_entries t ! i)"
      "overridable (sig_entries (taken t sig) ! i) = overridable (sig_entries t ! i)"
      "signaled (sig_entries (taken t sig) ! i) \<Longrightarrow> signaled (sig_entries t ! i)"
      "valid (sig_entries (taken t sig) ! i) = valid (sig_entries t ! i)"
      using that by (cases "nat sig = i"; auto simp: taken_def)+
  qed
  have "length (sig_entries (taken t sig)) = nat SIG_MAX"
    "signal_pending (taken t sig) = (waiting_signals t - {sig} \<noteq> {})"
    using assms(1) by (simp_all add: taken_def sig_ok_def)
  then show ?thesis
    unfolding sig_ok_def taken_waiting [OF assms] using assms(1) e by (auto simp: sig_ok_def sig_waiting_def)
qed

lemma finite_waiting: "finite (waiting_signals t)"
  by (rule finite_subset [of _ "{1..<SIG_MAX}"]) (auto simp: waiting_signals_def)

lemma find_lowest:
  assumes "waiting_signals t \<noteq> {}"
  shows "find (sig_waiting t) [SIG_INVALID + 1..SIG_MAX - 1] = Some (Min (waiting_signals t))"
proof -
  define m where "m = Min (waiting_signals t)"
  have m: "1 \<le> m" "m < SIG_MAX" "sig_waiting t m"
    using Min_in [OF finite_waiting assms] by (simp_all add: m_def waiting_iff)
  have "\<not> sig_waiting t j" if "1 \<le> j" "j < m" for j
    using that m(2) Min_le [OF finite_waiting, of j t] by (auto simp: m_def waiting_iff)
  with m show ?thesis unfolding find_upto_Some m_def [symmetric] by simp
qed

lemma find_next:
  assumes "sig_ok t" "sig = Min (waiting_signals t)" "waiting_signals t \<noteq> {}"
  shows "find (sig_waiting (t\<lparr>sig_entries := (sig_entries t)[nat sig := (sig_entries t ! nat sig)\<lparr>signaled := False\<rparr>]\<rparr>))
      [sig + 1..SIG_MAX - 1] = None \<longleftrightarrow> waiting_signals t - {sig} = {}"
proof -
  define t1 where "t1 = t\<lparr>sig_entries := (sig_entries t)[nat sig := (sig_entries t ! nat sig)\<lparr>signaled := False\<rparr>]\<rparr>"
  have s: "sig \<in> waiting_signals t" using Min_in [OF finite_waiting assms(3)] assms(2) by simp
  have w: "waiting_signals t1 = waiting_signals t - {sig}"
    using taken_waiting [OF assms(1) s] by (simp add: taken_def t1_def)
  have low: "sig \<le> j" if "j \<in> waiting_signals t" for j
    using assms(2) Min_le [OF finite_waiting that] by simp
  have "(\<forall>j. sig + 1 \<le> j \<and> j \<le> SIG_MAX - 1 \<longrightarrow> \<not> sig_waiting t1 j) \<longleftrightarrow> waiting_signals t1 = {}"
  proof
    assume a: "\<forall>j. sig + 1 \<le> j \<and> j \<le> SIG_MAX - 1 \<longrightarrow> \<not> sig_waiting t1 j"
    { fix j assume j: "j \<in> waiting_signals t1"
      then have "sig \<le> j" "j \<noteq> sig" using w low by auto
      with a j have False by (auto simp: waiting_iff) }
    then show "waiting_signals t1 = {}" by blast
  next
    assume e: "waiting_signals t1 = {}"
    have "1 \<le> sig" using s by (simp add: waiting_iff)
    with e waiting_iff [of _ t1] show "\<forall>j. sig + 1 \<le> j \<and> j \<le> SIG_MAX - 1 \<longrightarrow> \<not> sig_waiting t1 j"
      by auto
  qed
  then show ?thesis unfolding find_upto_None t1_def [symmetric] w .
qed

lemma deliver_signal_eq:
  assumes "sig_ok (tasks k (current k))" "waiting_signals (tasks k (current k)) \<noteq> {}"
    and sig: "sig = Min (waiting_signals (tasks k (current k)))"
  defines "t \<equiv> taken (tasks k (current k)) sig"
  defines "k1 \<equiv> upd_task (current k) (\<lambda>_. t) k"
  shows "deliver_signal k =
    (if action (sig_entries t ! nat sig) = SIG_ACTION_IGNORE then Some (Return k1)
     else if action (sig_entries t ! nat sig) = SIG_ACTION_EXIT
       then map_option Yield (transit_state (current k) TASK_STATE_EXITING k1)
     else if action (sig_entries t ! nat sig) = SIG_ACTION_USER
       then map_option (\<lambda>k'. Return (upd_task (current k) (\<lambda>t. t\<lparr>signal_scheduled := True\<rparr>) k'))
              (prepare_signal_context (current k) sig k1)
     else None)"
proof -
  let ?c = "current k" and ?t = "tasks k (current k)"
  have s: "sig \<in> waiting_signals ?t" using Min_in [OF finite_waiting assms(2)] sig by simp
  then have sg: "signaled (sig_entry k ?c sig)" by (simp add: waiting_iff sig_waiting_def)
  let ?k = "upd_sig ?c sig (\<lambda>e. e\<lparr>signaled := False\<rparr>) k"
  have tk: "tasks ?k ?c = ?t\<lparr>sig_entries := (sig_entries ?t)[nat sig := (sig_entries ?t ! nat sig)\<lparr>signaled := False\<rparr>]\<rparr>"
    by (simp add: upd_sig_tasks)
  have p: "signal_pending ?t" using assms(1,2) by (simp add: sig_ok_def)
  then have p': "?t\<lparr>signal_pending := True\<rparr> = ?t" by simp
  have k1: "(if find (sig_waiting (tasks ?k ?c)) [sig + 1..SIG_MAX - 1] = None
      then upd_task ?c (\<lambda>t. t\<lparr>signal_pending := False\<rparr>) ?k else ?k) = k1"
  proof (cases "waiting_signals ?t - {sig} = {}")
    case True
    then show ?thesis unfolding tk find_next [OF assms(1) sig assms(2)]
      by (simp add: k1_def t_def taken_def upd_sig_def upd_task_def)
  next
    case False
    have "taken ?t sig = ?t\<lparr>sig_entries := (sig_entries ?t)[nat sig := (sig_entries ?t ! nat sig)\<lparr>signaled := False\<rparr>]\<rparr>"
      using False p by (simp add: taken_def)
    with False show ?thesis unfolding tk find_next [OF assms(1) sig assms(2)]
      by (simp add: k1_def t_def upd_sig_def upd_task_def)
  qed
  show ?thesis unfolding deliver_signal_def Let_def find_lowest [OF assms(2)] sig [symmetric] option.case k1
    using sg by (auto simp: kassert_def k1_def map_option_case split: option.splits)
qed

lemma prepare_signal_context_spec:
  assumes "privilege_level (tasks k ta) = DPL_3" "0 < sig" "sig < SIG_MAX" "valid (sig_entry k ta sig)"
    and "action (sig_entry k ta sig) = SIG_ACTION_USER" "user_entry (sig_entry k ta sig) \<noteq> 0"
  defines "c \<equiv> signaled_privilege_level0_stack_top (tasks k ta) - 72"
  shows "\<exists>k'. prepare_signal_context ta sig k = Some k' \<and>
    tasks k' = (tasks k)(ta := (tasks k ta)\<lparr>signaled_cpu := c\<rparr>) \<and> current k' = current k \<and> pg k' = pg k \<and>
    eip (cpus k' c) = user_entry (sig_entry k ta sig) \<and> cs (cpus k' c) = USER_CODE_SELECTOR \<and>
    esp (cpus k' c) = USERSPACE_SIGNAL_STACK_TOP - 0x108 \<and>
    user_words k' (USERSPACE_SIGNAL_STACK_TOP - 0x108) = return_stub k \<and>
    user_words k' (USERSPACE_SIGNAL_STACK_TOP - 0x104) = of_int sig \<and> return_stub k' = return_stub k \<and>
    (\<forall>a. a \<noteq> c \<longrightarrow> cpus k' a = cpus k a)"
  using assms by (simp add: prepare_signal_context_def kassert_def Let_def c_def)

lemma task_process_signal_spec:
  fixes k :: kernel
  defines "t \<equiv> tasks k (current k)"
  defines "sig \<equiv> Min (waiting_signals t)"
  defines "e \<equiv> sig_entries t ! nat sig"
  defines "c \<equiv> signaled_privilege_level0_stack_top t - 72"
  assumes cur: "current k \<noteq> NULL" "privilege_level t = DPL_3" "interrupt_depth t = 1" "state t = TASK_STATE_RUNNING"
    and sig: "sig_ok t" "\<not> signal_scheduled t" "waiting_signals t \<noteq> {}"
    and handlers: "action e = SIG_ACTION_USER \<Longrightarrow> user_entry e \<noteq> 0"
  shows "action e = SIG_ACTION_IGNORE \<and>
      task_process_signal sp k = Some (Return (sp, upd_task (current k) (\<lambda>_. taken t sig) k)) \<or>
    action e = SIG_ACTION_EXIT \<and>
      task_process_signal sp k = Some (Yield (upd_task (current k) (\<lambda>_. (taken t sig)\<lparr>state := TASK_STATE_EXITING\<rparr>) k)) \<or>
    action e = SIG_ACTION_USER \<and>
      (\<exists>k'. task_process_signal sp k = Some (Return (c, k')) \<and>
        tasks k' = (tasks k)(current k := (taken t sig)\<lparr>signaled_cpu := c, signal_scheduled := True\<rparr>) \<and>
        current k' = current k \<and> esp0 k' = signaled_privilege_level0_stack_top t \<and>
        eip (cpus k' c) = user_entry e \<and> cs (cpus k' c) = USER_CODE_SELECTOR \<and>
        esp (cpus k' c) = USERSPACE_SIGNAL_STACK_TOP - 0x108 \<and>
        user_words k' (USERSPACE_SIGNAL_STACK_TOP - 0x108) = return_stub k \<and>
        user_words k' (USERSPACE_SIGNAL_STACK_TOP - 0x104) = of_int sig \<and>
        return_stub k' = return_stub k \<and> (\<forall>a. a \<noteq> c \<longrightarrow> cpus k' a = cpus k a))"
proof -
  let ?k1 = "upd_task (current k) (\<lambda>_. taken t sig) k"
  have s: "sig \<in> waiting_signals t" using Min_in [OF finite_waiting sig(3)] by (simp add: sig_def)
  then have v: "0 < sig" "sig < SIG_MAX" "valid e" by (simp_all add: waiting_iff sig_waiting_def e_def)
  have act: "deferred (action e)" using s sig(1) by (auto simp: sig_ok_def waiting_iff e_def)
  have len: "length (sig_entries t) = 28" using sig(1) by (simp add: sig_ok_def)
  have e': "sig_entries (taken t sig) ! nat sig = e\<lparr>signaled := False\<rparr>"
    using v len by (simp add: taken_def e_def)
  have t1: "privilege_level (taken t sig) = privilege_level t" "state (taken t sig) = state t"
    "signal_scheduled (taken t sig) = signal_scheduled t"
    "signaled_privilege_level0_stack_top (taken t sig) = signaled_privilege_level0_stack_top t"
    by (simp_all add: taken_def)
  have p: "signal_pending t" using sig by (simp add: sig_ok_def)
  have tp: "task_process_signal sp k = map_option (case_control (\<lambda>k. Return (signal_out sp k)) Yield) (deliver_signal k)"
    using cur sig(2) p by (auto simp: task_process_signal_def kassert_def t_def map_option_case bind_eq_None_conv
        split: option.splits control.splits)
  note d = deliver_signal_eq [OF sig(1,3) [unfolded t_def] refl, folded t_def, folded sig_def]
  consider (ign) "action e = SIG_ACTION_IGNORE" | (exit) "action e = SIG_ACTION_EXIT" | (user) "action e = SIG_ACTION_USER"
    using act by (auto simp: deferred_def)
  then show ?thesis
  proof cases
    case ign
    then show ?thesis using sig(2) t1 by (simp add: tp d e' signal_out_def)
  next
    case exit
    then show ?thesis using cur t1
      by (simp add: tp d e' transit_state_def kassert_def task_state_transition_init_def upd_task_twice)
  next
    case user
    obtain k' where pc: "prepare_signal_context (current k) sig ?k1 = Some k'"
      and tk: "tasks k' = (tasks k)(current k := (taken t sig)\<lparr>signaled_cpu := c\<rparr>)" and ck: "current k' = current k"
      and fr: "eip (cpus k' c) = user_entry e" "cs (cpus k' c) = USER_CODE_SELECTOR"
        "esp (cpus k' c) = USERSPACE_SIGNAL_STACK_TOP - 0x108"
        "user_words k' (USERSPACE_SIGNAL_STACK_TOP - 0x108) = return_stub k"
        "user_words k' (USERSPACE_SIGNAL_STACK_TOP - 0x104) = of_int sig"
        "return_stub k' = return_stub k" "\<forall>a. a \<noteq> c \<longrightarrow> cpus k' a = cpus k a"
      using prepare_signal_context_spec [of ?k1 "current k" sig] user v cur(2) handlers [OF user]
      by (auto simp: e' t1 c_def)
    let ?k2 = "upd_task (current k) (\<lambda>t. t\<lparr>signal_scheduled := True\<rparr>) k'"
    let ?k3 = "set_tss_privilege_level0_stack (signaled_privilege_level0_stack_top t) ?k2"
    have "deliver_signal k = Some (Return ?k2)" using user by (simp add: d e' pc)
    moreover have "signal_out sp ?k2 = (c, ?k3)" using cur(1) by (simp add: signal_out_def ck tk t1)
    ultimately have "task_process_signal sp k = Some (Return (c, ?k3))" by (simp add: tp)
    then show ?thesis using user fr tk ck
      by (intro disjI2 conjI exI [of _ ?k3]) (simp_all add: set_tss_privilege_level0_stack_def)
  qed
qed

lemma sig_ok_override:
  fixes h :: u32
  assumes "sig_ok t" "0 < sig" "sig < SIG_MAX" "valid (sig_entries t ! nat sig)"
  defines "t' \<equiv> t\<lparr>sig_entries := (sig_entries t)[nat sig := (sig_entries t ! nat sig)\<lparr>action := SIG_ACTION_USER, user_entry := h\<rparr>]\<rparr>"
  shows "sig_ok t'" and "waiting_signals t' = waiting_signals t"
proof -
  have len: "length (sig_entries t) = 28" using assms(1) by (simp add: sig_ok_def)
  have e: "valid (sig_entries t' ! i) = valid (sig_entries t ! i)" "signaled (sig_entries t' ! i) = signaled (sig_entries t ! i)"
    "overridable (sig_entries t' ! i) = overridable (sig_entries t ! i)"
    "action (sig_entries t' ! i) = (if i = nat sig then SIG_ACTION_USER else action (sig_entries t ! i))" if "i < 28" for i
    using len that by (cases "nat sig = i"; simp add: t'_def)+
  then show w: "waiting_signals t' = waiting_signals t" by (auto simp: waiting_signals_def sig_waiting_def)
  have "length (sig_entries t') = 28" "signal_pending t' = signal_pending t" using len by (simp_all add: t'_def)
  moreover have "deferred (action (sig_entries t' ! nat i))"
    if "i \<in> {1..<SIG_MAX}" "sig_waiting t' i \<or> overridable (sig_entries t' ! nat i)" for i
  proof -
    have "deferred (action (sig_entries t ! nat i))"
      using assms(1) that e [of "nat i"] unfolding sig_ok_def by (auto simp: sig_waiting_def)
    moreover have "nat i < 28" using that(1) by auto
    ultimately show ?thesis using e(4) [of "nat i"] by (auto simp: deferred_def)
  qed
  ultimately show "sig_ok t'" using w assms(1) unfolding sig_ok_def by auto
qed

lemma null_handler_panics_spec:
  fixes k :: kernel
  defines "t \<equiv> tasks k (current k)"
  assumes cur: "current k \<noteq> NULL" "privilege_level t = DPL_3" "interrupt_depth t = 1" "state t = TASK_STATE_RUNNING"
    and sig: "sig_ok t" "\<not> signal_scheduled t" "waiting_signals t = {}"
    and s: "0 < sig" "sig < SIG_MAX" "valid (sig_entries t ! nat sig)" "overridable (sig_entries t ! nat sig)"
  shows "\<exists>k1 k2. call_sys_signal sig 0 k = Some (OK, k1) \<and> signal_task (current k) sig k1 = Some (OK, k2) \<and>
    task_process_signal sp k2 = None"
proof -
  define t1 where "t1 = t\<lparr>sig_entries := (sig_entries t)[nat sig := (sig_entries t ! nat sig)\<lparr>action := SIG_ACTION_USER, user_entry := 0\<rparr>]\<rparr>"
  define t2 where "t2 = t1\<lparr>sig_entries := (sig_entries t1)[nat sig := (sig_entries t1 ! nat sig)\<lparr>signaled := True\<rparr>], signal_pending := True\<rparr>"
  define k1 where "k1 = upd_task (current k) (\<lambda>_. t1) k"
  define k2 where "k2 = upd_task (current k) (\<lambda>_. t2) k"
  have len: "length (sig_entries t) = 28" using sig(1) by (simp add: sig_ok_def)
  have "call_sys_signal sig 0 k = Some (OK, k1)"
    using cur s by (simp add: call_sys_signal_def kassert_def upd_sig_def k1_def t1_def t_def upd_task_def)
  moreover have "signal_task (current k) sig k1 = Some (OK, k2)"
    using cur s len by (simp add: signal_task_def kassert_def upd_sig_def raw_task_wake_up_def upd_task_def
        k1_def k2_def t1_def t2_def t_def)
  moreover have "task_process_signal sp k2 = None"
  proof -
    have v1: "valid (sig_entries t1 ! nat sig)" "deferred (action (sig_entries t1 ! nat sig))"
      using s len by (simp_all add: t1_def deferred_def)
    have o1: "sig_ok t1" and w1: "waiting_signals t1 = {}"
      using sig_ok_override [OF sig(1) s(1-3), where h = 0] sig(3) by (simp_all add: t1_def)
    have o2: "sig_ok t2" unfolding t2_def by (rule sig_ok_signal [OF o1 s(1,2) v1])
    have l1: "length (sig_entries t1) = nat SIG_MAX" using o1 by (simp add: sig_ok_def)
    have w2: "waiting_signals t2 = {sig}" using waiting_set [OF l1 s(1,2) v1(1), of True] w1 by (simp add: t2_def)
    have e: "sig_entries (taken t2 sig) ! nat sig = (sig_entries t ! nat sig)\<lparr>action := SIG_ACTION_USER, user_entry := 0, signaled := False\<rparr>"
      using s len by (simp add: taken_def t2_def t1_def)
    have c2: "current k2 = current k" "tasks k2 (current k) = t2" by (simp_all add: k2_def)
    have "prepare_signal_context (current k) sig (upd_task (current k) (\<lambda>_. taken t2 sig) k2) = None"
      using e by (simp add: prepare_signal_context_def kassert_def)
    moreover have "sig_ok (tasks k2 (current k2))" "waiting_signals (tasks k2 (current k2)) \<noteq> {}"
      "sig = Min (waiting_signals (tasks k2 (current k2)))" using o2 w2 by (simp_all add: c2)
    note deliver_signal_eq [OF this, unfolded c2 e]
    ultimately have "deliver_signal k2 = None" by simp
    moreover have "state t2 = TASK_STATE_RUNNING" "privilege_level t2 = DPL_3" "interrupt_depth t2 = 1"
      "\<not> signal_scheduled t2" "signal_pending t2" using cur sig(2) by (simp_all add: t2_def t1_def)
    ultimately show ?thesis using cur(1) by (simp add: task_process_signal_def k2_def kassert_def)
  qed
  ultimately show ?thesis by blast
qed

subsection \<open>Properties\<close>

text \<open>C27. Signals and job control. For every live task, every valid signal is accepted by
  \<open>signal_task\<close> without a failed assertion, and changes the task as the two-bit job-control machine
  says: a stop signal stops the task, a continue signal continues it, any other wakes it up without
  continuing a stopped one. Exactly the signals with a deferred action become pending, and the
  invariant of the signal entries is kept. Nothing else of the kernel changes.\<close>
theorem signal_task_correct:
  assumes "sig_ok (tasks k ta)" "job (tasks k ta) = Some s" "0 < sig" "sig < SIG_MAX" "valid (sig_entry k ta sig)"
    and "action (sig_entry k ta sig) \<in> {SIG_ACTION_EXIT..SIG_ACTION_USER}"
  shows "\<exists>t'. signal_task ta sig k = Some (OK, upd_task ta (\<lambda>_. t') k) \<and> sig_ok t' \<and>
    job t' = Some (job_step (action (sig_entry k ta sig)) s) \<and>
    waiting_signals t' = waiting_signals (tasks k ta) \<union> (if deferred (action (sig_entry k ta sig)) then {sig} else {})"
  using signal_task_spec [OF assms] .

definition signal_demo :: kernel where
  "signal_demo = task_signal_init 1000 demo_kernel"

lemma signal_demo_task: "sig_ok (tasks signal_demo 1000)" "state (tasks signal_demo 1000) = TASK_STATE_RUNNING"
  "privilege_level (tasks signal_demo 1000) = DPL_3" "interrupt_depth (tasks signal_demo 1000) = 1"
  "\<not> signal_scheduled (tasks signal_demo 1000)" "current signal_demo = 1000" "\<not> signal_pending (tasks signal_demo 1000)"
proof -
  show p: "\<not> signal_pending (tasks signal_demo 1000)" 
    by (simp add: signal_demo_def task_signal_init_def demo_kernel_def demo_task_def)
  have "(tasks signal_demo 1000)\<lparr>signal_pending := False\<rparr> = tasks signal_demo 1000" using p by simp
  then show "sig_ok (tasks signal_demo 1000)" using task_signal_init_ok [of 1000 demo_kernel] by (simp add: signal_demo_def)
qed (simp_all add: signal_demo_def task_signal_init_def demo_kernel_def demo_task_def)

lemma signal_demo_entries: "sig_entries (tasks signal_demo 1000) ! 23 = \<lparr>valid = True, signaled = False, overridable = False, action = SIG_ACTION_STOP, user_entry = 0\<rparr>"
  "sig_entries (tasks signal_demo 1000) ! 2 = \<lparr>valid = True, signaled = False, overridable = True, action = SIG_ACTION_EXIT, user_entry = 0\<rparr>"
  by (simp_all add: signal_demo_def task_signal_init_def demo_kernel_def demo_task_def sig_defaults_def zero_entry_def numeral_eq_Suc)

lemma signal_demo_waiting: "waiting_signals (tasks signal_demo 1000) = {}"
  using signal_demo_task(1,7) by (simp add: sig_ok_def)

theorem signal_task_correct_witness:
  "\<exists>t'. signal_task 1000 SIGSTOP signal_demo = Some (OK, upd_task 1000 (\<lambda>_. t') signal_demo) \<and> sig_ok t' \<and> job t' = Some (True, True)"
proof -
  have "job (tasks signal_demo 1000) = Some (False, True)" by (simp add: job_def signal_demo_task)
  from signal_task_correct [OF signal_demo_task(1) this, of SIGSTOP] show ?thesis
    by (auto simp: signal_demo_entries job_step_def)
qed

text \<open>C25. Delivery of signals. When a running user task with pending signals is about to return to
  user mode, the lowest pending signal is taken, and only that. An ignored one leaves the stack pointer
  alone; a fatal one puts the task in the exiting state and gives up the processor; for one with a
  handler the interrupt returns through a new frame on the signal stack, which enters the handler
  with the signal number as its argument and the kernel's return stub as its return address, and
  the task state segment points to the signal stack.\<close>
theorem task_process_signal_correct:
  fixes k :: kernel
  defines "t \<equiv> tasks k (current k)"
  defines "sig \<equiv> Min (waiting_signals t)"
  defines "e \<equiv> sig_entries t ! nat sig"
  defines "c \<equiv> signaled_privilege_level0_stack_top t - 72"
  assumes cur: "current k \<noteq> NULL" "privilege_level t = DPL_3" "interrupt_depth t = 1" "state t = TASK_STATE_RUNNING"
    and sig: "sig_ok t" "\<not> signal_scheduled t" "waiting_signals t \<noteq> {}"
    and handlers: "action e = SIG_ACTION_USER \<Longrightarrow> user_entry e \<noteq> 0"
  shows "sig_ok (taken t sig) \<and> waiting_signals (taken t sig) = waiting_signals t - {sig} \<and>
   (action e = SIG_ACTION_IGNORE \<and>
      task_process_signal sp k = Some (Return (sp, upd_task (current k) (\<lambda>_. taken t sig) k)) \<or>
    action e = SIG_ACTION_EXIT \<and>
      task_process_signal sp k = Some (Yield (upd_task (current k) (\<lambda>_. (taken t sig)\<lparr>state := TASK_STATE_EXITING\<rparr>) k)) \<or>
    action e = SIG_ACTION_USER \<and>
      (\<exists>k'. task_process_signal sp k = Some (Return (c, k')) \<and>
        tasks k' = (tasks k)(current k := (taken t sig)\<lparr>signaled_cpu := c, signal_scheduled := True\<rparr>) \<and>
        current k' = current k \<and> esp0 k' = signaled_privilege_level0_stack_top t \<and>
        eip (cpus k' c) = user_entry e \<and> cs (cpus k' c) = USER_CODE_SELECTOR \<and>
        esp (cpus k' c) = USERSPACE_SIGNAL_STACK_TOP - 0x108 \<and>
        user_words k' (USERSPACE_SIGNAL_STACK_TOP - 0x108) = return_stub k \<and>
        user_words k' (USERSPACE_SIGNAL_STACK_TOP - 0x104) = of_int sig))"
proof -
  have "sig \<in> waiting_signals t" using Min_in [OF finite_waiting sig(3)] by (simp add: sig_def)
  from taken_ok [OF sig(1) this] taken_waiting [OF sig(1) this] show ?thesis
    using task_process_signal_spec [of k sp] assms by blast
qed

definition pending_demo :: kernel where
  "pending_demo = upd_task 1000 (\<lambda>t. t\<lparr>sig_entries := (sig_entries t)[2 := (sig_entries t ! 2)\<lparr>signaled := True\<rparr>], signal_pending := True\<rparr>) signal_demo"

theorem task_process_signal_correct_witness:
  "\<exists>k'. task_process_signal 0x5000 pending_demo = Some (Yield k') \<and> state (tasks k' 1000) = TASK_STATE_EXITING"
proof -
  let ?t = "tasks pending_demo 1000"
  have c: "current pending_demo = 1000" "privilege_level ?t = DPL_3" "interrupt_depth ?t = 1" "state ?t = TASK_STATE_RUNNING"
    "\<not> signal_scheduled ?t" using signal_demo_task by (simp_all add: pending_demo_def)
  have len: "length (sig_entries (tasks signal_demo 1000)) = nat SIG_MAX" using signal_demo_task(1) by (simp add: sig_ok_def)
  have e2: "valid (sig_entries (tasks signal_demo 1000) ! nat 2)" "deferred (action (sig_entries (tasks signal_demo 1000) ! nat 2))"
    using signal_demo_entries(2) by (simp_all add: deferred_def)
  have ok: "sig_ok ?t" using sig_ok_signal [OF signal_demo_task(1) _ _ e2] by (simp add: pending_demo_def)
  have w: "waiting_signals ?t = {2}"
    using waiting_set [OF len _ _ e2(1), of True] signal_demo_waiting by (simp add: pending_demo_def)
  have a: "action (sig_entries ?t ! 2) = SIG_ACTION_EXIT"
    using signal_demo_entries(2) len by (simp add: pending_demo_def)
  show ?thesis using task_process_signal_correct [where k = pending_demo and sp = "0x5000"] c ok w a by simp
qed

text \<open>C28. A null handler stops the kernel. \<open>call_sys_signal\<close> accepts a null handler for every
  overridable signal; the next delivery of that signal to the task then fails the assertion of
  \<open>prepare_signal_context\<close>, so that any user task can bring the kernel down.\<close>
theorem null_handler_panics:
  fixes k :: kernel
  defines "t \<equiv> tasks k (current k)"
  assumes cur: "current k \<noteq> NULL" "privilege_level t = DPL_3" "interrupt_depth t = 1" "state t = TASK_STATE_RUNNING"
    and sig: "sig_ok t" "\<not> signal_scheduled t" "waiting_signals t = {}"
    and s: "0 < sig" "sig < SIG_MAX" "valid (sig_entries t ! nat sig)" "overridable (sig_entries t ! nat sig)"
  shows "\<exists>k1 k2. call_sys_signal sig 0 k = Some (OK, k1) \<and> signal_task (current k) sig k1 = Some (OK, k2) \<and>
    task_process_signal sp k2 = None"
  using null_handler_panics_spec [of k sig sp] assms by blast

theorem null_handler_panics_witness:
  "\<exists>k1 k2. call_sys_signal SIGINT 0 signal_demo = Some (OK, k1) \<and> signal_task 1000 SIGINT k1 = Some (OK, k2) \<and>
    task_process_signal 0x5000 k2 = None"
  using null_handler_panics [where k = signal_demo and sig = SIGINT and sp = "0x5000"] signal_demo_task signal_demo_entries(2) signal_demo_waiting by simp

end
