(* ===== verification/Page_Fault.thy ===== *)
theory Page_Fault
  imports Interrupt Task_Signal_Correct
begin

section \<open>Page faults (\<^verbatim>\<open>memory/paging_fault.c\<close>)\<close>

text \<open>
  A fault below the user space is repaired from the areas of the kernel, except that a protection
  fault at the return stub ends the signal context of the task. A fault in the user space is
  repaired from the areas of the current task. The processor leaves the address in \<open>cr2\<close>.
\<close>

definition handle_kernel_page_fault :: "addr \<Rightarrow> u32 \<Rightarrow> u32 \<Rightarrow> kernel \<Rightarrow> (int \<times> u32 \<times> kernel) option" where
  "handle_kernel_page_fault c linear_addr p_esp k = do {
     let error_code = errorcode (cpus k c);
     kassert (linear_addr < USERSPACE_BOTTOM);
     if error_code AND 0x1 = 0x0 then
       (case search_kernel_vma (kvmas k) linear_addr of
          Some vma \<Rightarrow> do {
            (phy_addr, s) \<leftarrow> (if kv_exact vma then Some (linear_addr - kv_virt_addr vma + kv_phy_addr vma, pg k)
                             else get_page (k_layout k) (pg k));
            kassert (phy_addr \<noteq> 0);
            s \<leftarrow> kernel_map_page s linear_addr phy_addr (kv_write_permission vma) (kv_page_writethrough vma)
                  (kv_page_cachedisable vma);
            Some (OK, p_esp, k\<lparr>pg := s\<rparr>) }
        | None \<Rightarrow> None)
     else if linear_addr = return_stub k then return_from_pl3_signal_context p_esp k
     else if current k \<noteq> NULL then do {
       (_, k) \<leftarrow> signal_task (current k) SIGKILL k;
       Some (OK, p_esp, k) }
     else Some (OK, p_esp, k) }"

definition paging_fault_handler :: "addr \<Rightarrow> kernel \<Rightarrow> (u32 \<times> kernel) option" where
  "paging_fault_handler c k = do {
     let linear_addr = cr2 k;
     (result, sp, k) \<leftarrow>
       (if linear_addr < USERSPACE_BOTTOM then do {
          (result, sp, k) \<leftarrow> handle_kernel_page_fault c linear_addr c k;
          Some (result, sp, if result = OK then (if current k \<noteq> NULL then upd_pg (\<lambda>s. enable_task_paging s (tasks k (current k))) k
             else upd_pg enable_kernel_paging k) else k) }
        else do {
          kassert (current k \<noteq> NULL);
          (result, k) \<leftarrow> handle_userspace_page_fault k (current k) linear_addr;
          Some (result, c, if result = OK then (if current k \<noteq> NULL then upd_pg (\<lambda>s. enable_task_paging s (tasks k (current k))) k
             else upd_pg enable_kernel_paging k) else k) });
     if result \<noteq> OK then None else Some (sp, k) }"

definition paging_fault_init :: "u32 \<Rightarrow> intr \<Rightarrow> intr option" where
  "paging_fault_init e i = register_interrupt_handler 14 e i"

subsection \<open>Demand paging of the user space\<close>

lemma user_page_fault_spec:
  fixes k :: kernel
  defines "t \<equiv> tasks k (current k)" and "a \<equiv> cr2 k" and "kd \<equiv> kernel_page_directory (pg k)"
  assumes ok: "spaces_ok (pg k) D" and inv: "pages_inv (k_layout k) (pg k)" and d: "page_directory t \<in> D"
    and list: "dlist (lists k) (vma_list (current k)) xs" and dpl: "privilege_level t = DPL_3" and a: "a \<ge> USERSPACE_BOTTOM"
    and cur: "current k \<noteq> NULL"
  defines "v \<equiv> vmas k (vma_at (vmas k) xs a)"
  shows "paging_fault_handler c k = None \<and>
      (vma_at (vmas k) xs a = NULL \<or> no_page_left (k_layout k) (pg k) \<or> (\<forall>q. in_page_space q \<longrightarrow> base_page_taken (pg k) q)) \<or>
    vma_at (vmas k) xs a \<noteq> NULL \<and>
      (\<exists>s' p. paging_fault_handler c k = Some (c, k\<lparr>pg := s'\<rparr>) \<and> spaces_ok s' D \<and> cr3 s' = kd \<and> backing_page k v a s' p \<and>
        pt_lookup (pmem s') kd a = Some (create_pte32 (va_write_permission v) PAGE_PERMISSION_USER (va_page_writethrough v) (va_page_cachedisable v) p) \<and>
        (\<forall>u<USERSPACE_BOTTOM. pt_lookup (pmem s') kd u = pt_lookup (pmem (pg k)) kd u) \<and>
        (\<forall>e\<in>D. \<forall>u\<ge>USERSPACE_BOTTOM. (e, page_of u) \<noteq> (page_directory t, page_of a) \<longrightarrow>
           pt_lookup (pmem s') e u = pt_lookup (pmem (pg k)) e u))"
proof -
  obtain r s where h: "handle_userspace_page_fault k (current k) a = Some (r, k\<lparr>pg := s\<rparr>)" and ok': "spaces_ok s D"
    and os: "others_same (pg k) s D (page_directory t)"
    and rs: "if vma_at (vmas k) xs a = NULL then r = - ERR_NOT_FOUND \<and> s = pg k
     else r = OK \<and> (\<exists>p. backing_page k v a s p \<and>
            mapped_page (pg k) s (page_directory t) a (create_pte32 (va_write_permission v) PAGE_PERMISSION_USER (va_page_writethrough v) (va_page_cachedisable v) p)) \<or>
          r = - ERR_OUT_OF_RESOURCE \<and> no_page_left (k_layout k) (pg k) \<and> lookups_same (pg k) s (page_directory t) \<or>
          r = - ERR_OUT_OF_MEMORY \<and> (\<forall>q. in_page_space q \<longrightarrow> base_page_taken (pg k) q) \<and> lookups_same (pg k) s (page_directory t)"
    using handle_userspace_page_fault_spec [OF ok inv d [unfolded t_def] list dpl [unfolded t_def] a]
    unfolding t_def v_def by blast
  have run: "paging_fault_handler c k = (if r \<noteq> OK then None else Some (c, k\<lparr>pg := enable_task_paging s t\<rparr>))"
    using a cur h by (simp add: paging_fault_handler_def a_def [symmetric] not_less [symmetric] t_def upd_pg_def)
  show ?thesis
  proof (cases "r = OK")
    case False
    then show ?thesis using run rs by (auto split: if_splits)
  next
    case True
    then obtain p where nz: "vma_at (vmas k) xs a \<noteq> NULL" and b: "backing_page k v a s p"
      and m: "mapped_page (pg k) s (page_directory t) a (create_pte32 (va_write_permission v) PAGE_PERMISSION_USER (va_page_writethrough v) (va_page_cachedisable v) p)"
      using rs by (auto split: if_splits)
    let ?s = "enable_task_paging s t"
    have kd: "kernel_page_directory s = kd" using os by (simp add: others_same_def kd_def)
    note E = enable_task_paging_spec [OF ok' disjI2 [OF d], unfolded kd]
    have nn: "page_directory t \<noteq> NULL" using dir_not_null [OF ok d] .
    have "IS_PAGE_FREE ?s = IS_PAGE_FREE s" using E(4) by (intro is_free_cong) (simp add: pages_same_def)
    then have "backing_page k v a ?s p" using b by (simp add: backing_page_def)
    moreover have "pt_lookup (pmem ?s) kd a = Some (create_pte32 (va_write_permission v) PAGE_PERMISSION_USER (va_page_writethrough v) (va_page_cachedisable v) p)"
      using E(7) [OF a] nn m a by (simp add: mapped_page_def)
    moreover have "\<forall>u<USERSPACE_BOTTOM. pt_lookup (pmem ?s) kd u = pt_lookup (pmem (pg k)) kd u"
      using E(5) os by (simp add: others_same_def kd_def)
    moreover have "\<forall>e\<in>D. \<forall>u\<ge>USERSPACE_BOTTOM. (e, page_of u) \<noteq> (page_directory t, page_of a) \<longrightarrow>
        pt_lookup (pmem ?s) e u = pt_lookup (pmem (pg k)) e u"
      using E(6) os m by (auto simp: others_same_def mapped_page_def)
    ultimately show ?thesis using run True nz E(1,2) by auto
  qed
qed

subsection \<open>The end of a signal handler\<close>



subsection \<open>Properties\<close>

text \<open>C22. Demand paging. A fault of a user task inside one of its areas returns to the faulting frame, with
  the page mapped as the area says, to its fixed physical page or to one that was free and now
  is taken. The translation is in the directory the processor uses; the kernel's translations and all other
  translations of every address space are unchanged. The kernel panics exactly when the address is in no area, or when
  memory for the page or its table is exhausted.\<close>
theorem user_page_fault_correct:
  fixes k :: kernel
  defines "t \<equiv> tasks k (current k)" and "a \<equiv> cr2 k" and "kd \<equiv> kernel_page_directory (pg k)"
  assumes ok: "spaces_ok (pg k) D" and inv: "pages_inv (k_layout k) (pg k)" and d: "page_directory t \<in> D"
    and list: "dlist (lists k) (vma_list (current k)) xs" and dpl: "privilege_level t = DPL_3" and a: "a \<ge> USERSPACE_BOTTOM"
    and cur: "current k \<noteq> NULL"
  defines "v \<equiv> vmas k (vma_at (vmas k) xs a)"
  shows "paging_fault_handler c k = None \<and>
      (vma_at (vmas k) xs a = NULL \<or> no_page_left (k_layout k) (pg k) \<or> (\<forall>q. in_page_space q \<longrightarrow> base_page_taken (pg k) q)) \<or>
    vma_at (vmas k) xs a \<noteq> NULL \<and>
      (\<exists>s' p. paging_fault_handler c k = Some (c, k\<lparr>pg := s'\<rparr>) \<and> spaces_ok s' D \<and> cr3 s' = kd \<and> backing_page k v a s' p \<and>
        pt_lookup (pmem s') kd a = Some (create_pte32 (va_write_permission v) PAGE_PERMISSION_USER (va_page_writethrough v) (va_page_cachedisable v) p) \<and>
        (\<forall>u<USERSPACE_BOTTOM. pt_lookup (pmem s') kd u = pt_lookup (pmem (pg k)) kd u) \<and>
        (\<forall>e\<in>D. \<forall>u\<ge>USERSPACE_BOTTOM. (e, page_of u) \<noteq> (page_directory t, page_of a) \<longrightarrow>
           pt_lookup (pmem s') e u = pt_lookup (pmem (pg k)) e u))"
  using user_page_fault_spec [where k = k and c = c] assms by blast

theorem user_page_fault_correct_witness:
  "paging_fault_handler 0x5000 (demo_kernel\<lparr>cr2 := 0x90000000\<rparr>) = None"
proof -
  let ?k = "demo_kernel\<lparr>cr2 := 0x90000000\<rparr>"
  have "spaces_ok (pg ?k) {0x4001000}" "pages_inv (k_layout ?k) (pg ?k)" "dlist (lists ?k) (vma_list (current ?k)) [2000]"
    using demo_spaces demo_pages demo_list by (simp_all add: demo_kernel_def)
  moreover have "page_directory (tasks ?k (current ?k)) \<in> {0x4001000}" "privilege_level (tasks ?k (current ?k)) = DPL_3"
    "cr2 ?k \<ge> USERSPACE_BOTTOM" "current ?k \<noteq> NULL" "vma_at (vmas ?k) [2000] (cr2 ?k) = NULL"
    by (simp_all add: demo_kernel_def demo_task_def vma_at_def demo_area_def covers_def area_end_def)
  ultimately show ?thesis
    using user_page_fault_correct [where k = ?k and D = "{0x4001000}" and xs = "[2000]" and c = "0x5000"] by blast
qed








end
