(* ===== verification/Scheduler.thy ===== *)
theory Scheduler
  imports Task_Signal Task_Paging C_String
begin

section \<open>Tasks, their table and the scheduler (\<^verbatim>\<open>kernel/task.c\<close>, \<^verbatim>\<open>kernel/wait_queue.c\<close>)\<close>

text \<open>
  A task is in at most one of the four queues of the scheduler, and in the hash table of tasks.
  Its structure, its stacks and its areas are blocks of the kernel heap. \<open>kmalloc\<close> and
  \<open>kfree\<close> are the allocator on the heap of the kernel state; clearing an allocated structure
  with \<^verbatim>\<open>memset\<close> sets its record and its list cells to zero.
\<close>

abbreviation (input) MAX_PATH :: nat where "MAX_PATH \<equiv> 256"
abbreviation (input) TASK_SIZE :: int where "TASK_SIZE \<equiv> 3908"
abbreviation (input) CPUSTATE_SIZE :: u32 where "CPUSTATE_SIZE \<equiv> 72"
abbreviation (input) DEFAULT_TASK_PRIVILEGED_STACK_SIZE :: u32 where "DEFAULT_TASK_PRIVILEGED_STACK_SIZE \<equiv> 0x200000"

definition kmalloc :: "int \<Rightarrow> kernel \<Rightarrow> (addr \<times> kernel) option" where
  "kmalloc len k = do { (a, s) \<leftarrow> malloc (recycle_bins k) len (kheap k); Some (a, k\<lparr>kheap := s\<rparr>) }"

definition kfree :: "addr \<Rightarrow> kernel \<Rightarrow> kernel option" where
  "kfree a k = do { s \<leftarrow> free (recycle_bins k) a (kheap k); Some (k\<lparr>kheap := s\<rparr>) }"

definition zero_cell :: list_elem where
  "zero_cell = \<lparr>le_prev = NULL, le_next = NULL\<rparr>"

subsection \<open>Wait queues\<close>

definition initialize_wait_queue_head :: "addr \<Rightarrow> kernel \<Rightarrow> kernel" where
  "initialize_wait_queue_head head k = k\<lparr>lists := list_init (lists k) head\<rparr>"

definition initialize_wait_queue_entry :: "addr \<Rightarrow> addr \<Rightarrow> kernel \<Rightarrow> kernel" where
  "initialize_wait_queue_entry w task k =
     k\<lparr>lists := list_init (lists k) (wait_list w), waits := (waits k)(w := task)\<rparr>"

definition add_wait_queue_entry :: "addr \<Rightarrow> addr \<Rightarrow> kernel \<Rightarrow> kernel option" where
  "add_wait_queue_entry head w k = do {
     present \<leftarrow> element_in_list (lists k) head (wait_list w);
     if \<not> present then do { h \<leftarrow> list_append (lists k) head (wait_list w); Some (k\<lparr>lists := h\<rparr>) }
     else Some k }"

definition remove_wait_queue_entry :: "addr \<Rightarrow> addr \<Rightarrow> kernel \<Rightarrow> kernel option" where
  "remove_wait_queue_entry head w k = do {
     present \<leftarrow> element_in_list (lists k) head (wait_list w);
     if present then do { h \<leftarrow> list_delete (lists k) head (wait_list w); Some (k\<lparr>lists := h\<rparr>) }
     else Some k }"

partial_function (option) wake_up_loop :: "addr \<Rightarrow> kernel \<Rightarrow> kernel option" where
  "wake_up_loop e k =
     (if e = NULL then Some k
      else do {
        let next = le_next (lists k e);
        let w = e - 4;
        kassert (waits k w \<noteq> NULL);
        k \<leftarrow> raw_task_wake_up (waits k w) k;
        wake_up_loop next k })"

definition wake_up :: "addr \<Rightarrow> kernel \<Rightarrow> kernel option" where
  "wake_up head k = wake_up_loop (le_next (lists k head)) k"

subsection \<open>The table of tasks\<close>

definition kernel_task_hash_table_init :: "addr \<Rightarrow> kernel \<Rightarrow> kernel" where
  "kernel_task_hash_table_init hb k =
     k\<lparr>kernel_task_hash_stub := \<lparr>stub_mask = of_nat KERNEL_TASK_HASH_TABLE_SIZE - 1, heads = hb\<rparr>,
       lists := fold (\<lambda>i h. h(hb + 8 * of_nat i := zero_cell)) [0..<KERNEL_TASK_HASH_TABLE_SIZE] (lists k)\<rparr>"

definition task_hash :: "u32 \<Rightarrow> u32" where
  "task_hash i = i"

definition task_identity :: "kernel \<Rightarrow> addr \<Rightarrow> u32 \<Rightarrow> bool" where
  "task_identity k node i \<longleftrightarrow> task_id (tasks k (node - 4)) = i"

definition search_task_by_id :: "u32 \<Rightarrow> kernel \<Rightarrow> addr option" where
  "search_task_by_id i k = do {
     node \<leftarrow> search_hash_node (kernel_task_hash_stub k) task_hash (task_identity k) (lists k) i;
     Some (if node \<noteq> NULL then node - 4 else NULL) }"

definition register_task_in_task_table :: "addr \<Rightarrow> kernel \<Rightarrow> (int \<times> kernel) option" where
  "register_task_in_task_table task k = do {
     (result, h) \<leftarrow> add_hash_node (kernel_task_hash_stub k) task_hash (task_identity k) (lists k)
                     (task_id (tasks k task)) (task_node task);
     Some (result, k\<lparr>lists := h\<rparr>) }"

definition unregister_task_from_task_table :: "addr \<Rightarrow> kernel \<Rightarrow> (int \<times> kernel) option" where
  "unregister_task_from_task_table task k = do {
     (result, h) \<leftarrow> delete_hash_node (kernel_task_hash_stub k) task_hash (task_identity k) (lists k)
                     (task_id (tasks k task));
     Some (result, k\<lparr>lists := h\<rparr>) }"

subsection \<open>Creation and release of tasks\<close>

definition zero_task :: task where
  "zero_task = \<lparr>task_id = 0, state = TASK_STATE_ZOMBIE, non_stop_state = TASK_STATE_ZOMBIE, interrupt_depth = 0, cpu = 0,
     signaled_cpu = 0, page_directory = 0, privilege_level0_stack = 0, signaled_privilege_level0_stack = 0,
     privilege_level0_stack_top = 0, signaled_privilege_level0_stack_top = 0, signal_scheduled = False, signal_pending = False,
     entry = 0, schedule_counter = 0, privilege_level = 0, exit_code = 0, sig_entries = replicate 28 zero_entry,
     file_entries = replicate MAX_FILE_DESCRIPTR_PER_TASK \<lparr>fe_file = 0, fe_offset = 0, fe_valid = False, fe_writable = False\<rparr>,
     name = replicate MAX_PATH 0, cwd = replicate MAX_PATH 0, priv = 0\<rparr>"

definition set_work_directory :: "addr \<Rightarrow> u8 list \<Rightarrow> kernel \<Rightarrow> kernel option" where
  "set_work_directory task dir k = do {
     s \<leftarrow> strcpy_safe (replicate MAX_PATH 0) dir (int MAX_PATH);
     Some (upd_task task (\<lambda>t. t\<lparr>cwd := s\<rparr>) k) }"

definition malloc_task :: "kernel \<Rightarrow> (addr \<times> kernel) option" where
  "malloc_task k = do {
     (t, k) \<leftarrow> kmalloc TASK_SIZE k;
     if t \<noteq> NULL then do {
       let k = k\<lparr>tasks := (tasks k)(t := zero_task\<lparr>task_id := task_seed k\<rparr>), task_seed := task_seed k + 1,
          lists := (lists k)(task_node t := zero_cell, task_list t := zero_cell, wq_termination t := zero_cell, vma_list t := zero_cell)\<rparr>;
       Some (t, initialize_wait_queue_head (wq_termination t) k) }
     else Some (t, k) }"

definition free_task :: "addr \<Rightarrow> kernel \<Rightarrow> kernel option" where
  "free_task t k =
     (if t \<noteq> NULL then do {
        k \<leftarrow> (if privilege_level0_stack (tasks k t) \<noteq> NULL then kfree (privilege_level0_stack (tasks k t)) k else Some k);
        kfree t k }
      else Some k)"

partial_function (option) map_block_loop :: "u32 \<Rightarrow> u32 \<Rightarrow> kernel \<Rightarrow> kernel option" where
  "map_block_loop bound virt_addr k =
     (if virt_addr < bound then do {
        k \<leftarrow> (if page_present (pmem (pg k)) (kernel_page_directory (pg k)) virt_addr \<noteq> of_int OK then do {
                (a, s) \<leftarrow> get_page (k_layout k) (pg k);
                kassert (a \<noteq> 0);
                s \<leftarrow> kernel_map_page s virt_addr a PAGE_PERMISSION_READ_WRITE PAGE_WRITEBACK PAGE_CACHE_ENABLED;
                kassert (page_present (pmem s) (kernel_page_directory s) virt_addr = of_int OK);
                Some (k\<lparr>pg := s\<rparr>) }
              else Some k);
        map_block_loop bound (virt_addr + PAGE_SIZE) k }
      else Some k)"

definition malloc_align_mapped :: "int \<Rightarrow> int \<Rightarrow> kernel \<Rightarrow> (addr \<times> kernel) option" where
  "malloc_align_mapped len align k = do {
     (a, s) \<leftarrow> malloc_align (recycle_bins k) len align (kheap k);
     let k = k\<lparr>kheap := s\<rparr>;
     k \<leftarrow> (if a \<noteq> 0 then map_block_loop (a + of_int len) a k else Some k);
     Some (a, k) }"

definition malloc_mapped :: "int \<Rightarrow> kernel \<Rightarrow> (addr \<times> kernel) option" where
  "malloc_mapped len k = malloc_align_mapped len 1 k"

definition create_kernel_task :: "u32 \<Rightarrow> u8 list \<Rightarrow> kernel \<Rightarrow> (int \<times> addr \<times> kernel) option" where
  "create_kernel_task e task_name k = do {
     (t, k) \<leftarrow> malloc_task k;
     if t = NULL then Some (- ERR_GENERIC, NULL, k)
     else do {
       let k = upd_task t (\<lambda>r. r\<lparr>state := TASK_STATE_RUNNING\<rparr>) k;
       (stack, k) \<leftarrow> malloc_mapped (uint DEFAULT_TASK_PRIVILEGED_STACK_SIZE) k;
       let k = upd_task t (\<lambda>r. r\<lparr>privilege_level0_stack := stack\<rparr>) k;
       if stack = NULL then do { k \<leftarrow> kfree t k; Some (- ERR_GENERIC, NULL, k) }
       else do {
         let stk = (stack + DEFAULT_TASK_PRIVILEGED_STACK_SIZE) AND NOT 3;
         kassert (stk AND 3 = 0);
         let c = (stack + DEFAULT_TASK_PRIVILEGED_STACK_SIZE - CPUSTATE_SIZE) AND NOT 3;
         kassert (c AND 3 = 0);
         let k = k\<lparr>cpus := (cpus k)(c :=
            \<lparr>edi = 0, esi = 0, ebp = 0, ebx = 0, edx = 0, ecx = 0, eax = 0,
             gs = KERNEL_DATA_SELECTOR, fs = KERNEL_DATA_SELECTOR, es = KERNEL_DATA_SELECTOR, ds = KERNEL_DATA_SELECTOR,
             vector = 0, errorcode = 0, eip = e, cs = KERNEL_CODE_SELECTOR,
             eflags = EFLAGS_ONE OR EFLAGS_INTERRUPT, esp = 0, ss = 0\<rparr>)\<rparr>;
         nm \<leftarrow> strcpy_safe (name (tasks k t)) task_name (int MAX_PATH);
         let k = upd_task t (\<lambda>r. r\<lparr>privilege_level0_stack_top := stk, privilege_level := DPL_0, entry := e,
            cpu := c, interrupt_depth := 1, name := nm\<rparr>) k;
         k \<leftarrow> set_work_directory t [0x2F, 0] k;
         (r, k) \<leftarrow> register_task_in_task_table t k;
         kassert (r = OK);
         Some (OK, t, k) } } }"

partial_function (option) evict_vmas_loop :: "addr \<Rightarrow> addr \<Rightarrow> kernel \<Rightarrow> kernel option" where
  "evict_vmas_loop task v k =
     (if v = NULL then Some k
      else do {
        let next = le_next (lists k v);
        k \<leftarrow> (if \<not> va_kernel_vma (vmas k v) then map_option snd (userspace_evict_vma k task v) else Some k);
        evict_vmas_loop task next k })"

partial_function (option) free_vmas_loop :: "addr \<Rightarrow> kernel \<Rightarrow> kernel option" where
  "free_vmas_loop head k =
     (if \<not> list_empty (lists k) head then do {
        (v, h) \<leftarrow> list_pop (lists k) head;
        kassert (v \<noteq> NULL);
        k \<leftarrow> kfree v (k\<lparr>lists := h\<rparr>);
        free_vmas_loop head k }
      else Some k)"

definition do_vfs_close :: "addr \<Rightarrow> kernel \<Rightarrow> int \<times> kernel" where
  "do_vfs_close f k = (OK, k\<lparr>files := (files k)(f := (files k f)\<lparr>refer_count := refer_count (files k f) - 1\<rparr>)\<rparr>)"

definition close_entry :: "addr \<Rightarrow> nat \<Rightarrow> kernel \<Rightarrow> kernel option" where
  "close_entry task idx k =
     (if \<not> fe_valid (file_entries (tasks k task) ! idx) then Some k
      else do {
        let f = fe_file (file_entries (tasks k task) ! idx);
        kassert (f \<noteq> NULL);
        let (_, k) = do_vfs_close f k;
        Some (upd_task task (\<lambda>t. t\<lparr>file_entries := (file_entries t)[idx :=
          \<lparr>fe_file = NULL, fe_offset = 0, fe_valid = False, fe_writable = False\<rparr>]\<rparr>) k) })"

definition reclaim_task :: "addr \<Rightarrow> kernel \<Rightarrow> (int \<times> kernel) option" where
  "reclaim_task task k = do {
     kassert (le_prev (lists k (task_list task)) = NULL);
     kassert (le_next (lists k (task_list task)) = NULL);
     k \<leftarrow> evict_vmas_loop task (le_next (lists k (vma_list task))) k;
     let k = (if page_directory (tasks k task) \<noteq> NULL
              then upd_pg (\<lambda>s. free_base_page s (page_directory (tasks k task))) k else k);
     k \<leftarrow> free_vmas_loop (vma_list task) k;
     k \<leftarrow> fold (\<lambda>idx r. do { k \<leftarrow> r; close_entry task idx k }) [0..<MAX_FILE_DESCRIPTR_PER_TASK] (Some k);
     k \<leftarrow> (if privilege_level0_stack (tasks k task) \<noteq> NULL then kfree (privilege_level0_stack (tasks k task)) k else Some k);
     k \<leftarrow> (if signaled_privilege_level0_stack (tasks k task) \<noteq> NULL
           then kfree (signaled_privilege_level0_stack (tasks k task)) k else Some k);
     (r, k) \<leftarrow> unregister_task_from_task_table task k;
     kassert (r = OK);
     k \<leftarrow> free_task task k;
     Some (OK, k) }"

subsection \<open>Queues\<close>

definition task_put :: "addr \<Rightarrow> kernel \<Rightarrow> kernel option" where
  "task_put t k = do { h \<leftarrow> list_append (lists k) (task_list_head k) (task_list t); Some (k\<lparr>lists := h\<rparr>) }"

definition task_get :: "kernel \<Rightarrow> (addr \<times> kernel) option" where
  "task_get k = do {
     (e, h) \<leftarrow> list_fetch (lists k) (task_list_head k);
     Some (if e = NULL then NULL else e - 12, k\<lparr>lists := h\<rparr>) }"

definition list_move :: "addr \<Rightarrow> addr \<Rightarrow> addr \<Rightarrow> kernel \<Rightarrow> kernel option" where
  "list_move a b e k = do { h \<leftarrow> list_delete (lists k) a e; h \<leftarrow> list_append h b e; Some (k\<lparr>lists := h\<rparr>) }"

partial_function (option) blocking_loop :: "addr \<Rightarrow> kernel \<Rightarrow> kernel option" where
  "blocking_loop e k =
     (if e = NULL then Some k
      else do {
        let next = le_next (lists k e);
        k \<leftarrow> (case state (tasks k (e - 12)) of
                TASK_STATE_RUNNING \<Rightarrow> list_move (task_blocking_list_head k) (task_list_head k) e k
              | TASK_STATE_EXITING \<Rightarrow> list_move (task_blocking_list_head k) (task_list_head k) e k
              | TASK_STATE_INTERRUPTIBLE \<Rightarrow> Some k
              | TASK_STATE_UNINTERRUPTIBLE \<Rightarrow> Some k
              | TASK_STATE_ZOMBIE \<Rightarrow> list_move (task_blocking_list_head k) (task_zombie_list_head k) e k);
        blocking_loop next k })"

definition process_blocking_task_list :: "kernel \<Rightarrow> kernel option" where
  "process_blocking_task_list k = blocking_loop (le_next (lists k (task_blocking_list_head k))) k"

partial_function (option) process_exit_task_list :: "kernel \<Rightarrow> kernel option" where
  "process_exit_task_list k = do {
     (e, h) \<leftarrow> list_fetch (lists k) (task_exit_list_head k);
     let k = k\<lparr>lists := h\<rparr>;
     if e = NULL then Some k
     else do {
       let t = e - 12;
       kassert (state (tasks k t) = TASK_STATE_EXITING);
       k \<leftarrow> wake_up (wq_termination t) k;
       (_, k) \<leftarrow> reclaim_task t k;
       process_exit_task_list k } }"

subsection \<open>Scheduling\<close>

partial_function (option) pick_task :: "kernel \<Rightarrow> (addr \<times> kernel) option" where
  "pick_task k = do {
     (t, k) \<leftarrow> task_get k;
     if t = NULL then Some (NULL, k)
     else case state (tasks k t) of
       TASK_STATE_RUNNING \<Rightarrow> Some (t, k)
     | TASK_STATE_EXITING \<Rightarrow> do { h \<leftarrow> list_append (lists k) (task_exit_list_head k) (task_list t); pick_task (k\<lparr>lists := h\<rparr>) }
     | TASK_STATE_ZOMBIE \<Rightarrow> do { h \<leftarrow> list_append (lists k) (task_zombie_list_head k) (task_list t); pick_task (k\<lparr>lists := h\<rparr>) }
     | TASK_STATE_INTERRUPTIBLE \<Rightarrow> do { h \<leftarrow> list_append (lists k) (task_blocking_list_head k) (task_list t); pick_task (k\<lparr>lists := h\<rparr>) }
     | TASK_STATE_UNINTERRUPTIBLE \<Rightarrow> do { h \<leftarrow> list_append (lists k) (task_blocking_list_head k) (task_list t); pick_task (k\<lparr>lists := h\<rparr>) } }"

definition schedule :: "kernel \<Rightarrow> (u32 \<times> kernel) option" where
  "schedule k = do {
     k \<leftarrow> (if current k \<noteq> NULL then do {
             k \<leftarrow> (if current k \<noteq> kernel_idle_task k then task_put (current k) k else Some k);
             Some (k\<lparr>current := NULL\<rparr>) }
           else Some k);
     k \<leftarrow> process_blocking_task_list k;
     k \<leftarrow> process_exit_task_list k;
     (t, k) \<leftarrow> pick_task k;
     let t = (if t \<noteq> NULL then t else kernel_idle_task k);
     let sp = cpu (tasks k t);
     let k = k\<lparr>current := t\<rparr>;
     kassert (current k \<noteq> NULL);
     let k = upd_task t (\<lambda>t. t\<lparr>schedule_counter := schedule_counter t + 1\<rparr>) k;
     let k = upd_pg (\<lambda>s. enable_task_paging s (tasks k t)) k;
     Some (sp, set_tss_privilege_level0_stack (privilege_level0_stack_top (tasks k t)) k) }"

definition ready_to_schedule :: "kernel \<Rightarrow> bool" where "ready_to_schedule k = schedulable k"
definition schedule_enable :: "kernel \<Rightarrow> kernel" where "schedule_enable k = k\<lparr>schedulable := True\<rparr>"
definition schedule_disable :: "kernel \<Rightarrow> kernel" where "schedule_disable k = k\<lparr>schedulable := False\<rparr>"

definition task_pre_init :: "addr \<Rightarrow> kernel \<Rightarrow> kernel" where
  "task_pre_init hb k = (let h = lists k; h = list_init h (task_list_head k); h = list_init h (task_exit_list_head k);
       h = list_init h (task_zombie_list_head k); h = list_init h (task_blocking_list_head k)
     in kernel_task_hash_table_init hb (k\<lparr>current := NULL, schedulable := False, lists := h\<rparr>))"

end
