(* ===== verification/Scheduler_Correct.thy ===== *)
theory Scheduler_Correct
  imports Scheduler Task_Paging_Correct
begin

section \<open>The scheduler is a fair round robin\<close>

text \<open>
  \<open>sched_lists k M R B E Z\<close> says that the queues of running, blocked, exiting and zombie tasks
  hold the tasks of the four sequences, within a family \<open>M\<close> of disjoint lists. Each step of the
  scheduler is a move between two lists of the family.
\<close>

definition sched_lists :: "kernel \<Rightarrow> (addr \<rightharpoonup> addr list) \<Rightarrow> addr list \<Rightarrow> addr list \<Rightarrow> addr list \<Rightarrow> addr list \<Rightarrow> bool" where
  "sched_lists k M R B E Z \<longleftrightarrow> list_family dlist (lists k) M \<and>
     distinct [task_list_head k, task_blocking_list_head k, task_exit_list_head k, task_zombie_list_head k] \<and>
     M (task_list_head k) = Some (map task_list R) \<and> M (task_blocking_list_head k) = Some (map task_list B) \<and>
     M (task_exit_list_head k) = Some (map task_list E) \<and> M (task_zombie_list_head k) = Some (map task_list Z)"

definition on_queue :: "kernel \<Rightarrow> task_state set \<Rightarrow> addr list \<Rightarrow> addr list" where
  "on_queue k S ts = filter (\<lambda>t. state (tasks k t) \<in> S) ts"

abbreviation (input) awake :: "task_state set" where "awake \<equiv> {TASK_STATE_RUNNING, TASK_STATE_EXITING}"
abbreviation (input) blocked :: "task_state set" where "blocked \<equiv> {TASK_STATE_INTERRUPTIBLE, TASK_STATE_UNINTERRUPTIBLE}"

lemma on_queue_simps [simp]: "on_queue k S [] = []"
  "on_queue k S (t # ts) = (if state (tasks k t) \<in> S then t # on_queue k S ts else on_queue k S ts)"
  "on_queue k S (ts @ us) = on_queue k S ts @ on_queue k S us"
  "on_queue (k\<lparr>lists := h\<rparr>) S ts = on_queue k S ts"
  by (simp_all add: on_queue_def)

definition first_cell :: "addr list \<Rightarrow> addr" where
  "first_cell xs = (case xs of [] \<Rightarrow> NULL | x # _ \<Rightarrow> x)"

lemma dseg_first: "dseg h p x xs NULL \<Longrightarrow> x = first_cell xs"
  by (cases xs) (simp_all add: first_cell_def)

lemma dlist_first: "dlist h head xs \<Longrightarrow> le_next (h head) = first_cell xs"
  by (auto simp: dlist_def dest: dseg_first)

lemma dseg_next: "dseg h p x (as @ e # bs) NULL \<Longrightarrow> le_next (h e) = first_cell bs \<and> e \<noteq> NULL"
  by (induction as arbitrary: p x) (auto dest: dseg_first)

lemma dlist_next: "dlist h head (as @ e # bs) \<Longrightarrow> le_next (h e) = first_cell bs \<and> e \<noteq> NULL"
  using dseg_next [of h NULL "le_next (h head)" as e bs] unfolding dlist_def by blast

lemma task_list_inj: "task_list t = task_list u \<longleftrightarrow> t = u"
  by (simp add: task_list_def)

lemma task_of_cell [simp]: "task_list t - 12 = t"
  by (simp add: task_list_def)

lemma remove1_map: "t \<notin> set ps \<Longrightarrow> remove1 (task_list t) (map task_list (ps @ t # qs)) = map task_list (ps @ qs)"
  by (auto simp: remove1_append task_list_inj)

lemma sched_lists_distinct:
  assumes "sched_lists k M R B E Z" shows "distinct R" "distinct B" "distinct E" "distinct Z"
proof -
  have "distinct (map task_list xs)" if "M head = Some (map task_list xs)" for head xs
    using assms that list_family_rep [of dlist "lists k" M head] by (auto simp: sched_lists_def dlist_def)
  then show "distinct R" "distinct B" "distinct E" "distinct Z"
    using assms by (auto simp: sched_lists_def distinct_map)
qed

subsection \<open>Waking up the blocked tasks\<close>

lemma blocked_move:
  assumes "sched_lists k M R (P @ t # Q) E Z" and "b = task_list_head k \<and> R' = R @ [t] \<and> Z' = Z \<or> b = task_zombie_list_head k \<and> R' = R \<and> Z' = Z @ [t]"
  shows "\<exists>h M'. list_move (task_blocking_list_head k) b (task_list t) k = Some (k\<lparr>lists := h\<rparr>) \<and>
    sched_lists (k\<lparr>lists := h\<rparr>) M' R' (P @ Q) E Z' \<and> list_cells M' \<subseteq> list_cells M \<and> (\<forall>c. c \<notin> list_cells M \<longrightarrow> h c = lists k c)"
proof -
  have fam: "list_family dlist (lists k) M" and heads: "distinct [task_list_head k, task_blocking_list_head k, task_exit_list_head k, task_zombie_list_head k]"
    and M: "M (task_list_head k) = Some (map task_list R)" "M (task_blocking_list_head k) = Some (map task_list (P @ t # Q))"
      "M (task_exit_list_head k) = Some (map task_list E)" "M (task_zombie_list_head k) = Some (map task_list Z)"
    using assms(1) by (simp_all add: sched_lists_def)
  obtain ys where ys: "M b = Some (map task_list ys)" "task_blocking_list_head k \<noteq> b" "ys = (if b = task_list_head k then R else Z)"
    using assms(2) heads M by auto
  from sched_lists_distinct(2) [OF assms(1)] have "t \<notin> set P" by auto
  note rm = remove1_map [OF this, of Q]
  obtain h1 h2 where h: "list_delete (lists k) (task_blocking_list_head k) (task_list t) = Some h1" "list_append h1 b (task_list t) = Some h2"
      "list_family dlist h2 (M(task_blocking_list_head k \<mapsto> map task_list (P @ Q), b \<mapsto> map task_list ys @ [task_list t]))"
      "\<forall>c. c \<notin> list_cells M \<longrightarrow> h2 c = lists k c"
    using kl.family_move [OF fam M(2) _ ys(1,2), of "task_list t"] unfolding rm by auto
  let ?M = "M(task_blocking_list_head k \<mapsto> map task_list (P @ Q), b \<mapsto> map task_list ys @ [task_list t])"
  have "list_cells ?M \<subseteq> list_cells M"
  proof
    fix a assume "a \<in> list_cells ?M"
    then obtain head xs where x: "?M head = Some xs" "a = head \<or> a \<in> set xs" by (rule list_cellsE)
    have B: "a \<in> list_cells M" if "a = task_blocking_list_head k \<or> a \<in> set (map task_list (P @ t # Q))" for a
      by (rule list_cellsI [of M "task_blocking_list_head k"]) (use M(2) that in auto)
    have Y: "a \<in> list_cells M" if "a = b \<or> a \<in> set (map task_list ys)" for a
      by (rule list_cellsI [of M b]) (use ys(1) that in auto)
    show "a \<in> list_cells M"
      using x B [of a] Y [of a] list_cellsI [of M head xs a] by (auto split: if_splits)
  qed
  moreover have "sched_lists (k\<lparr>lists := h2\<rparr>) ?M R' (P @ Q) E Z'"
    using h(3) heads M ys assms(2) by (auto simp: sched_lists_def)
  ultimately show ?thesis using h by (intro exI [of _ h2] exI [of _ ?M]) (simp add: list_move_def)
qed

lemma blocking_loop_spec:
  "sched_lists k M R (P @ Q) E Z \<Longrightarrow>
    \<exists>h M'. blocking_loop (first_cell (map task_list Q)) k = Some (k\<lparr>lists := h\<rparr>) \<and>
      sched_lists (k\<lparr>lists := h\<rparr>) M' (R @ on_queue k awake Q) (P @ on_queue k blocked Q) E (Z @ on_queue k {TASK_STATE_ZOMBIE} Q) \<and>
      list_cells M' \<subseteq> list_cells M \<and> (\<forall>c. c \<notin> list_cells M \<longrightarrow> h c = lists k c)"
proof (induction Q arbitrary: k M R P Z)
  case Nil
  then show ?case
    by (intro exI [of _ "lists k"] exI [of _ M]) (simp add: first_cell_def blocking_loop.simps)
next
  case (Cons t Q)
  have d: "dlist (lists k) (task_blocking_list_head k) (map task_list P @ task_list t # map task_list Q)"
    using Cons.prems by (auto simp: sched_lists_def dest: list_family_rep)
  note nx = dlist_next [OF d]
  have loop: "blocking_loop (first_cell (map task_list (t # Q))) k =
      (case state (tasks k t) of
                TASK_STATE_RUNNING \<Rightarrow> list_move (task_blocking_list_head k) (task_list_head k) (task_list t) k
              | TASK_STATE_EXITING \<Rightarrow> list_move (task_blocking_list_head k) (task_list_head k) (task_list t) k
              | TASK_STATE_INTERRUPTIBLE \<Rightarrow> Some k
              | TASK_STATE_UNINTERRUPTIBLE \<Rightarrow> Some k
              | TASK_STATE_ZOMBIE \<Rightarrow> list_move (task_blocking_list_head k) (task_zombie_list_head k) (task_list t) k)
      \<bind> (\<lambda>k. blocking_loop (first_cell (map task_list Q)) k)"
    using nx by (simp add: blocking_loop.simps [of "task_list t"] first_cell_def [of "_ # _"])
  show ?case
  proof (cases "state (tasks k t) \<in> blocked")
    case True
    have "sched_lists k M R ((P @ [t]) @ Q) E Z" using Cons.prems by simp
    from Cons.IH [OF this] True show ?thesis unfolding loop by auto
  next
    case False
    define b R' Z' where "b = (if state (tasks k t) = TASK_STATE_ZOMBIE then task_zombie_list_head k else task_list_head k)"
      and "R' = (if state (tasks k t) = TASK_STATE_ZOMBIE then R else R @ [t])"
      and "Z' = (if state (tasks k t) = TASK_STATE_ZOMBIE then Z @ [t] else Z)"
    obtain h M' where 1: "list_move (task_blocking_list_head k) b (task_list t) k = Some (k\<lparr>lists := h\<rparr>)"
        "sched_lists (k\<lparr>lists := h\<rparr>) M' R' (P @ Q) E Z'" "list_cells M' \<subseteq> list_cells M" "\<forall>c. c \<notin> list_cells M \<longrightarrow> h c = lists k c"
      using blocked_move [OF Cons.prems, of b R' Z']
      by (cases "state (tasks k t) = TASK_STATE_ZOMBIE") (auto simp: b_def R'_def Z'_def)
    obtain h2 M2 where 2: "blocking_loop (first_cell (map task_list Q)) (k\<lparr>lists := h\<rparr>) = Some (k\<lparr>lists := h2\<rparr>)"
        "sched_lists (k\<lparr>lists := h2\<rparr>) M2 (R' @ on_queue k awake Q) (P @ on_queue k blocked Q) E (Z' @ on_queue k {TASK_STATE_ZOMBIE} Q)"
        "list_cells M2 \<subseteq> list_cells M'" "\<forall>c. c \<notin> list_cells M' \<longrightarrow> h2 c = h c"
      using Cons.IH [OF 1(2)] by auto
    have "blocking_loop (first_cell (map task_list (t # Q))) k = Some (k\<lparr>lists := h2\<rparr>)"
      unfolding loop using 1(1) 2(1) False by (cases "state (tasks k t)") (simp_all add: b_def)
    moreover have "sched_lists (k\<lparr>lists := h2\<rparr>) M2 (R @ on_queue k awake (t # Q)) (P @ on_queue k blocked (t # Q)) E
        (Z @ on_queue k {TASK_STATE_ZOMBIE} (t # Q))"
      using 2(2) False by (cases "state (tasks k t)") (simp_all add: R'_def Z'_def)
    moreover have "\<forall>c. c \<notin> list_cells M \<longrightarrow> h2 c = lists k c" using 1(3,4) 2(4) by (metis subsetD)
    ultimately show ?thesis using 1(3) 2(3) by blast
  qed
qed

lemma process_blocking_spec:
  assumes "sched_lists k M R B E Z"
  shows "\<exists>h M'. process_blocking_task_list k = Some (k\<lparr>lists := h\<rparr>) \<and>
      sched_lists (k\<lparr>lists := h\<rparr>) M' (R @ on_queue k awake B) (on_queue k blocked B) E (Z @ on_queue k {TASK_STATE_ZOMBIE} B) \<and>
      list_cells M' \<subseteq> list_cells M \<and> (\<forall>c. c \<notin> list_cells M \<longrightarrow> h c = lists k c)"
proof -
  have "dlist (lists k) (task_blocking_list_head k) (map task_list B)"
    using assms by (auto simp: sched_lists_def dest: list_family_rep)
  then have "le_next (lists k (task_blocking_list_head k)) = first_cell (map task_list B)" by (rule dlist_first)
  with blocking_loop_spec [of k M R "[]" B E Z] assms show ?thesis by (simp add: process_blocking_task_list_def)
qed

lemma process_exit_none:
  assumes "sched_lists k M R B [] Z" shows "process_exit_task_list k = Some k"
proof -
  have "dlist (lists k) (task_exit_list_head k) []"
    using assms by (auto simp: sched_lists_def dest: list_family_rep)
  then have "list_fetch (lists k) (task_exit_list_head k) = Some (NULL, lists k)" by (rule list_fetch_empty)
  then show ?thesis by (simp add: process_exit_task_list.simps [of k])
qed

subsection \<open>Picking the next task\<close>

text \<open>A task taken from the head of the run queue is a loose cell until it is appended to the queue of
  its state.\<close>

lemma task_get_spec:
  assumes "sched_lists k M (t # R) B E Z" "t \<noteq> NULL"
  shows "\<exists>h M'. task_get k = Some (t, k\<lparr>lists := h\<rparr>) \<and> sched_lists (k\<lparr>lists := h\<rparr>) M' R B E Z \<and>
    detached h (task_list t) \<and> task_list t \<notin> list_cells M' \<and> insert (task_list t) (list_cells M') \<subseteq> list_cells M \<and>
    (\<forall>c. c \<notin> list_cells M \<longrightarrow> h c = lists k c)"
proof -
  let ?r = "task_list_head k" and ?c = "task_list t"
  have fam: "list_family dlist (lists k) M" and M: "M ?r = Some (?c # map task_list R)"
    using assms(1) by (simp_all add: sched_lists_def)
  obtain h where h: "list_fetch (lists k) ?r = Some (?c, h)" "list_family dlist h (M(?r \<mapsto> map task_list R))"
      "detached h ?c" "\<forall>c. c \<notin> list_cells M \<longrightarrow> h c = lists k c"
    using kl.family_fetch [OF fam M] by blast
  let ?M = "M(?r \<mapsto> map task_list R)"
  have d: "distinct (?r # ?c # map task_list R)" using list_family_rep [OF fam M] by (auto simp: dlist_def)
  have "?c \<notin> list_cells ?M"
  proof
    assume "?c \<in> list_cells ?M"
    then obtain head xs where x: "?M head = Some xs" "?c = head \<or> ?c \<in> set xs" by (rule list_cellsE)
    show False
    proof (cases "head = ?r")
      case True
      with x d show False by auto
    next
      case False
      with x list_family_disjoint [OF fam M, of head xs ?c] show False by auto
    qed
  qed
  moreover have "insert ?c (list_cells ?M) \<subseteq> list_cells M"
    using list_cells_shrink [of M ?r "?c # map task_list R" "map task_list R"] list_cellsI [of M ?r "?c # map task_list R" ?c] M
    by auto
  moreover have "sched_lists (k\<lparr>lists := h\<rparr>) ?M R B E Z" using assms(1) h(2) by (auto simp: sched_lists_def)
  moreover have "?c \<noteq> NULL" using h(3) by (simp add: detached_def)
  ultimately show ?thesis using h by (intro exI [of _ h] exI [of _ ?M]) (simp add: task_get_def)
qed

lemma queue_append:
  assumes "sched_lists k M R B E Z" "detached (lists k) (task_list t)" "task_list t \<notin> list_cells M"
    and "head = task_list_head k \<and> (R', B', E', Z') = (R @ [t], B, E, Z) \<or> head = task_blocking_list_head k \<and> (R', B', E', Z') = (R, B @ [t], E, Z) \<or>
      head = task_exit_list_head k \<and> (R', B', E', Z') = (R, B, E @ [t], Z) \<or> head = task_zombie_list_head k \<and> (R', B', E', Z') = (R, B, E, Z @ [t])"
  shows "\<exists>h M'. list_append (lists k) head (task_list t) = Some h \<and> sched_lists (k\<lparr>lists := h\<rparr>) M' R' B' E' Z' \<and>
    list_cells M' \<subseteq> insert (task_list t) (list_cells M) \<and> (\<forall>c. c \<notin> insert (task_list t) (list_cells M) \<longrightarrow> h c = lists k c)"
proof -
  have fam: "list_family dlist (lists k) M" using assms(1) by (simp add: sched_lists_def)
  obtain xs where xs: "M head = Some xs" using assms(1,4) by (auto simp: sched_lists_def)
  obtain h where h: "list_append (lists k) head (task_list t) = Some h" "list_family dlist h (M(head \<mapsto> xs @ [task_list t]))"
      "\<forall>c. c \<notin> insert (task_list t) (list_cells M) \<longrightarrow> h c = lists k c"
    using kl.family_append [OF fam xs assms(2,3)] by blast
  have "list_cells (M(head \<mapsto> xs @ [task_list t])) \<subseteq> insert (task_list t) (list_cells M)"
  proof
    fix a assume "a \<in> list_cells (M(head \<mapsto> xs @ [task_list t]))"
    then obtain b ys where "(M(head \<mapsto> xs @ [task_list t])) b = Some ys" "a = b \<or> a \<in> set ys" by (rule list_cellsE)
    then show "a \<in> insert (task_list t) (list_cells M)"
      using list_cellsI [of M head xs a] list_cellsI [of M b ys a] xs by (auto split: if_splits)
  qed
  moreover have "sched_lists (k\<lparr>lists := h\<rparr>) (M(head \<mapsto> xs @ [task_list t])) R' B' E' Z'"
    using assms(1,4) h(2) xs by (auto simp: sched_lists_def)
  ultimately show ?thesis using h by blast
qed

abbreviation (input) not_running :: "kernel \<Rightarrow> addr \<Rightarrow> bool" where
  "not_running k t \<equiv> state (tasks k t) \<noteq> TASK_STATE_RUNNING"

lemma pick_task_spec:
  assumes "sched_lists k M R B E Z" "NULL \<notin> set R"
  defines "skip \<equiv> takeWhile (not_running k) R" and "rest \<equiv> dropWhile (not_running k) R"
  shows "\<exists>h M'. pick_task k = Some (first_cell rest, k\<lparr>lists := h\<rparr>) \<and>
    sched_lists (k\<lparr>lists := h\<rparr>) M' (tl rest) (B @ on_queue k blocked skip) (E @ on_queue k {TASK_STATE_EXITING} skip)
      (Z @ on_queue k {TASK_STATE_ZOMBIE} skip) \<and>
    list_cells M' \<subseteq> list_cells M \<and> (\<forall>c. c \<notin> list_cells M \<longrightarrow> h c = lists k c) \<and>
    (rest \<noteq> [] \<longrightarrow> detached h (task_list (hd rest)) \<and> task_list (hd rest) \<notin> list_cells M')"
  using assms(1,2) unfolding skip_def rest_def
proof (induction R arbitrary: k M B E Z)
  case Nil
  have "dlist (lists k) (task_list_head k) []"
    using Nil.prems by (auto simp: sched_lists_def dest: list_family_rep)
  then have "list_fetch (lists k) (task_list_head k) = Some (NULL, lists k)" by (rule list_fetch_empty)
  then show ?case using Nil.prems
    by (intro exI [of _ "lists k"] exI [of _ M]) (simp add: pick_task.simps [of k] task_get_def first_cell_def)
next
  case (Cons t R)
  have nn: "t \<noteq> NULL" using Cons.prems(2) by auto
  obtain h M1 where 1: "task_get k = Some (t, k\<lparr>lists := h\<rparr>)" "sched_lists (k\<lparr>lists := h\<rparr>) M1 R B E Z"
      "detached h (task_list t)" "task_list t \<notin> list_cells M1" "insert (task_list t) (list_cells M1) \<subseteq> list_cells M"
      "\<forall>c. c \<notin> list_cells M \<longrightarrow> h c = lists k c"
    using task_get_spec [OF Cons.prems(1) nn] by blast
  show ?case
  proof (cases "state (tasks k t) = TASK_STATE_RUNNING")
    case True
    then have "pick_task k = Some (t, k\<lparr>lists := h\<rparr>)" using 1(1) nn by (simp add: pick_task.simps [of k])
    then show ?thesis using True 1 by (intro exI [of _ h] exI [of _ M1]) (auto simp: first_cell_def)
  next
    case False
    define head where "head = (case state (tasks k t) of TASK_STATE_EXITING \<Rightarrow> task_exit_list_head k
      | TASK_STATE_ZOMBIE \<Rightarrow> task_zombie_list_head k | _ \<Rightarrow> task_blocking_list_head k)"
    define B1 E1 Z1 where "B1 = B @ on_queue k blocked [t]" and "E1 = E @ on_queue k {TASK_STATE_EXITING} [t]"
      and "Z1 = Z @ on_queue k {TASK_STATE_ZOMBIE} [t]"
    have q: "head = task_list_head (k\<lparr>lists := h\<rparr>) \<and> (R, B1, E1, Z1) = (R @ [t], B, E, Z) \<or>
      head = task_blocking_list_head (k\<lparr>lists := h\<rparr>) \<and> (R, B1, E1, Z1) = (R, B @ [t], E, Z) \<or>
      head = task_exit_list_head (k\<lparr>lists := h\<rparr>) \<and> (R, B1, E1, Z1) = (R, B, E @ [t], Z) \<or>
      head = task_zombie_list_head (k\<lparr>lists := h\<rparr>) \<and> (R, B1, E1, Z1) = (R, B, E, Z @ [t])"
      using False by (cases "state (tasks k t)") (simp_all add: head_def B1_def E1_def Z1_def)
    obtain h2 M2 where 2: "list_append h head (task_list t) = Some h2" "sched_lists (k\<lparr>lists := h2\<rparr>) M2 R B1 E1 Z1"
        "list_cells M2 \<subseteq> insert (task_list t) (list_cells M1)" "\<forall>c. c \<notin> insert (task_list t) (list_cells M1) \<longrightarrow> h2 c = h c"
      using queue_append [OF 1(2) _ 1(4) q] 1(3) by auto
    have run: "pick_task k = pick_task (k\<lparr>lists := h2\<rparr>)"
      using 1(1) 2(1) nn False by (subst pick_task.simps, cases "state (tasks k t)") (simp_all add: head_def)
    have "NULL \<notin> set R" using Cons.prems(2) by simp
    from Cons.IH [OF 2(2) this] obtain h3 M3 where 3:
        "pick_task (k\<lparr>lists := h2\<rparr>) = Some (first_cell (dropWhile (not_running k) R), k\<lparr>lists := h3\<rparr>)"
        "sched_lists (k\<lparr>lists := h3\<rparr>) M3 (tl (dropWhile (not_running k) R)) (B1 @ on_queue k blocked (takeWhile (not_running k) R))
          (E1 @ on_queue k {TASK_STATE_EXITING} (takeWhile (not_running k) R)) (Z1 @ on_queue k {TASK_STATE_ZOMBIE} (takeWhile (not_running k) R))"
        "list_cells M3 \<subseteq> list_cells M2" "\<forall>c. c \<notin> list_cells M2 \<longrightarrow> h3 c = h2 c"
        "dropWhile (not_running k) R \<noteq> [] \<longrightarrow> detached h3 (task_list (hd (dropWhile (not_running k) R))) \<and>
          task_list (hd (dropWhile (not_running k) R)) \<notin> list_cells M3" by auto
    have "\<forall>c. c \<notin> list_cells M \<longrightarrow> h3 c = lists k c" "list_cells M3 \<subseteq> list_cells M"
      using 1(5,6) 2(3,4) 3(3,4) by (metis subsetD, blast)
    moreover have "B1 @ on_queue k blocked (takeWhile (not_running k) R) = B @ on_queue k blocked (takeWhile (not_running k) (t # R))"
      "E1 @ on_queue k {TASK_STATE_EXITING} (takeWhile (not_running k) R) = E @ on_queue k {TASK_STATE_EXITING} (takeWhile (not_running k) (t # R))"
      "Z1 @ on_queue k {TASK_STATE_ZOMBIE} (takeWhile (not_running k) R) = Z @ on_queue k {TASK_STATE_ZOMBIE} (takeWhile (not_running k) (t # R))"
      using False by (simp_all add: B1_def E1_def Z1_def)
    ultimately show ?thesis using 3 False run by (intro exI [of _ h3] exI [of _ M3]) simp
  qed
qed

subsection \<open>One scheduling decision\<close>

definition idle_or_none :: "kernel \<Rightarrow> bool" where
  "idle_or_none k \<longleftrightarrow> current k = NULL \<or> current k = kernel_idle_task k"

text \<open>The current task is in no queue. The idle task is in none either, and is the one to run
  when no other can.\<close>

definition sched_inv :: "kernel \<Rightarrow> addr list \<Rightarrow> addr list \<Rightarrow> addr list \<Rightarrow> addr list \<Rightarrow> bool" where
  "sched_inv k R B E Z \<longleftrightarrow> (\<exists>M. sched_lists k M R B E Z \<and>
       (idle_or_none k \<or> detached (lists k) (task_list (current k)) \<and> task_list (current k) \<notin> list_cells M)) \<and>
     NULL \<notin> set R \<and> NULL \<notin> set B \<and> kernel_idle_task k \<noteq> NULL \<and> kernel_idle_task k \<notin> set R \<and> kernel_idle_task k \<notin> set B"

definition ready :: "kernel \<Rightarrow> addr list \<Rightarrow> addr list \<Rightarrow> addr list" where
  "ready k R B = R @ (if idle_or_none k then [] else [current k]) @ on_queue k awake B"

definition next_task :: "kernel \<Rightarrow> addr list \<Rightarrow> addr" where
  "next_task k Q = (case dropWhile (not_running k) Q of [] \<Rightarrow> kernel_idle_task k | t # _ \<Rightarrow> t)"

lemma pick_or_idle:
  "NULL \<notin> set xs \<Longrightarrow> i \<noteq> NULL \<Longrightarrow> (if first_cell xs \<noteq> NULL then first_cell xs else i) = (case xs of [] \<Rightarrow> i | t # _ \<Rightarrow> t) \<and>
    (case xs of [] \<Rightarrow> i | t # _ \<Rightarrow> t) \<noteq> NULL"
  by (cases xs) (auto simp: first_cell_def)

lemma case_list_hd: "(case xs of [] \<Rightarrow> i | t # _ \<Rightarrow> t) = (if xs = [] then i else hd xs)"
  by (cases xs) simp_all

lemma set_tl_subset: "set (tl xs) \<subseteq> set xs"
  by (cases xs) auto

lemma put_current:
  assumes "sched_inv k R B [] Z"
  shows "\<exists>h M. (if current k \<noteq> NULL then do {
             k \<leftarrow> (if current k \<noteq> kernel_idle_task k then task_put (current k) k else Some k);
             Some (k\<lparr>current := NULL\<rparr>) }
           else Some k) = Some (k\<lparr>current := NULL, lists := h\<rparr>) \<and>
    sched_lists (k\<lparr>current := NULL, lists := h\<rparr>) M (R @ (if idle_or_none k then [] else [current k])) B [] Z"
proof -
  obtain M where M: "sched_lists k M R B [] Z"
    and c: "idle_or_none k \<or> detached (lists k) (task_list (current k)) \<and> task_list (current k) \<notin> list_cells M"
    using assms by (auto simp: sched_inv_def)
  show ?thesis
  proof (cases "idle_or_none k")
    case True
    moreover have "k\<lparr>current := NULL\<rparr> = k" if "current k = NULL" using that by simp
    ultimately show ?thesis using M
      by (intro exI [of _ "lists k"] exI [of _ M]) (auto simp: idle_or_none_def sched_lists_def)
  next
    case False
    with c have "detached (lists k) (task_list (current k))" "task_list (current k) \<notin> list_cells M" by auto
    from queue_append [OF M this, of "task_list_head k" "R @ [current k]" B "[]" Z]
    obtain h M' where "list_append (lists k) (task_list_head k) (task_list (current k)) = Some h"
        "sched_lists (k\<lparr>lists := h\<rparr>) M' (R @ [current k]) B [] Z" by auto
    then show ?thesis using False
      by (intro exI [of _ h] exI [of _ M']) (auto simp: idle_or_none_def task_put_def sched_lists_def)
  qed
qed

lemma schedule_spec:
  assumes inv: "sched_inv k R B [] Z"
  defines "Q \<equiv> ready k R B"
  defines "skip \<equiv> takeWhile (not_running k) Q" and "next \<equiv> next_task k Q"
  shows "\<exists>k'. schedule k = Some (cpu (tasks k next), k') \<and> current k' = next \<and> kernel_idle_task k' = kernel_idle_task k \<and>
    tasks k' = (tasks k)(next := (tasks k next)\<lparr>schedule_counter := schedule_counter (tasks k next) + 1\<rparr>) \<and>
    esp0 k' = privilege_level0_stack_top (tasks k next) \<and> pg k' = enable_task_paging (pg k) (tasks k' next) \<and>
    sched_inv k' (tl (dropWhile (not_running k) Q)) (on_queue k blocked B @ on_queue k blocked skip)
      (on_queue k {TASK_STATE_EXITING} skip) (Z @ on_queue k {TASK_STATE_ZOMBIE} (B @ skip))"
proof -
  let ?R = "R @ (if idle_or_none k then [] else [current k])" and ?rest = "dropWhile (not_running k) Q"
  obtain h M where 1: "(if current k \<noteq> NULL then do {
             k \<leftarrow> (if current k \<noteq> kernel_idle_task k then task_put (current k) k else Some k);
             Some (k\<lparr>current := NULL\<rparr>) }
           else Some k) = Some (k\<lparr>current := NULL, lists := h\<rparr>)"
      "sched_lists (k\<lparr>current := NULL, lists := h\<rparr>) M ?R B [] Z"
    using put_current [OF inv] by blast
  obtain h2 M2 where 2: "process_blocking_task_list (k\<lparr>current := NULL, lists := h\<rparr>) = Some (k\<lparr>current := NULL, lists := h2\<rparr>)"
      "sched_lists (k\<lparr>current := NULL, lists := h2\<rparr>) M2 Q (on_queue k blocked B) [] (Z @ on_queue k {TASK_STATE_ZOMBIE} B)"
    using process_blocking_spec [OF 1(2)] by (auto simp: Q_def ready_def on_queue_def)
  have sets: "set Q \<subseteq> set R \<union> set B \<union> (if idle_or_none k then {} else {current k})"
    by (auto simp: Q_def ready_def on_queue_def)
  have nn: "NULL \<notin> set Q" "kernel_idle_task k \<notin> set Q" "kernel_idle_task k \<noteq> NULL"
    using sets inv by (auto simp: sched_inv_def idle_or_none_def split: if_splits)
  obtain h3 M3 where 3: "pick_task (k\<lparr>current := NULL, lists := h2\<rparr>) = Some (first_cell ?rest, k\<lparr>current := NULL, lists := h3\<rparr>)"
      "sched_lists (k\<lparr>current := NULL, lists := h3\<rparr>) M3 (tl ?rest) (on_queue k blocked B @ on_queue k blocked skip)
        (on_queue k {TASK_STATE_EXITING} skip) (Z @ on_queue k {TASK_STATE_ZOMBIE} (B @ skip))"
      "?rest \<noteq> [] \<longrightarrow> detached h3 (task_list (hd ?rest)) \<and> task_list (hd ?rest) \<notin> list_cells M3"
    using pick_task_spec [OF 2(2) nn(1)] by (auto simp: skip_def on_queue_def)
  have rest: "set ?rest \<subseteq> set Q" by (auto dest: set_dropWhileD)
  have nxt: "(if first_cell ?rest \<noteq> NULL then first_cell ?rest else kernel_idle_task k) = next" "next \<noteq> NULL"
    using pick_or_idle [of ?rest "kernel_idle_task k"] nn rest unfolding next_def next_task_def by blast+
  let ?k = "upd_task next (\<lambda>t. t\<lparr>schedule_counter := schedule_counter t + 1\<rparr>) (k\<lparr>lists := h3, current := next\<rparr>)"
  let ?k' = "set_tss_privilege_level0_stack (privilege_level0_stack_top (tasks k next)) (upd_pg (\<lambda>s. enable_task_paging s (tasks ?k next)) ?k)"
  have run: "schedule k = Some (cpu (tasks k next), ?k')"
    unfolding schedule_def 1(1) using 2(1) process_exit_none [OF 2(2)] 3(1) nxt
    by (cases "first_cell ?rest = NULL") (simp_all add: kassert_def)
  have "sched_inv ?k' (tl ?rest) (on_queue k blocked B @ on_queue k blocked skip) (on_queue k {TASK_STATE_EXITING} skip)
      (Z @ on_queue k {TASK_STATE_ZOMBIE} (B @ skip))"
  proof -
    have "sched_lists ?k' M3 (tl ?rest) (on_queue k blocked B @ on_queue k blocked skip)
        (on_queue k {TASK_STATE_EXITING} skip) (Z @ on_queue k {TASK_STATE_ZOMBIE} (B @ skip))"
      using 3(2) by (simp add: sched_lists_def set_tss_privilege_level0_stack_def upd_pg_def)
    moreover have "idle_or_none ?k' \<or> detached (lists ?k') (task_list (current ?k')) \<and> task_list (current ?k') \<notin> list_cells M3"
      using 3(3) case_list_hd [of "kernel_idle_task k" ?rest] unfolding idle_or_none_def next_def next_task_def
      by (simp add: set_tss_privilege_level0_stack_def upd_pg_def del: dropWhile_eq_Nil_conv split: if_splits)
    moreover have "set (tl ?rest) \<subseteq> set Q" using rest set_tl_subset [of ?rest] by blast
    moreover have "set (on_queue k blocked skip) \<subseteq> set Q" by (auto simp: skip_def on_queue_def dest: set_takeWhileD)
    moreover have "set (on_queue k blocked B) \<subseteq> set B" by (auto simp: on_queue_def)
    ultimately show ?thesis using nn inv
      by (auto simp: sched_inv_def set_tss_privilege_level0_stack_def upd_pg_def)
  qed
  moreover have "kernel_idle_task ?k' = kernel_idle_task k" by (simp add: set_tss_privilege_level0_stack_def upd_pg_def)
  ultimately show ?thesis using run by (intro exI [of _ ?k']) (simp add: set_tss_privilege_level0_stack_def)
qed

subsection \<open>Fairness\<close>

text \<open>As long as no task changes its state, the runnable tasks form a ring that every decision turns by
  one place.\<close>

fun schedules :: "nat \<Rightarrow> kernel \<Rightarrow> kernel option" where
  "schedules 0 k = Some k"
| "schedules (Suc n) k = do { (_, k) \<leftarrow> schedule k; schedules n k }"

definition runnable :: "kernel \<Rightarrow> addr list \<Rightarrow> addr list \<Rightarrow> addr list" where
  "runnable k R B = on_queue k {TASK_STATE_RUNNING} (ready k R B)"

definition no_exits :: "kernel \<Rightarrow> addr list \<Rightarrow> addr list \<Rightarrow> bool" where
  "no_exits k R B \<longleftrightarrow> (\<forall>t \<in> set (ready k R B) \<union> set B. state (tasks k t) \<noteq> TASK_STATE_EXITING)"

lemma filter_dropWhile: "filter P xs = filter P (dropWhile (\<lambda>x. \<not> P x) xs)"
  by (induction xs) auto

lemma next_of_runnable:
  "next_task k Q = (case on_queue k {TASK_STATE_RUNNING} Q of [] \<Rightarrow> kernel_idle_task k | t # _ \<Rightarrow> t)"
  by (induction Q) (auto simp: next_task_def)

lemma runnable_rotates:
  assumes inv: "sched_inv k R B [] Z" and ne: "no_exits k R B" and run: "runnable k R B \<noteq> []"
  shows "\<exists>sp k' R' B' Z'. schedule k = Some (sp, k') \<and> current k' = hd (runnable k R B) \<and> sched_inv k' R' B' [] Z' \<and>
    no_exits k' R' B' \<and> runnable k' R' B' = rotate1 (runnable k R B)"
proof -
  let ?Q = "ready k R B"
  define t where "t = next_task k ?Q"
  define skip rest where "skip = takeWhile (not_running k) ?Q" and "rest = dropWhile (not_running k) ?Q"
  obtain ts where ts: "runnable k R B = t # ts" using run by (cases "runnable k R B") (auto simp: t_def next_of_runnable runnable_def)
  have "on_queue k {TASK_STATE_RUNNING} ?Q = on_queue k {TASK_STATE_RUNNING} rest"
    using filter_dropWhile [of "\<lambda>t. state (tasks k t) = TASK_STATE_RUNNING" ?Q] by (simp add: on_queue_def rest_def)
  moreover have "state (tasks k x) = TASK_STATE_RUNNING" if "rest = x # xs" for x xs
    using that by (auto simp: rest_def dropWhile_eq_Cons_conv)
  ultimately have rest: "rest = t # tl rest" "on_queue k {TASK_STATE_RUNNING} (tl rest) = ts"
    using ts by (auto simp: t_def next_task_def rest_def [symmetric] runnable_def split: list.splits if_splits)
  have tQ: "set rest \<subseteq> set ?Q" "set skip \<subseteq> set ?Q"
    by (auto simp: rest_def skip_def dest: set_dropWhileD set_takeWhileD)
  have tin: "t \<in> set ?Q" using tQ(1) rest(1) by (metis list.set_intros(1) subsetD)
  have no: "on_queue k {TASK_STATE_EXITING} skip = []" using ne tQ by (auto simp: on_queue_def no_exits_def filter_empty_conv)
  let ?B = "on_queue k blocked B @ on_queue k blocked skip" and ?Z = "Z @ on_queue k {TASK_STATE_ZOMBIE} (B @ skip)"
  obtain k' where k': "schedule k = Some (cpu (tasks k t), k')" "current k' = t" "kernel_idle_task k' = kernel_idle_task k"
      "tasks k' = (tasks k)(t := (tasks k t)\<lparr>schedule_counter := schedule_counter (tasks k t) + 1\<rparr>)"
      "sched_inv k' (tl rest) ?B [] ?Z"
    using schedule_spec [OF inv] no by (auto simp: t_def skip_def rest_def)
  have st: "state (tasks k' u) = state (tasks k u)" for u using k'(4) by simp
  then have oq: "on_queue k' S us = on_queue k S us" for S us by (simp add: on_queue_def)
  have tr: "state (tasks k t) = TASK_STATE_RUNNING" using ts by (auto simp: runnable_def on_queue_def dest: filter_eq_ConsD)
  have "t \<noteq> kernel_idle_task k" "t \<noteq> NULL"
    using inv tin by (auto simp: sched_inv_def ready_def idle_or_none_def on_queue_def split: if_splits)
  then have nid: "\<not> idle_or_none k'" using k'(2,3) by (simp add: idle_or_none_def)
  have "on_queue k awake ?B = []" by (auto simp: on_queue_def filter_empty_conv)
  then have rd: "ready k' (tl rest) ?B = tl rest @ [t]" using nid k'(2) by (simp add: ready_def oq)
  then have "runnable k' (tl rest) ?B = ts @ [t]" using rest(2) tr by (simp add: runnable_def oq st)
  moreover have "no_exits k' (tl rest) ?B"
  proof -
    have "set rest = insert t (set (tl rest))" using rest(1) by (metis list.simps(15))
    with tQ have "set (tl rest @ [t]) \<union> set ?B \<subseteq> set ?Q \<union> set B" by (auto simp: on_queue_def)
    with ne show ?thesis unfolding no_exits_def rd st by blast
  qed
  ultimately show ?thesis using k' ts by auto
qed

lemma schedule_ring:
  assumes "sched_inv k R B [] Z" "no_exits k R B" "n < length (runnable k R B)"
  shows "\<exists>k'. schedules (Suc n) k = Some k' \<and> current k' = runnable k R B ! n"
  using assms
proof (induction n arbitrary: k R B Z)
  case 0
  then have "runnable k R B \<noteq> []" by auto
  with runnable_rotates [OF 0(1,2)] show ?case by (auto simp: hd_conv_nth)
next
  case (Suc n)
  then have ne: "runnable k R B \<noteq> []" by auto
  with runnable_rotates [OF Suc.prems(1,2)] obtain sp k' R' B' Z' where k': "schedule k = Some (sp, k')"
      "sched_inv k' R' B' [] Z'" "no_exits k' R' B'" "runnable k' R' B' = rotate1 (runnable k R B)" by blast
  from Suc.IH [OF k'(2,3)] Suc.prems(3) k'(4) obtain k2 where k2: "schedules (Suc n) k' = Some k2" "current k2 = rotate1 (runnable k R B) ! n"
    by auto
  obtain t ts where "runnable k R B = t # ts" using ne by (cases "runnable k R B") auto
  with k2 k'(1) Suc.prems(3) show ?case by (auto simp: nth_append)
qed

subsection \<open>The table of tasks\<close>

definition task_key :: "kernel \<Rightarrow> addr \<Rightarrow> u32" where
  "task_key k node = task_id (tasks k (node - 4))"

interpretation task_table: hash_client "kernel_task_hash_stub k" task_hash "task_identity k" "task_key k" for k
  by unfold_locales (simp add: task_identity_def task_key_def)

definition task_table_ok :: "kernel \<Rightarrow> (addr \<rightharpoonup> addr list) \<Rightarrow> bool" where
  "task_table_ok k T \<longleftrightarrow> hash_ok (kernel_task_hash_stub k) task_hash (task_key k) (lists k) T"

definition task_of :: "kernel \<Rightarrow> (addr \<rightharpoonup> addr list) \<Rightarrow> u32 \<rightharpoonup> addr" where
  "task_of k T i = map_option (\<lambda>n. n - 4) (hash_abs (kernel_task_hash_stub k) task_hash (task_key k) T i)"

lemma search_task_spec:
  assumes "task_table_ok k T"
  shows "search_task_by_id i k = Some (case task_of k T i of None \<Rightarrow> NULL | Some t \<Rightarrow> t)"
  using task_table.search_spec [OF assms [unfolded task_table_ok_def], of i]
    task_table.abs_not_null(1) [OF assms [unfolded task_table_ok_def], of i]
  by (auto simp: search_task_by_id_def task_of_def split: option.splits)

lemma task_node_key [simp]: "task_key k (task_node t) = task_id (tasks k t)"
  by (simp add: task_key_def task_node_def)

lemma task_key_lists [simp]: "task_key (k\<lparr>lists := h\<rparr>) = task_key k" "task_identity (k\<lparr>lists := h\<rparr>) = task_identity k"
  by (auto simp: task_key_def task_identity_def fun_eq_iff)

lemma register_task_spec:
  assumes ok: "task_table_ok k T" and "detached (lists k) (task_node t)" "task_node t \<notin> list_cells T"
    and "task_of k T (task_id (tasks k t)) = None"
  shows "\<exists>h T'. register_task_in_task_table t k = Some (OK, k\<lparr>lists := h\<rparr>) \<and> task_table_ok (k\<lparr>lists := h\<rparr>) T' \<and>
    task_of k T' = (task_of k T)(task_id (tasks k t) \<mapsto> t)"
proof -
  let ?s = "kernel_task_hash_stub k" and ?i = "task_id (tasks k t)"
  have new: "hash_abs ?s task_hash (task_key k) T ?i = None" using assms(4) by (simp add: task_of_def)
  from task_table.add_spec [OF ok [unfolded task_table_ok_def] task_node_key assms(2,3) new] obtain h where
    "add_hash_node ?s task_hash (task_identity k) (lists k) ?i (task_node t) = Some (OK, h)"
    "hash_ok ?s task_hash (task_key k) h (T(hash_bucket ?s task_hash ?i \<mapsto> the (T (hash_bucket ?s task_hash ?i)) @ [task_node t]))"
    "hash_abs ?s task_hash (task_key k) (T(hash_bucket ?s task_hash ?i \<mapsto> the (T (hash_bucket ?s task_hash ?i)) @ [task_node t])) =
      (hash_abs ?s task_hash (task_key k) T)(?i \<mapsto> task_node t)" by blast
  then show ?thesis
    by (intro exI [of _ h] exI [of _ "T(hash_bucket ?s task_hash ?i \<mapsto> the (T (hash_bucket ?s task_hash ?i)) @ [task_node t])"])
      (auto simp: register_task_in_task_table_def task_table_ok_def task_of_def task_node_def fun_eq_iff)
qed

lemma unregister_task_spec:
  assumes ok: "task_table_ok k T" and t: "task_of k T (task_id (tasks k t)) = Some t"
  shows "\<exists>h T'. unregister_task_from_task_table t k = Some (OK, k\<lparr>lists := h\<rparr>) \<and> task_table_ok (k\<lparr>lists := h\<rparr>) T' \<and>
    task_of k T' = (task_of k T)(task_id (tasks k t) := None) \<and> detached h (task_node t)"
proof -
  let ?s = "kernel_task_hash_stub k" and ?i = "task_id (tasks k t)"
  have old: "hash_abs ?s task_hash (task_key k) T ?i = Some (task_node t)"
    using t by (auto simp: task_of_def task_node_def)
  let ?T = "T(hash_bucket ?s task_hash ?i \<mapsto> remove1 (task_node t) (the (T (hash_bucket ?s task_hash ?i))))"
  from task_table.delete_spec [OF ok [unfolded task_table_ok_def] old] obtain h where
    "delete_hash_node ?s task_hash (task_identity k) (lists k) ?i = Some (OK, h)"
    "hash_ok ?s task_hash (task_key k) h ?T" "detached h (task_node t)"
    "hash_abs ?s task_hash (task_key k) ?T = (hash_abs ?s task_hash (task_key k) T)(?i := None)" by blast
  then show ?thesis
    by (intro exI [of _ h] exI [of _ ?T])
      (auto simp: unregister_task_from_task_table_def task_table_ok_def task_of_def fun_eq_iff)
qed

subsection \<open>Properties\<close>

text \<open>C30. A scheduling decision. With no task waiting to be reclaimed, \<open>schedule\<close> returns. The ready
  tasks are those of the run queue, then the current one, then those of the blocking queue that
  were woken up. The first of them that can run becomes the current task, or else the idle task; its
  frame is returned, its address space is the one in use, and its kernel stack is in the task
  state segment. The queues again satisfy the invariant: of the tasks before the chosen one the blocked
  ones are appended to the blocking queue, the exiting ones to the exit queue and the zombies to the
  zombie queue, in their order, and those behind it are the run queue.\<close>
theorem schedule_correct:
  assumes inv: "sched_inv k R B [] Z"
  defines "Q \<equiv> ready k R B"
  defines "skip \<equiv> takeWhile (not_running k) Q" and "next \<equiv> next_task k Q"
  shows "\<exists>k'. schedule k = Some (cpu (tasks k next), k') \<and> current k' = next \<and>
    tasks k' = (tasks k)(next := (tasks k next)\<lparr>schedule_counter := schedule_counter (tasks k next) + 1\<rparr>) \<and>
    esp0 k' = privilege_level0_stack_top (tasks k next) \<and> pg k' = enable_task_paging (pg k) (tasks k' next) \<and>
    sched_inv k' (tl (dropWhile (not_running k) Q)) (on_queue k blocked B @ on_queue k blocked skip)
      (on_queue k {TASK_STATE_EXITING} skip) (Z @ on_queue k {TASK_STATE_ZOMBIE} (B @ skip))"
  using schedule_spec [OF inv] unfolding Q_def skip_def next_def by blast

definition queue_demo :: kernel where
  "queue_demo = demo_kernel\<lparr>lists := (\<lambda>_. zero_cell), kernel_idle_task := 9000\<rparr>"

lemma queue_demo_inv: "sched_inv queue_demo [] [] [] []"
proof -
  let ?M = "[100 \<mapsto> [], 200 \<mapsto> [], 300 \<mapsto> [], 400 \<mapsto> []] :: addr \<rightharpoonup> addr list"
  have "sched_lists queue_demo ?M [] [] [] []"
    by (auto simp: sched_lists_def list_family_def dlist_def queue_demo_def demo_kernel_def zero_cell_def split: if_splits)
  moreover have "detached (lists queue_demo) (task_list (current queue_demo)) \<and> task_list (current queue_demo) \<notin> list_cells ?M"
    by (auto simp: detached_def queue_demo_def demo_kernel_def zero_cell_def task_list_def elim!: list_cellsE split: if_splits)
  ultimately show ?thesis unfolding sched_inv_def by (auto simp: queue_demo_def)
qed

lemma queue_demo_ready: "ready queue_demo [] [] = [1000]" "state (tasks queue_demo 1000) = TASK_STATE_RUNNING"
  "cpu (tasks queue_demo 1000) = 0"
  by (simp_all add: ready_def idle_or_none_def queue_demo_def demo_kernel_def demo_task_def)

lemma queue_demo_exit_inv: "sched_inv (queue_demo\<lparr>tasks := T\<rparr>) [] [] [] []"
  using queue_demo_inv by (simp add: sched_inv_def sched_lists_def idle_or_none_def)

theorem schedule_correct_witness:
  defines "exiting \<equiv> queue_demo\<lparr>tasks := (tasks queue_demo)(1000 := (tasks queue_demo 1000)\<lparr>state := TASK_STATE_EXITING\<rparr>)\<rparr>"
  shows "(\<exists>k'. schedule queue_demo = Some (0, k') \<and> current k' = 1000 \<and> sched_inv k' [] [] [] []) \<and>
    (\<exists>k'. schedule exiting = Some (cpu (tasks queue_demo 9000), k') \<and> current k' = 9000 \<and> sched_inv k' [] [] [1000] [])"
proof
  have inv: "sched_inv exiting [] [] [] []" unfolding exiting_def by (rule queue_demo_exit_inv)
  show "\<exists>k'. schedule queue_demo = Some (0, k') \<and> current k' = 1000 \<and> sched_inv k' [] [] [] []"
    using schedule_correct [OF queue_demo_inv] queue_demo_ready by (auto simp: next_task_def)
  have "ready exiting [] [] = [1000]" "state (tasks exiting 1000) = TASK_STATE_EXITING" "kernel_idle_task exiting = 9000"
      "tasks exiting 9000 = tasks queue_demo 9000"
    by (simp_all add: exiting_def ready_def idle_or_none_def queue_demo_def demo_kernel_def)
  then show "\<exists>k'. schedule exiting = Some (cpu (tasks queue_demo 9000), k') \<and> current k' = 9000 \<and> sched_inv k' [] [] [1000] []"
    using schedule_correct [OF inv] by (auto simp: next_task_def)
qed

text \<open>C31. Fairness. While no task changes its state, every task that can run gets the processor: the
  task at place \<open>n\<close> of the ready tasks that can run is the current one after \<open>n + 1\<close> scheduling
  decisions, all of which return.\<close>
theorem schedule_fair:
  assumes "sched_inv k R B [] Z" "no_exits k R B" "n < length (runnable k R B)"
  shows "\<exists>k'. schedules (Suc n) k = Some k' \<and> current k' = runnable k R B ! n"
  using schedule_ring [OF assms] .

theorem schedule_fair_witness: "\<exists>k'. schedules 1 queue_demo = Some k' \<and> current k' = 1000"
  using schedule_fair [OF queue_demo_inv, of 0] queue_demo_ready by (simp add: no_exits_def runnable_def)

end
