(* ===== verification/Heap_Sort.thy ===== *)
theory Heap_Sort
  imports Linked_List Generic_Tree
begin

section \<open>The binary heap (\<^verbatim>\<open>lib/heap_sort.c\<close>)\<close>

text \<open>
  The kernel keeps its timers in a binary heap built from the same \<^verbatim>\<open>struct binary_tree_node\<close>
  as the file hierarchy, here with \<^verbatim>\<open>left\<close> and \<^verbatim>\<open>right\<close> as the two children. Nodes are moved
  by rewriting links, never by copying payloads. The position of the last node and of the first
  node with a free child slot is found by a breadth-first walk over a queue of the nodes'
  \<^verbatim>\<open>list\<close> fields.

  \<open>heap_store\<close> holds the root of the \<^verbatim>\<open>heap_stub\<close> and the two memories the code works on; the
  other two members of \<^verbatim>\<open>heap_stub\<close> are never used by the code. The argument \<open>q\<close> is the address
  of the local variable \<^verbatim>\<open>queue\<close>, and \<open>cmp\<close> is the comparison function passed by the client.
\<close>

record heap_store =
  hroot :: addr
  hnodes :: theap
  hcells :: lheap

definition heap_node_detached :: "heap_store \<Rightarrow> addr \<Rightarrow> bool" where
  "heap_node_detached H node =
     (left (hnodes H node) = NULL \<and> right (hnodes H node) = NULL \<and>
      parent (hnodes H node) = NULL \<and> hroot H \<noteq> node)"

subsection \<open>Breadth-first search\<close>

definition node_list :: "addr \<Rightarrow> addr" where
  "node_list node = node + 12"

definition list_node :: "addr \<Rightarrow> addr" where
  "list_node l = l - 12"

definition enqueue_node :: "addr \<Rightarrow> addr \<Rightarrow> lheap \<Rightarrow> lheap option" where
  "enqueue_node q node c = list_append (list_init c (node_list node)) q (node_list node)"

definition enqueue_children :: "theap \<Rightarrow> addr \<Rightarrow> addr \<Rightarrow> lheap \<Rightarrow> lheap option" where
  "enqueue_children h q node c = do {
     c \<leftarrow> (if left (h node) \<noteq> NULL then enqueue_node q (left (h node)) c else Some c);
     if right (h node) \<noteq> NULL then enqueue_node q (right (h node)) c else Some c
   }"

partial_function (option) last_node_loop ::
    "theap \<Rightarrow> addr \<Rightarrow> lheap \<Rightarrow> addr \<Rightarrow> (addr \<times> lheap) option" where
  "last_node_loop h q c target = do {
     (l, c) \<leftarrow> list_fetch c q;
     if l = NULL then Some (target, c)
     else do {
       c \<leftarrow> enqueue_children h q (list_node l) c;
       last_node_loop h q c (list_node l)
     }
   }"

definition search_last_node :: "addr \<Rightarrow> heap_store \<Rightarrow> addr \<Rightarrow> (addr \<times> heap_store) option" where
  "search_last_node q H node = do {
     let c = list_init (hcells H) q;
     if node = NULL then Some (NULL, H\<lparr>hcells := c\<rparr>)
     else do {
       c \<leftarrow> enqueue_node q node c;
       (target, c) \<leftarrow> last_node_loop (hnodes H) q c NULL;
       kassert (target \<noteq> NULL);
       kassert (left (hnodes H target) = NULL);
       kassert (right (hnodes H target) = NULL);
       Some (target, H\<lparr>hcells := c\<rparr>)
     }
   }"

partial_function (option) last_parent_loop ::
    "theap \<Rightarrow> addr \<Rightarrow> lheap \<Rightarrow> (addr \<times> lheap) option" where
  "last_parent_loop h q c = do {
     (l, c) \<leftarrow> list_fetch c q;
     if l = NULL then Some (NULL, c)
     else if left (h (list_node l)) = NULL \<or> right (h (list_node l)) = NULL
     then do {
       kassert (\<not> (left (h (list_node l)) = NULL \<and> right (h (list_node l)) \<noteq> NULL));
       Some (list_node l, c)
     }
     else do {
       c \<leftarrow> enqueue_children h q (list_node l) c;
       last_parent_loop h q c
     }
   }"

definition search_last_parent :: "addr \<Rightarrow> heap_store \<Rightarrow> addr \<Rightarrow> (addr \<times> heap_store) option" where
  "search_last_parent q H node = do {
     let c = list_init (hcells H) q;
     if node = NULL then Some (NULL, H\<lparr>hcells := c\<rparr>)
     else do {
       c \<leftarrow> enqueue_node q node c;
       (target, c) \<leftarrow> last_parent_loop (hnodes H) q c;
       kassert (target \<noteq> NULL \<longrightarrow> right (hnodes H target) = NULL);
       Some (target, H\<lparr>hcells := c\<rparr>)
     }
   }"

subsection \<open>Exchanging a node with its child\<close>

text \<open>
  The third assertion of the source is an assignment, \<^verbatim>\<open>ASSERT(child->parent = parent)\<close>; with
  \<open>par\<close> not null it always passes and stores. The sibling's parent link is stored without a
  null check: for a node with one child the store goes to the parent field at address 0.
\<close>

definition swap_nodes :: "heap_store \<Rightarrow> addr \<Rightarrow> addr \<Rightarrow> heap_store option" where
  "swap_nodes H par child = do {
     kassert (hroot H \<noteq> NULL);
     kassert (child \<noteq> NULL \<and> par \<noteq> NULL);
     let h = set_parent (hnodes H) child par;
     kassert (parent (h child) \<noteq> NULL);
     let left_of_child = left (h child);
     let right_of_child = right (h child);
     let is_left_child = (child = left (h par));
     let h = set_parent h child (parent (h par));
     h \<leftarrow> (if parent (h par) \<noteq> NULL
           then if left (h (parent (h par))) = par
                then Some (set_left h (parent (h par)) child)
                else do {
                  kassert (right (h (parent (h par))) = par);
                  Some (set_right h (parent (h par)) child)
                }
           else Some h);
     let h = (if is_left_child
              then (let h = set_left h child par;
                        h = set_right h child (right (h par))
                    in set_parent h (right (h child)) child)
              else (let h = set_right h child par;
                        h = set_left h child (left (h par))
                    in set_parent h (left (h child)) child));
     let h = set_parent h par child;
     let h = set_left h par left_of_child;
     let h = set_right h par right_of_child;
     let h = (if left (h par) \<noteq> NULL then set_parent h (left (h par)) par else h);
     let h = (if right (h par) \<noteq> NULL then set_parent h (right (h par)) par else h);
     Some (H\<lparr>hroot := (if hroot H = par then child else hroot H), hnodes := h\<rparr>)
   }"

subsection \<open>Sifting\<close>

text \<open>The values of \<^verbatim>\<open>left_is_smaller\<close> and \<^verbatim>\<open>right_is_smaller\<close> in one round of either loop.\<close>

definition smaller_children ::
    "(addr \<Rightarrow> addr \<Rightarrow> int) \<Rightarrow> theap \<Rightarrow> addr \<Rightarrow> (bool \<times> bool) option" where
  "smaller_children cmp h cur = do {
     let left_is_smaller = (left (h cur) \<noteq> NULL \<and> cmp (left (h cur)) cur < 0);
     if right (h cur) \<noteq> NULL
     then do {
       kassert (left (h cur) \<noteq> NULL);
       Some (left_is_smaller,
             if left_is_smaller then cmp (right (h cur)) (left (h cur)) < 0
             else cmp (right (h cur)) cur < 0)
     }
     else Some (left_is_smaller, False)
   }"

partial_function (option) attach_loop ::
    "(addr \<Rightarrow> addr \<Rightarrow> int) \<Rightarrow> heap_store \<Rightarrow> addr \<Rightarrow> heap_store option" where
  "attach_loop cmp H cur =
     (if cur = NULL then Some H
      else do {
        (l, r) \<leftarrow> smaller_children cmp (hnodes H) cur;
        if r \<or> l
        then do {
          H \<leftarrow> swap_nodes H cur (if r then right (hnodes H cur) else left (hnodes H cur));
          kassert (parent (hnodes H cur) \<noteq> NULL);
          attach_loop cmp H (parent (hnodes H (parent (hnodes H cur))))
        }
        else Some H
      })"

definition attach_heap_node ::
    "(addr \<Rightarrow> addr \<Rightarrow> int) \<Rightarrow> addr \<Rightarrow> heap_store \<Rightarrow> addr \<Rightarrow> heap_store option" where
  "attach_heap_node cmp q H node = do {
     kassert (parent (hnodes H node) = NULL);
     kassert (left (hnodes H node) = NULL);
     kassert (right (hnodes H node) = NULL);
     (last_parent, H) \<leftarrow> search_last_parent q H (hroot H);
     if last_parent = NULL
     then do {
       kassert (hroot H = NULL);
       Some (H\<lparr>hroot := node\<rparr>)
     }
     else do {
       let h = hnodes H;
       kassert (right (h last_parent) = NULL);
       let h = (if left (h last_parent) = NULL then set_left h last_parent node
                else set_right h last_parent node);
       attach_loop cmp (H\<lparr>hnodes := set_parent h node last_parent\<rparr>) last_parent
     }
   }"

text \<open>The loop goes on from the same node, which each exchange moves one level down.\<close>

partial_function (option) adjust_heap_node ::
    "(addr \<Rightarrow> addr \<Rightarrow> int) \<Rightarrow> heap_store \<Rightarrow> addr \<Rightarrow> heap_store option" where
  "adjust_heap_node cmp H cur =
     (if cur = NULL then Some H
      else do {
        (l, r) \<leftarrow> smaller_children cmp (hnodes H) cur;
        if r \<or> l
        then do {
          H \<leftarrow> swap_nodes H cur (if r then right (hnodes H cur) else left (hnodes H cur));
          kassert (parent (hnodes H cur) \<noteq> NULL);
          adjust_heap_node cmp H cur
        }
        else Some H
      })"

subsection \<open>Removal\<close>

text \<open>The block that takes the last node off the tree, the same in both removal functions.\<close>

definition unlink_last_node :: "heap_store \<Rightarrow> addr \<Rightarrow> heap_store option" where
  "unlink_last_node H last_node = do {
     let h = hnodes H;
     if parent (h last_node) = NULL
     then do {
       kassert (hroot H = last_node);
       Some (H\<lparr>hroot := NULL\<rparr>)
     }
     else if left (h (parent (h last_node))) = last_node
     then do {
       kassert (right (h (parent (h last_node))) = NULL);
       Some (H\<lparr>hnodes := set_parent (set_left h (parent (h last_node)) NULL) last_node NULL\<rparr>)
     }
     else do {
       kassert (right (h (parent (h last_node))) = last_node);
       Some (H\<lparr>hnodes := set_parent (set_right h (parent (h last_node)) NULL) last_node NULL\<rparr>)
     }
   }"

text \<open>The block of \<^verbatim>\<open>detach_heap_node\<close> that puts the last node in the place of the top of the heap.\<close>

definition replace_top :: "heap_store \<Rightarrow> addr \<Rightarrow> (addr \<times> heap_store) option" where
  "replace_top H last_node =
     (if hroot H = NULL then Some (last_node, H)
      else do {
        let d = hroot H;
        let h = hnodes H;
        let h = (if left (h d) \<noteq> NULL then set_parent h (left (h d)) last_node else h);
        let h = (if right (h d) \<noteq> NULL then set_parent h (right (h d)) last_node else h);
        let h = set_left h last_node (left (h d));
        let h = set_right h last_node (right (h d));
        let h = set_left h d NULL;
        let h = set_right h d NULL;
        kassert (parent (h d) = NULL);
        Some (d, H\<lparr>hroot := last_node, hnodes := h\<rparr>)
      })"

definition detach_heap_node ::
    "(addr \<Rightarrow> addr \<Rightarrow> int) \<Rightarrow> addr \<Rightarrow> heap_store \<Rightarrow> (addr \<times> heap_store) option" where
  "detach_heap_node cmp q H =
     (if hroot H = NULL then Some (NULL, H)
      else do {
        (last_node, H) \<leftarrow> search_last_node q H (hroot H);
        kassert (last_node \<noteq> NULL);
        kassert (left (hnodes H last_node) = NULL \<and> right (hnodes H last_node) = NULL);
        H \<leftarrow> unlink_last_node H last_node;
        (detached_node, H) \<leftarrow> replace_top H last_node;
        H \<leftarrow> adjust_heap_node cmp H (hroot H);
        Some (detached_node, H)
      })"

partial_function (option) climb_to_root :: "theap \<Rightarrow> addr \<Rightarrow> addr option" where
  "climb_to_root h cur =
     (if cur \<noteq> NULL \<and> parent (h cur) \<noteq> NULL then climb_to_root h (parent (h cur)) else Some cur)"

definition replace_node :: "heap_store \<Rightarrow> addr \<Rightarrow> addr \<Rightarrow> heap_store option" where
  "replace_node H node last_node = do {
     let h = hnodes H;
     let h = set_left h last_node (left (h node));
     let h = set_right h last_node (right (h node));
     let h = (if left (h node) \<noteq> NULL then set_parent h (left (h node)) last_node else h);
     h \<leftarrow> (if right (h node) \<noteq> NULL
           then do {
             kassert (left (h node) \<noteq> NULL);
             Some (set_parent h (right (h node)) last_node)
           }
           else Some h);
     if parent (h node) = NULL
     then do {
       kassert (hroot H = node);
       Some (H\<lparr>hroot := last_node, hnodes := set_parent h last_node NULL\<rparr>)
     }
     else do {
       let h = set_parent h last_node (parent (h node));
       if left (h (parent (h node))) = node
       then Some (H\<lparr>hnodes := set_left h (parent (h node)) last_node\<rparr>)
       else do {
         kassert (right (h (parent (h node))) = node);
         Some (H\<lparr>hnodes := set_right h (parent (h node)) last_node\<rparr>)
       }
     }
   }"

definition delete_heap_node ::
    "(addr \<Rightarrow> addr \<Rightarrow> int) \<Rightarrow> addr \<Rightarrow> heap_store \<Rightarrow> addr \<Rightarrow> heap_store option" where
  "delete_heap_node cmp q H node = do {
     top_node \<leftarrow> climb_to_root (hnodes H) node;
     if hroot H = NULL \<or> hroot H \<noteq> top_node then Some H
     else do {
       (last_node, H) \<leftarrow> search_last_node q H (hroot H);
       kassert (last_node \<noteq> NULL);
       kassert (left (hnodes H last_node) = NULL \<and> right (hnodes H last_node) = NULL);
       H \<leftarrow> unlink_last_node H last_node;
       H \<leftarrow> (if hroot H \<noteq> NULL \<and> node \<noteq> last_node
             then do {
               H \<leftarrow> replace_node H node last_node;
               adjust_heap_node cmp H last_node
             }
             else do {
               kassert (node = last_node);
               Some H
             });
       Some (H\<lparr>hnodes := set_right (set_left (set_parent (hnodes H) node NULL) node NULL) node NULL\<rparr>)
     }
   }"


declare last_node_loop.simps [code] last_parent_loop.simps [code] attach_loop.simps [code]
  adjust_heap_node.simps [code] climb_to_root.simps [code]

end
