(* ===== verification/Heap_Sort_Correct.thy ===== *)
theory Heap_Sort_Correct
  imports "HOL-Library.Tree" Heap_Sort
begin

section \<open>The binary heap is a priority queue\<close>

text \<open>
  The nodes of a heap form a tree of addresses: \<open>trep h p T\<close> says that the links in \<open>h\<close> are those
  of \<open>T\<close>, whose root has parent \<open>p\<close>. Exchanging a node with its child renames the tree by the
  transposition of the two addresses, so its shape stays the same.
\<close>

subsection \<open>Trees of linked nodes\<close>

fun root_of :: "addr tree \<Rightarrow> addr" where
  "root_of Leaf = NULL"
| "root_of (Node l a r) = a"

fun trep :: "theap \<Rightarrow> addr \<Rightarrow> addr tree \<Rightarrow> bool" where
  "trep h p Leaf = True"
| "trep h p (Node l a r) =
     (a \<noteq> NULL \<and> h a = \<lparr>parent = p, left = root_of l, right = root_of r\<rparr> \<and> trep h a l \<and> trep h a r)"

fun left_first :: "addr tree \<Rightarrow> bool" where
  "left_first Leaf = True"
| "left_first (Node l a r) = ((l = Leaf \<longrightarrow> r = Leaf) \<and> left_first l \<and> left_first r)"

fun depth :: "addr tree \<Rightarrow> addr \<Rightarrow> nat" where
  "depth Leaf x = 0"
| "depth (Node l a r) x =
     (if x = a then 0 else Suc (if x \<in> set_tree l then depth l x else depth r x))"

lemma root_of_NULL: "trep h p T \<Longrightarrow> root_of T = NULL \<longleftrightarrow> T = Leaf"
  by (cases T) auto

lemma root_of_in: "T \<noteq> Leaf \<Longrightarrow> root_of T \<in> set_tree T"
  by (cases T) auto

lemma trep_NULL: "trep h p T \<Longrightarrow> NULL \<notin> set_tree T"
  by (induction T arbitrary: p) auto

lemma trep_cong: "(\<And>x. x \<in> set_tree T \<Longrightarrow> h' x = h x) \<Longrightarrow> trep h' p T = trep h p T"
  by (induction T arbitrary: p) auto

lemma trep_root: "trep h p T \<Longrightarrow> T \<noteq> Leaf \<Longrightarrow> parent (h (root_of T)) = p"
  by (cases T) auto

lemma depth_height: "x \<in> set_tree T \<Longrightarrow> depth T x < height T"
  by (induction T) (auto simp: less_max_iff_disj)

lemma depth_zero: "x \<in> set_tree T \<Longrightarrow> depth T x = 0 \<longleftrightarrow> x = root_of T"
  by (cases T) auto

lemma theap_reads:
  "parent (set_parent h a v x) = (if x = a then v else parent (h x))"
  "left (set_parent h a v x) = left (h x)" "right (set_parent h a v x) = right (h x)"
  "parent (set_left h a v x) = parent (h x)" "right (set_left h a v x) = right (h x)"
  "left (set_left h a v x) = (if x = a then v else left (h x))"
  "parent (set_right h a v x) = parent (h x)" "left (set_right h a v x) = left (h x)"
  "right (set_right h a v x) = (if x = a then v else right (h x))"
  by (simp_all add: theap_upd)

lemma node_eqI:
  "parent n = parent m \<Longrightarrow> left n = left m \<Longrightarrow> right n = right m \<Longrightarrow> (n :: binary_tree_node) = m"
  by simp

text \<open>What a client of the tree sees: each link and its converse.\<close>

lemma trep_left:
  assumes "trep h p T" "distinct (inorder T)" "x \<in> set_tree T" "left (h x) \<noteq> NULL"
  shows "left (h x) \<in> set_tree T \<and> parent (h (left (h x))) = x \<and>
    depth T (left (h x)) = Suc (depth T x) \<and> left (h x) \<noteq> right (h x)"
  using assms
proof (induction T arbitrary: p)
  case (Node l a r)
  show ?case
  proof (cases "x = a")
    case True
    obtain ll y lr where l: "l = Node ll y lr" using Node.prems True by (cases l) auto
    show ?thesis using Node.prems True l by (cases r) auto
  next
    case False
    then consider "x \<in> set_tree l" | "x \<in> set_tree r" "x \<notin> set_tree l" using Node.prems by auto
    then show ?thesis
      using Node False by cases (auto 4 3)
  qed
qed simp


lemma trep_right:
  assumes "trep h p T" "distinct (inorder T)" "x \<in> set_tree T" "right (h x) \<noteq> NULL"
  shows "right (h x) \<in> set_tree T \<and> parent (h (right (h x))) = x \<and>
    depth T (right (h x)) = Suc (depth T x)"
  using assms
proof (induction T arbitrary: p)
  case (Node l a r)
  show ?case
  proof (cases "x = a")
    case True
    obtain rl y rr where r: "r = Node rl y rr" using Node.prems True by (cases r) auto
    show ?thesis using Node.prems True r by auto
  next
    case False
    then consider "x \<in> set_tree l" | "x \<in> set_tree r" "x \<notin> set_tree l" using Node.prems by auto
    then show ?thesis
      using Node False by cases (auto 4 3)
  qed
qed simp

lemma trep_parent:
  assumes "trep h p T" "distinct (inorder T)" "x \<in> set_tree T" "x \<noteq> root_of T"
  shows "parent (h x) \<in> set_tree T \<and>
    (left (h (parent (h x))) = x \<or> right (h (parent (h x))) = x)"
  using assms
proof (induction T arbitrary: p)
  case (Node l a r)
  have "x \<in> set_tree l \<or> x \<in> set_tree r" using Node.prems(3,4) by auto
  then consider "x \<in> set_tree l" "x = root_of l" | "x \<in> set_tree r" "x = root_of r"
    | "x \<in> set_tree l" "x \<noteq> root_of l" | "x \<in> set_tree r" "x \<noteq> root_of r"
    by blast
  then show ?case
  proof cases
    case 1
    then have "parent (h x) = a" using Node.prems trep_root [of h a l] by (cases l) auto
    then show ?thesis using Node.prems 1 by auto
  next
    case 2
    then have "parent (h x) = a" using Node.prems trep_root [of h a r] by (cases r) auto
    then show ?thesis using Node.prems 2 by auto
  next
    case 3
    then show ?thesis using Node.IH(1) [of a] Node.prems by auto
  next
    case 4
    then show ?thesis using Node.IH(2) [of a] Node.prems by auto
  qed
qed simp

lemma left_first_links:
  "trep h p T \<Longrightarrow> left_first T \<Longrightarrow> x \<in> set_tree T \<Longrightarrow> right (h x) \<noteq> NULL \<Longrightarrow> left (h x) \<noteq> NULL"
proof (induction T arbitrary: p)
  case (Node l a r)
  show ?case
  proof (cases "x = a")
    case True
    then show ?thesis using Node.prems by (cases l; cases r) auto
  next
    case False
    then show ?thesis using Node by auto
  qed
qed simp

text \<open>The tree of a heap, and the links of its nodes as one bundle of facts.\<close>

definition heap_tree :: "heap_store \<Rightarrow> addr tree \<Rightarrow> bool" where
  "heap_tree H T \<longleftrightarrow> trep (hnodes H) NULL T \<and> distinct (inorder T) \<and> left_first T \<and> hroot H = root_of T"

lemma heap_treeD:
  assumes "heap_tree H T"
  shows heap_tree_NULL: "NULL \<notin> set_tree T"
    and heap_tree_left: "\<And>x. x \<in> set_tree T \<Longrightarrow> left (hnodes H x) \<noteq> NULL \<Longrightarrow>
      left (hnodes H x) \<in> set_tree T \<and> parent (hnodes H (left (hnodes H x))) = x \<and>
      depth T (left (hnodes H x)) = Suc (depth T x) \<and> left (hnodes H x) \<noteq> right (hnodes H x)"
    and heap_tree_right: "\<And>x. x \<in> set_tree T \<Longrightarrow> right (hnodes H x) \<noteq> NULL \<Longrightarrow>
      right (hnodes H x) \<in> set_tree T \<and> parent (hnodes H (right (hnodes H x))) = x \<and>
      depth T (right (hnodes H x)) = Suc (depth T x) \<and> left (hnodes H x) \<noteq> NULL"
    and heap_tree_parent: "\<And>x. x \<in> set_tree T \<Longrightarrow> parent (hnodes H x) \<noteq> NULL \<Longrightarrow>
      parent (hnodes H x) \<in> set_tree T \<and> (left (hnodes H (parent (hnodes H x))) = x \<or>
        right (hnodes H (parent (hnodes H x))) = x)"
    and heap_tree_root: "\<And>x. x \<in> set_tree T \<Longrightarrow> parent (hnodes H x) = NULL \<longleftrightarrow> x = hroot H"
proof -
  note T = assms [unfolded heap_tree_def]
  show n: "NULL \<notin> set_tree T" using T trep_NULL by blast
  show "left (hnodes H x) \<in> set_tree T \<and> parent (hnodes H (left (hnodes H x))) = x \<and>
      depth T (left (hnodes H x)) = Suc (depth T x) \<and> left (hnodes H x) \<noteq> right (hnodes H x)"
    if "x \<in> set_tree T" "left (hnodes H x) \<noteq> NULL" for x
    using trep_left [of "hnodes H" NULL T x] T that by blast
  show "right (hnodes H x) \<in> set_tree T \<and> parent (hnodes H (right (hnodes H x))) = x \<and>
      depth T (right (hnodes H x)) = Suc (depth T x) \<and> left (hnodes H x) \<noteq> NULL"
    if "x \<in> set_tree T" "right (hnodes H x) \<noteq> NULL" for x
    using trep_right [of "hnodes H" NULL T x] left_first_links [of "hnodes H" NULL T x] T that by blast
  have nonroot: "parent (hnodes H x) \<in> set_tree T \<and> (left (hnodes H (parent (hnodes H x))) = x \<or>
        right (hnodes H (parent (hnodes H x))) = x)"
    if "x \<in> set_tree T" "x \<noteq> root_of T" for x
    using trep_parent [of "hnodes H" NULL T x] T that by blast
  have rt: "parent (hnodes H (root_of T)) = NULL" if "x \<in> set_tree T" for x
    using trep_root [of "hnodes H" NULL T] T that by (cases T) auto
  show "parent (hnodes H x) \<in> set_tree T \<and> (left (hnodes H (parent (hnodes H x))) = x \<or>
        right (hnodes H (parent (hnodes H x))) = x)"
    if "x \<in> set_tree T" "parent (hnodes H x) \<noteq> NULL" for x
    using nonroot [of x] rt [of x] that by (cases "x = root_of T") auto
  show "parent (hnodes H x) = NULL \<longleftrightarrow> x = hroot H" if "x \<in> set_tree T" for x
    using nonroot [of x] rt [of x] n that T by (cases "x = root_of T") auto
qed

lemma heap_tree_depth:
  assumes "heap_tree H T" "x \<in> set_tree T" "parent (hnodes H x) \<noteq> NULL"
  shows "depth T x = Suc (depth T (parent (hnodes H x)))"
proof -
  let ?p = "parent (hnodes H x)"
  have "x \<noteq> NULL" "?p \<in> set_tree T" "left (hnodes H ?p) = x \<or> right (hnodes H ?p) = x"
    using heap_treeD(1,4) [OF assms(1)] assms(2,3) by auto
  then show ?thesis
    using heap_treeD(2,3) [OF assms(1), of ?p] by auto
qed

subsection \<open>Exchanging a node with its child\<close>

definition exchange :: "addr \<Rightarrow> addr \<Rightarrow> addr \<Rightarrow> addr" where
  "exchange a b x = (if x = a then b else if x = b then a else x)"

definition rename_node :: "(addr \<Rightarrow> addr) \<Rightarrow> binary_tree_node \<Rightarrow> binary_tree_node" where
  "rename_node s n = \<lparr>parent = s (parent n), left = s (left n), right = s (right n)\<rparr>"

lemma exchange_exchange [simp]: "exchange a b (exchange a b x) = x"
  by (simp add: exchange_def)

lemma exchange_inj [simp]: "exchange a b x = exchange a b y \<longleftrightarrow> x = y"
  by (metis exchange_exchange)

lemma exchange_simps [simp]: "exchange a b a = b" "exchange a b b = a"
  by (auto simp: exchange_def)

lemma exchange_other: "x \<noteq> a \<Longrightarrow> x \<noteq> b \<Longrightarrow> exchange a b x = x"
  by (simp add: exchange_def)

lemma exchange_set: "a \<in> S \<Longrightarrow> b \<in> S \<Longrightarrow> exchange a b ` S = S"
  by (force simp: exchange_def image_iff)

lemma exchange_in: "a \<in> S \<Longrightarrow> b \<in> S \<Longrightarrow> exchange a b x \<in> S \<longleftrightarrow> x \<in> S"
  by (auto simp: exchange_def)

lemma trep_rename:
  assumes "\<And>x. x \<in> set_tree T \<Longrightarrow> h' (s x) = rename_node s (h x)"
    and "\<And>x. s x = NULL \<longleftrightarrow> x = NULL"
  shows "trep h p T \<Longrightarrow> trep h' (s p) (map_tree s T)"
  using assms(1)
proof (induction T arbitrary: p)
  case (Node l a r)
  have rt: "root_of (map_tree s t) = s (root_of t)" for t
    using assms(2) by (cases t) auto
  have "h' (s a) = rename_node s (h a)" using Node.prems(2) [of a] by simp
  then show ?case
    using Node assms(2) by (simp add: rt rename_node_def)
qed simp

lemma depth_rename: "inj s \<Longrightarrow> depth (map_tree s T) (s x) = depth T x"
  by (induction T) (auto simp: tree.set_map inj_image_mem_iff inj_eq)

lemma left_first_rename: "left_first (map_tree s T) = left_first T"
  by (induction T) auto

lemma heap_tree_rename:
  assumes "heap_tree H T"
    and "\<And>x. x \<in> set_tree T \<Longrightarrow> hnodes H' (s x) = rename_node s (hnodes H x)"
    and "inj s" "s NULL = NULL" "hroot H' = s (hroot H)"
  shows "heap_tree H' (map_tree s T)"
proof -
  have "s x = NULL \<longleftrightarrow> x = NULL" for x using assms(3,4) by (metis injD)
  moreover from this have "root_of (map_tree s T) = s (root_of T)"
    by (cases T) auto
  moreover have "trep (hnodes H') NULL (map_tree s T)"
    using trep_rename [of T "hnodes H'" s "hnodes H" NULL] assms calculation(1)
    by (simp only: heap_tree_def)
  ultimately show ?thesis
    using assms
    by (simp add: heap_tree_def inorder_map distinct_map left_first_rename inj_on_subset [of s UNIV])
qed


lemma rename_other:
  "parent n \<noteq> a \<Longrightarrow> parent n \<noteq> b \<Longrightarrow> left n \<noteq> a \<Longrightarrow> left n \<noteq> b \<Longrightarrow> right n \<noteq> a \<Longrightarrow> right n \<noteq> b \<Longrightarrow>
    rename_node (exchange a b) n = n"
  by (simp add: rename_node_def exchange_other)

text \<open>
  The nodes an exchange touches: \<open>a\<close>, its child \<open>b\<close>, the parent \<open>g\<close> of \<open>a\<close>, the children \<open>la\<close> and
  \<open>ra\<close> of \<open>a\<close> (one of them \<open>b\<close>) and the children \<open>lb\<close> and \<open>rb\<close> of \<open>b\<close>.
\<close>

lemma swap_neighbours:
  assumes T: "heap_tree H T" and a: "a \<in> set_tree T" and b: "b \<in> set_tree T"
    and na: "hnodes H a = \<lparr>parent = g, left = la, right = ra\<rparr>"
    and nb: "hnodes H b = \<lparr>parent = a, left = lb, right = rb\<rparr>"
  shows "a \<noteq> NULL" "b \<noteq> NULL" "hroot H \<noteq> b" "hroot H \<noteq> NULL"
    and "la = b \<and> ra \<noteq> b \<or> ra = b \<and> la \<noteq> b"
    and "a \<noteq> b" "g \<noteq> a" "g \<noteq> b" "lb \<noteq> a" "lb \<noteq> b" "rb \<noteq> a" "rb \<noteq> b" "la \<noteq> a" "ra \<noteq> a"
    and "lb \<noteq> NULL \<Longrightarrow> lb \<in> set_tree T \<and> lb \<noteq> la \<and> lb \<noteq> ra \<and> parent (hnodes H lb) = b"
    and "rb \<noteq> NULL \<Longrightarrow> rb \<in> set_tree T \<and> rb \<noteq> la \<and> rb \<noteq> ra \<and> parent (hnodes H rb) = b"
    and "la \<noteq> NULL \<Longrightarrow> la \<in> set_tree T \<and> parent (hnodes H la) = a"
    and "ra \<noteq> NULL \<Longrightarrow> ra \<in> set_tree T \<and> parent (hnodes H ra) = a"
    and "g \<noteq> NULL \<Longrightarrow> g \<in> set_tree T \<and> (left (hnodes H g) = a \<or> right (hnodes H g) = a)"
proof -
  note D = heap_treeD [OF T]
  show a0: "a \<noteq> NULL" and b0: "b \<noteq> NULL" using a b D(1) by auto
  show "hroot H \<noteq> b" using D(5) [OF b] nb a0 by auto
  show "hroot H \<noteq> NULL" using T a root_of_NULL [of "hnodes H" NULL T] by (auto simp: heap_tree_def)
  have side: "la = b \<or> ra = b" using D(4) [OF b] nb na a0 by auto
  show la: "la \<in> set_tree T \<and> parent (hnodes H la) = a" if "la \<noteq> NULL"
    using D(2) [OF a] na that by auto
  show ra: "ra \<in> set_tree T \<and> parent (hnodes H ra) = a" if "ra \<noteq> NULL"
    using D(3) [OF a] na that by auto
  show "la = b \<and> ra \<noteq> b \<or> ra = b \<and> la \<noteq> b" using side D(2) [OF a] na b0 by auto
  have da: "la \<noteq> NULL \<Longrightarrow> depth T la = Suc (depth T a)" "ra \<noteq> NULL \<Longrightarrow> depth T ra = Suc (depth T a)"
    using D(2) [OF a] D(3) [OF a] na by auto
  have db: "depth T b = Suc (depth T a)" using side da b0 by auto
  have dl: "lb \<noteq> NULL \<Longrightarrow> depth T lb = Suc (Suc (depth T a))" "rb \<noteq> NULL \<Longrightarrow> depth T rb = Suc (Suc (depth T a))"
    using D(2) [OF b] D(3) [OF b] nb db by auto
  show g: "g \<in> set_tree T \<and> (left (hnodes H g) = a \<or> right (hnodes H g) = a)" if "g \<noteq> NULL"
    using D(4) [OF a] na that by auto
  have dg: "g \<noteq> NULL \<Longrightarrow> Suc (depth T g) = depth T a" using g D(2) [of g] D(3) [of g] a0 by auto
  show "a \<noteq> b" "g \<noteq> a" "g \<noteq> b" "lb \<noteq> a" "lb \<noteq> b" "rb \<noteq> a" "rb \<noteq> b" "la \<noteq> a" "ra \<noteq> a"
    using da db dl dg a0 b0 by auto
  show "lb \<in> set_tree T \<and> lb \<noteq> la \<and> lb \<noteq> ra \<and> parent (hnodes H lb) = b" if "lb \<noteq> NULL"
    using D(2) [OF b] nb da dl that by auto
  show "rb \<in> set_tree T \<and> rb \<noteq> la \<and> rb \<noteq> ra \<and> parent (hnodes H rb) = b" if "rb \<noteq> NULL"
    using D(3) [OF b] nb da dl that by auto
qed

text \<open>The links the code stores.\<close>

lemma swap_nodes_result:
  assumes T: "heap_tree H T" and a: "a \<in> set_tree T" and b: "b \<in> set_tree T"
    and na: "hnodes H a = \<lparr>parent = g, left = la, right = ra\<rparr>"
    and nb: "hnodes H b = \<lparr>parent = a, left = lb, right = rb\<rparr>"
  shows "\<exists>h'. swap_nodes H a b = Some (H\<lparr>hroot := exchange a b (hroot H), hnodes := h'\<rparr>) \<and>
    (\<forall>x. parent (h' x) = (if rb \<noteq> NULL \<and> x = rb \<or> lb \<noteq> NULL \<and> x = lb then a else
      if x = a \<or> x = (if la = b then ra else la) then b else if x = b then g else parent (hnodes H x))) \<and>
    (\<forall>x. left (h' x) = (if x = a then lb else if x = b then (if la = b then a else la)
      else if g \<noteq> NULL \<and> x = g \<and> left (hnodes H g) = a then b else left (hnodes H x))) \<and>
    (\<forall>x. right (h' x) = (if x = a then rb else if x = b then (if la = b then ra else a)
      else if g \<noteq> NULL \<and> x = g \<and> left (hnodes H g) \<noteq> a then b else right (hnodes H x)))"
proof -
  define h where "h = hnodes H"
  note N = swap_neighbours [OF assms, folded h_def] and n = na [folded h_def] nb [folded h_def]
  define h2 where "h2 = (if g = NULL then set_parent (set_parent h b a) b g
    else if left (h g) = a then set_left (set_parent (set_parent h b a) b g) g b
    else set_right (set_parent (set_parent h b a) b g) g b)"
  define h3 where "h3 = (if la = b then set_right (set_left h2 b a) b ra else set_left (set_right h2 b a) b la)"
  define h4 where "h4 = set_right (set_left (set_parent (set_parent h3 (if la = b then ra else la) b) a b) a lb) a rb"
  define h5 where "h5 = (if lb = NULL then h4 else set_parent h4 lb a)"
  define h6 where "h6 = (if rb = NULL then h5 else set_parent h5 rb a)"
  note defs = h6_def h5_def h4_def h3_def h2_def
  have "swap_nodes H a b = Some (H\<lparr>hroot := exchange a b (hroot H), hnodes := h6\<rparr>)"
    using N(1-14,19)
    by (cases "la = b"; cases "g = NULL"; cases "left (h g) = a")
       (simp_all add: swap_nodes_def h_def [symmetric] n theap_reads exchange_def defs)
  moreover have "parent (h6 x) = (if rb \<noteq> NULL \<and> x = rb \<or> lb \<noteq> NULL \<and> x = lb then a else
      if x = a \<or> x = (if la = b then ra else la) then b else if x = b then g else parent (h x))"
    "left (h6 x) = (if x = a then lb else if x = b then (if la = b then a else la)
      else if g \<noteq> NULL \<and> x = g \<and> left (h g) = a then b else left (h x))"
    "right (h6 x) = (if x = a then rb else if x = b then (if la = b then ra else a)
      else if g \<noteq> NULL \<and> x = g \<and> left (h g) \<noteq> a then b else right (h x))" for x
    using N(6-14) by (auto simp: theap_reads defs)
  ultimately show ?thesis unfolding h_def by blast
qed

lemma swap_nodes_links:
  assumes T: "heap_tree H T" and a: "a \<in> set_tree T" and b: "b \<in> set_tree T"
    and ab: "parent (hnodes H b) = a"
  shows "\<exists>h'. swap_nodes H a b = Some (H\<lparr>hroot := exchange a b (hroot H), hnodes := h'\<rparr>) \<and>
    (\<forall>x\<in>set_tree T. h' x = rename_node (exchange a b) (hnodes H (exchange a b x))) \<and>
    (\<forall>x. x \<notin> set_tree T \<longrightarrow> x \<noteq> NULL \<longrightarrow> h' x = hnodes H x)"
proof -
  obtain g la ra where na: "hnodes H a = \<lparr>parent = g, left = la, right = ra\<rparr>" by (metis binary_tree_node.cases)
  obtain lb rb where nb: "hnodes H b = \<lparr>parent = a, left = lb, right = rb\<rparr>"
    using ab by (metis binary_tree_node.cases binary_tree_node.select_convs(1))
  note N = swap_neighbours [OF T a b na nb] and D = heap_treeD [OF T]
  obtain h' where sw: "swap_nodes H a b = Some (H\<lparr>hroot := exchange a b (hroot H), hnodes := h'\<rparr>)"
    and reads: "\<And>x. parent (h' x) = (if rb \<noteq> NULL \<and> x = rb \<or> lb \<noteq> NULL \<and> x = lb then a else
      if x = a \<or> x = (if la = b then ra else la) then b else if x = b then g else parent (hnodes H x))"
     "\<And>x. left (h' x) = (if x = a then lb else if x = b then (if la = b then a else la)
      else if g \<noteq> NULL \<and> x = g \<and> left (hnodes H g) = a then b else left (hnodes H x))"
     "\<And>x. right (h' x) = (if x = a then rb else if x = b then (if la = b then ra else a)
      else if g \<noteq> NULL \<and> x = g \<and> left (hnodes H g) \<noteq> a then b else right (hnodes H x))"
    using swap_nodes_result [OF T a b na nb] by blast
  have in_a: "h' a = rename_node (exchange a b) (hnodes H b)"
    using N(6-14) by (intro node_eqI) (auto simp: reads rename_node_def nb exchange_def)
  have in_b: "h' b = rename_node (exchange a b) (hnodes H a)"
    using N(1-14) by (intro node_eqI) (auto simp: reads rename_node_def na exchange_def)
  have in_x: "h' x = rename_node (exchange a b) (hnodes H x)"
    if x: "x \<in> set_tree T" "x \<noteq> a" "x \<noteq> b" for x
    using N D(1) D(2-4) [OF x(1)] x na nb
    by (intro node_eqI) (auto simp: reads rename_node_def exchange_def)
  have "h' x = hnodes H x" if "x \<notin> set_tree T" "x \<noteq> NULL" for x
    using that a b N(15-19) by (intro node_eqI) (auto simp: reads)
  moreover have "\<forall>x\<in>set_tree T. h' x = rename_node (exchange a b) (hnodes H (exchange a b x))"
    using in_a in_b in_x by (simp add: exchange_def)
  ultimately show ?thesis using sw by blast
qed


lemma exchange_inj_UNIV: "inj (exchange a b)"
  by (simp add: inj_def)

lemma swap_nodes_tree:
  assumes T: "heap_tree H T" and a: "a \<in> set_tree T" and b: "b \<in> set_tree T"
    and ab: "parent (hnodes H b) = a"
  shows "\<exists>H' T'. swap_nodes H a b = Some H' \<and> heap_tree H' T' \<and> set_tree T' = set_tree T \<and>
    height T' = height T \<and> (\<forall>x. depth T' x = depth T (exchange a b x)) \<and> hcells H' = hcells H \<and>
    (\<forall>x\<in>set_tree T. hnodes H' x = rename_node (exchange a b) (hnodes H (exchange a b x))) \<and>
    (\<forall>x. x \<notin> set_tree T \<longrightarrow> x \<noteq> NULL \<longrightarrow> hnodes H' x = hnodes H x)"
proof -
  obtain h' where sw: "swap_nodes H a b = Some (H\<lparr>hroot := exchange a b (hroot H), hnodes := h'\<rparr>)"
    and links: "\<forall>x\<in>set_tree T. h' x = rename_node (exchange a b) (hnodes H (exchange a b x))"
    and out: "\<forall>x. x \<notin> set_tree T \<longrightarrow> x \<noteq> NULL \<longrightarrow> h' x = hnodes H x"
    using swap_nodes_links [OF assms] by blast
  define H' where "H' = H\<lparr>hroot := exchange a b (hroot H), hnodes := h'\<rparr>"
  have "exchange a b NULL = NULL" using heap_treeD(1) [OF T] a b by (auto simp: exchange_def)
  then have tree: "heap_tree H' (map_tree (exchange a b) T)"
    using links exchange_in [OF a b]
    by (intro heap_tree_rename [OF T]) (auto simp: H'_def exchange_inj_UNIV)
  have "depth (map_tree (exchange a b) T) x = depth T (exchange a b x)" for x
    using depth_rename [OF exchange_inj_UNIV, of a b T "exchange a b x"] by simp
  then show ?thesis
    using sw links out tree exchange_set [OF a b]
    by (intro exI [of _ H'] exI [of _ "map_tree (exchange a b) T"]) (simp add: H'_def tree.set_map)
qed

subsection \<open>Sifting restores the order\<close>

text \<open>
  The client passes a three-way comparison; all the heap needs of it is that it orders the nodes
  by some key. \<open>heap_at\<close> is the order at one node, \<open>up_inv\<close> and \<open>down_inv\<close> say that only the node
  \<open>e\<close> may be out of place, towards the root or towards the leaves.
\<close>

definition heap_at :: "(addr \<Rightarrow> 'k::linorder) \<Rightarrow> heap_store \<Rightarrow> addr \<Rightarrow> bool" where
  "heap_at key H x \<longleftrightarrow> parent (hnodes H x) \<noteq> NULL \<longrightarrow> key (parent (hnodes H x)) \<le> key x"

definition up_inv :: "(addr \<Rightarrow> 'k::linorder) \<Rightarrow> heap_store \<Rightarrow> addr set \<Rightarrow> addr \<Rightarrow> bool" where
  "up_inv key H S e \<longleftrightarrow> (\<forall>x\<in>S. x \<noteq> e \<longrightarrow> heap_at key H x) \<and>
     (\<forall>x\<in>S. parent (hnodes H x) = e \<longrightarrow> parent (hnodes H e) \<noteq> NULL \<longrightarrow> key (parent (hnodes H e)) \<le> key x)"

definition down_inv :: "(addr \<Rightarrow> 'k::linorder) \<Rightarrow> heap_store \<Rightarrow> addr set \<Rightarrow> addr \<Rightarrow> bool" where
  "down_inv key H S e \<longleftrightarrow> (\<forall>x\<in>S. parent (hnodes H x) \<noteq> e \<longrightarrow> heap_at key H x) \<and>
     (\<forall>x\<in>S. parent (hnodes H x) = e \<longrightarrow> parent (hnodes H e) \<noteq> NULL \<longrightarrow> key (parent (hnodes H e)) \<le> key x)"

lemma parent_swapped:
  "hnodes H' x = rename_node (exchange a b) (hnodes H (exchange a b x)) \<Longrightarrow>
    parent (hnodes H' x) = exchange a b (parent (hnodes H (exchange a b x)))"
  by (simp add: rename_node_def)

lemma up_inv_swap:
  assumes T: "heap_tree H T" and e: "e \<in> set_tree T" and c: "c = parent (hnodes H e)" "c \<noteq> NULL"
    and inv: "up_inv key H (set_tree T) e" and less: "key e < key c"
    and links: "\<forall>x\<in>set_tree T. hnodes H' x = rename_node (exchange c e) (hnodes H (exchange c e x))"
  shows "up_inv key H' (set_tree T) e"
    and "parent (hnodes H' c) = e" "parent (hnodes H' e) = parent (hnodes H c)"
proof -
  note D = heap_treeD [OF T]
  have cT: "c \<in> set_tree T" using D(4) [OF e] c by auto
  have dc: "depth T e = Suc (depth T c)" using heap_tree_depth [OF T e] c by simp
  have pc: "parent (hnodes H c) \<noteq> c" "parent (hnodes H c) \<noteq> e"
    using heap_tree_depth [OF T cT] dc c(2) e D(1) by force+
  show pe: "parent (hnodes H' c) = e" "parent (hnodes H' e) = parent (hnodes H c)"
    using parent_swapped [OF bspec [OF links cT]] parent_swapped [OF bspec [OF links e]] pc
    by (simp_all add: exchange_other flip: c(1))
  have other: "parent (hnodes H' x) = exchange c e (parent (hnodes H x))" if "x \<in> set_tree T" "x \<noteq> c" "x \<noteq> e" for x
    using parent_swapped [OF bspec [OF links that(1)]] that by (simp add: exchange_other)
  note I = inv [unfolded up_inv_def heap_at_def, folded c(1)]
  have kc: "key (parent (hnodes H c)) \<le> key c" if "parent (hnodes H c) \<noteq> NULL"
    using I cT that less by auto
  have "heap_at key H' x" if x: "x \<in> set_tree T" "x \<noteq> e" for x
  proof (cases "x = c")
    case False
    then show ?thesis using I other [of x] x less c(2) by (fastforce simp: heap_at_def exchange_def)
  qed (use pe less in \<open>simp add: heap_at_def less_imp_le\<close>)
  moreover have "key (parent (hnodes H c)) \<le> key x"
    if x: "x \<in> set_tree T" "parent (hnodes H' x) = e" "parent (hnodes H c) \<noteq> NULL" for x
  proof (cases "x = c \<or> x = e")
    case False
    then have "parent (hnodes H x) = c" using other [of x] x pe by (auto simp: exchange_def split: if_splits)
    then show ?thesis using I kc x(1,3) False c(2) by force
  qed (use kc x pc pe in auto)
  ultimately show "up_inv key H' (set_tree T) e"
    using pe by (simp add: up_inv_def)
qed


lemma down_inv_swap:
  assumes T: "heap_tree H T" and e: "e \<in> set_tree T" and c: "c \<in> set_tree T" "parent (hnodes H c) = e"
    and inv: "down_inv key H (set_tree T) e" and less: "key c < key e"
    and least: "\<And>x. x \<in> set_tree T \<Longrightarrow> parent (hnodes H x) = e \<Longrightarrow> key c \<le> key x"
    and links: "\<forall>x\<in>set_tree T. hnodes H' x = rename_node (exchange e c) (hnodes H (exchange e c x))"
  shows "down_inv key H' (set_tree T) e" and "parent (hnodes H' e) = c"
proof -
  note D = heap_treeD [OF T]
  have e0: "e \<noteq> NULL" "c \<noteq> NULL" using D(1) e c by auto
  have dc: "depth T c = Suc (depth T e)" using heap_tree_depth [OF T c(1)] c(2) e0 by simp
  have pe: "parent (hnodes H e) \<noteq> e" "parent (hnodes H e) \<noteq> c"
    using heap_tree_depth [OF T e] dc e0 by force+
  show ec: "parent (hnodes H' e) = c"
    using parent_swapped [OF bspec [OF links e]] c by simp
  have cc: "parent (hnodes H' c) = parent (hnodes H e)"
    using parent_swapped [OF bspec [OF links c(1)]] pe by (simp add: exchange_other)
  have other: "parent (hnodes H' x) = exchange e c (parent (hnodes H x))" if "x \<in> set_tree T" "x \<noteq> c" "x \<noteq> e" for x
    using parent_swapped [OF bspec [OF links that(1)]] that by (simp add: exchange_other)
  note I = inv [unfolded down_inv_def heap_at_def]
  have "heap_at key H' x" if x: "x \<in> set_tree T" "parent (hnodes H' x) \<noteq> e" for x
  proof -
    consider "x = e" | "x = c" | "x \<noteq> e" "x \<noteq> c" by blast
    then show ?thesis
    proof cases
      case 2
      then show ?thesis using I c cc by (simp add: heap_at_def)
    next
      case 3
      then show ?thesis
        using I other [of x] least [of x] x by (auto simp: heap_at_def exchange_def)
    qed (use ec less in \<open>simp add: heap_at_def less_imp_le\<close>)
  qed
  moreover have "key c \<le> key x" if x: "x \<in> set_tree T" "parent (hnodes H' x) = e" for x
  proof (cases "x = c \<or> x = e")
    case False
    then have "parent (hnodes H x) = c" using other [of x] x by (auto simp: exchange_def split: if_splits)
    then show ?thesis using I x(1) e0 pe c(2) dc by fastforce
  qed (use less in auto)
  ultimately show "down_inv key H' (set_tree T) e"
    using ec by (simp add: down_inv_def)
qed

text \<open>The contract between the heap and its client.\<close>

locale heap_order =
  fixes cmp :: "addr \<Rightarrow> addr \<Rightarrow> int"
    and key :: "addr \<Rightarrow> 'k::linorder"
  assumes cmp_key: "cmp x y < 0 \<longleftrightarrow> key x < key y"
begin

lemma smaller_children_spec:
  assumes T: "heap_tree H T" and e: "e \<in> set_tree T"
  shows "\<exists>l r b. smaller_children cmp (hnodes H) e = Some (l, r) \<and>
    b = (if r then right (hnodes H e) else left (hnodes H e)) \<and>
    (\<not> (r \<or> l) \<longrightarrow> (\<forall>x\<in>set_tree T. parent (hnodes H x) = e \<longrightarrow> key e \<le> key x)) \<and>
    (r \<or> l \<longrightarrow> b \<in> set_tree T \<and> parent (hnodes H b) = e \<and> key b < key e \<and>
       (\<forall>x\<in>set_tree T. parent (hnodes H x) = e \<longrightarrow> key b \<le> key x))"
proof -
  note D = heap_treeD [OF T]
  have "e \<noteq> NULL" using D(1) e by auto
  then have "x \<in> set_tree T \<and> parent (hnodes H x) = e \<longleftrightarrow>
      x \<noteq> NULL \<and> (x = left (hnodes H e) \<or> x = right (hnodes H e))" for x
    using D(1) D(4) [of x] D(2,3) [OF e] by metis
  then have kids: "(\<forall>x\<in>set_tree T. parent (hnodes H x) = e \<longrightarrow> P x) \<longleftrightarrow>
      (left (hnodes H e) \<noteq> NULL \<longrightarrow> P (left (hnodes H e))) \<and>
      (right (hnodes H e) \<noteq> NULL \<longrightarrow> P (right (hnodes H e)))" for P
    by metis
  show ?thesis
    unfolding kids using D(2,3) [OF e]
    by (cases "right (hnodes H e) = NULL"; cases "left (hnodes H e) = NULL")
       (auto simp: smaller_children_def cmp_key Let_def not_less)
qed

lemma smaller_children_none:
  assumes T: "heap_tree H T" and e: "e \<in> set_tree T"
    and least: "\<And>x. x \<in> set_tree T \<Longrightarrow> parent (hnodes H x) = e \<Longrightarrow> key e \<le> key x"
  shows "smaller_children cmp (hnodes H) e = Some (False, False)"
proof -
  obtain l r b where lr: "smaller_children cmp (hnodes H) e = Some (l, r)"
    and "r \<or> l \<longrightarrow> b \<in> set_tree T \<and> parent (hnodes H b) = e \<and> key b < key e"
    using smaller_children_spec [OF T e] by blast
  then have "\<not> (r \<or> l)" using least [of b] by force
  then show ?thesis using lr by simp
qed

lemma smaller_children_some:
  assumes T: "heap_tree H T" and e: "e \<in> set_tree T"
    and c: "c \<in> set_tree T" "parent (hnodes H c) = e" "key c < key e"
  shows "\<exists>l r b. smaller_children cmp (hnodes H) e = Some (l, r) \<and> (r \<or> l) \<and>
    b = (if r then right (hnodes H e) else left (hnodes H e)) \<and>
    b \<in> set_tree T \<and> parent (hnodes H b) = e \<and> key b < key e \<and>
    (\<forall>x\<in>set_tree T. parent (hnodes H x) = e \<longrightarrow> key b \<le> key x)"
proof -
  obtain l r b where lr: "smaller_children cmp (hnodes H) e = Some (l, r)"
    and b: "b = (if r then right (hnodes H e) else left (hnodes H e))"
    and no: "\<not> (r \<or> l) \<longrightarrow> (\<forall>x\<in>set_tree T. parent (hnodes H x) = e \<longrightarrow> key e \<le> key x)"
    and yes: "r \<or> l \<longrightarrow> b \<in> set_tree T \<and> parent (hnodes H b) = e \<and> key b < key e \<and>
       (\<forall>x\<in>set_tree T. parent (hnodes H x) = e \<longrightarrow> key b \<le> key x)"
    using smaller_children_spec [OF T e] by blast
  have "r \<or> l" using no c by force
  then show ?thesis using lr b yes by blast
qed

lemma attach_step:
  assumes T: "heap_tree H T" and e: "e \<in> set_tree T" and inv: "up_inv key H (set_tree T) e"
    and c: "c = parent (hnodes H e)" "c \<noteq> NULL" and less: "key e < key c"
  shows "\<exists>H' T'. attach_loop cmp H c = attach_loop cmp H' (parent (hnodes H' e)) \<and>
    heap_tree H' T' \<and> set_tree T' = set_tree T \<and> up_inv key H' (set_tree T) e \<and>
    depth T' e < depth T e \<and> hcells H' = hcells H \<and>
    (\<forall>x. x \<notin> set_tree T \<longrightarrow> x \<noteq> NULL \<longrightarrow> hnodes H' x = hnodes H x)"
proof -
  note D = heap_treeD [OF T]
  have cT: "c \<in> set_tree T" using D(4) [OF e] c by auto
  obtain l r b where lr: "smaller_children cmp (hnodes H) c = Some (l, r)" "r \<or> l"
    and b: "b = (if r then right (hnodes H c) else left (hnodes H c))"
      "b \<in> set_tree T" "parent (hnodes H b) = c" "key b < key c"
    using smaller_children_some [OF T cT e c(1) [symmetric] less] by blast
  have be: "b = e" using inv b c(2) unfolding up_inv_def heap_at_def by force
  obtain H1 T1 where sw: "swap_nodes H c e = Some H1" and T1: "heap_tree H1 T1" "set_tree T1 = set_tree T"
      "\<forall>x. depth T1 x = depth T (exchange c e x)" "hcells H1 = hcells H"
    and links: "\<forall>x\<in>set_tree T. hnodes H1 x = rename_node (exchange c e) (hnodes H (exchange c e x))"
    and out: "\<forall>x. x \<notin> set_tree T \<longrightarrow> x \<noteq> NULL \<longrightarrow> hnodes H1 x = hnodes H x"
    using swap_nodes_tree [OF T cT e c(1) [symmetric]] by blast
  note U = up_inv_swap [OF T e c inv less links]
  have "attach_loop cmp H c = attach_loop cmp H1 (parent (hnodes H1 e))"
    using c(2) lr sw U(2) be b(1) D(1) e by (subst attach_loop.simps) auto
  moreover have "depth T1 e < depth T e" using T1(3) heap_tree_depth [OF T e] c by simp
  ultimately show ?thesis using T1 U(1) out by blast
qed

lemma attach_loop_spec:
  assumes "heap_tree H T" "e \<in> set_tree T" "up_inv key H (set_tree T) e"
  shows "\<exists>H' T'. attach_loop cmp H (parent (hnodes H e)) = Some H' \<and> heap_tree H' T' \<and>
    set_tree T' = set_tree T \<and> (\<forall>x\<in>set_tree T. heap_at key H' x) \<and> hcells H' = hcells H \<and>
    (\<forall>x. x \<notin> set_tree T \<longrightarrow> x \<noteq> NULL \<longrightarrow> hnodes H' x = hnodes H x)"
  using assms
proof (induction "depth T e" arbitrary: H T rule: less_induct)
  case less
  note T = less.prems(1) and e = less.prems(2) and inv = less.prems(3)
  define c where "c = parent (hnodes H e)"
  show ?case
  proof (cases "c \<noteq> NULL \<and> key e < key c")
    case True
    then obtain H1 T1 where step: "attach_loop cmp H c = attach_loop cmp H1 (parent (hnodes H1 e))"
        "heap_tree H1 T1" "set_tree T1 = set_tree T" "up_inv key H1 (set_tree T) e" "depth T1 e < depth T e"
        "hcells H1 = hcells H" "\<forall>x. x \<notin> set_tree T \<longrightarrow> x \<noteq> NULL \<longrightarrow> hnodes H1 x = hnodes H x"
      using attach_step [OF T e inv c_def] by blast
    then show ?thesis
      using less.hyps [OF step(5) step(2)] e by (simp add: c_def)
  next
    case False
    have ordered: "\<forall>x\<in>set_tree T. heap_at key H x"
      using inv False unfolding up_inv_def heap_at_def c_def by (metis not_less)
    have "attach_loop cmp H c = Some H"
    proof (cases "c = NULL")
      case False
      then have cT: "c \<in> set_tree T" using heap_treeD(4) [OF T e] by (auto simp: c_def)
      have "smaller_children cmp (hnodes H) c = Some (False, False)"
        using ordered False by (intro smaller_children_none [OF T cT]) (auto simp: heap_at_def)
      then show ?thesis by (subst attach_loop.simps) simp
    qed (subst attach_loop.simps, simp)
    then show ?thesis using T ordered by (auto simp: c_def)
  qed
qed

lemma adjust_step:
  assumes T: "heap_tree H T" and e: "e \<in> set_tree T"
    and c: "c \<in> set_tree T" "parent (hnodes H c) = e" "key c < key e"
  shows "\<exists>H' T'. adjust_heap_node cmp H e = adjust_heap_node cmp H' e \<and>
    heap_tree H' T' \<and> set_tree T' = set_tree T \<and> height T' = height T \<and> depth T e < depth T' e \<and>
    (down_inv key H (set_tree T) e \<longrightarrow> down_inv key H' (set_tree T) e) \<and> hcells H' = hcells H \<and>
    (\<forall>x. x \<notin> set_tree T \<longrightarrow> x \<noteq> NULL \<longrightarrow> hnodes H' x = hnodes H x)"
proof -
  note D = heap_treeD [OF T]
  obtain l r b where lr: "smaller_children cmp (hnodes H) e = Some (l, r)" "r \<or> l"
    and b: "b = (if r then right (hnodes H e) else left (hnodes H e))"
      "b \<in> set_tree T" "parent (hnodes H b) = e" "key b < key e"
    and least: "\<forall>x\<in>set_tree T. parent (hnodes H x) = e \<longrightarrow> key b \<le> key x"
    using smaller_children_some [OF T e c] by blast
  obtain H1 T1 where sw: "swap_nodes H e b = Some H1" and T1: "heap_tree H1 T1" "set_tree T1 = set_tree T"
      "height T1 = height T" "\<forall>x. depth T1 x = depth T (exchange e b x)" "hcells H1 = hcells H"
    and links: "\<forall>x\<in>set_tree T. hnodes H1 x = rename_node (exchange e b) (hnodes H (exchange e b x))"
    and out: "\<forall>x. x \<notin> set_tree T \<longrightarrow> x \<noteq> NULL \<longrightarrow> hnodes H1 x = hnodes H x"
    using swap_nodes_tree [OF T e b(2,3)] by blast
  have inv: "down_inv key H (set_tree T) e \<longrightarrow> down_inv key H1 (set_tree T) e"
    using down_inv_swap(1) [OF T e b(2,3) _ b(4) _ links] least by blast
  have pe: "parent (hnodes H1 e) = b"
    using parent_swapped [OF bspec [OF links e]] b(3) by simp
  have "e \<noteq> NULL" "b \<noteq> NULL" using D(1) e b(2) by auto
  then have "adjust_heap_node cmp H e = adjust_heap_node cmp H1 e"
    using lr sw pe b(1) by (subst adjust_heap_node.simps) auto
  moreover have "depth T e < depth T1 e"
    using T1(4) heap_tree_depth [OF T b(2)] b(3) \<open>e \<noteq> NULL\<close> by simp
  ultimately show ?thesis using T1 inv out by blast
qed

lemma adjust_heap_node_spec:
  assumes "heap_tree H T" "e \<in> set_tree T"
  shows "\<exists>H' T'. adjust_heap_node cmp H e = Some H' \<and> heap_tree H' T' \<and>
    set_tree T' = set_tree T \<and> hcells H' = hcells H \<and>
    (down_inv key H (set_tree T) e \<longrightarrow> (\<forall>x\<in>set_tree T. heap_at key H' x)) \<and>
    (\<forall>x. x \<notin> set_tree T \<longrightarrow> x \<noteq> NULL \<longrightarrow> hnodes H' x = hnodes H x)"
  using assms
proof (induction "height T - depth T e" arbitrary: H T rule: less_induct)
  case less
  note T = less.prems(1) and e = less.prems(2)
  show ?case
  proof (cases "\<exists>c\<in>set_tree T. parent (hnodes H c) = e \<and> key c < key e")
    case True
    then obtain H1 T1 where step: "adjust_heap_node cmp H e = adjust_heap_node cmp H1 e"
        "heap_tree H1 T1" "set_tree T1 = set_tree T" "height T1 = height T" "depth T e < depth T1 e"
        "down_inv key H (set_tree T) e \<longrightarrow> down_inv key H1 (set_tree T) e" "hcells H1 = hcells H"
        "\<forall>x. x \<notin> set_tree T \<longrightarrow> x \<noteq> NULL \<longrightarrow> hnodes H1 x = hnodes H x"
      using adjust_step [OF T e] by blast
    have "height T1 - depth T1 e < height T - depth T e"
      using step(4,5) depth_height [OF e] by simp
    then obtain H2 T2 where "adjust_heap_node cmp H1 e = Some H2" "heap_tree H2 T2" "set_tree T2 = set_tree T"
        "hcells H2 = hcells H" "down_inv key H1 (set_tree T) e \<longrightarrow> (\<forall>x\<in>set_tree T. heap_at key H2 x)"
        "\<forall>x. x \<notin> set_tree T \<longrightarrow> x \<noteq> NULL \<longrightarrow> hnodes H2 x = hnodes H1 x"
      using less.hyps [OF _ step(2)] step(3,7) e by auto
    then show ?thesis using step(1,6,8) by (intro exI [of _ H2] exI [of _ T2]) simp
  next
    case False
    then have ordered: "\<forall>x\<in>set_tree T. heap_at key H x" if "down_inv key H (set_tree T) e"
      using that unfolding down_inv_def heap_at_def by (metis not_less)
    have "smaller_children cmp (hnodes H) e = Some (False, False)"
      using False by (intro smaller_children_none [OF T e]) (auto simp: not_less)
    then have "adjust_heap_node cmp H e = Some H" by (subst adjust_heap_node.simps) simp
    then show ?thesis using T ordered by auto
  qed
qed

end

subsection \<open>Breadth-first search\<close>

text \<open>
  The queue holds the roots of a forest. The walk is done once the forest is used up, so the
  number of nodes left in it bounds the number of rounds.
\<close>

definition kids :: "addr tree \<Rightarrow> addr tree list" where
  "kids t = (case t of Leaf \<Rightarrow> [] | Node l a r \<Rightarrow> filter (\<lambda>u. u \<noteq> Leaf) [l, r])"

definition forest :: "addr tree list \<Rightarrow> addr list" where
  "forest F = concat (map inorder F)"

definition queue_ok :: "addr \<Rightarrow> addr set \<Rightarrow> bool" where
  "queue_ok q S \<longleftrightarrow> q \<noteq> NULL \<and> (\<forall>x\<in>S. node_list x \<noteq> NULL \<and> node_list x \<noteq> q)"

lemma node_list_inj [simp]: "node_list x = node_list y \<longleftrightarrow> x = y"
  by (simp add: node_list_def)

lemma node_list_image [simp]: "node_list x \<in> node_list ` S \<longleftrightarrow> x \<in> S"
  by auto

lemma list_node_node_list [simp]: "list_node (node_list x) = x"
  by (simp add: list_node_def node_list_def)

lemma enqueue_node_spec:
  assumes "dlist c q (map node_list xs)" "x \<notin> set xs" "node_list x \<noteq> NULL" "node_list x \<noteq> q"
  shows "\<exists>c'. enqueue_node q x c = Some c' \<and> dlist c' q (map node_list (xs @ [x])) \<and>
    (\<forall>a. a \<noteq> q \<longrightarrow> a \<notin> node_list ` (insert x (set xs)) \<longrightarrow> c' a = c a)"
proof -
  let ?c = "list_init c (node_list x)"
  have "dlist ?c q (map node_list xs)"
    using assms by (subst dlist_cong [of _ _ _ c]) (auto simp: list_init_def lheap_upd)
  moreover have "detached ?c (node_list x)"
    using assms(3) by (simp add: detached_def list_init_def lheap_upd)
  ultimately obtain c' where "list_append ?c q (node_list x) = Some c'"
      "dlist c' q (map node_list xs @ [node_list x])"
      "\<forall>a. a \<notin> insert q (insert (node_list x) (set (map node_list xs))) \<longrightarrow> c' a = ?c a"
    using list_append_correct [of ?c q "map node_list xs" "node_list x"] assms(2,4) by auto
  then show ?thesis by (auto simp: enqueue_node_def list_init_def lheap_upd)
qed

lemma enqueue_children_spec:
  assumes c: "dlist c q (map node_list xs)" and d: "distinct (xs @ map root_of (kids (Node l a r)))"
    and q: "queue_ok q (set (map root_of (kids (Node l a r))))" and t: "trep h p (Node l a r)"
  shows "\<exists>c'. enqueue_children h q a c = Some c' \<and>
    dlist c' q (map node_list (xs @ map root_of (kids (Node l a r)))) \<and>
    (\<forall>b. b \<noteq> q \<longrightarrow> b \<notin> node_list ` (set xs \<union> set (map root_of (kids (Node l a r)))) \<longrightarrow> c' b = c b)"
proof -
  have links: "left (h a) = root_of l" "right (h a) = root_of r" using t by auto
  have nl: "root_of l = NULL \<longleftrightarrow> l = Leaf" "root_of r = NULL \<longleftrightarrow> r = Leaf"
    using t root_of_NULL by auto
  define ys where "ys = xs @ map root_of (filter (\<lambda>u. u \<noteq> Leaf) [l])"
  obtain c1 where c1: "(if left (h a) \<noteq> NULL then enqueue_node q (left (h a)) c else Some c) = Some c1"
    "dlist c1 q (map node_list ys)" "\<forall>b. b \<noteq> q \<longrightarrow> b \<notin> node_list ` set ys \<longrightarrow> c1 b = c b"
  proof (cases "l = Leaf")
    case False
    then show ?thesis
      using enqueue_node_spec [OF c, of "root_of l"] d q links nl that
      by (auto simp: kids_def queue_ok_def ys_def)
  qed (use c links nl that in \<open>simp add: ys_def\<close>)
  have "\<exists>c'. (if right (h a) \<noteq> NULL then enqueue_node q (right (h a)) c1 else Some c1) = Some c' \<and>
    dlist c' q (map node_list (ys @ map root_of (filter (\<lambda>u. u \<noteq> Leaf) [r]))) \<and>
    (\<forall>b. b \<noteq> q \<longrightarrow> b \<notin> node_list ` (set ys \<union> set (map root_of (filter (\<lambda>u. u \<noteq> Leaf) [r]))) \<longrightarrow> c' b = c1 b)"
  proof (cases "r = Leaf")
    case False
    then show ?thesis
      using enqueue_node_spec [OF c1(2), of "root_of r"] d q links nl
      by (auto simp: kids_def queue_ok_def ys_def split: if_splits)
  qed (use c1 links nl in simp)
  then show ?thesis
    using c1 by (auto simp: enqueue_children_def kids_def ys_def)
qed

lemma forest_simps [simp]:
  "forest [] = []" "forest (t # F) = inorder t @ forest F" "forest (F @ G) = forest F @ forest G"
  by (simp_all add: forest_def)

lemma forest_kids: "set (forest (kids (Node l a r))) = set_tree l \<union> set_tree r"
  "length (forest (kids (Node l a r))) = size l + size r"
  "distinct (inorder (Node l a r)) \<Longrightarrow> distinct (forest (kids (Node l a r)))"
  by (auto simp: kids_def)

text \<open>What the queue and the forest look like at the head of either loop.\<close>

definition bfs_inv :: "theap \<Rightarrow> addr \<Rightarrow> lheap \<Rightarrow> addr tree list \<Rightarrow> bool" where
  "bfs_inv h q c F \<longleftrightarrow> dlist c q (map node_list (map root_of F)) \<and> distinct (forest F) \<and>
     queue_ok q (set (forest F)) \<and> (\<forall>t\<in>set F. t \<noteq> Leaf \<and> (\<exists>p. trep h p t))"

lemma root_of_forest: "(\<forall>t\<in>set F. t \<noteq> Leaf) \<Longrightarrow> root_of ` set F \<subseteq> set (forest F)"
  by (induction F) (auto simp: root_of_in)

lemma distinct_roots: "(\<forall>t\<in>set F. t \<noteq> Leaf) \<Longrightarrow> distinct (forest F) \<Longrightarrow> distinct (map root_of F)"
proof (induction F)
  case (Cons t F)
  then show ?case using root_of_forest [of F] root_of_in [of t] by fastforce
qed simp

lemma bfs_step:
  assumes inv: "bfs_inv h q c (Node l a r # F)"
  shows "\<exists>c1 c2. list_fetch c q = Some (node_list a, c1) \<and> node_list a \<noteq> NULL \<and>
    enqueue_children h q a c1 = Some c2 \<and> bfs_inv h q c2 (F @ kids (Node l a r)) \<and>
    (\<forall>b. b \<noteq> q \<longrightarrow> b \<notin> node_list ` set (forest (Node l a r # F)) \<longrightarrow> c1 b = c b \<and> c2 b = c b)"
proof -
  note I = inv [unfolded bfs_inv_def]
  let ?K = "kids (Node l a r)"
  have t: "\<exists>p. trep h p (Node l a r)" and ne: "\<forall>u\<in>set (F @ ?K). u \<noteq> Leaf"
    using I by (auto simp: kids_def)
  have treps: "\<forall>u\<in>set (F @ ?K). \<exists>p. trep h p u" using I t by (auto simp: kids_def)
  have sub: "set (forest (F @ ?K)) \<subseteq> set (forest (Node l a r # F))"
    using forest_kids(1) [of l a r] by auto
  have d: "distinct (forest (F @ ?K))"
    using I forest_kids(1,3) [of l a r] by auto
  have q: "queue_ok q (set (forest (F @ ?K)))" using I sub by (auto simp: queue_ok_def)
  have roots: "root_of ` set (F @ ?K) \<subseteq> set (forest (F @ ?K))" using root_of_forest [OF ne] .
  obtain c1 where c1: "list_fetch c q = Some (node_list a, c1)" "dlist c1 q (map node_list (map root_of F))"
    "\<forall>b. b \<notin> insert q (insert (node_list a) (set (map node_list (map root_of F)))) \<longrightarrow> c1 b = c b"
    using list_fetch_correct [of c q "node_list a" "map node_list (map root_of F)"] I by auto
  have "queue_ok q (set (map root_of ?K))" using q roots by (auto simp: queue_ok_def)
  then obtain c2 where c2: "enqueue_children h q a c1 = Some c2"
    "dlist c2 q (map node_list (map root_of F @ map root_of ?K))"
    "\<forall>b. b \<noteq> q \<longrightarrow> b \<notin> node_list ` (set (map root_of F) \<union> set (map root_of ?K)) \<longrightarrow> c2 b = c1 b"
    using enqueue_children_spec [OF c1(2)] distinct_roots [OF ne d, unfolded map_append] t by blast
  have "bfs_inv h q c2 (F @ ?K)" using c2(2) d q ne treps by (auto simp: bfs_inv_def)
  moreover have "c1 b = c b \<and> c2 b = c b" if b: "b \<noteq> q" "b \<notin> node_list ` set (forest (Node l a r # F))" for b
  proof -
    have "b \<notin> node_list ` root_of ` set (F @ ?K)" "b \<noteq> node_list a" using b roots sub by auto
    then show ?thesis using c1(3) c2(3) b(1) by (auto simp: image_image image_Un)
  qed
  moreover have "node_list a \<noteq> NULL" using I by (auto simp: queue_ok_def)
  ultimately show ?thesis using c1(1) c2(1) by blast
qed

lemma bfs_empty: "bfs_inv h q c [] \<Longrightarrow> list_fetch c q = Some (NULL, c)"
  by (simp add: bfs_inv_def list_fetch_empty)

lemma kids_links:
  assumes "trep h p (Node l a r)"
  shows "kids (Node l a r) = [] \<longleftrightarrow> left (h a) = NULL \<and> right (h a) = NULL"
    and "right (h a) \<noteq> NULL \<Longrightarrow> left (h a) \<noteq> NULL \<Longrightarrow> kids (Node l a r) = [l, r]"
  using assms root_of_NULL [of h a l] root_of_NULL [of h a r] by (auto simp: kids_def)

text \<open>
  The last node visited has no children, and it is not the left one of two siblings: it is not
  even the root of a tree with another one behind it in the queue.
\<close>

definition last_of :: "theap \<Rightarrow> addr tree list \<Rightarrow> addr \<Rightarrow> bool" where
  "last_of h F e \<longleftrightarrow> e \<in> set (forest F) \<and> left (h e) = NULL \<and> right (h e) = NULL \<and>
     (\<forall>x\<in>set (forest F). left (h x) = e \<longrightarrow> right (h x) = NULL) \<and> e \<notin> root_of ` set (butlast F)"

lemma last_of_step:
  assumes inv: "bfs_inv h q c (Node l a r # F)" and last: "last_of h (F @ kids (Node l a r)) e"
  shows "last_of h (Node l a r # F) e"
proof -
  let ?K = "kids (Node l a r)"
  note I = inv [unfolded bfs_inv_def] and L = last [unfolded last_of_def]
  obtain p where t: "trep h p (Node l a r)" using I by auto
  have all: "set (forest (Node l a r # F)) = insert a (set (forest (F @ ?K)))"
    using forest_kids(1) [of l a r] by auto
  have a: "a \<notin> set (forest (F @ ?K))" using I forest_kids(1) [of l a r] by auto
  have e0: "e \<noteq> NULL"
  proof -
    have "\<forall>u\<in>set (Node l a r # F). NULL \<notin> set_tree u" using I trep_NULL by metis
    then show ?thesis using L unfolding forest_def by (auto simp: kids_def split: if_splits)
  qed
  have "right (h a) = NULL" if "left (h a) = e"
  proof (rule ccontr)
    assume "right (h a) \<noteq> NULL"
    then have "?K = [l, r]" "root_of l = e" using kids_links(2) [OF t] that e0 t by auto
    then show False using L by (simp add: butlast_append)
  qed
  moreover have "e \<notin> root_of ` set (butlast (Node l a r # F))"
    using L a by (cases "F = []") (auto simp: butlast_append split: if_splits dest: in_set_butlastD)
  ultimately show ?thesis using L all by (auto simp: last_of_def)
qed

lemma last_of_single:
  assumes "bfs_inv h q c [Node l a r]" "kids (Node l a r) = []"
  shows "last_of h [Node l a r] a"
  using assms by (auto simp: last_of_def bfs_inv_def kids_def split: if_splits)

lemma last_node_loop_spec:
  assumes "bfs_inv h q c F"
  shows "\<exists>e c'. last_node_loop h q c tgt = Some (e, c') \<and> (F = [] \<longrightarrow> e = tgt) \<and>
    (F \<noteq> [] \<longrightarrow> last_of h F e) \<and> (\<forall>b. b \<noteq> q \<longrightarrow> b \<notin> node_list ` set (forest F) \<longrightarrow> c' b = c b)"
  using assms
proof (induction "length (forest F)" arbitrary: F c tgt rule: less_induct)
  case less
  show ?case
  proof (cases F)
    case Nil
    then show ?thesis using bfs_empty less.prems by (subst last_node_loop.simps) simp
  next
    case (Cons t G)
    then obtain l a r where F: "F = Node l a r # G" using less.prems by (cases t) (auto simp: bfs_inv_def)
    obtain c1 c2 where step: "list_fetch c q = Some (node_list a, c1)" "node_list a \<noteq> NULL"
      "enqueue_children h q a c1 = Some c2" "bfs_inv h q c2 (G @ kids (Node l a r))"
      "\<forall>b. b \<noteq> q \<longrightarrow> b \<notin> node_list ` set (forest F) \<longrightarrow> c1 b = c b \<and> c2 b = c b"
      using bfs_step less.prems F by blast
    have "length (forest (G @ kids (Node l a r))) < length (forest F)"
      by (simp add: F forest_kids(2))
    from less.hyps [OF this step(4), of a] obtain e c' where
      e: "last_node_loop h q c2 a = Some (e, c')" "G @ kids (Node l a r) = [] \<longrightarrow> e = a"
        "G @ kids (Node l a r) \<noteq> [] \<longrightarrow> last_of h (G @ kids (Node l a r)) e"
        "\<forall>b. b \<noteq> q \<longrightarrow> b \<notin> node_list ` set (forest (G @ kids (Node l a r))) \<longrightarrow> c' b = c2 b"
      by blast
    have "last_of h F e"
      using last_of_step [of h q c l a r G e] last_of_single [of h q c l a r] less.prems e(2,3) F
      by (cases "G @ kids (Node l a r) = []") auto
    moreover have "last_node_loop h q c tgt = Some (e, c')"
      using step e(1) by (subst last_node_loop.simps) simp
    moreover have "c' b = c b" if "b \<noteq> q" "b \<notin> node_list ` set (forest F)" for b
      using that step(5) e(4) forest_kids(1) [of l a r] by (auto simp: F)
    ultimately show ?thesis using F by blast
  qed
qed


lemma last_parent_loop_spec:
  assumes "bfs_inv h q c F" "F \<noteq> []" "\<forall>x\<in>set (forest F). right (h x) \<noteq> NULL \<longrightarrow> left (h x) \<noteq> NULL"
  shows "\<exists>e c'. last_parent_loop h q c = Some (e, c') \<and> e \<in> set (forest F) \<and> right (h e) = NULL \<and>
    (\<forall>b. b \<noteq> q \<longrightarrow> b \<notin> node_list ` set (forest F) \<longrightarrow> c' b = c b)"
  using assms
proof (induction "length (forest F)" arbitrary: F c rule: less_induct)
  case less
  obtain l a r G where F: "F = Node l a r # G"
    using less.prems by (cases F; cases "hd F") (auto simp: bfs_inv_def)
  obtain c1 c2 where step: "list_fetch c q = Some (node_list a, c1)" "node_list a \<noteq> NULL"
    "enqueue_children h q a c1 = Some c2" "bfs_inv h q c2 (G @ kids (Node l a r))"
    "\<forall>b. b \<noteq> q \<longrightarrow> b \<notin> node_list ` set (forest F) \<longrightarrow> c1 b = c b \<and> c2 b = c b"
    using bfs_step less.prems(1) F by blast
  show ?case
  proof (cases "left (h a) = NULL \<or> right (h a) = NULL")
    case True
    moreover from this have "right (h a) = NULL" using less.prems(3) F by auto
    ultimately have "last_parent_loop h q c = Some (a, c1)"
      using step by (subst last_parent_loop.simps) auto
    then show ?thesis using step(5) F \<open>right (h a) = NULL\<close> by auto
  next
    case False
    let ?G = "G @ kids (Node l a r)"
    obtain p where "trep h p (Node l a r)" using less.prems(1) F by (auto simp: bfs_inv_def)
    then have ne: "?G \<noteq> []" using kids_links False by auto
    have sub: "set (forest ?G) \<subseteq> set (forest F)" using forest_kids(1) [of l a r] by (auto simp: F)
    have shorter: "length (forest ?G) < length (forest F)" by (simp add: F forest_kids(2))
    have lf: "\<forall>x\<in>set (forest ?G). right (h x) \<noteq> NULL \<longrightarrow> left (h x) \<noteq> NULL"
      using less.prems(3) sub by blast
    from less.hyps [OF shorter step(4) ne lf] obtain e c' where
      e: "last_parent_loop h q c2 = Some (e, c')" "e \<in> set (forest ?G)" "right (h e) = NULL"
        "\<forall>b. b \<noteq> q \<longrightarrow> b \<notin> node_list ` set (forest ?G) \<longrightarrow> c' b = c2 b"
      by blast
    have "last_parent_loop h q c = Some (e, c')"
      using step e(1) False by (subst last_parent_loop.simps) simp
    moreover have "c' b = c b" if "b \<noteq> q" "b \<notin> node_list ` set (forest F)" for b
      using that(1) step(5) [rule_format, OF that] e(4) [rule_format, of b] subsetD [OF image_mono [OF sub]] that(2)
      by metis
    ultimately show ?thesis using e(2,3) sub by blast
  qed
qed

text \<open>The first round: the queue holds the root.\<close>

lemma bfs_start:
  assumes T: "heap_tree H T" "T \<noteq> Leaf" and q: "queue_ok q (set_tree T)"
  shows "\<exists>c. enqueue_node q (hroot H) (list_init (hcells H) q) = Some c \<and> bfs_inv (hnodes H) q c [T] \<and>
    hroot H \<noteq> NULL \<and> (\<forall>b. b \<noteq> q \<longrightarrow> b \<notin> node_list ` set_tree T \<longrightarrow> c b = hcells H b)"
proof -
  have r: "hroot H \<in> set_tree T" "hroot H = root_of T"
    using T root_of_in by (auto simp: heap_tree_def)
  have "dlist (list_init (hcells H) q) q (map node_list [])"
    using q by (simp add: list_init_dlist queue_ok_def)
  then obtain c where "enqueue_node q (hroot H) (list_init (hcells H) q) = Some c"
      "dlist c q (map node_list [hroot H])"
      "\<forall>b. b \<noteq> q \<longrightarrow> b \<noteq> node_list (hroot H) \<longrightarrow> c b = list_init (hcells H) q b"
    using enqueue_node_spec [of "list_init (hcells H) q" q "[]" "hroot H"] q r
    by (auto simp: queue_ok_def)
  then show ?thesis
    using T q r heap_treeD(1) [OF T(1)]
    by (auto simp: bfs_inv_def heap_tree_def list_init_def lheap_upd)
qed

lemma search_last_node_spec:
  assumes T: "heap_tree H T" "T \<noteq> Leaf" and q: "queue_ok q (set_tree T)"
  shows "\<exists>e c. search_last_node q H (hroot H) = Some (e, H\<lparr>hcells := c\<rparr>) \<and> e \<in> set_tree T \<and>
    left (hnodes H e) = NULL \<and> right (hnodes H e) = NULL \<and>
    (\<forall>x\<in>set_tree T. left (hnodes H x) = e \<longrightarrow> right (hnodes H x) = NULL) \<and>
    (\<forall>b. b \<noteq> q \<longrightarrow> b \<notin> node_list ` set_tree T \<longrightarrow> c b = hcells H b)"
proof -
  obtain c where c: "enqueue_node q (hroot H) (list_init (hcells H) q) = Some c"
    "bfs_inv (hnodes H) q c [T]" "hroot H \<noteq> NULL"
    "\<forall>b. b \<noteq> q \<longrightarrow> b \<notin> node_list ` set_tree T \<longrightarrow> c b = hcells H b"
    using bfs_start [OF assms] by blast
  obtain e c' where "last_node_loop (hnodes H) q c NULL = Some (e, c')" "last_of (hnodes H) [T] e"
    "\<forall>b. b \<noteq> q \<longrightarrow> b \<notin> node_list ` set_tree T \<longrightarrow> c' b = c b"
    using last_node_loop_spec [OF c(2), of NULL] by auto
  then show ?thesis
    using c heap_treeD(1) [OF T(1)] by (auto simp: search_last_node_def last_of_def)
qed

lemma search_last_parent_spec:
  assumes T: "heap_tree H T" "T \<noteq> Leaf" and q: "queue_ok q (set_tree T)"
  shows "\<exists>e c. search_last_parent q H (hroot H) = Some (e, H\<lparr>hcells := c\<rparr>) \<and> e \<in> set_tree T \<and>
    right (hnodes H e) = NULL \<and> (\<forall>b. b \<noteq> q \<longrightarrow> b \<notin> node_list ` set_tree T \<longrightarrow> c b = hcells H b)"
proof -
  obtain c where c: "enqueue_node q (hroot H) (list_init (hcells H) q) = Some c"
    "bfs_inv (hnodes H) q c [T]" "hroot H \<noteq> NULL"
    "\<forall>b. b \<noteq> q \<longrightarrow> b \<notin> node_list ` set_tree T \<longrightarrow> c b = hcells H b"
    using bfs_start [OF assms] by blast
  obtain e c' where "last_parent_loop (hnodes H) q c = Some (e, c')" "e \<in> set_tree T" "right (hnodes H e) = NULL"
    "\<forall>b. b \<noteq> q \<longrightarrow> b \<notin> node_list ` set_tree T \<longrightarrow> c' b = c b"
    using last_parent_loop_spec [OF c(2)] heap_treeD(3) [OF T(1)] by auto
  then show ?thesis
    using c by (auto simp: search_last_parent_def)
qed


subsection \<open>Adding and removing a leaf\<close>

fun graft :: "addr \<Rightarrow> addr \<Rightarrow> addr tree \<Rightarrow> addr tree" where
  "graft x e Leaf = Leaf"
| "graft x e (Node l a r) =
     (if a = e then if l = Leaf then Node (Node Leaf x Leaf) a r else Node l a (Node Leaf x Leaf)
      else Node (graft x e l) a (graft x e r))"

fun prune :: "addr \<Rightarrow> addr tree \<Rightarrow> addr tree" where
  "prune e Leaf = Leaf"
| "prune e (Node l a r) = (if a = e then Leaf else Node (prune e l) a (prune e r))"

lemma graft_id: "e \<notin> set_tree T \<Longrightarrow> graft x e T = T"
  by (induction T) auto

lemma graft_root: "root_of (graft x e T) = root_of T"
  by (cases T) auto

lemma graft_Leaf: "graft x e T = Leaf \<longleftrightarrow> T = Leaf"
  by (cases T) auto

lemma trep_graft:
  assumes "trep h p T" "distinct (inorder T)" "left_first T" "e \<in> set_tree T" "right (h e) = NULL"
    and "x \<notin> set_tree T" "x \<noteq> NULL"
    and "\<And>y. y \<in> set_tree T \<Longrightarrow> y \<noteq> e \<Longrightarrow> h' y = h y" and "h' x = \<lparr>parent = e, left = NULL, right = NULL\<rparr>"
    and "h' e = (if left (h e) = NULL then (h e)\<lparr>left := x\<rparr> else (h e)\<lparr>right := x\<rparr>)"
  shows "trep h' p (graft x e T) \<and> set_tree (graft x e T) = insert x (set_tree T) \<and>
    distinct (inorder (graft x e T)) \<and> left_first (graft x e T)"
  using assms
proof (induction T arbitrary: p)
  case (Node l a r)
  have keep: "trep h' b t = trep h b t" if "e \<notin> set_tree t" "set_tree t \<subseteq> set_tree (Node l a r)" for b t
    using Node.prems(8) that by (intro trep_cong) auto
  consider "e = a" | "e \<noteq> a" "e \<in> set_tree l" "e \<notin> set_tree r" | "e \<noteq> a" "e \<in> set_tree r" "e \<notin> set_tree l"
    using Node.prems(2,4) by auto
  then show ?case
  proof cases
    case 1
    then have "r = Leaf" "root_of l = NULL \<longleftrightarrow> l = Leaf" using Node.prems root_of_NULL by auto
    then show ?thesis using Node.prems 1 keep [of l a] by auto
  next
    case 2
    then show ?thesis
      using Node.IH(1) [of a] Node.prems keep [of r a] by (auto simp: graft_id graft_root graft_Leaf)
  next
    case 3
    then show ?thesis
      using Node.IH(2) [of a] Node.prems keep [of l a] by (auto simp: graft_id graft_root graft_Leaf)
  qed
qed simp

lemma prune_id: "e \<notin> set_tree T \<Longrightarrow> prune e T = T"
  by (induction T) auto

lemma set_prune: "set_tree (prune e T) \<subseteq> set_tree T" "e \<notin> set_tree (prune e T)"
  by (induction T) auto

lemma distinct_prune: "distinct (inorder T) \<Longrightarrow> distinct (inorder (prune e T))"
  using set_prune(1) by (induction T) fastforce+

lemma trep_prune:
  assumes "trep h p T" "distinct (inorder T)" "left_first T" "e \<noteq> NULL"
    and "e \<in> set_tree T \<Longrightarrow> left (h e) = NULL \<and> right (h e) = NULL"
    and "\<And>y. y \<in> set_tree T \<Longrightarrow> left (h y) = e \<Longrightarrow> right (h y) = NULL"
    and "\<And>y. y \<in> set_tree T \<Longrightarrow> y \<noteq> e \<Longrightarrow> h' y = (h y)\<lparr>left := (if left (h y) = e then NULL else left (h y)),
       right := (if right (h y) = e then NULL else right (h y))\<rparr>"
  shows "trep h' p (prune e T) \<and> set_tree (prune e T) = set_tree T - {e} \<and> left_first (prune e T)"
  using assms
proof (induction T arbitrary: p)
  case (Node l a r)
  have rt: "root_of (prune e t) = (if root_of t = e then NULL else root_of t)" for t
    using Node.prems(4) by (cases t) auto
  have lf: "prune e t = Leaf \<longleftrightarrow> t = Leaf \<or> root_of t = e" for t by (cases t) auto
  have nl: "root_of l = NULL \<longleftrightarrow> l = Leaf" "root_of r = NULL \<longleftrightarrow> r = Leaf"
    using Node.prems(1) root_of_NULL by auto
  have ih: "trep h' a (prune e l) \<and> set_tree (prune e l) = set_tree l - {e} \<and> left_first (prune e l)"
    by (rule Node.IH(1)) (use Node.prems in \<open>simp_all\<close>)
  have ih2: "trep h' a (prune e r) \<and> set_tree (prune e r) = set_tree r - {e} \<and> left_first (prune e r)"
    by (rule Node.IH(2)) (use Node.prems in \<open>simp_all\<close>)
  show ?case
  proof (cases "a = e")
    case True
    then show ?thesis using Node.prems nl by auto
  next
    case False
    have "h' a = \<lparr>parent = p, left = root_of (prune e l), right = root_of (prune e r)\<rparr>"
      using Node.prems(1) Node.prems(7) [of a] False by (simp add: rt)
    moreover have "prune e l = Leaf \<Longrightarrow> prune e r = Leaf"
      using Node.prems(1,3) Node.prems(6) [of a] nl by (auto simp: lf)
    ultimately show ?thesis using ih ih2 False Node.prems(1) by auto
  qed
qed simp


subsection \<open>The operations\<close>

text \<open>A heap with the set of nodes \<open>S\<close>; in \<open>pq_rep\<close> every node is at least as large as its parent.\<close>

definition heap_shape :: "heap_store \<Rightarrow> addr set \<Rightarrow> bool" where
  "heap_shape H S \<longleftrightarrow> (\<exists>T. heap_tree H T \<and> set_tree T = S)"

definition pq_rep :: "(addr \<Rightarrow> 'k::linorder) \<Rightarrow> heap_store \<Rightarrow> addr set \<Rightarrow> bool" where
  "pq_rep key H S \<longleftrightarrow> heap_shape H S \<and> (\<forall>x\<in>S. heap_at key H x)"

lemma heap_shape_cong:
  assumes "\<And>y. y \<in> S \<Longrightarrow> hnodes H' y = hnodes H y" "hroot H' = hroot H"
  shows "heap_shape H' S = heap_shape H S"
proof -
  have "heap_tree H' T = heap_tree H T" if "set_tree T = S" for T
    using assms trep_cong [of T "hnodes H'" "hnodes H" NULL] that by (simp add: heap_tree_def)
  then show ?thesis by (auto simp: heap_shape_def)
qed

lemma pq_rep_cong:
  "(\<And>y. y \<in> S \<Longrightarrow> hnodes H' y = hnodes H y) \<Longrightarrow> hroot H' = hroot H \<Longrightarrow> pq_rep key H' S = pq_rep key H S"
  using heap_shape_cong [of S H' H] by (simp add: pq_rep_def heap_at_def)

abbreviation free_node :: binary_tree_node where
  "free_node \<equiv> \<lparr>parent = NULL, left = NULL, right = NULL\<rparr>"

lemma root_least:
  assumes T: "heap_tree H T" and ord: "\<forall>x\<in>set_tree T. heap_at key H x" and x: "x \<in> set_tree T"
  shows "key (hroot H) \<le> key x"
  using x
proof (induction "depth T x" arbitrary: x rule: less_induct)
  case less
  let ?p = "parent (hnodes H x)"
  show ?case
  proof (cases "?p = NULL")
    case False
    then have "key (hroot H) \<le> key ?p"
      using less heap_treeD(4) [OF T] heap_tree_depth [OF T] by simp
    moreover have "key ?p \<le> key x" using ord less.prems False by (auto simp: heap_at_def)
    ultimately show ?thesis by simp
  qed (use heap_treeD(5) [OF T less.prems] in simp)
qed

lemma unlink_last_node_spec:
  assumes T: "heap_tree H T" and e: "e \<in> set_tree T" "left (hnodes H e) = NULL" "right (hnodes H e) = NULL"
    and lone: "\<forall>x\<in>set_tree T. left (hnodes H x) = e \<longrightarrow> right (hnodes H x) = NULL"
  shows "\<exists>H'. unlink_last_node H e = Some H' \<and> heap_tree H' (prune e T) \<and>
    set_tree (prune e T) = set_tree T - {e} \<and> hcells H' = hcells H \<and> hnodes H' e = free_node \<and>
    (\<forall>x. x \<noteq> e \<longrightarrow> parent (hnodes H' x) = parent (hnodes H x)) \<and>
    (\<forall>x. x \<notin> set_tree T \<longrightarrow> hnodes H' x = hnodes H x)"
proof -
  note D = heap_treeD [OF T] and t = T [unfolded heap_tree_def]
  let ?h = "hnodes H" and ?p = "parent (hnodes H e)"
  have e0: "e \<noteq> NULL" using D(1) e by auto
  define h' where "h' = (if ?p = NULL then ?h
    else if left (?h ?p) = e then set_parent (set_left ?h ?p NULL) e NULL
    else set_parent (set_right ?h ?p NULL) e NULL)"
  define H' where "H' = H\<lparr>hroot := (if ?p = NULL then NULL else hroot H), hnodes := h'\<rparr>"
  have pe: "?p \<noteq> e" using heap_tree_depth [OF T e(1)] e0 by force
  have up: "?p \<noteq> NULL \<Longrightarrow> ?p \<in> set_tree T \<and> (left (?h ?p) = e \<or> right (?h ?p) = e)"
    using D(4) [OF e(1)] by blast
  have run: "unlink_last_node H e = Some H'"
    using up lone D(5) [OF e(1)]
    by (cases "?p = NULL"; cases "left (?h ?p) = e") (simp_all add: unlink_last_node_def H'_def h'_def Let_def)
  have "h' y = (?h y)\<lparr>left := (if left (?h y) = e then NULL else left (?h y)),
       right := (if right (?h y) = e then NULL else right (?h y))\<rparr>" if y: "y \<in> set_tree T" "y \<noteq> e" for y
    using D(1) D(2,3) [OF y(1)] up y e0 pe
    by (intro node_eqI) (auto simp: h'_def theap_reads)
  then have pr: "trep h' NULL (prune e T) \<and> set_tree (prune e T) = set_tree T - {e} \<and> left_first (prune e T)"
    by (intro trep_prune [of "hnodes H"]) (use t e0 e lone in auto)
  have "root_of (prune e T) = (if root_of T = e then NULL else root_of T)" by (cases T) auto
  then have "heap_tree H' (prune e T)"
    using pr t distinct_prune D(5) [OF e(1)] by (auto simp: heap_tree_def H'_def)
  moreover have "h' e = free_node"
    using e(2,3) pe by (intro node_eqI) (auto simp: h'_def theap_reads)
  moreover have "parent (h' x) = parent (?h x)" if "x \<noteq> e" for x
    using that by (simp add: h'_def theap_reads)
  moreover have "h' x = ?h x" if "x \<notin> set_tree T" for x
    using that e(1) up by (auto simp: h'_def theap_upd)
  ultimately show ?thesis using run pr by (auto simp: H'_def)
qed

text \<open>Putting the spare node \<open>e\<close> in the place of \<open>n\<close> renames the tree.\<close>

definition replaced :: "addr \<Rightarrow> addr \<Rightarrow> addr set \<Rightarrow> heap_store \<Rightarrow> heap_store \<Rightarrow> bool" where
  "replaced n e S H H' \<longleftrightarrow> hroot H' = exchange n e (hroot H) \<and> hcells H' = hcells H \<and>
     (\<forall>x\<in>S. hnodes H' (exchange n e x) = rename_node (exchange n e) (hnodes H x)) \<and>
     (\<forall>x. x \<notin> insert e S \<longrightarrow> hnodes H' x = hnodes H x)"

lemma replaced_tree:
  assumes T: "heap_tree H T" and n: "n \<in> set_tree T" and e: "e \<notin> set_tree T" "e \<noteq> NULL"
    and rep: "replaced n e (set_tree T) H H'"
  shows "heap_tree H' (map_tree (exchange n e) T)"
    and "set_tree (map_tree (exchange n e) T) = insert e (set_tree T - {n})"
    and "\<forall>x\<in>set_tree T. heap_at key H x \<Longrightarrow>
      (parent (hnodes H n) \<noteq> NULL \<Longrightarrow> key (parent (hnodes H n)) \<le> key e) \<Longrightarrow>
      down_inv key H' (insert e (set_tree T - {n})) e"
proof -
  note D = heap_treeD [OF T] and R = rep [unfolded replaced_def]
  have n0: "n \<noteq> NULL" "n \<noteq> e" using n e D(1) by auto
  have "exchange n e NULL = NULL" using n0 e by (simp add: exchange_def)
  then show "heap_tree H' (map_tree (exchange n e) T)"
    using R by (intro heap_tree_rename [OF T]) (auto simp: exchange_inj_UNIV)
  show "set_tree (map_tree (exchange n e) T) = insert e (set_tree T - {n})"
    using n e by (auto simp: tree.set_map exchange_def image_iff)
  assume ord: "\<forall>x\<in>set_tree T. heap_at key H x"
    and small: "parent (hnodes H n) \<noteq> NULL \<Longrightarrow> key (parent (hnodes H n)) \<le> key e"
  have pne: "parent (hnodes H x) \<noteq> e" if "x \<in> set_tree T" for x
    using D(4) [OF that] e by metis
  have pn: "parent (hnodes H n) \<noteq> n" using heap_tree_depth [OF T n] n0 by force
  have pe: "parent (hnodes H' e) = parent (hnodes H n)"
    using R n pne [OF n] pn by (auto simp: rename_node_def exchange_def dest!: bspec [of _ _ n])
  have px: "parent (hnodes H' x) = (if parent (hnodes H x) = n then e else parent (hnodes H x))"
    if "x \<in> set_tree T" "x \<noteq> n" for x
  proof -
    have "exchange n e x = x" using that e by (auto simp: exchange_def)
    then have "hnodes H' x = rename_node (exchange n e) (hnodes H x)" using R that by metis
    then show ?thesis using pne [OF that(1)] by (simp add: rename_node_def exchange_def)
  qed
  have "heap_at key H' x" if x: "x \<in> insert e (set_tree T - {n})" "parent (hnodes H' x) \<noteq> e" for x
    using ord px [of x] pe small x by (cases "x = e") (auto simp: heap_at_def)
  moreover have "key (parent (hnodes H n)) \<le> key x"
    if x: "x \<in> insert e (set_tree T - {n})" "parent (hnodes H' x) = e" "parent (hnodes H n) \<noteq> NULL" for x
  proof -
    have "x \<noteq> e" using x pe pne [OF n] by auto
    then have "parent (hnodes H x) = n" "x \<in> set_tree T"
      using x px [of x] pne [of x] by (auto split: if_splits)
    then have "key n \<le> key x" "key (parent (hnodes H n)) \<le> key n" using ord n n0 x(3) by (auto simp: heap_at_def)
    then show ?thesis by (rule order_trans [rotated])
  qed
  ultimately show "down_inv key H' (insert e (set_tree T - {n})) e"
    using pe by (simp add: down_inv_def)
qed

text \<open>The nodes around \<open>n\<close>, as both removal functions see them.\<close>

lemma replacedI:
  assumes T: "heap_tree H T" and n: "n \<in> set_tree T" and e: "e \<notin> set_tree T" "e \<noteq> NULL"
    and root: "hroot H' = exchange n e (hroot H)" and cells: "hcells H' = hcells H"
    and he: "hnodes H' e = hnodes H n"
    and par: "\<And>x. x \<noteq> n \<Longrightarrow> x \<noteq> e \<Longrightarrow> x \<noteq> NULL \<Longrightarrow> parent (hnodes H' x) =
      (if x = left (hnodes H n) \<or> x = right (hnodes H n) then e else parent (hnodes H x))"
    and lef: "\<And>x. x \<noteq> n \<Longrightarrow> x \<noteq> e \<Longrightarrow> x \<noteq> NULL \<Longrightarrow> left (hnodes H' x) =
      (if x = parent (hnodes H n) \<and> left (hnodes H x) = n then e else left (hnodes H x))"
    and rig: "\<And>x. x \<noteq> n \<Longrightarrow> x \<noteq> e \<Longrightarrow> x \<noteq> NULL \<Longrightarrow> right (hnodes H' x) =
      (if x = parent (hnodes H n) \<and> right (hnodes H x) = n then e else right (hnodes H x))"
    and nul: "hnodes H' NULL = hnodes H NULL"
  shows "replaced n e (set_tree T) H H'"
proof -
  note D = heap_treeD [OF T]
  have n0: "n \<noteq> NULL" "n \<noteq> e" using n e D(1) by auto
  have "hnodes H' x = hnodes H x" if x: "x \<notin> insert e (set_tree T)" for x
  proof (cases "x = NULL")
    case False
    then have "x \<noteq> n" "x \<noteq> left (hnodes H n)" "x \<noteq> right (hnodes H n)" "x \<noteq> parent (hnodes H n)"
      using D(2-4) [OF n] n x by auto
    then show ?thesis using par [of x] lef [of x] rig [of x] x False by (intro node_eqI) auto
  qed (use nul in simp)
  moreover have "hnodes H' x = rename_node (exchange n e) (hnodes H x)" if x: "x \<in> set_tree T" "x \<noteq> n" for x
  proof -
    have x0: "x \<noteq> NULL" "x \<noteq> e" using D(1) x e by auto
    have out: "parent (hnodes H x) \<noteq> e" "left (hnodes H x) \<noteq> e" "right (hnodes H x) \<noteq> e"
      using D(2-4) [OF x(1)] e by auto
    have up: "parent (hnodes H x) = n \<longleftrightarrow> x = left (hnodes H n) \<or> x = right (hnodes H n)"
      using D(4) [OF x(1)] D(2,3) [OF n] n0 x0 by metis
    have down: "x = parent (hnodes H n) \<and> left (hnodes H x) = n \<longleftrightarrow> left (hnodes H x) = n"
      "x = parent (hnodes H n) \<and> right (hnodes H x) = n \<longleftrightarrow> right (hnodes H x) = n"
      using D(2,3) [OF x(1)] n0 by auto
    show ?thesis
      using par [OF x(2) x0(2,1), folded up] lef [OF x(2) x0(2,1), unfolded down]
        rig [OF x(2) x0(2,1), unfolded down] out
      by (intro node_eqI) (simp_all add: rename_node_def exchange_def)
  qed
  moreover have "hnodes H' e = rename_node (exchange n e) (hnodes H n)"
  proof -
    have "left (hnodes H n) \<noteq> n" using D(2) [OF n] n0 by (metis n_not_Suc_n)
    moreover have "right (hnodes H n) \<noteq> n" using D(3) [OF n] n0 by (metis n_not_Suc_n)
    moreover have "parent (hnodes H n) \<noteq> n" using heap_tree_depth [OF T n] n0 by (metis n_not_Suc_n)
    moreover have "left (hnodes H n) \<noteq> e" "right (hnodes H n) \<noteq> e" "parent (hnodes H n) \<noteq> e"
      using D(2-4) [OF n] e by auto
    ultimately show ?thesis using he by (simp add: rename_other)
  qed
  moreover have "exchange n e x = (if x = n then e else x)" if "x \<in> set_tree T" for x
    using that e by (auto simp: exchange_def)
  ultimately show ?thesis
    using root cells by (simp add: replaced_def)
qed


lemma replace_top_spec:
  assumes T: "heap_tree H T" "hroot H \<noteq> NULL" and e: "e \<notin> set_tree T" "e \<noteq> NULL" "hnodes H e = free_node"
  shows "\<exists>H'. replace_top H e = Some (hroot H, H') \<and> hroot H' = e \<and> hroot H \<in> set_tree T \<and>
    replaced (hroot H) e (set_tree T) H H' \<and> hnodes H' (hroot H) = free_node"
proof -
  define h where "h = hnodes H"
  define d where "d = hroot H"
  have "T \<noteq> Leaf" "d = root_of T" using T by (auto simp: heap_tree_def d_def)
  then have d: "d \<in> set_tree T" using root_of_in by blast
  note D = heap_treeD [OF T(1)]
  have pd: "parent (h d) = NULL" using D(5) [OF d] by (simp add: h_def d_def)
  have neq: "d \<noteq> e" "d \<noteq> NULL" "left (h d) \<noteq> e" "right (h d) \<noteq> e"
    using d e D(1) D(2,3) [OF d] by (auto simp: h_def)
  have ne2: "left (h d) \<noteq> d" "right (h d) \<noteq> d"
    using D(2,3) [OF d] neq unfolding h_def by (metis n_not_Suc_n)+
  define h2 where "h2 = (if left (h d) \<noteq> NULL then set_parent h (left (h d)) e else h)"
  define h3 where "h3 = (if right (h d) \<noteq> NULL then set_parent h2 (right (h d)) e else h2)"
  define h4 where "h4 = set_right (set_left h3 e (left (h d))) e (right (h d))"
  define h5 where "h5 = set_right (set_left h4 d NULL) d NULL"
  note defs = h2_def h3_def h4_def h5_def
  have fin: "h5 d = free_node"
    using pd neq ne2 by (intro node_eqI) (auto simp: defs theap_reads)
  have rep: "replaced d e (set_tree T) H (H\<lparr>hroot := e, hnodes := h5\<rparr>)"
    using neq ne2 pd e d
    by (intro replacedI [OF T(1) d e(1,2)] node_eqI)
       (auto simp: defs theap_reads simp flip: h_def d_def)
  have "replace_top H e = Some (d, H\<lparr>hroot := e, hnodes := h5\<rparr>)"
    using T(2) neq ne2 pd
    by (simp add: replace_top_def theap_reads defs flip: h_def d_def)
  then show ?thesis using fin rep d by (auto simp: d_def)
qed

lemma replace_node_spec:
  assumes T: "heap_tree H T" and n: "n \<in> set_tree T"
    and e: "e \<notin> set_tree T" "e \<noteq> NULL" "hnodes H e = free_node"
  shows "\<exists>H'. replace_node H n e = Some H' \<and> replaced n e (set_tree T) H H'"
proof -
  note D = heap_treeD [OF T]
  obtain p l r where hn: "hnodes H n = \<lparr>parent = p, left = l, right = r\<rparr>" by (metis binary_tree_node.cases)
  have n0: "n \<noteq> NULL" "n \<noteq> e" using n e D(1) by auto
  have kin: "l = NULL \<or> l \<in> set_tree T \<and> depth T l = Suc (depth T n)"
    "r = NULL \<or> r \<in> set_tree T \<and> depth T r = Suc (depth T n) \<and> l \<noteq> NULL"
    "p = NULL \<or> p \<in> set_tree T \<and> depth T n = Suc (depth T p)"
    using D(2-4) [OF n] heap_tree_depth [OF T n] hn by auto
  have neq: "l \<noteq> n" "r \<noteq> n" "p \<noteq> n"
    using kin n0 by (metis n_not_Suc_n)+
  have neq2: "l \<noteq> e" "r \<noteq> e" "p \<noteq> e" "l = NULL \<longrightarrow> r = NULL"
    using kin e(1,2) by blast+
  have neq3: "l \<noteq> NULL \<Longrightarrow> l \<noteq> p" "r \<noteq> NULL \<Longrightarrow> r \<noteq> p"
    using kin by (metis Suc_n_not_n n_not_Suc_n not_less_eq lessI not_less_iff_gr_or_eq)+
  have up: "p \<noteq> NULL \<Longrightarrow> left (hnodes H p) = n \<and> right (hnodes H p) \<noteq> n \<or>
      right (hnodes H p) = n \<and> left (hnodes H p) \<noteq> n"
    using D(4) [OF n] D(2) [of p] hn n0 by auto
  have "hroot H \<in> set_tree T" using T n root_of_in [of T] by (cases T) (auto simp: heap_tree_def)
  then have rt: "p = NULL \<longleftrightarrow> hroot H = n" "hroot H \<noteq> e" using D(5) [OF n] hn e by auto
  define h where "h = hnodes H"
  define h2 where "h2 = set_right (set_left h e l) e r"
  define h3 where "h3 = (if l \<noteq> NULL then set_parent h2 l e else h2)"
  define h4 where "h4 = (if r \<noteq> NULL then set_parent h3 r e else h3)"
  define h5 where "h5 = set_parent h4 e p"
  define h6 where "h6 = (if p = NULL then h5 else if left (h p) = n then set_left h5 p e else set_right h5 p e)"
  note defs = h2_def h3_def h4_def h5_def h6_def
  define H' where "H' = H\<lparr>hroot := (if p = NULL then e else hroot H), hnodes := h6\<rparr>"
  have "replace_node H n e = Some H'"
    using neq neq2 neq3 n0 up rt hn
    by (cases "p = NULL"; cases "left (h p) = n")
       (simp_all add: replace_node_def Let_def theap_reads defs H'_def flip: h_def)
  moreover have "replaced n e (set_tree T) H H'"
    using neq neq2 neq3 n0 up rt hn e
    by (intro replacedI [OF T n e(1,2)] node_eqI)
       (auto simp: theap_reads defs H'_def exchange_def simp flip: h_def)
  ultimately show ?thesis by blast
qed

lemma graft_tree:
  assumes T: "heap_tree H T" and e: "e \<in> set_tree T" "right (hnodes H e) = NULL"
    and x: "x \<notin> set_tree T" "x \<noteq> NULL" "hnodes H x = free_node"
    and h': "h' = set_parent (if left (hnodes H e) = NULL then set_left (hnodes H) e x
      else set_right (hnodes H) e x) x e"
  shows "heap_tree (H\<lparr>hcells := c, hnodes := h'\<rparr>) (graft x e T)"
    and "set_tree (graft x e T) = insert x (set_tree T)"
    and "\<forall>y\<in>set_tree T. heap_at key H y \<Longrightarrow> up_inv key (H\<lparr>hcells := c, hnodes := h'\<rparr>) (insert x (set_tree T)) x"
    and "parent (h' x) = e" "\<And>y. y \<notin> insert x (set_tree T) \<Longrightarrow> h' y = hnodes H y"
proof -
  have xe: "x \<noteq> e" using x e by auto
  have hx: "h' x = \<lparr>parent = e, left = NULL, right = NULL\<rparr>"
    using x(3) xe by (intro node_eqI) (auto simp: h' theap_reads)
  have he: "h' e = (if left (hnodes H e) = NULL then (hnodes H e)\<lparr>left := x\<rparr> else (hnodes H e)\<lparr>right := x\<rparr>)"
    using xe by (simp add: h' theap_upd)
  have hy: "h' y = hnodes H y" if "y \<noteq> e" "y \<noteq> x" for y using that by (simp add: h' theap_upd)
  have g: "trep h' NULL (graft x e T) \<and> set_tree (graft x e T) = insert x (set_tree T) \<and>
    distinct (inorder (graft x e T)) \<and> left_first (graft x e T)"
    by (rule trep_graft [of "hnodes H"]) (use T e x hx he hy in \<open>auto simp: heap_tree_def\<close>)
  then show "heap_tree (H\<lparr>hcells := c, hnodes := h'\<rparr>) (graft x e T)" "set_tree (graft x e T) = insert x (set_tree T)"
    using T by (auto simp: heap_tree_def graft_root)
  show "parent (h' x) = e" "\<And>y. y \<notin> insert x (set_tree T) \<Longrightarrow> h' y = hnodes H y"
    using hx e by (auto intro!: hy)
  have par: "parent (h' y) = parent (hnodes H y)" if "y \<noteq> x" for y using that by (simp add: h' theap_reads)
  have "parent (h' y) \<noteq> x" if "y \<in> insert x (set_tree T)" for y
    using that hx xe par [of y] heap_treeD(4) [OF T, of y] x by (cases "y = x") auto
  then show "up_inv key (H\<lparr>hcells := c, hnodes := h'\<rparr>) (insert x (set_tree T)) x"
    if "\<forall>y\<in>set_tree T. heap_at key H y"
    using that par by (auto simp: up_inv_def heap_at_def)
qed

context heap_order
begin

lemma attach_heap_node_spec:
  assumes rep: "pq_rep key H S" and x: "x \<notin> S" "x \<noteq> NULL" "hnodes H x = free_node" and q: "queue_ok q S"
  shows "\<exists>H'. attach_heap_node cmp q H x = Some H' \<and> pq_rep key H' (insert x S) \<and>
    (\<forall>y. y \<notin> insert x S \<longrightarrow> y \<noteq> NULL \<longrightarrow> hnodes H' y = hnodes H y) \<and>
    (\<forall>b. b \<noteq> q \<longrightarrow> b \<notin> node_list ` S \<longrightarrow> hcells H' b = hcells H b)"
proof -
  obtain T where T: "heap_tree H T" "set_tree T = S" "\<forall>y\<in>S. heap_at key H y"
    using rep by (auto simp: pq_rep_def heap_shape_def)
  show ?thesis
  proof (cases "T = Leaf")
    case True
    then have "hroot H = NULL" "S = {}" using T by (auto simp: heap_tree_def)
    then show ?thesis
      using x by (auto simp: attach_heap_node_def search_last_parent_def pq_rep_def heap_shape_def
        heap_tree_def heap_at_def list_init_def lheap_upd intro!: exI [of _ "Node Leaf x Leaf"])
  next
    case False
    obtain e c where sp: "search_last_parent q H (hroot H) = Some (e, H\<lparr>hcells := c\<rparr>)" "e \<in> S"
      "right (hnodes H e) = NULL" "\<forall>b. b \<noteq> q \<longrightarrow> b \<notin> node_list ` S \<longrightarrow> c b = hcells H b"
      using search_last_parent_spec [OF T(1) False q [folded T(2)], unfolded T(2)] by blast
    define h' where "h' = set_parent (if left (hnodes H e) = NULL then set_left (hnodes H) e x
      else set_right (hnodes H) e x) x e"
    let ?H = "H\<lparr>hcells := c, hnodes := h'\<rparr>"
    note G = graft_tree [OF T(1) _ sp(3) _ x(2,3) h'_def, unfolded T(2), OF sp(2) x(1)]
    obtain H' T' where H': "attach_loop cmp ?H e = Some H'" "heap_tree H' T'" "set_tree T' = insert x S"
      "\<forall>y\<in>insert x S. heap_at key H' y" "hcells H' = c"
      "\<forall>y. y \<notin> insert x S \<longrightarrow> y \<noteq> NULL \<longrightarrow> hnodes H' y = h' y"
      using attach_loop_spec [OF G(1), of x c, unfolded G(2)] G(3) [OF T(3)] G(4) by auto
    have "attach_heap_node cmp q H x = attach_loop cmp ?H e"
      using x sp(1-3) heap_treeD(1) [OF T(1)] T(2) by (auto simp: attach_heap_node_def Let_def h'_def)
    then show ?thesis
      using H' G(5) sp(4) by (auto simp: pq_rep_def heap_shape_def)
  qed
qed

text \<open>Both removals start by taking the last node off the tree.\<close>

lemma take_last:
  assumes T: "heap_tree H T" "T \<noteq> Leaf" and q: "queue_ok q (set_tree T)"
  shows "\<exists>e c H1. search_last_node q H (hroot H) = Some (e, H\<lparr>hcells := c\<rparr>) \<and> e \<in> set_tree T \<and> e \<noteq> NULL \<and>
    left (hnodes H e) = NULL \<and> right (hnodes H e) = NULL \<and>
    unlink_last_node (H\<lparr>hcells := c\<rparr>) e = Some H1 \<and> heap_tree H1 (prune e T) \<and>
    set_tree (prune e T) = set_tree T - {e} \<and> hnodes H1 e = free_node \<and>
    (\<forall>x. x \<noteq> e \<longrightarrow> parent (hnodes H1 x) = parent (hnodes H x)) \<and>
    (\<forall>x. x \<notin> set_tree T \<longrightarrow> hnodes H1 x = hnodes H x) \<and>
    (\<forall>b. b \<noteq> q \<longrightarrow> b \<notin> node_list ` set_tree T \<longrightarrow> hcells H1 b = hcells H b)"
proof -
  obtain e c where e: "search_last_node q H (hroot H) = Some (e, H\<lparr>hcells := c\<rparr>)" "e \<in> set_tree T"
    "left (hnodes H e) = NULL" "right (hnodes H e) = NULL"
    "\<forall>x\<in>set_tree T. left (hnodes H x) = e \<longrightarrow> right (hnodes H x) = NULL"
    "\<forall>b. b \<noteq> q \<longrightarrow> b \<notin> node_list ` set_tree T \<longrightarrow> c b = hcells H b"
    using search_last_node_spec [OF assms] by blast
  have "heap_tree (H\<lparr>hcells := c\<rparr>) T" using T(1) by (simp add: heap_tree_def)
  from unlink_last_node_spec [OF this e(2)] e(3-5)
  obtain H1 where "unlink_last_node (H\<lparr>hcells := c\<rparr>) e = Some H1" "heap_tree H1 (prune e T)"
    "set_tree (prune e T) = set_tree T - {e}" "hcells H1 = c" "hnodes H1 e = free_node"
    "\<forall>x. x \<noteq> e \<longrightarrow> parent (hnodes H1 x) = parent (hnodes H x)"
    "\<forall>x. x \<notin> set_tree T \<longrightarrow> hnodes H1 x = hnodes H x"
    by auto
  moreover have "e \<noteq> NULL" using heap_treeD(1) [OF T(1)] e(2) by auto
  ultimately show ?thesis using e by (intro exI [of _ e] exI [of _ c] exI [of _ H1]) simp
qed

lemma heap_at_cong: "parent (hnodes H1 x) = parent (hnodes H x) \<Longrightarrow> heap_at key H1 x = heap_at key H x"
  by (simp add: heap_at_def)

lemma install_last:
  assumes T: "heap_tree H T" and n: "n \<in> set_tree T" and e: "e \<notin> set_tree T" "e \<noteq> NULL"
    and rep: "replaced n e (set_tree T) H H2" and S: "S = insert e (set_tree T - {n})"
  shows "\<exists>H'. adjust_heap_node cmp H2 e = Some H' \<and> heap_shape H' S \<and> hcells H' = hcells H \<and>
    ((\<forall>x\<in>set_tree T. heap_at key H x) \<longrightarrow>
      (parent (hnodes H n) \<noteq> NULL \<longrightarrow> key (parent (hnodes H n)) \<le> key e) \<longrightarrow> pq_rep key H' S) \<and>
    (\<forall>x. x \<notin> S \<longrightarrow> x \<noteq> NULL \<longrightarrow> hnodes H' x = hnodes H2 x)"
proof -
  let ?T = "map_tree (exchange n e) T"
  note R = replaced_tree [OF T n e rep]
  have eT: "e \<in> set_tree ?T" using R(2) by simp
  obtain H' T' where "adjust_heap_node cmp H2 e = Some H'" "heap_tree H' T'" "set_tree T' = S" "hcells H' = hcells H2"
    "down_inv key H2 S e \<longrightarrow> (\<forall>x\<in>S. heap_at key H' x)" "\<forall>x. x \<notin> S \<longrightarrow> x \<noteq> NULL \<longrightarrow> hnodes H' x = hnodes H2 x"
    using adjust_heap_node_spec [OF R(1) eT, unfolded R(2), folded S] by blast
  moreover from this have "heap_shape H' S" by (auto simp: heap_shape_def)
  ultimately show ?thesis
    using R(3) [of key] rep S by (auto simp: pq_rep_def replaced_def)
qed

lemma detach_heap_node_empty:
  "pq_rep key H {} \<Longrightarrow> detach_heap_node cmp q H = Some (NULL, H)"
  by (auto simp: pq_rep_def heap_shape_def heap_tree_def detach_heap_node_def)

lemma detach_heap_node_spec:
  assumes rep: "pq_rep key H S" and S: "S \<noteq> {}" and q: "queue_ok q S"
  shows "\<exists>d H'. detach_heap_node cmp q H = Some (d, H') \<and> d = hroot H \<and> d \<in> S \<and> (\<forall>x\<in>S. key d \<le> key x) \<and>
    pq_rep key H' (S - {d}) \<and> hnodes H' d = free_node \<and>
    (\<forall>y. y \<notin> S \<longrightarrow> y \<noteq> NULL \<longrightarrow> hnodes H' y = hnodes H y) \<and>
    (\<forall>b. b \<noteq> q \<longrightarrow> b \<notin> node_list ` S \<longrightarrow> hcells H' b = hcells H b)"
proof -
  obtain T where T: "heap_tree H T" "set_tree T = S" "\<forall>y\<in>S. heap_at key H y"
    using rep by (auto simp: pq_rep_def heap_shape_def)
  have ne: "T \<noteq> Leaf" using T(2) S by auto
  have root: "hroot H \<in> S" "hroot H \<noteq> NULL"
    using T ne root_of_in [OF ne] heap_treeD(1) [OF T(1)] by (auto simp: heap_tree_def)
  have least: "\<forall>x\<in>S. key (hroot H) \<le> key x" using root_least [OF T(1)] T by auto
  obtain e c H1 where e: "search_last_node q H (hroot H) = Some (e, H\<lparr>hcells := c\<rparr>)" "e \<in> S" "e \<noteq> NULL"
    "left (hnodes H e) = NULL" "right (hnodes H e) = NULL"
    "unlink_last_node (H\<lparr>hcells := c\<rparr>) e = Some H1" "heap_tree H1 (prune e T)"
    "set_tree (prune e T) = S - {e}" "hnodes H1 e = free_node"
    and par: "\<forall>x. x \<noteq> e \<longrightarrow> parent (hnodes H1 x) = parent (hnodes H x)"
    and out: "\<forall>x. x \<notin> S \<longrightarrow> hnodes H1 x = hnodes H x"
      "\<forall>b. b \<noteq> q \<longrightarrow> b \<notin> node_list ` S \<longrightarrow> hcells H1 b = hcells H b"
    using take_last [OF T(1) ne, unfolded T(2), OF q] by blast
  have ord1: "\<forall>x\<in>S - {e}. heap_at key H1 x"
    using T(3) par by (simp add: heap_at_def)
  have r1: "hroot H1 = (if hroot H = e then NULL else hroot H)"
    using e(7) T(1) by (cases T) (auto simp: heap_tree_def)
  show ?thesis
  proof (cases "hroot H = e")
    case True
    then have "prune e T = Leaf" using T(1) by (cases T) (auto simp: heap_tree_def)
    then have one: "pq_rep key H1 (S - {e})" using e(7,8) by (auto simp: pq_rep_def heap_shape_def)
    have "detach_heap_node cmp q H = Some (e, H1)"
      using e r1 root True by (simp add: detach_heap_node_def replace_top_def adjust_heap_node.simps [of cmp H1 NULL])
    then show ?thesis
      using True one e(2,9) least out by simp
  next
    case False
    let ?d = "hroot H"
    have r1: "hroot H1 = ?d" using r1 False by simp
    have eT: "e \<notin> set_tree (prune e T)" using e(8) by simp
    obtain H2 where H2: "replace_top H1 e = Some (?d, H2)" "hroot H2 = e" "hnodes H2 ?d = free_node"
      "replaced ?d e (set_tree (prune e T)) H1 H2"
      using replace_top_spec [OF e(7) _ eT e(3,9)] root r1 by auto
    have dT: "?d \<in> set_tree (prune e T)" using e(8) root False by simp
    have set: "S - {?d} = insert e (set_tree (prune e T) - {?d})" using e(2,8) False by auto
    have "parent (hnodes H1 ?d) = NULL"
      using par False heap_treeD(5) [OF T(1)] T(2) root by auto
    then obtain H' where "adjust_heap_node cmp H2 e = Some H'" "hcells H' = hcells H1"
      "pq_rep key H' (S - {?d})" "\<forall>x. x \<notin> S - {?d} \<longrightarrow> x \<noteq> NULL \<longrightarrow> hnodes H' x = hnodes H2 x"
      using install_last [OF e(7) dT eT e(3) H2(4) set] ord1 e(8) by auto
    moreover from this have "detach_heap_node cmp q H = Some (?d, H')"
      using e H2 root by (simp add: detach_heap_node_def)
    moreover have "hnodes H2 y = hnodes H1 y" if "y \<notin> S" for y
      using H2(4) e(2,8) that by (auto simp: replaced_def)
    ultimately show ?thesis
      using H2(3) root least out by auto
  qed
qed

text \<open>
  Deleting an arbitrary node keeps the tree. The order is kept when the node that moves up is
  not smaller than the parent it gets; the code never moves it towards the root.
\<close>

lemma climb_to_root_tree:
  assumes T: "heap_tree H T"
  shows "x \<in> set_tree T \<Longrightarrow> climb_to_root (hnodes H) x = Some (hroot H)"
proof (induction "depth T x" arbitrary: x rule: less_induct)
  case less
  have "x \<noteq> NULL" using heap_treeD(1) [OF T] less.prems by auto
  show ?case
  proof (cases "parent (hnodes H x) = NULL")
    case True
    then show ?thesis using heap_treeD(5) [OF T less.prems] by (subst climb_to_root.simps) simp
  next
    case False
    then show ?thesis
      using less heap_treeD(4) [OF T less.prems] heap_tree_depth [OF T less.prems] \<open>x \<noteq> NULL\<close>
      by (subst climb_to_root.simps) simp
  qed
qed

lemma delete_heap_node_other:
  "parent (hnodes H x) = NULL \<Longrightarrow> x \<noteq> hroot H \<Longrightarrow> delete_heap_node cmp q H x = Some H"
  by (simp add: delete_heap_node_def climb_to_root.simps [of _ x])

lemma delete_heap_node_spec:
  assumes rep: "heap_shape H S" and x: "x \<in> S" and q: "queue_ok q S"
  shows "\<exists>H'. delete_heap_node cmp q H x = Some H' \<and> heap_shape H' (S - {x}) \<and> hnodes H' x = free_node \<and>
    (pq_rep key H S \<longrightarrow> (parent (hnodes H x) \<noteq> NULL \<longrightarrow> (\<forall>y\<in>S. key (parent (hnodes H x)) \<le> key y)) \<longrightarrow>
      pq_rep key H' (S - {x})) \<and>
    (\<forall>y. y \<notin> S \<longrightarrow> y \<noteq> NULL \<longrightarrow> hnodes H' y = hnodes H y) \<and>
    (\<forall>b. b \<noteq> q \<longrightarrow> b \<notin> node_list ` S \<longrightarrow> hcells H' b = hcells H b)"
proof -
  obtain T where T: "heap_tree H T" "set_tree T = S" using rep by (auto simp: heap_shape_def)
  have ne: "T \<noteq> Leaf" using T(2) x by auto
  have root: "hroot H \<noteq> NULL" "climb_to_root (hnodes H) x = Some (hroot H)"
    using T ne root_of_in [OF ne] heap_treeD(1) [OF T(1)] climb_to_root_tree [OF T(1)] x
    by (auto simp: heap_tree_def)
  have x0: "x \<noteq> NULL" using heap_treeD(1) [OF T(1)] T(2) x by auto
  obtain e c H1 where e: "search_last_node q H (hroot H) = Some (e, H\<lparr>hcells := c\<rparr>)" "e \<in> S" "e \<noteq> NULL"
    "left (hnodes H e) = NULL" "right (hnodes H e) = NULL"
    "unlink_last_node (H\<lparr>hcells := c\<rparr>) e = Some H1" "heap_tree H1 (prune e T)"
    "set_tree (prune e T) = S - {e}" "hnodes H1 e = free_node"
    and par: "\<forall>y. y \<noteq> e \<longrightarrow> parent (hnodes H1 y) = parent (hnodes H y)"
    and out: "\<forall>y. y \<notin> S \<longrightarrow> hnodes H1 y = hnodes H y"
      "\<forall>b. b \<noteq> q \<longrightarrow> b \<notin> node_list ` S \<longrightarrow> hcells H1 b = hcells H b"
    using take_last [OF T(1) ne, unfolded T(2), OF q] by blast
  define clr where "clr = (\<lambda>H :: heap_store. H\<lparr>hnodes := set_right (set_left (set_parent (hnodes H) x NULL) x NULL) x NULL\<rparr>)"
  have clear: "hnodes (clr H') y = (if y = x then free_node else hnodes H' y)"
    "hroot (clr H') = hroot H'" "hcells (clr H') = hcells H'" for H' y
    by (auto intro: node_eqI simp: theap_upd clr_def)
  have clear_rep: "heap_shape (clr H') (S - {x}) = heap_shape H' (S - {x})"
    "pq_rep key (clr H') (S - {x}) = pq_rep key H' (S - {x})" for H'
    by (rule heap_shape_cong pq_rep_cong; simp add: clear)+
  have ord1: "pq_rep key H S \<Longrightarrow> \<forall>y\<in>S - {e}. heap_at key H1 y"
    using par by (simp add: pq_rep_def heap_at_def)
  show ?thesis
  proof (cases "x = e")
    case True
    have "delete_heap_node cmp q H x = Some (clr H1)"
      using root e True by (simp add: delete_heap_node_def clr_def)
    moreover have "heap_shape H1 (S - {x})" using e(7,8) True by (auto simp: heap_shape_def)
    ultimately show ?thesis
      using clear clear_rep [of H1] ord1 True x out by (auto simp: pq_rep_def)
  next
    case False
    have xT: "x \<in> set_tree (prune e T)" and eT: "e \<notin> set_tree (prune e T)" using e(8) x False by auto
    have set: "S - {x} = insert e (set_tree (prune e T) - {x})" using e(2,8) False by auto
    have "hroot H1 \<noteq> NULL"
      using e(7) xT root_of_NULL [of "hnodes H1" NULL "prune e T"] by (auto simp: heap_tree_def)
    moreover obtain H2 where H2: "replace_node H1 x e = Some H2" "replaced x e (set_tree (prune e T)) H1 H2"
      using replace_node_spec [OF e(7) xT eT e(3,9)] by blast
    moreover obtain H3 where H3: "adjust_heap_node cmp H2 e = Some H3" "heap_shape H3 (S - {x})" "hcells H3 = hcells H1"
      "(\<forall>y\<in>S - {e}. heap_at key H1 y) \<longrightarrow> (parent (hnodes H1 x) \<noteq> NULL \<longrightarrow> key (parent (hnodes H1 x)) \<le> key e) \<longrightarrow>
        pq_rep key H3 (S - {x})"
      "\<forall>y. y \<notin> S - {x} \<longrightarrow> y \<noteq> NULL \<longrightarrow> hnodes H3 y = hnodes H2 y"
      using install_last [OF e(7) xT eT e(3) H2(2) set] e(8) by auto
    ultimately have "delete_heap_node cmp q H x = Some (clr H3)"
      using root e False by (simp add: delete_heap_node_def clr_def)
    moreover have "hnodes H2 y = hnodes H1 y" if "y \<notin> S" for y
      using H2(2) e(2,8) that by (auto simp: replaced_def)
    moreover have "parent (hnodes H1 x) = parent (hnodes H x)" using par False by simp
    ultimately show ?thesis
      using clear clear_rep [of H3] ord1 H3 x e(2) out by auto
  qed
qed

end

end
