(* ===== verification/Timer.thy ===== *)
theory Timer
  imports Heap_Sort_Correct Scheduler_Correct Interrupt
begin

section \<open>Timers and the clock (\<^verbatim>\<open>kernel/timer.c\<close>, \<^verbatim>\<open>x86/pit.c\<close>)\<close>

text \<open>
  A \<^verbatim>\<open>struct timer_entry\<close> starts with its tree node, so a timer and its node have the same address.
  The heap \<^verbatim>\<open>timer_heap\<close> lives in the memories of tree nodes and of list cells of the kernel, which
  \<open>timer_store\<close> and \<open>put_timer_store\<close> pass to the functions of \<^verbatim>\<open>heap_sort.c\<close> and back. Callbacks are called
  through the pointer in the entry; the argument \<open>code\<close> gives the function at an address. The argument
  \<open>q\<close> is the address of the queue on the stack of the search functions.
\<close>

subsection \<open>The code\<close>

definition timer_store :: "kernel \<Rightarrow> heap_store" where
  "timer_store k = \<lparr>hroot = timer_heap k, hnodes = trees k, hcells = lists k\<rparr>"

definition put_timer_store :: "heap_store \<Rightarrow> kernel \<Rightarrow> kernel" where
  "put_timer_store H k = k\<lparr>timer_heap := hroot H, trees := hnodes H, lists := hcells H\<rparr>"

definition timer_detached :: "addr \<Rightarrow> kernel \<Rightarrow> bool" where
  "timer_detached timer k = heap_node_detached (timer_store k) timer"

definition timer_compare :: "(addr \<Rightarrow> timer_entry) \<Rightarrow> addr \<Rightarrow> addr \<Rightarrow> int" where
  "timer_compare ts timer0 timer1 =
     (if time_to_expire (ts timer0) < time_to_expire (ts timer1) then -1
      else if time_to_expire (ts timer0) > time_to_expire (ts timer1) then 1 else 0)"

definition set_timer_state :: "addr \<Rightarrow> timer_state \<Rightarrow> kernel \<Rightarrow> kernel" where
  "set_timer_state t s k = k\<lparr>timers := (timers k)(t := (timers k t)\<lparr>timer_state_of := s\<rparr>)\<rparr>"

definition register_timer :: "addr \<Rightarrow> addr \<Rightarrow> kernel \<Rightarrow> kernel option" where
  "register_timer q t k = do {
     kassert (left (trees k t) = NULL);
     kassert (right (trees k t) = NULL);
     kassert (parent (trees k t) = NULL);
     let k = set_timer_state t timer_state_scheduled k;
     H \<leftarrow> attach_heap_node (timer_compare (timers k)) q (timer_store k) t;
     Some (put_timer_store H k)
   }"

definition cancel_timer :: "addr \<Rightarrow> addr \<Rightarrow> kernel \<Rightarrow> kernel option" where
  "cancel_timer q t k = do {
     H \<leftarrow> delete_heap_node (timer_compare (timers k)) q (timer_store k) t;
     let k = set_timer_state t timer_state_idle (put_timer_store H k);
     kassert (left (trees k t) = NULL);
     kassert (right (trees k t) = NULL);
     kassert (parent (trees k t) = NULL);
     Some k
   }"

type_synonym callbacks = "u32 \<Rightarrow> addr \<Rightarrow> addr \<Rightarrow> kernel \<Rightarrow> kernel option"

partial_function (option) schedule_timer :: "callbacks \<Rightarrow> addr \<Rightarrow> kernel \<Rightarrow> kernel option" where
  "schedule_timer code q k =
     (if timer_heap k = NULL then Some k
      else do {
        kassert (timer_state_of (timers k (timer_heap k)) = timer_state_scheduled);
        if time_to_expire (timers k (timer_heap k)) > jiffies k then Some k
        else do {
          (t, H) \<leftarrow> detach_heap_node (timer_compare (timers k)) q (timer_store k);
          kassert (t \<noteq> NULL);
          kassert (time_to_expire (timers k t) \<le> jiffies k);
          kassert (timer_state_of (timers k t) = timer_state_scheduled);
          kassert (timer_callback (timers k t) \<noteq> 0);
          k \<leftarrow> code (timer_callback (timers k t)) t (timer_priv (timers k t)) (put_timer_store H k);
          schedule_timer code q k
        }
      })"

definition timer_init :: "kernel \<Rightarrow> kernel" where
  "timer_init k = k\<lparr>timer_heap := NULL\<rparr>"

text \<open>The clock interrupt. \<^verbatim>\<open>pit_ticks\<close> is a variable of \<^verbatim>\<open>pit.c\<close> alone.\<close>

definition pit_handler :: "callbacks \<Rightarrow> addr \<Rightarrow> addr \<Rightarrow> u32 \<times> kernel \<Rightarrow> (u32 \<times> u32 \<times> kernel) option" where
  "pit_handler code q frame = (\<lambda>(pit_ticks, k). do {
     let pit_ticks = pit_ticks + 1;
     let k = k\<lparr>jiffies := jiffies k + 1\<rparr>;
     k \<leftarrow> schedule_timer code q k;
     if pit_ticks mod 2 = 0 \<and> ready_to_schedule k
     then do {
       (sp, k) \<leftarrow> schedule k;
       Some (sp, pit_ticks, k)
     }
     else Some (frame, pit_ticks, k)
   })"

definition refresh_pit_channel0 :: "intr \<Rightarrow> intr" where
  "refresh_pit_channel0 i =
     (let divisor = (1193182 :: u32) div 1000;
          i = outb 0x43 (0x6 OR 0x30) i;
          i = outb 0x40 (ucast (divisor AND 0xff)) i
      in outb 0x40 (ucast (drop_bit 8 divisor AND 0xff)) i)"

definition pit_init :: "u32 \<Rightarrow> intr \<Rightarrow> intr option" where
  "pit_init handler i = do {
     i \<leftarrow> register_interrupt_handler 0x20 handler i;
     Some (refresh_pit_channel0 i)
   }"

text \<open>The callback of \<^verbatim>\<open>sleep\<close> (\<^verbatim>\<open>task_misc.c\<close>), the only one in the kernel.\<close>

definition sleep_callback :: "addr \<Rightarrow> addr \<Rightarrow> kernel \<Rightarrow> kernel option" where
  "sleep_callback timer prv k = raw_task_wake_up prv k"


definition sleep_code :: "u32 \<Rightarrow> callbacks" where
  "sleep_code cb f timer prv k = (if f = cb then sleep_callback timer prv k else None)"

subsection \<open>The timer heap\<close>

interpretation timer_order: heap_order "timer_compare ts" "\<lambda>x. time_to_expire (ts x)" for ts
  by unfold_locales (simp add: timer_compare_def)

definition timers_ok :: "addr \<Rightarrow> kernel \<Rightarrow> addr set \<Rightarrow> bool" where
  "timers_ok q k S \<longleftrightarrow> pq_rep (\<lambda>x. time_to_expire (timers k x)) (timer_store k) S \<and> queue_ok q S \<and>
     (\<forall>x\<in>S. timer_state_of (timers k x) = timer_state_scheduled \<and> timer_callback (timers k x) \<noteq> 0)"

lemma timer_store_put [simp]: "timer_store (put_timer_store H k) = H"
  by (simp add: timer_store_def put_timer_store_def)

lemma put_timer_store_fields [simp]:
  "timers (put_timer_store H k) = timers k" "jiffies (put_timer_store H k) = jiffies k"
  "tasks (put_timer_store H k) = tasks k"
  by (simp_all add: put_timer_store_def)

lemma timer_store_state [simp]: "timer_store (set_timer_state t s k) = timer_store k"
  by (simp add: timer_store_def set_timer_state_def)

lemma set_timer_state_fields [simp]:
  "time_to_expire (timers (set_timer_state t s k) x) = time_to_expire (timers k x)"
  "timer_callback (timers (set_timer_state t s k) x) = timer_callback (timers k x)"
  "timer_state_of (timers (set_timer_state t s k) x) = (if x = t then s else timer_state_of (timers k x))"
  by (auto simp: set_timer_state_def)

lemma timers_finite: "timers_ok q k S \<Longrightarrow> finite S"
  by (auto simp: timers_ok_def pq_rep_def heap_shape_def)

lemma timers_root:
  assumes ok: "timers_ok q k W" and W: "W \<noteq> {}"
  shows "timer_heap k \<in> W" "timer_heap k \<noteq> NULL"
    "\<forall>x\<in>W. time_to_expire (timers k (timer_heap k)) \<le> time_to_expire (timers k x)"
proof -
  obtain T where T: "heap_tree (timer_store k) T" "set_tree T = W"
    "\<forall>x\<in>set_tree T. heap_at (\<lambda>x. time_to_expire (timers k x)) (timer_store k) x"
    using ok by (auto simp: timers_ok_def pq_rep_def heap_shape_def)
  have root: "hroot (timer_store k) = timer_heap k" by (simp add: timer_store_def)
  have "T \<noteq> Leaf" using T(2) W by auto
  then show "timer_heap k \<in> W" using T(1,2) root_of_in root by (metis heap_tree_def)
  then show "timer_heap k \<noteq> NULL" using heap_treeD(1) [OF T(1)] T(2) by metis
  show "\<forall>x\<in>W. time_to_expire (timers k (timer_heap k)) \<le> time_to_expire (timers k x)"
    using root_least [OF T(1,3)] T(2) root by metis
qed

lemma timers_empty: "timers_ok q k {} \<Longrightarrow> timer_heap k = NULL"
  by (auto simp: timers_ok_def pq_rep_def heap_shape_def heap_tree_def timer_store_def)

lemma queue_ok_subset: "queue_ok q S \<Longrightarrow> T \<subseteq> S \<Longrightarrow> queue_ok q T"
  by (auto simp: queue_ok_def)

lemma register_timer_spec:
  assumes ok: "timers_ok q k S" and t: "t \<notin> S" "t \<noteq> NULL" "trees k t = free_node" "timer_callback (timers k t) \<noteq> 0"
    and q: "queue_ok q {t}"
  shows "\<exists>H. register_timer q t k = Some (put_timer_store H (set_timer_state t timer_state_scheduled k)) \<and>
    timers_ok q (put_timer_store H (set_timer_state t timer_state_scheduled k)) (insert t S) \<and>
    (\<forall>y. y \<notin> insert t S \<longrightarrow> y \<noteq> NULL \<longrightarrow> hnodes H y = trees k y) \<and>
    (\<forall>b. b \<noteq> q \<longrightarrow> b \<notin> node_list ` S \<longrightarrow> hcells H b = lists k b)"
proof -
  let ?k = "set_timer_state t timer_state_scheduled k"
  have "pq_rep (\<lambda>x. time_to_expire (timers ?k x)) (timer_store k) S" using ok by (simp add: timers_ok_def)
  moreover have "hnodes (timer_store k) t = free_node" using t(3) by (simp add: timer_store_def)
  ultimately obtain H where H: "attach_heap_node (timer_compare (timers ?k)) q (timer_store k) t = Some H"
    "pq_rep (\<lambda>x. time_to_expire (timers ?k x)) H (insert t S)"
    "\<forall>y. y \<notin> insert t S \<longrightarrow> y \<noteq> NULL \<longrightarrow> hnodes H y = trees k y"
    "\<forall>b. b \<noteq> q \<longrightarrow> b \<notin> node_list ` S \<longrightarrow> hcells H b = lists k b"
    using timer_order.attach_heap_node_spec [of "timers ?k" "timer_store k" S t q] ok t
    by (auto simp: timers_ok_def timer_store_def)
  have "register_timer q t k = Some (put_timer_store H ?k)"
    using H(1) t(3) by (simp add: register_timer_def Let_def)
  moreover have "timers_ok q (put_timer_store H ?k) (insert t S)"
    using H(2) ok t(4) q by (auto simp: timers_ok_def queue_ok_def)
  ultimately show ?thesis using H(3,4) by blast
qed

lemma cancel_timer_spec:
  assumes ok: "timers_ok q k S" and t: "t \<in> S"
  shows "\<exists>H. cancel_timer q t k = Some (set_timer_state t timer_state_idle (put_timer_store H k)) \<and>
    heap_shape H (S - {t}) \<and> hnodes H t = free_node \<and>
    ((parent (trees k t) \<noteq> NULL \<longrightarrow>
        (\<forall>y\<in>S. time_to_expire (timers k (parent (trees k t))) \<le> time_to_expire (timers k y))) \<longrightarrow>
      timers_ok q (set_timer_state t timer_state_idle (put_timer_store H k)) (S - {t}))"
proof -
  let ?key = "\<lambda>x. time_to_expire (timers k x)"
  have rep: "pq_rep ?key (timer_store k) S" "heap_shape (timer_store k) S" "queue_ok q S"
    using ok by (auto simp: timers_ok_def pq_rep_def)
  obtain H where H: "delete_heap_node (timer_compare (timers k)) q (timer_store k) t = Some H"
    "heap_shape H (S - {t})" "hnodes H t = free_node"
    "(parent (trees k t) \<noteq> NULL \<longrightarrow> (\<forall>y\<in>S. ?key (parent (trees k t)) \<le> ?key y)) \<longrightarrow> pq_rep ?key H (S - {t})"
    using timer_order.delete_heap_node_spec [OF rep(2) t rep(3), of "timers k"] rep(1)
    by (auto simp: timer_store_def)
  have "trees (set_timer_state t timer_state_idle (put_timer_store H k)) = hnodes H"
    by (simp add: set_timer_state_def put_timer_store_def)
  then have "cancel_timer q t k = Some (set_timer_state t timer_state_idle (put_timer_store H k))"
    using H(1,3) by (simp add: cancel_timer_def Let_def)
  then show ?thesis using H(2-4) ok by (auto simp: timers_ok_def intro: queue_ok_subset)
qed


subsection \<open>Expiry\<close>

text \<open>
  What the clock relies on: called for a timer of \<open>S\<close>, a callback returns and leaves the timers
  and the clock alone. \<open>R ts k\<close> is what the client wants to say of the kernel after the callbacks of
  the timers \<open>ts\<close>, in that order.
\<close>

locale timer_callbacks =
  fixes code :: callbacks
    and R :: "addr list \<Rightarrow> kernel \<Rightarrow> bool"
    and S :: "addr set"
  assumes fire: "R ts k \<Longrightarrow> t \<in> S \<Longrightarrow>
      \<exists>k'. code (timer_callback (timers k t)) t (timer_priv (timers k t)) k = Some k' \<and> R (ts @ [t]) k' \<and>
        timers k' = timers k \<and> jiffies k' = jiffies k \<and> timer_store k' = timer_store k"
    and store: "R ts k \<Longrightarrow> R ts (put_timer_store H k)"
begin

lemma schedule_timer_step:
  assumes ok: "timers_ok q k W" and W: "W \<subseteq> S" "W \<noteq> {}" and R: "R ts k"
    and due: "time_to_expire (timers k (timer_heap k)) \<le> jiffies k"
  shows "\<exists>k'. schedule_timer code q k = schedule_timer code q k' \<and> timer_heap k \<in> W \<and>
    (\<forall>x\<in>W. time_to_expire (timers k (timer_heap k)) \<le> time_to_expire (timers k x)) \<and>
    timers_ok q k' (W - {timer_heap k}) \<and> R (ts @ [timer_heap k]) k' \<and> timers k' = timers k \<and> jiffies k' = jiffies k"
proof -
  let ?t = "timer_heap k"
  obtain H where H: "detach_heap_node (timer_compare (timers k)) q (timer_store k) = Some (?t, H)" "?t \<in> W"
    "\<forall>x\<in>W. time_to_expire (timers k ?t) \<le> time_to_expire (timers k x)"
    "pq_rep (\<lambda>x. time_to_expire (timers k x)) H (W - {?t})"
    using timer_order.detach_heap_node_spec [of "timers k" "timer_store k" W q] ok W(2)
    by (auto simp: timers_ok_def timer_store_def)
  obtain k' where k': "code (timer_callback (timers k ?t)) ?t (timer_priv (timers k ?t)) (put_timer_store H k) = Some k'"
    "R (ts @ [?t]) k'" "timers k' = timers k" "jiffies k' = jiffies k" "timer_store k' = H"
    using fire [OF store [OF R, of H], of ?t] H(2) W(1) by auto
  have "?t \<noteq> NULL" using timers_root(2) [OF ok W(2)] .
  then have "schedule_timer code q k = schedule_timer code q k'"
    using H(1,2) k'(1) ok due by (subst schedule_timer.simps) (auto simp: timers_ok_def)
  moreover have "timers_ok q k' (W - {?t})"
    using H(4) k'(3,5) ok by (auto simp: timers_ok_def intro: queue_ok_subset)
  ultimately show ?thesis using H(2,3) k' by blast
qed

lemma schedule_timer_stop:
  assumes ok: "timers_ok q k W" and late: "\<forall>x\<in>W. jiffies k < time_to_expire (timers k x)"
  shows "schedule_timer code q k = Some k"
proof (cases "W = {}")
  case True
  then show ?thesis using ok timers_empty by (subst schedule_timer.simps) simp
next
  case False
  then show ?thesis
    using ok late timers_root [OF ok] by (subst schedule_timer.simps) (auto simp: timers_ok_def)
qed

lemma schedule_timer_spec:
  assumes "timers_ok q k W" "W \<subseteq> S" "R ts k"
  shows "\<exists>ds k'. schedule_timer code q k = Some k' \<and> R (ts @ ds) k' \<and> distinct ds \<and>
    set ds = {x \<in> W. time_to_expire (timers k x) \<le> jiffies k} \<and>
    sorted (map (\<lambda>x. time_to_expire (timers k x)) ds) \<and>
    timers_ok q k' (W - set ds) \<and> timers k' = timers k \<and> jiffies k' = jiffies k"
  using assms
proof (induction "card W" arbitrary: k W ts rule: less_induct)
  case less
  let ?due = "\<lambda>x. time_to_expire (timers k x) \<le> jiffies k"
  show ?case
  proof (cases "\<exists>x\<in>W. ?due x")
    case False
    then have "schedule_timer code q k = Some k"
      using schedule_timer_stop [OF less.prems(1)] by (simp add: not_le)
    then show ?thesis using less.prems False by (intro exI [of _ "[]"]) auto
  next
    case True
    let ?t = "timer_heap k"
    have t: "?t \<in> W" "\<forall>x\<in>W. time_to_expire (timers k ?t) \<le> time_to_expire (timers k x)"
      using timers_root [OF less.prems(1)] True by auto
    then have due: "?due ?t" using True by force
    obtain k1 where k1: "schedule_timer code q k = schedule_timer code q k1"
      "timers_ok q k1 (W - {?t})" "R (ts @ [?t]) k1" "timers k1 = timers k" "jiffies k1 = jiffies k"
      using schedule_timer_step [OF less.prems(1,2) _ less.prems(3) due] t by blast
    have "card (W - {?t}) < card W" using t timers_finite [OF less.prems(1)] by (intro card_Diff1_less)
    moreover have "W - {?t} \<subseteq> S" using less.prems(2) by auto
    ultimately obtain ds k' where ds: "schedule_timer code q k1 = Some k'" "R ((ts @ [?t]) @ ds) k'" "distinct ds"
      "set ds = {x \<in> W - {?t}. ?due x}" "sorted (map (\<lambda>x. time_to_expire (timers k x)) ds)"
      "timers_ok q k' (W - {?t} - set ds)" "timers k' = timers k" "jiffies k' = jiffies k"
      using less.hyps [OF _ k1(2) _ k1(3), unfolded k1(4,5)] by blast
    have "set (?t # ds) = {x \<in> W. ?due x}" using ds(4) due t by auto
    moreover have "W - {?t} - set ds = W - set (?t # ds)" by auto
    ultimately show ?thesis
      using ds k1(1) t by (intro exI [of _ "?t # ds"] exI [of _ k']) auto
  qed
qed

end


subsection \<open>Sleepers\<close>

definition sleepable :: "task \<Rightarrow> bool" where
  "sleepable t = (case state t of
       TASK_STATE_RUNNING \<Rightarrow> True
     | TASK_STATE_INTERRUPTIBLE \<Rightarrow> True
     | TASK_STATE_UNINTERRUPTIBLE \<Rightarrow>
         non_stop_state t = TASK_STATE_RUNNING \<or> non_stop_state t = TASK_STATE_INTERRUPTIBLE
     | _ \<Rightarrow> False)"

text \<open>A task that was stopped while it slept stays stopped, but will run once it is continued.\<close>

definition awake :: "task \<Rightarrow> task" where
  "awake t = (case state t of
       TASK_STATE_INTERRUPTIBLE \<Rightarrow> t\<lparr>state := TASK_STATE_RUNNING\<rparr>
     | TASK_STATE_UNINTERRUPTIBLE \<Rightarrow> t\<lparr>non_stop_state := TASK_STATE_RUNNING\<rparr>
     | _ \<Rightarrow> t)"

lemma wake_sleeper_spec:
  "sleepable (tasks k p) \<Longrightarrow> raw_task_wake_up p k = Some (upd_task p awake k)"
  by (auto simp: raw_task_wake_up_def sleepable_def transit_state_def task_state_transition_init_def
    upd_task_def awake_def Let_def split: task_state.splits)

lemma sleepable_awake: "sleepable t \<Longrightarrow> sleepable (awake t) \<and> awake (awake t) = awake t"
  by (auto simp: sleepable_def awake_def split: task_state.splits)

definition woken :: "u32 \<Rightarrow> kernel \<Rightarrow> addr set \<Rightarrow> addr list \<Rightarrow> kernel \<Rightarrow> bool" where
  "woken cb k0 S ts k \<longleftrightarrow>
     (\<forall>t\<in>S. timer_callback (timers k0 t) = cb \<and> sleepable (tasks k0 (timer_priv (timers k0 t)))) \<and>
     timers k = timers k0 \<and>
     tasks k = (\<lambda>p. if p \<in> (\<lambda>t. timer_priv (timers k0 t)) ` set ts then awake (tasks k0 p) else tasks k0 p)"

interpretation sleepers: timer_callbacks "sleep_code cb" "woken cb k0 S" S for cb k0 S
proof
  fix ts k t
  assume R: "woken cb k0 S ts k" and t: "t \<in> S"
  let ?p = "timer_priv (timers k t)"
  have cb: "timer_callback (timers k t) = cb" and s: "sleepable (tasks k0 ?p)"
    using R t by (auto simp: woken_def)
  then have "sleepable (tasks k ?p)" using R sleepable_awake by (simp add: woken_def)
  then have "sleep_code cb (timer_callback (timers k t)) t ?p k = Some (upd_task ?p awake k)"
    by (simp add: sleep_code_def sleep_callback_def cb wake_sleeper_spec)
  moreover have "woken cb k0 S (ts @ [t]) (upd_task ?p awake k)"
    using R sleepable_awake [OF s] by (auto simp: woken_def fun_eq_iff)
  ultimately show "\<exists>k'. sleep_code cb (timer_callback (timers k t)) t ?p k = Some k' \<and>
      woken cb k0 S (ts @ [t]) k' \<and> timers k' = timers k \<and> jiffies k' = jiffies k \<and> timer_store k' = timer_store k"
    by (simp add: timer_store_def)
qed (simp add: woken_def)

text \<open>C32. When the clock looks at its timers, the loop ends: every timer that is due is taken off
  the heap and its callback called, in the order of expiry. Each sleeping task whose time has come is
  woken (or marked to run when it is stopped), no other task changes, and exactly the timers that
  are not due stay, in a heap whose invariant holds.\<close>

theorem schedule_timer_correct:
  assumes "timers_ok q k S"
    and "\<And>t. t \<in> S \<Longrightarrow> timer_callback (timers k t) = cb \<and> sleepable (tasks k (timer_priv (timers k t)))"
  shows "\<exists>k'. schedule_timer (sleep_code cb) q k = Some k' \<and>
    timers_ok q k' {t \<in> S. jiffies k < time_to_expire (timers k t)} \<and> timers k' = timers k \<and> jiffies k' = jiffies k \<and>
    (\<forall>p. tasks k' p =
      (if \<exists>t\<in>S. timer_priv (timers k t) = p \<and> time_to_expire (timers k t) \<le> jiffies k
       then awake (tasks k p) else tasks k p))"
proof -
  have "woken cb k S [] k" using assms(2) by (simp add: woken_def)
  from sleepers.schedule_timer_spec [OF assms(1) order_refl this]
  obtain ds k' where *: "schedule_timer (sleep_code cb) q k = Some k'" "woken cb k S ds k'"
    "set ds = {x \<in> S. time_to_expire (timers k x) \<le> jiffies k}" "timers_ok q k' (S - set ds)"
    "timers k' = timers k" "jiffies k' = jiffies k" unfolding append_Nil by blast
  have "S - set ds = {t \<in> S. jiffies k < time_to_expire (timers k t)}" 
    unfolding *(3) by (auto simp flip: linorder_not_le)
  moreover have "(\<exists>t\<in>S. timer_priv (timers k t) = p \<and> time_to_expire (timers k t) \<le> jiffies k) \<longleftrightarrow>
      p \<in> (\<lambda>t. timer_priv (timers k t)) ` set ds" for p using *(3) by auto
  moreover have "tasks k' = (\<lambda>p. if p \<in> (\<lambda>t. timer_priv (timers k t)) ` set ds then awake (tasks k p) else tasks k p)"
    using *(2) by (simp add: woken_def)
  ultimately show ?thesis using *(1,4-6) by (intro exI [of _ k']) simp
qed


definition timer_demo :: kernel where
  "timer_demo = demo_kernel\<lparr>timer_heap := 0x3000, jiffies := 5,
     timers := (\<lambda>_. \<lparr>timer_state_of = timer_state_scheduled, time_to_expire = 5, timer_callback = 0x77, timer_priv = 1000\<rparr>),
     tasks := (\<lambda>_. demo_task\<lparr>state := TASK_STATE_INTERRUPTIBLE\<rparr>)\<rparr>"

lemma timer_demo_ok: "timers_ok 0x10 timer_demo {0x3000}"
proof -
  have "heap_tree (timer_store timer_demo) (Node Leaf 0x3000 Leaf)"
    by (simp add: heap_tree_def timer_store_def timer_demo_def demo_kernel_def)
  then have "heap_shape (timer_store timer_demo) {0x3000}"
    by (auto simp: heap_shape_def intro!: exI [of _ "Node Leaf 0x3000 Leaf"])
  then show ?thesis
    by (simp add: timers_ok_def pq_rep_def queue_ok_def node_list_def heap_at_def timer_store_def
      timer_demo_def demo_kernel_def)
qed

theorem schedule_timer_correct_witness:
  "\<exists>k'. schedule_timer (sleep_code 0x77) 0x10 timer_demo = Some k' \<and> state (tasks k' 1000) = TASK_STATE_RUNNING"
proof -
  have "timer_callback (timers timer_demo t) = 0x77 \<and> sleepable (tasks timer_demo (timer_priv (timers timer_demo t)))" for t
    by (simp add: timer_demo_def sleepable_def)
  then show ?thesis
    using schedule_timer_correct [OF timer_demo_ok, of "0x77"] by (auto simp: timer_demo_def awake_def)
qed

subsection \<open>Cancelling\<close>

text \<open>
  \<^verbatim>\<open>delete_heap_node\<close> fills the gap with the last node and moves it only towards the leaves. In the heap
  below the last node expires at 4; it takes the place of a node under one that expires at 10.
\<close>

definition cancel_nodes :: theap where
  "cancel_nodes x = (if x = 0x1000 then \<lparr>parent = 0, left = 0x1100, right = 0x1200\<rparr>
     else if x = 0x1100 then \<lparr>parent = 0x1000, left = 0x1300, right = 0x1400\<rparr>
     else if x = 0x1200 then \<lparr>parent = 0x1000, left = 0x1500, right = 0\<rparr>
     else if x = 0x1300 \<or> x = 0x1400 then \<lparr>parent = 0x1100, left = 0, right = 0\<rparr>
     else if x = 0x1500 then \<lparr>parent = 0x1200, left = 0, right = 0\<rparr> else free_node)"

definition cancel_timers :: "addr \<Rightarrow> timer_entry" where
  "cancel_timers x = \<lparr>timer_state_of = timer_state_scheduled,
     time_to_expire = (if x = 0x1000 then 1 else if x = 0x1100 then 10 else if x = 0x1200 then 2
       else if x = 0x1500 then 4 else 20), timer_callback = 0x77, timer_priv = 1000\<rparr>"

definition cancel_store :: heap_store where
  "cancel_store = \<lparr>hroot = 0x1000, hnodes = cancel_nodes, hcells = (\<lambda>_. \<lparr>le_prev = 0, le_next = 0\<rparr>)\<rparr>"

definition cancel_demo :: kernel where
  "cancel_demo = put_timer_store cancel_store (demo_kernel\<lparr>timers := cancel_timers\<rparr>)"

definition cancel_set :: "addr set" where
  "cancel_set = {0x1000, 0x1100, 0x1200, 0x1300, 0x1400, 0x1500}"

lemma cancel_demo_ok: "timers_ok 0x10 cancel_demo cancel_set"
proof -
  let ?leaf = "\<lambda>a. Node Leaf a Leaf"
  let ?T = "Node (Node (?leaf 0x1300) 0x1100 (?leaf 0x1400)) 0x1000 (Node (?leaf 0x1500) 0x1200 Leaf) :: addr tree"
  have "heap_tree (timer_store cancel_demo) ?T"
    by (simp add: heap_tree_def cancel_demo_def cancel_store_def cancel_nodes_def)
  then have "heap_shape (timer_store cancel_demo) cancel_set"
    unfolding heap_shape_def by (intro exI [of _ ?T]) (auto simp: cancel_set_def)
  then show ?thesis
    by (simp add: timers_ok_def pq_rep_def queue_ok_def node_list_def heap_at_def cancel_set_def
      cancel_demo_def cancel_store_def cancel_nodes_def cancel_timers_def)
qed

lemma cancel_run: "(case delete_heap_node (timer_compare cancel_timers) 0x10 cancel_store 0x1300 of
    None \<Rightarrow> False | Some H \<Rightarrow> hnodes H 0x1300 = free_node \<and> parent (hnodes H 0x1500) = 0x1100)"
  by code_simp

text \<open>
  Cancelling a timer can break the order of the heap: here every timer was in order, and afterwards
  the one at \<open>0x1500\<close> is due before its parent, so the clock will call it too late.
\<close>

theorem cancel_timer_breaks_order:
  "timers_ok 0x10 cancel_demo cancel_set \<and>
   (\<exists>k'. cancel_timer 0x10 0x1300 cancel_demo = Some k' \<and> parent (trees k' 0x1500) = 0x1100 \<and>
      time_to_expire (timers k' 0x1500) < time_to_expire (timers k' (parent (trees k' 0x1500))))"
proof -
  obtain H where H: "delete_heap_node (timer_compare cancel_timers) 0x10 cancel_store 0x1300 = Some H"
    "hnodes H 0x1300 = free_node" "parent (hnodes H 0x1500) = 0x1100"
    using cancel_run by (auto split: option.splits)
  have st: "timer_store cancel_demo = cancel_store" "timers cancel_demo = cancel_timers"
    by (simp_all add: cancel_demo_def)
  have "cancel_timer 0x10 0x1300 cancel_demo =
      Some (set_timer_state 0x1300 timer_state_idle (put_timer_store H cancel_demo))"
    using H st by (simp add: cancel_timer_def Let_def) (simp add: set_timer_state_def put_timer_store_def)
  then show ?thesis
    using H cancel_demo_ok
    by (simp add: set_timer_state_def put_timer_store_def cancel_demo_def cancel_timers_def)
qed

end
