(* ===== verification/Memfs_Block.thy ===== *)
theory Memfs_Block
  imports Scheduler C_String
begin

section \<open>Files in memory (\<^verbatim>\<open>filesystem/memfs_blocking.c\<close>)\<close>

text \<open>
  The contents of a file of the memory file system is a list of blocks of one page. A block starts
  with its list cell, so a block and its cell have the same address. The list head is the first
  member of the \<^verbatim>\<open>mem_block_hdr\<close> of the file, whose \<^verbatim>\<open>nr_used\<close> holds the size of the file.

  A buffer of the caller is the list of its bytes; a function that fills a buffer returns it.
  Signed variables are \<open>int\<close>, except those that the code compares with unsigned ones, which are
  words read with \<open>sint\<close> where the code reads them as signed.
\<close>

abbreviation (input) MEM_BLOCK_SIZE :: int where "MEM_BLOCK_SIZE \<equiv> 4096"
abbreviation (input) MEM_BLOCK_ALIGN :: int where "MEM_BLOCK_ALIGN \<equiv> 4096"
abbreviation (input) BLOCK_AVAIL_SIZE :: u32 where "BLOCK_AVAIL_SIZE \<equiv> 4084"

subsection \<open>Blocks\<close>

definition kmalloc_align :: "int \<Rightarrow> int \<Rightarrow> kernel \<Rightarrow> (addr \<times> kernel) option" where
  "kmalloc_align len align k = do {
     (a, s) \<leftarrow> malloc_align (recycle_bins k) len align (kheap k);
     Some (a, k\<lparr>kheap := s\<rparr>) }"

definition upd_block :: "addr \<Rightarrow> (mem_block_hdr \<Rightarrow> mem_block_hdr) \<Rightarrow> kernel \<Rightarrow> kernel" where
  "upd_block b f k = k\<lparr>mem_blocks := (mem_blocks k)(b := f (mem_blocks k b))\<rparr>"

definition get_mem_block :: "kernel \<Rightarrow> (addr \<times> kernel) option" where
  "get_mem_block k = do {
     (hdr, k) \<leftarrow> kmalloc_align MEM_BLOCK_SIZE MEM_BLOCK_ALIGN k;
     if hdr \<noteq> NULL
     then Some (hdr, upd_block hdr (\<lambda>b. b\<lparr>nr_used := 0\<rparr>) (k\<lparr>lists := (lists k)(hdr := zero_cell)\<rparr>))
     else Some (hdr, k)
   }"

definition put_mem_block :: "addr \<Rightarrow> kernel \<Rightarrow> kernel option" where
  "put_mem_block hdr k = do {
     kassert (le_next (lists k hdr) = NULL);
     kassert (le_prev (lists k hdr) = NULL);
     kfree hdr k
   }"

text \<open>A new block at the end of the list; null when there is no memory.\<close>

definition append_block :: "addr \<Rightarrow> kernel \<Rightarrow> (addr \<times> kernel) option" where
  "append_block hdr k = do {
     (b, k) \<leftarrow> get_mem_block k;
     if b = NULL then Some (NULL, k)
     else do {
       h \<leftarrow> list_append (lists k) hdr b;
       Some (b, k\<lparr>lists := h\<rparr>)
     }
   }"

text \<open>\<^verbatim>\<open>memcpy\<close> between two byte arrays at the given offsets.\<close>

definition memcpy_at :: "u8 list \<Rightarrow> int \<Rightarrow> u8 list \<Rightarrow> int \<Rightarrow> int \<Rightarrow> u8 list option" where
  "memcpy_at dst doff src soff len =
     (if 0 \<le> doff \<and> doff \<le> int (length dst) \<and> 0 \<le> soff \<and> soff \<le> int (length src)
      then do {
        t \<leftarrow> memcpy (drop (nat doff) dst) (drop (nat soff) src) len;
        Some (take (nat doff) dst @ t)
      }
      else None)"

definition fill_block :: "addr \<Rightarrow> u32 \<Rightarrow> u8 list \<Rightarrow> int \<Rightarrow> int \<Rightarrow> kernel \<Rightarrow> kernel option" where
  "fill_block b iptr buffer off len k = do {
     c \<leftarrow> memcpy_at (blk_content (mem_blocks k b)) (uint iptr) buffer off len;
     Some (upd_block b (\<lambda>x. x\<lparr>blk_content := c\<rparr>) k)
   }"

subsection \<open>Appending\<close>

partial_function (option) write_sequential_loop ::
    "addr \<Rightarrow> u8 list \<Rightarrow> int \<Rightarrow> int \<Rightarrow> kernel \<Rightarrow> (int \<times> kernel) option" where
  "write_sequential_loop hdr buffer remain result k =
     (if remain > 0
      then do {
        (b, k) \<leftarrow> (if list_last_elem (lists k) hdr = NULL then append_block hdr k
                  else Some (list_last_elem (lists k) hdr, k));
        if b = NULL then Some (result, k)
        else do {
          let n = sint (BLOCK_AVAIL_SIZE - nr_used (mem_blocks k b));
          kassert (n \<ge> 0);
          (b, k) \<leftarrow> (if n = 0 then append_block hdr k else Some (b, k));
          if b = NULL then Some (result, k)
          else do {
            let n = sint (BLOCK_AVAIL_SIZE - nr_used (mem_blocks k b));
            kassert (n > 0);
            let n = min n remain;
            k \<leftarrow> fill_block b (nr_used (mem_blocks k b)) buffer result n k;
            let k = upd_block b (\<lambda>x. x\<lparr>nr_used := nr_used x + of_int n\<rparr>) k;
            kassert (nr_used (mem_blocks k b) \<le> BLOCK_AVAIL_SIZE);
            write_sequential_loop hdr buffer (remain - n) (result + n) k
          }
        }
      }
      else Some (result, k))"

definition mem_block_raw_write_sequential ::
    "addr \<Rightarrow> u8 list \<Rightarrow> int \<Rightarrow> kernel \<Rightarrow> (int \<times> kernel) option" where
  "mem_block_raw_write_sequential hdr buffer len k = do {
     kassert (len \<ge> 0);
     if len = 0 then Some (0, k)
     else write_sequential_loop hdr buffer len 0 k
   }"

subsection \<open>Writing at an offset\<close>

text \<open>
  The loop that skips \<^verbatim>\<open>offset_left\<close> bytes, \<open>room b\<close> of them in the block \<open>b\<close>: the bytes used when writing,
  the whole block when truncating. It gives what is remain to skip, the position in the current
  block, and that block.
\<close>

partial_function (option) skip_blocks ::
    "(addr \<Rightarrow> u32) \<Rightarrow> lheap \<Rightarrow> addr \<Rightarrow> u32 \<Rightarrow> u32 \<Rightarrow> (u32 \<times> u32 \<times> addr) option" where
  "skip_blocks room h e offset_left block_iptr =
     (if e = NULL then Some (offset_left, block_iptr, NULL)
      else do {
        let ignored = (if offset_left \<noteq> 0 then min offset_left (room e) else 0);
        let offset_left = offset_left - ignored;
        if offset_left = 0 then Some (0, ignored, e)
        else skip_blocks room h (le_next (h e)) offset_left ignored
      })"

text \<open>The loop that appends blocks until the offset is reached. It stops when there is no memory.\<close>

partial_function (option) extend_blocks ::
    "addr \<Rightarrow> u32 \<Rightarrow> u32 \<Rightarrow> addr \<Rightarrow> kernel \<Rightarrow> (u32 \<times> u32 \<times> addr \<times> kernel) option" where
  "extend_blocks hdr offset_left block_iptr current_block k =
     (if sint offset_left > 0
      then do {
        (b, k) \<leftarrow> get_mem_block k;
        if b = NULL then Some (offset_left, block_iptr, current_block, k)
        else do {
          let ignored = min BLOCK_AVAIL_SIZE offset_left;
          let k = upd_block b (\<lambda>x. x\<lparr>nr_used := ignored\<rparr>) k;
          let offset_left = offset_left - ignored;
          h \<leftarrow> list_append (lists k) hdr b;
          let k = k\<lparr>lists := h\<rparr>;
          if offset_left = 0 then Some (0, ignored, b, k)
          else extend_blocks hdr offset_left block_iptr current_block k
        }
      }
      else Some (offset_left, block_iptr, current_block, k))"

partial_function (option) write_random_loop ::
    "addr \<Rightarrow> u8 list \<Rightarrow> int \<Rightarrow> int \<Rightarrow> u32 \<Rightarrow> addr \<Rightarrow> kernel \<Rightarrow> (int \<times> kernel) option" where
  "write_random_loop hdr buffer remain result block_iptr b k =
     (if remain > 0
      then if b \<noteq> NULL
        then do {
          let n = min (sint (BLOCK_AVAIL_SIZE - block_iptr)) remain;
          k \<leftarrow> fill_block b block_iptr buffer result n k;
          let remain = remain - n;
          let result = result + n;
          let k = (if nr_used (mem_blocks k b) < block_iptr + of_int n
                   then upd_block b (\<lambda>x. x\<lparr>nr_used := block_iptr + of_int n\<rparr>) k else k);
          if remain = 0 then Some (result, k)
          else write_random_loop hdr buffer remain result 0 (le_next (lists k b)) k
        }
        else do {
          (b, k) \<leftarrow> get_mem_block k;
          if b = NULL then Some (result, k)
          else do {
            let k = upd_block b (\<lambda>x. x\<lparr>nr_used := 0\<rparr>) k;
            h \<leftarrow> list_append (lists k) hdr b;
            write_random_loop hdr buffer remain result 0 b (k\<lparr>lists := h\<rparr>)
          }
        }
      else Some (result, k))"

definition mem_block_raw_write_random ::
    "addr \<Rightarrow> u32 \<Rightarrow> u8 list \<Rightarrow> int \<Rightarrow> kernel \<Rightarrow> (int \<times> kernel) option" where
  "mem_block_raw_write_random hdr offset buffer len k = do {
     (offset_left, block_iptr, current_block) \<leftarrow>
       skip_blocks (\<lambda>b. nr_used (mem_blocks k b)) (lists k) (list_first_elem (lists k) hdr) offset 0;
     (offset_left, block_iptr, current_block, k) \<leftarrow> extend_blocks hdr offset_left block_iptr current_block k;
     if offset_left \<noteq> 0 then Some (0, k)
     else write_random_loop hdr buffer len 0 block_iptr current_block k
   }"

subsection \<open>Reading\<close>

text \<open>
  Here all the counters are signed: an offset of \<open>2 ^ 31\<close> or more is negative, and the copy starts in
  front of the contents of the first block.
\<close>

partial_function (option) read_loop ::
    "kernel \<Rightarrow> addr \<Rightarrow> int \<Rightarrow> int \<Rightarrow> int \<Rightarrow> u8 list \<Rightarrow> (int \<times> u8 list) option" where
  "read_loop k e offset_left remain result buffer =
     (if e = NULL then Some (result, buffer)
      else do {
        kassert (remain \<ge> 0);
        if remain = 0 then Some (result, buffer)
        else do {
          let block_left = sint (nr_used (mem_blocks k e));
          let ignored = (if offset_left \<noteq> 0 then min block_left offset_left else 0);
          let block_left = s32 (block_left - ignored);
          let offset_left = s32 (offset_left - ignored);
          if block_left = 0 then read_loop k (le_next (lists k e)) offset_left remain result buffer
          else do {
            let n = min block_left remain;
            kassert (n \<noteq> 0);
            buffer \<leftarrow> memcpy_at buffer result (blk_content (mem_blocks k e)) ignored n;
            read_loop k (le_next (lists k e)) offset_left (remain - n) (result + n) buffer
          }
        }
      })"

definition mem_block_raw_read ::
    "addr \<Rightarrow> u32 \<Rightarrow> u8 list \<Rightarrow> int \<Rightarrow> kernel \<Rightarrow> (int \<times> u8 list) option" where
  "mem_block_raw_read hdr offset buffer len k =
     read_loop k (list_first_elem (lists k) hdr) (sint offset) len 0 buffer"

subsection \<open>Truncating\<close>

partial_function (option) shrink_loop :: "addr \<Rightarrow> addr \<Rightarrow> kernel \<Rightarrow> kernel option" where
  "shrink_loop hdr b k =
     (if b \<noteq> NULL
      then do {
        let next_block = le_next (lists k b);
        h \<leftarrow> list_delete (lists k) hdr b;
        k \<leftarrow> put_mem_block b (k\<lparr>lists := h\<rparr>);
        shrink_loop hdr next_block k
      }
      else Some k)"

definition mem_block_raw_truncate :: "addr \<Rightarrow> u32 \<Rightarrow> kernel \<Rightarrow> (int \<times> kernel) option" where
  "mem_block_raw_truncate hdr offset k = do {
     (offset_left, block_iptr, current_block) \<leftarrow>
       skip_blocks (\<lambda>_. BLOCK_AVAIL_SIZE) (lists k) (list_first_elem (lists k) hdr) offset 0;
     (offset_left, block_iptr, current_block, k) \<leftarrow> extend_blocks hdr offset_left block_iptr current_block k;
     if sint offset_left > 0 then Some (- ERR_OUT_OF_MEMORY, k)
     else do {
       let (current_block, k) =
         (if current_block \<noteq> NULL
          then (let k = upd_block current_block (\<lambda>x. x\<lparr>nr_used := block_iptr\<rparr>) k
                in (if nr_used (mem_blocks k current_block) \<noteq> 0 then le_next (lists k current_block) else current_block, k))
          else (current_block, k));
       k \<leftarrow> shrink_loop hdr current_block k;
       Some (OK, k)
     }
   }"

partial_function (option) mem_block_raw_reclaim :: "addr \<Rightarrow> kernel \<Rightarrow> kernel option" where
  "mem_block_raw_reclaim hdr k =
     (if list_empty (lists k) hdr then Some k
      else do {
        (b, h) \<leftarrow> list_fetch (lists k) hdr;
        k \<leftarrow> put_mem_block b (k\<lparr>lists := h\<rparr>);
        mem_block_raw_reclaim hdr k
      })"

end
