(* ===== verification/Memfs_Correct.thy ===== *)
theory Memfs_Correct
  imports Memfs_Block Task_Paging_Correct
begin

section \<open>The blocks of a file hold its bytes\<close>

text \<open>
  \<open>file_bytes\<close> is the abstraction: the used parts of the blocks, one after the other. The blocks of a
  file are live blocks of the kernel heap, so a block that the allocator hands out is none of
  them. \<open>packed\<close> says that only the last block has room.
\<close>

definition blk_bytes :: "kernel \<Rightarrow> addr \<Rightarrow> u8 list" where
  "blk_bytes k b = take (unat (nr_used (mem_blocks k b))) (blk_content (mem_blocks k b))"

definition file_bytes :: "kernel \<Rightarrow> addr list \<Rightarrow> u8 list" where
  "file_bytes k bs = concat (map (blk_bytes k) bs)"

definition file_ok :: "kernel \<Rightarrow> (nat \<times> nat) set \<Rightarrow> addr \<Rightarrow> addr list \<Rightarrow> bool" where
  "file_ok k R hdr bs \<longleftrightarrow> (\<exists>F. heap_rep (recycle_bins k) (kheap k) R F) \<and> dlist (lists k) hdr bs \<and>
     (\<forall>a. length (blk_content (mem_blocks k a)) = 4084) \<and> unat hdr \<in> fst ` R \<and>
     (\<forall>b\<in>set bs. unat b \<in> fst ` R \<and> nr_used (mem_blocks k b) \<le> BLOCK_AVAIL_SIZE)"

definition packed :: "kernel \<Rightarrow> addr list \<Rightarrow> bool" where
  "packed k bs \<longleftrightarrow> (\<forall>b\<in>set (butlast bs). nr_used (mem_blocks k b) = BLOCK_AVAIL_SIZE)"

text \<open>What the operations on one file leave alone: all but the heap, the cells and the blocks, and of
  these everything that belongs to other live objects.\<close>

definition same_rest :: "kernel \<Rightarrow> kernel \<Rightarrow> bool" where
  "same_rest k k' \<longleftrightarrow> (\<exists>h s m. k' = k\<lparr>lists := h, kheap := s, mem_blocks := m\<rparr>)"

definition blk_frame :: "kernel \<Rightarrow> kernel \<Rightarrow> (nat \<times> nat) set \<Rightarrow> addr \<Rightarrow> addr list \<Rightarrow> bool" where
  "blk_frame k k' R hdr bs \<longleftrightarrow> same_rest k k' \<and>
     (\<forall>a. unat a \<in> fst ` R \<longrightarrow> a \<notin> set bs \<longrightarrow> mem_blocks k' a = mem_blocks k a \<and> (a \<noteq> hdr \<longrightarrow> lists k' a = lists k a))"

definition no_memory :: "kernel \<Rightarrow> bool" where
  "no_memory k \<longleftrightarrow> get_mem_block k = Some (NULL, k)"

lemma upd_block_fields [simp]:
  "lists (upd_block b f k) = lists k" "kheap (upd_block b f k) = kheap k"
  "recycle_bins (upd_block b f k) = recycle_bins k"
  "mem_blocks (upd_block b f k) = (mem_blocks k)(b := f (mem_blocks k b))"
  by (simp_all add: upd_block_def)

lemma upd_block_same: "f (mem_blocks k b) = mem_blocks k b \<Longrightarrow> upd_block b f k = k"
  by (simp add: upd_block_def)

lemma same_rest_refl: "same_rest k k"
  unfolding same_rest_def by (intro exI [of _ "lists k"] exI [of _ "kheap k"] exI [of _ "mem_blocks k"]) simp

lemma same_rest_trans: "same_rest k k1 \<Longrightarrow> same_rest k1 k2 \<Longrightarrow> same_rest k k2"
  unfolding same_rest_def by (elim exE) (hypsubst, simp, blast)

lemma same_restI: "k' = k\<lparr>lists := h, kheap := s, mem_blocks := m\<rparr> \<Longrightarrow> same_rest k k'"
  unfolding same_rest_def by blast

lemma blk_frame_refl: "blk_frame k k R hdr bs"
  by (simp add: blk_frame_def same_rest_refl)

lemma blk_frame_trans:
  assumes "blk_frame k k1 R hdr bs" "blk_frame k1 k2 R1 hdr bs1" "R \<subseteq> R1"
    and "\<And>b. b \<in> set bs1 \<Longrightarrow> b \<in> set bs \<or> unat b \<notin> fst ` R"
  shows "blk_frame k k2 R hdr bs"
proof -
  have "mem_blocks k2 a = mem_blocks k a \<and> (a \<noteq> hdr \<longrightarrow> lists k2 a = lists k a)"
    if a: "unat a \<in> fst ` R" "a \<notin> set bs" for a
  proof -
    have "a \<notin> set bs1" "unat a \<in> fst ` R1" using assms(3,4) a by blast+
    then show ?thesis using assms(1,2) a by (simp add: blk_frame_def)
  qed
  then show ?thesis using assms(1,2) same_rest_trans unfolding blk_frame_def by blast
qed

lemma get_mem_block_spec:
  assumes rep: "heap_rep (recycle_bins k) (kheap k) R F"
  shows "get_mem_block k = Some (NULL, k) \<or>
    (\<exists>b e s F'. b \<noteq> NULL \<and> unat b \<notin> fst ` R \<and> heap_rep (recycle_bins k) s (insert (unat b, e) R) F' \<and>
      get_mem_block k = Some (b, upd_block b (\<lambda>x. x\<lparr>nr_used := 0\<rparr>) (k\<lparr>kheap := s, lists := (lists k)(b := zero_cell)\<rparr>)))"
proof -
  have al: "(2 :: int) ^ 12 = MEM_BLOCK_ALIGN" by simp
  obtain p s where p: "malloc_align (recycle_bins k) 4096 4096 (kheap k) = Some (p, s)" "p = NULL \<longrightarrow> s = kheap k"
    and ok: "p \<noteq> NULL \<longrightarrow> (\<exists>e F'. heap_rep (recycle_bins k) s (insert (unat p, e) R) F' \<and>
       unat p + 4096 \<le> e \<and> (\<forall>(p', e') \<in> R. e < p' \<or> e' < unat p))"
    using malloc_align_spec [OF rep, of 4096 12] by auto
  show ?thesis
  proof (cases "p = NULL")
    case True
    then show ?thesis using p by (simp add: get_mem_block_def kmalloc_align_def)
  next
    case False
    then obtain e F' where e: "heap_rep (recycle_bins k) s (insert (unat p, e) R) F'" "unat p + 4096 \<le> e"
      "\<forall>(p', e') \<in> R. e < p' \<or> e' < unat p" using ok by auto
    have "unat p \<notin> fst ` R"
    proof
      assume "unat p \<in> fst ` R"
      then obtain e' where "(unat p, e') \<in> R" by auto
      moreover from this have "unat p \<le> e'" using heap.rep_region [of "recycle_bins k" "kheap k" R] rep by blast
      ultimately show False using e(2,3) by fastforce
    qed
    then show ?thesis using False p e(1) by (auto simp: get_mem_block_def kmalloc_align_def)
  qed
qed

lemma append_new_block:
  assumes ok: "file_ok k R hdr bs" and b: "b \<noteq> NULL" "unat b \<notin> fst ` R"
    and rep: "heap_rep (recycle_bins k) s (insert (unat b, e) R) F'"
  shows "\<exists>h. list_append ((lists k)(b := zero_cell)) hdr b = Some h \<and> dlist h hdr (bs @ [b]) \<and>
    (\<forall>a. a \<noteq> hdr \<longrightarrow> a \<noteq> b \<longrightarrow> a \<notin> set bs \<longrightarrow> h a = lists k a) \<and> b \<notin> set bs \<and> b \<noteq> hdr"
proof -
  have fresh: "b \<notin> set bs" "b \<noteq> hdr" using ok b(2) by (auto simp: file_ok_def)
  have "dlist ((lists k)(b := zero_cell)) hdr bs"
    using ok fresh by (subst dlist_cong [of _ _ _ "lists k"]) (auto simp: file_ok_def)
  moreover have "detached ((lists k)(b := zero_cell)) b" using b by (simp add: detached_def zero_cell_def)
  ultimately show ?thesis
    using list_append_correct [of "(lists k)(b := zero_cell)" hdr bs b] fresh by fastforce
qed


text \<open>A new block with \<open>u\<close> bytes in use at the end of the file, and an update of one of its blocks.\<close>

lemma file_ok_append:
  assumes ok: "file_ok k R hdr bs" and b: "b \<noteq> NULL" "unat b \<notin> fst ` R"
    and rep: "heap_rep (recycle_bins k) s (insert (unat b, e) R) F'" and u: "u \<le> BLOCK_AVAIL_SIZE"
    and h: "dlist h hdr (bs @ [b])" "\<forall>a. a \<noteq> hdr \<longrightarrow> a \<noteq> b \<longrightarrow> a \<notin> set bs \<longrightarrow> h a = lists k a"
    and k': "k' = upd_block b (\<lambda>x. x\<lparr>nr_used := u\<rparr>) (k\<lparr>kheap := s, lists := h\<rparr>)"
  shows "file_ok k' (insert (unat b, e) R) hdr (bs @ [b])" "blk_frame k k' R hdr bs"
proof -
  have bs: "b \<notin> set bs" using ok b(2) by (auto simp: file_ok_def)
  show "file_ok k' (insert (unat b, e) R) hdr (bs @ [b])"
    using ok rep u h(1) bs unfolding file_ok_def k' by auto
  have "k' = k\<lparr>lists := h, kheap := s, mem_blocks := (mem_blocks k)(b := (mem_blocks k b)\<lparr>nr_used := u\<rparr>)\<rparr>"
    by (simp add: k' upd_block_def)
  then have "same_rest k k'" by (rule same_restI)
  moreover have "mem_blocks k' a = mem_blocks k a \<and> (a \<noteq> hdr \<longrightarrow> lists k' a = lists k a)"
    if "unat a \<in> fst ` R" "a \<notin> set bs" for a
    using that b(2) h(2) by (auto simp: k')
  ultimately show "blk_frame k k' R hdr bs" unfolding blk_frame_def by blast
qed

lemma append_block_spec:
  assumes ok: "file_ok k R hdr bs"
  shows "append_block hdr k = Some (NULL, k) \<and> no_memory k \<or>
    (\<exists>b e k'. append_block hdr k = Some (b, k') \<and> b \<noteq> NULL \<and> unat b \<notin> fst ` R \<and>
      file_ok k' (insert (unat b, e) R) hdr (bs @ [b]) \<and> blk_frame k k' R hdr bs \<and> nr_used (mem_blocks k' b) = 0 \<and>
      (\<forall>a. a \<noteq> b \<longrightarrow> mem_blocks k' a = mem_blocks k a))"
proof -
  obtain F where rep: "heap_rep (recycle_bins k) (kheap k) R F" using ok by (auto simp: file_ok_def)
  from get_mem_block_spec [OF rep] show ?thesis
  proof
    assume "get_mem_block k = Some (NULL, k)"
    then show ?thesis by (simp add: append_block_def no_memory_def)
  next
    assume "\<exists>b e s F'. b \<noteq> NULL \<and> unat b \<notin> fst ` R \<and> heap_rep (recycle_bins k) s (insert (unat b, e) R) F' \<and>
      get_mem_block k = Some (b, upd_block b (\<lambda>x. x\<lparr>nr_used := 0\<rparr>) (k\<lparr>kheap := s, lists := (lists k)(b := zero_cell)\<rparr>))"
    then obtain b e s F' where b: "b \<noteq> NULL" "unat b \<notin> fst ` R" "heap_rep (recycle_bins k) s (insert (unat b, e) R) F'"
      "get_mem_block k = Some (b, upd_block b (\<lambda>x. x\<lparr>nr_used := 0\<rparr>) (k\<lparr>kheap := s, lists := (lists k)(b := zero_cell)\<rparr>))"
      by blast
    obtain h where h: "list_append ((lists k)(b := zero_cell)) hdr b = Some h" "dlist h hdr (bs @ [b])"
      "\<forall>a. a \<noteq> hdr \<longrightarrow> a \<noteq> b \<longrightarrow> a \<notin> set bs \<longrightarrow> h a = lists k a"
      using append_new_block [OF ok b(1-3)] by blast
    define k' where "k' = upd_block b (\<lambda>x. x\<lparr>nr_used := 0\<rparr>) (k\<lparr>kheap := s, lists := h\<rparr>)"
    have "append_block hdr k = Some (b, k')"
      using b h by (simp add: append_block_def k'_def upd_block_def)
    moreover have "nr_used (mem_blocks k' b) = 0 \<and> (\<forall>a. a \<noteq> b \<longrightarrow> mem_blocks k' a = mem_blocks k a)"
      by (simp add: k'_def)
    ultimately show ?thesis
      using file_ok_append [OF ok b(1-3) _ h(2,3) k'_def] b(1,2) by auto
  qed
qed

lemma memcpy_at_eq:
  assumes "0 \<le> doff" "0 \<le> soff" "0 \<le> len" "doff + len \<le> int (length dst)" "soff + len \<le> int (length src)"
  shows "memcpy_at dst doff src soff len =
    Some (take (nat doff) dst @ take (nat len) (drop (nat soff) src) @ drop (nat (doff + len)) dst)"
proof -
  have "memcpy (drop (nat doff) dst) (drop (nat soff) src) len =
      Some (take (nat len) (drop (nat soff) src) @ drop (nat len) (drop (nat doff) dst))"
    using assms by (intro memcpy_eq) (auto simp: nat_le_iff of_nat_diff)
  moreover have "drop (nat len) (drop (nat doff) dst) = drop (nat (doff + len)) dst"
    using assms by (simp add: nat_add_distrib add.commute)
  ultimately show ?thesis using assms by (simp add: memcpy_at_def)
qed


lemma file_bytes_simps [simp]:
  "file_bytes k [] = []" "file_bytes k (b # bs) = blk_bytes k b @ file_bytes k bs"
  "file_bytes k (as @ bs) = file_bytes k as @ file_bytes k bs"
  by (simp_all add: file_bytes_def)

lemma file_bytes_cong: "(\<And>b. b \<in> set bs \<Longrightarrow> mem_blocks k' b = mem_blocks k b) \<Longrightarrow> file_bytes k' bs = file_bytes k bs"
  by (induction bs) (auto simp: blk_bytes_def)

lemma packed_cong: "(\<And>b. b \<in> set bs \<Longrightarrow> mem_blocks k' b = mem_blocks k b) \<Longrightarrow> packed k' bs = packed k bs"
  unfolding packed_def by (metis in_set_butlastD)

lemma length_blk_bytes:
  "file_ok k R hdr bs \<Longrightarrow> b \<in> set bs \<Longrightarrow> length (blk_bytes k b) = unat (nr_used (mem_blocks k b))"
  by (auto simp: blk_bytes_def file_ok_def word_le_nat_alt)

lemma modify_block:
  assumes ok: "file_ok k R hdr bs" and b: "b \<in> set bs" and c: "length c = 4084" and u: "u \<le> BLOCK_AVAIL_SIZE"
    and k': "k' = upd_block b (\<lambda>x. x\<lparr>blk_content := c, nr_used := u\<rparr>) k"
  shows "file_ok k' R hdr bs" "blk_frame k k' R hdr bs" "blk_bytes k' b = take (unat u) c"
proof -
  show "file_ok k' R hdr bs" using ok b c u unfolding file_ok_def k' by auto
  have "k' = k\<lparr>lists := lists k, kheap := kheap k,
      mem_blocks := (mem_blocks k)(b := (mem_blocks k b)\<lparr>blk_content := c, nr_used := u\<rparr>)\<rparr>"
    by (simp add: k' upd_block_def)
  then have "same_rest k k'" by (rule same_restI)
  then show "blk_frame k k' R hdr bs" using b by (auto simp: blk_frame_def k')
  show "blk_bytes k' b = take (unat u) c" by (simp add: k' blk_bytes_def)
qed

text \<open>One round of the copy: \<open>n\<close> bytes of the buffer from \<open>result\<close> on go to the block from \<open>iptr\<close> on.\<close>

lemma fill_block_spec:
  assumes ok: "file_ok k R hdr bs" and b: "b \<in> set bs" and i: "unat iptr + nat n \<le> 4084"
    and n: "0 \<le> n" "0 \<le> result" "result + n \<le> int (length buffer)"
  shows "fill_block b iptr buffer result n k = Some (upd_block b (\<lambda>x. x\<lparr>blk_content :=
      take (unat iptr) (blk_content (mem_blocks k b)) @ take (nat n) (drop (nat result) buffer) @
      drop (unat iptr + nat n) (blk_content (mem_blocks k b))\<rparr>) k)"
proof -
  have len: "length (blk_content (mem_blocks k b)) = 4084" using ok by (simp add: file_ok_def)
  have "uint iptr + n \<le> int (length (blk_content (mem_blocks k b)))"
    using i n(1) len uint_nat [of iptr] by linarith
  moreover have "nat (uint iptr + n) = unat iptr + nat n" using n(1) by (simp add: nat_add_distrib)
  ultimately show ?thesis
    using memcpy_at_eq [of "uint iptr" result n "blk_content (mem_blocks k b)" buffer] n
    by (simp add: fill_block_def)
qed


text \<open>The block after a round, with the bytes \<open>d\<close> in it from \<open>i\<close> on. Both write loops get there: the
  sequential one adds the length to \<^verbatim>\<open>nr_used\<close>, the random one raises it when it is exceeded.\<close>

definition overwrite :: "nat \<Rightarrow> 'a list \<Rightarrow> 'a list \<Rightarrow> 'a list" where
  "overwrite i d xs = take i xs @ d @ drop (i + length d) xs"

lemma length_overwrite: "i + length d \<le> length xs \<Longrightarrow> length (overwrite i d xs) = length xs"
  by (auto simp: overwrite_def)

lemma take_overwrite:
  "i \<le> u \<Longrightarrow> u \<le> length xs \<Longrightarrow> i + length d \<le> length xs \<Longrightarrow>
    take (max u (i + length d)) (overwrite i d xs) = overwrite i d (take u xs)"
  by (cases "u \<le> i + length d") (auto simp: overwrite_def max_absorb1 max_absorb2 min_absorb1 min_absorb2 drop_take)

definition put_bytes :: "addr \<Rightarrow> u32 \<Rightarrow> u8 list \<Rightarrow> kernel \<Rightarrow> kernel" where
  "put_bytes b i d k = upd_block b (\<lambda>x. x\<lparr>blk_content := overwrite (unat i) d (blk_content x),
     nr_used := max (nr_used x) (i + of_nat (length d))\<rparr>) k"

lemma fill_put:
  assumes ok: "file_ok k R hdr bs" and b: "b \<in> set bs" and i: "i \<le> nr_used (mem_blocks k b)" "unat i + nat n \<le> 4084"
    and n: "0 \<le> n" "0 \<le> result" "result + n \<le> int (length buffer)"
    and d: "d = take (nat n) (drop (nat result) buffer)"
  shows "\<exists>k1. fill_block b i buffer result n k = Some k1 \<and>
    (if nr_used (mem_blocks k1 b) < i + of_int n then upd_block b (\<lambda>x. x\<lparr>nr_used := i + of_int n\<rparr>) k1 else k1) = put_bytes b i d k \<and>
    (i = nr_used (mem_blocks k b) \<longrightarrow> upd_block b (\<lambda>x. x\<lparr>nr_used := nr_used x + of_int n\<rparr>) k1 = put_bytes b i d k)"
proof -
  have len: "length d = nat n" using n d by (auto simp: min_def nat_le_iff le_diff_conv)
  have of_n: "of_int n = (of_nat (nat n) :: u32)" using n by simp
  have "unat (of_nat (nat n) :: u32) = nat n" using i(2) by (intro unat_of_nat_id) simp
  then have le: "i \<le> i + of_nat (nat n)"
    using i(2) unat_add_lem [of i "of_nat (nat n)", THEN iffD1] by (simp add: word_le_nat_alt)
  let ?c = "overwrite (unat i) d (blk_content (mem_blocks k b))" and ?u = "nr_used (mem_blocks k b)"
  have fill: "fill_block b i buffer result n k = Some (upd_block b (\<lambda>x. x\<lparr>blk_content := ?c\<rparr>) k)"
    using fill_block_spec [OF ok b i(2) n] by (simp add: overwrite_def len flip: d)
  have put: "put_bytes b i d k = upd_block b (\<lambda>x. x\<lparr>nr_used := max ?u (i + of_nat (nat n))\<rparr>)
      (upd_block b (\<lambda>x. x\<lparr>blk_content := ?c\<rparr>) k)"
    by (simp add: put_bytes_def upd_block_def len)
  have same: "upd_block b (\<lambda>x. x\<lparr>nr_used := ?u\<rparr>) (upd_block b (\<lambda>x. x\<lparr>blk_content := ?c\<rparr>) k) =
      upd_block b (\<lambda>x. x\<lparr>blk_content := ?c\<rparr>) k"
    by (simp add: upd_block_def)
  show ?thesis
  proof (intro exI conjI impI)
    show "(if nr_used (mem_blocks (upd_block b (\<lambda>x. x\<lparr>blk_content := ?c\<rparr>) k) b) < i + of_int n
        then upd_block b (\<lambda>x. x\<lparr>nr_used := i + of_int n\<rparr>) (upd_block b (\<lambda>x. x\<lparr>blk_content := ?c\<rparr>) k)
        else upd_block b (\<lambda>x. x\<lparr>blk_content := ?c\<rparr>) k) = put_bytes b i d k"
      unfolding put of_n by (cases "?u < i + of_nat (nat n)") (simp_all add: max_absorb1 max_absorb2 same)
    show "upd_block b (\<lambda>x. x\<lparr>nr_used := nr_used x + of_int n\<rparr>) (upd_block b (\<lambda>x. x\<lparr>blk_content := ?c\<rparr>) k) =
        put_bytes b i d k" if "i = ?u"
      unfolding put of_n using le that by (simp add: upd_block_def max_absorb2)
  qed (rule fill)
qed

lemma put_bytes_spec:
  assumes ok: "file_ok k R hdr (xs @ b # ys)" and i: "i \<le> nr_used (mem_blocks k b)" "unat i + length d \<le> 4084"
  defines "k' \<equiv> put_bytes b i d k"
  shows "file_ok k' R hdr (xs @ b # ys)" "blk_frame k k' R hdr (xs @ b # ys)"
    "\<And>a. a \<noteq> b \<Longrightarrow> mem_blocks k' a = mem_blocks k a"
    "nr_used (mem_blocks k' b) = max (nr_used (mem_blocks k b)) (i + of_nat (length d))"
    "file_bytes k' (xs @ b # ys) = file_bytes k xs @ overwrite (unat i) d (blk_bytes k b) @ file_bytes k ys"
proof -
  let ?u = "nr_used (mem_blocks k b)" and ?c = "blk_content (mem_blocks k b)"
  have b: "b \<in> set (xs @ b # ys)" "b \<notin> set xs" "b \<notin> set ys" using ok by (auto simp: file_ok_def dlist_def)
  have len: "length ?c = 4084" "?u \<le> BLOCK_AVAIL_SIZE" using ok by (auto simp: file_ok_def)
  have "unat (of_nat (length d) :: u32) = length d" using i(2) by (intro unat_of_nat_id) simp
  then have e: "unat (i + of_nat (length d)) = unat i + length d"
    using i(2) unat_add_lem [of i "of_nat (length d)", THEN iffD1] by simp
  have m: "unat (max ?u (i + of_nat (length d))) = max (unat ?u) (unat i + length d)"
    using e by (auto simp: max_def word_le_nat_alt)
  have k': "k' = upd_block b (\<lambda>x. x\<lparr>blk_content := overwrite (unat i) d ?c, nr_used := max ?u (i + of_nat (length d))\<rparr>) k"
    by (simp add: k'_def put_bytes_def upd_block_def)
  have c: "length (overwrite (unat i) d ?c) = 4084" using i(2) len by (simp add: length_overwrite)
  have u: "max ?u (i + of_nat (length d)) \<le> BLOCK_AVAIL_SIZE" using e i(2) len(2) by (simp add: word_le_nat_alt)
  note M = modify_block [OF ok b(1) c u k']
  show "file_ok k' R hdr (xs @ b # ys)" "blk_frame k k' R hdr (xs @ b # ys)" using M by auto
  show other: "mem_blocks k' a = mem_blocks k a" if "a \<noteq> b" for a using that by (simp add: k')
  show "nr_used (mem_blocks k' b) = max ?u (i + of_nat (length d))" by (simp add: k')
  have "file_bytes k' xs = file_bytes k xs" "file_bytes k' ys = file_bytes k ys"
    using b by (auto intro!: file_bytes_cong other)
  moreover have "blk_bytes k' b = overwrite (unat i) d (blk_bytes k b)"
    unfolding M(3) m using i len by (simp add: take_overwrite blk_bytes_def word_le_nat_alt)
  ultimately show "file_bytes k' (xs @ b # ys) = file_bytes k xs @ overwrite (unat i) d (blk_bytes k b) @ file_bytes k ys"
    by simp
qed

subsection \<open>Appending\<close>

lemma block_room:
  "i \<le> BLOCK_AVAIL_SIZE \<Longrightarrow> sint (BLOCK_AVAIL_SIZE - i) = 4084 - int (unat i)"
  by (simp add: sint_small unat_sub word_le_nat_alt)

lemma block_end: "unat i + n = 4084 \<Longrightarrow> i + of_nat n = BLOCK_AVAIL_SIZE"
proof -
  assume "unat i + n = 4084"
  moreover have "i + of_nat n = of_nat (unat i + n)" by simp
  ultimately show ?thesis by simp
qed

lemma file_list:
  assumes "file_ok k R hdr bs"
  shows "list_last_elem (lists k) hdr = last (NULL # bs)" "NULL \<notin> set bs"
    "list_first_elem (lists k) hdr = hd (bs @ [NULL])"
    "bs = xs @ b # ys \<Longrightarrow> le_next (lists k b) = hd (ys @ [NULL])"
proof -
  have d: "dlist (lists k) hdr bs" using assms by (simp add: file_ok_def)
  show "list_last_elem (lists k) hdr = last (NULL # bs)" using d by (simp add: list_last_elem_def dlist_def)
  show "NULL \<notin> set bs" using d by (rule dlist_NULL_notin)
  show "list_first_elem (lists k) hdr = hd (bs @ [NULL])" using d by (cases bs) (auto simp: list_first_elem_def dlist_def)
  show "le_next (lists k b) = hd (ys @ [NULL])" if "bs = xs @ b # ys"
    using d that by (cases ys) (auto simp: dlist_def)
qed

text \<open>A position at the end of the file: no block where there is none with room, or the last one.\<close>

definition at_end :: "kernel \<Rightarrow> addr list \<Rightarrow> u32 \<Rightarrow> addr \<Rightarrow> bool" where
  "at_end k bs i b \<longleftrightarrow> b = NULL \<and> (bs = [] \<or> nr_used (mem_blocks k (last bs)) = BLOCK_AVAIL_SIZE) \<or>
     bs \<noteq> [] \<and> b = last bs \<and> i = nr_used (mem_blocks k b)"

lemma get_mem_block_empty:
  assumes "get_mem_block k = Some (b, k')" "b \<noteq> NULL"
  shows "upd_block b (\<lambda>x. x\<lparr>nr_used := 0\<rparr>) k' = k'"
proof -
  obtain a k1 where "kmalloc_align 4096 4096 k = Some (a, k1)"
    using assms(1) by (cases "kmalloc_align 4096 4096 k") (auto simp: get_mem_block_def)
  then have "k' = upd_block b (\<lambda>x. x\<lparr>nr_used := 0\<rparr>) (k1\<lparr>lists := (lists k1)(b := zero_cell)\<rparr>)"
    using assms by (auto simp: get_mem_block_def split: if_splits)
  then show ?thesis by (simp add: upd_block_def)
qed

text \<open>A round of either loop when no block has room.\<close>

lemma write_new_block:
  assumes ok: "file_ok k R hdr bs" and full: "bs = [] \<or> nr_used (mem_blocks k (last bs)) = BLOCK_AVAIL_SIZE"
    and remain: "remain > 0"
  shows "no_memory k \<and> write_sequential_loop hdr buffer remain result k = Some (result, k) \<and>
      write_random_loop hdr buffer remain result i NULL k = Some (result, k) \<or>
    (\<exists>b e k'. b \<noteq> NULL \<and> unat b \<notin> fst ` R \<and> file_ok k' (insert (unat b, e) R) hdr (bs @ [b]) \<and> blk_frame k k' R hdr bs \<and>
      nr_used (mem_blocks k' b) = 0 \<and> (\<forall>a. a \<noteq> b \<longrightarrow> mem_blocks k' a = mem_blocks k a) \<and>
      write_sequential_loop hdr buffer remain result k = write_sequential_loop hdr buffer remain result k' \<and>
      write_random_loop hdr buffer remain result i NULL k = write_random_loop hdr buffer remain result 0 b k')"
proof -
  have last0: "last bs \<noteq> NULL" if "bs \<noteq> []" using file_list(2) [OF ok] that last_in_set by metis
  have rnd: "write_random_loop hdr buffer remain result i NULL k = do {
      (b, k) \<leftarrow> append_block hdr k; if b = NULL then Some (result, k) else write_random_loop hdr buffer remain result 0 b k }"
  proof -
    obtain b k1 where g: "get_mem_block k = Some (b, k1)" using append_block_spec [OF ok]
      by (auto simp: append_block_def no_memory_def split: bind_splits)
    show ?thesis
    proof (cases "b = NULL")
      case True
      then show ?thesis using remain g by (subst write_random_loop.simps) (simp add: append_block_def)
    next
      case False
      then show ?thesis using remain g get_mem_block_empty [OF g]
        by (subst write_random_loop.simps) (simp add: append_block_def bind_assoc)
    qed
  qed
  from append_block_spec [OF ok] show ?thesis
  proof
    assume A: "append_block hdr k = Some (NULL, k) \<and> no_memory k"
    then have "write_sequential_loop hdr buffer remain result k = Some (result, k)"
      using remain full last0 file_list(1) [OF ok] by (subst write_sequential_loop.simps) auto
    then show ?thesis using A rnd by simp
  next
    assume "\<exists>b e k'. append_block hdr k = Some (b, k') \<and> b \<noteq> NULL \<and> unat b \<notin> fst ` R \<and>
      file_ok k' (insert (unat b, e) R) hdr (bs @ [b]) \<and> blk_frame k k' R hdr bs \<and> nr_used (mem_blocks k' b) = 0 \<and>
      (\<forall>a. a \<noteq> b \<longrightarrow> mem_blocks k' a = mem_blocks k a)"
    then obtain b e k' where b: "append_block hdr k = Some (b, k')" "b \<noteq> NULL" "unat b \<notin> fst ` R"
      "file_ok k' (insert (unat b, e) R) hdr (bs @ [b])" "blk_frame k k' R hdr bs" "nr_used (mem_blocks k' b) = 0"
      "\<forall>a. a \<noteq> b \<longrightarrow> mem_blocks k' a = mem_blocks k a"
      by blast
    have "list_last_elem (lists k') hdr = b" using file_list(1) [OF b(4)] by simp
    then have "write_sequential_loop hdr buffer remain result k = write_sequential_loop hdr buffer remain result k'"
      using remain full last0 file_list(1) [OF ok] b(1,2,6)
      by (subst (1 2) write_sequential_loop.simps) auto
    moreover have "write_random_loop hdr buffer remain result i NULL k = write_random_loop hdr buffer remain result 0 b k'"
      using b(1,2) rnd by simp
    ultimately show ?thesis using b(2-7) by blast
  qed
qed

text \<open>A round in the last block.\<close>

lemma write_last_block:
  assumes ok: "file_ok k R hdr (xs @ [b])" and u: "u = nr_used (mem_blocks k b)" "u \<noteq> BLOCK_AVAIL_SIZE"
    and remain: "remain > 0" "0 \<le> result" "result + remain \<le> int (length buffer)"
    and n: "n = min (4084 - int (unat u)) remain"
    and k': "k' = put_bytes b u (take (nat n) (drop (nat result) buffer)) k"
  shows "0 < n \<and>
    write_sequential_loop hdr buffer remain result k = write_sequential_loop hdr buffer (remain - n) (result + n) k' \<and>
    write_random_loop hdr buffer remain result u b k =
      (if remain - n = 0 then Some (result + n, k') else write_random_loop hdr buffer (remain - n) (result + n) 0 NULL k')"
proof -
  have le: "u \<le> BLOCK_AVAIL_SIZE" and b: "b \<noteq> NULL" using ok u file_list(2) [OF ok] by (auto simp: file_ok_def)
  have "u < BLOCK_AVAIL_SIZE" using le u(2) by simp
  then have u': "unat u < 4084" by (simp add: word_less_nat_alt)
  have n0: "0 < n" "n \<le> remain" "unat u + nat n \<le> 4084" using u' remain(1) unfolding n by linarith+
  let ?d = "take (nat n) (drop (nat result) buffer)"
  obtain k1 where k1: "fill_block b u buffer result n k = Some k1"
    "(if nr_used (mem_blocks k1 b) < u + of_int n then upd_block b (\<lambda>x. x\<lparr>nr_used := u + of_int n\<rparr>) k1 else k1) = k'"
    "upd_block b (\<lambda>x. x\<lparr>nr_used := nr_used x + of_int n\<rparr>) k1 = k'"
    using fill_put [OF ok, of b u n result buffer, OF _ _ n0(3) _ _ _ refl] n0 remain u(1) k' by auto
  note P = put_bytes_spec [OF ok, of u ?d]
  have ok': "file_ok k' R hdr (xs @ [b])" using P(1) u(1) n0(3) k' by simp
  then have le': "nr_used (mem_blocks k' b) \<le> BLOCK_AVAIL_SIZE" by (simp add: file_ok_def)
  have room: "0 < sint (BLOCK_AVAIL_SIZE - u)" "min (sint (BLOCK_AVAIL_SIZE - u)) remain = n"
    using block_room [OF le] u' n by linarith+
  have "nr_used (mem_blocks k1 b) + of_int n \<le> BLOCK_AVAIL_SIZE" using le' k1(3) by auto
  then have "write_sequential_loop hdr buffer remain result k = write_sequential_loop hdr buffer (remain - n) (result + n) k'"
    using remain b file_list(1) [OF ok] room k1(1,3)
    by (subst write_sequential_loop.simps) (simp add: u(1)[symmetric] Let_def)
  moreover have "le_next (lists k' b) = NULL" using file_list(4) [OF ok', of xs b "[]"] by simp
  then have "write_random_loop hdr buffer remain result u b k =
      (if remain - n = 0 then Some (result + n, k') else write_random_loop hdr buffer (remain - n) (result + n) 0 NULL k')"
    using remain b room k1(1,2)
    by (subst write_random_loop.simps) (simp add: Let_def)
  ultimately show ?thesis using n0 by simp
qed

text \<open>What a write does to the blocks, whatever the bytes are, and that writes compose.\<close>

definition wrote :: "kernel \<Rightarrow> (nat \<times> nat) set \<Rightarrow> addr \<Rightarrow> addr list \<Rightarrow> kernel \<Rightarrow> (nat \<times> nat) set \<Rightarrow> addr list \<Rightarrow> bool" where
  "wrote k R hdr bs k' R' bs' \<longleftrightarrow> file_ok k' R' hdr bs' \<and> R \<subseteq> R' \<and> blk_frame k k' R hdr bs \<and>
     (\<forall>b\<in>set bs'. b \<in> set bs \<or> unat b \<notin> fst ` R) \<and> (packed k bs \<longrightarrow> packed k' bs')"

lemma wrote_refl: "file_ok k R hdr bs \<Longrightarrow> wrote k R hdr bs k R bs"
  by (simp add: wrote_def blk_frame_refl)

lemma wrote_trans:
  assumes 1: "wrote k R hdr bs k1 R1 bs1" and 2: "wrote k1 R1 hdr bs1 k2 R2 bs2"
  shows "wrote k R hdr bs k2 R2 bs2"
proof -
  have "blk_frame k k2 R hdr bs"
    using blk_frame_trans [of k k1 R hdr bs k2 R1 bs1] 1 2 unfolding wrote_def by blast
  moreover have "b \<in> set bs \<or> unat b \<notin> fst ` R" if "b \<in> set bs2" for b
    using that 1 2 image_mono [of R R1 fst] unfolding wrote_def by blast
  ultimately show ?thesis using 1 2 unfolding wrote_def by blast
qed

lemma put_bytes_wrote:
  assumes ok: "file_ok k R hdr (xs @ b # ys)" and i: "i \<le> nr_used (mem_blocks k b)" "unat i + length d \<le> 4084"
  shows "wrote k R hdr (xs @ b # ys) (put_bytes b i d k) R (xs @ b # ys)"
proof -
  note P = put_bytes_spec [OF ok i]
  have "nr_used (mem_blocks (put_bytes b i d k) a) = BLOCK_AVAIL_SIZE" if "nr_used (mem_blocks k a) = BLOCK_AVAIL_SIZE" for a
  proof (cases "a = b")
    case True
    have "nr_used (mem_blocks (put_bytes b i d k) b) \<le> BLOCK_AVAIL_SIZE" using P(1) by (simp add: file_ok_def)
    then show ?thesis using that True P(4) by simp
  qed (use that P(3) in simp)
  then have "packed (put_bytes b i d k) (xs @ b # ys)" if "packed k (xs @ b # ys)"
    using that unfolding packed_def by blast
  then show ?thesis using P(1,2) by (simp add: wrote_def)
qed

lemma append_wrote:
  assumes ok: "file_ok k R hdr bs" "file_ok k' (insert (unat b, e) R) hdr (bs @ [b])"
    and other: "\<forall>a. a \<noteq> b \<longrightarrow> mem_blocks k' a = mem_blocks k a"
    and b: "blk_frame k k' R hdr bs" "unat b \<notin> fst ` R"
    and full: "bs = [] \<or> nr_used (mem_blocks k (last bs)) = BLOCK_AVAIL_SIZE" "nr_used (mem_blocks k' b) = 0"
  shows "wrote k R hdr bs k' (insert (unat b, e) R) (bs @ [b])" "file_bytes k' (bs @ [b]) = file_bytes k bs"
proof -
  have frame: "mem_blocks k' a = mem_blocks k a" if "a \<in> set bs" for a
  proof -
    have "a \<noteq> b" using that ok(1) b(2) by (auto simp: file_ok_def)
    then show ?thesis using other by simp
  qed
  have "packed k' (bs @ [b])" if "packed k bs"
  proof -
    have "nr_used (mem_blocks k a) = BLOCK_AVAIL_SIZE" if a: "a \<in> set bs" for a
    proof -
      have "a \<in> set (butlast bs) \<or> a = last bs" using a by (cases bs rule: rev_cases) auto
      then show ?thesis using full(1) a \<open>packed k bs\<close> by (auto simp: packed_def)
    qed
    then show ?thesis using frame by (auto simp: packed_def)
  qed
  then show "wrote k R hdr bs k' (insert (unat b, e) R) (bs @ [b])" using ok(2) b by (auto simp: wrote_def)
  show "file_bytes k' (bs @ [b]) = file_bytes k bs"
    using file_bytes_cong [of bs k' k, OF frame] full(2) by (simp add: blk_bytes_def)
qed

text \<open>A round of the two loops from a position at the end; \<open>S\<close> and \<open>D\<close> stand for the loops before it.\<close>

definition end_round ::
    "kernel \<Rightarrow> (nat \<times> nat) set \<Rightarrow> addr \<Rightarrow> addr list \<Rightarrow> u8 list \<Rightarrow> int \<Rightarrow> int \<Rightarrow> (int \<times> kernel) option \<Rightarrow> (int \<times> kernel) option \<Rightarrow> bool" where
  "end_round k R hdr bs buffer remain result S D \<longleftrightarrow>
    (\<exists>n k' R' bs'. 0 < n \<and> n \<le> nat remain \<and> wrote k R hdr bs k' R' bs' \<and>
      file_bytes k' bs' = file_bytes k bs @ take n (drop (nat result) buffer) \<and>
      (n < nat remain \<longrightarrow> at_end k' bs' 0 NULL) \<and>
      S = write_sequential_loop hdr buffer (remain - int n) (result + int n) k' \<and>
      D = (if n < nat remain then write_random_loop hdr buffer (remain - int n) (result + int n) 0 NULL k'
           else Some (result + int n, k')))"

lemma end_round_trans:
  assumes "wrote k R hdr bs k1 R1 bs1" "file_bytes k1 bs1 = file_bytes k bs"
    and "end_round k1 R1 hdr bs1 buffer remain result S D"
  shows "end_round k R hdr bs buffer remain result S D"
  using assms wrote_trans [of k R hdr bs k1 R1 bs1] unfolding end_round_def by (elim exE conjE) metis

lemma end_round_room:
  assumes ok: "file_ok k R hdr (xs @ [b])" and u: "u = nr_used (mem_blocks k b)" "u \<noteq> BLOCK_AVAIL_SIZE"
    and remain: "remain > 0" "0 \<le> result" "result + remain \<le> int (length buffer)"
  shows "end_round k R hdr (xs @ [b]) buffer remain result
    (write_sequential_loop hdr buffer remain result k) (write_random_loop hdr buffer remain result u b k)"
proof -
  define n where "n = min (4084 - int (unat u)) remain"
  let ?d = "take (nat n) (drop (nat result) buffer)"
  define k' where "k' = put_bytes b u ?d k"
  have le: "u \<le> BLOCK_AVAIL_SIZE" using ok u by (auto simp: file_ok_def)
  note L = write_last_block [OF ok u remain n_def k'_def]
  have n: "0 < n" "n \<le> remain" "unat u + nat n \<le> 4084" using L n_def by linarith+
  have "nat n \<le> length buffer - nat result" using remain n by linarith
  then have len: "length ?d = nat n" by simp
  have fit: "u \<le> nr_used (mem_blocks k b)" "unat u + length ?d \<le> 4084" using u n len by auto
  note P = put_bytes_spec [OF ok fit, folded k'_def]
  have "length (blk_bytes k b) = unat u" using length_blk_bytes [OF ok] u by simp
  then have "file_bytes k' (xs @ [b]) = file_bytes k (xs @ [b]) @ ?d" using P(5) by (simp add: overwrite_def)
  moreover have "at_end k' (xs @ [b]) 0 NULL" if "nat n < nat remain"
  proof -
    have "unat u + nat n = 4084" using that n unfolding n_def by linarith
    then have "u + of_nat (nat n) = BLOCK_AVAIL_SIZE" by (rule block_end)
    then have "nr_used (mem_blocks k' b) = BLOCK_AVAIL_SIZE" using P(4) u(1) le len by (simp add: max_absorb2)
    then show ?thesis by (simp add: at_end_def)
  qed
  ultimately show ?thesis
    unfolding end_round_def using L n put_bytes_wrote [OF ok fit, folded k'_def]
    by (intro exI [of _ "nat n"] exI [of _ k'] exI [of _ R] exI [of _ "xs @ [b]"]) auto
qed

text \<open>The random loop passes a full block when it starts at its end.\<close>

lemma write_full_block:
  assumes ok: "file_ok k R hdr bs" and b: "b \<in> set bs" "nr_used (mem_blocks k b) = BLOCK_AVAIL_SIZE" and remain: "remain > 0"
    and result: "0 \<le> result" "result \<le> int (length buffer)"
  shows "write_random_loop hdr buffer remain result BLOCK_AVAIL_SIZE b k =
    write_random_loop hdr buffer remain result 0 (le_next (lists k b)) k"
proof -
  have "overwrite i [] c = c" for i and c :: "u8 list" by (simp add: overwrite_def)
  then have same: "x\<lparr>blk_content := overwrite (unat BLOCK_AVAIL_SIZE) [] (blk_content x),
      nr_used := max (nr_used x) (BLOCK_AVAIL_SIZE + of_nat (length ([] :: u8 list)))\<rparr> = x"
    if "nr_used x = BLOCK_AVAIL_SIZE" for x :: mem_block_hdr using that by (cases x) simp
  have "put_bytes b BLOCK_AVAIL_SIZE [] k = k" unfolding put_bytes_def by (rule upd_block_same) (rule same [OF b(2)])
  moreover have "b \<noteq> NULL" using b(1) file_list(2) [OF ok] by auto
  ultimately show ?thesis
    using fill_put [OF ok b(1), of BLOCK_AVAIL_SIZE 0 result buffer "[]"] b(2) remain result
    by (subst write_random_loop.simps) (auto simp: Let_def split: if_splits)
qed

lemma write_end_round:
  assumes ok: "file_ok k R hdr bs" and at: "at_end k bs i b"
    and remain: "remain > 0" "0 \<le> result" "result + remain \<le> int (length buffer)"
  shows "no_memory k \<and> write_sequential_loop hdr buffer remain result k = Some (result, k) \<and>
      write_random_loop hdr buffer remain result i b k = Some (result, k) \<or>
    end_round k R hdr bs buffer remain result
      (write_sequential_loop hdr buffer remain result k) (write_random_loop hdr buffer remain result i b k)"
proof -
  define S where "S = write_sequential_loop hdr buffer remain result k"
  define D where "D = write_random_loop hdr buffer remain result i b k"
  have full: "no_memory k \<and> S = Some (result, k) \<and> D = Some (result, k) \<or> end_round k R hdr bs buffer remain result S D"
    if e: "bs = [] \<or> nr_used (mem_blocks k (last bs)) = BLOCK_AVAIL_SIZE" and D: "\<exists>j. D = write_random_loop hdr buffer remain result j NULL k"
  proof -
    obtain j where j: "D = write_random_loop hdr buffer remain result j NULL k" using D by blast
    from write_new_block [OF ok e remain(1), of buffer result j] show ?thesis
    proof
      assume "\<exists>b e k'. b \<noteq> NULL \<and> unat b \<notin> fst ` R \<and> file_ok k' (insert (unat b, e) R) hdr (bs @ [b]) \<and>
        blk_frame k k' R hdr bs \<and> nr_used (mem_blocks k' b) = 0 \<and> (\<forall>a. a \<noteq> b \<longrightarrow> mem_blocks k' a = mem_blocks k a) \<and>
        write_sequential_loop hdr buffer remain result k = write_sequential_loop hdr buffer remain result k' \<and>
        write_random_loop hdr buffer remain result j NULL k = write_random_loop hdr buffer remain result 0 b k'"
      then obtain b1 e1 k1 where 1: "unat b1 \<notin> fst ` R" "file_ok k1 (insert (unat b1, e1) R) hdr (bs @ [b1])"
        "blk_frame k k1 R hdr bs" "nr_used (mem_blocks k1 b1) = 0" "\<forall>a. a \<noteq> b1 \<longrightarrow> mem_blocks k1 a = mem_blocks k a"
        "S = write_sequential_loop hdr buffer remain result k1" "D = write_random_loop hdr buffer remain result 0 b1 k1"
        unfolding S_def j by blast
      note W = append_wrote [OF ok 1(2,5,3,1) e 1(4)]
      have "end_round k1 (insert (unat b1, e1) R) hdr (bs @ [b1]) buffer remain result S D"
        using end_round_room [OF 1(2) _ _ remain, of 0] 1(4,6,7) by simp
      then show ?thesis using end_round_trans [OF W] by blast
    qed (simp add: S_def j)
  qed
  consider "b = NULL" "bs = [] \<or> nr_used (mem_blocks k (last bs)) = BLOCK_AVAIL_SIZE"
    | xs where "bs = xs @ [b]" "i = nr_used (mem_blocks k b)"
    using at unfolding at_end_def by (metis append_butlast_last_id)
  then show ?thesis
  proof cases
    case 1
    then show ?thesis using full unfolding S_def D_def by blast
  next
    case 2
    show ?thesis
    proof (cases "i = BLOCK_AVAIL_SIZE")
      case True
      have "D = write_random_loop hdr buffer remain result 0 NULL k"
        using write_full_block [OF ok _ 2(2) [unfolded True, symmetric], of remain result buffer] remain 2(1) file_list(4) [OF ok 2(1)] True
        by (simp add: D_def)
      then show ?thesis using full 2 True unfolding S_def D_def by auto
    next
      case False
      then show ?thesis using end_round_room [OF ok [unfolded 2(1)] 2(2) False remain] 2(1) by simp
    qed
  qed
qed

lemma append_loops:
  assumes "file_ok k R hdr bs" "at_end k bs i b" "0 \<le> remain" "0 \<le> result" "result + remain \<le> int (length buffer)"
  shows "\<exists>n k' R' bs'. n \<le> nat remain \<and> write_sequential_loop hdr buffer remain result k = Some (result + int n, k') \<and>
    write_random_loop hdr buffer remain result i b k = Some (result + int n, k') \<and> wrote k R hdr bs k' R' bs' \<and>
    file_bytes k' bs' = file_bytes k bs @ take n (drop (nat result) buffer) \<and> (n < nat remain \<longrightarrow> no_memory k')"
  using assms
proof (induction "nat remain" arbitrary: remain result k R bs i b rule: less_induct)
  case less
  have base: ?case if "write_sequential_loop hdr buffer remain result k = Some (result, k)"
    "write_random_loop hdr buffer remain result i b k = Some (result, k)" "remain > 0 \<longrightarrow> no_memory k"
    using that wrote_refl [OF less.prems(1)] by (intro exI [of _ "0 :: nat"] exI) auto
  show ?case
  proof (cases "remain = 0")
    case True
    show ?thesis
    proof (rule base)
      show "write_sequential_loop hdr buffer remain result k = Some (result, k)"
        using True by (subst write_sequential_loop.simps) simp
      show "write_random_loop hdr buffer remain result i b k = Some (result, k)"
        using True by (subst write_random_loop.simps) simp
    qed (use True in simp)
  next
    case False
    then have pos: "remain > 0" using less.prems by simp
    from write_end_round [OF less.prems(1,2) pos less.prems(4,5)] show ?thesis
    proof
      assume "no_memory k \<and> write_sequential_loop hdr buffer remain result k = Some (result, k) \<and>
        write_random_loop hdr buffer remain result i b k = Some (result, k)"
      then show ?thesis by (intro base) simp_all
    next
      assume "end_round k R hdr bs buffer remain result
        (write_sequential_loop hdr buffer remain result k) (write_random_loop hdr buffer remain result i b k)"
      then obtain n k1 R1 bs1 where c: "0 < n" "n \<le> nat remain" "wrote k R hdr bs k1 R1 bs1"
        "file_bytes k1 bs1 = file_bytes k bs @ take n (drop (nat result) buffer)"
        "n < nat remain \<Longrightarrow> at_end k1 bs1 0 NULL"
        "write_sequential_loop hdr buffer remain result k = write_sequential_loop hdr buffer (remain - int n) (result + int n) k1"
        "write_random_loop hdr buffer remain result i b k = (if n < nat remain
          then write_random_loop hdr buffer (remain - int n) (result + int n) 0 NULL k1 else Some (result + int n, k1))"
        unfolding end_round_def by blast
      show ?thesis
      proof (cases "n < nat remain")
        case False
        then have "remain - int n = 0" using c(2) pos by linarith
        then have "write_sequential_loop hdr buffer remain result k = Some (result + int n, k1)"
          using c(6) by (subst (asm) (2) write_sequential_loop.simps) simp
        then show ?thesis using c False by (intro exI [of _ n] exI) auto
      next
        case True
        have ok1: "file_ok k1 R1 hdr bs1" using c(3) by (simp add: wrote_def)
        have b: "nat (remain - int n) < nat remain" "0 \<le> remain - int n" "0 \<le> result + int n"
          "result + int n + (remain - int n) \<le> int (length buffer)"
          using c(1) True less.prems(4,5) by linarith+
        obtain m k2 R2 bs2 where m: "m \<le> nat (remain - int n)"
          "write_sequential_loop hdr buffer (remain - int n) (result + int n) k1 = Some (result + int n + int m, k2)"
          "write_random_loop hdr buffer (remain - int n) (result + int n) 0 NULL k1 = Some (result + int n + int m, k2)"
          "wrote k1 R1 hdr bs1 k2 R2 bs2"
          "file_bytes k2 bs2 = file_bytes k1 bs1 @ take m (drop (nat (result + int n)) buffer)"
          "m < nat (remain - int n) \<longrightarrow> no_memory k2"
          using less.hyps [OF b(1) ok1 c(5) [OF True] b(2-4)] by blast
        have "nat (result + int n) = n + nat result" using less.prems(4) by linarith
        then have "file_bytes k2 bs2 = file_bytes k bs @ take (n + m) (drop (nat result) buffer)"
          using m(5) c(4) by (simp add: take_add)
        moreover have "n + m \<le> nat remain" "n + m < nat remain \<longrightarrow> no_memory k2"
          using m(1,6) c(2) by linarith+
        moreover have "write_sequential_loop hdr buffer remain result k = Some (result + int (n + m), k2)"
          using m(2) c(6) by (simp add: add.assoc)
        moreover have "write_random_loop hdr buffer remain result i b k = Some (result + int (n + m), k2)"
          using m(3) c(7) True by (simp add: add.assoc)
        ultimately show ?thesis using wrote_trans [OF c(3) m(4)] by blast
      qed
    qed
  qed
qed

subsection \<open>Writing at an offset\<close>

lemma overwrite_append:
  assumes "i \<le> length xs" "j = i + length d"
  shows "overwrite j e (overwrite i d xs) = overwrite i (d @ e) xs"
proof -
  have "take j (overwrite i d xs) = take i xs @ d" using assms by (simp add: overwrite_def min_absorb2)
  moreover have "drop (j + length e) (overwrite i d xs) = drop (length e) (drop j xs)"
    using assms by (simp add: overwrite_def)
  ultimately show ?thesis using assms by (simp add: overwrite_def add.commute add.left_commute)
qed

lemma overwrite_end: "overwrite (length xs) d xs = xs @ d"
  by (simp add: overwrite_def)

lemma overwrite_Nil [simp]: "overwrite i [] xs = xs"
  by (simp add: overwrite_def)

lemma overwrite_middle:
  "i + length d \<le> length ys \<or> zs = [] \<Longrightarrow> i \<le> length ys \<Longrightarrow>
    overwrite (length xs + i) d (xs @ ys @ zs) = xs @ overwrite i d ys @ zs"
  by (auto simp: overwrite_def)

text \<open>The search for an offset of the file ends in the block that holds it, before any block is added.\<close>

lemma skip_within:
  assumes "file_ok k R hdr (xs @ ys)" "ys \<noteq> []" "unat offset \<le> length (file_bytes k ys)"
  shows "\<exists>as b cs i. ys = as @ b # cs \<and>
    skip_blocks (\<lambda>b. nr_used (mem_blocks k b)) (lists k) (hd ys) offset p = Some (0, i, b) \<and>
    unat offset = length (file_bytes k as) + unat i \<and> i \<le> nr_used (mem_blocks k b)"
  using assms
proof (induction ys arbitrary: xs offset p)
  case (Cons y zs)
  let ?u = "nr_used (mem_blocks k y)"
  have y: "y \<noteq> NULL" using file_list(2) [OF Cons.prems(1)] by auto
  have len: "length (blk_bytes k y) = unat ?u" using length_blk_bytes [OF Cons.prems(1), of y] by simp
  show ?case
  proof (cases "offset \<le> ?u")
    case True
    then have "skip_blocks (\<lambda>b. nr_used (mem_blocks k b)) (lists k) y offset p = Some (0, offset, y)"
      using y by (subst skip_blocks.simps) (auto simp: min_absorb1)
    then show ?thesis using True by (intro exI [of _ "[]"] exI [of _ y] exI [of _ zs] exI [of _ offset]) simp
  next
    case False
    then have gt: "?u < offset" by simp
    then have sub: "unat (offset - ?u) = unat offset - unat ?u" "offset - ?u \<noteq> 0" "offset \<noteq> 0"
      by (auto simp: unat_sub word_le_nat_alt word_less_nat_alt)
    have "zs \<noteq> []" using Cons.prems(3) len gt by (auto simp: word_less_nat_alt)
    moreover have "unat (offset - ?u) \<le> length (file_bytes k zs)" using Cons.prems(3) len sub(1) by simp
    ultimately obtain as b cs i where IH: "zs = as @ b # cs"
      "skip_blocks (\<lambda>b. nr_used (mem_blocks k b)) (lists k) (hd zs) (offset - ?u) ?u = Some (0, i, b)"
      "unat (offset - ?u) = length (file_bytes k as) + unat i" "i \<le> nr_used (mem_blocks k b)"
      using Cons.IH [of "xs @ [y]" "offset - ?u" ?u] Cons.prems(1) by auto
    have "skip_blocks (\<lambda>b. nr_used (mem_blocks k b)) (lists k) y offset p = Some (0, i, b)"
      using y sub gt IH(2) file_list(4) [OF Cons.prems(1) refl] \<open>zs \<noteq> []\<close>
      by (subst skip_blocks.simps) (simp add: min_absorb2 Let_def)
    moreover have "unat offset = length (file_bytes k (y # as)) + unat i"
      using IH(3) sub(1) gt len by (simp add: word_less_nat_alt)
    ultimately show ?thesis using IH(1,4) by (intro exI [of _ "y # as"] exI [of _ b] exI [of _ cs] exI [of _ i]) simp
  qed
qed simp

lemma random_round:
  assumes ok: "file_ok k R hdr (xs @ b # ys)" and i: "i \<le> nr_used (mem_blocks k b)"
    and full: "ys = [] \<or> nr_used (mem_blocks k b) = BLOCK_AVAIL_SIZE"
    and remain: "remain > 0" "0 \<le> result" "result + remain \<le> int (length buffer)"
  shows "\<exists>n k'. n \<le> nat remain \<and> wrote k R hdr (xs @ b # ys) k' R (xs @ b # ys) \<and>
    length (take n (drop (nat result) buffer)) = n \<and>
    file_bytes k' (xs @ b # ys) =
      overwrite (length (file_bytes k xs) + unat i) (take n (drop (nat result) buffer)) (file_bytes k (xs @ b # ys)) \<and>
    write_random_loop hdr buffer remain result i b k = (if n < nat remain
      then write_random_loop hdr buffer (remain - int n) (result + int n) 0 (hd (ys @ [NULL])) k' else Some (result + int n, k')) \<and>
    (n < nat remain \<longrightarrow> nr_used (mem_blocks k' b) = BLOCK_AVAIL_SIZE \<and>
       length (file_bytes k' (xs @ [b])) = length (file_bytes k xs) + unat i + n)"
proof -
  let ?u = "nr_used (mem_blocks k b)"
  have le: "?u \<le> BLOCK_AVAIL_SIZE" and b: "b \<noteq> NULL" using ok file_list(2) [OF ok] by (auto simp: file_ok_def)
  have i': "i \<le> BLOCK_AVAIL_SIZE" "unat i \<le> 4084" "unat i \<le> unat ?u" using i le by (auto simp: word_le_nat_alt)
  define n where "n = nat (min (4084 - int (unat i)) remain)"
  have n: "n \<le> nat remain" "unat i + n \<le> 4084" "n < nat remain \<Longrightarrow> unat i + n = 4084"
    "min (sint (BLOCK_AVAIL_SIZE - i)) remain = int n" "result + int n \<le> int (length buffer)"
    using i'(2) remain unfolding n_def block_room [OF i'(1)] by linarith+
  let ?d = "take n (drop (nat result) buffer)"
  define k' where "k' = put_bytes b i ?d k"
  have "n \<le> length buffer - nat result" using n(5) remain(2) by linarith
  then have len: "length ?d = n" by simp
  note P = put_bytes_spec [OF ok i, of ?d, unfolded len, OF n(2), folded k'_def]
  have W: "wrote k R hdr (xs @ b # ys) k' R (xs @ b # ys)"
    using put_bytes_wrote [OF ok i, of ?d] n(2) len by (simp add: k'_def)
  have lb: "length (blk_bytes k b) = unat ?u" using length_blk_bytes [OF ok, of b] by simp
  have "unat i + length ?d \<le> length (blk_bytes k b) \<or> file_bytes k ys = []"
    using full n(2) lb len by auto
  then have bytes: "file_bytes k' (xs @ b # ys) = overwrite (length (file_bytes k xs) + unat i) ?d (file_bytes k (xs @ b # ys))"
    using P(5) overwrite_middle [of "unat i" ?d "blk_bytes k b" "file_bytes k ys" "file_bytes k xs"] lb i'(3) by simp
  have u': "nr_used (mem_blocks k' b) = BLOCK_AVAIL_SIZE \<and> length (file_bytes k' (xs @ [b])) = length (file_bytes k xs) + unat i + n"
    if "n < nat remain"
  proof -
    have u: "nr_used (mem_blocks k' b) = BLOCK_AVAIL_SIZE"
      using P(4) block_end [OF n(3) [OF that]] le len by (simp add: max_absorb2)
    have "b \<notin> set xs" using ok by (simp add: file_ok_def dlist_def)
    then have "file_bytes k' xs = file_bytes k xs" by (intro file_bytes_cong P(3)) auto
    then show ?thesis using u length_blk_bytes [OF P(1), of b] n(3) [OF that] by simp
  qed
  obtain k1 where k1: "fill_block b i buffer result (int n) k = Some k1"
    "(if nr_used (mem_blocks k1 b) < i + of_nat n then upd_block b (\<lambda>x. x\<lparr>nr_used := i + of_nat n\<rparr>) k1 else k1) = k'"
    using fill_put [OF ok, of b i "int n" result buffer ?d, unfolded of_int_of_nat_eq] i n(2,5) remain(2) k'_def by auto
  have "le_next (lists k' b) = hd (ys @ [NULL])" by (rule file_list(4) [OF P(1) refl])
  then have "write_random_loop hdr buffer remain result i b k = (if n < nat remain
      then write_random_loop hdr buffer (remain - int n) (result + int n) 0 (hd (ys @ [NULL])) k' else Some (result + int n, k'))"
    using remain b n(1,4) k1 by (subst write_random_loop.simps) (auto simp: Let_def split: if_splits)
  then show ?thesis using n(1) W len bytes u' by blast
qed

lemma random_compose:
  assumes 1: "n \<le> nat remain" "wrote k R hdr bs k1 R bs" "length (take n (drop (nat result) buffer)) = n"
      "file_bytes k1 bs = overwrite p (take n (drop (nat result) buffer)) (file_bytes k bs)" "p \<le> length (file_bytes k bs)"
      "W = (if n < nat remain then write_random_loop hdr buffer (remain - int n) (result + int n) 0 e k1 else Some (result + int n, k1))"
    and 2: "n < nat remain \<Longrightarrow> \<exists>m k2 R2 bs2. m \<le> nat (remain - int n) \<and>
      write_random_loop hdr buffer (remain - int n) (result + int n) 0 e k1 = Some (result + int n + int m, k2) \<and>
      wrote k1 R hdr bs k2 R2 bs2 \<and> (m < nat (remain - int n) \<longrightarrow> no_memory k2) \<and>
      file_bytes k2 bs2 = overwrite (p + n) (take m (drop (nat (result + int n)) buffer)) (file_bytes k1 bs)"
    and result: "0 \<le> result"
  shows "\<exists>n k' R' bs'. n \<le> nat remain \<and> W = Some (result + int n, k') \<and> wrote k R hdr bs k' R' bs' \<and>
    (n < nat remain \<longrightarrow> no_memory k') \<and> file_bytes k' bs' = overwrite p (take n (drop (nat result) buffer)) (file_bytes k bs)"
proof (cases "n < nat remain")
  case False
  then show ?thesis using 1 by (intro exI [of _ n] exI [of _ k1] exI [of _ R] exI [of _ bs]) simp
next
  case True
  then obtain m k2 R2 bs2 where m: "m \<le> nat (remain - int n)"
    "write_random_loop hdr buffer (remain - int n) (result + int n) 0 e k1 = Some (result + int n + int m, k2)"
    "wrote k1 R hdr bs k2 R2 bs2" "m < nat (remain - int n) \<longrightarrow> no_memory k2"
    "file_bytes k2 bs2 = overwrite (p + n) (take m (drop (nat (result + int n)) buffer)) (file_bytes k1 bs)"
    using 2 by blast
  have "nat (result + int n) = n + nat result" using result by linarith
  then have "file_bytes k2 bs2 = overwrite p (take (n + m) (drop (nat result) buffer)) (file_bytes k bs)"
    using m(5) 1(4) overwrite_append [OF 1(5), of "p + n" "take n (drop (nat result) buffer)"] 1(3) by (simp add: take_add)
  moreover have "n + m \<le> nat remain" "n + m < nat remain \<longrightarrow> no_memory k2" using m(1,4) True by linarith+
  moreover have "W = Some (result + int (n + m), k2)" using m(2) 1(6) True by (simp add: add.assoc)
  ultimately show ?thesis using wrote_trans [OF 1(2) m(3)] by blast
qed

lemma random_loop_spec:
  assumes "file_ok k R hdr (xs @ b # ys)" "packed k (xs @ b # ys)" "i \<le> nr_used (mem_blocks k b)"
    and "0 \<le> remain" "0 \<le> result" "result + remain \<le> int (length buffer)"
  shows "\<exists>n k' R' bs'. n \<le> nat remain \<and> write_random_loop hdr buffer remain result i b k = Some (result + int n, k') \<and>
    wrote k R hdr (xs @ b # ys) k' R' bs' \<and> (n < nat remain \<longrightarrow> no_memory k') \<and>
    file_bytes k' bs' = overwrite (length (file_bytes k xs) + unat i) (take n (drop (nat result) buffer)) (file_bytes k (xs @ b # ys))"
  using assms
proof (induction ys arbitrary: xs b i k remain result)
  case Nil
  show ?case
  proof (cases "remain = 0")
    case True
    then show ?thesis using wrote_refl [OF Nil(1)]
      by (subst write_random_loop.simps) (intro exI [of _ 0] exI [of _ k] exI [of _ R] exI [of _ "xs @ [b]"], simp)
  next
    case False
    then have pos: "remain > 0" using Nil(4) by simp
    obtain n k1 where 1: "n \<le> nat remain" "wrote k R hdr (xs @ [b]) k1 R (xs @ [b])"
      "length (take n (drop (nat result) buffer)) = n"
      "file_bytes k1 (xs @ [b]) =
        overwrite (length (file_bytes k xs) + unat i) (take n (drop (nat result) buffer)) (file_bytes k (xs @ [b]))"
      "write_random_loop hdr buffer remain result i b k = (if n < nat remain
        then write_random_loop hdr buffer (remain - int n) (result + int n) 0 NULL k1 else Some (result + int n, k1))"
      "n < nat remain \<Longrightarrow> nr_used (mem_blocks k1 b) = BLOCK_AVAIL_SIZE \<and>
       length (file_bytes k1 (xs @ [b])) = length (file_bytes k xs) + unat i + n"
      using random_round [OF Nil(1,3) disjI1 [OF refl] pos Nil(5,6), unfolded append_Nil list.sel(1)] by blast
    show ?thesis
    proof (rule random_compose [OF 1(1-4) _ 1(5) _ Nil(5)])
      show "length (file_bytes k xs) + unat i \<le> length (file_bytes k (xs @ [b]))"
        using length_blk_bytes [OF Nil(1), of b] Nil(3) by (simp add: word_le_nat_alt)
      assume lt: "n < nat remain"
      then have "at_end k1 (xs @ [b]) 0 NULL" using 1(6) by (simp add: at_end_def)
      moreover have "file_ok k1 R hdr (xs @ [b])" using 1(2) by (simp add: wrote_def)
      moreover have "0 \<le> remain - int n" "0 \<le> result + int n" "result + int n + (remain - int n) \<le> int (length buffer)"
        using lt Nil(5,6) by linarith+
      moreover have "overwrite (length (file_bytes k xs) + unat i + n) d (file_bytes k1 (xs @ [b])) = file_bytes k1 (xs @ [b]) @ d" for d
        using overwrite_end [of "file_bytes k1 (xs @ [b])"] 1(6) [OF lt] by metis
      ultimately show "\<exists>m k2 R2 bs2. m \<le> nat (remain - int n) \<and>
        write_random_loop hdr buffer (remain - int n) (result + int n) 0 NULL k1 = Some (result + int n + int m, k2) \<and>
        wrote k1 R hdr (xs @ [b]) k2 R2 bs2 \<and> (m < nat (remain - int n) \<longrightarrow> no_memory k2) \<and>
        file_bytes k2 bs2 = overwrite (length (file_bytes k xs) + unat i + n)
          (take m (drop (nat (result + int n)) buffer)) (file_bytes k1 (xs @ [b]))"
        using append_loops [of k1 R hdr "xs @ [b]" 0 NULL "remain - int n" "result + int n" buffer] by metis
    qed
  qed
next
  case (Cons c ys)
  let ?bs = "xs @ b # c # ys"
  have used: "nr_used (mem_blocks k b) = BLOCK_AVAIL_SIZE" using Cons.prems(2) by (simp add: packed_def butlast_append)
  show ?case
  proof (cases "remain = 0")
    case True
    then show ?thesis using wrote_refl [OF Cons.prems(1)]
      by (subst write_random_loop.simps) (intro exI [of _ 0] exI [of _ k] exI [of _ R] exI [of _ ?bs], simp)
  next
    case False
    then have pos: "remain > 0" using Cons.prems(4) by simp
    obtain n k1 where 1: "n \<le> nat remain" "wrote k R hdr ?bs k1 R ?bs" "length (take n (drop (nat result) buffer)) = n"
      "file_bytes k1 ?bs = overwrite (length (file_bytes k xs) + unat i) (take n (drop (nat result) buffer)) (file_bytes k ?bs)"
      "write_random_loop hdr buffer remain result i b k = (if n < nat remain
        then write_random_loop hdr buffer (remain - int n) (result + int n) 0 c k1 else Some (result + int n, k1))"
      "n < nat remain \<Longrightarrow> length (file_bytes k1 (xs @ [b])) = length (file_bytes k xs) + unat i + n"
      using random_round [OF Cons.prems(1,3) disjI2 [OF used] pos Cons.prems(5,6), unfolded append_Cons list.sel(1)] by blast
    show ?thesis
    proof (rule random_compose [OF 1(1-4) _ 1(5) _ Cons.prems(5)])
      show "length (file_bytes k xs) + unat i \<le> length (file_bytes k ?bs)"
        using length_blk_bytes [OF Cons.prems(1), of b] Cons.prems(3) by (simp add: word_le_nat_alt)
      assume lt: "n < nat remain"
      have "file_ok k1 R hdr ((xs @ [b]) @ c # ys)" "packed k1 ((xs @ [b]) @ c # ys)"
        using 1(2) Cons.prems(2) by (auto simp: wrote_def)
      moreover have "0 \<le> remain - int n" "0 \<le> result + int n" "result + int n + (remain - int n) \<le> int (length buffer)"
        using lt Cons.prems(5,6) by linarith+
      ultimately show "\<exists>m k2 R2 bs2. m \<le> nat (remain - int n) \<and>
        write_random_loop hdr buffer (remain - int n) (result + int n) 0 c k1 = Some (result + int n + int m, k2) \<and>
        wrote k1 R hdr ?bs k2 R2 bs2 \<and> (m < nat (remain - int n) \<longrightarrow> no_memory k2) \<and>
        file_bytes k2 bs2 = overwrite (length (file_bytes k xs) + unat i + n)
          (take m (drop (nat (result + int n)) buffer)) (file_bytes k1 ?bs)"
        using Cons.IH [of k1 "xs @ [b]" c 0 "remain - int n" "result + int n"] 1(6) [OF lt] by simp
    qed
  qed
qed

subsection \<open>Reading\<close>

lemma read_loop_block:
  assumes ok: "file_ok k R hdr (xs @ y # ys)" and offset: "0 \<le> offset" "offset < 2147483648" and remain: "0 < remain"
    and u: "u = int (unat (nr_used (mem_blocks k y)))" and n: "n = min (u - offset) remain"
  shows "read_loop k y offset remain result buffer =
    (if u \<le> offset then read_loop k (hd (ys @ [NULL])) (offset - u) remain result buffer
     else do {
       buffer \<leftarrow> memcpy_at buffer result (blk_content (mem_blocks k y)) offset n;
       read_loop k (hd (ys @ [NULL])) 0 (remain - n) (result + n) buffer
     })"
proof -
  have y: "y \<noteq> NULL" using file_list(2) [OF ok] by auto
  have le: "u \<le> 4084" "0 \<le> u" using ok u by (auto simp: file_ok_def word_le_def)
  have su: "sint (nr_used (mem_blocks k y)) = u" using le u sint_small [of "nr_used (mem_blocks k y)"] by linarith
  have nx: "le_next (lists k y) = hd (ys @ [NULL])" using file_list(4) [OF ok refl] .
  have ign: "(if offset \<noteq> 0 then min u offset else 0) = min u offset" using offset(1) le by auto
  show ?thesis
  proof (cases "u \<le> offset")
    case True
    then show ?thesis using y remain le offset
      by (subst read_loop.simps) (simp add: su ign nx Let_def min_absorb1)
  next
    case False
    then have "min (u - offset) remain \<noteq> 0" using remain by linarith
    then show ?thesis using False y remain le offset
      by (subst read_loop.simps) (simp add: su ign nx Let_def min_absorb2 n)
  qed
qed

lemma read_loop_spec:
  assumes "file_ok k R hdr (xs @ ys)" "0 \<le> offset" "offset < 2147483648" "0 \<le> remain" "0 \<le> result"
    and "result + remain \<le> int (length buffer)"
  shows "\<exists>d. d = take (nat remain) (drop (nat offset) (file_bytes k ys)) \<and>
    read_loop k (hd (ys @ [NULL])) offset remain result buffer =
      Some (result + int (length d), overwrite (nat result) d buffer)"
  using assms
proof (induction ys arbitrary: xs offset remain result buffer)
  case Nil
  show ?case by (subst read_loop.simps) simp
next
  case (Cons y ys)
  let ?c = "blk_content (mem_blocks k y)"
  define u where "u = unat (nr_used (mem_blocks k y))"
  have uu: "int u = int (unat (nr_used (mem_blocks k y)))" by (simp add: u_def)
  have u: "u \<le> 4084" and c: "length ?c = 4084" using Cons.prems(1) by (auto simp: file_ok_def word_le_nat_alt u_def)
  have bytes: "blk_bytes k y = take u ?c" by (simp add: blk_bytes_def u_def)
  have ok: "file_ok k R hdr ((xs @ [y]) @ ys)" using Cons.prems(1) by simp
  show ?case
  proof (cases "remain = 0")
    case True
    then show ?thesis using file_list(2) [OF Cons.prems(1)] by (subst read_loop.simps) auto
  next
    case False
    define n where "n = min (int u - offset) remain"
    note step = read_loop_block [OF Cons.prems(1-3) _ uu n_def]
    show ?thesis
    proof (cases "int u \<le> offset")
      case True
      then have "drop (nat offset) (file_bytes k (y # ys)) = drop (nat (offset - int u)) (file_bytes k ys)"
        using u c by (simp add: bytes nat_diff_distrib le_nat_iff min_absorb2)
      then show ?thesis using Cons.IH [OF ok, of "offset - int u" remain result buffer] Cons.prems step True False by simp
    next
      case off: False
      then have n: "0 < n" "n \<le> remain" "offset + n \<le> int u" using False Cons.prems(4) by (auto simp: n_def)
      let ?d = "take (nat n) (drop (nat offset) ?c)"
      let ?e = "take (nat (remain - n)) (file_bytes k ys)"
      have len: "length ?d = nat n" using n u c Cons.prems(2) by (simp add: min_def) linarith
      have cp: "memcpy_at buffer result ?c offset n = Some (overwrite (nat result) ?d buffer)"
        using memcpy_at_eq [of result offset n buffer ?c] len Cons.prems n u c by (simp add: overwrite_def nat_add_distrib)
      have d: "take (nat remain) (drop (nat offset) (file_bytes k (y # ys))) = ?d @ ?e"
      proof -
        have "min (nat remain) (u - nat offset) = nat n" using Cons.prems(2) off False n unfolding n_def by linarith
        then have "take (nat remain) (drop (nat offset) (take u ?c)) = ?d" by (simp add: drop_take)
        moreover have "nat remain - (u - nat offset) = nat (remain - n)" using Cons.prems(2) off False n unfolding n_def by linarith
        moreover have "nat offset - u = 0" using off by simp
        ultimately show ?thesis using u c by (simp add: bytes min_absorb2)
      qed
      have "nat result + length ?d \<le> length buffer" using len n Cons.prems(5,6) by linarith
      then have "length (overwrite (nat result) ?d buffer) = length buffer" by (rule length_overwrite)
      then have "read_loop k (hd (ys @ [NULL])) 0 (remain - n) (result + n) (overwrite (nat result) ?d buffer) =
          Some (result + n + int (length ?e), overwrite (nat (result + n)) ?e (overwrite (nat result) ?d buffer))"
        using Cons.IH [OF ok, of 0 "remain - n" "result + n" "overwrite (nat result) ?d buffer"] Cons.prems n by simp
      moreover have "overwrite (nat (result + n)) ?e (overwrite (nat result) ?d buffer) = overwrite (nat result) (?d @ ?e) buffer"
        using Cons.prems(4-6) n len by (intro overwrite_append) linarith+
      ultimately show ?thesis unfolding d using step off cp False Cons.prems(4) n(1) len by simp
    qed
  qed
qed

subsection \<open>The operations on a file\<close>

text \<open>A write at an offset of the file, its end included, starts in the block that holds the offset.\<close>

lemma raw_write_random_start:
  assumes ok: "file_ok k R hdr bs" and offset: "unat offset \<le> length (file_bytes k bs)"
  shows "bs = [] \<and> mem_block_raw_write_random hdr offset buffer len k = write_random_loop hdr buffer len 0 0 NULL k \<or>
    (\<exists>as b cs i. bs = as @ b # cs \<and> unat offset = length (file_bytes k as) + unat i \<and> i \<le> nr_used (mem_blocks k b) \<and>
      mem_block_raw_write_random hdr offset buffer len k = write_random_loop hdr buffer len 0 i b k)"
proof (cases "bs = []")
  case True
  then have "offset = 0" using offset by (simp add: unat_eq_zero)
  moreover have "list_first_elem (lists k) hdr = NULL" using file_list(3) [OF ok] True by simp
  moreover have "skip_blocks r h NULL 0 0 = Some (0, 0, NULL)" for r h by (subst skip_blocks.simps) simp
  moreover have "extend_blocks hdr 0 0 NULL k = Some (0, 0, NULL, k)" by (subst extend_blocks.simps) simp
  ultimately show ?thesis using True by (simp add: mem_block_raw_write_random_def)
next
  case False
  obtain as b cs i where s: "bs = as @ b # cs" "unat offset = length (file_bytes k as) + unat i" "i \<le> nr_used (mem_blocks k b)"
    "skip_blocks (\<lambda>b. nr_used (mem_blocks k b)) (lists k) (hd bs) offset 0 = Some (0, i, b)"
    using skip_within [of k R hdr "[]" bs offset 0] ok False offset by auto
  have "extend_blocks hdr 0 i b k = Some (0, i, b, k)" by (subst extend_blocks.simps) simp
  moreover have "list_first_elem (lists k) hdr = hd bs" using file_list(3) [OF ok] False by simp
  ultimately show ?thesis using s by (auto simp: mem_block_raw_write_random_def)
qed

lemma raw_write_random_spec:
  assumes ok: "file_ok k R hdr bs" "packed k bs" and offset: "unat offset \<le> length (file_bytes k bs)"
    and len: "0 \<le> len" "len \<le> int (length buffer)"
  shows "\<exists>n k' R' bs'. n \<le> nat len \<and> mem_block_raw_write_random hdr offset buffer len k = Some (int n, k') \<and>
    wrote k R hdr bs k' R' bs' \<and> (n < nat len \<longrightarrow> no_memory k') \<and>
    file_bytes k' bs' = overwrite (unat offset) (take n buffer) (file_bytes k bs)"
  using raw_write_random_start [OF ok(1) offset, of buffer len]
proof
  assume W: "bs = [] \<and> mem_block_raw_write_random hdr offset buffer len k = write_random_loop hdr buffer len 0 0 NULL k"
  then have "at_end k bs 0 NULL" by (simp add: at_end_def)
  then obtain n k' R' bs' where "n \<le> nat len" "write_random_loop hdr buffer len 0 0 NULL k = Some (0 + int n, k')"
    "wrote k R hdr bs k' R' bs'" "file_bytes k' bs' = file_bytes k bs @ take n (drop (nat 0) buffer)" "n < nat len \<longrightarrow> no_memory k'"
    using append_loops [OF ok(1), of 0 NULL len 0 buffer] len by auto
  then show ?thesis using W offset by (intro exI [of _ n] exI [of _ k'] exI [of _ R'] exI [of _ bs']) (simp add: overwrite_def)
next
  assume "\<exists>as b cs i. bs = as @ b # cs \<and> unat offset = length (file_bytes k as) + unat i \<and> i \<le> nr_used (mem_blocks k b) \<and>
      mem_block_raw_write_random hdr offset buffer len k = write_random_loop hdr buffer len 0 i b k"
  then show ?thesis using random_loop_spec [of k R hdr _ _ _ _ len 0 buffer] ok len by auto
qed

lemma raw_read_spec:
  assumes "file_ok k R hdr bs" "unat offset < 2147483648" "0 \<le> len" "len \<le> int (length buffer)"
    and d: "d = take (nat len) (drop (unat offset) (file_bytes k bs))"
  shows "mem_block_raw_read hdr offset buffer len k = Some (int (length d), d @ drop (length d) buffer)"
proof -
  have s: "sint offset = uint offset" "uint offset < 2147483648"
    using assms(2) sint_small [OF assms(2)] uint_nat [of offset] by linarith+
  have "read_loop k (hd (bs @ [NULL])) (uint offset) len 0 buffer = Some (0 + int (length d), overwrite (nat 0) d buffer)"
    using read_loop_spec [of k R hdr "[]" bs "uint offset" len 0 buffer] assms s(2) by simp
  then show ?thesis using file_list(3) [OF assms(1)] by (simp add: mem_block_raw_read_def overwrite_def s(1))
qed

text \<open>A write to one file and the other files.\<close>

lemma wrote_other:
  assumes w: "wrote k R hdr bs k' R' bs'" and ok: "file_ok k R hdr2 bs2"
    and apart: "insert hdr (set bs) \<inter> insert hdr2 (set bs2) = {}"
  shows "file_ok k' R' hdr2 bs2 \<and> file_bytes k' bs2 = file_bytes k bs2"
proof -
  have same: "mem_blocks k' a = mem_blocks k a \<and> lists k' a = lists k a" if a: "a = hdr2 \<or> a \<in> set bs2" for a
  proof -
    have "unat a \<in> fst ` R" using a ok unfolding file_ok_def by blast
    moreover have "a \<notin> set bs" "a \<noteq> hdr" using a apart by blast+
    ultimately show ?thesis using w unfolding wrote_def blk_frame_def by blast
  qed
  then have "dlist (lists k') hdr2 bs2" using ok by (subst dlist_cong [of _ _ _ "lists k"]) (auto simp: file_ok_def)
  moreover have "fst ` R \<subseteq> fst ` R'" using w by (auto simp: wrote_def)
  ultimately have "file_ok k' R' hdr2 bs2" using w ok same unfolding wrote_def file_ok_def by auto
  then show ?thesis using file_bytes_cong [of bs2 k' k] same by simp
qed

subsection \<open>Properties\<close>

text \<open>A file with five bytes in one block, in the heap that the kernel sets up.\<close>


definition apart :: "addr list \<Rightarrow> bool" where
  "apart ps \<longleftrightarrow> NULL \<notin> set ps \<and> distinct ps"

lemma demo_blocks:
  "\<exists>p q r s R F. heap_rep 0x100000 s R F \<and> apart [p, q, r] \<and> unat ` {p, q, r} \<subseteq> fst ` R"
proof -
  let ?s = "malloc_init 0x100000 firmware_memory"
  have three: "(do { (p, s) \<leftarrow> malloc_align 0x100000 32 1 ?s; (r, s) \<leftarrow> malloc_align 0x100000 32 1 s;
      (q, s) \<leftarrow> malloc_align 0x100000 4096 4096 s; Some (apart [p, q, r]) }) = Some True"
    by code_simp
  obtain p s e F where p: "malloc_align 0x100000 32 1 ?s = Some (p, s)" "p \<noteq> NULL \<longrightarrow> heap_rep 0x100000 s {(unat p, e)} F"
    using malloc_align_spec [OF firmware_heap, of 32 0] by auto
  then have P: "heap_rep 0x100000 s {(unat p, e)} F" using three by (auto simp: apart_def split: bind_splits)
  obtain r s1 e1 F1 where r: "malloc_align 0x100000 32 1 s = Some (r, s1)"
      "r \<noteq> NULL \<longrightarrow> heap_rep 0x100000 s1 {(unat r, e1), (unat p, e)} F1"
    using malloc_align_spec [OF P, of 32 0] by auto
  then have R: "heap_rep 0x100000 s1 {(unat r, e1), (unat p, e)} F1" using three p(1) by (auto simp: apart_def split: bind_splits)
  obtain q s2 e2 F2 where q: "malloc_align 0x100000 4096 4096 s1 = Some (q, s2)"
      "q \<noteq> NULL \<longrightarrow> heap_rep 0x100000 s2 {(unat q, e2), (unat r, e1), (unat p, e)} F2"
    using malloc_align_spec [OF R, of 4096 12] by auto
  have a: "apart [p, q, r]" using three p(1) r(1) q(1) by simp
  then have "heap_rep 0x100000 s2 {(unat q, e2), (unat r, e1), (unat p, e)} F2" using q(2) by (simp add: apart_def)
  moreover have "unat ` {p, q, r} \<subseteq> fst ` {(unat q, e2), (unat r, e1), (unat p, e)}" by auto
  ultimately show ?thesis using a by blast
qed

definition demo_file :: "addr \<Rightarrow> addr \<Rightarrow> malloc_state \<Rightarrow> kernel" where
  "demo_file hdr b s = demo_kernel\<lparr>kheap := s, recycle_bins := 0x100000,
     lists := (\<lambda>_. zero_cell)(hdr := \<lparr>le_prev = b, le_next = b\<rparr>),
     mem_blocks := (\<lambda>_. \<lparr>nr_used = 5, blk_content = replicate 4084 7\<rparr>)\<rparr>"

lemma demo_file_ok:
  assumes "heap_rep 0x100000 s R F" "apart [hdr, b, r]" "unat ` {hdr, b, r} \<subseteq> fst ` R"
  shows "file_ok (demo_file hdr b s) R hdr [b]" "packed (demo_file hdr b s) [b]"
    "file_ok (demo_file hdr b s) R r []" "length (file_bytes (demo_file hdr b s) [b]) = 5"
proof -
  let ?k = "demo_file hdr b s"
  have k: "lists ?k = (\<lambda>_. zero_cell)(hdr := \<lparr>le_prev = b, le_next = b\<rparr>)" "recycle_bins ?k = 0x100000" "kheap ?k = s"
    "mem_blocks ?k = (\<lambda>_. \<lparr>nr_used = 5, blk_content = replicate 4084 7\<rparr>)" by (simp_all add: demo_file_def)
  have "dlist (lists ?k) hdr [b]" "dlist (lists ?k) r []"
    using assms(2) by (auto simp: k(1) dlist_def apart_def zero_cell_def)
  then show "file_ok ?k R hdr [b]" "file_ok ?k R r []"
    using assms(1,3) unfolding file_ok_def k(2-4) by auto
  show "packed ?k [b]" by (simp add: packed_def)
  show "length (file_bytes ?k [b]) = 5" by (simp add: k(4) blk_bytes_def)
qed

text \<open>C33. Writing at the end of a file is appending: the function that writes at an offset, called
  with the size of the file, returns, and gives the same count and the same state of the whole
  kernel as the function that appends, when memory runs out as well.\<close>

theorem write_at_end_is_append:
  assumes ok: "file_ok k R hdr bs" and used: "bs \<noteq> [] \<Longrightarrow> nr_used (mem_blocks k (last bs)) \<noteq> 0"
    and n: "length (file_bytes k bs) < 2 ^ 32" and len: "0 \<le> len" "len \<le> int (length buffer)"
  shows "mem_block_raw_write_random hdr (of_nat (length (file_bytes k bs))) buffer len k =
      mem_block_raw_write_sequential hdr buffer len k \<and>
    mem_block_raw_write_sequential hdr buffer len k \<noteq> None"
proof -
  let ?o = "of_nat (length (file_bytes k bs)) :: u32"
  have o: "unat ?o = length (file_bytes k bs)" using n by (intro unat_of_nat_id) simp
  obtain i b where w: "at_end k bs i b" "mem_block_raw_write_random hdr ?o buffer len k = write_random_loop hdr buffer len 0 i b k"
    using raw_write_random_start [OF ok eq_refl [OF o], of buffer len]
  proof (elim disjE exE conjE, goal_cases)
    case 1
    then show ?thesis using that [of 0 NULL] by (simp add: at_end_def)
  next
    case (2 as b cs i)
    have "length (blk_bytes k b) = unat (nr_used (mem_blocks k b))" using length_blk_bytes [OF ok, of b] 2(2) by simp
    then have i: "unat i = unat (nr_used (mem_blocks k b))" "file_bytes k cs = []"
      using 2(2-4) o by (auto simp: word_le_nat_alt)
    have "cs = []"
    proof (rule ccontr)
      assume "cs \<noteq> []"
      then have "last cs \<in> set bs" "last bs = last cs" "last cs \<in> set cs" using 2(2) by auto
      then have "blk_bytes k (last cs) \<noteq> []"
        using used length_blk_bytes [OF ok, of "last cs"] 2(2) by (auto simp: unat_eq_zero)
      then show False using i(2) \<open>last cs \<in> set cs\<close> by (auto simp: file_bytes_def)
    qed
    moreover have "i = nr_used (mem_blocks k b)" using i(1) by (simp add: word_unat_eq_iff)
    ultimately show ?thesis using that [of i b] 2(2,5) by (simp add: at_end_def)
  qed
  have seq: "mem_block_raw_write_sequential hdr buffer len k = write_sequential_loop hdr buffer len 0 k"
    using len(1) by (cases "len = 0") (simp add: mem_block_raw_write_sequential_def, subst write_sequential_loop.simps,
      simp_all add: mem_block_raw_write_sequential_def)
  show ?thesis using append_loops [OF ok w(1) len(1), of 0 buffer] len(2) unfolding w(2) seq by auto
qed

theorem write_at_end_is_append_witness:
  "\<exists>k hdr. mem_block_raw_write_random hdr 5 [1, 2, 3] 3 k = mem_block_raw_write_sequential hdr [1, 2, 3] 3 k \<and>
     mem_block_raw_write_sequential hdr [1, 2, 3] 3 k \<noteq> None"
proof -
  obtain p q r s R F where d: "heap_rep 0x100000 s R F" "apart [p, q, r]" "unat ` {p, q, r} \<subseteq> fst ` R"
    using demo_blocks by blast
  note f = demo_file_ok [OF d]
  have "nr_used (mem_blocks (demo_file p q s) (last [q])) \<noteq> 0" by (simp add: demo_file_def)
  then show ?thesis using write_at_end_is_append [OF f(1), of 3 "[1, 2, 3]"] f(4) by auto
qed

text \<open>C34. Let a file be packed: only its last block has room. Writing \<open>len\<close> bytes at an offset within
  it, its end included, returns the number of bytes written, which is \<open>len\<close> unless memory ran out.
  The bytes of the file from the offset on are then those of the buffer, and the file is longer if
  they reach behind its end. The file stays packed. Reading the same range back gives what was
  written, and the other files of the kernel keep their blocks and their bytes.\<close>

theorem write_then_read:
  assumes ok: "file_ok k R hdr bs" "packed k bs" and offset: "unat offset \<le> length (file_bytes k bs)" "unat offset < 2 ^ 31"
    and len: "0 \<le> len" "len \<le> int (length buffer)" "len \<le> int (length out)"
    and other: "file_ok k R hdr2 bs2" "insert hdr (set bs) \<inter> insert hdr2 (set bs2) = {}"
  shows "\<exists>n k' R' bs'. mem_block_raw_write_random hdr offset buffer len k = Some (int n, k') \<and>
    n \<le> nat len \<and> (n < nat len \<longrightarrow> no_memory k') \<and> file_ok k' R' hdr bs' \<and> packed k' bs' \<and>
    file_bytes k' bs' = overwrite (unat offset) (take n buffer) (file_bytes k bs) \<and>
    mem_block_raw_read hdr offset out (int n) k' = Some (int n, take n buffer @ drop n out) \<and>
    file_ok k' R' hdr2 bs2 \<and> file_bytes k' bs2 = file_bytes k bs2"
proof -
  obtain n k' R' bs' where w: "n \<le> nat len" "mem_block_raw_write_random hdr offset buffer len k = Some (int n, k')"
    "wrote k R hdr bs k' R' bs'" "n < nat len \<longrightarrow> no_memory k'"
    "file_bytes k' bs' = overwrite (unat offset) (take n buffer) (file_bytes k bs)"
    using raw_write_random_spec [OF ok offset(1) len(1,2)] by blast
  have ok': "file_ok k' R' hdr bs'" "packed k' bs'" using w(3) ok(2) by (auto simp: wrote_def)
  have n: "int n \<le> int (length out)" "length (take n buffer) = n" using w(1) len by auto
  have "take n buffer = take (nat (int n)) (drop (unat offset) (file_bytes k' bs'))"
    using w(5) offset(1) n(2) by (simp add: overwrite_def min_absorb2)
  then have "mem_block_raw_read hdr offset out (int n) k' = Some (int n, take n buffer @ drop n out)"
    using raw_read_spec [OF ok'(1), of offset "int n" out "take n buffer"] offset(2) n by simp
  then show ?thesis using w ok' wrote_other [OF w(3) other] by blast
qed

theorem write_then_read_witness:
  "\<exists>k hdr n k'. mem_block_raw_write_random hdr 4 [1, 2, 3] 3 k = Some (int n, k') \<and> n \<le> 3 \<and>
     mem_block_raw_read hdr 4 [0, 0, 0, 0] (int n) k' = Some (int n, take n [1, 2, 3] @ drop n [0, 0, 0, 0])"
proof -
  obtain p q r s R F where d: "heap_rep 0x100000 s R F" "apart [p, q, r]" "unat ` {p, q, r} \<subseteq> fst ` R"
    using demo_blocks by blast
  note f = demo_file_ok [OF d]
  have "insert p (set [q]) \<inter> insert r (set []) = {}" using d(2) by (auto simp: apart_def)
  from write_then_read [OF f(1,2) _ _ _ _ _ f(3) this, of 4 3 "[1, 2, 3]" "[0, 0, 0, 0]"] f(4)
  show ?thesis by auto
qed

end
