(* ===== verification/Fs_Hierarchy.thy ===== *)
theory Fs_Hierarchy
  imports Memfs_Block Heap_Sort
begin

section \<open>The tree of files (\<^verbatim>\<open>filesystem/fs_hierarchy.c\<close>)\<close>

text \<open>
  Each file system keeps its files in a tree. The root, and the first child of every
  directory, is a nameless file of type \<^verbatim>\<open>FILE_TYPE_MARK\<close>, so a directory is the
  chain of siblings that starts with its mark. A \<^verbatim>\<open>struct file\<close> embeds its tree node; the node lives in
  the memory of tree nodes at the address of the file plus 256, and its list cell in the memory of
  list cells. The pieces of a path, \<^verbatim>\<open>splitted_path[0]\<close> to \<^verbatim>\<open>splitted_path[iptr - 1]\<close>, are a list of
  strings.
\<close>

abbreviation (input) FILE_TYPE_NONE :: u8 where "FILE_TYPE_NONE \<equiv> 0"
abbreviation (input) FILE_TYPE_MARK :: u8 where "FILE_TYPE_MARK \<equiv> 1"
abbreviation (input) FILE_TYPE_REGULAR :: u8 where "FILE_TYPE_REGULAR \<equiv> 2"
abbreviation (input) FILE_TYPE_DIR :: u8 where "FILE_TYPE_DIR \<equiv> 3"
abbreviation (input) SIZEOF_FILE :: int where "SIZEOF_FILE \<equiv> 296"

definition fs_node :: "addr \<Rightarrow> addr" where "fs_node f = f + 256"
definition node_file :: "addr \<Rightarrow> addr" where "node_file n = n - 256"

definition upd_file :: "addr \<Rightarrow> (vfile \<Rightarrow> vfile) \<Rightarrow> kernel \<Rightarrow> kernel" where
  "upd_file f g k = k\<lparr>files := (files k)(f := g (files k f))\<rparr>"

definition zero_file :: vfile where
  "zero_file = \<lparr>f_name = replicate 256 0, f_type = 0, f_mode = 0, refer_count = 0, f_ops = NULL, f_priv = NULL\<rparr>"

text \<open>\<^verbatim>\<open>memset\<close> of a whole \<^verbatim>\<open>struct file\<close>.\<close>

definition clear_file :: "addr \<Rightarrow> kernel \<Rightarrow> kernel" where
  "clear_file f k = k\<lparr>files := (files k)(f := zero_file),
     trees := (trees k)(fs_node f := \<lparr>parent = NULL, left = NULL, right = NULL\<rparr>),
     lists := (lists k)(node_list (fs_node f) := zero_cell)\<rparr>"

subsection \<open>Search\<close>

text \<open>The loop over the siblings of a node, the node itself included, for a file with the given name.\<close>

partial_function (option) find_entry :: "kernel \<Rightarrow> u8 list \<Rightarrow> addr \<Rightarrow> addr option option" where
  "find_entry k nm sib =
     (if sib = NULL then Some None
      else do {
        r \<leftarrow> strcmp (f_name (files k (node_file sib))) nm;
        if r = 0 then Some (Some (node_file sib))
        else find_entry k nm (right (trees k sib))
      })"

definition find_sibling :: "kernel \<Rightarrow> addr \<Rightarrow> u8 list \<Rightarrow> addr option option" where
  "find_sibling k current_node nm =
     (if current_node = NULL then Some None
      else do { sib \<leftarrow> first_sibling (trees k) current_node; find_entry k nm sib })"

fun search_loop :: "kernel \<Rightarrow> addr \<Rightarrow> u8 list list \<Rightarrow> addr \<Rightarrow> addr option" where
  "search_loop k current_node [] file = Some file"
| "search_loop k current_node (nm # nms) file = do {
     r \<leftarrow> find_sibling k current_node nm;
     case r of
       None \<Rightarrow> Some NULL
     | Some f \<Rightarrow> search_loop k (left (trees k (fs_node f))) nms f
   }"

definition hierarchy_search_file :: "addr \<Rightarrow> u8 list list \<Rightarrow> kernel \<Rightarrow> addr option" where
  "hierarchy_search_file root_node splitted_path k = search_loop k root_node splitted_path NULL"

subsection \<open>Creation\<close>

text \<open>A new entry among the siblings of a node.\<close>

definition new_entry :: "addr \<Rightarrow> u8 list \<Rightarrow> u8 \<Rightarrow> addr \<Rightarrow> kernel \<Rightarrow> kernel option" where
  "new_entry current_node nm type file k = do {
     let k = clear_file file k;
     str \<leftarrow> strcpy_safe (f_name (files k file)) nm 256;
     let k = upd_file file (\<lambda>x. x\<lparr>f_name := str, f_type := type, f_mode := 0, f_priv := NULL\<rparr>) k;
     (r, t) \<leftarrow> add_sibling (trees k) current_node (fs_node file);
     kassert (r = 0);
     Some (k\<lparr>trees := t\<rparr>)
   }"

text \<open>The mark of a directory that has none: \<open>False\<close> when there is no memory.\<close>

definition ensure_mark :: "addr \<Rightarrow> kernel \<Rightarrow> (bool \<times> kernel) option" where
  "ensure_mark current_node k =
     (if left (trees k current_node) = NULL
      then do {
        (file, k) \<leftarrow> kmalloc SIZEOF_FILE k;
        if file = NULL then Some (False, k)
        else do {
          let k = upd_file file (\<lambda>x. x\<lparr>f_type := FILE_TYPE_MARK\<rparr>) (clear_file file k);
          (r, t) \<leftarrow> add_child (trees k) current_node (fs_node file);
          kassert (r = 0);
          Some (True, k\<lparr>trees := t\<rparr>)
        }
      }
      else Some (True, k))"

fun hierarchy_create_directory :: "addr \<Rightarrow> u8 list list \<Rightarrow> kernel \<Rightarrow> (int \<times> kernel) option" where
  "hierarchy_create_directory current_node [] k = Some (OK, k)"
| "hierarchy_create_directory current_node (nm # nms) k = do {
     r \<leftarrow> find_sibling k current_node nm;
     (err, file, k) \<leftarrow> (case r of
         Some file \<Rightarrow>
           Some (if f_type (files k file) \<noteq> FILE_TYPE_DIR then - ERR_EXIST else OK, file, k)
       | None \<Rightarrow> do {
           (file, k) \<leftarrow> kmalloc SIZEOF_FILE k;
           if file = NULL then Some (- ERR_OUT_OF_MEMORY, file, k)
           else do { k \<leftarrow> new_entry current_node nm FILE_TYPE_DIR file k; Some (OK, file, k) }
         });
     if err \<noteq> OK then Some (err, k)
     else do {
       kassert (file \<noteq> NULL);
       (marked, k) \<leftarrow> ensure_mark (fs_node file) k;
       if \<not> marked then Some (- ERR_OUT_OF_MEMORY, k)
       else hierarchy_create_directory (left (trees k (fs_node file))) nms k
     }
   }"

text \<open>The directory that a path without its last piece leads to; \<open>None\<close> when a piece is missing.\<close>

fun walk_path :: "kernel \<Rightarrow> addr \<Rightarrow> u8 list list \<Rightarrow> addr option option" where
  "walk_path k current_node [] = Some (Some current_node)"
| "walk_path k current_node (nm # nms) = do {
     r \<leftarrow> find_sibling k current_node nm;
     case r of
       None \<Rightarrow> Some None
     | Some f \<Rightarrow> walk_path k (left (trees k (fs_node f))) nms
   }"

text \<open>The result of \<^verbatim>\<open>malloc\<close> is not checked here.\<close>

definition hierarchy_create_file :: "addr \<Rightarrow> u8 list list \<Rightarrow> kernel \<Rightarrow> (int \<times> kernel) option" where
  "hierarchy_create_file root_node splitted_path k =
     (if splitted_path = [] then Some (- ERR_INVALID_ARG, k)
      else do {
        r \<leftarrow> walk_path k root_node (butlast splitted_path);
        case r of
          None \<Rightarrow> Some (- ERR_NOT_PRESENT, k)
        | Some current_node \<Rightarrow> do {
            r \<leftarrow> find_sibling k current_node (last splitted_path);
            case r of
              Some _ \<Rightarrow> Some (- ERR_EXIST, k)
            | None \<Rightarrow> do {
                (file, k) \<leftarrow> kmalloc SIZEOF_FILE k;
                k \<leftarrow> new_entry current_node (last splitted_path) FILE_TYPE_REGULAR file k;
                Some (OK, k)
              }
          }
      })"

subsection \<open>Removal\<close>

text \<open>A file and everything below it is released in a breadth-first walk; \<open>q\<close> is the address of the
  local variable \<^verbatim>\<open>queue\<close> and \<open>per_file_free\<close> the function that releases one file.\<close>

definition enqueue_file :: "addr \<Rightarrow> addr \<Rightarrow> kernel \<Rightarrow> kernel option" where
  "enqueue_file q node k = do { c \<leftarrow> enqueue_node q node (lists k); Some (k\<lparr>lists := c\<rparr>) }"

partial_function (option) delete_loop :: "(addr \<Rightarrow> kernel \<Rightarrow> kernel option) \<Rightarrow> addr \<Rightarrow> kernel \<Rightarrow> kernel option" where
  "delete_loop per_file_free q k =
     (if list_empty (lists k) q then Some k
      else do {
        (l, c) \<leftarrow> list_fetch (lists k) q;
        kassert (l \<noteq> NULL);
        let k = k\<lparr>lists := c\<rparr>;
        let node = list_node l;
        k \<leftarrow> (if left (trees k node) \<noteq> NULL then enqueue_file q (left (trees k node)) k else Some k);
        k \<leftarrow> (if right (trees k node) \<noteq> NULL then enqueue_file q (right (trees k node)) k else Some k);
        k \<leftarrow> per_file_free (node_file node) k;
        delete_loop per_file_free q k
      })"

definition hierarchy_delete_file ::
    "addr \<Rightarrow> addr \<Rightarrow> u8 list list \<Rightarrow> (addr \<Rightarrow> kernel \<Rightarrow> kernel option) \<Rightarrow> kernel \<Rightarrow> (int \<times> kernel) option" where
  "hierarchy_delete_file q root_node splitted_path per_file_free k = do {
     let k = k\<lparr>lists := list_init (lists k) q\<rparr>;
     file \<leftarrow> hierarchy_search_file root_node splitted_path k;
     if file = NULL then Some (- ERR_NOT_FOUND, k)
     else do {
       (_, t) \<leftarrow> generic_delete_node (trees k) (fs_node file);
       k \<leftarrow> enqueue_file q (fs_node file) (k\<lparr>trees := t\<rparr>);
       k \<leftarrow> delete_loop per_file_free q k;
       Some (OK, k)
     }
   }"

declare find_entry.simps [code] delete_loop.simps [code]

end
