(* ===== verification/Vfs.thy ===== *)
theory Vfs
  imports Fs_Hierarchy
begin

section \<open>The virtual file system (\<^verbatim>\<open>filesystem/vfs.c\<close>)\<close>

text \<open>
  A file has a table of operations, and so has a file system; an operation that a table lacks is
  \<open>None\<close>. The kernel finds a table by its address, so the functions here have the arguments \<open>fops\<close> and \<open>fsops\<close>,
  which give the table at an address. An operation that fills a buffer
  returns it. Buffers are lists of bytes.
\<close>

record stat_buf =
  st_mode :: u32
  st_size :: u32

record dirent =
  de_size :: u32
  de_type :: u32
  de_name :: "u8 list"

record file_operation =
  fo_isatty :: "(addr \<Rightarrow> kernel \<Rightarrow> int option) option"
  fo_size :: "(addr \<Rightarrow> kernel \<Rightarrow> int option) option"
  fo_stat :: "(addr \<Rightarrow> stat_buf \<Rightarrow> kernel \<Rightarrow> (int \<times> stat_buf) option) option"
  fo_read :: "(addr \<Rightarrow> u32 \<Rightarrow> u8 list \<Rightarrow> int \<Rightarrow> kernel \<Rightarrow> (int \<times> u8 list \<times> kernel) option) option"
  fo_write :: "(addr \<Rightarrow> u32 \<Rightarrow> u8 list \<Rightarrow> int \<Rightarrow> kernel \<Rightarrow> (int \<times> kernel) option) option"
  fo_truncate :: "(addr \<Rightarrow> u32 \<Rightarrow> kernel \<Rightarrow> (int \<times> kernel) option) option"
  fo_ioctl :: "(addr \<Rightarrow> u32 \<Rightarrow> u32 \<Rightarrow> u32 \<Rightarrow> kernel \<Rightarrow> (int \<times> kernel) option) option"

record filesystem_operation =
  fs_open :: "(addr \<Rightarrow> u8 list \<Rightarrow> kernel \<Rightarrow> addr option) option"
  fs_create :: "(addr \<Rightarrow> u8 list \<Rightarrow> u32 \<Rightarrow> kernel \<Rightarrow> (addr \<times> kernel) option) option"
  fs_mkdir :: "(addr \<Rightarrow> u8 list \<Rightarrow> kernel \<Rightarrow> (addr \<times> kernel) option) option"
  fs_delete :: "(addr \<Rightarrow> u8 list \<Rightarrow> kernel \<Rightarrow> (int \<times> kernel) option) option"

abbreviation (input) SEEK_SET :: u32 where "SEEK_SET \<equiv> 0"
abbreviation (input) SEEK_CUR :: u32 where "SEEK_CUR \<equiv> 1"
abbreviation (input) SEEK_END :: u32 where "SEEK_END \<equiv> 2"

subsection \<open>Paths\<close>

text \<open>The common start of the operations on a path: the mounted file system that serves the path
  with its index in the table, and the rest of the path there. \<open>None\<close> when no file system is mounted there.\<close>

definition resolve_path :: "kernel \<Rightarrow> u8 list \<Rightarrow> (nat \<times> addr \<times> u8 list) option option" where
  "resolve_path k path = do {
     i \<leftarrow> search_mount_entry (mount_entries k) path;
     if i < 0 then Some None
     else do {
       m \<leftarrow> arr_get (mount_entries k) i;
       sub_path \<leftarrow> resolve_subpath (replicate 256 0) path m;
       Some (Some (nat i, me_fs m, sub_path))
     }
   }"

definition do_vfs_open ::
    "(addr \<Rightarrow> filesystem_operation) \<Rightarrow> u8 list \<Rightarrow> u32 \<Rightarrow> u32 \<Rightarrow> kernel \<Rightarrow> (addr \<times> kernel) option" where
  "do_vfs_open fsops path flags mode k = do {
     r \<leftarrow> resolve_path k path;
     case r of
       None \<Rightarrow> Some (NULL, k)
     | Some (_, fsys, sub_path) \<Rightarrow> do {
         opn \<leftarrow> fs_open (fsops (fs_ops (file_systems k fsys)));
         file \<leftarrow> opn fsys sub_path k;
         if file = NULL then Some (NULL, k)
         else Some (file, upd_file file (\<lambda>x. x\<lparr>refer_count := refer_count x + 1\<rparr>) k)
       }
   }"

definition do_vfs_create ::
    "(addr \<Rightarrow> filesystem_operation) \<Rightarrow> u8 list \<Rightarrow> u32 \<Rightarrow> u32 \<Rightarrow> kernel \<Rightarrow> (addr \<times> kernel) option" where
  "do_vfs_create fsops path flags mode k = do {
     r \<leftarrow> resolve_path k path;
     case r of
       None \<Rightarrow> Some (NULL, k)
     | Some (_, fsys, sub_path) \<Rightarrow> do {
         (file, k) \<leftarrow> (case fs_create (fsops (fs_ops (file_systems k fsys))) of
             None \<Rightarrow> Some (NULL, k)
           | Some create \<Rightarrow> create fsys sub_path mode k);
         Some (file, if file \<noteq> NULL then upd_file file (\<lambda>x. x\<lparr>f_mode := mode\<rparr>) k else k)
       }
   }"

definition do_vfs_directory_create ::
    "(addr \<Rightarrow> filesystem_operation) \<Rightarrow> u8 list \<Rightarrow> kernel \<Rightarrow> (addr \<times> kernel) option" where
  "do_vfs_directory_create fsops path k = do {
     r \<leftarrow> resolve_path k path;
     case r of
       None \<Rightarrow> Some (NULL, k)
     | Some (_, fsys, sub_path) \<Rightarrow>
         (case fs_mkdir (fsops (fs_ops (file_systems k fsys))) of
            None \<Rightarrow> Some (NULL, k)
          | Some mkdir \<Rightarrow> mkdir fsys sub_path k)
   }"

definition do_vfs_path_delete ::
    "(addr \<Rightarrow> filesystem_operation) \<Rightarrow> u8 list \<Rightarrow> kernel \<Rightarrow> (int \<times> kernel) option" where
  "do_vfs_path_delete fsops path k = do {
     r \<leftarrow> resolve_path k path;
     case r of
       None \<Rightarrow> Some (- ERR_INVALID_ARG, k)
     | Some (_, fsys, sub_path) \<Rightarrow> do {
         opn \<leftarrow> fs_open (fsops (fs_ops (file_systems k fsys)));
         file \<leftarrow> opn fsys sub_path k;
         if file = NULL then Some (- ERR_NOT_FOUND, k)
         else if refer_count (files k file) \<noteq> 0 then Some (- ERR_IN_USE, k)
         else
           (case fs_delete (fsops (fs_ops (file_systems k fsys))) of
              None \<Rightarrow> Some (- ERR_NOT_SUPPORTED, k)
            | Some delete \<Rightarrow> delete fsys sub_path k)
       }
   }"

text \<open>The table of operations is read without a check that there is one. The record keeps the two
  members of \<^verbatim>\<open>struct stat\<close> that the kernel ever sets.\<close>

definition do_vfs_stat ::
    "(addr \<Rightarrow> filesystem_operation) \<Rightarrow> (addr \<Rightarrow> file_operation) \<Rightarrow> u8 list \<Rightarrow> stat_buf \<Rightarrow> kernel \<Rightarrow> (int \<times> stat_buf) option" where
  "do_vfs_stat fsops fops path buf k = do {
     r \<leftarrow> resolve_path k path;
     case r of
       None \<Rightarrow> Some (- ERR_INVALID_ARG, buf)
     | Some (_, fsys, sub_path) \<Rightarrow> do {
         opn \<leftarrow> fs_open (fsops (fs_ops (file_systems k fsys)));
         file \<leftarrow> opn fsys sub_path k;
         if file = NULL then Some (- ERR_NOT_FOUND, buf)
         else
           (case fo_stat (fops (f_ops (files k file))) of
              None \<Rightarrow> Some (- ERR_NOT_SUPPORTED, buf)
            | Some stat \<Rightarrow> stat file \<lparr>st_mode = 0, st_size = 0\<rparr> k)
       }
   }"

subsection \<open>Open files\<close>

text \<open>These operations work on a \<^verbatim>\<open>struct file_entry\<close>, which they return with its new offset.\<close>

definition do_vfs_read ::
    "(addr \<Rightarrow> file_operation) \<Rightarrow> file_entry \<Rightarrow> u8 list \<Rightarrow> int \<Rightarrow> kernel \<Rightarrow> (int \<times> u8 list \<times> file_entry \<times> kernel) option" where
  "do_vfs_read fops fe buffer len k = do {
     kassert (f_ops (files k (fe_file fe)) \<noteq> NULL);
     read \<leftarrow> fo_read (fops (f_ops (files k (fe_file fe))));
     (result, buffer, k) \<leftarrow> read (fe_file fe) (fe_offset fe) buffer len k;
     Some (result, buffer, if result > 0 then fe\<lparr>fe_offset := fe_offset fe + of_int result\<rparr> else fe, k)
   }"

definition do_vfs_write ::
    "(addr \<Rightarrow> file_operation) \<Rightarrow> file_entry \<Rightarrow> u8 list \<Rightarrow> int \<Rightarrow> kernel \<Rightarrow> (int \<times> file_entry \<times> kernel) option" where
  "do_vfs_write fops fe buffer len k = do {
     kassert (f_ops (files k (fe_file fe)) \<noteq> NULL);
     writ \<leftarrow> fo_write (fops (f_ops (files k (fe_file fe))));
     if \<not> fe_writable fe then Some (- ERR_NOT_SUPPORTED, fe, k)
     else do {
       (result, k) \<leftarrow> writ (fe_file fe) (fe_offset fe) buffer len k;
       Some (result, if result > 0 then fe\<lparr>fe_offset := fe_offset fe + of_int result\<rparr> else fe, k)
     }
   }"

definition do_vfs_lseek ::
    "(addr \<Rightarrow> file_operation) \<Rightarrow> file_entry \<Rightarrow> u32 \<Rightarrow> u32 \<Rightarrow> kernel \<Rightarrow> (int \<times> file_entry) option" where
  "do_vfs_lseek fops fe offset whence k = do {
     fe \<leftarrow> (if whence = SEEK_SET then Some (fe\<lparr>fe_offset := offset\<rparr>)
           else if whence = SEEK_CUR then Some (fe\<lparr>fe_offset := fe_offset fe + offset\<rparr>)
           else if whence = SEEK_END then do {
             kassert (f_ops (files k (fe_file fe)) \<noteq> NULL);
             sz \<leftarrow> fo_size (fops (f_ops (files k (fe_file fe))));
             n \<leftarrow> sz (fe_file fe) k;
             Some (fe\<lparr>fe_offset := of_int n + offset\<rparr>)
           }
           else Some fe);
     Some (sint (fe_offset fe), fe)
   }"

definition do_vfs_truncate ::
    "(addr \<Rightarrow> file_operation) \<Rightarrow> file_entry \<Rightarrow> u32 \<Rightarrow> kernel \<Rightarrow> (int \<times> kernel) option" where
  "do_vfs_truncate fops fe offset k = do {
     kassert (f_ops (files k (fe_file fe)) \<noteq> NULL);
     case fo_truncate (fops (f_ops (files k (fe_file fe)))) of
       None \<Rightarrow> Some (- ERR_NOT_SUPPORTED, k)
     | Some trunc \<Rightarrow> trunc (fe_file fe) offset k
   }"

subsection \<open>Directories\<close>

text \<open>The array of directory entries is a list of \<open>count\<close> entries or more; \<open>nr_entry\<close> of them are in
  use.\<close>

definition put_dir_entry ::
    "(addr \<Rightarrow> file_operation) \<Rightarrow> dirent list \<Rightarrow> nat \<Rightarrow> addr \<Rightarrow> kernel \<Rightarrow> dirent list option" where
  "put_dir_entry fops dirp iptr file k = do {
     let f = files k file;
     kassert (iptr < length dirp);
     nm \<leftarrow> strcpy_safe (de_name (dirp ! iptr)) (f_name f) 256;
     sz \<leftarrow> (if f_type f = FILE_TYPE_MARK \<or> f_type f = FILE_TYPE_DIR then Some 0
           else if f_type f = FILE_TYPE_REGULAR then do {
             kassert (f_ops f \<noteq> NULL);
             case fo_size (fops (f_ops f)) of None \<Rightarrow> Some 0 | Some sz \<Rightarrow> sz file k
           }
           else None);
     Some (dirp[iptr := \<lparr>de_size = of_int sz, de_type = ucast (f_type f), de_name = nm\<rparr>])
   }"

partial_function (option) put_siblings ::
    "(addr \<Rightarrow> file_operation) \<Rightarrow> kernel \<Rightarrow> addr \<Rightarrow> nat \<Rightarrow> nat \<Rightarrow> dirent list \<Rightarrow> (nat \<times> dirent list) option" where
  "put_siblings fops k sib count nr_entry dirp =
     (if sib = NULL then Some (nr_entry, dirp)
      else if nr_entry < count then do {
        dirp \<leftarrow> put_dir_entry fops dirp nr_entry (node_file sib) k;
        put_siblings fops k (right (trees k sib)) count (nr_entry + 1) dirp
      }
      else Some (nr_entry, dirp))"

definition put_directory ::
    "(addr \<Rightarrow> file_operation) \<Rightarrow> kernel \<Rightarrow> addr \<Rightarrow> nat \<Rightarrow> dirent list \<Rightarrow> (nat \<times> dirent list) option" where
  "put_directory fops k node count dirp =
     (if node = NULL then Some (0, dirp)
      else do { sib \<leftarrow> first_sibling (trees k) node; put_siblings fops k sib count 0 dirp })"

text \<open>The mount points below the current one; a path ends at its first slash.\<close>

definition cut_at_slash :: "u8 list \<Rightarrow> u8 list" where
  "cut_at_slash p = (if SLASH \<in> set (cstr p) then p[length (takeWhile (\<lambda>c. c \<noteq> SLASH) p) := 0] else p)"

fun put_mount_points ::
    "mount_entry \<Rightarrow> nat \<Rightarrow> nat \<Rightarrow> mount_entry list \<Rightarrow> nat \<Rightarrow> nat \<Rightarrow> dirent list \<Rightarrow> (nat \<times> dirent list) option" where
  "put_mount_points m i idx [] count nr_entry dirp = Some (nr_entry, dirp)"
| "put_mount_points m i idx (e # rest) count nr_entry dirp =
     (if \<not> me_valid e \<or> idx = i then put_mount_points m i (idx + 1) rest count nr_entry dirp
      else do {
        r \<leftarrow> start_with (mount_point e) (mount_point m);
        if r \<noteq> 0 then put_mount_points m i (idx + 1) rest count nr_entry dirp
        else do {
          sub_path \<leftarrow> resolve_subpath (replicate 256 0) (mount_point e) m;
          let sub_path = cut_at_slash sub_path;
          if nr_entry < count
          then do {
            kassert (nr_entry < length dirp);
            nm \<leftarrow> strcpy_safe (de_name (dirp ! nr_entry)) sub_path 256;
            put_mount_points m i (idx + 1) rest count (nr_entry + 1)
              (dirp[nr_entry := \<lparr>de_size = 0, de_type = ucast FILE_TYPE_DIR, de_name = nm\<rparr>])
          }
          else Some (nr_entry, dirp)
        }
      })"

text \<open>When the path leads to no file, the code reads the type through a null pointer.\<close>

definition do_vfs_getdents ::
    "(addr \<Rightarrow> filesystem_operation) \<Rightarrow> (addr \<Rightarrow> file_operation) \<Rightarrow> u8 list \<Rightarrow> dirent list \<Rightarrow> int \<Rightarrow> kernel \<Rightarrow> (int \<times> dirent list) option" where
  "do_vfs_getdents fsops fops path dirp count k = do {
     r \<leftarrow> resolve_path k path;
     case r of
       None \<Rightarrow> Some (- ERR_INVALID_ARG, dirp)
     | Some (i, fsys, sub_path) \<Rightarrow> do {
         opn \<leftarrow> fs_open (fsops (fs_ops (file_systems k fsys)));
         file \<leftarrow> opn fsys sub_path k;
         let type = f_type (files k file);
         (nr_entry, dirp) \<leftarrow>
           (if file = NULL then Some (0, dirp)
            else if type = FILE_TYPE_REGULAR then
              (if 0 < count then do { dirp \<leftarrow> put_dir_entry fops dirp 0 file k; Some (1, dirp) } else Some (0, dirp))
            else if type = FILE_TYPE_DIR then put_directory fops k (left (trees k (fs_node file))) (nat count) dirp
            else if type = FILE_TYPE_MARK then put_directory fops k (fs_node file) (nat count) dirp
            else Some (0, dirp));
         (nr_entry, dirp) \<leftarrow>
           (if type = FILE_TYPE_MARK
            then put_mount_points (mount_entries k ! i) i 0 (mount_entries k) (nat count) nr_entry dirp
            else Some (nr_entry, dirp));
         Some (int nr_entry, dirp)
       }
   }"

declare put_siblings.simps [code]

end
