(* ===== verification/File_Systems.thy ===== *)
theory File_Systems
  imports Vfs
begin

section \<open>The file systems (\<^verbatim>\<open>memfs.c\<close>, \<^verbatim>\<open>devfs.c\<close>, \<^verbatim>\<open>zeldafs.c\<close>, \<^verbatim>\<open>dummyfs.c\<close> in \<^verbatim>\<open>filesystem/\<close>)\<close>

text \<open>
  The operations of each file system and its tables. The linker chooses the addresses of the
  tables and of the files that are the roots; they are arguments where the code takes them. \<open>q\<close> is the
  address of a local list head.
\<close>

abbreviation (input) ZELDA_FS :: u32 where "ZELDA_FS \<equiv> 0"
abbreviation (input) MEM_FS :: u32 where "MEM_FS \<equiv> 1"
abbreviation (input) DEV_FS :: u32 where "DEV_FS \<equiv> 2"
abbreviation (input) DUMMY_FS :: u32 where "DUMMY_FS \<equiv> 4"
abbreviation (input) SIZEOF_MEM_BLOCK_HDR :: int where "SIZEOF_MEM_BLOCK_HDR \<equiv> 12"

definition filesystem_name :: "string list" where
  "filesystem_name = [''ZELDA_FS'', ''MEM_FS'', ''DEV_FS'', ''VSI_FS'', ''DUMMY_FS'']"

definition filesystem_type_to_name :: "int \<Rightarrow> string option" where
  "filesystem_type_to_name type = do {
     kassert (type \<ge> 0 \<and> type < int (length filesystem_name));
     Some (filesystem_name ! nat type)
   }"

text \<open>The pieces of the canonical form of a path, as every operation below computes them.\<close>

definition canonical_pieces :: "u8 list \<Rightarrow> u8 list list option" where
  "canonical_pieces path = do {
     (_, c_name) \<leftarrow> canonicalize_path_name (replicate 256 0) path;
     p \<leftarrow> split_path c_name;
     Some (split_pieces p)
   }"

text \<open>The root of a file system.\<close>

definition root_file :: "addr \<Rightarrow> kernel \<Rightarrow> addr option" where
  "root_file fsys k = do {
     let root = fs_priv (file_systems k fsys);
     kassert (root \<noteq> NULL);
     kassert (f_type (files k root) = FILE_TYPE_MARK);
     Some root
   }"

subsection \<open>Files in memory\<close>

definition tmpfs_read_file ::
    "addr \<Rightarrow> u32 \<Rightarrow> u8 list \<Rightarrow> int \<Rightarrow> kernel \<Rightarrow> (int \<times> u8 list \<times> kernel) option" where
  "tmpfs_read_file file offset buffer len k = do {
     let block_hdr = f_priv (files k file);
     if block_hdr = NULL then Some (- ERR_GENERIC, buffer, k)
     else do {
       (result, buffer) \<leftarrow> mem_block_raw_read block_hdr offset buffer len k;
       Some (result, buffer, k)
     }
   }"

definition tmpfs_write_file :: "addr \<Rightarrow> u32 \<Rightarrow> u8 list \<Rightarrow> int \<Rightarrow> kernel \<Rightarrow> (int \<times> kernel) option" where
  "tmpfs_write_file file offset buffer len k = do {
     let block_hdr = f_priv (files k file);
     if block_hdr = NULL then Some (- ERR_GENERIC, k)
     else do {
       (result, k) \<leftarrow>
         (if nr_used (mem_blocks k block_hdr) = offset
          then mem_block_raw_write_sequential block_hdr buffer len k
          else mem_block_raw_write_random block_hdr offset buffer len k);
       Some (result,
         if result \<ge> 0
         then upd_block block_hdr (\<lambda>b. b\<lparr>nr_used := max (offset + of_int result) (nr_used b)\<rparr>) k
         else k)
     }
   }"

definition tmpfs_file_size :: "addr \<Rightarrow> kernel \<Rightarrow> int option" where
  "tmpfs_file_size file k = do {
     let block_hdr = f_priv (files k file);
     Some (if block_hdr \<noteq> NULL then sint (nr_used (mem_blocks k block_hdr)) else 0)
   }"

text \<open>There is no check of the header here.\<close>

definition tmpfs_file_stat :: "addr \<Rightarrow> stat_buf \<Rightarrow> kernel \<Rightarrow> (int \<times> stat_buf) option" where
  "tmpfs_file_stat file stat k =
     Some (OK, stat\<lparr>st_mode := f_mode (files k file), st_size := nr_used (mem_blocks k (f_priv (files k file)))\<rparr>)"

definition tmpfs_file_truncate :: "addr \<Rightarrow> u32 \<Rightarrow> kernel \<Rightarrow> (int \<times> kernel) option" where
  "tmpfs_file_truncate file offset k = do {
     let block_hdr = f_priv (files k file);
     if block_hdr = NULL then Some (- ERR_GENERIC, k)
     else do {
       (result, k) \<leftarrow> mem_block_raw_truncate block_hdr offset k;
       if result \<noteq> OK then Some (- ERR_GENERIC, k)
       else Some (OK, upd_block block_hdr (\<lambda>b. b\<lparr>nr_used := offset\<rparr>) k)
     }
   }"

definition tmpfs_file_operation :: file_operation where
  "tmpfs_file_operation = \<lparr>fo_isatty = None, fo_size = Some tmpfs_file_size, fo_stat = Some tmpfs_file_stat,
     fo_read = Some tmpfs_read_file, fo_write = Some tmpfs_write_file, fo_truncate = Some tmpfs_file_truncate, fo_ioctl = None\<rparr>"

text \<open>Directories on the way are created first. The next function is the part that the creation of a
  file in memory and of a device node share.\<close>

definition create_path :: "addr \<Rightarrow> u8 list \<Rightarrow> kernel \<Rightarrow> (addr \<times> kernel) option" where
  "create_path fsys path k = do {
     root \<leftarrow> root_file fsys k;
     splitted_path \<leftarrow> canonical_pieces path;
     (result, k) \<leftarrow>
       (if length splitted_path > 1 then hierarchy_create_directory (fs_node root) (butlast splitted_path) k
        else Some (OK, k));
     if result \<noteq> OK then Some (NULL, k)
     else do {
       (result, k) \<leftarrow> hierarchy_create_file (fs_node root) splitted_path k;
       if result \<noteq> OK then Some (NULL, k)
       else do {
         file \<leftarrow> hierarchy_search_file (fs_node root) splitted_path k;
         kassert (file \<noteq> NULL);
         Some (file, k)
       }
     }
   }"

definition tmpfs_create_file :: "addr \<Rightarrow> addr \<Rightarrow> u8 list \<Rightarrow> u32 \<Rightarrow> kernel \<Rightarrow> (addr \<times> kernel) option" where
  "tmpfs_create_file ops fsys path mode k = do {
     (file, k) \<leftarrow> create_path fsys path k;
     if file = NULL then Some (NULL, k)
     else do {
       (hdr, k) \<leftarrow> kmalloc SIZEOF_MEM_BLOCK_HDR k;
       let k = (if hdr \<noteq> NULL
                then upd_block hdr (\<lambda>b. b\<lparr>nr_used := 0\<rparr>) (k\<lparr>lists := (lists k)(hdr := zero_cell)\<rparr>) else k);
       Some (file, upd_file file (\<lambda>x. x\<lparr>f_priv := hdr, f_ops := ops\<rparr>) k)
     }
   }"

definition tmpfs_open_file :: "addr \<Rightarrow> u8 list \<Rightarrow> kernel \<Rightarrow> addr option" where
  "tmpfs_open_file fsys path k = do {
     root \<leftarrow> root_file fsys k;
     r \<leftarrow> strcmp path [SLASH, 0];
     if r = 0 then Some root
     else do {
       splitted_path \<leftarrow> canonical_pieces path;
       hierarchy_search_file (fs_node root) splitted_path k
     }
   }"

definition tmpfs_create_dir :: "addr \<Rightarrow> u8 list \<Rightarrow> kernel \<Rightarrow> (addr \<times> kernel) option" where
  "tmpfs_create_dir fsys path k = do {
     root \<leftarrow> root_file fsys k;
     splitted_path \<leftarrow> canonical_pieces path;
     (_, k) \<leftarrow> hierarchy_create_directory (fs_node root) splitted_path k;
     file \<leftarrow> hierarchy_search_file (fs_node root) splitted_path k;
     Some (if file \<noteq> NULL \<and> f_type (files k file) = FILE_TYPE_DIR then file else NULL, k)
   }"

definition delete_file_entry :: "addr \<Rightarrow> kernel \<Rightarrow> kernel option" where
  "delete_file_entry file k = do {
     let block_hdr = f_priv (files k file);
     k \<leftarrow> (if block_hdr \<noteq> NULL
           then do { k \<leftarrow> mem_block_raw_reclaim block_hdr k; kfree block_hdr k }
           else Some k);
     kfree file k
   }"

definition tmpfs_delete_file :: "addr \<Rightarrow> addr \<Rightarrow> u8 list \<Rightarrow> kernel \<Rightarrow> (int \<times> kernel) option" where
  "tmpfs_delete_file q fsys path k = do {
     root \<leftarrow> root_file fsys k;
     splitted_path \<leftarrow> canonical_pieces path;
     hierarchy_delete_file q (fs_node root) splitted_path delete_file_entry k
   }"

definition tmpfs_ops :: "addr \<Rightarrow> addr \<Rightarrow> filesystem_operation" where
  "tmpfs_ops q ops = \<lparr>fs_open = Some tmpfs_open_file, fs_create = Some (tmpfs_create_file ops),
     fs_mkdir = Some tmpfs_create_dir, fs_delete = Some (tmpfs_delete_file q)\<rparr>"

subsection \<open>Device nodes\<close>

definition register_dev_node :: "addr \<Rightarrow> u8 list \<Rightarrow> u32 \<Rightarrow> addr \<Rightarrow> addr \<Rightarrow> kernel \<Rightarrow> (addr \<times> kernel) option" where
  "register_dev_node fsys path mode file_ops file_priv k = do {
     (file, k) \<leftarrow> create_path fsys path k;
     if file = NULL then Some (NULL, k)
     else Some (file, upd_file file (\<lambda>x. x\<lparr>f_priv := file_priv, f_ops := file_ops\<rparr>) k)
   }"

definition devfs_open_file :: "addr \<Rightarrow> addr \<Rightarrow> u8 list \<Rightarrow> kernel \<Rightarrow> addr option" where
  "devfs_open_file devfs_root_file fsys path k = do {
     root \<leftarrow> root_file fsys k;
     r \<leftarrow> strcmp path [SLASH, 0];
     if r = 0 then Some devfs_root_file
     else do {
       splitted_path \<leftarrow> canonical_pieces path;
       hierarchy_search_file (fs_node root) splitted_path k
     }
   }"

definition devfs_ops :: "addr \<Rightarrow> filesystem_operation" where
  "devfs_ops devfs_root_file =
     \<lparr>fs_open = Some (devfs_open_file devfs_root_file), fs_create = None, fs_mkdir = None, fs_delete = None\<rparr>"

definition devfs_pre_init :: "addr \<Rightarrow> kernel \<Rightarrow> kernel" where
  "devfs_pre_init devfs_root_file k = upd_file devfs_root_file (\<lambda>x. x\<lparr>f_type := FILE_TYPE_MARK\<rparr>) (clear_file devfs_root_file k)"

text \<open>Mounting a file system at a fixed place; all the initialisation functions assert that it succeeds.\<close>

definition mount_fs :: "string \<Rightarrow> addr \<Rightarrow> kernel \<Rightarrow> kernel option" where
  "mount_fs point fsys k = do {
     (r, rest) \<leftarrow> register_file_system (mount_entries k) (c_lit point) fsys;
     kassert (r = 0);
     Some (k\<lparr>mount_entries := rest\<rparr>)
   }"

definition devfs_init :: "addr \<Rightarrow> kernel \<Rightarrow> kernel option" where
  "devfs_init dev_fs k = mount_fs ''/dev'' dev_fs k"

definition dummy_fs_open :: "addr \<Rightarrow> u8 list \<Rightarrow> kernel \<Rightarrow> addr option" where
  "dummy_fs_open fsys path k = Some NULL"

definition dummyfs_ops :: filesystem_operation where
  "dummyfs_ops = \<lparr>fs_open = Some dummy_fs_open, fs_create = None, fs_mkdir = None, fs_delete = None\<rparr>"

definition dummyfs_init :: "addr \<Rightarrow> kernel \<Rightarrow> kernel option" where
  "dummyfs_init dummyfs k = mount_fs ''/dummy'' dummyfs k"

text \<open>The two file systems in memory, with the addresses of their root files.\<close>

definition memfs_init :: "addr \<Rightarrow> addr \<Rightarrow> addr \<Rightarrow> addr \<Rightarrow> kernel \<Rightarrow> kernel option" where
  "memfs_init tmpfs_home tmpfs_home_root_file tmpfs_tmp tmpfs_tmp_root_file k = do {
     let k = clear_file tmpfs_tmp_root_file (clear_file tmpfs_home_root_file k);
     let k = upd_file tmpfs_home_root_file (\<lambda>x. x\<lparr>f_type := FILE_TYPE_MARK\<rparr>) k;
     let k = upd_file tmpfs_tmp_root_file (\<lambda>x. x\<lparr>f_type := FILE_TYPE_MARK\<rparr>) k;
     k \<leftarrow> mount_fs ''/home/zelda/'' tmpfs_home k;
     mount_fs ''/tmp/'' tmpfs_tmp k
   }"

subsection \<open>The drive image\<close>

text \<open>The kernel carries an image of files one after the other. A \<^verbatim>\<open>struct zelda_file\<close> has its list cell at
  offset 260 and its contents at offset 268. \<open>drive_head\<close> is the address of the list of all files.\<close>

definition zf_list :: "addr \<Rightarrow> addr" where "zf_list a = a + 260"
definition list_zf :: "addr \<Rightarrow> addr" where "list_zf l = l - 260"

definition zeldafs_file_read ::
    "addr \<Rightarrow> u32 \<Rightarrow> u8 list \<Rightarrow> int \<Rightarrow> kernel \<Rightarrow> (int \<times> u8 list \<times> kernel) option" where
  "zeldafs_file_read file offset buffer len k = do {
     kassert (f_priv (files k file) \<noteq> NULL);
     let zf = zelda_files k (f_priv (files k file));
     let length_available = zf_length zf - offset;
     if sint length_available \<le> 0 then Some (0, buffer, k)
     else do {
       let length_available = min length_available (of_int len);
       buffer \<leftarrow> (if length_available \<noteq> 0
         then memcpy_at buffer 0 (zf_content zf) (uint offset) (sint length_available) else Some buffer);
       Some (sint length_available, buffer, k)
     }
   }"

definition zeldafs_file_write :: "addr \<Rightarrow> u32 \<Rightarrow> u8 list \<Rightarrow> int \<Rightarrow> kernel \<Rightarrow> (int \<times> kernel) option" where
  "zeldafs_file_write file offset buffer len k = Some (- ERR_NOT_SUPPORTED, k)"

definition zeldafs_file_size :: "addr \<Rightarrow> kernel \<Rightarrow> int option" where
  "zeldafs_file_size file k = do {
     kassert (f_priv (files k file) \<noteq> NULL);
     Some (sint (zf_length (zelda_files k (f_priv (files k file)))))
   }"

definition zeldafs_file_stat :: "addr \<Rightarrow> stat_buf \<Rightarrow> kernel \<Rightarrow> (int \<times> stat_buf) option" where
  "zeldafs_file_stat file buf k = do {
     kassert (f_priv (files k file) \<noteq> NULL);
     Some (OK, buf\<lparr>st_mode := f_mode (files k file), st_size := zf_length (zelda_files k (f_priv (files k file)))\<rparr>)
   }"

definition zeldafs_file_ops :: file_operation where
  "zeldafs_file_ops = \<lparr>fo_isatty = None, fo_size = Some zeldafs_file_size, fo_stat = Some zeldafs_file_stat,
     fo_read = Some zeldafs_file_read, fo_write = Some zeldafs_file_write, fo_truncate = None, fo_ioctl = None\<rparr>"

partial_function (option) search_zelda_loop :: "kernel \<Rightarrow> u8 list \<Rightarrow> addr \<Rightarrow> addr option" where
  "search_zelda_loop k nm l =
     (if l = NULL then Some NULL
      else do {
        r \<leftarrow> strcmp (zf_path (zelda_files k (list_zf l))) nm;
        if r = 0 then Some (list_zf l) else search_zelda_loop k nm (le_next (lists k l))
      })"

definition search_zelda_file :: "addr \<Rightarrow> u8 list \<Rightarrow> kernel \<Rightarrow> addr option" where
  "search_zelda_file drive_head nm k = search_zelda_loop k nm (list_first_elem (lists k) drive_head)"

partial_function (option) enumerate_files_in_zelda_drive :: "addr \<Rightarrow> addr \<Rightarrow> addr \<Rightarrow> kernel \<Rightarrow> kernel option" where
  "enumerate_files_in_zelda_drive drive_head iptr zelda_drive_end k =
     (if iptr < zelda_drive_end
      then do {
        h \<leftarrow> list_append ((lists k)(zf_list iptr := zero_cell)) drive_head (zf_list iptr);
        enumerate_files_in_zelda_drive drive_head (iptr + (268 + zf_length (zelda_files k iptr))) zelda_drive_end
          (k\<lparr>lists := h\<rparr>)
      }
      else Some k)"

text \<open>One round of the construction of the tree. The buffer \<^verbatim>\<open>c_name\<close> keeps what the previous round
  left in it. Without a directory part the first call gets the count \<open>- 1\<close> or \<open>0\<close> and does nothing.\<close>

definition insert_zelda_file :: "addr \<Rightarrow> addr \<Rightarrow> addr \<Rightarrow> u8 list \<times> kernel \<Rightarrow> (u8 list \<times> kernel) option" where
  "insert_zelda_file ops zelda_root_node zf = (\<lambda>(c_name, k). do {
     (_, c_name) \<leftarrow> canonicalize_path_name c_name (zf_path (zelda_files k zf));
     (c_name, arr) \<leftarrow> split_path c_name;
     let splitted_path = split_pieces (c_name, arr);
     (_, k) \<leftarrow> hierarchy_create_directory (fs_node zelda_root_node) (butlast splitted_path) k;
     (_, k) \<leftarrow> hierarchy_create_file (fs_node zelda_root_node) splitted_path k;
     file \<leftarrow> hierarchy_search_file (fs_node zelda_root_node) splitted_path k;
     Some (c_name, if file \<noteq> NULL then upd_file file (\<lambda>x. x\<lparr>f_priv := zf, f_ops := ops\<rparr>) k else k)
   })"

partial_function (option) construct_loop :: "addr \<Rightarrow> addr \<Rightarrow> addr \<Rightarrow> u8 list \<times> kernel \<Rightarrow> (u8 list \<times> kernel) option" where
  "construct_loop ops zelda_root_node l ck =
     (if l = NULL then Some ck
      else do {
        (c, k) \<leftarrow> insert_zelda_file ops zelda_root_node (list_zf l) ck;
        construct_loop ops zelda_root_node (le_next (lists k l)) (c, k)
      })"

definition construct_zelda_drive_hierarchy :: "addr \<Rightarrow> addr \<Rightarrow> addr \<Rightarrow> u8 list \<Rightarrow> kernel \<Rightarrow> kernel option" where
  "construct_zelda_drive_hierarchy ops zelda_root_node drive_head c_name k = do {
     (_, k) \<leftarrow> construct_loop ops zelda_root_node (list_first_elem (lists k) drive_head) (c_name, k);
     Some k
   }"

definition zelda_fs_open :: "addr \<Rightarrow> addr \<Rightarrow> u8 list \<Rightarrow> kernel \<Rightarrow> addr option" where
  "zelda_fs_open zelda_root_node fsys path k = do {
     r \<leftarrow> strcmp path [SLASH, 0];
     if r = 0 then Some zelda_root_node
     else do {
       c_name \<leftarrow> strcpy_safe (replicate 256 0) path 256;
       p \<leftarrow> split_path c_name;
       hierarchy_search_file (fs_node zelda_root_node) (split_pieces p) k
     }
   }"

definition zeldafs_ops :: "addr \<Rightarrow> filesystem_operation" where
  "zeldafs_ops zelda_root_node =
     \<lparr>fs_open = Some (zelda_fs_open zelda_root_node), fs_create = None, fs_mkdir = None, fs_delete = None\<rparr>"

definition zeldafs_init :: "addr \<Rightarrow> addr \<Rightarrow> addr \<Rightarrow> addr \<Rightarrow> addr \<Rightarrow> addr \<Rightarrow> u8 list \<Rightarrow> kernel \<Rightarrow> kernel option" where
  "zeldafs_init ops zelda_root_node drive_head zelda_drive_start zelda_drive_end zeldafs c_name k = do {
     let k = upd_file zelda_root_node (\<lambda>x. x\<lparr>f_type := FILE_TYPE_MARK\<rparr>) (clear_file zelda_root_node k);
     k \<leftarrow> enumerate_files_in_zelda_drive drive_head zelda_drive_start zelda_drive_end k;
     k \<leftarrow> construct_zelda_drive_hierarchy ops zelda_root_node drive_head c_name k;
     mount_fs ''/'' zeldafs k
   }"

declare search_zelda_loop.simps [code] enumerate_files_in_zelda_drive.simps [code] construct_loop.simps [code]

end
