(* ===== verification/Vfs_Correct.thy ===== *)
theory Vfs_Correct
  imports File_Systems Memfs_Correct
begin

section \<open>An open file is a sequence of bytes with a position\<close>

text \<open>
  The abstract file is its bytes; an open file adds a position. \<open>open_file\<close> relates them to the state
  of the kernel: the header of the file holds its size, the blocks hold its bytes and are
  packed, and the position is within the file.
\<close>

definition open_file_at ::
    "(addr \<Rightarrow> file_operation) \<Rightarrow> kernel \<Rightarrow> (nat \<times> nat) set \<Rightarrow> addr list \<Rightarrow> file_entry \<Rightarrow> u8 list \<Rightarrow> nat \<Rightarrow> bool" where
  "open_file_at fops k R bs fe bytes pos \<longleftrightarrow>
     f_ops (files k (fe_file fe)) \<noteq> NULL \<and> fops (f_ops (files k (fe_file fe))) = tmpfs_file_operation \<and>
     f_priv (files k (fe_file fe)) \<noteq> NULL \<and> fe_writable fe \<and>
     file_ok k R (f_priv (files k (fe_file fe))) bs \<and> packed k bs \<and> file_bytes k bs = bytes \<and>
     length bytes < 2 ^ 31 \<and> nr_used (mem_blocks k (f_priv (files k (fe_file fe)))) = of_nat (length bytes) \<and>
     fe_offset fe = of_nat pos \<and> pos \<le> length bytes"

definition open_file :: "(addr \<Rightarrow> file_operation) \<Rightarrow> kernel \<Rightarrow> file_entry \<Rightarrow> u8 list \<Rightarrow> nat \<Rightarrow> bool" where
  "open_file fops k fe bytes pos \<longleftrightarrow> (\<exists>R bs. open_file_at fops k R bs fe bytes pos)"

datatype file_op = Seek_Set u32 | Seek_End | Read nat | Write "u8 list"

text \<open>The operations on an open file with their results; a read gets a buffer of zeros of its size.\<close>

fun vfs_op :: "(addr \<Rightarrow> file_operation) \<Rightarrow> file_op \<Rightarrow> file_entry \<Rightarrow> kernel \<Rightarrow> (int \<times> u8 list \<times> file_entry \<times> kernel) option" where
  "vfs_op fops (Seek_Set n) fe k = do { (r, fe) \<leftarrow> do_vfs_lseek fops fe n SEEK_SET k; Some (r, [], fe, k) }"
| "vfs_op fops Seek_End fe k = do { (r, fe) \<leftarrow> do_vfs_lseek fops fe 0 SEEK_END k; Some (r, [], fe, k) }"
| "vfs_op fops (Read n) fe k = do {
     (r, out, fe, k) \<leftarrow> do_vfs_read fops fe (replicate n 0) (int n) k;
     Some (r, take (nat r) out, fe, k) }"
| "vfs_op fops (Write d) fe k = do { (r, fe, k) \<leftarrow> do_vfs_write fops fe d (int (length d)) k; Some (r, [], fe, k) }"

fun vfs_ops :: "(addr \<Rightarrow> file_operation) \<Rightarrow> file_op list \<Rightarrow> file_entry \<Rightarrow> kernel \<Rightarrow> ((int \<times> u8 list) list \<times> file_entry \<times> kernel) option" where
  "vfs_ops fops [] fe k = Some ([], fe, k)"
| "vfs_ops fops (op # ops) fe k = do {
     (r, out, fe, k) \<leftarrow> vfs_op fops op fe k;
     (rs, fe, k) \<leftarrow> vfs_ops fops ops fe k;
     Some ((r, out) # rs, fe, k) }"

text \<open>What the operations may do to a sequence of bytes: a write may be cut short, all else is
  determined.\<close>

inductive file_steps :: "u8 list \<times> nat \<Rightarrow> file_op list \<Rightarrow> (int \<times> u8 list) list \<Rightarrow> u8 list \<times> nat \<Rightarrow> bool" where
  steps_Nil: "file_steps s [] [] s"
| steps_Set: "file_steps (bytes, unat n) ops rs s \<Longrightarrow> file_steps (bytes, pos) (Seek_Set n # ops) ((sint n, []) # rs) s"
| steps_End: "file_steps (bytes, length bytes) ops rs s \<Longrightarrow>
    file_steps (bytes, pos) (Seek_End # ops) ((int (length bytes), []) # rs) s"
| steps_Read: "d = take n (drop pos bytes) \<Longrightarrow> file_steps (bytes, pos + length d) ops rs s \<Longrightarrow>
    file_steps (bytes, pos) (Read n # ops) ((int (length d), d) # rs) s"
| steps_Write: "n \<le> length d \<Longrightarrow> file_steps (overwrite pos (take n d) bytes, pos + n) ops rs s \<Longrightarrow>
    file_steps (bytes, pos) (Write d # ops) ((int n, []) # rs) s"

subsection \<open>The operations of the file system in memory\<close>

lemma same_rest_files: "same_rest k k' \<Longrightarrow> files k' = files k"
  by (auto simp: same_rest_def)

lemma file_ok_hdr: "file_ok k R hdr bs \<Longrightarrow> hdr \<notin> set bs \<and> unat hdr \<in> fst ` R"
  by (auto simp: file_ok_def dlist_def)

text \<open>The size in the header is no part of the blocks.\<close>

lemma size_update:
  assumes ok: "file_ok k R hdr bs"
  shows "file_ok (upd_block hdr (\<lambda>b. b\<lparr>nr_used := u b\<rparr>) k) R hdr bs"
    "packed (upd_block hdr (\<lambda>b. b\<lparr>nr_used := u b\<rparr>) k) bs = packed k bs"
    "file_bytes (upd_block hdr (\<lambda>b. b\<lparr>nr_used := u b\<rparr>) k) bs = file_bytes k bs"
proof -
  have h: "hdr \<notin> set bs" using file_ok_hdr [OF ok] by simp
  then have same: "mem_blocks (upd_block hdr (\<lambda>b. b\<lparr>nr_used := u b\<rparr>) k) b = mem_blocks k b" if "b \<in> set bs" for b
    using that by auto
  show "file_ok (upd_block hdr (\<lambda>b. b\<lparr>nr_used := u b\<rparr>) k) R hdr bs" using ok h by (auto simp: file_ok_def)
  show "packed (upd_block hdr (\<lambda>b. b\<lparr>nr_used := u b\<rparr>) k) bs = packed k bs" by (rule packed_cong) (rule same)
  show "file_bytes (upd_block hdr (\<lambda>b. b\<lparr>nr_used := u b\<rparr>) k) bs = file_bytes k bs" by (rule file_bytes_cong) (rule same)
qed

lemma raw_write_sequential_spec:
  assumes ok: "file_ok k R hdr bs" and len: "0 \<le> len" "len \<le> int (length buffer)"
  shows "\<exists>n k' R' bs'. n \<le> nat len \<and> mem_block_raw_write_sequential hdr buffer len k = Some (int n, k') \<and>
    wrote k R hdr bs k' R' bs' \<and> file_bytes k' bs' = file_bytes k bs @ take n buffer"
proof -
  obtain i b where "at_end k bs i b" unfolding at_end_def by blast
  moreover have "mem_block_raw_write_sequential hdr buffer len k = write_sequential_loop hdr buffer len 0 k"
    using len(1) by (cases "len = 0") (simp add: mem_block_raw_write_sequential_def, subst write_sequential_loop.simps,
      simp_all add: mem_block_raw_write_sequential_def)
  ultimately show ?thesis using append_loops [OF ok, of i b len 0 buffer] len by auto
qed

lemma tmpfs_write_spec:
  assumes f: "open_file_at fops k R bs fe bytes pos" and len: "length bytes + length d < 2 ^ 31"
  shows "\<exists>n k' R' bs' fe'. n \<le> length d \<and> do_vfs_write fops fe d (int (length d)) k = Some (int n, fe', k') \<and>
    fe_file fe' = fe_file fe \<and> open_file_at fops k' R' bs' fe' (overwrite pos (take n d) bytes) (pos + n)"
proof -
  define hdr where "hdr = f_priv (files k (fe_file fe))"
  have F: "f_ops (files k (fe_file fe)) \<noteq> NULL" "fops (f_ops (files k (fe_file fe))) = tmpfs_file_operation"
    "hdr \<noteq> NULL" "fe_writable fe" "file_ok k R hdr bs" "packed k bs" "file_bytes k bs = bytes"
    "nr_used (mem_blocks k hdr) = of_nat (length bytes)" "fe_offset fe = of_nat pos" "pos \<le> length bytes"
    using f by (simp_all add: open_file_at_def hdr_def)
  have pos: "unat (of_nat pos :: u32) = pos" "unat (of_nat (length bytes) :: u32) = length bytes"
    using F(10) len by (intro unat_of_nat_id; simp)+
  obtain n k1 R1 bs1 where w: "n \<le> length d" "wrote k R hdr bs k1 R1 bs1"
    "file_bytes k1 bs1 = overwrite pos (take n d) bytes"
    "(if nr_used (mem_blocks k hdr) = of_nat pos then mem_block_raw_write_sequential hdr d (int (length d)) k
      else mem_block_raw_write_random hdr (of_nat pos) d (int (length d)) k) = Some (int n, k1)"
  proof (cases "nr_used (mem_blocks k hdr) = of_nat pos")
    case True
    then have "pos = length bytes" using F(8) pos by metis
    then show ?thesis using that raw_write_sequential_spec [OF F(5), of "int (length d)" d] True F(7) by (auto simp: overwrite_def)
  next
    case False
    then show ?thesis using that raw_write_random_spec [OF F(5,6), of "of_nat pos" "int (length d)" d] F(7,10) pos(1) by auto
  qed
  define k' where "k' = upd_block hdr (\<lambda>b. b\<lparr>nr_used := max (of_nat pos + of_nat n) (nr_used b)\<rparr>) k1"
  define fe' where "fe' = (if 0 < n then fe\<lparr>fe_offset := fe_offset fe + of_nat n\<rparr> else fe)"
  have "tmpfs_write_file (fe_file fe) (of_nat pos) d (int (length d)) k = Some (int n, k')"
    using w(4) F(3) by (simp add: tmpfs_write_file_def k'_def flip: hdr_def)
  then have W: "do_vfs_write fops fe d (int (length d)) k = Some (int n, fe', k')"
    using F(1,2,4,9) by (simp add: do_vfs_write_def tmpfs_file_operation_def fe'_def)
  have fe': "fe_file fe' = fe_file fe" "fe_writable fe'" "fe_offset fe' = of_nat (pos + n)"
    using F(4,9) by (simp_all add: fe'_def)
  have files: "files k' = files k" using same_rest_files w(2) by (simp add: k'_def wrote_def blk_frame_def upd_block_def)
  have ok1: "file_ok k1 R1 hdr bs1" "packed k1 bs1" using w(2) F(6) by (auto simp: wrote_def)
  have "mem_blocks k1 hdr = mem_blocks k hdr" using w(2) file_ok_hdr [OF F(5)] by (simp add: wrote_def blk_frame_def)
  moreover have "length (overwrite pos (take n d) bytes) = max (pos + n) (length bytes)"
    using w(1) F(10) by (auto simp: overwrite_def max_def)
  moreover have "max (of_nat pos + of_nat n) (of_nat (length bytes) :: u32) = of_nat (max (pos + n) (length bytes))"
  proof -
    have "unat (of_nat (pos + n) :: u32) = pos + n" using F(10) w(1) len by (intro unat_of_nat_id) simp
    then show ?thesis using pos(2) unfolding of_nat_add [symmetric] by (auto simp: max_def word_le_nat_alt simp del: of_nat_add)
  qed
  ultimately have "open_file_at fops k' R1 bs1 fe' (overwrite pos (take n d) bytes) (pos + n)"
    using F fe' files size_update [OF ok1(1)] ok1(2) w(1,3) len by (simp add: open_file_at_def k'_def flip: hdr_def)
  then show ?thesis using W w(1) fe'(1) by blast
qed

lemma tmpfs_read_spec:
  assumes f: "open_file_at fops k R bs fe bytes pos" and d: "d = take n (drop pos bytes)"
  shows "\<exists>out fe'. do_vfs_read fops fe (replicate n 0) (int n) k = Some (int (length d), out, fe', k) \<and>
    take (length d) out = d \<and> fe_file fe' = fe_file fe \<and> open_file_at fops k R bs fe' bytes (pos + length d)"
proof -
  define hdr where "hdr = f_priv (files k (fe_file fe))"
  have F: "f_ops (files k (fe_file fe)) \<noteq> NULL" "fops (f_ops (files k (fe_file fe))) = tmpfs_file_operation"
    "hdr \<noteq> NULL" "file_ok k R hdr bs" "file_bytes k bs = bytes" "fe_offset fe = of_nat pos" "pos \<le> length bytes"
    "length bytes < 2 ^ 31"
    using f by (simp_all add: open_file_at_def hdr_def)
  define fe' where "fe' = (if 0 < length d then fe\<lparr>fe_offset := fe_offset fe + of_nat (length d)\<rparr> else fe)"
  have "unat (of_nat pos :: u32) = pos" using F(7,8) by (intro unat_of_nat_id) simp
  then have "tmpfs_read_file (fe_file fe) (of_nat pos) (replicate n 0) (int n) k =
      Some (int (length d), d @ drop (length d) (replicate n 0), k)"
    using raw_read_spec [OF F(4), of "of_nat pos" "int n" "replicate n 0" d] F(3,5,7,8) d
    by (simp add: tmpfs_read_file_def flip: hdr_def)
  then have "do_vfs_read fops fe (replicate n 0) (int n) k = Some (int (length d), d @ drop (length d) (replicate n 0), fe', k)"
    using F(1,2,6) by (simp add: do_vfs_read_def tmpfs_file_operation_def fe'_def)
  moreover have "open_file_at fops k R bs fe' bytes (pos + length d)"
    using f d by (auto simp: open_file_at_def fe'_def)
  moreover have "fe_file fe' = fe_file fe" by (simp add: fe'_def)
  ultimately show ?thesis by fastforce
qed

lemma tmpfs_seek_spec:
  assumes f: "open_file_at fops k R bs fe bytes pos"
  shows "unat n \<le> length bytes \<Longrightarrow> \<exists>fe'. do_vfs_lseek fops fe n SEEK_SET k = Some (sint n, fe') \<and> fe_file fe' = fe_file fe \<and>
      open_file_at fops k R bs fe' bytes (unat n)"
    and "\<exists>fe'. do_vfs_lseek fops fe 0 SEEK_END k = Some (int (length bytes), fe') \<and> fe_file fe' = fe_file fe \<and>
      open_file_at fops k R bs fe' bytes (length bytes)"
proof -
  show "\<exists>fe'. do_vfs_lseek fops fe n SEEK_SET k = Some (sint n, fe') \<and> fe_file fe' = fe_file fe \<and>
      open_file_at fops k R bs fe' bytes (unat n)" if "unat n \<le> length bytes"
    using f that by (auto simp: do_vfs_lseek_def open_file_at_def)
  have "unat (of_nat (length bytes) :: u32) = length bytes" using f by (intro unat_of_nat_id) (simp add: open_file_at_def)
  then have "sint (of_nat (length bytes) :: u32) = int (length bytes)"
    using f sint_small [of "of_nat (length bytes)"] by (simp add: open_file_at_def)
  then show "\<exists>fe'. do_vfs_lseek fops fe 0 SEEK_END k = Some (int (length bytes), fe') \<and> fe_file fe' = fe_file fe \<and>
      open_file_at fops k R bs fe' bytes (length bytes)"
    using f by (auto simp: do_vfs_lseek_def open_file_at_def tmpfs_file_operation_def tmpfs_file_size_def)
qed

subsection \<open>Property\<close>

primrec written :: "file_op list \<Rightarrow> nat" where
  "written [] = 0"
| "written (op # ops) = (case op of Write d \<Rightarrow> length d | _ \<Rightarrow> 0) + written ops"

text \<open>C35. An open file of the file system in memory behaves as a sequence of bytes with a position
  over every sequence of reads, writes and seeks to places within the file, as long as less than
  \<open>2 ^ 31\<close> bytes are in it. Every operation returns, its result and the bytes it reads are those of the
  abstract file, only a write may be cut short, and the state after the run is the abstract one.\<close>

theorem vfs_run_refines:
  assumes "open_file fops k fe bytes pos" "length bytes + written ops < 2 ^ 31"
    and "\<forall>n. Seek_Set n \<in> set ops \<longrightarrow> unat n \<le> length bytes"
  shows "\<exists>rs fe' k' bytes' pos'. vfs_ops fops ops fe k = Some (rs, fe', k') \<and>
    file_steps (bytes, pos) ops rs (bytes', pos') \<and> open_file fops k' fe' bytes' pos'"
  using assms
proof (induction ops arbitrary: k fe bytes pos)
  case Nil
  then show ?case using steps_Nil by fastforce
next
  case (Cons op ops)
  obtain R bs where f: "open_file_at fops k R bs fe bytes pos" using Cons.prems(1) by (auto simp: open_file_def)
  have IH: "\<exists>rs fe' k' bytes' pos'. vfs_ops fops ops fe1 k1 = Some (rs, fe', k') \<and>
      file_steps (b1, p1) ops rs (bytes', pos') \<and> open_file fops k' fe' bytes' pos'"
    if "open_file_at fops k1 R1 bs1 fe1 b1 p1" "length b1 + written ops < 2 ^ 31" "length bytes \<le> length b1"
    for k1 R1 bs1 fe1 b1 p1
    using Cons.IH [of k1 fe1 b1 p1] that Cons.prems(3) by (fastforce simp: open_file_def)
  show ?case
  proof (cases op)
    case (Seek_Set n)
    obtain fe1 where 1: "do_vfs_lseek fops fe n SEEK_SET k = Some (sint n, fe1)" "open_file_at fops k R bs fe1 bytes (unat n)"
      using tmpfs_seek_spec(1) [OF f, of n] Cons.prems(3) Seek_Set by auto
    show ?thesis using IH [OF 1(2)] 1(1) Cons.prems(2) Seek_Set by (fastforce intro: steps_Set)
  next
    case Seek_End
    obtain fe1 where 1: "do_vfs_lseek fops fe 0 SEEK_END k = Some (int (length bytes), fe1)"
      "open_file_at fops k R bs fe1 bytes (length bytes)"
      using tmpfs_seek_spec(2) [OF f] by auto
    show ?thesis using IH [OF 1(2)] 1(1) Cons.prems(2) Seek_End by (fastforce intro: steps_End)
  next
    case (Read n)
    let ?d = "take n (drop pos bytes)"
    obtain out fe1 where 1: "do_vfs_read fops fe (replicate n 0) (int n) k = Some (int (length ?d), out, fe1, k)"
      "take (length ?d) out = ?d" "open_file_at fops k R bs fe1 bytes (pos + length ?d)"
      using tmpfs_read_spec [OF f refl, of n] by blast
    obtain rs fe' k' bytes' pos' where 2: "vfs_ops fops ops fe1 k = Some (rs, fe', k')"
      "file_steps (bytes, pos + length ?d) ops rs (bytes', pos')" "open_file fops k' fe' bytes' pos'"
      using IH [OF 1(3)] Cons.prems(2) Read by auto
    have "vfs_ops fops (op # ops) fe k = Some ((int (length ?d), ?d) # rs, fe', k')"
      using 1(1,2) 2(1) Read by simp
    then show ?thesis using steps_Read [OF refl 2(2)] 2(3) Read by blast
  next
    case (Write d)
    obtain n k1 R1 bs1 fe1 where 1: "n \<le> length d" "do_vfs_write fops fe d (int (length d)) k = Some (int n, fe1, k1)"
      "open_file_at fops k1 R1 bs1 fe1 (overwrite pos (take n d) bytes) (pos + n)"
      using tmpfs_write_spec [OF f, of d] Cons.prems(2) Write by auto
    have "pos \<le> length bytes" using f by (simp add: open_file_at_def)
    then have "length bytes \<le> length (overwrite pos (take n d) bytes)"
      "length (overwrite pos (take n d) bytes) + written ops < 2 ^ 31"
      using 1(1) Cons.prems(2) Write by (auto simp: overwrite_def)
    then obtain rs fe' k' bytes' pos' where 2: "vfs_ops fops ops fe1 k1 = Some (rs, fe', k')"
      "file_steps (overwrite pos (take n d) bytes, pos + n) ops rs (bytes', pos')" "open_file fops k' fe' bytes' pos'"
      using IH [OF 1(3)] by blast
    have "vfs_ops fops (op # ops) fe k = Some ((int n, []) # rs, fe', k')" using 1(2) 2(1) Write by simp
    then show ?thesis using steps_Write [OF 1(1) 2(2)] 2(3) Write by blast
  qed
qed

theorem vfs_run_refines_witness:
  "\<exists>k fe rs fe' k' bytes bytes' pos'. length bytes = 5 \<and>
     vfs_ops (\<lambda>_. tmpfs_file_operation) [Seek_End, Write [1, 2], Seek_Set 3, Read 4] fe k = Some (rs, fe', k') \<and>
     file_steps (bytes, 0) [Seek_End, Write [1, 2], Seek_Set 3, Read 4] rs (bytes', pos')"
proof -
  obtain p q r s R F where d: "heap_rep 0x100000 s R F" "apart [p, q, r]" "unat ` {p, q, r} \<subseteq> fst ` R"
    using demo_blocks by blast
  note f = demo_file_ok [OF d]
  let ?k = "(demo_file p q s)\<lparr>files := (\<lambda>_. zero_file\<lparr>f_ops := 0x2000, f_priv := p\<rparr>)\<rparr>"
  let ?fe = "\<lparr>fe_file = 0x3000, fe_offset = 0, fe_valid = True, fe_writable = True\<rparr>"
  have "file_ok ?k R p [q]" "packed ?k [q]" "length (file_bytes ?k [q]) = 5"
    using f by (simp_all add: file_ok_def packed_def blk_bytes_def)
  moreover have "p \<noteq> NULL" "nr_used (mem_blocks ?k p) = 5" using d(2) by (simp_all add: apart_def demo_file_def)
  ultimately have "open_file_at (\<lambda>_. tmpfs_file_operation) ?k R [q] ?fe (file_bytes ?k [q]) 0"
    by (simp add: open_file_at_def)
  then have "open_file (\<lambda>_. tmpfs_file_operation) ?k ?fe (file_bytes ?k [q]) 0" unfolding open_file_def by blast
  from vfs_run_refines [OF this, of "[Seek_End, Write [1, 2], Seek_Set 3, Read 4]"] \<open>length (file_bytes ?k [q]) = 5\<close>
  show ?thesis by fastforce
qed

end
