(* ===== verification/Printk.thy ===== *)
theory Printk
  imports C_String "HOL-Library.Signed_Division"
begin

section \<open>Formatted output and the console (\<^verbatim>\<open>kernel/printk.c\<close>)\<close>

text \<open>
  The kernel prints into a ring of 26 rows of 80 characters and copies 25 of them to the
  video memory. The console keeps the two memories, the position in the ring, and the bytes sent to
  the serial line. An access outside a memory is \<open>None\<close>.

  The formatting functions pass every character to a function with the state it works on: the
  console for \<^verbatim>\<open>printk\<close>, the destination and the index in it for \<^verbatim>\<open>sprintf\<close>. The arguments behind the
  format are a list; reading beyond it or an argument of the wrong kind is \<open>None\<close>.
\<close>

unbundle bit_operations_syntax

abbreviation (input) VGA_MAX_ROW :: nat where "VGA_MAX_ROW \<equiv> 25"
abbreviation (input) VGA_MAX_COL :: nat where "VGA_MAX_COL \<equiv> 80"
abbreviation (input) DEFAULT_STACK_SIZE :: nat where "DEFAULT_STACK_SIZE \<equiv> 64"
abbreviation (input) LOG_INFO :: int where "LOG_INFO \<equiv> 2"
abbreviation (input) LINE_FEED :: u8 where "LINE_FEED \<equiv> 10"

record console =
  vga_row_front :: nat
  vga_row_idx :: nat
  vga_col_idx :: nat
  vga_shadow_memory :: "u8 list list"
  vga_ptr :: "u16 list list"
  default_console_hidden :: bool
  log_level :: int
  serial_sent :: "u8 list"

definition mat_get :: "'a list list \<Rightarrow> nat \<Rightarrow> nat \<Rightarrow> 'a option" where
  "mat_get m r c = (if r < length m \<and> c < length (m ! r) then Some (m ! r ! c) else None)"

definition mat_set :: "'a list list \<Rightarrow> nat \<Rightarrow> nat \<Rightarrow> 'a \<Rightarrow> 'a list list option" where
  "mat_set m r c v = (if r < length m \<and> c < length (m ! r) then Some (m[r := (m ! r)[c := v]]) else None)"

text \<open>The loop over the columns of a row, and the one over a range of rows.\<close>

fun mat_row_loop :: "(nat \<Rightarrow> 'a list list \<Rightarrow> 'a list list option) \<Rightarrow> nat \<Rightarrow> nat \<Rightarrow> 'a list list \<Rightarrow> 'a list list option" where
  "mat_row_loop f 0 c m = Some m"
| "mat_row_loop f (Suc n) c m = do { m \<leftarrow> f c m; mat_row_loop f n (c + 1) m }"

fun mat_loop :: "(nat \<Rightarrow> nat \<Rightarrow> 'a list list \<Rightarrow> 'a list list option) \<Rightarrow> nat \<Rightarrow> nat \<Rightarrow> 'a list list \<Rightarrow> 'a list list option" where
  "mat_loop f 0 r m = Some m"
| "mat_loop f (Suc n) r m = do { m \<leftarrow> mat_row_loop (f r) VGA_MAX_COL 0 m; mat_loop f n (r + 1) m }"

subsection \<open>The console\<close>

definition reset_video_buffer :: "console \<Rightarrow> console option" where
  "reset_video_buffer c = do {
     m \<leftarrow> mat_loop (\<lambda>r col m. do { v \<leftarrow> mat_get m r col; mat_set m r col (v AND 0xff00) }) VGA_MAX_ROW 0 (vga_ptr c);
     Some (c\<lparr>vga_ptr := m\<rparr>)
   }"

definition set_log_level :: "int \<Rightarrow> console \<Rightarrow> console" where
  "set_log_level level c = c\<lparr>log_level := level\<rparr>"

definition printk_init :: "console \<Rightarrow> console option" where
  "printk_init c = do {
     m \<leftarrow> mat_loop (\<lambda>r col m. mat_set m r col 0) (VGA_MAX_ROW + 1) 0 (vga_shadow_memory c);
     Some (set_log_level LOG_INFO (c\<lparr>vga_shadow_memory := m\<rparr>))
   }"

definition next_row :: "nat \<Rightarrow> nat" where
  "next_row r = (r + 1) mod (VGA_MAX_ROW + 1)"

definition vga_enqueue_byte :: "u8 \<Rightarrow> console \<Rightarrow> console option" where
  "vga_enqueue_byte target c = do {
     let c = c\<lparr>serial_sent := serial_sent c @ [target]\<rparr>;
     m \<leftarrow> (if target \<noteq> LINE_FEED then mat_set (vga_shadow_memory c) (vga_row_idx c) (vga_col_idx c) target
           else Some (vga_shadow_memory c));
     let c = c\<lparr>vga_shadow_memory := m, vga_col_idx := vga_col_idx c + 1\<rparr>;
     if vga_col_idx c = VGA_MAX_COL \<or> target = LINE_FEED
     then do {
       let c = c\<lparr>vga_col_idx := 0, vga_row_idx := next_row (vga_row_idx c)\<rparr>;
       if next_row (vga_row_idx c) = vga_row_front c
       then do {
         m \<leftarrow> mat_row_loop (\<lambda>idx m. mat_set m (vga_row_front c) idx 0) VGA_MAX_COL 0 (vga_shadow_memory c);
         Some (c\<lparr>vga_shadow_memory := m, vga_row_front := next_row (vga_row_front c)\<rparr>)
       }
       else Some c
     }
     else Some c
   }"

partial_function (option) flush_loop ::
    "u8 list list \<Rightarrow> nat \<Rightarrow> nat \<Rightarrow> nat \<Rightarrow> u16 list list \<Rightarrow> u16 list list option" where
  "flush_loop shadow row idx real_row m =
     (if next_row row \<noteq> idx
      then do {
        m \<leftarrow> mat_row_loop (\<lambda>col m. do {
            v \<leftarrow> mat_get m real_row col;
            s \<leftarrow> mat_get shadow idx col;
            mat_set m real_row col ((v AND 0xff00) OR ucast s)
          }) VGA_MAX_COL 0 m;
        flush_loop shadow row (next_row idx) (real_row + 1) m
      }
      else Some m)"

definition printk_flush :: "console \<Rightarrow> console option" where
  "printk_flush c =
     (if default_console_hidden c then Some c
      else do {
        m \<leftarrow> flush_loop (vga_shadow_memory c) (vga_row_idx c) (vga_row_front c) 0 (vga_ptr c);
        Some (c\<lparr>vga_ptr := m\<rparr>)
      })"

definition hide_default_console :: "console \<Rightarrow> console option" where
  "hide_default_console c = reset_video_buffer (c\<lparr>default_console_hidden := True\<rparr>)"

definition expose_default_console :: "console \<Rightarrow> console option" where
  "expose_default_console c = do {
     c \<leftarrow> reset_video_buffer (c\<lparr>default_console_hidden := False\<rparr>);
     printk_flush c
   }"

subsection \<open>Numbers\<close>

type_synonym 's sink = "u8 \<Rightarrow> 's \<Rightarrow> 's option"

fun sink_all :: "'s sink \<Rightarrow> u8 list \<Rightarrow> 's \<Rightarrow> 's option" where
  "sink_all func [] s = Some s"
| "sink_all func (c # cs) s = do { s \<leftarrow> func c s; sink_all func cs s }"

text \<open>The loops push the digits on a stack of 64 bytes, here the list with its top first, and
  then emit them from the top.\<close>

function decimal_loop :: "int \<Rightarrow> u8 list \<Rightarrow> u8 list" where
  "decimal_loop val stack =
     (if val \<noteq> 0 \<and> length stack < DEFAULT_STACK_SIZE
      then decimal_loop (val sdiv 10) (of_int (val smod 10 + 48) # stack)
      else stack)"
  by pat_completeness auto
termination by (relation "measure (\<lambda>(_, st). DEFAULT_STACK_SIZE - length st)") auto

function hexdecimal_loop :: "u8 list \<Rightarrow> int \<Rightarrow> u8 list \<Rightarrow> u8 list" where
  "hexdecimal_loop digits val stack =
     (if val \<noteq> 0 \<and> length stack < DEFAULT_STACK_SIZE
      then hexdecimal_loop digits (val div 16) (digits ! nat (val mod 16) # stack)
      else stack)"
  by pat_completeness auto
termination by (relation "measure (\<lambda>(_, _, st). DEFAULT_STACK_SIZE - length st)") auto

declare decimal_loop.simps [simp del] hexdecimal_loop.simps [simp del]

definition pop_digits :: "u8 list \<Rightarrow> u8 list" where
  "pop_digits stack = (if stack = [] then [48] else stack)"

definition resolve_decimal :: "'s sink \<Rightarrow> int \<Rightarrow> 's \<Rightarrow> 's option" where
  "resolve_decimal func val s = do {
     s \<leftarrow> (if val < 0 then func 45 s else Some s);
     sink_all func (pop_digits (decimal_loop (if val < 0 then s32 (- val) else val) [])) s
   }"

definition lower_digits :: "u8 list" where "lower_digits = map of_char ''0123456789abcdef''"
definition upper_digits :: "u8 list" where "upper_digits = map of_char ''0123456789ABCDEF''"

definition resolve_hexdecimal :: "'s sink \<Rightarrow> int \<Rightarrow> bool \<Rightarrow> 's \<Rightarrow> 's option" where
  "resolve_hexdecimal func val lowcase s =
     sink_all func (pop_digits (hexdecimal_loop (if lowcase then lower_digits else upper_digits) (val AND 0xffffffff) [])) s"

subsection \<open>Formats\<close>

datatype va_arg = VStr "u8 list" | VInt int

text \<open>An integer argument is a word of 32 bits, and is read as a signed one.\<close>

fun va_int :: "va_arg list \<Rightarrow> (int \<times> va_arg list) option" where
  "va_int (VInt i # args) = Some (s32 i, args)"
| "va_int _ = None"

fun va_str :: "va_arg list \<Rightarrow> (u8 list \<times> va_arg list) option" where
  "va_str (VStr b # args) = (if terminated b then Some (cstr b, args) else None)"
| "va_str _ = None"

text \<open>The conversion behind a percent sign, and the loop over the format. At the end of the format
  behind a percent sign the code reads on behind the terminator, which is \<open>None\<close>.\<close>

definition convert :: "'s sink \<Rightarrow> u8 \<Rightarrow> va_arg list \<Rightarrow> 's \<Rightarrow> (va_arg list \<times> 's) option" where
  "convert func c args s =
     (if c = of_char (CHR ''s'') then do { (t, args) \<leftarrow> va_str args; s \<leftarrow> sink_all func t s; Some (args, s) }
      else if c = of_char (CHR ''c'') then do { (i, args) \<leftarrow> va_int args; s \<leftarrow> func (of_int i) s; Some (args, s) }
      else if c = of_char (CHR ''d'') \<or> c = of_char (CHR ''h'')
      then do { (i, args) \<leftarrow> va_int args; s \<leftarrow> resolve_decimal func i s; Some (args, s) }
      else if c = of_char (CHR ''x'')
      then do { (i, args) \<leftarrow> va_int args; s \<leftarrow> resolve_hexdecimal func i True s; Some (args, s) }
      else if c = of_char (CHR ''X'')
      then do { (i, args) \<leftarrow> va_int args; s \<leftarrow> resolve_hexdecimal func i False s; Some (args, s) }
      else if c = of_char (CHR ''l'')
      then do {
        (i, args) \<leftarrow> va_int args; s \<leftarrow> resolve_hexdecimal func i False s;
        (i, args) \<leftarrow> va_int args; s \<leftarrow> resolve_hexdecimal func i False s;
        Some (args, s)
      }
      else Some (args, s))"

fun format_loop :: "'s sink \<Rightarrow> u8 list \<Rightarrow> va_arg list \<Rightarrow> 's \<Rightarrow> 's option" where
  "format_loop func [] args s = None"
| "format_loop func (c # cs) args s =
     (if c = 0 then Some s
      else if c \<noteq> of_char (CHR ''%'') then do { s \<leftarrow> func c s; format_loop func cs args s }
      else (case cs of
          [] \<Rightarrow> None
        | d # ds \<Rightarrow> do { (args, s) \<leftarrow> convert func d args s; format_loop func ds args s }))"

definition sprintf_lambda_func :: "u8 \<Rightarrow> u8 list \<times> int \<Rightarrow> (u8 list \<times> int) option" where
  "sprintf_lambda_func c = (\<lambda>(dst, pindex). do { dst \<leftarrow> arr_set dst pindex c; Some (dst, pindex + 1) })"

definition sprintf :: "u8 list \<Rightarrow> u8 list \<Rightarrow> va_arg list \<Rightarrow> (int \<times> u8 list) option" where
  "sprintf dst format args = do {
     (dst, ret) \<leftarrow> format_loop sprintf_lambda_func format args (dst, 0);
     dst \<leftarrow> arr_set dst ret 0;
     Some (ret + 1, dst)
   }"

definition printk :: "u8 list \<Rightarrow> va_arg list \<Rightarrow> console \<Rightarrow> console option" where
  "printk format args c = do { c \<leftarrow> format_loop vga_enqueue_byte format args c; printk_flush c }"

end
