(* ===== verification/Syscalls.thy ===== *)
theory Syscalls
  imports File_Systems Timer Printk
begin

section \<open>System calls (\<^verbatim>\<open>kernel/system_call.c\<close>, \<^verbatim>\<open>kernel/task_misc.c\<close>)\<close>

text \<open>
  The table of system calls with its dispatch, and the calls on tasks, files and directories. A buffer
  or string of the caller is a list of bytes; a call that fills a buffer returns it. The
  dispatch passes registers on, so it works with the code of a call at its address, an argument
  here. A call that waits in the middle is split: the first part ends where the
  processor is given up, the second part begins when the task runs again. What the call keeps on
  its kernel stack meanwhile, a timer or an entry of a wait queue, has an address, which is an argument.
\<close>

abbreviation (input) SYSTEM_CALL_TRAP_VECTOR :: int where "SYSTEM_CALL_TRAP_VECTOR \<equiv> 0x87"
abbreviation (input) CPU_YIELD_TRAP_VECTOR :: int where "CPU_YIELD_TRAP_VECTOR \<equiv> 0x88"
abbreviation (input) MAX_SYSCALL_NUM :: nat where "MAX_SYSCALL_NUM \<equiv> 255"
abbreviation (input) O_WRONLY :: u32 where "O_WRONLY \<equiv> 1"
abbreviation (input) O_RDWR :: u32 where "O_RDWR \<equiv> 2"
abbreviation (input) O_CREAT :: u32 where "O_CREAT \<equiv> 0x200"
abbreviation (input) O_TRUNC :: u32 where "O_TRUNC \<equiv> 0x400"

subsection \<open>The table of system calls\<close>

record syscall_entry =
  sc_valid :: bool
  nr_args :: int
  sc_call :: u32

type_synonym call_code = "u32 \<Rightarrow> addr \<Rightarrow> u32 list \<Rightarrow> kernel \<Rightarrow> (int \<times> kernel) control option"

definition SYSCALL_ARGS :: "x86_cpustate \<Rightarrow> u32 list" where
  "SYSCALL_ARGS c = [ebx c, ecx c, edx c, esi c, edi c]"

definition set_SYSCALL_RETURN :: "addr \<Rightarrow> int \<Rightarrow> kernel \<Rightarrow> kernel" where
  "set_SYSCALL_RETURN c r k = k\<lparr>cpus := (cpus k)(c := (cpus k c)\<lparr>eax := of_int r\<rparr>)\<rparr>"

definition system_call_handler ::
    "call_code \<Rightarrow> syscall_entry list \<Rightarrow> addr \<Rightarrow> kernel \<Rightarrow> (u32 \<times> kernel) control option" where
  "system_call_handler code syscall_entries c k = do {
     let syscall_num = sint (eax (cpus k c));
     if syscall_num < 0 \<or> syscall_num \<ge> int MAX_SYSCALL_NUM
     then Some (Return (c, set_SYSCALL_RETURN c (- ERR_GENERIC) k))
     else do {
       e \<leftarrow> arr_get syscall_entries syscall_num;
       if \<not> sc_valid e then Some (Return (c, set_SYSCALL_RETURN c (- ERR_GENERIC) k))
       else if 0 \<le> nr_args e \<and> nr_args e \<le> 5
       then do {
         r \<leftarrow> code (sc_call e) c (take (nat (nr_args e)) (SYSCALL_ARGS (cpus k c))) k;
         Some (case r of
             Return (syscall_ret, k) \<Rightarrow> Return (c, set_SYSCALL_RETURN c syscall_ret k)
           | Yield k \<Rightarrow> Yield k)
       }
       else Some (Return (c, set_SYSCALL_RETURN c (- ERR_GENERIC) k))
     }
   }"

definition register_system_call :: "int \<Rightarrow> int \<Rightarrow> u32 \<Rightarrow> syscall_entry list \<Rightarrow> syscall_entry list option" where
  "register_system_call call_num n call syscall_entries =
     arr_set syscall_entries call_num \<lparr>sc_valid = True, nr_args = n, sc_call = call\<rparr>"

definition system_call_init :: "u32 \<Rightarrow> intr \<times> syscall_entry list \<Rightarrow> (intr \<times> syscall_entry list) option" where
  "system_call_init handler = (\<lambda>(i, _). do {
     i \<leftarrow> register_interrupt_handler SYSTEM_CALL_TRAP_VECTOR handler i;
     Some (i, replicate MAX_SYSCALL_NUM \<lparr>sc_valid = False, nr_args = 0, sc_call = 0\<rparr>)
   })"

text \<open>The calls of \<^verbatim>\<open>task_misc.c\<close> with their numbers of arguments, in the order of their registration;
  \<open>call_of\<close> gives the address of the function for each index.\<close>

definition task_misc_calls :: "(int \<times> int) list" where
  "task_misc_calls =
    [(7, 1), (8, 1), (10, 2), (0, 3), (1, 1), (2, 3), (3, 3), (4, 3), (5, 2), (6, 2), (11, 0),
     (12, 1), (13, 1), (14, 4), (15, 2), (16, 1), (17, 3), (18, 1), (19, 1), (20, 3), (21, 2)]"

definition task_misc_init ::
    "u32 \<Rightarrow> (int \<Rightarrow> u32) \<Rightarrow> intr \<times> syscall_entry list \<Rightarrow> (intr \<times> syscall_entry list) option" where
  "task_misc_init handler call_of = (\<lambda>(i, syscall_entries). do {
     i \<leftarrow> register_interrupt_handler CPU_YIELD_TRAP_VECTOR handler i;
     syscall_entries \<leftarrow> fold (\<lambda>(idx, n) r. do { entries \<leftarrow> r; register_system_call idx n (call_of idx) entries })
       task_misc_calls (Some syscall_entries);
     Some (i, syscall_entries)
   })"

subsection \<open>Giving up the processor\<close>

text \<open>The frame pointers of the task are saved across the trap.\<close>

definition yield_cpu_enter :: "kernel \<Rightarrow> (addr \<times> addr) option" where
  "yield_cpu_enter k = do {
     kassert (current k \<noteq> NULL);
     Some (cpu (tasks k (current k)), signaled_cpu (tasks k (current k)))
   }"

definition yield_cpu_leave :: "addr \<times> addr \<Rightarrow> kernel \<Rightarrow> kernel option" where
  "yield_cpu_leave saved k = do {
     kassert (current k \<noteq> NULL);
     Some (upd_task (current k) (\<lambda>t. t\<lparr>cpu := fst saved, signaled_cpu := snd saved\<rparr>) k)
   }"

definition cpu_yield_handler :: "addr \<Rightarrow> kernel \<Rightarrow> (u32 \<times> kernel) option" where
  "cpu_yield_handler c k = (if ready_to_schedule k then schedule k else Some (c, k))"

definition sleep_start :: "u32 \<Rightarrow> addr \<Rightarrow> addr \<Rightarrow> u32 \<Rightarrow> kernel \<Rightarrow> ((addr \<times> addr) \<times> kernel) option" where
  "sleep_start callback q timer milisecond k = do {
     kassert (current k \<noteq> NULL);
     let k = k\<lparr>trees := (trees k)(timer := \<lparr>parent = NULL, left = NULL, right = NULL\<rparr>), lists := (lists k)(node_list timer := zero_cell),
       timers := (timers k)(timer := \<lparr>timer_state_of = timer_state_idle, time_to_expire = jiffies k + ucast milisecond,
         timer_callback = callback, timer_priv = current k\<rparr>)\<rparr>;
     k \<leftarrow> register_timer q timer k;
     k \<leftarrow> transit_state (current k) TASK_STATE_INTERRUPTIBLE k;
     saved \<leftarrow> yield_cpu_enter k;
     Some (saved, k)
   }"

definition sleep_resume :: "addr \<Rightarrow> addr \<Rightarrow> addr \<times> addr \<Rightarrow> kernel \<Rightarrow> (int \<times> kernel) option" where
  "sleep_resume q timer saved k = do {
     k \<leftarrow> yield_cpu_leave saved k;
     (ret, k) \<leftarrow>
       (if signal_pending (tasks k (current k))
        then do { k \<leftarrow> cancel_timer q timer k; Some (- ERR_INTERRUPTED, k) }
        else Some (OK, k));
     kassert (timer_detached timer k);
     Some (ret, k)
   }"

definition call_sys_wait0_start :: "addr \<Rightarrow> u32 \<Rightarrow> kernel \<Rightarrow> (int + (addr \<times> addr) \<times> kernel) option" where
  "call_sys_wait0_start wait target_task_id k = do {
     task \<leftarrow> search_task_by_id target_task_id k;
     if task = NULL \<or> state (tasks k task) = TASK_STATE_EXITING then Some (Inl OK)
     else do {
       let k = initialize_wait_queue_entry wait (current k) k;
       k \<leftarrow> add_wait_queue_entry (wq_termination task) wait k;
       k \<leftarrow> transit_state (current k) TASK_STATE_INTERRUPTIBLE k;
       saved \<leftarrow> yield_cpu_enter k;
       Some (Inr (saved, k))
     }
   }"

definition call_sys_wait0_resume :: "addr \<Rightarrow> u32 \<Rightarrow> addr \<times> addr \<Rightarrow> kernel \<Rightarrow> (int \<times> kernel) option" where
  "call_sys_wait0_resume wait target_task_id saved k = do {
     k \<leftarrow> yield_cpu_leave saved k;
     let result = (if signal_pending (tasks k (current k)) then - ERR_INTERRUPTED else OK);
     task \<leftarrow> search_task_by_id target_task_id k;
     k \<leftarrow> (if task \<noteq> NULL then remove_wait_queue_entry (wq_termination task) wait k else Some k);
     Some (result, k)
   }"

subsection \<open>Tasks\<close>

definition call_sys_exit :: "u32 \<Rightarrow> kernel \<Rightarrow> (int \<times> kernel) option" where
  "call_sys_exit code k = do {
     kassert (current k \<noteq> NULL);
     let k = upd_task (current k) (\<lambda>t. t\<lparr>exit_code := code\<rparr>) k;
     (_, k) \<leftarrow> signal_task (current k) SIGCONT k;
     (_, k) \<leftarrow> signal_task (current k) SIGQUIT k;
     Some (OK, k)
   }"

text \<open>The privilege level is read before the check that there is a task.\<close>

definition call_sys_kill :: "u32 \<Rightarrow> u32 \<Rightarrow> kernel \<Rightarrow> (int \<times> kernel) option" where
  "call_sys_kill i signal k =
     (if uint signal \<le> SIG_INVALID \<or> uint signal \<ge> SIG_MAX then Some (- ERR_INVALID_ARG, k)
      else do {
        task \<leftarrow> (if sint i \<ge> 0 then search_task_by_id i k else Some (current k));
        if privilege_level (tasks k task) = DPL_0 then Some (- ERR_NOT_SUPPORTED, k)
        else if task = NULL then Some (- ERR_NOT_FOUND, k)
        else do {
          k \<leftarrow> (if uint signal = SIGQUIT then map_option snd (signal_task task SIGCONT k) else Some k);
          (_, k) \<leftarrow> signal_task task (uint signal) k;
          Some (OK, k)
        }
      })"

definition call_sys_getpid :: "kernel \<Rightarrow> int option" where
  "call_sys_getpid k = do { kassert (current k \<noteq> NULL); Some (sint (task_id (tasks k (current k)))) }"

definition USER_VMA_HEAP :: "u8 list" where "USER_VMA_HEAP = c_lit ''userspace.vma.heap''"

definition call_sys_sbrk :: "int \<Rightarrow> kernel \<Rightarrow> (u32 \<times> kernel) option" where
  "call_sys_sbrk increment k = do {
     kassert (current k \<noteq> NULL);
     let head = vma_list (current k);
     data_vma \<leftarrow> search_userspace_vma (lists k) (vmas k) head USER_VMA_HEAP;
     if data_vma = NULL then Some (- 1, k)
     else do {
       let previous_program_break = ucast (va_virt_addr (vmas k data_vma) + va_length (vmas k data_vma));
       (result, V) \<leftarrow> extend_vm_area (lists k) (vmas k) head data_vma VMA_EXTEND_UPWARD increment;
       Some (if result = OK then previous_program_break else - 1, k\<lparr>vmas := V\<rparr>)
     }
   }"

definition zelda_uts :: "string list" where
  "zelda_uts = [''ZeldaOS'', ''Hyrule'', ''The Brave'', ''0.1'', ''i686'', ''kingdom'']"

text \<open>The six members of \<^verbatim>\<open>struct utsname\<close> are arrays of 65 bytes, one after the other.\<close>

definition call_sys_uname :: "u8 list \<Rightarrow> (int \<times> u8 list) option" where
  "call_sys_uname uts = do {
     let src = concat (map (\<lambda>s. map of_char s @ replicate (65 - length s) 0) zelda_uts);
     uts \<leftarrow> memcpy uts src 390;
     Some (OK, uts)
   }"

record taskent =
  te_name :: "u8 list"
  te_cwd :: "u8 list"
  te_task_id :: u32
  te_state :: task_state
  te_non_stop_state :: task_state
  te_entry :: u32
  te_privilege_level :: u32
  te_schedule_counter :: u32

definition put_task_entry :: "taskent list \<Rightarrow> nat \<Rightarrow> task \<Rightarrow> taskent list option" where
  "put_task_entry taskp nr_task t = do {
     e \<leftarrow> arr_get taskp (int nr_task);
     nm \<leftarrow> strcpy_safe (te_name e) (name t) 256;
     wd \<leftarrow> strcpy_safe (te_cwd e) (cwd t) 256;
     Some (taskp[nr_task := \<lparr>te_name = nm, te_cwd = wd, te_task_id = task_id t, te_state = state t,
       te_non_stop_state = non_stop_state t, te_entry = entry t, te_privilege_level = privilege_level t,
       te_schedule_counter = schedule_counter t\<rparr>])
   }"

partial_function (option) traverse_list ::
    "kernel \<Rightarrow> int \<Rightarrow> addr \<Rightarrow> nat \<times> taskent list \<Rightarrow> (bool \<times> nat \<times> taskent list) option" where
  "traverse_list k count node acc =
     (if node = NULL then Some (False, acc)
      else if int (fst acc) < count then do {
        taskp \<leftarrow> put_task_entry (snd acc) (fst acc) (tasks k (node - 4));
        traverse_list k count (le_next (lists k node)) (fst acc + 1, taskp)
      }
      else Some (True, acc))"

fun traverse_table :: "kernel \<Rightarrow> int \<Rightarrow> nat list \<Rightarrow> nat \<times> taskent list \<Rightarrow> (nat \<times> taskent list) option" where
  "traverse_table k count [] acc = Some acc"
| "traverse_table k count (idx # rest) acc = do {
     (to_terminate, acc) \<leftarrow> traverse_list k count (le_next (lists k (heads (kernel_task_hash_stub k) + 8 * of_nat idx))) acc;
     if to_terminate then Some acc else traverse_table k count rest acc
   }"

definition do_task_traverse :: "taskent list \<Rightarrow> int \<Rightarrow> kernel \<Rightarrow> (int \<times> taskent list) option" where
  "do_task_traverse taskp count k = do {
     (nr_task, taskp) \<leftarrow> traverse_table k count [0..<KERNEL_TASK_HASH_TABLE_SIZE] (0, taskp);
     Some (int nr_task, taskp)
   }"

definition call_sys_gettaskents :: "taskent list \<Rightarrow> int \<Rightarrow> kernel \<Rightarrow> (int \<times> taskent list) option" where
  "call_sys_gettaskents taskp count k = do_task_traverse taskp count k"

subsection \<open>Files\<close>

fun skip_blanks :: "u8 list \<Rightarrow> u8 list option" where
  "skip_blanks [] = None"
| "skip_blanks (c # rest) = (if c \<noteq> 0 \<and> c = 0x20 then skip_blanks rest else Some (c # rest))"

definition compose_absolute_path :: "u8 list \<Rightarrow> u8 list \<Rightarrow> kernel \<Rightarrow> (int \<times> u8 list) option" where
  "compose_absolute_path absolute_path path k = do {
     ptr \<leftarrow> skip_blanks path;
     absolute_path \<leftarrow>
       (if take 1 ptr \<noteq> [SLASH]
        then map_option snd (sprintf absolute_path (c_lit ''%s/%s'') [VStr (cwd (tasks k (current k))), VStr path])
        else strcpy_safe absolute_path path (int MAX_PATH));
     Some (OK, absolute_path)
   }"

definition absolute_path_of :: "u8 list \<Rightarrow> kernel \<Rightarrow> u8 list option" where
  "absolute_path_of path k = map_option snd (compose_absolute_path (replicate MAX_PATH 0) path k)"

definition search_unoccupied_file_descriptor :: "task \<Rightarrow> int" where
  "search_unoccupied_file_descriptor task =
     (case find (\<lambda>idx. \<not> fe_valid (file_entries task ! idx)) [0..<MAX_FILE_DESCRIPTR_PER_TASK] of
        None \<Rightarrow> - 1
      | Some idx \<Rightarrow> int idx)"

definition current_entry :: "kernel \<Rightarrow> int \<Rightarrow> file_entry" where
  "current_entry k fd = file_entries (tasks k (current k)) ! nat fd"

definition set_current_entry :: "int \<Rightarrow> file_entry \<Rightarrow> kernel \<Rightarrow> kernel" where
  "set_current_entry fd fe k = upd_task (current k) (\<lambda>t. t\<lparr>file_entries := (file_entries t)[nat fd := fe]\<rparr>) k"

definition bad_descriptor :: "kernel \<Rightarrow> int \<Rightarrow> bool" where
  "bad_descriptor k fd \<longleftrightarrow> fd < 0 \<or> fd \<ge> int MAX_FILE_DESCRIPTR_PER_TASK \<or> \<not> fe_valid (current_entry k fd)"

definition call_sys_open ::
    "(addr \<Rightarrow> filesystem_operation) \<Rightarrow> (addr \<Rightarrow> file_operation) \<Rightarrow> u8 list \<Rightarrow> u32 \<Rightarrow> u32 \<Rightarrow> kernel \<Rightarrow> (int \<times> kernel) option" where
  "call_sys_open fsops fops pth flags mode k = do {
     kassert (current k \<noteq> NULL);
     path \<leftarrow> absolute_path_of pth k;
     let fd = search_unoccupied_file_descriptor (tasks k (current k));
     if fd < 0 then Some (- ERR_OUT_OF_RESOURCE, k)
     else do {
       kassert (fd < int MAX_FILE_DESCRIPTR_PER_TASK \<and> \<not> fe_valid (current_entry k fd));
       (created, k) \<leftarrow> (if flags AND O_CREAT \<noteq> 0 then do {
             (f, k) \<leftarrow> do_vfs_create fsops path flags mode k;
             Some (f \<noteq> NULL, k)
           }
           else Some (True, k));
       if \<not> created then Some (- ERR_GENERIC, k)
       else do {
         (f, k) \<leftarrow> do_vfs_open fsops path flags mode k;
         if f = NULL then Some (- ERR_GENERIC, k)
         else do {
           let for_writing = (flags AND O_WRONLY \<noteq> 0 \<or> flags AND O_RDWR \<noteq> 0);
           let k = set_current_entry fd \<lparr>fe_file = f, fe_offset = 0, fe_valid = True, fe_writable = for_writing\<rparr> k;
           k \<leftarrow> (if for_writing \<and> flags AND O_TRUNC \<noteq> 0
                 then map_option snd (do_vfs_truncate fops (current_entry k fd) 0 k) else Some k);
           Some (fd, k)
         }
       }
     }
   }"

definition call_sys_close :: "int \<Rightarrow> kernel \<Rightarrow> (int \<times> kernel) option" where
  "call_sys_close fd k =
     (if fd < 0 \<or> fd \<ge> int MAX_FILE_DESCRIPTR_PER_TASK then Some (- ERR_INVALID_ARG, k)
      else do {
        kassert (current k \<noteq> NULL);
        if \<not> fe_valid (current_entry k fd) then Some (- ERR_INVALID_ARG, k)
        else do {
          let (ret, k) = do_vfs_close (fe_file (current_entry k fd)) k;
          Some (ret, set_current_entry fd \<lparr>fe_file = NULL, fe_offset = 0, fe_valid = False, fe_writable = False\<rparr> k)
        }
      })"

definition call_sys_read ::
    "(addr \<Rightarrow> file_operation) \<Rightarrow> int \<Rightarrow> u8 list \<Rightarrow> int \<Rightarrow> kernel \<Rightarrow> (int \<times> u8 list \<times> kernel) option" where
  "call_sys_read fops fd buffer size_to_read k = do {
     kassert (current k \<noteq> NULL);
     if bad_descriptor k fd then Some (- ERR_INVALID_ARG, buffer, k)
     else do {
       (read_result, buffer, fe, k) \<leftarrow> do_vfs_read fops (current_entry k fd) buffer size_to_read k;
       Some (read_result, buffer, set_current_entry fd fe k)
     }
   }"

definition call_sys_write ::
    "(addr \<Rightarrow> file_operation) \<Rightarrow> int \<Rightarrow> u8 list \<Rightarrow> int \<Rightarrow> kernel \<Rightarrow> (int \<times> kernel) option" where
  "call_sys_write fops fd buffer size_to_write k = do {
     kassert (current k \<noteq> NULL);
     if bad_descriptor k fd then Some (- ERR_INVALID_ARG, k)
     else do {
       (write_result, fe, k) \<leftarrow> do_vfs_write fops (current_entry k fd) buffer size_to_write k;
       Some (write_result, set_current_entry fd fe k)
     }
   }"

definition call_sys_lseek :: "(addr \<Rightarrow> file_operation) \<Rightarrow> int \<Rightarrow> u32 \<Rightarrow> u32 \<Rightarrow> kernel \<Rightarrow> (int \<times> kernel) option" where
  "call_sys_lseek fops fd offset whence k = do {
     kassert (current k \<noteq> NULL);
     if bad_descriptor k fd then Some (- ERR_INVALID_ARG, k)
     else do {
       (r, fe) \<leftarrow> do_vfs_lseek fops (current_entry k fd) offset whence k;
       Some (r, set_current_entry fd fe k)
     }
   }"

definition call_sys_stat ::
    "(addr \<Rightarrow> filesystem_operation) \<Rightarrow> (addr \<Rightarrow> file_operation) \<Rightarrow> u8 list \<Rightarrow> stat_buf \<Rightarrow> kernel \<Rightarrow> (int \<times> stat_buf) option" where
  "call_sys_stat fsops fops path buf k = do_vfs_stat fsops fops path buf k"

definition call_sys_fstat :: "(addr \<Rightarrow> file_operation) \<Rightarrow> int \<Rightarrow> stat_buf \<Rightarrow> kernel \<Rightarrow> (int \<times> stat_buf) option" where
  "call_sys_fstat fops fd buf k = do {
     kassert (current k \<noteq> NULL);
     if bad_descriptor k fd then Some (- ERR_INVALID_ARG, buf)
     else do {
       let f = fe_file (current_entry k fd);
       kassert (f \<noteq> NULL);
       case fo_stat (fops (f_ops (files k f))) of
         None \<Rightarrow> Some (- ERR_NOT_SUPPORTED, buf)
       | Some stat \<Rightarrow> stat f \<lparr>st_mode = 0, st_size = 0\<rparr> k
     }
   }"

definition call_sys_isatty :: "(addr \<Rightarrow> file_operation) \<Rightarrow> int \<Rightarrow> kernel \<Rightarrow> int option" where
  "call_sys_isatty fops fd k = do {
     kassert (current k \<noteq> NULL);
     if bad_descriptor k fd then Some 0
     else do {
       let f = fe_file (current_entry k fd);
       kassert (f \<noteq> NULL);
       case fo_isatty (fops (f_ops (files k f))) of None \<Rightarrow> Some 0 | Some isatty \<Rightarrow> isatty f k
     }
   }"

definition call_sys_ioctl ::
    "(addr \<Rightarrow> file_operation) \<Rightarrow> int \<Rightarrow> u32 \<Rightarrow> u32 \<Rightarrow> u32 \<Rightarrow> kernel \<Rightarrow> (int \<times> kernel) option" where
  "call_sys_ioctl fops fd request foo bar k = do {
     kassert (current k \<noteq> NULL);
     if bad_descriptor k fd then Some (- ERR_INVALID_ARG, k)
     else do {
       let f = fe_file (current_entry k fd);
       kassert (f \<noteq> NULL);
       case fo_ioctl (fops (f_ops (files k f))) of
         None \<Rightarrow> Some (- ERR_NOT_SUPPORTED, k)
       | Some ioctl \<Rightarrow> ioctl f request foo bar k
     }
   }"

subsection \<open>Directories\<close>

function getcwd_loop :: "u8 list \<Rightarrow> int \<Rightarrow> int \<Rightarrow> u8 list \<Rightarrow> (int \<times> u8 list) option" where
  "getcwd_loop wd len idx ptr =
     (if idx < int MAX_PATH then do {
        c \<leftarrow> arr_get wd idx;
        if c \<noteq> 0 \<and> idx < len then do { ptr \<leftarrow> arr_set ptr idx c; getcwd_loop wd len (idx + 1) ptr }
        else Some (idx, ptr)
      }
      else Some (idx, ptr))"
  by pat_completeness auto
termination by (relation "measure (\<lambda>(_, _, idx, _). nat (int MAX_PATH - idx))") auto

definition call_sys_getcwd :: "u8 list \<Rightarrow> int \<Rightarrow> kernel \<Rightarrow> (int \<times> u8 list) option" where
  "call_sys_getcwd buffer len k = do {
     kassert (current k \<noteq> NULL);
     (idx, ptr) \<leftarrow> getcwd_loop (cwd (tasks k (current k))) len 0 buffer;
     if idx < len then do { ptr \<leftarrow> arr_set ptr idx 0; Some (idx + 1, ptr) } else Some (idx, ptr)
   }"

text \<open>The result of the canonicalisation is not checked. The entry \<^verbatim>\<open>dir\<close> is not initialised; its type is
  only read when it has been written.\<close>

definition call_sys_chdir ::
    "(addr \<Rightarrow> filesystem_operation) \<Rightarrow> (addr \<Rightarrow> file_operation) \<Rightarrow> dirent \<Rightarrow> u8 list \<Rightarrow> kernel \<Rightarrow> (int \<times> kernel) option" where
  "call_sys_chdir fsops fops dir path k = do {
     kassert (current k \<noteq> NULL);
     absolute_path \<leftarrow> absolute_path_of path k;
     (_, c_name) \<leftarrow> canonicalize_path_name (replicate MAX_PATH 0) absolute_path;
     (n, dirp) \<leftarrow> do_vfs_getdents fsops fops c_name [dir] 1 k;
     if n \<noteq> 1 \<or> de_type (dirp ! 0) \<noteq> ucast FILE_TYPE_DIR \<and> de_type (dirp ! 0) \<noteq> ucast FILE_TYPE_MARK
     then Some (- ERR_INVALID_ARG, k)
     else do { k \<leftarrow> set_work_directory (current k) c_name k; Some (OK, k) }
   }"

definition call_sys_getdents ::
    "(addr \<Rightarrow> filesystem_operation) \<Rightarrow> (addr \<Rightarrow> file_operation) \<Rightarrow> u8 list \<Rightarrow> dirent list \<Rightarrow> int \<Rightarrow> kernel \<Rightarrow> (int \<times> dirent list) option" where
  "call_sys_getdents fsops fops path dirp count k = do {
     absolute_path \<leftarrow> absolute_path_of path k;
     do_vfs_getdents fsops fops absolute_path dirp count k
   }"

declare traverse_list.simps [code]

end
