(* ===== verification/Terminal.thy ===== *)
theory Terminal
  imports Syscalls Ring_Buffer
begin

section \<open>Terminals (\<^verbatim>\<open>device/pseudo_terminal.c\<close>, \<^verbatim>\<open>device/console.c\<close>)\<close>

text \<open>
  The pseudo terminals share the screen with the console of the kernel: \<^verbatim>\<open>video_ptr\<close> of this file and \<^verbatim>\<open>vga_ptr\<close> of
  \<^verbatim>\<open>printk.c\<close> are the same memory. A terminal has two input rings, one that the keyboard fills for its
  master and one that the master fills for the task in the foreground. The wait queues live in the
  memory of list cells at the address of the terminal plus their offset. Port writes are recorded, port reads get
  their values from the state. A read that waits is split at the places where it gives up the processor.
\<close>

abbreviation (input) PTTY_ROWS :: nat where "PTTY_ROWS \<equiv> 25"
abbreviation (input) PTTY_COLUMNS :: nat where "PTTY_COLUMNS \<equiv> 80"
abbreviation (input) MAX_TERMINALS :: nat where "MAX_TERMINALS \<equiv> 6"
abbreviation (input) PSEUDO_BUFFER_SIZE :: nat where "PSEUDO_BUFFER_SIZE \<equiv> 64"
abbreviation (input) SIZEOF_PTTY :: u32 where "SIZEOF_PTTY \<equiv> 2272"
abbreviation (input) CONSOLE_CURSOR_PORT0 :: "16 word" where "CONSOLE_CURSOR_PORT0 \<equiv> 0x3d4"
abbreviation (input) CONSOLE_CURSOR_PORT1 :: "16 word" where "CONSOLE_CURSOR_PORT1 \<equiv> 0x3d5"

record ptty =
  master_task_id :: u32
  foreground_task_id :: u32
  need_scroll :: bool
  row_front :: nat
  row_index :: nat
  col_index :: nat
  pt_buffer :: "u8 list list"
  pt_ring :: ring
  slave_ring :: ring

definition wq_head :: "addr \<Rightarrow> addr" where "wq_head p = p + 8"
definition slave_wq_head :: "addr \<Rightarrow> addr" where "slave_wq_head p = p + 2188"

record tty =
  con :: console
  ptties :: "addr \<Rightarrow> ptty"
  ptty_base :: addr
  current_ptty :: addr
  port_out :: "(16 word \<times> u8) list"
  port_in :: "nat \<Rightarrow> u8"
  port_reads :: nat

definition upd_ptty :: "addr \<Rightarrow> (ptty \<Rightarrow> ptty) \<Rightarrow> tty \<Rightarrow> tty" where
  "upd_ptty p f t = t\<lparr>ptties := (ptties t)(p := f (ptties t p))\<rparr>"

definition tty_outb :: "16 word \<Rightarrow> u8 \<Rightarrow> tty \<Rightarrow> tty" where
  "tty_outb port byte t = t\<lparr>port_out := port_out t @ [(port, byte)]\<rparr>"

definition tty_inb :: "tty \<Rightarrow> u8 \<times> tty" where
  "tty_inb t = (port_in t (port_reads t), t\<lparr>port_reads := port_reads t + 1\<rparr>)"

subsection \<open>Rows\<close>

definition ptty_init :: "addr \<Rightarrow> kernel \<times> tty \<Rightarrow> (int \<times> kernel \<times> tty) option" where
  "ptty_init ptm = (\<lambda>(k, t). do {
     let r = ring_reset \<lparr>ring_size = int PSEUDO_BUFFER_SIZE, front = 0, rear = 0, buffer = replicate PSEUDO_BUFFER_SIZE 0\<rparr>;
     kassert (ring_empty r);
     let k = initialize_wait_queue_head (wq_head ptm) k;
     let k = initialize_wait_queue_head (slave_wq_head ptm) k;
     Some (OK, k, upd_ptty ptm (\<lambda>_. \<lparr>master_task_id = 0, foreground_task_id = 0, need_scroll = False, row_front = 0,
       row_index = 0, col_index = 0, pt_buffer = replicate (PTTY_ROWS + 1) (replicate PTTY_COLUMNS 0),
       pt_ring = r, slave_ring = r\<rparr>) t)
   })"

definition ptty_enqueue_byte :: "u8 \<Rightarrow> ptty \<Rightarrow> ptty option" where
  "ptty_enqueue_byte v p = do {
     let last_row_index = row_index p;
     m \<leftarrow> (if v \<noteq> LINE_FEED then mat_set (pt_buffer p) (row_index p) (col_index p) v else Some (pt_buffer p));
     let p = p\<lparr>pt_buffer := m, col_index := col_index p + 1\<rparr>;
     p \<leftarrow> (if col_index p = PTTY_COLUMNS \<or> v = LINE_FEED
       then do {
         let p = p\<lparr>col_index := 0, row_index := (row_index p + 1) mod (PTTY_ROWS + 1)\<rparr>;
         if (row_index p + 1) mod (PTTY_ROWS + 1) = row_front p
         then do {
           m \<leftarrow> mat_row_loop (\<lambda>idx m. mat_set m (row_front p) idx 0) PTTY_COLUMNS 0 (pt_buffer p);
           Some (p\<lparr>pt_buffer := m, row_front := (row_front p + 1) mod (PTTY_ROWS + 1)\<rparr>)
         }
         else Some p
       }
       else Some p);
     Some (p\<lparr>need_scroll := (need_scroll p \<or> last_row_index \<noteq> row_index p)\<rparr>)
   }"

definition update_cusor :: "nat \<Rightarrow> nat \<Rightarrow> tty \<Rightarrow> tty" where
  "update_cusor x y t =
     (let pos = of_nat (y * PTTY_COLUMNS + x) :: u16;
          t = tty_outb CONSOLE_CURSOR_PORT0 0x0f t;
          t = tty_outb CONSOLE_CURSOR_PORT1 (ucast (pos AND 0xff)) t;
          t = tty_outb CONSOLE_CURSOR_PORT0 0x0e t
      in tty_outb CONSOLE_CURSOR_PORT1 (ucast (drop_bit 8 pos AND 0xff)) t)"

definition disable_cursor :: "tty \<Rightarrow> tty" where
  "disable_cursor t = tty_outb CONSOLE_CURSOR_PORT1 0x20 (tty_outb CONSOLE_CURSOR_PORT0 0x0a t)"

definition enable_cursor :: "u8 \<Rightarrow> u8 \<Rightarrow> tty \<Rightarrow> tty" where
  "enable_cursor cursor_start cursor_end t =
     (let t = tty_outb CONSOLE_CURSOR_PORT0 0x0a t;
          (v, t) = tty_inb t;
          t = tty_outb CONSOLE_CURSOR_PORT1 ((v AND 0xc0) OR cursor_start) t;
          t = tty_outb CONSOLE_CURSOR_PORT0 0x0b t;
          (v, t) = tty_inb t
      in tty_outb CONSOLE_CURSOR_PORT1 ((v AND 0xe0) OR cursor_end) t)"

text \<open>One row of the screen. When rows have moved, the whole screen is written; that loop is the one of
  \<^verbatim>\<open>printk_flush\<close>, over the rows of the terminal, and it runs once for every row from the front to the current one.\<close>

definition flush_row :: "u8 list list \<Rightarrow> nat \<Rightarrow> nat \<Rightarrow> u16 list list \<Rightarrow> u16 list list option" where
  "flush_row buf row video_row m =
     mat_row_loop (\<lambda>col m. do {
       v \<leftarrow> mat_get m video_row col;
       s \<leftarrow> mat_get buf row col;
       mat_set m video_row col ((v AND 0xff00) OR ucast s)
     }) PTTY_COLUMNS 0 m"

definition ptty_flush_terminal :: "addr \<Rightarrow> tty \<Rightarrow> (int \<times> tty) option" where
  "ptty_flush_terminal ptm t = do {
     let p = ptties t ptm;
     let video_row_idx = (row_index p + PTTY_ROWS + 1 - row_front p) mod (PTTY_ROWS + 1);
     (m, y) \<leftarrow>
       (if \<not> need_scroll p
        then do {
          kassert (video_row_idx < PTTY_ROWS);
          m \<leftarrow> flush_row (pt_buffer p) (row_index p) video_row_idx (vga_ptr (con t));
          Some (m, video_row_idx + 1)
        }
        else do {
          m \<leftarrow> flush_loop (pt_buffer p) (row_index p) (row_front p) 0 (vga_ptr (con t));
          Some (m, (row_index p + 1 + PTTY_ROWS + 1 - row_front p) mod (PTTY_ROWS + 1))
        });
     let t = update_cusor (col_index p) y (t\<lparr>con := (con t)\<lparr>vga_ptr := m\<rparr>\<rparr>);
     Some (OK, upd_ptty ptm (\<lambda>p. p\<lparr>need_scroll := False\<rparr>) t)
   }"

fun ptty_enqueue_all :: "u8 list \<Rightarrow> ptty \<Rightarrow> ptty option" where
  "ptty_enqueue_all [] p = Some p"
| "ptty_enqueue_all (c # rest) p = do { p \<leftarrow> ptty_enqueue_byte c p; ptty_enqueue_all rest p }"

definition ptty_dev_write :: "addr \<Rightarrow> u8 list \<Rightarrow> int \<Rightarrow> kernel \<times> tty \<Rightarrow> (int \<times> kernel \<times> tty) option" where
  "ptty_dev_write file buf n = (\<lambda>(k, t). do {
     let ptm = f_priv (files k file);
     kassert (ptm \<noteq> NULL);
     kassert (nat n \<le> length buf);
     p \<leftarrow> ptty_enqueue_all (take (nat n) buf) (ptties t ptm);
     let t = upd_ptty ptm (\<lambda>_. p) t;
     t \<leftarrow> (if ptm = current_ptty t then map_option snd (ptty_flush_terminal ptm t) else Some t);
     Some (n, k, t)
   })"

definition ptty_dev_size :: "addr \<Rightarrow> int" where
  "ptty_dev_size file = int (PTTY_ROWS * PTTY_COLUMNS)"

definition ptty_dev_stat :: "addr \<Rightarrow> stat_buf \<Rightarrow> int \<times> stat_buf" where
  "ptty_dev_stat file b = (OK, b\<lparr>st_size := of_nat (PTTY_ROWS * PTTY_COLUMNS)\<rparr>)"

definition ptty_dev_isatty :: "addr \<Rightarrow> int" where
  "ptty_dev_isatty file = 1"

definition ptty_clear :: "addr \<Rightarrow> tty \<Rightarrow> tty option" where
  "ptty_clear ptm t = do {
     let t = upd_ptty ptm (\<lambda>p. p\<lparr>need_scroll := False, row_front := 0, row_index := 0, col_index := 0,
       pt_buffer := replicate (PTTY_ROWS + 1) (replicate PTTY_COLUMNS 0)\<rparr>) t;
     if current_ptty t = ptm then do { c \<leftarrow> reset_video_buffer (con t); Some (t\<lparr>con := c\<rparr>) } else Some t
   }"

text \<open>\<open>data\<close> are the bytes at the pointer \<open>foo\<close>, which only the write to the ring of the foreground task reads.\<close>

definition ptty_dev_ioctl :: "addr \<Rightarrow> u32 \<Rightarrow> u32 \<Rightarrow> u32 \<Rightarrow> u8 list \<Rightarrow> kernel \<times> tty \<Rightarrow> (int \<times> kernel \<times> tty) option" where
  "ptty_dev_ioctl file request foo bar data = (\<lambda>(k, t). do {
     let ptm = f_priv (files k file);
     if request = 1 then do { t \<leftarrow> ptty_clear ptm t; Some (OK, k, t) }
     else if request = 2 then Some (OK, k, upd_ptty ptm (\<lambda>p. p\<lparr>master_task_id := foo\<rparr>) t)
     else if request = 3
     then Some (OK, k, upd_ptty ptm (\<lambda>p. p\<lparr>foreground_task_id := foo, slave_ring := ring_reset (slave_ring p)\<rparr>) t)
     else if request = 4
     then do {
       (result, r) \<leftarrow> write_ring (slave_ring (ptties t ptm)) data (sint bar);
       Some (result, k, upd_ptty ptm (\<lambda>p. p\<lparr>slave_ring := r\<rparr>) t)
     }
     else Some (- ERR_NOT_PRESENT, k, t)
   })"

subsection \<open>Reading\<close>

text \<open>A read either has a result, or it has put the task to sleep: then the result is the saved
  frame pointers, and the read goes on with the next function when the task runs again.\<close>

type_synonym read_result = "((int \<times> u8 list) + addr \<times> addr) \<times> kernel \<times> tty"

definition master_read_wait :: "addr \<Rightarrow> addr \<Rightarrow> u8 list \<Rightarrow> int \<Rightarrow> kernel \<times> tty \<Rightarrow> read_result option" where
  "master_read_wait wait ptm buf n = (\<lambda>(k, t).
     if ring_empty (pt_ring (ptties t ptm))
     then do {
       k \<leftarrow> transit_state (current k) TASK_STATE_INTERRUPTIBLE k;
       saved \<leftarrow> yield_cpu_enter k;
       Some (Inr saved, k, t)
     }
     else do {
       (result, buf, r) \<leftarrow> read_ring (pt_ring (ptties t ptm)) buf n;
       k \<leftarrow> remove_wait_queue_entry (wq_head ptm) wait k;
       Some (Inl (result, buf), k, upd_ptty ptm (\<lambda>p. p\<lparr>pt_ring := r\<rparr>) t)
     })"

definition ptty_master_read :: "addr \<Rightarrow> addr \<Rightarrow> u8 list \<Rightarrow> int \<Rightarrow> kernel \<times> tty \<Rightarrow> read_result option" where
  "ptty_master_read wait file buf n = (\<lambda>(k, t). do {
     let ptm = f_priv (files k file);
     kassert (current k \<noteq> NULL);
     kassert (ptm \<noteq> NULL);
     kassert (task_id (tasks k (current k)) = master_task_id (ptties t ptm));
     let k = initialize_wait_queue_entry wait (current k) k;
     k \<leftarrow> add_wait_queue_entry (wq_head ptm) wait k;
     master_read_wait wait ptm buf n (k, t)
   })"

definition ptty_master_read_resume ::
    "addr \<Rightarrow> addr \<Rightarrow> u8 list \<Rightarrow> int \<Rightarrow> addr \<times> addr \<Rightarrow> kernel \<times> tty \<Rightarrow> read_result option" where
  "ptty_master_read_resume wait ptm buf n saved = (\<lambda>(k, t). do {
     k \<leftarrow> yield_cpu_leave saved k;
     if signal_pending (tasks k (current k))
     then do {
       k \<leftarrow> remove_wait_queue_entry (wq_head ptm) wait k;
       Some (Inl (- ERR_INTERRUPTED, buf), k, t)
     }
     else master_read_wait wait ptm buf n (k, t)
   })"

definition slave_read_wait :: "addr \<Rightarrow> addr \<Rightarrow> u8 list \<Rightarrow> int \<Rightarrow> kernel \<times> tty \<Rightarrow> read_result option" where
  "slave_read_wait wait ptm buf n = (\<lambda>(k, t).
     if foreground_task_id (ptties t ptm) \<noteq> task_id (tasks k (current k)) \<or> ring_empty (slave_ring (ptties t ptm))
     then do {
       k \<leftarrow> transit_state (current k) TASK_STATE_INTERRUPTIBLE k;
       saved \<leftarrow> yield_cpu_enter k;
       Some (Inr saved, k, t)
     }
     else do {
       (result, buf, r) \<leftarrow> read_ring (slave_ring (ptties t ptm)) buf n;
       k \<leftarrow> remove_wait_queue_entry (slave_wq_head ptm) wait k;
       Some (Inl (result, buf), k, upd_ptty ptm (\<lambda>p. p\<lparr>slave_ring := r\<rparr>) t)
     })"

definition ptty_slave_read :: "addr \<Rightarrow> addr \<Rightarrow> u8 list \<Rightarrow> int \<Rightarrow> kernel \<times> tty \<Rightarrow> read_result option" where
  "ptty_slave_read wait file buf n = (\<lambda>(k, t). do {
     let ptm = f_priv (files k file);
     let k = initialize_wait_queue_entry wait (current k) k;
     k \<leftarrow> add_wait_queue_entry (slave_wq_head ptm) wait k;
     slave_read_wait wait ptm buf n (k, t)
   })"

definition ptty_slave_read_resume ::
    "addr \<Rightarrow> addr \<Rightarrow> u8 list \<Rightarrow> int \<Rightarrow> addr \<times> addr \<Rightarrow> kernel \<times> tty \<Rightarrow> read_result option" where
  "ptty_slave_read_resume wait ptm buf n saved = (\<lambda>(k, t). do {
     k \<leftarrow> yield_cpu_leave saved k;
     if signal_pending (tasks k (current k))
     then do {
       k \<leftarrow> remove_wait_queue_entry (slave_wq_head ptm) wait k;
       Some (Inl (- ERR_INTERRUPTED, buf), k, t)
     }
     else slave_read_wait wait ptm buf n (k, t)
   })"

definition ptty_dev_read :: "addr \<Rightarrow> addr \<Rightarrow> u8 list \<Rightarrow> int \<Rightarrow> kernel \<times> tty \<Rightarrow> read_result option" where
  "ptty_dev_read wait file buf n = (\<lambda>(k, t).
     if current k = NULL then Some (Inl (- ERR_INVALID_ARG, buf), k, t)
     else if master_task_id (ptties t (f_priv (files k file))) = task_id (tasks k (current k))
     then ptty_master_read wait file buf n (k, t)
     else ptty_slave_read wait file buf n (k, t))"

subsection \<open>Switching between terminals\<close>

definition switch_to_default_console :: "u32 \<Rightarrow> kernel \<times> tty \<Rightarrow> (kernel \<times> tty) option" where
  "switch_to_default_console arg = (\<lambda>(k, t). do {
     c \<leftarrow> expose_default_console (con t);
     let t = t\<lparr>con := c\<rparr>;
     let t = (if current_ptty t \<noteq> NULL then upd_ptty (current_ptty t) (\<lambda>p. p\<lparr>pt_ring := ring_reset (pt_ring p)\<rparr>) t else t);
     Some (k, disable_cursor (t\<lparr>current_ptty := NULL\<rparr>))
   })"

definition switch_to_pseudo_terminal :: "u32 \<Rightarrow> kernel \<times> tty \<Rightarrow> (kernel \<times> tty) option" where
  "switch_to_pseudo_terminal arg = (\<lambda>(k, t). do {
     kassert (arg < of_nat MAX_TERMINALS);
     c \<leftarrow> hide_default_console (con t);
     let ptm = ptty_base t + SIZEOF_PTTY * arg;
     let t = upd_ptty ptm (\<lambda>p. p\<lparr>need_scroll := True\<rparr>) (t\<lparr>con := c, current_ptty := ptm\<rparr>);
     let t = enable_cursor 0 0 t;
     (_, t) \<leftarrow> ptty_flush_terminal ptm t;
     Some (k, upd_ptty ptm (\<lambda>p. p\<lparr>pt_ring := ring_reset (pt_ring p)\<rparr>) t)
   })"

definition interrupt_pseudo_terminal :: "u32 \<Rightarrow> kernel \<times> tty \<Rightarrow> (kernel \<times> tty) option" where
  "interrupt_pseudo_terminal arg = (\<lambda>(k, t).
     if current_ptty t \<noteq> NULL \<and> master_task_id (ptties t (current_ptty t)) \<noteq> 0
     then do {
       task \<leftarrow> search_task_by_id (master_task_id (ptties t (current_ptty t))) k;
       k \<leftarrow> (if task \<noteq> NULL then map_option snd (signal_task task SIGINT k) else Some k);
       Some (k, t)
     }
     else Some (k, t))"

end
