(* ===== verification/Keyboard.thy ===== *)
theory Keyboard
  imports Terminal
begin

section \<open>Keyboard (\<^verbatim>\<open>device/keyboard.c\<close>)\<close>

text \<open>
  The keyboard interrupt: scan codes, the state of the modifier keys, shortcuts, and the characters that the current terminal
  gets. Handlers of shortcuts are called through an argument that gives the code at an address.
\<close>

abbreviation (input) KEY_SPACE_SIZE :: nat where "KEY_SPACE_SIZE \<equiv> 256"
abbreviation (input) MAX_SHORTCUT_SIZE :: nat where "MAX_SHORTCUT_SIZE \<equiv> 256"
abbreviation (input) KEY_STATE_PRESSED :: u8 where "KEY_STATE_PRESSED \<equiv> 0x1"
abbreviation (input) KEY_STATE_CONTROLL_PRESSED :: u8 where "KEY_STATE_CONTROLL_PRESSED \<equiv> 0x2"
abbreviation (input) KEY_STATE_SHIFT_PRESSED :: u8 where "KEY_STATE_SHIFT_PRESSED \<equiv> 0x4"
abbreviation (input) KEY_STATE_ALT_PRESSED :: u8 where "KEY_STATE_ALT_PRESSED \<equiv> 0x8"
abbreviation (input) KEY_STATE_CAPS_LOCKED :: u8 where "KEY_STATE_CAPS_LOCKED \<equiv> 0x10"
abbreviation (input) SCANCODE_CONTROL :: u8 where "SCANCODE_CONTROL \<equiv> 0x1d"
abbreviation (input) SCANCODE_LSHIFT :: u8 where "SCANCODE_LSHIFT \<equiv> 0x2a"
abbreviation (input) SCANCODE_RSHIFT :: u8 where "SCANCODE_RSHIFT \<equiv> 0x36"
abbreviation (input) SCANCODE_ALT :: u8 where "SCANCODE_ALT \<equiv> 0x38"
abbreviation (input) SCANCODE_CAPS :: u8 where "SCANCODE_CAPS \<equiv> 0x3a"
abbreviation (input) SCANCODE_C :: u8 where "SCANCODE_C \<equiv> 0x2e"
abbreviation (input) SCANCODE_BACKSPACE :: u8 where "SCANCODE_BACKSPACE \<equiv> 0x0e"
abbreviation (input) SCANCODE_F1 :: u8 where "SCANCODE_F1 \<equiv> 0x3b"
abbreviation (input) SCANCODE_F2 :: u8 where "SCANCODE_F2 \<equiv> 0x3c"

record keyboard_shortcut_entry =
  sh_scancode :: u8
  sh_keystate :: u8
  sh_handler :: u32
  sh_arg :: u32

record keyboard =
  key_state :: u8
  keycode :: "u8 list"
  keyshift :: "u8 list"
  shortcut_entries :: "keyboard_shortcut_entry list"
  shortcut_entry_ptr :: nat

type_synonym hook_code = "u32 \<Rightarrow> u32 \<Rightarrow> kernel \<times> tty \<Rightarrow> (kernel \<times> tty) option"

partial_function (option) retrieve_scancode :: "tty \<Rightarrow> (u8 \<times> tty) option" where
  "retrieve_scancode t =
     (if fst (tty_inb t) \<noteq> 0 then Some (tty_inb t) else retrieve_scancode (snd (tty_inb t)))"

definition discard_pressed_bit :: "u8 \<Rightarrow> u8" where
  "discard_pressed_bit scancode = scancode AND 0x7f"

definition process_scancode :: "u8 \<Rightarrow> u8 \<Rightarrow> u8" where
  "process_scancode scancode st =
     (let st = (if scancode AND 0x80 \<noteq> 0 then st AND NOT KEY_STATE_PRESSED else st OR KEY_STATE_PRESSED);
          scancode = discard_pressed_bit scancode
      in if st AND KEY_STATE_PRESSED \<noteq> 0
         then (if scancode = SCANCODE_CONTROL then st OR KEY_STATE_CONTROLL_PRESSED
               else if scancode = SCANCODE_LSHIFT \<or> scancode = SCANCODE_RSHIFT then st OR KEY_STATE_SHIFT_PRESSED
               else if scancode = SCANCODE_ALT then st OR KEY_STATE_ALT_PRESSED
               else if scancode = SCANCODE_CAPS
               then (if st AND KEY_STATE_CAPS_LOCKED \<noteq> 0 then st AND NOT KEY_STATE_CAPS_LOCKED else st OR KEY_STATE_CAPS_LOCKED)
               else st)
         else (if scancode = SCANCODE_CONTROL then st AND NOT KEY_STATE_CONTROLL_PRESSED
               else if scancode = SCANCODE_LSHIFT \<or> scancode = SCANCODE_RSHIFT then st AND NOT KEY_STATE_SHIFT_PRESSED
               else if scancode = SCANCODE_ALT then st AND NOT KEY_STATE_ALT_PRESSED
               else st))"

definition to_ascii :: "keyboard \<Rightarrow> u8 \<Rightarrow> u8 \<Rightarrow> u8" where
  "to_ascii kb scancode keystate =
     (let c = keycode kb ! unat scancode
      in if c = 0xff then c
         else if c \<ge> 0x61 \<and> c \<le> 0x7a \<and> (keystate AND KEY_STATE_CAPS_LOCKED \<noteq> 0 \<or> keystate AND KEY_STATE_SHIFT_PRESSED \<noteq> 0)
         then c + (0x41 - 0x61)
         else if keystate AND KEY_STATE_SHIFT_PRESSED \<noteq> 0
         then (if keyshift kb ! unat c \<noteq> 0xff then keyshift kb ! unat c else c)
         else c)"

definition find_shortcut :: "keyboard \<Rightarrow> u8 \<Rightarrow> u8 \<Rightarrow> nat option" where
  "find_shortcut kb scancode keystate =
     find (\<lambda>idx. sh_scancode (shortcut_entries kb ! idx) = scancode \<and> sh_keystate (shortcut_entries kb ! idx) = keystate)
       [0..<shortcut_entry_ptr kb]"

definition hook_scancode ::
    "hook_code \<Rightarrow> keyboard \<Rightarrow> u8 \<Rightarrow> u8 \<Rightarrow> kernel \<times> tty \<Rightarrow> (bool \<times> kernel \<times> tty) option" where
  "hook_scancode code kb scancode keystate s =
     (case find_shortcut kb scancode keystate of
        None \<Rightarrow> Some (False, s)
      | Some idx \<Rightarrow>
          (let e = shortcut_entries kb ! idx
           in if sh_handler e \<noteq> 0 then do { s \<leftarrow> code (sh_handler e) (sh_arg e) s; Some (True, s) } else Some (False, s)))"

definition keyboard_interrupt_handler ::
    "hook_code \<Rightarrow> addr \<Rightarrow> keyboard \<times> kernel \<times> tty \<Rightarrow> (u32 \<times> keyboard \<times> kernel \<times> tty) option" where
  "keyboard_interrupt_handler code parg = (\<lambda>(kb, k, t). do {
     (scancode, t) \<leftarrow> retrieve_scancode t;
     let kb = kb\<lparr>key_state := process_scancode scancode (key_state kb)\<rparr>;
     let scancode = discard_pressed_bit scancode;
     (handled, k, t) \<leftarrow> hook_scancode code kb scancode (key_state kb) (k, t);
     let asciicode = to_ascii kb scancode (key_state kb);
     if key_state kb AND KEY_STATE_PRESSED \<noteq> 0 \<and> asciicode \<noteq> 0xff \<and> \<not> handled \<and> current_ptty t \<noteq> NULL
     then do {
       (_, r) \<leftarrow> ring_enqueue (pt_ring (ptties t (current_ptty t))) asciicode;
       let t = upd_ptty (current_ptty t) (\<lambda>p. p\<lparr>pt_ring := r\<rparr>) t;
       k \<leftarrow> wake_up (wq_head (current_ptty t)) k;
       Some (parg, kb, k, t)
     }
     else Some (parg, kb, k, t)
   })"

definition register_shortcut_entry :: "u8 \<Rightarrow> u8 \<Rightarrow> u32 \<Rightarrow> u32 \<Rightarrow> keyboard \<Rightarrow> int \<times> keyboard" where
  "register_shortcut_entry scancode keystate handler arg kb =
     (let keystate = keystate OR KEY_STATE_PRESSED
      in case find_shortcut kb scancode keystate of
           Some idx \<Rightarrow> (OK, kb\<lparr>shortcut_entries := (shortcut_entries kb)[idx :=
             (shortcut_entries kb ! idx)\<lparr>sh_handler := handler, sh_arg := arg\<rparr>]\<rparr>)
         | None \<Rightarrow>
             if shortcut_entry_ptr kb = MAX_SHORTCUT_SIZE then (- ERR_OUT_OF_RESOURCE, kb)
             else (OK, kb\<lparr>shortcut_entries := (shortcut_entries kb)[shortcut_entry_ptr kb :=
               \<lparr>sh_scancode = scancode, sh_keystate = keystate, sh_handler = handler, sh_arg = arg\<rparr>],
               shortcut_entry_ptr := shortcut_entry_ptr kb + 1\<rparr>))"

definition key_table :: "(nat \<times> u8) list" where
  "key_table = zip [0x02..<0x0e] (map of_char ''1234567890-='') @ zip [0x10..<0x1c] (map of_char ''qwertyuiop[]'') @
     [(0x1c, LINE_FEED)] @ zip [0x1e..<0x28] (map of_char ''asdfghjkl;'') @ [(0x28, 0x27), (0x29, 0x60), (0x2b, 0x5c)] @
     zip [0x2c..<0x36] (map of_char ''zxcvbnm,./'') @ [(0x39, 0x20)]"

definition shift_table :: "(nat \<times> u8) list" where
  "shift_table = (0x60, 0x7e) # zip (map (nat \<circ> of_char) ''1234567890-=[]'') (map of_char ''!@#$%^&*()_+{}'') @
     [(0x5c, 0x7c), (0x3b, 0x3a), (0x27, 0x22), (0x2c, 0x3c), (0x2e, 0x3e), (0x2f, 0x3f)]"

text \<open>\<open>dump\<close> is the address of \<^verbatim>\<open>CTRL_ALT_DELETE\<close>, which only logs.\<close>

definition keyboard_init :: "u32 \<Rightarrow> u32 \<Rightarrow> keyboard \<times> intr \<Rightarrow> (keyboard \<times> intr) option" where
  "keyboard_init dump handler = (\<lambda>(kb, i). do {
     let kb = kb\<lparr>shortcut_entries := replicate MAX_SHORTCUT_SIZE \<lparr>sh_scancode = 0, sh_keystate = 0, sh_handler = 0, sh_arg = 0\<rparr>\<rparr>;
     let kb = snd (register_shortcut_entry SCANCODE_BACKSPACE (KEY_STATE_CONTROLL_PRESSED OR KEY_STATE_ALT_PRESSED) dump NULL kb);
     let kb = kb\<lparr>keycode := fold (\<lambda>(i, c) xs. xs[i := c]) key_table (replicate KEY_SPACE_SIZE 0xff),
       keyshift := fold (\<lambda>(i, c) xs. xs[i := c]) shift_table (replicate KEY_SPACE_SIZE 0xff)\<rparr>;
     i \<leftarrow> register_interrupt_handler 0x21 handler i;
     Some (kb, i)
   })"

subsection \<open>Terminals and shortcuts\<close>

text \<open>The registration of the terminals. The arguments are the addresses of the file system of the devices, of the
  operation table of terminals, and of the three handlers.\<close>

definition ptty_register ::
    "addr \<Rightarrow> addr \<Rightarrow> nat \<Rightarrow> kernel \<times> tty \<Rightarrow> (kernel \<times> tty) option" where
  "ptty_register devfs ptty_dev_ops idx = (\<lambda>(k, t). do {
     let ptm = ptty_base t + SIZEOF_PTTY * of_nat idx;
     (_, k, t) \<leftarrow> ptty_init ptm (k, t);
     (_, node_name) \<leftarrow> sprintf (replicate 64 0) (c_lit ''/ptm%d'') [VInt (int idx)];
     (f, k) \<leftarrow> register_dev_node devfs node_name 0 ptty_dev_ops ptm k;
     kassert (f \<noteq> NULL);
     Some (k, t)
   })"

definition ptty_shortcut :: "u8 \<Rightarrow> u8 \<Rightarrow> u32 \<Rightarrow> u32 \<Rightarrow> keyboard \<Rightarrow> keyboard option" where
  "ptty_shortcut scancode keystate handler arg kb = do {
     let (r, kb) = register_shortcut_entry scancode keystate handler arg kb;
     kassert (r = OK);
     Some kb
   }"

definition ptty_post_init ::
    "addr \<Rightarrow> addr \<Rightarrow> u32 \<Rightarrow> u32 \<Rightarrow> u32 \<Rightarrow> keyboard \<times> kernel \<times> tty \<Rightarrow> (keyboard \<times> kernel \<times> tty) option" where
  "ptty_post_init devfs ptty_dev_ops h_default h_switch h_interrupt = (\<lambda>(kb, s). do {
     (k, t) \<leftarrow> fold (\<lambda>idx r. do { s \<leftarrow> r; ptty_register devfs ptty_dev_ops idx s }) [0..<MAX_TERMINALS] (Some s);
     kb \<leftarrow> ptty_shortcut SCANCODE_F1 KEY_STATE_ALT_PRESSED h_default NULL kb;
     kb \<leftarrow> fold (\<lambda>idx r. do { kb \<leftarrow> r; ptty_shortcut (SCANCODE_F2 + of_nat idx) KEY_STATE_ALT_PRESSED h_switch (of_nat idx) kb })
       [0..<MAX_TERMINALS] (Some kb);
     kb \<leftarrow> ptty_shortcut SCANCODE_C KEY_STATE_CONTROLL_PRESSED h_interrupt NULL kb;
     Some (kb, k, disable_cursor t)
   })"

subsection \<open>The console as a device (\<^verbatim>\<open>device/console.c\<close>)\<close>

definition write_hint :: "kernel \<Rightarrow> console \<Rightarrow> console option" where
  "write_hint k c = do {
     kassert (current k \<noteq> NULL);
     (ret, hint) \<leftarrow> sprintf (replicate 64 0) (c_lit ''[%s:%d] '')
       [VStr (name (tasks k (current k))), VInt (sint (task_id (tasks k (current k))))];
     sink_all vga_enqueue_byte (take (nat ret) hint) c
   }"

text \<open>The byte behind the current one is looked at only within the size.\<close>

fun console_write_loop :: "kernel \<Rightarrow> u8 list \<Rightarrow> console \<Rightarrow> console option" where
  "console_write_loop k [] c = Some c"
| "console_write_loop k (b # rest) c = do {
     c \<leftarrow> vga_enqueue_byte b c;
     c \<leftarrow> (if b = LINE_FEED \<and> rest \<noteq> [] \<and> take 1 rest \<noteq> [0] then write_hint k c else Some c);
     console_write_loop k rest c
   }"

definition console_dev_write :: "u8 list \<Rightarrow> int \<Rightarrow> kernel \<Rightarrow> console \<Rightarrow> (int \<times> console) option" where
  "console_dev_write buf n k c = do {
     c \<leftarrow> write_hint k c;
     kassert (nat n \<le> length buf);
     c \<leftarrow> console_write_loop k (take (nat n) buf) c;
     c \<leftarrow> printk_flush c;
     Some (n, c)
   }"

definition console_init :: "addr \<Rightarrow> addr \<Rightarrow> kernel \<Rightarrow> kernel option" where
  "console_init devfs console_dev_ops k = do {
     (f, k) \<leftarrow> register_dev_node devfs (c_lit ''/console'') 0 console_dev_ops NULL k;
     kassert (f \<noteq> NULL);
     Some k
   }"

declare retrieve_scancode.simps [code]

end
