(* ===== verification/Printk_Correct.thy ===== *)
theory Printk_Correct
  imports Printk
begin

section \<open>The console shows the last lines of what was printed\<close>

text \<open>The text as rows: a row is complete at a line feed or when it is full. The last row is the
  current one.\<close>

definition put_char :: "u8 \<Rightarrow> u8 list list \<Rightarrow> u8 list list" where
  "put_char c rows =
     (if c = LINE_FEED then rows @ [[]]
      else if length (last rows) + 1 = VGA_MAX_COL then butlast rows @ [last rows @ [c], []]
      else butlast rows @ [last rows @ [c]])"

definition visible :: "u8 list list \<Rightarrow> u8 list list" where
  "visible rows = drop (length rows - VGA_MAX_ROW) rows"

definition pad :: "u8 list \<Rightarrow> u8 list" where
  "pad r = r @ replicate (VGA_MAX_COL - length r) 0"

definition is_matrix :: "nat \<Rightarrow> 'a list list \<Rightarrow> bool" where
  "is_matrix n m \<longleftrightarrow> length m = n \<and> (\<forall>r\<in>set m. length r = VGA_MAX_COL)"

text \<open>The ring holds the visible rows from its front on; the other rows of the ring are empty.\<close>

definition ring_rows :: "u8 list list \<Rightarrow> nat \<Rightarrow> u8 list list \<Rightarrow> bool" where
  "ring_rows m front rows \<longleftrightarrow> rows \<noteq> [] \<and> (\<forall>r\<in>set rows. length r \<le> VGA_MAX_COL) \<and>
     is_matrix (VGA_MAX_ROW + 1) m \<and> front \<le> VGA_MAX_ROW \<and>
     (\<forall>j \<le> VGA_MAX_ROW. m ! ((front + j) mod (VGA_MAX_ROW + 1)) =
        pad (if j < length (visible rows) then visible rows ! j else []))"

definition row_of :: "nat \<Rightarrow> u8 list list \<Rightarrow> nat" where
  "row_of front rows = (front + (length (visible rows) - 1)) mod (VGA_MAX_ROW + 1)"

definition displays :: "console \<Rightarrow> u8 list list \<Rightarrow> bool" where
  "displays c rows \<longleftrightarrow> ring_rows (vga_shadow_memory c) (vga_row_front c) rows \<and>
     vga_row_idx c = row_of (vga_row_front c) rows \<and> vga_col_idx c = length (last rows) \<and> length (last rows) < VGA_MAX_COL"

subsection \<open>Loops over a row\<close>

lemma mat_row_loop_eq:
  assumes step: "\<And>j m'. j < l \<Longrightarrow> r < length m' \<Longrightarrow> length (m' ! r) = l \<Longrightarrow>
      f j m' = Some (m'[r := (m' ! r)[j := h j (m' ! r ! j)]])"
    and "r < length m" "length (m ! r) = l" "c + n \<le> l"
  shows "mat_row_loop f n c m = Some (m[r := map (\<lambda>j. if c \<le> j \<and> j < c + n then h j (m ! r ! j) else m ! r ! j) [0..<l]])"
  using assms(2-4)
proof (induction n arbitrary: c m)
  case 0
  have "map (\<lambda>j. if c \<le> j \<and> j < c + 0 then h j (m ! r ! j) else m ! r ! j) [0..<l] = map (\<lambda>j. m ! r ! j) [0..<l]"
    by (intro map_cong refl) auto
  also have "\<dots> = m ! r" using 0 by (metis map_nth)
  finally show ?case using 0 by (simp only: mat_row_loop.simps list_update_id)
next
  case (Suc n)
  let ?m = "m[r := (m ! r)[c := h c (m ! r ! c)]]"
  have "mat_row_loop f (Suc n) c m = mat_row_loop f n (c + 1) ?m" using step [of c m] Suc.prems by simp
  also have "\<dots> = Some (?m[r := map (\<lambda>j. if c + 1 \<le> j \<and> j < c + 1 + n then h j (?m ! r ! j) else ?m ! r ! j) [0..<l]])"
    using Suc.prems by (intro Suc.IH) auto
  also have "map (\<lambda>j. if c + 1 \<le> j \<and> j < c + 1 + n then h j (?m ! r ! j) else ?m ! r ! j) [0..<l] =
      map (\<lambda>j. if c \<le> j \<and> j < c + Suc n then h j (m ! r ! j) else m ! r ! j) [0..<l]"
    using Suc.prems by (intro map_cong refl) (auto simp: nth_list_update)
  finally show ?case by simp
qed

lemma mat_row_loop_all:
  assumes "\<And>j m'. j < l \<Longrightarrow> r < length m' \<Longrightarrow> length (m' ! r) = l \<Longrightarrow>
      f j m' = Some (m'[r := (m' ! r)[j := h j (m' ! r ! j)]])"
    and "r < length m" "length (m ! r) = l"
  shows "mat_row_loop f l 0 m = Some (m[r := map (\<lambda>j. h j (m ! r ! j)) [0..<l]])"
proof -
  have "map (\<lambda>j. if 0 \<le> j \<and> j < 0 + l then h j (m ! r ! j) else m ! r ! j) [0..<l] = map (\<lambda>j. h j (m ! r ! j)) [0..<l]"
    by (intro map_cong refl) simp
  then show ?thesis using mat_row_loop_eq [OF assms, of 0 l] by (simp only: add_0 order_refl True_implies_equals)
qed

lemma is_matrix_row: "is_matrix n m \<Longrightarrow> r < n \<Longrightarrow> r < length m \<and> length (m ! r) = VGA_MAX_COL"
  by (auto simp: is_matrix_def)

lemma is_matrix_upd: "is_matrix n m \<Longrightarrow> length row = VGA_MAX_COL \<Longrightarrow> is_matrix n (m[r := row])"
  unfolding is_matrix_def using set_update_subset_insert [of m r row] by auto

lemma clear_row:
  assumes "is_matrix n m" "r < n"
  shows "mat_row_loop (\<lambda>idx m. mat_set m r idx 0) VGA_MAX_COL 0 m = Some (m[r := pad []])"
proof -
  have "mat_row_loop (\<lambda>idx m. mat_set m r idx 0) VGA_MAX_COL 0 m = Some (m[r := map (\<lambda>j. 0) [0..<VGA_MAX_COL]])"
    using is_matrix_row [OF assms] by (intro mat_row_loop_all [where h = "\<lambda>_ _. 0"]) (auto simp: mat_set_def)
  then show ?thesis by (simp only: pad_def map_replicate_const length_upt append_Nil list.size minus_nat.diff_0)
qed

subsection \<open>Printing a character\<close>

lemma ring_index:
  assumes "(front + i) mod 26 = (front + j) mod 26" "i < 26" "j < (26 :: nat)"
  shows "i = j"
proof -
  have "(int front + int i) mod 26 = (int front + int j) mod 26" using assms(1) by (metis of_nat_add of_nat_mod of_nat_numeral)
  then have "(int front + int i - int front) mod 26 = (int front + int j - int front) mod 26" by (rule mod_diff_cong) simp
  then show ?thesis using assms(2,3) by simp
qed

lemma visible_length: "length (visible rows) = min (length rows) VGA_MAX_ROW"
  by (auto simp: visible_def)

lemma visible_last: "rows \<noteq> [] \<Longrightarrow> visible rows \<noteq> [] \<and> last (visible rows) = last rows"
proof -
  assume "rows \<noteq> []"
  then have "length rows - 25 < length rows" by simp
  then show ?thesis by (simp add: visible_def last_drop)
qed

lemma visible_replace: "rows \<noteq> [] \<Longrightarrow> visible (butlast rows @ [x]) = butlast (visible rows) @ [x]"
  by (auto simp: visible_def drop_butlast Suc_diff_le)

lemma visible_new: "visible (rows @ [x]) = (if length rows < VGA_MAX_ROW then visible rows else tl (visible rows)) @ [x]"
proof (cases "length rows < 25")
  case False
  then have "length rows - 24 = Suc (length rows - 25)" by simp
  then show ?thesis using False by (simp add: visible_def drop_Suc tl_drop)
qed (simp add: visible_def)

lemma row_of_26: "row_of front rows = (front + (length (visible rows) - 1)) mod 26"
  by (simp add: row_of_def)

text \<open>Extending the current row.\<close>

lemma ring_extend:
  assumes d: "ring_rows m front rows" and l: "length (last rows) + 1 \<le> VGA_MAX_COL"
  shows "\<exists>m'. mat_set m (row_of front rows) (length (last rows)) ch = Some m' \<and>
    ring_rows m' front (butlast rows @ [last rows @ [ch]])"
proof -
  let ?n = "length (visible rows)" and ?row = "row_of front rows" and ?rows = "butlast rows @ [last rows @ [ch]]"
  have mat: "is_matrix 26 m" and rows: "rows \<noteq> []" "\<forall>r\<in>set rows. length r \<le> 80" "front \<le> 25"
    using d by (auto simp: ring_rows_def)
  have n: "0 < ?n" "?n \<le> 25" using rows by (auto simp: visible_length)
  have at: "\<And>j. j \<le> 25 \<Longrightarrow> m ! ((front + j) mod 26) = pad (if j < ?n then visible rows ! j else [])"
    using d by (simp add: ring_rows_def)
  have r: "?row < 26" by (simp add: row_of_def)
  have cur: "m ! ?row = pad (last rows)"
    unfolding row_of_26 using n visible_last [OF rows(1)] by (subst at) (auto simp: last_conv_nth)
  define m' where "m' = m[?row := pad (last rows @ [ch])]"
  have upd: "(pad (last rows))[length (last rows) := ch] = pad (last rows @ [ch])"
    using l by (auto simp: pad_def list_update_append intro!: nth_equalityI simp: nth_list_update nth_append)
  have "mat_set m ?row (length (last rows)) ch = Some m'"
    using is_matrix_row [OF mat r] l upd cur by (simp add: mat_set_def m'_def)
  moreover have "is_matrix 26 m'" using mat l unfolding m'_def by (intro is_matrix_upd) (auto simp: pad_def)
  moreover have "m' ! ((front + j) mod 26) = pad (if j < ?n then (butlast (visible rows) @ [last rows @ [ch]]) ! j else [])"
    if j: "j \<le> 25" for j
  proof (cases "j = ?n - 1")
    case True
    then show ?thesis using n is_matrix_row [OF mat r] by (simp add: m'_def nth_append row_of_def)
  next
    case False
    then have "(front + j) mod 26 \<noteq> ?row" using ring_index [of front j "?n - 1"] j n by (fastforce simp: row_of_def)
    then show ?thesis using at [OF j] False n by (auto simp: m'_def nth_append nth_butlast)
  qed
  ultimately show ?thesis using rows l visible_replace [OF rows(1)] n
    by (auto simp: ring_rows_def dest: in_set_butlastD)
qed

text \<open>Starting a new row.\<close>

lemma next_row_mod: "next_row ((front + i) mod 26) = (front + (i + 1)) mod 26"
  by (simp add: next_row_def mod_Suc_eq)

lemma ring_new_row:
  assumes d: "ring_rows m front rows" and row: "row = next_row (row_of front rows)"
  shows "if next_row row = front
    then ring_rows (m[front := pad []]) (next_row front) (rows @ [[]]) \<and> row = row_of (next_row front) (rows @ [[]])
    else ring_rows m front (rows @ [[]]) \<and> row = row_of front (rows @ [[]])"
proof -
  let ?n = "length (visible rows)"
  have mat: "is_matrix 26 m" and rows: "rows \<noteq> []" "\<forall>r\<in>set (rows @ [[]]). length r \<le> 80" "front < 26"
    using d by (auto simp: ring_rows_def)
  have n: "0 < ?n" "?n \<le> 25" "?n = min (length rows) 25" using rows by (auto simp: visible_length)
  have at: "\<And>j. j \<le> 25 \<Longrightarrow> m ! ((front + j) mod 26) = pad (if j < ?n then visible rows ! j else [])"
    using d by (simp add: ring_rows_def)
  have "row = (front + (?n - 1 + 1)) mod 26" unfolding row row_of_26 by (rule next_row_mod)
  then have r: "row = (front + ?n) mod 26" using n by simp
  then have "next_row row = (front + (?n + 1)) mod 26" using next_row_mod by simp
  moreover have f0: "(front + 0) mod 26 = front" using rows by simp
  moreover have "(front + 26) mod 26 = front" using rows by simp
  ultimately have full: "next_row row = front \<longleftrightarrow> ?n = 25"
    using ring_index [of front "?n + 1" 0] n by (cases "?n = 25") auto
  show ?thesis
  proof (cases "?n = 25")
    case False
    then have "length rows < 25" "visible (rows @ [[]]) = visible rows @ [[]]" using n by (auto simp: visible_new)
    then show ?thesis using full False mat rows at n r
      by (auto simp: ring_rows_def row_of_26 nth_append)
  next
    case True
    then have v: "visible (rows @ [[]]) = tl (visible rows) @ [[]]" using n by (auto simp: visible_new)
    have idx: "(next_row front + j) mod 26 = (front + (j + 1)) mod 26" for j by (simp add: next_row_def mod_simps)
    let ?m = "m[front := pad []]"
    have "?m ! ((next_row front + j) mod 26) = pad (if j < 25 then (tl (visible rows) @ [[]]) ! j else [])" if j: "j \<le> 25" for j
    proof (cases "j = 25")
      case True
      then show ?thesis using rows is_matrix_row [OF mat, of front] unfolding idx by simp
    next
      case False
      then have "(front + (j + 1)) mod 26 \<noteq> front" using ring_index [of front "j + 1" 0] f0 j by auto
      then show ?thesis using at [of "j + 1"] j False True unfolding idx by (auto simp: nth_append nth_tl)
    qed
    moreover have "is_matrix 26 ?m" by (intro is_matrix_upd mat) (simp add: pad_def)
    moreover have "row = (next_row front + 24) mod 26" using r True unfolding idx by simp
    moreover have "next_row front \<le> 25" by (simp add: next_row_def)
    ultimately show ?thesis using full True rows v by (simp add: ring_rows_def row_of_26)
  qed
qed

text \<open>Printing one character never leaves the ring, and is the step on the rows.\<close>

definition console_new_row :: "console \<Rightarrow> console option" where
  "console_new_row c =
     (if next_row (next_row (vga_row_idx c)) = vga_row_front c
      then do {
        m \<leftarrow> mat_row_loop (\<lambda>idx m. mat_set m (vga_row_front c) idx 0) VGA_MAX_COL 0 (vga_shadow_memory c);
        Some (c\<lparr>vga_col_idx := 0, vga_row_idx := next_row (vga_row_idx c), vga_shadow_memory := m,
          vga_row_front := next_row (vga_row_front c)\<rparr>) }
      else Some (c\<lparr>vga_col_idx := 0, vga_row_idx := next_row (vga_row_idx c)\<rparr>))"

lemma console_new_row_displays:
  assumes r: "ring_rows (vga_shadow_memory c) (vga_row_front c) rows" "vga_row_idx c = row_of (vga_row_front c) rows"
  shows "\<exists>c'. console_new_row c = Some c' \<and> displays c' (rows @ [[]]) \<and>
    vga_ptr c' = vga_ptr c \<and> default_console_hidden c' = default_console_hidden c"
proof -
  have "is_matrix 26 (vga_shadow_memory c)" "vga_row_front c < 26" using r(1) by (auto simp: ring_rows_def)
  then show ?thesis using ring_new_row [OF r(1) refl] r(2) clear_row
    by (auto simp: displays_def console_new_row_def split: if_splits)
qed

lemma enqueue_displays:
  assumes "displays c rows"
  shows "\<exists>c'. vga_enqueue_byte ch c = Some c' \<and> displays c' (put_char ch rows) \<and>
    vga_ptr c' = vga_ptr c \<and> default_console_hidden c' = default_console_hidden c"
proof -
  have ring: "ring_rows (vga_shadow_memory c) (vga_row_front c) rows" and pos: "vga_row_idx c = row_of (vga_row_front c) rows"
    "vga_col_idx c = length (last rows)" "length (last rows) < 80" using assms by (simp_all add: displays_def)
  have rows: "rows \<noteq> []" using ring by (simp add: ring_rows_def)
  define c1 where "c1 m = c\<lparr>serial_sent := serial_sent c @ [ch], vga_shadow_memory := m, vga_col_idx := vga_col_idx c + 1\<rparr>" for m
  have code: "vga_enqueue_byte ch c = do {
      m \<leftarrow> (if ch \<noteq> LINE_FEED then mat_set (vga_shadow_memory c) (vga_row_idx c) (vga_col_idx c) ch else Some (vga_shadow_memory c));
      if vga_col_idx c + 1 = 80 \<or> ch = LINE_FEED then console_new_row (c1 m) else Some (c1 m) }"
    by (simp add: vga_enqueue_byte_def console_new_row_def c1_def Let_def cong: if_cong)
  show ?thesis
  proof (cases "ch = LINE_FEED")
    case True
    then show ?thesis using console_new_row_displays [of "c1 (vga_shadow_memory c)" rows] ring pos
      unfolding code by (simp add: c1_def put_char_def)
  next
    case False
    let ?rows = "butlast rows @ [last rows @ [ch]]"
    obtain m where m: "mat_set (vga_shadow_memory c) (vga_row_idx c) (vga_col_idx c) ch = Some m" "ring_rows m (vga_row_front c) ?rows"
      using ring_extend [OF ring, of ch] pos by auto
    have "row_of (vga_row_front c) ?rows = row_of (vga_row_front c) rows" using rows by (simp add: row_of_26 visible_length)
    then show ?thesis using console_new_row_displays [of "c1 m" ?rows] m False pos
      unfolding code by (auto simp: c1_def put_char_def displays_def)
  qed
qed

lemma sink_displays:
  "displays c rows \<Longrightarrow> \<exists>c'. sink_all vga_enqueue_byte char_codes c = Some c' \<and> displays c' (fold put_char char_codes rows) \<and>
    vga_ptr c' = vga_ptr c \<and> default_console_hidden c' = default_console_hidden c"
proof (induction char_codes arbitrary: c rows)
  case (Cons ch char_codes)
  then obtain c1 where "vga_enqueue_byte ch c = Some c1" "displays c1 (put_char ch rows)" "vga_ptr c1 = vga_ptr c"
    "default_console_hidden c1 = default_console_hidden c" using enqueue_displays by blast
  then show ?case using Cons.IH [of c1 "put_char ch rows"] by auto
qed simp

subsection \<open>Copying to the screen\<close>

definition with_chars :: "u16 list \<Rightarrow> u8 list \<Rightarrow> u16 list" where
  "with_chars vs cs = map (\<lambda>j. (vs ! j AND 0xff00) OR ucast (cs ! j)) [0..<VGA_MAX_COL]"

lemma flush_loop_eq:
  assumes "is_matrix 26 shadow" "is_matrix 25 m" "front < 26" "i \<le> n" "n \<le> 25" "0 < n" "row = (front + (n - 1)) mod 26"
  shows "\<exists>m'. flush_loop shadow row ((front + i) mod 26) i m = Some m' \<and> is_matrix 25 m' \<and>
    (\<forall>j < 25. m' ! j = (if i \<le> j \<and> j < n then with_chars (m ! j) (shadow ! ((front + j) mod 26)) else m ! j))"
  using assms
proof (induction "n - i" arbitrary: i m)
  case 0
  then have "i = n" by simp
  moreover have "next_row row = (front + n) mod 26" using 0 next_row_mod [of front "n - 1"] by simp
  ultimately show ?case using 0 by (subst flush_loop.simps) auto
next
  case (Suc d)
  then have i: "i < n" by simp
  have "next_row row = (front + n) mod 26" using Suc.prems next_row_mod [of front "n - 1"] by simp
  then have go: "next_row row \<noteq> (front + i) mod 26" using ring_index [of front n i] i Suc.prems by auto
  have s: "(front + i) mod 26 < length shadow" "length (shadow ! ((front + i) mod 26)) = 80"
    using is_matrix_row [OF Suc.prems(1)] by auto
  have m: "i < length m" "length (m ! i) = 80" using is_matrix_row [OF Suc.prems(2), of i] i Suc.prems by auto
  let ?m = "m[i := with_chars (m ! i) (shadow ! ((front + i) mod 26))]"
  have "mat_row_loop (\<lambda>col m. do { v \<leftarrow> mat_get m i col; s \<leftarrow> mat_get shadow ((front + i) mod 26) col;
      mat_set m i col ((v AND 0xff00) OR ucast s) }) 80 0 m = Some ?m"
    unfolding with_chars_def using m s
    by (intro mat_row_loop_all [where h = "\<lambda>j v. (v AND 0xff00) OR ucast (shadow ! ((front + i) mod 26) ! j)"])
      (auto simp: mat_set_def mat_get_def)
  then have step: "flush_loop shadow row ((front + i) mod 26) i m = flush_loop shadow row ((front + (i + 1)) mod 26) (i + 1) ?m"
    using go next_row_mod [of front i] by (subst flush_loop.simps) simp
  have mat: "is_matrix 25 ?m" by (intro is_matrix_upd Suc.prems) (simp add: with_chars_def)
  have n: "d = n - (i + 1)" "i + 1 \<le> n" using Suc.hyps(2) i by auto
  obtain m' where "flush_loop shadow row ((front + (i + 1)) mod 26) (i + 1) ?m = Some m'" "is_matrix 25 m'"
    "\<forall>j < 25. m' ! j = (if i + 1 \<le> j \<and> j < n then with_chars (?m ! j) (shadow ! ((front + j) mod 26)) else ?m ! j)"
    using Suc.hyps(1) [OF n(1) Suc.prems(1) mat Suc.prems(3) n(2) Suc.prems(5-7)] by blast
  then show ?case unfolding step using m i by (intro exI [of _ m']) (auto simp: nth_list_update)
qed

lemma flush_displays:
  assumes d: "displays c rows" and v: "is_matrix VGA_MAX_ROW (vga_ptr c)" "\<not> default_console_hidden c"
  shows "\<exists>m. printk_flush c = Some (c\<lparr>vga_ptr := m\<rparr>) \<and> is_matrix VGA_MAX_ROW m \<and>
    (\<forall>j < VGA_MAX_ROW. m ! j = (if j < length (visible rows) then with_chars (vga_ptr c ! j) (pad (visible rows ! j)) else vga_ptr c ! j))"
proof -
  let ?front = "vga_row_front c" and ?n = "length (visible rows)"
  have ring: "ring_rows (vga_shadow_memory c) ?front rows" and row: "vga_row_idx c = (?front + (?n - 1)) mod 26"
    using d by (simp_all add: displays_def row_of_26)
  then have r: "is_matrix 26 (vga_shadow_memory c)" "?front < 26" "0 < ?n" "?n \<le> 25"
    "\<And>j. j < ?n \<Longrightarrow> vga_shadow_memory c ! ((?front + j) mod 26) = pad (visible rows ! j)"
    by (auto simp: ring_rows_def visible_length)
  have f0: "(?front + 0) mod 26 = ?front" using r(2) by simp
  obtain m where m: "flush_loop (vga_shadow_memory c) (vga_row_idx c) ((?front + 0) mod 26) 0 (vga_ptr c) = Some m" "is_matrix 25 m"
    "\<forall>j < 25. m ! j = (if 0 \<le> j \<and> j < ?n then with_chars (vga_ptr c ! j) (vga_shadow_memory c ! ((?front + j) mod 26)) else vga_ptr c ! j)"
    using flush_loop_eq [OF r(1) v(1) r(2) _ r(4,3) row, of 0] by blast
  then show ?thesis using v(2) r(5) unfolding f0 by (auto simp: printk_flush_def)
qed

subsection \<open>Formats\<close>

text \<open>What a format and its arguments stand for. A numeral is the sequence of the digits of a number in
  some base, the last digit being the remainder by the base and the others the numeral of the
  quotient.\<close>

function numeral_digits :: "nat \<Rightarrow> nat \<Rightarrow> nat list" where
  "numeral_digits b n = (if n < b \<or> b < 2 then [n] else numeral_digits b (n div b) @ [n mod b])"
  by pat_completeness auto
termination by (relation "measure snd") auto

declare numeral_digits.simps [simp del]

definition char_codes :: "string \<Rightarrow> u8 list" where
  "char_codes cs = map of_char cs"

text \<open>The decimal numeral with its sign. The least integer is an exception: the code negates it in 32
  bits, where it stays negative, and prints characters below the digit zero.\<close>

definition signed_text :: "int \<Rightarrow> u8 list" where
  "signed_text i =
     (if i = - 2147483648 then char_codes ''-./,),(-*,(''
      else (if i < 0 then char_codes ''-'' else []) @ map (\<lambda>d. char_codes ''0123456789'' ! d) (numeral_digits 10 (nat \<bar>i\<bar>)))"

definition unsigned_hex :: "bool \<Rightarrow> int \<Rightarrow> u8 list" where
  "unsigned_hex lower i =
     map (\<lambda>d. char_codes (if lower then ''0123456789abcdef'' else ''0123456789ABCDEF'') ! d) (numeral_digits 16 (nat (i mod 2 ^ 32)))"

text \<open>A format is a sequence of literal characters and directives. The directive behind a percent
  sign is looked up in a table; one that is not there, the percent sign included, stands for
  nothing. A directive renders the first arguments.\<close>

datatype piece = P_literal u8 | P_string | P_char | P_decimal | P_hex bool | P_double | P_nothing

definition directives :: "(char \<times> piece) list" where
  "directives = [(CHR ''s'', P_string), (CHR ''c'', P_char), (CHR ''d'', P_decimal), (CHR ''h'', P_decimal),
     (CHR ''x'', P_hex True), (CHR ''X'', P_hex False), (CHR ''l'', P_double)]"

definition directive :: "u8 \<Rightarrow> piece" where
  "directive d = (case map_of (map (\<lambda>(c, p). (of_char c, p)) directives) d of None \<Rightarrow> P_nothing | Some p \<Rightarrow> p)"

fun pieces :: "u8 list \<Rightarrow> piece list option" where
  "pieces [] = None"
| "pieces (c # cs) =
     (if c = 0 then Some []
      else if c = of_char (CHR ''%'') then (case cs of [] \<Rightarrow> None | d # ds \<Rightarrow> map_option (Cons (directive d)) (pieces ds))
      else map_option (Cons (P_literal c)) (pieces cs))"

fun render :: "piece list \<Rightarrow> va_arg list \<Rightarrow> u8 list option" where
  "render [] args = Some []"
| "render (P_literal c # ps) args = map_option (append [c]) (render ps args)"
| "render (P_nothing # ps) args = render ps args"
| "render (P_string # ps) (VStr b # args) = (if terminated b then map_option (append (cstr b)) (render ps args) else None)"
| "render (P_char # ps) (VInt i # args) = map_option (append [of_int i]) (render ps args)"
| "render (P_decimal # ps) (VInt i # args) = map_option (append (signed_text (s32 i))) (render ps args)"
| "render (P_hex l # ps) (VInt i # args) = map_option (append (unsigned_hex l i)) (render ps args)"
| "render (P_double # ps) (VInt i # VInt j # args) = map_option (append (unsigned_hex False i @ unsigned_hex False j)) (render ps args)"
| "render _ _ = None"

definition format_text :: "u8 list \<Rightarrow> va_arg list \<Rightarrow> u8 list option" where
  "format_text format args = do { ps \<leftarrow> pieces format; render ps args }"

text \<open>The loops of the code produce these numerals.\<close>

lemma numeral_digits_step: "2 \<le> b \<Longrightarrow> b \<le> n \<Longrightarrow> numeral_digits b n = numeral_digits b (n div b) @ [n mod b]"
  and numeral_digits_one: "n < b \<Longrightarrow> numeral_digits b n = [n]"
  by (simp_all add: numeral_digits.simps [of b n])

lemma digit_char: "d < 10 \<Longrightarrow> char_codes ''0123456789'' ! d = of_int (int d + 48)"
  by (auto simp: char_codes_def numeral_eq_Suc less_Suc_eq)

lemma decimal_loop_digits:
  "0 < n \<Longrightarrow> n < 10 ^ m \<Longrightarrow> m + length st \<le> 64 \<Longrightarrow>
    decimal_loop (int n) st = map (\<lambda>d. char_codes ''0123456789'' ! d) (numeral_digits 10 n) @ st"
proof (induction m arbitrary: n st)
  case (Suc m)
  have d: "(of_int (int n smod 10 + 48) :: u8) = char_codes ''0123456789'' ! (n mod 10)"
    using digit_char [of "n mod 10"] by (simp add: signed_modulo_int_def zmod_int sgn_if)
  have q: "int n sdiv 10 = int (n div 10)" by (simp add: signed_divide_int_def zdiv_int sgn_if)
  have step: "decimal_loop (int n) st = decimal_loop (int (n div 10)) (char_codes ''0123456789'' ! (n mod 10) # st)"
    using Suc.prems unfolding decimal_loop.simps [of "int n" st] d q by simp
  show ?case
  proof (cases "n < 10")
    case True
    then show ?thesis unfolding step by (simp add: decimal_loop.simps [of 0] numeral_digits_one)
  next
    case False
    then show ?thesis unfolding step using Suc.IH [of "n div 10" "char_codes ''0123456789'' ! (n mod 10) # st"] Suc.prems
      by (simp add: numeral_digits_step less_mult_imp_div_less mult.commute)
  qed
qed simp

lemma hexdecimal_loop_digits:
  "0 < n \<Longrightarrow> n < 16 ^ m \<Longrightarrow> m + length st \<le> 64 \<Longrightarrow>
    hexdecimal_loop ds (int n) st = map (\<lambda>d. ds ! d) (numeral_digits 16 n) @ st"
proof (induction m arbitrary: n st)
  case (Suc m)
  have step: "hexdecimal_loop ds (int n) st = hexdecimal_loop ds (int (n div 16)) (ds ! (n mod 16) # st)"
    using Suc.prems hexdecimal_loop.simps [of ds "int n" st] by (simp add: zdiv_int nat_mod_distrib)
  show ?case
  proof (cases "n < 16")
    case True
    then show ?thesis unfolding step by (simp add: hexdecimal_loop.simps [of ds 0] numeral_digits_one)
  next
    case False
    then show ?thesis unfolding step using Suc.IH [of "n div 16" "ds ! (n mod 16) # st"] Suc.prems
      by (simp add: numeral_digits_step less_mult_imp_div_less mult.commute)
  qed
qed simp

text \<open>What the functions of the code pass on, in one piece.\<close>

definition decimal_text :: "int \<Rightarrow> u8 list" where
  "decimal_text val = (if val < 0 then [45] else []) @ pop_digits (decimal_loop (if val < 0 then s32 (- val) else val) [])"

definition hex_text :: "int \<Rightarrow> bool \<Rightarrow> u8 list" where
  "hex_text val lowcase = pop_digits (hexdecimal_loop (if lowcase then lower_digits else upper_digits) (val AND 0xffffffff) [])"

lemma pop_decimal: "n < 10 ^ 64 \<Longrightarrow> pop_digits (decimal_loop (int n) []) = map (\<lambda>d. char_codes ''0123456789'' ! d) (numeral_digits 10 n)"
proof (cases "n = 0")
  case True
  then show ?thesis by (simp add: decimal_loop.simps [of 0] pop_digits_def numeral_digits_one char_codes_def)
next
  case False
  moreover assume "n < 10 ^ 64"
  moreover have "numeral_digits 10 n \<noteq> []" by (simp add: numeral_digits.simps [of 10 n])
  ultimately show ?thesis using decimal_loop_digits [of n 64 "[]"] by (simp add: pop_digits_def)
qed

lemma decimal_least: "decimal_text (- 2147483648) = char_codes ''-./,),(-*,(''"
  by code_simp

lemma decimal_text_signed:
  assumes "- 2147483648 \<le> i" "i < 2147483648"
  shows "decimal_text i = signed_text i"
proof (cases "i = - 2147483648")
  case True
  then show ?thesis using decimal_least by (simp add: signed_text_def)
next
  case False
  then have "(if i < 0 then s32 (- i) else i) = int (nat \<bar>i\<bar>)" "nat \<bar>i\<bar> < 10 ^ 64" using assms by auto
  then show ?thesis using pop_decimal [of "nat \<bar>i\<bar>"] False by (simp add: decimal_text_def signed_text_def char_codes_def)
qed

lemma hex_text_unsigned: "hex_text (s32 i) l = unsigned_hex l i"
proof -
  define n where "n = nat (i mod 2 ^ 32)"
  have "s32 i AND 0xffffffff = take_bit 32 (s32 i)" by (simp add: take_bit_eq_mask mask_eq_exp_minus_1)
  also have "\<dots> = take_bit 32 i" by (simp add: s32_def take_bit_signed_take_bit)
  also have "\<dots> = int n" by (simp add: n_def take_bit_eq_mod)
  finally have v: "s32 i AND 0xffffffff = int n" .
  have "(16 :: nat) ^ 8 \<le> 16 ^ 64" by (rule power_increasing) simp_all
  moreover have "n < 16 ^ 8" by (simp add: n_def nat_less_iff)
  ultimately have n: "n < 16 ^ 64" by linarith
  let ?ds = "char_codes (if l then ''0123456789abcdef'' else ''0123456789ABCDEF'')"
  have ds: "(if l then lower_digits else upper_digits) = ?ds" by (simp add: lower_digits_def upper_digits_def char_codes_def)
  have "pop_digits (hexdecimal_loop ?ds (int n) []) = map (\<lambda>d. ?ds ! d) (numeral_digits 16 n)"
  proof (cases "n = 0")
    case True
    then show ?thesis by (simp add: hexdecimal_loop.simps [of _ 0] pop_digits_def numeral_digits_one char_codes_def)
  next
    case False
    moreover have "numeral_digits 16 n \<noteq> []" by (simp add: numeral_digits.simps [of 16 n])
    ultimately show ?thesis using hexdecimal_loop_digits [of n 64 "[]" ?ds] n by (simp add: pop_digits_def)
  qed
  then show ?thesis unfolding hex_text_def v ds unsigned_hex_def n_def .
qed

definition conversion :: "u8 \<Rightarrow> va_arg list \<Rightarrow> (va_arg list \<times> u8 list) option" where
  "conversion c args =
     (if c = of_char (CHR ''s'') then do { (t, args) \<leftarrow> va_str args; Some (args, t) }
      else if c = of_char (CHR ''c'') then do { (i, args) \<leftarrow> va_int args; Some (args, [of_int i]) }
      else if c = of_char (CHR ''d'') \<or> c = of_char (CHR ''h'') then do { (i, args) \<leftarrow> va_int args; Some (args, decimal_text i) }
      else if c = of_char (CHR ''x'') then do { (i, args) \<leftarrow> va_int args; Some (args, hex_text i True) }
      else if c = of_char (CHR ''X'') then do { (i, args) \<leftarrow> va_int args; Some (args, hex_text i False) }
      else if c = of_char (CHR ''l'')
      then do { (i, args) \<leftarrow> va_int args; (j, args) \<leftarrow> va_int args; Some (args, hex_text i False @ hex_text j False) }
      else Some (args, []))"

fun format_chars :: "u8 list \<Rightarrow> va_arg list \<Rightarrow> u8 list option" where
  "format_chars [] args = None"
| "format_chars (c # cs) args =
     (if c = 0 then Some []
      else if c \<noteq> of_char (CHR ''%'') then do { t \<leftarrow> format_chars cs args; Some (c # t) }
      else (case cs of
          [] \<Rightarrow> None
        | d # ds \<Rightarrow> do { (args, t) \<leftarrow> conversion d args; u \<leftarrow> format_chars ds args; Some (t @ u) }))"

lemma s32_range: "- 2147483648 \<le> s32 i" "s32 i < 2147483648"
  using signed_take_bit_int_greater_eq_minus_exp [of 31 i] signed_take_bit_int_less_exp [of 31 i] by (simp_all add: s32_def)

lemma of_int_s32: "(of_int (s32 i) :: u8) = of_int i"
  by (rule bit_word_eqI) (simp add: s32_def bit_simps)

lemma render_directive:
  "render (directive d # ps) args = do { (args, t) \<leftarrow> conversion d args; u \<leftarrow> render ps args; Some (t @ u) }"
proof -
  note conv = decimal_text_signed [OF s32_range] hex_text_unsigned of_int_s32
  consider "args = []" | b r where "args = VStr b # r" | i where "args = [VInt i]" | i b r where "args = VInt i # VStr b # r"
    | i j r where "args = VInt i # VInt j # r"
    by (metis neq_Nil_conv va_arg.exhaust)
  then show ?thesis
    by cases (simp_all add: conversion_def directive_def directives_def conv map_option_case split: option.split)
qed

lemma format_chars_text: "format_chars format args = format_text format args"
proof (induction format args rule: format_chars.induct)
  case (2 c cs args)
  consider "c = 0" | "c \<noteq> 0" "c \<noteq> of_char (CHR ''%'')" | "c = of_char (CHR ''%'')" "c \<noteq> 0" by blast
  then show ?case
  proof cases
    case 2
    then show ?thesis using "2.IH"(1) by (cases "pieces cs") (auto simp: format_text_def map_option_case split: option.splits)
  next
    case 3
    show ?thesis
    proof (cases cs)
      case (Cons d ds)
      have "format_chars ds a = do { ps \<leftarrow> pieces ds; render ps a }" if "conversion d args = Some (a, t)" for a t
        using "2.IH"(2) [OF _ _ Cons, of "(a, t)" a t] 3 that by (simp add: format_text_def)
      then show ?thesis using 3 Cons
        by (cases "conversion d args"; cases "pieces ds") (auto simp: format_text_def render_directive bind_eq_None_conv)
    qed (use 3 in \<open>simp add: format_text_def\<close>)
  qed (simp add: format_text_def)
qed (simp add: format_text_def)

lemma sink_all_append: "sink_all func (as @ bs) s = do { s \<leftarrow> sink_all func as s; sink_all func bs s }"
proof (induction as arbitrary: s)
  case (Cons a as)
  then show ?case by (cases "func a s") auto
qed simp

lemma resolve_decimal_text: "resolve_decimal func val s = sink_all func (decimal_text val) s"
  by (simp add: resolve_decimal_def decimal_text_def sink_all_append)

lemma resolve_hexdecimal_text: "resolve_hexdecimal func val l s = sink_all func (hex_text val l) s"
  by (simp add: resolve_hexdecimal_def hex_text_def)

lemma bind_same: "(\<And>x. m = Some x \<Longrightarrow> f x = g x) \<Longrightarrow> Option.bind m f = Option.bind m g"
  by (cases m) auto

lemma convert_text:
  "convert func c args s = do { (args, t) \<leftarrow> conversion c args; s \<leftarrow> sink_all func t s; Some (args, s) }"
proof -
  have l: "do { (i, args) \<leftarrow> va_int args; s \<leftarrow> sink_all func (hex_text i False) s;
        (i, args) \<leftarrow> va_int args; s \<leftarrow> sink_all func (hex_text i False) s; Some (args, s) } =
      do { (args, t) \<leftarrow> do { (i, args) \<leftarrow> va_int args; (j, args) \<leftarrow> va_int args; Some (args, hex_text i False @ hex_text j False) };
        s \<leftarrow> sink_all func t s; Some (args, s) }"
    by (cases "va_int args") (auto simp: sink_all_append bind_assoc split: prod.splits option.splits bind_splits)
  show ?thesis
    unfolding convert_def conversion_def resolve_decimal_text resolve_hexdecimal_text l
    by (cases "va_str args"; cases "va_int args") (simp_all split: prod.splits)
qed

lemma format_loop_chars: "format_loop func format args s = do { t \<leftarrow> format_chars format args; sink_all func t s }"
proof (induction func format args s rule: format_loop.induct)
  case (2 func c cs args s)
  consider "c = 0" | "c \<noteq> 0" "c \<noteq> of_char (CHR ''%'')" | "c = of_char (CHR ''%'')" "c \<noteq> 0" by blast
  then show ?case
  proof cases
    case 2
    then show ?thesis using "2.IH"(1) by (cases "func c s"; cases "format_chars cs args") auto
  next
    case 3
    show ?thesis
    proof (cases cs)
      case (Cons d ds)
      have IH: "format_loop func ds a s' = do { t \<leftarrow> format_chars ds a; sink_all func t s' }"
        if "conversion d args = Some (a, t)" "sink_all func t s = Some s'" for a t s'
        using "2.IH"(2) [OF _ _ Cons, of "(a, s')" a s'] 3 that by (simp add: convert_text)
      show ?thesis
      proof (cases "conversion d args")
        case (Some at)
        then show ?thesis using 3 Cons IH [of "fst at" "snd at"]
          by (cases at; cases "sink_all func (snd at) s"; cases "format_chars ds (fst at)") (auto simp: convert_text sink_all_append)
      qed (use 3 Cons in \<open>simp add: convert_text\<close>)
    qed (use 3 in simp)
  qed simp
qed simp

lemma format_loop_text: "format_loop func format args s = do { t \<leftarrow> format_text format args; sink_all func t s }"
  by (simp add: format_loop_chars format_chars_text)

lemma sprintf_sink:
  "i + length t \<le> length dst \<Longrightarrow>
    sink_all sprintf_lambda_func t (dst, int i) = Some (take i dst @ t @ drop (i + length t) dst, int (i + length t))"
  "length dst < i + length t \<Longrightarrow> i \<le> length dst \<Longrightarrow> sink_all sprintf_lambda_func t (dst, int i) = None"
proof (induction t arbitrary: i dst)
  case (Cons c t)
  {
    case 1
    let ?dst = "dst[i := c]"
    have "sprintf_lambda_func c (dst, int i) = Some (?dst, int (Suc i))" using 1 by (simp add: sprintf_lambda_func_def)
    moreover have "take (Suc i) ?dst = take i dst @ [c]" using 1 by (simp add: take_Suc_conv_app_nth)
    moreover have "sink_all sprintf_lambda_func t (?dst, int (Suc i)) =
        Some (take (Suc i) ?dst @ t @ drop (Suc i + length t) ?dst, int (Suc i + length t))"
      using 1 by (intro Cons(1)) simp
    ultimately show ?case by simp
  next
    case 2
    show ?case
    proof (cases "i < length dst")
      case True
      then have "sprintf_lambda_func c (dst, int i) = Some (dst[i := c], int (Suc i))" by (simp add: sprintf_lambda_func_def)
      then show ?thesis using Cons(2) [of "dst[i := c]" "Suc i"] 2 True by simp
    next
      case False
      then show ?thesis by (simp add: sprintf_lambda_func_def arr_set_def)
    qed
  }
qed auto

subsection \<open>Properties\<close>

text \<open>C36. \<^verbatim>\<open>sprintf\<close> stores exactly the characters that the format and its arguments stand for, and a
  terminating zero, and returns their number. The meaning of a format is given by a table of
  directives and by numerals in base ten and sixteen, defined by quotient and remainder; the one
  exception is the least 32-bit integer, whose decimal form is a fixed text that is no numeral. It stays within the destination if and only if that has
  room for all of them: the function itself checks nothing.\<close>

theorem sprintf_bounds:
  "sprintf dst format args =
    (case format_text format args of
       None \<Rightarrow> None
     | Some t \<Rightarrow> if length t < length dst then Some (int (length t) + 1, t @ 0 # drop (length t + 1) dst) else None)"
proof (cases "format_text format args")
  case (Some t)
  show ?thesis
  proof (cases "length t \<le> length dst")
    case True
    then have "sink_all sprintf_lambda_func t (dst, 0) = Some (t @ drop (length t) dst, int (length t))"
      using sprintf_sink(1) [of 0 t dst] by simp
    moreover have "(t @ drop (length t) dst)[length t := 0] = t @ 0 # drop (length t + 1) dst" if "length t < length dst"
      using that by (simp add: list_update_append flip: Cons_nth_drop_Suc)
    ultimately show ?thesis using True Some
      by (cases "length t = length dst") (auto simp: sprintf_def format_loop_text arr_set_def)
  next
    case False
    then show ?thesis using sprintf_sink(2) [of dst 0 t] Some by (simp add: sprintf_def format_loop_text)
  qed
qed (simp add: sprintf_def format_loop_text)

text \<open>C37. The console of a kernel that has printed the given rows. Printing a format with its arguments
  never accesses anything outside the memory of the ring or of the screen, returns, and
  afterwards the screen shows the last rows of the whole text, each filled up with zeros, and
  keeps its colours and the rows below.\<close>

theorem printk_displays:
  assumes "displays c rows" "is_matrix VGA_MAX_ROW (vga_ptr c)" "\<not> default_console_hidden c"
    and "format_text format args = Some t"
  defines "rows' \<equiv> fold put_char t rows"
  shows "\<exists>c'. printk format args c = Some c' \<and> displays c' rows' \<and> is_matrix VGA_MAX_ROW (vga_ptr c') \<and>
    (\<forall>j < VGA_MAX_ROW. vga_ptr c' ! j =
      (if j < length (visible rows') then with_chars (vga_ptr c ! j) (pad (visible rows' ! j)) else vga_ptr c ! j))"
proof -
  obtain c1 where 1: "sink_all vga_enqueue_byte t c = Some c1" "displays c1 rows'" "vga_ptr c1 = vga_ptr c" "\<not> default_console_hidden c1"
    using sink_displays [OF assms(1), of t] assms(3) unfolding rows'_def by auto
  obtain m where m: "printk_flush c1 = Some (c1\<lparr>vga_ptr := m\<rparr>)" "is_matrix VGA_MAX_ROW m"
    "\<forall>j < VGA_MAX_ROW. m ! j = (if j < length (visible rows') then with_chars (vga_ptr c1 ! j) (pad (visible rows' ! j)) else vga_ptr c1 ! j)"
    using flush_displays [OF 1(2)] assms(2) 1(3,4) by auto
  have "printk format args c = Some (c1\<lparr>vga_ptr := m\<rparr>)" using 1(1) m(1) assms(4) by (simp add: printk_def format_loop_text)
  moreover have "displays (c1\<lparr>vga_ptr := m\<rparr>) rows'" using 1(2) by (simp add: displays_def)
  ultimately show ?thesis using m(2,3) 1(3) by auto
qed

text \<open>The console at boot.\<close>

definition boot_console :: console where
  "boot_console = \<lparr>vga_row_front = 0, vga_row_idx = 0, vga_col_idx = 0, vga_shadow_memory = replicate 26 (replicate 80 0),
     vga_ptr = replicate 25 (replicate 80 0x0700), default_console_hidden = False, log_level = 2, serial_sent = []\<rparr>"

lemma boot_displays: "displays boot_console [[]]" "is_matrix VGA_MAX_ROW (vga_ptr boot_console)"
  by (auto simp: displays_def ring_rows_def boot_console_def is_matrix_def row_of_26 visible_def pad_def)

theorem printk_displays_witness:
  "\<exists>c'. printk (c_lit ''%d%%'') [VInt 42] boot_console = Some c' \<and> displays c' (fold put_char [52, 50] [[]])"
proof -
  have "format_text (c_lit ''%d%%'') [VInt 42] = Some [52, 50]"
    by code_simp
  moreover have "\<not> default_console_hidden boot_console" by (simp add: boot_console_def)
  ultimately show ?thesis using printk_displays [OF boot_displays] by blast
qed

end
