(* ===== verification/Terminal_Correct.thy ===== *)
theory Terminal_Correct
  imports Keyboard Printk_Correct
begin

section \<open>The screen shows the terminal that is switched to\<close>

text \<open>
  The rows of a terminal work as those of the console, but a terminal writes only its current row to the
  screen as long as no row has been completed. The proof carries the facts about the console over.
\<close>

definition as_console :: "ptty \<Rightarrow> u16 list list \<Rightarrow> console" where
  "as_console p m = \<lparr>vga_row_front = row_front p, vga_row_idx = row_index p, vga_col_idx = col_index p,
     vga_shadow_memory = pt_buffer p, vga_ptr = m, default_console_hidden = False, log_level = 0, serial_sent = []\<rparr>"

definition holds_rows :: "ptty \<Rightarrow> u8 list list \<Rightarrow> bool" where
  "holds_rows p rows \<longleftrightarrow> displays (as_console p []) rows"

text \<open>The characters on the screen are the visible rows, each filled up with zeros, and empty rows below them.\<close>

definition row_chars :: "u16 list \<Rightarrow> u8 list" where
  "row_chars r = map (\<lambda>v. ucast (v AND 0xff)) r"

definition screen_rows :: "u8 list list \<Rightarrow> nat \<Rightarrow> u8 list" where
  "screen_rows rows j = pad (if j < length (visible rows) then visible rows ! j else [])"

definition shown :: "u16 list list \<Rightarrow> u8 list list \<Rightarrow> bool" where
  "shown m rows \<longleftrightarrow> is_matrix VGA_MAX_ROW m \<and> (\<forall>j < VGA_MAX_ROW. row_chars (m ! j) = screen_rows rows j)"

subsection \<open>Writing a character\<close>

lemma enqueue_as_console:
  assumes "vga_enqueue_byte v (as_console p s) = Some c"
  shows "ptty_enqueue_byte v p = Some (p\<lparr>row_front := vga_row_front c, row_index := vga_row_idx c, col_index := vga_col_idx c,
    pt_buffer := vga_shadow_memory c, need_scroll := (need_scroll p \<or> row_index p \<noteq> vga_row_idx c)\<rparr>)"
proof -
  let ?set = "if v \<noteq> LINE_FEED then mat_set (pt_buffer p) (row_index p) (col_index p) v else Some (pt_buffer p)"
  let ?row = "(row_index p + 1) mod 26"
  obtain m where m: "?set = Some m" using assms
    by (cases "v = LINE_FEED"; cases "mat_set (pt_buffer p) (row_index p) (col_index p) v")
      (simp_all add: vga_enqueue_byte_def as_console_def Let_def)
  consider "col_index p + 1 \<noteq> 80" "v \<noteq> LINE_FEED" | "col_index p + 1 = 80 \<or> v = LINE_FEED" "(?row + 1) mod 26 \<noteq> row_front p"
    | "col_index p + 1 = 80 \<or> v = LINE_FEED" "(?row + 1) mod 26 = row_front p" by blast
  then show ?thesis
  proof cases
    case 1
    then show ?thesis using assms m by (auto simp: vga_enqueue_byte_def ptty_enqueue_byte_def as_console_def Let_def)
  next
    case 2
    then show ?thesis using assms m
      by (cases "v = LINE_FEED") (auto simp: vga_enqueue_byte_def ptty_enqueue_byte_def as_console_def next_row_def Let_def)
  next
    case 3
    then show ?thesis using assms m
      by (cases "v = LINE_FEED"; cases "mat_row_loop (\<lambda>idx m. mat_set m (row_front p) idx 0) 80 0 m")
        (auto simp: vga_enqueue_byte_def ptty_enqueue_byte_def as_console_def next_row_def Let_def simp del: mat_row_loop.simps)
  qed
qed

text \<open>As long as no row is completed, the rows stay at their place and only the last one changes.\<close>

lemma enqueue_same_row:
  assumes "vga_enqueue_byte v c = Some c'" "displays c rows" "displays c' (put_char v rows)" "vga_row_idx c' = vga_row_idx c"
  shows "vga_row_front c' = vga_row_front c \<and> butlast (put_char v rows) = butlast rows \<and> length (put_char v rows) = length rows"
proof (cases "v = LINE_FEED \<or> vga_col_idx c + 1 = 80")
  case True
  then have "vga_row_idx c' = next_row (vga_row_idx c)" using assms(1)
    by (auto simp: vga_enqueue_byte_def Let_def split: if_splits bind_splits simp del: mat_row_loop.simps)
  moreover have "vga_row_idx c < 26" using assms(2) by (simp add: displays_def row_of_26)
  then have "next_row (vga_row_idx c) \<noteq> vga_row_idx c" by (auto simp: next_row_def mod_Suc)
  ultimately show ?thesis using assms(4) by simp
next
  case False
  then have "vga_row_front c' = vga_row_front c" using assms(1)
    by (auto simp: vga_enqueue_byte_def Let_def split: if_splits bind_splits simp del: mat_row_loop.simps)
  moreover have "rows \<noteq> []" "vga_col_idx c = length (last rows)" using assms(2) by (auto simp: displays_def ring_rows_def)
  ultimately show ?thesis using False by (simp add: put_char_def)
qed

definition same_rows :: "ptty \<Rightarrow> u8 list list \<Rightarrow> ptty \<Rightarrow> u8 list list \<Rightarrow> bool" where
  "same_rows p rows p' rows' \<longleftrightarrow> \<not> need_scroll p \<and> row_front p' = row_front p \<and> row_index p' = row_index p \<and>
     butlast rows' = butlast rows \<and> length rows' = length rows"

lemma enqueue_holds:
  assumes "holds_rows p rows"
  shows "\<exists>p'. ptty_enqueue_byte v p = Some p' \<and> holds_rows p' (put_char v rows) \<and>
    (\<not> need_scroll p' \<longrightarrow> same_rows p rows p' (put_char v rows))"
proof -
  obtain c where c: "vga_enqueue_byte v (as_console p []) = Some c" "displays c (put_char v rows)"
    using enqueue_displays [of "as_console p []" rows v] assms by (auto simp: holds_rows_def)
  let ?p = "p\<lparr>row_front := vga_row_front c, row_index := vga_row_idx c, col_index := vga_col_idx c,
    pt_buffer := vga_shadow_memory c, need_scroll := (need_scroll p \<or> row_index p \<noteq> vga_row_idx c)\<rparr>"
  have "holds_rows ?p (put_char v rows)" using c(2) by (simp add: holds_rows_def displays_def as_console_def)
  moreover have "\<not> need_scroll ?p \<longrightarrow> same_rows p rows ?p (put_char v rows)"
    using enqueue_same_row [OF c(1) _ c(2)] assms by (simp add: holds_rows_def as_console_def same_rows_def)
  ultimately show ?thesis using enqueue_as_console [OF c(1)] by blast
qed

lemma enqueue_all_holds:
  assumes "holds_rows p rows"
  shows "\<exists>p'. ptty_enqueue_all chars p = Some p' \<and> holds_rows p' (fold put_char chars rows) \<and>
    (\<not> need_scroll p' \<longrightarrow> same_rows p rows p' (fold put_char chars rows))"
  using assms
proof (induction chars arbitrary: p rows)
  case (Cons v chars)
  obtain q where q: "ptty_enqueue_byte v p = Some q" "holds_rows q (put_char v rows)"
    "\<not> need_scroll q \<longrightarrow> same_rows p rows q (put_char v rows)" using enqueue_holds [OF Cons.prems] by blast
  obtain r where "ptty_enqueue_all chars q = Some r" "holds_rows r (fold put_char (v # chars) rows)"
    "\<not> need_scroll r \<longrightarrow> same_rows q (put_char v rows) r (fold put_char (v # chars) rows)"
    using Cons.IH [OF q(2)] by auto
  then show ?case using q by (auto simp: same_rows_def)
qed (simp add: same_rows_def)

subsection \<open>Showing a terminal\<close>

lemma with_chars_low: "ucast ((v AND 0xff00 OR ucast c) AND 0xff) = (c :: u8)" for v :: u16
proof -
  have "(0xff00 :: u16) = push_bit 8 (mask 8)" "(0xff :: u16) = mask 8" by (simp_all add: push_bit_eq_mult mask_eq_exp_minus_1)
  then show ?thesis by (intro bit_word_eqI) (auto simp only: bit_simps, auto simp: bit_simps)
qed

lemma row_chars_with: "length chars = VGA_MAX_COL \<Longrightarrow> row_chars (with_chars vs chars) = chars"
  by (intro nth_equalityI) (auto simp: row_chars_def with_chars_def with_chars_low)

lemma screen_rows_length: "\<forall>r\<in>set rows. length r \<le> VGA_MAX_COL \<Longrightarrow> length (screen_rows rows j) = VGA_MAX_COL"
  using set_drop_subset [of "length rows - VGA_MAX_ROW" rows] nth_mem [of j "visible rows"]
  by (auto simp: screen_rows_def pad_def visible_def)

lemma holds_ring:
  assumes "holds_rows p rows"
  shows "ring_rows (pt_buffer p) (row_front p) rows" "row_index p = (row_front p + (length (visible rows) - 1)) mod 26"
    "is_matrix 26 (pt_buffer p)" "row_front p < 26" "0 < length (visible rows)" "length (visible rows) \<le> 25"
    "\<And>j. j < length (visible rows) \<Longrightarrow> pt_buffer p ! ((row_front p + j) mod 26) = screen_rows rows j"
    "\<And>j. length (screen_rows rows j) = VGA_MAX_COL"
proof -
  show ring: "ring_rows (pt_buffer p) (row_front p) rows"
    and "row_index p = (row_front p + (length (visible rows) - 1)) mod 26"
    using assms by (simp_all add: holds_rows_def displays_def as_console_def row_of_26)
  then show "is_matrix 26 (pt_buffer p)" "row_front p < 26" "0 < length (visible rows)" "length (visible rows) \<le> 25"
    "\<And>j. j < length (visible rows) \<Longrightarrow> pt_buffer p ! ((row_front p + j) mod 26) = screen_rows rows j"
    by (auto simp: ring_rows_def visible_length screen_rows_def)
  show "\<And>j. length (screen_rows rows j) = VGA_MAX_COL" using ring by (intro screen_rows_length) (simp add: ring_rows_def)
qed

lemma flush_row_eq:
  assumes "is_matrix 26 buf" "is_matrix 25 m" "row < 26" "r < 25"
  shows "flush_row buf row r m = Some (m[r := with_chars (m ! r) (buf ! row)])"
  unfolding flush_row_def with_chars_def using is_matrix_row [OF assms(1,3)] is_matrix_row [OF assms(2,4)]
  by (intro mat_row_loop_all [where h = "\<lambda>j v. (v AND 0xff00) OR ucast (buf ! row ! j)"]) (auto simp: mat_set_def mat_get_def)

text \<open>Both ways of writing to the screen make it show the rows, when the rows that they do not
  write are right.\<close>

lemma flush_terminal_shown:
  assumes h: "holds_rows p rows" and p: "ptties t ptm = p" and m: "is_matrix VGA_MAX_ROW (vga_ptr (con t))"
    and other: "\<And>j. j < VGA_MAX_ROW \<Longrightarrow> (if need_scroll p then length (visible rows) \<le> j else j \<noteq> length (visible rows) - 1) \<Longrightarrow>
      row_chars (vga_ptr (con t) ! j) = screen_rows rows j"
  shows "\<exists>m' x y. ptty_flush_terminal ptm t =
      Some (OK, upd_ptty ptm (\<lambda>p. p\<lparr>need_scroll := False\<rparr>) (update_cusor x y (t\<lparr>con := (con t)\<lparr>vga_ptr := m'\<rparr>\<rparr>))) \<and> shown m' rows"
proof (cases "need_scroll p")
  case True
  let ?n = "length (visible rows)"
  note r = holds_ring [OF h]
  have f0: "(row_front p + 0) mod 26 = row_front p" using r(4) by simp
  obtain m' where m': "flush_loop (pt_buffer p) (row_index p) ((row_front p + 0) mod 26) 0 (vga_ptr (con t)) = Some m'" "is_matrix 25 m'"
    "\<forall>j < 25. m' ! j = (if 0 \<le> j \<and> j < ?n then with_chars (vga_ptr (con t) ! j) (pt_buffer p ! ((row_front p + j) mod 26)) else vga_ptr (con t) ! j)"
    using flush_loop_eq [OF r(3) m r(4) _ r(6,5,2), of 0] by blast
  then have "shown m' rows" using other True r(7,8) by (auto simp: shown_def row_chars_with)
  then show ?thesis using True p m'(1) unfolding f0 ptty_flush_terminal_def by (auto simp: Let_def)
next
  case False
  let ?n = "length (visible rows)"
  note r = holds_ring [OF h]
  have "(row_index p + 26 - row_front p) mod 26 = ?n - 1"
  proof -
    have "row_index p + 26 - row_front p = row_index p + (26 - row_front p)" using r(4) by simp
    then have "(row_index p + 26 - row_front p) mod 26 = (row_front p + (?n - 1) + (26 - row_front p)) mod 26"
      by (simp only: r(2) mod_add_left_eq)
    also have "row_front p + (?n - 1) + (26 - row_front p) = (?n - 1) + 26" using r(4) by simp
    finally show ?thesis using r(6) by simp
  qed
  then have v: "(row_index p + 25 + 1 - row_front p) mod 26 = ?n - 1" by (simp add: add.commute)
  let ?m = "(vga_ptr (con t))[?n - 1 := with_chars (vga_ptr (con t) ! (?n - 1)) (pt_buffer p ! row_index p)]"
  have "flush_row (pt_buffer p) (row_index p) (?n - 1) (vga_ptr (con t)) = Some ?m"
    using r(2,5,6) m r(3) by (intro flush_row_eq) auto
  moreover have cur: "pt_buffer p ! row_index p = screen_rows rows (?n - 1)" unfolding r(2) using r(5) by (intro r(7)) simp
  then have "row_chars (?m ! j) = screen_rows rows j" if "j < 25" for j
    using other [OF that] False m r(5,6,8) that
    by (cases "j = ?n - 1") (auto simp: is_matrix_def row_chars_with)
  then have "shown ?m rows" using m by (auto simp: shown_def intro!: is_matrix_upd simp: with_chars_def)
  ultimately show ?thesis using False p v r(5,6) unfolding ptty_flush_terminal_def by (auto simp: Let_def)
qed

lemma reset_video:
  assumes "is_matrix VGA_MAX_ROW (vga_ptr c)"
  shows "\<exists>m. reset_video_buffer c = Some (c\<lparr>vga_ptr := m\<rparr>) \<and> is_matrix VGA_MAX_ROW m \<and>
    (\<forall>j < VGA_MAX_ROW. row_chars (m ! j) = pad [])"
proof -
  let ?f = "\<lambda>r col m. do { v \<leftarrow> mat_get m r col; mat_set m r col (v AND 0xff00) } :: u16 list list option"
  let ?blank = "\<lambda>r :: u16 list. map (\<lambda>j. r ! j AND 0xff00) [0..<80]"
  have row: "mat_row_loop (?f r) 80 0 m = Some (m[r := ?blank (m ! r)])" if "is_matrix 25 m" "r < 25" for r m
    using is_matrix_row [OF that] by (intro mat_row_loop_all [where h = "\<lambda>_ v. v AND 0xff00"]) (auto simp: mat_set_def mat_get_def)
  have "\<exists>m'. mat_loop ?f n r m = Some m' \<and> is_matrix 25 m' \<and>
      (\<forall>j < 25. m' ! j = (if r \<le> j \<and> j < r + n then ?blank (m ! j) else m ! j))" if "is_matrix 25 m" "r + n \<le> 25" for n r m
    using that
  proof (induction n arbitrary: r m)
    case (Suc n)
    have "is_matrix 25 (m[r := ?blank (m ! r)])" by (intro is_matrix_upd Suc.prems) simp
    then obtain m' where "mat_loop ?f n (r + 1) (m[r := ?blank (m ! r)]) = Some m'" "is_matrix 25 m'"
      "\<forall>j < 25. m' ! j = (if r + 1 \<le> j \<and> j < r + 1 + n then ?blank (m[r := ?blank (m ! r)] ! j) else m[r := ?blank (m ! r)] ! j)"
      using Suc.IH [of "m[r := ?blank (m ! r)]" "r + 1"] Suc.prems by auto
    then show ?case using row [of m r] Suc.prems
      by (intro exI [of _ m'])
        (auto simp: nth_list_update is_matrix_def Suc_le_eq not_less simp del: mat_row_loop.simps dest!: antisym)
  qed auto
  from this [OF assms, of 0 25] obtain m where m: "mat_loop ?f 25 0 (vga_ptr c) = Some m" "is_matrix 25 m"
    "\<forall>j < 25. m ! j = ?blank (vga_ptr c ! j)" by auto
  moreover have "row_chars (?blank r) = pad []" for r
    by (intro nth_equalityI) (auto simp: row_chars_def pad_def and.assoc)
  ultimately show ?thesis by (auto simp: reset_video_buffer_def)
qed

subsection \<open>The screen as a specification\<close>

text \<open>The console of the kernel and every terminal have a text, and one of them is on the screen: a
  terminal, or the console when the address is \<open>NULL\<close>.\<close>

record screens =
  console_rows :: "u8 list list"
  terminal_rows :: "addr \<Rightarrow> u8 list list"
  on_screen :: addr

datatype screen_op =
    Print "u8 list" "va_arg list"
  | Write_Terminal addr "u8 list"
  | Clear_Terminal addr
  | Switch_Terminal u32
  | Switch_Console

definition terminals :: "addr \<Rightarrow> addr set" where
  "terminals base = {base + SIZEOF_PTTY * i |i. i < of_nat MAX_TERMINALS}"

text \<open>The operations of the specification. A terminal is reached through the file at the given
  address, of which \<open>ptr_of\<close> is the private pointer.\<close>

fun spec_op :: "addr \<Rightarrow> (addr \<Rightarrow> addr) \<Rightarrow> screen_op \<Rightarrow> screens \<Rightarrow> screens option" where
  "spec_op base ptr_of (Print format args) s = do {
     t \<leftarrow> format_text format args; Some (s\<lparr>console_rows := fold put_char t (console_rows s)\<rparr>) }"
| "spec_op base ptr_of (Write_Terminal file chars) s =
     (if ptr_of file \<in> terminals base
      then Some (s\<lparr>terminal_rows := (terminal_rows s)(ptr_of file := fold put_char chars (terminal_rows s (ptr_of file)))\<rparr>)
      else None)"
| "spec_op base ptr_of (Clear_Terminal file) s =
     (if ptr_of file \<in> terminals base then Some (s\<lparr>terminal_rows := (terminal_rows s)(ptr_of file := [[]])\<rparr>) else None)"
| "spec_op base ptr_of (Switch_Terminal i) s =
     (if i < of_nat MAX_TERMINALS then Some (s\<lparr>on_screen := base + SIZEOF_PTTY * i\<rparr>) else None)"
| "spec_op base ptr_of Switch_Console s = Some (s\<lparr>on_screen := NULL\<rparr>)"

fun spec_ops :: "addr \<Rightarrow> (addr \<Rightarrow> addr) \<Rightarrow> screen_op list \<Rightarrow> screens \<Rightarrow> screens option" where
  "spec_ops base ptr_of [] s = Some s"
| "spec_ops base ptr_of (x # xs) s = do { s \<leftarrow> spec_op base ptr_of x s; spec_ops base ptr_of xs s }"

text \<open>The operations of the code.\<close>

fun tty_op :: "screen_op \<Rightarrow> kernel \<times> tty \<Rightarrow> (kernel \<times> tty) option" where
  "tty_op (Print format args) (k, t) = do { c \<leftarrow> printk format args (con t); Some (k, t\<lparr>con := c\<rparr>) }"
| "tty_op (Write_Terminal file chars) (k, t) = map_option snd (ptty_dev_write file chars (int (length chars)) (k, t))"
| "tty_op (Clear_Terminal file) (k, t) = map_option snd (ptty_dev_ioctl file 1 0 0 [] (k, t))"
| "tty_op (Switch_Terminal i) (k, t) = switch_to_pseudo_terminal i (k, t)"
| "tty_op Switch_Console (k, t) = switch_to_default_console 0 (k, t)"

fun tty_ops :: "screen_op list \<Rightarrow> kernel \<times> tty \<Rightarrow> (kernel \<times> tty) option" where
  "tty_ops [] kt = Some kt"
| "tty_ops (x # xs) kt = do { kt \<leftarrow> tty_op x kt; tty_ops xs kt }"

definition screen_text :: "screens \<Rightarrow> u8 list list" where
  "screen_text s = (if on_screen s = NULL then console_rows s else terminal_rows s (on_screen s))"

definition screens_rel :: "addr \<Rightarrow> tty \<Rightarrow> screens \<Rightarrow> bool" where
  "screens_rel base t s \<longleftrightarrow> ptty_base t = base \<and> current_ptty t = on_screen s \<and> on_screen s \<in> insert NULL (terminals base) \<and>
     (default_console_hidden (con t) \<longleftrightarrow> on_screen s \<noteq> NULL) \<and> displays (con t) (console_rows s) \<and>
     (\<forall>p \<in> terminals base. holds_rows (ptties t p) (terminal_rows s p)) \<and> shown (vga_ptr (con t)) (screen_text s)"

lemma cursor_keeps [simp]:
  "con (update_cusor x y t) = con t" "ptties (update_cusor x y t) = ptties t" "ptty_base (update_cusor x y t) = ptty_base t"
  "current_ptty (update_cusor x y t) = current_ptty t"
  "con (enable_cursor a b t) = con t" "ptties (enable_cursor a b t) = ptties t" "ptty_base (enable_cursor a b t) = ptty_base t"
  "current_ptty (enable_cursor a b t) = current_ptty t"
  "con (disable_cursor t) = con t" "ptties (disable_cursor t) = ptties t" "ptty_base (disable_cursor t) = ptty_base t"
  "current_ptty (disable_cursor t) = current_ptty t"
  by (simp_all add: update_cusor_def enable_cursor_def disable_cursor_def tty_outb_def tty_inb_def Let_def)

lemma upd_ptty_keeps [simp]:
  "con (upd_ptty p f t) = con t" "ptties (upd_ptty p f t) = (ptties t)(p := f (ptties t p))"
  "ptty_base (upd_ptty p f t) = ptty_base t" "current_ptty (upd_ptty p f t) = current_ptty t"
  by (simp_all add: upd_ptty_def)

lemma holds_rows_upd [simp]:
  "holds_rows (p\<lparr>need_scroll := b\<rparr>) rows = holds_rows p rows" "holds_rows (p\<lparr>pt_ring := r\<rparr>) rows = holds_rows p rows"
  by (simp_all add: holds_rows_def as_console_def)

lemma displays_screen [simp]: "displays (c\<lparr>vga_ptr := m\<rparr>) rows = displays c rows"
  "displays (c\<lparr>default_console_hidden := b\<rparr>) rows = displays c rows"
  by (simp_all add: displays_def)

lemma fold_put_length: "rows \<noteq> [] \<Longrightarrow> length rows \<le> length (fold put_char chars rows)"
proof (induction chars arbitrary: rows)
  case (Cons v chars)
  have "length rows \<le> length (put_char v rows)" "put_char v rows \<noteq> []" using Cons.prems by (auto simp: put_char_def)
  then show ?case using Cons.IH [of "put_char v rows"] by simp
qed simp

lemma screen_rows_below: "length (visible rows) \<le> length (visible rows') \<Longrightarrow> length (visible rows') \<le> j \<Longrightarrow>
    screen_rows rows j = screen_rows rows' j"
  by (simp add: screen_rows_def)

lemma screen_rows_same:
  assumes "rows \<noteq> []" "butlast rows' = butlast rows" "length rows' = length rows" "j \<noteq> length (visible rows') - 1"
  shows "screen_rows rows j = screen_rows rows' j"
proof -
  have "rows' = butlast rows @ [last rows']" using assms(1-3) by (metis append_butlast_last_id length_0_conv)
  then have "visible rows' = butlast (visible rows) @ [last rows']" using visible_replace [OF assms(1)] by metis
  moreover have "visible rows \<noteq> []" using visible_last [OF assms(1)] by simp
  ultimately show ?thesis using assms(4) by (auto simp: screen_rows_def nth_append nth_butlast less_Suc_eq)
qed

subsection \<open>Every operation implements its specification\<close>

lemma shown_with:
  assumes "is_matrix VGA_MAX_ROW m" "shown m0 rows0" "length (visible rows0) \<le> length (visible rows)"
    and "\<forall>r\<in>set rows. length r \<le> VGA_MAX_COL"
    and "\<forall>j < VGA_MAX_ROW. m ! j = (if j < length (visible rows) then with_chars (m0 ! j) (pad (visible rows ! j)) else m0 ! j)"
  shows "shown m rows"
  unfolding shown_def
proof (intro conjI assms(1) allI impI)
  fix j :: nat
  assume j: "j < VGA_MAX_ROW"
  show "row_chars (m ! j) = screen_rows rows j"
  proof (cases "j < length (visible rows)")
    case True
    then show ?thesis using assms(5) j screen_rows_length [OF assms(4), of j] by (simp add: screen_rows_def row_chars_with)
  next
    case False
    then show ?thesis using assms(2,3,5) j screen_rows_below [of rows0 rows j] by (simp add: shown_def)
  qed
qed

lemma displays_rows: "displays c rows \<Longrightarrow> rows \<noteq> [] \<and> (\<forall>r\<in>set rows. length r \<le> VGA_MAX_COL)"
  by (simp add: displays_def ring_rows_def)

lemma print_refines:
  assumes r: "screens_rel base t s" and f: "format_text format args = Some chars"
  defines "s' \<equiv> s\<lparr>console_rows := fold put_char chars (console_rows s)\<rparr>"
  shows "\<exists>t'. tty_op (Print format args) (k, t) = Some (k, t') \<and> screens_rel base t' s'"
proof -
  have d: "displays (con t) (console_rows s)" and sh: "shown (vga_ptr (con t)) (screen_text s)"
    using r by (simp_all add: screens_rel_def)
  obtain c where c: "sink_all vga_enqueue_byte chars (con t) = Some c" "displays c (console_rows s')"
    "vga_ptr c = vga_ptr (con t)" "default_console_hidden c = default_console_hidden (con t)"
    using sink_displays [OF d, of chars] by (auto simp: s'_def)
  have p: "printk format args (con t) = printk_flush c" using c(1) f by (simp add: printk_def format_loop_text)
  show ?thesis
  proof (cases "on_screen s = NULL")
    case True
    then have h: "\<not> default_console_hidden c" "is_matrix 25 (vga_ptr c)" using r c by (auto simp: screens_rel_def shown_def)
    obtain m where m: "printk_flush c = Some (c\<lparr>vga_ptr := m\<rparr>)" "is_matrix 25 m"
      "\<forall>j < 25. m ! j = (if j < length (visible (console_rows s')) then with_chars (vga_ptr (con t) ! j) (pad (visible (console_rows s') ! j)) else vga_ptr (con t) ! j)"
      using flush_displays [OF c(2) h(2,1)] c(3) by auto
    have "length (visible (console_rows s)) \<le> length (visible (console_rows s'))"
      using fold_put_length [of "console_rows s" chars] displays_rows [OF d] by (simp add: s'_def visible_length)
    then have "shown m (console_rows s')" using sh True displays_rows [OF c(2)] m(2,3)
      by (intro shown_with [of m "vga_ptr (con t)" "console_rows s"]) (auto simp: screen_text_def)
    then show ?thesis using True r c p m(1) by (auto simp: screens_rel_def screen_text_def s'_def)
  next
    case False
    then have "printk_flush c = Some c" using r c by (simp add: screens_rel_def printk_flush_def)
    then show ?thesis using False r c p by (auto simp: screens_rel_def screen_text_def s'_def)
  qed
qed

lemma write_refines:
  fixes chars :: "u8 list"
  assumes r: "screens_rel base t s" and p: "f_priv (files k file) \<in> terminals base" and null: "NULL \<notin> terminals base"
  defines "ptm \<equiv> f_priv (files k file)"
  defines "s' \<equiv> s\<lparr>terminal_rows := (terminal_rows s)(ptm := fold put_char chars (terminal_rows s ptm))\<rparr>"
  shows "\<exists>t'. tty_op (Write_Terminal file chars) (k, t) = Some (k, t') \<and> screens_rel base t' s'"
proof -
  let ?rows = "terminal_rows s ptm" and ?rows' = "fold put_char chars (terminal_rows s ptm)"
  have h: "holds_rows (ptties t ptm) ?rows" and nn: "ptm \<noteq> NULL" using r p null by (auto simp: screens_rel_def ptm_def)
  obtain q where q: "ptty_enqueue_all chars (ptties t ptm) = Some q" "holds_rows q ?rows'"
    "\<not> need_scroll q \<longrightarrow> same_rows (ptties t ptm) ?rows q ?rows'" using enqueue_all_holds [OF h] by blast
  let ?t = "upd_ptty ptm (\<lambda>_. q) t"
  have w: "tty_op (Write_Terminal file chars) (k, t) =
      map_option (Pair k) (if ptm = current_ptty t then map_option snd (ptty_flush_terminal ptm ?t) else Some ?t)"
    using q(1) nn by (cases "ptty_flush_terminal ptm ?t") (auto simp: ptty_dev_write_def ptm_def Let_def)
  show ?thesis
  proof (cases "ptm = current_ptty t")
    case True
    have sh: "shown (vga_ptr (con t)) ?rows" using True r nn by (simp add: screens_rel_def screen_text_def)
    have ne: "?rows \<noteq> []" using h displays_rows by (auto simp: holds_rows_def)
    have "length (visible ?rows) \<le> length (visible ?rows')" using fold_put_length [OF ne, of chars] by (simp add: visible_length)
    then have other: "row_chars (vga_ptr (con t) ! j) = screen_rows ?rows' j"
      if "j < 25" "if need_scroll q then length (visible ?rows') \<le> j else j \<noteq> length (visible ?rows') - 1" for j
      using sh that screen_rows_below [of ?rows ?rows' j] screen_rows_same [OF ne, of ?rows' j] q(3)
      by (auto simp: shown_def same_rows_def split: if_splits)
    obtain m x y where "ptty_flush_terminal ptm ?t =
        Some (OK, upd_ptty ptm (\<lambda>p. p\<lparr>need_scroll := False\<rparr>) (update_cusor x y (?t\<lparr>con := (con ?t)\<lparr>vga_ptr := m\<rparr>\<rparr>)))" "shown m ?rows'"
      using flush_terminal_shown [OF q(2), of ?t ptm] sh other by (auto simp: shown_def)
    then show ?thesis using True r q(2) nn unfolding w by (auto simp: screens_rel_def screen_text_def s'_def)
  next
    case False
    then show ?thesis using r q(2) unfolding w by (auto simp: screens_rel_def screen_text_def s'_def)
  qed
qed

lemma holds_empty:
  "row_front p = 0 \<Longrightarrow> row_index p = 0 \<Longrightarrow> col_index p = 0 \<Longrightarrow> pt_buffer p = replicate 26 (replicate 80 0) \<Longrightarrow> holds_rows p [[]]"
  by (simp add: holds_rows_def displays_def ring_rows_def as_console_def is_matrix_def row_of_26 visible_def pad_def)

lemma shown_empty: "is_matrix VGA_MAX_ROW m \<Longrightarrow> \<forall>j < VGA_MAX_ROW. row_chars (m ! j) = pad [] \<Longrightarrow> shown m [[]]"
  by (auto simp: shown_def screen_rows_def visible_def)

lemma clear_refines:
  assumes r: "screens_rel base t s" and p: "f_priv (files k file) \<in> terminals base" and null: "NULL \<notin> terminals base"
  shows "\<exists>t'. tty_op (Clear_Terminal file) (k, t) = Some (k, t') \<and>
    screens_rel base t' (s\<lparr>terminal_rows := (terminal_rows s)(f_priv (files k file) := [[]])\<rparr>)"
proof -
  obtain m where m: "reset_video_buffer (con t) = Some ((con t)\<lparr>vga_ptr := m\<rparr>)" "is_matrix 25 m" "\<forall>j < 25. row_chars (m ! j) = pad []"
    using reset_video [of "con t"] r by (auto simp: screens_rel_def shown_def)
  show ?thesis using r p null m(1) shown_empty [OF m(2,3)]
    by (cases "current_ptty t = f_priv (files k file)")
      (auto simp: ptty_dev_ioctl_def ptty_clear_def Let_def screens_rel_def screen_text_def intro!: holds_empty)
qed

lemma switch_terminal_refines:
  assumes r: "screens_rel base t s" and i: "i < of_nat MAX_TERMINALS" and null: "NULL \<notin> terminals base"
  shows "\<exists>t'. tty_op (Switch_Terminal i) (k, t) = Some (k, t') \<and> screens_rel base t' (s\<lparr>on_screen := base + SIZEOF_PTTY * i\<rparr>)"
proof -
  let ?p = "base + SIZEOF_PTTY * i"
  have p: "?p \<in> terminals base" "?p \<noteq> NULL" using i null unfolding terminals_def by (blast, force)
  have b: "ptty_base t = base" and h: "holds_rows (ptties t ?p) (terminal_rows s ?p)" using r p by (auto simp: screens_rel_def)
  let ?c = "(con t)\<lparr>default_console_hidden := True\<rparr>"
  obtain m where m: "reset_video_buffer ?c = Some (?c\<lparr>vga_ptr := m\<rparr>)" "is_matrix 25 m" "\<forall>j < 25. row_chars (m ! j) = pad []"
    using reset_video [of ?c] r by (auto simp: screens_rel_def shown_def)
  define u where "u = enable_cursor 0 0 (upd_ptty ?p (\<lambda>p. p\<lparr>need_scroll := True\<rparr>) (t\<lparr>con := ?c\<lparr>vga_ptr := m\<rparr>, current_ptty := ?p\<rparr>))"
  have u: "ptties u ?p = (ptties t ?p)\<lparr>need_scroll := True\<rparr>" "vga_ptr (con u) = m" by (simp_all add: u_def)
  obtain m' x y where f: "ptty_flush_terminal ?p u =
      Some (OK, upd_ptty ?p (\<lambda>p. p\<lparr>need_scroll := False\<rparr>) (update_cusor x y (u\<lparr>con := (con u)\<lparr>vga_ptr := m'\<rparr>\<rparr>)))" "shown m' (terminal_rows s ?p)"
    using flush_terminal_shown [OF _ u(1), of "terminal_rows s ?p"] h m(2,3) u(2) by (auto simp: screen_rows_def)
  have "tty_op (Switch_Terminal i) (k, t) = Some (k, upd_ptty ?p (\<lambda>p. p\<lparr>pt_ring := ring_reset (pt_ring p)\<rparr>)
      (upd_ptty ?p (\<lambda>p. p\<lparr>need_scroll := False\<rparr>) (update_cusor x y (u\<lparr>con := (con u)\<lparr>vga_ptr := m'\<rparr>\<rparr>))))"
    using i m(1) f(1) b by (simp add: switch_to_pseudo_terminal_def hide_default_console_def Let_def flip: u_def)
  then show ?thesis using r p f(2) h by (auto simp: screens_rel_def screen_text_def u_def)
qed

lemma switch_console_refines:
  assumes r: "screens_rel base t s"
  shows "\<exists>t'. tty_op Switch_Console (k, t) = Some (k, t') \<and> screens_rel base t' (s\<lparr>on_screen := NULL\<rparr>)"
proof -
  let ?c = "(con t)\<lparr>default_console_hidden := False\<rparr>"
  obtain m where m: "reset_video_buffer ?c = Some (?c\<lparr>vga_ptr := m\<rparr>)" "is_matrix 25 m" "\<forall>j < 25. row_chars (m ! j) = pad []"
    using reset_video [of ?c] r by (auto simp: screens_rel_def shown_def)
  have d: "displays (?c\<lparr>vga_ptr := m\<rparr>) (console_rows s)" using r by (simp add: screens_rel_def)
  obtain m' where m': "printk_flush (?c\<lparr>vga_ptr := m\<rparr>) = Some (?c\<lparr>vga_ptr := m'\<rparr>)" "is_matrix 25 m'"
    "\<forall>j < 25. m' ! j = (if j < length (visible (console_rows s)) then with_chars (m ! j) (pad (visible (console_rows s) ! j)) else m ! j)"
    using flush_displays [OF d] m(2) by auto
  have "1 \<le> length (visible (console_rows s))" using displays_rows [OF d] by (cases "console_rows s") (auto simp: visible_length)
  then have "shown m' (console_rows s)" using displays_rows [OF d] m' shown_empty [OF m(2,3)]
    by (intro shown_with [of m' m "[[]]"]) (auto simp: visible_def)
  then show ?thesis using r m(1) m'(1)
    by (auto simp: switch_to_default_console_def expose_default_console_def Let_def screens_rel_def screen_text_def)
qed

lemma tty_op_refines:
  assumes "screens_rel base t s" "spec_op base (\<lambda>file. f_priv (files k file)) x s = Some s'" "NULL \<notin> terminals base"
  shows "\<exists>t'. tty_op x (k, t) = Some (k, t') \<and> screens_rel base t' s'"
proof (cases x)
  case (Print format args)
  then show ?thesis using assms print_refines by (cases "format_text format args") auto
next
  case (Write_Terminal f chars)
  then show ?thesis using assms write_refines by (auto split: if_splits simp del: tty_op.simps)
next
  case (Clear_Terminal f)
  then show ?thesis using assms clear_refines by (auto split: if_splits simp del: tty_op.simps)
next
  case (Switch_Terminal i)
  then show ?thesis using assms switch_terminal_refines by (auto split: if_splits simp del: tty_op.simps)
next
  case Switch_Console
  then show ?thesis using assms switch_console_refines by (auto simp del: tty_op.simps)
qed

subsection \<open>Property\<close>

text \<open>C39. The console of the kernel and the six terminals share one screen. Whatever is printed, written to
  the terminals, cleared and switched, in any order: every operation returns, and afterwards the screen shows the last 25 rows
  of the text of the terminal that was switched to last (or of the console), filled up with
  zeros, although writing to a terminal copies only its current row as long as none was completed, and
  what is printed while a terminal is shown, or written to another one, appears when that one is switched to.\<close>

theorem screen_shows_current:
  assumes "screens_rel base t s" "NULL \<notin> terminals base"
    and "spec_ops base (\<lambda>file. f_priv (files k file)) ops s = Some s'"
  shows "\<exists>t'. tty_ops ops (k, t) = Some (k, t') \<and> screens_rel base t' s'"
  using assms
proof (induction ops arbitrary: t s)
  case (Cons x ops)
  obtain s1 where s1: "spec_op base (\<lambda>file. f_priv (files k file)) x s = Some s1"
    "spec_ops base (\<lambda>file. f_priv (files k file)) ops s1 = Some s'" using Cons.prems(3)
    by (cases "spec_op base (\<lambda>file. f_priv (files k file)) x s") auto
  obtain t1 where "tty_op x (k, t) = Some (k, t1)" "screens_rel base t1 s1"
    using tty_op_refines [OF Cons.prems(1) s1(1) Cons.prems(2)] by blast
  then show ?case using Cons.IH [OF _ Cons.prems(2) s1(2)] by simp
qed simp

text \<open>The terminals after boot.\<close>

definition empty_ring :: ring where
  "empty_ring = \<lparr>ring_size = int PSEUDO_BUFFER_SIZE, front = 0, rear = 0, buffer = replicate PSEUDO_BUFFER_SIZE 0\<rparr>"

definition boot_tty :: tty where
  "boot_tty = \<lparr>con = boot_console, ptties = (\<lambda>_. \<lparr>master_task_id = 0, foreground_task_id = 0, need_scroll = False, row_front = 0,
       row_index = 0, col_index = 0, pt_buffer = replicate 26 (replicate 80 0), pt_ring = empty_ring, slave_ring = empty_ring\<rparr>),
     ptty_base = 0x200000, current_ptty = NULL, port_out = [], port_in = (\<lambda>_. 0), port_reads = 0\<rparr>"

lemma boot_tty_rel:
  "screens_rel 0x200000 boot_tty \<lparr>console_rows = [[]], terminal_rows = (\<lambda>_. [[]]), on_screen = NULL\<rparr>"
proof -
  have "shown (vga_ptr boot_console) [[]]"
    by (rule shown_empty) (auto simp: boot_console_def is_matrix_def row_chars_def pad_def)
  then show ?thesis using boot_displays(1)
    by (auto simp: screens_rel_def screen_text_def boot_tty_def boot_console_def intro!: holds_empty)
qed

lemma boot_terminals: "NULL \<notin> terminals 0x200000"
proof
  assume "NULL \<in> terminals 0x200000"
  then obtain i :: u32 where i: "0x200000 + 2272 * i = 0" "i < 6" unfolding terminals_def by auto
  then have "unat i < 6" by (simp add: word_less_nat_alt)
  moreover from this have "unat (0x200000 + 2272 * i) = 0x200000 + 2272 * unat i" by (simp add: unat_word_ariths)
  ultimately show False using i(1) by simp
qed

theorem screen_shows_current_witness:
  "\<exists>k t'. tty_ops [Switch_Terminal 1, Write_Terminal 16 [72, 105], Print (c_lit ''%d'') [VInt 4]] (k, boot_tty) = Some (k, t') \<and>
    shown (vga_ptr (con t')) [[72, 105]]"
proof -
  define k :: kernel where "k = undefined\<lparr>files := \<lambda>_. undefined\<lparr>f_priv := 0x2008e0\<rparr>\<rparr>"
  let ?s = "\<lparr>console_rows = [[52]], terminal_rows = (\<lambda>_. [[]])(0x2008e0 := [[72, 105]]), on_screen = 0x2008e0\<rparr>"
  have "0x2008e0 \<in> terminals 0x200000" unfolding terminals_def by (rule CollectI, rule exI [of _ 1]) simp
  moreover have "format_text (c_lit ''%d'') [VInt 4] = Some [52]" by code_simp
  ultimately have "spec_ops 0x200000 (\<lambda>file. f_priv (files k file)) [Switch_Terminal 1, Write_Terminal 16 [72, 105], Print (c_lit ''%d'') [VInt 4]]
      \<lparr>console_rows = [[]], terminal_rows = (\<lambda>_. [[]]), on_screen = NULL\<rparr> = Some ?s"
    by (simp add: k_def put_char_def)
  then obtain t' where "tty_ops [Switch_Terminal 1, Write_Terminal 16 [72, 105], Print (c_lit ''%d'') [VInt 4]] (k, boot_tty) = Some (k, t')"
    "screens_rel 0x200000 t' ?s" using screen_shows_current [OF boot_tty_rel boot_terminals] by blast
  then show ?thesis by (auto simp: screens_rel_def screen_text_def)
qed

end
