(* ===== verification/Elf.thy ===== *)
theory Elf
  imports Syscalls
begin

section \<open>Loading of programs (\<^verbatim>\<open>kernel/elf.c\<close>, \<^verbatim>\<open>call_sys_execve\<close> of \<^verbatim>\<open>kernel/task_misc.c\<close>)\<close>

text \<open>
  A program file is a list of bytes; a read outside of it does not return. The memory of the new
  task at its virtual addresses is one memory of bytes; a word is stored there as four bytes, the lowest first.
  It is an argument and a result of the functions that write it. A write to a page that is not mapped
  does not return.
\<close>

abbreviation (input) USERSPACE_STACK_TOP :: u64 where "USERSPACE_STACK_TOP \<equiv> 0xA0000000"
abbreviation (input) DEFAULT_TASK_NON_PRIVILEGED_STACK_SIZE :: u64 where "DEFAULT_TASK_NON_PRIVILEGED_STACK_SIZE \<equiv> 0x800000"
abbreviation (input) DEFAULT_TASK_PRIVILEGED_SIGNAL_STACK_SIZE :: u32 where "DEFAULT_TASK_PRIVILEGED_SIGNAL_STACK_SIZE \<equiv> 0x80000"
abbreviation (input) DEFAULT_TASK_NON_PRIVILEGED_SIGNAL_STACK_SIZE :: u64 where "DEFAULT_TASK_NON_PRIVILEGED_SIGNAL_STACK_SIZE \<equiv> 0x100000"
abbreviation (input) SIZEOF_VM_AREA :: int where "SIZEOF_VM_AREA \<equiv> 100"
abbreviation (input) PROGRAM_TYPE_LOAD :: u32 where "PROGRAM_TYPE_LOAD \<equiv> 1"
abbreviation (input) PROGRAM_WRITE :: u32 where "PROGRAM_WRITE \<equiv> 2"
abbreviation (input) PROGRAM_EXECUTE :: u32 where "PROGRAM_EXECUTE \<equiv> 1"
abbreviation (input) QUOTE :: u8 where "QUOTE \<equiv> 0x22"
abbreviation (input) APOSTROPHE :: u8 where "APOSTROPHE \<equiv> 0x27"
abbreviation (input) EQUALS :: u8 where "EQUALS \<equiv> 0x3D"
abbreviation (input) BLANK :: u8 where "BLANK \<equiv> 0x20"

subsection \<open>The format\<close>

definition get8 :: "u8 list \<Rightarrow> u32 \<Rightarrow> u8 option" where
  "get8 mem a = arr_get mem (uint a)"

definition get16 :: "u8 list \<Rightarrow> u32 \<Rightarrow> u16 option" where
  "get16 mem a = do { b0 \<leftarrow> get8 mem a; b1 \<leftarrow> get8 mem (a + 1); Some (ucast b0 OR push_bit 8 (ucast b1)) }"

definition get32 :: "u8 list \<Rightarrow> u32 \<Rightarrow> u32 option" where
  "get32 mem a = do {
     lo \<leftarrow> get16 mem a;
     hi \<leftarrow> get16 mem (a + 2);
     Some (ucast lo OR push_bit 16 (ucast hi))
   }"

record elf32_elf_header =
  e_ident0 :: u32
  e_ident4 :: u8
  e_ident5 :: u8
  e_type :: u16
  e_machine :: u16
  e_version :: u32
  e_entry :: u32
  e_phoff :: u32
  e_ehsize :: u16
  e_phentsize :: u16
  e_phnum :: u16
  e_shentsize :: u16

record elf32_program_header =
  p_type :: u32
  p_offset :: u32
  p_vaddr :: u32
  p_paddr :: u32
  p_filesz :: u32
  p_memsz :: u32
  p_flags :: u32

definition elf_hdr :: "u8 list \<Rightarrow> elf32_elf_header option" where
  "elf_hdr mem = do {
     i0 \<leftarrow> get32 mem 0; i4 \<leftarrow> get8 mem 4; i5 \<leftarrow> get8 mem 5;
     ty \<leftarrow> get16 mem 16; ma \<leftarrow> get16 mem 18; ver \<leftarrow> get32 mem 20; en \<leftarrow> get32 mem 24; ph \<leftarrow> get32 mem 28;
     eh \<leftarrow> get16 mem 40; pe \<leftarrow> get16 mem 42; pn \<leftarrow> get16 mem 44; se \<leftarrow> get16 mem 46;
     Some \<lparr>e_ident0 = i0, e_ident4 = i4, e_ident5 = i5, e_type = ty, e_machine = ma, e_version = ver, e_entry = en,
       e_phoff = ph, e_ehsize = eh, e_phentsize = pe, e_phnum = pn, e_shentsize = se\<rparr>
   }"

definition program_hdr :: "u8 list \<Rightarrow> elf32_elf_header \<Rightarrow> nat \<Rightarrow> elf32_program_header option" where
  "program_hdr mem h idx = do {
     let a = e_phoff h + of_nat idx * 32;
     ty \<leftarrow> get32 mem a; off \<leftarrow> get32 mem (a + 4); va \<leftarrow> get32 mem (a + 8); pa \<leftarrow> get32 mem (a + 12);
     fz \<leftarrow> get32 mem (a + 16); mz \<leftarrow> get32 mem (a + 20); fl \<leftarrow> get32 mem (a + 24);
     Some \<lparr>p_type = ty, p_offset = off, p_vaddr = va, p_paddr = pa, p_filesz = fz, p_memsz = mz, p_flags = fl\<rparr>
   }"

fun validate_segments :: "u8 list \<Rightarrow> u32 \<Rightarrow> elf32_elf_header \<Rightarrow> nat list \<Rightarrow> bool option" where
  "validate_segments mem len h [] = Some True"
| "validate_segments mem len h (idx # rest) = do {
     p \<leftarrow> program_hdr mem h idx;
     if \<not> (p_offset p + p_filesz p < len) then Some False
     else if p_type p = PROGRAM_TYPE_LOAD \<and>
       \<not> ((ucast (p_vaddr p) :: u64) \<ge> ucast USERSPACE_BOTTOM \<and> ucast (p_vaddr p) + ucast (p_memsz p) < USERSPACE_STACK_TOP)
     then Some False
     else validate_segments mem len h rest
   }"

text \<open>The length is compared as an unsigned number.\<close>

definition validate_static_elf32_format :: "u8 list \<Rightarrow> int \<Rightarrow> int option" where
  "validate_static_elf32_format mem len =
     (if \<not> (of_int len \<ge> (52 :: u32)) then Some (- ERR_INVALID_ARG)
      else do {
        h \<leftarrow> elf_hdr mem;
        if \<not> (e_ident0 h = 0x464c457f \<and> e_ident4 h = 1 \<and> e_ident5 h = 1 \<and> e_type h = 2 \<and> e_machine h = 3 \<and>
          e_version h = 1 \<and> e_ehsize h = 52 \<and> e_phentsize h = 32 \<and> e_shentsize h = 40)
        then Some (- ERR_INVALID_ARG)
        else do {
          ok \<leftarrow> validate_segments mem (of_int len) h [0..<unat (e_phnum h)];
          Some (if ok then OK else - ERR_INVALID_ARG)
        }
      })"

subsection \<open>The command line\<close>

text \<open>The command is copied to the top of the stack of the new task, cut into words there, and pointers to the words
  are pushed below. A word ends at a blank outside quotation marks or at the mark that closes a
  quotation.\<close>

type_synonym bytes = "addr \<Rightarrow> u8"

definition store_bytes :: "addr \<Rightarrow> u8 list \<Rightarrow> bytes \<Rightarrow> bytes" where
  "store_bytes a bs m = (\<lambda>x. if unat (x - a) < length bs then bs ! unat (x - a) else m x)"

partial_function (option) read_str :: "bytes \<Rightarrow> addr \<Rightarrow> u8 list option" where
  "read_str m a = (if m a = 0 then Some [0] else do { s \<leftarrow> read_str m (a + 1); Some (m a # s) })"

partial_function (option) skip_space :: "bytes \<Rightarrow> addr \<Rightarrow> addr option" where
  "skip_space m ptr = (if m ptr \<noteq> 0 \<and> m ptr = BLANK then skip_space m (ptr + 1) else Some ptr)"

partial_function (option) word_end :: "bytes \<Rightarrow> nat \<Rightarrow> nat \<Rightarrow> addr \<Rightarrow> addr option" where
  "word_end m quote_count apostrophe_count end_ptr =
     (if m end_ptr = 0 then Some end_ptr
      else if m end_ptr = BLANK
      then (if even quote_count \<and> even apostrophe_count then Some end_ptr
            else word_end m quote_count apostrophe_count (end_ptr + 1))
      else if m end_ptr = QUOTE \<or> m end_ptr = APOSTROPHE
      then (let quote_count = quote_count + (if m end_ptr = QUOTE then 1 else 0);
                apostrophe_count = apostrophe_count + (if m end_ptr = APOSTROPHE then 1 else 0)
            in if even quote_count \<and> even apostrophe_count then Some end_ptr
               else word_end m quote_count apostrophe_count (end_ptr + 1))
      else word_end m quote_count apostrophe_count (end_ptr + 1))"

text \<open>The two stacks of 128 pointers are one list of pairs here.\<close>

partial_function (option) find_words :: "bytes \<Rightarrow> addr \<Rightarrow> (addr \<times> addr) list \<Rightarrow> (addr \<times> addr) list option" where
  "find_words m ptr stack =
     (if m ptr = 0 then Some stack
      else do {
        start_ptr \<leftarrow> skip_space m ptr;
        if m start_ptr = 0 then Some stack
        else do {
          end_ptr \<leftarrow> word_end m 0 0 start_ptr;
          kassert (length stack < 128);
          find_words m (end_ptr + 1) (stack @ [(start_ptr, end_ptr)])
        }
      })"

partial_function (option) strip_loop :: "addr \<Rightarrow> addr \<Rightarrow> bytes \<Rightarrow> bytes option" where
  "strip_loop ptr ptr_another m =
     (if m ptr_another = 0 then Some (m(ptr := 0))
      else if m ptr_another = QUOTE \<or> m ptr_another = APOSTROPHE then strip_loop ptr (ptr_another + 1) m
      else strip_loop (ptr + 1) (ptr_another + 1) (m(ptr := m ptr_another)))"

fun strip_words :: "(addr \<times> addr) list \<Rightarrow> bytes \<Rightarrow> bytes option" where
  "strip_words [] m = Some m"
| "strip_words ((start_ptr, end_ptr) # stack) m = do {
     m \<leftarrow> strip_loop start_ptr start_ptr (m(end_ptr := 0));
     strip_words stack m
   }"

fun find_executable :: "bytes \<Rightarrow> addr list \<Rightarrow> nat \<Rightarrow> nat option" where
  "find_executable m [] idx = None"
| "find_executable m (a # stack) idx = do {
     s \<leftarrow> read_str m a;
     r \<leftarrow> strchr s EQUALS;
     if r = - 1 then Some idx else find_executable m stack (idx + 1)
   }"

definition push_word :: "u32 \<Rightarrow> addr \<times> bytes \<Rightarrow> addr \<times> bytes" where
  "push_word v = (\<lambda>(e, m).
     (e - 4, store_bytes e [ucast v, ucast (drop_bit 8 v), ucast (drop_bit 16 v), ucast (drop_bit 24 v)] m))"

text \<open>When no word is an executable, the index stays \<open>- 1\<close> and the program name is read in front of the
  stack of words; then the function does not return here.\<close>

definition resolve_commands :: "u32 \<Rightarrow> u8 list \<Rightarrow> bytes \<Rightarrow> (u32 \<times> addr \<times> bytes) option" where
  "resolve_commands pl3_stack_top command m = do {
     len \<leftarrow> strlen command;
     let e = pl3_stack_top - (len + 1);
     let m = store_bytes e (take (unat len + 1) command) m;
     kassert (m (e + len) = 0);
     let ptr = e;
     let e = (e AND NOT 3) - 4;
     stack \<leftarrow> find_words m ptr [];
     m \<leftarrow> strip_words stack m;
     executable_index \<leftarrow> find_executable m (map fst stack) 0;
     let start_stack = map fst stack;
     let program = start_stack ! executable_index;
     let (e, m) = push_word NULL (e, m);
     let (e, m) = fold push_word (take executable_index start_stack) (e, m);
     let (e, m) = push_word NULL (e, m);
     let (e, m) = fold push_word (rev (drop executable_index start_stack)) (e, m);
     let (e, m) = push_word (e + 4) (e, m);
     let (e, m) = push_word (of_nat (length stack) - of_nat executable_index) (e, m);
     kassert (e AND 1 = 0);
     Some (e, program, m)
   }"

subsection \<open>The loader\<close>

definition make_vm_area :: "u8 list \<Rightarrow> bool \<Rightarrow> bool \<Rightarrow> u32 \<Rightarrow> bool \<Rightarrow> u64 \<Rightarrow> u64 \<Rightarrow> u64 \<Rightarrow> vm_area option" where
  "make_vm_area nm kernel_vma pre_map write_permission executable virt phy len = do {
     nm \<leftarrow> strcpy_safe (replicate 64 0) nm VM_AREA_NAME_SIZE;
     Some \<lparr>va_name = nm, va_kernel_vma = kernel_vma, va_pre_map = pre_map, va_exact = False,
       va_write_permission = write_permission, va_page_writethrough = PAGE_WRITEBACK, va_page_cachedisable = PAGE_CACHE_ENABLED,
       va_executable = executable, va_virt_addr = virt, va_phy_addr = phy, va_length = len\<rparr>
   }"

text \<open>A new area at the end of the list of the task; \<open>False\<close> when there is no memory.\<close>

definition add_vm_area :: "addr \<Rightarrow> vm_area option \<Rightarrow> kernel \<Rightarrow> (bool \<times> kernel) option" where
  "add_vm_area task vma k = do {
     (v, k) \<leftarrow> kmalloc SIZEOF_VM_AREA k;
     if v = NULL then Some (False, k)
     else do {
       r \<leftarrow> vma;
       h \<leftarrow> list_append ((lists k)(v := zero_cell)) (vma_list task) v;
       Some (True, k\<lparr>vmas := (vmas k)(v := r), lists := h\<rparr>)
     }
   }"

definition round_page :: "u64 \<Rightarrow> u64" where
  "round_page x = (if x AND ucast PAGE_MASK \<noteq> 0 then (x AND NOT (ucast PAGE_MASK)) + ucast PAGE_SIZE else x)"

definition segment_name :: "nat \<Rightarrow> u8 list option" where
  "segment_name n = map_option snd
     (sprintf (replicate 64 0) (c_lit ''%s.%d'') [VStr (c_lit ''userspace.vma.text&data''), VInt (int n)])"

fun add_segments ::
    "u8 list \<Rightarrow> elf32_elf_header \<Rightarrow> addr \<Rightarrow> nat list \<Rightarrow> nat \<Rightarrow> u64 \<Rightarrow> kernel \<Rightarrow> (bool \<times> u64 \<times> kernel) option" where
  "add_segments mem h task [] counter heap_start k = Some (True, heap_start, k)"
| "add_segments mem h task (idx # rest) counter heap_start k = do {
     p \<leftarrow> program_hdr mem h idx;
     if p_type p \<noteq> PROGRAM_TYPE_LOAD then add_segments mem h task rest counter heap_start k
     else do {
       let heap_start = (if heap_start = 0 \<or> heap_start < ucast (p_vaddr p + p_memsz p)
                         then ucast (p_vaddr p + p_memsz p) else heap_start);
       kassert (p_vaddr p AND PAGE_MASK = 0);
       (ok, k) \<leftarrow> add_vm_area task
          (do { nm \<leftarrow> segment_name counter;
                make_vm_area nm False True PAGE_PERMISSION_READ_WRITE (p_flags p AND PROGRAM_EXECUTE \<noteq> 0)
                  (ucast (p_vaddr p)) (ucast (p_paddr p)) (round_page (ucast (p_memsz p))) }) k;
       if ok then add_segments mem h task rest (counter + 1) heap_start k else Some (False, heap_start, k)
     }
   }"

definition KERNEL_VMA_NAME :: "u8 list" where "KERNEL_VMA_NAME = c_lit ''kernelspace.vma''"
definition USER_VMA_STACK :: "u8 list" where "USER_VMA_STACK = c_lit ''userspace.vma.stack''"
definition USER_VMA_SIGNAL_STACK :: "u8 list" where "USER_VMA_SIGNAL_STACK = c_lit ''userspace.vma.signal_stack''"

text \<open>The areas of a program: the kernel, the segments, the heap and the two stacks.\<close>

definition prepare_vm_areas :: "u8 list \<Rightarrow> elf32_elf_header \<Rightarrow> addr \<Rightarrow> kernel \<Rightarrow> (bool \<times> kernel) option" where
  "prepare_vm_areas mem h task k = do {
     (ok, k) \<leftarrow> add_vm_area task
       (make_vm_area KERNEL_VMA_NAME True False PAGE_PERMISSION_READ_ONLY False 0 0 (ucast USERSPACE_BOTTOM)) k;
     if \<not> ok then Some (False, k)
     else do {
       (ok, heap_start, k) \<leftarrow> add_segments mem h task [0..<unat (e_phnum h)] 0 0 k;
       if \<not> ok then Some (False, k)
       else do {
         (ok, k) \<leftarrow> add_vm_area task
           (make_vm_area USER_VMA_HEAP False False PAGE_PERMISSION_READ_WRITE False (round_page heap_start) 0 0) k;
         if \<not> ok then Some (False, k)
         else do {
           (ok, k) \<leftarrow> add_vm_area task
             (make_vm_area USER_VMA_STACK False True PAGE_PERMISSION_READ_WRITE False
               (USERSPACE_STACK_TOP - DEFAULT_TASK_NON_PRIVILEGED_STACK_SIZE) 0 DEFAULT_TASK_NON_PRIVILEGED_STACK_SIZE) k;
           if \<not> ok then Some (False, k)
           else add_vm_area task
             (make_vm_area USER_VMA_SIGNAL_STACK False True PAGE_PERMISSION_READ_WRITE False
               (ucast USERSPACE_SIGNAL_STACK_TOP - DEFAULT_TASK_NON_PRIVILEGED_SIGNAL_STACK_SIZE) 0
               DEFAULT_TASK_NON_PRIVILEGED_SIGNAL_STACK_SIZE) k
         }
       }
     }
   }"

partial_function (option) premap_loop :: "addr \<Rightarrow> addr \<Rightarrow> kernel \<Rightarrow> (int \<times> kernel) option" where
  "premap_loop task v k =
     (if v = NULL then Some (OK, k)
      else if \<not> va_pre_map (vmas k v) then premap_loop task (le_next (lists k v)) k
      else do {
        (rc, k) \<leftarrow> userspace_map_vm_area k task v;
        if rc \<noteq> OK then Some (rc, k) else premap_loop task (le_next (lists k v)) k
      })"

text \<open>The copy of a segment. Its length is a signed number.\<close>

definition copy_segment :: "u8 list \<Rightarrow> elf32_program_header \<Rightarrow> bytes \<Rightarrow> paging \<Rightarrow> bytes option" where
  "copy_segment mem p m s = do {
     let n = nat (sint (p_filesz p));
     kassert (unat (p_offset p) + n \<le> length mem \<or> n = 0);
     kassert (list_all (\<lambda>i. page_present (pmem s) (cr3 s) (p_vaddr p + of_nat i) = of_int OK) [0..<n]);
     Some (store_bytes (p_vaddr p) (take n (drop (unat (p_offset p)) mem)) m)
   }"

fun copy_segments :: "u8 list \<Rightarrow> elf32_elf_header \<Rightarrow> addr \<Rightarrow> nat list \<Rightarrow> bytes \<Rightarrow> kernel \<Rightarrow> (bytes \<times> kernel) option" where
  "copy_segments mem h task [] m k = Some (m, k)"
| "copy_segments mem h task (idx # rest) m k = do {
     p \<leftarrow> program_hdr mem h idx;
     if p_type p \<noteq> PROGRAM_TYPE_LOAD then copy_segments mem h task rest m k
     else do {
       m \<leftarrow> copy_segment mem p m (pg k);
       v \<leftarrow> search_userspace_vma_by_addr (lists k) (vmas k) (vma_list task) (p_vaddr p);
       kassert (v \<noteq> NULL);
       let k = k\<lparr>vmas := (vmas k)(v := (vmas k v)\<lparr>va_write_permission :=
         (if p_flags p AND PROGRAM_WRITE \<noteq> 0 then PAGE_PERMISSION_READ_WRITE else PAGE_PERMISSION_READ_ONLY)\<rparr>)\<rparr>;
       (_, s) \<leftarrow> userspace_remap_vm_area (pg k) (tasks k task) (vmas k v);
       copy_segments mem h task rest m (k\<lparr>pg := s\<rparr>)
     }
   }"

text \<open>The ends of the loader: back to the previous task, and the three error labels, each of which goes
  on to the next.\<close>

definition restore_task :: "addr \<Rightarrow> kernel \<Rightarrow> kernel" where
  "restore_task prev_task k = (let k = k\<lparr>current := prev_task\<rparr> in
     if prev_task \<noteq> NULL then upd_pg (\<lambda>s. enable_task_paging s (tasks k prev_task)) k
     else upd_pg enable_kernel_paging k)"

definition load_task_error :: "addr \<Rightarrow> addr \<Rightarrow> kernel \<Rightarrow> kernel option" where
  "load_task_error task prev_task k = do {
     k \<leftarrow> (if task \<noteq> NULL then do {
             k \<leftarrow> (if privilege_level0_stack (tasks k task) \<noteq> NULL then kfree (privilege_level0_stack (tasks k task)) k else Some k);
             k \<leftarrow> (if signaled_privilege_level0_stack (tasks k task) \<noteq> NULL
                   then kfree (signaled_privilege_level0_stack (tasks k task)) k else Some k);
             free_task task k
           }
           else Some k);
     Some (restore_task prev_task k)
   }"

definition load_vma_error :: "addr \<Rightarrow> addr \<Rightarrow> kernel \<Rightarrow> kernel option" where
  "load_vma_error task prev_task k = do { k \<leftarrow> free_vmas_loop (vma_list task) k; load_task_error task prev_task k }"

definition load_page_error :: "addr \<Rightarrow> addr \<Rightarrow> kernel \<Rightarrow> kernel option" where
  "load_page_error task prev_task k = do {
     let k = upd_pg enable_kernel_paging k;
     k \<leftarrow> evict_vmas_loop task (le_next (lists k (vma_list task))) k;
     let k = (if page_directory (tasks k task) \<noteq> NULL
              then upd_pg (\<lambda>s. free_base_page s (page_directory (tasks k task))) k else k);
     load_vma_error task prev_task k
   }"

text \<open>The frame with which the new task starts.\<close>

definition start_frame :: "u32 \<Rightarrow> u32 \<Rightarrow> x86_cpustate" where
  "start_frame e_ip e_sp =
     \<lparr>edi = 0, esi = 0, ebp = 0, ebx = 0, edx = 0, ecx = 0, eax = 0,
      gs = USER_DATA_SELECTOR, fs = USER_DATA_SELECTOR, es = USER_DATA_SELECTOR, ds = USER_DATA_SELECTOR,
      vector = 0, errorcode = 0, eip = e_ip, cs = USER_CODE_SELECTOR,
      eflags = EFLAGS_ONE OR EFLAGS_INTERRUPT OR EFLAGS_PL3_IOPL, esp = e_sp, ss = USER_DATA_SELECTOR\<rparr>"

text \<open>From the copy of the segments to the end: the program is in place and the task becomes ready.\<close>

definition start_program ::
    "u8 list \<Rightarrow> elf32_elf_header \<Rightarrow> u8 list \<Rightarrow> addr \<Rightarrow> addr \<Rightarrow> bytes \<Rightarrow> kernel \<Rightarrow> (u32 \<times> bytes \<times> kernel) option" where
  "start_program mem h command task prev_task m k = do {
     let k = upd_pg (\<lambda>s. enable_task_paging s (tasks k task)) k;
     (m, k) \<leftarrow> copy_segments mem h task [0..<unat (e_phnum h)] m k;
     let k = upd_task task (\<lambda>t. t\<lparr>entry := e_entry h\<rparr>) k;
     v \<leftarrow> search_userspace_vma (lists k) (vmas k) (vma_list task) USER_VMA_STACK;
     kassert (v \<noteq> NULL);
     let c = (privilege_level0_stack (tasks k task) + DEFAULT_TASK_PRIVILEGED_STACK_SIZE - CPUSTATE_SIZE - 0x40) AND NOT 0xf;
     (e, program_name, m) \<leftarrow>
       resolve_commands (ucast (va_virt_addr (vmas k v) + va_length (vmas k v) - 0x10)) command m;
     kassert (e AND 3 = 0);
     s \<leftarrow> read_str m program_name;
     nm \<leftarrow> strcpy_safe (name (tasks k task)) s (int MAX_PATH);
     let k = k\<lparr>cpus := (cpus k)(c := start_frame (e_entry h) e)\<rparr>;
     let k = upd_task task (\<lambda>t. t\<lparr>name := nm, cpu := c, interrupt_depth := 1\<rparr>) k;
     let k = task_signal_init task k;
     let k = restore_task prev_task k;
     (r, k) \<leftarrow> register_task_in_task_table task k;
     kassert (r = OK);
     k \<leftarrow> task_put task k;
     Some (task_id (tasks k task), m, k)
   }"

text \<open>The result is the return code, the task identifier through the pointer, the memory of the new task and
  the kernel. When there is no memory for the task itself, the code is still \<open>OK\<close>.\<close>

definition load_static_elf32 ::
    "u8 list \<Rightarrow> u8 list \<Rightarrow> u32 \<Rightarrow> bytes \<Rightarrow> kernel \<Rightarrow> (int \<times> u32 \<times> bytes \<times> kernel) option" where
  "load_static_elf32 mem command ptask_id m k = do {
     let prev_task = current k;
     (task, k) \<leftarrow> malloc_task k;
     if task = NULL then do { k \<leftarrow> load_task_error task prev_task k; Some (OK, ptask_id, m, k) }
     else do {
       let k = upd_task task (\<lambda>t. t\<lparr>privilege_level := DPL_3, state := TASK_STATE_RUNNING\<rparr>) k;
       let k = k\<lparr>current := task\<rparr>;
       (stack, k) \<leftarrow> malloc_align_mapped (uint DEFAULT_TASK_PRIVILEGED_STACK_SIZE) 4 k;
       let k = upd_task task (\<lambda>t. t\<lparr>privilege_level0_stack := stack\<rparr>) k;
       if stack = NULL then do { k \<leftarrow> load_task_error task prev_task k; Some (- ERR_OUT_OF_MEMORY, ptask_id, m, k) }
       else do {
         let k = upd_task task (\<lambda>t. t\<lparr>privilege_level0_stack_top := stack + DEFAULT_TASK_PRIVILEGED_STACK_SIZE - 0x100\<rparr>) k;
         (sstack, k) \<leftarrow> malloc_align_mapped (uint DEFAULT_TASK_PRIVILEGED_SIGNAL_STACK_SIZE) 4 k;
         let k = upd_task task (\<lambda>t. t\<lparr>signaled_privilege_level0_stack := sstack\<rparr>) k;
         if sstack = NULL then do { k \<leftarrow> load_task_error task prev_task k; Some (- ERR_OUT_OF_MEMORY, ptask_id, m, k) }
         else do {
           let k = upd_task task (\<lambda>t. t\<lparr>signaled_privilege_level0_stack_top :=
             sstack + DEFAULT_TASK_PRIVILEGED_SIGNAL_STACK_SIZE - 0x100\<rparr>) k;
           h \<leftarrow> elf_hdr mem;
           (ok, k) \<leftarrow> prepare_vm_areas mem h task k;
           if \<not> ok then do { k \<leftarrow> load_vma_error task prev_task k; Some (- ERR_OUT_OF_MEMORY, ptask_id, m, k) }
           else do {
             let (dir, s) = get_base_page (pg k);
             let k = upd_task task (\<lambda>t. t\<lparr>page_directory := dir\<rparr>) (k\<lparr>pg := s\<rparr>);
             if dir = NULL then do { k \<leftarrow> load_page_error task prev_task k; Some (- ERR_OUT_OF_MEMORY, ptask_id, m, k) }
             else do {
               let k = upd_pg (\<lambda>s. s\<lparr>pmem := clear_page (pmem s) dir\<rparr>) k;
               (rc, k) \<leftarrow> premap_loop task (le_next (lists k (vma_list task))) k;
               if rc \<noteq> OK then do { k \<leftarrow> load_page_error task prev_task k; Some (rc, ptask_id, m, k) }
               else do {
                 (new_id, m, k) \<leftarrow> start_program mem h command task prev_task m k;
                 Some (OK, new_id, m, k)
               }
             }
           }
         }
       }
     }
   }"

subsection \<open>Execution of a program\<close>

text \<open>The command line of a program is put together in an array; a store outside of it does not return.\<close>

definition put_byte :: "u8 \<Rightarrow> u8 list \<times> int \<Rightarrow> (u8 list \<times> int) option" where
  "put_byte c = (\<lambda>(arr, ptr). do { arr \<leftarrow> arr_set arr ptr c; Some (arr, ptr + 1) })"

fun put_env :: "u8 list \<Rightarrow> u8 list \<times> int \<Rightarrow> (u8 list \<times> int) option" where
  "put_env [] b = None"
| "put_env (c # penv) b =
     (if c = 0 then do { b \<leftarrow> put_byte APOSTROPHE b; put_byte BLANK b }
      else if c = EQUALS then do { b \<leftarrow> put_byte EQUALS b; b \<leftarrow> put_byte APOSTROPHE b; put_env penv b }
      else do { b \<leftarrow> put_byte c b; put_env penv b })"

fun put_arg :: "u8 list \<Rightarrow> u8 list \<times> int \<Rightarrow> (u8 list \<times> int) option" where
  "put_arg [] b = None"
| "put_arg (c # parg) b =
     (if c = 0 then do { b \<leftarrow> put_byte APOSTROPHE b; put_byte BLANK b }
      else do { b \<leftarrow> put_byte c b; put_arg parg b })"

fun put_envs :: "u8 list list \<Rightarrow> u8 list \<times> int \<Rightarrow> (u8 list \<times> int) option" where
  "put_envs [] b = Some b"
| "put_envs (penv # envp) b = do { b \<leftarrow> put_env penv b; put_envs envp b }"

fun put_args :: "u8 list list \<Rightarrow> u8 list \<times> int \<Rightarrow> (u8 list \<times> int) option" where
  "put_args [] b = Some b"
| "put_args (parg # argv) b = do { b \<leftarrow> put_byte APOSTROPHE b; b \<leftarrow> put_arg parg b; put_args argv b }"

definition compose_command :: "u8 list list \<Rightarrow> u8 list list \<Rightarrow> u8 list option" where
  "compose_command argv envp = do {
     b \<leftarrow> put_envs envp (replicate MAX_PATH 0, 0);
     (commands_line, _) \<leftarrow> put_args argv b;
     Some commands_line
   }"

text \<open>A negative result of a read is a large number here, since the counters are unsigned. The buffer is
  a list of bytes together with its address.\<close>

partial_function (option) read_file_loop ::
    "(addr \<Rightarrow> file_operation) \<Rightarrow> u32 \<Rightarrow> u32 \<Rightarrow> file_entry \<Rightarrow> u8 list \<Rightarrow> kernel \<Rightarrow> (u32 \<times> u8 list \<times> kernel) option" where
  "read_file_loop fops remain index fe buffer k =
     (if remain > 0 then do {
        kassert (unat index \<le> length buffer);
        (r, part, fe, k) \<leftarrow> do_vfs_read fops fe (drop (unat index) buffer) (sint remain) k;
        let buffer = take (unat index) buffer @ part;
        let rc = of_int r;
        if rc = 0 then Some (remain, buffer, k)
        else read_file_loop fops (remain - rc) (index + rc) fe buffer k
      }
      else Some (remain, buffer, k))"

definition load_file_into_memory ::
    "(addr \<Rightarrow> filesystem_operation) \<Rightarrow> (addr \<Rightarrow> file_operation) \<Rightarrow> u8 list \<Rightarrow> kernel \<Rightarrow> (addr \<times> u8 list \<times> kernel) option" where
  "load_file_into_memory fsops fops path k = do {
     (f, k) \<leftarrow> do_vfs_open fsops path 0 0 k;
     if f = NULL then Some (NULL, [], k)
     else do {
       let fail = (\<lambda>k. Some (NULL, [], snd (do_vfs_close f k)));
       if f_type (files k f) \<noteq> FILE_TYPE_REGULAR then fail k
       else do {
         (r, st) \<leftarrow> do_vfs_stat fsops fops path \<lparr>st_mode = 0, st_size = 0\<rparr> k;
         if r \<noteq> OK then fail k
         else if st_size st = 0 then fail k
         else do {
           (buffer, k) \<leftarrow> malloc_mapped (sint (st_size st)) k;
           if buffer = NULL then fail k
           else do {
             (remain, content, k) \<leftarrow> read_file_loop fops (st_size st) 0
               \<lparr>fe_file = f, fe_offset = 0, fe_valid = False, fe_writable = False\<rparr> (replicate (unat (st_size st)) 0) k;
             if remain > 0 then do { k \<leftarrow> kfree buffer k; fail k }
             else Some (buffer, content, k)
           }
         }
       }
     }
   }"

definition call_sys_execve ::
    "(addr \<Rightarrow> filesystem_operation) \<Rightarrow> (addr \<Rightarrow> file_operation) \<Rightarrow> u8 list \<Rightarrow> u8 list list \<Rightarrow> u8 list list \<Rightarrow>
     bytes \<Rightarrow> kernel \<Rightarrow> (int \<times> bytes \<times> kernel) option" where
  "call_sys_execve fsops fops filename argv envp m k = do {
     kassert (current k \<noteq> NULL);
     absolute_path \<leftarrow> absolute_path_of filename k;
     commands_line \<leftarrow> compose_command argv envp;
     (file_memory, content, k) \<leftarrow> load_file_into_memory fsops fops absolute_path k;
     if file_memory = NULL then Some (- ERR_GENERIC, m, k)
     else do {
       r \<leftarrow> validate_static_elf32_format content (sint (of_nat (length content) :: u32));
       if r \<noteq> OK then do { k \<leftarrow> kfree file_memory k; Some (- ERR_GENERIC, m, k) }
       else do {
         (r, new_id, m, k) \<leftarrow> load_static_elf32 content commands_line (- 1) m k;
         if r \<noteq> OK then do { k \<leftarrow> kfree file_memory k; Some (- ERR_GENERIC, m, k) }
         else do {
           kassert (sint new_id \<ge> 0);
           k \<leftarrow> kfree file_memory k;
           Some (sint new_id, m, k)
         }
       }
     }
   }"

declare read_str.simps [code] skip_space.simps [code] word_end.simps [code] find_words.simps [code]
  strip_loop.simps [code] premap_loop.simps [code] read_file_loop.simps [code]

end
