(* ===== verification/Boot.thy ===== *)
theory Boot
  imports Elf
begin

section \<open>Starting the tasks (\<^verbatim>\<open>task_init\<close> of \<^verbatim>\<open>kernel/task.c\<close>)\<close>

text \<open>
  The registration of the remaining system call and of the handler of protection faults, the idle task, and the first program, which is
  loaded from the drive image. The arguments are the addresses of the functions and of the list of files of the drive.
\<close>

definition gp_init :: "u32 \<Rightarrow> intr \<Rightarrow> intr option" where
  "gp_init protection_fault_handler i = register_interrupt_handler 13 protection_fault_handler i"

definition task_signal_sub_init :: "u32 \<Rightarrow> syscall_entry list \<Rightarrow> syscall_entry list option" where
  "task_signal_sub_init signal_call entries = register_system_call 9 2 signal_call entries"

definition USERLAND_INIT_PATH :: "u8 list" where
  "USERLAND_INIT_PATH = c_lit ''/usr/bin/userland_init''"

definition init_command :: "u8 list" where
  "init_command = map of_char ''cwd='' @ [0x22, 0x2f, 0x22] @ map of_char '' tty=/dev/console '' @ USERLAND_INIT_PATH"

definition task_init ::
    "u32 \<Rightarrow> (int \<Rightarrow> u32) \<Rightarrow> u32 \<Rightarrow> addr \<Rightarrow> bytes \<Rightarrow> kernel \<times> intr \<times> syscall_entry list \<Rightarrow>
      (bytes \<times> kernel \<times> intr \<times> syscall_entry list) option" where
  "task_init yield_handler call_of idle_body drive_head m = (\<lambda>(k, i, entries). do {
     (i, entries) \<leftarrow> task_misc_init yield_handler call_of (i, entries);
     entries \<leftarrow> task_signal_sub_init (call_of 9) entries;
     (r, idle, k) \<leftarrow> create_kernel_task idle_body (c_lit ''kernel_idle_task'') k;
     kassert (r = OK);
     let k = k\<lparr>kernel_idle_task := idle\<rparr>;
     kassert (idle \<noteq> NULL);
     zfile \<leftarrow> search_zelda_file drive_head USERLAND_INIT_PATH k;
     kassert (zfile \<noteq> NULL);
     r \<leftarrow> validate_static_elf32_format (zf_content (zelda_files k zfile)) (sint (zf_length (zelda_files k zfile)));
     kassert (r = OK);
     (r, _, m, k) \<leftarrow> load_static_elf32 (zf_content (zelda_files k zfile)) init_command 0 m k;
     kassert (r = OK);
     Some (m, k, i, entries)
   })"

text \<open>Every system call from 0 to 21 is registered after a start that returns.\<close>

lemma registered_valid:
  "register_system_call n a c entries = Some entries' \<Longrightarrow>
    length entries' = length entries \<and> sc_valid (entries' ! nat n) \<and> (\<forall>j. sc_valid (entries ! j) \<longrightarrow> sc_valid (entries' ! j))"
  by (auto simp: register_system_call_def arr_set_def nth_list_update split: if_splits)

lemma register_all_valid:
  "fold (\<lambda>(idx, n) r. do { xs \<leftarrow> r; register_system_call idx n (call_of idx) xs }) calls (Some xs) = Some xs' \<Longrightarrow>
    (\<forall>idx \<in> fst ` set calls. sc_valid (xs' ! nat idx)) \<and> (\<forall>j. sc_valid (xs ! j) \<longrightarrow> sc_valid (xs' ! j))"
proof (induction calls arbitrary: xs)
  case (Cons c calls)
  obtain idx n where c: "c = (idx, n)" by fastforce
  let ?step = "\<lambda>(idx, n) r. do { xs \<leftarrow> r; register_system_call idx n (call_of idx) xs }"
  have none: "fold ?step ys None = None" for ys by (induction ys) auto
  obtain xs1 where xs1: "register_system_call idx n (call_of idx) xs = Some xs1"
    using Cons.prems none by (cases "register_system_call idx n (call_of idx) xs") (auto simp: c)
  then show ?case using Cons.IH [of xs1] Cons.prems registered_valid [OF xs1] by (auto simp: c)
qed simp

lemma system_calls_registered:
  assumes "task_misc_init h call_of (i, xs) = Some (i', xs1)" "task_signal_sub_init f xs1 = Some xs2" "n \<le> 21"
  shows "sc_valid (xs2 ! n)"
proof -
  let ?step = "\<lambda>(idx, n) r. do { xs \<leftarrow> r; register_system_call idx n (call_of idx) xs }"
  have "fold ?step task_misc_calls (Some xs) = Some xs1"
    using assms(1) by (auto simp: task_misc_init_def split: bind_splits)
  then have all: "sc_valid (xs1 ! nat idx)" if "idx \<in> fst ` set task_misc_calls" for idx using register_all_valid that by blast
  have two: "sc_valid (xs2 ! 9)" "\<And>j. sc_valid (xs1 ! j) \<Longrightarrow> sc_valid (xs2 ! j)"
    using registered_valid [OF assms(2) [unfolded task_signal_sub_init_def]] by auto
  have "n = 9 \<or> int n \<in> fst ` set task_misc_calls"
    using assms(3) by (auto simp: task_misc_calls_def le_Suc_eq numeral_eq_Suc)
  then show ?thesis using two all by fastforce
qed

end
