(* ===== verification/Elf_Correct.thy ===== *)
theory Elf_Correct
  imports Elf Printk_Correct
begin

section \<open>Arguments and environment of a program\<close>

text \<open>
  \<^verbatim>\<open>call_sys_execve\<close> puts the arguments and the environment into one command line, and the loader cuts that
  line into words again. Here the two parts are put together: what the new program finds on its stack is what the
  caller passed.
\<close>

subsection \<open>Text in memory\<close>

text \<open>Bytes from the offset \<open>i\<close> above the address \<open>a\<close> on.\<close>

fun text_at :: "bytes \<Rightarrow> addr \<Rightarrow> nat \<Rightarrow> u8 list \<Rightarrow> bool" where
  "text_at m a i [] = True"
| "text_at m a i (c # rest) = (m (a + of_nat i) = c \<and> text_at m a (Suc i) rest)"

lemma text_at_append [simp]: "text_at m a i (xs @ ys) \<longleftrightarrow> text_at m a i xs \<and> text_at m a (i + length xs) ys"
  by (induction xs arbitrary: i) auto

lemma text_at_cong:
  "(\<And>n. i \<le> n \<Longrightarrow> n < i + length xs \<Longrightarrow> m' (a + of_nat n) = m (a + of_nat n)) \<Longrightarrow> text_at m' a i xs = text_at m a i xs"
  by (induction xs arbitrary: i) auto

lemma same_cell: "i < 4294967296 \<Longrightarrow> j < 4294967296 \<Longrightarrow> (of_nat i :: u32) = of_nat j \<longleftrightarrow> i = j"
  using unat_of_nat_id by metis

lemma next_cell: "(a :: u32) + of_nat i + 1 = a + of_nat (Suc i)"
  by simp

lemma read_str_text: "text_at m a i (xs @ [0]) \<Longrightarrow> 0 \<notin> set xs \<Longrightarrow> read_str m (a + of_nat i) = Some (xs @ [0])"
proof (induction xs arbitrary: i)
  case Nil
  then show ?case by (subst read_str.simps) simp
next
  case (Cons c xs)
  have "read_str m (a + of_nat (Suc i)) = Some (xs @ [0])" using Cons.IH [of "Suc i"] Cons.prems by simp
  then show ?case using Cons.prems by (subst read_str.simps) (simp add: next_cell del: of_nat_Suc)
qed

subsection \<open>Words\<close>

text \<open>A word of the command line has a part in front of the quotation and a quotation: \<open>NAME=\<close> and the value for a
  variable, nothing and the whole for an argument.\<close>

definition plain :: "u8 list \<Rightarrow> bool" where
  "plain xs \<longleftrightarrow> 0 \<notin> set xs \<and> QUOTE \<notin> set xs \<and> APOSTROPHE \<notin> set xs"

definition encode :: "u8 list \<times> u8 list \<Rightarrow> u8 list" where
  "encode = (\<lambda>(p, q). p @ APOSTROPHE # q @ [APOSTROPHE, BLANK])"

definition word_ok :: "u8 list \<times> u8 list \<Rightarrow> bool" where
  "word_ok = (\<lambda>(p, q). plain p \<and> plain q \<and> BLANK \<notin> set p)"

lemma word_end_quoted:
  assumes "text_at m a i (q @ [APOSTROPHE])" "plain q"
  shows "word_end m 0 1 (a + of_nat i) = Some (a + of_nat (i + length q))"
  using assms
proof (induction q arbitrary: i)
  case Nil
  then show ?case by (subst word_end.simps) simp
next
  case (Cons c q)
  have "word_end m 0 1 (a + of_nat (Suc i)) = Some (a + of_nat (Suc i + length q))"
    using Cons.IH [of "Suc i"] Cons.prems by (simp add: plain_def)
  then show ?case using Cons.prems by (subst word_end.simps) (auto simp: next_cell plain_def simp del: of_nat_Suc of_nat_add)
qed

lemma word_end_word:
  assumes "text_at m a i (p @ APOSTROPHE # q @ [APOSTROPHE])" "word_ok (p, q)"
  shows "word_end m 0 0 (a + of_nat i) = Some (a + of_nat (i + length p + length q + 1))"
  using assms
proof (induction p arbitrary: i)
  case Nil
  then have "word_end m 0 1 (a + of_nat (Suc i)) = Some (a + of_nat (Suc i + length q))"
    using word_end_quoted [of m a "Suc i" q] by (simp add: word_ok_def)
  then show ?case using Nil by (subst word_end.simps) (auto simp: next_cell simp del: of_nat_Suc of_nat_add)
next
  case (Cons c p)
  have "word_end m 0 0 (a + of_nat (Suc i)) = Some (a + of_nat (Suc i + length p + length q + 1))"
    using Cons.IH [of "Suc i"] Cons.prems by (simp add: plain_def word_ok_def)
  then show ?case using Cons.prems
    by (subst word_end.simps) (auto simp: next_cell plain_def word_ok_def simp del: of_nat_Suc of_nat_add)
qed

fun spans :: "addr \<Rightarrow> nat \<Rightarrow> (u8 list \<times> u8 list) list \<Rightarrow> (addr \<times> addr) list" where
  "spans a i [] = []"
| "spans a i ((p, q) # ws) =
     (a + of_nat i, a + of_nat (i + length p + length q + 1)) # spans a (i + length p + length q + 3) ws"

lemma find_words_blank:
  assumes "m ptr = BLANK" "m (ptr + 1) \<noteq> BLANK"
  shows "find_words m ptr stack = find_words m (ptr + 1) stack"
proof -
  have "skip_space m (ptr + 1) = Some (ptr + 1)" using assms by (subst skip_space.simps) simp
  moreover from this have "skip_space m ptr = Some (ptr + 1)" using assms by (subst skip_space.simps) simp
  ultimately show ?thesis using assms by (subst (1 2) find_words.simps) simp
qed

lemma find_words_text:
  assumes "text_at m a i (concat (map encode ws) @ [0])" "\<forall>x\<in>set ws. word_ok x" "length stack + length ws \<le> 128"
  shows "find_words m (a + of_nat i) stack = Some (stack @ spans a i ws)"
  using assms
proof (induction ws arbitrary: i stack)
  case Nil
  then show ?case by (subst find_words.simps) simp
next
  case (Cons x ws)
  obtain p q where x: "x = (p, q)" by fastforce
  let ?n = "i + length p + length q + 3"
  have t: "text_at m a i (p @ APOSTROPHE # q @ [APOSTROPHE])" "m (a + of_nat (?n - 1)) = BLANK"
    "text_at m a ?n (concat (map encode ws) @ [0])" "word_ok (p, q)"
    using Cons.prems by (auto simp: x encode_def numeral_3_eq_3 add_ac)
  have first: "m (a + of_nat i) \<noteq> 0" "m (a + of_nat i) \<noteq> BLANK"
    using t(1,4) by (cases p; auto simp: word_ok_def plain_def)+
  have nxt: "m (a + of_nat ?n) \<noteq> BLANK"
    using t(3) Cons.prems(2) by (cases ws; cases "fst (hd ws)") (auto simp: encode_def word_ok_def plain_def split: prod.splits)
  have "skip_space m (a + of_nat i) = Some (a + of_nat i)" using first by (subst skip_space.simps) simp
  then have "find_words m (a + of_nat i) stack =
      find_words m (a + of_nat (?n - 1)) (stack @ [(a + of_nat i, a + of_nat (i + length p + length q + 1))])"
    using first word_end_word [OF t(1,4)] Cons.prems(3) by (subst find_words.simps) (simp add: add_ac numeral_eq_Suc)
  also have "\<dots> = find_words m (a + of_nat ?n) (stack @ [(a + of_nat i, a + of_nat (i + length p + length q + 1))])"
    using find_words_blank [of m "a + of_nat (?n - 1)"] t(2) nxt by (simp add: add_ac numeral_eq_Suc)
  also have "\<dots> = Some (stack @ spans a i (x # ws))" using Cons.IH [OF t(3)] Cons.prems(2,3) by (simp add: x)
  finally show ?case .
qed

text \<open>Removing the quotation marks works in place: the write position never overtakes the read position.\<close>

lemma strip_loop_text:
  assumes "text_at m a j (xs @ [0])" "0 \<notin> set xs" "i \<le> j" "j + length xs < 4294967296"
  shows "\<exists>m'. strip_loop (a + of_nat i) (a + of_nat j) m = Some m' \<and>
    text_at m' a i (filter (\<lambda>c. c \<noteq> QUOTE \<and> c \<noteq> APOSTROPHE) xs @ [0]) \<and>
    (\<forall>n < 4294967296. n < i \<or> j + length xs < n \<longrightarrow> m' (a + of_nat n) = m (a + of_nat n))"
  using assms
proof (induction xs arbitrary: i j m)
  case Nil
  then show ?case by (subst strip_loop.simps) (auto simp: same_cell)
next
  case (Cons c xs)
  have c: "m (a + of_nat j) = c" "c \<noteq> 0" "text_at m a (Suc j) (xs @ [0])" using Cons.prems by auto
  show ?case
  proof (cases "c = QUOTE \<or> c = APOSTROPHE")
    case True
    then have "strip_loop (a + of_nat i) (a + of_nat j) m = strip_loop (a + of_nat i) (a + of_nat (Suc j)) m"
      using c by (subst strip_loop.simps) (simp add: next_cell del: of_nat_Suc)
    then show ?thesis using Cons.IH [OF c(3), of i] Cons.prems True by auto
  next
    case False
    let ?m = "m(a + of_nat i := c)"
    have "text_at ?m a (Suc j) (xs @ [0]) = text_at m a (Suc j) (xs @ [0])"
      using Cons.prems(3,4) by (intro text_at_cong) (auto simp: same_cell simp del: of_nat_Suc)
    then have t: "text_at ?m a (Suc j) (xs @ [0])" using c(3) by blast
    have pre: "0 \<notin> set xs" "Suc i \<le> Suc j" "Suc j + length xs < 4294967296" using Cons.prems by auto
    obtain m' where m': "strip_loop (a + of_nat (Suc i)) (a + of_nat (Suc j)) ?m = Some m'"
      "text_at m' a (Suc i) (filter (\<lambda>c. c \<noteq> QUOTE \<and> c \<noteq> APOSTROPHE) xs @ [0])"
      "\<forall>n < 4294967296. n < Suc i \<or> Suc j + length xs < n \<longrightarrow> m' (a + of_nat n) = ?m (a + of_nat n)"
      using Cons.IH [OF t pre] by blast
    have "strip_loop (a + of_nat i) (a + of_nat j) m = Some m'"
      using c False m'(1) by (subst strip_loop.simps) (simp add: next_cell del: of_nat_Suc)
    moreover have "m' (a + of_nat i) = c" using m'(3) Cons.prems(3,4) by simp
    ultimately show ?thesis using m'(2,3) False Cons.prems(3,4) by (auto simp: same_cell simp del: of_nat_Suc)
  qed
qed

fun stripped :: "bytes \<Rightarrow> addr \<Rightarrow> nat \<Rightarrow> (u8 list \<times> u8 list) list \<Rightarrow> bool" where
  "stripped m a i [] = True"
| "stripped m a i ((p, q) # ws) = (text_at m a i (p @ q @ [0]) \<and> stripped m a (i + length p + length q + 3) ws)"

lemma length_encode: "length (encode (p, q)) = length p + length q + 3"
  by (simp add: encode_def)

lemma filter_plain: "plain xs \<Longrightarrow> filter (\<lambda>c. c \<noteq> QUOTE \<and> c \<noteq> APOSTROPHE) xs = xs"
  by (auto simp: plain_def intro!: filter_True)

lemma strip_words_text:
  assumes "text_at m a i (concat (map encode ws))" "\<forall>x\<in>set ws. word_ok x" "i + length (concat (map encode ws)) < 4294967296"
  shows "\<exists>m'. strip_words (spans a i ws) m = Some m' \<and> stripped m' a i ws \<and>
    (\<forall>n < 4294967296. n < i \<or> i + length (concat (map encode ws)) \<le> n \<longrightarrow> m' (a + of_nat n) = m (a + of_nat n))"
  using assms
proof (induction ws arbitrary: i m)
  case (Cons x ws)
  obtain p q where x: "x = (p, q)" by fastforce
  let ?e = "i + length p + length q + 1" and ?n = "i + length p + length q + 3"
  let ?m = "m(a + of_nat ?e := 0)" and ?xs = "p @ APOSTROPHE # q"
  have t: "text_at m a i ?xs" "text_at m a ?n (concat (map encode ws))" "word_ok (p, q)"
    using Cons.prems by (auto simp: x encode_def numeral_3_eq_3 add_ac)
  have len: "?n + length (concat (map encode ws)) < 4294967296" using Cons.prems(3) by (simp add: x length_encode)
  have "text_at ?m a i ?xs = text_at m a i ?xs"
    using len by (intro text_at_cong) (auto simp: same_cell simp del: of_nat_Suc of_nat_add)
  then have "text_at ?m a i (?xs @ [0])" using t(1) by simp
  moreover have "0 \<notin> set ?xs" using t(3) by (auto simp: word_ok_def plain_def)
  moreover have "filter (\<lambda>c. c \<noteq> QUOTE \<and> c \<noteq> APOSTROPHE) ?xs = p @ q" using t(3) by (simp add: word_ok_def filter_plain)
  ultimately obtain m1 where m1: "strip_loop (a + of_nat i) (a + of_nat i) ?m = Some m1" "text_at m1 a i (p @ q @ [0])"
    "\<forall>n < 4294967296. n < i \<or> ?e < n \<longrightarrow> m1 (a + of_nat n) = ?m (a + of_nat n)"
    using strip_loop_text [of ?m a i ?xs i] len by auto
  have keep: "m1 (a + of_nat n) = m (a + of_nat n)" if "n < 4294967296" "n < i \<or> ?e < n" for n
    using m1(3) that len same_cell [of n ?e] by auto
  have "text_at m1 a ?n (concat (map encode ws)) = text_at m a ?n (concat (map encode ws))"
    using len by (intro text_at_cong keep) auto
  then obtain m' where m': "strip_words (spans a ?n ws) m1 = Some m'" "stripped m' a ?n ws"
    "\<forall>n < 4294967296. n < ?n \<or> ?n + length (concat (map encode ws)) \<le> n \<longrightarrow> m' (a + of_nat n) = m1 (a + of_nat n)"
    using Cons.IH [of m1 ?n] t(2) len Cons.prems(2) by auto
  have "text_at m' a i (p @ q @ [0]) = text_at m1 a i (p @ q @ [0])"
    using m'(3) len by (intro text_at_cong) auto
  then have "stripped m' a i (x # ws)" using m1(2) m'(2) by (simp add: x)
  moreover have "\<forall>n < 4294967296. n < i \<or> i + length (concat (map encode (x # ws))) \<le> n \<longrightarrow> m' (a + of_nat n) = m (a + of_nat n)"
    using m'(3) keep by (auto simp: x length_encode)
  moreover have "strip_words (spans a i (x # ws)) m = Some m'" using m1(1) m'(1) by (simp add: x)
  ultimately show ?case by blast
qed simp

text \<open>What the words are afterwards.\<close>

definition word_text :: "u8 list \<times> u8 list \<Rightarrow> u8 list" where
  "word_text = (\<lambda>(p, q). p @ q)"

lemma stripped_words:
  assumes "stripped m a i ws" "\<forall>x\<in>set ws. word_ok x"
  shows "list_all2 (\<lambda>s x. read_str m s = Some (word_text x @ [0])) (map fst (spans a i ws)) ws"
  using assms
proof (induction ws arbitrary: i)
  case (Cons x ws)
  obtain p q where x: "x = (p, q)" by fastforce
  have "read_str m (a + of_nat i) = Some ((p @ q) @ [0])"
    using Cons.prems by (intro read_str_text) (auto simp: x word_ok_def plain_def)
  then show ?case using Cons.IH Cons.prems by (simp add: x word_text_def)
qed simp

lemma length_spans [simp]: "length (spans a i ws) = length ws"
  by (induction a i ws rule: spans.induct) auto

lemma strchr_word:
  assumes "0 \<notin> set s"
  shows "\<exists>r. strchr (s @ [0]) EQUALS = Some r \<and> (r = - 1 \<longleftrightarrow> EQUALS \<notin> set s)"
  using strchr_loop_eq [of "s @ [0]" EQUALS 0] cstr_of_string [OF assms, of "[]"] assms by (auto simp: strchr_def)

lemma find_executable_word:
  assumes "list_all2 (\<lambda>s x. read_str m s = Some (word_text x @ [0])) sts (vars @ args)" "\<forall>x\<in>set (vars @ args). word_ok x"
    and "\<forall>x\<in>set vars. EQUALS \<in> set (word_text x)" "args \<noteq> []" "EQUALS \<notin> set (word_text (hd args))"
  shows "find_executable m sts i = Some (i + length vars)"
  using assms
proof (induction vars arbitrary: sts i)
  case Nil
  then obtain s sts' x xs where s: "sts = s # sts'" "args = x # xs" "read_str m s = Some (word_text x @ [0])"
    by (cases args; cases sts) auto
  have "0 \<notin> set (word_text x)" using Nil s by (auto simp: word_ok_def word_text_def plain_def)
  then show ?case using strchr_word [of "word_text x"] Nil s by auto
next
  case (Cons x vars)
  then obtain s sts' where s: "sts = s # sts'" "read_str m s = Some (word_text x @ [0])" by (cases sts) auto
  have "0 \<notin> set (word_text x)" using Cons.prems by (auto simp: word_ok_def word_text_def plain_def)
  then obtain r where "strchr (word_text x @ [0]) EQUALS = Some r" "r \<noteq> - 1"
    using strchr_word [of "word_text x"] Cons.prems(3) by auto
  then show ?case using Cons.IH [of sts' "i + 1"] Cons.prems s by auto
qed

subsection \<open>The words on the stack\<close>

text \<open>A word in the memory of bytes, the lowest byte first.\<close>

definition load_word :: "bytes \<Rightarrow> addr \<Rightarrow> u32" where
  "load_word m a = ucast (m a) OR push_bit 8 (ucast (m (a + 1))) OR push_bit 16 (ucast (m (a + 2))) OR push_bit 24 (ucast (m (a + 3)))"

fun push_mem :: "addr \<Rightarrow> u32 list \<Rightarrow> bytes \<Rightarrow> bytes" where
  "push_mem e [] m = m"
| "push_mem e (x # xs) m = push_mem (e - 4) xs (snd (push_word x (e, m)))"

lemma push_word_pair: "push_word v (e, m) = (e - 4, snd (push_word v (e, m)))"
  by (simp add: push_word_def)

lemma fold_push: "fold push_word xs (e, m) = (e - 4 * of_nat (length xs), push_mem e xs m)"
proof (induction xs arbitrary: e m)
  case (Cons x xs)
  show ?case unfolding fold_simps comp_apply by (subst push_word_pair) (simp add: Cons.IH algebra_simps)
qed simp

lemma word_bytes:
  fixes v :: u32
  shows "(ucast (ucast v :: u8) OR push_bit 8 (ucast (ucast (drop_bit 8 v) :: u8)) OR
    push_bit 16 (ucast (ucast (drop_bit 16 v) :: u8)) OR push_bit 24 (ucast (ucast (drop_bit 24 v) :: u8))) = v" (is "?w = v")
proof (rule bit_eqI)
  fix n
  assume "possible_bit TYPE(32 word) n"
  then have "n < 8 \<or> 8 \<le> n \<and> n < 16 \<or> 16 \<le> n \<and> n < 24 \<or> 24 \<le> n \<and> n < 32" by auto
  then show "bit ?w n = bit v n"
    by (elim disjE) (auto simp: bit_simps)
qed

lemma load_pushed: "load_word (snd (push_word v (e, m))) e = v"
  by (simp add: load_word_def push_word_def store_bytes_def word_bytes)

lemma push_word_above: "j < 4294967292 \<Longrightarrow> snd (push_word v (e, m)) (e + 4 + of_nat j) = m (e + 4 + of_nat j)"
proof -
  assume "j < 4294967292"
  then have "unat (e + 4 + of_nat j - e) = 4 + j" using unat_of_nat_id [of "4 + j"] by simp
  then show ?thesis by (simp add: push_word_def store_bytes_def)
qed

text \<open>The words go downwards; what lies above the first of them keeps its bytes.\<close>

lemma push_mem_above: "j + 4 * length xs < 4294967296 \<Longrightarrow> push_mem e xs m (e + 4 + of_nat j) = m (e + 4 + of_nat j)"
proof (induction xs arbitrary: e j m)
  case (Cons x xs)
  have "push_mem (e - 4) xs m1 (e - 4 + 4 + of_nat (j + 4)) = m1 (e - 4 + 4 + of_nat (j + 4))" for m1
    using Cons.prems by (intro Cons.IH) simp
  then show ?case using push_word_above [of j x e m] Cons.prems by (simp add: algebra_simps)
qed simp

lemma load_word_cong:
  "(\<And>j. j < 4 \<Longrightarrow> m' (a + of_nat j) = m (a + of_nat j)) \<Longrightarrow> load_word m' a = load_word m a"
proof -
  assume same: "\<And>j. j < 4 \<Longrightarrow> m' (a + of_nat j) = m (a + of_nat j)"
  show ?thesis using same [of 0] same [of 1] same [of 2] same [of 3] by (simp add: load_word_def)
qed

lemma push_mem_nth:
  "i < length xs \<Longrightarrow> length xs < 1073741824 \<Longrightarrow> load_word (push_mem e xs m) (e - 4 * of_nat i) = xs ! i"
proof (induction xs arbitrary: e i m)
  case (Cons x xs)
  show ?case
  proof (cases i)
    case 0
    have "push_mem (e - 4) xs m1 (e - 4 + 4 + of_nat j) = m1 (e - 4 + 4 + of_nat j)" if "j < 4" for m1 j
      using Cons.prems that by (intro push_mem_above) simp
    then have "load_word (push_mem (e - 4) xs m1) e = load_word m1 e" for m1 by (intro load_word_cong) simp
    then show ?thesis by (simp add: 0 load_pushed)
  next
    case (Suc n)
    have "load_word (push_mem (e - 4) xs m1) (e - 4 - 4 * of_nat n) = xs ! n" for m1 using Cons.prems Suc by (intro Cons.IH) auto
    then show ?thesis by (simp add: Suc algebra_simps)
  qed
qed simp

text \<open>The words of the text keep their contents when the bytes of the text do.\<close>

lemma stripped_cong:
  assumes "stripped m a i ws" "\<And>n. n < i + length (concat (map encode ws)) \<Longrightarrow> m' (a + of_nat n) = m (a + of_nat n)"
  shows "stripped m' a i ws"
  using assms
proof (induction ws arbitrary: i)
  case (Cons x ws)
  obtain p q where x: "x = (p, q)" by fastforce
  have len: "length (concat (map encode (x # ws))) = length p + length q + 3 + length (concat (map encode ws))"
    by (simp add: x length_encode)
  have "text_at m' a i (p @ q @ [0]) = text_at m a i (p @ q @ [0])"
    using Cons.prems(2) unfolding len by (intro text_at_cong) simp
  moreover have "stripped m' a (i + length p + length q + 3) ws"
    using Cons.prems unfolding len by (intro Cons.IH) (simp_all add: x)
  ultimately show ?case using Cons.prems(1) by (simp add: x)
qed simp

lemma word_align: "(x AND NOT 3) - 4 * (n :: u32) AND 3 = 0"
proof -
  have m: "(3 :: u32) = mask 2" by (simp add: mask_eq_exp_minus_1)
  have "x AND NOT (mask 2) = push_bit 2 (drop_bit 2 x)" by (rule bit_eqI) (auto simp: bit_simps not_less dest!: le_Suc_ex)
  then have "(x AND NOT (mask 2)) - 4 * n = push_bit 2 (drop_bit 2 x - n)" by (simp add: push_bit_eq_mult algebra_simps)
  then show ?thesis unfolding m by (simp add: take_bit_push_bit flip: take_bit_eq_mask)
qed

lemma align_even: "x AND 3 = 0 \<Longrightarrow> x AND 1 = (0 :: u32)"
proof -
  have "x AND 1 = (x AND 3) AND 1" by (simp add: and.assoc)
  then show "x AND 3 = 0 \<Longrightarrow> x AND 1 = 0" by simp
qed

lemma store_bytes_text:
  assumes "i + length xs \<le> length bs" "take (length xs) (drop i bs) = xs" "length bs < 4294967296"
  shows "text_at (store_bytes a bs m) a i xs"
  using assms
proof (induction xs arbitrary: i)
  case (Cons c xs)
  have i: "i < length bs" using Cons.prems by simp
  then have "bs ! i = c" "take (length xs) (drop (Suc i) bs) = xs"
    using Cons.prems by (auto simp: drop_Suc Cons_nth_drop_Suc [OF i, symmetric])
  then show ?case using Cons.IH [of "Suc i"] Cons.prems i by (simp add: store_bytes_def unat_of_nat_id)
qed simp

lemma word_below: "\<exists>d < 4. x = (x AND NOT 3) + (of_nat d :: u32)"
proof -
  have m: "(3 :: u32) = mask 2" by (simp add: mask_eq_exp_minus_1)
  have "x AND NOT (mask 2) = push_bit 2 (drop_bit 2 x)" by (rule bit_eqI) (auto simp: bit_simps not_less dest!: le_Suc_ex)
  then have "(x AND NOT 3) + take_bit 2 x = x" unfolding m by (simp add: bits_ident)
  moreover have "unat (take_bit 2 x) < 4" by (metis unsigned_take_bit_eq take_bit_nat_less_exp mult_2 numeral_Bit0 power2_eq_square)
  ultimately show ?thesis by (intro exI [of _ "unat (take_bit 2 x)"]) simp
qed

text \<open>The block of words that the loader pushes below the text.\<close>

lemma pushed_block:
  fixes vs as :: "addr list" and low :: addr
  assumes "length vs + length as \<le> 128"
  defines "mid \<equiv> low - 4 * of_nat (length vs + length as + 2)" and "e \<equiv> low - 4 * of_nat (length vs + length as + 4)"
  shows "\<exists>m1 m2. fold push_word (rev as) (push_word NULL (fold push_word vs (push_word NULL (low, m)))) = (mid, m1) \<and>
    push_word (of_nat (length as)) (push_word (mid + 4) (mid, m1)) = (e, m2) \<and>
    (\<forall>j. j + 4 * (length vs + length as + 4) < 4294967296 \<longrightarrow> m2 (low + 4 + of_nat j) = m (low + 4 + of_nat j)) \<and>
    (\<forall>i < length vs + length as + 4.
      load_word m2 (e + 4 + 4 * of_nat i) = ([of_nat (length as), e + 12] @ as @ [NULL] @ rev vs @ [NULL]) ! i)"
proof -
  let ?L = "length vs + length as" and ?P1 = "[NULL] @ vs @ [NULL] @ rev as"
  let ?P = "?P1 @ [mid + 4, of_nat (length as)]"
  have lP: "length ?P = ?L + 4" by simp
  have one: "fold push_word (rev as) (push_word NULL (fold push_word vs (push_word NULL (low, m)))) = (mid, push_mem low ?P1 m)"
    using fold_push [of ?P1 low m] by (simp add: mid_def)
  have "push_word (of_nat (length as)) (push_word (mid + 4) (fold push_word ?P1 (low, m))) = fold push_word ?P (low, m)" by simp
  then have two: "push_word (of_nat (length as)) (push_word (mid + 4) (mid, push_mem low ?P1 m)) = (e, push_mem low ?P m)"
    using one fold_push [of ?P low m] lP by (simp add: e_def)
  have "load_word (push_mem low ?P m) (e + 4 + 4 * of_nat i) = ([of_nat (length as), e + 12] @ as @ [NULL] @ rev vs @ [NULL]) ! i"
    if "i < ?L + 4" for i
  proof -
    have "mid + 4 = e + 12" by (simp add: mid_def e_def)
    then have "rev ?P = [of_nat (length as), e + 12] @ as @ [NULL] @ rev vs @ [NULL]" by simp
    moreover have "length ?P - Suc i = ?L + 3 - i" using lP by linarith
    then have "rev ?P ! i = ?P ! (?L + 3 - i)" using rev_nth [of i ?P] that [folded lP] by metis
    moreover have "load_word (push_mem low ?P m) (low - 4 * of_nat (?L + 3 - i)) = ?P ! (?L + 3 - i)"
      using assms(1) lP that by (intro push_mem_nth) auto
    moreover have "low - 4 * of_nat (?L + 3 - i) = e + 4 + 4 * of_nat i"
      using that by (simp add: of_nat_diff e_def algebra_simps)
    ultimately show ?thesis by metis
  qed
  moreover have "push_mem low ?P m (low + 4 + of_nat j) = m (low + 4 + of_nat j)" if "j + 4 * (?L + 4) < 4294967296" for j
    using that unfolding lP [symmetric] by (rule push_mem_above)
  ultimately show ?thesis using one two by blast
qed

text \<open>The text of the command line in the memory, cut into words.\<close>

lemma text_words:
  fixes ws :: "(u8 list \<times> u8 list) list"
  defines "line \<equiv> concat (map encode ws)"
  assumes "\<forall>x\<in>set ws. word_ok x" "length ws \<le> 128" "length line < 65536"
  shows "\<exists>m'. find_words (store_bytes a (line @ [0]) m) a [] = Some (spans a 0 ws) \<and>
    store_bytes a (line @ [0]) m (a + of_nat (length line)) = 0 \<and>
    strip_words (spans a 0 ws) (store_bytes a (line @ [0]) m) = Some m' \<and> stripped m' a 0 ws \<and>
    (\<forall>n < 4294967296. length line < n \<longrightarrow> m' (a + of_nat n) = m (a + of_nat n))"
proof -
  let ?m1 = "store_bytes a (line @ [0]) m"
  have t: "text_at ?m1 a 0 (line @ [0])" using assms(4) by (intro store_bytes_text) auto
  then have "find_words ?m1 a [] = Some (spans a 0 ws)" "?m1 (a + of_nat (length line)) = 0"
    using find_words_text [of ?m1 a 0 ws "[]"] assms(2,3) by (simp_all add: line_def)
  moreover obtain m' where "strip_words (spans a 0 ws) ?m1 = Some m'" "stripped m' a 0 ws"
    "\<forall>n < 4294967296. length line \<le> n \<longrightarrow> m' (a + of_nat n) = ?m1 (a + of_nat n)"
    using strip_words_text [of ?m1 a 0 ws] t assms(2,4) by (auto simp: line_def)
  moreover have "?m1 (a + of_nat n) = m (a + of_nat n)" if "n < 4294967296" "length line < n" for n
    using that by (simp add: store_bytes_def unat_of_nat_id)
  ultimately show ?thesis by auto
qed

text \<open>Addresses between two bounds that are \<open>K\<close> bytes apart, around the end of the address space.\<close>

lemma outside_bounds:
  fixes x t b :: u32
  assumes "x - t < b - t" "t = b + of_nat K" "0 < K" "K < 4294967296"
  shows "\<exists>n. x = t + of_nat n \<and> n + K < 4294967296"
proof -
  have "b - t = of_nat (4294967296 - K)" using assms(2-4) by (simp add: of_nat_diff)
  then have "unat (b - t) = 4294967296 - K" using assms(3) by (simp add: unat_of_nat_id)
  moreover have "unat (x - t) < unat (b - t)" using assms(1) by (simp add: word_less_nat_alt)
  ultimately have "unat (x - t) + K < 4294967296" using assms(4) by linarith
  then show ?thesis by (intro exI [of _ "unat (x - t)"]) simp
qed

text \<open>The steps of the loader put together.\<close>

lemma resolve_commands_steps:
  assumes "strlen command = Some (of_nat n)" "n < 65536" "a = pl3_stack_top - (of_nat n + 1)" "low = (a AND NOT 3) - 4"
    and "store_bytes a (take (n + 1) command) m (a + of_nat n) = 0" "find_words (store_bytes a (take (n + 1) command) m) a [] = Some st"
    and "strip_words st (store_bytes a (take (n + 1) command) m) = Some m1" "find_executable m1 (map fst st) 0 = Some x"
    and "fold push_word (rev (drop x (map fst st))) (push_word NULL (fold push_word (take x (map fst st)) (push_word NULL (low, m1)))) = (mid, mX)"
    and "push_word (of_nat (length st) - of_nat x) (push_word (mid + 4) (mid, mX)) = (e, m2)" "e AND 3 = 0"
  shows "resolve_commands pl3_stack_top command m = Some (e, map fst st ! x, m2)"
proof -
  have "unat (of_nat n :: u32) = n" using assms(2) by (simp add: unat_of_nat_id)
  moreover have "pl3_stack_top - 1 = a + of_nat n" "(a AND - 4) - 4 = low" using assms(3,4) by simp_all
  ultimately show ?thesis using assms(1,5-10) align_even [OF assms(11)]
    by (simp add: resolve_commands_def case_prod_beta Let_def flip: assms(3))
qed

text \<open>The loader on a command line of variables and arguments.\<close>

lemma resolve_commands_words:
  fixes vars args :: "(u8 list \<times> u8 list) list"
  defines "line \<equiv> concat (map encode (vars @ args))"
  assumes ok: "\<forall>x\<in>set (vars @ args). word_ok x" "length (vars @ args) \<le> 128"
    and eq: "\<forall>x\<in>set vars. EQUALS \<in> set (word_text x)" "args \<noteq> []" "EQUALS \<notin> set (word_text (hd args))"
    and len: "length line < 65536"
  shows "\<exists>e vs as m'. resolve_commands pl3_stack_top (line @ 0 # rest) m = Some (e, hd as, m') \<and> e AND 3 = 0 \<and>
    list_all2 (\<lambda>s x. read_str m' s = Some (word_text x @ [0])) (vs @ as) (vars @ args) \<and> length vs = length vars \<and>
    (\<forall>i < length vars + length args + 4.
      load_word m' (e + 4 + 4 * of_nat i) = ([of_nat (length args), e + 12] @ as @ [NULL] @ rev vs @ [NULL]) ! i) \<and>
    (\<forall>x. x - pl3_stack_top < e + 4 - pl3_stack_top \<longrightarrow> m' x = m x)"
proof -
  let ?ws = "vars @ args" and ?n = "length line" and ?L = "length vars + length args"
  define a where "a = pl3_stack_top - (of_nat (length line) + 1)"
  define low where "low = (a AND NOT 3) - 4"
  obtain d where d: "d < 4" "a = low + 4 + of_nat d" using word_below [of a] by (auto simp: low_def)
  let ?st = "spans a 0 ?ws"
  let ?vs = "take (length vars) (map fst ?st)" and ?as = "drop (length vars) (map fst ?st)"
  have lens: "length ?vs = length vars" "length ?as = length args" by simp_all
  obtain m1 where m1: "find_words (store_bytes a (line @ [0]) m) a [] = Some ?st"
    "store_bytes a (line @ [0]) m (a + of_nat ?n) = 0" "strip_words ?st (store_bytes a (line @ [0]) m) = Some m1"
    "stripped m1 a 0 ?ws" "\<forall>n < 4294967296. ?n < n \<longrightarrow> m1 (a + of_nat n) = m (a + of_nat n)"
    using text_words [OF ok len [unfolded line_def], of a m] unfolding line_def by blast
  define mid where "mid = low - 4 * of_nat (?L + 2)"
  define e where "e = low - 4 * of_nat (?L + 4)"
  obtain mX m2 where p: "fold push_word (rev ?as) (push_word NULL (fold push_word ?vs (push_word NULL (low, m1)))) = (mid, mX)"
    "push_word (of_nat (length args)) (push_word (mid + 4) (mid, mX)) = (e, m2)"
    "\<forall>j. j + 4 * (?L + 4) < 4294967296 \<longrightarrow> m2 (low + 4 + of_nat j) = m1 (low + 4 + of_nat j)"
    "\<forall>i < ?L + 4. load_word m2 (e + 4 + 4 * of_nat i) = ([of_nat (length args), e + 12] @ ?as @ [NULL] @ rev ?vs @ [NULL]) ! i"
    using pushed_block [of ?vs ?as low m1] ok(2) unfolding lens mid_def e_def by auto
  have keep: "m2 (a + of_nat n) = m1 (a + of_nat n)" if "n + d + 4 * (?L + 4) < 4294967296" for n
    using p(3) [rule_format, of "n + d"] that by (simp add: d(2) algebra_simps)
  have "stripped m2 a 0 ?ws" using m1(4) by (rule stripped_cong) (use keep d(1) ok(2) len in \<open>simp add: line_def\<close>)
  note words = stripped_words [OF this ok(1)]
  have al: "e AND 3 = 0" using word_align [of a "of_nat (?L + 4) + 1"] by (simp add: e_def low_def algebra_simps)
  have "resolve_commands pl3_stack_top (line @ 0 # rest) m = Some (e, hd ?as, m2)"
  proof -
    have "0 \<notin> set line" using ok(1) by (auto simp: line_def encode_def word_ok_def plain_def)
    then have sl: "strlen (line @ 0 # rest) = Some (of_nat ?n)" using strlen_eq cstr_of_string by metis
    have fe: "find_executable m1 (map fst ?st) 0 = Some (length vars)"
      using find_executable_word [OF stripped_words [OF m1(4) ok(1)] ok(1) eq] by simp
    have "map fst ?st ! length vars = hd ?as" using eq(2) by (simp add: hd_drop_conv_nth)
    then show ?thesis using resolve_commands_steps [OF sl len a_def low_def _ _ _ fe p(1), of m e m2] m1(1-3) p(2) al by simp
  qed
  moreover have "m2 x = m x" if x: "x - pl3_stack_top < e + 4 - pl3_stack_top" for x
  proof -
    let ?K = "d + ?n + 1 + 4 * (?L + 4)"
    have "pl3_stack_top = a + of_nat (?n + 1)" by (simp add: a_def)
    then have "pl3_stack_top = (e + 4) + of_nat ?K" by (simp add: d(2) e_def)
    then obtain n where n: "x = a + of_nat (?n + 1 + n)" "n + ?K < 4294967296"
      using outside_bounds [OF x, of ?K] d(1) ok(2) len \<open>pl3_stack_top = a + of_nat (?n + 1)\<close> by auto
    then show ?thesis using keep [of "?n + 1 + n"] m1(5) [rule_format, of "?n + 1 + n"] unfolding n(1) by simp
  qed
  ultimately show ?thesis using al words p(4)
    by (intro exI [of _ e] exI [of _ ?vs] exI [of _ ?as] exI [of _ m2]) simp
qed

subsection \<open>The command line of a system call\<close>

definition env_string :: "u8 list \<times> u8 list \<Rightarrow> u8 list" where
  "env_string = (\<lambda>(n, v). n @ EQUALS # v @ [0])"

definition env_ok :: "u8 list \<times> u8 list \<Rightarrow> bool" where
  "env_ok = (\<lambda>(n, v). plain n \<and> plain v \<and> BLANK \<notin> set n \<and> EQUALS \<notin> set n \<and> EQUALS \<notin> set v)"

definition env_word :: "u8 list \<times> u8 list \<Rightarrow> u8 list \<times> u8 list" where
  "env_word = (\<lambda>(n, v). (n @ [EQUALS], v))"

lemma put_byte_sprintf: "put_byte = sprintf_lambda_func"
  by (rule ext) (simp add: put_byte_def sprintf_lambda_func_def)

lemma sink_fun: "sink_all f [] = Some" "sink_all f (c # xs) = (\<lambda>s. do { s \<leftarrow> f c s; sink_all f xs s })" "sink_all f [c] = f c"
proof -
  show nil: "sink_all f [] = Some" by (rule ext) simp
  show "sink_all f (c # xs) = (\<lambda>s. do { s \<leftarrow> f c s; sink_all f xs s })" by (rule ext) simp
  show "sink_all f [c] = f c" by (rule ext) (simp add: nil)
qed

lemma sink_append_fun: "sink_all f (xs @ ys) = (\<lambda>s. do { s \<leftarrow> sink_all f xs s; sink_all f ys s })"
  by (rule ext) (rule sink_all_append)

lemma put_arg_word: "0 \<notin> set a \<Longrightarrow> put_arg (a @ [0]) = sink_all put_byte (a @ [APOSTROPHE, BLANK])"
  by (induction a) (auto intro!: ext simp: sink_fun simp del: sink_all.simps)

lemma put_env_plain: "0 \<notin> set v \<Longrightarrow> EQUALS \<notin> set v \<Longrightarrow> put_env (v @ [0]) = sink_all put_byte (v @ [APOSTROPHE, BLANK])"
  by (induction v) (auto intro!: ext simp: sink_fun simp del: sink_all.simps)

lemma put_env_word: "env_ok x \<Longrightarrow> put_env (env_string x) = sink_all put_byte (encode (env_word x))"
proof (cases x)
  case (Pair n v)
  assume "env_ok x"
  then have "0 \<notin> set n" "EQUALS \<notin> set n" "0 \<notin> set v" "EQUALS \<notin> set v" by (auto simp: Pair env_ok_def plain_def)
  then have "put_env (n @ EQUALS # v @ [0]) = sink_all put_byte (n @ EQUALS # APOSTROPHE # v @ [APOSTROPHE, BLANK])"
    by (induction n) (auto intro!: ext simp: sink_fun put_env_plain simp del: sink_all.simps)
  then show ?thesis by (simp add: Pair env_string_def env_word_def encode_def)
qed

lemma put_envs_words:
  "\<forall>x\<in>set env. env_ok x \<Longrightarrow> put_envs (map env_string env) = sink_all put_byte (concat (map encode (map env_word env)))"
  by (induction env) (auto intro!: ext simp: put_env_word sink_all_append)

lemma put_args_words:
  "\<forall>a\<in>set argv. plain a \<Longrightarrow> put_args (map (\<lambda>a. a @ [0]) argv) = sink_all put_byte (concat (map encode (map (Pair []) argv)))"
  by (induction argv) (auto simp: put_arg_word sink_append_fun sink_fun encode_def plain_def simp del: sink_all.simps)

lemma compose_command_words:
  assumes "\<forall>x\<in>set env. env_ok x" "\<forall>a\<in>set argv. plain a"
  defines "line \<equiv> concat (map encode (map env_word env @ map (Pair []) argv))"
  assumes "length line < 256"
  shows "compose_command (map (\<lambda>a. a @ [0]) argv) (map env_string env) = Some (line @ 0 # replicate (255 - length line) 0)"
proof -
  have "sink_all put_byte line (replicate 256 0, int 0) = Some (line @ drop (length line) (replicate 256 0), int (length line))"
    using sprintf_sink(1) [of 0 line "replicate 256 0"] assms(4) by (simp add: put_byte_sprintf)
  moreover have "drop (length line) (replicate 256 0) = (0 :: u8) # replicate (255 - length line) 0"
    using assms(4) by (simp add: drop_replicate Suc_diff_le flip: replicate_Suc)
  ultimately show ?thesis
    using put_envs_words [OF assms(1)] put_args_words [OF assms(2)]
    by (auto simp: compose_command_def line_def sink_all_append bind_eq_Some_conv)
qed

lemma length_words: "3 * length ws \<le> length (concat (map encode ws))"
  by (induction ws) (auto simp: encode_def)

lemma execve_words:
  assumes "argv \<noteq> []" "\<forall>a\<in>set argv. plain a" "EQUALS \<notin> set (hd argv)" "\<forall>x\<in>set env. env_ok x"
    and "(\<Sum>(n, v) \<leftarrow> env. length n + length v + 4) + (\<Sum>a \<leftarrow> argv. length a + 3) < 256"
  shows "\<exists>command e vs as m'. compose_command (map (\<lambda>a. a @ [0]) argv) (map env_string env) = Some command \<and>
    resolve_commands pl3_stack_top command m = Some (e, hd as, m') \<and> e AND 3 = 0 \<and>
    list_all2 (\<lambda>s x. read_str m' s = Some (word_text x @ [0])) (vs @ as) (map env_word env @ map (Pair []) argv) \<and>
    length vs = length env \<and>
    (\<forall>i < length env + length argv + 4.
      load_word m' (e + 4 + 4 * of_nat i) = ([of_nat (length argv), e + 12] @ as @ [NULL] @ rev vs @ [NULL]) ! i) \<and>
    (\<forall>x. x - pl3_stack_top < e + 4 - pl3_stack_top \<longrightarrow> m' x = m x)"
proof -
  let ?vars = "map env_word env" and ?args = "map (Pair []) argv"
  let ?line = "concat (map encode (?vars @ ?args))"
  have "length (concat (map encode ?vars)) = (\<Sum>(n, v) \<leftarrow> env. length n + length v + 4)"
    by (induction env) (auto simp: encode_def env_word_def)
  moreover have "length (concat (map encode ?args)) = (\<Sum>a \<leftarrow> argv. length a + 3)"
    by (induction argv) (auto simp: encode_def)
  ultimately have len: "length ?line < 256" using assms(5) by simp
  have ok: "\<forall>x\<in>set (?vars @ ?args). word_ok x"
    using assms(2,4) by (fastforce simp: word_ok_def env_word_def env_ok_def plain_def)
  have eq: "\<forall>x\<in>set ?vars. EQUALS \<in> set (word_text x)" by (auto simp: env_word_def word_text_def)
  have pre: "length (?vars @ ?args) \<le> 128" "?args \<noteq> []" "EQUALS \<notin> set (word_text (hd ?args))" "length ?line < 65536"
    using len length_words [of "?vars @ ?args"] assms(1,3) by (auto simp: word_text_def hd_map)
  have "compose_command (map (\<lambda>a. a @ [0]) argv) (map env_string env) = Some (?line @ 0 # replicate (255 - length ?line) 0)"
    by (rule compose_command_words [OF assms(4,2) len])
  then show ?thesis
    using resolve_commands_words [OF ok pre(1) eq pre(2-4), of pl3_stack_top "replicate (255 - length ?line) 0" m]
    unfolding length_map by blast
qed

text \<open>C38. The arguments and the environment of a program survive the way through its command line. For arguments
  and variables that fit into the command line and have no quotation marks in them (a name of a variable no blank
  either, and a value no equals sign), the command line that \<^verbatim>\<open>call_sys_execve\<close> composes is cut by the loader into exactly these words:
  the new program finds on its stack the number of arguments, the array of arguments with its null pointer, and
  the variables in reverse order with a null pointer; blanks within arguments and values are kept. Pointers and
  strings are read from the one memory of bytes as it is at the end, so the words that are pushed damage neither the text
  nor each other; and no byte outside the block from the number of arguments up to the top of the stack is changed.\<close>

theorem execve_passes_arguments:
  assumes "argv \<noteq> []" "\<forall>a\<in>set argv. plain a" "EQUALS \<notin> set (hd argv)" "\<forall>x\<in>set env. env_ok x"
    and "(\<Sum>(n, v) \<leftarrow> env. length n + length v + 4) + (\<Sum>a \<leftarrow> argv. length a + 3) < 256"
  shows "\<exists>command e program m'.
    compose_command (map (\<lambda>a. a @ [0]) argv) (map env_string env) = Some command \<and>
    resolve_commands pl3_stack_top command m = Some (e, program, m') \<and> e AND 3 = 0 \<and>
    read_str m' program = Some (hd argv @ [0]) \<and>
    load_word m' (e + 4) = of_nat (length argv) \<and> load_word m' (e + 8) = e + 12 \<and>
    (\<forall>i < length argv. read_str m' (load_word m' (e + 12 + 4 * of_nat i)) = Some (argv ! i @ [0])) \<and>
    load_word m' (e + 12 + 4 * of_nat (length argv)) = NULL \<and>
    (\<forall>i < length env. read_str m' (load_word m' (e + 16 + 4 * of_nat (length argv + i))) = Some (env_string (rev env ! i))) \<and>
    load_word m' (e + 16 + 4 * of_nat (length argv + length env)) = NULL \<and>
    (\<forall>x. x - pl3_stack_top < e + 4 - pl3_stack_top \<longrightarrow> m' x = m x)"
proof -
  let ?vars = "map env_word env" and ?args = "map (Pair []) argv"
  obtain command e vs as m' where c: "compose_command (map (\<lambda>a. a @ [0]) argv) (map env_string env) = Some command"
    and r: "resolve_commands pl3_stack_top command m = Some (e, hd as, m')"
      "e AND 3 = 0" "list_all2 (\<lambda>s x. read_str m' s = Some (word_text x @ [0])) (vs @ as) (?vars @ ?args)" "length vs = length env"
      "\<forall>i < length env + length argv + 4.
        load_word m' (e + 4 + 4 * of_nat i) = ([of_nat (length argv), e + 12] @ as @ [NULL] @ rev vs @ [NULL]) ! i"
      "\<forall>x. x - pl3_stack_top < e + 4 - pl3_stack_top \<longrightarrow> m' x = m x"
    using execve_words [OF assms] by blast
  have vs: "list_all2 (\<lambda>s x. read_str m' s = Some (word_text x @ [0])) vs ?vars"
    and as: "list_all2 (\<lambda>s x. read_str m' s = Some (word_text x @ [0])) as ?args"
    using r(3,4) by (simp_all add: list_all2_append)
  have len2: "length as = length argv" using as by (auto dest: list_all2_lengthD)
  have arg: "read_str m' (as ! i) = Some (argv ! i @ [0])" if "i < length argv" for i
    using list_all2_nthD2 [OF as, of i] that by (simp add: word_text_def)
  have var: "read_str m' (rev vs ! i) = Some (env_string (rev env ! i))" if "i < length env" for i
    using list_all2_nthD2 [OF vs, of "length env - Suc i"] that r(4)
    by (simp add: rev_nth word_text_def env_word_def env_string_def split: prod.splits)
  have cell: "load_word m' (e + 4 + 4 * of_nat i) = ([of_nat (length argv), e + 12] @ as @ [NULL] @ rev vs @ [NULL]) ! i"
    if "i < length env + length argv + 4" for i using r(5) that by blast
  have "load_word m' (e + 4) = of_nat (length argv)" "load_word m' (e + 8) = e + 12" using cell [of 0] cell [of 1] by (simp_all add: add.commute)
  moreover have "load_word m' (e + 12 + 4 * of_nat i) = as ! i" if "i < length argv" for i
    using cell [of "i + 2"] that len2 by (simp add: nth_append algebra_simps)
  moreover have "load_word m' (e + 12 + 4 * of_nat (length argv)) = NULL"
    using cell [of "length argv + 2"] len2 by (simp add: nth_append algebra_simps)
  moreover have "load_word m' (e + 16 + 4 * of_nat (length argv + i)) = rev vs ! i" if "i < length env" for i
    using cell [of "length argv + i + 3"] that len2 r(4) by (simp add: nth_append algebra_simps numeral_3_eq_3)
  moreover have "load_word m' (e + 16 + 4 * of_nat (length argv + length env)) = NULL"
    using cell [of "length argv + length env + 3"] len2 r(4) by (simp add: nth_append algebra_simps numeral_3_eq_3)
  moreover have "read_str m' (hd as) = Some (hd argv @ [0])" using arg [of 0] assms(1) len2 by (cases as; cases argv) auto
  ultimately show ?thesis using c r(1,2,6) arg var by auto
qed

text \<open>A shell that starts \<^verbatim>\<open>ls "a b"\<close> with the variable \<^verbatim>\<open>HOME=/\<close>.\<close>

theorem execve_passes_arguments_witness:
  "\<exists>command e program m'.
    compose_command [c_lit ''ls'', c_lit ''a b''] [c_lit ''HOME=/''] = Some command \<and>
    resolve_commands 0x9ffffff0 command (\<lambda>_. 0) = Some (e, program, m') \<and>
    load_word m' (e + 4) = 2 \<and> read_str m' (load_word m' (e + 16)) = Some (c_lit ''a b'') \<and> read_str m' (load_word m' (e + 24)) = Some (c_lit ''HOME=/'')"
proof -
  let ?argv = "[map of_char ''ls'', map of_char ''a b''] :: u8 list list"
  let ?env = "[(map of_char ''HOME'', map of_char ''/'')] :: (u8 list \<times> u8 list) list"
  have "?argv \<noteq> []" "\<forall>a\<in>set ?argv. plain a" "EQUALS \<notin> set (hd ?argv)" "\<forall>x\<in>set ?env. env_ok x"
    "(\<Sum>(n, v) \<leftarrow> ?env. length n + length v + 4) + (\<Sum>a \<leftarrow> ?argv. length a + 3) < 256"
    by (simp_all add: plain_def env_ok_def)
  from execve_passes_arguments [OF this, of "0x9ffffff0" "\<lambda>_. 0"] show ?thesis
    by (auto simp: c_lit_def env_string_def All_less_Suc add.commute)
qed

end
