(* ===== verification/Work_Queue.thy ===== *)
theory Work_Queue
  imports Syscalls
begin

section \<open>Work queues (\<^verbatim>\<open>kernel/work_queue.c\<close>)\<close>

text \<open>
  A work queue is a kernel task that sleeps until it is notified and then calls its function. The state is the kernel, the
  memory of work queues, and what the function works on. The body of the task is split at the place where it gives up the
  processor. \<open>code\<close> is the function at an address.
\<close>

record work_queue =
  to_terminate :: u32
  wq_blob :: addr
  do_work :: u32

definition work_queue_head :: "addr \<Rightarrow> addr" where "work_queue_head w = w + 4"

type_synonym 's work_state = "kernel \<times> (addr \<Rightarrow> work_queue) \<times> 's"

text \<open>The body runs until it waits, with the saved frame pointers as its result, or until it ends.\<close>

definition work_queue_loop :: "addr \<Rightarrow> 's work_state \<Rightarrow> ((addr \<times> addr) option \<times> 's work_state) option" where
  "work_queue_loop w = (\<lambda>(k, ws, s).
     if to_terminate (ws w) \<noteq> 0
     then do {
       (_, k) \<leftarrow> signal_task (current k) SIGCONT k;
       (_, k) \<leftarrow> signal_task (current k) SIGQUIT k;
       Some (None, k, ws, s)
     }
     else do {
       k \<leftarrow> transit_state (current k) TASK_STATE_INTERRUPTIBLE k;
       saved \<leftarrow> yield_cpu_enter k;
       Some (Some saved, k, ws, s)
     })"

definition work_queue_top_level_body ::
    "addr \<Rightarrow> 's work_state \<Rightarrow> ((addr \<times> addr) option \<times> 's work_state) option" where
  "work_queue_top_level_body wait = (\<lambda>(k, ws, s). do {
     kassert (current k \<noteq> NULL);
     let w = priv (tasks k (current k));
     kassert (w \<noteq> NULL);
     let k = initialize_wait_queue_entry wait (current k) k;
     k \<leftarrow> add_wait_queue_entry (work_queue_head w) wait k;
     work_queue_loop w (k, ws, s)
   })"

definition work_queue_resume ::
    "(u32 \<Rightarrow> addr \<Rightarrow> 's work_state \<Rightarrow> 's work_state option) \<Rightarrow> addr \<Rightarrow> addr \<times> addr \<Rightarrow> 's work_state \<Rightarrow>
      ((addr \<times> addr) option \<times> 's work_state) option" where
  "work_queue_resume code w saved = (\<lambda>(k, ws, s). do {
     k \<leftarrow> yield_cpu_leave saved k;
     if to_terminate (ws w) \<noteq> 0 then work_queue_loop w (k, ws, s)
     else do {
       s \<leftarrow> code (do_work (ws w)) (wq_blob (ws w)) (k, ws, s);
       work_queue_loop w s
     }
   })"

text \<open>\<open>body\<close> is the address of \<^verbatim>\<open>work_queue_top_level_body\<close>.\<close>

definition register_work_queue :: "u32 \<Rightarrow> addr \<Rightarrow> u8 list \<Rightarrow> kernel \<Rightarrow> (int \<times> kernel) option" where
  "register_work_queue body w wq_name k = do {
     (_, task_name) \<leftarrow> sprintf (replicate 256 0) (c_lit ''wq:%s'') [VStr wq_name];
     (result, t, k) \<leftarrow> create_kernel_task body task_name k;
     if result = OK
     then do {
       k \<leftarrow> task_put t (upd_task t (\<lambda>x. x\<lparr>priv := w\<rparr>) k);
       Some (result, k)
     }
     else Some (result, k)
   }"

definition notify_work_queue :: "addr \<Rightarrow> kernel \<times> (addr \<Rightarrow> work_queue) \<Rightarrow> (int \<times> kernel) option" where
  "notify_work_queue w = (\<lambda>(k, ws).
     if to_terminate (ws w) \<noteq> 0 then Some (- ERR_BUSY, k)
     else do { k \<leftarrow> wake_up (work_queue_head w) k; Some (OK, k) })"

definition terminate_work_queue ::
    "addr \<Rightarrow> kernel \<times> (addr \<Rightarrow> work_queue) \<Rightarrow> (int \<times> kernel \<times> (addr \<Rightarrow> work_queue)) option" where
  "terminate_work_queue w = (\<lambda>(k, ws).
     if to_terminate (ws w) \<noteq> 0 then Some (- ERR_BUSY, k, ws)
     else do {
       (r, k) \<leftarrow> notify_work_queue w (k, ws);
       kassert (r = OK);
       Some (OK, k, ws(w := (ws w)\<lparr>to_terminate := 1\<rparr>))
     })"

end
