(* ===== verification/Net_Packet.thy ===== *)
theory Net_Packet
  imports Work_Queue File_Systems
begin

section \<open>Network packets (\<^verbatim>\<open>network/net_packet.c\<close>)\<close>

text \<open>
  A packet is half a page: a header, and room in which the payload may grow to both sides. Free packets are in a
  list; the list cell is the first member of the header. The arguments that say how many bytes to add or remove are signed, the
  fields are unsigned words, and the comparisons are unsigned as in the code.
\<close>

abbreviation (input) NET_PACKET_TOTAL_SIZE :: u32 where "NET_PACKET_TOTAL_SIZE \<equiv> 2048"
abbreviation (input) PACKET_HEADER_SIZE :: u32 where "PACKET_HEADER_SIZE \<equiv> 28"
abbreviation (input) INITIAL_HEADER_ROOM_SIZE :: u32 where "INITIAL_HEADER_ROOM_SIZE \<equiv> 156"
abbreviation (input) MINIMAL_HEADER_ROOM_SIZE :: u32 where "MINIMAL_HEADER_ROOM_SIZE \<equiv> 28"
abbreviation (input) DEFAULT_NET_PACKET_AMOUNT :: nat where "DEFAULT_NET_PACKET_AMOUNT \<equiv> 8192"

record packet =
  packet_paddr :: u32
  payload_offset :: u32
  payload_length :: u32
  pkt_paddr :: u32
  pkt_len :: u16
  pkt_device_index :: u16

record packet_pool =
  packets :: "addr \<Rightarrow> packet"
  packet_pool_base :: addr
  packet_pool_head :: addr

definition upd_packet :: "addr \<Rightarrow> (packet \<Rightarrow> packet) \<Rightarrow> packet_pool \<Rightarrow> packet_pool" where
  "upd_packet pkt f n = n\<lparr>packets := (packets n)(pkt := f (packets n pkt))\<rparr>"

definition packet_reset :: "addr \<Rightarrow> kernel \<Rightarrow> packet_pool \<Rightarrow> packet_pool" where
  "packet_reset pkt k = upd_packet pkt (\<lambda>p. p\<lparr>packet_paddr := virt2phy (pmem (pg k)) (kernel_page_directory (pg k)) pkt,
     payload_offset := INITIAL_HEADER_ROOM_SIZE, payload_length := 0\<rparr>)"

definition get_packet :: "kernel \<times> packet_pool \<Rightarrow> (addr \<times> kernel \<times> packet_pool) option" where
  "get_packet = (\<lambda>(k, n).
     if \<not> list_empty (lists k) (packet_pool_head n)
     then do {
       (pkt, h) \<leftarrow> list_fetch (lists k) (packet_pool_head n);
       kassert (pkt \<noteq> NULL);
       let k = k\<lparr>lists := h\<rparr>;
       Some (pkt, k, packet_reset pkt k n)
     }
     else Some (NULL, k, n))"

definition put_packet :: "addr \<Rightarrow> kernel \<times> packet_pool \<Rightarrow> (kernel \<times> packet_pool) option" where
  "put_packet pkt = (\<lambda>(k, n). do {
     present \<leftarrow> element_in_list (lists k) (packet_pool_head n) pkt;
     if \<not> present then do { h \<leftarrow> list_append (lists k) (packet_pool_head n) pkt; Some (k\<lparr>lists := h\<rparr>, n) }
     else Some (k, n)
   })"

definition packet_extend_left :: "u32 \<Rightarrow> packet \<Rightarrow> int \<times> packet" where
  "packet_extend_left nr_room p =
     (if payload_offset p - nr_room < MINIMAL_HEADER_ROOM_SIZE then (- ERR_INVALID_ARG, p)
      else (OK, p\<lparr>payload_offset := payload_offset p - nr_room, payload_length := payload_length p + nr_room\<rparr>))"

definition packet_extend_right :: "u32 \<Rightarrow> packet \<Rightarrow> int \<times> packet" where
  "packet_extend_right nr_room p =
     (if payload_offset p + (payload_length p + nr_room) > NET_PACKET_TOTAL_SIZE then (- ERR_INVALID_ARG, p)
      else (OK, p\<lparr>payload_length := payload_length p + nr_room\<rparr>))"

definition packet_shrink_left :: "u32 \<Rightarrow> packet \<Rightarrow> int \<times> packet" where
  "packet_shrink_left nr_room p =
     (if nr_room > payload_length p then (- ERR_INVALID_ARG, p)
      else (OK, p\<lparr>payload_offset := payload_offset p + nr_room, payload_length := payload_length p - nr_room\<rparr>))"

definition packet_shrink_right :: "u32 \<Rightarrow> packet \<Rightarrow> int \<times> packet" where
  "packet_shrink_right nr_room p =
     (if nr_room > payload_length p then (- ERR_INVALID_ARG, p)
      else (OK, p\<lparr>payload_length := payload_length p - nr_room\<rparr>))"

definition pool_add :: "nat \<Rightarrow> kernel \<times> packet_pool \<Rightarrow> (kernel \<times> packet_pool) option" where
  "pool_add idx = (\<lambda>(k, n). do {
     let pkt = packet_pool_base n + of_nat idx * NET_PACKET_TOTAL_SIZE;
     let k = k\<lparr>lists := list_init (lists k) pkt\<rparr>;
     h \<leftarrow> list_append (lists k) (packet_pool_head n) pkt;
     Some (k\<lparr>lists := h\<rparr>, packet_reset pkt k n)
   })"

definition packet_pool_init :: "kernel \<times> packet_pool \<Rightarrow> (kernel \<times> packet_pool) option" where
  "packet_pool_init = (\<lambda>(k, n). do {
     (base, k) \<leftarrow> malloc_align_mapped (int DEFAULT_NET_PACKET_AMOUNT * 2048) 4096 k;
     kassert (base \<noteq> NULL);
     let n = n\<lparr>packet_pool_base := base\<rparr>;
     let k = k\<lparr>lists := list_init (lists k) (packet_pool_head n)\<rparr>;
     fold (\<lambda>idx s. do { s \<leftarrow> s; pool_add idx s }) [0..<DEFAULT_NET_PACKET_AMOUNT] (Some (k, n))
   })"

subsection \<open>The payload stays in the packet\<close>

definition packet_ok :: "packet \<Rightarrow> bool" where
  "packet_ok p \<longleftrightarrow> MINIMAL_HEADER_ROOM_SIZE \<le> payload_offset p \<and>
     unat (payload_offset p) + unat (payload_length p) \<le> unat NET_PACKET_TOTAL_SIZE"

lemma packet_reset_ok: "packet_ok (packets (packet_reset pkt k n) pkt)"
  by (simp add: packet_ok_def packet_reset_def upd_packet_def)

lemma unat_add_le: "unat a + unat b \<le> 4096 \<Longrightarrow> unat (a + b :: u32) = unat a + unat b"
  by (simp add: unat_word_ariths)

lemma packet_shrink_ok:
  assumes "packet_ok p"
  shows "packet_ok (snd (packet_shrink_left n p))" "packet_ok (snd (packet_shrink_right n p))"
proof -
  have l: "unat (payload_length p - n) = unat (payload_length p) - unat n" if "n \<le> payload_length p"
    using that by (simp add: unat_sub)
  have "unat (payload_offset p + n) = unat (payload_offset p) + unat n" if "n \<le> payload_length p"
    using that assms by (intro unat_add_le) (simp add: packet_ok_def word_le_nat_alt)
  then show "packet_ok (snd (packet_shrink_left n p))" "packet_ok (snd (packet_shrink_right n p))"
    using l assms by (auto simp: packet_ok_def packet_shrink_left_def packet_shrink_right_def word_le_nat_alt not_less)
qed

lemma packet_extend_right_ok:
  assumes "packet_ok p" "unat n \<le> 2048"
  shows "packet_ok (snd (packet_extend_right n p))"
proof -
  have l: "unat (payload_length p + n) = unat (payload_length p) + unat n"
    using assms by (intro unat_add_le) (simp add: packet_ok_def)
  have "unat (payload_offset p + (payload_length p + n)) = unat (payload_offset p) + unat (payload_length p + n)"
    using assms l by (intro unat_add_le) (simp add: packet_ok_def)
  then show ?thesis using assms(1) by (auto simp: packet_ok_def packet_extend_right_def word_less_nat_alt not_less)
qed

text \<open>Extension to the left checks only that the new offset is not too small, and computes it modulo \<open>2 ^ 32\<close>: a
  request for more than the whole offset is accepted.\<close>

lemma packet_extend_left_ok:
  assumes "packet_ok p" "unat n \<le> unat (payload_offset p)"
  shows "packet_ok (snd (packet_extend_left n p))"
proof -
  have "unat (payload_offset p - n) = unat (payload_offset p) - unat n" using assms(2) by (simp add: unat_sub word_le_nat_alt)
  moreover have "unat (payload_length p + n) = unat (payload_length p) + unat n"
    using assms by (intro unat_add_le) (simp add: packet_ok_def)
  ultimately show ?thesis using assms by (auto simp: packet_ok_def packet_extend_left_def word_le_nat_alt not_less)
qed

lemma packet_extend_left_wraps:
  assumes "payload_offset p < n" "n \<le> 0x7fffffff"
  shows "fst (packet_extend_left n p) = OK" "\<not> packet_ok (snd (packet_extend_left n p))"
proof -
  have "unat (payload_offset p - n) = 2 ^ 32 + unat (payload_offset p) - unat n"
    using assms(1) by (simp add: unat_sub_if_size word_size word_less_nat_alt)
  then have "4096 \<le> unat (payload_offset p - n)" using assms by (simp add: word_less_nat_alt word_le_nat_alt)
  then show "fst (packet_extend_left n p) = OK" "\<not> packet_ok (snd (packet_extend_left n p))"
    by (auto simp: packet_extend_left_def packet_ok_def word_less_nat_alt)
qed

end
