(* ===== verification/Ethernet.thy ===== *)
theory Ethernet
  imports Net_Packet
begin

section \<open>Ethernet devices (\<^verbatim>\<open>network/ethernet.c\<close>, \<^verbatim>\<open>network/ethernet_rx.c\<close>)\<close>

text \<open>
  The table of devices, and the work queue that takes received packets out of the devices. The operations
  of a device are reached through the address of its table; \<open>receive\<close> gives the operation \<^verbatim>\<open>receive\<close> of the table at an address.
\<close>

abbreviation (input) MAX_NR_ETHERNET_DEVCIES :: nat where "MAX_NR_ETHERNET_DEVCIES \<equiv> 256"
abbreviation (input) ONESHOT_RECEIVE_LENGTH :: int where "ONESHOT_RECEIVE_LENGTH \<equiv> 64"
abbreviation (input) SIZEOF_ETHERNET_DEVICE :: int where "SIZEOF_ETHERNET_DEVICE \<equiv> 84"

record ethernet_device =
  ed_device_index :: u16
  ed_name :: "u8 list"
  kernel_path :: u8
  bridge_domain :: u8
  route_domain :: u8
  net_dev_file :: addr
  net_ops :: addr
  ed_priv :: addr

record ethernet =
  ether_devs :: "addr list"
  ethdev_at :: "addr \<Rightarrow> ethernet_device"
  eth_dev_rx_mask :: "u8 list"
  netdev_rx_wq :: addr

definition search_ethernet_device_by_id :: "int \<Rightarrow> ethernet \<Rightarrow> addr" where
  "search_ethernet_device_by_id device_id e =
     (if device_id < 0 \<or> device_id \<ge> int MAX_NR_ETHERNET_DEVCIES then NULL else ether_devs e ! nat device_id)"

text \<open>The loop over the table: \<open>Inl\<close> for a device of the same name, otherwise the first free index.\<close>

fun ethernet_scan :: "u8 list \<Rightarrow> ethernet \<Rightarrow> nat list \<Rightarrow> int \<Rightarrow> (unit + int) option" where
  "ethernet_scan dev_name e [] device_index = Some (Inr device_index)"
| "ethernet_scan dev_name e (idx # rest) device_index = do {
     same \<leftarrow> (if ether_devs e ! idx \<noteq> NULL
       then do { r \<leftarrow> strcmp (ed_name (ethdev_at e (ether_devs e ! idx))) dev_name; Some (r = 0) } else Some False);
     if same then Some (Inl ())
     else ethernet_scan dev_name e rest (if ether_devs e ! idx = NULL \<and> device_index < 0 then int idx else device_index)
   }"

definition register_ethernet_device ::
    "addr \<Rightarrow> addr \<Rightarrow> u8 list \<Rightarrow> addr \<Rightarrow> addr \<Rightarrow> kernel \<times> ethernet \<Rightarrow> (int \<times> kernel \<times> ethernet) option" where
  "register_ethernet_device dev_fs net_dev_file_ops dev_name ops dev_priv = (\<lambda>(k, e). do {
     (_, dev_file_name) \<leftarrow> sprintf (replicate 128 0) (c_lit ''/net/%s'') [VStr dev_name];
     r \<leftarrow> ethernet_scan dev_name e [0..<MAX_NR_ETHERNET_DEVCIES] (- 1);
     case r of
       Inl _ \<Rightarrow> Some (- ERR_INVALID_ARG, k, e)
     | Inr device_index \<Rightarrow>
         if device_index < 0 then Some (- ERR_OUT_OF_RESOURCE, k, e)
         else do {
           (ethdev, k) \<leftarrow> malloc_mapped SIZEOF_ETHERNET_DEVICE k;
           kassert (ethdev \<noteq> NULL);
           nm \<leftarrow> strcpy_safe (replicate 64 0) dev_name 64;
           (f, k) \<leftarrow> register_dev_node dev_fs dev_file_name 0 net_dev_file_ops ethdev k;
           kassert (f \<noteq> NULL);
           let d = \<lparr>ed_device_index = of_int device_index, ed_name = nm, kernel_path = 0, bridge_domain = 0, route_domain = 0,
             net_dev_file = f, net_ops = ops, ed_priv = dev_priv\<rparr>;
           Some (device_index, k, e\<lparr>ethdev_at := (ethdev_at e)(ethdev := d),
             ether_devs := (ether_devs e)[nat device_index := ethdev]\<rparr>)
         }
   })"

definition ethernet_device_pre_init :: "ethernet \<Rightarrow> ethernet" where
  "ethernet_device_pre_init e = e\<lparr>ether_devs := replicate MAX_NR_ETHERNET_DEVCIES NULL\<rparr>"

subsection \<open>Reception\<close>

text \<open>\<open>'d\<close> is the state of the drivers. The packets that were received go back to the pool at once.\<close>

type_synonym 'd receive_op = "addr \<Rightarrow> int \<Rightarrow> kernel \<times> packet_pool \<times> 'd \<Rightarrow> (addr list \<times> kernel \<times> packet_pool \<times> 'd) option"

fun put_packets :: "addr list \<Rightarrow> kernel \<times> packet_pool \<Rightarrow> (kernel \<times> packet_pool) option" where
  "put_packets [] s = Some s"
| "put_packets (pkt # pkts) s = do { s \<leftarrow> put_packet pkt s; put_packets pkts s }"

partial_function (option) do_ethernet_dev_receive ::
    "'d receive_op \<Rightarrow> addr \<Rightarrow> kernel \<times> packet_pool \<times> 'd \<Rightarrow> (kernel \<times> packet_pool \<times> 'd) option" where
  "do_ethernet_dev_receive receive eth_dev s = do {
     (pkts, k, n, d) \<leftarrow> receive eth_dev ONESHOT_RECEIVE_LENGTH s;
     if pkts = [] then Some (k, n, d)
     else do {
       (k, n) \<leftarrow> put_packets pkts (k, n);
       do_ethernet_dev_receive receive eth_dev (k, n, d)
     }
   }"

declare do_ethernet_dev_receive.simps [code]

definition ethernet_rx_one ::
    "(addr \<Rightarrow> 'd receive_op) \<Rightarrow> nat \<Rightarrow> ethernet \<times> kernel \<times> packet_pool \<times> 'd \<Rightarrow> (ethernet \<times> kernel \<times> packet_pool \<times> 'd) option" where
  "ethernet_rx_one receive idx = (\<lambda>(e, s).
     if eth_dev_rx_mask e ! idx = 0 then Some (e, s)
     else let eth_dev = search_ethernet_device_by_id (int idx) e
       in if eth_dev = NULL then Some (e\<lparr>eth_dev_rx_mask := (eth_dev_rx_mask e)[idx := 0]\<rparr>, s)
          else do { s \<leftarrow> do_ethernet_dev_receive (receive (net_ops (ethdev_at e eth_dev))) eth_dev s; Some (e, s) })"

definition ethernet_do_rx ::
    "(addr \<Rightarrow> 'd receive_op) \<Rightarrow> ethernet \<times> kernel \<times> packet_pool \<times> 'd \<Rightarrow> (ethernet \<times> kernel \<times> packet_pool \<times> 'd) option" where
  "ethernet_do_rx receive s =
     fold (\<lambda>idx s. do { s \<leftarrow> s; ethernet_rx_one receive idx s }) [0..<MAX_NR_ETHERNET_DEVCIES] (Some s)"

definition netdev_rx :: "int \<Rightarrow> (addr \<Rightarrow> work_queue) \<Rightarrow> kernel \<times> ethernet \<Rightarrow> (kernel \<times> ethernet) option" where
  "netdev_rx device_index ws = (\<lambda>(k, e). do {
     kassert (device_index \<ge> 0 \<and> device_index < int MAX_NR_ETHERNET_DEVCIES);
     let e = e\<lparr>eth_dev_rx_mask := (eth_dev_rx_mask e)[nat device_index := 1]\<rparr>;
     (r, k) \<leftarrow> notify_work_queue (netdev_rx_wq e) (k, ws);
     kassert (r = OK);
     Some (k, e)
   })"

definition ethernet_rx_post_init :: "u32 \<Rightarrow> kernel \<times> ethernet \<Rightarrow> (kernel \<times> ethernet) option" where
  "ethernet_rx_post_init body = (\<lambda>(k, e). do {
     let e = e\<lparr>eth_dev_rx_mask := replicate MAX_NR_ETHERNET_DEVCIES 0\<rparr>;
     let k = initialize_wait_queue_head (work_queue_head (netdev_rx_wq e)) k;
     (r, k) \<leftarrow> register_work_queue body (netdev_rx_wq e) (c_lit ''ethernet_rx'') k;
     kassert (r = OK);
     Some (k, e)
   })"

end
