(* ===== verification/Virtio_Net.thy ===== *)
theory Virtio_Net
  imports Ethernet Ring_Buffer
begin

section \<open>The driver of virtio network devices (\<^verbatim>\<open>network/virtio_net.c\<close>)\<close>

text \<open>
  A queue of the device is memory that driver and device share: the table of descriptors, the ring in which the driver offers
  descriptors, and the ring in which the device returns them. The indices of both rings count modulo \<open>2 ^ 16\<close>. The
  driver keeps the numbers of free descriptors, two bytes each, in a byte ring, and for every descriptor the packet
  it was used for. Writes to the port that notifies the device are recorded. An access outside of a table is \<open>None\<close>.
\<close>

abbreviation (input) VIRTQ_DESC_F_WRITE :: u16 where "VIRTQ_DESC_F_WRITE \<equiv> 0x2"
abbreviation (input) VIRTQ_AVAIL_F_NO_INTERRUPT :: u16 where "VIRTQ_AVAIL_F_NO_INTERRUPT \<equiv> 0x1"
abbreviation (input) VIRTQ_USED_F_NO_NOTIFY :: u16 where "VIRTQ_USED_F_NO_NOTIFY \<equiv> 0x1"
abbreviation (input) NR_VIRTQUEUES :: nat where "NR_VIRTQUEUES \<equiv> 3"
abbreviation (input) SIZEOF_VIRTIO_NET_HDR :: u32 where "SIZEOF_VIRTIO_NET_HDR \<equiv> 12"

record virtq_desc =
  vd_addr :: u64
  vd_len :: u32
  vd_flags :: u16
  vd_next :: u16

record virtqueue =
  queue_size :: u32
  last_used_idx :: u16
  vq_desc :: "virtq_desc list"
  avail_flags :: u16
  avail_idx :: u16
  avail_ring :: "u16 list"
  used_flags :: u16
  used_idx :: u16
  used_ring :: "(u32 \<times> u32) list"
  free_desc_ring :: ring
  vq_opaque :: "addr list"

record virtio_net =
  mac :: "u8 list"
  mtu :: u16
  ifaceid :: u16
  virtqueues :: "virtqueue list"
  vq_notified :: "int list"

definition LOW_BYTE :: "u32 \<Rightarrow> u8" where "LOW_BYTE w = ucast (w AND 0xff)"
definition HIGH_BYTE :: "u32 \<Rightarrow> u8" where "HIGH_BYTE w = ucast (drop_bit 8 w AND 0xff)"

subsection \<open>Setting up the free descriptors\<close>

fun fill_free_desc :: "nat list \<Rightarrow> ring \<Rightarrow> ring option" where
  "fill_free_desc [] r = Some r"
| "fill_free_desc (idx # rest) r = do {
     (n, r) \<leftarrow> ring_enqueue r (LOW_BYTE (of_nat idx));
     kassert (n \<noteq> 0);
     (n, r) \<leftarrow> ring_enqueue r (HIGH_BYTE (of_nat idx));
     kassert (n \<noteq> 0);
     fill_free_desc rest r
   }"

definition init_free_desc_ring :: "u32 \<Rightarrow> u8 list \<Rightarrow> ring option" where
  "init_free_desc_ring n mem =
     fill_free_desc [0..<unat n] (ring_reset \<lparr>ring_size = sint (n * 2 + 1), front = 0, rear = 0, buffer = mem\<rparr>)"

subsection \<open>Interrupts\<close>

definition upd_queue :: "nat \<Rightarrow> (virtqueue \<Rightarrow> virtqueue) \<Rightarrow> virtio_net \<Rightarrow> virtio_net" where
  "upd_queue i f d = d\<lparr>virtqueues := (virtqueues d)[i := f (virtqueues d ! i)]\<rparr>"

definition virtio_net_device_virtqueue_disable_interrupt :: "nat \<Rightarrow> virtio_net \<Rightarrow> virtio_net option" where
  "virtio_net_device_virtqueue_disable_interrupt vq_index d = do {
     kassert (NR_VIRTQUEUES > vq_index);
     Some (upd_queue vq_index (\<lambda>q. q\<lparr>avail_flags := avail_flags q OR VIRTQ_AVAIL_F_NO_INTERRUPT\<rparr>) d)
   }"

definition virtio_net_device_virtqueue_enable_interrupt :: "nat \<Rightarrow> virtio_net \<Rightarrow> virtio_net option" where
  "virtio_net_device_virtqueue_enable_interrupt vq_index d = do {
     kassert (NR_VIRTQUEUES > vq_index);
     Some (upd_queue vq_index (\<lambda>q. q\<lparr>avail_flags := avail_flags q AND NOT VIRTQ_AVAIL_F_NO_INTERRUPT\<rparr>) d)
   }"

subsection \<open>Sending and receiving descriptors\<close>

text \<open>The buffers to send are descriptors with the packets they are for. The device does not work on the rings during a call.\<close>

definition take_free_desc :: "virtqueue \<Rightarrow> (int \<times> virtqueue) option" where
  "take_free_desc q = do {
     (n, bytes, r) \<leftarrow> read_ring (free_desc_ring q) [0, 0, 0, 0] 2;
     kassert (n = 2);
     Some (uint (bytes ! 0) + 256 * uint (bytes ! 1), q\<lparr>free_desc_ring := r\<rparr>)
   }"

fun raw_send_loop :: "(virtq_desc \<times> addr) list \<Rightarrow> nat \<Rightarrow> virtqueue \<Rightarrow> (nat \<times> virtqueue) option" where
  "raw_send_loop [] nr_added q = Some (nr_added, q)"
| "raw_send_loop ((d, pkt) # rest) nr_added q =
     (if ring_empty (free_desc_ring q) then Some (nr_added, q)
      else do {
        (free_desc_index, q) \<leftarrow> take_free_desc q;
        kassert (free_desc_index < uint (queue_size q) \<and> free_desc_index \<ge> 0);
        os \<leftarrow> arr_set (vq_opaque q) free_desc_index pkt;
        dt \<leftarrow> arr_set (vq_desc q) free_desc_index (d\<lparr>vd_next := 0\<rparr>);
        slot \<leftarrow> c_rem (uint (avail_idx q) + int nr_added) (sint (queue_size q));
        ar \<leftarrow> arr_set (avail_ring q) slot (of_int free_desc_index);
        raw_send_loop rest (nr_added + 1) (q\<lparr>vq_opaque := os, vq_desc := dt, avail_ring := ar\<rparr>)
      })"

definition virtio_net_device_raw_send ::
    "nat \<Rightarrow> (virtq_desc \<times> addr) list \<Rightarrow> virtio_net \<Rightarrow> (nat \<times> virtio_net) option" where
  "virtio_net_device_raw_send vq_index bufs d = do {
     kassert (NR_VIRTQUEUES > vq_index);
     (nr_added, q) \<leftarrow> raw_send_loop bufs 0 (virtqueues d ! vq_index);
     let d = upd_queue vq_index (\<lambda>_. q\<lparr>avail_idx := avail_idx q + of_nat nr_added\<rparr>) d;
     Some (nr_added,
       if used_flags q AND VIRTQ_USED_F_NO_NOTIFY = 0 then d\<lparr>vq_notified := vq_notified d @ [int vq_index]\<rparr> else d)
   }"

text \<open>\<open>packet_setup\<close> works on the state \<open>'s\<close> of the packets; without one it is \<open>\<lambda>_ _ _ s. Some s\<close>.\<close>

type_synonym 's packet_setup = "addr \<Rightarrow> virtq_desc \<Rightarrow> u32 \<times> u32 \<Rightarrow> 's \<Rightarrow> 's option"

fun raw_receive_loop ::
    "'s packet_setup \<Rightarrow> nat \<Rightarrow> u16 \<Rightarrow> addr list \<Rightarrow> virtqueue \<times> 's \<Rightarrow> (addr list \<times> virtqueue \<times> 's) option" where
  "raw_receive_loop packet_setup 0 latest acc (q, s) = Some (acc, q\<lparr>last_used_idx := latest\<rparr>, s)"
| "raw_receive_loop packet_setup (Suc nr_left) latest acc (q, s) =
     (if latest = used_idx q then Some (acc, q\<lparr>last_used_idx := latest\<rparr>, s)
      else do {
        slot \<leftarrow> c_rem (uint latest) (uint (queue_size q));
        used_item \<leftarrow> arr_get (used_ring q) slot;
        kassert (fst used_item < queue_size q);
        desc \<leftarrow> arr_get (vq_desc q) (uint (fst used_item));
        pkt \<leftarrow> arr_get (vq_opaque q) (uint (fst used_item));
        s \<leftarrow> packet_setup pkt desc used_item s;
        (n, r) \<leftarrow> write_ring (free_desc_ring q) [LOW_BYTE (fst used_item), HIGH_BYTE (fst used_item)] 2;
        kassert (n = 2);
        raw_receive_loop packet_setup nr_left (latest + 1) (acc @ [pkt]) (q\<lparr>free_desc_ring := r\<rparr>, s)
      })"

definition virtio_net_device_raw_receive ::
    "'s packet_setup \<Rightarrow> nat \<Rightarrow> int \<Rightarrow> virtio_net \<times> 's \<Rightarrow> (addr list \<times> virtio_net \<times> 's) option" where
  "virtio_net_device_raw_receive packet_setup vq_index nr_buffer = (\<lambda>(d, s). do {
     let q = virtqueues d ! vq_index;
     (pkts, q, s) \<leftarrow> raw_receive_loop packet_setup (nat nr_buffer) (last_used_idx q) [] (q, s);
     Some (pkts, upd_queue vq_index (\<lambda>_. q) d, s)
   })"

subsection \<open>Operations of the device\<close>

text \<open>A driver function works on the kernel, the pool of packets and the device.\<close>

type_synonym net_state = "kernel \<times> packet_pool \<times> virtio_net"

definition virtio_net_dev_reclaim_sent_packet :: "net_state \<Rightarrow> (nat \<times> net_state) option" where
  "virtio_net_dev_reclaim_sent_packet = (\<lambda>(k, n, d). do {
     (pkts, d, _) \<leftarrow> virtio_net_device_raw_receive (\<lambda>_ _ _ s. Some s) 1 64 (d, ());
     (k, n) \<leftarrow> put_packets pkts (k, n);
     Some (length pkts, k, n, d)
   })"

fun get_packets :: "nat \<Rightarrow> kernel \<times> packet_pool \<Rightarrow> (addr list \<times> kernel \<times> packet_pool) option" where
  "get_packets 0 s = Some ([], s)"
| "get_packets (Suc m) s = do {
     (pkt, s) \<leftarrow> get_packet s;
     if pkt = NULL then Some ([], s)
     else do { (pkts, s) \<leftarrow> get_packets m s; Some (pkt # pkts, s) }
   }"

definition packet_desc :: "u16 \<Rightarrow> packet \<Rightarrow> virtq_desc" where
  "packet_desc flags p = \<lparr>vd_addr = ucast (packet_paddr p + payload_offset p), vd_len = payload_length p, vd_flags = flags, vd_next = 0\<rparr>"

fun supply_descs :: "u16 \<Rightarrow> addr list \<Rightarrow> packet_pool \<Rightarrow> ((virtq_desc \<times> addr) list \<times> packet_pool) option" where
  "supply_descs m [] n = Some ([], n)"
| "supply_descs m (pkt # pkts) n = do {
     let (r, p) = packet_extend_right (ucast m + SIZEOF_VIRTIO_NET_HDR) (packets n pkt);
     kassert (r = OK);
     let n = upd_packet pkt (\<lambda>_. p) n;
     (bufs, n) \<leftarrow> supply_descs m pkts n;
     Some ((packet_desc VIRTQ_DESC_F_WRITE p, pkt) # bufs, n)
   }"

definition virtio_net_dev_supply_packet :: "net_state \<Rightarrow> (nat \<times> net_state) option" where
  "virtio_net_dev_supply_packet = (\<lambda>(k, n, d). do {
     free_descriptor_num \<leftarrow> ring_length (free_desc_ring (virtqueues d ! 0));
     kassert (even free_descriptor_num);
     let nr = min 64 (free_descriptor_num div 2);
     kassert (nr \<ge> 0);
     if nr = 0 then Some (0, k, n, d)
     else do {
       (pkts, k, n) \<leftarrow> get_packets (nat nr) (k, n);
       if pkts = [] then Some (0, k, n, d)
       else do {
         (bufs, n) \<leftarrow> supply_descs (mtu d) pkts n;
         (sent, d) \<leftarrow> virtio_net_device_raw_send 0 bufs d;
         kassert (length pkts = sent);
         Some (length pkts, k, n, d)
       }
     }
   })"

definition virtio_net_dev_get_mac :: "virtio_net \<Rightarrow> u8 list" where
  "virtio_net_dev_get_mac d = mac d"

text \<open>The loop that supplies packets until there are no more descriptors or packets.\<close>

partial_function (option) supply_all :: "net_state \<Rightarrow> net_state option" where
  "supply_all s = do {
     (nr, s) \<leftarrow> virtio_net_dev_supply_packet s;
     if nr \<noteq> 0 then supply_all s else Some s
   }"

declare supply_all.simps [code]

definition virtio_net_dev_start :: "net_state \<Rightarrow> (int \<times> net_state) option" where
  "virtio_net_dev_start s = do {
     (k, n, d) \<leftarrow> supply_all s;
     d \<leftarrow> virtio_net_device_virtqueue_enable_interrupt 0 d;
     d \<leftarrow> virtio_net_device_virtqueue_enable_interrupt 1 d;
     d \<leftarrow> virtio_net_device_virtqueue_enable_interrupt 2 d;
     Some (OK, k, n, d)
   }"

definition virtio_net_dev_stop :: "virtio_net \<Rightarrow> (int \<times> virtio_net) option" where
  "virtio_net_dev_stop d = do {
     d \<leftarrow> virtio_net_device_virtqueue_disable_interrupt 0 d;
     d \<leftarrow> virtio_net_device_virtqueue_disable_interrupt 1 d;
     d \<leftarrow> virtio_net_device_virtqueue_disable_interrupt 2 d;
     Some (OK, d)
   }"

definition virtio_net_device_packet_setup :: "packet_pool packet_setup" where
  "virtio_net_device_packet_setup pkt desc used_item n = do {
     let n = upd_packet pkt (\<lambda>p. p\<lparr>pkt_paddr := ucast (vd_addr desc), pkt_len := ucast (snd used_item)\<rparr>) n;
     kassert (pkt_paddr (packets n pkt) = packet_paddr (packets n pkt) + payload_offset (packets n pkt));
     kassert (ucast (pkt_len (packets n pkt)) \<le> payload_length (packets n pkt));
     Some n
   }"

definition virtio_net_dev_receive :: "int \<Rightarrow> net_state \<Rightarrow> (addr list \<times> net_state) option" where
  "virtio_net_dev_receive nr_pkt = (\<lambda>(k, n, d). do {
     (pkts, d, n) \<leftarrow> virtio_net_device_raw_receive virtio_net_device_packet_setup 0 nr_pkt (d, n);
     (_, k, n, d) \<leftarrow> virtio_net_dev_supply_packet (k, n, d);
     Some (pkts, k, n, d)
   })"

definition virtio_net_dev_transmit :: "addr list \<Rightarrow> int \<Rightarrow> net_state \<Rightarrow> (nat \<times> net_state) option" where
  "virtio_net_dev_transmit pkts nr_pkt = (\<lambda>(k, n, d). do {
     let nr_to_send = nat (min nr_pkt 64);
     kassert (nr_to_send \<le> length pkts);
     (sent, d) \<leftarrow> virtio_net_device_raw_send 1 (map (\<lambda>pkt. (packet_desc 0 (packets n pkt), pkt)) (take nr_to_send pkts)) d;
     Some (sent, k, n, d)
   })"

text \<open>\<open>isr\<close> is the value of the interrupt status port.\<close>

definition virtio_device_interrupt_handler ::
    "u8 \<Rightarrow> (addr \<Rightarrow> work_queue) \<Rightarrow> ethernet \<times> net_state \<Rightarrow> (int \<times> ethernet \<times> net_state) option" where
  "virtio_device_interrupt_handler isr ws = (\<lambda>(e, k, n, d).
     if isr \<noteq> 0
     then do {
       (k, e) \<leftarrow> (if last_used_idx (virtqueues d ! 0) \<noteq> used_idx (virtqueues d ! 0) then netdev_rx (uint (ifaceid d)) ws (k, e)
         else Some (k, e));
       (k, n, d) \<leftarrow> (if last_used_idx (virtqueues d ! 1) \<noteq> used_idx (virtqueues d ! 1)
         then map_option snd (virtio_net_dev_reclaim_sent_packet (k, n, d)) else Some (k, n, d));
       Some (OK, e, k, n, d)
     }
     else Some (OK, e, k, n, d))"

end
