(* ===== verification/Virtio_Correct.thy ===== *)
theory Virtio_Correct
  imports Virtio_Net "HOL-Library.Multiset"
begin

section \<open>No packet is lost or duplicated in a queue of the device\<close>

text \<open>
  Driver and device run interleaved on a queue: the driver sends and receives, the device fetches offered
  descriptors and returns those it has, in any order. Every descriptor is in exactly one of four places: free, offered,
  with the device, or returned.
\<close>

subsection \<open>Rings with indices that wrap\<close>

definition window :: "'a list \<Rightarrow> u16 \<Rightarrow> u16 \<Rightarrow> 'a list" where
  "window xs lo hi = map (\<lambda>j. xs ! (unat (lo + of_nat j) mod length xs)) [0..<unat (hi - lo)]"

lemma length_window [simp]: "length (window xs lo hi) = unat (hi - lo)"
  by (simp add: window_def)

lemma window_empty [simp]: "window xs lo lo = []"
  by (simp add: window_def)

lemma window_get:
  assumes "lo \<noteq> hi"
  shows "window xs lo hi = xs ! (unat lo mod length xs) # window xs (lo + 1) hi"
proof -
  have "hi - lo \<noteq> 0" using assms by simp
  then have "unat (hi - lo) = Suc (unat (hi - lo - 1))" by (simp add: unat_minus_one unat_gt_0)
  moreover have "hi - lo - 1 = hi - (lo + 1)" by simp
  ultimately have n: "unat (hi - lo) = Suc (unat (hi - (lo + 1)))" by simp
  show ?thesis unfolding window_def n by (simp add: upt_conv_Cons map_Suc_upt [symmetric] add.assoc del: upt_Suc)
qed

lemma wrap_mod:
  assumes "N dvd 65536"
  shows "unat (lo + of_nat j :: u16) mod N = (unat lo + j) mod N"
proof -
  have "unat (lo + of_nat j :: u16) = (unat lo + j) mod 65536" by (simp add: unat_word_ariths unat_of_nat mod_simps)
  then show ?thesis using assms by (simp add: mod_mod_cancel)
qed

lemma window_put:
  assumes "length xs dvd 65536" "unat (hi - lo) < length xs" "length xs \<le> 32768"
  shows "window (xs[unat hi mod length xs := v]) lo (hi + 1) = window xs lo hi @ [v]"
proof -
  let ?N = "length xs" and ?n = "unat (hi - lo)"
  have hi: "hi = lo + of_nat ?n" by simp
  have "unat (hi + 1 - lo) = unat ((hi - lo) + 1)" by (simp add: algebra_simps)
  also have "\<dots> = Suc ?n" using assms(2,3) by (simp add: unat_word_ariths)
  finally have n: "unat (hi + 1 - lo) = Suc ?n" .
  have ne: "unat hi mod ?N \<noteq> unat (lo + of_nat j) mod ?N" if "j < ?n" for j
  proof
    assume "unat hi mod ?N = unat (lo + of_nat j) mod ?N"
    then have "(unat lo + j) mod ?N = (unat lo + ?n) mod ?N" using wrap_mod [OF assms(1)] hi by metis
    then have "?N dvd (unat lo + ?n) - (unat lo + j)" using that by (metis mod_eq_dvd_iff_nat nat_add_left_cancel_le less_imp_le)
    then have "?N dvd ?n - j" by simp
    then show False using that assms(2) by (auto dest: dvd_imp_le)
  qed
  have "unat hi mod ?N < ?N" using assms(2) by (intro mod_less_divisor) linarith
  then show ?thesis unfolding window_def n using ne by (auto simp flip: hi)
qed

subsection \<open>Free descriptors\<close>

definition desc_bytes :: "nat \<Rightarrow> u8 list" where
  "desc_bytes i = [LOW_BYTE (of_nat i), HIGH_BYTE (of_nat i)]"

lemma desc_bytes_length [simp]: "length (concat (map desc_bytes ids)) = 2 * length ids"
  by (induction ids) (simp_all add: desc_bytes_def)

lemma desc_bytes_value:
  assumes "i < 65536"
  shows "uint (LOW_BYTE (of_nat i)) + 256 * uint (HIGH_BYTE (of_nat i)) = int i"
proof -
  have m: "w AND 0xff = take_bit 8 w" for w :: u32 by (simp add: take_bit_eq_mask mask_eq_exp_minus_1)
  have u: "uint (of_nat i :: u32) = int i" using assms by (simp add: unsigned_of_nat take_bit_nat_eq_self)
  have "uint (LOW_BYTE (of_nat i)) = take_bit 8 (int i)"
    unfolding LOW_BYTE_def m by (simp only: unsigned_ucast_eq unsigned_take_bit_eq u) simp
  moreover have "uint (HIGH_BYTE (of_nat i)) = take_bit 8 (drop_bit 8 (int i))"
    unfolding HIGH_BYTE_def m using assms
    by (simp only: unsigned_ucast_eq unsigned_take_bit_eq unsigned_drop_bit_eq u) (simp add: take_bit_int_eq_self)
  ultimately show ?thesis using assms by (simp add: take_bit_eq_mod drop_bit_eq_div)
qed

definition free_ids :: "ring \<Rightarrow> nat list \<Rightarrow> nat \<Rightarrow> bool" where
  "free_ids r ids N \<longleftrightarrow> wf_ring r \<and> ring_bytes r = concat (map desc_bytes ids) \<and> 2 * length ids + ring_room r = 2 * N"

lemma free_ids_empty: "free_ids r ids N \<Longrightarrow> ring_empty r \<longleftrightarrow> ids = []"
  using length_ring_bytes [of r] by (auto simp: free_ids_def ring_empty_count)

lemma free_ids_take:
  assumes "free_ids (free_desc_ring q) (i # ids) N" "i < 65536"
  shows "\<exists>r. take_free_desc q = Some (int i, q\<lparr>free_desc_ring := r\<rparr>) \<and> free_ids r ids N"
proof -
  let ?r = "free_desc_ring q"
  have r: "wf_ring ?r" "ring_bytes ?r = LOW_BYTE (of_nat i) # HIGH_BYTE (of_nat i) # concat (map desc_bytes ids)"
    using assms(1) by (simp_all add: free_ids_def desc_bytes_def)
  then have c: "ring_count ?r = 2 + 2 * length ids" using length_ring_bytes [of ?r] by simp
  obtain r' where "read_ring ?r [0, 0, 0, 0] 2 = Some (2, [LOW_BYTE (of_nat i), HIGH_BYTE (of_nat i), 0, 0], r')" "wf_ring r'"
    "ring_bytes r' = concat (map desc_bytes ids)" "ring_room r' = ring_room ?r + 2"
    using read_ring_correct [OF r(1), of 2 "[0, 0, 0, 0]"] r(2) c by (auto simp: min_def numeral_2_eq_2)
  then show ?thesis using assms desc_bytes_value [OF assms(2)]
    by (auto simp: take_free_desc_def free_ids_def)
qed

lemma free_ids_put:
  assumes "free_ids r ids N" "length ids < N"
  shows "\<exists>r'. write_ring r (desc_bytes i) 2 = Some (2, r') \<and> free_ids r' (ids @ [i]) N"
proof -
  have "2 \<le> ring_room r" using assms by (simp add: free_ids_def)
  then show ?thesis using write_ring_correct [of r 2 "desc_bytes i"] assms
    by (auto simp: free_ids_def min_def desc_bytes_def)
qed

lemma fill_free_ids:
  assumes "free_ids r ids N" "length ids + length is \<le> N"
  shows "\<exists>r'. fill_free_desc is r = Some r' \<and> free_ids r' (ids @ is) N"
  using assms
proof (induction "is" arbitrary: r ids)
  case (Cons i js)
  have room: "2 \<le> ring_room r" and wf: "wf_ring r" using Cons.prems by (auto simp: free_ids_def)
  obtain r1 where r1: "write_ring r [LOW_BYTE (of_nat i)] 1 = Some (1, r1)" "wf_ring r1" "ring_bytes r1 = ring_bytes r @ [LOW_BYTE (of_nat i)]"
    "ring_room r1 = ring_room r - 1" using rq.put_one [OF wf, of "LOW_BYTE (of_nat i)"] room by auto
  obtain r2 where r2: "write_ring r1 [HIGH_BYTE (of_nat i)] 1 = Some (1, r2)" "wf_ring r2" "ring_bytes r2 = ring_bytes r1 @ [HIGH_BYTE (of_nat i)]"
    "ring_room r2 = ring_room r1 - 1" using rq.put_one [OF r1(2), of "HIGH_BYTE (of_nat i)"] room r1(4) by auto
  have "free_ids r2 (ids @ [i]) N" using Cons.prems r1 r2 room by (simp add: free_ids_def desc_bytes_def)
  then show ?case using Cons.IH [of r2 "ids @ [i]"] Cons.prems r1(1) r2(1) by (auto simp: ring_enqueue_def)
qed simp

lemma init_free_ids:
  assumes "unat n \<le> 32768" "2 * unat n + 1 \<le> length mem"
  shows "\<exists>r. init_free_desc_ring n mem = Some r \<and> free_ids r [0..<unat n] (unat n)"
proof -
  obtain N where N: "unat n = N" by simp
  have "unat (n * 2 + 1) = 2 * N + 1" using assms N by (simp add: unat_word_ariths)
  then have s: "sint (n * 2 + 1) = 2 * int N + 1" using assms N sint_small [of "n * 2 + 1"] by simp
  let ?r = "ring_reset \<lparr>ring_size = sint (n * 2 + 1), front = 0, rear = 0, buffer = mem\<rparr>"
  have "free_ids ?r [] (unat n)" using assms unfolding s N
    by (auto simp: free_ids_def wf_ring_def ring_bytes_def ring_count_def ring_room_def ring_reset_def)
  from fill_free_ids [OF this, of "[0..<unat n]"] show ?thesis by (simp add: init_free_desc_ring_def)
qed

subsection \<open>The places of the descriptors\<close>

definition offered :: "virtqueue \<Rightarrow> u16 \<Rightarrow> nat list" where
  "offered q seen = map unat (window (avail_ring q) seen (avail_idx q))"

definition returned :: "virtqueue \<Rightarrow> nat list" where
  "returned q = map (\<lambda>u. unat (fst u)) (window (used_ring q) (last_used_idx q) (used_idx q))"

definition in_flight :: "virtqueue \<Rightarrow> u16 \<Rightarrow> nat list \<Rightarrow> nat list" where
  "in_flight q seen owned = offered q seen @ owned @ returned q"

definition packets_of :: "virtqueue \<Rightarrow> nat list \<Rightarrow> addr multiset" where
  "packets_of q ids = mset (map (\<lambda>i. vq_opaque q ! i) ids)"

definition wf_queue :: "virtqueue \<Rightarrow> nat \<Rightarrow> bool" where
  "wf_queue q N \<longleftrightarrow> unat (queue_size q) = N \<and> 0 < N \<and> N dvd 65536 \<and> N \<le> 32768 \<and> length (vq_desc q) = N \<and>
     length (vq_opaque q) = N \<and> length (avail_ring q) = N \<and> length (used_ring q) = N"

definition queue_inv :: "virtqueue \<Rightarrow> u16 \<Rightarrow> nat list \<Rightarrow> nat list \<Rightarrow> nat \<Rightarrow> bool" where
  "queue_inv q seen fr owned N \<longleftrightarrow> wf_queue q N \<and> free_ids (free_desc_ring q) fr N \<and>
     mset (fr @ in_flight q seen owned) = mset [0..<N]"

lemma queue_inv_facts:
  assumes "queue_inv q seen fr owned N"
  shows "distinct (fr @ in_flight q seen owned)" "set (fr @ in_flight q seen owned) = {0..<N}"
    "length fr + length (in_flight q seen owned) = N" "N \<le> 32768" "length (used_ring q) = N"
    "unat (avail_idx q - seen) + length fr + length owned + unat (used_idx q - last_used_idx q) = N"
proof -
  have m: "mset (fr @ in_flight q seen owned) = mset [0..<N]" using assms by (simp add: queue_inv_def)
  show "distinct (fr @ in_flight q seen owned)" using mset_eq_imp_distinct_iff [OF m] by simp
  show "set (fr @ in_flight q seen owned) = {0..<N}" using mset_eq_setD [OF m] by simp
  show "N \<le> 32768" "length (used_ring q) = N" using assms by (simp_all add: queue_inv_def wf_queue_def)
  show l: "length fr + length (in_flight q seen owned) = N" using mset_eq_length [OF m] by simp
  then show "unat (avail_idx q - seen) + length fr + length owned + unat (used_idx q - last_used_idx q) = N"
    by (simp add: in_flight_def offered_def returned_def)
qed

subsubsection \<open>The driver offers a descriptor\<close>

definition offer :: "nat \<Rightarrow> virtq_desc \<Rightarrow> addr \<Rightarrow> ring \<Rightarrow> virtqueue \<Rightarrow> virtqueue" where
  "offer i d pkt r q = q\<lparr>vq_opaque := (vq_opaque q)[i := pkt], vq_desc := (vq_desc q)[i := d],
     avail_ring := (avail_ring q)[unat (avail_idx q) mod length (avail_ring q) := of_nat i],
     avail_idx := avail_idx q + 1, free_desc_ring := r\<rparr>"

lemma offer_inv:
  assumes inv: "queue_inv q seen (i # fr) owned N" and r: "free_ids r fr N"
  shows "queue_inv (offer i d pkt r q) seen fr owned N"
    "packets_of (offer i d pkt r q) (in_flight (offer i d pkt r q) seen owned) = packets_of q (in_flight q seen owned) + {#pkt#}"
proof -
  note f = queue_inv_facts [OF inv]
  have q: "wf_queue q N" using inv by (simp add: queue_inv_def)
  have i: "i < N" "i \<notin> set (in_flight q seen owned)" using f(1,2) by auto
  have "window (avail_ring (offer i d pkt r q)) seen (avail_idx q + 1) = window (avail_ring q) seen (avail_idx q) @ [of_nat i]"
    unfolding offer_def using q f(6) by (simp, intro window_put) (auto simp: wf_queue_def)
  moreover have "unat (of_nat i :: u16) = i" using i(1) f(4) by (simp add: unat_of_nat take_bit_nat_eq_self)
  ultimately have o: "offered (offer i d pkt r q) seen = offered q seen @ [i]"
    by (simp add: offered_def) (simp add: offer_def)
  have rt: "returned (offer i d pkt r q) = returned q" by (simp add: returned_def offer_def)
  have "mset (fr @ in_flight (offer i d pkt r q) seen owned) = mset ((i # fr) @ in_flight q seen owned)"
    by (simp add: in_flight_def o rt)
  then show "queue_inv (offer i d pkt r q) seen fr owned N" using inv r by (simp add: queue_inv_def wf_queue_def offer_def)
  have same: "vq_opaque (offer i d pkt r q) ! j = vq_opaque q ! j" if "j \<in> set (in_flight q seen owned)" for j
    using that i(2) by (cases "i = j") (auto simp: offer_def)
  have "vq_opaque (offer i d pkt r q) ! i = pkt" using q i by (simp add: offer_def wf_queue_def)
  then show "packets_of (offer i d pkt r q) (in_flight (offer i d pkt r q) seen owned) = packets_of q (in_flight q seen owned) + {#pkt#}"
    using same by (simp add: packets_of_def in_flight_def o rt cong: map_cong)
qed

text \<open>In the loop the index of the ring is not yet updated, and the state of the
  queue is the one with the updated index.\<close>

lemma raw_send_loop_inv:
  fixes bufs :: "(virtq_desc \<times> addr) list"
  assumes "queue_inv (q\<lparr>avail_idx := avail_idx q + of_nat n\<rparr>) seen fr owned N"
  defines "m \<equiv> min (length bufs) (length fr)"
  shows "\<exists>q'. raw_send_loop bufs n q = Some (n + m, q') \<and> avail_idx q' = avail_idx q \<and>
    queue_inv (q'\<lparr>avail_idx := avail_idx q + of_nat (n + m)\<rparr>) seen (drop m fr) owned N \<and>
    packets_of q' (in_flight (q'\<lparr>avail_idx := avail_idx q + of_nat (n + m)\<rparr>) seen owned) =
      packets_of q (in_flight (q\<lparr>avail_idx := avail_idx q + of_nat n\<rparr>) seen owned) + mset (take m (map snd bufs))"
  using assms(1) unfolding m_def
proof (induction bufs arbitrary: n q fr)
  case (Cons b bufs)
  note prems = Cons.prems and IH = Cons.IH
  obtain d pkt where b: "b = (d, pkt)" by fastforce
  let ?q = "q\<lparr>avail_idx := avail_idx q + of_nat n\<rparr>"
  have free: "free_ids (free_desc_ring q) fr N" and wf: "wf_queue ?q N" using prems by (simp_all add: queue_inv_def)
  show ?case
  proof (cases fr)
    case Nil
    then have "ring_empty (free_desc_ring q)" using free_ids_empty [OF free] by simp
    then show ?thesis using Nil prems b by simp
  next
    case fr: (Cons i ids)
    note f = queue_inv_facts [OF prems]
    have "i < N" using f(2) fr by auto
    with f(4) have i: "i < N" "i < 65536" by simp_all
    obtain r where r: "take_free_desc q = Some (int i, q\<lparr>free_desc_ring := r\<rparr>)" "free_ids r ids N"
      using free_ids_take [of q i ids N] free fr i by auto
    let ?d = "d\<lparr>vd_next := 0\<rparr>"
    let ?slot = "unat (avail_idx q + of_nat n) mod N"
    define q1 where "q1 = q\<lparr>free_desc_ring := r, vq_opaque := (vq_opaque q)[i := pkt], vq_desc := (vq_desc q)[i := ?d],
      avail_ring := (avail_ring q)[?slot := of_nat i]\<rparr>"
    have off: "q1\<lparr>avail_idx := avail_idx q1 + of_nat (n + 1)\<rparr> = offer i ?d pkt r ?q"
      using wf by (simp add: q1_def offer_def wf_queue_def add.assoc)
    have "uint (queue_size q) = int N" "sint (queue_size q) = int N"
      using wf sint_small [of "queue_size q"] by (auto simp: wf_queue_def)
    moreover have "(uint (avail_idx q) + int n) mod int N = int ?slot"
      using wrap_mod [of N "avail_idx q" n] wf by (simp add: wf_queue_def zmod_int)
    ultimately have step: "raw_send_loop (b # bufs) n q = raw_send_loop bufs (n + 1) q1"
      using b free_ids_empty [OF free] fr r(1) i wf
      by (simp add: wf_queue_def c_rem_def q1_def arr_set_def)
    have inv: "queue_inv (q1\<lparr>avail_idx := avail_idx q1 + of_nat (n + 1)\<rparr>) seen ids owned N"
      and pk: "packets_of q1 (in_flight (q1\<lparr>avail_idx := avail_idx q1 + of_nat (n + 1)\<rparr>) seen owned) =
        packets_of q (in_flight ?q seen owned) + {#pkt#}"
      using offer_inv [OF prems [unfolded fr] r(2), of ?d pkt] unfolding off by (simp_all add: packets_of_def offer_def q1_def)
    have "avail_idx q1 = avail_idx q" by (simp add: q1_def)
    then show ?thesis using IH [OF inv] pk fr b unfolding step by (auto simp: add.assoc)
  qed
qed simp

subsubsection \<open>The driver takes a descriptor back\<close>

definition reclaim :: "ring \<Rightarrow> virtqueue \<Rightarrow> virtqueue" where
  "reclaim r q = q\<lparr>free_desc_ring := r, last_used_idx := last_used_idx q + 1\<rparr>"

lemma reclaim_inv:
  assumes inv: "queue_inv q seen fr owned N" and new: "last_used_idx q \<noteq> used_idx q"
  defines "i \<equiv> unat (fst (used_ring q ! (unat (last_used_idx q) mod N)))"
  shows "\<exists>r. write_ring (free_desc_ring q) (desc_bytes i) 2 = Some (2, r) \<and> queue_inv (reclaim r q) seen (fr @ [i]) owned N \<and>
    i < N \<and> packets_of q (in_flight q seen owned) = packets_of (reclaim r q) (in_flight (reclaim r q) seen owned) + {#vq_opaque q ! i#}"
proof -
  note f = queue_inv_facts [OF inv]
  have rt: "returned q = i # map (\<lambda>u. unat (fst u)) (window (used_ring q) (last_used_idx q + 1) (used_idx q))"
    using window_get [OF new, of "used_ring q"] f(5) by (simp add: returned_def i_def)
  then have "i \<in> set (in_flight q seen owned)" by (simp add: in_flight_def)
  then have i: "i < N" "length fr < N" using f(2,3) by (auto dest: length_pos_if_in_set)
  obtain r where r: "write_ring (free_desc_ring q) (desc_bytes i) 2 = Some (2, r)" "free_ids r (fr @ [i]) N"
    using free_ids_put [of "free_desc_ring q" fr N i] inv i(2) by (auto simp: queue_inv_def)
  have rt': "returned q = i # returned (reclaim r q)" unfolding rt by (simp add: returned_def reclaim_def)
  have fl: "mset (in_flight q seen owned) = add_mset i (mset (in_flight (reclaim r q) seen owned))"
    by (simp add: in_flight_def rt') (simp add: offered_def reclaim_def)
  then have "queue_inv (reclaim r q) seen (fr @ [i]) owned N"
    using inv r(2) by (simp add: queue_inv_def wf_queue_def) (simp add: reclaim_def)
  moreover have "packets_of q (in_flight q seen owned) = packets_of (reclaim r q) (in_flight (reclaim r q) seen owned) + {#vq_opaque q ! i#}"
    by (simp add: packets_of_def fl mset_map) (simp add: reclaim_def)
  ultimately show ?thesis using r(1) i(1) by blast
qed

lemma raw_receive_step:
  assumes inv: "queue_inv (q\<lparr>last_used_idx := latest\<rparr>) seen fr owned N" and new: "latest \<noteq> used_idx q"
  shows "\<exists>r i desc item. queue_inv (q\<lparr>free_desc_ring := r, last_used_idx := latest + 1\<rparr>) seen (fr @ [i]) owned N \<and>
    packets_of q (in_flight (q\<lparr>last_used_idx := latest\<rparr>) seen owned) =
      packets_of q (in_flight (q\<lparr>free_desc_ring := r, last_used_idx := latest + 1\<rparr>) seen owned) + {#vq_opaque q ! i#} \<and>
    (\<forall>n acc s. raw_receive_loop packet_setup (Suc n) latest acc (q, s) =
      do { s \<leftarrow> packet_setup (vq_opaque q ! i) desc item s;
           raw_receive_loop packet_setup n (latest + 1) (acc @ [vq_opaque q ! i]) (q\<lparr>free_desc_ring := r\<rparr>, s) })"
proof -
  let ?q = "q\<lparr>last_used_idx := latest\<rparr>"
  define item where "item = used_ring q ! (unat latest mod N)"
  define i where "i = unat (fst item)"
  have wf: "wf_queue q N" using inv by (simp add: queue_inv_def wf_queue_def)
  obtain r where r: "write_ring (free_desc_ring q) (desc_bytes i) 2 = Some (2, r)" "queue_inv (reclaim r ?q) seen (fr @ [i]) owned N" "i < N"
    "packets_of ?q (in_flight ?q seen owned) = packets_of (reclaim r ?q) (in_flight (reclaim r ?q) seen owned) + {#vq_opaque ?q ! i#}"
    using reclaim_inv [OF inv] new by (auto simp: i_def item_def)
  have rec: "reclaim r ?q = q\<lparr>free_desc_ring := r, last_used_idx := latest + 1\<rparr>" by (simp add: reclaim_def)
  have id: "uint (fst item) = int i" "fst item < queue_size q" "desc_bytes i = [LOW_BYTE (fst item), HIGH_BYTE (fst item)]"
    using r(3) wf by (simp_all add: i_def wf_queue_def word_less_nat_alt desc_bytes_def)
  have "uint latest mod int N = int (unat latest mod N)" by (simp add: zmod_int)
  moreover have "uint (queue_size q) = int N" using wf by (auto simp: wf_queue_def)
  ultimately have "raw_receive_loop packet_setup (Suc n) latest acc (q, s) =
      do { s \<leftarrow> packet_setup (vq_opaque q ! i) (vq_desc q ! i) item s;
           raw_receive_loop packet_setup n (latest + 1) (acc @ [vq_opaque q ! i]) (q\<lparr>free_desc_ring := r\<rparr>, s) }" for n acc s
    using new r(1,3) wf id by (simp add: c_rem_def wf_queue_def arr_get_def flip: item_def)
  moreover have "packets_of q (in_flight ?q seen owned) =
      packets_of q (in_flight (q\<lparr>free_desc_ring := r, last_used_idx := latest + 1\<rparr>) seen owned) + {#vq_opaque q ! i#}"
    using r(4) unfolding rec by (simp add: packets_of_def)
  ultimately show ?thesis using r(2) unfolding rec by blast
qed

lemma raw_receive_loop_inv:
  assumes "queue_inv (q\<lparr>last_used_idx := latest\<rparr>) seen fr owned N"
    and "raw_receive_loop packet_setup n latest acc (q, s) = Some (pkts, q', s')"
  shows "\<exists>got fr'. pkts = acc @ got \<and> queue_inv q' seen fr' owned N \<and>
    packets_of q (in_flight (q\<lparr>last_used_idx := latest\<rparr>) seen owned) = packets_of q' (in_flight q' seen owned) + mset got"
  using assms
proof (induction n arbitrary: q latest acc s fr)
  case (Suc n)
  show ?case
  proof (cases "latest = used_idx q")
    case False
    obtain r i desc item where st: "queue_inv (q\<lparr>free_desc_ring := r, last_used_idx := latest + 1\<rparr>) seen (fr @ [i]) owned N"
      "packets_of q (in_flight (q\<lparr>last_used_idx := latest\<rparr>) seen owned) =
        packets_of q (in_flight (q\<lparr>free_desc_ring := r, last_used_idx := latest + 1\<rparr>) seen owned) + {#vq_opaque q ! i#}"
      "raw_receive_loop packet_setup (Suc n) latest acc (q, s) =
        do { s \<leftarrow> packet_setup (vq_opaque q ! i) desc item s;
             raw_receive_loop packet_setup n (latest + 1) (acc @ [vq_opaque q ! i]) (q\<lparr>free_desc_ring := r\<rparr>, s) }"
      using raw_receive_step [OF Suc.prems(1) False, of packet_setup] by metis
    then obtain s1 where loop: "raw_receive_loop packet_setup n (latest + 1) (acc @ [vq_opaque q ! i]) (q\<lparr>free_desc_ring := r\<rparr>, s1) = Some (pkts, q', s')"
      using Suc.prems(2) by (cases "packet_setup (vq_opaque q ! i) desc item s") auto
    obtain got fr' where "pkts = acc @ vq_opaque q ! i # got" "queue_inv q' seen fr' owned N"
      "packets_of q (in_flight (q\<lparr>free_desc_ring := r, last_used_idx := latest + 1\<rparr>) seen owned) = packets_of q' (in_flight q' seen owned) + mset got"
      using Suc.IH [OF _ loop, of "fr @ [i]"] st(1) by (auto simp: packets_of_def)
    then show ?thesis using st(2) by (intro exI [of _ "vq_opaque q ! i # got"] exI [of _ fr']) simp
  qed (use Suc.prems in \<open>auto simp: packets_of_def\<close>)
qed (auto simp: packets_of_def)

lemma raw_receive_loop_returns:
  assumes "queue_inv (q\<lparr>last_used_idx := latest\<rparr>) seen fr owned N" "\<And>pkt desc item s. packet_setup pkt desc item s \<noteq> None"
  shows "\<exists>pkts q' s'. raw_receive_loop packet_setup n latest acc (q, s) = Some (pkts, q', s') \<and>
    length pkts = length acc + min n (unat (used_idx q - latest))"
  using assms(1)
proof (induction n arbitrary: q latest acc s fr)
  case (Suc n)
  show ?case
  proof (cases "latest = used_idx q")
    case False
    obtain r i desc item where st: "queue_inv (q\<lparr>free_desc_ring := r, last_used_idx := latest + 1\<rparr>) seen (fr @ [i]) owned N"
      "raw_receive_loop packet_setup (Suc n) latest acc (q, s) =
        do { s \<leftarrow> packet_setup (vq_opaque q ! i) desc item s;
             raw_receive_loop packet_setup n (latest + 1) (acc @ [vq_opaque q ! i]) (q\<lparr>free_desc_ring := r\<rparr>, s) }"
      using raw_receive_step [OF Suc.prems False, of packet_setup] by metis
    moreover have "unat (used_idx q - latest) = Suc (unat (used_idx q - (latest + 1)))"
      using length_window [of "used_ring q" latest "used_idx q"] window_get [OF False, of "used_ring q"] by simp
    ultimately show ?thesis using assms(2) [of "vq_opaque q ! i" desc item s]
        Suc.IH [of "latest + 1" "q\<lparr>free_desc_ring := r\<rparr>" "fr @ [i]" "acc @ [vq_opaque q ! i]"] by auto
  qed simp
qed simp

subsubsection \<open>The device\<close>

lemma fetch_inv:
  assumes inv: "queue_inv q seen fr owned N" and new: "seen \<noteq> avail_idx q"
  defines "i \<equiv> unat (avail_ring q ! (unat seen mod length (avail_ring q)))"
  shows "queue_inv q (seen + 1) fr (owned @ [i]) N"
    "packets_of q (in_flight q (seen + 1) (owned @ [i])) = packets_of q (in_flight q seen owned)"
proof -
  have "mset (in_flight q (seen + 1) (owned @ [i])) = mset (in_flight q seen owned)"
    using window_get [OF new, of "avail_ring q"] by (simp add: in_flight_def offered_def i_def)
  then show "queue_inv q (seen + 1) fr (owned @ [i]) N"
    "packets_of q (in_flight q (seen + 1) (owned @ [i])) = packets_of q (in_flight q seen owned)"
    using inv by (simp_all add: queue_inv_def packets_of_def)
qed

definition give_back :: "nat \<Rightarrow> u32 \<Rightarrow> virtqueue \<Rightarrow> virtqueue" where
  "give_back i len q = q\<lparr>used_ring := (used_ring q)[unat (used_idx q) mod length (used_ring q) := (of_nat i, len)],
     used_idx := used_idx q + 1\<rparr>"

lemma give_back_inv:
  assumes inv: "queue_inv q seen fr owned N" and i: "i \<in> set owned"
  shows "queue_inv (give_back i len q) seen fr (remove1 i owned) N"
    "packets_of (give_back i len q) (in_flight (give_back i len q) seen (remove1 i owned)) = packets_of q (in_flight q seen owned)"
proof -
  note f = queue_inv_facts [OF inv]
  have q: "wf_queue q N" using inv by (simp add: queue_inv_def)
  have iN: "i < N" using i f(2) by (auto simp: in_flight_def)
  have "0 < length owned" using i by (rule length_pos_if_in_set)
  then have "window (used_ring (give_back i len q)) (last_used_idx q) (used_idx q + 1) =
      window (used_ring q) (last_used_idx q) (used_idx q) @ [(of_nat i, len)]"
    unfolding give_back_def using q f(6) by (simp, intro window_put) (auto simp: wf_queue_def)
  moreover have "unat (of_nat i :: u32) = i" using iN f(4) by (simp add: unat_of_nat_id)
  ultimately have rt: "returned (give_back i len q) = returned q @ [i]"
    by (simp add: returned_def) (simp add: give_back_def)
  have "offered (give_back i len q) seen = offered q seen" by (simp add: offered_def give_back_def)
  then have "mset (in_flight (give_back i len q) seen (remove1 i owned)) = mset (in_flight q seen owned)"
    using i by (simp add: in_flight_def rt)
  then show "queue_inv (give_back i len q) seen fr (remove1 i owned) N"
    "packets_of (give_back i len q) (in_flight (give_back i len q) seen (remove1 i owned)) = packets_of q (in_flight q seen owned)"
    using inv by (simp_all add: queue_inv_def wf_queue_def packets_of_def) (simp_all add: give_back_def)
qed

subsection \<open>Runs of driver and device\<close>

record vq_world =
  vdev :: virtio_net
  seen :: u16
  owned :: "nat list"
  sent :: "addr list"
  received :: "addr list"

text \<open>\<open>seen\<close> is the index up to which the device has fetched, \<open>owned\<close> what it has. \<open>sent\<close> and \<open>received\<close> record the
  packets that the calls accepted and delivered.\<close>

inductive vq_step :: "nat \<Rightarrow> vq_world \<Rightarrow> vq_world \<Rightarrow> bool" for vq where
  send: "virtio_net_device_raw_send vq bufs (vdev w) = Some (n, d) \<Longrightarrow>
    vq_step vq w (w\<lparr>vdev := d, sent := sent w @ take n (map snd bufs)\<rparr>)"
| receive: "virtio_net_device_raw_receive packet_setup vq nr (vdev w, s :: packet_pool) = Some (pkts, d, s') \<Longrightarrow>
    vq_step vq w (w\<lparr>vdev := d, received := received w @ pkts\<rparr>)"
| fetch: "seen w \<noteq> avail_idx (virtqueues (vdev w) ! vq) \<Longrightarrow>
    vq_step vq w (w\<lparr>seen := seen w + 1, owned := owned w @
      [unat (avail_ring (virtqueues (vdev w) ! vq) ! (unat (seen w) mod length (avail_ring (virtqueues (vdev w) ! vq))))]\<rparr>)"
| give_back: "i \<in> set (owned w) \<Longrightarrow>
    vq_step vq w (w\<lparr>vdev := upd_queue vq (give_back i len) (vdev w), owned := remove1 i (owned w)\<rparr>)"
| set_flags: "vq_step vq w (w\<lparr>vdev := upd_queue vq (\<lambda>q. q\<lparr>used_flags := fl\<rparr>) (vdev w)\<rparr>)"

definition world_inv :: "nat \<Rightarrow> vq_world \<Rightarrow> bool" where
  "world_inv vq w \<longleftrightarrow> vq < NR_VIRTQUEUES \<and> length (virtqueues (vdev w)) = NR_VIRTQUEUES \<and>
     (\<exists>fr N. queue_inv (virtqueues (vdev w) ! vq) (seen w) fr (owned w) N) \<and>
     mset (sent w) = mset (received w) +
       packets_of (virtqueues (vdev w) ! vq) (in_flight (virtqueues (vdev w) ! vq) (seen w) (owned w))"

lemma upd_queue_queues [simp]:
  "length (virtqueues (upd_queue i f d)) = length (virtqueues d)"
  "i < length (virtqueues d) \<Longrightarrow> virtqueues (upd_queue i f d) ! i = f (virtqueues d ! i)"
  by (simp_all add: upd_queue_def)

lemma raw_send_inv:
  fixes bufs :: "(virtq_desc \<times> addr) list"
  assumes inv: "queue_inv (virtqueues d ! vq) sn fr ow N" and vq: "vq < NR_VIRTQUEUES" "length (virtqueues d) = NR_VIRTQUEUES"
  defines "m \<equiv> min (length bufs) (length fr)"
  shows "\<exists>d'. virtio_net_device_raw_send vq bufs d = Some (m, d') \<and> length (virtqueues d') = NR_VIRTQUEUES \<and>
    queue_inv (virtqueues d' ! vq) sn (drop m fr) ow N \<and>
    packets_of (virtqueues d' ! vq) (in_flight (virtqueues d' ! vq) sn ow) =
      packets_of (virtqueues d ! vq) (in_flight (virtqueues d ! vq) sn ow) + mset (take m (map snd bufs))"
proof -
  let ?q = "virtqueues d ! vq"
  obtain q' where q': "raw_send_loop bufs 0 ?q = Some (m, q')" "avail_idx q' = avail_idx ?q"
    "queue_inv (q'\<lparr>avail_idx := avail_idx ?q + of_nat m\<rparr>) sn (drop m fr) ow N"
    "packets_of q' (in_flight (q'\<lparr>avail_idx := avail_idx ?q + of_nat m\<rparr>) sn ow) =
      packets_of ?q (in_flight ?q sn ow) + mset (take m (map snd bufs))"
    using raw_send_loop_inv [of ?q 0 sn fr ow N bufs] inv by (auto simp: m_def)
  let ?d = "upd_queue vq (\<lambda>_. q'\<lparr>avail_idx := avail_idx q' + of_nat m\<rparr>) d"
  have "virtqueues (d'\<lparr>vq_notified := xs\<rparr>) = virtqueues d'" for d' xs by simp
  moreover have "\<exists>xs. virtio_net_device_raw_send vq bufs d = Some (m, ?d\<lparr>vq_notified := xs\<rparr>)"
    using vq q'(1) by (auto simp: virtio_net_device_raw_send_def Let_def upd_queue_def intro: exI [of _ "vq_notified d"])
  ultimately show ?thesis using q'(2-4) vq by (auto simp: packets_of_def)
qed

lemma raw_receive_inv:
  assumes inv: "queue_inv (virtqueues d ! vq) sn fr ow N" and vq: "vq < NR_VIRTQUEUES" "length (virtqueues d) = NR_VIRTQUEUES"
    and rcv: "virtio_net_device_raw_receive packet_setup vq nr (d, s) = Some (pkts, d', s')"
  shows "\<exists>fr'. length (virtqueues d') = NR_VIRTQUEUES \<and> queue_inv (virtqueues d' ! vq) sn fr' ow N \<and>
    packets_of (virtqueues d ! vq) (in_flight (virtqueues d ! vq) sn ow) =
      packets_of (virtqueues d' ! vq) (in_flight (virtqueues d' ! vq) sn ow) + mset pkts"
proof -
  let ?q = "virtqueues d ! vq"
  obtain q' where q': "raw_receive_loop packet_setup (nat nr) (last_used_idx ?q) [] (?q, s) = Some (pkts, q', s')"
    "d' = upd_queue vq (\<lambda>_. q') d"
    using rcv by (cases "raw_receive_loop packet_setup (nat nr) (last_used_idx ?q) [] (?q, s)")
      (auto simp: virtio_net_device_raw_receive_def Let_def)
  then show ?thesis using raw_receive_loop_inv [OF _ q'(1)] inv vq by auto
qed

lemma vq_step_inv:
  assumes "vq_step vq w w'" "world_inv vq w"
  shows "world_inv vq w'"
  using assms
proof (induction rule: vq_step.induct)
  case (send bufs w n d)
  obtain fr N where inv: "queue_inv (virtqueues (vdev w) ! vq) (seen w) fr (owned w) N" using send.prems by (auto simp: world_inv_def)
  have "vq < 3" "length (virtqueues (vdev w)) = 3" using send.prems by (simp_all add: world_inv_def)
  from raw_send_inv [OF inv this, of bufs] send show ?case by (auto simp: world_inv_def)
next
  case (receive packet_setup nr w s pkts d s')
  obtain fr N where inv: "queue_inv (virtqueues (vdev w) ! vq) (seen w) fr (owned w) N" using receive.prems by (auto simp: world_inv_def)
  have "vq < 3" "length (virtqueues (vdev w)) = 3" using receive.prems by (simp_all add: world_inv_def)
  from raw_receive_inv [OF inv this receive.hyps] receive.prems show ?case by (auto simp: world_inv_def)
next
  case (fetch w)
  obtain fr N where inv: "queue_inv (virtqueues (vdev w) ! vq) (seen w) fr (owned w) N" using fetch.prems by (auto simp: world_inv_def)
  from fetch_inv [OF this fetch.hyps] fetch.prems show ?case by (auto simp: world_inv_def)
next
  case (give_back i w len)
  then show ?case using give_back_inv [of "virtqueues (vdev w) ! vq" "seen w" _ "owned w" _ i len] by (auto simp: world_inv_def)
next
  case (set_flags w fl)
  then show ?case
    by (auto simp: world_inv_def queue_inv_def wf_queue_def in_flight_def offered_def returned_def packets_of_def)
qed

text \<open>A queue as the driver sets it up; its size is the one that the device reports.\<close>

definition start_queue :: "u32 \<Rightarrow> ring \<Rightarrow> virtqueue" where
  "start_queue n r = \<lparr>queue_size = n, last_used_idx = 0,
     vq_desc = replicate (unat n) \<lparr>vd_addr = 0, vd_len = 0, vd_flags = 0, vd_next = 0\<rparr>,
     avail_flags = 0, avail_idx = 0, avail_ring = replicate (unat n) 0, used_flags = 0, used_idx = 0,
     used_ring = replicate (unat n) (0, 0), free_desc_ring = r, vq_opaque = replicate (unat n) NULL\<rparr>"

definition started :: "nat \<Rightarrow> u32 \<Rightarrow> u8 list \<Rightarrow> vq_world \<Rightarrow> bool" where
  "started vq n mem w \<longleftrightarrow> vq < NR_VIRTQUEUES \<and> length (virtqueues (vdev w)) = NR_VIRTQUEUES \<and>
     (case init_free_desc_ring n mem of None \<Rightarrow> False | Some r \<Rightarrow> virtqueues (vdev w) ! vq = start_queue n r) \<and>
     seen w = 0 \<and> owned w = [] \<and> sent w = [] \<and> received w = []"

lemma started_inv:
  assumes "started vq n mem w" "0 < unat n" "unat n dvd 65536" "unat n \<le> 32768" "2 * unat n + 1 \<le> length mem"
  shows "world_inv vq w"
proof -
  obtain r where r: "init_free_desc_ring n mem = Some r" "free_ids r [0..<unat n] (unat n)" using init_free_ids assms(4,5) by blast
  then have q: "virtqueues (vdev w) ! vq = start_queue n r" using assms(1) by (simp add: started_def)
  have fl: "in_flight (start_queue n r) 0 [] = []" by (simp add: in_flight_def offered_def returned_def start_queue_def)
  then have "queue_inv (start_queue n r) 0 [0..<unat n] [] (unat n)"
    using r(2) assms(2-4) by (simp add: queue_inv_def wf_queue_def) (simp add: start_queue_def)
  then show ?thesis using assms(1) q fl by (auto simp: world_inv_def started_def packets_of_def)
qed

lemma vq_reachable_inv:
  assumes "rtranclp (vq_step vq) w w'" "world_inv vq w"
  shows "world_inv vq w'"
  using assms by (induction rule: rtranclp_induct) (auto intro: vq_step_inv)

subsection \<open>Property\<close>

text \<open>C40. Driver and device work on one queue, in any order: the driver sends and receives, the device fetches
  offered descriptors, returns descriptors it has, and sets its flags. The size of the queue is a power of two (so it divides \<open>2 ^ 16\<close>) and at
  most \<open>2 ^ 15\<close>, as virtio demands. Then sending always returns and accepts as many buffers as there are free descriptors, receiving always returns
  and delivers what the device has returned, up to the requested number, no descriptor is in use twice, and no packet is lost or duplicated: the packets sent
  are those received and those in flight. The indices of the rings may wrap any number of times.\<close>

theorem packets_conserved:
  assumes "started vq n mem w\<^sub>0" "0 < unat n" "unat n dvd 65536" "unat n \<le> 32768" "2 * unat n + 1 \<le> length mem"
    and "rtranclp (vq_step vq) w\<^sub>0 w"
  defines "q \<equiv> virtqueues (vdev w) ! vq"
  shows "(\<exists>d. virtio_net_device_raw_send vq bufs (vdev w) = Some (min (length bufs) (ring_count (free_desc_ring q) div 2), d)) \<and>
    (\<exists>pkts d. virtio_net_device_raw_receive (\<lambda>_ _ _ s. Some s) vq nr (vdev w, ()) = Some (pkts, d, ()) \<and>
      length pkts = min (nat nr) (length (returned q))) \<and>
    distinct (in_flight q (seen w) (owned w)) \<and>
    mset (sent w) = mset (received w) + packets_of q (in_flight q (seen w) (owned w))"
proof -
  have w: "world_inv vq w" using vq_reachable_inv [OF assms(6)] started_inv [OF assms(1-5)] by blast
  then obtain fr N where inv: "queue_inv q (seen w) fr (owned w) N" and vq: "vq < 3" "length (virtqueues (vdev w)) = 3"
    by (auto simp: world_inv_def q_def)
  have "ring_bytes (free_desc_ring q) = concat (map desc_bytes fr)" using inv by (simp add: queue_inv_def free_ids_def)
  then have "ring_count (free_desc_ring q) = 2 * length fr" using length_ring_bytes [of "free_desc_ring q"] by simp
  then have "\<exists>d. virtio_net_device_raw_send vq bufs (vdev w) = Some (min (length bufs) (ring_count (free_desc_ring q) div 2), d)"
    using raw_send_inv [of "vdev w" vq, OF inv [unfolded q_def] vq, of bufs] by auto
  moreover obtain pkts q' where "raw_receive_loop (\<lambda>_ _ _ s. Some s) (nat nr) (last_used_idx q) [] (q, ()) = Some (pkts, q', ())"
    "length pkts = min (nat nr) (unat (used_idx q - last_used_idx q))"
    using raw_receive_loop_returns [of "last_used_idx q" q "seen w" fr "owned w" N "\<lambda>_ _ _ s. Some s" "nat nr" "[]" "()"] inv by auto
  then have "\<exists>pkts d. virtio_net_device_raw_receive (\<lambda>_ _ _ s. Some s) vq nr (vdev w, ()) = Some (pkts, d, ()) \<and>
      length pkts = min (nat nr) (length (returned q))"
    by (simp add: virtio_net_device_raw_receive_def Let_def returned_def flip: q_def)
  moreover have "distinct (in_flight q (seen w) (owned w))" using queue_inv_facts(1) [OF inv] by simp
  ultimately show ?thesis using w by (simp add: world_inv_def flip: q_def)
qed

text \<open>A queue of two descriptors, and the driver sends a packet.\<close>

definition demo_world :: vq_world where
  "demo_world = \<lparr>vdev = \<lparr>mac = [], mtu = 1514, ifaceid = 0, virtqueues =
     replicate 3 (start_queue 2 (the (init_free_desc_ring 2 (replicate 5 0)))), vq_notified = []\<rparr>,
     seen = 0, owned = [], sent = [], received = []\<rparr>"

lemma demo_started: "started 1 2 (replicate 5 0) demo_world"
  using init_free_ids [of 2 "replicate 5 0"] by (auto simp: started_def demo_world_def)

theorem packets_conserved_witness:
  "\<exists>w. rtranclp (vq_step 1) demo_world w \<and> sent w = [0x4000] \<and>
     mset (sent w) = mset (received w) + packets_of (virtqueues (vdev w) ! 1) (in_flight (virtqueues (vdev w) ! 1) (seen w) (owned w))"
proof -
  let ?d = "\<lparr>vd_addr = 0x4000, vd_len = 100, vd_flags = 0, vd_next = 0\<rparr>"
  have h: "0 < unat (2 :: u32)" "unat (2 :: u32) dvd 65536" "unat (2 :: u32) \<le> 32768" "2 * unat (2 :: u32) + 1 \<le> length (replicate 5 (0 :: u8))"
    by simp_all
  obtain r where r: "init_free_desc_ring 2 (replicate 5 0) = Some r" "free_ids r [0..<2] 2" using init_free_ids [of 2 "replicate 5 0"] by auto
  then have "ring_count r = 4" using length_ring_bytes [of r] by (simp add: free_ids_def numeral_2_eq_2 desc_bytes_def)
  moreover have "free_desc_ring (virtqueues (vdev demo_world) ! 1) = r" using r(1) by (simp add: demo_world_def start_queue_def)
  ultimately obtain d where d: "virtio_net_device_raw_send 1 [(?d, 0x4000)] (vdev demo_world) = Some (1, d)"
    using packets_conserved [OF demo_started h rtranclp.rtrancl_refl, of "[(?d, 0x4000)]"] by auto
  let ?w = "demo_world\<lparr>vdev := d, sent := [0x4000]\<rparr>"
  have "vq_step 1 demo_world (demo_world\<lparr>vdev := d, sent := sent demo_world @ take 1 (map snd [(?d, 0x4000)])\<rparr>)" by (rule send [OF d])
  then have "rtranclp (vq_step 1) demo_world ?w" by (simp add: demo_world_def)
  from packets_conserved [OF demo_started h this] this show ?thesis by (intro exI [of _ ?w]) simp
qed

end
