(* ===== verification/Io_Port.thy ===== *)
theory Io_Port
  imports Kernel_Prelude "HOL-Library.State_Monad"
begin

section \<open>Input and output ports (\<^verbatim>\<open>x86/ioport.c\<close>, \<^verbatim>\<open>kernel/rtc.c\<close>)\<close>

text \<open>
  What the hardware answers to a read depends on everything that was read and written before. The state is that history,
  and the hardware is a function from the history, with the read at its end, to the answer. Code that only talks to ports is written in the
  state monad.
\<close>

datatype io_event = Out8 u16 u8 | Out16 u16 u16 | Out32 u16 u32 | In8 u16 | In16 u16 | In32 u16

record io =
  io_log :: "io_event list"
  hardware :: "io_event list \<Rightarrow> u32"

definition io_event :: "io_event \<Rightarrow> (io, u32) state" where
  "io_event ev = State (\<lambda>s. let s = s\<lparr>io_log := io_log s @ [ev]\<rparr> in (hardware s (io_log s), s))"

definition io_inb :: "u16 \<Rightarrow> (io, u8) state" where
  "io_inb port = do { v \<leftarrow> io_event (In8 port); State_Monad.return (ucast v) }"

definition io_outb :: "u16 \<Rightarrow> u8 \<Rightarrow> (io, unit) state" where
  "io_outb port v = do { _ \<leftarrow> io_event (Out8 port v); State_Monad.return () }"

definition io_inw :: "u16 \<Rightarrow> (io, u16) state" where
  "io_inw port = do { v \<leftarrow> io_event (In16 port); State_Monad.return (ucast v) }"

definition io_outw :: "u16 \<Rightarrow> u16 \<Rightarrow> (io, unit) state" where
  "io_outw port v = do { _ \<leftarrow> io_event (Out16 port v); State_Monad.return () }"

definition io_inl :: "u16 \<Rightarrow> (io, u32) state" where
  "io_inl port = io_event (In32 port)"

definition io_outl :: "u16 \<Rightarrow> u32 \<Rightarrow> (io, unit) state" where
  "io_outl port v = do { _ \<leftarrow> io_event (Out32 port v); State_Monad.return () }"

named_theorems io_simps \<open>unfolding of port accesses\<close>

lemmas io_defs [io_simps] = io_event_def io_inb_def io_outb_def io_inw_def io_outw_def io_inl_def io_outl_def
  State_Monad.bind_def State_Monad.return_def

text \<open>A loop that reads a port until a condition holds; it need not end.\<close>

partial_function (option) poll_inb :: "u16 \<Rightarrow> (u8 \<Rightarrow> bool) \<Rightarrow> io \<Rightarrow> (u8 \<times> io) option" where
  "poll_inb port ready s =
     (if ready (fst (run_state (io_inb port) s)) then Some (run_state (io_inb port) s)
      else poll_inb port ready (snd (run_state (io_inb port) s)))"

declare poll_inb.simps [code]

text \<open>If the hardware becomes ready after finitely many reads of the port, the loop ends with the first such answer.\<close>

lemma poll_inb_returns:
  assumes "\<And>i. i < n \<Longrightarrow> \<not> ready (ucast (hardware s (io_log s @ replicate (Suc i) (In8 port))))"
    and "ready (ucast (hardware s (io_log s @ replicate (Suc n) (In8 port))))"
  shows "poll_inb port ready s = Some (ucast (hardware s (io_log s @ replicate (Suc n) (In8 port))),
    s\<lparr>io_log := io_log s @ replicate (Suc n) (In8 port)\<rparr>)"
  using assms
proof (induction n arbitrary: s)
  case 0
  then show ?case by (subst poll_inb.simps) (simp add: io_simps Let_def)
next
  case (Suc n)
  let ?s = "s\<lparr>io_log := io_log s @ [In8 port]\<rparr>"
  have run: "run_state (io_inb port) s = (ucast (hardware s (io_log s @ [In8 port])), ?s)" by (simp add: io_simps Let_def)
  have "\<not> ready (ucast (hardware s (io_log s @ [In8 port])))" using Suc.prems(1) [of 0] by simp
  then have "poll_inb port ready s = poll_inb port ready ?s" by (subst poll_inb.simps) (simp add: run)
  also have "\<dots> = Some (ucast (hardware ?s (io_log ?s @ replicate (Suc n) (In8 port))),
      ?s\<lparr>io_log := io_log ?s @ replicate (Suc n) (In8 port)\<rparr>)"
  proof (intro Suc.IH)
    fix i assume "i < n"
    then show "\<not> ready (ucast (hardware ?s (io_log ?s @ replicate (Suc i) (In8 port))))" using Suc.prems(1) [of "Suc i"] by simp
  qed (use Suc.prems(2) in simp)
  finally show ?case by simp
qed

subsection \<open>The clock (\<^verbatim>\<open>kernel/rtc.c\<close>)\<close>

record rtc_datetime =
  rtc_second :: u8
  rtc_minute :: u8
  rtc_hour :: u8
  rtc_month :: u8
  rtc_year :: u8
  rtc_weekday :: u8
  rtc_day_of_month :: u8

definition read_cmos :: "u8 \<Rightarrow> (io, u8) state" where
  "read_cmos register_number = do {
     _ \<leftarrow> io_outb 0x70 (register_number AND 0x7f);
     io_inb 0x71
   }"

definition read_rtc_datetime :: "(io, rtc_datetime) state" where
  "read_rtc_datetime = do {
     sec \<leftarrow> read_cmos 0;
     minute \<leftarrow> read_cmos 2;
     hour \<leftarrow> read_cmos 4;
     month \<leftarrow> read_cmos 8;
     year \<leftarrow> read_cmos 9;
     weekday \<leftarrow> read_cmos 6;
     day \<leftarrow> read_cmos 7;
     State_Monad.return \<lparr>rtc_second = sec, rtc_minute = minute, rtc_hour = hour, rtc_month = month, rtc_year = year,
       rtc_weekday = weekday, rtc_day_of_month = day\<rparr>
   }"

end
