(* ===== verification/Pci.thy ===== *)
theory Pci
  imports Io_Port Fs_Hierarchy Interrupt
begin

section \<open>The PCI bus (\<^verbatim>\<open>device/pci.c\<close>, \<^verbatim>\<open>device/include/pci.h\<close>, \<^verbatim>\<open>device/virtio_pci.c\<close>)\<close>

text \<open>
  Access to the configuration space, the search for devices and the choice of their drivers. The list cells of devices and drivers are their
  first members and live in the memory of list cells. Attaching a device calls the driver through an argument.
\<close>

abbreviation (input) PCI_OCNFIG_ADDRESS :: u16 where "PCI_OCNFIG_ADDRESS \<equiv> 0xcf8"
abbreviation (input) PCI_CONFIG_DATA :: u16 where "PCI_CONFIG_DATA \<equiv> 0xcfc"
abbreviation (input) SIZEOF_PCI_DEVICE :: int where "SIZEOF_PCI_DEVICE \<equiv> 92"
abbreviation (input) SIZEOF_LINKED_HANDLER :: int where "SIZEOF_LINKED_HANDLER \<equiv> 16"

record pci_driver =
  drv_vendor_id :: u16
  drv_device_id :: u16
  drv_class :: u8
  drv_subclass :: u8
  drv_attach :: u32

record pci_device =
  pd_bus :: u8
  pd_device :: u8
  pd_function :: u8
  pd_bar :: "u32 list"
  pd_bar_size :: "u32 list"
  pd_bar_ioaddr :: "u32 list"
  pd_driver :: addr
  pd_priv :: addr

record pci =
  pci_devices :: "addr \<Rightarrow> pci_device"
  pci_drivers :: "addr \<Rightarrow> pci_driver"
  pci_device_list :: addr
  pci_driver_list :: addr

subsection \<open>The configuration space\<close>

definition pci_config_address :: "u8 \<Rightarrow> u8 \<Rightarrow> u8 \<Rightarrow> u8 \<Rightarrow> u32" where
  "pci_config_address bus device function offset =
     push_bit 16 (ucast bus) OR push_bit 11 (ucast (device AND 0x1f)) OR push_bit 8 (ucast (function AND 0x7)) OR
     ucast (offset AND 0xfc) OR 0x80000000"

definition pci_config_read_dword :: "u8 \<Rightarrow> u8 \<Rightarrow> u8 \<Rightarrow> u8 \<Rightarrow> (io, u32) state" where
  "pci_config_read_dword bus device function offset = do {
     _ \<leftarrow> io_outl PCI_OCNFIG_ADDRESS (pci_config_address bus device function offset);
     io_inl PCI_CONFIG_DATA
   }"

definition pci_config_read_word :: "u8 \<Rightarrow> u8 \<Rightarrow> u8 \<Rightarrow> u8 \<Rightarrow> (io, u16) state" where
  "pci_config_read_word bus device function offset = do {
     dword \<leftarrow> pci_config_read_dword bus device function offset;
     State_Monad.return (ucast (drop_bit (unat (offset AND 0x3) * 8) dword AND 0xffff))
   }"

definition pci_config_read_byte :: "u8 \<Rightarrow> u8 \<Rightarrow> u8 \<Rightarrow> u8 \<Rightarrow> (io, u8) state" where
  "pci_config_read_byte bus device function offset = do {
     dword \<leftarrow> pci_config_read_dword bus device function offset;
     State_Monad.return (ucast (drop_bit (unat (offset AND 0x3) * 8) dword AND 0xff))
   }"

definition pci_config_write_dword :: "u8 \<Rightarrow> u8 \<Rightarrow> u8 \<Rightarrow> u8 \<Rightarrow> u32 \<Rightarrow> (io, unit) state" where
  "pci_config_write_dword bus device function offset data = do {
     _ \<leftarrow> io_outl PCI_OCNFIG_ADDRESS (pci_config_address bus device function offset);
     io_outl PCI_CONFIG_DATA data
   }"

definition pci_config_write_word :: "u8 \<Rightarrow> u8 \<Rightarrow> u8 \<Rightarrow> u8 \<Rightarrow> u16 \<Rightarrow> (io, unit) state" where
  "pci_config_write_word bus device function offset data = do {
     _ \<leftarrow> io_outl PCI_OCNFIG_ADDRESS (pci_config_address bus device function offset);
     io_outw PCI_CONFIG_DATA data
   }"

definition device_word :: "pci_device \<Rightarrow> u8 \<Rightarrow> (io, u16) state" where
  "device_word p offset = pci_config_read_word (pd_bus p) (pd_device p) (pd_function p) offset"

definition device_byte :: "pci_device \<Rightarrow> u8 \<Rightarrow> (io, u8) state" where
  "device_byte p offset = pci_config_read_byte (pd_bus p) (pd_device p) (pd_function p) offset"

definition pci_device_vendor_id :: "pci_device \<Rightarrow> (io, u16) state" where "pci_device_vendor_id p = device_word p 0x0"
definition pci_device_device_id :: "pci_device \<Rightarrow> (io, u16) state" where "pci_device_device_id p = device_word p 0x2"
definition pci_device_command :: "pci_device \<Rightarrow> (io, u16) state" where "pci_device_command p = device_word p 0x4"
definition pci_device_status :: "pci_device \<Rightarrow> (io, u16) state" where "pci_device_status p = device_word p 0x6"
definition pci_device_revision_id :: "pci_device \<Rightarrow> (io, u8) state" where "pci_device_revision_id p = device_byte p 0x8"
definition pci_device_prog_if :: "pci_device \<Rightarrow> (io, u8) state" where "pci_device_prog_if p = device_byte p 0x9"
definition pci_device_subclass :: "pci_device \<Rightarrow> (io, u8) state" where "pci_device_subclass p = device_byte p 0xa"
definition pci_device_class :: "pci_device \<Rightarrow> (io, u8) state" where "pci_device_class p = device_byte p 0xb"
definition pci_device_header_type :: "pci_device \<Rightarrow> (io, u8) state" where "pci_device_header_type p = device_byte p 0xe"
definition pci_device_interrupt_line :: "pci_device \<Rightarrow> (io, u8) state" where "pci_device_interrupt_line p = device_byte p 0x3c"
definition pci_device_interrupt_pin :: "pci_device \<Rightarrow> (io, u8) state" where "pci_device_interrupt_pin p = device_byte p 0x3d"

definition pci_device_bar :: "pci_device \<Rightarrow> int \<Rightarrow> (io, u32) state" where
  "pci_device_bar p bar =
     (if bar < 0 \<or> bar > 5 then State_Monad.return 0
      else pci_config_read_dword (pd_bus p) (pd_device p) (pd_function p) (0x10 + 4 * of_int bar))"

definition pci_device_bar_size :: "pci_device \<Rightarrow> int \<Rightarrow> (io, u32) state" where
  "pci_device_bar_size p bar =
     (if bar < 0 \<or> bar > 5 then State_Monad.return 0
      else do {
        let offset = 0x10 + 4 * of_int bar;
        original_bar_data \<leftarrow> pci_config_read_dword (pd_bus p) (pd_device p) (pd_function p) offset;
        if original_bar_data = 0 then State_Monad.return 0
        else do {
          _ \<leftarrow> pci_config_write_dword (pd_bus p) (pd_device p) (pd_function p) offset 0xffffffff;
          bar_size \<leftarrow> pci_config_read_dword (pd_bus p) (pd_device p) (pd_function p) offset;
          let bar_size = bar_size AND (if bar_size AND 0x1 \<noteq> 0 then 0xfffffffc else 0xfffffff0);
          _ \<leftarrow> pci_config_write_dword (pd_bus p) (pd_device p) (pd_function p) offset original_bar_data;
          State_Monad.return (NOT bar_size + 1)
        }
      })"

definition pci_device_enable_interrupt_line :: "pci_device \<Rightarrow> (io, unit) state" where
  "pci_device_enable_interrupt_line p = do {
     command \<leftarrow> pci_device_command p;
     pci_config_write_word (pd_bus p) (pd_device p) (pd_function p) 0x4 (command AND NOT 0x400)
   }"

subsection \<open>Devices and drivers\<close>

type_synonym pci_state = "kernel \<times> pci \<times> io"

text \<open>One function of one device: the body of the three nested loops.\<close>

fun read_bars :: "nat list \<Rightarrow> pci_device \<Rightarrow> (io, pci_device) state" where
  "read_bars [] p = State_Monad.return p"
| "read_bars (bar # bars) p = do {
     v \<leftarrow> pci_device_bar p (int bar);
     n \<leftarrow> pci_device_bar_size p (int bar);
     read_bars bars (p\<lparr>pd_bar := (pd_bar p)[bar := v], pd_bar_size := (pd_bar_size p)[bar := n],
       pd_bar_ioaddr := (pd_bar_ioaddr p)[bar := (if v AND 1 \<noteq> 0 then v AND 0xfffffffc else v AND 0xfffffff0)]\<rparr>)
   }"

definition enumerate_function :: "u8 \<times> u8 \<times> u8 \<Rightarrow> pci_state \<Rightarrow> pci_state option" where
  "enumerate_function = (\<lambda>(bus, device, function) (k, p, i). do {
     let (vendor_id, i) = run_state (pci_config_read_word bus device function 0) i;
     if vendor_id = 0xffff then Some (k, p, i)
     else do {
       (d, k) \<leftarrow> kmalloc SIZEOF_PCI_DEVICE k;
       let pd = \<lparr>pd_bus = bus, pd_device = device, pd_function = function, pd_bar = replicate 6 0, pd_bar_size = replicate 6 0,
         pd_bar_ioaddr = replicate 6 0, pd_driver = NULL, pd_priv = NULL\<rparr>;
       let (pd, i) = run_state (read_bars [0..<6] pd) i;
       h \<leftarrow> list_append ((lists k)(d := zero_cell)) (pci_device_list p) d;
       Some (k\<lparr>lists := h\<rparr>, p\<lparr>pci_devices := (pci_devices p)(d := pd)\<rparr>, i)
     }
   })"

definition pci_functions :: "(u8 \<times> u8 \<times> u8) list" where
  "pci_functions = map (\<lambda>n. (of_nat (n div 256), of_nat (n div 8 mod 32), of_nat (n mod 8))) [0..<65536]"

definition enumerate_pci_devices :: "pci_state \<Rightarrow> pci_state option" where
  "enumerate_pci_devices s = fold (\<lambda>f s. do { s \<leftarrow> s; enumerate_function f s }) pci_functions (Some s)"

definition register_pci_device_driver :: "addr \<Rightarrow> kernel \<times> pci \<Rightarrow> (kernel \<times> pci) option" where
  "register_pci_device_driver driver = (\<lambda>(k, p). do {
     h \<leftarrow> list_append (lists k) (pci_driver_list p) driver;
     Some (k\<lparr>lists := h\<rparr>, p)
   })"

definition register_pci_interrupt_linked_interrupt_handler ::
    "pci_device \<Rightarrow> u32 \<Rightarrow> u32 \<Rightarrow> kernel \<times> intr \<times> io \<Rightarrow> (kernel \<times> intr \<times> io) option" where
  "register_pci_interrupt_linked_interrupt_handler p handler blob = (\<lambda>(k, n, i). do {
     let (line, i) = run_state (pci_device_interrupt_line p) i;
     (l, k) \<leftarrow> malloc_mapped SIZEOF_LINKED_HANDLER k;
     kassert (l \<noteq> NULL);
     n \<leftarrow> setup_compound_interrupt_handler (uint line + 0x20) n;
     let n = n\<lparr>ih_cells := list_init (ih_cells n) l, linked_handler := (linked_handler n)(l := (handler, blob))\<rparr>;
     n \<leftarrow> register_linked_interrupt_handler (uint line + 0x20) l n;
     Some (k, n, i)
   })"

definition pci_pre_init :: "kernel \<times> pci \<Rightarrow> kernel \<times> pci" where
  "pci_pre_init = (\<lambda>(k, p). (k\<lparr>lists := list_init (list_init (lists k) (pci_device_list p)) (pci_driver_list p)\<rparr>, p))"

definition driver_matches :: "pci_driver \<Rightarrow> u16 \<Rightarrow> u16 \<Rightarrow> u8 \<Rightarrow> u8 \<Rightarrow> bool" where
  "driver_matches d vendor_id device_id cl subclass \<longleftrightarrow>
     drv_vendor_id d = vendor_id \<and> drv_device_id d = device_id \<and> drv_class d = cl \<and> drv_subclass d = subclass"

definition pci_device_probe_driver :: "pci_device \<Rightarrow> pci_state \<Rightarrow> (addr \<times> io) option" where
  "pci_device_probe_driver pd = (\<lambda>(k, p, i). do {
     let (vendor_id, i) = run_state (pci_device_vendor_id pd) i;
     let (device_id, i) = run_state (pci_device_device_id pd) i;
     let (cl, i) = run_state (pci_device_class pd) i;
     let (subclass, i) = run_state (pci_device_subclass pd) i;
     drivers \<leftarrow> list_elems (lists k) (pci_driver_list p);
     Some (case find (\<lambda>d. driver_matches (pci_drivers p d) vendor_id device_id cl subclass) drivers of None \<Rightarrow> NULL | Some d \<Rightarrow> d, i)
   })"

text \<open>\<open>attach\<close> is the function at an address; it works on the device at the address given to it.\<close>

partial_function (option) pci_attach_loop ::
    "(u32 \<Rightarrow> addr \<Rightarrow> pci_state \<Rightarrow> pci_state option) \<Rightarrow> addr \<Rightarrow> pci_state \<Rightarrow> pci_state option" where
  "pci_attach_loop attach e s =
     (if e = NULL then Some s
      else (case s of (k, p, i) \<Rightarrow> do {
        let nxt = le_next (lists k e);
        if pd_driver (pci_devices p e) \<noteq> NULL then pci_attach_loop attach nxt (k, p, i)
        else do {
          (target_driver, i) \<leftarrow> pci_device_probe_driver (pci_devices p e) (k, p, i);
          if target_driver = NULL then pci_attach_loop attach nxt (k, p, i)
          else do {
            let p = p\<lparr>pci_devices := (pci_devices p)(e := (pci_devices p e)\<lparr>pd_driver := target_driver\<rparr>)\<rparr>;
            s \<leftarrow> (if drv_attach (pci_drivers p target_driver) \<noteq> 0
              then attach (drv_attach (pci_drivers p target_driver)) e (k, p, i) else Some (k, p, i));
            pci_attach_loop attach nxt s
          }
        }
      }))"

declare pci_attach_loop.simps [code]

definition pci_post_init :: "(u32 \<Rightarrow> addr \<Rightarrow> pci_state \<Rightarrow> pci_state option) \<Rightarrow> pci_state \<Rightarrow> pci_state option" where
  "pci_post_init attach = (\<lambda>(k, p, i). pci_attach_loop attach (le_next (lists k (pci_device_list p))) (k, p, i))"

subsection \<open>Registers of virtio devices (\<^verbatim>\<open>device/virtio_pci.c\<close>)\<close>

definition virtio_port :: "pci_device \<Rightarrow> u16 \<Rightarrow> u16" where
  "virtio_port p offset = ucast (pd_bar_ioaddr p ! 0) + offset"

definition virtio_dev_get_status :: "pci_device \<Rightarrow> (io, u8) state" where
  "virtio_dev_get_status p = io_inb (virtio_port p 0x12)"

definition virtio_dev_get_isr :: "pci_device \<Rightarrow> (io, u8) state" where
  "virtio_dev_get_isr p = io_inb (virtio_port p 0x13)"

definition virtio_dev_set_status :: "pci_device \<Rightarrow> u8 \<Rightarrow> (io, unit) state" where
  "virtio_dev_set_status p status = do {
     old_status \<leftarrow> (if status \<noteq> 0 then io_inb (virtio_port p 0x12) else State_Monad.return 0);
     io_outb (virtio_port p 0x12) (status OR old_status)
   }"

definition virtio_dev_reset :: "pci_device \<Rightarrow> (io, unit) state" where
  "virtio_dev_reset p = virtio_dev_set_status p 0"

definition virtio_dev_negotiate_features :: "pci_device \<Rightarrow> u32 \<Rightarrow> (io, u32) state" where
  "virtio_dev_negotiate_features p features = do {
     feature_request \<leftarrow> io_inl (virtio_port p 0x0);
     _ \<leftarrow> io_outl (virtio_port p 0x4) (feature_request AND features);
     io_inl (virtio_port p 0x4)
   }"

subsection \<open>The size of a region is found without changing it\<close>

text \<open>Whatever the hardware answers, the last thing written to the register is what was read from it at first.\<close>

lemma pci_device_bar_size_restores:
  assumes "bar_size \<noteq> 0" "0 \<le> bar" "bar \<le> 5"
    and "run_state (pci_device_bar_size p bar) s = (bar_size, s')"
  defines "a \<equiv> pci_config_address (pd_bus p) (pd_device p) (pd_function p) (0x10 + 4 * of_int bar)"
  defines "v \<equiv> hardware s (io_log s @ [Out32 PCI_OCNFIG_ADDRESS a, In32 PCI_CONFIG_DATA])"
  shows "io_log s' = io_log s @ [Out32 PCI_OCNFIG_ADDRESS a, In32 PCI_CONFIG_DATA, Out32 PCI_OCNFIG_ADDRESS a, Out32 PCI_CONFIG_DATA 0xffffffff,
      Out32 PCI_OCNFIG_ADDRESS a, In32 PCI_CONFIG_DATA, Out32 PCI_OCNFIG_ADDRESS a, Out32 PCI_CONFIG_DATA v]"
  using assms(1-4) unfolding v_def a_def
  by (auto simp: pci_device_bar_size_def pci_config_read_dword_def pci_config_write_dword_def io_simps Let_def split: if_splits)

end
