(* ===== verification/Ata.thy ===== *)
theory Ata
  imports Io_Port Fs_Hierarchy
begin

section \<open>Disks (\<^verbatim>\<open>device/ata.c\<close>)\<close>

text \<open>
  Identification of the drives and access to single sectors by programmed input and output. A sector is a list of 256 words of 16 bits.
  The loops that wait for a drive need not end.
\<close>

abbreviation (input) ATA_PRIMARY :: u8 where "ATA_PRIMARY \<equiv> 1"
abbreviation (input) ATA_SECONDARY :: u8 where "ATA_SECONDARY \<equiv> 0"
abbreviation (input) ATA_MASTER :: u8 where "ATA_MASTER \<equiv> 1"
abbreviation (input) ATA_SLAVE :: u8 where "ATA_SLAVE \<equiv> 0"
abbreviation (input) STATUS_REGISTER_OFFSET :: u16 where "STATUS_REGISTER_OFFSET \<equiv> 7"
abbreviation (input) DRIVER_REGISTER_OFFSET :: u16 where "DRIVER_REGISTER_OFFSET \<equiv> 6"
abbreviation (input) SIZEOF_ATA_DEVICE :: int where "SIZEOF_ATA_DEVICE \<equiv> 16"

datatype ata_device_type = UNDEFINED_DEVICE_TYPE | PATA_DEVICE | SATA_DEVICE | PATAPI_DEVICE | SATAPI_DEVICE

record ata_device =
  io_base :: u16
  ctrl_base :: u16
  ata_type :: ata_device_type
  ata_bus :: u8
  ata_drive :: u8

record ata =
  ata_devices :: "addr \<Rightarrow> ata_device"
  ata_device_list :: addr

definition bus_io_base :: "u8 \<Rightarrow> u16" where "bus_io_base bus = (if bus = ATA_PRIMARY then 0x1f0 else 0x170)"
definition bus_ctrl_base :: "u8 \<Rightarrow> u16" where "bus_ctrl_base bus = (if bus = ATA_PRIMARY then 0x3f6 else 0x376)"
definition drive_byte :: "u8 \<Rightarrow> u8" where "drive_byte drive = (if drive = ATA_MASTER then 0xa0 else 0xb0)"

definition ata_delay :: "u8 \<Rightarrow> (io, unit) state" where
  "ata_delay bus = do {
     let port = (if bus = ATA_MASTER then 0x1f0 else 0x170) + STATUS_REGISTER_OFFSET;
     _ \<leftarrow> io_inb port; _ \<leftarrow> io_inb port; _ \<leftarrow> io_inb port; _ \<leftarrow> io_inb port;
     State_Monad.return ()
   }"

definition select_drive :: "u8 \<Rightarrow> u8 \<Rightarrow> io \<Rightarrow> (int \<times> io) option" where
  "select_drive bus drive i = do {
     kassert (bus = ATA_PRIMARY \<or> bus = ATA_SECONDARY);
     kassert (drive = ATA_MASTER \<or> drive = ATA_SLAVE);
     Some (OK, snd (run_state (io_outb (bus_io_base bus + DRIVER_REGISTER_OFFSET) (drive_byte drive)) i))
   }"

definition identified_type :: "u8 \<Rightarrow> u8 \<Rightarrow> ata_device_type" where
  "identified_type mid high =
     (if mid = 0x14 \<and> high = 0xeb then PATAPI_DEVICE
      else if mid = 0x69 \<and> high = 0x96 then SATAPI_DEVICE
      else if mid = 0x3c \<and> high = 0xc3 then SATA_DEVICE
      else if mid = 0 \<and> high = 0 then PATA_DEVICE
      else UNDEFINED_DEVICE_TYPE)"

text \<open>The two parts of the identification that answer at once: is there a bus, and is there a drive.\<close>

definition identify_bus :: "u8 \<Rightarrow> u8 \<Rightarrow> (io, u8) state" where
  "identify_bus bus drive = do {
     _ \<leftarrow> io_outb (bus_io_base bus + DRIVER_REGISTER_OFFSET) (drive_byte drive);
     _ \<leftarrow> io_outb (bus_ctrl_base bus) 0;
     _ \<leftarrow> io_outb (bus_io_base bus + DRIVER_REGISTER_OFFSET) 0xa0;
     io_inb (bus_io_base bus + STATUS_REGISTER_OFFSET)
   }"

definition identify_command :: "u8 \<Rightarrow> u8 \<Rightarrow> (io, u8) state" where
  "identify_command bus drive = do {
     _ \<leftarrow> io_outb (bus_io_base bus + DRIVER_REGISTER_OFFSET) (drive_byte drive);
     _ \<leftarrow> io_outb (bus_io_base bus + 2) 0;
     _ \<leftarrow> io_outb (bus_io_base bus + 3) 0;
     _ \<leftarrow> io_outb (bus_io_base bus + 4) 0;
     _ \<leftarrow> io_outb (bus_io_base bus + 5) 0;
     _ \<leftarrow> io_outb (bus_io_base bus + STATUS_REGISTER_OFFSET) 0xec;
     io_inb (bus_io_base bus + STATUS_REGISTER_OFFSET)
   }"

definition identify_drive :: "u8 \<Rightarrow> u8 \<Rightarrow> kernel \<times> ata \<times> io \<Rightarrow> (kernel \<times> ata \<times> io) option" where
  "identify_drive bus drive = (\<lambda>(k, a, i). do {
     let (status, i) = run_state (identify_bus bus drive) i;
     if status = 0xff then Some (k, a, i)
     else do {
       let (status, i) = run_state (identify_command bus drive) i;
       if status = 0 then Some (k, a, i)
       else do {
         (_, i) \<leftarrow> poll_inb (bus_io_base bus + STATUS_REGISTER_OFFSET) (\<lambda>v. v AND 0x80 = 0) i;
         let (mid, i) = run_state (io_inb (bus_io_base bus + 4)) i;
         let (high, i) = run_state (io_inb (bus_io_base bus + 5)) i;
         (d, k) \<leftarrow> kmalloc SIZEOF_ATA_DEVICE k;
         let dev = \<lparr>io_base = bus_io_base bus, ctrl_base = bus_ctrl_base bus, ata_type = identified_type mid high, ata_bus = bus, ata_drive = drive\<rparr>;
         h \<leftarrow> list_append ((lists k)(d := zero_cell)) (ata_device_list a) d;
         Some (k\<lparr>lists := h\<rparr>, a\<lparr>ata_devices := (ata_devices a)(d := dev)\<rparr>, i)
       }
     }
   })"

definition reset_ata_device :: "ata_device \<Rightarrow> (io, unit) state" where
  "reset_ata_device d = do {
     _ \<leftarrow> io_outb (ctrl_base d) 0x04; _ \<leftarrow> ata_delay (ata_bus d);
     _ \<leftarrow> io_outb (ctrl_base d) 0; ata_delay (ata_bus d)
   }"

definition disable_interrupt :: "ata_device \<Rightarrow> (io, unit) state" where
  "disable_interrupt d = do { _ \<leftarrow> io_outb (ctrl_base d) 0x2; ata_delay (ata_bus d) }"

definition enable_interrupt :: "ata_device \<Rightarrow> (io, unit) state" where
  "enable_interrupt d = do { _ \<leftarrow> io_outb (ctrl_base d) 0; ata_delay (ata_bus d) }"

text \<open>The loop ends with the first answer that reports an error, or data.\<close>

definition poll_done :: "u8 \<Rightarrow> bool" where
  "poll_done status \<longleftrightarrow> status AND 0x01 \<noteq> 0 \<or> status AND 0x20 \<noteq> 0 \<or> (status AND 0x80 = 0 \<and> status AND 0x08 \<noteq> 0)"

definition ata_device_poll :: "ata_device \<Rightarrow> io \<Rightarrow> (int \<times> io) option" where
  "ata_device_poll d i = do {
     (status, i) \<leftarrow> poll_inb (io_base d + STATUS_REGISTER_OFFSET) poll_done i;
     Some (if status AND 0x01 \<noteq> 0 \<or> status AND 0x20 \<noteq> 0 then - ERR_DEVICE_FAULT else OK, i)
   }"

definition sector_command :: "ata_device \<Rightarrow> u32 \<Rightarrow> u8 \<Rightarrow> (io, unit) state" where
  "sector_command d LBA28 cmd = do {
     _ \<leftarrow> io_outb (io_base d + DRIVER_REGISTER_OFFSET)
       ((if ata_drive d = ATA_MASTER then 0xe0 else 0xf0) OR ucast (drop_bit 24 LBA28 AND 0x0f));
     _ \<leftarrow> io_outb (io_base d + 1) 0;
     _ \<leftarrow> io_outb (io_base d + 2) 1;
     _ \<leftarrow> io_outb (io_base d + 3) (ucast LBA28);
     _ \<leftarrow> io_outb (io_base d + 4) (ucast (drop_bit 8 LBA28));
     _ \<leftarrow> io_outb (io_base d + 5) (ucast (drop_bit 16 LBA28));
     io_outb (io_base d + STATUS_REGISTER_OFFSET) cmd
   }"

fun out_words :: "u16 \<Rightarrow> u16 list \<Rightarrow> (io, unit) state" where
  "out_words port [] = State_Monad.return ()"
| "out_words port (v # vs) = do { _ \<leftarrow> io_outw port v; out_words port vs }"

fun in_words :: "u16 \<Rightarrow> nat \<Rightarrow> (io, u16 list) state" where
  "in_words port 0 = State_Monad.return []"
| "in_words port (Suc n) = do { v \<leftarrow> io_inw port; vs \<leftarrow> in_words port n; State_Monad.return (v # vs) }"

definition ata_device_write_one_sector :: "ata_device \<Rightarrow> u32 \<Rightarrow> u16 list \<Rightarrow> io \<Rightarrow> (int \<times> io) option" where
  "ata_device_write_one_sector d LBA28 buf i = do {
     let (_, i) = run_state (sector_command d LBA28 0x30) i;
     (_, i) \<leftarrow> poll_inb (io_base d + STATUS_REGISTER_OFFSET) (\<lambda>v. v AND 0x80 = 0) i;
     kassert (256 \<le> length buf);
     Some (OK, snd (run_state (out_words (io_base d) (take 256 buf)) i))
   }"

definition ata_device_flush_cache :: "ata_device \<Rightarrow> io \<Rightarrow> io option" where
  "ata_device_flush_cache d i = do {
     let (_, i) = run_state (io_outb (io_base d + DRIVER_REGISTER_OFFSET) (if ata_drive d = ATA_MASTER then 0xe0 else 0xf0)) i;
     let (_, i) = run_state (io_outb (io_base d + STATUS_REGISTER_OFFSET) 0xe7) i;
     (_, i) \<leftarrow> ata_device_poll d i;
     Some i
   }"

definition ata_device_read_one_sector :: "ata_device \<Rightarrow> u32 \<Rightarrow> io \<Rightarrow> (int \<times> u16 list \<times> io) option" where
  "ata_device_read_one_sector d LBA28 i = do {
     let (_, i) = run_state (sector_command d LBA28 0x20) i;
     (_, i) \<leftarrow> poll_inb (io_base d + STATUS_REGISTER_OFFSET) (\<lambda>v. v AND 0x80 = 0) i;
     let (vs, i) = run_state (in_words (io_base d) 256) i;
     Some (OK, vs, i)
   }"

definition ata_init :: "kernel \<times> ata \<times> io \<Rightarrow> (kernel \<times> ata \<times> io) option" where
  "ata_init = (\<lambda>(k, a, i). do {
     let k = k\<lparr>lists := list_init (lists k) (ata_device_list a)\<rparr>;
     s \<leftarrow> identify_drive ATA_PRIMARY ATA_MASTER (k, a, i);
     s \<leftarrow> identify_drive ATA_PRIMARY ATA_SLAVE s;
     s \<leftarrow> identify_drive ATA_SECONDARY ATA_MASTER s;
     identify_drive ATA_SECONDARY ATA_SLAVE s
   })"

subsection \<open>Writing a sector\<close>

definition sector_events :: "ata_device \<Rightarrow> u32 \<Rightarrow> u8 \<Rightarrow> io_event list" where
  "sector_events d LBA28 cmd =
     [Out8 (io_base d + 6) ((if ata_drive d = ATA_MASTER then 0xe0 else 0xf0) OR ucast (drop_bit 24 LBA28 AND 0x0f)),
      Out8 (io_base d + 1) 0, Out8 (io_base d + 2) 1, Out8 (io_base d + 3) (ucast LBA28), Out8 (io_base d + 4) (ucast (drop_bit 8 LBA28)),
      Out8 (io_base d + 5) (ucast (drop_bit 16 LBA28)), Out8 (io_base d + 7) cmd]"

lemma sector_command_run: "run_state (sector_command d LBA28 cmd) i = ((), i\<lparr>io_log := io_log i @ sector_events d LBA28 cmd\<rparr>)"
  by (simp add: sector_command_def sector_events_def io_simps Let_def)

lemma out_words_run: "run_state (out_words port vs) i = ((), i\<lparr>io_log := io_log i @ map (Out16 port) vs\<rparr>)"
  by (induction vs arbitrary: i) (simp_all add: io_simps Let_def)

text \<open>If the drive is busy for the first \<open>n\<close> reads of its status and not at the next one, the words of the buffer go out in their order
  after the command with the address, and nothing else does.\<close>

lemma ata_write_sector_events:
  fixes d LBA28 i
  defines "busy k \<equiv> hardware i (io_log i @ sector_events d LBA28 0x30 @ replicate (Suc k) (In8 (io_base d + 7))) AND 0x80 \<noteq> 0"
  assumes "\<And>k. k < n \<Longrightarrow> busy k" "\<not> busy n" "256 \<le> length buf"
  shows "ata_device_write_one_sector d LBA28 buf i =
    Some (OK, i\<lparr>io_log := io_log i @ sector_events d LBA28 0x30 @ replicate (Suc n) (In8 (io_base d + 7)) @ map (Out16 (io_base d)) (take 256 buf)\<rparr>)"
proof -
  let ?i = "i\<lparr>io_log := io_log i @ sector_events d LBA28 0x30\<rparr>"
  have low: "(ucast (w :: u32) AND 0x80 = (0 :: u8)) = (w AND 0x80 = 0)" for w
  proof -
    have "(0x80 :: u8) = 2 ^ 7" "(0x80 :: u32) = 2 ^ 7" by simp_all
    then show ?thesis by (simp only: and_exp_eq_0_iff_not_bit) (simp add: bit_simps)
  qed
  have "poll_inb (io_base d + 7) (\<lambda>v. v AND 0x80 = 0) ?i = Some (ucast (hardware ?i (io_log ?i @ replicate (Suc n) (In8 (io_base d + 7)))),
      ?i\<lparr>io_log := io_log ?i @ replicate (Suc n) (In8 (io_base d + 7))\<rparr>)"
    by (rule poll_inb_returns) (use assms(2,3) in \<open>auto simp: busy_def low\<close>)
  then show ?thesis using assms(4) by (simp add: ata_device_write_one_sector_def sector_command_run out_words_run)
qed

end
