(* ===== verification/Serial.thy ===== *)
theory Serial
  imports Syscalls Ring_Buffer Io_Port
begin

section \<open>The serial line (\<^verbatim>\<open>device/serial.c\<close>)\<close>

text \<open>
  Output waits for the line to be ready; input comes by interrupt into a ring from which tasks read. A read that
  waits is split at the place where it gives up the processor, as those of the terminals are.
\<close>

abbreviation (input) COM1_PORT :: u16 where "COM1_PORT \<equiv> 0x3f8"
abbreviation (input) COM1_INTERRUPT_VECTOR_NUMBER :: int where "COM1_INTERRUPT_VECTOR_NUMBER \<equiv> 36"
abbreviation (input) DEFAULT_SERIAL_RING_BUFFER_SIZE :: nat where "DEFAULT_SERIAL_RING_BUFFER_SIZE \<equiv> 64"

record serial =
  serial_wq_head :: addr
  serial_local_buff :: ring
  current_shelld_pid :: u32
  sio :: io

type_synonym serial_state = "kernel \<times> serial"

definition write_serial :: "u8 \<Rightarrow> serial \<Rightarrow> serial option" where
  "write_serial a s = do {
     (_, i) \<leftarrow> poll_inb (COM1_PORT + 5) (\<lambda>v. v AND 0x20 \<noteq> 0) (sio s);
     Some (s\<lparr>sio := snd (run_state (io_outb COM1_PORT a) i)\<rparr>)
   }"

definition serial_init :: "(io, unit) state" where
  "serial_init = do {
     _ \<leftarrow> io_outb (COM1_PORT + 1) 0x01;
     _ \<leftarrow> io_outb (COM1_PORT + 3) 0x80;
     _ \<leftarrow> io_outb (COM1_PORT + 0) 0x03;
     _ \<leftarrow> io_outb (COM1_PORT + 1) 0x00;
     _ \<leftarrow> io_outb (COM1_PORT + 3) 0x03;
     _ \<leftarrow> io_outb (COM1_PORT + 2) 0xc7;
     io_outb (COM1_PORT + 4) 0x0b
   }"

definition serial0_dev_size :: "addr \<Rightarrow> int" where
  "serial0_dev_size file = 0"

definition serial0_dev_stat :: "addr \<Rightarrow> stat_buf \<Rightarrow> int \<times> stat_buf" where
  "serial0_dev_stat file b = (OK, b\<lparr>st_size := 0\<rparr>)"

fun write_serial_all :: "u8 list \<Rightarrow> serial \<Rightarrow> serial option" where
  "write_serial_all [] s = Some s"
| "write_serial_all (c # rest) s = do { s \<leftarrow> write_serial c s; write_serial_all rest s }"

definition serial0_dev_write :: "u8 list \<Rightarrow> int \<Rightarrow> serial \<Rightarrow> (int \<times> serial) option" where
  "serial0_dev_write buf n s = do {
     kassert (nat n \<le> length buf);
     s \<leftarrow> write_serial_all (take (nat n) buf) s;
     Some (n, s)
   }"

type_synonym serial_read_result = "((int \<times> u8 list) + addr \<times> addr) \<times> serial_state"

definition serial_read_wait :: "addr \<Rightarrow> u8 list \<Rightarrow> int \<Rightarrow> serial_state \<Rightarrow> serial_read_result option" where
  "serial_read_wait wait buf n = (\<lambda>(k, s).
     if ring_empty (serial_local_buff s)
     then do {
       k \<leftarrow> transit_state (current k) TASK_STATE_INTERRUPTIBLE k;
       saved \<leftarrow> yield_cpu_enter k;
       Some (Inr saved, k, s)
     }
     else do {
       (nr_read, buf, r) \<leftarrow> read_ring (serial_local_buff s) buf n;
       k \<leftarrow> remove_wait_queue_entry (serial_wq_head s) wait k;
       Some (Inl (nr_read, buf), k, s\<lparr>serial_local_buff := r\<rparr>)
     })"

definition serial0_dev_read :: "addr \<Rightarrow> u8 list \<Rightarrow> int \<Rightarrow> serial_state \<Rightarrow> serial_read_result option" where
  "serial0_dev_read wait buf n = (\<lambda>(k, s). do {
     kassert (current k \<noteq> NULL);
     let k = initialize_wait_queue_entry wait (current k) k;
     k \<leftarrow> add_wait_queue_entry (serial_wq_head s) wait k;
     serial_read_wait wait buf n (k, s)
   })"

definition serial0_dev_read_resume :: "addr \<Rightarrow> u8 list \<Rightarrow> int \<Rightarrow> addr \<times> addr \<Rightarrow> serial_state \<Rightarrow> serial_read_result option" where
  "serial0_dev_read_resume wait buf n saved = (\<lambda>(k, s). do {
     k \<leftarrow> yield_cpu_leave saved k;
     if signal_pending (tasks k (current k))
     then do {
       k \<leftarrow> remove_wait_queue_entry (serial_wq_head s) wait k;
       Some (Inl (- ERR_INTERRUPTED, buf), k, s)
     }
     else serial_read_wait wait buf n (k, s)
   })"

definition serial0_dev_ioctl :: "u32 \<Rightarrow> u32 \<Rightarrow> serial \<Rightarrow> int \<times> serial" where
  "serial0_dev_ioctl request foo s = (OK, if request = 2 then s\<lparr>current_shelld_pid := foo\<rparr> else s)"

definition serial_data_available :: "(io, u8) state" where
  "serial_data_available = do { v \<leftarrow> io_inb (COM1_PORT + 5); State_Monad.return (v AND 1) }"

definition serial_read :: "(io, u8) state" where
  "serial_read = io_inb COM1_PORT"

text \<open>The loop of the interrupt handler counts the characters that it puts into the ring.\<close>

partial_function (option) serial_receive_loop :: "nat \<Rightarrow> serial_state \<Rightarrow> (nat \<times> serial_state) option" where
  "serial_receive_loop nr_recv ks = (case ks of (k, s) \<Rightarrow> do {
     let (available, i) = run_state serial_data_available (sio s);
     if available = 0 then Some (nr_recv, k, s\<lparr>sio := i\<rparr>)
     else do {
       let (ch, i) = run_state serial_read i;
       let s = s\<lparr>sio := i\<rparr>;
       if ch = 0x18
       then do {
         task \<leftarrow> search_task_by_id (current_shelld_pid s) k;
         k \<leftarrow> (if task \<noteq> NULL then map_option snd (signal_task task SIGINT k) else Some k);
         serial_receive_loop nr_recv (k, s)
       }
       else do {
         (_, r) \<leftarrow> ring_enqueue (serial_local_buff s) ch;
         serial_receive_loop (nr_recv + 1) (k, s\<lparr>serial_local_buff := r\<rparr>)
       }
     }
   })"

declare serial_receive_loop.simps [code]

definition serial_port_interrupt_hadnler :: "addr \<Rightarrow> serial_state \<Rightarrow> (addr \<times> serial_state) option" where
  "serial_port_interrupt_hadnler c s = do {
     (nr_recv, k, s) \<leftarrow> serial_receive_loop 0 s;
     k \<leftarrow> (if nr_recv \<noteq> 0 then wake_up (serial_wq_head s) k else Some k);
     Some (c, k, s)
   }"

definition serial_post_init :: "addr \<Rightarrow> addr \<Rightarrow> u32 \<Rightarrow> kernel \<times> intr \<times> serial \<Rightarrow> (kernel \<times> intr \<times> serial) option" where
  "serial_post_init dev_fs serial0_dev_ops handler = (\<lambda>(k, n, s). do {
     let k = initialize_wait_queue_head (serial_wq_head s) k;
     (f, k) \<leftarrow> register_dev_node dev_fs (c_lit ''/serial0'') 0 serial0_dev_ops NULL k;
     kassert (f \<noteq> NULL);
     n \<leftarrow> register_interrupt_handler COM1_INTERRUPT_VECTOR_NUMBER handler n;
     Some (k, n, s\<lparr>serial_local_buff := ring_reset ((serial_local_buff s)\<lparr>ring_size := int DEFAULT_SERIAL_RING_BUFFER_SIZE + 1\<rparr>)\<rparr>)
   })"

end
