(* ===== verification/Spec2Isabelle.thy ===== *)
theory Spec2Isabelle
  imports Linked_List Ring_Buffer C_String Hash_Table Generic_Tree Paging_Init Kernel_Vma Vfs_Path Malloc_Correct Userspace_Vma Page_Fault Scheduler_Correct Timer Memfs_Correct Vfs_Correct Terminal_Correct Boot Elf_Correct Virtio_Correct Pci Ata Serial
begin

text \<open>
  \<^bold>\<open>Verification of the ZeldaOS kernel.\<close>

  ZeldaOS is a small operating system for one 32-bit x86 processor, written in C. This library models
  its kernel as HOL functions and proves what the functions promise each other. All paths
  below are relative to \<^verbatim>\<open>src/\<close>.

  \<^bold>\<open>Conventions.\<close> A C function becomes a function of the same name (or of the name given below
  where HOL or another theory has the name already). Its result has type \<open>option\<close>: \<open>None\<close> stands
  for a call that never returns, because an \<^verbatim>\<open>ASSERT\<close> fails, because \<^verbatim>\<open>__not_reach()\<close> is
  reached, because a loop does not end, or because an access lies outside its buffer. Error codes of
  the C code are ordinary results: \<open>OK\<close> and \<open>- ERR_X\<close> of type \<open>int\<close>. Machine integers are words of
  their width; a C \<^verbatim>\<open>int\<close> that cannot overflow in the modelled code is an \<open>int\<close>. Memory is
  typed: one function from addresses to cells for list nodes, one for tree nodes, one for the words
  of page tables, one for block headers and so on; address 0 is an ordinary cell, so that writes
  through a null pointer are visible. A loop that may not end is a \<open>partial_function (option)\<close>, and the
  theorems prove that it returns. There is no fuel anywhere. Logging has no effect and is left out.
  A function that gives up the processor ends with \<open>Yield\<close>. Functions called through a
  pointer, addresses that the linker chooses and the contents of registers are parameters or
  fields of the state.

  \<^bold>\<open>Libraries.\<close>
  \<^item> \<open>Kernel_Prelude\<close>: error codes, assertions, page arithmetic and the lemmas on words that all share.
  \<^item> \<open>Linked_List\<close> (\<^verbatim>\<open>lib/list.c\<close>): the intrusive list. Its functions implement operations on sequences,
    and the locale \<open>intrusive_list\<close>, interpreted on them as \<open>kl\<close>, carries over to families of
    disjoint lists, which the hash table and the scheduler use.
  \<^item> \<open>Ring_Buffer\<close> (\<^verbatim>\<open>lib/ring.c\<close>): the ring is a bounded queue.
  \<^item> \<open>C_String\<close> (\<^verbatim>\<open>lib/string.c\<close>): memory blocks and strings with their bounds.
  \<^item> \<open>Hash_Table\<close> (\<^verbatim>\<open>lib/hash_table.c\<close>): a table is a map from keys to nodes, and every sequence of
    searches, insertions and deletions gives the replies of that map. The locale \<open>hash_client\<close> states what the
    comparison function must do; \<open>Scheduler_Correct\<close> interprets it on the table of tasks.
  \<^item> \<open>Generic_Tree\<close> (\<^verbatim>\<open>lib/generic_tree.c\<close>): the tree of children and siblings.

  \<^bold>\<open>Memory.\<close>
  \<^item> \<open>Paging\<close>, \<open>Paging_Init\<close> (\<^verbatim>\<open>memory/paging.c\<close>, \<^verbatim>\<open>memory/physical_memory.c\<close>): the inventories of pages and the two-level
    tables; allocation hands out free pages only, and mapping changes exactly one translation.
  \<^item> \<open>Kernel_Vma\<close> (\<^verbatim>\<open>memory/kernel_vma.c\<close>): the table of the kernel's areas.
  \<^item> \<open>Malloc\<close>, \<open>Malloc_Correct\<close> (\<^verbatim>\<open>memory/malloc.c\<close>): the heap. Live blocks stay disjoint over every sequence
    of allocations and releases, for a memory in which the word behind a null header is large enough; without that
    an allocation that takes a whole block panics, since the code then releases a null pointer. The locale
    \<open>allocator\<close> states the contract.
  \<^item> \<open>Userspace_Vma\<close>, \<open>Task_Paging\<close>, \<open>Task_Paging_Correct\<close> (\<^verbatim>\<open>kernel/userspace_vma.c\<close>, \<^verbatim>\<open>kernel/task_paging.c\<close>): the address spaces of the tasks and
    their separation.
  \<^item> \<open>Page_Fault\<close> (\<^verbatim>\<open>memory/paging_fault.c\<close>): demand paging, and the end of a signal handler. From the interrupt that
    delivers a signal to the one that leaves its handler, the registers of the task come back, but for a selector that the
    entry point exchanges.

  \<^bold>\<open>Tasks and interrupts.\<close>
  \<^item> \<open>Kernel_State\<close> (\<^verbatim>\<open>kernel/include/task.h\<close>): the record \<open>task\<close> and the record \<open>kernel\<close> of all that the task code shares.
  \<^item> \<open>Task_Signal\<close>, \<open>Task_Signal_Correct\<close> (\<^verbatim>\<open>kernel/task_signal.c\<close>): states of tasks and signals. \<open>signal_task\<close> refines a
    machine of two bits, and the delivery of signals is characterised on every branch.
  \<^item> \<open>Descriptors\<close>, \<open>Interrupt\<close> (\<^verbatim>\<open>x86/gdt.c\<close>, \<^verbatim>\<open>x86/tss.c\<close>, \<^verbatim>\<open>x86/interrupt.c\<close>): the tables of the processor and the dispatch of interrupts. The 256 gates
    are set by the table of calls that the code writes out; \<open>user_interrupt\<close> is the way from user mode through the
    common entry point of \<^verbatim>\<open>x86/interrupt_entry.s\<close> to the handler and back.
  \<^item> \<open>Scheduler\<close>, \<open>Scheduler_Correct\<close> (\<^verbatim>\<open>kernel/task.c\<close>, \<^verbatim>\<open>kernel/wait_queue.c\<close>): creation and release of tasks, the table of tasks, the
    queues. \<open>schedule\<close> is a fair round robin, which moves blocked and exiting tasks to their queues.
  \<^item> \<open>Heap_Sort\<close>, \<open>Heap_Sort_Correct\<close> (\<^verbatim>\<open>lib/heap_sort.c\<close>): the binary heap on tree nodes. Its shape is a complete tree, and the
    locale \<open>heap_order\<close> shows what each operation does to the set of nodes and to their order.
  \<^item> \<open>Timer\<close> (\<^verbatim>\<open>kernel/timer.c\<close>, \<^verbatim>\<open>x86/pit.c\<close>): timers in the heap and the clock interrupt. The clock calls exactly
    the timers that are due.
  \<^item> \<open>Syscalls\<close> (\<^verbatim>\<open>kernel/system_call.c\<close>, \<^verbatim>\<open>kernel/task_misc.c\<close>): the table of system calls and the calls. A call that waits is
    split into the part before it gives up the processor and the part after.
  \<^item> \<open>Elf\<close>, \<open>Elf_Correct\<close> (\<^verbatim>\<open>kernel/elf.c\<close>, \<^verbatim>\<open>call_sys_execve\<close>): loading of programs into a memory of bytes. The arguments
    of a program survive the way through its command line, and the words pushed below them do not touch their text.
  \<^item> \<open>Boot\<close> (\<^verbatim>\<open>task_init\<close>): the idle task and the first program.
  \<^item> \<open>Work_Queue\<close> (\<^verbatim>\<open>kernel/work_queue.c\<close>): kernel tasks that run a function when they are notified.

  \<^bold>\<open>Files.\<close>
  \<^item> \<open>Vfs_Path\<close> (\<^verbatim>\<open>filesystem/vfs.c\<close>): path names and mount points.
  \<^item> \<open>Memfs_Block\<close>, \<open>Memfs_Correct\<close> (\<^verbatim>\<open>filesystem/memfs_blocking.c\<close>): the blocks of a file in memory. The blocks of a file
    are a sequence of bytes; writing and reading are the operations on that sequence.
  \<^item> \<open>Fs_Hierarchy\<close> (\<^verbatim>\<open>filesystem/fs_hierarchy.c\<close>): the tree of directories and files of one file system.
  \<^item> \<open>Vfs\<close>, \<open>File_Systems\<close> (\<^verbatim>\<open>filesystem/vfs.c\<close>, \<^verbatim>\<open>filesystem/memfs.c\<close>, \<^verbatim>\<open>devfs.c\<close>, \<^verbatim>\<open>zeldafs.c\<close>, \<^verbatim>\<open>dummyfs.c\<close>): the operations on paths and on open
    files, and the file systems with their operation tables.
  \<^item> \<open>Vfs_Correct\<close>: an open file in memory behaves as a sequence of bytes with a position.

  \<^bold>\<open>Console.\<close>
  \<^item> \<open>Printk\<close>, \<open>Printk_Correct\<close> (\<^verbatim>\<open>kernel/printk.c\<close>): the ring of rows behind the screen and the formatted output. The
    screen shows the end of the text; \<open>sprintf\<close> writes the text that an independent reading of the format gives
    (the smallest integer apart, whose decimal digits come out wrong) and needs exactly the room that the text takes.
  \<^item> \<open>Terminal\<close>, \<open>Keyboard\<close> (\<^verbatim>\<open>device/pseudo_terminal.c\<close>, \<^verbatim>\<open>device/keyboard.c\<close>, \<^verbatim>\<open>device/console.c\<close>): the terminals with their two input rings, the
    interrupt of the keyboard with its shortcuts, and the devices of the terminals and of the console.
  \<^item> \<open>Terminal_Correct\<close>: the console and the terminals share the screen; it shows the end of the text of the
    one that was switched to last.

  \<^bold>\<open>Devices and network.\<close>
  \<^item> \<open>Io_Port\<close> (\<^verbatim>\<open>x86/ioport.c\<close>, \<^verbatim>\<open>kernel/rtc.c\<close>): accesses to ports form a history, and the hardware is a function of it.
    Code that only talks to ports is in the state monad.
  \<^item> \<open>Pci\<close> (\<^verbatim>\<open>device/pci.c\<close>, \<^verbatim>\<open>device/virtio_pci.c\<close>), \<open>Ata\<close> (\<^verbatim>\<open>device/ata.c\<close>), \<open>Serial\<close> (\<^verbatim>\<open>device/serial.c\<close>): the drivers on the ports.
    Finding the size of a region restores its register; writing a sector sends exactly the command and the data.
  \<^item> \<open>Net_Packet\<close>, \<open>Ethernet\<close> (\<^verbatim>\<open>network/net_packet.c\<close>, \<^verbatim>\<open>network/ethernet.c\<close>, \<^verbatim>\<open>network/ethernet_rx.c\<close>): packets with their pool, the table of
    devices, reception.
  \<^item> \<open>Virtio_Net\<close>, \<open>Virtio_Correct\<close> (\<^verbatim>\<open>network/virtio_net.c\<close>): the queues shared with a network card. The driver and the card are
    a step relation; over every interleaving no packet is lost or duplicated and no call fails.

  \<^bold>\<open>Not modelled.\<close> Assembly and what depends on it: the multiboot header, the stubs that push the number of an interrupt, the halting of the
  processor, toggling the paging bit, and \<^verbatim>\<open>kernel/panic.c\<close>, which prints the stack; a panic is \<open>None\<close> here. Logging and the dumps. The order of
  \<^verbatim>\<open>kernel/main.c\<close>, which runs constructors from a table that the linker makes. In \<^verbatim>\<open>virtio_net.c\<close> the attachment of a device: it clears the memory of a
  queue through page faults taken in the middle of a function. The inline tests, which are compiled out. The applications and the runtime
  under \<^verbatim>\<open>application/\<close> and \<^verbatim>\<open>runtime/\<close>: they are built on a C library that the repository has only as an archive.
\<close>

end
